(* ===== verification/Prelude.thy ===== *)
theory Prelude
  imports Complex_Main "HOL-Library.Word" "HOL-Library.Multiset" "HOL-Library.Signed_Division"
begin

unbundle bit_operations_syntax

section \<open>Shared vocabulary of the development\<close>

text \<open>
  This theory fixes how the Go language is read in HOL.  A Go \<open>int64\<close> (and the 64-bit \<open>int\<close>)
  whose overflow matters is an \<^typ>\<open>int\<close> kept in range by \<open>in_i64\<close>; every arithmetic
  operation of the source that can overflow is followed by \<open>wrap64\<close>, the two's complement
  wrap-around of the language specification.  Unsigned machine integers are words.  A Go string
  is a \<^typ>\<open>string\<close>, read byte by byte.  A function with an error result returns a sum: \<open>Inl\<close>
  carries the error and \<open>Inr\<close> the value.  A panic is an error of its own in that sum.
  The theory also holds the lemmas on lists, indices modulo a capacity and association lists
  that the component theories share.
\<close>

named_theorems i64_defs \<open>definitions of the 64-bit integer layer\<close>
named_theorems ring_simps \<open>reading and writing circular buffers\<close>

subsection \<open>Signed 64-bit integers\<close>

definition MinInt64 :: int where
  "MinInt64 = - (2 ^ 63)"

definition MaxInt64 :: int where
  "MaxInt64 = 2 ^ 63 - 1"

definition in_i64 :: "int \<Rightarrow> bool" where
  "in_i64 x \<longleftrightarrow> MinInt64 \<le> x \<and> x \<le> MaxInt64"

definition wrap64 :: "int \<Rightarrow> int" where
  "wrap64 x = (x + 2 ^ 63) mod 2 ^ 64 - 2 ^ 63"

text \<open>Go's \<open>/\<close> and \<open>%\<close> truncate toward zero; the one overflowing quotient wraps.\<close>

definition quo64 :: "int \<Rightarrow> int \<Rightarrow> int" where
  "quo64 a b = wrap64 (a sdiv b)"

definition rem64 :: "int \<Rightarrow> int \<Rightarrow> int" where
  "rem64 a b = a smod b"

lemmas [i64_defs] = MinInt64_def MaxInt64_def in_i64_def wrap64_def

lemma wrap64_in_i64 [simp, intro]: "in_i64 (wrap64 x)"
proof -
  have "0 \<le> (x + 2 ^ 63) mod 2 ^ 64" and "(x + 2 ^ 63) mod 2 ^ 64 < 2 ^ 64"
    by simp_all
  then show ?thesis
    unfolding i64_defs by simp
qed

lemma wrap64_id [simp]: "in_i64 x \<Longrightarrow> wrap64 x = x"
  unfolding i64_defs by (simp add: mod_pos_pos_trivial)

lemma in_i64_abs: "in_i64 x \<Longrightarrow> \<bar>x\<bar> \<le> 2 ^ 63"
  unfolding in_i64_def MinInt64_def MaxInt64_def by (simp add: abs_le_iff)

lemma abs_in_i64: "\<bar>x\<bar> < 2 ^ 63 \<Longrightarrow> in_i64 x"
  unfolding in_i64_def MinInt64_def MaxInt64_def by (simp add: abs_less_iff)

lemma wrap64_eq_iff: "wrap64 x = x \<longleftrightarrow> in_i64 x"
  by (metis wrap64_id wrap64_in_i64)

lemma wrap64_shift: obtains k where "wrap64 x = x + k * 2 ^ 64"
proof -
  have "(x + 2 ^ 63) mod 2 ^ 64 = x + 2 ^ 63 - (x + 2 ^ 63) div 2 ^ 64 * 2 ^ 64"
    by (rule minus_div_mult_eq_mod [symmetric])
  then have "wrap64 x = x + (- ((x + 2 ^ 63) div 2 ^ 64)) * 2 ^ 64"
    unfolding wrap64_def by linarith
  then show ?thesis by (rule that)
qed

lemma wrap64_unique:
  assumes "in_i64 y" and "y = x + k * 2 ^ 64"
  shows "wrap64 x = y"
proof -
  obtain j where j: "wrap64 x = x + j * 2 ^ 64" by (rule wrap64_shift)
  have "in_i64 (wrap64 x)" by simp
  then have "- (2 ^ 63) \<le> x + j * 2 ^ 64" and "x + j * 2 ^ 64 \<le> 2 ^ 63 - 1"
    using j unfolding in_i64_def MinInt64_def MaxInt64_def by simp_all
  moreover have "- (2 ^ 63) \<le> x + k * 2 ^ 64" and "x + k * 2 ^ 64 \<le> 2 ^ 63 - 1"
    using assms unfolding in_i64_def MinInt64_def MaxInt64_def by simp_all
  ultimately have "j = k" by simp
  with j assms show ?thesis by simp
qed

lemma wrap64_mod_cong: "x mod 2 ^ 64 = y mod 2 ^ 64 \<Longrightarrow> wrap64 x = wrap64 y"
  unfolding wrap64_def by (metis mod_add_left_eq)

subsection \<open>Truncated division\<close>

lemma smod_abs_less: "b \<noteq> 0 \<Longrightarrow> \<bar>(a::int) smod b\<bar> < \<bar>b\<bar>"
  by (simp add: smod_int_alt_def abs_mult)

lemma sdiv_abs: "\<bar>(a::int) sdiv b\<bar> = \<bar>a\<bar> div \<bar>b\<bar>" if "b \<noteq> 0"
  using that by (cases "a = 0") (simp_all add: signed_divide_int_def abs_mult pos_imp_zdiv_nonneg_iff)

lemma smod_abs: "\<bar>(a::int) smod b\<bar> = \<bar>a\<bar> mod \<bar>b\<bar>" if "b \<noteq> 0"
  using that by (cases "a = 0") (simp_all add: smod_int_alt_def abs_mult)

subsection \<open>Circular buffers\<close>

text \<open>
  The logical content of a circular buffer: \<open>n\<close> elements from index \<open>start\<close>, indices taken
  modulo the length of the backing slice.
\<close>

definition ring_items :: "'a list \<Rightarrow> nat \<Rightarrow> nat \<Rightarrow> 'a list" where
  "ring_items buf start n = map (\<lambda>i. buf ! ((start + i) mod length buf)) [0..<n]"

lemma length_ring_items [simp]: "length (ring_items buf start n) = n"
  by (simp add: ring_items_def)

lemma ring_items_0 [simp]: "ring_items buf start 0 = []"
  by (simp add: ring_items_def)

lemma ring_items_eq_Nil [simp]: "ring_items buf start n = [] \<longleftrightarrow> n = 0"
  by (simp add: ring_items_def)

lemma nth_ring_items [simp]: "i < n \<Longrightarrow> ring_items buf start n ! i = buf ! ((start + i) mod length buf)"
  by (simp add: ring_items_def)

lemma ring_index_inj:
  fixes c :: nat
  assumes "i < c" and "j < c" and "(s + i) mod c = (s + j) mod c"
  shows "i = j"
proof -
  have "b = a" if "a \<le> b" "b < c" "(s + a) mod c = (s + b) mod c" for a b
  proof -
    have "c dvd (s + b) - (s + a)"
      using that by (intro mod_eq_dvd_iff_nat [THEN iffD1]) simp_all
    then have "c dvd b - a" by simp
    moreover have "b - a < c" using that by simp
    ultimately have "b - a = 0" by (meson gr0I nat_dvd_not_less)
    with that show ?thesis by simp
  qed
  from this [of i j] this [of j i] assms show ?thesis by (metis nat_le_linear)
qed

lemma ring_items_snoc [ring_simps]:
  assumes "n < length buf"
  shows "ring_items (buf[(start + n) mod length buf := v]) start (Suc n) = ring_items buf start n @ [v]"
proof (rule nth_equalityI)
  fix i assume "i < length (ring_items (buf[(start + n) mod length buf := v]) start (Suc n))"
  then have i: "i < Suc n" by simp
  have lt: "(start + i) mod length buf < length buf" using assms by (intro mod_less_divisor) linarith
  show "ring_items (buf[(start + n) mod length buf := v]) start (Suc n) ! i
      = (ring_items buf start n @ [v]) ! i"
  proof (cases "i = n")
    case True
    then show ?thesis using lt by (simp add: nth_append del: upt_Suc)
  next
    case False
    then have "i < n" using i by simp
    then have "(start + n) mod length buf \<noteq> (start + i) mod length buf"
      using assms ring_index_inj [of n "length buf" i start] by auto
    with \<open>i < n\<close> show ?thesis by (simp add: nth_append del: upt_Suc)
  qed
qed simp

lemma ring_items_Suc:
  assumes "start < length buf"
  shows "ring_items buf start (Suc n) = buf ! start # ring_items buf ((start + 1) mod length buf) n"
proof (rule nth_equalityI)
  fix i assume i: "i < length (ring_items buf start (Suc n))"
  show "ring_items buf start (Suc n) ! i
      = (buf ! start # ring_items buf ((start + 1) mod length buf) n) ! i"
    using i assms by (cases i) (simp_all add: mod_simps)
qed simp

lemma ring_items_update_other:
  assumes "\<And>i. i < n \<Longrightarrow> (start + i) mod length buf \<noteq> k"
  shows "ring_items (buf[k := v]) start n = ring_items buf start n"
proof -
  have "buf[k := v] ! ((start + i) mod length buf) = buf ! ((start + i) mod length buf)" if "i < n" for i
    by (rule nth_list_update_neq) (use assms [OF that] in simp)
  then show ?thesis by (simp add: ring_items_def)
qed

text \<open>Taking the oldest element, whose slot is then overwritten.\<close>

lemma ring_items_pop [ring_simps]:
  assumes "start < length buf" and "0 < n" and "n \<le> length buf"
  shows "ring_items (buf[start := v]) ((start + 1) mod length buf) (n - 1) = tl (ring_items buf start n)"
    and "buf ! start = hd (ring_items buf start n)"
proof -
  obtain m where n: "n = Suc m" using assms(2) by (cases n) simp_all
  have "((start + 1) mod length buf + i) mod length buf \<noteq> start" if "i < m" for i
  proof
    assume "((start + 1) mod length buf + i) mod length buf = start"
    then have "(start + Suc i) mod length buf = (start + 0) mod length buf"
      using assms(1) by (simp add: mod_simps)
    moreover have "Suc i < length buf" "0 < length buf" using that assms n by linarith+
    ultimately show False using ring_index_inj [of "Suc i" "length buf" 0 start] by simp
  qed
  then show "ring_items (buf[start := v]) ((start + 1) mod length buf) (n - 1) = tl (ring_items buf start n)"
    using assms(1) by (simp add: ring_items_update_other n ring_items_Suc)
  show "buf ! start = hd (ring_items buf start n)"
    using assms(1) by (simp add: n ring_items_Suc)
qed

text \<open>Overwriting the oldest element of a full buffer.\<close>

lemma ring_items_overwrite [ring_simps]:
  assumes "start < length buf"
  shows "ring_items (buf[start := v]) ((start + 1) mod length buf) (length buf)
    = tl (ring_items buf start (length buf)) @ [v]"
proof -
  let ?s = "(start + 1) mod length buf" and ?n = "length buf - 1"
  have pos: "0 < length buf" using assms by linarith
  have "(?s + ?n) mod length buf = (start + 1 + ?n) mod length buf"
    by (simp add: mod_add_left_eq)
  also have "start + 1 + ?n = start + length buf" using pos by simp
  finally have "(?s + ?n) mod length buf = (start + length buf) mod length buf" .
  then have ix: "(?s + ?n) mod length buf = start" using assms by simp
  have "ring_items ((buf[start := v])[(?s + ?n) mod length (buf[start := v]) := v]) ?s (Suc ?n)
      = ring_items (buf[start := v]) ?s ?n @ [v]"
    using pos by (intro ring_items_snoc) simp
  then have "ring_items (buf[start := v]) ?s (Suc ?n) = ring_items (buf[start := v]) ?s ?n @ [v]"
    by (simp only: length_list_update ix list_update_overwrite)
  then show ?thesis
    using ring_items_pop(1) [of start buf "length buf" v] assms pos by simp
qed

subsection \<open>Unstable sorting\<close>

text \<open>
  \<open>slices.SortFunc\<close> and \<open>sort.Slice\<close> leave the order of equal elements open.  A definition that
  calls them takes the sorting function as an argument; what the library documents is \<open>is_sort\<close>.
\<close>

definition is_sort :: "('a \<Rightarrow> 'k::linorder) \<Rightarrow> ('a list \<Rightarrow> 'a list) \<Rightarrow> bool" where
  "is_sort key srt \<longleftrightarrow> (\<forall>xs. mset (srt xs) = mset xs \<and> sorted (map key (srt xs)))"

lemma is_sort_sort_key: "is_sort key (sort_key key)"
  by (simp add: is_sort_def)

lemma is_sortD:
  assumes "is_sort key srt"
  shows "mset (srt xs) = mset xs" "sorted (map key (srt xs))" "set (srt xs) = set xs" "length (srt xs) = length xs"
proof -
  show m: "mset (srt xs) = mset xs" and "sorted (map key (srt xs))" using assms by (simp_all add: is_sort_def)
  show "set (srt xs) = set xs" using m by (rule mset_eq_setD)
  show "length (srt xs) = length xs" using m by (rule mset_eq_length)
qed

text \<open>Counting over a list one of whose entries changes.\<close>

lemma sum_list_map_update:
  fixes f :: "'a \<Rightarrow> nat"
  shows "i < length xs \<Longrightarrow> sum_list (map f (xs[i := x])) + f (xs ! i) = sum_list (map f xs) + f x"
  by (induction xs arbitrary: i) (auto split: nat.splits simp: less_Suc_eq_0_disj)

lemma sum_list_map_member: "i < length xs \<Longrightarrow> (f (xs ! i) :: nat) \<le> sum_list (map f xs)"
  by (rule member_le_sum_list) simp_all

end
