(* ===== verification/Strconv.thy ===== *)
theory Strconv
  imports Prelude
begin

section \<open>Decimal strings\<close>

text \<open>
  The parts of Go's \<open>strconv\<close>, \<open>strings\<close> and \<open>math/big\<close> that the money and decimal packages
  use to print and parse numbers: \<open>strconv.Itoa\<close>, \<open>strconv.ParseInt(s, 10, 64)\<close>,
  \<open>(*big.Int).SetString(s, 10)\<close>, the \<open>%0*d\<close> verb of \<open>fmt\<close>, \<open>strings.TrimSpace\<close> and
  \<open>strings.SplitN(s, sep, 2)\<close>.  The lemmas are the print/parse round trips.
\<close>

definition byte :: "char \<Rightarrow> nat" where
  "byte c = of_char c"

definition digit_char :: "nat \<Rightarrow> char" where
  "digit_char d = char_of (48 + d)"

definition is_digit :: "char \<Rightarrow> bool" where
  "is_digit c \<longleftrightarrow> 48 \<le> byte c \<and> byte c \<le> 57"

definition digit_val :: "char \<Rightarrow> nat" where
  "digit_val c = byte c - 48"

fun itoa_nat :: "nat \<Rightarrow> string" where
  "itoa_nat n = (if n < 10 then [digit_char n] else itoa_nat (n div 10) @ [digit_char (n mod 10)])"

definition digits_val :: "string \<Rightarrow> nat" where
  "digits_val = foldl (\<lambda>v c. v * 10 + digit_val c) 0"

definition Itoa :: "int \<Rightarrow> string" where
  "Itoa x = (if x < 0 then CHR ''-'' # itoa_nat (nat (- x)) else itoa_nat (nat x))"

text \<open>An unsigned number is a non-empty run of digits.\<close>

definition parse_uint :: "string \<Rightarrow> nat option" where
  "parse_uint s = (if s \<noteq> [] \<and> list_all is_digit s then Some (digits_val s) else None)"

text \<open>An optional sign, then an unsigned number: what \<open>big.Int.SetString\<close> accepts in base 10.\<close>

definition SetString10 :: "string \<Rightarrow> int option" where
  "SetString10 s =
     (case s of
        [] \<Rightarrow> None
      | c # cs \<Rightarrow>
          if c = CHR ''+'' then map_option int (parse_uint cs)
          else if c = CHR ''-'' then map_option (\<lambda>n. - int n) (parse_uint cs)
          else map_option int (parse_uint s))"

definition ParseInt64 :: "string \<Rightarrow> int option" where
  "ParseInt64 s =
     (case SetString10 s of
        None \<Rightarrow> None
      | Some x \<Rightarrow> if in_i64 x then Some x else None)"

text \<open>
  \<open>fmt\<close>'s \<open>%0*d\<close>: the number is padded with zeros to the given width, the sign counted; a
  negative width is the \<open>-\<close> flag, which left-justifies and pads with spaces.
\<close>

definition fmt_0star_d :: "int \<Rightarrow> int \<Rightarrow> string" where
  "fmt_0star_d w x =
     (let ds = itoa_nat (nat \<bar>x\<bar>); sg = (if x < 0 then ''-'' else '''') in
      if w < 0 then sg @ ds @ replicate (nat (- w) - length (sg @ ds)) CHR '' ''
      else sg @ replicate (nat w - length (sg @ ds)) CHR ''0'' @ ds)"

text \<open>The UTF-8 encodings of the code points with the White Space property.\<close>

definition space_encodings :: "string list" where
  "space_encodings =
     map (map char_of)
      [[9], [10], [11], [12], [13], [32], [194, 133], [194, 160], [225, 154, 128],
       [226, 128, 128], [226, 128, 129], [226, 128, 130], [226, 128, 131], [226, 128, 132],
       [226, 128, 133], [226, 128, 134], [226, 128, 135], [226, 128, 136], [226, 128, 137],
       [226, 128, 138], [226, 128, 168], [226, 128, 169], [226, 128, 175], [226, 129, 159],
       [227, 128, 128::nat]]"

fun starts_with :: "string \<Rightarrow> string \<Rightarrow> bool" where
  "starts_with [] s = True"
| "starts_with (p # ps) [] = False"
| "starts_with (p # ps) (c # cs) = (p = c \<and> starts_with ps cs)"

function trim_left :: "string list \<Rightarrow> string \<Rightarrow> string" where
  "trim_left encs s =
     (case find (\<lambda>e. e \<noteq> [] \<and> starts_with e s) encs of
        None \<Rightarrow> s
      | Some e \<Rightarrow> if s = [] then s else trim_left encs (drop (length e) s))"
  by pat_completeness auto
termination
  by (relation "measure (\<lambda>(encs, s). length s)") (auto simp: find_Some_iff)

definition TrimSpace :: "string \<Rightarrow> string" where
  "TrimSpace s =
     rev (trim_left (map rev space_encodings) (rev (trim_left space_encodings s)))"

text \<open>\<open>strings.SplitN(s, ".", 2)\<close>: the text before the first separator, and the rest if there is one.\<close>

fun split2 :: "char \<Rightarrow> string \<Rightarrow> string \<times> string option" where
  "split2 sep [] = ([], None)"
| "split2 sep (c # cs) =
     (if c = sep then ([], Some cs) else (case split2 sep cs of (a, b) \<Rightarrow> (c # a, b)))"

declare itoa_nat.simps [simp del] trim_left.simps [simp del]

subsection \<open>Printing and parsing digits\<close>

lemma byte_less [simp]: "byte c < 256"
  by (simp add: byte_def)

lemma byte_char_of: "n < 256 \<Longrightarrow> byte (char_of n) = n"
  by (simp add: byte_def)

lemma byte_eq_iff: "byte c = byte d \<longleftrightarrow> c = d"
  by (simp add: byte_def)

lemma digit_char_props [simp]:
  assumes "d < 10"
  shows "is_digit (digit_char d)" and "digit_val (digit_char d) = d"
  using assms by (simp_all add: is_digit_def digit_val_def digit_char_def byte_char_of)

lemma is_digit_zero [simp]: "is_digit CHR ''0''" and digit_val_zero [simp]: "digit_val CHR ''0'' = 0"
  by (simp_all add: is_digit_def digit_val_def byte_def)

lemma not_digit [simp]: "\<not> is_digit CHR ''+''" "\<not> is_digit CHR ''-''" "\<not> is_digit CHR ''.''"
  by (simp_all add: is_digit_def byte_def)

lemma digit_neq: "is_digit c \<Longrightarrow> c \<noteq> CHR ''+'' \<and> c \<noteq> CHR ''-'' \<and> c \<noteq> CHR ''.''"
  by (metis not_digit)

lemma digits_val_Nil [simp]: "digits_val [] = 0"
  by (simp add: digits_val_def)

lemma digits_val_snoc: "digits_val (s @ [c]) = digits_val s * 10 + digit_val c"
  by (simp add: digits_val_def)

lemma foldl_digits_shift:
  "foldl (\<lambda>v c. v * 10 + digit_val c) a s = a * 10 ^ length s + digits_val s"
proof (induction s arbitrary: a rule: rev_induct)
  case Nil
  then show ?case by simp
next
  case (snoc c s)
  then show ?case by (simp add: digits_val_snoc algebra_simps)
qed

lemma digits_val_append: "digits_val (s @ t) = digits_val s * 10 ^ length t + digits_val t"
proof -
  have "digits_val (s @ t) = foldl (\<lambda>v c. v * 10 + digit_val c) (digits_val s) t"
    by (simp add: digits_val_def)
  then show ?thesis by (simp only: foldl_digits_shift)
qed

lemma digits_val_single [simp]: "digits_val [c] = digit_val c"
  by (simp add: digits_val_def)

lemma digits_val_zeros [simp]: "digits_val (replicate k CHR ''0'') = 0"
proof (induction k)
  case (Suc k)
  then show ?case
    using digits_val_append [of "[CHR ''0'']" "replicate k CHR ''0''"] by simp
qed simp

lemma digits_val_pad: "digits_val (replicate k CHR ''0'' @ s) = digits_val s"
  by (simp add: digits_val_append)

lemma digits_val_pad_right: "digits_val (s @ replicate k CHR ''0'') = digits_val s * 10 ^ k"
  by (simp add: digits_val_append)

lemma digit_val_less: "is_digit c \<Longrightarrow> digit_val c < 10"
  by (auto simp: is_digit_def digit_val_def)

lemma digits_val_less: "list_all is_digit s \<Longrightarrow> digits_val s < 10 ^ length s"
proof (induction s rule: rev_induct)
  case (snoc c s)
  then have "digits_val s + 1 \<le> 10 ^ length s" and "digit_val c < 10"
    using digit_val_less by (simp_all add: Suc_le_eq)
  then have "(digits_val s + 1) * 10 \<le> 10 ^ length s * 10" and "digit_val c < 10"
    by (simp_all del: add_mult_distrib)
  then show ?case by (simp add: digits_val_append)
qed simp

lemma itoa_nat_nonempty [simp]: "itoa_nat n \<noteq> []"
  by (subst itoa_nat.simps) simp

lemma itoa_nat_props: "list_all is_digit (itoa_nat n) \<and> digits_val (itoa_nat n) = n"
proof (induction n rule: itoa_nat.induct)
  case (1 n)
  show ?case
  proof (cases "n < 10")
    case True
    then show ?thesis by (simp add: itoa_nat.simps [of n])
  next
    case False
    with 1 show ?thesis by (simp add: itoa_nat.simps [of n] digits_val_append)
  qed
qed

lemmas itoa_nat_digits [simp] = itoa_nat_props [THEN conjunct1]
lemmas digits_val_itoa_nat [simp] = itoa_nat_props [THEN conjunct2]

lemma length_itoa_nat: "n < 10 ^ k \<Longrightarrow> 0 < k \<Longrightarrow> length (itoa_nat n) \<le> k"
proof (induction n arbitrary: k rule: itoa_nat.induct)
  case (1 n)
  show ?case
  proof (cases "n < 10")
    case True
    with 1 show ?thesis by (simp add: itoa_nat.simps [of n] Suc_leI)
  next
    case False
    then obtain j where k: "k = Suc j" and "0 < j"
      using 1 by (cases k; cases "k - 1") auto
    with 1 have "n div 10 < 10 ^ j" by (simp add: less_mult_imp_div_less mult.commute)
    with 1(1) False \<open>0 < j\<close> have "length (itoa_nat (n div 10)) \<le> j" by blast
    with False k show ?thesis by (simp add: itoa_nat.simps [of n])
  qed
qed

lemma list_all_zeros [simp]: "list_all is_digit (replicate k CHR ''0'')"
  by (induction k) simp_all

lemma parse_uint_itoa [simp]: "parse_uint (itoa_nat n) = Some n"
  by (simp add: parse_uint_def)

lemma parse_uint_pad [simp]: "parse_uint (replicate k CHR ''0'' @ itoa_nat n) = Some n"
  by (simp add: parse_uint_def digits_val_pad list_all_zeros)

lemma parse_uint_Some_iff:
  "parse_uint s = Some n \<longleftrightarrow> s \<noteq> [] \<and> list_all is_digit s \<and> n = digits_val s"
  by (auto simp: parse_uint_def)

lemma SetString10_digits: "list_all is_digit s \<Longrightarrow> s \<noteq> [] \<Longrightarrow> SetString10 s = Some (int (digits_val s))"
  by (cases s) (auto simp: SetString10_def parse_uint_def)

lemma ParseInt64_digits:
  assumes "list_all is_digit s" and "s \<noteq> []"
  shows "ParseInt64 s = (if in_i64 (int (digits_val s)) then Some (int (digits_val s)) else None)"
  by (simp add: ParseInt64_def SetString10_digits [OF assms])

subsection \<open>Splitting and trimming\<close>

lemma split2_no_sep: "sep \<notin> set s \<Longrightarrow> split2 sep s = (s, None)"
  by (induction s) auto

lemma split2_append: "sep \<notin> set s \<Longrightarrow> split2 sep (s @ sep # t) = (s, Some t)"
  by (induction s) auto

lemma starts_with_hd: "starts_with e (c # s) \<Longrightarrow> e \<noteq> [] \<Longrightarrow> hd e = c"
  by (cases e) auto

lemma trim_left_id: "(\<And>e. e \<in> set encs \<Longrightarrow> e \<noteq> [] \<Longrightarrow> \<not> starts_with e s) \<Longrightarrow> trim_left encs s = s"
proof -
  assume "\<And>e. e \<in> set encs \<Longrightarrow> e \<noteq> [] \<Longrightarrow> \<not> starts_with e s"
  then have "find (\<lambda>e. e \<noteq> [] \<and> starts_with e s) encs = None"
    by (auto simp: find_None_iff)
  then show ?thesis by (subst trim_left.simps) simp
qed

lemma space_encodings_bytes:
  "list_all (\<lambda>e. byte (hd e) \<notin> insert 45 {48..57} \<and> byte (last e) \<notin> insert 45 {48..57}) space_encodings"
  by (simp add: space_encodings_def byte_char_of)

lemma digit_not_space:
  assumes "is_digit c \<or> c = CHR ''-''" and "e \<in> set space_encodings"
  shows "hd e \<noteq> c" and "last e \<noteq> c"
proof -
  have "byte c \<in> insert 45 {48..57}"
    using assms(1) by (auto simp: is_digit_def byte_def)
  moreover have "byte (hd e) \<notin> insert 45 {48..57}" and "byte (last e) \<notin> insert 45 {48..57}"
    using space_encodings_bytes assms(2) unfolding list_all_iff by auto
  ultimately show "hd e \<noteq> c" and "last e \<noteq> c"
    by auto
qed

lemma TrimSpace_id:
  assumes "s = c # t" and "is_digit c \<or> c = CHR ''-''" and "is_digit (last s)"
  shows "TrimSpace s = s"
proof -
  have "trim_left space_encodings s = s"
  proof (rule trim_left_id)
    fix e assume "e \<in> set space_encodings" and "e \<noteq> []"
    then show "\<not> starts_with e s"
      using digit_not_space(1) [OF assms(2)] starts_with_hd [of e c t] assms(1) by auto
  qed
  moreover have "trim_left (map rev space_encodings) (rev s) = rev s"
  proof (rule trim_left_id)
    fix e assume "e \<in> set (map rev space_encodings)" and e: "e \<noteq> []"
    then obtain f where f: "f \<in> set space_encodings" "e = rev f" by auto
    then have ne: "hd e \<noteq> last s"
      using digit_not_space(2) [of "last s" f] assms(3) by (simp add: hd_rev)
    have s: "rev s = last s # rev (butlast s)"
      using assms(1) by (cases s rule: rev_cases) simp_all
    show "\<not> starts_with e (rev s)"
      unfolding s using ne e starts_with_hd by metis
  qed
  ultimately show ?thesis by (simp add: TrimSpace_def)
qed

end
