(* ===== verification/Money.thy ===== *)
theory Money
  imports Strconv
begin

section \<open>Package money: fixed-point amounts in ISO 4217 currencies\<close>

text \<open>
  \<open>src/money/currency.go\<close> (the registry) and \<open>src/money/money.go\<close> (the \<open>Money\<close> type).
  The package-level registry is an explicit map, passed to the functions that read it.
  Amounts are 64-bit minor units: sums, differences and products of the source are followed by
  \<^const>\<open>wrap64\<close> and the overflow tests are the source's own.
\<close>

record currency =
  cur_Code :: string
  cur_Numeric :: string
  cur_Decimals :: int

datatype money_error =
    money_ErrCurrencyMismatch
  | money_ErrUnknownCurrency
  | money_ErrOverflow
  | money_ErrInvalidAmount
  | money_ErrDivideByZero
  | money_ErrNoRatios
  | money_ErrNegativeRatio
  | money_ErrZeroRatios
  | money_Panic

datatype rounding = RoundHalfUp | RoundHalfEven | RoundDown | RoundUp

record money =
  m_amount :: int
  m_cur :: currency

type_synonym registry = "string \<rightharpoonup> currency"

subsection \<open>The currency registry\<close>

definition upperASCII :: "string \<Rightarrow> string" where
  "upperASCII s =
     map (\<lambda>c. if 97 \<le> byte c \<and> byte c \<le> 122 then char_of (byte c - 32) else c) s"

definition money_Lookup :: "registry \<Rightarrow> string \<Rightarrow> currency option" where
  "money_Lookup reg code = reg (upperASCII code)"

definition MustCurrency :: "registry \<Rightarrow> string \<Rightarrow> money_error + currency" where
  "MustCurrency reg code =
     (case money_Lookup reg code of None \<Rightarrow> Inl money_Panic | Some c \<Rightarrow> Inr c)"

definition RegisterCurrency :: "registry \<Rightarrow> currency \<Rightarrow> registry" where
  "RegisterCurrency reg c = (if cur_Code c = [] then reg else reg(upperASCII (cur_Code c) \<mapsto> c))"

definition iso4217 :: "(string \<times> string \<times> int) list" where
  "iso4217 =
    [(''USD'', ''840'', 2), (''EUR'', ''978'', 2), (''GBP'', ''826'', 2), (''JPY'', ''392'', 0),
     (''CHF'', ''756'', 2), (''CAD'', ''124'', 2), (''AUD'', ''036'', 2), (''NZD'', ''554'', 2),
     (''CNY'', ''156'', 2), (''HKD'', ''344'', 2), (''SGD'', ''702'', 2), (''INR'', ''356'', 2),
     (''KRW'', ''410'', 0), (''BRL'', ''986'', 2), (''MXN'', ''484'', 2), (''RUB'', ''643'', 2),
     (''ZAR'', ''710'', 2), (''TRY'', ''949'', 2), (''SEK'', ''752'', 2), (''NOK'', ''578'', 2),
     (''DKK'', ''208'', 2), (''PLN'', ''985'', 2), (''THB'', ''764'', 2), (''IDR'', ''360'', 2),
     (''MYR'', ''458'', 2), (''PHP'', ''608'', 2), (''VND'', ''704'', 0), (''ILS'', ''376'', 2),
     (''AED'', ''784'', 2), (''SAR'', ''682'', 2), (''KWD'', ''414'', 3), (''BHD'', ''048'', 3),
     (''OMR'', ''512'', 3), (''JOD'', ''400'', 3), (''CLP'', ''152'', 0), (''COP'', ''170'', 2),
     (''PEN'', ''604'', 2), (''ARS'', ''032'', 2), (''TWD'', ''901'', 2), (''CZK'', ''203'', 2),
     (''HUF'', ''348'', 2), (''RON'', ''946'', 2), (''NGN'', ''566'', 2), (''PKR'', ''586'', 2),
     (''BDT'', ''050'', 2), (''EGP'', ''818'', 2), (''QAR'', ''634'', 2), (''KZT'', ''398'', 2)]"

fun mk_currency :: "string \<times> string \<times> int \<Rightarrow> currency" where
  "mk_currency (code, num, dec) = \<lparr>cur_Code = code, cur_Numeric = num, cur_Decimals = dec\<rparr>"

definition money_init :: registry where
  "money_init =
     foldl (\<lambda>m c. m(upperASCII (cur_Code c) \<mapsto> c)) Map.empty (map mk_currency iso4217)"

subsection \<open>Checked arithmetic\<close>

definition addChecked :: "int \<Rightarrow> int \<Rightarrow> money_error + int" where
  "addChecked a b =
     (let s = wrap64 (a + b) in
      if (s > a) \<noteq> (b > 0) then Inl money_ErrOverflow else Inr s)"

definition subChecked :: "int \<Rightarrow> int \<Rightarrow> money_error + int" where
  "subChecked a b =
     (let d = wrap64 (a - b) in
      if (a XOR b) AND (a XOR d) < 0 then Inl money_ErrOverflow else Inr d)"

definition mulChecked :: "int \<Rightarrow> int \<Rightarrow> money_error + int" where
  "mulChecked a b =
     (if a = 0 \<or> b = 0 then Inr 0
      else if a = MinInt64 \<and> b = -1 then Inl money_ErrOverflow
      else let p = wrap64 (a * b) in
        if quo64 p b \<noteq> a then Inl money_ErrOverflow else Inr p)"

definition absI64 :: "int \<Rightarrow> int" where
  "absI64 x = (if x < 0 then wrap64 (- x) else x)"

text \<open>The loop \<open>for range c.Decimals { minor, err = mulChecked(minor, 10) }\<close>.\<close>

fun mul10_loop :: "nat \<Rightarrow> int \<Rightarrow> money_error + int" where
  "mul10_loop 0 minor = Inr minor"
| "mul10_loop (Suc n) minor =
     (case mulChecked minor 10 of Inl e \<Rightarrow> Inl e | Inr m \<Rightarrow> mul10_loop n m)"

subsection \<open>Construction\<close>

definition FromMinor :: "registry \<Rightarrow> int \<Rightarrow> string \<Rightarrow> money_error + money" where
  "FromMinor reg minor code =
     (case money_Lookup reg code of
        None \<Rightarrow> Inl money_ErrUnknownCurrency
      | Some c \<Rightarrow>
          if minor = MinInt64 then Inl money_ErrOverflow
          else Inr \<lparr>m_amount = minor, m_cur = c\<rparr>)"

definition MustFromMinor :: "registry \<Rightarrow> int \<Rightarrow> string \<Rightarrow> money_error + money" where
  "MustFromMinor reg minor code =
     (case FromMinor reg minor code of Inl _ \<Rightarrow> Inl money_Panic | Inr m \<Rightarrow> Inr m)"

definition FromMajor :: "registry \<Rightarrow> int \<Rightarrow> int \<Rightarrow> string \<Rightarrow> money_error + money" where
  "FromMajor reg whole frac_part code =
     (case money_Lookup reg code of
        None \<Rightarrow> Inl money_ErrUnknownCurrency
      | Some c \<Rightarrow>
          if cur_Decimals c = 0 then
            (if frac_part \<noteq> 0 then Inl money_ErrInvalidAmount
             else if whole = MinInt64 then Inl money_ErrOverflow
             else Inr \<lparr>m_amount = whole, m_cur = c\<rparr>)
          else if (whole < 0) \<noteq> (frac_part < 0) \<and> whole \<noteq> 0 \<and> frac_part \<noteq> 0 then Inl money_ErrInvalidAmount
          else
            let fracStr = Itoa (absI64 frac_part) in
            if cur_Decimals c < int (length fracStr) then Inl money_ErrInvalidAmount
            else
              case ParseInt64 (replicate (nat (cur_Decimals c - int (length fracStr))) CHR ''0'' @ fracStr) of
                None \<Rightarrow> Inl money_ErrInvalidAmount
              | Some scaledFrac \<Rightarrow>
                  (case mul10_loop (nat (cur_Decimals c)) whole of
                     Inl e \<Rightarrow> Inl e
                   | Inr minor \<Rightarrow>
                       let minor = (if whole < 0 \<or> frac_part < 0 then wrap64 (minor - scaledFrac)
                                    else wrap64 (minor + scaledFrac)) in
                       if minor = MinInt64 then Inl money_ErrOverflow
                       else Inr \<lparr>m_amount = minor, m_cur = c\<rparr>))"

text \<open>\<open>Parse\<close>: the optional sign, the digits before the point, the digits after it.\<close>

definition parse_sign :: "string \<Rightarrow> bool \<times> string" where
  "parse_sign s =
     (case s of
        [] \<Rightarrow> (False, s)
      | c # cs \<Rightarrow> if c = CHR ''-'' then (True, cs) else if c = CHR ''+'' then (False, cs) else (False, s))"

definition parse_frac :: "int \<Rightarrow> string option \<Rightarrow> money_error + int" where
  "parse_frac dec part =
     (case part of
        None \<Rightarrow> Inr 0
      | Some fs \<Rightarrow>
          if dec < int (length fs) then Inl money_ErrInvalidAmount
          else case ParseInt64 (fs @ replicate (nat (dec - int (length fs))) CHR ''0'') of
              None \<Rightarrow> Inl money_ErrInvalidAmount
            | Some frac_part \<Rightarrow> if frac_part < 0 then Inl money_ErrInvalidAmount else Inr frac_part)"

definition money_Parse :: "registry \<Rightarrow> string \<Rightarrow> string \<Rightarrow> money_error + money" where
  "money_Parse reg code amount =
     (case money_Lookup reg code of
        None \<Rightarrow> Inl money_ErrUnknownCurrency
      | Some c \<Rightarrow>
          let s0 = TrimSpace amount in
          if s0 = [] then Inl money_ErrInvalidAmount
          else case parse_sign s0 of (neg, s) \<Rightarrow>
            if s = [] \<or> hd s = CHR ''+'' \<or> hd s = CHR ''-'' then Inl money_ErrInvalidAmount
            else case split2 CHR ''.'' s of (whole_s, frac_s) \<Rightarrow>
              case ParseInt64 whole_s of
                None \<Rightarrow> Inl money_ErrInvalidAmount
              | Some whole \<Rightarrow>
                  if whole < 0 then Inl money_ErrInvalidAmount
                  else case parse_frac (cur_Decimals c) frac_s of
                      Inl e \<Rightarrow> Inl e
                    | Inr frac_part \<Rightarrow>
                        (case mul10_loop (nat (cur_Decimals c)) whole of
                           Inl e \<Rightarrow> Inl e
                         | Inr scaled \<Rightarrow>
                             let minor = wrap64 (scaled + frac_part);
                                 minor = (if neg then wrap64 (- minor) else minor) in
                             if minor = MinInt64 then Inl money_ErrOverflow
                             else Inr \<lparr>m_amount = minor, m_cur = c\<rparr>))"

subsection \<open>Rendering\<close>

fun pow10_loop :: "nat \<Rightarrow> int \<Rightarrow> int" where
  "pow10_loop 0 d = d"
| "pow10_loop (Suc n) d = pow10_loop n (wrap64 (d * 10))"

text \<open>The text in front of the blank and the currency code.\<close>

definition amount_text :: "money \<Rightarrow> money_error + string" where
  "amount_text m =
     (let dec = cur_Decimals (m_cur m);
          sign = (if m_amount m < 0 then ''-'' else '''');
          abs = (if m_amount m < 0 then wrap64 (- m_amount m) else m_amount m) in
      if dec = 0 then Inr (sign @ Itoa abs)
      else
        let d = pow10_loop (nat dec) 1 in
        if d = 0 then Inl money_Panic
        else Inr (sign @ Itoa (quo64 abs d) @ ''.'' @ fmt_0star_d dec (rem64 abs d)))"

definition money_String :: "money \<Rightarrow> money_error + string" where
  "money_String m =
     (case amount_text m of
        Inl e \<Rightarrow> Inl e
      | Inr s \<Rightarrow> Inr (s @ '' '' @ cur_Code (m_cur m)))"

subsection \<open>Arithmetic\<close>

definition money_same :: "money \<Rightarrow> money \<Rightarrow> money_error option" where
  "money_same m other = (if m_cur m \<noteq> m_cur other then Some money_ErrCurrencyMismatch else None)"

definition money_Add :: "money \<Rightarrow> money \<Rightarrow> money_error + money" where
  "money_Add m other =
     (case money_same m other of
        Some e \<Rightarrow> Inl e
      | None \<Rightarrow>
          (case addChecked (m_amount m) (m_amount other) of
             Inl e \<Rightarrow> Inl e
           | Inr s \<Rightarrow> Inr \<lparr>m_amount = s, m_cur = m_cur m\<rparr>))"

definition money_Sub :: "money \<Rightarrow> money \<Rightarrow> money_error + money" where
  "money_Sub m other =
     (case money_same m other of
        Some e \<Rightarrow> Inl e
      | None \<Rightarrow>
          (case subChecked (m_amount m) (m_amount other) of
             Inl e \<Rightarrow> Inl e
           | Inr d \<Rightarrow> Inr \<lparr>m_amount = d, m_cur = m_cur m\<rparr>))"

definition money_Mul :: "money \<Rightarrow> int \<Rightarrow> money_error + money" where
  "money_Mul m factor =
     (case mulChecked (m_amount m) factor of
        Inl e \<Rightarrow> Inl e
      | Inr p \<Rightarrow> Inr \<lparr>m_amount = p, m_cur = m_cur m\<rparr>)"

datatype round_direction = roundStay | roundAway

definition boolRoundDir :: "bool \<Rightarrow> round_direction" where
  "boolRoundDir b = (if b then roundAway else roundStay)"

definition roundDir :: "int \<Rightarrow> int \<Rightarrow> rounding \<Rightarrow> int \<Rightarrow> round_direction" where
  "roundDir r divisor mode q =
     (if r = 0 then roundStay
      else
        let absRem = absI64 r; absDiv = absI64 divisor in
        case mode of
          RoundDown \<Rightarrow> roundStay
        | RoundUp \<Rightarrow> roundAway
        | RoundHalfEven \<Rightarrow>
            if wrap64 (absRem * 2) \<noteq> absDiv then boolRoundDir (wrap64 (absRem * 2) > absDiv)
            else if rem64 q 2 \<noteq> 0 then roundAway
            else roundStay
        | RoundHalfUp \<Rightarrow> boolRoundDir (wrap64 (absRem * 2) \<ge> absDiv))"

definition shouldRoundUp :: "int \<Rightarrow> int \<Rightarrow> rounding \<Rightarrow> bool" where
  "shouldRoundUp r divisor mode =
     (if mode = RoundHalfEven \<and> r = 0 then False
      else if mode = RoundHalfEven \<and> wrap64 (absI64 r * 2) = absI64 divisor then True
      else roundDir r divisor mode 0 = roundAway)"

definition money_Div :: "money \<Rightarrow> int \<Rightarrow> rounding \<Rightarrow> money_error + money" where
  "money_Div m divisor mode =
     (if divisor = 0 then Inl money_ErrDivideByZero
      else if m_amount m = MinInt64 \<and> divisor = -1 then Inl money_ErrOverflow
      else
        let q = quo64 (m_amount m) divisor;
            r = rem64 (m_amount m) divisor;
            negative = ((m_amount m < 0) \<noteq> (divisor < 0)) in
        Inr \<lparr>m_amount =
               (case roundDir r divisor mode q of
                  roundAway \<Rightarrow> if negative then wrap64 (q - 1) else wrap64 (q + 1)
                | roundStay \<Rightarrow> q),
             m_cur = m_cur m\<rparr>)"

definition money_Negate :: "money \<Rightarrow> money" where
  "money_Negate m = \<lparr>m_amount = wrap64 (- m_amount m), m_cur = m_cur m\<rparr>"

definition money_Abs :: "money \<Rightarrow> money" where
  "money_Abs m =
     (if m_amount m < 0 then \<lparr>m_amount = wrap64 (- m_amount m), m_cur = m_cur m\<rparr> else m)"

definition money_Cmp :: "money \<Rightarrow> money \<Rightarrow> money_error + int" where
  "money_Cmp m other =
     (case money_same m other of
        Some e \<Rightarrow> Inl e
      | None \<Rightarrow>
          Inr (if m_amount m < m_amount other then -1 else if m_amount m > m_amount other then 1 else 0))"

definition money_Equal :: "money \<Rightarrow> money \<Rightarrow> bool" where
  "money_Equal m other \<longleftrightarrow> m_amount m = m_amount other \<and> m_cur m = m_cur other"

definition money_IsZero :: "money \<Rightarrow> bool" where
  "money_IsZero m \<longleftrightarrow> m_amount m = 0"

definition money_IsPositive :: "money \<Rightarrow> bool" where
  "money_IsPositive m \<longleftrightarrow> m_amount m > 0"

definition money_IsNegative :: "money \<Rightarrow> bool" where
  "money_IsNegative m \<longleftrightarrow> m_amount m < 0"

subsection \<open>Checked arithmetic is exact\<close>

lemma addChecked_exact:
  assumes "in_i64 a" and "in_i64 b"
  shows "addChecked a b = (if in_i64 (a + b) then Inr (a + b) else Inl money_ErrOverflow)"
proof (cases "in_i64 (a + b)")
  case True
  then show ?thesis by (auto simp: addChecked_def)
next
  case False
  then have "a + b > MaxInt64 \<and> b > 0 \<or> a + b < MinInt64 \<and> b < 0"
    using assms unfolding in_i64_def MinInt64_def MaxInt64_def by auto
  then show ?thesis
  proof
    assume b: "a + b > MaxInt64 \<and> b > 0"
    have "wrap64 (a + b) = a + b + (-1) * 2 ^ 64"
      by (rule wrap64_unique [OF _ refl]) (use b assms in \<open>simp add: i64_defs\<close>)
    with b assms False show ?thesis by (simp add: addChecked_def i64_defs)
  next
    assume b: "a + b < MinInt64 \<and> b < 0"
    have "wrap64 (a + b) = a + b + 1 * 2 ^ 64"
      by (rule wrap64_unique [OF _ refl]) (use b assms in \<open>simp add: i64_defs\<close>)
    with b assms False show ?thesis by (simp add: addChecked_def i64_defs)
  qed
qed

lemma subChecked_exact:
  assumes "in_i64 a" and "in_i64 b"
  shows "subChecked a b = (if in_i64 (a - b) then Inr (a - b) else Inl money_ErrOverflow)"
proof (cases "in_i64 (a - b)")
  case True
  then show ?thesis
    by (auto simp: subChecked_def and_negative_int_iff xor_negative_int_iff)
next
  case False
  then have "a - b > MaxInt64 \<and> b < 0 \<and> 0 \<le> a \<or> a - b < MinInt64 \<and> b \<ge> 0 \<and> a < 0"
    using assms unfolding in_i64_def MinInt64_def MaxInt64_def by auto
  then show ?thesis
  proof
    assume b: "a - b > MaxInt64 \<and> b < 0 \<and> 0 \<le> a"
    have "wrap64 (a - b) = a - b + (-1) * 2 ^ 64"
      by (rule wrap64_unique [OF _ refl]) (use b assms in \<open>simp add: i64_defs\<close>)
    with b assms False show ?thesis
      by (simp add: subChecked_def i64_defs and_negative_int_iff xor_negative_int_iff)
  next
    assume b: "a - b < MinInt64 \<and> b \<ge> 0 \<and> a < 0"
    have "wrap64 (a - b) = a - b + 1 * 2 ^ 64"
      by (rule wrap64_unique [OF _ refl]) (use b assms in \<open>simp add: i64_defs\<close>)
    with b assms False show ?thesis
      by (simp add: subChecked_def i64_defs and_negative_int_iff xor_negative_int_iff)
  qed
qed

lemma sdiv_in_i64:
  assumes "in_i64 a" and "in_i64 b" and "\<not> (a = MinInt64 \<and> b = -1)"
  shows "in_i64 (a sdiv b)"
proof (cases "b = -1")
  case True
  with assms show ?thesis by (simp add: i64_defs)
next
  case False
  have "a sdiv b \<in> {- \<bar>a\<bar>..\<bar>a\<bar>}" by (rule sdiv_int_range)
  moreover have "a sdiv b \<noteq> 2 ^ 63"
  proof
    assume *: "a sdiv b = 2 ^ 63"
    then have "b \<noteq> 0" by auto
    then have "\<bar>a\<bar> div \<bar>b\<bar> = 2 ^ 63" using * sdiv_abs [of b a] by simp
    moreover have "\<bar>a\<bar> div \<bar>b\<bar> * \<bar>b\<bar> + \<bar>a\<bar> mod \<bar>b\<bar> = \<bar>a\<bar>" by simp
    moreover have "0 \<le> \<bar>a\<bar> mod \<bar>b\<bar>" using \<open>b \<noteq> 0\<close> by simp
    ultimately have "2 ^ 63 * \<bar>b\<bar> \<le> \<bar>a\<bar>" by simp
    moreover have "\<bar>a\<bar> \<le> 2 ^ 63" using assms(1) by (rule in_i64_abs)
    ultimately have "\<bar>b\<bar> = 1" "\<bar>a\<bar> = 2 ^ 63" using \<open>b \<noteq> 0\<close> by auto
    then have "a = - (2 ^ 63)" "b = 1"
      using assms False by (auto simp: i64_defs abs_if split: if_splits)
    with * show False by simp
  qed
  ultimately show ?thesis using assms by (auto simp: i64_defs)
qed

lemma mult_sdiv_cancel: "(b::int) \<noteq> 0 \<Longrightarrow> a * b sdiv b = a"
proof -
  assume "b \<noteq> 0"
  then have "sgn b * sgn b = 1" by (simp add: sgn_if)
  moreover have "a * b sdiv b = sgn a * \<bar>a\<bar> * (sgn b * sgn b)"
    using \<open>b \<noteq> 0\<close> by (simp add: signed_divide_int_def sgn_mult abs_mult)
  ultimately show ?thesis by (simp add: sgn_mult_abs)
qed

lemma mulChecked_exact:
  assumes "in_i64 a" and "in_i64 b"
  shows "mulChecked a b = (if in_i64 (a * b) then Inr (a * b) else Inl money_ErrOverflow)"
proof -
  consider "a = 0 \<or> b = 0" | "a = MinInt64" "b = -1" | "a \<noteq> 0" "b \<noteq> 0" "\<not> (a = MinInt64 \<and> b = -1)"
    by blast
  then show ?thesis
  proof cases
    case 1
    then show ?thesis by (auto simp: mulChecked_def i64_defs)
  next
    case 2
    then show ?thesis by (simp add: mulChecked_def i64_defs)
  next
    case 3
    obtain k where k: "wrap64 (a * b) = a * b + k * 2 ^ 64" by (rule wrap64_shift)
    show ?thesis
    proof (cases "in_i64 (a * b)")
      case True
      then have "quo64 (wrap64 (a * b)) b = a"
        using 3 assms by (simp add: quo64_def mult_sdiv_cancel)
      with 3 True show ?thesis by (simp add: mulChecked_def)
    next
      case False
      then have "k \<noteq> 0" using k wrap64_in_i64 [of "a * b"] by auto
      have "quo64 (wrap64 (a * b)) b \<noteq> a"
      proof
        assume q: "quo64 (wrap64 (a * b)) b = a"
        then have "\<not> (wrap64 (a * b) = MinInt64 \<and> b = -1)"
          using 3 by (auto simp: quo64_def i64_defs)
        then have "wrap64 (a * b) sdiv b = a"
          using q assms sdiv_in_i64 [of "wrap64 (a * b)" b] by (simp add: quo64_def)
        then have "wrap64 (a * b) smod b = k * 2 ^ 64"
          using sdiv_mult_smod_eq [of "wrap64 (a * b)" b] k by simp
        moreover have "\<bar>wrap64 (a * b) smod b\<bar> < 2 ^ 64"
          using smod_abs_less [of b "wrap64 (a * b)"] 3 in_i64_abs [OF assms(2)] by simp
        ultimately show False using \<open>k \<noteq> 0\<close> by (simp add: abs_mult)
      qed
      with 3 False show ?thesis by (simp add: mulChecked_def)
    qed
  qed
qed

lemma mul10_loop_exact:
  "in_i64 x \<Longrightarrow>
   mul10_loop n x = (if in_i64 (x * 10 ^ n) then Inr (x * 10 ^ n) else Inl money_ErrOverflow)"
proof (induction n arbitrary: x)
  case (Suc n)
  have ten: "in_i64 10" by (simp add: i64_defs)
  show ?case
  proof (cases "in_i64 (x * 10)")
    case True
    with Suc ten show ?thesis by (simp add: mulChecked_exact mult.assoc)
  next
    case False
    have "x * 10 * 1 \<le> x * 10 * 10 ^ n" if "0 \<le> x"
      by (rule mult_left_mono) (use that in simp_all)
    moreover have "x * 10 * 10 ^ n \<le> x * 10 * 1" if "x \<le> 0"
      by (rule mult_left_mono_neg) (use that in simp_all)
    ultimately have "\<not> in_i64 (x * 10 * 10 ^ n)"
      using False unfolding in_i64_def MinInt64_def MaxInt64_def by linarith
    then have "\<not> in_i64 (x * 10 ^ Suc n)" by (simp add: mult.assoc)
    with False Suc.prems ten show ?thesis by (simp add: mulChecked_exact)
  qed
qed simp

text \<open>
  C1. The three overflow tests are exact: on 64-bit operands \<open>addChecked\<close>, \<open>subChecked\<close> and
  \<open>mulChecked\<close> return the mathematical result when it fits in an \<open>int64\<close> and
  \<open>ErrOverflow\<close> when it does not; they never return a wrapped value.
\<close>

theorem checked_arithmetic_exact:
  assumes "in_i64 a" and "in_i64 b"
  shows "addChecked a b = (if in_i64 (a + b) then Inr (a + b) else Inl money_ErrOverflow) \<and>
    subChecked a b = (if in_i64 (a - b) then Inr (a - b) else Inl money_ErrOverflow) \<and>
    mulChecked a b = (if in_i64 (a * b) then Inr (a * b) else Inl money_ErrOverflow)"
  by (intro conjI addChecked_exact [OF assms] subChecked_exact [OF assms] mulChecked_exact [OF assms])

theorem checked_arithmetic_exact_witness:
  "mulChecked MinInt64 (-1) = Inl money_ErrOverflow \<and> subChecked MaxInt64 MinInt64 = Inl money_ErrOverflow
   \<and> addChecked 7 (-9) = Inr (-2)"
  using checked_arithmetic_exact [of MinInt64 "-1"] checked_arithmetic_exact [of MaxInt64 MinInt64]
    checked_arithmetic_exact [of 7 "-9"]
  by (simp add: in_i64_def MinInt64_def MaxInt64_def)

subsection \<open>Rounded division\<close>

text \<open>What each rounding mode promises of the quotient \<open>q\<close> of \<open>a\<close> by \<open>d\<close>.\<close>

definition rounds_to :: "rounding \<Rightarrow> int \<Rightarrow> int \<Rightarrow> int \<Rightarrow> bool" where
  "rounds_to mode a d q \<longleftrightarrow>
     \<bar>a - q * d\<bar> < \<bar>d\<bar> \<and>
     (case mode of
        RoundDown \<Rightarrow> \<bar>q * d\<bar> \<le> \<bar>a\<bar>
      | RoundUp \<Rightarrow> \<bar>a\<bar> \<le> \<bar>q * d\<bar>
      | RoundHalfUp \<Rightarrow> 2 * \<bar>a - q * d\<bar> \<le> \<bar>d\<bar> \<and> (2 * \<bar>a - q * d\<bar> = \<bar>d\<bar> \<longrightarrow> \<bar>a\<bar> < \<bar>q * d\<bar>)
      | RoundHalfEven \<Rightarrow> 2 * \<bar>a - q * d\<bar> \<le> \<bar>d\<bar> \<and> (2 * \<bar>a - q * d\<bar> = \<bar>d\<bar> \<longrightarrow> even q))"

lemma absI64_eq: "\<bar>x\<bar> < 2 ^ 63 \<Longrightarrow> absI64 x = \<bar>x\<bar>"
  using abs_in_i64 [of "- x"] by (simp add: absI64_def)

lemma odd_rem64: "rem64 q 2 \<noteq> 0 \<longleftrightarrow> odd q"
  by (cases "q < 0") (simp_all add: rem64_def signed_modulo_int_def sgn_if, presburger+)

text \<open>The quotient one step away from zero, and its distance from the dividend.\<close>

lemma step_away:
  fixes a d :: int
  assumes "a smod d \<noteq> 0" and "d \<noteq> 0"
  defines "q \<equiv> (if (a < 0) \<noteq> (d < 0) then a sdiv d - 1 else a sdiv d + 1)"
  shows "\<bar>a - q * d\<bar> = \<bar>d\<bar> - \<bar>a smod d\<bar>" and "\<bar>q * d\<bar> = \<bar>a\<bar> + (\<bar>d\<bar> - \<bar>a smod d\<bar>)"
proof -
  have a: "a = a sdiv d * d + a smod d" by (simp add: sdiv_mult_smod_eq)
  have r: "\<bar>a smod d\<bar> < \<bar>d\<bar>" using assms by (simp add: smod_abs_less)
  have sr: "a smod d = sgn a * \<bar>a smod d\<bar>"
    using assms(2) smod_abs [of d a] by (simp add: signed_modulo_int_def)
  have "q * d = a sdiv d * d + sgn a * \<bar>d\<bar>"
    using assms by (auto simp: q_def sgn_if abs_if algebra_simps)
  then have qd: "q * d = a - a smod d + sgn a * \<bar>d\<bar>" using a by linarith
  have "sgn a = 1 \<or> sgn a = -1" using assms(1) by (auto simp: sgn_if)
  then show "\<bar>a - q * d\<bar> = \<bar>d\<bar> - \<bar>a smod d\<bar>"
    using qd sr r by auto
  show "\<bar>q * d\<bar> = \<bar>a\<bar> + (\<bar>d\<bar> - \<bar>a smod d\<bar>)"
    using qd sr r \<open>sgn a = 1 \<or> sgn a = -1\<close> by (auto simp: sgn_if split: if_splits)
qed

lemma stay_dist:
  fixes a d :: int
  shows "a - a sdiv d * d = a smod d" and "d \<noteq> 0 \<Longrightarrow> \<bar>a sdiv d * d\<bar> = \<bar>a\<bar> - \<bar>a smod d\<bar>"
proof -
  show "a - a sdiv d * d = a smod d" by (rule minus_sdiv_mult_eq_smod)
  assume "d \<noteq> 0"
  then show "\<bar>a sdiv d * d\<bar> = \<bar>a\<bar> - \<bar>a smod d\<bar>"
    by (simp add: abs_mult sdiv_abs smod_abs minus_mod_eq_div_mult)
qed

lemma sdiv_step_in_i64:
  assumes "in_i64 a" and "in_i64 d" and "a smod d \<noteq> 0" and "d \<noteq> 0"
  shows "in_i64 (a sdiv d - 1)" and "in_i64 (a sdiv d + 1)"
proof -
  have "d \<noteq> 1" "d \<noteq> -1" using assms(3) by (auto simp: signed_modulo_int_def)
  then have "2 \<le> \<bar>d\<bar>" using assms(4) by linarith
  then have "\<bar>a\<bar> div \<bar>d\<bar> \<le> \<bar>a\<bar> div 2"
    by (intro zdiv_mono2) simp_all
  also have "\<dots> \<le> 2 ^ 62" using in_i64_abs [OF assms(1)] by simp
  finally have "\<bar>a sdiv d\<bar> \<le> 2 ^ 62" using assms(4) by (simp add: sdiv_abs)
  then show "in_i64 (a sdiv d - 1)" and "in_i64 (a sdiv d + 1)"
    by (simp_all add: in_i64_def MinInt64_def MaxInt64_def abs_le_iff)
qed

lemma money_Div_amount:
  assumes "in_i64 (m_amount m)" and "in_i64 d" and "d \<noteq> 0" and "\<not> (m_amount m = MinInt64 \<and> d = -1)"
  defines "a \<equiv> m_amount m"
  shows "money_Div m d mode =
    Inr \<lparr>m_amount =
          (if roundDir (a smod d) d mode (a sdiv d) = roundAway
           then (if (a < 0) \<noteq> (d < 0) then a sdiv d - 1 else a sdiv d + 1) else a sdiv d),
        m_cur = m_cur m\<rparr>"
proof -
  have q: "quo64 a d = a sdiv d"
    using sdiv_in_i64 [of a d] assms by (simp add: quo64_def a_def)
  have "roundDir (a smod d) d mode (a sdiv d) = roundAway \<Longrightarrow> a smod d \<noteq> 0"
    by (auto simp: roundDir_def)
  then show ?thesis
    using assms q sdiv_step_in_i64 [of a d]
    by (auto simp: money_Div_def Let_def rem64_def a_def split: round_direction.split)
qed

text \<open>
  \<open>Money.Div\<close> rounds as its mode says.  For an amount and a divisor of magnitude at most
  \<open>2^62\<close> (so that doubling the remainder does not overflow) the returned quotient is the
  truncated one for \<open>RoundDown\<close>, the next one away from zero for \<open>RoundUp\<close>, and a nearest one
  for the two half modes, with ties away from zero or to the even quotient.
\<close>
lemma div_rounds:
  assumes "in_i64 (m_amount m)" and "d \<noteq> 0" and "\<bar>d\<bar> \<le> 2 ^ 62" and "\<not> (m_amount m = MinInt64 \<and> d = -1)"
  shows "\<exists>q. money_Div m d mode = Inr \<lparr>m_amount = q, m_cur = m_cur m\<rparr> \<and> rounds_to mode (m_amount m) d q"
proof -
  let ?a = "m_amount m"
  let ?r = "?a smod d"
  have d: "in_i64 d" using assms(3) by (intro abs_in_i64) simp
  have r: "\<bar>?r\<bar> < \<bar>d\<bar>" using assms(2) by (rule smod_abs_less)
  have abs: "absI64 ?r = \<bar>?r\<bar>" "absI64 d = \<bar>d\<bar>" "wrap64 (\<bar>?r\<bar> * 2) = \<bar>?r\<bar> * 2"
    using r assms(3) by (auto intro!: absI64_eq wrap64_id abs_in_i64)
  define q1 where "q1 = (if (?a < 0) \<noteq> (d < 0) then ?a sdiv d - 1 else ?a sdiv d + 1)"
  have par: "even q1 \<longleftrightarrow> odd (?a sdiv d)" by (simp add: q1_def)
  note dir = roundDir_def boolRoundDir_def abs odd_rem64 Let_def
  have "rounds_to mode ?a d (if roundDir ?r d mode (?a sdiv d) = roundAway then q1 else ?a sdiv d)"
  proof (cases "roundDir ?r d mode (?a sdiv d) = roundAway")
    case True
    then have "?r \<noteq> 0" by (auto simp: roundDir_def)
    note away = step_away [OF this assms(2), folded q1_def]
    from True r \<open>?r \<noteq> 0\<close> show ?thesis
      by (cases mode) (simp_all add: rounds_to_def away par dir split: if_splits)
  next
    case False
    note stay = stay_dist(1) [of ?a d] stay_dist(2) [OF assms(2), of ?a]
    from False r show ?thesis
      by (cases mode) (simp_all add: rounds_to_def stay dir split: if_splits)
  qed
  then show ?thesis
    using money_Div_amount [OF assms(1) d assms(2,4), of mode] unfolding q1_def by blast
qed

text \<open>
  Beyond \<open>2^62\<close> the doubled remainder wraps around and \<open>Div\<close> rounds the wrong way: dividing
  the amount \<open>2^63 - 2\<close> by the divisor \<open>2^63 - 1\<close> half-up gives 0, although the exact quotient is
  just below 1 and 1 is the nearest integer.
\<close>
lemma div_large_divisor_misrounds:
  "\<exists>m d. in_i64 (m_amount m) \<and> in_i64 d \<and>
     money_Div m d RoundHalfUp = Inr \<lparr>m_amount = 0, m_cur = m_cur m\<rparr> \<and>
     \<bar>m_amount m - 1 * d\<bar> < \<bar>m_amount m - 0 * d\<bar> \<and> \<not> rounds_to RoundHalfUp (m_amount m) d 0"
proof -
  let ?m = "\<lparr>m_amount = 2 ^ 63 - 2, m_cur = mk_currency (''USD'', ''840'', 2)\<rparr>"
  let ?d = "2 ^ 63 - 1 :: int"
  have "money_Div ?m ?d RoundHalfUp = Inr \<lparr>m_amount = 0, m_cur = m_cur ?m\<rparr>"
    by (simp add: money_Div_def quo64_def rem64_def roundDir_def absI64_def boolRoundDir_def wrap64_def
        MinInt64_def)
  moreover have "\<not> rounds_to RoundHalfUp (m_amount ?m) ?d 0"
    by (simp add: rounds_to_def)
  moreover have "in_i64 (m_amount ?m)" and "in_i64 ?d"
    by (simp_all add: in_i64_def MinInt64_def MaxInt64_def)
  moreover have "\<bar>m_amount ?m - 1 * ?d\<bar> < \<bar>m_amount ?m - 0 * ?d\<bar>" by simp
  ultimately show ?thesis by blast
qed

subsection \<open>Parsing and rendering\<close>

lemma split2_digits:
  assumes "list_all is_digit w"
  shows "split2 CHR ''.'' w = (w, None)" and "split2 CHR ''.'' (w @ CHR ''.'' # f) = (w, Some f)"
proof -
  have "CHR ''.'' \<notin> set w" using assms by (auto simp: list_all_iff)
  then show "split2 CHR ''.'' w = (w, None)" and "split2 CHR ''.'' (w @ CHR ''.'' # f) = (w, Some f)"
    by (simp_all add: split2_no_sep split2_append)
qed

lemma parse_frac_digits:
  assumes "list_all is_digit f" and "f \<noteq> []" and "int (length f) \<le> dec"
  shows "parse_frac dec (Some f) =
     (let F = int (digits_val f) * 10 ^ (nat dec - length f) in
      if in_i64 F then Inr F else Inl money_ErrInvalidAmount)"
proof -
  let ?f = "f @ replicate (nat (dec - int (length f))) CHR ''0''"
  have k: "nat (dec - int (length f)) = nat dec - length f" using assms(3) by simp
  have "ParseInt64 ?f = (if in_i64 (int (digits_val ?f)) then Some (int (digits_val ?f)) else None)"
    using assms by (intro ParseInt64_digits) simp_all
  moreover have "\<not> int (digits_val f) * 10 ^ (nat dec - length f) < 0" by (simp add: not_less)
  ultimately show ?thesis
    using assms(3) by (simp add: parse_frac_def digits_val_pad_right k Let_def)
qed

text \<open>An amount text: an optional minus sign, digits, and optionally a point and more digits.\<close>

definition amount_form :: "bool \<Rightarrow> string \<Rightarrow> string option \<Rightarrow> string" where
  "amount_form neg w fo =
     (if neg then ''-'' else []) @ w @ (case fo of None \<Rightarrow> [] | Some f \<Rightarrow> CHR ''.'' # f)"

definition frac_value :: "nat \<Rightarrow> string option \<Rightarrow> int" where
  "frac_value dec fo =
     (case fo of None \<Rightarrow> 0 | Some f \<Rightarrow> int (digits_val f) * 10 ^ (dec - length f))"

definition wf_frac :: "int \<Rightarrow> string option \<Rightarrow> bool" where
  "wf_frac dec fo =
     (case fo of None \<Rightarrow> True | Some f \<Rightarrow> f \<noteq> [] \<and> list_all is_digit f \<and> int (length f) \<le> dec)"

lemma parse_frac_wf:
  assumes "wf_frac dec fo"
  shows "parse_frac dec fo =
     (if in_i64 (frac_value (nat dec) fo) then Inr (frac_value (nat dec) fo) else Inl money_ErrInvalidAmount)"
proof (cases fo)
  case None
  then show ?thesis by (simp add: parse_frac_def frac_value_def in_i64_def MinInt64_def MaxInt64_def)
next
  case (Some f)
  with assms show ?thesis by (simp add: wf_frac_def frac_value_def parse_frac_digits Let_def)
qed

lemma amount_form_TrimSpace:
  assumes "list_all is_digit w" and "w \<noteq> []" and "wf_frac dec fo"
  shows "TrimSpace (amount_form neg w fo) = amount_form neg w fo"
proof -
  obtain c t where t: "amount_form neg w fo = c # t" "is_digit c \<or> c = CHR ''-''"
    using assms(1,2) by (cases w; cases neg) (auto simp: amount_form_def)
  have "list_all is_digit x \<Longrightarrow> x \<noteq> [] \<Longrightarrow> is_digit (last x)" for x
    by (simp add: list_all_iff)
  then have "is_digit (last (amount_form neg w fo))"
    using assms by (cases fo) (auto simp: amount_form_def wf_frac_def)
  with t show ?thesis using TrimSpace_id by blast
qed

lemma wrap64_uminus_wrap64: "wrap64 (- wrap64 x) = wrap64 (- x)"
proof -
  obtain k where "wrap64 x = x + k * 2 ^ 64" by (rule wrap64_shift)
  then have "- wrap64 x mod 2 ^ 64 = - x mod 2 ^ 64"
    by (metis mod_minus_eq mod_mult_self1)
  then show ?thesis by (rule wrap64_mod_cong)
qed

lemma money_Parse_form:
  fixes neg :: bool
  assumes "money_Lookup reg code = Some c" and "list_all is_digit w" and "w \<noteq> []"
    and "wf_frac (cur_Decimals c) fo"
  defines "W \<equiv> int (digits_val w)" and "F \<equiv> frac_value (nat (cur_Decimals c)) fo"
  assumes "in_i64 W" and "in_i64 F" and "in_i64 (W * 10 ^ nat (cur_Decimals c))"
  defines "minor \<equiv> wrap64 ((if neg then -1 else 1) * (W * 10 ^ nat (cur_Decimals c) + F))"
  shows "money_Parse reg code (amount_form neg w fo) =
    (if minor = MinInt64 then Inl money_ErrOverflow else Inr \<lparr>m_amount = minor, m_cur = c\<rparr>)"
proof -
  let ?s = "amount_form neg w fo"
  let ?b = "w @ (case fo of None \<Rightarrow> [] | Some f \<Rightarrow> CHR ''.'' # f)"
  obtain c0 t0 where w: "w = c0 # t0" "is_digit c0" using assms(2,3) by (cases w) auto
  have sgn: "parse_sign ?s = (neg, ?b)"
    using w digit_neq [OF w(2)] by (auto simp: parse_sign_def amount_form_def)
  have hd: "?b \<noteq> [] \<and> hd ?b \<noteq> CHR ''+'' \<and> hd ?b \<noteq> CHR ''-''"
    using w digit_neq [OF w(2)] by simp
  have sp: "split2 CHR ''.'' ?b = (w, fo)"
    using split2_digits [OF assms(2)] by (cases fo) simp_all
  have "?s \<noteq> []" and "\<not> W < 0" using w by (simp_all add: amount_form_def W_def)
  then show ?thesis
    using assms(1,7-9) hd sp
    by (simp add: money_Parse_def amount_form_TrimSpace [OF assms(2-4)] sgn parse_frac_wf [OF assms(4)]
        ParseInt64_digits [OF assms(2,3)] mul10_loop_exact W_def [symmetric] F_def [symmetric] Let_def
        minor_def wrap64_uminus_wrap64)
qed

lemma parse_exact_aux:
  assumes "money_Lookup reg code = Some c" and "list_all is_digit w" and "w \<noteq> []"
    and "wf_frac (cur_Decimals c) fo"
    and "int (digits_val w) * 10 ^ nat (cur_Decimals c) + frac_value (nat (cur_Decimals c)) fo \<le> MaxInt64"
  shows "money_Parse reg code (amount_form neg w fo) =
    Inr \<lparr>m_amount = (if neg then -1 else 1) *
                     (int (digits_val w) * 10 ^ nat (cur_Decimals c) + frac_value (nat (cur_Decimals c)) fo),
        m_cur = c\<rparr>"
proof -
  let ?W = "int (digits_val w)" and ?F = "frac_value (nat (cur_Decimals c)) fo"
  let ?P = "10 ^ nat (cur_Decimals c) :: int"
  have F: "0 \<le> ?F" by (simp add: frac_value_def split: option.split)
  have W: "0 \<le> ?W" "?W * 1 \<le> ?W * ?P" by (simp, rule mult_left_mono) simp_all
  have r: "in_i64 ?W" "in_i64 ?F" "in_i64 (?W * ?P)"
    using assms(5) F W unfolding in_i64_def MinInt64_def MaxInt64_def by linarith+
  have "in_i64 ((if neg then -1 else 1) * (?W * ?P + ?F))"
    and "(if neg then -1 else 1) * (?W * ?P + ?F) \<noteq> MinInt64"
    using assms(5) F W unfolding in_i64_def MinInt64_def MaxInt64_def by auto
  then show ?thesis
    using money_Parse_form [OF assms(1-4) r, of neg] by simp
qed

text \<open>
  \<open>Parse\<close> is exact on amounts that fit: for an optional minus sign, a digit string and at
  most the currency's number of fraction digits, whose value in minor units fits in an
  \<open>int64\<close>, \<open>Parse\<close> succeeds and the amount is that value.
\<close>
lemma parse_exact:
  assumes "money_Lookup reg code = Some c" and "list_all is_digit w" and "w \<noteq> []"
    and "wf_frac (cur_Decimals c) fo"
    and "int (digits_val w) * 10 ^ nat (cur_Decimals c) + frac_value (nat (cur_Decimals c)) fo \<le> MaxInt64"
  shows "money_Parse reg code (amount_form neg w fo) =
    Inr \<lparr>m_amount = (if neg then -1 else 1) *
                     (int (digits_val w) * 10 ^ nat (cur_Decimals c) + frac_value (nat (cur_Decimals c)) fo),
        m_cur = c\<rparr>"
  by (fact parse_exact_aux [OF assms])

lemma iso_lookup_usd: "money_Lookup money_init ''USD'' = Some (mk_currency (''USD'', ''840'', 2))"
  by (simp add: money_Lookup_def money_init_def iso4217_def upperASCII_def byte_def)

text \<open>
  \<open>Parse\<close> adds the fraction without an overflow test, so an amount above the \<open>int64\<close> range
  is accepted with the wrong sign: \<open>Parse("USD", "92233720368547758.99")\<close> succeeds and returns a
  negative amount, where \<open>ErrOverflow\<close> is documented.
\<close>
lemma parse_wraps_silently:
  "money_Parse money_init ''USD'' ''92233720368547758.99'' =
     Inr \<lparr>m_amount = 9223372036854775899 - 2 ^ 64, m_cur = mk_currency (''USD'', ''840'', 2)\<rparr>"
  using money_Parse_form [OF iso_lookup_usd, of "''92233720368547758''" "Some ''99''" False]
  by (simp add: amount_form_def is_digit_def byte_def wf_frac_def frac_value_def digits_val_def
      digit_val_def i64_defs)

lemma pow10_loop_exact:
  "0 \<le> d \<Longrightarrow> d * 10 ^ n \<le> MaxInt64 \<Longrightarrow> pow10_loop n d = d * 10 ^ n"
proof (induction n arbitrary: d)
  case (Suc n)
  have "d * 10 * 1 \<le> d * 10 * 10 ^ n" using Suc.prems(1) by (intro mult_left_mono) simp_all
  then have "in_i64 (d * 10)"
    using Suc.prems unfolding in_i64_def MinInt64_def by (simp add: mult.assoc)
  with Suc show ?case by (simp add: mult.assoc)
qed simp

lemma fmt_0star_d_pad:
  assumes "n < 10 ^ k" and "0 < k"
  shows "list_all is_digit (fmt_0star_d (int k) (int n)) \<and> length (fmt_0star_d (int k) (int n)) = k
     \<and> digits_val (fmt_0star_d (int k) (int n)) = n"
  using length_itoa_nat [OF assms] by (simp add: fmt_0star_d_def digits_val_pad Let_def)

text \<open>The rendered text of an amount is an amount form whose value is the amount.\<close>

lemma amount_text_form:
  assumes "0 \<le> cur_Decimals (m_cur m)" and "cur_Decimals (m_cur m) \<le> 18"
    and "- MaxInt64 \<le> m_amount m" and "m_amount m \<le> MaxInt64"
  defines "n \<equiv> nat (cur_Decimals (m_cur m))"
  obtains w fo where "amount_text m = Inr (amount_form (m_amount m < 0) w fo)"
    and "list_all is_digit w" and "w \<noteq> []" and "wf_frac (cur_Decimals (m_cur m)) fo"
    and "int (digits_val w) * 10 ^ n + frac_value n fo = \<bar>m_amount m\<bar>"
proof -
  let ?A = "nat \<bar>m_amount m\<bar>"
  have abs: "(if m_amount m < 0 then wrap64 (- m_amount m) else m_amount m) = int ?A"
    using assms by (auto simp: in_i64_def MinInt64_def MaxInt64_def)
  have A: "int ?A \<le> MaxInt64" using assms by auto
  show ?thesis
  proof (cases "cur_Decimals (m_cur m) = 0")
    case True
    show ?thesis
      by (rule that [of "itoa_nat ?A" None])
        (use abs True in \<open>simp_all add: amount_text_def amount_form_def Let_def Itoa_def wf_frac_def
           frac_value_def n_def\<close>)
  next
    case False
    then have n: "0 < n" "n \<le> 18" "cur_Decimals (m_cur m) = int n" using assms by auto
    have "(10::int) ^ n \<le> 10 ^ 18" using n by (intro power_increasing) simp_all
    then have p: "pow10_loop n 1 = 10 ^ n" by (intro pow10_loop_exact [of 1 n, simplified]) (simp add: MaxInt64_def)
    have q: "quo64 (int ?A) (10 ^ n) = int (?A div 10 ^ n)" "rem64 (int ?A) (10 ^ n) = int (?A mod 10 ^ n)"
    proof -
      have "int (?A div 10 ^ n) \<le> int ?A" by (simp only: of_nat_le_iff div_le_dividend)
      then have "in_i64 (int (?A div 10 ^ n))"
        using A by (auto simp: in_i64_def MinInt64_def)
      moreover have "int ?A sdiv 10 ^ n = int (?A div 10 ^ n)" "int ?A smod 10 ^ n = int (?A mod 10 ^ n)"
        by (auto simp: signed_divide_int_def signed_modulo_int_def zdiv_int zmod_int sgn_if)
      ultimately show "quo64 (int ?A) (10 ^ n) = int (?A div 10 ^ n)" "rem64 (int ?A) (10 ^ n) = int (?A mod 10 ^ n)"
        by (simp_all add: quo64_def rem64_def)
    qed
    have f: "list_all is_digit (fmt_0star_d (int n) (int (?A mod 10 ^ n)))"
      "length (fmt_0star_d (int n) (int (?A mod 10 ^ n))) = n"
      "digits_val (fmt_0star_d (int n) (int (?A mod 10 ^ n))) = ?A mod 10 ^ n"
      using fmt_0star_d_pad [of "?A mod 10 ^ n" n] n by simp_all
    have "int (?A div 10 ^ n * 10 ^ n + ?A mod 10 ^ n) = \<bar>m_amount m\<bar>"
      by (simp only: div_mult_mod_eq int_nat_eq abs_ge_zero if_True)
    then have v: "int (?A div 10 ^ n) * 10 ^ n + int (?A mod 10 ^ n) = \<bar>m_amount m\<bar>"
      by (simp only: of_nat_add of_nat_mult of_nat_power of_nat_numeral)
    let ?w = "itoa_nat (?A div 10 ^ n)" and ?f = "fmt_0star_d (int n) (int (?A mod 10 ^ n))"
    have "?f \<noteq> []" using f(2) n(1) by auto
    show ?thesis
    proof (rule that [of ?w "Some ?f"])
      show "amount_text m = Inr (amount_form (m_amount m < 0) ?w (Some ?f))"
        unfolding amount_text_def Let_def abs n(3) nat_int p q
        using n(1) by (simp add: amount_form_def Itoa_def)
      show "wf_frac (cur_Decimals (m_cur m)) (Some ?f)"
        using f \<open>?f \<noteq> []\<close> unfolding n(3) by (simp add: wf_frac_def)
      show "int (digits_val ?w) * 10 ^ n + frac_value n (Some ?f) = \<bar>m_amount m\<bar>"
        using f v by (simp add: frac_value_def)
    qed simp_all
  qed
qed

text \<open>
  Rendering and parsing are inverse: for a registered currency with at most 18 decimals, the
  number part of \<open>Money.String\<close> is accepted by \<open>Parse\<close> and gives back the same \<open>Money\<close>, for
  every amount a constructor can produce (all of \<open>int64\<close> but \<open>MinInt64\<close>).
\<close>
lemma string_parse_roundtrip:
  assumes "money_Lookup reg (cur_Code (m_cur m)) = Some (m_cur m)"
    and "0 \<le> cur_Decimals (m_cur m)" and "cur_Decimals (m_cur m) \<le> 18"
    and "in_i64 (m_amount m)" and "m_amount m \<noteq> MinInt64"
  shows "\<exists>s. money_String m = Inr (s @ '' '' @ cur_Code (m_cur m))
           \<and> money_Parse reg (cur_Code (m_cur m)) s = Inr m"
proof -
  have "- MaxInt64 \<le> m_amount m" "m_amount m \<le> MaxInt64"
    using assms(4,5) by (auto simp: in_i64_def MinInt64_def MaxInt64_def)
  from amount_text_form [OF assms(2,3) this] obtain w fo where
    t: "amount_text m = Inr (amount_form (m_amount m < 0) w fo)" and
    wf: "list_all is_digit w" "w \<noteq> []" "wf_frac (cur_Decimals (m_cur m)) fo" and
    v: "int (digits_val w) * 10 ^ nat (cur_Decimals (m_cur m)) + frac_value (nat (cur_Decimals (m_cur m))) fo
        = \<bar>m_amount m\<bar>"
    by blast
  have "\<bar>m_amount m\<bar> \<le> MaxInt64"
    using \<open>- MaxInt64 \<le> m_amount m\<close> \<open>m_amount m \<le> MaxInt64\<close> by linarith
  then have "money_Parse reg (cur_Code (m_cur m)) (amount_form (m_amount m < 0) w fo)
      = Inr \<lparr>m_amount = m_amount m, m_cur = m_cur m\<rparr>"
    using parse_exact_aux [OF assms(1) wf] v by (simp add: abs_if split: if_splits)
  with t show ?thesis by (auto simp: money_String_def)
qed

end
