(* ===== verification/Decimal.thy ===== *)
theory Decimal
  imports Strconv
begin

section \<open>Package decimal: arbitrary-precision decimals\<close>

text \<open>
  \<open>src/decimal/decimal.go\<close>.  A \<open>*big.Int\<close> is an \<^typ>\<open>int\<close>, and the nil pointer of the zero
  value \<open>Decimal{}\<close> is \<^const>\<open>None\<close>.  Operations of \<open>math/big\<close> are exact; \<open>Quo\<close> truncates
  toward zero.  The scale is a Go \<open>int\<close> that the constructors keep non-negative.
\<close>

record decimal =
  d_value :: "int option"
  d_scale :: int

datatype decimal_error =
    dec_ErrParse
  | dec_ErrScaleMismatch
  | dec_ErrNegativeScale
  | dec_ErrDivideByZero
  | dec_Panic

text \<open>The table holds the first twenty powers of ten; larger exponents are computed on demand.\<close>

definition precisionTable :: "int list" where
  "precisionTable = map (\<lambda>i. 10 ^ i) [0..<20]"

definition dec_pow10 :: "int \<Rightarrow> int" where
  "dec_pow10 n =
     (if 0 \<le> n \<and> n < int (length precisionTable) then precisionTable ! nat n
      else if n < 0 then 1 else 10 ^ nat n)"

definition dec_New :: "int \<Rightarrow> int \<Rightarrow> decimal_error + decimal" where
  "dec_New unscaled scale =
     (if scale < 0 then Inl dec_Panic else Inr \<lparr>d_value = Some unscaled, d_scale = scale\<rparr>)"

definition dec_FromInt :: "int \<Rightarrow> decimal_error + decimal" where
  "dec_FromInt v = dec_New v 0"

definition dec_Parse :: "string \<Rightarrow> int \<Rightarrow> decimal_error + decimal" where
  "dec_Parse s0 scale =
     (if scale < 0 then Inl dec_ErrNegativeScale
      else if s0 = [] then Inl dec_ErrParse
      else
        let neg = (hd s0 = CHR ''-'');
            s = (if hd s0 = CHR ''-'' \<or> hd s0 = CHR ''+'' then tl s0 else s0) in
        if s = [] \<or> hd s = CHR ''+'' \<or> hd s = CHR ''-'' then Inl dec_ErrParse
        else
          let whole = fst (split2 CHR ''.'' s);
              frac = (case snd (split2 CHR ''.'' s) of None \<Rightarrow> [] | Some f \<Rightarrow> f) in
          if scale < int (length frac) then Inl dec_ErrParse
          else
            case SetString10 (whole @ frac @ replicate (nat (scale - int (length frac))) CHR ''0'') of
              None \<Rightarrow> Inl dec_ErrParse
            | Some v \<Rightarrow> Inr \<lparr>d_value = Some (if neg then - v else v), d_scale = scale\<rparr>)"

definition dec_MustParse :: "string \<Rightarrow> int \<Rightarrow> decimal_error + decimal" where
  "dec_MustParse s scale = (case dec_Parse s scale of Inl _ \<Rightarrow> Inl dec_Panic | Inr d \<Rightarrow> Inr d)"

text \<open>The loop \<open>for len(str) <= d.scale { str = "0" + str }\<close>.\<close>

function pad_zeros :: "nat \<Rightarrow> string \<Rightarrow> string" where
  "pad_zeros k s = (if length s \<le> k then pad_zeros k (CHR ''0'' # s) else s)"
  by pat_completeness auto
termination
  by (relation "measure (\<lambda>(k, s). Suc k - length s)") auto

declare pad_zeros.simps [simp del]

definition dec_String :: "decimal \<Rightarrow> string" where
  "dec_String d =
     (case d_value d of
        None \<Rightarrow> ''0''
      | Some v \<Rightarrow>
          let neg = (v < 0); s = itoa_nat (nat \<bar>v\<bar>) in
          if d_scale d \<le> 0 then (if neg then CHR ''-'' # s else s)
          else
            let s = pad_zeros (nat (d_scale d)) s;
                cut = length s - nat (d_scale d);
                result = take cut s @ ''.'' @ drop cut s in
            if neg then CHR ''-'' # result else result)"

definition dec_Unscaled :: "decimal \<Rightarrow> int" where
  "dec_Unscaled d = (case d_value d of None \<Rightarrow> 0 | Some v \<Rightarrow> v)"

definition dec_Sign :: "decimal \<Rightarrow> int" where
  "dec_Sign d = (case d_value d of None \<Rightarrow> 0 | Some v \<Rightarrow> sgn v)"

definition dec_IsZero :: "decimal \<Rightarrow> bool" where
  "dec_IsZero d \<longleftrightarrow> dec_Sign d = 0"

definition valueOrZero :: "decimal \<Rightarrow> int" where
  "valueOrZero d = (case d_value d of Some v \<Rightarrow> v | None \<Rightarrow> 0)"

definition dec_Add :: "decimal \<Rightarrow> decimal \<Rightarrow> decimal_error + decimal" where
  "dec_Add d other =
     (if d_scale d \<noteq> d_scale other then Inl dec_ErrScaleMismatch
      else Inr \<lparr>d_value = Some (valueOrZero d + valueOrZero other), d_scale = d_scale d\<rparr>)"

definition dec_Sub :: "decimal \<Rightarrow> decimal \<Rightarrow> decimal_error + decimal" where
  "dec_Sub d other =
     (if d_scale d \<noteq> d_scale other then Inl dec_ErrScaleMismatch
      else Inr \<lparr>d_value = Some (valueOrZero d - valueOrZero other), d_scale = d_scale d\<rparr>)"

definition dec_Mul :: "decimal \<Rightarrow> int \<Rightarrow> decimal" where
  "dec_Mul d factor = \<lparr>d_value = Some (valueOrZero d * factor), d_scale = d_scale d\<rparr>"

definition dec_MulDecimal :: "decimal \<Rightarrow> decimal \<Rightarrow> decimal" where
  "dec_MulDecimal d other =
     \<lparr>d_value = Some (valueOrZero d * valueOrZero other), d_scale = d_scale d + d_scale other\<rparr>"

definition dec_Div :: "decimal \<Rightarrow> int \<Rightarrow> decimal_error + decimal" where
  "dec_Div d divisor =
     (if divisor = 0 then Inl dec_ErrDivideByZero
      else Inr \<lparr>d_value = Some (valueOrZero d sdiv divisor), d_scale = d_scale d\<rparr>)"

definition dec_Cmp :: "decimal \<Rightarrow> decimal \<Rightarrow> decimal_error + int" where
  "dec_Cmp d other =
     (if d_scale d \<noteq> d_scale other then Inl dec_ErrScaleMismatch
      else Inr (sgn (valueOrZero d - valueOrZero other)))"

definition dec_Negate :: "decimal \<Rightarrow> decimal" where
  "dec_Negate d = \<lparr>d_value = Some (- valueOrZero d), d_scale = d_scale d\<rparr>"

definition dec_Abs :: "decimal \<Rightarrow> decimal" where
  "dec_Abs d =
     (if valueOrZero d < 0 then \<lparr>d_value = Some \<bar>valueOrZero d\<bar>, d_scale = d_scale d\<rparr>
      else if d_value d = None then \<lparr>d_value = Some 0, d_scale = d_scale d\<rparr>
      else d)"

definition dec_Rescale :: "decimal \<Rightarrow> int \<Rightarrow> decimal" where
  "dec_Rescale d newScale =
     (if newScale < 0 \<or> newScale = d_scale d then d
      else if newScale > d_scale d then
        \<lparr>d_value = Some (valueOrZero d * dec_pow10 (newScale - d_scale d)), d_scale = newScale\<rparr>
      else
        \<lparr>d_value = Some (valueOrZero d sdiv dec_pow10 (d_scale d - newScale)), d_scale = newScale\<rparr>)"

subsection \<open>The number a decimal stands for\<close>

text \<open>
  The abstract value \<open>value / 10^scale\<close>, as a rational; the well-formed decimals are those the
  constructors build.
\<close>

definition dec_wf :: "decimal \<Rightarrow> bool" where
  "dec_wf d \<longleftrightarrow> 0 \<le> d_scale d"

definition dec_val :: "decimal \<Rightarrow> rat" where
  "dec_val d = of_int (valueOrZero d) / 10 ^ nat (d_scale d)"

lemma dec_pow10_eq: "0 \<le> n \<Longrightarrow> dec_pow10 n = 10 ^ nat n"
  by (auto simp: dec_pow10_def precisionTable_def nat_less_iff)

lemma pad_zeros_eq: "pad_zeros k s = replicate (Suc k - length s) CHR ''0'' @ s"
proof (induction k s rule: pad_zeros.induct)
  case (1 k s)
  show ?case
  proof (cases "length s \<le> k")
    case True
    with 1 show ?thesis
      by (simp add: pad_zeros.simps [of k s] Suc_diff_le replicate_app_Cons_same)
  next
    case False
    then show ?thesis by (simp add: pad_zeros.simps [of k s])
  qed
qed

lemma rat_scale: "of_int v / (10 ^ a :: rat) = of_int (v * 10 ^ (b - a)) / 10 ^ b" if "a \<le> b"
  using that by (simp add: field_simps flip: power_add)

text \<open>
  Decimal arithmetic is exact on the represented rationals: on operands of equal scale \<open>Add\<close> and
  \<open>Sub\<close> return the sum and the difference and \<open>Cmp\<close> the sign of the difference; on different
  scales they return \<open>ErrScaleMismatch\<close>.  \<open>Mul\<close>, \<open>MulDecimal\<close>, \<open>Negate\<close> and \<open>Abs\<close> are exact for
  well-formed operands, and every result is well-formed again.
\<close>
lemma decimal_arithmetic_exact:
  assumes "dec_wf d" and "dec_wf e"
  shows "(d_scale d = d_scale e \<longrightarrow>
      (\<exists>s t. dec_Add d e = Inr s \<and> dec_wf s \<and> dec_val s = dec_val d + dec_val e \<and>
             dec_Sub d e = Inr t \<and> dec_wf t \<and> dec_val t = dec_val d - dec_val e \<and>
             dec_Cmp d e = Inr (if dec_val d < dec_val e then -1 else if dec_val d = dec_val e then 0 else 1)))
    \<and> (d_scale d \<noteq> d_scale e \<longrightarrow>
         dec_Add d e = Inl dec_ErrScaleMismatch \<and> dec_Sub d e = Inl dec_ErrScaleMismatch
         \<and> dec_Cmp d e = Inl dec_ErrScaleMismatch)
    \<and> dec_val (dec_Mul d n) = dec_val d * of_int n
    \<and> dec_wf (dec_MulDecimal d e) \<and> dec_val (dec_MulDecimal d e) = dec_val d * dec_val e
    \<and> dec_val (dec_Negate d) = - dec_val d \<and> dec_val (dec_Abs d) = \<bar>dec_val d\<bar>"
proof -
  have p: "(0::rat) < 10 ^ k" for k by simp
  have "nat (d_scale d + d_scale e) = nat (d_scale d) + nat (d_scale e)"
    using assms by (simp add: dec_wf_def nat_add_distrib)
  then have mul: "dec_val (dec_MulDecimal d e) = dec_val d * dec_val e"
    by (simp add: dec_val_def dec_MulDecimal_def valueOrZero_def power_add)
  have abs: "dec_val (dec_Abs d) = \<bar>dec_val d\<bar>"
    by (simp add: dec_val_def dec_Abs_def valueOrZero_def split: option.split)
  have cmp: "dec_Cmp d e = Inr (if dec_val d < dec_val e then -1 else if dec_val d = dec_val e then 0 else 1)"
    if "d_scale d = d_scale e"
    using that p by (simp add: dec_Cmp_def dec_val_def sgn_if divide_strict_right_mono divide_less_cancel)
  show ?thesis
    using assms mul abs cmp
    by (auto simp: dec_Add_def dec_Sub_def dec_Mul_def dec_Negate_def dec_wf_def dec_val_def dec_Cmp_def
        valueOrZero_def dec_MulDecimal_def add_divide_distrib diff_divide_distrib)
qed

text \<open>
  Rendering and parsing are inverse: for every decimal built by a constructor,
  \<open>Parse(d.String(), d.Scale())\<close> returns \<open>d\<close>.
\<close>
lemma decimal_string_roundtrip:
  assumes "dec_wf d" and "d_value d = Some v"
  shows "dec_Parse (dec_String d) (d_scale d) = Inr d"
proof -
  let ?k = "nat (d_scale d)" and ?z = "itoa_nat (nat \<bar>v\<bar>)"
  have k: "0 \<le> d_scale d" "int ?k = d_scale d" using assms by (simp_all add: dec_wf_def)
  define s where "s = (if ?k = 0 then ?z else pad_zeros ?k ?z)"
  have s: "list_all is_digit s" "s \<noteq> []" "digits_val s = nat \<bar>v\<bar>" "?k < length s \<or> ?k = 0"
    by (auto simp: s_def pad_zeros_eq digits_val_pad)
  define w f where "w = take (length s - ?k) s" and "f = drop (length s - ?k) s"
  have wf: "w \<noteq> []" "list_all is_digit w" "w @ f = s" "length f = ?k"
    using s by (auto simp: w_def f_def list_all_iff dest: in_set_takeD)
  then obtain c t where c: "w = c # t" "is_digit c" by (cases w) auto
  define body where "body = (if ?k = 0 then s else w @ CHR ''.'' # f)"
  have str: "dec_String d = (if v < 0 then CHR ''-'' # body else body)"
    using assms k wf by (auto simp: dec_String_def body_def s_def w_def f_def Let_def)
  have fs: "?k = 0 \<Longrightarrow> f = [] \<and> s = w" using wf by auto
  have sp: "split2 CHR ''.'' body = (if ?k = 0 then (w, None) else (w, Some f))"
  proof -
    have "CHR ''.'' \<notin> set w" using wf(2) by (auto simp: list_all_iff)
    then show ?thesis using fs by (simp add: body_def split2_no_sep split2_append)
  qed
  have hd: "hd body = c" "body \<noteq> []" using c fs by (auto simp: body_def)
  have parse: "SetString10 (w @ f) = Some (int (nat \<bar>v\<bar>))"
    using s wf SetString10_digits by simp
  show ?thesis
    using str hd digit_neq [OF c(2)] sp k parse wf(4) fs assms(2)
    by (cases "v < 0"; cases "?k = 0") (simp_all add: dec_Parse_def Let_def)
qed

lemma decimal_parse_inner_sign: "dec_Parse ''.-5'' 2 = Inr \<lparr>d_value = Some (-5), d_scale = 2\<rparr>"
  by (simp add: dec_Parse_def SetString10_def parse_uint_def is_digit_def byte_def digits_val_def digit_val_def)

lemma sdiv_trunc_bounds:
  fixes a p :: int
  assumes "0 < p"
  shows "\<bar>a sdiv p * p\<bar> \<le> \<bar>a\<bar>" and "\<bar>a - a sdiv p * p\<bar> < p"
proof -
  show "\<bar>a - a sdiv p * p\<bar> < p"
    using assms smod_abs_less [of p a] by (simp add: minus_sdiv_mult_eq_smod)
  show "\<bar>a sdiv p * p\<bar> \<le> \<bar>a\<bar>"
    using assms by (simp add: abs_mult sdiv_abs minus_mod_eq_div_mult [symmetric])
qed

lemma rescale_down:
  assumes "0 \<le> n" and "n < d_scale d"
  shows "\<bar>dec_val (dec_Rescale d n)\<bar> \<le> \<bar>dec_val d\<bar>"
    and "\<bar>dec_val d - dec_val (dec_Rescale d n)\<bar> < 1 / 10 ^ nat n"
proof -
  define p :: int where "p = 10 ^ nat (d_scale d - n)"
  define v where "v = valueOrZero d"
  have p: "0 < p" by (simp add: p_def)
  have split: "(10::rat) ^ nat (d_scale d) = of_int p * 10 ^ nat n"
    using assms by (simp add: p_def nat_diff_distrib flip: power_add)
  have val: "dec_val (dec_Rescale d n) = of_int (v sdiv p * p) / 10 ^ nat (d_scale d)"
    using assms p by (simp add: dec_val_def dec_Rescale_def valueOrZero_def dec_pow10_eq split p_def v_def)
  have d: "dec_val d = of_int v / 10 ^ nat (d_scale d)" by (simp add: dec_val_def v_def)
  have "\<bar>of_int (v sdiv p * p)\<bar> \<le> \<bar>of_int v :: rat\<bar>"
    using sdiv_trunc_bounds(1) [OF p, of v] by (simp only: of_int_abs [symmetric] of_int_le_iff)
  then show "\<bar>dec_val (dec_Rescale d n)\<bar> \<le> \<bar>dec_val d\<bar>"
    unfolding val d by (simp add: divide_right_mono)
  have "\<bar>of_int v - of_int (v sdiv p * p)\<bar> < (of_int p :: rat)"
    using sdiv_trunc_bounds(2) [OF p, of v]
    by (simp only: of_int_abs [symmetric] of_int_less_iff of_int_diff [symmetric])
  then have "\<bar>of_int v - of_int (v sdiv p * p)\<bar> / 10 ^ nat (d_scale d) < of_int p / (10 ^ nat (d_scale d) :: rat)"
    by (intro divide_strict_right_mono) simp_all
  also have "of_int p / (10 ^ nat (d_scale d) :: rat) = 1 / 10 ^ nat n" using p by (simp add: split)
  finally show "\<bar>dec_val d - dec_val (dec_Rescale d n)\<bar> < 1 / 10 ^ nat n"
    unfolding val d by (simp only: diff_divide_distrib [symmetric] abs_divide) simp
qed

lemma rescale_up:
  assumes "dec_wf d" and "d_scale d < n"
  shows "dec_val (dec_Rescale d n) = dec_val d"
    and "valueOrZero (dec_Rescale (dec_Rescale d n) (d_scale d)) = valueOrZero d"
proof -
  have "dec_Rescale d n = \<lparr>d_value = Some (valueOrZero d * 10 ^ (nat n - nat (d_scale d))), d_scale = n\<rparr>"
    using assms by (simp add: dec_Rescale_def dec_pow10_eq dec_wf_def nat_diff_distrib)
  then show "dec_val (dec_Rescale d n) = dec_val d"
    and "valueOrZero (dec_Rescale (dec_Rescale d n) (d_scale d)) = valueOrZero d"
    using assms rat_scale [of "nat (d_scale d)" "nat n" "valueOrZero d"]
    by (simp_all add: dec_val_def valueOrZero_def dec_wf_def dec_Rescale_def dec_pow10_eq nat_diff_distrib
        signed_divide_int_def abs_mult sgn_mult sgn_mult_abs)
qed

text \<open>
  \<open>Rescale\<close> to a larger scale keeps the value exactly, to a smaller one truncates toward zero
  (the magnitude does not grow and the error is below one unit of the new scale); scaling up and
  back down returns the original decimal; a negative target scale is a no-op.
\<close>
lemma rescale_exact_or_truncates:
  assumes "dec_wf d" and "0 \<le> n"
  shows "dec_wf (dec_Rescale d n) \<and> d_scale (dec_Rescale d n) = n
    \<and> (d_scale d \<le> n \<longrightarrow> dec_val (dec_Rescale d n) = dec_val d)
    \<and> (n < d_scale d \<longrightarrow> \<bar>dec_val (dec_Rescale d n)\<bar> \<le> \<bar>dec_val d\<bar>
          \<and> \<bar>dec_val d - dec_val (dec_Rescale d n)\<bar> < 1 / 10 ^ nat n)
    \<and> (d_scale d < n \<longrightarrow> valueOrZero (dec_Rescale (dec_Rescale d n) (d_scale d)) = valueOrZero d)
    \<and> (m < 0 \<longrightarrow> dec_Rescale d m = d)"
proof -
  have "d_scale (dec_Rescale d n) = n" using assms by (simp add: dec_Rescale_def)
  moreover have "dec_Rescale d n = d" if "d_scale d = n" using that by (simp add: dec_Rescale_def)
  moreover have "m < 0 \<longrightarrow> dec_Rescale d m = d" by (simp add: dec_Rescale_def)
  ultimately show ?thesis
    using assms rescale_down [OF assms(2)] rescale_up [OF assms(1)]
    by (auto simp: dec_wf_def le_less)
qed

end
