(* ===== verification/Base62.thy ===== *)
theory Base62
  imports Prelude
begin

section \<open>Package base62: short codes for unsigned integers\<close>

text \<open>
  \<open>src/base62/base62.go\<close>.  Identifiers are 64-bit words; an alphabet and a code are byte strings;
  the decode table is a list of 256 entries with \<open>-1\<close> for "not in the alphabet".  The encoder
  fills a 12-byte array from the right: writing below index 0, or reading the alphabet out of
  range, is the Go panic \<^const>\<open>None\<close>.
\<close>

datatype base62_error = b62_ErrInvalid | b62_ErrAlphabet

definition b62_Alphabet :: string where
  "b62_Alphabet = ''0123456789ABCDEFGHIJKLMNOPQRSTUVWXYZabcdefghijklmnopqrstuvwxyz''"

function b62_encode_loop :: "string \<Rightarrow> nat \<Rightarrow> 64 word \<Rightarrow> string \<Rightarrow> string option" where
  "b62_encode_loop alphabet n ident buf =
     (if ident = 0 then Some buf
      else if n = 0 \<or> length alphabet \<le> unat (ident mod 62) then None
      else b62_encode_loop alphabet (n - 1) (ident div 62) (alphabet ! unat (ident mod 62) # buf))"
  by pat_completeness auto
termination
  by (relation "measure (\<lambda>(alphabet, n, ident, buf). n)") auto

declare b62_encode_loop.simps [simp del]

definition EncodeWithAlphabet :: "64 word \<Rightarrow> string \<Rightarrow> string option" where
  "EncodeWithAlphabet ident alphabet =
     (if ident = 0 then (if alphabet = [] then None else Some [alphabet ! 0])
      else b62_encode_loop alphabet 12 ident [])"

definition b62_Encode :: "64 word \<Rightarrow> string option" where
  "b62_Encode ident = EncodeWithAlphabet ident b62_Alphabet"

type_synonym decode_table = "int list"

definition buildDecodeTable :: "string \<Rightarrow> decode_table" where
  "buildDecodeTable alphabet =
     foldl (\<lambda>idx i. idx[of_char (alphabet ! i) := int i]) (replicate 256 (-1)) [0..<62]"

fun build_table_loop :: "string \<Rightarrow> nat list \<Rightarrow> decode_table \<Rightarrow> decode_table \<times> bool" where
  "build_table_loop alphabet [] idx = (idx, True)"
| "build_table_loop alphabet (i # is) idx =
     (let c = of_char (alphabet ! i) in
      if idx ! c \<noteq> -1 then (idx, False)
      else build_table_loop alphabet is (idx[c := int i]))"

definition buildDecodeTableErr :: "string \<Rightarrow> decode_table \<times> bool" where
  "buildDecodeTableErr alphabet = build_table_loop alphabet [0..<62] (replicate 256 (-1))"

fun b62_decode_loop :: "decode_table \<Rightarrow> string \<Rightarrow> 64 word \<Rightarrow> base62_error + 64 word" where
  "b62_decode_loop idx [] val = Inr val"
| "b62_decode_loop idx (c # cs) val =
     (let d = idx ! of_char c in
      if d < 0 then Inl b62_ErrInvalid
      else b62_decode_loop idx cs (val * 62 + word_of_int d))"

definition decodeWithTable :: "string \<Rightarrow> decode_table \<Rightarrow> base62_error + 64 word" where
  "decodeWithTable s idx = (if s = [] then Inl b62_ErrInvalid else b62_decode_loop idx s 0)"

definition defaultDecodeTable :: decode_table where
  "defaultDecodeTable = buildDecodeTable b62_Alphabet"

definition b62_Decode :: "string \<Rightarrow> base62_error + 64 word" where
  "b62_Decode s = decodeWithTable s defaultDecodeTable"

definition DecodeWithAlphabet :: "string \<Rightarrow> string \<Rightarrow> base62_error + 64 word" where
  "DecodeWithAlphabet s alphabet =
     (if length alphabet \<noteq> 62 then Inl b62_ErrAlphabet
      else case buildDecodeTableErr alphabet of (idx, ok) \<Rightarrow>
        if \<not> ok then Inl b62_ErrAlphabet else decodeWithTable s idx)"

subsection \<open>The decode table\<close>

text \<open>A valid alphabet has exactly 62 different bytes.\<close>

definition valid_alphabet :: "string \<Rightarrow> bool" where
  "valid_alphabet alphabet \<longleftrightarrow> length alphabet = 62 \<and> distinct alphabet"

text \<open>After the first \<open>k\<close> rounds the table holds the positions of the first \<open>k\<close> bytes.\<close>

definition table_of :: "string \<Rightarrow> nat \<Rightarrow> decode_table \<Rightarrow> bool" where
  "table_of alphabet k idx \<longleftrightarrow> length idx = 256 \<and>
     (\<forall>c. idx ! of_char c = (if \<exists>i<k. alphabet ! i = c then int (LEAST i. i < k \<and> alphabet ! i = c) else -1))"

lemma of_char_less_256 [simp]: "(of_char (c::char) :: nat) < 256"
  by simp

lemma of_char_nat_eq_iff: "(of_char c :: nat) = of_char d \<longleftrightarrow> c = d"
  by simp

lemma table_of_0: "table_of alphabet 0 (replicate 256 (-1))"
  by (simp add: table_of_def)

lemma table_of_Suc:
  assumes "table_of alphabet k idx" and "\<forall>i<k. alphabet ! i \<noteq> alphabet ! k"
  shows "table_of alphabet (Suc k) (idx[of_char (alphabet ! k) := int k])"
proof -
  have "(LEAST i. i < Suc k \<and> alphabet ! i = c) = (if alphabet ! k = c then k else (LEAST i. i < k \<and> alphabet ! i = c))" for c
    using assms(2) by (auto simp: less_Suc_eq intro!: Least_equality arg_cong [of _ _ Least])
  then show ?thesis
    using assms by (auto simp: table_of_def nth_list_update less_Suc_eq)
qed

lemma table_of_hit:
  assumes "table_of alphabet k idx"
  shows "idx ! of_char c \<noteq> -1 \<longleftrightarrow> (\<exists>i<k. alphabet ! i = c)"
  using assms by (auto simp: table_of_def)

lemma build_table_loop_props:
  "table_of alphabet k idx \<Longrightarrow> k \<le> n \<Longrightarrow>
   (\<forall>i<k. \<forall>j<k. i \<noteq> j \<longrightarrow> alphabet ! i \<noteq> alphabet ! j) \<Longrightarrow>
   (case build_table_loop alphabet [k..<n] idx of (idx', ok) \<Rightarrow>
      (ok \<longleftrightarrow> (\<forall>i<n. \<forall>j<n. i \<noteq> j \<longrightarrow> alphabet ! i \<noteq> alphabet ! j)) \<and> (ok \<longrightarrow> table_of alphabet n idx'))"
proof (induction "n - k" arbitrary: k idx)
  case 0
  then show ?case by simp
next
  case (Suc m)
  then have kn: "[k..<n] = k # [Suc k..<n]" "k < n" by (simp_all add: upt_conv_Cons)
  show ?case
  proof (cases "\<exists>i<k. alphabet ! i = alphabet ! k")
    case True
    then have "idx ! of_char (alphabet ! k) \<noteq> -1" using Suc.prems(1) table_of_hit by metis
    moreover have "\<not> (\<forall>i<n. \<forall>j<n. i \<noteq> j \<longrightarrow> alphabet ! i \<noteq> alphabet ! j)"
      using True kn(2) by (metis less_trans less_irrefl)
    ultimately show ?thesis using kn by (simp add: Let_def)
  next
    case False
    then have "idx ! of_char (alphabet ! k) = -1" using Suc.prems(1) table_of_hit by metis
    moreover have "table_of alphabet (Suc k) (idx[of_char (alphabet ! k) := int k])"
      using Suc.prems(1) False by (intro table_of_Suc) auto
    moreover have "\<forall>i<Suc k. \<forall>j<Suc k. i \<noteq> j \<longrightarrow> alphabet ! i \<noteq> alphabet ! j"
      using Suc.prems(3) False by (auto simp: less_Suc_eq)
    ultimately show ?thesis
      using Suc.hyps(1) [of "Suc k" "idx[of_char (alphabet ! k) := int k]"] Suc.hyps(2) kn
      by (simp add: Let_def)
  qed
qed

lemma distinct_nth: "length xs = n \<Longrightarrow> distinct xs \<longleftrightarrow> (\<forall>i<n. \<forall>j<n. i \<noteq> j \<longrightarrow> xs ! i \<noteq> xs ! j)"
  by (simp add: distinct_conv_nth)

lemma buildDecodeTableErr_ok:
  assumes "length alphabet = 62"
  shows "snd (buildDecodeTableErr alphabet) \<longleftrightarrow> distinct alphabet"
    and "distinct alphabet \<Longrightarrow> table_of alphabet 62 (fst (buildDecodeTableErr alphabet))"
  using build_table_loop_props [OF table_of_0, of 62 alphabet] distinct_nth [OF assms]
  by (simp_all add: buildDecodeTableErr_def split: prod.splits)

lemma buildDecodeTable_ok:
  assumes "valid_alphabet alphabet"
  shows "table_of alphabet 62 (buildDecodeTable alphabet)"
proof -
  have "table_of alphabet k (foldl (\<lambda>idx i. idx[of_char (alphabet ! i) := int i]) (replicate 256 (-1)) [0..<k])"
    if "k \<le> 62" for k
    using that
  proof (induction k)
    case (Suc k)
    then have "\<forall>i<k. alphabet ! i \<noteq> alphabet ! k"
      using assms by (auto simp: valid_alphabet_def distinct_conv_nth)
    with Suc show ?case by (simp add: table_of_Suc)
  qed (simp add: table_of_0)
  then show ?thesis by (simp add: buildDecodeTable_def)
qed

lemma table_of_lookup:
  assumes "valid_alphabet alphabet" and "table_of alphabet 62 idx" and "i < 62"
  shows "idx ! of_char (alphabet ! i) = int i"
proof -
  have "(LEAST j. j < 62 \<and> alphabet ! j = alphabet ! i) = i"
    using assms by (intro Least_equality) (auto simp: valid_alphabet_def nth_eq_iff_index_eq)
  then show ?thesis using assms by (auto simp: table_of_def)
qed

subsection \<open>Digits\<close>

lemma b62_decode_digits:
  assumes "valid_alphabet alphabet" and "table_of alphabet 62 idx"
  shows "\<forall>d\<in>set ds. d < 62 \<Longrightarrow>
    b62_decode_loop idx (map ((!) alphabet) ds) val = Inr (foldl (\<lambda>v d. v * 62 + of_nat d) val ds)"
  by (induction ds arbitrary: val) (simp_all add: table_of_lookup [OF assms] Let_def)

text \<open>The encoder prepends the base-62 digits of the identifier, and 12 positions are enough.\<close>

lemma b62_encode_digits:
  assumes "length alphabet = 62"
  shows "unat ident < 62 ^ n \<Longrightarrow>
    \<exists>ds. b62_encode_loop alphabet n ident buf = Some (map ((!) alphabet) ds @ buf) \<and> (\<forall>d\<in>set ds. d < 62)
      \<and> (ident \<noteq> 0 \<longrightarrow> ds \<noteq> []) \<and> (foldl (\<lambda>v d. v * 62 + of_nat d) 0 ds = ident)"
proof (induction n arbitrary: ident buf)
  case 0
  then have "ident = 0" by (simp add: unat_eq_zero)
  then show ?case by (simp add: b62_encode_loop.simps)
next
  case (Suc n)
  show ?case
  proof (cases "ident = 0")
    case True
    then show ?thesis by (simp add: b62_encode_loop.simps)
  next
    case False
    have m: "unat (ident mod 62) = unat ident mod 62" "unat (ident div 62) = unat ident div 62"
      by (simp_all add: unat_mod unat_div)
    then have "unat (ident div 62) < 62 ^ n"
      using Suc.prems by (simp add: less_mult_imp_div_less mult.commute)
    then obtain ds where ds: "b62_encode_loop alphabet n (ident div 62) (alphabet ! unat (ident mod 62) # buf)
        = Some (map ((!) alphabet) ds @ alphabet ! unat (ident mod 62) # buf)"
      "\<forall>d\<in>set ds. d < 62" "foldl (\<lambda>v d. v * 62 + of_nat d) 0 ds = ident div 62"
      using Suc.IH by blast
    have "ident div 62 * 62 + of_nat (unat (ident mod 62)) = ident"
      by (simp add: div_mult_mod_eq)
    with ds False m assms show ?thesis
      by (intro exI [of _ "ds @ [unat (ident mod 62)]"])
        (simp add: b62_encode_loop.simps [of alphabet "Suc n" ident])
  qed
qed

lemma encode_with_alphabet_digits:
  assumes "valid_alphabet alphabet"
  obtains ds where "EncodeWithAlphabet ident alphabet = Some (map ((!) alphabet) ds)" and "ds \<noteq> []"
    and "\<forall>d\<in>set ds. d < 62" and "foldl (\<lambda>v d. v * 62 + of_nat d) 0 ds = ident"
proof (cases "ident = 0")
  case True
  have "alphabet \<noteq> []" using assms by (auto simp: valid_alphabet_def)
  with True show ?thesis by (intro that [of "[0]"]) (simp_all add: EncodeWithAlphabet_def)
next
  case False
  have "unat ident < 62 ^ 12" by (rule order_less_le_trans [OF unsigned_less]) simp
  then show ?thesis
    using b62_encode_digits [of alphabet ident 12 "[]"] assms False that
    by (auto simp: EncodeWithAlphabet_def valid_alphabet_def)
qed

lemma valid_default: "valid_alphabet b62_Alphabet"
  by (simp add: valid_alphabet_def b62_Alphabet_def)

text \<open>
  Short codes round-trip: with any alphabet of 62 distinct bytes, \<open>EncodeWithAlphabet\<close> never
  runs off its 12-byte buffer and \<open>DecodeWithAlphabet\<close> of its result is the original 64-bit
  identifier; \<open>Encode\<close> and \<open>Decode\<close> do the same with the default alphabet.
\<close>
lemma base62_roundtrip:
  assumes "valid_alphabet alphabet"
  shows "(\<exists>s. EncodeWithAlphabet ident alphabet = Some s \<and> DecodeWithAlphabet s alphabet = Inr ident)
       \<and> (\<exists>s. b62_Encode ident = Some s \<and> b62_Decode s = Inr ident)"
proof -
  have dec: "decodeWithTable (map ((!) a) ds) idx = Inr ident"
    if "valid_alphabet a" "table_of a 62 idx" "ds \<noteq> []" "\<forall>d\<in>set ds. d < 62"
      "foldl (\<lambda>v d. v * 62 + of_nat d) 0 ds = ident" for a ds idx
    using that b62_decode_digits [OF that(1,2,4)] by (simp add: decodeWithTable_def)
  have "\<exists>s. EncodeWithAlphabet ident alphabet = Some s \<and> DecodeWithAlphabet s alphabet = Inr ident"
    using encode_with_alphabet_digits [OF assms, of ident] dec [OF assms]
      buildDecodeTableErr_ok [of alphabet] assms
    by (auto simp: DecodeWithAlphabet_def valid_alphabet_def split: prod.split) (metis prod.sel)
  moreover have "\<exists>s. b62_Encode ident = Some s \<and> b62_Decode s = Inr ident"
    using encode_with_alphabet_digits [OF valid_default, of ident]
      dec [OF valid_default buildDecodeTable_ok [OF valid_default]]
    by (auto simp: b62_Encode_def b62_Decode_def defaultDecodeTable_def)
  ultimately show ?thesis by blast
qed

end
