(* ===== verification/Auction.thy ===== *)
theory Auction
  imports Prelude
begin

section \<open>Package auction: second-price auctions\<close>

text \<open>
  \<open>src/auction/auction.go\<close>.  Prices are minor units; the code only compares them, so they are
  plain integers here.  \<open>sort.SliceStable\<close> with the order "higher price first" is the
  library's stable \<^const>\<open>sort_key\<close> on the negated price.
\<close>

record 'p bid =
  Bidder :: string
  Price :: int
  Payload :: 'p

datatype auction_error = ErrNoValidBids

record 'p auction_result =
  Winner :: "'p bid option"
  ClearingPrice :: int
  BidCount :: nat
  ValidCount :: nat

definition valid_bids :: "'p bid list \<Rightarrow> int \<Rightarrow> 'p bid list" where
  "valid_bids bids flr = filter (\<lambda>b. flr \<le> Price b) bids"

definition by_price :: "'p bid list \<Rightarrow> 'p bid list" where
  "by_price = sort_key (\<lambda>b. - Price b)"

definition slot_clearing :: "'p bid list \<Rightarrow> int \<Rightarrow> nat \<Rightarrow> int" where
  "slot_clearing valid flr i =
     (if i + 1 < length valid \<and> flr < Price (valid ! (i + 1)) then Price (valid ! (i + 1)) else flr)"

definition Resolve :: "'p bid list \<Rightarrow> int \<Rightarrow> 'p auction_result \<times> auction_error option" where
  "Resolve bids flr =
     (let valid = valid_bids bids flr in
      if valid = [] then
        (\<lparr>Winner = None, ClearingPrice = 0, BidCount = length bids, ValidCount = 0\<rparr>, Some ErrNoValidBids)
      else
        let valid = by_price valid in
        (\<lparr>Winner = Some (valid ! 0), ClearingPrice = slot_clearing valid flr 0,
          BidCount = length bids, ValidCount = length valid\<rparr>, None))"

definition ResolveMultiSlot ::
  "'p bid list \<Rightarrow> int \<Rightarrow> int \<Rightarrow> 'p auction_result list \<times> auction_error option" where
  "ResolveMultiSlot bids flr slots =
     (if slots \<le> 0 then ([], None)
      else
        let valid = valid_bids bids flr in
        if valid = [] then ([], Some ErrNoValidBids)
        else
          let valid = by_price valid in
          (map (\<lambda>i. \<lparr>Winner = Some (valid ! i), ClearingPrice = slot_clearing valid flr i,
                      BidCount = length bids, ValidCount = length valid\<rparr>)
             [0..<min (nat slots) (length valid)], None))"

subsection \<open>The ranked bids\<close>

lemma mset_by_price [simp]: "mset (by_price bs) = mset bs"
  by (simp add: by_price_def)

lemma length_by_price [simp]: "length (by_price bs) = length bs"
  by (simp add: by_price_def)

lemma set_by_price [simp]: "set (by_price bs) = set bs"
  by (simp add: by_price_def)

lemma by_price_antimono:
  assumes "i \<le> j" and "j < length bs"
  shows "Price (by_price bs ! j) \<le> Price (by_price bs ! i)"
proof -
  have "sorted (map (\<lambda>b. - Price b) (by_price bs))" by (simp add: by_price_def)
  then have "map (\<lambda>b. - Price b) (by_price bs) ! i \<le> map (\<lambda>b. - Price b) (by_price bs) ! j"
    using assms by (intro sorted_nth_mono) simp_all
  then show ?thesis using assms by simp
qed

text \<open>Ties keep the input order: the winner is the first bid of maximal price.\<close>

lemma by_price_first:
  assumes "bs \<noteq> []"
  shows "by_price bs ! 0 = hd (filter (\<lambda>b. Price b = Price (by_price bs ! 0)) bs)"
proof -
  let ?s = "by_price bs" and ?p = "Price (by_price bs ! 0)"
  have "filter (\<lambda>b. - Price b = - ?p) ?s = filter (\<lambda>b. - Price b = - ?p) bs"
    unfolding by_price_def by (rule sort_key_stable)
  then have f: "filter (\<lambda>b. Price b = ?p) ?s = filter (\<lambda>b. Price b = ?p) bs" by simp
  obtain x xs where "?s = x # xs"
    using assms by (metis length_by_price length_0_conv neq_Nil_conv)
  then have "hd (filter (\<lambda>b. Price b = ?p) ?s) = ?s ! 0" by simp
  then show ?thesis using f by simp
qed

text \<open>The price a slot clears at is the highest competing bid below the slot, or the floor.\<close>

lemma slot_clearing_eq:
  assumes "\<forall>b\<in>set bs. flr \<le> Price b"
  shows "slot_clearing (by_price bs) flr i = Max (insert flr (Price ` set (drop (Suc i) (by_price bs))))"
proof (cases "Suc i < length bs")
  case True
  let ?s = "by_price bs"
  have d: "drop (Suc i) ?s = ?s ! Suc i # drop (Suc (Suc i)) ?s"
    using True by (simp add: Cons_nth_drop_Suc)
  have "Price b \<le> Price (?s ! Suc i)" if b: "b \<in> set (drop (Suc i) ?s)" for b
  proof -
    obtain k where "b = drop (Suc i) ?s ! k" "k < length (drop (Suc i) ?s)"
      using b by (metis in_set_conv_nth)
    then have "b = ?s ! (Suc i + k)" "Suc i + k < length bs" by simp_all
    then show ?thesis using by_price_antimono [of "Suc i" "Suc i + k" bs] by simp
  qed
  moreover have "flr \<le> Price (?s ! Suc i)"
    using assms True by (metis length_by_price nth_mem set_by_price)
  ultimately have "Max (insert flr (Price ` set (drop (Suc i) ?s))) = Price (?s ! Suc i)"
    using d by (intro Max_eqI) (auto simp: d)
  with True \<open>flr \<le> Price (?s ! Suc i)\<close> show ?thesis by (auto simp: slot_clearing_def)
qed (simp add: slot_clearing_def)

lemma slot_clearing_bounds:
  assumes "\<forall>b\<in>set bs. flr \<le> Price b" and "i < length bs"
  shows "flr \<le> slot_clearing (by_price bs) flr i" and "slot_clearing (by_price bs) flr i \<le> Price (by_price bs ! i)"
proof -
  have "flr \<le> Price (by_price bs ! i)"
    using assms by (metis length_by_price nth_mem set_by_price)
  then show "flr \<le> slot_clearing (by_price bs) flr i" and "slot_clearing (by_price bs) flr i \<le> Price (by_price bs ! i)"
    using by_price_antimono [of i "Suc i" bs] by (auto simp: slot_clearing_def)
qed

lemma valid_bids_floor: "\<forall>b\<in>set (valid_bids bids flr). flr \<le> Price b"
  by (simp add: valid_bids_def)

text \<open>
  \<open>Resolve\<close> is a second-price auction with a reserve.  It fails with \<open>ErrNoValidBids\<close> exactly
  when every bid is below the floor.  Otherwise the winner is the first of the highest bids, and
  it pays the highest of the floor and the other valid bids, which is at least the floor and at
  most its own bid.
\<close>
lemma resolve_second_price:
  shows "(snd (Resolve bids flr) = Some ErrNoValidBids \<longleftrightarrow> (\<forall>b\<in>set bids. Price b < flr))
    \<and> (snd (Resolve bids flr) = None \<longrightarrow>
        (\<exists>w. Winner (fst (Resolve bids flr)) = Some w \<and> w \<in> set bids
          \<and> (\<forall>b\<in>set bids. Price b \<le> Price w)
          \<and> w = hd (filter (\<lambda>b. Price b = Price w) bids)
          \<and> ClearingPrice (fst (Resolve bids flr))
              = Max (insert flr (Price ` set (remove1 w (valid_bids bids flr))))
          \<and> flr \<le> ClearingPrice (fst (Resolve bids flr)) \<and> ClearingPrice (fst (Resolve bids flr)) \<le> Price w))"
proof (cases "valid_bids bids flr = []")
  case True
  then have "\<forall>b\<in>set bids. Price b < flr" by (auto simp: valid_bids_def filter_empty_conv)
  with True show ?thesis by (simp add: Resolve_def)
next
  case False
  let ?v = "valid_bids bids flr"
  let ?s = "by_price ?v"
  let ?w = "?s ! 0"
  obtain xs where s: "?s = ?w # xs"
    using False by (metis length_by_price length_0_conv neq_Nil_conv nth_Cons_0)
  have w: "?w \<in> set ?v" using False by (metis length_by_price length_greater_0_conv nth_mem set_by_price)
  then have wb: "?w \<in> set bids" "flr \<le> Price ?w" by (auto simp: valid_bids_def)
  have max: "Price b \<le> Price ?w" if "b \<in> set bids" for b
  proof (cases "flr \<le> Price b")
    case True
    then have "b \<in> set ?s" using that by (simp add: valid_bids_def)
    then obtain k where "b = ?s ! k" "k < length ?v" by (metis in_set_conv_nth length_by_price)
    then show ?thesis using by_price_antimono [of 0 k ?v] by simp
  qed (use wb in simp)
  have "filter (\<lambda>b. Price b = Price ?w) bids = filter (\<lambda>b. Price b = Price ?w) ?v"
    using wb(2) by (auto simp: valid_bids_def intro: filter_cong)
  then have first: "?w = hd (filter (\<lambda>b. Price b = Price ?w) bids)"
    using by_price_first [OF False] by simp
  have "mset (remove1 ?w ?v) = mset xs"
    using arg_cong [OF s, of mset] by (simp only: mset_by_price mset.simps mset_remove1) simp
  then have "set (remove1 ?w ?v) = set xs" by (rule mset_eq_setD)
  moreover have "set (drop (Suc 0) ?s) = set xs" by (subst s) simp
  ultimately have "slot_clearing ?s flr 0 = Max (insert flr (Price ` set (remove1 ?w ?v)))"
    using slot_clearing_eq [OF valid_bids_floor, of bids flr 0] by simp
  moreover have "0 < length ?v" using False by simp
  note slot_clearing_bounds [OF valid_bids_floor this]
  moreover have "Resolve bids flr = (\<lparr>Winner = Some ?w, ClearingPrice = slot_clearing ?s flr 0,
      BidCount = length bids, ValidCount = length ?s\<rparr>, None)"
    using False by (simp add: Resolve_def Let_def)
  ultimately show ?thesis
    using wb max first by (auto simp: not_less)
qed

text \<open>
  \<open>ResolveMultiSlot\<close> fills \<open>min(slots, valid)\<close> slots.  Slot \<open>i\<close> goes to the \<open>i\<close>-th ranked bid
  and clears at the highest lower-ranked bid or the floor; winners' prices and clearing prices
  fall from slot to slot, no winner pays more than its bid, and slot 0 is the result of
  \<open>Resolve\<close>.
\<close>
lemma multi_slot_ranked:
  assumes "0 < slots" and "\<exists>b\<in>set bids. flr \<le> Price b"
  defines "rs \<equiv> fst (ResolveMultiSlot bids flr slots)"
  shows "length rs = min (nat slots) (length (valid_bids bids flr)) \<and> rs \<noteq> [] \<and>
    rs ! 0 = fst (Resolve bids flr) \<and>
    (\<forall>i<length rs. \<exists>w. Winner (rs ! i) = Some w \<and> w = by_price (valid_bids bids flr) ! i
       \<and> flr \<le> ClearingPrice (rs ! i) \<and> ClearingPrice (rs ! i) \<le> Price w) \<and>
    (\<forall>i j. i \<le> j \<and> j < length rs \<longrightarrow> ClearingPrice (rs ! j) \<le> ClearingPrice (rs ! i)
       \<and> Price (the (Winner (rs ! j))) \<le> Price (the (Winner (rs ! i))))"
proof -
  let ?v = "valid_bids bids flr"
  have ne: "?v \<noteq> []" using assms(2) by (auto simp: valid_bids_def filter_empty_conv)
  then have rs: "rs = map (\<lambda>i. \<lparr>Winner = Some (by_price ?v ! i), ClearingPrice = slot_clearing (by_price ?v) flr i,
       BidCount = length bids, ValidCount = length ?v\<rparr>) [0..<min (nat slots) (length ?v)]"
    using assms(1) by (simp add: rs_def ResolveMultiSlot_def Let_def)
  have mono: "slot_clearing (by_price ?v) flr j \<le> slot_clearing (by_price ?v) flr i" if "i \<le> j" for i j
  proof -
    have "set (drop (Suc j) (by_price ?v)) \<subseteq> set (drop (Suc i) (by_price ?v))"
      using that by (intro set_drop_subset_set_drop) simp
    then show ?thesis
      unfolding slot_clearing_eq [OF valid_bids_floor] by (intro Max_mono) auto
  qed
  have "0 < min (nat slots) (length ?v)" using ne assms(1) by simp
  then have "rs ! 0 = fst (Resolve bids flr)" and "rs \<noteq> []"
    using ne by (simp_all add: rs Resolve_def Let_def)
  then show ?thesis
    using mono by_price_antimono [of _ _ ?v] slot_clearing_bounds [OF valid_bids_floor, of _ bids flr]
    by (auto simp: rs)
qed

end
