(* ===== verification/Buffer_Spec.thy ===== *)
theory Buffer_Spec
  imports Prelude
begin

section \<open>The contract of a sequence container\<close>

text \<open>
  Four packages of the toolkit hold a sequence of elements behind \<open>put\<close> and \<open>take\<close>: \<open>queue\<close>,
  \<open>stack\<close>, \<open>ringbuf\<close> and \<open>ringbuffer\<close>.  They differ in what a \<open>put\<close> does to the sequence
  (\<open>absorb\<close>: append, drop when full, overwrite the oldest) and in which end a \<open>take\<close> removes
  (\<open>emit\<close>).  The locale states that the concrete operations implement the two list functions;
  the client lemmas lift this from one operation to every sequence of operations.
\<close>

datatype 'a buf_op = Put 'a | Take

fun buf_run :: "('a \<Rightarrow> 's \<Rightarrow> 's) \<Rightarrow> ('s \<Rightarrow> 'a option \<times> 's) \<Rightarrow> 'a buf_op list \<Rightarrow> 's \<Rightarrow> 'a option list \<times> 's" where
  "buf_run put take_op [] s = ([], s)"
| "buf_run put take_op (Put v # ops) s = buf_run put take_op ops (put v s)"
| "buf_run put take_op (Take # ops) s =
     (let (r, s') = take_op s; (rs, s'') = buf_run put take_op ops s' in (r # rs, s''))"

fun puts :: "'a buf_op list \<Rightarrow> 'a list" where
  "puts [] = []"
| "puts (Put v # ops) = v # puts ops"
| "puts (Take # ops) = puts ops"

definition somes :: "'a option list \<Rightarrow> 'a list" where
  "somes rs = map the (filter (\<lambda>r. r \<noteq> None) rs)"

lemma somes_simps [simp]:
  "somes [] = []" "somes (None # rs) = somes rs" "somes (Some x # rs) = x # somes rs"
  by (simp_all add: somes_def)

lemma puts_map_Put [simp]: "puts (map Put vs) = vs"
  by (induction vs) simp_all

text \<open>The two ends an element may leave from.\<close>

fun emit_first :: "'a list \<Rightarrow> 'a option \<times> 'a list" where
  "emit_first [] = (None, [])"
| "emit_first (x # xs) = (Some x, xs)"

definition emit_last :: "'a list \<Rightarrow> 'a option \<times> 'a list" where
  "emit_last xs = (if xs = [] then (None, []) else (Some (last xs), butlast xs))"

lemma emit_last_simps [simp]:
  "emit_last [] = (None, [])" "emit_last (xs @ [x]) = (Some x, xs)"
  by (simp_all add: emit_last_def)

locale container =
  fixes wf :: "'s \<Rightarrow> bool"
    and items :: "'s \<Rightarrow> 'a list"
    and put :: "'a \<Rightarrow> 's \<Rightarrow> 's"
    and take_op :: "'s \<Rightarrow> 'a option \<times> 's"
    and absorb :: "'a \<Rightarrow> 'a list \<Rightarrow> 'a list"
    and emit :: "'a list \<Rightarrow> 'a option \<times> 'a list"
  assumes put_wf: "wf s \<Longrightarrow> wf (put v s)"
    and put_items: "wf s \<Longrightarrow> items (put v s) = absorb v (items s)"
    and take_wf: "wf s \<Longrightarrow> wf (snd (take_op s))"
    and take_result: "wf s \<Longrightarrow> fst (take_op s) = fst (emit (items s))"
    and take_items: "wf s \<Longrightarrow> items (snd (take_op s)) = snd (emit (items s))"
begin

lemmas container_laws = put_wf put_items take_wf take_result take_items

text \<open>Every run of the implementation gives the results of the list functions.\<close>

lemma run_refines:
  "wf s \<Longrightarrow> fst (buf_run put take_op ops s) = fst (buf_run absorb emit ops (items s))
    \<and> wf (snd (buf_run put take_op ops s))
    \<and> items (snd (buf_run put take_op ops s)) = snd (buf_run absorb emit ops (items s))"
proof (induction ops arbitrary: s rule: puts.induct)
  case (3 ops)
  obtain r s' where t: "take_op s = (r, s')" by (cases "take_op s")
  then have "emit (items s) = (r, items s')" "wf s'"
    using container_laws [OF \<open>wf s\<close>] by (simp_all add: prod_eq_iff)
  with 3 t show ?case by (simp add: split_beta)
qed (simp_all add: container_laws)

end

text \<open>A first-in first-out container: what was held and put comes out, in order, and the rest stays.\<close>

locale fifo_container = container wf items put take_op absorb emit_first
  for wf :: "'s \<Rightarrow> bool" and items :: "'s \<Rightarrow> 'a list" and put take_op absorb +
  assumes absorb_append: "absorb v xs = xs @ [v]"
begin

lemma fifo_list: "somes (fst (buf_run absorb emit_first ops xs)) @ snd (buf_run absorb emit_first ops xs) = xs @ puts ops"
proof (induction ops arbitrary: xs rule: puts.induct)
  case (3 ops)
  then show ?case by (cases xs) (simp_all add: split_beta)
qed (simp_all add: absorb_append)

lemma fifo_conservation:
  "wf s \<Longrightarrow> somes (fst (buf_run put take_op ops s)) @ items (snd (buf_run put take_op ops s)) = items s @ puts ops"
  using run_refines [of s ops] fifo_list [of ops "items s"] by simp

end

text \<open>A last-in first-out container gives back what was put, most recent first.\<close>

locale lifo_container = container wf items put take_op absorb emit_last
  for wf :: "'s \<Rightarrow> bool" and items :: "'s \<Rightarrow> 'a list" and put take_op absorb +
  assumes absorb_append: "absorb v xs = xs @ [v]"
begin

lemma lifo_list:
  "buf_run absorb emit_last (map Put vs @ ops) xs = buf_run absorb emit_last ops (xs @ vs)"
  "buf_run absorb emit_last (replicate (length vs) Take) (xs @ vs) = (map Some (rev vs), xs)"
proof -
  show "buf_run absorb emit_last (map Put vs @ ops) xs = buf_run absorb emit_last ops (xs @ vs)"
    by (induction vs arbitrary: xs) (simp_all add: absorb_append)
  show "buf_run absorb emit_last (replicate (length vs) Take) (xs @ vs) = (map Some (rev vs), xs)"
  proof (induction vs rule: rev_induct)
    case (snoc v vs)
    have "emit_last (xs @ vs @ [v]) = (Some v, xs @ vs)"
      using emit_last_simps(2) [of "xs @ vs" v] by simp
    with snoc show ?case by simp
  qed simp
qed

lemma lifo_reverses:
  assumes "wf s" and "ops = map Put vs @ replicate (length vs) Take"
  shows "fst (buf_run put take_op ops s) = map Some (rev vs) \<and> items (snd (buf_run put take_op ops s)) = items s"
  using run_refines [OF assms(1), of ops] by (simp add: assms(2) lifo_list)

end

text \<open>A window keeps the most recent \<open>cap\<close> elements.\<close>

definition absorb_window :: "nat \<Rightarrow> 'a \<Rightarrow> 'a list \<Rightarrow> 'a list" where
  "absorb_window cap v xs = (if length xs < cap then xs @ [v] else tl xs @ [v])"

definition last_n :: "nat \<Rightarrow> 'a list \<Rightarrow> 'a list" where
  "last_n n xs = drop (length xs - n) xs"

lemma absorb_window_last_n:
  assumes "0 < cap"
  shows "absorb_window cap v (last_n cap xs) = last_n cap (xs @ [v])"
proof (cases "length xs < cap")
  case False
  then have "length xs - cap < length xs" using assms by simp
  then have "tl (drop (length xs - cap) xs) = drop (Suc (length xs) - cap) xs"
    using False by (simp add: drop_Suc tl_drop Suc_diff_le)
  with False assms show ?thesis by (simp add: absorb_window_def last_n_def)
qed (simp add: absorb_window_def last_n_def)

locale window_container = container wf items put take_op "absorb_window cap" emit_first
  for wf :: "'s \<Rightarrow> bool" and items :: "'s \<Rightarrow> 'a list" and put take_op and cap :: nat +
  assumes cap_pos: "0 < cap"
begin

lemma window_list: "snd (buf_run (absorb_window cap) emit_first (map Put vs) (last_n cap us)) = last_n cap (us @ vs)"
  by (induction vs arbitrary: us) (simp_all add: absorb_window_last_n cap_pos)

lemma window_keeps_last:
  assumes "wf s" and "items s = []"
  shows "items (snd (buf_run put take_op (map Put vs) s)) = last_n cap vs"
  using run_refines [OF assms(1), of "map Put vs"] window_list [of vs "[]"] assms(2)
  by (simp add: last_n_def)

end

end
