(* ===== verification/Ringbuf.thy ===== *)
theory Ringbuf
  imports Buffer_Spec
begin

section \<open>Package ringbuf: an overwriting circular buffer\<close>

text \<open>
  \<open>src/ringbuf/ringbuf.go\<close>.  The fields of \<open>CircularBuffer\<close> are kept as they are; \<open>z\<close> is Go's
  zero value of the element type.  A panic of the constructor is an error value.  Operations
  that return \<open>(T, error)\<close> return a sum.
\<close>

datatype ringbuf_error = ringbuf_ErrEmpty | ringbuf_panic

record 'a circular_buffer =
  cb_buf :: "'a list"
  cb_head :: nat
  cb_size :: nat
  cb_cap :: nat

definition ringbuf_New :: "'a \<Rightarrow> int \<Rightarrow> ringbuf_error + 'a circular_buffer" where
  "ringbuf_New z capacity =
     (if capacity \<le> 0 then Inl ringbuf_panic
      else Inr \<lparr>cb_buf = replicate (nat capacity) z, cb_head = 0, cb_size = 0, cb_cap = nat capacity\<rparr>)"

definition ringbuf_Push :: "'a \<Rightarrow> 'a circular_buffer \<Rightarrow> 'a circular_buffer" where
  "ringbuf_Push v c =
     (if cb_size c < cb_cap c then
        (let idx = (cb_head c + cb_size c) mod cb_cap c in
         c\<lparr>cb_buf := (cb_buf c)[idx := v], cb_size := cb_size c + 1\<rparr>)
      else c\<lparr>cb_buf := (cb_buf c)[cb_head c := v], cb_head := (cb_head c + 1) mod cb_cap c\<rparr>)"

definition ringbuf_Pop :: "'a \<Rightarrow> 'a circular_buffer \<Rightarrow> (ringbuf_error + 'a) \<times> 'a circular_buffer" where
  "ringbuf_Pop z c =
     (if cb_size c = 0 then (Inl ringbuf_ErrEmpty, c)
      else
        let v = cb_buf c ! cb_head c in
        (Inr v, c\<lparr>cb_buf := (cb_buf c)[cb_head c := z], cb_head := (cb_head c + 1) mod cb_cap c,
                  cb_size := cb_size c - 1\<rparr>))"

definition ringbuf_At :: "'a circular_buffer \<Rightarrow> int \<Rightarrow> ringbuf_error + 'a" where
  "ringbuf_At c i =
     (if i < 0 \<or> int (cb_size c) \<le> i then Inl ringbuf_ErrEmpty
      else Inr (cb_buf c ! ((cb_head c + nat i) mod cb_cap c)))"

definition ringbuf_Latest :: "'a circular_buffer \<Rightarrow> ringbuf_error + 'a" where
  "ringbuf_Latest c = ringbuf_At c (int (cb_size c) - 1)"

definition ringbuf_IsFull :: "'a circular_buffer \<Rightarrow> bool" where
  "ringbuf_IsFull c \<longleftrightarrow> cb_size c = cb_cap c"

definition ringbuf_IsEmpty :: "'a circular_buffer \<Rightarrow> bool" where
  "ringbuf_IsEmpty c \<longleftrightarrow> cb_size c = 0"

definition ringbuf_Clear :: "'a \<Rightarrow> 'a circular_buffer \<Rightarrow> 'a circular_buffer" where
  "ringbuf_Clear z c = c\<lparr>cb_buf := map (\<lambda>_. z) (cb_buf c), cb_head := 0, cb_size := 0\<rparr>"

definition ringbuf_ToSlice :: "'a circular_buffer \<Rightarrow> 'a list" where
  "ringbuf_ToSlice c = map (\<lambda>i. cb_buf c ! ((cb_head c + i) mod cb_cap c)) [0..<cb_size c]"

subsection \<open>Invariant and abstraction\<close>

definition cb_wf :: "nat \<Rightarrow> 'a circular_buffer \<Rightarrow> bool" where
  "cb_wf cap c \<longleftrightarrow> 0 < cap \<and> cb_cap c = cap \<and> length (cb_buf c) = cap \<and> cb_head c < cap \<and> cb_size c \<le> cap"

lemma ringbuf_ToSlice_ring: "cb_wf cap c \<Longrightarrow> ringbuf_ToSlice c = ring_items (cb_buf c) (cb_head c) (cb_size c)"
  by (simp add: ringbuf_ToSlice_def ring_items_def cb_wf_def)

lemma length_ringbuf_ToSlice [simp]: "length (ringbuf_ToSlice c) = cb_size c"
  by (simp add: ringbuf_ToSlice_def)

lemma ringbuf_New_wf:
  "ringbuf_New z capacity = Inr c \<Longrightarrow> cb_wf (nat capacity) c \<and> ringbuf_ToSlice c = []"
  by (auto simp: ringbuf_New_def cb_wf_def ringbuf_ToSlice_def split: if_splits)

lemma ringbuf_Push_wf: "cb_wf cap c \<Longrightarrow> cb_wf cap (ringbuf_Push v c)"
  by (simp add: cb_wf_def ringbuf_Push_def Let_def)

lemma ringbuf_Push_items:
  assumes wf: "cb_wf cap c"
  shows "ringbuf_ToSlice (ringbuf_Push v c) = absorb_window cap v (ringbuf_ToSlice c)"
proof -
  note ring = ringbuf_ToSlice_ring [OF ringbuf_Push_wf [OF wf]] ringbuf_ToSlice_ring [OF wf]
  show ?thesis
    unfolding ring
    using wf ring_items_snoc [of "cb_size c" "cb_buf c" "cb_head c" v]
      ring_items_overwrite [of "cb_head c" "cb_buf c" v]
    by (auto simp: ringbuf_Push_def absorb_window_def Let_def cb_wf_def)
qed

definition ringbuf_take :: "'a \<Rightarrow> 'a circular_buffer \<Rightarrow> 'a option \<times> 'a circular_buffer" where
  "ringbuf_take z c = (case ringbuf_Pop z c of (Inl e, c') \<Rightarrow> (None, c') | (Inr v, c') \<Rightarrow> (Some v, c'))"

lemma ringbuf_Pop_wf: "cb_wf cap c \<Longrightarrow> cb_wf cap (snd (ringbuf_Pop z c))"
  by (auto simp: cb_wf_def ringbuf_Pop_def Let_def)

lemma ringbuf_take_emit:
  assumes wf: "cb_wf cap c"
  shows "fst (ringbuf_take z c) = fst (emit_first (ringbuf_ToSlice c)) \<and> cb_wf cap (snd (ringbuf_take z c))
    \<and> ringbuf_ToSlice (snd (ringbuf_take z c)) = snd (emit_first (ringbuf_ToSlice c))"
proof (cases "cb_size c = 0")
  case True
  then have "ringbuf_ToSlice c = []" by (simp add: ringbuf_ToSlice_def)
  with True wf show ?thesis by (simp add: ringbuf_take_def ringbuf_Pop_def)
next
  case False
  let ?c = "snd (ringbuf_Pop z c)"
  have take: "ringbuf_take z c = (Some (cb_buf c ! cb_head c), ?c)"
    using False by (simp add: ringbuf_take_def ringbuf_Pop_def Let_def)
  have len: "cb_head c < length (cb_buf c)" "0 < cb_size c" "cb_size c \<le> length (cb_buf c)"
    using wf False by (simp_all add: cb_wf_def)
  have "ringbuf_ToSlice ?c = tl (ringbuf_ToSlice c)"
    using ring_items_pop(1) [OF len, of z] wf False
    by (simp add: ringbuf_ToSlice_ring [OF ringbuf_Pop_wf [OF wf]] ringbuf_ToSlice_ring [OF wf])
      (simp add: ringbuf_Pop_def Let_def cb_wf_def)
  moreover have "cb_buf c ! cb_head c = hd (ringbuf_ToSlice c)"
    using ring_items_pop(2) [OF len] by (simp add: ringbuf_ToSlice_ring [OF wf])
  moreover obtain x xs where "ringbuf_ToSlice c = x # xs"
    using False by (metis length_ringbuf_ToSlice list.exhaust list.size(3))
  ultimately show ?thesis
    using ringbuf_Pop_wf [OF wf, of z] by (simp add: take)
qed

text \<open>
  The buffer provides the window contract for every capacity.  The parameter \<open>cap\<close> is taken as
  \<open>Suc n\<close>, so that the contract's positivity holds for all instances.
\<close>

interpretation cb: window_container "cb_wf (Suc n)" ringbuf_ToSlice ringbuf_Push "ringbuf_take z" "Suc n"
  for n :: nat and z :: 'a
proof unfold_locales
  fix c :: "'a circular_buffer" and v
  assume wf: "cb_wf (Suc n) c"
  show "cb_wf (Suc n) (ringbuf_Push v c)" by (rule ringbuf_Push_wf [OF wf])
  show "ringbuf_ToSlice (ringbuf_Push v c) = absorb_window (Suc n) v (ringbuf_ToSlice c)"
    by (rule ringbuf_Push_items [OF wf])
  from ringbuf_take_emit [OF wf, of z]
  show "cb_wf (Suc n) (snd (ringbuf_take z c))"
    and "fst (ringbuf_take z c) = fst (emit_first (ringbuf_ToSlice c))"
    and "ringbuf_ToSlice (snd (ringbuf_take z c)) = snd (emit_first (ringbuf_ToSlice c))"
    by simp_all
qed simp

text \<open>
  From a new buffer of positive capacity, pushing any sequence of values leaves exactly the
  last \<open>capacity\<close> of them, oldest first, and for every sequence of pushes and pops the results of
  \<open>Pop\<close> and the final content are those of a list that drops its first element when full.
\<close>
lemma ringbuf_window:
  assumes "ringbuf_New z capacity = Inr c"
  shows "ringbuf_ToSlice (snd (buf_run ringbuf_Push (ringbuf_take z) (map Put vs) c)) = last_n (nat capacity) vs
    \<and> fst (buf_run ringbuf_Push (ringbuf_take z) ops c)
        = fst (buf_run (absorb_window (nat capacity)) emit_first ops [])
    \<and> ringbuf_ToSlice (snd (buf_run ringbuf_Push (ringbuf_take z) ops c))
        = snd (buf_run (absorb_window (nat capacity)) emit_first ops [])"
proof -
  obtain n where n: "nat capacity = Suc n"
    using assms by (cases "nat capacity") (auto simp: ringbuf_New_def split: if_splits)
  have wf: "cb_wf (Suc n) c" "ringbuf_ToSlice c = []"
    using ringbuf_New_wf [OF assms] n by simp_all
  show ?thesis
    using cb.window_keeps_last [OF wf, of z vs] cb.run_refines [OF wf(1), of z ops] wf(2) n by simp
qed

text \<open>
  \<open>At(i)\<close> is the \<open>i\<close>-th element of \<open>ToSlice\<close> for every index in range and \<open>ErrEmpty\<close>
  otherwise, \<open>Latest\<close> is the value pushed last, and \<open>Clear\<close> empties the buffer and keeps it usable.
\<close>

lemma ringbuf_reads:
  assumes "cb_wf cap c"
  shows "ringbuf_At c i = (if 0 \<le> i \<and> i < int (length (ringbuf_ToSlice c))
           then Inr (ringbuf_ToSlice c ! nat i) else Inl ringbuf_ErrEmpty)
    \<and> ringbuf_Latest (ringbuf_Push v c) = Inr v
    \<and> cb_wf cap (ringbuf_Clear z c) \<and> ringbuf_ToSlice (ringbuf_Clear z c) = []"
proof -
  have at: "ringbuf_At d i = (if 0 \<le> i \<and> i < int (length (ringbuf_ToSlice d))
           then Inr (ringbuf_ToSlice d ! nat i) else Inl ringbuf_ErrEmpty)" for d :: "'a circular_buffer" and i
    by (auto simp: ringbuf_At_def ringbuf_ToSlice_def)
  let ?xs = "ringbuf_ToSlice (ringbuf_Push v c)"
  have "last ?xs = v" "?xs \<noteq> []"
    by (simp_all add: ringbuf_Push_items [OF assms] absorb_window_def)
  then have "?xs ! (length ?xs - 1) = v" "0 < length ?xs"
    by (metis last_conv_nth, metis length_greater_0_conv)
  then have "ringbuf_Latest (ringbuf_Push v c) = Inr v"
    by (simp add: ringbuf_Latest_def at nat_diff_distrib)
  then show ?thesis
    using at [of c i] assms by (simp add: ringbuf_Clear_def cb_wf_def ringbuf_ToSlice_def)
qed

end
