(* ===== verification/Ringbuffer.thy ===== *)
theory Ringbuffer
  imports Buffer_Spec
begin

section \<open>Package ringbuffer: a bounded blocking buffer\<close>

text \<open>
  \<open>src/ringbuffer/ringbuffer.go\<close>.  Every method runs under the mutex, so its critical section is
  a function on the state.  The result of a critical section is the method's result, or \<open>None\<close>
  when the method calls \<open>cond.Wait\<close>, together with whether it calls \<open>cond.Broadcast\<close> and the
  new state.  The threads that call the methods are the step relation below.
\<close>

datatype ringbuffer_error = rb_ErrClosed

record 'a ring_buffer =
  rb_buf :: "'a list"
  rb_head :: nat
  rb_tail :: nat
  rb_count :: nat
  rb_cap :: nat
  rb_closed :: bool

type_synonym ('a, 'r) section_result = "'r option \<times> bool \<times> 'a ring_buffer"

definition ringbuffer_New :: "'a \<Rightarrow> int \<Rightarrow> 'a ring_buffer" where
  "ringbuffer_New z capacity =
     (let capacity = (if capacity < 1 then 1 else capacity) in
      \<lparr>rb_buf = replicate (nat capacity) z, rb_head = 0, rb_tail = 0, rb_count = 0,
       rb_cap = nat capacity, rb_closed = False\<rparr>)"

definition rb_write :: "'a \<Rightarrow> 'a ring_buffer \<Rightarrow> 'a ring_buffer" where
  "rb_write item rb =
     rb\<lparr>rb_buf := (rb_buf rb)[rb_head rb := item], rb_head := (rb_head rb + 1) mod rb_cap rb,
        rb_count := rb_count rb + 1\<rparr>"

definition rb_read :: "'a \<Rightarrow> 'a ring_buffer \<Rightarrow> 'a \<times> 'a ring_buffer" where
  "rb_read z rb =
     (rb_buf rb ! rb_tail rb,
      rb\<lparr>rb_buf := (rb_buf rb)[rb_tail rb := z], rb_tail := (rb_tail rb + 1) mod rb_cap rb,
         rb_count := rb_count rb - 1\<rparr>)"

definition rb_Push :: "'a \<Rightarrow> 'a ring_buffer \<Rightarrow> ('a, ringbuffer_error option) section_result" where
  "rb_Push item rb =
     (if rb_count rb = rb_cap rb \<and> \<not> rb_closed rb then (None, False, rb)
      else if rb_closed rb then (Some (Some rb_ErrClosed), False, rb)
      else (Some None, True, rb_write item rb))"

definition rb_TryPush :: "'a \<Rightarrow> 'a ring_buffer \<Rightarrow> ('a, bool) section_result" where
  "rb_TryPush item rb =
     (if rb_count rb = rb_cap rb \<or> rb_closed rb then (Some False, False, rb)
      else (Some True, True, rb_write item rb))"

definition rb_Pop :: "'a \<Rightarrow> 'a ring_buffer \<Rightarrow> ('a, ringbuffer_error + 'a) section_result" where
  "rb_Pop z rb =
     (if rb_count rb = 0 \<and> \<not> rb_closed rb then (None, False, rb)
      else if rb_count rb = 0 \<and> rb_closed rb then (Some (Inl rb_ErrClosed), False, rb)
      else let (item, rb') = rb_read z rb in (Some (Inr item), True, rb'))"

definition rb_TryPop :: "'a \<Rightarrow> 'a ring_buffer \<Rightarrow> ('a, 'a option) section_result" where
  "rb_TryPop z rb =
     (if rb_count rb = 0 then (Some None, False, rb)
      else let (item, rb') = rb_read z rb in (Some (Some item), True, rb'))"

definition rb_IsFull :: "'a ring_buffer \<Rightarrow> bool" where
  "rb_IsFull rb \<longleftrightarrow> rb_count rb = rb_cap rb"

definition rb_IsEmpty :: "'a ring_buffer \<Rightarrow> bool" where
  "rb_IsEmpty rb \<longleftrightarrow> rb_count rb = 0"

text \<open>The loop of \<open>Drain\<close> reads without touching the count.\<close>

fun drain_loop :: "'a \<Rightarrow> nat \<Rightarrow> 'a ring_buffer \<Rightarrow> 'a list \<times> 'a ring_buffer" where
  "drain_loop z 0 rb = ([], rb)"
| "drain_loop z (Suc n) rb =
     (let item = rb_buf rb ! rb_tail rb;
          rb' = rb\<lparr>rb_buf := (rb_buf rb)[rb_tail rb := z], rb_tail := (rb_tail rb + 1) mod rb_cap rb\<rparr>;
          (out, rb'') = drain_loop z n rb'
      in (item # out, rb''))"

definition rb_Drain :: "'a \<Rightarrow> 'a ring_buffer \<Rightarrow> ('a, 'a list) section_result" where
  "rb_Drain z rb =
     (let (out, rb') = drain_loop z (rb_count rb) rb
      in (Some out, True, rb'\<lparr>rb_count := 0, rb_head := rb_tail rb'\<rparr>))"

definition rb_Close :: "'a ring_buffer \<Rightarrow> ('a, unit) section_result" where
  "rb_Close rb = (Some (), True, rb\<lparr>rb_closed := True\<rparr>)"

subsection \<open>Invariant and abstraction\<close>

definition rb_items :: "'a ring_buffer \<Rightarrow> 'a list" where
  "rb_items rb = ring_items (rb_buf rb) (rb_tail rb) (rb_count rb)"

definition rb_wf :: "nat \<Rightarrow> 'a ring_buffer \<Rightarrow> bool" where
  "rb_wf cap rb \<longleftrightarrow> 0 < cap \<and> rb_cap rb = cap \<and> length (rb_buf rb) = cap \<and> rb_tail rb < cap
     \<and> rb_count rb \<le> cap \<and> rb_head rb = (rb_tail rb + rb_count rb) mod cap"

lemma length_rb_items [simp]: "length (rb_items rb) = rb_count rb"
  by (simp add: rb_items_def)

lemma ringbuffer_New_wf:
  "rb_wf (max 1 (nat capacity)) (ringbuffer_New z capacity)" "rb_items (ringbuffer_New z capacity) = []"
  "\<not> rb_closed (ringbuffer_New z capacity)"
  by (auto simp: ringbuffer_New_def rb_wf_def rb_items_def Let_def)

lemma rb_write_wf:
  assumes "rb_wf cap rb" and "rb_count rb < cap"
  shows "rb_wf cap (rb_write v rb)" and "rb_items (rb_write v rb) = rb_items rb @ [v]"
proof -
  show "rb_wf cap (rb_write v rb)" using assms by (auto simp: rb_wf_def rb_write_def mod_simps)
  show "rb_items (rb_write v rb) = rb_items rb @ [v]"
    using assms ring_items_snoc [of "rb_count rb" "rb_buf rb" "rb_tail rb" v]
    by (simp add: rb_wf_def rb_write_def rb_items_def)
qed

lemma rb_read_wf:
  assumes wf: "rb_wf cap rb" and pos: "0 < rb_count rb"
  shows "rb_wf cap (snd (rb_read z rb))" and "rb_items rb = fst (rb_read z rb) # rb_items (snd (rb_read z rb))"
proof -
  have "(Suc (rb_tail rb) mod cap + (rb_count rb - Suc 0)) mod cap = (rb_tail rb + rb_count rb) mod cap"
    using pos by (metis One_nat_def Suc_pred add_Suc_right add_Suc mod_add_left_eq)
  with wf show "rb_wf cap (snd (rb_read z rb))" by (auto simp: rb_wf_def rb_read_def)
  have len: "rb_tail rb < length (rb_buf rb)" "rb_count rb \<le> length (rb_buf rb)"
    using wf by (simp_all add: rb_wf_def)
  have "rb_items rb \<noteq> []" using pos by (simp add: rb_items_def)
  then show "rb_items rb = fst (rb_read z rb) # rb_items (snd (rb_read z rb))"
    using ring_items_pop(1) [OF len(1) pos len(2), of z] ring_items_pop(2) [OF len(1) pos len(2)] wf
    by (simp add: rb_items_def rb_read_def rb_wf_def)
qed

lemma drain_loop_count:
  "drain_loop z k (rb\<lparr>rb_count := c\<rparr>)
    = (fst (drain_loop z k rb), (snd (drain_loop z k rb))\<lparr>rb_count := c\<rparr>)"
proof (induction k arbitrary: rb)
  case (Suc k)
  let ?r = "rb\<lparr>rb_buf := (rb_buf rb)[rb_tail rb := z], rb_tail := Suc (rb_tail rb) mod rb_cap rb\<rparr>"
  have "(rb\<lparr>rb_count := c\<rparr>)\<lparr>rb_buf := (rb_buf rb)[rb_tail rb := z],
      rb_tail := Suc (rb_tail rb) mod rb_cap rb\<rparr> = ?r\<lparr>rb_count := c\<rparr>"
    by (cases rb) simp
  note eq = this
  show ?case using Suc [of ?r] by (simp add: eq Let_def split_beta)
qed simp

lemma drain_loop_spec:
  assumes "rb_wf cap rb"
  shows "fst (drain_loop z (rb_count rb) rb) = rb_items rb
    \<and> rb_wf cap ((snd (drain_loop z (rb_count rb) rb))\<lparr>rb_count := 0, rb_head := rb_tail (snd (drain_loop z (rb_count rb) rb))\<rparr>)
    \<and> rb_closed (snd (drain_loop z (rb_count rb) rb)) = rb_closed rb"
  using assms
proof (induction "rb_count rb" arbitrary: rb)
  case 0
  then show ?case by (simp add: rb_wf_def rb_items_def)
next
  case (Suc n)
  let ?r = "snd (rb_read z rb)"
  have pos: "0 < rb_count rb" and n: "n = rb_count ?r" using Suc.hyps(2) by (simp_all add: rb_read_def)

  note wf = rb_read_wf [OF Suc.prems pos, of z]
  note IH = Suc.hyps(1) [OF n wf(1)]
  have "drain_loop z n ?r = (fst (drain_loop z n (rb\<lparr>rb_buf := (rb_buf rb)[rb_tail rb := z],
          rb_tail := (rb_tail rb + 1) mod rb_cap rb\<rparr>)),
       (snd (drain_loop z n (rb\<lparr>rb_buf := (rb_buf rb)[rb_tail rb := z],
          rb_tail := (rb_tail rb + 1) mod rb_cap rb\<rparr>)))\<lparr>rb_count := rb_count rb - 1\<rparr>)"
    by (simp only: rb_read_def snd_conv drain_loop_count)
  then show ?case
    using IH wf(2) unfolding n [symmetric] Suc.hyps(2) [symmetric]
    by (simp add: split_beta Let_def) (simp add: rb_read_def)
qed

text \<open>\<open>TryPush\<close> and \<open>TryPop\<close> on an open buffer implement a list that refuses elements when full.\<close>

definition absorb_bounded :: "nat \<Rightarrow> 'a \<Rightarrow> 'a list \<Rightarrow> 'a list" where
  "absorb_bounded cap v xs = (if length xs = cap then xs else xs @ [v])"

definition rb_put :: "'a \<Rightarrow> 'a ring_buffer \<Rightarrow> 'a ring_buffer" where
  "rb_put v rb = snd (snd (rb_TryPush v rb))"

definition rb_take :: "'a \<Rightarrow> 'a ring_buffer \<Rightarrow> 'a option \<times> 'a ring_buffer" where
  "rb_take z rb = (case rb_TryPop z rb of (r, b, rb') \<Rightarrow> (the r, rb'))"

lemma rb_closed_ops [simp]:
  "rb_closed (rb_write v rb) = rb_closed rb" "rb_closed (snd (rb_read z rb)) = rb_closed rb"
  by (simp_all add: rb_write_def rb_read_def)

lemma rb_take_emit:
  assumes wf: "rb_wf cap rb"
  shows "fst (rb_take z rb) = fst (emit_first (rb_items rb)) \<and> rb_wf cap (snd (rb_take z rb))
    \<and> rb_items (snd (rb_take z rb)) = snd (emit_first (rb_items rb)) \<and> rb_closed (snd (rb_take z rb)) = rb_closed rb"
proof (cases "rb_count rb = 0")
  case True
  then have "rb_items rb = []" by (simp add: rb_items_def)
  with True wf show ?thesis by (simp add: rb_take_def rb_TryPop_def)
next
  case False
  with rb_read_wf [OF wf, of z] show ?thesis
    by (simp add: rb_take_def rb_TryPop_def split_beta)
qed

interpretation rbc: container "\<lambda>rb. rb_wf cap rb \<and> \<not> rb_closed rb" rb_items rb_put "rb_take z" "absorb_bounded cap" emit_first
  for cap :: nat and z :: 'a
proof unfold_locales
  fix rb :: "'a ring_buffer" and v
  assume wf: "rb_wf cap rb \<and> \<not> rb_closed rb"
  have "rb_count rb \<le> cap" "rb_cap rb = cap" using wf by (simp_all add: rb_wf_def)
  then show "rb_wf cap (rb_put v rb) \<and> \<not> rb_closed (rb_put v rb)"
    and "rb_items (rb_put v rb) = absorb_bounded cap v (rb_items rb)"
    using wf rb_write_wf [of cap rb v]
    by (auto simp: rb_put_def rb_TryPush_def absorb_bounded_def)
qed (simp_all add: rb_take_emit [of cap])

subsection \<open>Threads, the mutex and the condition variable\<close>

text \<open>
  A thread is idle, has called a method and competes for the mutex (\<open>Ready\<close>), or sleeps in
  \<open>cond.Wait\<close>.  A step runs one critical section; \<open>Broadcast\<close> makes every sleeper compete
  again, which re-evaluates the loop condition.  The label of a step is what it moves through
  the buffer.
\<close>

datatype 'a rb_call = CPush 'a | CPop

datatype 'a rb_thread = Idle | Ready "'a rb_call" | Sleeping "'a rb_call"

datatype 'a rb_label = In "'a list" | Out "'a list" | Tau

record 'a rb_system =
  sys_rb :: "'a ring_buffer"
  sys_threads :: "nat \<Rightarrow> 'a rb_thread"

fun awaken :: "'a rb_thread \<Rightarrow> 'a rb_thread" where
  "awaken (Sleeping c) = Ready c"
| "awaken t = t"

definition rb_Broadcast :: "bool \<Rightarrow> (nat \<Rightarrow> 'a rb_thread) \<Rightarrow> nat \<Rightarrow> 'a rb_thread" where
  "rb_Broadcast b th = (if b then awaken \<circ> th else th)"

inductive rb_step :: "'a \<Rightarrow> 'a rb_system \<Rightarrow> 'a rb_label \<Rightarrow> 'a rb_system \<Rightarrow> bool" for z :: 'a where
  call: "th t = Idle \<Longrightarrow>
    rb_step z \<lparr>sys_rb = rb, sys_threads = th\<rparr> Tau \<lparr>sys_rb = rb, sys_threads = th(t := Ready c)\<rparr>"
| push_waits: "th t = Ready (CPush v) \<Longrightarrow> rb_Push v rb = (None, b, rb') \<Longrightarrow>
    rb_step z \<lparr>sys_rb = rb, sys_threads = th\<rparr> Tau
      \<lparr>sys_rb = rb', sys_threads = rb_Broadcast b (th(t := Sleeping (CPush v)))\<rparr>"
| push_fails: "th t = Ready (CPush v) \<Longrightarrow> rb_Push v rb = (Some (Some e), b, rb') \<Longrightarrow>
    rb_step z \<lparr>sys_rb = rb, sys_threads = th\<rparr> Tau
      \<lparr>sys_rb = rb', sys_threads = rb_Broadcast b (th(t := Idle))\<rparr>"
| push_writes: "th t = Ready (CPush v) \<Longrightarrow> rb_Push v rb = (Some None, b, rb') \<Longrightarrow>
    rb_step z \<lparr>sys_rb = rb, sys_threads = th\<rparr> (In [v])
      \<lparr>sys_rb = rb', sys_threads = rb_Broadcast b (th(t := Idle))\<rparr>"
| pop_waits: "th t = Ready CPop \<Longrightarrow> rb_Pop z rb = (None, b, rb') \<Longrightarrow>
    rb_step z \<lparr>sys_rb = rb, sys_threads = th\<rparr> Tau
      \<lparr>sys_rb = rb', sys_threads = rb_Broadcast b (th(t := Sleeping CPop))\<rparr>"
| pop_fails: "th t = Ready CPop \<Longrightarrow> rb_Pop z rb = (Some (Inl e), b, rb') \<Longrightarrow>
    rb_step z \<lparr>sys_rb = rb, sys_threads = th\<rparr> Tau
      \<lparr>sys_rb = rb', sys_threads = rb_Broadcast b (th(t := Idle))\<rparr>"
| pop_reads: "th t = Ready CPop \<Longrightarrow> rb_Pop z rb = (Some (Inr v), b, rb') \<Longrightarrow>
    rb_step z \<lparr>sys_rb = rb, sys_threads = th\<rparr> (Out [v])
      \<lparr>sys_rb = rb', sys_threads = rb_Broadcast b (th(t := Idle))\<rparr>"
| try_push: "rb_TryPush v rb = (Some ok, b, rb') \<Longrightarrow>
    rb_step z \<lparr>sys_rb = rb, sys_threads = th\<rparr> (if ok then In [v] else Tau)
      \<lparr>sys_rb = rb', sys_threads = rb_Broadcast b th\<rparr>"
| try_pop: "rb_TryPop z rb = (Some r, b, rb') \<Longrightarrow>
    rb_step z \<lparr>sys_rb = rb, sys_threads = th\<rparr> (case r of None \<Rightarrow> Tau | Some v \<Rightarrow> Out [v])
      \<lparr>sys_rb = rb', sys_threads = rb_Broadcast b th\<rparr>"
| drain: "rb_Drain z rb = (Some out, b, rb') \<Longrightarrow>
    rb_step z \<lparr>sys_rb = rb, sys_threads = th\<rparr> (Out out)
      \<lparr>sys_rb = rb', sys_threads = rb_Broadcast b th\<rparr>"
| close: "rb_Close rb = (Some (), b, rb') \<Longrightarrow>
    rb_step z \<lparr>sys_rb = rb, sys_threads = th\<rparr> Tau
      \<lparr>sys_rb = rb', sys_threads = rb_Broadcast b th\<rparr>"

text \<open>The states reached by a run, with the values that went in and came out so far.\<close>

inductive rb_reach :: "'a \<Rightarrow> int \<Rightarrow> 'a list \<Rightarrow> 'a list \<Rightarrow> 'a rb_system \<Rightarrow> bool" for z capacity where
  start: "rb_reach z capacity [] [] \<lparr>sys_rb = ringbuffer_New z capacity, sys_threads = (\<lambda>_. Idle)\<rparr>"
| tau: "rb_reach z capacity i out s \<Longrightarrow> rb_step z s Tau s' \<Longrightarrow> rb_reach z capacity i out s'"
| takes_in: "rb_reach z capacity i out s \<Longrightarrow> rb_step z s (In vs) s' \<Longrightarrow> rb_reach z capacity (i @ vs) out s'"
| gives_out: "rb_reach z capacity i out s \<Longrightarrow> rb_step z s (Out vs) s' \<Longrightarrow> rb_reach z capacity i (out @ vs) s'"

text \<open>
  The invariant: the buffer is well-formed, and a sleeping thread really has to wait (no wake-up
  is lost).
\<close>

definition must_wait :: "'a ring_buffer \<Rightarrow> 'a rb_call \<Rightarrow> bool" where
  "must_wait rb c \<longleftrightarrow> \<not> rb_closed rb \<and>
     (case c of CPush v \<Rightarrow> rb_count rb = rb_cap rb | CPop \<Rightarrow> rb_count rb = 0)"

definition rb_inv :: "nat \<Rightarrow> 'a rb_system \<Rightarrow> bool" where
  "rb_inv cap s \<longleftrightarrow> rb_wf cap (sys_rb s) \<and>
     (\<forall>t c. sys_threads s t = Sleeping c \<longrightarrow> must_wait (sys_rb s) c)"

fun moved :: "'a list \<Rightarrow> 'a rb_label \<Rightarrow> 'a list \<Rightarrow> bool" where
  "moved xs Tau ys \<longleftrightarrow> ys = xs"
| "moved xs (In vs) ys \<longleftrightarrow> ys = xs @ vs"
| "moved xs (Out vs) ys \<longleftrightarrow> xs = vs @ ys"

lemma awaken_not_sleeping [simp]: "awaken t \<noteq> Sleeping c"
  by (cases t) simp_all

lemma broadcast_inv [simp]: "rb_inv cap \<lparr>sys_rb = rb, sys_threads = rb_Broadcast True th\<rparr> \<longleftrightarrow> rb_wf cap rb"
  by (simp add: rb_inv_def rb_Broadcast_def)

lemma rb_read_pair:
  "rb_wf cap rb \<Longrightarrow> 0 < rb_count rb \<Longrightarrow> rb_read z rb = (v, rb') \<Longrightarrow> rb_wf cap rb' \<and> rb_items rb = v # rb_items rb'"
  using rb_read_wf [of cap rb z] by simp

lemma rb_Drain_spec:
  "rb_wf cap rb \<Longrightarrow> rb_Drain z rb = (Some out, b, rb') \<Longrightarrow> b \<and> out = rb_items rb \<and> rb_wf cap rb' \<and> rb_items rb' = []"
  using drain_loop_spec [of cap rb z]
  by (auto simp: rb_Drain_def split_beta rb_items_def Let_def)

text \<open>What one critical section does, by its result.\<close>

lemma rb_Push_cases:
  assumes "rb_wf cap rb" and "rb_Push v rb = (r, b, rb')"
  shows "(r = None \<and> \<not> b \<and> rb' = rb \<and> must_wait rb (CPush v))
    \<or> (r = Some (Some rb_ErrClosed) \<and> \<not> b \<and> rb' = rb)
    \<or> (r = Some None \<and> b \<and> rb_wf cap rb' \<and> rb_items rb' = rb_items rb @ [v])"
  using assms rb_write_wf [of cap rb v]
  by (auto simp: rb_Push_def must_wait_def rb_wf_def split: if_splits)

lemma rb_Pop_cases:
  assumes "rb_wf cap rb" and "rb_Pop z rb = (r, b, rb')"
  shows "(r = None \<and> \<not> b \<and> rb' = rb \<and> must_wait rb CPop)
    \<or> (r = Some (Inl rb_ErrClosed) \<and> \<not> b \<and> rb' = rb)
    \<or> (\<exists>v. r = Some (Inr v) \<and> b \<and> rb_wf cap rb' \<and> rb_items rb = v # rb_items rb')"
  using assms rb_read_wf [of cap rb z]
  by (auto simp: rb_Pop_def must_wait_def split_beta split: if_splits)

lemma rb_TryPush_cases:
  assumes "rb_wf cap rb" and "rb_TryPush v rb = (Some ok, b, rb')"
  shows "if ok then b \<and> rb_wf cap rb' \<and> rb_items rb' = rb_items rb @ [v] else \<not> b \<and> rb' = rb"
  using assms rb_write_wf [of cap rb v]
  by (auto simp: rb_TryPush_def rb_wf_def split: if_splits)

lemma rb_TryPop_cases:
  assumes "rb_wf cap rb" and "rb_TryPop z rb = (Some r, b, rb')"
  shows "case r of None \<Rightarrow> \<not> b \<and> rb' = rb | Some v \<Rightarrow> b \<and> rb_wf cap rb' \<and> rb_items rb = v # rb_items rb'"
  using assms rb_read_wf [of cap rb z]
  by (auto simp: rb_TryPop_def split_beta split: if_splits)

lemma rb_step_inv:
  assumes "rb_step z s l s'" and "rb_inv cap s"
  shows "rb_inv cap s' \<and> moved (rb_items (sys_rb s)) l (rb_items (sys_rb s'))"
  using assms
proof (cases rule: rb_step.cases)
  case (push_waits th t v rb b rb')
  with assms(2) rb_Push_cases [OF _ push_waits(5), of cap] show ?thesis
    by (auto simp: rb_inv_def rb_Broadcast_def)
next
  case (push_fails th t v rb e b rb')
  with assms(2) rb_Push_cases [OF _ push_fails(5), of cap] show ?thesis
    by (auto simp: rb_inv_def rb_Broadcast_def)
next
  case (push_writes th t v rb b rb')
  with assms(2) rb_Push_cases [OF _ push_writes(5), of cap] show ?thesis
    by (auto simp: rb_inv_def rb_Broadcast_def)
next
  case (pop_waits th t rb b rb')
  with assms(2) rb_Pop_cases [OF _ pop_waits(5), of cap] show ?thesis
    by (auto simp: rb_inv_def rb_Broadcast_def)
next
  case (pop_fails th t rb e b rb')
  with assms(2) rb_Pop_cases [OF _ pop_fails(5), of cap] show ?thesis
    by (auto simp: rb_inv_def rb_Broadcast_def)
next
  case (pop_reads th t rb v b rb')
  with assms(2) rb_Pop_cases [OF _ pop_reads(5), of cap] show ?thesis
    by (auto simp: rb_inv_def rb_Broadcast_def)
next
  case (try_push v rb ok b rb' th)
  with assms(2) rb_TryPush_cases [OF _ try_push(4), of cap] show ?thesis
    by (cases ok) (auto simp: rb_inv_def rb_Broadcast_def)
next
  case (try_pop rb r b rb' th)
  with assms(2) rb_TryPop_cases [OF _ try_pop(4), of cap] show ?thesis
    by (cases r) (auto simp: rb_inv_def rb_Broadcast_def)
next
  case (drain rb out b rb' th)
  with assms(2) have "rb_wf cap rb" by (simp add: rb_inv_def)
  from rb_Drain_spec [OF this drain(4)] drain show ?thesis by simp
next
  case (close rb b rb' th)
  then have "b" "rb' = rb\<lparr>rb_closed := True\<rparr>" by (simp_all add: rb_Close_def)
  with close assms(2) show ?thesis by (simp add: rb_inv_def rb_wf_def rb_items_def rb_Broadcast_def)
qed (auto simp: rb_inv_def)

lemma rb_reach_inv:
  "rb_reach z capacity i out s \<Longrightarrow> rb_inv (max 1 (nat capacity)) s \<and> i = out @ rb_items (sys_rb s)"
proof (induction rule: rb_reach.induct)
  case start
  show ?case using ringbuffer_New_wf(1) [of capacity] by (simp add: rb_inv_def ringbuffer_New_wf(2))
next
  case (tau i out s s')
  with rb_step_inv [OF tau(2), of "max 1 (nat capacity)"] show ?case by simp
next
  case (takes_in i out s vs s')
  with rb_step_inv [OF takes_in(2), of "max 1 (nat capacity)"] show ?case by simp
next
  case (gives_out i out s vs s')
  with rb_step_inv [OF gives_out(2), of "max 1 (nat capacity)"] show ?case by simp
qed

text \<open>
  C2. Under every interleaving of any number of threads calling \<open>Push\<close>, \<open>Pop\<close>, \<open>TryPush\<close>,
  \<open>TryPop\<close>, \<open>Drain\<close> and \<open>Close\<close>, the values that came out followed by the values still held are
  exactly the values that went in, in order, and the buffer never holds more than its capacity.
\<close>

theorem ringbuffer_fifo:
  assumes "rb_reach z capacity i out s"
  shows "i = out @ rb_items (sys_rb s) \<and> length (rb_items (sys_rb s)) \<le> max 1 (nat capacity)"
  using rb_reach_inv [OF assms] by (simp add: rb_inv_def rb_wf_def)

text \<open>
  C3. No wake-up is lost: in every reachable state a thread asleep in \<open>Push\<close> faces a full open
  buffer and a thread asleep in \<open>Pop\<close> an empty open one.  So producers and consumers never sleep
  at the same time, nobody sleeps once the buffer is closed, and whoever is awake returns from
  its critical section unless it has to wait for the same reason.
\<close>

theorem ringbuffer_no_lost_wakeup:
  assumes "rb_reach z capacity i out s"
  shows "(\<forall>t c. sys_threads s t = Sleeping c \<longrightarrow> must_wait (sys_rb s) c)
    \<and> \<not> (\<exists>t u v. sys_threads s t = Sleeping (CPush v) \<and> sys_threads s u = Sleeping CPop)
    \<and> (rb_closed (sys_rb s) \<longrightarrow> (\<forall>t c. sys_threads s t \<noteq> Sleeping c))
    \<and> (fst (rb_Push v (sys_rb s)) = None \<longleftrightarrow> must_wait (sys_rb s) (CPush v))
    \<and> (fst (rb_Pop z (sys_rb s)) = None \<longleftrightarrow> must_wait (sys_rb s) CPop)"
proof -
  have inv: "rb_inv (max 1 (nat capacity)) s" using rb_reach_inv [OF assms] by simp
  have "rb_cap (sys_rb s) \<noteq> 0" using inv by (simp add: rb_inv_def rb_wf_def)
  then have "\<not> (must_wait (sys_rb s) (CPush u) \<and> must_wait (sys_rb s) CPop)" for u
    by (auto simp: must_wait_def)
  moreover have "fst (rb_Push v (sys_rb s)) = None \<longleftrightarrow> must_wait (sys_rb s) (CPush v)"
    "fst (rb_Pop z (sys_rb s)) = None \<longleftrightarrow> must_wait (sys_rb s) CPop"
    by (simp_all add: rb_Push_def rb_Pop_def must_wait_def split_beta)
  moreover have "\<not> must_wait (sys_rb s) c" if "rb_closed (sys_rb s)" for c
    using that by (simp add: must_wait_def)
  ultimately show ?thesis using inv by (auto simp: rb_inv_def)
qed

lemma rb_reach_example:
  "rb_reach (0::int) 1 [7] [] \<lparr>sys_rb = \<lparr>rb_buf = [7], rb_head = 0, rb_tail = 0, rb_count = 1, rb_cap = 1, rb_closed = False\<rparr>,
     sys_threads = (\<lambda>_. Idle)\<rparr>"
proof -
  have "rb_step (0::int) \<lparr>sys_rb = ringbuffer_New 0 1, sys_threads = (\<lambda>_. Idle)\<rparr> (if True then In [7] else Tau)
     \<lparr>sys_rb = \<lparr>rb_buf = [7], rb_head = 0, rb_tail = 0, rb_count = 1, rb_cap = 1, rb_closed = False\<rparr>,
      sys_threads = rb_Broadcast True (\<lambda>_. Idle)\<rparr>"
    by (rule rb_step.try_push) (simp add: rb_TryPush_def ringbuffer_New_def rb_write_def)
  moreover have "rb_Broadcast True (\<lambda>_. Idle) = (\<lambda>_. Idle :: int rb_thread)"
    by (auto simp: rb_Broadcast_def)
  ultimately show ?thesis using rb_reach.takes_in [OF rb_reach.start, of 0 1 "[7]"] by simp
qed

theorem ringbuffer_fifo_witness:
  "rb_items \<lparr>rb_buf = [7::int], rb_head = 0, rb_tail = 0, rb_count = 1, rb_cap = 1, rb_closed = False\<rparr> = [7]"
  using ringbuffer_fifo [OF rb_reach_example] by simp

theorem ringbuffer_no_lost_wakeup_witness:
  "fst (rb_Push 8 \<lparr>rb_buf = [7::int], rb_head = 0, rb_tail = 0, rb_count = 1, rb_cap = 1, rb_closed = False\<rparr>) = None"
  using ringbuffer_no_lost_wakeup [OF rb_reach_example, of 8] by (simp add: must_wait_def)

end
