(* ===== verification/Queue_Stack.thy ===== *)
theory Queue_Stack
  imports Buffer_Spec
begin

section \<open>Packages queue and stack\<close>

text \<open>
  \<open>src/queue/queue.go\<close>: a slice with a sliding head index and periodic compaction, and
  \<open>src/stack/stack.go\<close>: a slice used from its end.  A Go pair \<open>(val, ok)\<close> is an option; \<open>z\<close> is
  the zero value written over a removed element.
\<close>

subsection \<open>Queue\<close>

record 'a queue =
  q_items :: "'a list"
  q_head :: nat

definition queue_New :: "'a list \<Rightarrow> 'a queue" where
  "queue_New vals = \<lparr>q_items = [] @ vals, q_head = 0\<rparr>"

definition Enqueue :: "'a \<Rightarrow> 'a queue \<Rightarrow> 'a queue" where
  "Enqueue v q = q\<lparr>q_items := q_items q @ [v]\<rparr>"

definition Dequeue :: "'a \<Rightarrow> 'a queue \<Rightarrow> 'a option \<times> 'a queue" where
  "Dequeue z q =
     (if length (q_items q) \<le> q_head q then (None, q)
      else
        let v = q_items q ! q_head q;
            its = (q_items q)[q_head q := z];
            hd' = q_head q + 1
        in if length its div 2 < hd' then (Some v, q\<lparr>q_items := drop hd' its, q_head := 0\<rparr>)
           else (Some v, q\<lparr>q_items := its, q_head := hd'\<rparr>))"

definition queue_Front :: "'a queue \<Rightarrow> 'a option" where
  "queue_Front q = (if length (q_items q) \<le> q_head q then None else Some (q_items q ! q_head q))"

definition queue_Back :: "'a queue \<Rightarrow> 'a option" where
  "queue_Back q =
     (if length (q_items q) \<le> q_head q then None else Some (q_items q ! (length (q_items q) - 1)))"

definition queue_Len :: "'a queue \<Rightarrow> int" where
  "queue_Len q = int (length (q_items q)) - int (q_head q)"

definition queue_IsEmpty :: "'a queue \<Rightarrow> bool" where
  "queue_IsEmpty q \<longleftrightarrow> length (q_items q) \<le> q_head q"

definition queue_Clear :: "'a queue \<Rightarrow> 'a queue" where
  "queue_Clear q = q\<lparr>q_items := [], q_head := 0\<rparr>"

definition queue_ToSlice :: "'a queue \<Rightarrow> 'a list" where
  "queue_ToSlice q = drop (q_head q) (q_items q)"

text \<open>
  The head stays within half of the slice, so the wasted prefix never exceeds the live part by
  more than one element: this is what the compaction is for.
\<close>

definition queue_wf :: "'a queue \<Rightarrow> bool" where
  "queue_wf q \<longleftrightarrow> 2 * q_head q \<le> length (q_items q)"

lemma queue_wf_head: "queue_wf q \<Longrightarrow> q_head q \<le> length (q_items q)"
  by (simp add: queue_wf_def)

lemma Dequeue_wf: "queue_wf q \<Longrightarrow> queue_wf (snd (Dequeue z q))"
  by (auto simp: queue_wf_def Dequeue_def Let_def)

lemma Dequeue_emit:
  "fst (Dequeue z q) = fst (emit_first (queue_ToSlice q))
   \<and> queue_ToSlice (snd (Dequeue z q)) = snd (emit_first (queue_ToSlice q))"
proof (cases "q_head q < length (q_items q)")
  case True
  then have "queue_ToSlice q = q_items q ! q_head q # drop (Suc (q_head q)) (q_items q)"
    by (simp add: queue_ToSlice_def Cons_nth_drop_Suc)
  with True show ?thesis by (auto simp: Dequeue_def Let_def queue_ToSlice_def)
qed (simp add: Dequeue_def queue_ToSlice_def)

interpretation queue_c: fifo_container queue_wf queue_ToSlice Enqueue "Dequeue z" "\<lambda>v xs. xs @ [v]"
  for z :: 'a
proof unfold_locales
  fix q :: "'a queue" and v
  assume wf: "queue_wf q"
  then show "queue_wf (Enqueue v q)" by (simp add: queue_wf_def Enqueue_def)
  show "queue_ToSlice (Enqueue v q) = queue_ToSlice q @ [v]"
    using queue_wf_head [OF wf] by (simp add: queue_ToSlice_def Enqueue_def)
qed (simp_all add: Dequeue_wf Dequeue_emit)

text \<open>
  For every sequence of \<open>Enqueue\<close> and \<open>Dequeue\<close> on a queue seeded with \<open>vals\<close>, the dequeued
  values followed by the remaining content are \<open>vals\<close> followed by the enqueued values: nothing is
  lost, duplicated or reordered, compaction included.  The head index never passes half of the
  backing slice, so the slice is at most twice as long as the live content.
\<close>
lemma queue_fifo:
  "somes (fst (buf_run Enqueue (Dequeue z) ops (queue_New vals)))
     @ queue_ToSlice (snd (buf_run Enqueue (Dequeue z) ops (queue_New vals))) = vals @ puts ops
   \<and> 2 * q_head (snd (buf_run Enqueue (Dequeue z) ops (queue_New vals)))
       \<le> length (q_items (snd (buf_run Enqueue (Dequeue z) ops (queue_New vals))))"
proof -
  have "queue_wf (queue_New vals)" "queue_ToSlice (queue_New vals) = vals"
    by (simp_all add: queue_New_def queue_wf_def queue_ToSlice_def)
  then show ?thesis
    using queue_c.fifo_conservation [of "queue_New vals" z ops] queue_c.run_refines [of "queue_New vals" z ops]
    by (simp add: queue_wf_def)
qed

text \<open>
  The observers agree with the content of the queue: \<open>Len\<close> is its length, \<open>Front\<close> and \<open>Back\<close>
  are its ends, and \<open>IsEmpty\<close> holds exactly when it is empty.
\<close>

lemma queue_observers:
  assumes "queue_wf q"
  shows "queue_Len q = int (length (queue_ToSlice q))
    \<and> (queue_IsEmpty q \<longleftrightarrow> queue_ToSlice q = [])
    \<and> queue_Front q = (if queue_ToSlice q = [] then None else Some (hd (queue_ToSlice q)))
    \<and> queue_Back q = (if queue_ToSlice q = [] then None else Some (last (queue_ToSlice q)))
    \<and> queue_ToSlice (queue_Clear q) = [] \<and> queue_wf (queue_Clear q)"
  using queue_wf_head [OF assms]
  by (auto simp: queue_Len_def queue_ToSlice_def queue_IsEmpty_def queue_Front_def queue_Back_def
      queue_Clear_def queue_wf_def hd_drop_conv_nth last_conv_nth)

subsection \<open>Stack\<close>

record 'a stack =
  st_items :: "'a list"

definition stack_New :: "'a list \<Rightarrow> 'a stack" where
  "stack_New vals = \<lparr>st_items = [] @ vals\<rparr>"

definition stack_Push :: "'a \<Rightarrow> 'a stack \<Rightarrow> 'a stack" where
  "stack_Push v s = s\<lparr>st_items := st_items s @ [v]\<rparr>"

definition stack_Pop :: "'a \<Rightarrow> 'a stack \<Rightarrow> 'a option \<times> 'a stack" where
  "stack_Pop z s =
     (let n = length (st_items s) in
      if n = 0 then (None, s)
      else
        let v = st_items s ! (n - 1); its = (st_items s)[n - 1 := z]
        in (Some v, s\<lparr>st_items := take (n - 1) its\<rparr>))"

definition stack_Peek :: "'a stack \<Rightarrow> 'a option" where
  "stack_Peek s = (let n = length (st_items s) in if n = 0 then None else Some (st_items s ! (n - 1)))"

definition stack_Len :: "'a stack \<Rightarrow> nat" where
  "stack_Len s = length (st_items s)"

definition stack_IsEmpty :: "'a stack \<Rightarrow> bool" where
  "stack_IsEmpty s \<longleftrightarrow> length (st_items s) = 0"

definition stack_Clear :: "'a stack \<Rightarrow> 'a stack" where
  "stack_Clear s = s\<lparr>st_items := []\<rparr>"

definition stack_ToSlice :: "'a stack \<Rightarrow> 'a list" where
  "stack_ToSlice s = st_items s"

text \<open>\<open>make\<close> with a negative capacity panics.\<close>

definition stack_WithCapacity :: "int \<Rightarrow> 'a stack option" where
  "stack_WithCapacity c = (if c < 0 then None else Some \<lparr>st_items = []\<rparr>)"

lemma stack_Pop_emit:
  "fst (stack_Pop z s) = fst (emit_last (stack_ToSlice s))
   \<and> stack_ToSlice (snd (stack_Pop z s)) = snd (emit_last (stack_ToSlice s))"
  by (auto simp: stack_Pop_def Let_def stack_ToSlice_def emit_last_def last_conv_nth butlast_conv_take)

interpretation stack_c: lifo_container "\<lambda>_. True" stack_ToSlice stack_Push "stack_Pop z" "\<lambda>v xs. xs @ [v]"
  for z :: 'a
  by unfold_locales (simp_all add: stack_Pop_emit, simp add: stack_ToSlice_def stack_Push_def)

text \<open>
  A stack is last-in first-out: after pushing \<open>vs\<close> on any stack, as many pops return them in
  reverse and leave the stack as it was; and every interleaving of pushes and pops behaves as the
  list that grows and shrinks at its end, with \<open>Peek\<close> showing what the next \<open>Pop\<close> returns.
\<close>
lemma stack_lifo:
  "buf_run stack_Push (stack_Pop z) (map Put vs @ replicate (length vs) Take) (stack_New us)
     = (map Some (rev vs), stack_New us)
   \<and> fst (buf_run stack_Push (stack_Pop z) ops s) = fst (buf_run (\<lambda>v xs. xs @ [v]) emit_last ops (stack_ToSlice s))
   \<and> stack_Peek s = fst (stack_Pop z s)"
proof -
  have eq: "x = y" if "stack_ToSlice x = stack_ToSlice y" for x y :: "'a stack"
    using that by (simp add: stack_ToSlice_def)
  show ?thesis
    using stack_c.lifo_reverses [OF TrueI refl, of z vs "stack_New us"]
      stack_c.run_refines [OF TrueI, of z ops s]
    by (auto intro: eq simp: prod_eq_iff stack_Peek_def stack_Pop_def Let_def)
qed

end
