(* ===== verification/Heap.thy ===== *)
theory Heap
  imports Prelude
begin

section \<open>The binary heap of container/heap\<close>

text \<open>
  Packages \<open>priorityqueue\<close>, \<open>topk\<close> and \<open>wtimer\<close> keep a slice in heap order with Go's
  \<open>container/heap\<close>, which works on any value that implements \<open>heap.Interface\<close>: \<open>Len\<close>, \<open>Less\<close>,
  \<open>Swap\<close>, \<open>Push\<close> and \<open>Pop\<close>.  The algorithms are stated over those operations, exactly as
  the library has them; the locale \<open>heap_interface\<close> states what an implementation has to promise,
  and the lemmas in it are proved once for all three packages.
\<close>

text \<open>\<open>(j - 1) / 2\<close> truncates, so the parent of index 0 is 0 itself.\<close>

definition parent :: "nat \<Rightarrow> nat" where
  "parent j = (j - 1) div 2"

lemma parent_less [simp]: "0 < j \<Longrightarrow> parent j < j"
  by (cases j) (simp_all add: parent_def)

lemma parent_le: "parent j \<le> j"
  by (simp add: parent_def)

lemma parent_eq_self [simp]: "parent j = j \<longleftrightarrow> j = 0"
  by (cases j) (auto simp: parent_def)

function heap_up :: "('s \<Rightarrow> nat \<Rightarrow> nat \<Rightarrow> bool) \<Rightarrow> (nat \<Rightarrow> nat \<Rightarrow> 's \<Rightarrow> 's) \<Rightarrow> nat \<Rightarrow> 's \<Rightarrow> 's" where
  "heap_up lt swap j s =
     (if parent j = j \<or> \<not> lt s j (parent j) then s
      else heap_up lt swap (parent j) (swap (parent j) j s))"
  by pat_completeness auto
termination
  by (relation "measure (\<lambda>(lt, swap, j, s). j)") simp_all

text \<open>\<open>down\<close> returns the state and the index where the element came to rest.\<close>

function heap_down :: "('s \<Rightarrow> nat \<Rightarrow> nat \<Rightarrow> bool) \<Rightarrow> (nat \<Rightarrow> nat \<Rightarrow> 's \<Rightarrow> 's) \<Rightarrow> nat \<Rightarrow> nat \<Rightarrow> 's \<Rightarrow> 's \<times> nat" where
  "heap_down lt swap i n s =
     (let j1 = 2 * i + 1 in
      if n \<le> j1 then (s, i)
      else
        let j = (if j1 + 1 < n \<and> lt s (j1 + 1) j1 then j1 + 1 else j1) in
        if \<not> lt s j i then (s, i) else heap_down lt swap j n (swap i j s))"
  by pat_completeness auto
termination
  by (relation "measure (\<lambda>(lt, swap, i, n, s). n - i)") (auto split: if_splits)

declare heap_up.simps [simp del] heap_down.simps [simp del]

definition heap_Push where
  "heap_Push len lt swap push x s = (let s' = push x s in heap_up lt swap (len s' - 1) s')"

definition heap_Pop where
  "heap_Pop len lt swap pop s =
     (let n = len s - 1; s' = swap 0 n s; s'' = fst (heap_down lt swap 0 n s') in pop s'')"

definition heap_Fix where
  "heap_Fix len lt swap i s =
     (let (s', i') = heap_down lt swap i (len s) s
      in if i < i' then s' else heap_up lt swap i s')"

subsection \<open>Heap order on lists\<close>

text \<open>
  \<open>edge key xs k\<close>: the element at \<open>k\<close> is not before its parent.  \<open>hole key xs n i\<close>: heap order may
  fail at \<open>i\<close> only, and removing the element at \<open>i\<close> would restore it.
\<close>

definition edge :: "('a \<Rightarrow> int) \<Rightarrow> 'a list \<Rightarrow> nat \<Rightarrow> bool" where
  "edge key xs k \<longleftrightarrow> key (xs ! parent k) \<le> key (xs ! k)"

definition is_heap :: "('a \<Rightarrow> int) \<Rightarrow> 'a list \<Rightarrow> nat \<Rightarrow> bool" where
  "is_heap key xs n \<longleftrightarrow> (\<forall>k. 0 < k \<and> k < n \<longrightarrow> edge key xs k)"

definition hole :: "('a \<Rightarrow> int) \<Rightarrow> 'a list \<Rightarrow> nat \<Rightarrow> nat \<Rightarrow> bool" where
  "hole key xs n i \<longleftrightarrow>
     (\<forall>k. 0 < k \<and> k < n \<and> k \<noteq> i \<and> parent k \<noteq> i \<longrightarrow> edge key xs k) \<and>
     (\<forall>k. 0 < k \<and> k < n \<and> parent k = i \<and> 0 < i \<longrightarrow> key (xs ! parent i) \<le> key (xs ! k))"

definition swapped :: "nat \<Rightarrow> nat \<Rightarrow> 'a list \<Rightarrow> 'a list" where
  "swapped i j xs = xs[i := xs ! j, j := xs ! i]"

lemma length_swapped [simp]: "length (swapped i j xs) = length xs"
  by (simp add: swapped_def)

lemma nth_swapped:
  "i < length xs \<Longrightarrow> j < length xs \<Longrightarrow> k < length xs \<Longrightarrow>
     swapped i j xs ! k = (if k = j then xs ! i else if k = i then xs ! j else xs ! k)"
  by (simp add: swapped_def nth_list_update)

lemma mset_swapped: "i < length xs \<Longrightarrow> j < length xs \<Longrightarrow> mset (swapped i j xs) = mset xs"
  unfolding swapped_def by (rule mset_swap)

lemma is_heap_root: "is_heap key xs n \<Longrightarrow> k < n \<Longrightarrow> key (xs ! 0) \<le> key (xs ! k)"
proof (induction k rule: less_induct)
  case (less k)
  show ?case
  proof (cases "k = 0")
    case False
    then have "parent k < k" by simp
    then have "key (xs ! 0) \<le> key (xs ! parent k)" using less by simp
    also have "\<dots> \<le> key (xs ! k)" using less.prems False by (simp add: is_heap_def edge_def)
    finally show ?thesis .
  qed simp
qed

lemma is_heap_hole_update:
  assumes "is_heap key xs n"
  shows "hole key (xs[i := y]) n i"
proof -
  have "key (xs ! parent i) \<le> key (xs ! k)" if "0 < k" "k < n" "parent k = i" "0 < i" for k
  proof -
    have "i < k" using parent_less [OF \<open>0 < k\<close>] that by simp
    then have "edge key xs i" "edge key xs k" using assms that by (simp_all add: is_heap_def)
    then show ?thesis using that by (simp add: edge_def)
  qed
  moreover have "parent i \<noteq> i" if "0 < i" using that by simp
  moreover have "k \<noteq> i" if "parent k = i" "0 < i" for k using that parent_eq_self [of k] by auto
  ultimately show ?thesis using assms
    unfolding hole_def is_heap_def edge_def by (metis nth_list_update_neq)
qed

lemma hole_append:
  assumes "is_heap key xs (length xs)"
  shows "hole key (xs @ [x]) (Suc (length xs)) (length xs)"
proof -
  have p: "parent k < length xs" if "0 < k" "k \<le> length xs" for k
    using parent_less [OF that(1)] that by linarith
  have "edge key (xs @ [x]) k" if "0 < k" "k < length xs" for k
    using assms that p [of k] by (simp add: is_heap_def edge_def nth_append)
  moreover have "parent k \<noteq> length xs" if "0 < k" "k < Suc (length xs)" for k
    using p [of k] that by simp
  ultimately show ?thesis unfolding hole_def by (metis less_antisym)
qed

text \<open>One step of \<open>up\<close>: the hole moves to the parent and the edge below it is repaired.\<close>

definition rising :: "('a \<Rightarrow> int) \<Rightarrow> 'a list \<Rightarrow> nat \<Rightarrow> nat \<Rightarrow> bool" where
  "rising key xs n j \<longleftrightarrow> hole key xs n j \<and> (\<forall>k. 0 < k \<and> k < n \<and> parent k = j \<longrightarrow> edge key xs k)"

lemma rising_stop:
  assumes "rising key xs n j" and "j = 0 \<or> edge key xs j"
  shows "is_heap key xs n"
  using assms unfolding is_heap_def rising_def hole_def by blast

lemma rising_step:
  assumes "rising key xs n j" and j: "j < n" "n \<le> length xs" "0 < j" and bad: "key (xs ! j) < key (xs ! parent j)"
  shows "rising key (swapped (parent j) j xs) n (parent j)"
proof -
  let ?p = "parent j" and ?ys = "swapped (parent j) j xs"
  have pj: "?p < j" using j(3) by simp
  have nth: "?ys ! k = (if k = j then xs ! ?p else if k = ?p then xs ! j else xs ! k)" if "k < n" for k
    using nth_swapped [of ?p xs j k] pj j that by simp
  have pk: "parent k < n" if "k < n" for k
    using that parent_le [of k] by linarith
  have e: "edge key xs k" if "0 < k" "k < n" "k \<noteq> j" for k
    using assms(1) that unfolding rising_def hole_def by blast
  have c: "key (xs ! ?p) \<le> key (xs ! k)" if "0 < k" "k < n" "parent k = j" for k
    using assms(1) that j(3) by (simp add: rising_def hole_def)
  have other: "edge key ?ys k" if k: "0 < k" "k < n" "k \<noteq> ?p" for k
  proof (cases "k = j")
    case True
    then show ?thesis using bad nth [OF j(1)] nth [OF pk [OF j(1)]] pj by (simp add: edge_def)
  next
    case False
    show ?thesis
      using e [OF k(1,2) False] c [OF k(1,2)] bad nth [OF k(2)] nth [OF pk [OF k(2)]] k False
      by (auto simp: edge_def)
  qed
  have "key (?ys ! parent ?p) \<le> key (?ys ! k)" if k: "0 < k" "k < n" "parent k = ?p" "0 < ?p" for k
  proof -
    have pp: "parent ?p < ?p" using k(4) by simp
    have up: "key (xs ! parent ?p) \<le> key (xs ! ?p)"
      using e [of ?p] k(4) pj j(1) by (simp add: edge_def)
    have "key (xs ! ?p) \<le> key (xs ! k)" if "k \<noteq> j" using e [OF k(1,2) that] k(3) by (simp add: edge_def)
    moreover have "k \<noteq> ?p" using k parent_less [OF k(1)] by simp
    moreover have "?ys ! parent ?p = xs ! parent ?p" using nth [of "parent ?p"] pp pj j(1) by simp
    ultimately show ?thesis using nth [OF k(2)] up by (auto split: if_splits)
  qed
  moreover have "k \<noteq> ?p" if "0 < k" "parent k = ?p" for k
    using parent_less [OF that(1)] that(2) by linarith
  ultimately show ?thesis using other unfolding rising_def hole_def by blast
qed

text \<open>
  One step of \<open>down\<close>: the smaller child moves up, and the hole moves to its place with the edge
  above it in order.
\<close>

definition sinking :: "('a \<Rightarrow> int) \<Rightarrow> 'a list \<Rightarrow> nat \<Rightarrow> nat \<Rightarrow> bool" where
  "sinking key xs n i \<longleftrightarrow> hole key xs n i \<and> (0 < i \<longrightarrow> edge key xs i)"

lemma child_cases: "0 < k \<Longrightarrow> parent k = i \<longleftrightarrow> k = 2 * i + 1 \<or> k = 2 * i + 2"
  unfolding parent_def by (cases k) auto

lemma sinking_step:
  assumes h: "hole key xs n i" and j: "0 < j" "parent j = i" "j < n" "n \<le> length xs"
    and small: "\<And>k. 0 < k \<Longrightarrow> k < n \<Longrightarrow> parent k = i \<Longrightarrow> key (xs ! j) \<le> key (xs ! k)"
    and bad: "key (xs ! j) < key (xs ! i)"
  shows "sinking key (swapped i j xs) n j"
proof -
  let ?ys = "swapped i j xs"
  have ij: "i < j" using parent_less [OF j(1)] j(2) by simp
  have nth: "?ys ! k = (if k = j then xs ! i else if k = i then xs ! j else xs ! k)" if "k < n" for k
    using nth_swapped [of i xs j k] ij j that by simp
  have pk: "parent k < n" if "k < n" for k
    using that parent_le [of k] by linarith
  have e: "edge key xs k" if "0 < k" "k < n" "k \<noteq> i" "parent k \<noteq> i" for k
    using h that by (simp add: hole_def)
  have up: "key (xs ! parent i) \<le> key (xs ! j)" if "0 < i"
    using h j that by (simp add: hole_def)
  have "edge key ?ys k" if k: "0 < k" "k < n" "parent k \<noteq> j" for k
  proof (cases "k = i \<or> parent k = i")
    case True
    have "parent i \<noteq> i" if "0 < i" using that by simp
    moreover have "parent i \<noteq> j" using ij parent_less [of i] by (cases "i = 0") (auto simp: parent_def)
    moreover have "k \<noteq> parent k" using parent_less [OF k(1)] by linarith
    ultimately show ?thesis
      using True k small [OF k(1,2)] up bad nth [OF k(2)] nth [OF pk [OF k(2)]] ij
      by (auto simp: edge_def)
  next
    case False
    then show ?thesis using e [OF k(1,2)] nth [OF k(2)] nth [OF pk [OF k(2)]] k j(2)
      by (auto simp: edge_def)
  qed
  moreover have "key (?ys ! parent j) \<le> key (?ys ! k)" if k: "0 < k" "k < n" "parent k = j" for k
  proof -
    have "k \<noteq> j" "k \<noteq> i" using parent_less [OF k(1)] k ij by auto
    moreover have "edge key xs k" using e [OF k(1,2)] k(3) \<open>k \<noteq> i\<close> ij by simp
    ultimately show ?thesis using nth [OF k(2)] nth [of i] j ij k(3) by (simp add: edge_def)
  qed
  moreover have "parent j \<noteq> j" using j(1) by simp
  ultimately show ?thesis using j by (simp add: sinking_def hole_def)
qed

subsection \<open>The contract of heap.Interface and the algorithms over it\<close>

locale heap_interface =
  fixes wf :: "'s \<Rightarrow> bool"
    and elems :: "'s \<Rightarrow> 'a list"
    and key :: "'a \<Rightarrow> int"
    and lt :: "'s \<Rightarrow> nat \<Rightarrow> nat \<Rightarrow> bool"
    and swap :: "nat \<Rightarrow> nat \<Rightarrow> 's \<Rightarrow> 's"
  assumes lt_key: "wf s \<Longrightarrow> i < length (elems s) \<Longrightarrow> j < length (elems s) \<Longrightarrow>
      lt s i j \<longleftrightarrow> key (elems s ! i) < key (elems s ! j)"
    and swap_wf: "wf s \<Longrightarrow> i < length (elems s) \<Longrightarrow> j < length (elems s) \<Longrightarrow> wf (swap i j s)"
    and swap_elems: "wf s \<Longrightarrow> i < length (elems s) \<Longrightarrow> j < length (elems s) \<Longrightarrow>
      elems (swap i j s) = swapped i j (elems s)"
begin

text \<open>An operation that only rearranges the first \<open>n\<close> elements.\<close>

definition rearranged :: "nat \<Rightarrow> 's \<Rightarrow> 's \<Rightarrow> bool" where
  "rearranged n s s' \<longleftrightarrow> wf s' \<and> mset (elems s') = mset (elems s) \<and>
     (\<forall>k\<ge>n. k < length (elems s) \<longrightarrow> elems s' ! k = elems s ! k)"

lemma rearranged_length: "rearranged n s s' \<Longrightarrow> length (elems s') = length (elems s)"
  unfolding rearranged_def by (metis size_mset)

lemma rearranged_refl: "wf s \<Longrightarrow> rearranged n s s"
  by (simp add: rearranged_def)

lemma rearranged_trans: "rearranged n s s' \<Longrightarrow> rearranged n s' s'' \<Longrightarrow> rearranged n s s''"
  using rearranged_length [of n s s'] by (simp add: rearranged_def)

lemma rearranged_swap:
  assumes "wf s" and "i < n" and "j < n" and "n \<le> length (elems s)"
  shows "rearranged n s (swap i j s)"
  using assms by (simp add: rearranged_def swap_wf swap_elems mset_swapped nth_swapped)

lemma up_heap:
  assumes "wf s" and "rising key (elems s) n j" and "j < n" and "n \<le> length (elems s)"
  shows "rearranged n s (heap_up lt swap j s) \<and> is_heap key (elems (heap_up lt swap j s)) n"
  using assms
proof (induction j arbitrary: s rule: less_induct)
  case (less j)
  have l: "j < length (elems s)" "parent j < length (elems s)" "parent j < n"
    using less.prems parent_le [of j] by simp_all
  show ?case
  proof (cases "parent j = j \<or> \<not> lt s j (parent j)")
    case True
    then have "heap_up lt swap j s = s" by (subst heap_up.simps) simp
    moreover have "j = 0 \<or> edge key (elems s) j"
      using True lt_key [OF less.prems(1) l(1,2)] by (auto simp: edge_def)
    ultimately show ?thesis
      using rising_stop [OF less.prems(2)] less.prems(1) by (simp add: rearranged_refl)
  next
    case False
    let ?s = "swap (parent j) j s"
    have step: "heap_up lt swap j s = heap_up lt swap (parent j) ?s"
      using False by (subst heap_up.simps) simp
    have j: "0 < j" using False by auto
    have "key (elems s ! j) < key (elems s ! parent j)"
      using False lt_key [OF less.prems(1) l(1,2)] by simp
    then have "rising key (elems ?s) n (parent j)"
      using rising_step [OF less.prems(2,3,4) j] less.prems(1) l by (simp add: swap_elems)
    moreover have r: "rearranged n s ?s"
      using less.prems l by (intro rearranged_swap)
    moreover have "n \<le> length (elems ?s)" using rearranged_length [OF r] less.prems(4) by simp
    ultimately have "rearranged n ?s (heap_up lt swap (parent j) ?s) \<and> is_heap key (elems (heap_up lt swap (parent j) ?s)) n"
      using less.IH [of "parent j" ?s] j l by (simp add: rearranged_def)
    with r show ?thesis unfolding step using rearranged_trans by blast
  qed
qed

text \<open>
  \<open>down\<close> either stays where it is, the element being in order with its children, or it moves and
  the whole range is in heap order.
\<close>

lemma down_heap:
  assumes "wf s" and "hole key (elems s) n i" and "i < n" and "n \<le> length (elems s)"
    and "heap_down lt swap i n s = (s', i')"
  shows "rearranged n s s' \<and> i \<le> i' \<and>
    (if i < i' \<or> i = 0 \<or> edge key (elems s) i then is_heap key (elems s') n
     else s' = s \<and> rising key (elems s) n i)"
  using assms
proof (induction "n - i" arbitrary: i s rule: less_induct)
  case less
  let ?xs = "elems s"
  define j where "j = (if 2 * i + 2 < n \<and> lt s (2 * i + 2) (2 * i + 1) then 2 * i + 2 else 2 * i + 1)"
  have unf: "heap_down lt swap i n s = (if n \<le> 2 * i + 1 \<or> \<not> lt s j i then (s, i) else heap_down lt swap j n (swap i j s))"
    by (subst heap_down.simps) (simp add: j_def Let_def)
  have children: "key (?xs ! j) \<le> key (?xs ! k)" "j < n" "0 < j" "parent j = i"
    if "0 < k" "k < n" "parent k = i" for k
  proof -
    have k: "k = 2 * i + 1 \<or> k = 2 * i + 2" using that child_cases by blast
    then show j: "j < n" "0 < j" "parent j = i" using that(2) by (auto simp: j_def parent_def)
    show "key (?xs ! j) \<le> key (?xs ! k)"
      using k that(2) less.prems(1,4) lt_key [of s "2 * i + 2" "2 * i + 1"]
      by (auto simp: j_def)
  qed
  show ?case
  proof (cases "n \<le> 2 * i + 1 \<or> \<not> lt s j i")
    case True
    then have s': "s' = s" "i' = i" using less.prems(5) unf by simp_all
    have "edge key ?xs k" if k: "0 < k" "k < n" "parent k = i" for k
    proof -
      have "\<not> n \<le> 2 * i + 1" using k child_cases [of k i] by auto
      then have "\<not> lt s j i" using True by simp
      then have "key (?xs ! i) \<le> key (?xs ! j)"
        using lt_key [of s j i] children(2) [OF k] less.prems by auto
      then show ?thesis using children(1) [OF k] k(3) by (simp add: edge_def)
    qed
    then have "rising key ?xs n i" using less.prems(2) by (simp add: rising_def)
    then show ?thesis
      using rising_stop [of key ?xs n i] s' less.prems(1) by (auto simp: rearranged_refl)
  next
    case False
    let ?s = "swap i j s"
    have c1: "0 < 2 * i + 1" "2 * i + 1 < n" "parent (2 * i + 1) = i" using False by (simp_all add: parent_def)
    note j = children(2-4) [OF c1]
    have ij: "i < j" using parent_less [OF j(2)] j(3) by simp
    have l: "i < length ?xs" "j < length ?xs" using j(1) less.prems(3,4) by simp_all
    have bad: "key (?xs ! j) < key (?xs ! i)" using False lt_key [OF less.prems(1) l(2,1)] by simp
    have sink: "sinking key (elems ?s) n j"
      unfolding swap_elems [OF less.prems(1) l]
      by (rule sinking_step [OF less.prems(2) j(2,3,1) less.prems(4) children(1) bad])
    have r: "rearranged n s ?s" using less.prems j by (intro rearranged_swap)
    have rec: "heap_down lt swap j n ?s = (s', i')" using less.prems(5) unf False by simp
    have "n \<le> length (elems ?s)" using rearranged_length [OF r] less.prems(4) by simp
    then have "rearranged n ?s s' \<and> j \<le> i' \<and>
      (if j < i' \<or> j = 0 \<or> edge key (elems ?s) j then is_heap key (elems s') n
       else s' = ?s \<and> rising key (elems ?s) n j)"
      using less.hyps [of j ?s] rec sink r j ij less.prems(3) by (simp add: sinking_def rearranged_def)
    moreover have "edge key (elems ?s) j" using sink j(2) by (simp add: sinking_def)
    ultimately show ?thesis using rearranged_trans [OF r] ij by auto
  qed
qed

lemma Fix_heap:
  assumes "wf s" and "hole key (elems s) (length (elems s)) i" and "i < length (elems s)"
    and len: "len s = length (elems s)"
  shows "rearranged (length (elems s)) s (heap_Fix len lt swap i s)
    \<and> is_heap key (elems (heap_Fix len lt swap i s)) (length (elems s))"
proof -
  obtain s' i' where d: "heap_down lt swap i (length (elems s)) s = (s', i')" by fastforce
  note down = down_heap [OF assms(1-3) le_refl d]
  show ?thesis
  proof (cases "i < i'")
    case True
    with down d len show ?thesis by (simp add: heap_Fix_def)
  next
    case False
    have fx: "heap_Fix len lt swap i s = heap_up lt swap i s'" using False d len by (simp add: heap_Fix_def)
    have "i' = i" using down False by simp
    have "rising key (elems s) (length (elems s)) i \<and> s' = s \<or> is_heap key (elems s') (length (elems s))"
      using down by (auto split: if_splits)
    moreover have "rising key (elems s') (length (elems s)) i" if "is_heap key (elems s') (length (elems s))"
      using is_heap_hole_update [OF that, of i "elems s' ! i"] that by (simp add: rising_def is_heap_def)
    moreover have "length (elems s') = length (elems s)" using down rearranged_length by blast
    moreover have "wf s'" using down by (simp add: rearranged_def)
    ultimately have "rearranged (length (elems s)) s' (heap_up lt swap i s')
        \<and> is_heap key (elems (heap_up lt swap i s')) (length (elems s))"
      using up_heap [of s' "length (elems s)" i] assms(3) by auto
    then show ?thesis unfolding fx using down rearranged_trans by blast
  qed
qed

end

text \<open>
  The full interface.  \<open>push\<close> appends an element that is \<open>fresh\<close>, seen as \<open>view x s\<close>; \<open>pop\<close>
  removes the last element and returns what \<open>pr\<close> shows of it.
\<close>

locale heap_container = heap_interface wf elems key lt swap
  for wf :: "'s \<Rightarrow> bool" and elems :: "'s \<Rightarrow> 'a list" and key and lt and swap +
  fixes len :: "'s \<Rightarrow> nat"
    and fresh :: "'x \<Rightarrow> 's \<Rightarrow> bool"
    and view :: "'x \<Rightarrow> 's \<Rightarrow> 'a"
    and push :: "'x \<Rightarrow> 's \<Rightarrow> 's"
    and pr :: "'a \<Rightarrow> 'r"
    and pop :: "'s \<Rightarrow> 'r \<times> 's"
  assumes len_elems: "wf s \<Longrightarrow> len s = length (elems s)"
    and push_wf: "wf s \<Longrightarrow> fresh x s \<Longrightarrow> wf (push x s)"
    and push_elems: "wf s \<Longrightarrow> fresh x s \<Longrightarrow> elems (push x s) = elems s @ [view x s]"
    and pop_wf: "wf s \<Longrightarrow> elems s \<noteq> [] \<Longrightarrow> wf (snd (pop s))"
    and pop_elems: "wf s \<Longrightarrow> elems s \<noteq> [] \<Longrightarrow> elems (snd (pop s)) = butlast (elems s)"
    and pop_result: "wf s \<Longrightarrow> elems s \<noteq> [] \<Longrightarrow> fst (pop s) = pr (last (elems s))"
begin

definition heap_ok :: "'s \<Rightarrow> bool" where
  "heap_ok s \<longleftrightarrow> wf s \<and> is_heap key (elems s) (length (elems s))"

lemma heap_ok_root: "heap_ok s \<Longrightarrow> y \<in> set (elems s) \<Longrightarrow> key (elems s ! 0) \<le> key y"
  by (metis heap_ok_def in_set_conv_nth is_heap_root)

lemma Push_ok:
  assumes "heap_ok s" and "fresh x s"
  shows "heap_ok (heap_Push len lt swap push x s)
    \<and> mset (elems (heap_Push len lt swap push x s)) = add_mset (view x s) (mset (elems s))"
proof -
  let ?s = "push x s" and ?n = "length (elems s)"
  have wf: "wf s" using assms(1) by (simp add: heap_ok_def)
  have wf': "wf ?s" and el: "elems ?s = elems s @ [view x s]"
    using push_wf [OF wf assms(2)] push_elems [OF wf assms(2)] by simp_all
  have p: "parent k < ?n" if "0 < k" "k < Suc ?n" for k
    using parent_less [OF that(1)] that(2) by linarith
  have "hole key (elems ?s) (Suc ?n) ?n" using assms(1) el by (simp add: heap_ok_def hole_append)
  then have "rising key (elems ?s) (Suc ?n) ?n" unfolding rising_def using p by (metis less_irrefl)
  then have "rearranged (Suc ?n) ?s (heap_up lt swap ?n ?s) \<and> is_heap key (elems (heap_up lt swap ?n ?s)) (Suc ?n)"
    by (rule up_heap [OF wf']) (simp_all add: el)
  moreover have "heap_Push len lt swap push x s = heap_up lt swap ?n ?s"
    by (simp add: heap_Push_def Let_def len_elems [OF wf'] el)
  ultimately show ?thesis
    using rearranged_length [of "Suc ?n" ?s "heap_up lt swap ?n ?s"] el
    by (simp add: heap_ok_def rearranged_def)
qed

lemma Pop_ok:
  assumes "heap_ok s" and "elems s \<noteq> []" and "heap_Pop len lt swap pop s = (r, s')"
  shows "heap_ok s' \<and> r = pr (elems s ! 0) \<and> mset (elems s) = add_mset (elems s ! 0) (mset (elems s'))"
proof -
  let ?n = "length (elems s) - 1"
  let ?s = "swap 0 ?n s"
  have wf: "wf s" and pos: "0 < length (elems s)" using assms by (simp_all add: heap_ok_def)
  have wf': "wf ?s" and el: "elems ?s = swapped 0 ?n (elems s)"
    using swap_wf [OF wf, of 0 ?n] swap_elems [OF wf, of 0 ?n] pos by simp_all
  have len: "length (elems ?s) = length (elems s)" unfolding el by simp
  have nth: "elems ?s ! k = (if k = ?n then elems s ! 0 else if k = 0 then elems s ! ?n else elems s ! k)"
    if "k < length (elems s)" for k
    unfolding el by (rule nth_swapped) (use pos that in simp_all)
  obtain t i where d: "heap_down lt swap 0 ?n ?s = (t, i)" by fastforce
  have t: "rearranged ?n ?s t \<and> is_heap key (elems t) ?n"
  proof (cases "?n = 0")
    case True
    then have "t = ?s" using d by (subst (asm) heap_down.simps) simp
    then show ?thesis using True wf' by (simp add: rearranged_refl is_heap_def)
  next
    case False
    have "edge key (elems ?s) k" if k: "0 < k" "k < ?n" "parent k \<noteq> 0" for k
    proof -
      have "edge key (elems s) k" using assms(1) k by (simp add: heap_ok_def is_heap_def)
      then show ?thesis using nth [of k] nth [of "parent k"] k parent_less [OF k(1)] by (simp add: edge_def)
    qed
    then have "hole key (elems ?s) ?n 0" by (simp add: hole_def)
    from down_heap [OF wf' this _ _ d] False len show ?thesis by simp
  qed
  have wt: "wf t" and mt: "mset (elems t) = mset (elems s)" and lt: "length (elems t) = length (elems s)"
    using t mset_swapped [of 0 "elems s" ?n] pos rearranged_length [of ?n ?s t]
    unfolding rearranged_def el by simp_all
  have ne: "elems t \<noteq> []" using lt pos by auto
  have "last (elems t) = elems t ! ?n" using ne lt by (simp add: last_conv_nth)
  also have "\<dots> = elems ?s ! ?n" using t pos len by (simp add: rearranged_def)
  finally have last: "last (elems t) = elems s ! 0" using nth [of ?n] pos by simp
  have s': "(r, s') = pop t" using assms(3) d by (simp add: heap_Pop_def Let_def len_elems [OF wf])
  have es': "elems s' = butlast (elems t)" and "wf s'" and "r = pr (last (elems t))"
    using pop_elems [OF wt ne] pop_wf [OF wt ne] pop_result [OF wt ne] s' [symmetric] by simp_all
  moreover have "is_heap key (elems s') (length (elems s'))"
  proof -
    have "edge key (elems s') k" if k: "0 < k" "k < length (elems s')" for k
    proof -
      have "edge key (elems t) k" using t k es' lt by (simp add: is_heap_def)
      moreover have "parent k < length (elems s')" using parent_less [OF k(1)] k(2) by linarith
      ultimately show ?thesis using k by (simp add: es' edge_def nth_butlast)
    qed
    then show ?thesis by (simp add: is_heap_def)
  qed
  moreover have "mset (elems s) = add_mset (elems s ! 0) (mset (elems s'))"
    using mt last append_butlast_last_id [OF ne] by (metis es' mset.simps(2) mset_append add_mset_add_single union_commute mset.simps(1))
  ultimately show ?thesis using last by (simp add: heap_ok_def)
qed

lemma Fix_ok:
  assumes "wf s" and "hole key (elems s) (length (elems s)) i" and "i < length (elems s)"
  shows "heap_ok (heap_Fix len lt swap i s) \<and> mset (elems (heap_Fix len lt swap i s)) = mset (elems s)"
  using Fix_heap [where len = len, OF assms len_elems [OF assms(1)]]
    rearranged_length [of "length (elems s)" s "heap_Fix len lt swap i s"]
  by (simp add: heap_ok_def rearranged_def)

end

end
