(* ===== verification/Priority_Queue.thy ===== *)
theory Priority_Queue
  imports Heap
begin

section \<open>Package priorityqueue: a max-heap with handles\<close>

text \<open>
  \<open>src/priorityqueue/priorityqueue.go\<close>.  The queue holds pointers to items, and callers keep
  such pointers to call \<open>Update\<close>; so the model has an explicit store of items, a pointer is an
  index into it, and the heap is a list of pointers.  The field \<open>index\<close> of an item is kept by
  \<open>Swap\<close>, \<open>Push\<close> and \<open>Pop\<close> as in the code.
\<close>

record 'v pq_item =
  pi_Value :: 'v
  pi_Priority :: int
  pi_index :: int

record 'v pqueue =
  pq_h :: "nat list"
  pq_store :: "'v pq_item list"

subsection \<open>heap.Interface on itemHeap\<close>

definition ih_Len :: "'v pqueue \<Rightarrow> nat" where
  "ih_Len s = length (pq_h s)"

definition ih_Less :: "'v pqueue \<Rightarrow> nat \<Rightarrow> nat \<Rightarrow> bool" where
  "ih_Less s i j \<longleftrightarrow> pi_Priority (pq_store s ! (pq_h s ! i)) > pi_Priority (pq_store s ! (pq_h s ! j))"

definition set_index :: "nat \<Rightarrow> int \<Rightarrow> 'v pq_item list \<Rightarrow> 'v pq_item list" where
  "set_index a i st = st[a := (st ! a)\<lparr>pi_index := i\<rparr>]"

definition ih_Swap :: "nat \<Rightarrow> nat \<Rightarrow> 'v pqueue \<Rightarrow> 'v pqueue" where
  "ih_Swap i j s =
     (let h = swapped i j (pq_h s)
      in s\<lparr>pq_h := h, pq_store := set_index (h ! j) (int j) (set_index (h ! i) (int i) (pq_store s))\<rparr>)"

definition ih_Push :: "nat \<Rightarrow> 'v pqueue \<Rightarrow> 'v pqueue" where
  "ih_Push item s =
     s\<lparr>pq_store := set_index item (int (length (pq_h s))) (pq_store s), pq_h := pq_h s @ [item]\<rparr>"

definition ih_Pop :: "'v pqueue \<Rightarrow> nat \<times> 'v pqueue" where
  "ih_Pop s =
     (let n = length (pq_h s); item = pq_h s ! (n - 1)
      in (item, s\<lparr>pq_store := set_index item (-1) (pq_store s), pq_h := take (n - 1) (pq_h s)\<rparr>))"

subsection \<open>The public operations\<close>

definition pq_New :: "'v pqueue" where
  "pq_New = \<lparr>pq_h = [], pq_store = []\<rparr>"

definition pq_Len :: "'v pqueue \<Rightarrow> nat" where
  "pq_Len s = ih_Len s"

definition pq_Push :: "'v \<Rightarrow> int \<Rightarrow> 'v pqueue \<Rightarrow> nat \<times> 'v pqueue" where
  "pq_Push value priority s =
     (let item = length (pq_store s);
          s' = s\<lparr>pq_store := pq_store s @ [\<lparr>pi_Value = value, pi_Priority = priority, pi_index = 0\<rparr>]\<rparr>
      in (item, heap_Push ih_Len ih_Less ih_Swap ih_Push item s'))"

definition pq_Pop :: "'v pqueue \<Rightarrow> ('v \<times> int) option \<times> 'v pqueue" where
  "pq_Pop s =
     (if ih_Len s = 0 then (None, s)
      else
        let (item, s') = heap_Pop ih_Len ih_Less ih_Swap ih_Pop s
        in (Some (pi_Value (pq_store s' ! item), pi_Priority (pq_store s' ! item)), s'))"

definition pq_Peek :: "'v pqueue \<Rightarrow> ('v \<times> int) option" where
  "pq_Peek s =
     (if ih_Len s = 0 then None
      else let top = pq_store s ! (pq_h s ! 0) in Some (pi_Value top, pi_Priority top))"

text \<open>A nil pointer is \<open>None\<close>; a handle is a pointer this queue's \<open>Push\<close> has returned.\<close>

definition pq_Update :: "nat option \<Rightarrow> int \<Rightarrow> 'v pqueue \<Rightarrow> 'v pqueue" where
  "pq_Update item priority s =
     (case item of
        None \<Rightarrow> s
      | Some a \<Rightarrow>
          let idx = pi_index (pq_store s ! a) in
          if idx < 0 \<or> int (ih_Len s) \<le> idx then s
          else
            let s' = s\<lparr>pq_store := (pq_store s)[a := (pq_store s ! a)\<lparr>pi_Priority := priority\<rparr>]\<rparr>
            in heap_Fix ih_Len ih_Less ih_Swap (nat idx) s')"

subsection \<open>Invariant\<close>

text \<open>
  Handles in the heap are distinct and know their position; handles outside it carry \<open>-1\<close>, but
  for the ones in \<open>E\<close>, which are allocated and about to be pushed.
\<close>

definition pq_wf :: "nat set \<Rightarrow> 'v pqueue \<Rightarrow> bool" where
  "pq_wf E s \<longleftrightarrow> distinct (pq_h s) \<and> (\<forall>a\<in>set (pq_h s). a < length (pq_store s))
     \<and> (\<forall>i<length (pq_h s). pi_index (pq_store s ! (pq_h s ! i)) = int i)
     \<and> (\<forall>a<length (pq_store s). a \<notin> set (pq_h s) \<longrightarrow> a \<notin> E \<longrightarrow> pi_index (pq_store s ! a) = -1)"

text \<open>The content: handle, value and priority of each queued item.\<close>

definition pq_view :: "nat \<Rightarrow> 'v pqueue \<Rightarrow> nat \<times> 'v \<times> int" where
  "pq_view a s = (a, pi_Value (pq_store s ! a), pi_Priority (pq_store s ! a))"

definition pq_elems :: "'v pqueue \<Rightarrow> (nat \<times> 'v \<times> int) list" where
  "pq_elems s = map (\<lambda>a. pq_view a s) (pq_h s)"

definition pq_key :: "nat \<times> 'v \<times> int \<Rightarrow> int" where
  "pq_key x = - snd (snd x)"

lemma length_pq_elems [simp]: "length (pq_elems s) = length (pq_h s)"
  by (simp add: pq_elems_def)

lemma set_swapped: "i < length xs \<Longrightarrow> j < length xs \<Longrightarrow> set (swapped i j xs) = set xs"
  by (metis mset_swapped set_mset_mset)

lemma distinct_swapped: "i < length xs \<Longrightarrow> j < length xs \<Longrightarrow> distinct (swapped i j xs) = distinct xs"
  by (metis mset_swapped mset_eq_imp_distinct_iff)

lemma length_set_index [simp]: "length (set_index a i st) = length st"
  by (simp add: set_index_def)

lemma nth_set_index:
  "a < length st \<Longrightarrow> b < length st \<Longrightarrow> set_index a i st ! b = (if b = a then (st ! b)\<lparr>pi_index := i\<rparr> else st ! b)"
  by (simp add: set_index_def nth_list_update)

lemma view_set_index [simp]:
  "pi_Value (set_index a i st ! b) = pi_Value (st ! b)" "pi_Priority (set_index a i st ! b) = pi_Priority (st ! b)"
proof -
  have "st[a := (st ! a)\<lparr>pi_index := i\<rparr>] ! b = (if a = b \<and> a < length st then (st ! b)\<lparr>pi_index := i\<rparr> else st ! b)"
    by (cases "a = b"; cases "a < length st") (simp_all add: list_update_beyond not_less)
  then show "pi_Value (set_index a i st ! b) = pi_Value (st ! b)"
    and "pi_Priority (set_index a i st ! b) = pi_Priority (st ! b)"
    by (simp_all add: set_index_def)
qed

lemma ih_Swap_wf:
  assumes wf: "pq_wf E s" and ij: "i < length (pq_h s)" "j < length (pq_h s)"
  shows "pq_wf E (ih_Swap i j s)"
proof -
  let ?h = "swapped i j (pq_h s)"
  have mem: "?h ! k < length (pq_store s)" if "k < length (pq_h s)" for k
  proof -
    have "?h ! k \<in> set ?h" by (rule nth_mem) (simp add: that)
    then show ?thesis using wf unfolding set_swapped [OF ij] pq_wf_def by blast
  qed
  note hj = mem [OF ij(1)] mem [OF ij(2)]
  have d: "distinct ?h" using wf by (simp add: distinct_swapped [OF ij] pq_wf_def)
  have "pi_index (set_index (?h ! j) (int j) (set_index (?h ! i) (int i) (pq_store s)) ! (?h ! k)) = int k"
    if k: "k < length (pq_h s)" for k
  proof -
    note mem [OF k]
    moreover have "?h ! k = ?h ! j \<longleftrightarrow> k = j" "?h ! k = ?h ! i \<longleftrightarrow> k = i"
      using d k ij by (simp_all add: nth_eq_iff_index_eq)
    moreover have "pi_index (pq_store s ! (pq_h s ! k)) = int k" using wf k by (simp add: pq_wf_def)
    moreover have "?h ! k = pq_h s ! k" if "k \<noteq> i" "k \<noteq> j"
      using nth_swapped [OF ij k] that by simp
    ultimately show ?thesis using hj by (auto simp: nth_set_index)
  qed
  moreover have "pi_index (set_index (?h ! j) (int j) (set_index (?h ! i) (int i) (pq_store s)) ! a) = -1"
    if a: "a < length (pq_store s)" "a \<notin> set (pq_h s)" "a \<notin> E" for a
  proof -
    have "a \<noteq> ?h ! i" "a \<noteq> ?h ! j" using a set_swapped [OF ij] nth_mem [of i ?h] nth_mem [of j ?h] ij by auto
    then show ?thesis using a hj wf by (simp add: nth_set_index pq_wf_def)
  qed
  ultimately show ?thesis
    using wf d by (simp add: pq_wf_def ih_Swap_def Let_def set_swapped [OF ij])
qed

lemma swapped_map: "i < length xs \<Longrightarrow> j < length xs \<Longrightarrow> map f (swapped i j xs) = swapped i j (map f xs)"
  by (simp add: swapped_def map_update)

lemma ih_Swap_elems:
  assumes "i < length (pq_h s)" and "j < length (pq_h s)"
  shows "pq_elems (ih_Swap i j s) = swapped i j (pq_elems s)"
  using assms by (simp add: pq_elems_def swapped_map [symmetric] ih_Swap_def Let_def pq_view_def)

lemma ih_Less_key:
  "i < length (pq_h s) \<Longrightarrow> j < length (pq_h s) \<Longrightarrow>
     ih_Less s i j \<longleftrightarrow> pq_key (pq_elems s ! i) < pq_key (pq_elems s ! j)"
  by (simp add: ih_Less_def pq_elems_def pq_key_def pq_view_def)

definition pq_fresh :: "nat \<Rightarrow> 'v pqueue \<Rightarrow> bool" where
  "pq_fresh a s \<longleftrightarrow> a < length (pq_store s) \<and> a \<notin> set (pq_h s)"

lemma ih_Push_wf:
  assumes wf: "pq_wf E s" and a: "pq_fresh a s"
  shows "pq_wf E (ih_Push a s)"
proof -
  let ?st = "set_index a (int (length (pq_h s))) (pq_store s)"
  have "pi_index (?st ! (pq_h s ! i)) = int i" if "i < length (pq_h s)" for i
    using wf a that nth_mem [OF that] by (auto simp: pq_wf_def pq_fresh_def nth_set_index)
  moreover have "pi_index (?st ! a) = int (length (pq_h s))" using a by (simp add: pq_fresh_def nth_set_index)
  moreover have "pi_index (?st ! b) = -1" if "b < length (pq_store s)" "b \<noteq> a" "b \<notin> set (pq_h s)" "b \<notin> E" for b
    using wf a that by (simp add: pq_wf_def pq_fresh_def nth_set_index)
  ultimately show ?thesis
    using wf a by (auto simp: pq_wf_def pq_fresh_def ih_Push_def nth_append less_Suc_eq)
qed

lemma ih_Pop_wf:
  assumes wf: "pq_wf E s" and ne: "pq_h s \<noteq> []"
  shows "pq_wf E (snd (ih_Pop s))"
proof -
  obtain h a where h: "pq_h s = h @ [a]" using ne by (metis rev_exhaust)
  have d: "distinct h" "a \<notin> set h" "a < length (pq_store s)" "\<forall>b\<in>set h. b < length (pq_store s)"
    using wf h by (auto simp: pq_wf_def)
  have ix: "pi_index (pq_store s ! (h ! i)) = int i" if "i < length h" for i
    using wf h that by (auto simp: pq_wf_def nth_append dest: spec [of _ i])
  have "pi_index (set_index a (-1) (pq_store s) ! (h ! i)) = int i" if "i < length h" for i
    using ix [OF that] d that nth_mem [OF that] by (auto simp: nth_set_index)
  moreover have "pi_index (set_index a (-1) (pq_store s) ! b) = -1"
    if "b < length (pq_store s)" "b \<notin> set h" "b \<notin> E" for b
    using that wf h d by (auto simp: nth_set_index pq_wf_def)
  ultimately show ?thesis using d by (simp add: ih_Pop_def h pq_wf_def)
qed

interpretation pqh: heap_container "pq_wf E" pq_elems pq_key ih_Less ih_Swap ih_Len pq_fresh pq_view ih_Push fst ih_Pop
  for E :: "nat set"
proof unfold_locales
  fix s :: "'v pqueue" and i j a
  show "pq_wf E s \<Longrightarrow> i < length (pq_elems s) \<Longrightarrow> j < length (pq_elems s) \<Longrightarrow>
      ih_Less s i j = (pq_key (pq_elems s ! i) < pq_key (pq_elems s ! j))"
    and "pq_wf E s \<Longrightarrow> i < length (pq_elems s) \<Longrightarrow> j < length (pq_elems s) \<Longrightarrow> pq_wf E (ih_Swap i j s)"
    and "pq_wf E s \<Longrightarrow> i < length (pq_elems s) \<Longrightarrow> j < length (pq_elems s) \<Longrightarrow>
      pq_elems (ih_Swap i j s) = swapped i j (pq_elems s)"
    by (simp_all add: ih_Less_key ih_Swap_wf ih_Swap_elems)
  show "ih_Len s = length (pq_elems s)" by (simp add: ih_Len_def)
  assume wf: "pq_wf E s"
  show "pq_fresh a s \<Longrightarrow> pq_wf E (ih_Push a s)" by (rule ih_Push_wf [OF wf])
  show "pq_fresh a s \<Longrightarrow> pq_elems (ih_Push a s) = pq_elems s @ [pq_view a s]"
    by (simp add: pq_elems_def ih_Push_def pq_view_def)
  assume ne: "pq_elems s \<noteq> []"
  then have "pq_h s \<noteq> []" by (simp add: pq_elems_def)
  then show "pq_wf E (snd (ih_Pop s))"
    and "pq_elems (snd (ih_Pop s)) = butlast (pq_elems s)"
    and "fst (ih_Pop s) = fst (last (pq_elems s))"
    using ih_Pop_wf [OF wf] by (simp_all add: ih_Pop_def pq_elems_def pq_view_def Let_def
        butlast_conv_take take_map last_map last_conv_nth)
qed

subsection \<open>Correctness of the public operations\<close>

definition pq_ok :: "'v pqueue \<Rightarrow> bool" where
  "pq_ok s \<longleftrightarrow> pq_wf {} s \<and> is_heap pq_key (pq_elems s) (length (pq_h s))"

abbreviation pq_content :: "'v pqueue \<Rightarrow> (nat \<times> 'v \<times> int) multiset" where
  "pq_content s \<equiv> mset (pq_elems s)"

lemma heap_ok_pq: "pqh.heap_ok E s \<longleftrightarrow> pq_wf E s \<and> is_heap pq_key (pq_elems s) (length (pq_h s))"
  by (simp add: pqh.heap_ok_def)

lemma pq_wf_shrink: "pq_wf E s \<Longrightarrow> E \<subseteq> set (pq_h s) \<Longrightarrow> pq_wf {} s"
  unfolding pq_wf_def by auto

lemma pq_wf_weaken: "pq_wf {} s \<Longrightarrow> pq_wf E s"
  unfolding pq_wf_def by auto

lemma pq_elems_handles: "fst ` set (pq_elems s) = set (pq_h s)"
  by (force simp: pq_elems_def pq_view_def)

lemma pq_New_ok: "pq_ok pq_New" "pq_content pq_New = {#}"
  by (simp_all add: pq_ok_def pq_New_def pq_wf_def is_heap_def pq_elems_def)

lemma pq_Push_spec:
  assumes "pq_ok s" and "pq_Push v p s = (a, s')"
  shows "pq_ok s' \<and> pq_content s' = add_mset (a, v, p) (pq_content s) \<and> a \<notin> set (pq_h s) \<and> a = length (pq_store s)"
proof -
  let ?a = "length (pq_store s)"
  let ?t = "s\<lparr>pq_store := pq_store s @ [\<lparr>pi_Value = v, pi_Priority = p, pi_index = 0\<rparr>]\<rparr>"
  have wf: "pq_wf {} s" and hp: "is_heap pq_key (pq_elems s) (length (pq_h s))"
    using assms(1) by (simp_all add: pq_ok_def)
  have lt: "\<forall>b\<in>set (pq_h s). b < ?a" using wf by (simp add: pq_wf_def)
  then have el: "pq_elems ?t = pq_elems s" by (simp add: pq_elems_def pq_view_def nth_append)
  have "pq_wf {?a} ?t"
    using wf lt by (auto simp: pq_wf_def nth_append less_Suc_eq)
  then have ok: "pqh.heap_ok {?a} ?t" using hp by (simp add: heap_ok_pq el)
  have fr: "pq_fresh ?a ?t" using lt by (auto simp: pq_fresh_def)
  have s': "a = ?a" "s' = heap_Push ih_Len ih_Less ih_Swap ih_Push ?a ?t"
    using assms(2) unfolding pq_Push_def Let_def by auto
  have res: "pqh.heap_ok {?a} s'" "pq_content s' = add_mset (?a, v, p) (pq_content s)"
    using pqh.Push_ok [OF ok fr] by (simp_all add: s' el pq_view_def)
  have "?a \<in> fst ` set (pq_elems s')"
    by (metis res(2) fst_conv image_eqI set_mset_mset union_single_eq_member)
  then have "pq_wf {} s'" using res(1) by (intro pq_wf_shrink [of "{?a}"]) (simp_all add: heap_ok_pq pq_elems_handles)
  then show ?thesis using res lt s'(1) by (auto simp: pq_ok_def heap_ok_pq)
qed



lemma view_ih_Swap [simp]: "pq_view b (ih_Swap i j s) = pq_view b s"
  by (simp add: pq_view_def ih_Swap_def Let_def)

lemma view_ih_Pop [simp]: "pq_view b (snd (ih_Pop s)) = pq_view b s"
  by (simp add: ih_Pop_def Let_def pq_view_def)

lemma view_heap_down [simp]: "pq_view b (fst (heap_down lt ih_Swap i n s)) = pq_view b s"
proof (induction "n - i" arbitrary: i s rule: less_induct)
  case less
  show ?case
    by (subst heap_down.simps) (auto simp: Let_def less.hyps)
qed

lemma view_heap_Pop: "pq_view b (snd (heap_Pop ih_Len ih_Less ih_Swap ih_Pop s)) = pq_view b s"
  by (simp add: heap_Pop_def Let_def)

lemma pq_Pop_spec:
  assumes "pq_ok s" and "pq_Pop s = (r, s')"
  shows "pq_ok s' \<and> (case r of
      None \<Rightarrow> pq_content s = {#} \<and> s' = s
    | Some (v, p) \<Rightarrow> \<exists>a. pq_content s = add_mset (a, v, p) (pq_content s')
        \<and> (\<forall>(b, w, q)\<in>#pq_content s. q \<le> p) \<and> pq_Peek s = Some (v, p))"
proof (cases "pq_h s = []")
  case True
  with assms show ?thesis by (auto simp: pq_Pop_def ih_Len_def pq_elems_def)
next
  case False
  obtain a t where t: "heap_Pop ih_Len ih_Less ih_Swap ih_Pop s = (a, t)" by fastforce
  have ok: "pqh.heap_ok {} s" using assms(1) by (simp add: heap_ok_pq pq_ok_def)
  have ne: "pq_elems s \<noteq> []" using False by (simp add: pq_elems_def)
  have top: "pq_elems s ! 0 = pq_view (pq_h s ! 0) s" using False by (simp add: pq_elems_def)
  have res: "pqh.heap_ok {} t" "a = pq_h s ! 0" "pq_content s = add_mset (pq_view a s) (pq_content t)"
    using pqh.Pop_ok [OF ok ne t] by (simp_all add: top) (simp_all add: pq_view_def)
  have "pq_view a t = pq_view a s" using view_heap_Pop [of a s] t by simp
  then have r: "r = Some (pi_Value (pq_store s ! a), pi_Priority (pq_store s ! a))" "s' = t"
    using assms(2) False t by (simp_all add: pq_Pop_def ih_Len_def pq_view_def)
  have "\<forall>(b, w, q)\<in>#pq_content s. q \<le> pi_Priority (pq_store s ! a)"
    using pqh.heap_ok_root [OF ok] by (fastforce simp: top res(2) pq_key_def pq_view_def)
  moreover have "pq_Peek s = r" using False r(1) res(2) by (simp add: pq_Peek_def ih_Len_def Let_def)
  ultimately show ?thesis
    using res(1,3) unfolding r by (simp add: pq_ok_def heap_ok_pq pq_view_def)
qed

text \<open>
  On a valid queue \<open>Pop\<close> fails exactly when the queue is empty; otherwise it returns what
  \<open>Peek\<close> shows, an entry of maximal priority, removes exactly that entry and keeps the queue
  valid.
\<close>
lemma pq_pop_max:
  assumes "pq_ok s" and "pq_Pop s = (r, s')"
  shows "pq_ok s' \<and> (r = None \<longleftrightarrow> pq_content s = {#}) \<and> r = pq_Peek s
    \<and> (\<forall>v p. r = Some (v, p) \<longrightarrow> (\<exists>a. pq_content s = add_mset (a, v, p) (pq_content s'))
         \<and> (\<forall>(b, w, q)\<in>#pq_content s. q \<le> p))"
proof -
  have "pq_Peek s = None" if "pq_content s = {#}"
    using that by (simp add: pq_Peek_def ih_Len_def pq_elems_def)
  then show ?thesis using pq_Pop_spec [OF assms] by (cases r) auto
qed

text \<open>A queue with two entries, as two calls of \<open>Push\<close> leave it.\<close>

definition pq_example :: "string pqueue" where
  "pq_example = \<lparr>pq_h = [1, 0], pq_store = [\<lparr>pi_Value = ''a'', pi_Priority = 2, pi_index = 1\<rparr>,
      \<lparr>pi_Value = ''b'', pi_Priority = 5, pi_index = 0\<rparr>]\<rparr>"

lemma pq_example_pushed: "snd (pq_Push ''b'' 5 (snd (pq_Push ''a'' 2 pq_New))) = pq_example"
  by (simp add: pq_example_def pq_Push_def pq_New_def heap_Push_def heap_up.simps ih_Push_def ih_Len_def
      ih_Less_def ih_Swap_def set_index_def swapped_def parent_def Let_def)

lemma pq_example_ok: "pq_ok pq_example"
  by (auto simp: pq_example_def pq_ok_def pq_wf_def is_heap_def edge_def pq_elems_def pq_view_def pq_key_def
      parent_def less_Suc_eq)

text \<open>Popping until the queue is empty.\<close>

fun pq_pop_n :: "nat \<Rightarrow> 'v pqueue \<Rightarrow> ('v \<times> int) list" where
  "pq_pop_n 0 s = []"
| "pq_pop_n (Suc n) s = (case pq_Pop s of (None, s') \<Rightarrow> [] | (Some x, s') \<Rightarrow> x # pq_pop_n n s')"

lemma pq_drain_aux:
  "pq_ok s \<Longrightarrow> length (pq_h s) \<le> n \<Longrightarrow> sorted_wrt (\<lambda>x y. snd y \<le> snd x) (pq_pop_n n s)
     \<and> mset (pq_pop_n n s) = image_mset snd (pq_content s)"
proof (induction n arbitrary: s)
  case 0
  then show ?case by (simp add: pq_elems_def)
next
  case (Suc n)
  obtain r s' where p: "pq_Pop s = (r, s')" by fastforce
  note spec = pq_Pop_spec [OF Suc.prems(1) p]
  show ?case
  proof (cases r)
    case None
    then show ?thesis using spec p by simp
  next
    case (Some x)
    obtain v q where x: "x = (v, q)" by (cases x)
    obtain a where a: "pq_content s = add_mset (a, v, q) (pq_content s')"
      and mx: "\<forall>(b, w, q')\<in>#pq_content s. q' \<le> q" and ok: "pq_ok s'"
    proof -
      have "pq_ok s' \<and> (\<exists>a. pq_content s = add_mset (a, v, q) (pq_content s')) \<and> (\<forall>(b, w, q')\<in>#pq_content s. q' \<le> q)"
        using spec unfolding Some x option.case prod.case by blast
      then show thesis using that by blast
    qed
    have "size (pq_content s) = Suc (size (pq_content s'))" by (simp only: a size_add_mset)
    then have "length (pq_h s') \<le> n" using Suc.prems(2) by simp
    then have IH: "sorted_wrt (\<lambda>x y. snd y \<le> snd x) (pq_pop_n n s')" "mset (pq_pop_n n s') = image_mset snd (pq_content s')"
      using Suc.IH [OF ok] by simp_all
    have "snd y \<le> q" if "y \<in> set (pq_pop_n n s')" for y
    proof -
      have "y \<in># image_mset snd (pq_content s')" using that IH(2) by (metis set_mset_mset)
      then show ?thesis using mx unfolding a by force
    qed
    then show ?thesis using IH p Some x a by simp
  qed
qed

text \<open>
  Popping a valid queue until it is empty returns all its values, each exactly once, in
  order of falling priority.
\<close>
lemma pq_drain_sorted:
  assumes "pq_ok s"
  shows "sorted_wrt (\<lambda>x y. snd y \<le> snd x) (pq_pop_n (pq_Len s) s)
    \<and> mset (pq_pop_n (pq_Len s) s) = image_mset snd (pq_content s)"
  using pq_drain_aux [OF assms, of "pq_Len s"] by (simp add: pq_Len_def ih_Len_def)

subsection \<open>Update\<close>

lemma pq_Update_spec:
  assumes ok: "pq_ok s" and a: "a \<in> set (pq_h s)"
  shows "pq_ok (pq_Update (Some a) p s)
    \<and> pq_content s = add_mset (pq_view a s) (pq_content s - {#pq_view a s#})
    \<and> pq_content (pq_Update (Some a) p s)
        = add_mset (a, pi_Value (pq_store s ! a), p) (pq_content s - {#pq_view a s#})"
proof -
  have wf: "pq_wf {} s" and hp: "is_heap pq_key (pq_elems s) (length (pq_h s))"
    using ok by (simp_all add: pq_ok_def)
  obtain i where i: "i < length (pq_h s)" "pq_h s ! i = a" using a by (metis in_set_conv_nth)
  have al: "a < length (pq_store s)" and ix: "pi_index (pq_store s ! a) = int i"
    using wf a i by (auto simp: pq_wf_def)
  let ?t = "s\<lparr>pq_store := (pq_store s)[a := (pq_store s ! a)\<lparr>pi_Priority := p\<rparr>]\<rparr>"
  let ?y = "(a, pi_Value (pq_store s ! a), p)"
  have el: "pq_elems ?t = (pq_elems s)[i := ?y]"
  proof (rule nth_equalityI)
    fix k assume "k < length (pq_elems ?t)"
    then have k: "k < length (pq_h s)" by simp
    have "pq_h s ! k = a \<longleftrightarrow> k = i" using wf i k by (auto simp: pq_wf_def nth_eq_iff_index_eq)
    moreover have "pq_h s ! k < length (pq_store s)" using wf k by (simp add: pq_wf_def)
    ultimately show "pq_elems ?t ! k = (pq_elems s)[i := ?y] ! k"
      using k al i by (auto simp: pq_elems_def pq_view_def nth_list_update)
  qed simp
  have idx: "pi_index ((pq_store s)[a := (pq_store s ! a)\<lparr>pi_Priority := p\<rparr>] ! b) = pi_index (pq_store s ! b)" for b
    using al by (cases "b = a") simp_all
  have "pq_wf {} ?t" using wf by (simp add: pq_wf_def idx)
  moreover have "hole pq_key (pq_elems ?t) (length (pq_elems ?t)) i"
    using is_heap_hole_update [OF hp, of i ?y] by (simp add: el)
  ultimately have fx: "pqh.heap_ok {} (heap_Fix ih_Len ih_Less ih_Swap i ?t)"
    "pq_content (heap_Fix ih_Len ih_Less ih_Swap i ?t) = mset ((pq_elems s)[i := ?y])"
    using pqh.Fix_ok [of "{}" ?t i] i(1) by (simp_all add: el)
  have upd: "pq_Update (Some a) p s = heap_Fix ih_Len ih_Less ih_Swap i ?t"
    using ix i(1) by (simp add: pq_Update_def Let_def ih_Len_def)
  have nth: "pq_elems s ! i = pq_view a s" using i by (simp add: pq_elems_def)
  have "pq_view a s \<in># pq_content s" using i(1) nth by (metis length_pq_elems nth_mem set_mset_mset)
  then show ?thesis
    using fx i(1) nth by (simp add: upd pq_ok_def heap_ok_pq mset_update)
qed

lemma pq_Update_other:
  "pq_Update None p s = s"
  "pq_ok s \<Longrightarrow> a < length (pq_store s) \<Longrightarrow> a \<notin> set (pq_h s) \<Longrightarrow> pq_Update (Some a) p s = s"
  by (simp_all add: pq_Update_def pq_ok_def pq_wf_def)

text \<open>
  \<open>Update\<close> on a handle still in the queue replaces exactly that entry's priority and keeps
  the queue valid; on nil or on a handle already popped it changes nothing.
\<close>
lemma pq_update_handle:
  assumes "pq_ok s" and "a < length (pq_store s)"
  shows "pq_Update None p s = s
    \<and> (if a \<in> set (pq_h s)
       then pq_ok (pq_Update (Some a) p s) \<and> pq_content (pq_Update (Some a) p s)
            = add_mset (a, pi_Value (pq_store s ! a), p) (pq_content s - {#pq_view a s#})
       else pq_Update (Some a) p s = s)"
  using pq_Update_spec [OF assms(1), of a p] assms by (simp add: pq_Update_other)

text \<open>Every queue reached from \<open>New\<close> by the public operations is valid.\<close>

datatype 'v pq_op = OpPush 'v int | OpPop | OpUpdate "nat option" int

fun pq_do :: "'v pq_op \<Rightarrow> 'v pqueue \<Rightarrow> 'v pqueue" where
  "pq_do (OpPush v p) s = snd (pq_Push v p s)"
| "pq_do OpPop s = snd (pq_Pop s)"
| "pq_do (OpUpdate a p) s = (case a of None \<Rightarrow> pq_Update None p s
     | Some b \<Rightarrow> if b < length (pq_store s) then pq_Update (Some b) p s else s)"

text \<open>
  C4. Whatever sequence of \<open>Push\<close>, \<open>Pop\<close> and \<open>Update\<close> a client performs, with any handles the
  queue has given out, the queue stays valid: heap order holds and every handle knows its position.
\<close>

theorem pq_always_valid: "pq_ok (fold pq_do ops (pq_New :: 'v pqueue))"
proof -
  have step: "pq_ok (pq_do x s)" if "pq_ok s" for x and s :: "'v pqueue"
  proof (cases x)
    case (OpPush v p)
    then show ?thesis using pq_Push_spec [OF \<open>pq_ok s\<close>, of v p "fst (pq_Push v p s)" "snd (pq_Push v p s)"] by simp
  next
    case OpPop
    then show ?thesis using pq_Pop_spec [OF \<open>pq_ok s\<close>, of "fst (pq_Pop s)" "snd (pq_Pop s)"] by simp
  next
    case (OpUpdate a p)
    have "pq_ok (pq_Update (Some b) p s)" if "b < length (pq_store s)" for b
      using pq_Update_spec [OF \<open>pq_ok s\<close>] pq_Update_other(2) [OF \<open>pq_ok s\<close> that] \<open>pq_ok s\<close>
      by (cases "b \<in> set (pq_h s)") simp_all
    then show ?thesis using \<open>pq_ok s\<close> OpUpdate by (simp add: pq_Update_other(1) split: option.split)
  qed
  have "pq_ok (fold pq_do ops s)" if "pq_ok s" for s :: "'v pqueue"
    using that by (induction ops arbitrary: s) (simp_all add: step)
  then show ?thesis by (simp add: pq_New_ok)
qed

end
