(* ===== verification/Topk.thy ===== *)
theory Topk
  imports Heap "HOL-Library.AList" "HOL-Library.List_Lexorder" "HOL-Library.Char_ord"
begin

section \<open>Package topk: the most frequent items of a stream\<close>

text \<open>
  \<open>src/topk/topk.go\<close>.  The count map is an association list with distinct keys; the code ranges
  over it only to find a minimum, whose result does not depend on the order.  The min-heap holds
  pointers that never leave the tracker, so its items are values in the list, with the \<open>index\<close>
  field the heap operations keep.  Counts are \<open>int64\<close> and wrap.
\<close>

definition candidateFactor :: nat where
  "candidateFactor = 4"

record topk_item =
  ti_key :: string
  ti_count :: int
  ti_index :: int

record tracker =
  tk_k :: nat
  tk_cap :: nat
  tk_counts :: "(string \<times> int) list"
  tk_heap :: "topk_item list"

definition th_Len :: "topk_item list \<Rightarrow> nat" where
  "th_Len h = length h"

definition th_Less :: "topk_item list \<Rightarrow> nat \<Rightarrow> nat \<Rightarrow> bool" where
  "th_Less h i j \<longleftrightarrow> ti_count (h ! i) < ti_count (h ! j)"

definition th_Swap :: "nat \<Rightarrow> nat \<Rightarrow> topk_item list \<Rightarrow> topk_item list" where
  "th_Swap i j h =
     (let h = swapped i j h; h = h[i := (h ! i)\<lparr>ti_index := int i\<rparr>] in h[j := (h ! j)\<lparr>ti_index := int j\<rparr>])"

definition th_Push :: "topk_item \<Rightarrow> topk_item list \<Rightarrow> topk_item list" where
  "th_Push it h = h @ [it\<lparr>ti_index := int (length h)\<rparr>]"

definition th_Pop :: "topk_item list \<Rightarrow> topk_item \<times> topk_item list" where
  "th_Pop h = (let n = length h; it = h ! (n - 1) in (it\<lparr>ti_index := -1\<rparr>, take (n - 1) h))"

definition topk_New :: "int \<Rightarrow> tracker option" where
  "topk_New k = (if k \<le> 0 then None
     else Some \<lparr>tk_k = nat k, tk_cap = candidateFactor * nat k, tk_counts = [], tk_heap = []\<rparr>)"

definition count_of :: "(string \<times> int) list \<Rightarrow> string \<Rightarrow> int" where
  "count_of counts key = (case map_of counts key of None \<Rightarrow> 0 | Some c \<Rightarrow> c)"

text \<open>The inner loop of \<open>evictCandidates\<close>: the smallest count outside the heap, ties by key.\<close>

definition evict_better :: "string \<times> int \<Rightarrow> (string \<times> int) option \<Rightarrow> bool" where
  "evict_better x best = (case best of None \<Rightarrow> True
     | Some y \<Rightarrow> snd x < snd y \<or> (snd x = snd y \<and> fst x < fst y))"

fun evict_scan :: "string set \<Rightarrow> (string \<times> int) list \<Rightarrow> (string \<times> int) option \<Rightarrow> (string \<times> int) option" where
  "evict_scan inHeap [] best = best"
| "evict_scan inHeap (x # xs) best =
     (if fst x \<in> inHeap then evict_scan inHeap xs best
      else if evict_better x best then evict_scan inHeap xs (Some x)
      else evict_scan inHeap xs best)"

lemma evict_scan_in: "evict_scan H xs best = Some x \<Longrightarrow> best = Some x \<or> x \<in> set xs \<and> fst x \<notin> H"
  by (induction xs arbitrary: best) (auto split: if_splits)

function evictCandidates :: "tracker \<Rightarrow> tracker" where
  "evictCandidates t =
     (if length (tk_counts t) \<le> tk_cap t then t
      else
        (case evict_scan (ti_key ` set (tk_heap t)) (tk_counts t) None of
           None \<Rightarrow> t
         | Some (k, c) \<Rightarrow> evictCandidates (t\<lparr>tk_counts := AList.delete k (tk_counts t)\<rparr>)))"
  by pat_completeness auto
termination
proof (relation "measure (\<lambda>t. length (tk_counts t))")
  fix t :: tracker and x k c
  assume "evict_scan (ti_key ` set (tk_heap t)) (tk_counts t) None = Some x" "(k, c) = x"
  then have "k \<in> fst ` set (tk_counts t)" by (force dest: evict_scan_in)
  then obtain p where "p \<in> set (tk_counts t)" "fst p = k" by blast
  then have "length (filter (\<lambda>p. fst p \<noteq> k) (tk_counts t)) < length (tk_counts t)"
    by (intro length_filter_less [of p]) auto
  moreover have "AList.delete k (tk_counts t) = filter (\<lambda>p. fst p \<noteq> k) (tk_counts t)"
    unfolding AList.delete_eq by (rule filter_cong) auto
  ultimately show "(t\<lparr>tk_counts := AList.delete k (tk_counts t)\<rparr>, t) \<in> measure (\<lambda>t. length (tk_counts t))"
    by simp
qed simp

declare evictCandidates.simps [simp del]

fun find_item :: "string \<Rightarrow> topk_item list \<Rightarrow> nat \<Rightarrow> nat option" where
  "find_item key [] i = None"
| "find_item key (it # its) i = (if ti_key it = key then Some i else find_item key its (Suc i))"

definition TouchN :: "string \<Rightarrow> int \<Rightarrow> tracker \<Rightarrow> tracker" where
  "TouchN key n t =
     (if n \<le> 0 then t
      else
        (case find_item key (tk_heap t) 0 of
           Some i \<Rightarrow>
             let c = wrap64 (count_of (tk_counts t) key + n);
                 h = (tk_heap t)[i := (tk_heap t ! i)\<lparr>ti_count := c\<rparr>]
             in t\<lparr>tk_counts := AList.update key c (tk_counts t),
                  tk_heap := heap_Fix th_Len th_Less th_Swap (nat (ti_index (h ! i))) h\<rparr>
         | None \<Rightarrow>
             let newCount = wrap64 (count_of (tk_counts t) key + n);
                 it = \<lparr>ti_key = key, ti_count = newCount, ti_index = 0\<rparr>
             in if length (tk_heap t) < tk_k t then
                  t\<lparr>tk_counts := AList.update key newCount (tk_counts t),
                    tk_heap := heap_Push th_Len th_Less th_Swap th_Push it (tk_heap t)\<rparr>
                else
                  let t' =
                    (if ti_count (tk_heap t ! 0) < newCount then
                       t\<lparr>tk_counts := AList.update key newCount (tk_counts t),
                         tk_heap := heap_Push th_Len th_Less th_Swap th_Push it
                           (snd (heap_Pop th_Len th_Less th_Swap th_Pop (tk_heap t)))\<rparr>
                     else t\<lparr>tk_counts := AList.update key newCount (tk_counts t)\<rparr>)
                  in evictCandidates t'))"

definition Touch :: "string \<Rightarrow> tracker \<Rightarrow> tracker" where
  "Touch key t = TouchN key 1 t"

definition topk_Top :: "((string \<times> int) list \<Rightarrow> (string \<times> int) list) \<Rightarrow> tracker \<Rightarrow> (string \<times> int) list" where
  "topk_Top srt t = srt (map (\<lambda>it. (ti_key it, ti_count it)) (tk_heap t))"

definition topk_Count :: "string \<Rightarrow> tracker \<Rightarrow> int" where
  "topk_Count key t = count_of (tk_counts t) key"

definition topk_Len :: "tracker \<Rightarrow> nat" where
  "topk_Len t = th_Len (tk_heap t)"

definition topk_Reset :: "tracker \<Rightarrow> tracker" where
  "topk_Reset t = t\<lparr>tk_counts := [], tk_heap := []\<rparr>"

subsection \<open>The heap of items\<close>

definition th_wf :: "topk_item list \<Rightarrow> bool" where
  "th_wf h \<longleftrightarrow> (\<forall>i<length h. ti_index (h ! i) = int i)"

definition th_elems :: "topk_item list \<Rightarrow> (string \<times> int) list" where
  "th_elems h = map (\<lambda>it. (ti_key it, ti_count it)) h"

lemma length_th_elems [simp]: "length (th_elems h) = length h"
  by (simp add: th_elems_def)

interpretation thh: heap_container th_wf th_elems snd th_Less th_Swap th_Len "\<lambda>_ _. True"
  "\<lambda>it h. (ti_key it, ti_count it)" th_Push "\<lambda>x. x" "\<lambda>h. case th_Pop h of (it, h') \<Rightarrow> ((ti_key it, ti_count it), h')"
proof unfold_locales
  fix h :: "topk_item list" and i j it
  show "th_wf h \<Longrightarrow> i < length (th_elems h) \<Longrightarrow> j < length (th_elems h) \<Longrightarrow>
      th_Less h i j = (snd (th_elems h ! i) < snd (th_elems h ! j))"
    by (simp add: th_Less_def th_elems_def)
  show "th_wf h \<Longrightarrow> i < length (th_elems h) \<Longrightarrow> j < length (th_elems h) \<Longrightarrow> th_wf (th_Swap i j h)"
    by (auto simp: th_wf_def th_Swap_def Let_def nth_list_update nth_swapped)
  show "th_wf h \<Longrightarrow> i < length (th_elems h) \<Longrightarrow> j < length (th_elems h) \<Longrightarrow>
      th_elems (th_Swap i j h) = swapped i j (th_elems h)"
    by (rule nth_equalityI) (auto simp: th_elems_def th_Swap_def Let_def nth_list_update nth_swapped)
  show "th_wf h \<Longrightarrow> th_Len h = length (th_elems h)" by (simp add: th_Len_def)
  show "th_wf h \<Longrightarrow> th_wf (th_Push it h)"
    by (auto simp: th_wf_def th_Push_def nth_append less_Suc_eq)
  show "th_wf h \<Longrightarrow> th_elems (th_Push it h) = th_elems h @ [(ti_key it, ti_count it)]"
    by (simp add: th_elems_def th_Push_def)
  assume ne: "th_elems h \<noteq> []" and wf: "th_wf h"
  then have "h \<noteq> []" by (simp add: th_elems_def)
  with wf show "th_wf (snd (case th_Pop h of (it, h') \<Rightarrow> ((ti_key it, ti_count it), h')))"
    and "th_elems (snd (case th_Pop h of (it, h') \<Rightarrow> ((ti_key it, ti_count it), h'))) = butlast (th_elems h)"
    and "fst (case th_Pop h of (it, h') \<Rightarrow> ((ti_key it, ti_count it), h')) = last (th_elems h)"
    by (simp_all add: th_Pop_def Let_def th_wf_def th_elems_def butlast_conv_take take_map last_map last_conv_nth)
qed

subsection \<open>Eviction\<close>

lemma evict_scan_None:
  "evict_scan H xs best = None \<longleftrightarrow> best = None \<and> (\<forall>x\<in>set xs. fst x \<in> H)"
proof (induction xs arbitrary: best)
  case (Cons a xs)
  then show ?case by (cases best) (simp_all add: evict_better_def del: not_None_eq)
qed simp

text \<open>
  The victim is the least candidate in the order "count, then key", whatever order the map is
  visited in.
\<close>

definition evict_le :: "string \<times> int \<Rightarrow> string \<times> int \<Rightarrow> bool" where
  "evict_le x y \<longleftrightarrow> snd x < snd y \<or> snd x = snd y \<and> fst x \<le> fst y"

lemma evict_better_le: "evict_better x best \<longleftrightarrow> (\<forall>y. best = Some y \<longrightarrow> evict_le x y \<and> x \<noteq> y)"
  by (auto simp: evict_better_def evict_le_def prod_eq_iff split: option.splits)

lemma evict_le_trans: "evict_le x y \<Longrightarrow> evict_le y z \<Longrightarrow> evict_le x z"
  by (auto simp: evict_le_def)

lemma evict_le_total: "evict_le x y \<or> evict_le y x"
  by (auto simp: evict_le_def)

lemma evict_scan_least:
  "evict_scan H xs best = Some x \<Longrightarrow>
     (\<forall>y\<in>set xs. fst y \<notin> H \<longrightarrow> evict_le x y) \<and> (\<forall>y. best = Some y \<longrightarrow> evict_le x y)"
proof (induction xs arbitrary: best)
  case Nil
  then show ?case by (simp add: evict_le_def)
next
  case (Cons a xs)
  consider "fst a \<in> H" | "fst a \<notin> H" "evict_better a best" | "fst a \<notin> H" "\<not> evict_better a best" by blast
  then show ?case
  proof cases
    case 1
    then show ?thesis using Cons by simp
  next
    case 2
    then have "(\<forall>y\<in>set xs. fst y \<notin> H \<longrightarrow> evict_le x y) \<and> evict_le x a" using Cons(1) [of "Some a"] Cons(2) by auto
    then show ?thesis using 2(2) unfolding evict_better_le by (metis evict_le_trans set_ConsD)
  next
    case 3
    then have IH: "(\<forall>y\<in>set xs. fst y \<notin> H \<longrightarrow> evict_le x y) \<and> (\<forall>y. best = Some y \<longrightarrow> evict_le x y)" using Cons by simp
    obtain y where "best = Some y" "evict_le y a"
      using 3(2) by (metis evict_better_le evict_le_total)
    then show ?thesis using IH by (metis evict_le_trans set_ConsD)
  qed
qed

lemma length_delete_distinct:
  assumes "distinct (map fst xs)" and "k \<in> fst ` set xs"
  shows "length (AList.delete k xs) = length xs - 1"
proof -
  have "length (filter (\<lambda>p. fst p \<noteq> k) xs) + length (filter (\<lambda>p. fst p = k) xs) = length xs"
    using sum_length_filter_compl [of "\<lambda>p. fst p \<noteq> k" xs] by simp
  moreover have "length (filter (\<lambda>p. fst p = k) xs) = 1"
    using assms
  proof (induction xs)
    case (Cons a xs)
    then show ?case by (cases "fst a = k") (auto simp: filter_empty_conv image_iff)
  qed simp
  moreover have "AList.delete k xs = filter (\<lambda>p. fst p \<noteq> k) xs"
    unfolding AList.delete_eq by (rule filter_cong) auto
  ultimately show ?thesis by simp
qed

text \<open>Eviction never removes a key of the heap, and one candidate too many costs one candidate.\<close>

lemma evict_spec:
  assumes d: "distinct (map fst (tk_counts t))" and over: "length (tk_counts t) \<le> Suc (tk_cap t)"
    and few: "length (tk_heap t) \<le> tk_cap t"
  shows "\<exists>counts. evictCandidates t = t\<lparr>tk_counts := counts\<rparr> \<and> length counts \<le> tk_cap t \<and> distinct (map fst counts)
    \<and> (length (tk_counts t) \<le> tk_cap t \<longrightarrow> counts = tk_counts t)
    \<and> (\<forall>key. map_of counts key = map_of (tk_counts t) key
         \<or> map_of counts key = None \<and> key \<notin> ti_key ` set (tk_heap t))"
proof (cases "length (tk_counts t) \<le> tk_cap t")
  case True
  then have "evictCandidates t = t\<lparr>tk_counts := tk_counts t\<rparr>" by (subst evictCandidates.simps) simp
  with True d show ?thesis by blast
next
  case False
  let ?H = "ti_key ` set (tk_heap t)"
  have "card (fst ` set (tk_counts t)) = length (tk_counts t)" using d by (metis distinct_card length_map set_map)
  moreover have "card ?H \<le> length (tk_heap t)" by (metis card_image_le card_length finite_set le_trans)
  ultimately have "card ?H < card (fst ` set (tk_counts t))" using False few by linarith
  then have "\<not> fst ` set (tk_counts t) \<subseteq> ?H" by (meson card_mono finite_imageI finite_set not_le)
  then obtain k c where kc: "evict_scan ?H (tk_counts t) None = Some (k, c)"
    by (cases "evict_scan ?H (tk_counts t) None") (auto simp: evict_scan_None)
  then have mem: "(k, c) \<in> set (tk_counts t)" "k \<notin> ?H" by (auto dest: evict_scan_in)
  let ?d = "AList.delete k (tk_counts t)"
  have len: "length ?d = tk_cap t"
    using length_delete_distinct [OF d imageI [OF mem(1)]] over False by simp
  have "evictCandidates t = t\<lparr>tk_counts := ?d\<rparr>"
    using False kc len by (subst evictCandidates.simps) (simp add: evictCandidates.simps [of "t\<lparr>tk_counts := ?d\<rparr>"])
  moreover have "distinct (map fst ?d)" using d by (rule distinct_delete)
  moreover have "map_of ?d key = map_of (tk_counts t) key \<or> map_of ?d key = None \<and> key \<notin> ?H" for key
    using mem(2) by (cases "key = k") (simp_all add: delete_conv')
  ultimately show ?thesis using len False by (intro exI [of _ ?d]) simp
qed

subsection \<open>What the tracker knows of the stream\<close>

definition keys_once :: "(string \<times> int) multiset \<Rightarrow> bool" where
  "keys_once M \<longleftrightarrow> card (fst ` set_mset M) = size M"

lemma card_keys_le: "card (fst ` set_mset M) \<le> size M"
proof (induction M)
  case (add x M)
  have "card (insert (fst x) (fst ` set_mset M)) \<le> Suc (card (fst ` set_mset M))"
    by (rule card_insert_le_m1) simp_all
  with add show ?case by simp
qed simp

lemma keys_once_add [simp]: "keys_once (add_mset x M) \<longleftrightarrow> fst x \<notin> fst ` set_mset M \<and> keys_once M"
  using card_keys_le [of M] by (auto simp: keys_once_def card_insert_if)

lemma keys_once_mset: "keys_once (mset xs) \<longleftrightarrow> distinct (map fst xs)"
  unfolding keys_once_def using card_distinct [of "map fst xs"] distinct_card [of "map fst xs"] by auto

text \<open>
  The leaderboard \<open>M\<close>, the count map \<open>m\<close> and the true totals \<open>tot\<close>: every entry of the
  leaderboard is in the map, no count exceeds the truth, and no candidate outside the leaderboard
  beats an entry of it.
\<close>

definition tk_abs :: "nat \<Rightarrow> (string \<times> int) multiset \<Rightarrow> (string \<rightharpoonup> int) \<Rightarrow> (string \<Rightarrow> int) \<Rightarrow> bool" where
  "tk_abs k M m tot \<longleftrightarrow> size M \<le> k \<and> keys_once M
     \<and> (\<forall>x\<in>#M. m (fst x) = Some (snd x))
     \<and> (size M < k \<longrightarrow> dom m \<subseteq> fst ` set_mset M)
     \<and> (\<forall>key c. m key = Some c \<longrightarrow> 0 < c \<and> c \<le> tot key)
     \<and> (\<forall>key c x. m key = Some c \<longrightarrow> key \<notin> fst ` set_mset M \<longrightarrow> x \<in># M \<longrightarrow> c \<le> snd x)"

lemma tk_abs_bump:
  assumes a: "tk_abs k (add_mset (key, old) N) m tot" and c: "old \<le> c" "0 < c" "c \<le> tot key + n" and n: "0 \<le> n"
  shows "tk_abs k (add_mset (key, c) N) (m(key \<mapsto> c)) (tot(key := tot key + n))"
proof -
  have notin: "key \<notin> fst ` set_mset N" using a by (simp add: tk_abs_def)
  then have neq: "x \<in># N \<Longrightarrow> fst x \<noteq> key" for x by force
  show ?thesis unfolding tk_abs_def
  proof (intro conjI allI impI)
    show "size (add_mset (key, c) N) \<le> k" using a by (simp add: tk_abs_def)
    show "keys_once (add_mset (key, c) N)" using a notin by (simp add: tk_abs_def)
    show "\<forall>x\<in>#add_mset (key, c) N. (m(key \<mapsto> c)) (fst x) = Some (snd x)" using a neq by (simp add: tk_abs_def)
    show "size (add_mset (key, c) N) < k \<Longrightarrow> dom (m(key \<mapsto> c)) \<subseteq> fst ` set_mset (add_mset (key, c) N)"
      using a by (simp add: tk_abs_def)
  next
    fix u v assume "(m(key \<mapsto> c)) u = Some v"
    then show "0 < v" and "v \<le> (tot(key := tot key + n)) u" using a c n by (auto simp: tk_abs_def split: if_splits)
  next
    fix u v x
    assume u: "(m(key \<mapsto> c)) u = Some v" "u \<notin> fst ` set_mset (add_mset (key, c) N)" and x: "x \<in># add_mset (key, c) N"
    then have m: "m u = Some v" "u \<notin> fst ` set_mset (add_mset (key, old) N)" by (auto split: if_splits)
    then have "y \<in># add_mset (key, old) N \<Longrightarrow> v \<le> snd y" for y using a unfolding tk_abs_def by blast
    from this [of "(key, old)"] this [of x] show "v \<le> snd x" using x c(1) by auto
  qed
qed

lemma tk_abs_admit:
  assumes a: "tk_abs k M m tot" and k: "size M < k" and key: "key \<notin> fst ` set_mset M"
    and c: "0 < c" "c \<le> tot key + n" and n: "0 \<le> n"
  shows "tk_abs k (add_mset (key, c) M) (m(key \<mapsto> c)) (tot(key := tot key + n))"
proof -
  have neq: "x \<in># M \<Longrightarrow> fst x \<noteq> key" for x using key by force
  have dom: "dom m \<subseteq> fst ` set_mset M" using a k by (simp add: tk_abs_def)
  show ?thesis unfolding tk_abs_def
  proof (intro conjI allI impI)
    show "size (add_mset (key, c) M) \<le> k" using k by simp
    show "keys_once (add_mset (key, c) M)" using a key by (simp add: tk_abs_def)
    show "\<forall>x\<in>#add_mset (key, c) M. (m(key \<mapsto> c)) (fst x) = Some (snd x)" using a neq by (simp add: tk_abs_def)
    show "dom (m(key \<mapsto> c)) \<subseteq> fst ` set_mset (add_mset (key, c) M)" using dom by auto
  next
    fix u v assume "(m(key \<mapsto> c)) u = Some v"
    then show "0 < v" and "v \<le> (tot(key := tot key + n)) u" using a c n by (auto simp: tk_abs_def split: if_splits)
  next
    fix u v x assume "(m(key \<mapsto> c)) u = Some v" "u \<notin> fst ` set_mset (add_mset (key, c) M)"
    then have False using dom by (auto split: if_splits)
    then show "v \<le> snd x" ..
  qed
qed

lemma tk_abs_promote:
  assumes a: "tk_abs k (add_mset x N) m tot" and k: "size (add_mset x N) = k" and key: "key \<notin> fst ` set_mset (add_mset x N)"
    and least: "\<And>y. y \<in># N \<Longrightarrow> snd x \<le> snd y" and c: "snd x < c" "0 < c" "c \<le> tot key + n" and n: "0 \<le> n"
  shows "tk_abs k (add_mset (key, c) N) (m(key \<mapsto> c)) (tot(key := tot key + n))"
proof -
  have neq: "y \<in># N \<Longrightarrow> fst y \<noteq> key" for y using key by force
  show ?thesis unfolding tk_abs_def
  proof (intro conjI allI impI)
    show "size (add_mset (key, c) N) \<le> k" using k by simp
    show "keys_once (add_mset (key, c) N)" using a key by (simp add: tk_abs_def)
    show "\<forall>x\<in>#add_mset (key, c) N. (m(key \<mapsto> c)) (fst x) = Some (snd x)" using a neq by (simp add: tk_abs_def)
    show "size (add_mset (key, c) N) < k \<Longrightarrow> dom (m(key \<mapsto> c)) \<subseteq> fst ` set_mset (add_mset (key, c) N)" using k by simp
  next
    fix u v assume "(m(key \<mapsto> c)) u = Some v"
    then show "0 < v" and "v \<le> (tot(key := tot key + n)) u" using a c n by (auto simp: tk_abs_def split: if_splits)
  next
    fix u v y
    assume u: "(m(key \<mapsto> c)) u = Some v" "u \<notin> fst ` set_mset (add_mset (key, c) N)" and y: "y \<in># add_mset (key, c) N"
    then have m: "m u = Some v" by (auto split: if_splits)
    have "v \<le> snd x"
    proof (cases "u = fst x")
      case True
      then show ?thesis using m a by (simp add: tk_abs_def)
    next
      case False
      then have "u \<notin> fst ` set_mset (add_mset x N)" using u(2) by auto
      then show ?thesis using m a unfolding tk_abs_def by (metis union_single_eq_member)
    qed
    then show "v \<le> snd y" using y least c(1) by fastforce
  qed
qed

lemma tk_abs_candidate:
  assumes a: "tk_abs k M m tot" and k: "size M = k" and key: "key \<notin> fst ` set_mset M"
    and least: "\<And>y. y \<in># M \<Longrightarrow> c \<le> snd y" and c: "0 < c" "c \<le> tot key + n" and n: "0 \<le> n"
  shows "tk_abs k M (m(key \<mapsto> c)) (tot(key := tot key + n))"
proof -
  have neq: "y \<in># M \<Longrightarrow> fst y \<noteq> key" for y using key by force
  show ?thesis unfolding tk_abs_def
  proof (intro conjI allI impI)
    show "size M \<le> k" "keys_once M" using a by (simp_all add: tk_abs_def)
    show "\<forall>x\<in>#M. (m(key \<mapsto> c)) (fst x) = Some (snd x)" using a neq by (simp add: tk_abs_def)
    show "size M < k \<Longrightarrow> dom (m(key \<mapsto> c)) \<subseteq> fst ` set_mset M" using k by simp
  next
    fix u v assume "(m(key \<mapsto> c)) u = Some v"
    then show "0 < v" and "v \<le> (tot(key := tot key + n)) u" using a c n by (auto simp: tk_abs_def split: if_splits)
  next
    fix u v x
    assume u: "(m(key \<mapsto> c)) u = Some v" "u \<notin> fst ` set_mset M" and x: "x \<in># M"
    show "v \<le> snd x"
    proof (cases "u = key")
      case True
      then show ?thesis using u(1) least [OF x] by simp
    next
      case False
      then show ?thesis using u x a unfolding tk_abs_def by (metis fun_upd_other)
    qed
  qed
qed

lemma tk_abs_evict:
  assumes "tk_abs k M m tot" and "size M = k"
    and "\<And>key. m' key = m key \<or> m' key = None \<and> key \<notin> fst ` set_mset M"
  shows "tk_abs k M m' tot"
proof -
  have sub: "m key = Some c" if "m' key = Some c" for key c using assms(3) [of key] that by auto
  have "m' (fst x) = Some (snd x)" if "x \<in># M" for x
  proof -
    have "fst x \<in> fst ` set_mset M" using that by simp
    then show ?thesis using assms(1) assms(3) [of "fst x"] that by (simp add: tk_abs_def)
  qed
  then show ?thesis using assms(1,2) sub unfolding tk_abs_def by blast
qed

subsection \<open>TouchN keeps the invariant\<close>

definition heap_ok_items :: "topk_item list \<Rightarrow> bool" where
  "heap_ok_items h \<longleftrightarrow> th_wf h \<and> is_heap snd (th_elems h) (length h)"

lemma heap_ok_items: "thh.heap_ok h \<longleftrightarrow> heap_ok_items h"
  by (simp add: thh.heap_ok_def heap_ok_items_def)

definition tk_inv :: "(string \<Rightarrow> int) \<Rightarrow> tracker \<Rightarrow> bool" where
  "tk_inv tot t \<longleftrightarrow> 0 < tk_k t \<and> tk_cap t = candidateFactor * tk_k t \<and> heap_ok_items (tk_heap t)
     \<and> distinct (map fst (tk_counts t)) \<and> length (tk_counts t) \<le> tk_cap t
     \<and> tk_abs (tk_k t) (mset (th_elems (tk_heap t))) (map_of (tk_counts t)) tot
     \<and> finite {key. tot key \<noteq> 0} \<and> (\<forall>key. 0 \<le> tot key)
     \<and> (card {key. tot key \<noteq> 0} \<le> tk_cap t \<longrightarrow> (\<forall>key. count_of (tk_counts t) key = tot key))"

lemma find_item_Some: "find_item key h j = Some i \<Longrightarrow> j \<le> i \<and> i - j < length h \<and> ti_key (h ! (i - j)) = key"
proof (induction h arbitrary: j)
  case (Cons a h)
  show ?case
  proof (cases "ti_key a = key")
    case False
    with Cons have "Suc j \<le> i \<and> i - Suc j < length h \<and> ti_key (h ! (i - Suc j)) = key" by simp
    then show ?thesis by (simp add: nth_Cons split: nat.split) (metis Suc_diff_Suc Suc_le_lessD diff_Suc_Suc nat.inject)
  qed (use Cons in simp)
qed simp

lemma find_item_None: "find_item key h j = None \<longleftrightarrow> key \<notin> ti_key ` set h"
  by (induction h arbitrary: j) auto

lemma keys_th_elems: "fst ` set (th_elems h) = ti_key ` set h"
  by (force simp: th_elems_def)

lemma th_Pop_locale:
  "snd (heap_Pop th_Len th_Less th_Swap th_Pop h)
    = snd (heap_Pop th_Len th_Less th_Swap (\<lambda>h. case th_Pop h of (it, h') \<Rightarrow> ((ti_key it, ti_count it), h')) h)"
  by (simp add: heap_Pop_def Let_def split_beta)

lemma count_of_le: "tk_abs k M (map_of counts) tot \<Longrightarrow> 0 \<le> tot key \<Longrightarrow> 0 \<le> count_of counts key \<and> count_of counts key \<le> tot key"
  unfolding tk_abs_def count_of_def by (auto split: option.split) (meson less_imp_le)+

lemma distinct_update_key: "distinct (map fst xs) \<Longrightarrow> distinct (map fst (AList.update k v xs))"
  by (rule distinct_update)

lemma length_alist: "distinct (map fst xs) \<Longrightarrow> length xs = card (dom (map_of xs))"
  by (metis distinct_card dom_map_of_conv_image_fst length_map set_map)

text \<open>The new count does not wrap while the true totals fit in 64 bits.\<close>

lemma new_count:
  assumes "tk_inv tot t" and "0 < n" and "tot key + n \<le> MaxInt64"
  defines "c \<equiv> wrap64 (count_of (tk_counts t) key + n)"
  shows "c = count_of (tk_counts t) key + n \<and> 0 < c \<and> c \<le> tot key + n"
proof -
  have "0 \<le> count_of (tk_counts t) key \<and> count_of (tk_counts t) key \<le> tot key"
    using assms(1) by (intro count_of_le [of "tk_k t" "mset (th_elems (tk_heap t))"]) (simp_all add: tk_inv_def)
  then have "in_i64 (count_of (tk_counts t) key + n)" using assms(2,3) by (simp add: i64_defs)
  then show ?thesis using \<open>0 \<le> _ \<and> _\<close> assms(2) by (simp add: c_def)
qed

text \<open>While all keys fit, the map knows all of them.\<close>

lemma exact_step:
  assumes inv: "tk_inv tot t" and n: "0 < n" and small: "card {u. (tot(key := tot key + n)) u \<noteq> 0} \<le> tk_cap t"
    and c: "c = count_of (tk_counts t) key + n"
  shows "length (AList.update key c (tk_counts t)) \<le> tk_cap t
    \<and> (\<forall>u. count_of (AList.update key c (tk_counts t)) u = (tot(key := tot key + n)) u)"
proof -
  have pos: "0 \<le> tot u" for u using inv by (simp add: tk_inv_def)
  have supp: "{u. (tot(key := tot key + n)) u \<noteq> 0} = insert key {u. tot u \<noteq> 0}" using n pos [of key] by auto
  have fin: "finite {u. tot u \<noteq> 0}" using inv by (simp add: tk_inv_def)
  have "card {u. tot u \<noteq> 0} \<le> card (insert key {u. tot u \<noteq> 0})" using fin by (intro card_mono) auto
  then have "card {u. tot u \<noteq> 0} \<le> tk_cap t" using small unfolding supp by linarith
  then have ex: "count_of (tk_counts t) u = tot u" for u using inv by (simp add: tk_inv_def)
  have "dom (map_of (tk_counts t)) \<subseteq> {u. tot u \<noteq> 0}"
  proof
    fix u assume "u \<in> dom (map_of (tk_counts t))"
    then obtain v where "map_of (tk_counts t) u = Some v" by blast
    moreover from this have "0 < v" using inv by (simp add: tk_inv_def tk_abs_def)
    ultimately show "u \<in> {u. tot u \<noteq> 0}" using ex [of u] by (simp add: count_of_def)
  qed
  then have "dom (map_of (AList.update key c (tk_counts t))) \<subseteq> insert key {u. tot u \<noteq> 0}"
    by (auto simp: update_conv' split: if_splits)
  then have "card (dom (map_of (AList.update key c (tk_counts t)))) \<le> tk_cap t"
    using small fin unfolding supp by (meson card_mono finite_insert le_trans)
  moreover have "distinct (map fst (AList.update key c (tk_counts t)))"
    using inv by (simp add: tk_inv_def distinct_update)
  ultimately show ?thesis
    using ex [of key] ex by (simp add: length_alist) (simp add: count_of_def update_conv' c)
qed

lemma tk_invI:
  assumes "tk_inv tot t" and "0 < n" and "tk_k t' = tk_k t" and "tk_cap t' = tk_cap t" and "heap_ok_items (tk_heap t')"
    and "distinct (map fst (tk_counts t'))" and "length (tk_counts t') \<le> tk_cap t"
    and "tk_abs (tk_k t) (mset (th_elems (tk_heap t'))) (map_of (tk_counts t')) (tot(key := tot key + n))"
    and "card {u. (tot(key := tot key + n)) u \<noteq> 0} \<le> tk_cap t \<Longrightarrow>
      \<forall>u. count_of (tk_counts t') u = (tot(key := tot key + n)) u"
  shows "tk_inv (tot(key := tot key + n)) t'"
proof -
  have "0 \<le> tot key" "finite {u. tot u \<noteq> 0}" using assms(1) by (simp_all add: tk_inv_def)
  moreover have "{u. (tot(key := tot key + n)) u \<noteq> 0} \<subseteq> insert key {u. tot u \<noteq> 0}" by auto
  ultimately have "finite {u. (tot(key := tot key + n)) u \<noteq> 0}" by (meson finite_insert finite_subset)
  then show ?thesis using assms \<open>0 \<le> tot key\<close> by (simp add: tk_inv_def)
qed

lemma TouchN_hit:
  assumes inv: "tk_inv tot t" and n: "0 < n" and fits: "tot key + n \<le> MaxInt64"
    and i: "find_item key (tk_heap t) 0 = Some i"
  shows "tk_inv (tot(key := tot key + n)) (TouchN key n t)"
proof -
  let ?h = "tk_heap t" and ?c = "wrap64 (count_of (tk_counts t) key + n)"
  let ?g = "?h[i := (?h ! i)\<lparr>ti_count := ?c\<rparr>]"
  note c = new_count [OF inv n fits]
  have il: "i < length ?h" "ti_key (?h ! i) = key" using find_item_Some [OF i] by simp_all
  have ok: "th_wf ?h" "is_heap snd (th_elems ?h) (length ?h)" and abs: "tk_abs (tk_k t) (mset (th_elems ?h)) (map_of (tk_counts t)) tot"
    and d: "distinct (map fst (tk_counts t))"
    using inv by (simp_all add: tk_inv_def heap_ok_items_def)
  have el: "th_elems ?g = (th_elems ?h)[i := (key, ?c)]"
    using il by (simp add: th_elems_def map_update)
  have "th_wf ?g" using ok(1) il by (auto simp: th_wf_def nth_list_update)
  moreover have "hole snd (th_elems ?g) (length (th_elems ?g)) i"
    using is_heap_hole_update [OF ok(2)] by (simp add: el)
  ultimately have fx: "heap_ok_items (heap_Fix th_Len th_Less th_Swap i ?g)"
    "mset (th_elems (heap_Fix th_Len th_Less th_Swap i ?g)) = mset ((th_elems ?h)[i := (key, ?c)])"
    using thh.Fix_ok [of ?g i] il by (simp_all add: el heap_ok_items)
  have old: "th_elems ?h ! i = (key, ti_count (?h ! i))" using il by (simp add: th_elems_def)
  let ?N = "mset (th_elems ?h) - {#(key, ti_count (?h ! i))#}"
  have mem: "(key, ti_count (?h ! i)) \<in># mset (th_elems ?h)" using old il(1) by (metis length_th_elems nth_mem set_mset_mset)
  have map: "map_of (tk_counts t) key = Some (ti_count (?h ! i))" using mem abs by (force simp: tk_abs_def)
  have M: "mset (th_elems ?h) = add_mset (key, ti_count (?h ! i)) ?N" using mem by simp
  have "tk_abs (tk_k t) (add_mset (key, ?c) ?N) ((map_of (tk_counts t))(key \<mapsto> ?c)) (tot(key := tot key + n))"
    using abs c n map by (intro tk_abs_bump [of _ _ "ti_count (?h ! i)"]) (simp_all add: M [symmetric] count_of_def)
  moreover have "length (AList.update key ?c (tk_counts t)) = length (tk_counts t)"
    using map by (subst length_alist, simp add: d distinct_update)+ (simp add: update_conv' insert_absorb domIff)
  moreover have "TouchN key n t = t\<lparr>tk_counts := AList.update key ?c (tk_counts t), tk_heap := heap_Fix th_Len th_Less th_Swap i ?g\<rparr>"
    using n i il ok(1) by (simp add: TouchN_def Let_def th_wf_def)
  ultimately show ?thesis
    using inv fx il n d exact_step [OF inv n _ conjunct1 [OF c]]
    by (intro tk_invI [OF inv n]) (simp_all add: update_conv' distinct_update mset_update old tk_inv_def)
qed

lemma TouchN_miss:
  assumes inv: "tk_inv tot t" and n: "0 < n" and fits: "tot key + n \<le> MaxInt64"
    and none: "find_item key (tk_heap t) 0 = None"
  shows "tk_inv (tot(key := tot key + n)) (TouchN key n t)"
proof -
  let ?h = "tk_heap t" and ?c = "wrap64 (count_of (tk_counts t) key + n)"
  let ?it = "\<lparr>ti_key = key, ti_count = ?c, ti_index = 0\<rparr>"
  let ?M = "mset (th_elems ?h)" and ?u = "AList.update key ?c (tk_counts t)"
  note c = new_count [OF inv n fits]
  have ok: "thh.heap_ok ?h" and abs: "tk_abs (tk_k t) ?M (map_of (tk_counts t)) tot"
    and d: "distinct (map fst (tk_counts t))" "distinct (map fst ?u)" and cap: "tk_k t \<le> tk_cap t" "0 < tk_k t"
    using inv by (simp_all add: tk_inv_def heap_ok_items distinct_update candidateFactor_def)
  have key: "key \<notin> fst ` set_mset ?M" using none by (simp add: find_item_None keys_th_elems)
  have c': "0 < ?c" "?c \<le> tot key + n" "0 \<le> n" using c n by simp_all
  show ?thesis
  proof (cases "length ?h < tk_k t")
    case True
    have "dom (map_of (tk_counts t)) \<subseteq> fst ` set_mset ?M" using abs True by (simp add: tk_abs_def)
    then have "card (dom (map_of ?u)) \<le> card (insert key (fst ` set_mset ?M))"
      by (intro card_mono) (auto simp: update_conv')
    also have "\<dots> \<le> Suc (length ?h)" using card_keys_le [of ?M] by (simp add: card_insert_if)
    finally have len: "length ?u \<le> tk_cap t" using True cap(1) length_alist [OF d(2)] by simp
    have push: "heap_ok_items (heap_Push th_Len th_Less th_Swap th_Push ?it ?h)"
      "mset (th_elems (heap_Push th_Len th_Less th_Swap th_Push ?it ?h)) = add_mset (key, ?c) ?M"
      using thh.Push_ok [OF ok TrueI, of ?it] by (simp_all add: heap_ok_items)
    have "TouchN key n t = t\<lparr>tk_counts := ?u, tk_heap := heap_Push th_Len th_Less th_Swap th_Push ?it ?h\<rparr>"
      using n none True by (simp add: TouchN_def Let_def)
    then show ?thesis
      using exact_step [OF inv n _ conjunct1 [OF c]] push d(2) len tk_abs_admit [OF abs _ key c'] True
      by (intro tk_invI [OF inv n]) (simp_all add: update_conv')
  next
    case False
    then have full: "size ?M = tk_k t" using abs by (simp add: tk_abs_def)
    have ne: "th_elems ?h \<noteq> []" using full cap(2) by (auto simp: th_elems_def)
    let ?x = "th_elems ?h ! 0"
    have x: "snd ?x = ti_count (?h ! 0)" using ne by (simp add: th_elems_def)
    have least: "snd ?x \<le> snd y" if "y \<in># ?M" for y using thh.heap_ok_root [OF ok, of y] that by simp
    let ?pop = "snd (heap_Pop th_Len th_Less th_Swap th_Pop ?h)"
    let ?new = "if ti_count (?h ! 0) < ?c then heap_Push th_Len th_Less th_Swap th_Push ?it ?pop else ?h"
    have new: "heap_ok_items ?new \<and> size (mset (th_elems ?new)) = tk_k t
        \<and> tk_abs (tk_k t) (mset (th_elems ?new)) ((map_of (tk_counts t))(key \<mapsto> ?c)) (tot(key := tot key + n))"
    proof (cases "ti_count (?h ! 0) < ?c")
      case True
      have pop: "thh.heap_ok ?pop" "?M = add_mset ?x (mset (th_elems ?pop))"
        using thh.Pop_ok [OF ok ne surjective_pairing] unfolding th_Pop_locale by simp_all
      have "heap_ok_items (heap_Push th_Len th_Less th_Swap th_Push ?it ?pop)"
        "mset (th_elems (heap_Push th_Len th_Less th_Swap th_Push ?it ?pop)) = add_mset (key, ?c) (mset (th_elems ?pop))"
        using thh.Push_ok [OF pop(1) TrueI, of ?it] by (simp_all add: heap_ok_items)
      moreover have "tk_abs (tk_k t) (add_mset (key, ?c) (mset (th_elems ?pop))) ((map_of (tk_counts t))(key \<mapsto> ?c)) (tot(key := tot key + n))"
      proof (rule tk_abs_promote [OF abs [unfolded pop(2)] full [unfolded pop(2)] key [unfolded pop(2)] _ _ c'])
        show "snd ?x \<le> snd y" if "y \<in># mset (th_elems ?pop)" for y
          by (rule least) (simp only: pop(2), use that in simp)
        show "snd ?x < ?c" using True x by simp
      qed
      moreover have "size (add_mset (key, ?c) (mset (th_elems ?pop))) = tk_k t"
        using full arg_cong [OF pop(2), of size] by simp
      ultimately show ?thesis using True by simp
    next
      case False
      have "tk_abs (tk_k t) ?M ((map_of (tk_counts t))(key \<mapsto> ?c)) (tot(key := tot key + n))"
      proof (rule tk_abs_candidate [OF abs full key _ c'])
        show "?c \<le> snd y" if "y \<in># ?M" for y using least [OF that] False x by simp
      qed
      with False full ok show ?thesis by (simp add: heap_ok_items)
    qed
    then obtain g where g: "g = ?new" "heap_ok_items g" "size (mset (th_elems g)) = tk_k t"
      "tk_abs (tk_k t) (mset (th_elems g)) (map_of ?u) (tot(key := tot key + n))"
      unfolding update_conv' by blast
    let ?t = "t\<lparr>tk_counts := ?u, tk_heap := g\<rparr>"
    have touch: "TouchN key n t = evictCandidates ?t"
      using n none False by (simp add: TouchN_def Let_def g(1))
    have len: "length ?u \<le> Suc (tk_cap t)"
    proof -
      have "card (dom (map_of ?u)) \<le> Suc (card (dom (map_of (tk_counts t))))"
        by (simp add: update_conv' finite_dom_map_of card_insert_if)
      then show ?thesis using inv length_alist [OF d(1)] length_alist [OF d(2)] by (simp add: tk_inv_def)
    qed
    have "length g \<le> tk_cap t" using g(3) cap(1) by simp
    then obtain counts where e: "evictCandidates ?t = ?t\<lparr>tk_counts := counts\<rparr>" "length counts \<le> tk_cap t"
      "distinct (map fst counts)" "length ?u \<le> tk_cap t \<longrightarrow> counts = ?u"
      "\<forall>u. map_of counts u = map_of ?u u \<or> map_of counts u = None \<and> u \<notin> ti_key ` set g"
      using evict_spec [of ?t] d(2) len by auto
    have "tk_abs (tk_k t) (mset (th_elems g)) (map_of counts) (tot(key := tot key + n))"
      by (rule tk_abs_evict [OF g(4,3)]) (use e(5) in \<open>simp add: keys_th_elems\<close>)
    moreover have "\<forall>u. count_of counts u = (tot(key := tot key + n)) u"
      if small: "card {u. (tot(key := tot key + n)) u \<noteq> 0} \<le> tk_cap t"
    proof -
      note ex = exact_step [OF inv n small conjunct1 [OF c]]
      then have "counts = ?u" using e(4) by blast
      with ex show ?thesis by blast
    qed
    ultimately show ?thesis
      using e(2,3) g(2) unfolding touch e(1) by (intro tk_invI [OF inv n]) simp_all
  qed
qed

subsection \<open>Properties of the stream summary\<close>

definition topk_run :: "(string \<times> int) list \<Rightarrow> tracker \<Rightarrow> tracker" where
  "topk_run ops t = fold (\<lambda>(key, n). TouchN key n) ops t"

text \<open>The true totals of a stream of \<open>TouchN\<close> calls; calls with \<open>n \<le> 0\<close> count nothing.\<close>

definition topk_total :: "(string \<times> int) list \<Rightarrow> string \<Rightarrow> int" where
  "topk_total ops key = sum_list (map (\<lambda>(k, n). if k = key \<and> 0 < n then n else 0) ops)"

definition topk_mass :: "(string \<times> int) list \<Rightarrow> int" where
  "topk_mass ops = sum_list (map (\<lambda>(k, n). max n 0) ops)"

lemma topk_total_snoc:
  "topk_total (ops @ [(key, n)]) = (if 0 < n then (topk_total ops)(key := topk_total ops key + n) else topk_total ops)"
  by (rule ext) (simp add: topk_total_def)

lemma topk_total_le_mass: "topk_total ops key \<le> topk_mass ops"
  by (induction ops) (auto simp: topk_total_def topk_mass_def)

lemma topk_New_inv: "topk_New k = Some t \<Longrightarrow> tk_inv (\<lambda>_. 0) t"
  by (auto simp: topk_New_def tk_inv_def heap_ok_items_def th_wf_def is_heap_def tk_abs_def th_elems_def
      keys_once_def count_of_def split: if_splits)

lemma TouchN_k_cap: "tk_k (TouchN key n t) = tk_k t"
proof -
  have e: "tk_k (evictCandidates t) = tk_k t" for t
    by (induction t rule: evictCandidates.induct) (subst evictCandidates.simps, auto split: option.split)
  show ?thesis by (simp add: TouchN_def Let_def e split: option.split)
qed

lemma topk_run_inv:
  assumes "topk_New k = Some t0" and "topk_mass ops \<le> MaxInt64"
  shows "tk_inv (topk_total ops) (topk_run ops t0) \<and> tk_k (topk_run ops t0) = nat k"
  using assms(2)
proof (induction ops rule: rev_induct)
  case Nil
  have "topk_total [] = (\<lambda>_. 0)" by (rule ext) (simp add: topk_total_def)
  then show ?case using topk_New_inv [OF assms(1)] assms(1) by (auto simp: topk_run_def topk_New_def split: if_splits)
next
  case (snoc x ops)
  obtain key n where x: "x = (key, n)" by (cases x)
  have "topk_mass ops + max n 0 \<le> MaxInt64" using snoc.prems by (simp add: topk_mass_def x)
  then have IH: "tk_inv (topk_total ops) (topk_run ops t0)" "tk_k (topk_run ops t0) = nat k"
    and fits: "topk_total ops key + max n 0 \<le> MaxInt64"
    using snoc.IH topk_total_le_mass [of ops key] by simp_all
  have run: "topk_run (ops @ [(key, n)]) t0 = TouchN key n (topk_run ops t0)" by (simp add: topk_run_def)
  show ?case
  proof (cases "0 < n")
    case True
    then have "tk_inv ((topk_total ops)(key := topk_total ops key + n)) (TouchN key n (topk_run ops t0))"
      using fits TouchN_hit [OF IH(1) True] TouchN_miss [OF IH(1) True]
      by (cases "find_item key (tk_heap (topk_run ops t0)) 0") simp_all
    then show ?thesis using True IH(2) unfolding x run topk_total_snoc by (simp add: TouchN_k_cap fun_upd_def)
  next
    case False
    then show ?thesis using IH unfolding x run topk_total_snoc by (simp add: TouchN_def)
  qed
qed

lemma topk_Top_elems:
  assumes "is_sort (\<lambda>e. - snd e) srt"
  shows "mset (topk_Top srt t) = mset (th_elems (tk_heap t))" "set (topk_Top srt t) = set (th_elems (tk_heap t))"
    "length (topk_Top srt t) = length (tk_heap t)" "sorted (map (\<lambda>e. - snd e) (topk_Top srt t))"
  using is_sortD [OF assms, of "th_elems (tk_heap t)"] by (simp_all add: topk_Top_def th_elems_def)

lemma tk_inv_Count:
  assumes "tk_inv tot t"
  shows "x \<in> set (th_elems (tk_heap t)) \<Longrightarrow> topk_Count (fst x) t = snd x \<and> 0 < snd x"
    and "topk_Count key t \<le> tot key"
    and "key \<notin> fst ` set (th_elems (tk_heap t)) \<Longrightarrow> x \<in> set (th_elems (tk_heap t)) \<Longrightarrow> topk_Count key t \<le> snd x"
proof -
  have abs: "tk_abs (tk_k t) (mset (th_elems (tk_heap t))) (map_of (tk_counts t)) tot" and pos: "0 \<le> tot key"
    using assms by (simp_all add: tk_inv_def)
  show a: "topk_Count (fst x) t = snd x \<and> 0 < snd x" if "x \<in> set (th_elems (tk_heap t))" for x
    using abs that by (auto simp: tk_abs_def topk_Count_def count_of_def)
  show "topk_Count key t \<le> tot key" using count_of_le [OF abs pos] by (simp add: topk_Count_def)
  assume "key \<notin> fst ` set (th_elems (tk_heap t))" "x \<in> set (th_elems (tk_heap t))"
  then show "topk_Count key t \<le> snd x"
    using abs a [of x] unfolding tk_abs_def topk_Count_def count_of_def
    by (cases "map_of (tk_counts t) key") (simp_all, metis prod.collapse)
qed

text \<open>
  For every stream whose total mass fits in an \<open>int64\<close>, the tracker uses bounded memory (at most
  \<open>k\<close> leaderboard entries and \<open>4k\<close> counts), never overestimates a key, lists distinct keys by
  falling count with the count that \<open>Count\<close> reports, and no tracked key outside the list beats
  an entry of it.
\<close>
lemma topk_sound:
  assumes "topk_New k = Some t0" and "topk_mass ops \<le> MaxInt64" and "is_sort (\<lambda>e. - snd e) srt"
  defines "t \<equiv> topk_run ops t0"
  shows "length (topk_Top srt t) \<le> nat k \<and> length (tk_counts t) \<le> 4 * nat k
    \<and> distinct (map fst (topk_Top srt t)) \<and> sorted (map (\<lambda>e. - snd e) (topk_Top srt t))
    \<and> (\<forall>e\<in>set (topk_Top srt t). topk_Count (fst e) t = snd e \<and> 0 < snd e)
    \<and> (\<forall>key. topk_Count key t \<le> topk_total ops key)
    \<and> (\<forall>key. \<forall>e\<in>set (topk_Top srt t). key \<notin> fst ` set (topk_Top srt t) \<longrightarrow> topk_Count key t \<le> snd e)"
proof -
  have inv: "tk_inv (topk_total ops) t" and k: "tk_k t = nat k"
    using topk_run_inv [OF assms(1,2)] by (simp_all add: t_def)
  note top = topk_Top_elems [OF assms(3), of t]
  have "length (tk_heap t) \<le> nat k" "length (tk_counts t) \<le> 4 * nat k" "keys_once (mset (th_elems (tk_heap t)))"
    using inv k by (simp_all add: tk_inv_def tk_abs_def candidateFactor_def)
  moreover from this(3) have "distinct (map fst (topk_Top srt t))"
    by (simp add: keys_once_mset [symmetric] top(1))
  ultimately show ?thesis
    using tk_inv_Count [OF inv] top by simp
qed

text \<open>
  When the stream has at most \<open>4k\<close> distinct keys nothing is ever evicted: every count is
  exact and \<open>Top\<close> is the true top-\<open>k\<close>, that is, it has \<open>min(k, distinct keys)\<close> entries with the
  true totals and no other key has a larger total than any of them.
\<close>
lemma topk_exact:
  assumes "topk_New k = Some t0" and "topk_mass ops \<le> MaxInt64" and "is_sort (\<lambda>e. - snd e) srt"
    and "card {key. topk_total ops key \<noteq> 0} \<le> 4 * nat k"
  defines "t \<equiv> topk_run ops t0"
  shows "(\<forall>key. topk_Count key t = topk_total ops key)
    \<and> length (topk_Top srt t) = min (nat k) (card {key. topk_total ops key \<noteq> 0})
    \<and> (\<forall>e\<in>set (topk_Top srt t). snd e = topk_total ops (fst e))
    \<and> (\<forall>key. \<forall>e\<in>set (topk_Top srt t). key \<notin> fst ` set (topk_Top srt t) \<longrightarrow> topk_total ops key \<le> topk_total ops (fst e))"
proof -
  have inv: "tk_inv (topk_total ops) t" and k: "tk_k t = nat k"
    using topk_run_inv [OF assms(1,2)] by (simp_all add: t_def)
  note top = topk_Top_elems [OF assms(3), of t]
  let ?S = "{key. topk_total ops key \<noteq> 0}" and ?E = "th_elems (tk_heap t)"
  have abs: "tk_abs (nat k) (mset ?E) (map_of (tk_counts t)) (topk_total ops)" and fin: "finite ?S"
    using inv k by (simp_all add: tk_inv_def)
  have exact: "topk_Count key t = topk_total ops key" for key
    using inv k assms(4) by (simp add: tk_inv_def candidateFactor_def topk_Count_def)
  have dom: "dom (map_of (tk_counts t)) = ?S"
  proof (rule set_eqI)
    fix key
    have "v \<noteq> 0" if "map_of (tk_counts t) key = Some v" for v using abs that by (auto simp: tk_abs_def)
    then show "key \<in> dom (map_of (tk_counts t)) \<longleftrightarrow> key \<in> ?S"
      using exact [of key] by (auto simp: topk_Count_def count_of_def split: option.splits)
  qed
  have sub: "fst ` set ?E \<subseteq> ?S" using abs unfolding dom [symmetric] by (force simp: tk_abs_def)
  have card: "card (fst ` set ?E) = length (tk_heap t)" using abs by (simp add: tk_abs_def keys_once_def)
  have "length (tk_heap t) = min (nat k) (card ?S)"
  proof (cases "length (tk_heap t) < nat k")
    case True
    then have "?S \<subseteq> fst ` set ?E" using abs by (simp add: tk_abs_def dom)
    then have "card ?S = length (tk_heap t)" using sub card by (metis subset_antisym)
    then show ?thesis using True by simp
  next
    case False
    then show ?thesis using abs card card_mono [OF fin sub] by (simp add: tk_abs_def)
  qed
  then show ?thesis using tk_inv_Count [OF inv] exact top by simp
qed

end
