(* ===== verification/Interval.thy ===== *)
theory Interval
  imports Prelude
begin

section \<open>Package interval: half-open intervals\<close>

text \<open>
  \<open>src/interval/interval.go\<close> over an arbitrary linear order (Go's \<open>cmp.Ordered\<close>, less the NaNs).
  An interval stands for the set of its points; the operations are compared with the set operations.
\<close>

datatype interval_error = ErrInverted

record 'a interval =
  iv_Start :: 'a
  iv_End :: 'a

definition iv_New :: "'a::linorder \<Rightarrow> 'a \<Rightarrow> interval_error + 'a interval" where
  "iv_New s e = (if e \<le> s then Inl ErrInverted else Inr \<lparr>iv_Start = s, iv_End = e\<rparr>)"

text \<open>\<open>MustNew\<close> panics with the error \<open>New\<close> returns.\<close>

definition iv_MustNew :: "'a::linorder \<Rightarrow> 'a \<Rightarrow> interval_error + 'a interval" where
  "iv_MustNew s e = (if e \<le> s then Inl ErrInverted else Inr \<lparr>iv_Start = s, iv_End = e\<rparr>)"

definition iv_Contains :: "'a::linorder interval \<Rightarrow> 'a \<Rightarrow> bool" where
  "iv_Contains i v \<longleftrightarrow> iv_Start i \<le> v \<and> v < iv_End i"

definition iv_ContainsInclusive :: "'a::linorder interval \<Rightarrow> 'a \<Rightarrow> bool" where
  "iv_ContainsInclusive i v \<longleftrightarrow> iv_Start i \<le> v \<and> v \<le> iv_End i"

definition iv_Overlaps :: "'a::linorder interval \<Rightarrow> 'a interval \<Rightarrow> bool" where
  "iv_Overlaps i other \<longleftrightarrow> iv_Start i < iv_End other \<and> iv_Start other < iv_End i"

definition iv_IsBefore :: "'a::linorder interval \<Rightarrow> 'a interval \<Rightarrow> bool" where
  "iv_IsBefore i other \<longleftrightarrow> iv_End i \<le> iv_Start other"

definition iv_IsAfter :: "'a::linorder interval \<Rightarrow> 'a interval \<Rightarrow> bool" where
  "iv_IsAfter i other \<longleftrightarrow> iv_End other \<le> iv_Start i"

definition iv_touches :: "'a::linorder interval \<Rightarrow> 'a interval \<Rightarrow> bool" where
  "iv_touches i other \<longleftrightarrow> iv_End i = iv_Start other \<or> iv_End other = iv_Start i"

definition iv_Union :: "'a::linorder interval \<Rightarrow> 'a interval \<Rightarrow> 'a interval option" where
  "iv_Union i other =
     (if \<not> iv_Overlaps i other \<and> \<not> iv_touches i other then None
      else Some \<lparr>iv_Start = min (iv_Start i) (iv_Start other), iv_End = max (iv_End i) (iv_End other)\<rparr>)"

definition iv_Intersect :: "'a::linorder interval \<Rightarrow> 'a interval \<Rightarrow> 'a interval option" where
  "iv_Intersect i other =
     (let s = max (iv_Start i) (iv_Start other); e = min (iv_End i) (iv_End other)
      in if e \<le> s then None else Some \<lparr>iv_Start = s, iv_End = e\<rparr>)"

text \<open>The loop of \<open>Merge\<close>: \<open>last\<close> points at the last element of \<open>merged\<close>.\<close>

fun merge_loop :: "'a::linorder interval list \<Rightarrow> 'a interval list \<Rightarrow> 'a interval list" where
  "merge_loop merged [] = merged"
| "merge_loop merged (cur # rest) =
     (let l = last merged in
      if iv_Start cur \<le> iv_End l then
        (if iv_End l < iv_End cur
         then merge_loop (merged[length merged - 1 := l\<lparr>iv_End := iv_End cur\<rparr>]) rest
         else merge_loop merged rest)
      else merge_loop (merged @ [cur]) rest)"

definition Merge :: "('a::linorder interval list \<Rightarrow> 'a interval list) \<Rightarrow> 'a interval list \<Rightarrow> 'a interval list" where
  "Merge srt intervals =
     (if length intervals = 0 then []
      else let sorted_ivs = srt intervals in merge_loop (take 1 sorted_ivs) (drop 1 sorted_ivs))"

subsection \<open>Intervals as sets of points\<close>

definition iv_valid :: "'a::linorder interval \<Rightarrow> bool" where
  "iv_valid i \<longleftrightarrow> iv_Start i < iv_End i"

definition points :: "'a::linorder interval \<Rightarrow> 'a set" where
  "points i = {v. iv_Contains i v}"

definition covered :: "'a::linorder interval list \<Rightarrow> 'a set" where
  "covered is = (\<Union>i\<in>set is. points i)"

lemma covered_simps [simp]:
  "covered [] = {}" "covered (i # is) = points i \<union> covered is" "covered (is @ js) = covered is \<union> covered js"
  by (auto simp: covered_def)

lemma in_points [simp]: "v \<in> points i \<longleftrightarrow> iv_Start i \<le> v \<and> v < iv_End i"
  by (simp add: points_def iv_Contains_def)

lemma points_join:
  assumes "iv_Start a \<le> iv_End b" and "iv_Start b \<le> iv_End a"
  shows "points \<lparr>iv_Start = min (iv_Start a) (iv_Start b), iv_End = max (iv_End a) (iv_End b)\<rparr> = points a \<union> points b"
proof (rule set_eqI)
  fix v
  consider "v < iv_Start a" "v < iv_Start b" | "iv_Start a \<le> v" "v < iv_Start b" | "v < iv_Start a" "iv_Start b \<le> v"
    | "iv_Start a \<le> v" "iv_Start b \<le> v" by force
  then show "v \<in> points \<lparr>iv_Start = min (iv_Start a) (iv_Start b), iv_End = max (iv_End a) (iv_End b)\<rparr>
      \<longleftrightarrow> v \<in> points a \<union> points b"
    using assms by cases (auto simp: min_le_iff_disj less_max_iff_disj)
qed

text \<open>
  On non-empty intervals the operations are the set operations on their points: \<open>Overlaps\<close>
  says whether they share a point, \<open>Intersect\<close> is their intersection and fails exactly when it is
  empty, and \<open>Union\<close>, when it succeeds, is their union; \<open>Overlaps\<close>, \<open>IsBefore\<close> and \<open>IsAfter\<close> exclude
  each other and cover all cases.
\<close>
lemma interval_set_operations:
  assumes "iv_valid a" and "iv_valid b"
  shows "(iv_Overlaps a b \<longleftrightarrow> points a \<inter> points b \<noteq> {})
    \<and> (case iv_Intersect a b of None \<Rightarrow> points a \<inter> points b = {} | Some c \<Rightarrow> iv_valid c \<and> points c = points a \<inter> points b)
    \<and> (case iv_Union a b of None \<Rightarrow> iv_End a < iv_Start b \<or> iv_End b < iv_Start a
         | Some c \<Rightarrow> iv_valid c \<and> points c = points a \<union> points b)
    \<and> (iv_Overlaps a b \<longleftrightarrow> \<not> iv_IsBefore a b \<and> \<not> iv_IsAfter a b) \<and> \<not> (iv_IsBefore a b \<and> iv_IsAfter a b)"
proof -
  let ?s = "max (iv_Start a) (iv_Start b)" and ?e = "min (iv_End a) (iv_End b)"
  have inter: "points a \<inter> points b = {v. ?s \<le> v \<and> v < ?e}" by auto
  have ov: "iv_Overlaps a b \<longleftrightarrow> ?s < ?e"
    using assms by (auto simp: iv_Overlaps_def iv_valid_def)
  have empty: "points a \<inter> points b \<noteq> {} \<longleftrightarrow> ?s < ?e"
    unfolding inter by (auto intro: exI [of _ ?s] dest: le_less_trans)
  have "case iv_Intersect a b of None \<Rightarrow> points a \<inter> points b = {} | Some c \<Rightarrow> iv_valid c \<and> points c = points a \<inter> points b"
  proof (cases "?s < ?e")
    case True
    then have "iv_Intersect a b = Some \<lparr>iv_Start = ?s, iv_End = ?e\<rparr>"
      unfolding iv_Intersect_def Let_def by (metis leD)
    moreover have "points \<lparr>iv_Start = ?s, iv_End = ?e\<rparr> = points a \<inter> points b" unfolding inter by auto
    ultimately show ?thesis using True by (simp add: iv_valid_def)
  next
    case False
    then have "iv_Intersect a b = None" unfolding iv_Intersect_def Let_def by (metis leI)
    moreover have "points a \<inter> points b = {}" using empty False by blast
    ultimately show ?thesis by simp
  qed
  moreover have "case iv_Union a b of None \<Rightarrow> iv_End a < iv_Start b \<or> iv_End b < iv_Start a
         | Some c \<Rightarrow> iv_valid c \<and> points c = points a \<union> points b"
  proof (cases "iv_Overlaps a b \<or> iv_touches a b")
    case True
    then have le: "iv_Start a \<le> iv_End b" "iv_Start b \<le> iv_End a"
      using assms by (auto simp: iv_Overlaps_def iv_touches_def iv_valid_def)
    have "points \<lparr>iv_Start = min (iv_Start a) (iv_Start b), iv_End = max (iv_End a) (iv_End b)\<rparr> = points a \<union> points b"
      by (rule points_join [OF le])
    moreover have "min (iv_Start a) (iv_Start b) < max (iv_End a) (iv_End b)"
      using assms by (simp add: iv_valid_def min_less_iff_disj less_max_iff_disj)
    ultimately show ?thesis using True by (auto simp: iv_Union_def iv_valid_def)
  next
    case False
    then show ?thesis using assms by (auto simp: iv_Union_def iv_Overlaps_def iv_touches_def iv_valid_def not_less)
  qed
  moreover have "(iv_Overlaps a b \<longleftrightarrow> \<not> iv_IsBefore a b \<and> \<not> iv_IsAfter a b) \<and> \<not> (iv_IsBefore a b \<and> iv_IsAfter a b)"
    using assms by (auto simp: iv_Overlaps_def iv_IsBefore_def iv_IsAfter_def iv_valid_def)
  ultimately show ?thesis using ov empty by blast
qed

subsection \<open>Merge\<close>

definition separated :: "'a::linorder interval list \<Rightarrow> bool" where
  "separated is \<longleftrightarrow> (\<forall>i\<in>set is. iv_valid i) \<and> sorted_wrt (\<lambda>i j. iv_End i < iv_Start j) is"

lemma separated_append_last:
  "separated (is @ [l]) \<Longrightarrow> iv_valid l' \<Longrightarrow> iv_Start l' = iv_Start l \<Longrightarrow> separated (is @ [l'])"
  by (auto simp: separated_def sorted_wrt_append)

lemma separated_snoc:
  assumes "separated (is @ [l])" and "iv_valid c" and "iv_End l < iv_Start c"
  shows "separated ((is @ [l]) @ [c])"
  using assms by (fastforce simp: separated_def sorted_wrt_append iv_valid_def)

lemma merge_loop_spec:
  assumes "separated (ms @ [l])" and "sorted (map iv_Start rest)" and "\<forall>c\<in>set rest. iv_valid c \<and> iv_Start l \<le> iv_Start c"
  shows "separated (merge_loop (ms @ [l]) rest) \<and> covered (merge_loop (ms @ [l]) rest) = covered (ms @ [l]) \<union> covered rest"
  using assms
proof (induction rest arbitrary: ms l)
  case (Cons c rest)
  have c: "iv_valid c" "iv_Start l \<le> iv_Start c" "iv_valid l" and tl: "sorted (map iv_Start rest)"
    "\<forall>d\<in>set rest. iv_valid d \<and> iv_Start c \<le> iv_Start d"
    using Cons.prems by (auto simp: separated_def)
  show ?case
  proof (cases "iv_Start c \<le> iv_End l")
    case True
    let ?l = "if iv_End l < iv_End c then l\<lparr>iv_End := iv_End c\<rparr> else l"
    have step: "merge_loop (ms @ [l]) (c # rest) = merge_loop (ms @ [?l]) rest"
      using True by (simp add: Let_def)
    have "separated (ms @ [?l])"
      by (rule separated_append_last [OF Cons.prems(1)]) (use c in \<open>auto simp add: iv_valid_def\<close>)
    moreover have "iv_Start ?l = iv_Start l" by simp
    ultimately have "separated (merge_loop (ms @ [?l]) rest)
        \<and> covered (merge_loop (ms @ [?l]) rest) = covered (ms @ [?l]) \<union> covered rest"
      using Cons.prems(3) tl by (intro Cons.IH) auto
    moreover have "points ?l = points l \<union> points c"
    proof -
      have "points \<lparr>iv_Start = min (iv_Start l) (iv_Start c), iv_End = max (iv_End l) (iv_End c)\<rparr> = points l \<union> points c"
        by (rule points_join) (use True c in \<open>auto simp: iv_valid_def\<close>)
      moreover have "points ?l = points \<lparr>iv_Start = min (iv_Start l) (iv_Start c), iv_End = max (iv_End l) (iv_End c)\<rparr>"
        using c(2) by (auto simp: points_def iv_Contains_def min_absorb1 max_def)
      ultimately show ?thesis by simp
    qed
    ultimately show ?thesis unfolding step by auto
  next
    case False
    then have step: "merge_loop (ms @ [l]) (c # rest) = merge_loop ((ms @ [l]) @ [c]) rest" by (simp add: Let_def)
    have "separated ((ms @ [l]) @ [c])" using Cons.prems(1) c(1) False by (intro separated_snoc) simp_all
    then show ?thesis using Cons.IH [of "ms @ [l]" c] tl unfolding step by auto
  qed
qed simp

lemma merge_aux:
  assumes "is_sort iv_Start srt" and "\<forall>i\<in>set is. iv_valid i"
  shows "separated (Merge srt is) \<and> covered (Merge srt is) = covered is"
proof (cases "srt is")
  case Nil
  then have "is = []" using is_sortD(4) [OF assms(1), of "is"] by simp
  then show ?thesis by (simp add: Merge_def separated_def)
next
  case (Cons l rest)
  then have ne: "is \<noteq> []" using is_sortD(4) [OF assms(1), of "is"] by auto
  have set: "set is = insert l (set rest)" using is_sortD(3) [OF assms(1), of "is"] Cons by simp
  have "sorted (map iv_Start (l # rest))" using is_sortD(2) [OF assms(1), of "is"] Cons by simp
  then have "separated (merge_loop ([] @ [l]) rest) \<and> covered (merge_loop ([] @ [l]) rest) = covered ([] @ [l]) \<union> covered rest"
    using assms(2) set by (intro merge_loop_spec) (auto simp: separated_def)
  moreover have "covered is = covered (l # rest)" by (simp add: covered_def set)
  ultimately show ?thesis using ne Cons by (simp add: Merge_def)
qed

text \<open>Separated lists are a canonical form: the covered points determine the list.\<close>

lemma separated_unique:
  "separated is \<Longrightarrow> separated js \<Longrightarrow> covered is = covered js \<Longrightarrow> is = js"
proof (induction "is" arbitrary: js)
  case Nil
  then have "js = [] \<or> (\<exists>j js'. js = j # js' \<and> iv_Start j \<in> points j)"
    by (cases js) (auto simp: separated_def iv_valid_def)
  then show ?case using Nil by auto
next
  case (Cons i "is")
  have head: "iv_Start i \<in> covered (i # is)" "\<forall>v\<in>covered (i # is). iv_Start i \<le> v" "iv_End i \<notin> covered (i # is)"
    "covered is = {v \<in> covered (i # is). iv_End i \<le> v}" if "separated (i # is)" for i :: "'a interval" and "is"
    using that by (fastforce simp: separated_def covered_def iv_valid_def)+
  obtain j js' where js: "js = j # js'" using Cons.prems head(1) [of i "is"] by (cases js) auto
  note hi = head [OF Cons.prems(1)] and hj = head [OF Cons.prems(2) [unfolded js]]
  have cov: "covered (i # is) = covered (j # js')" using Cons.prems(3) js by simp
  have s: "iv_Start i = iv_Start j" using hi(1,2) hj(1,2) cov by (metis antisym)
  have "iv_valid i" "iv_valid j" using Cons.prems js by (simp_all add: separated_def)
  then have "iv_End i = iv_End j"
    using hi(3) hj(3) cov s by (metis covered_simps(2) UnI1 in_points iv_valid_def less_imp_le linorder_neqE)
  then have "i = j" using s by simp
  moreover have "covered is = covered js'" using hi(4) hj(4) cov \<open>i = j\<close> by metis
  then have "is = js'" using Cons js by (simp add: separated_def)
  ultimately show ?case by (simp add: js)
qed

text \<open>
  \<open>Merge\<close> of non-empty intervals, whatever way the sort orders equal starts, returns non-empty
  intervals in increasing order with a gap between any two, covering exactly the points of the
  input.  The result is canonical: two inputs that cover the same points merge to the same list,
  so no shorter list of separated intervals covers them.
\<close>
lemma merge_canonical:
  assumes "is_sort iv_Start srt" and "\<forall>i\<in>set is. iv_valid i"
  shows "separated (Merge srt is) \<and> covered (Merge srt is) = covered is
    \<and> (\<forall>js. separated js \<and> covered js = covered is \<longrightarrow> js = Merge srt is)"
  using merge_aux [OF assms] separated_unique by metis

end
