(* ===== verification/Lru.thy ===== *)
theory Lru
  imports Prelude
begin

section \<open>Package lru: a least-recently-used cache with expiry\<close>

text \<open>
  \<open>src/lru/lru.go\<close>.  The cache is a doubly linked list of elements and a map from keys to
  elements; an element is identified by a number, so that the two structures can disagree and
  have to be proved consistent.  Methods run under the mutex.  The clock is an argument \<open>now\<close>;
  the zero time of \<open>expiresAt\<close> is \<open>None\<close>.  Methods return the entries they hand to \<open>onEvicted\<close>
  after the lock is released; \<open>for range c.items\<close> visits the keys in an arbitrary order, which is
  an argument \<open>order\<close>.
\<close>

record ('k, 'v) lru_entry =
  le_key :: 'k
  le_value :: 'v
  le_expiresAt :: "int option"

definition lru_expired :: "int \<Rightarrow> ('k, 'v) lru_entry \<Rightarrow> bool" where
  "lru_expired now e = (case le_expiresAt e of None \<Rightarrow> False | Some t \<Rightarrow> t < now)"

record ('k, 'v) lru =
  lru_ll :: "(nat \<times> ('k, 'v) lru_entry) list"
  lru_items :: "'k \<rightharpoonup> nat"
  lru_maxSize :: int
  lru_ttl :: int
  lru_onEvicted :: bool
  lru_next :: nat

type_synonym ('k, 'v) evicted = "('k \<times> 'v) list"

text \<open>\<open>New\<close> with the values its options leave in \<open>maxSize\<close> (default 1024), \<open>ttl\<close> and \<open>onEvicted\<close>.\<close>

definition lru_New :: "int \<Rightarrow> int \<Rightarrow> bool \<Rightarrow> ('k, 'v) lru" where
  "lru_New maxSize ttl onEvicted =
     \<lparr>lru_ll = [], lru_items = (\<lambda>_. None), lru_maxSize = maxSize, lru_ttl = ttl, lru_onEvicted = onEvicted, lru_next = 0\<rparr>"

text \<open>The three list operations the code uses, on elements.\<close>

definition MoveToFront :: "nat \<Rightarrow> (nat \<times> 'e) list \<Rightarrow> (nat \<times> 'e) list" where
  "MoveToFront el ll = filter (\<lambda>x. fst x = el) ll @ filter (\<lambda>x. fst x \<noteq> el) ll"

definition ll_Remove :: "nat \<Rightarrow> (nat \<times> 'e) list \<Rightarrow> (nat \<times> 'e) list" where
  "ll_Remove el ll = filter (\<lambda>x. fst x \<noteq> el) ll"

definition ll_Value :: "nat \<Rightarrow> (nat \<times> 'e) list \<Rightarrow> 'e" where
  "ll_Value el ll = the (map_of ll el)"

definition lru_removeElement :: "nat \<Rightarrow> ('k, 'v) lru \<Rightarrow> ('k, 'v) evicted \<Rightarrow> ('k, 'v) evicted \<times> ('k, 'v) lru" where
  "lru_removeElement el c evicted =
     (let e = ll_Value el (lru_ll c) in
      (if lru_onEvicted c then evicted @ [(le_key e, le_value e)] else evicted,
       c\<lparr>lru_ll := ll_Remove el (lru_ll c), lru_items := (lru_items c)(le_key e := None)\<rparr>))"

definition lru_evict :: "('k, 'v) lru \<Rightarrow> ('k, 'v) evicted \<Rightarrow> ('k, 'v) evicted \<times> ('k, 'v) lru" where
  "lru_evict c evicted =
     (if lru_ll c = [] then (evicted, c) else lru_removeElement (fst (last (lru_ll c))) c evicted)"

definition lru_set :: "int \<Rightarrow> 'k \<Rightarrow> 'v \<Rightarrow> int \<Rightarrow> ('k, 'v) lru \<Rightarrow> ('k, 'v) evicted \<times> ('k, 'v) lru" where
  "lru_set now key val ttl c =
     (let ex = (if 0 < ttl then Some (now + ttl) else None) in
      case lru_items c key of
        Some el \<Rightarrow>
          ([], c\<lparr>lru_ll := map (\<lambda>(i, e). (i, if i = el then e\<lparr>le_value := val, le_expiresAt := ex\<rparr> else e))
                  (MoveToFront el (lru_ll c))\<rparr>)
      | None \<Rightarrow>
          let el = lru_next c;
              c' = c\<lparr>lru_ll := (el, \<lparr>le_key = key, le_value = val, le_expiresAt = ex\<rparr>) # lru_ll c,
                     lru_items := (lru_items c)(key \<mapsto> el), lru_next := Suc el\<rparr>
          in if 0 < lru_maxSize c' \<and> lru_maxSize c' < int (length (lru_ll c')) then lru_evict c' [] else ([], c'))"

definition lru_Set :: "int \<Rightarrow> 'k \<Rightarrow> 'v \<Rightarrow> ('k, 'v) lru \<Rightarrow> ('k, 'v) evicted \<times> ('k, 'v) lru" where
  "lru_Set now key val c = lru_set now key val (lru_ttl c) c"

definition lru_SetWithTTL :: "int \<Rightarrow> 'k \<Rightarrow> 'v \<Rightarrow> int \<Rightarrow> ('k, 'v) lru \<Rightarrow> ('k, 'v) evicted \<times> ('k, 'v) lru" where
  "lru_SetWithTTL now key val ttl c = lru_set now key val ttl c"

definition lru_Get :: "int \<Rightarrow> 'k \<Rightarrow> ('k, 'v) lru \<Rightarrow> 'v option \<times> ('k, 'v) evicted \<times> ('k, 'v) lru" where
  "lru_Get now key c =
     (case lru_items c key of
        None \<Rightarrow> (None, [], c)
      | Some el \<Rightarrow>
          let e = ll_Value el (lru_ll c) in
          if lru_expired now e then (None, lru_removeElement el c [])
          else (Some (le_value e), [], c\<lparr>lru_ll := MoveToFront el (lru_ll c)\<rparr>))"

definition lru_Peek :: "int \<Rightarrow> 'k \<Rightarrow> ('k, 'v) lru \<Rightarrow> 'v option \<times> ('k, 'v) evicted \<times> ('k, 'v) lru" where
  "lru_Peek now key c =
     (case lru_items c key of
        None \<Rightarrow> (None, [], c)
      | Some el \<Rightarrow>
          let e = ll_Value el (lru_ll c) in
          if lru_expired now e then (None, lru_removeElement el c [])
          else (Some (le_value e), [], c))"

definition lru_Contains :: "int \<Rightarrow> 'k \<Rightarrow> ('k, 'v) lru \<Rightarrow> bool \<times> ('k, 'v) evicted \<times> ('k, 'v) lru" where
  "lru_Contains now key c = (case lru_Peek now key c of (r, rest) \<Rightarrow> (r \<noteq> None, rest))"

definition lru_Delete :: "'k \<Rightarrow> ('k, 'v) lru \<Rightarrow> bool \<times> ('k, 'v) evicted \<times> ('k, 'v) lru" where
  "lru_Delete key c =
     (case lru_items c key of None \<Rightarrow> (False, [], c) | Some el \<Rightarrow> (True, lru_removeElement el c []))"

fun expire_loop :: "int \<Rightarrow> 'k list \<Rightarrow> nat \<Rightarrow> ('k, 'v) evicted \<Rightarrow> ('k, 'v) lru \<Rightarrow> nat \<times> ('k, 'v) evicted \<times> ('k, 'v) lru" where
  "expire_loop now [] removed evicted c = (removed, evicted, c)"
| "expire_loop now (key # order) removed evicted c =
     (case lru_items c key of
        None \<Rightarrow> expire_loop now order removed evicted c
      | Some el \<Rightarrow>
          if lru_expired now (ll_Value el (lru_ll c))
          then (case lru_removeElement el c evicted of (evicted', c') \<Rightarrow> expire_loop now order (Suc removed) evicted' c')
          else expire_loop now order removed evicted c)"

definition lru_DeleteExpired :: "'k list \<Rightarrow> int \<Rightarrow> ('k, 'v) lru \<Rightarrow> nat \<times> ('k, 'v) evicted \<times> ('k, 'v) lru" where
  "lru_DeleteExpired order now c = expire_loop now order 0 [] c"

definition lru_Len :: "('k, 'v) lru \<Rightarrow> nat" where
  "lru_Len c = length (lru_ll c)"

definition lru_Keys :: "('k, 'v) lru \<Rightarrow> 'k list" where
  "lru_Keys c = map (le_key \<circ> snd) (lru_ll c)"

fun purge_loop :: "'k list \<Rightarrow> ('k, 'v) evicted \<Rightarrow> ('k, 'v) lru \<Rightarrow> ('k, 'v) evicted \<times> ('k, 'v) lru" where
  "purge_loop [] evicted c = (evicted, c)"
| "purge_loop (key # order) evicted c =
     (case lru_items c key of
        None \<Rightarrow> purge_loop order evicted c
      | Some el \<Rightarrow> (case lru_removeElement el c evicted of (evicted', c') \<Rightarrow> purge_loop order evicted' c'))"

definition lru_Purge :: "'k list \<Rightarrow> ('k, 'v) lru \<Rightarrow> ('k, 'v) evicted \<times> ('k, 'v) lru" where
  "lru_Purge order c = purge_loop order [] c"

text \<open>The loop of \<open>Resize\<close> removes one element per round; it stops at the latest when the list is empty.\<close>

fun resize_loop :: "nat \<Rightarrow> nat \<Rightarrow> ('k, 'v) evicted \<Rightarrow> ('k, 'v) lru \<Rightarrow> nat \<times> ('k, 'v) evicted \<times> ('k, 'v) lru" where
  "resize_loop 0 cnt evicted c = (cnt, evicted, c)"
| "resize_loop (Suc fuel) cnt evicted c =
     (if 0 < lru_maxSize c \<and> lru_maxSize c < int (length (lru_ll c))
      then (case lru_evict c evicted of (evicted', c') \<Rightarrow> resize_loop fuel (Suc cnt) evicted' c')
      else (cnt, evicted, c))"

definition lru_Resize :: "int \<Rightarrow> ('k, 'v) lru \<Rightarrow> nat \<times> ('k, 'v) evicted \<times> ('k, 'v) lru" where
  "lru_Resize n c =
     (let c = c\<lparr>lru_maxSize := n\<rparr> in
      if n \<le> 0 then (0, [], c) else resize_loop (length (lru_ll c)) 0 [] c)"

subsection \<open>Invariant and abstraction to a list of entries\<close>

definition lru_entries :: "('k, 'v) lru \<Rightarrow> ('k, 'v) lru_entry list" where
  "lru_entries c = map snd (lru_ll c)"

definition lru_wf :: "('k, 'v) lru \<Rightarrow> bool" where
  "lru_wf c \<longleftrightarrow> distinct (map fst (lru_ll c)) \<and> distinct (map le_key (lru_entries c))
     \<and> (\<forall>i\<in>fst ` set (lru_ll c). i < lru_next c)
     \<and> (\<forall>k i. lru_items c k = Some i \<longleftrightarrow> (\<exists>e. (i, e) \<in> set (lru_ll c) \<and> le_key e = k))"

definition lru_bounded :: "('k, 'v) lru \<Rightarrow> bool" where
  "lru_bounded c \<longleftrightarrow> (0 < lru_maxSize c \<longrightarrow> int (length (lru_entries c)) \<le> lru_maxSize c)"

definition find_entry :: "'k \<Rightarrow> ('k, 'v) lru_entry list \<Rightarrow> ('k, 'v) lru_entry option" where
  "find_entry k es = find (\<lambda>e. le_key e = k) es"

definition without :: "'k \<Rightarrow> ('k, 'v) lru_entry list \<Rightarrow> ('k, 'v) lru_entry list" where
  "without k es = filter (\<lambda>e. le_key e \<noteq> k) es"

lemma lru_Keys_entries: "lru_Keys c = map le_key (lru_entries c)"
  by (simp add: lru_Keys_def lru_entries_def)

lemma find_entry_Some:
  "find_entry k es = Some e \<Longrightarrow> e \<in> set es \<and> le_key e = k"
  by (auto simp: find_entry_def find_Some_iff)

lemma find_entry_None: "find_entry k es = None \<longleftrightarrow> k \<notin> le_key ` set es"
  by (auto simp: find_entry_def find_None_iff)

lemma find_entry_distinct:
  "distinct (map le_key es) \<Longrightarrow> e \<in> set es \<Longrightarrow> find_entry (le_key e) es = Some e"
  by (induction es) (auto simp: find_entry_def)

text \<open>An element found through the map is in the list, and removing it removes exactly its key.\<close>

lemma lru_items_Some:
  assumes wf: "lru_wf c" and k: "lru_items c k = Some i"
  shows "find_entry k (lru_entries c) = Some (ll_Value i (lru_ll c))"
    and "le_key (ll_Value i (lru_ll c)) = k"
    and "(i, ll_Value i (lru_ll c)) \<in> set (lru_ll c)"
    and "x \<in> set (lru_ll c) \<Longrightarrow> fst x = i \<longleftrightarrow> le_key (snd x) = k"
proof -
  obtain e where e: "(i, e) \<in> set (lru_ll c)" "le_key e = k" using wf k by (auto simp: lru_wf_def)
  have v: "ll_Value i (lru_ll c) = e" using wf e(1) by (simp add: ll_Value_def lru_wf_def)
  then show "le_key (ll_Value i (lru_ll c)) = k" "(i, ll_Value i (lru_ll c)) \<in> set (lru_ll c)" using e by simp_all
  have "e \<in> set (lru_entries c)" using e(1) by (force simp: lru_entries_def)
  then show "find_entry k (lru_entries c) = Some (ll_Value i (lru_ll c))"
    using find_entry_distinct [of "lru_entries c" e] wf e(2) v by (simp add: lru_wf_def)
  assume x: "x \<in> set (lru_ll c)"
  show "fst x = i \<longleftrightarrow> le_key (snd x) = k"
  proof
    assume "fst x = i"
    then have "snd x = e" using wf x e(1) by (metis eq_key_imp_eq_value lru_wf_def prod.collapse)
    then show "le_key (snd x) = k" using e(2) by simp
  next
    assume "le_key (snd x) = k"
    then have "lru_items c k = Some (fst x)" using wf x unfolding lru_wf_def by (metis prod.collapse)
    then show "fst x = i" using k by simp
  qed
qed

lemma lru_items_None:
  assumes "lru_wf c" shows "lru_items c k = None \<longleftrightarrow> find_entry k (lru_entries c) = None"
proof -
  have "lru_items c k = None \<longleftrightarrow> (\<forall>i. lru_items c k \<noteq> Some i)" by auto
  also have "\<dots> \<longleftrightarrow> k \<notin> le_key ` set (lru_entries c)"
  proof -
    have "k \<in> le_key ` set (lru_entries c) \<longleftrightarrow> (\<exists>i e. (i, e) \<in> set (lru_ll c) \<and> le_key e = k)"
      by (force simp: lru_entries_def image_iff)
    then show ?thesis using assms by (auto simp: lru_wf_def)
  qed
  finally show ?thesis by (simp add: find_entry_None)
qed

subsection \<open>Each operation on the list of entries\<close>

text \<open>What the cache is meant to do, on the list of entries from most to least recently used.\<close>

definition spec_expiry :: "int \<Rightarrow> int \<Rightarrow> int option" where
  "spec_expiry now ttl = (if 0 < ttl then Some (now + ttl) else None)"

definition spec_set :: "int \<Rightarrow> ('k, 'v) lru_entry \<Rightarrow> ('k, 'v) lru_entry list \<Rightarrow> ('k, 'v) lru_entry list" where
  "spec_set maxSize e es =
     (let es' = e # without (le_key e) es
      in if 0 < maxSize \<and> maxSize < int (length es') then butlast es' else es')"

lemma without_keys: "distinct (map le_key es) \<Longrightarrow> distinct (map le_key (without k es))"
  by (simp add: without_def distinct_map_filter)

lemma find_entry_without: "find_entry j (without k es) = (if j = k then None else find_entry j es)"
  by (induction es) (auto simp: find_entry_def without_def)

lemma without_id: "k \<notin> le_key ` set es \<Longrightarrow> without k es = es"
  unfolding without_def by (rule filter_True) auto

lemma remove_spec:
  assumes wf: "lru_wf c" and k: "lru_items c k = Some i"
  defines "e \<equiv> ll_Value i (lru_ll c)"
  shows "lru_wf (snd (lru_removeElement i c ev))"
    and "lru_entries (snd (lru_removeElement i c ev)) = without k (lru_entries c)"
    and "fst (lru_removeElement i c ev) = (if lru_onEvicted c then ev @ [(k, le_value e)] else ev)"
    and "lru_maxSize (snd (lru_removeElement i c ev)) = lru_maxSize c"
    and "lru_onEvicted (snd (lru_removeElement i c ev)) = lru_onEvicted c"
    and "lru_ttl (snd (lru_removeElement i c ev)) = lru_ttl c"
proof -
  note it = lru_items_Some [OF wf k]
  have ll: "ll_Remove i (lru_ll c) = filter (\<lambda>x. le_key (snd x) \<noteq> k) (lru_ll c)"
    unfolding ll_Remove_def by (rule filter_cong) (use it(4) in auto)
  show en: "lru_entries (snd (lru_removeElement i c ev)) = without k (lru_entries c)"
    by (simp add: lru_removeElement_def Let_def lru_entries_def ll without_def filter_map comp_def)
  have "(\<exists>e. (j, e) \<in> set (ll_Remove i (lru_ll c)) \<and> le_key e = k') \<longleftrightarrow>
      k' \<noteq> k \<and> (\<exists>e. (j, e) \<in> set (lru_ll c) \<and> le_key e = k')" for j k'
    by (auto simp: ll)
  then have "((lru_items c)(k := None)) k' = Some j \<longleftrightarrow> (\<exists>e. (j, e) \<in> set (ll_Remove i (lru_ll c)) \<and> le_key e = k')" for j k'
    using wf by (auto simp: lru_wf_def)
  moreover have "distinct (map fst (ll_Remove i (lru_ll c)))" "\<forall>i\<in>fst ` set (ll_Remove i (lru_ll c)). i < lru_next c"
    using wf by (auto simp: lru_wf_def ll_Remove_def distinct_map_filter)
  moreover have "distinct (map le_key (without k (lru_entries c)))" using wf by (simp add: lru_wf_def without_keys)
  ultimately show "lru_wf (snd (lru_removeElement i c ev))"
    unfolding lru_wf_def en by (simp add: lru_removeElement_def Let_def it(2))
qed (simp_all add: lru_removeElement_def Let_def e_def lru_items_Some(2) [OF wf k])

lemma evict_last:
  assumes wf: "lru_wf c" and ne: "lru_entries c \<noteq> []"
  shows "lru_wf (snd (lru_evict c ev)) \<and> lru_entries (snd (lru_evict c ev)) = butlast (lru_entries c)
    \<and> fst (lru_evict c ev) = (if lru_onEvicted c then ev @ [(le_key (last (lru_entries c)), le_value (last (lru_entries c)))] else ev)
    \<and> lru_maxSize (snd (lru_evict c ev)) = lru_maxSize c \<and> lru_onEvicted (snd (lru_evict c ev)) = lru_onEvicted c
    \<and> lru_ttl (snd (lru_evict c ev)) = lru_ttl c"
proof -
  let ?l = "last (lru_ll c)"
  have ll: "lru_ll c \<noteq> []" using ne by (simp add: lru_entries_def)
  then have mem: "?l \<in> set (lru_ll c)" by simp
  then have it: "lru_items c (le_key (snd ?l)) = Some (fst ?l)" using wf unfolding lru_wf_def by (metis prod.collapse)
  have le: "last (lru_entries c) = snd ?l" using ll by (simp add: lru_entries_def last_map)
  have split: "lru_entries c = butlast (lru_entries c) @ [snd ?l]" using ne le by (metis append_butlast_last_id)
  have v: "ll_Value (fst ?l) (lru_ll c) = snd ?l"
    using wf mem unfolding ll_Value_def lru_wf_def by (metis map_of_is_SomeI option.sel prod.collapse)
  have "distinct (map le_key (butlast (lru_entries c) @ [snd ?l]))" using wf split unfolding lru_wf_def by metis
  then have "without (le_key (snd ?l)) (butlast (lru_entries c) @ [snd ?l]) = butlast (lru_entries c)"
    using without_id [of "le_key (snd ?l)" "butlast (lru_entries c)"] by (simp add: without_def)
  then have "without (le_key (snd ?l)) (lru_entries c) = butlast (lru_entries c)" using split by metis
  moreover have "lru_evict c ev = lru_removeElement (fst ?l) c ev" using ll by (simp add: lru_evict_def)
  ultimately show ?thesis using remove_spec [OF wf it, of ev] by (simp add: v le)
qed

lemma filter_fst_unique:
  "distinct (map fst xs) \<Longrightarrow> (i, v) \<in> set xs \<Longrightarrow> filter (\<lambda>x. fst x = i) xs = [(i, v)]"
proof (induction xs)
  case (Cons x xs)
  show ?case
  proof (cases "fst x = i")
    case True
    then have "i \<notin> fst ` set xs" using Cons.prems(1) by simp
    then have "filter (\<lambda>x. fst x = i) xs = []" "x = (i, v)"
      using Cons.prems(2) by (auto simp: filter_empty_conv image_iff)
    then show ?thesis by simp
  qed (use Cons in auto)
qed simp

lemma move_front:
  assumes wf: "lru_wf c" and k: "lru_items c k = Some i"
  shows "MoveToFront i (lru_ll c) = (i, ll_Value i (lru_ll c)) # filter (\<lambda>x. le_key (snd x) \<noteq> k) (lru_ll c)"
proof -
  note it = lru_items_Some [OF wf k]
  have "filter (\<lambda>x. fst x = i) (lru_ll c) = [(i, ll_Value i (lru_ll c))]"
    using wf it(3) by (intro filter_fst_unique) (simp_all add: lru_wf_def)
  moreover have "filter (\<lambda>x. fst x \<noteq> i) (lru_ll c) = filter (\<lambda>x. le_key (snd x) \<noteq> k) (lru_ll c)"
    by (rule filter_cong) (use it(4) in auto)
  ultimately show ?thesis by (simp add: MoveToFront_def)
qed

lemma set_hit:
  assumes wf: "lru_wf c" and bd: "lru_bounded c"
    and e_def: "e = \<lparr>le_key = k, le_value = v, le_expiresAt = spec_expiry now ttl\<rparr>"
    and Some: "lru_items c k = Some i"
  shows "lru_wf (snd (lru_set now k v ttl c)) \<and> lru_bounded (snd (lru_set now k v ttl c))
    \<and> lru_entries (snd (lru_set now k v ttl c)) = spec_set (lru_maxSize c) e (lru_entries c)
    \<and> lru_maxSize (snd (lru_set now k v ttl c)) = lru_maxSize c \<and> lru_ttl (snd (lru_set now k v ttl c)) = lru_ttl c"
proof -
  note it = lru_items_Some [OF wf Some]
  let ?u = "\<lambda>(j, e). (j, if j = i then e\<lparr>le_value := v, le_expiresAt := spec_expiry now ttl\<rparr> else e)"
  let ?c = "snd (lru_set now k v ttl c)"
  have ll: "lru_ll ?c = (i, e) # filter (\<lambda>x. le_key (snd x) \<noteq> k) (lru_ll c)"
  proof -
    have "map ?u (filter (\<lambda>x. le_key (snd x) \<noteq> k) (lru_ll c)) = filter (\<lambda>x. le_key (snd x) \<noteq> k) (lru_ll c)"
      by (rule map_idI) (use it(4) in \<open>auto\<close>)
    moreover have "?u (i, ll_Value i (lru_ll c)) = (i, e)"
      using it(2) by (cases "ll_Value i (lru_ll c)") (simp add: e_def)
    ultimately show ?thesis
      unfolding lru_set_def spec_expiry_def [symmetric] Let_def by (simp add: Some move_front [OF wf Some])
  qed
  have en: "lru_entries ?c = e # without k (lru_entries c)"
    by (simp add: lru_entries_def ll without_def filter_map comp_def)
  have items: "lru_items ?c = lru_items c" "lru_next ?c = lru_next c" "lru_maxSize ?c = lru_maxSize c" "lru_ttl ?c = lru_ttl c"
    by (simp_all add: lru_set_def Some)
  have key: "le_key e = k" by (simp add: e_def)
  have d: "distinct (map le_key (e # without k (lru_entries c)))"
    using wf by (auto simp: lru_wf_def without_keys key) (auto simp: without_def)
  have "distinct (map fst (lru_ll ?c))" "\<forall>j\<in>fst ` set (lru_ll ?c). j < lru_next c"
    using wf it by (auto simp: ll lru_wf_def distinct_map_filter)
  moreover have "lru_items c k' = Some j \<longleftrightarrow> (\<exists>e'. (j, e') \<in> set (lru_ll ?c) \<and> le_key e' = k')" for k' j
  proof (cases "k' = k")
    case True
    then show ?thesis using Some key by (auto simp: ll)
  next
    case False
    then have "(\<exists>e'. (j, e') \<in> set (lru_ll ?c) \<and> le_key e' = k') \<longleftrightarrow> (\<exists>e'. (j, e') \<in> set (lru_ll c) \<and> le_key e' = k')"
      using key by (auto simp: ll)
    then show ?thesis using wf by (simp add: lru_wf_def)
  qed
  ultimately have wf': "lru_wf ?c" using d by (simp add: lru_wf_def items en)
  have len: "length (e # without k (lru_entries c)) = length (lru_entries c)"
  proof -
    have "length (without k (lru_entries c)) < length (lru_entries c)"
      unfolding without_def by (rule length_filter_less) (use find_entry_Some [OF it(1)] in auto)
    moreover have "length (lru_ll ?c) = Suc (length (filter (\<lambda>x. fst x \<noteq> i) (lru_ll c)))"
      unfolding ll using it(4) by (auto intro!: arg_cong [where f = length] filter_cong)
    moreover have "length (filter (\<lambda>x. fst x = i) (lru_ll c)) = 1"
      using filter_fst_unique [of "lru_ll c" i] wf it(3) by (simp add: lru_wf_def)
    ultimately show ?thesis
      using sum_length_filter_compl [of "\<lambda>x. fst x = i" "lru_ll c"] arg_cong [OF en, of length]
      by (simp add: lru_entries_def)
  qed
  then show ?thesis using wf' bd en items by (auto simp: spec_set_def key lru_bounded_def Let_def)
qed

text \<open>The state after a new entry is linked in, before the size is checked.\<close>

definition lru_inserted :: "('k, 'v) lru_entry \<Rightarrow> ('k, 'v) lru \<Rightarrow> ('k, 'v) lru" where
  "lru_inserted e c = c\<lparr>lru_ll := (lru_next c, e) # lru_ll c,
     lru_items := (lru_items c)(le_key e \<mapsto> lru_next c), lru_next := Suc (lru_next c)\<rparr>"

lemma lru_inserted_wf:
  assumes wf: "lru_wf c" and None: "lru_items c (le_key e) = None"
  shows "lru_wf (lru_inserted e c)" and "lru_entries (lru_inserted e c) = e # lru_entries c"
proof -
  have new: "le_key e \<notin> le_key ` set (lru_entries c)" using None lru_items_None [OF wf] by (simp add: find_entry_None)
  show en: "lru_entries (lru_inserted e c) = e # lru_entries c" by (simp add: lru_entries_def lru_inserted_def)
  have lt: "i < lru_next c" if "(i, x) \<in> set (lru_ll c)" for i x using wf that by (force simp: lru_wf_def)
  have iff: "lru_items c k' = Some j \<longleftrightarrow> (\<exists>e'. (j, e') \<in> set (lru_ll c) \<and> le_key e' = k')" for k' j
    using wf by (simp add: lru_wf_def)
  have nk: "le_key e' \<noteq> le_key e" if "(j, e') \<in> set (lru_ll c)" for j e'
    using iff [of "le_key e" j] None that by auto
  have "((lru_items c)(le_key e \<mapsto> lru_next c)) k' = Some j \<longleftrightarrow>
      (\<exists>e'. (j, e') \<in> set ((lru_next c, e) # lru_ll c) \<and> le_key e' = k')" for k' j
    using iff [of k' j] nk by (cases "k' = le_key e") auto
  moreover have "lru_next c \<notin> fst ` set (lru_ll c)" using lt by force
  moreover have "\<forall>i\<in>fst ` set ((lru_next c, e) # lru_ll c). i < Suc (lru_next c)" using lt by force
  ultimately show "lru_wf (lru_inserted e c)"
    unfolding lru_wf_def en using wf new by (simp add: lru_wf_def lru_inserted_def)
qed

lemma lru_set_miss:
  assumes "lru_items c k = None" and "e = \<lparr>le_key = k, le_value = v, le_expiresAt = spec_expiry now ttl\<rparr>"
  shows "lru_set now k v ttl c =
    (if 0 < lru_maxSize c \<and> lru_maxSize c < int (Suc (length (lru_entries c)))
     then lru_evict (lru_inserted e c) [] else ([], lru_inserted e c))"
  by (simp add: lru_set_def assms Let_def spec_expiry_def lru_inserted_def lru_entries_def)

lemma set_miss:
  assumes wf: "lru_wf c" and bd: "lru_bounded c"
    and e_def: "e = \<lparr>le_key = k, le_value = v, le_expiresAt = spec_expiry now ttl\<rparr>"
    and None: "lru_items c k = None"
  shows "lru_wf (snd (lru_set now k v ttl c)) \<and> lru_bounded (snd (lru_set now k v ttl c))
    \<and> lru_entries (snd (lru_set now k v ttl c)) = spec_set (lru_maxSize c) e (lru_entries c)
    \<and> lru_maxSize (snd (lru_set now k v ttl c)) = lru_maxSize c \<and> lru_ttl (snd (lru_set now k v ttl c)) = lru_ttl c"
proof -
  have key: "le_key e = k" by (simp add: e_def)
  then have ni: "lru_items c (le_key e) = None" using None by simp
  note ins = lru_inserted_wf [OF wf ni]
  have cfg: "lru_maxSize (lru_inserted e c) = lru_maxSize c" "lru_ttl (lru_inserted e c) = lru_ttl c"
    by (simp_all add: lru_inserted_def)
  have "without k (lru_entries c) = lru_entries c"
    using None lru_items_None [OF wf] by (intro without_id) (simp add: find_entry_None)
  then have sp: "spec_set (lru_maxSize c) e (lru_entries c) =
      (if 0 < lru_maxSize c \<and> lru_maxSize c < int (Suc (length (lru_entries c)))
       then butlast (e # lru_entries c) else e # lru_entries c)"
    by (simp add: spec_set_def Let_def key)
  show ?thesis
    using evict_last [OF ins(1), of "[]"] ins bd cfg unfolding sp lru_set_miss [OF None e_def]
    by (auto simp: lru_bounded_def)
qed

lemma set_spec:
  assumes wf: "lru_wf c" and bd: "lru_bounded c"
    and e_def: "e = \<lparr>le_key = k, le_value = v, le_expiresAt = spec_expiry now ttl\<rparr>"
  shows "lru_wf (snd (lru_set now k v ttl c)) \<and> lru_bounded (snd (lru_set now k v ttl c))
    \<and> lru_entries (snd (lru_set now k v ttl c)) = spec_set (lru_maxSize c) e (lru_entries c)
    \<and> lru_maxSize (snd (lru_set now k v ttl c)) = lru_maxSize c \<and> lru_ttl (snd (lru_set now k v ttl c)) = lru_ttl c"
  using set_hit [OF wf bd e_def] set_miss [OF wf bd e_def] by (cases "lru_items c k") blast+

lemma touch_spec:
  assumes wf: "lru_wf c" and k: "lru_items c k = Some i"
  defines "c' \<equiv> c\<lparr>lru_ll := MoveToFront i (lru_ll c)\<rparr>"
  shows "lru_wf c' \<and> lru_entries c' = ll_Value i (lru_ll c) # without k (lru_entries c) \<and> length (lru_entries c') = length (lru_entries c)"
proof -
  note it = lru_items_Some [OF wf k]
  have perm: "mset (MoveToFront i (lru_ll c)) = mset (lru_ll c)"
    by (simp add: MoveToFront_def)
  then have st: "set (MoveToFront i (lru_ll c)) = set (lru_ll c)" by (rule mset_eq_setD)
  have "distinct (map fst (MoveToFront i (lru_ll c)))"
    "distinct (map (le_key \<circ> snd) (MoveToFront i (lru_ll c)))"
    using perm wf unfolding lru_wf_def lru_entries_def map_map by (metis mset_eq_imp_distinct_iff mset_map)+
  then have "lru_wf c'" using wf by (simp add: c'_def lru_wf_def st lru_entries_def)
  moreover have "lru_entries c' = ll_Value i (lru_ll c) # without k (lru_entries c)"
    by (simp add: c'_def lru_entries_def move_front [OF wf k] without_def filter_map comp_def)
  moreover have "length (lru_entries c') = length (lru_entries c)"
    using mset_eq_length [OF perm] by (simp add: c'_def lru_entries_def)
  ultimately show ?thesis by blast
qed

definition live :: "int \<Rightarrow> ('k, 'v) lru_entry option \<Rightarrow> 'v option" where
  "live now r = (case r of None \<Rightarrow> None | Some e \<Rightarrow> if lru_expired now e then None else Some (le_value e))"

definition spec_get :: "int \<Rightarrow> 'k \<Rightarrow> ('k, 'v) lru_entry list \<Rightarrow> ('k, 'v) lru_entry list" where
  "spec_get now k es = (case find_entry k es of None \<Rightarrow> es
     | Some e \<Rightarrow> if lru_expired now e then without k es else e # without k es)"

definition spec_peek :: "int \<Rightarrow> 'k \<Rightarrow> ('k, 'v) lru_entry list \<Rightarrow> ('k, 'v) lru_entry list" where
  "spec_peek now k es = (if live now (find_entry k es) = None then without k es else es)"

lemma without_length: "length (without k es) \<le> length es"
  by (simp add: without_def)

text \<open>The part of the state no operation but \<open>Resize\<close> changes.\<close>

definition same_config :: "('k, 'v) lru \<Rightarrow> ('k, 'v) lru \<Rightarrow> bool" where
  "same_config c c' \<longleftrightarrow> lru_maxSize c' = lru_maxSize c \<and> lru_ttl c' = lru_ttl c \<and> lru_onEvicted c' = lru_onEvicted c"

lemma get_spec:
  assumes wf: "lru_wf c" and bd: "lru_bounded c" and g: "lru_Get now k c = (r, ev, c')"
  shows "lru_wf c' \<and> lru_bounded c' \<and> r = live now (find_entry k (lru_entries c)) \<and> lru_entries c' = spec_get now k (lru_entries c)
    \<and> same_config c c'"
proof (cases "lru_items c k")
  case None
  then show ?thesis using g wf bd lru_items_None [OF wf, of k]
    by (simp add: lru_Get_def live_def spec_get_def same_config_def)
next
  case (Some i)
  note it = lru_items_Some [OF wf Some] and rm = remove_spec [OF wf Some, of "[]"] and tc = touch_spec [OF wf Some]
  show ?thesis
  proof (cases "lru_expired now (ll_Value i (lru_ll c))")
    case True
    then have "r = None" "c' = snd (lru_removeElement i c [])"
      using g Some by (auto simp: lru_Get_def Let_def)
    then show ?thesis using rm it(1) True bd without_length [of k "lru_entries c"]
      by (auto simp: live_def spec_get_def lru_bounded_def same_config_def)
  next
    case False
    then have "r = Some (le_value (ll_Value i (lru_ll c)))" "c' = c\<lparr>lru_ll := MoveToFront i (lru_ll c)\<rparr>"
      using g Some by (auto simp: lru_Get_def Let_def)
    then show ?thesis using tc it(1) False bd
      by (auto simp: live_def spec_get_def lru_bounded_def same_config_def)
  qed
qed

lemma peek_spec:
  assumes wf: "lru_wf c" and bd: "lru_bounded c" and g: "lru_Peek now k c = (r, ev, c')"
  shows "lru_wf c' \<and> lru_bounded c' \<and> r = live now (find_entry k (lru_entries c)) \<and> lru_entries c' = spec_peek now k (lru_entries c)
    \<and> same_config c c'"
proof (cases "lru_items c k")
  case None
  then have n: "find_entry k (lru_entries c) = None" using lru_items_None [OF wf] by simp
  then show ?thesis using None g wf bd without_id [of k "lru_entries c"]
    by (simp add: lru_Peek_def live_def spec_peek_def same_config_def find_entry_None [symmetric])
next
  case (Some i)
  note it = lru_items_Some [OF wf Some] and rm = remove_spec [OF wf Some, of "[]"]
  show ?thesis
    using g Some rm it(1) wf bd without_length [of k "lru_entries c"]
    by (auto simp: lru_Peek_def live_def spec_peek_def lru_bounded_def same_config_def Let_def split: if_splits)
qed

lemma delete_spec:
  assumes wf: "lru_wf c" and bd: "lru_bounded c" and g: "lru_Delete k c = (r, ev, c')"
  shows "lru_wf c' \<and> lru_bounded c' \<and> r = (find_entry k (lru_entries c) \<noteq> None) \<and> lru_entries c' = without k (lru_entries c)
    \<and> same_config c c'"
proof (cases "lru_items c k")
  case None
  then have n: "find_entry k (lru_entries c) = None" using lru_items_None [OF wf] by simp
  then show ?thesis using None g wf bd without_id [of k "lru_entries c"]
    by (simp add: lru_Delete_def same_config_def find_entry_None [symmetric])
next
  case (Some i)
  note it = lru_items_Some [OF wf Some] and rm = remove_spec [OF wf Some, of "[]"]
  have "r" "c' = snd (lru_removeElement i c [])" using g Some by (auto simp: lru_Delete_def)
  then show ?thesis using rm it(1) bd without_length [of k "lru_entries c"]
    by (auto simp: lru_bounded_def same_config_def)
qed

text \<open>The sweeping loops, for any order of the keys.\<close>

lemma find_live_without: "live now (find_entry j (without k es)) = (if j = k then None else live now (find_entry j es))"
  by (simp add: find_entry_without live_def)

lemma expire_loop_spec:
  assumes "lru_wf c"
  shows "let (n, ev', c') = expire_loop now order n0 ev c in
    lru_wf c' \<and> same_config c c' \<and> lru_entries c' = filter (\<lambda>e. \<not> (lru_expired now e \<and> le_key e \<in> set order)) (lru_entries c)
    \<and> n + length (lru_entries c') = n0 + length (lru_entries c)
    \<and> (lru_onEvicted c \<longrightarrow> length ev' + n0 = length ev + n)"
  using assms
proof (induction order arbitrary: n0 ev c)
  case Nil
  then show ?case by (simp add: same_config_def)
next
  case (Cons k order)
  show ?case
  proof (cases "lru_items c k")
    case None
    then have "k \<notin> le_key ` set (lru_entries c)" using lru_items_None [OF Cons.prems] by (simp add: find_entry_None)
    then have "filter (\<lambda>e. \<not> (lru_expired now e \<and> le_key e \<in> set (k # order))) (lru_entries c)
        = filter (\<lambda>e. \<not> (lru_expired now e \<and> le_key e \<in> set order)) (lru_entries c)"
      by (intro filter_cong) auto
    then show ?thesis using None Cons.IH [OF Cons.prems, of n0 ev] by simp
  next
    case (Some i)
    note it = lru_items_Some [OF Cons.prems Some] and rm = remove_spec [OF Cons.prems Some, of ev]
    note mem = find_entry_Some [OF it(1)]
    show ?thesis
    proof (cases "lru_expired now (ll_Value i (lru_ll c))")
      case True
      obtain ev1 c1 where r: "lru_removeElement i c ev = (ev1, c1)" by fastforce
      have c1: "lru_wf c1" "lru_entries c1 = without k (lru_entries c)" "same_config c c1"
        "lru_onEvicted c \<longrightarrow> length ev1 = Suc (length ev)"
        using rm r by (auto simp: same_config_def)
      have "length (lru_entries c) = Suc (length (without k (lru_entries c)))"
        using touch_spec [OF Cons.prems Some] by (metis length_Cons)
      moreover have "e = ll_Value i (lru_ll c)" if "e \<in> set (lru_entries c)" "le_key e = k" for e
        using find_entry_distinct [OF _ that(1)] that(2) it(1) Cons.prems by (simp add: lru_wf_def)
      then have "filter (\<lambda>e. \<not> (lru_expired now e \<and> le_key e \<in> set order)) (without k (lru_entries c))
          = filter (\<lambda>e. \<not> (lru_expired now e \<and> le_key e \<in> set (k # order))) (lru_entries c)"
        unfolding without_def filter_filter by (intro filter_cong) (use True in auto)
      ultimately show ?thesis
        using Cons.IH [OF c1(1), of "Suc n0" ev1] c1 Some True r
        by (auto simp: Let_def split_beta same_config_def)
    next
      case False
      have "e = ll_Value i (lru_ll c)" if "e \<in> set (lru_entries c)" "le_key e = k" for e
        using find_entry_distinct [OF _ that(1)] that(2) it(1) Cons.prems by (simp add: lru_wf_def)
      then have "filter (\<lambda>e. \<not> (lru_expired now e \<and> le_key e \<in> set (k # order))) (lru_entries c)
          = filter (\<lambda>e. \<not> (lru_expired now e \<and> le_key e \<in> set order)) (lru_entries c)"
        by (intro filter_cong) (use False in auto)
      then show ?thesis using Some False Cons.IH [OF Cons.prems, of n0 ev] by simp
    qed
  qed
qed

lemma resize_loop_spec:
  assumes "lru_wf c" and "0 < lru_maxSize c"
  shows "lru_wf (snd (snd (resize_loop (length (lru_entries c)) n ev c)))
    \<and> lru_entries (snd (snd (resize_loop (length (lru_entries c)) n ev c))) = take (nat (lru_maxSize c)) (lru_entries c)
    \<and> lru_maxSize (snd (snd (resize_loop (length (lru_entries c)) n ev c))) = lru_maxSize c
    \<and> fst (resize_loop (length (lru_entries c)) n ev c) = n + (length (lru_entries c) - nat (lru_maxSize c))"
  using assms
proof (induction "length (lru_entries c)" arbitrary: c n ev)
  case 0
  then show ?case by simp
next
  case (Suc m)
  have len: "length (lru_ll c) = length (lru_entries c)" by (simp add: lru_entries_def)
  show ?case
  proof (cases "lru_maxSize c < int (length (lru_entries c))")
    case True
    obtain ev1 c1 where e: "lru_evict c ev = (ev1, c1)" by fastforce
    have ne: "lru_entries c \<noteq> []" using Suc.hyps(2) by auto
    have c1: "lru_wf c1" "lru_entries c1 = butlast (lru_entries c)" "lru_maxSize c1 = lru_maxSize c"
      using evict_last [OF Suc.prems(1) ne, of ev] e by simp_all
    have m: "m = length (lru_entries c1)" using Suc.hyps(2) c1(2) by simp
    have step: "resize_loop (length (lru_entries c)) n ev c = resize_loop (length (lru_entries c1)) (Suc n) ev1 c1"
      using True Suc.hyps(2) Suc.prems(2) e len m by (simp flip: Suc.hyps(2))
    have "take (nat (lru_maxSize c)) (butlast (lru_entries c)) = take (nat (lru_maxSize c)) (lru_entries c)"
      by (rule take_butlast) (use True Suc.prems(2) in linarith)
    moreover have "length (lru_entries c1) = length (lru_entries c) - 1" by (simp add: c1(2))
    ultimately show ?thesis
      unfolding step using Suc.hyps(1) [OF m c1(1), of "Suc n" ev1] c1(2,3) Suc.prems(2) True by auto
  next
    case False
    then have "resize_loop (length (lru_entries c)) n ev c = (n, ev, c)"
      using len by (simp flip: Suc.hyps(2))
    then show ?thesis using False Suc.prems by simp
  qed
qed

subsection \<open>Properties of the cache\<close>

text \<open>
  C5. The linked list and the map implement a plain list of entries ordered by recency: \<open>Set\<close> puts
  the entry first, \<open>Get\<close> returns the live value and moves its entry first, \<open>Peek\<close> returns the same
  and moves nothing, an expired entry is dropped by both, and \<open>Delete\<close> removes the key; all of
  them keep list and map consistent and the size within \<open>maxSize\<close>.
\<close>

theorem lru_refines_list:
  assumes "lru_wf c" and "lru_bounded c"
    and "lru_set now k v ttl c = (ev1, c1)" and "lru_Get now k c = (r2, ev2, c2)"
    and "lru_Peek now k c = (r3, ev3, c3)" and "lru_Delete k c = (r4, ev4, c4)"
  shows "lru_entries c1 = spec_set (lru_maxSize c) \<lparr>le_key = k, le_value = v, le_expiresAt = spec_expiry now ttl\<rparr> (lru_entries c)
    \<and> r2 = live now (find_entry k (lru_entries c)) \<and> lru_entries c2 = spec_get now k (lru_entries c)
    \<and> r3 = r2 \<and> lru_entries c3 = spec_peek now k (lru_entries c)
    \<and> (r4 \<longleftrightarrow> k \<in> set (lru_Keys c)) \<and> lru_entries c4 = without k (lru_entries c)
    \<and> (\<forall>c'\<in>{c1, c2, c3, c4}. lru_wf c' \<and> lru_bounded c' \<and> lru_maxSize c' = lru_maxSize c)"
  using set_spec [OF assms(1,2) refl, of now k v ttl] get_spec [OF assms(1,2,4)] peek_spec [OF assms(1,2,5)]
    delete_spec [OF assms(1,2,6)] find_entry_None [of k "lru_entries c"]
  by (auto simp: assms(3) same_config_def lru_Keys_entries)

definition lru_example :: "(string, int) lru" where
  "lru_example = snd (lru_set 0 ''b'' 2 0 (snd (lru_set 0 ''a'' 1 0 (lru_New 2 0 True))))"

lemma lru_New_wf: "lru_wf (lru_New m t b)" "lru_bounded (lru_New m t b)" "lru_entries (lru_New m t b) = []"
  by (simp_all add: lru_wf_def lru_bounded_def lru_New_def lru_entries_def)

lemma lru_example_ok: "lru_wf lru_example" "lru_bounded lru_example" "lru_maxSize lru_example = 2"
  "lru_onEvicted lru_example" "lru_Keys lru_example = [''b'', ''a'']"
proof -
  note s1 = set_spec [OF lru_New_wf(1,2) [of 2 0 True] refl, of 0 "''a''" "1::int" 0]
  show "lru_wf lru_example" "lru_bounded lru_example"
    using set_spec [OF conjunct1 [OF s1] conjunct1 [OF conjunct2 [OF s1]] refl] by (simp_all add: lru_example_def)
  show "lru_maxSize lru_example = 2" "lru_onEvicted lru_example" "lru_Keys lru_example = [''b'', ''a'']"
    by (simp_all add: lru_example_def lru_set_def lru_New_def lru_Keys_def)
qed

theorem lru_refines_list_witness:
  "fst (lru_Peek 5 ''a'' lru_example) = fst (lru_Get 5 ''a'' lru_example)"
  using lru_refines_list [OF lru_example_ok(1,2), of 5 "''a''" 1 0 _ _ "fst (lru_Get 5 ''a'' lru_example)" _ _
      "fst (lru_Peek 5 ''a'' lru_example)"]
  by (metis prod.collapse)

text \<open>
  Storing a new key in a full cache evicts exactly the least recently used entry, the last of
  \<open>Keys\<close>, and reports it once to \<open>onEvicted\<close>; the keys that stay keep their order behind the new
  one.  Storing a key that is present, or one that fits, evicts nothing.
\<close>
lemma lru_evicts_least_recent:
  assumes "lru_wf c" and "lru_bounded c" and "lru_onEvicted c" and "lru_set now k v ttl c = (ev, c')"
  shows "if k \<notin> set (lru_Keys c) \<and> 0 < lru_maxSize c \<and> int (lru_Len c) = lru_maxSize c
    then (\<exists>e. last (lru_entries c) = e \<and> ev = [(last (lru_Keys c), le_value e)]) \<and> lru_Keys c' = k # butlast (lru_Keys c)
    else ev = [] \<and> lru_Keys c' = k # filter (\<lambda>j. j \<noteq> k) (lru_Keys c)"
proof (cases "lru_items c k")
  case (Some i)
  note it = lru_items_Some [OF assms(1) Some]
  have mem: "k \<in> set (lru_Keys c)" using find_entry_Some [OF it(1)] by (auto simp: lru_Keys_entries)
  have "ev = []" using assms(4) Some by (auto simp: lru_set_def)
  moreover have "lru_entries c' = \<lparr>le_key = k, le_value = v, le_expiresAt = spec_expiry now ttl\<rparr> # without k (lru_entries c)"
    using set_spec [OF assms(1,2) refl, of now k v ttl] assms(2,4) touch_spec [OF assms(1) Some]
    by (auto simp: spec_set_def Let_def lru_bounded_def)
  ultimately show ?thesis using mem by (simp add: lru_Keys_entries without_def filter_map comp_def)
next
  case None
  let ?e = "\<lparr>le_key = k, le_value = v, le_expiresAt = spec_expiry now ttl\<rparr>"
  let ?full = "0 < lru_maxSize c \<and> int (lru_Len c) = lru_maxSize c"
  have ni: "lru_items c (le_key ?e) = None" using None by simp
  note ins = lru_inserted_wf [OF assms(1) ni]
  have new: "k \<notin> set (lru_Keys c)"
    using None lru_items_None [OF assms(1)] by (simp add: find_entry_None lru_Keys_entries)
  have len: "lru_Len c = length (lru_entries c)" by (simp add: lru_Len_def lru_entries_def)
  have cond: "0 < lru_maxSize c \<and> lru_maxSize c < int (Suc (length (lru_entries c))) \<longleftrightarrow> ?full"
    using assms(2) by (auto simp: lru_bounded_def len)
  have set: "(ev, c') = (if ?full then lru_evict (lru_inserted ?e c) [] else ([], lru_inserted ?e c))"
    using assms(4) lru_set_miss [OF None refl] cond by simp
  have same: "filter (\<lambda>j. j \<noteq> k) (lru_Keys c) = lru_Keys c" using new by (intro filter_True) auto
  show ?thesis
  proof (cases ?full)
    case True
    then have ne: "lru_entries c \<noteq> []" using len by auto
    have "lru_onEvicted (lru_inserted ?e c)" using assms(3) by (simp add: lru_inserted_def)
    then have "ev = [(le_key (last (lru_entries c)), le_value (last (lru_entries c)))]"
      "lru_entries c' = ?e # butlast (lru_entries c)"
      using evict_last [OF ins(1), of "[]"] set True ne by (auto simp: ins(2) prod_eq_iff)
    then show ?thesis using True new ne by (auto simp: lru_Keys_entries last_map map_butlast)
  next
    case False
    then show ?thesis using set new same ins(2) by (auto simp: lru_Keys_entries)
  qed
qed

text \<open>
  \<open>DeleteExpired\<close> removes exactly the expired entries, whatever order the map is visited in,
  returns how many it removed and reports each of them once; \<open>Resize(n)\<close> for a positive \<open>n\<close> ends with
  exactly the \<open>n\<close> most recently used entries (or all, when there are fewer) and returns how many it
  evicted.
\<close>
lemma lru_sweeps:
  assumes "lru_wf c" and "lru_onEvicted c" and "set order = set (lru_Keys c)" and "0 < n"
    and "lru_DeleteExpired order now c = (removed, ev, c1)" and "lru_Resize n c = (cnt, ev2, c2)"
  shows "lru_entries c1 = filter (\<lambda>e. \<not> lru_expired now e) (lru_entries c)
    \<and> removed = length (filter (lru_expired now) (lru_entries c)) \<and> length ev = removed
    \<and> lru_entries c2 = take (nat n) (lru_entries c) \<and> cnt = lru_Len c - nat n
    \<and> lru_wf c1 \<and> lru_wf c2 \<and> lru_bounded c2"
proof -
  have keep: "filter (\<lambda>e. \<not> (lru_expired now e \<and> le_key e \<in> set order)) (lru_entries c) = filter (\<lambda>e. \<not> lru_expired now e) (lru_entries c)"
    by (intro filter_cong) (auto simp: assms(3) lru_Keys_entries)
  have d: "lru_wf c1 \<and> lru_entries c1 = filter (\<lambda>e. \<not> lru_expired now e) (lru_entries c)
      \<and> removed + length (lru_entries c1) = length (lru_entries c) \<and> length ev = removed"
    using expire_loop_spec [OF assms(1), of now order 0 "[]"] assms(2,5) keep
    by (simp add: lru_DeleteExpired_def) metis
  let ?c = "c\<lparr>lru_maxSize := n\<rparr>"
  have wf: "lru_wf ?c" "lru_entries ?c = lru_entries c" "length (lru_ll c) = length (lru_entries c)"
    using assms(1) by (simp_all add: lru_wf_def lru_entries_def)
  have "lru_wf c2 \<and> lru_entries c2 = take (nat n) (lru_entries c) \<and> lru_maxSize c2 = n \<and> cnt = length (lru_entries c) - nat n"
    using resize_loop_spec [OF wf(1), of 0 "[]"] assms(4,6) wf by (simp add: lru_Resize_def)
  moreover have "length (filter (lru_expired now) (lru_entries c)) + length (filter (\<lambda>e. \<not> lru_expired now e) (lru_entries c)) = length (lru_entries c)"
    by (rule sum_length_filter_compl)
  ultimately show ?thesis using d wf(3) by (auto simp: lru_bounded_def lru_Len_def)
qed

end
