(* ===== verification/Cache.thy ===== *)
theory Cache
  imports Lru
begin

section \<open>Package cache: the Store interface and its in-memory backend\<close>

text \<open>
  \<open>src/cache/cache.go\<close>.  \<open>Store\<close> is the interface callers program against; the locale states its
  contract, and what a caller may conclude from it: a value read is never stale.  The in-memory
  backend wraps the cache of package \<open>lru\<close> and is proved to satisfy the contract.
\<close>

datatype cache_error = ErrMiss

record 'v mem_store =
  ms_c :: "(string, 'v) lru"
  ms_defaultTTL :: int

text \<open>\<open>WithMaxSize\<close> replaces the default cache of 1024 entries.\<close>

definition NewMemory :: "int option \<Rightarrow> int \<Rightarrow> 'v mem_store" where
  "NewMemory maxSize defaultTTL =
     \<lparr>ms_c = lru_New (case maxSize of None \<Rightarrow> 1024 | Some n \<Rightarrow> n) 0 False, ms_defaultTTL = defaultTTL\<rparr>"

definition mem_Get :: "int \<Rightarrow> string \<Rightarrow> 'v mem_store \<Rightarrow> (cache_error + 'v) \<times> 'v mem_store" where
  "mem_Get now key m =
     (case lru_Get now key (ms_c m) of (r, ev, c) \<Rightarrow>
        ((case r of None \<Rightarrow> Inl ErrMiss | Some v \<Rightarrow> Inr v), m\<lparr>ms_c := c\<rparr>))"

definition mem_Set :: "int \<Rightarrow> string \<Rightarrow> 'v \<Rightarrow> int \<Rightarrow> 'v mem_store \<Rightarrow> 'v mem_store" where
  "mem_Set now key val ttl m =
     (let ttl = (if ttl = 0 \<and> 0 < ms_defaultTTL m then ms_defaultTTL m else ttl) in
      if 0 < ttl then m\<lparr>ms_c := snd (lru_SetWithTTL now key val ttl (ms_c m))\<rparr>
      else m\<lparr>ms_c := snd (lru_Set now key val (ms_c m))\<rparr>)"

definition mem_Delete :: "string \<Rightarrow> 'v mem_store \<Rightarrow> 'v mem_store" where
  "mem_Delete key m = m\<lparr>ms_c := snd (snd (lru_Delete key (ms_c m)))\<rparr>"

definition mem_Has :: "int \<Rightarrow> string \<Rightarrow> 'v mem_store \<Rightarrow> bool \<times> 'v mem_store" where
  "mem_Has now key m = (case lru_Contains now key (ms_c m) of (r, ev, c) \<Rightarrow> (r, m\<lparr>ms_c := c\<rparr>))"

subsection \<open>The contract of a store\<close>

datatype 'v store_op = SSet int string 'v int | SGet int string | SDelete string | SHas int string

fun store_exec :: "(int \<Rightarrow> string \<Rightarrow> 's \<Rightarrow> (cache_error + 'v) \<times> 's) \<Rightarrow> (int \<Rightarrow> string \<Rightarrow> 'v \<Rightarrow> int \<Rightarrow> 's \<Rightarrow> 's)
    \<Rightarrow> (string \<Rightarrow> 's \<Rightarrow> 's) \<Rightarrow> (int \<Rightarrow> string \<Rightarrow> 's \<Rightarrow> bool \<times> 's) \<Rightarrow> 'v store_op \<Rightarrow> 's \<Rightarrow> 's" where
  "store_exec get put del has (SSet now k v ttl) s = put now k v ttl s"
| "store_exec get put del has (SGet now k) s = snd (get now k s)"
| "store_exec get put del has (SDelete k) s = del k s"
| "store_exec get put del has (SHas now k) s = snd (has now k s)"

text \<open>The ideal store is a plain map that forgets nothing.\<close>

fun ideal_exec :: "'v store_op \<Rightarrow> (string \<rightharpoonup> 'v) \<Rightarrow> (string \<rightharpoonup> 'v)" where
  "ideal_exec (SSet now k v ttl) m = m(k \<mapsto> v)"
| "ideal_exec (SDelete k) m = m(k := None)"
| "ideal_exec (SGet now k) m = m"
| "ideal_exec (SHas now k) m = m"

text \<open>
  \<open>look now s k\<close> is the value a read of \<open>k\<close> at time \<open>now\<close> would give.  A store may forget entries
  at any time (eviction, expiry) but must not invent or resurrect them.
\<close>

locale store =
  fixes wf :: "'s \<Rightarrow> bool"
    and look :: "int \<Rightarrow> 's \<Rightarrow> string \<Rightarrow> 'v option"
    and get :: "int \<Rightarrow> string \<Rightarrow> 's \<Rightarrow> (cache_error + 'v) \<times> 's"
    and put :: "int \<Rightarrow> string \<Rightarrow> 'v \<Rightarrow> int \<Rightarrow> 's \<Rightarrow> 's"
    and del :: "string \<Rightarrow> 's \<Rightarrow> 's"
    and has :: "int \<Rightarrow> string \<Rightarrow> 's \<Rightarrow> bool \<times> 's"
  assumes get_result: "wf s \<Longrightarrow> fst (get now k s) = (case look now s k of None \<Rightarrow> Inl ErrMiss | Some v \<Rightarrow> Inr v)"
    and get_wf: "wf s \<Longrightarrow> wf (snd (get now k s))"
    and get_look: "wf s \<Longrightarrow> look now' (snd (get now k s)) j \<in> {None, look now' s j}"
    and has_result: "wf s \<Longrightarrow> fst (has now k s) \<longleftrightarrow> look now s k \<noteq> None"
    and has_wf: "wf s \<Longrightarrow> wf (snd (has now k s))"
    and has_look: "wf s \<Longrightarrow> look now' (snd (has now k s)) j \<in> {None, look now' s j}"
    and put_wf: "wf s \<Longrightarrow> wf (put now k v ttl s)"
    and put_visible: "wf s \<Longrightarrow> look now (put now k v ttl s) k = Some v"
    and put_look: "wf s \<Longrightarrow> look now' (put now k v ttl s) j \<in> {None, if j = k then Some v else look now' s j}"
    and del_wf: "wf s \<Longrightarrow> wf (del k s)"
    and del_look: "wf s \<Longrightarrow> look now' (del k s) j = (if j = k then None else look now' s j)"
begin

lemma exec_step:
  assumes wf: "wf s" and m: "\<And>now j. look now s j \<in> {None, m j}"
  shows "wf (store_exec get put del has p s)"
    and "look now' (store_exec get put del has p s) j \<in> {None, ideal_exec p m j}"
proof -
  show "wf (store_exec get put del has p s)"
    by (cases p) (simp_all add: wf put_wf get_wf del_wf has_wf)
  show "look now' (store_exec get put del has p s) j \<in> {None, ideal_exec p m j}"
  proof (cases p)
    case (SSet now k v ttl)
    then show ?thesis using put_look [OF wf, of now' now k v ttl j] m [of now' j] by (auto split: if_splits)
  next
    case (SGet now k)
    then show ?thesis using get_look [OF wf, of now' now k j] m [of now' j] by auto
  next
    case (SDelete k)
    then show ?thesis using del_look [OF wf, of now' k j] m [of now' j] by auto
  next
    case (SHas now k)
    then show ?thesis using has_look [OF wf, of now' now k j] m [of now' j] by auto
  qed
qed

lemma never_stale:
  assumes "wf s" and "\<And>now j. look now s j \<in> {None, m j}"
  shows "wf (fold (store_exec get put del has) ops s)
    \<and> look now (fold (store_exec get put del has) ops s) j \<in> {None, fold ideal_exec ops m j}"
  using assms
proof (induction ops arbitrary: s m)
  case (Cons p ops)
  note st = exec_step [OF Cons.prems]
  from Cons.IH [OF st] show ?case by simp
qed simp

end

subsection \<open>The in-memory backend\<close>

definition mem_wf :: "'v mem_store \<Rightarrow> bool" where
  "mem_wf m \<longleftrightarrow> lru_wf (ms_c m) \<and> lru_bounded (ms_c m) \<and> lru_ttl (ms_c m) = 0"

definition mem_look :: "int \<Rightarrow> 'v mem_store \<Rightarrow> string \<Rightarrow> 'v option" where
  "mem_look now m k = live now (find_entry k (lru_entries (ms_c m)))"

lemma find_entry_Cons: "find_entry j (e # es) = (if le_key e = j then Some e else find_entry j es)"
  by (simp add: find_entry_def)

lemma find_entry_butlast:
  "distinct (map le_key es) \<Longrightarrow> find_entry j (butlast es) \<in> {None, find_entry j es}"
proof (induction es rule: rev_induct)
  case (snoc e es)
  have "find_entry j (es @ [e]) = find_entry j es" if "find_entry j es \<noteq> None"
    using that by (induction es) (auto simp: find_entry_def)
  then show ?case by (cases "find_entry j es") auto
qed simp

lemma spec_set_find:
  assumes "distinct (map le_key es)"
  shows "find_entry j (spec_set maxSize e es) \<in> {None, if j = le_key e then Some e else find_entry j es}"
    and "find_entry (le_key e) (spec_set maxSize e es) = Some e"
proof -
  let ?es = "e # without (le_key e) es"
  have d: "distinct (map le_key ?es)" using without_keys [OF assms, of "le_key e"] by (auto simp: without_def)
  have f: "find_entry j ?es = (if j = le_key e then Some e else find_entry j es)" for j
    by (auto simp: find_entry_Cons find_entry_without)
  show "find_entry j (spec_set maxSize e es) \<in> {None, if j = le_key e then Some e else find_entry j es}"
    using find_entry_butlast [OF d, of j] f [of j] unfolding spec_set_def Let_def by (auto split: if_splits)
  have "find_entry (le_key e) (butlast ?es) = Some e" if "1 < length ?es"
    using that by (simp add: find_entry_Cons)
  then show "find_entry (le_key e) (spec_set maxSize e es) = Some e"
    using f [of "le_key e"] unfolding spec_set_def Let_def by (auto simp: find_entry_Cons)
qed

lemma spec_get_find: "find_entry j (spec_get now k es) \<in> {None, find_entry j es}"
  by (auto simp: spec_get_def find_entry_without find_entry_Cons dest: find_entry_Some split: option.split)

lemma spec_peek_find: "find_entry j (spec_peek now k es) \<in> {None, find_entry j es}"
  by (simp add: spec_peek_def find_entry_without)

text \<open>What \<open>mem_Set\<close> stores, in terms of the list of entries.\<close>

lemma mem_Set_spec:
  assumes "mem_wf m"
  shows "\<exists>ttl'. mem_wf (mem_Set now k v ttl m) \<and> lru_entries (ms_c (mem_Set now k v ttl m))
    = spec_set (lru_maxSize (ms_c m)) \<lparr>le_key = k, le_value = v, le_expiresAt = spec_expiry now ttl'\<rparr> (lru_entries (ms_c m))"
proof -
  define t where "t = (if ttl = 0 \<and> 0 < ms_defaultTTL m then ms_defaultTTL m else ttl)"
  have "ms_c (mem_Set now k v ttl m) = snd (lru_set now k v (if 0 < t then t else 0) (ms_c m))"
    using assms by (simp add: mem_Set_def t_def Let_def lru_SetWithTTL_def lru_Set_def mem_wf_def)
  then show ?thesis
    using set_spec [OF _ _ refl, of "ms_c m" now k v "if 0 < t then t else 0"] assms unfolding mem_wf_def by metis
qed

interpretation mem: store mem_wf mem_look mem_Get mem_Set mem_Delete mem_Has
proof unfold_locales
  fix m :: "'v mem_store" and now now' k j v ttl
  assume wf: "mem_wf m"
  obtain r ev c where g: "lru_Get now k (ms_c m) = (r, ev, c)" using prod_cases3 by blast
  note gs = get_spec [OF _ _ g]
  show "fst (mem_Get now k m) = (case mem_look now m k of None \<Rightarrow> Inl ErrMiss | Some v \<Rightarrow> Inr v)"
    and "mem_wf (snd (mem_Get now k m))"
    using gs wf by (simp_all add: mem_Get_def g mem_look_def mem_wf_def same_config_def)
  show "mem_look now' (snd (mem_Get now k m)) j \<in> {None, mem_look now' m j}"
    using gs wf spec_get_find [of j now k "lru_entries (ms_c m)"]
    by (auto simp: mem_Get_def g mem_look_def mem_wf_def live_def)
  obtain r2 ev2 c2 where p: "lru_Peek now k (ms_c m) = (r2, ev2, c2)" using prod_cases3 by blast
  note ps = peek_spec [OF _ _ p]
  show "fst (mem_Has now k m) \<longleftrightarrow> mem_look now m k \<noteq> None" and "mem_wf (snd (mem_Has now k m))"
    using ps wf by (simp_all add: mem_Has_def lru_Contains_def p mem_look_def mem_wf_def same_config_def)
  show "mem_look now' (snd (mem_Has now k m)) j \<in> {None, mem_look now' m j}"
    using ps wf spec_peek_find [of j now k "lru_entries (ms_c m)"]
    by (auto simp: mem_Has_def lru_Contains_def p mem_look_def mem_wf_def live_def)
  have dist: "distinct (map le_key (lru_entries (ms_c m)))" using wf by (simp add: mem_wf_def lru_wf_def)
  obtain t where s: "mem_wf (mem_Set now k v ttl m)" "lru_entries (ms_c (mem_Set now k v ttl m))
      = spec_set (lru_maxSize (ms_c m)) \<lparr>le_key = k, le_value = v, le_expiresAt = spec_expiry now t\<rparr> (lru_entries (ms_c m))"
    using mem_Set_spec [OF wf] by blast
  show "mem_wf (mem_Set now k v ttl m)" by (rule s(1))
  show "mem_look now (mem_Set now k v ttl m) k = Some v"
    using spec_set_find(2) [OF dist, where maxSize = "lru_maxSize (ms_c m)" and e = "\<lparr>le_key = k, le_value = v, le_expiresAt = spec_expiry now t\<rparr>"]
    by (simp add: mem_look_def s(2) live_def lru_expired_def spec_expiry_def)
  show "mem_look now' (mem_Set now k v ttl m) j \<in> {None, if j = k then Some v else mem_look now' m j}"
    using spec_set_find(1) [OF dist, of j "lru_maxSize (ms_c m)" "\<lparr>le_key = k, le_value = v, le_expiresAt = spec_expiry now t\<rparr>"]
    by (cases "j = k") (auto simp: mem_look_def s(2) live_def split: if_splits)
  obtain r4 ev4 c4 where d: "lru_Delete k (ms_c m) = (r4, ev4, c4)" using prod_cases3 by blast
  note ds = delete_spec [OF _ _ d]
  show "mem_wf (mem_Delete k m)" using ds wf by (simp add: mem_Delete_def d mem_wf_def same_config_def)
  show "mem_look now' (mem_Delete k m) j = (if j = k then None else mem_look now' m j)"
    using ds wf by (simp add: mem_Delete_def d mem_wf_def mem_look_def find_entry_without live_def)
qed

text \<open>
  C6. For every sequence of \<open>Set\<close>, \<open>Get\<close>, \<open>Delete\<close> and \<open>Has\<close> on a new in-memory store, with any
  clock, size limit and expiry, a \<open>Get\<close> that succeeds returns the value of the last \<open>Set\<close> of its key
  with no \<open>Delete\<close> since; it never returns a stale or foreign value.
\<close>

theorem cache_never_stale:
  assumes "fst (mem_Get now k (fold (store_exec mem_Get mem_Set mem_Delete mem_Has) ops (NewMemory maxSize ttl))) = Inr v"
  shows "fold ideal_exec ops (\<lambda>_. None) k = Some v"
proof -
  have wf: "mem_wf (NewMemory maxSize ttl)"
    by (simp add: NewMemory_def mem_wf_def lru_New_wf) (simp add: lru_New_def)
  have empty: "mem_look u (NewMemory maxSize ttl) j \<in> {None, (\<lambda>_. None) j}" for u j
    by (simp add: NewMemory_def mem_look_def lru_New_wf(3) find_entry_def live_def)
  show ?thesis
    using mem.never_stale [of "NewMemory maxSize ttl" "\<lambda>_. None" ops now k, OF wf empty]
      mem.get_result [of "fold (store_exec mem_Get mem_Set mem_Delete mem_Has) ops (NewMemory maxSize ttl)" now k] assms
    by (auto split: option.splits)
qed

theorem cache_never_stale_witness:
  "fold ideal_exec [SSet 0 ''a'' (1::int) 0, SSet 1 ''a'' 2 0] (\<lambda>_. None) ''a'' = Some 2"
  by (rule cache_never_stale [of 3 _ _ None 0])
    (simp add: NewMemory_def mem_Get_def mem_Set_def lru_Set_def lru_set_def lru_New_def lru_Get_def MoveToFront_def
      ll_Value_def lru_expired_def)

end
