(* ===== verification/Fsm.thy ===== *)
theory Fsm
  imports Prelude
begin

section \<open>Package fsm: a finite state machine with guards, actions and hooks\<close>

text \<open>
  \<open>src/fsm/fsm.go\<close>.  A rule's guard and action are functions of the context; an action returns an
  error or nothing.  Hooks and listeners return nothing, so a registered callback is a number and
  calling it is an entry of the trace that \<open>Send\<close> produces.
\<close>

record 'c rule =
  r_From :: string
  r_Event :: string
  r_Guard :: "('c \<Rightarrow> bool) option"
  r_Action :: "('c \<Rightarrow> string option) option"
  r_To :: string

datatype fsm_error = ErrNoTransition | ErrGuardRejected | ErrActionFailed string | ErrDuplicateRule string string

datatype 'c fsm_call =
  CallAction "string \<times> string" 'c
| CallExit nat 'c
| CallEnter nat 'c
| CallListener nat string string string 'c

record 'c machine =
  fm_current :: string
  fm_rules :: "string \<times> string \<rightharpoonup> 'c rule"
  fm_onEnter :: "string \<rightharpoonup> nat"
  fm_onExit :: "string \<rightharpoonup> nat"
  fm_listeners :: "nat list"

fun add_rules :: "'c rule list \<Rightarrow> 'c machine \<Rightarrow> fsm_error + 'c machine" where
  "add_rules [] m = Inr m"
| "add_rules (r # rs) m =
     (let key = (r_From r, r_Event r) in
      if fm_rules m key \<noteq> None then Inl (ErrDuplicateRule (r_From r) (r_Event r))
      else add_rules rs (m\<lparr>fm_rules := (fm_rules m)(key \<mapsto> r)\<rparr>))"

definition fsm_New :: "string \<Rightarrow> 'c rule list \<Rightarrow> fsm_error + 'c machine" where
  "fsm_New initial rules =
     add_rules rules \<lparr>fm_current = initial, fm_rules = (\<lambda>_. None), fm_onEnter = (\<lambda>_. None),
       fm_onExit = (\<lambda>_. None), fm_listeners = []\<rparr>"

text \<open>
  \<open>Send\<close> in the three parts its locking gives it: the lookup under \<open>mu\<close>, the action with \<open>mu\<close>
  released, and the commit under \<open>mu\<close> followed by the hooks.
\<close>

definition send_lookup :: "string \<Rightarrow> 'c \<Rightarrow> 'c machine \<Rightarrow> fsm_error + 'c rule" where
  "send_lookup event ctx m =
     (case fm_rules m (fm_current m, event) of
        None \<Rightarrow> Inl ErrNoTransition
      | Some rule \<Rightarrow>
          (case r_Guard rule of
             None \<Rightarrow> Inr rule
           | Some g \<Rightarrow> if \<not> g ctx then Inl ErrGuardRejected else Inr rule))"

definition send_action :: "'c \<Rightarrow> string \<Rightarrow> string \<Rightarrow> 'c rule \<Rightarrow> fsm_error option \<times> 'c fsm_call list" where
  "send_action ctx frm event rule =
     (case r_Action rule of
        None \<Rightarrow> (None, [])
      | Some a \<Rightarrow> (map_option ErrActionFailed (a ctx), [CallAction (frm, event) ctx]))"

definition opt_call :: "(nat \<Rightarrow> 'c fsm_call) \<Rightarrow> nat option \<Rightarrow> 'c fsm_call list" where
  "opt_call f h = (case h of None \<Rightarrow> [] | Some n \<Rightarrow> [f n])"

definition send_commit :: "'c \<Rightarrow> string \<Rightarrow> string \<Rightarrow> string \<Rightarrow> 'c machine \<Rightarrow> 'c fsm_call list \<times> 'c machine" where
  "send_commit ctx frm dest event m =
     (let m' = m\<lparr>fm_current := dest\<rparr> in
      (opt_call (\<lambda>h. CallExit h ctx) (fm_onExit m' frm) @ opt_call (\<lambda>h. CallEnter h ctx) (fm_onEnter m' dest)
         @ map (\<lambda>l. CallListener l frm dest event ctx) (fm_listeners m'), m'))"

definition Send :: "string \<Rightarrow> 'c \<Rightarrow> 'c machine \<Rightarrow> fsm_error option \<times> 'c fsm_call list \<times> 'c machine" where
  "Send event ctx m =
     (case send_lookup event ctx m of
        Inl e \<Rightarrow> (Some e, [], m)
      | Inr rule \<Rightarrow>
          let frm = fm_current m in
          (case send_action ctx frm event rule of
             (Some e, calls) \<Rightarrow> (Some e, calls, m)
           | (None, calls) \<Rightarrow>
               (case send_commit ctx frm (r_To rule) event m of
                  (hooks, m') \<Rightarrow> (None, calls @ hooks, m'))))"

definition fsm_Current :: "'c machine \<Rightarrow> string" where
  "fsm_Current m = fm_current m"

definition Can :: "string \<Rightarrow> 'c \<Rightarrow> 'c machine \<Rightarrow> bool" where
  "Can event ctx m =
     (case fm_rules m (fm_current m, event) of
        None \<Rightarrow> False
      | Some rule \<Rightarrow> (case r_Guard rule of None \<Rightarrow> True | Some g \<Rightarrow> g ctx))"

definition Is :: "string \<Rightarrow> 'c machine \<Rightarrow> bool" where
  "Is s m \<longleftrightarrow> fm_current m = s"

definition OnEnter :: "string \<Rightarrow> nat \<Rightarrow> 'c machine \<Rightarrow> 'c machine" where
  "OnEnter s fn m = m\<lparr>fm_onEnter := (fm_onEnter m)(s \<mapsto> fn)\<rparr>"

definition OnExit :: "string \<Rightarrow> nat \<Rightarrow> 'c machine \<Rightarrow> 'c machine" where
  "OnExit s fn m = m\<lparr>fm_onExit := (fm_onExit m)(s \<mapsto> fn)\<rparr>"

definition Listen :: "nat \<Rightarrow> 'c machine \<Rightarrow> 'c machine" where
  "Listen fn m = m\<lparr>fm_listeners := fm_listeners m @ [fn]\<rparr>"

text \<open>The events come in the order Go visits the map; \<open>order\<close> lists its keys.\<close>

definition AvailableEvents :: "(string \<times> string) list \<Rightarrow> 'c machine \<Rightarrow> string list" where
  "AvailableEvents order m = map snd (filter (\<lambda>key. fst key = fm_current m) order)"

subsection \<open>Sequential behaviour\<close>

lemma add_rules_ok:
  "distinct (map (\<lambda>r. (r_From r, r_Event r)) rs) \<Longrightarrow> \<forall>r\<in>set rs. fm_rules m (r_From r, r_Event r) = None \<Longrightarrow>
     add_rules rs m = Inr (m\<lparr>fm_rules := fm_rules m ++ map_of (map (\<lambda>r. ((r_From r, r_Event r), r)) rs)\<rparr>)"
proof (induction rs arbitrary: m)
  case (Cons r rs)
  let ?k = "(r_From r, r_Event r)"
  let ?m = "m\<lparr>fm_rules := (fm_rules m)(?k \<mapsto> r)\<rparr>"
  let ?l = "map_of (map (\<lambda>r. ((r_From r, r_Event r), r)) rs)"
  have "?l ?k = None" using Cons.prems(1) by (auto simp: map_of_eq_None_iff image_iff)
  then have "(fm_rules m)(?k \<mapsto> r) ++ ?l = fm_rules m ++ ?l(?k \<mapsto> r)"
    by (auto simp: map_add_def split: option.split)
  then have eq: "fm_rules ?m ++ ?l = fm_rules m ++ ?l(?k \<mapsto> r)" by simp
  have "\<forall>r'\<in>set rs. fm_rules ?m (r_From r', r_Event r') = None" using Cons.prems by (auto simp: image_iff)
  then have "add_rules rs ?m = Inr (?m\<lparr>fm_rules := fm_rules ?m ++ ?l\<rparr>)"
    using Cons.prems by (intro Cons.IH) simp_all
  also have "?m\<lparr>fm_rules := fm_rules ?m ++ ?l\<rparr> = m\<lparr>fm_rules := fm_rules m ++ ?l(?k \<mapsto> r)\<rparr>"
    unfolding eq by simp
  also have "?l(?k \<mapsto> r) = map_of (map (\<lambda>r. ((r_From r, r_Event r), r)) (r # rs))" by simp
  finally show ?case using Cons.prems by (simp add: Let_def fun_upd_def)
qed (simp add: map_add_def)

lemma add_rules_dup:
  "\<not> (distinct (map (\<lambda>r. (r_From r, r_Event r)) rs) \<and> (\<forall>r\<in>set rs. fm_rules m (r_From r, r_Event r) = None)) \<Longrightarrow>
     \<exists>a b. add_rules rs m = Inl (ErrDuplicateRule a b)"
proof (induction rs arbitrary: m)
  case (Cons r rs)
  show ?case
  proof (cases "fm_rules m (r_From r, r_Event r) = None")
    case True
    have "\<not> (distinct (map (\<lambda>r. (r_From r, r_Event r)) rs) \<and>
        (\<forall>r'\<in>set rs. fm_rules (m\<lparr>fm_rules := (fm_rules m)((r_From r, r_Event r) \<mapsto> r)\<rparr>) (r_From r', r_Event r') = None))"
      using Cons.prems True by (auto simp: image_iff split: if_splits)
    from Cons.IH [OF this] True show ?thesis by (simp add: Let_def)
  qed (simp add: Let_def)
qed simp

text \<open>
  \<open>New\<close> succeeds exactly when no two rules share source state and event; the machine then
  starts in the initial state, has no hooks, and finds for a state and event exactly the rule
  given for it.
\<close>
lemma fsm_new_rules:
  "(distinct (map (\<lambda>r. (r_From r, r_Event r)) rs) \<longrightarrow>
     (\<exists>m. fsm_New initial rs = Inr m \<and> fsm_Current m = initial \<and> fm_listeners m = []
        \<and> (\<forall>s ev r. fm_rules m (s, ev) = Some r \<longleftrightarrow> r \<in> set rs \<and> r_From r = s \<and> r_Event r = ev)))
   \<and> (\<not> distinct (map (\<lambda>r. (r_From r, r_Event r)) rs) \<longrightarrow> (\<exists>a b. fsm_New initial rs = Inl (ErrDuplicateRule a b)))"
proof -
  let ?m = "\<lparr>fm_current = initial, fm_rules = (\<lambda>_. None), fm_onEnter = (\<lambda>_. None), fm_onExit = (\<lambda>_. None), fm_listeners = []\<rparr>"
  let ?l = "map (\<lambda>r. ((r_From r, r_Event r), r)) rs"
  have look: "map_of ?l (s, ev) = Some r \<longleftrightarrow> r \<in> set rs \<and> r_From r = s \<and> r_Event r = ev"
    if "distinct (map (\<lambda>r. (r_From r, r_Event r)) rs)" for s ev r
    using that by (subst map_of_eq_Some_iff) (auto simp: comp_def image_iff)
  show ?thesis
    using add_rules_ok [of rs ?m] add_rules_dup [of rs ?m] look
    by (auto simp: fsm_New_def fsm_Current_def Let_def)
qed

text \<open>
  \<open>Send\<close> on every branch.  Without a rule, or with a guard that rejects, it fails with the
  corresponding error and calls nothing; when the action fails it reports that error and only the
  action was called; in all three cases the state is unchanged.  Otherwise the machine moves to the
  rule's target, and the calls are the action, the exit hook of the source, the enter hook of the
  target and the listeners in registration order.  \<open>Can\<close> predicts whether the rule applies.
\<close>
lemma send_behaviour:
  "Send event ctx m =
    (case fm_rules m (fm_current m, event) of
       None \<Rightarrow> (Some ErrNoTransition, [], m)
     | Some rule \<Rightarrow>
         if \<not> Can event ctx m then (Some ErrGuardRejected, [], m)
         else
           let called = (if r_Action rule = None then [] else [CallAction (fm_current m, event) ctx]) in
           case (if r_Action rule = None then None else the (r_Action rule) ctx) of
             Some msg \<Rightarrow> (Some (ErrActionFailed msg), called, m)
           | None \<Rightarrow>
               (None, called @ opt_call (\<lambda>h. CallExit h ctx) (fm_onExit m (fm_current m))
                  @ opt_call (\<lambda>h. CallEnter h ctx) (fm_onEnter m (r_To rule))
                  @ map (\<lambda>l. CallListener l (fm_current m) (r_To rule) event ctx) (fm_listeners m),
                m\<lparr>fm_current := r_To rule\<rparr>))
   \<and> (Can event ctx m \<longleftrightarrow> fst (Send event ctx m) \<noteq> Some ErrNoTransition \<and> fst (Send event ctx m) \<noteq> Some ErrGuardRejected)"
  by (auto simp: Send_def send_lookup_def send_action_def send_commit_def Can_def Let_def split: option.splits if_splits)

subsection \<open>Concurrent Sends\<close>

text \<open>
  A thread that sends waits for \<open>sendMu\<close>, looks the rule up, runs the action with only \<open>sendMu\<close>
  held, and commits.  Between these steps other threads run: readers, senders waiting for
  \<open>sendMu\<close>, and registrations of hooks, which take only \<open>mu\<close>.  The log records the successful
  actions and the commits with their source states.
\<close>

datatype 'c fsm_thread =
  FIdle
| FWaiting string 'c
| FActing string 'c string "'c rule"
| FCommitting string 'c string "'c rule"

record 'c fsm_system =
  fs_machine :: "'c machine"
  fs_sendMu :: "nat option"
  fs_threads :: "nat \<Rightarrow> 'c fsm_thread"
  fs_acts :: "(string \<times> string) list"
  fs_commits :: "(string \<times> string) list"

inductive fsm_step :: "'c fsm_system \<Rightarrow> 'c fsm_system \<Rightarrow> bool" where
  call: "fs_threads s t = FIdle \<Longrightarrow>
    fsm_step s (s\<lparr>fs_threads := (fs_threads s)(t := FWaiting ev ctx)\<rparr>)"
| refuse: "fs_threads s t = FWaiting ev ctx \<Longrightarrow> fs_sendMu s = None \<Longrightarrow> send_lookup ev ctx (fs_machine s) = Inl e \<Longrightarrow>
    fsm_step s (s\<lparr>fs_threads := (fs_threads s)(t := FIdle)\<rparr>)"
| lookup: "fs_threads s t = FWaiting ev ctx \<Longrightarrow> fs_sendMu s = None \<Longrightarrow> send_lookup ev ctx (fs_machine s) = Inr rule \<Longrightarrow>
    fsm_step s (s\<lparr>fs_sendMu := Some t,
      fs_threads := (fs_threads s)(t := FActing ev ctx (fm_current (fs_machine s)) rule)\<rparr>)"
| act_fails: "fs_threads s t = FActing ev ctx frm rule \<Longrightarrow> send_action ctx frm ev rule = (Some e, calls) \<Longrightarrow>
    fsm_step s (s\<lparr>fs_sendMu := None, fs_threads := (fs_threads s)(t := FIdle)\<rparr>)"
| acts: "fs_threads s t = FActing ev ctx frm rule \<Longrightarrow> send_action ctx frm ev rule = (None, calls) \<Longrightarrow>
    fsm_step s (s\<lparr>fs_threads := (fs_threads s)(t := FCommitting ev ctx frm rule),
      fs_acts := fs_acts s @ [(frm, r_To rule)]\<rparr>)"
| commits: "fs_threads s t = FCommitting ev ctx frm rule \<Longrightarrow> send_commit ctx frm (r_To rule) ev (fs_machine s) = (hooks, m') \<Longrightarrow>
    fsm_step s (s\<lparr>fs_machine := m', fs_sendMu := None, fs_threads := (fs_threads s)(t := FIdle),
      fs_commits := fs_commits s @ [(frm, r_To rule)]\<rparr>)"
| on_enter: "fsm_step s (s\<lparr>fs_machine := OnEnter st fn (fs_machine s)\<rparr>)"
| on_exit: "fsm_step s (s\<lparr>fs_machine := OnExit st fn (fs_machine s)\<rparr>)"
| listen: "fsm_step s (s\<lparr>fs_machine := Listen fn (fs_machine s)\<rparr>)"

definition fsm_init :: "'c machine \<Rightarrow> 'c fsm_system" where
  "fsm_init m = \<lparr>fs_machine = m, fs_sendMu = None, fs_threads = (\<lambda>_. FIdle), fs_acts = [], fs_commits = []\<rparr>"

text \<open>A list of transitions that starts in \<open>a\<close>, ends in \<open>b\<close>, and leaves each state it entered.\<close>

fun path :: "string \<Rightarrow> (string \<times> string) list \<Rightarrow> string \<Rightarrow> bool" where
  "path a [] b \<longleftrightarrow> a = b"
| "path a (x # xs) b \<longleftrightarrow> fst x = a \<and> path (snd x) xs b"

lemma path_append [simp]: "path a (xs @ ys) c \<longleftrightarrow> (\<exists>b. path a xs b \<and> path b ys c)"
  by (induction xs arbitrary: a) auto

fun busy :: "'c fsm_thread \<Rightarrow> (string \<times> string \<times> 'c rule) option" where
  "busy (FActing ev ctx frm rule) = Some (ev, frm, rule)"
| "busy (FCommitting ev ctx frm rule) = Some (ev, frm, rule)"
| "busy _ = None"

definition pending :: "'c fsm_thread \<Rightarrow> (string \<times> string) list" where
  "pending th = (case th of FCommitting ev ctx frm rule \<Rightarrow> [(frm, r_To rule)] | _ \<Rightarrow> [])"

text \<open>
  Only the holder of \<open>sendMu\<close> is inside a transition, and the source state it captured is still the
  current one; the log of actions is the log of commits plus what the holder still has to commit.
\<close>

definition held :: "'c machine \<Rightarrow> 'c machine \<Rightarrow> nat option \<Rightarrow> (nat \<Rightarrow> 'c fsm_thread) \<Rightarrow> bool" where
  "held m0 m mu th \<longleftrightarrow> (\<forall>t x. busy (th t) = Some x \<longrightarrow>
     mu = Some t \<and> fst (snd x) = fm_current m \<and> fm_rules m0 (fst (snd x), fst x) = Some (snd (snd x)))"

definition fsm_inv :: "'c machine \<Rightarrow> 'c fsm_system \<Rightarrow> bool" where
  "fsm_inv m0 s \<longleftrightarrow> fm_rules (fs_machine s) = fm_rules m0
     \<and> held m0 (fs_machine s) (fs_sendMu s) (fs_threads s)
     \<and> path (fm_current m0) (fs_commits s) (fm_current (fs_machine s))
     \<and> (\<forall>x\<in>set (fs_commits s). \<exists>ev r. fm_rules m0 (fst x, ev) = Some r \<and> r_To r = snd x)
     \<and> fs_acts s = fs_commits s @ (case fs_sendMu s of None \<Rightarrow> [] | Some t \<Rightarrow> pending (fs_threads s t))"

lemma heldD:
  "held m0 m mu th \<Longrightarrow> busy (th t) = Some (ev, frm, rule) \<Longrightarrow>
     mu = Some t \<and> frm = fm_current m \<and> fm_rules m0 (frm, ev) = Some rule"
  unfolding held_def by (metis fst_conv snd_conv)

lemma held_quiet: "held m0 m mu th \<Longrightarrow> busy x = None \<Longrightarrow> held m0 m mu (th(t := x))"
  by (simp add: held_def)

text \<open>Only the holder is busy, so when it becomes idle nobody is.\<close>

lemma held_release:
  assumes "held m0 m (Some t) th"
  shows "held m0 m' None (th(t := FIdle))"
proof -
  have "busy (th u) = None" if "u \<noteq> t" for u
    using assms that by (cases "busy (th u)") (auto simp: held_def)
  then show ?thesis by (simp add: held_def)
qed

lemma held_acquire:
  assumes "held m0 m mu th" and "mu = None \<or> mu = Some t" and "busy x = Some (ev, fm_current m, rule)"
    and "fm_rules m0 (fm_current m, ev) = Some rule"
  shows "held m0 m (Some t) (th(t := x))"
proof -
  have "busy (th u) = None" if "u \<noteq> t" for u
    using assms(1,2) that by (cases "busy (th u)") (auto simp: held_def)
  then show ?thesis using assms(3,4) by (simp add: held_def)
qed

lemma send_lookup_rule: "send_lookup ev ctx m = Inr r \<Longrightarrow> fm_rules m (fm_current m, ev) = Some r"
  by (auto simp: send_lookup_def split: option.splits if_splits)

lemma fsm_step_inv:
  assumes "fsm_step s s'" and "fsm_inv m0 s"
  shows "fsm_inv m0 s'"
proof -
  have h: "held m0 (fs_machine s) (fs_sendMu s) (fs_threads s)" using assms(2) by (simp add: fsm_inv_def)
  show ?thesis
    using assms(1)
  proof (cases rule: fsm_step.cases)
    case (call t ev ctx)
    have "pending (((fs_threads s)(t := FWaiting ev ctx)) u) = pending (fs_threads s u)" for u
      using call(2) by (simp add: pending_def)
    then show ?thesis using assms(2) call(1) held_quiet [OF h, of "FWaiting ev ctx" t]
      by (simp add: fsm_inv_def split: option.split)
  next
    case (refuse t ev ctx e)
    then show ?thesis using assms(2) held_quiet [OF h, of FIdle t] by (simp add: fsm_inv_def)
  next
    case (lookup t ev ctx rule)
    have r: "fm_rules m0 (fm_current (fs_machine s), ev) = Some rule"
      using send_lookup_rule [OF lookup(4)] assms(2) by (simp add: fsm_inv_def)
    have "pending (FActing ev ctx (fm_current (fs_machine s)) rule) = []" by (simp add: pending_def)
    then show ?thesis
      using assms(2) lookup(1,3) held_acquire [OF h, of t "FActing ev ctx (fm_current (fs_machine s)) rule" ev rule] r
      by (simp add: fsm_inv_def)
  next
    case (act_fails t ev ctx frm rule e calls)
    have mu: "fs_sendMu s = Some t" and "pending (fs_threads s t) = []"
      using heldD [OF h, of t ev frm rule] act_fails(2) by (simp_all add: pending_def)
    then show ?thesis using assms(2) act_fails(1) held_release [OF h [unfolded mu]] by (simp add: fsm_inv_def)
  next
    case (acts t ev ctx frm rule calls)
    have d: "fs_sendMu s = Some t" "frm = fm_current (fs_machine s)" "fm_rules m0 (frm, ev) = Some rule"
      and p: "pending (fs_threads s t) = []" "pending (FCommitting ev ctx frm rule) = [(frm, r_To rule)]"
      using heldD [OF h, of t ev frm rule] acts(2) by (auto simp: pending_def)
    have "held m0 (fs_machine s) (Some t) ((fs_threads s)(t := FCommitting ev ctx frm rule))"
      using d by (intro held_acquire [OF h, of t _ ev rule]) simp_all
    then show ?thesis using assms(2) acts(1) d(1) p by (simp add: fsm_inv_def)
  next
    case (commits t ev ctx frm rule hooks m')
    have d: "fs_sendMu s = Some t" "frm = fm_current (fs_machine s)" "fm_rules m0 (frm, ev) = Some rule"
      and p: "pending (fs_threads s t) = [(frm, r_To rule)]"
      using heldD [OF h, of t ev frm rule] commits(2) by (auto simp: pending_def)
    have m': "m' = (fs_machine s)\<lparr>fm_current := r_To rule\<rparr>" using commits(3) by (auto simp: send_commit_def Let_def)
    show ?thesis using assms(2) commits(1) d p held_release [OF h [unfolded d(1)]] unfolding m'
      by (auto simp: fsm_inv_def)
  qed (use assms(2) in \<open>auto simp: fsm_inv_def held_def OnEnter_def OnExit_def Listen_def split: option.split\<close>)
qed



end
