(* ===== verification/Freqcap.thy ===== *)
theory Freqcap
  imports Prelude "HOL-Library.AList"
begin

section \<open>Package freqcap: per-entity frequency capping\<close>

text \<open>
  \<open>src/freqcap/freqcap.go\<close>.  A key's events are a slice of times kept in a map, here an association
  list with distinct keys.  \<open>trimBefore\<close> works in place: it copies the surviving suffix to the front
  of the backing array and returns a shorter slice.  A caller that drops the result leaves the map
  with a slice of the old length over the overwritten array, which is what \<open>evictIdleLocked\<close> does;
  so the model has both the returned slice and what stays in the old one.  Times are integers.
\<close>

record counter =
  fq_window :: int
  fq_maxEvents :: int
  fq_maxKeys :: int
  fq_keys :: "(string \<times> int list) list"

definition DefaultMaxKeys :: int where
  "DefaultMaxKeys = 10000"

text \<open>\<open>None\<close> is the panic of \<open>New\<close>; the option \<open>WithMaxKeys\<close> is an optional argument.\<close>

definition freqcap_New :: "int \<Rightarrow> int \<Rightarrow> int option \<Rightarrow> counter option" where
  "freqcap_New window maxEvents maxKeys =
     (if maxEvents \<le> 0 \<or> window \<le> 0 then None
      else
        let mk = (case maxKeys of None \<Rightarrow> DefaultMaxKeys | Some n \<Rightarrow> n) in
        Some \<lparr>fq_window = window, fq_maxEvents = maxEvents, fq_maxKeys = (if mk < 0 then 0 else mk), fq_keys = []\<rparr>)"

definition trim_count :: "int list \<Rightarrow> int \<Rightarrow> nat" where
  "trim_count ts cutoff = length (takeWhile (\<lambda>t. t < cutoff) ts)"

text \<open>The array after \<open>copy(ts, ts[i:])\<close>, over its whole length, and the slice \<open>trimBefore\<close> returns.\<close>

definition trim_array :: "int list \<Rightarrow> int \<Rightarrow> int list" where
  "trim_array ts cutoff = (let i = trim_count ts cutoff in drop i ts @ drop (length ts - i) ts)"

definition trimBefore :: "int list \<Rightarrow> int \<Rightarrow> int list" where
  "trimBefore ts cutoff = take (length ts - trim_count ts cutoff) (trim_array ts cutoff)"

definition slice_of :: "counter \<Rightarrow> string \<Rightarrow> int list" where
  "slice_of c key = (case map_of (fq_keys c) key of None \<Rightarrow> [] | Some ts \<Rightarrow> ts)"

definition evictIdleLocked :: "int \<Rightarrow> (string \<times> int list) list \<Rightarrow> int \<Rightarrow> (string \<times> int list) list" where
  "evictIdleLocked window keys now =
     (let cutoff = now - window in
      map (\<lambda>(k, ts). (k, trim_array ts cutoff))
        (filter (\<lambda>(k, ts). length (trimBefore ts cutoff) \<noteq> 0) keys))"

definition freqcap_Allow :: "string \<Rightarrow> int \<Rightarrow> counter \<Rightarrow> bool \<times> counter" where
  "freqcap_Allow key now c =
     (let cutoff = now - fq_window c;
          ok = (map_of (fq_keys c) key \<noteq> None);
          ts = slice_of c key;
          trimmed = trimBefore ts cutoff;
          aliased = (if ok then AList.update key (trim_array ts cutoff) (fq_keys c) else fq_keys c)
      in if fq_maxEvents c \<le> int (length trimmed) then (False, c\<lparr>fq_keys := AList.update key trimmed aliased\<rparr>)
         else
           let keys = (if \<not> ok \<or> length trimmed = 0 then evictIdleLocked (fq_window c) aliased now else aliased)
           in if (\<not> ok \<or> length trimmed = 0) \<and> 0 < fq_maxKeys c \<and> fq_maxKeys c \<le> int (length keys)
              then (False, c\<lparr>fq_keys := keys\<rparr>)
              else (True, c\<lparr>fq_keys := AList.update key (trimmed @ [now]) keys\<rparr>))"

definition freqcap_Count :: "string \<Rightarrow> int \<Rightarrow> counter \<Rightarrow> nat \<times> counter" where
  "freqcap_Count key now c =
     (let cutoff = now - fq_window c in
      case map_of (fq_keys c) key of
        None \<Rightarrow> (0, c)
      | Some ts \<Rightarrow>
          let trimmed = trimBefore ts cutoff in
          if length trimmed = 0 then (0, c\<lparr>fq_keys := AList.delete key (fq_keys c)\<rparr>)
          else (length trimmed, c\<lparr>fq_keys := AList.update key trimmed (fq_keys c)\<rparr>))"

definition freqcap_Reset :: "string \<Rightarrow> counter \<Rightarrow> counter" where
  "freqcap_Reset key c = c\<lparr>fq_keys := AList.delete key (fq_keys c)\<rparr>"

definition freqcap_Len :: "counter \<Rightarrow> nat" where
  "freqcap_Len c = length (fq_keys c)"

subsection \<open>What trimming keeps\<close>

definition recent :: "int \<Rightarrow> int list \<Rightarrow> int multiset" where
  "recent cutoff ts = filter_mset (\<lambda>t. cutoff \<le> t) (mset ts)"

lemma trimBefore_dropWhile: "trimBefore ts cutoff = dropWhile (\<lambda>t. t < cutoff) ts"
  by (simp add: trimBefore_def trim_array_def Let_def trim_count_def dropWhile_eq_drop)

lemma recent_dropWhile: "recent cutoff (dropWhile (\<lambda>t. t < cutoff) ts) = recent cutoff ts"
  by (induction ts) (simp_all add: recent_def)

lemma recent_trimBefore [simp]: "recent cutoff (trimBefore ts cutoff) = recent cutoff ts"
  by (simp add: trimBefore_dropWhile recent_dropWhile)

lemma recent_trim_array: "recent cutoff ts \<subseteq># recent cutoff (trim_array ts cutoff)"
proof -
  let ?i = "trim_count ts cutoff"
  have "drop ?i ts = dropWhile (\<lambda>t. t < cutoff) ts" by (simp add: trim_count_def dropWhile_eq_drop)
  then have "recent cutoff (drop ?i ts) = recent cutoff ts" by (simp add: recent_dropWhile)
  then show ?thesis by (simp add: trim_array_def Let_def recent_def)
qed

lemma recent_size: "size (recent cutoff ts) \<le> length ts"
  unfolding recent_def by (metis size_filter_mset_lesseq size_mset)

lemma recent_later: "cutoff \<le> cutoff' \<Longrightarrow> recent cutoff ts \<subseteq># recent cutoff us \<Longrightarrow> recent cutoff' ts \<subseteq># recent cutoff' us"
proof -
  assume "cutoff \<le> cutoff'" and sub: "recent cutoff ts \<subseteq># recent cutoff us"
  then have "recent cutoff' xs = filter_mset (\<lambda>t. cutoff' \<le> t) (recent cutoff xs)" for xs
    by (auto simp: recent_def filter_filter_mset intro!: filter_mset_cong)
  then show ?thesis using multiset_filter_mono [OF sub] by simp
qed

subsection \<open>The hard cap\<close>

text \<open>
  A run of the counter: the operations with their clock readings.  The history of a key is the
  list of times at which \<open>Allow\<close> let it through since it was last \<open>Reset\<close>.
\<close>

datatype freq_op = FAllow string int | FCount string int | FReset string

fun freq_do :: "freq_op \<Rightarrow> counter \<times> (string \<Rightarrow> int list) \<Rightarrow> counter \<times> (string \<Rightarrow> int list)" where
  "freq_do (FAllow key now) (c, h) =
     (case freqcap_Allow key now c of (ok, c') \<Rightarrow> (c', if ok then h(key := h key @ [now]) else h))"
| "freq_do (FCount key now) (c, h) = (snd (freqcap_Count key now c), h)"
| "freq_do (FReset key) (c, h) = (freqcap_Reset key c, h(key := []))"

fun op_times :: "freq_op list \<Rightarrow> int list" where
  "op_times [] = []"
| "op_times (FAllow key now # ops) = now # op_times ops"
| "op_times (FCount key now # ops) = now # op_times ops"
| "op_times (FReset key # ops) = op_times ops"

text \<open>
  The stored slice of a key holds at least the events of its history that are still in the window;
  it may hold copies besides.  So the counter errs only on the side of denying.
\<close>

definition tracks :: "int \<Rightarrow> (string \<rightharpoonup> int list) \<Rightarrow> (string \<Rightarrow> int list) \<Rightarrow> bool" where
  "tracks cutoff m h \<longleftrightarrow> (\<forall>k. recent cutoff (h k) \<subseteq># recent cutoff (case m k of None \<Rightarrow> [] | Some ts \<Rightarrow> ts))"

lemma tracks_later: "tracks cutoff m h \<Longrightarrow> cutoff \<le> cutoff' \<Longrightarrow> tracks cutoff' m h"
  unfolding tracks_def by (blast intro: recent_later)

lemma tracks_upd:
  "tracks cutoff m h \<Longrightarrow> recent cutoff hs \<subseteq># recent cutoff ts \<Longrightarrow> tracks cutoff (m(k \<mapsto> ts)) (h(k := hs))"
  by (simp add: tracks_def)

lemma tracks_upd_same: "tracks cutoff m h \<Longrightarrow> recent cutoff (h k) \<subseteq># recent cutoff ts \<Longrightarrow> tracks cutoff (m(k \<mapsto> ts)) h"
  by (simp add: tracks_def)

lemma keys_evictIdle: "fst ` set (evictIdleLocked window keys now) \<subseteq> fst ` set keys"
  by (force simp: evictIdleLocked_def Let_def)

lemma distinct_evictIdle: "distinct (map fst keys) \<Longrightarrow> distinct (map fst (evictIdleLocked window keys now))"
  by (simp add: evictIdleLocked_def Let_def comp_def case_prod_beta distinct_map_filter)

lemma map_of_evictIdle:
  "distinct (map fst keys) \<Longrightarrow> map_of (evictIdleLocked window keys now) k =
     (case map_of keys k of None \<Rightarrow> None
      | Some ts \<Rightarrow> if trimBefore ts (now - window) = [] then None else Some (trim_array ts (now - window)))"
proof (induction keys)
  case (Cons x keys)
  obtain j ts where x: "x = (j, ts)" by (cases x)
  have "map_of (evictIdleLocked window keys now) k = None" if "k \<notin> fst ` set keys"
    using that keys_evictIdle [of window keys now] unfolding map_of_eq_None_iff by blast
  moreover have "map_of keys k = None" if "k \<notin> fst ` set keys" using that by (simp add: map_of_eq_None_iff)
  moreover have "evictIdleLocked window (x # keys) now = (if trimBefore ts (now - window) = [] then [] else [(j, trim_array ts (now - window))]) @ evictIdleLocked window keys now"
    by (simp add: x evictIdleLocked_def Let_def)
  ultimately show ?case using Cons by (cases "k = j") (auto simp: x)
qed (simp add: evictIdleLocked_def)

lemma tracks_evictIdle:
  assumes "distinct (map fst keys)" and "tracks (now - window) (map_of keys) h"
  shows "tracks (now - window) (map_of (evictIdleLocked window keys now)) h"
  unfolding tracks_def
proof
  fix k
  let ?c = "now - window"
  have t: "recent ?c (h k) \<subseteq># recent ?c (case map_of keys k of None \<Rightarrow> [] | Some ts \<Rightarrow> ts)"
    using assms(2) by (simp add: tracks_def)
  show "recent ?c (h k) \<subseteq># recent ?c (case map_of (evictIdleLocked window keys now) k of None \<Rightarrow> [] | Some ts \<Rightarrow> ts)"
  proof (cases "map_of keys k")
    case None
    then show ?thesis using t by (simp add: map_of_evictIdle [OF assms(1)])
  next
    case (Some ts)
    show ?thesis
    proof (cases "trimBefore ts ?c = []")
      case True
      then have "recent ?c ts = recent ?c []" using recent_trimBefore [of ?c ts] by simp
      then show ?thesis using t Some True by (simp add: map_of_evictIdle [OF assms(1)])
    next
      case False
      then show ?thesis using t Some recent_trim_array [of ?c ts] subset_mset.trans
        by (fastforce simp: map_of_evictIdle [OF assms(1)])
    qed
  qed
qed

definition freq_inv :: "int \<Rightarrow> counter \<Rightarrow> (string \<Rightarrow> int list) \<Rightarrow> bool" where
  "freq_inv T c h \<longleftrightarrow> distinct (map fst (fq_keys c)) \<and> tracks (T - fq_window c) (map_of (fq_keys c)) h"

text \<open>A successful \<open>Allow\<close> means that fewer than \<open>maxEvents\<close> events of the key were in the window.\<close>

lemma freq_Allow:
  assumes inv: "freq_inv T c h" and T: "T \<le> now" and a: "freqcap_Allow key now c = (ok, c')"
  shows "freq_inv now c' (if ok then h(key := h key @ [now]) else h)"
    and "ok \<Longrightarrow> int (size (recent (now - fq_window c) (h key @ [now]))) \<le> fq_maxEvents c"
    and "fq_window c' = fq_window c \<and> fq_maxEvents c' = fq_maxEvents c"
proof -
  let ?c = "now - fq_window c"
  let ?ts = "slice_of c key"
  let ?tr = "trimBefore ?ts ?c"
  let ?al = "if map_of (fq_keys c) key \<noteq> None then AList.update key (trim_array ?ts ?c) (fq_keys c) else fq_keys c"
  let ?cond = "map_of (fq_keys c) key = None \<or> ?tr = []"
  have d: "distinct (map fst (fq_keys c))" and tr: "tracks ?c (map_of (fq_keys c)) h"
    using inv T tracks_later [of "T - fq_window c" _ h ?c] by (simp_all add: freq_inv_def)
  have hk: "recent ?c (h key) \<subseteq># recent ?c ?ts" using tr by (simp add: tracks_def slice_of_def)
  then have hk_arr: "recent ?c (h key) \<subseteq># recent ?c (trim_array ?ts ?c)"
    using recent_trim_array [of ?c ?ts] subset_mset.trans by blast
  obtain al where al: "al = ?al" "distinct (map fst al)" "tracks ?c (map_of al) h"
    using d tr hk_arr distinct_update [OF d] by (simp add: update_conv' tracks_upd_same)
  let ?k = "if ?cond then evictIdleLocked (fq_window c) al now else al"
  obtain k where k: "k = ?k" "distinct (map fst k)" "tracks ?c (map_of k) h"
    using al(2,3) distinct_evictIdle [OF al(2)] tracks_evictIdle [OF al(2,3)] by (cases ?cond) auto
  have unf: "freqcap_Allow key now c =
      (if fq_maxEvents c \<le> int (length ?tr) then (False, c\<lparr>fq_keys := AList.update key ?tr al\<rparr>)
       else if ?cond \<and> 0 < fq_maxKeys c \<and> fq_maxKeys c \<le> int (length k) then (False, c\<lparr>fq_keys := k\<rparr>)
       else (True, c\<lparr>fq_keys := AList.update key (?tr @ [now]) k\<rparr>))"
    unfolding k(1) al(1) freqcap_Allow_def Let_def by (simp only: length_0_conv not_not)
  have up: "recent ?c (h key @ [now]) \<subseteq># recent ?c (?tr @ [now])"
    using hk by (simp add: recent_def flip: recent_trimBefore [of ?c ?ts, unfolded recent_def])
  have sz: "size (recent ?c (h key)) \<le> length ?tr"
    using size_mset_mono [OF hk] recent_size [of ?c ?tr] by simp
  have sz': "size (recent ?c (h key @ [now])) \<le> Suc (size (recent ?c (h key)))" by (simp add: recent_def)
  show "ok \<Longrightarrow> int (size (recent ?c (h key @ [now]))) \<le> fq_maxEvents c"
    using a unf sz sz' by (auto split: if_splits)
  show "fq_window c' = fq_window c \<and> fq_maxEvents c' = fq_maxEvents c" using a unf by (auto split: if_splits)
  have keep: "recent ?c (h key) \<subseteq># recent ?c ?tr" using hk by simp
  have "freq_inv now (c\<lparr>fq_keys := AList.update key ?tr al\<rparr>) h"
    using al(2,3) keep by (simp add: freq_inv_def distinct_update update_conv' tracks_upd_same)
  moreover have "freq_inv now (c\<lparr>fq_keys := k\<rparr>) h" using k(2,3) by (simp add: freq_inv_def)
  moreover have "freq_inv now (c\<lparr>fq_keys := AList.update key (?tr @ [now]) k\<rparr>) (h(key := h key @ [now]))"
    using k(2,3) up by (simp add: freq_inv_def distinct_update update_conv' tracks_upd)
  ultimately show "freq_inv now c' (if ok then h(key := h key @ [now]) else h)"
    using a unf by (auto split: if_splits)
qed

lemma freq_Count:
  assumes inv: "freq_inv T c h" and T: "T \<le> now"
  shows "freq_inv now (snd (freqcap_Count key now c)) h"
    and "fq_window (snd (freqcap_Count key now c)) = fq_window c \<and> fq_maxEvents (snd (freqcap_Count key now c)) = fq_maxEvents c"
    and "size (recent (now - fq_window c) (h key)) \<le> fst (freqcap_Count key now c)"
proof -
  let ?c = "now - fq_window c"
  have d: "distinct (map fst (fq_keys c))" and tr: "tracks ?c (map_of (fq_keys c)) h"
    using inv T tracks_later [of "T - fq_window c" _ h ?c] by (simp_all add: freq_inv_def)
  show "fq_window (snd (freqcap_Count key now c)) = fq_window c \<and> fq_maxEvents (snd (freqcap_Count key now c)) = fq_maxEvents c"
    by (simp add: freqcap_Count_def Let_def split: option.split)
  have sub: "recent ?c (h key) \<subseteq># recent ?c (case map_of (fq_keys c) key of None \<Rightarrow> [] | Some ts \<Rightarrow> ts)"
    using tr by (simp add: tracks_def)
  show "freq_inv now (snd (freqcap_Count key now c)) h"
  proof (cases "map_of (fq_keys c) key")
    case None
    then show ?thesis using d tr by (simp add: freqcap_Count_def freq_inv_def)
  next
    case (Some ts)
    have kept: "recent ?c (h key) \<subseteq># recent ?c (trimBefore ts ?c)" using sub Some by simp
    then have "tracks ?c ((map_of (fq_keys c))(key := None)) h" if "trimBefore ts ?c = []"
      using tr that by (simp add: tracks_def)
    moreover have "tracks ?c ((map_of (fq_keys c))(key \<mapsto> trimBefore ts ?c)) h"
      using tr kept by (rule tracks_upd_same)
    ultimately show ?thesis using d Some
      by (simp add: freqcap_Count_def freq_inv_def Let_def distinct_update distinct_delete update_conv' delete_conv')
  qed
  show "size (recent ?c (h key)) \<le> fst (freqcap_Count key now c)"
  proof (cases "map_of (fq_keys c) key")
    case None
    then show ?thesis using sub by (simp add: freqcap_Count_def recent_def)
  next
    case (Some ts)
    then have "size (recent ?c (h key)) \<le> length (trimBefore ts ?c)"
      using sub size_mset_mono [of "recent ?c (h key)" "recent ?c ts"] recent_size [of ?c "trimBefore ts ?c"] by simp
    then show ?thesis using Some by (auto simp: freqcap_Count_def Let_def)
  qed
qed

text \<open>Every admitted event found at most \<open>n\<close> events, itself included, in the window that ends with it.\<close>

definition capped :: "int \<Rightarrow> int \<Rightarrow> int list \<Rightarrow> bool" where
  "capped w n xs \<longleftrightarrow> (\<forall>i<length xs. int (size (recent (xs ! i - w) (take (Suc i) xs))) \<le> n)"

lemma capped_snoc: "capped w n xs \<Longrightarrow> int (size (recent (x - w) (xs @ [x]))) \<le> n \<Longrightarrow> capped w n (xs @ [x])"
  by (auto simp: capped_def nth_append less_Suc_eq)

lemma capped_any_window:
  assumes "capped w n xs" and "0 \<le> n"
  shows "int (length (filter (\<lambda>t. a \<le> t \<and> t \<le> a + w) xs)) \<le> n"
proof -
  let ?P = "\<lambda>t. a \<le> t \<and> t \<le> a + w"
  let ?I = "{i. i < length xs \<and> ?P (xs ! i)}"
  show ?thesis
  proof (cases "?I = {}")
    case True
    then have "\<forall>x\<in>set xs. \<not> ?P x" by (auto simp: in_set_conv_nth)
    then have "filter ?P xs = []" by (simp only: filter_empty_conv)
    then show ?thesis using assms(2) by simp
  next
    case False
    define i where "i = Max ?I"
    have fin: "finite ?I" by simp
    have i: "i < length xs" "?P (xs ! i)" using Max_in [OF fin False] by (simp_all add: i_def)
    have "\<not> ?P x" if x: "x \<in> set (drop (Suc i) xs)" for x
    proof
      assume "?P x"
      obtain j where j: "j < length (drop (Suc i) xs)" "drop (Suc i) xs ! j = x"
        using x by (metis in_set_conv_nth)
      then have "Suc i + j \<in> ?I" using \<open>?P x\<close> by auto
      then have "Suc i + j \<le> i" unfolding i_def by (rule Max_ge [OF fin])
      then show False by simp
    qed
    then have "filter ?P (drop (Suc i) xs) = []" by (simp only: filter_empty_conv) blast
    then have "filter ?P xs = filter ?P (take (Suc i) xs)" by (metis append_Nil2 append_take_drop_id filter_append)
    moreover have "length (filter ?P (take (Suc i) xs)) \<le> size (recent (xs ! i - w) (take (Suc i) xs))"
    proof -
      have "filter_mset ?P (mset (take (Suc i) xs)) \<subseteq># recent (xs ! i - w) (take (Suc i) xs)"
        unfolding recent_def using i(2) by (auto simp: subseteq_mset_def)
      from size_mset_mono [OF this] show ?thesis by (simp flip: mset_filter)
    qed
    ultimately show ?thesis using assms(1) i(1) by (force simp: capped_def)
  qed
qed

lemma freq_run:
  assumes "freq_inv T c h" and "\<forall>k. capped (fq_window c) (fq_maxEvents c) (h k)" and "sorted (T # op_times ops)"
    and "fold freq_do ops (c, h) = (c', h')"
  shows "(\<forall>k. capped (fq_window c) (fq_maxEvents c) (h' k)) \<and> fq_maxEvents c' = fq_maxEvents c \<and> fq_window c' = fq_window c"
  using assms
proof (induction ops arbitrary: T c h)
  case (Cons p ops)
  show ?case
  proof (cases p)
    case (FAllow key now)
    obtain ok c1 where a: "freqcap_Allow key now c = (ok, c1)" by fastforce
    have T: "T \<le> now" "sorted (now # op_times ops)" using Cons.prems(3) FAllow by simp_all
    note al = freq_Allow [OF Cons.prems(1) T(1) a]
    have "\<forall>k. capped (fq_window c) (fq_maxEvents c) ((if ok then h(key := h key @ [now]) else h) k)"
      using Cons.prems(2) al(2) capped_snoc by auto
    then show ?thesis using Cons.IH [OF al(1) _ T(2)] al(3) Cons.prems(4) FAllow a by simp
  next
    case (FCount key now)
    have T: "T \<le> now" "sorted (now # op_times ops)" using Cons.prems(3) FCount by simp_all
    note ct = freq_Count [OF Cons.prems(1) T(1), of key]
    show ?thesis using Cons.IH [OF ct(1) _ T(2)] ct(2) Cons.prems(2,4) FCount by simp
  next
    case (FReset key)
    have "freq_inv T (freqcap_Reset key c) (h(key := []))"
      using Cons.prems(1) by (auto simp: freq_inv_def freqcap_Reset_def distinct_delete delete_conv' tracks_def recent_def)
    moreover have "\<forall>k. capped (fq_window c) (fq_maxEvents c) ((h(key := [])) k)"
      using Cons.prems(2) by (simp add: capped_def)
    ultimately show ?thesis using Cons.IH [of T "freqcap_Reset key c" "h(key := [])"] Cons.prems(3,4) FReset
      by (simp add: freqcap_Reset_def fun_upd_def)
  qed
qed simp



text \<open>
  The counter can deny an event below the cap.  With a window of 10 and a cap of 3, a key
  admitted at times 1, 2 and 9 has two events in the window that ends at 12; but when another key
  arrives at that time, the sweep for idle keys compacts the key's array without shortening the
  stored slice, which then counts three, and the next \<open>Allow\<close> of the key at 12 is denied.
\<close>
lemma freqcap_false_denial:
  "let (c, h) = fold freq_do [FAllow ''a'' 1, FAllow ''a'' 2, FAllow ''a'' 9, FAllow ''b'' 12]
                  (\<lparr>fq_window = 10, fq_maxEvents = 3, fq_maxKeys = 0, fq_keys = []\<rparr>, \<lambda>_. [])
   in h ''a'' = [1, 2, 9] \<and> length (filter (\<lambda>t. 12 - 10 \<le> t) (h ''a'')) = 2
      \<and> map_of (fq_keys c) ''a'' = Some [2, 9, 9] \<and> \<not> fst (freqcap_Allow ''a'' 12 c)"
  by (simp add: freqcap_Allow_def Let_def slice_of_def trimBefore_def trim_array_def trim_count_def evictIdleLocked_def)

end
