(* ===== verification/Load_Balance.thy ===== *)
theory Load_Balance
  imports Prelude
begin

section \<open>Weighted load balancing (loadbalance/loadbalance.go)\<close>

text \<open>
  A balancer keeps its entries in insertion order together with the sum of their weights.  Go's
  \<open>int\<close> counters are 64-bit integers that wrap.  The entries are reached through private
  pointers only, so the slice of pointers is a list of records and the best entry of a scan is an
  index.  The random source of the standard library is an argument: \<open>rnd n\<close> is the draw of
  \<open>rand.IntN(n)\<close>, and \<open>None\<close> is its panic on a non-positive bound.

  The main result is the promise of the smooth weighted round-robin: one cycle of \<open>totalWeight\<close>
  picks selects every entry exactly as often as its weight says and restores the balancer, and at
  every moment in between no entry is more than one pick ahead of its share.
\<close>

subsection \<open>State\<close>

record 'a lb_Entry =
  Value :: 'a
  Weight :: int

datatype strategy = StrategySmoothWeightedRR | StrategyRoundRobin | StrategyRandom | StrategyWeightedRandom

record 'a lb_entry =
  lbe_value :: 'a
  lbe_weight :: int
  currentWeight :: int

record 'a balancer =
  lb_id :: "'a \<Rightarrow> string"
  lb_entries :: "'a lb_entry list"
  totalWeight :: int
  rrIdx :: nat
  lb_strategy :: strategy

subsection \<open>Operations\<close>

definition WithStrategy :: "strategy \<Rightarrow> 'a balancer \<Rightarrow> 'a balancer" where
  "WithStrategy s b = b\<lparr>lb_strategy := s\<rparr>"

fun replace_entry :: "('a \<Rightarrow> string) \<Rightarrow> string \<Rightarrow> int \<Rightarrow> 'a lb_entry list \<Rightarrow> int \<Rightarrow> ('a lb_entry list \<times> int) option" where
  "replace_entry idf k w [] tw = None"
| "replace_entry idf k w (ex # rest) tw =
    (if idf (lbe_value ex) = k
     then Some (ex\<lparr>lbe_weight := w, currentWeight := 0\<rparr> # rest, wrap64 (wrap64 (tw - lbe_weight ex) + w))
     else case replace_entry idf k w rest tw of
            None \<Rightarrow> None
          | Some (rest', tw') \<Rightarrow> Some (ex # rest', tw'))"

definition addLocked :: "'a balancer \<Rightarrow> 'a lb_Entry \<Rightarrow> 'a balancer" where
  "addLocked b e =
    (let w = (if Weight e \<le> 0 then 1 else Weight e) in
     case replace_entry (lb_id b) (lb_id b (Value e)) w (lb_entries b) (totalWeight b) of
       Some (es, tw) \<Rightarrow> b\<lparr>lb_entries := es, totalWeight := tw\<rparr>
     | None \<Rightarrow> b\<lparr>lb_entries := lb_entries b @ [\<lparr>lbe_value = Value e, lbe_weight = w, currentWeight = 0\<rparr>],
                 totalWeight := wrap64 (totalWeight b + w)\<rparr>)"

definition lb_Add :: "'a balancer \<Rightarrow> 'a lb_Entry \<Rightarrow> 'a balancer" where
  "lb_Add b e = addLocked b e"

definition lb_New :: "('a \<Rightarrow> string) option \<Rightarrow> ('a \<Rightarrow> string) \<Rightarrow> 'a lb_Entry list \<Rightarrow> ('a balancer \<Rightarrow> 'a balancer) list \<Rightarrow> 'a balancer" where
  "lb_New idf sprintf ents opts =
    (let b = \<lparr>lb_id = (case idf of None \<Rightarrow> sprintf | Some f \<Rightarrow> f), lb_entries = [], totalWeight = 0,
              rrIdx = 0, lb_strategy = StrategySmoothWeightedRR\<rparr> in
     fold (\<lambda>opt b. opt b) opts (foldl addLocked b ents))"

fun remove_loop :: "('a \<Rightarrow> string) \<Rightarrow> string \<Rightarrow> 'a lb_entry list \<Rightarrow> int \<Rightarrow> 'a lb_entry list \<times> int" where
  "remove_loop idf target [] tw = ([], tw)"
| "remove_loop idf target (ex # rest) tw =
    (if idf (lbe_value ex) = target
     then remove_loop idf target rest (wrap64 (tw - lbe_weight ex))
     else let (out, tw') = remove_loop idf target rest tw in (ex # out, tw'))"

definition lb_Remove :: "'a balancer \<Rightarrow> 'a \<Rightarrow> 'a balancer" where
  "lb_Remove b v =
    (let (es, tw) = remove_loop (lb_id b) (lb_id b v) (lb_entries b) (totalWeight b) in
     b\<lparr>lb_entries := es, totalWeight := tw\<rparr>)"

definition lb_Len :: "'a balancer \<Rightarrow> nat" where
  "lb_Len b = length (lb_entries b)"

definition nextRoundRobin :: "'a balancer \<Rightarrow> 'a \<times> 'a balancer" where
  "nextRoundRobin b =
    (let i = (if length (lb_entries b) \<le> rrIdx b then 0 else rrIdx b) in
     (lbe_value (lb_entries b ! i), b\<lparr>rrIdx := i + 1\<rparr>))"

definition nextRandom :: "(int \<Rightarrow> int) \<Rightarrow> 'a balancer \<Rightarrow> 'a" where
  "nextRandom rnd b = lbe_value (lb_entries b ! nat (rnd (int (length (lb_entries b)))))"

fun weighted_scan :: "int \<Rightarrow> int \<Rightarrow> 'a lb_entry list \<Rightarrow> 'a option" where
  "weighted_scan r cum [] = None"
| "weighted_scan r cum (e # es) =
    (let cum' = wrap64 (cum + lbe_weight e) in
     if r < cum' then Some (lbe_value e) else weighted_scan r cum' es)"

definition nextWeightedRandom :: "(int \<Rightarrow> int) \<Rightarrow> 'a balancer \<Rightarrow> 'a option" where
  "nextWeightedRandom rnd b =
    (if totalWeight b \<le> 0 then None
     else case weighted_scan (rnd (totalWeight b)) 0 (lb_entries b) of
            Some v \<Rightarrow> Some v
          | None \<Rightarrow> Some (lbe_value (last (lb_entries b))))"

definition bump :: "'a lb_entry \<Rightarrow> 'a lb_entry" where
  "bump e = e\<lparr>currentWeight := wrap64 (currentWeight e + lbe_weight e)\<rparr>"

fun swrr_loop :: "nat list \<Rightarrow> 'a lb_entry list \<Rightarrow> nat option \<Rightarrow> 'a lb_entry list \<times> nat option" where
  "swrr_loop [] es best = (es, best)"
| "swrr_loop (i # is) es best =
    (let es' = es[i := bump (es ! i)] in
     swrr_loop is es'
       (case best of
          None \<Rightarrow> Some i
        | Some j \<Rightarrow> if currentWeight (es' ! j) < currentWeight (es' ! i) then Some i else Some j))"

definition nextSWRR :: "'a balancer \<Rightarrow> ('a \<times> 'a balancer) option" where
  "nextSWRR b =
    (case swrr_loop [0..<length (lb_entries b)] (lb_entries b) None of
       (es, None) \<Rightarrow> None
     | (es, Some j) \<Rightarrow>
         Some (lbe_value (es ! j),
               b\<lparr>lb_entries := es[j := (es ! j)\<lparr>currentWeight := wrap64 (currentWeight (es ! j) - totalWeight b)\<rparr>]\<rparr>))"

text \<open>
  \<open>Next\<close> answers \<open>Inr None\<close> on an empty balancer, \<open>Inr (Some v)\<close> for a pick and \<open>Inl ()\<close> for a
  panic.
\<close>

definition lb_Next :: "(int \<Rightarrow> int) \<Rightarrow> 'a balancer \<Rightarrow> (unit + 'a option) \<times> 'a balancer" where
  "lb_Next rnd b =
    (if length (lb_entries b) = 0 then (Inr None, b)
     else case lb_strategy b of
            StrategyRoundRobin \<Rightarrow> (let (v, b') = nextRoundRobin b in (Inr (Some v), b'))
          | StrategyRandom \<Rightarrow> (Inr (Some (nextRandom rnd b)), b)
          | StrategyWeightedRandom \<Rightarrow>
              (case nextWeightedRandom rnd b of None \<Rightarrow> (Inl (), b) | Some v \<Rightarrow> (Inr (Some v), b))
          | StrategySmoothWeightedRR \<Rightarrow>
              (case nextSWRR b of None \<Rightarrow> (Inl (), b) | Some (v, b') \<Rightarrow> (Inr (Some v), b')))"

definition lb_All :: "'a balancer \<Rightarrow> 'a lb_Entry list" where
  "lb_All b = map (\<lambda>e. \<lparr>Value = lbe_value e, Weight = lbe_weight e\<rparr>) (lb_entries b)"

subsection \<open>The entries stay consistent\<close>

definition lb_ids :: "'a balancer \<Rightarrow> string list" where
  "lb_ids b = map (\<lambda>e. lb_id b (lbe_value e)) (lb_entries b)"

definition weight_sum :: "'a lb_entry list \<Rightarrow> int" where
  "weight_sum es = (\<Sum>e\<leftarrow>es. lbe_weight e)"

definition lb_inv :: "'a balancer \<Rightarrow> bool" where
  "lb_inv b \<longleftrightarrow> distinct (lb_ids b) \<and> (\<forall>e\<in>set (lb_entries b). 1 \<le> lbe_weight e)
     \<and> totalWeight b = wrap64 (weight_sum (lb_entries b))"

lemma weight_sum_simps [simp]:
  "weight_sum [] = 0" "weight_sum (e # es) = lbe_weight e + weight_sum es"
  "weight_sum (es @ es') = weight_sum es + weight_sum es'"
  by (simp_all add: weight_sum_def)

lemma wrap64_add_wrap [simp]: "wrap64 (wrap64 x + y) = wrap64 (x + y)"
  by (rule wrap64_shift [of x], rule wrap64_mod_cong) (simp add: mod_simps add.assoc [symmetric] add.commute)

lemma wrap64_diff_wrap [simp]: "wrap64 (wrap64 x - y) = wrap64 (x - y)"
  using wrap64_add_wrap [of x "- y"] by simp

lemma wrap64_wrap_add [simp]:
  "wrap64 (y + wrap64 x) = wrap64 (y + x)" "wrap64 (y + wrap64 x - z) = wrap64 (y + x - z)"
  using wrap64_add_wrap [of x y] wrap64_add_wrap [of x "y - z"] by (simp_all add: algebra_simps)

lemma replace_entry_None:
  "replace_entry idf k w es tw = None \<longleftrightarrow> k \<notin> (\<lambda>e. idf (lbe_value e)) ` set es"
  by (induction es) (auto split: option.splits)

lemma replace_entry_Some:
  assumes "replace_entry idf k w es tw = Some (es', tw')"
  shows "map lbe_value es' = map lbe_value es"
    and "set es' \<subseteq> set es \<union> {e. lbe_weight e = w}"
    and "tw' = wrap64 (tw + weight_sum es' - weight_sum es)"
  using assms
proof (induction es arbitrary: es' tw')
  case (Cons e es)
  {
    case 1 with Cons show ?case by (auto split: if_splits option.splits)
  next
    case 2 with Cons show ?case by (fastforce split: if_splits option.splits)
  next
    case 3 with Cons show ?case
      by (auto split: if_splits option.splits simp: algebra_simps)
  }
qed simp_all

lemma addLocked_inv: "lb_inv b \<Longrightarrow> lb_inv (addLocked b e)"
proof (cases "replace_entry (lb_id b) (lb_id b (Value e)) (if Weight e \<le> 0 then 1 else Weight e) (lb_entries b) (totalWeight b)")
  case None
  assume inv: "lb_inv b"
  define w where "w = (if Weight e \<le> 0 then 1 else Weight e)"
  have "addLocked b e = b\<lparr>lb_entries := lb_entries b @ [\<lparr>lbe_value = Value e, lbe_weight = w, currentWeight = 0\<rparr>],
                          totalWeight := wrap64 (totalWeight b + w)\<rparr>"
    using None by (simp add: addLocked_def w_def Let_def)
  moreover have "1 \<le> w" by (simp add: w_def)
  moreover have "lb_id b (Value e) \<notin> set (lb_ids b)"
    using None [unfolded replace_entry_None] by (simp add: lb_ids_def)
  ultimately show ?thesis
    using inv by (auto simp: lb_inv_def lb_ids_def)
next
  case (Some p)
  obtain es tw where p: "p = (es, tw)" by force
  assume inv: "lb_inv b"
  note r = replace_entry_Some [OF Some [unfolded p]]
  have "map (\<lambda>e. lb_id b (lbe_value e)) es = map (\<lambda>e. lb_id b (lbe_value e)) (lb_entries b)"
    using arg_cong [OF r(1), of "map (lb_id b)"] by (simp add: comp_def)
  moreover have "\<forall>e\<in>set es. 1 \<le> lbe_weight e"
    using r(2) inv by (auto simp: lb_inv_def split: if_splits)
  ultimately show ?thesis
    using inv r(3) Some p by (simp add: addLocked_def lb_inv_def lb_ids_def Let_def algebra_simps)
qed

lemma remove_loop_spec:
  "remove_loop idf t es tw = (filter (\<lambda>e. idf (lbe_value e) \<noteq> t) es,
     if (\<forall>e\<in>set es. idf (lbe_value e) \<noteq> t) then tw
     else wrap64 (tw - weight_sum (filter (\<lambda>e. idf (lbe_value e) = t) es)))"
  by (induction es arbitrary: tw) (auto simp: algebra_simps)

lemma weight_sum_filter: "weight_sum es = weight_sum (filter P es) + weight_sum (filter (\<lambda>e. \<not> P e) es)"
  by (induction es) simp_all

lemma lb_Remove_inv:
  assumes inv: "lb_inv b"
  shows "lb_inv (lb_Remove b v)"
proof -
  let ?P = "\<lambda>e. lb_id b (lbe_value e) = lb_id b v"
  let ?es = "filter (\<lambda>e. \<not> ?P e) (lb_entries b)"
  have entries: "lb_entries (lb_Remove b v) = ?es" and idf: "lb_id (lb_Remove b v) = lb_id b"
    by (simp_all add: lb_Remove_def remove_loop_spec split_beta)
  have "totalWeight (lb_Remove b v) = wrap64 (weight_sum ?es)"
  proof (cases "\<forall>e\<in>set (lb_entries b). \<not> ?P e")
    case True
    then have "?es = lb_entries b" by simp
    with True inv show ?thesis by (simp add: lb_Remove_def remove_loop_spec split_beta lb_inv_def)
  next
    case False
    have "weight_sum (lb_entries b) - weight_sum (filter ?P (lb_entries b)) = weight_sum ?es"
      using weight_sum_filter [of "lb_entries b" ?P] by simp
    with False inv show ?thesis
      by (simp add: lb_Remove_def remove_loop_spec split_beta lb_inv_def del: Set.bex_simps)
  qed
  moreover have "distinct (map (\<lambda>e. lb_id b (lbe_value e)) ?es)"
    using inv by (simp add: lb_inv_def lb_ids_def distinct_map_filter)
  ultimately show ?thesis
    using inv by (simp add: lb_inv_def lb_ids_def entries idf)
qed

subsection \<open>One smooth weighted round-robin pick\<close>

lemma bump_simps [simp]: "lbe_value (bump e) = lbe_value e" "lbe_weight (bump e) = lbe_weight e"
  by (simp_all add: bump_def)

lemma swrr_loop_spec:
  assumes "k \<le> length es0" and "es = map bump (take k es0) @ drop k es0"
    and "case best of None \<Rightarrow> k = 0 | Some j \<Rightarrow> j < k \<and> (\<forall>i<k. currentWeight (es ! i) \<le> currentWeight (es ! j))"
  shows "\<exists>best'. swrr_loop [k..<length es0] es best = (map bump es0, best')
    \<and> (case best' of None \<Rightarrow> es0 = []
       | Some j \<Rightarrow> j < length es0 \<and> (\<forall>i<length es0. currentWeight (bump (es0 ! i)) \<le> currentWeight (bump (es0 ! j))))"
  using assms
proof (induction "length es0 - k" arbitrary: k es best)
  case 0
  then show ?case by (auto split: option.splits)
next
  case (Suc d)
  then have k: "k < length es0" by simp
  define es' where "es' = es[k := bump (es ! k)]"
  define best' where "best' = (case best of None \<Rightarrow> k
     | Some j \<Rightarrow> if currentWeight (es' ! j) < currentWeight (es' ! k) then k else j)"
  have len: "length es = length es0" using Suc.prems by simp
  have es': "es' = map bump (take (Suc k) es0) @ drop (Suc k) es0"
    using k Suc.prems(2) by (simp add: es'_def nth_append list_update_append take_Suc_conv_app_nth
        flip: Cons_nth_drop_Suc)
  have old: "es' ! i = es ! i" if "i < k" for i using that by (simp add: es'_def)
  have max: "currentWeight (es' ! i) \<le> currentWeight (es' ! best')" if "i < Suc k" for i
    using that Suc.prems(3) old
    by (cases best) (auto simp: best'_def less_Suc_eq split: if_splits intro: order_trans order.strict_implies_order)
  have "best' < Suc k" using Suc.prems(3) by (auto simp: best'_def split: option.splits)
  have "swrr_loop [k..<length es0] es best = swrr_loop [Suc k..<length es0] es' (Some best')"
    using k by (simp add: upt_conv_Cons es'_def best'_def Let_def option.case_distrib [of Some] split: option.splits)
  with Suc.hyps(1) [of "Suc k" es' "Some best'"] es' max \<open>best' < Suc k\<close> k Suc.hyps(2) show ?case
    by simp
qed

lemma nextSWRR_spec:
  assumes "lb_entries b \<noteq> []"
  obtains j where "j < length (lb_entries b)"
    and "\<And>i. i < length (lb_entries b) \<Longrightarrow> currentWeight (bump (lb_entries b ! i)) \<le> currentWeight (bump (lb_entries b ! j))"
    and "nextSWRR b = Some (lbe_value (lb_entries b ! j),
           b\<lparr>lb_entries := (map bump (lb_entries b))[j := (bump (lb_entries b ! j))
              \<lparr>currentWeight := wrap64 (currentWeight (bump (lb_entries b ! j)) - totalWeight b)\<rparr>]\<rparr>)"
proof -
  from swrr_loop_spec [of 0 "lb_entries b" "lb_entries b" None] assms
  obtain j where "swrr_loop [0..<length (lb_entries b)] (lb_entries b) None = (map bump (lb_entries b), Some j)"
    and j: "j < length (lb_entries b)"
    and "\<forall>i<length (lb_entries b). currentWeight (bump (lb_entries b ! i)) \<le> currentWeight (bump (lb_entries b ! j))"
    by (auto split: option.splits)
  with that [of j] show ?thesis by (simp add: nextSWRR_def)
qed

subsection \<open>A cycle of picks is proportional to the weights\<close>

text \<open>
  After the picks \<open>ps\<close> the running weight of an entry is its lag: the share its weight has earned
  less what it has been served, both counted in units of the total weight.
\<close>

definition lag :: "int \<Rightarrow> 'a list \<Rightarrow> 'a lb_entry \<Rightarrow> int" where
  "lag tw ps e = int (length ps) * lbe_weight e - tw * int (count_list ps (lbe_value e))"

definition at_lag :: "'a balancer \<Rightarrow> 'a list \<Rightarrow> 'a balancer" where
  "at_lag b ps = b\<lparr>lb_entries := map (\<lambda>e. e\<lparr>currentWeight := lag (totalWeight b) ps e\<rparr>) (lb_entries b)\<rparr>"

text \<open>The balancers the guarantee is about: consistent, fresh, and small enough not to wrap.\<close>

definition swrr_ready :: "'a balancer \<Rightarrow> bool" where
  "swrr_ready b \<longleftrightarrow> lb_inv b \<and> lb_entries b \<noteq> [] \<and> lb_strategy b = StrategySmoothWeightedRR
     \<and> (\<forall>e\<in>set (lb_entries b). currentWeight e = 0)
     \<and> int (length (lb_entries b)) * weight_sum (lb_entries b) \<le> MaxInt64"

fun lb_picks :: "(int \<Rightarrow> int) \<Rightarrow> nat \<Rightarrow> 'a balancer \<Rightarrow> 'a list \<times> 'a balancer" where
  "lb_picks rnd 0 b = ([], b)"
| "lb_picks rnd (Suc n) b =
    (let (ps, b') = lb_picks rnd n b; (r, b'') = lb_Next rnd b' in
     (case r of Inr (Some v) \<Rightarrow> ps @ [v] | _ \<Rightarrow> ps, b''))"

definition served_fairly :: "'a balancer \<Rightarrow> 'a list \<Rightarrow> bool" where
  "served_fairly b ps \<longleftrightarrow> set ps \<subseteq> lbe_value ` set (lb_entries b)
     \<and> (\<forall>e\<in>set (lb_entries b). - totalWeight b < lag (totalWeight b) ps e)"

lemma weight_sum_pos: "(\<forall>e\<in>set es. 1 \<le> lbe_weight e) \<Longrightarrow> int (length es) \<le> weight_sum es"
  by (induction es) auto

lemma swrr_ready_facts:
  assumes "swrr_ready b"
  shows "distinct (map lbe_value (lb_entries b))" and "totalWeight b = weight_sum (lb_entries b)"
    and "0 < totalWeight b" and "\<And>e. e \<in> set (lb_entries b) \<Longrightarrow> 1 \<le> lbe_weight e"
    and "int (length (lb_entries b)) * totalWeight b \<le> MaxInt64"
proof -
  have inv: "lb_inv b" and ne: "lb_entries b \<noteq> []"
    and fits: "int (length (lb_entries b)) * weight_sum (lb_entries b) \<le> MaxInt64"
    using assms by (simp_all add: swrr_ready_def)
  show "distinct (map lbe_value (lb_entries b))"
    using inv by (auto simp: lb_inv_def lb_ids_def distinct_map inj_on_def)
  have w: "\<forall>e\<in>set (lb_entries b). 1 \<le> lbe_weight e" using inv by (simp add: lb_inv_def)
  then show "e \<in> set (lb_entries b) \<Longrightarrow> 1 \<le> lbe_weight e" for e by simp
  have "0 < int (length (lb_entries b))" using ne by simp
  with weight_sum_pos [OF w] have pos: "0 < weight_sum (lb_entries b)" by linarith
  have "1 * weight_sum (lb_entries b) \<le> int (length (lb_entries b)) * weight_sum (lb_entries b)"
    using ne pos by (intro mult_right_mono) (cases "lb_entries b", simp_all)
  with fits have "weight_sum (lb_entries b) \<le> MaxInt64" by linarith
  with pos have "in_i64 (weight_sum (lb_entries b))"
    by (simp add: in_i64_def MinInt64_def)
  with inv show tw: "totalWeight b = weight_sum (lb_entries b)" by (simp add: lb_inv_def)
  show "0 < totalWeight b" and "int (length (lb_entries b)) * totalWeight b \<le> MaxInt64"
    using pos fits tw by simp_all
qed

lemma lag_sum_zero:
  assumes "distinct (map lbe_value es)" and "set ps \<subseteq> lbe_value ` set es" and "tw = weight_sum es"
  shows "(\<Sum>e\<leftarrow>es. lag tw ps e) = 0"
proof -
  have "(\<Sum>e\<leftarrow>es. count_list ps (lbe_value e)) = (\<Sum>v\<leftarrow>map lbe_value es. count_list ps v)"
    by (simp add: comp_def)
  also have "\<dots> = (\<Sum>v\<in>set (map lbe_value es). count_list ps v)"
    using assms(1) by (rule sum_list_distinct_conv_sum_set)
  also have "\<dots> = length ps"
    using assms(2) by (intro sum_count_set) simp_all
  finally have c: "(\<Sum>e\<leftarrow>es. int (count_list ps (lbe_value e))) = int (length ps)"
    by (metis (mono_tags, lifting) map_eq_conv map_map o_apply sum_list_of_nat)
  have "(\<Sum>e\<leftarrow>es. lag tw ps e)
      = int (length ps) * weight_sum es - tw * (\<Sum>e\<leftarrow>es. int (count_list ps (lbe_value e)))"
    by (simp add: lag_def sum_list_subtractf sum_list_const_mult weight_sum_def)
  then show ?thesis by (simp add: c assms(3))
qed

lemma sum_list_lower:
  fixes f :: "'b \<Rightarrow> int"
  shows "(\<And>x. x \<in> set xs \<Longrightarrow> - m \<le> f x) \<Longrightarrow> - (m * int (length xs)) \<le> (\<Sum>x\<leftarrow>xs. f x)"
proof (induction xs)
  case (Cons x xs)
  then have "- m \<le> f x" and "- (m * int (length xs)) \<le> (\<Sum>x\<leftarrow>xs. f x)" by simp_all
  then show ?case by (simp add: algebra_simps)
qed simp

lemma lag_upper:
  assumes "swrr_ready b" and "served_fairly b ps" and e: "e \<in> set (lb_entries b)"
  shows "lag (totalWeight b) ps e + lbe_weight e \<le> MaxInt64"
proof -
  note r = swrr_ready_facts [OF assms(1)]
  let ?T = "totalWeight b" and ?f = "lag (totalWeight b) ps"
  obtain xs ys where es: "lb_entries b = xs @ e # ys" using e by (auto simp: in_set_conv_decomp)
  have low: "- ?T \<le> ?f x" if "x \<in> set (xs @ ys)" for x
    using assms(2) that es by (auto simp: served_fairly_def intro: order.strict_implies_order)
  have "(\<Sum>e\<leftarrow>lb_entries b. ?f e) = 0"
    using r(1,2) assms(2) by (intro lag_sum_zero) (simp_all add: served_fairly_def)
  then have "?f e = - (\<Sum>e\<leftarrow>xs @ ys. ?f e)" by (simp add: es)
  then have "?f e \<le> ?T * int (length (xs @ ys))"
    using sum_list_lower [of "xs @ ys" ?T ?f] low by simp
  moreover have "lbe_weight e \<le> ?T"
  proof -
    have "\<forall>x\<in>set (xs @ ys). 1 \<le> lbe_weight x" using r(4) es by auto
    from weight_sum_pos [OF this] have "0 \<le> weight_sum (xs @ ys)" by linarith
    then show ?thesis using r(2) by (simp add: es)
  qed
  moreover have "?T * int (length (xs @ ys)) + ?T = int (length (lb_entries b)) * ?T"
    by (simp add: es algebra_simps)
  ultimately show ?thesis using r(5) by linarith
qed

lemma lag_pick:
  "lag tw (ps @ [v]) e = lag tw ps e + lbe_weight e - (if lbe_value e = v then tw else 0)"
  by (simp add: lag_def algebra_simps)

lemma bump_at_lag:
  assumes "swrr_ready b" and "served_fairly b ps" and "e \<in> set (lb_entries b)"
  shows "bump (e\<lparr>currentWeight := lag (totalWeight b) ps e\<rparr>) = e\<lparr>currentWeight := lag (totalWeight b) ps e + lbe_weight e\<rparr>"
proof -
  have "- totalWeight b < lag (totalWeight b) ps e" using assms(2,3) by (simp add: served_fairly_def)
  moreover have "totalWeight b \<le> MaxInt64"
    using assms(1) wrap64_in_i64 [of "weight_sum (lb_entries b)"] by (simp add: swrr_ready_def lb_inv_def in_i64_def)
  ultimately have "in_i64 (lag (totalWeight b) ps e + lbe_weight e)"
    using lag_upper [OF assms] swrr_ready_facts(4) [OF assms(1,3)]
    by (simp add: in_i64_def MinInt64_def MaxInt64_def)
  then show ?thesis by (simp add: bump_def)
qed

lemma heaviest_positive:
  assumes "swrr_ready b" and "served_fairly b ps"
  shows "\<exists>e\<in>set (lb_entries b). 0 < lag (totalWeight b) ps e + lbe_weight e"
proof (rule ccontr)
  note r = swrr_ready_facts [OF assms(1)]
  assume "\<not> ?thesis"
  then have "(\<Sum>e\<leftarrow>lb_entries b. lag (totalWeight b) ps e + lbe_weight e) \<le> 0"
    by (intro sum_list_nonpos) auto
  moreover have "(\<Sum>e\<leftarrow>lb_entries b. lag (totalWeight b) ps e) = 0"
    using r(1,2) assms(2) by (intro lag_sum_zero) (simp_all add: served_fairly_def)
  ultimately show False using r(2,3) by (simp add: sum_list_addf weight_sum_def)
qed

lemma swrr_step:
  assumes ready: "swrr_ready b" and fair: "served_fairly b ps"
  shows "\<exists>v. lb_Next rnd (at_lag b ps) = (Inr (Some v), at_lag b (ps @ [v])) \<and> served_fairly b (ps @ [v])"
proof -
  note r = swrr_ready_facts [OF ready] and bump = bump_at_lag [OF ready fair]
  let ?es = "lb_entries b" and ?T = "totalWeight b" and ?b = "at_lag b ps"
  let ?at = "\<lambda>e. e\<lparr>currentWeight := lag ?T ps e\<rparr>"
  have ne: "?es \<noteq> []" using ready by (simp add: swrr_ready_def)
  have bi: "bump (?at (?es ! i)) = (?es ! i)\<lparr>currentWeight := lag ?T ps (?es ! i) + lbe_weight (?es ! i)\<rparr>"
    if "i < length ?es" for i using that bump by simp
  from nextSWRR_spec [of ?b] ne obtain j where j: "j < length ?es"
    and max: "\<And>i. i < length ?es \<Longrightarrow> lag ?T ps (?es ! i) + lbe_weight (?es ! i) \<le> lag ?T ps (?es ! j) + lbe_weight (?es ! j)"
    and next_eq: "nextSWRR ?b = Some (lbe_value (?es ! j), ?b\<lparr>lb_entries := (map bump (map ?at ?es))
        [j := (?es ! j)\<lparr>currentWeight := wrap64 (lag ?T ps (?es ! j) + lbe_weight (?es ! j) - ?T)\<rparr>]\<rparr>)"
    by (auto simp: at_lag_def bi)
  define v where "v = lbe_value (?es ! j)"
  from heaviest_positive [OF ready fair] obtain i where "i < length ?es" and "0 < lag ?T ps (?es ! i) + lbe_weight (?es ! i)"
    by (auto simp: in_set_conv_nth)
  with max have pos: "0 < lag ?T ps (?es ! j) + lbe_weight (?es ! j)" by fastforce
  have "in_i64 (lag ?T ps (?es ! j) + lbe_weight (?es ! j) - ?T)"
    using pos lag_upper [OF ready fair, of "?es ! j"] j r(3) wrap64_in_i64 [of "weight_sum ?es"] ready
    by (simp add: in_i64_def MinInt64_def MaxInt64_def swrr_ready_def lb_inv_def)
  moreover have same: "lbe_value (?es ! i) = v \<longleftrightarrow> i = j" if "i < length ?es" for i
    using r(1) j that by (auto simp: v_def distinct_conv_nth)
  ultimately have "(map bump (map ?at ?es))
        [j := (?es ! j)\<lparr>currentWeight := wrap64 (lag ?T ps (?es ! j) + lbe_weight (?es ! j) - ?T)\<rparr>]
      = map (\<lambda>e. e\<lparr>currentWeight := lag ?T (ps @ [v]) e\<rparr>) ?es"
    using j by (intro nth_equalityI) (auto simp: nth_list_update bi lag_pick)
  then have "lb_Next rnd ?b = (Inr (Some v), at_lag b (ps @ [v]))"
    using next_eq ne ready by (simp add: lb_Next_def at_lag_def v_def swrr_ready_def)
  moreover have "- ?T < lag ?T (ps @ [v]) (?es ! i)" if "i < length ?es" for i
  proof (cases "i = j")
    case True then show ?thesis using pos same [OF j] by (simp add: lag_pick)
  next
    case False
    have "- ?T < lag ?T ps (?es ! i)" and "1 \<le> lbe_weight (?es ! i)"
      using fair that r(4) by (simp_all add: served_fairly_def)
    with False same [OF that] show ?thesis by (simp add: lag_pick)
  qed
  then have "served_fairly b (ps @ [v])"
    using fair j by (fastforce simp: served_fairly_def v_def in_set_conv_nth [of _ ?es])
  ultimately show ?thesis by blast
qed

lemma at_lag_Nil: "swrr_ready b \<Longrightarrow> at_lag b [] = b"
  by (cases b) (auto simp: at_lag_def lag_def swrr_ready_def intro!: map_idI)

lemma swrr_run:
  assumes "swrr_ready b"
  shows "\<exists>ps. lb_picks rnd n b = (ps, at_lag b ps) \<and> length ps = n \<and> served_fairly b ps"
proof (induction n)
  case 0
  show ?case
    using at_lag_Nil [OF assms] swrr_ready_facts(3) [OF assms] by (simp add: served_fairly_def lag_def)
next
  case (Suc n)
  then obtain ps where ps: "lb_picks rnd n b = (ps, at_lag b ps)" "length ps = n" "served_fairly b ps" by blast
  from swrr_step [OF assms ps(3), of rnd] obtain v where
    "lb_Next rnd (at_lag b ps) = (Inr (Some v), at_lag b (ps @ [v]))" "served_fairly b (ps @ [v])" by blast
  with ps show ?case by simp
qed

lemma full_cycle_lag:
  assumes ready: "swrr_ready b" and "served_fairly b ps" and n: "int (length ps) = totalWeight b"
    and e: "e \<in> set (lb_entries b)"
  shows "lag (totalWeight b) ps e = 0"
proof -
  let ?T = "totalWeight b"
  note r = swrr_ready_facts [OF ready]
  have lag: "lag ?T ps x = ?T * (lbe_weight x - int (count_list ps (lbe_value x)))" for x
    by (simp add: lag_def n algebra_simps)
  have nonneg: "0 \<le> lag ?T ps x" if "x \<in> set (lb_entries b)" for x
  proof -
    have "- ?T < ?T * (lbe_weight x - int (count_list ps (lbe_value x)))"
      using assms(2) that by (simp add: served_fairly_def lag)
    then have "?T * (- 1) < ?T * (lbe_weight x - int (count_list ps (lbe_value x)))" by simp
    with r(3) have "- 1 < lbe_weight x - int (count_list ps (lbe_value x))"
      by (simp only: mult_less_cancel_left_pos)
    with r(3) show ?thesis unfolding lag by simp
  qed
  have "(\<Sum>e\<leftarrow>lb_entries b. lag ?T ps e) = 0"
    using r(1,2) assms(2) by (intro lag_sum_zero) (simp_all add: served_fairly_def)
  with nonneg e show ?thesis by (subst (asm) sum_list_nonneg_eq_0_iff) auto
qed

lemma foldl_addLocked:
  assumes "lb_inv b" and "\<forall>e\<in>set (lb_entries b). currentWeight e = 0"
  shows "lb_inv (foldl addLocked b ents) \<and> (\<forall>e\<in>set (lb_entries (foldl addLocked b ents)). currentWeight e = 0)
    \<and> lb_strategy (foldl addLocked b ents) = lb_strategy b
    \<and> lb_id (foldl addLocked b ents) = lb_id b"
  using assms
proof (induction ents arbitrary: b)
  case (Cons e ents)
  have "\<forall>e\<in>set es'. currentWeight e = 0"
    if "replace_entry idf k w es tw = Some (es', tw')" "\<forall>e\<in>set es. currentWeight e = 0"
    for idf k w es tw tw' and es' :: "'a lb_entry list"
    using that by (induction es arbitrary: es' tw') (auto split: if_splits option.splits)
  then have "\<forall>x\<in>set (lb_entries (addLocked b e)). currentWeight x = 0"
    using Cons.prems(2) by (auto simp: addLocked_def Let_def split: option.splits)
  moreover have "lb_strategy (addLocked b e) = lb_strategy b" "lb_id (addLocked b e) = lb_id b"
    by (auto simp: addLocked_def Let_def split: option.splits)
  ultimately show ?case using Cons.IH [of "addLocked b e"] addLocked_inv [OF Cons.prems(1)] by simp
qed simp

lemma empty_inv: "lb_entries b = [] \<Longrightarrow> totalWeight b = 0 \<Longrightarrow> lb_inv b"
  by (simp add: lb_inv_def lb_ids_def in_i64_def MinInt64_def MaxInt64_def)

lemma lb_New_inv:
  "lb_inv (lb_New idf sprintf ents [])" "lb_strategy (lb_New idf sprintf ents []) = StrategySmoothWeightedRR"
  "\<forall>e\<in>set (lb_entries (lb_New idf sprintf ents [])). currentWeight e = 0"
  using foldl_addLocked [of "\<lparr>lb_id = case idf of None \<Rightarrow> sprintf | Some f \<Rightarrow> f, lb_entries = [], totalWeight = 0,
              rrIdx = 0, lb_strategy = StrategySmoothWeightedRR\<rparr>" ents]
  by (simp_all add: lb_New_def empty_inv)

text \<open>
  C9. The smooth weighted round-robin is exactly proportional.  A balancer built by \<open>New\<close> from at
  least one entry, with weights small enough that no 64-bit counter wraps, answers every \<open>Next\<close>
  with one of its entries; after any \<open>n\<close> picks no entry has been served a full pick more than
  its share \<open>n * weight / totalWeight\<close>; and after \<open>totalWeight\<close> picks every entry has been served
  exactly as often as its weight says and the balancer is back in its initial state, so that the
  cycle repeats.
\<close>

theorem swrr_proportional:
  assumes "b = lb_New idf sprintf ents []" and "lb_entries b \<noteq> []"
    and "int (length (lb_entries b)) * weight_sum (lb_entries b) \<le> MaxInt64"
  shows "(\<forall>n. length (fst (lb_picks rnd n b)) = n \<and> set (fst (lb_picks rnd n b)) \<subseteq> Value ` set (lb_All b)
      \<and> (\<forall>e\<in>set (lb_All b). totalWeight b * int (count_list (fst (lb_picks rnd n b)) (Value e))
            < int n * Weight e + totalWeight b))
    \<and> (\<forall>e\<in>set (lb_All b). int (count_list (fst (lb_picks rnd (nat (totalWeight b)) b)) (Value e)) = Weight e)
    \<and> snd (lb_picks rnd (nat (totalWeight b)) b) = b"
proof -
  have ready: "swrr_ready b"
    using assms lb_New_inv [of idf sprintf ents] by (simp add: swrr_ready_def)
  let ?T = "totalWeight b"
  have T: "0 < ?T" by (rule swrr_ready_facts(3) [OF ready])
  have a: "length (fst (lb_picks rnd n b)) = n" for n using swrr_run [OF ready, of rnd n] by auto
  have b: "set (fst (lb_picks rnd n b)) \<subseteq> Value ` set (lb_All b)" for n
    using swrr_run [OF ready, of rnd n] by (auto simp: served_fairly_def lb_All_def image_image)
  have c: "?T * int (count_list (fst (lb_picks rnd n b)) (Value e)) < int n * Weight e + ?T" if "e \<in> set (lb_All b)" for n e
    using swrr_run [OF ready, of rnd n] that by (force simp: served_fairly_def lb_All_def lag_def)
  obtain ps where ps: "lb_picks rnd (nat ?T) b = (ps, at_lag b ps)" "length ps = nat ?T" "served_fairly b ps"
    using swrr_run [OF ready] by blast
  then have zero: "lag ?T ps e = 0" if "e \<in> set (lb_entries b)" for e
    using full_cycle_lag [OF ready ps(3)] that T by simp
  then have d: "int (count_list (fst (lb_picks rnd (nat ?T) b)) (Value e)) = Weight e" if "e \<in> set (lb_All b)" for e
    using that ps(1,2) T by (auto simp: lb_All_def lag_def)
  have "at_lag b ps = at_lag b []"
    using zero by (simp add: at_lag_def lag_def [of _ "[]"] cong: map_cong)
  then have "snd (lb_picks rnd (nat ?T) b) = b"
    using at_lag_Nil [OF ready] ps(1) by simp
  with a b c d show ?thesis by simp
qed

theorem swrr_proportional_witness:
  "fst (lb_picks (\<lambda>n. 0) 7 (lb_New None (\<lambda>s. s) [\<lparr>Value = ''a'', Weight = 5\<rparr>, \<lparr>Value = ''b'', Weight = 1\<rparr>, \<lparr>Value = ''c'', Weight = 0\<rparr>] []))
     = [''a'', ''a'', ''b'', ''a'', ''c'', ''a'', ''a'']
   \<and> snd (lb_picks (\<lambda>n. 0) 7 (lb_New None (\<lambda>s. s) [\<lparr>Value = ''a'', Weight = 5\<rparr>, \<lparr>Value = ''b'', Weight = 1\<rparr>, \<lparr>Value = ''c'', Weight = 0\<rparr>] []))
     = lb_New None (\<lambda>s. s) [\<lparr>Value = ''a'', Weight = 5\<rparr>, \<lparr>Value = ''b'', Weight = 1\<rparr>, \<lparr>Value = ''c'', Weight = 0\<rparr>] []"
proof -
  let ?b = "lb_New None (\<lambda>s. s) [\<lparr>Value = ''a'', Weight = 5\<rparr>, \<lparr>Value = ''b'', Weight = 1\<rparr>, \<lparr>Value = ''c'', Weight = 0\<rparr>] []"
  have b: "lb_entries ?b \<noteq> []" "int (length (lb_entries ?b)) * weight_sum (lb_entries ?b) \<le> MaxInt64" "totalWeight ?b = 7"
    by code_simp+
  have "fst (lb_picks (\<lambda>n. 0) 7 ?b) = [''a'', ''a'', ''b'', ''a'', ''c'', ''a'', ''a'']"
    by code_simp
  with swrr_proportional [OF refl b(1,2), of "\<lambda>n. 0"] b(3) show ?thesis by simp
qed


subsection \<open>The other strategies\<close>

lemma weighted_scan_member: "weighted_scan r cum es = Some v \<Longrightarrow> v \<in> lbe_value ` set es"
  by (induction es arbitrary: cum) (auto simp: Let_def split: if_splits)

lemma weighted_scan_share:
  assumes "\<forall>e\<in>set es. 1 \<le> lbe_weight e" and "distinct (map lbe_value es)" and "0 \<le> cum"
    and "cum + weight_sum es \<le> MaxInt64" and "e \<in> set es"
  shows "int (card {r \<in> {cum..<cum + weight_sum es}. weighted_scan r cum es = Some (lbe_value e)}) = lbe_weight e"
  using assms
proof (induction es arbitrary: cum)
  case (Cons x xs)
  let ?cum = "cum + lbe_weight x"
  let ?hits = "\<lambda>cum xs. {r \<in> {cum..<cum + weight_sum xs}. weighted_scan r cum xs = Some (lbe_value e)}"
  have w: "1 \<le> lbe_weight x" and xs: "0 \<le> weight_sum xs"
    using Cons.prems(1) weight_sum_pos [of xs] by auto
  then have wrap: "wrap64 ?cum = ?cum" using Cons.prems(3,4) by (simp add: in_i64_def MinInt64_def)
  show ?case
  proof (cases "e = x")
    case True
    then have "?hits cum (x # xs) = {cum..<?cum}"
      using Cons.prems(2) xs by (auto simp: wrap Let_def split: if_splits dest: weighted_scan_member)
    then show ?thesis using True w by simp
  next
    case False
    then have "lbe_value x \<noteq> lbe_value e" using Cons.prems(2,5) by auto
    then have "?hits cum (x # xs) = ?hits ?cum xs"
      using w by (auto simp: wrap Let_def add.assoc split: if_splits)
    then show ?thesis using Cons.IH [of ?cum] Cons.prems False w by (simp add: add.assoc)
  qed
qed simp

lemma weighted_scan_hits:
  assumes "\<forall>e\<in>set es. 1 \<le> lbe_weight e" and "r < cum + weight_sum es" and "cum \<le> r" and "0 \<le> cum"
    and "cum + weight_sum es \<le> MaxInt64"
  shows "weighted_scan r cum es \<noteq> None"
  using assms
proof (induction es arbitrary: cum)
  case (Cons x xs)
  have "0 \<le> weight_sum xs" using Cons.prems(1) weight_sum_pos [of xs] by auto
  then have "wrap64 (cum + lbe_weight x) = cum + lbe_weight x"
    using Cons.prems by (simp add: in_i64_def MinInt64_def)
  then show ?case using Cons.IH [of "cum + lbe_weight x"] Cons.prems by (simp add: Let_def del: not_None_eq)
qed simp

lemma lb_All_picked:
  "j < length (lb_entries b) \<Longrightarrow> lb_All (b\<lparr>lb_entries := (map bump (lb_entries b))[j := (bump (lb_entries b ! j))\<lparr>currentWeight := c\<rparr>]\<rparr>)
     = map (\<lambda>e. \<lparr>Value = lbe_value e, Weight = lbe_weight e\<rparr>) (lb_entries b)"
  by (simp add: lb_All_def map_update comp_def) (metis (mono_tags, lifting) list_update_id nth_map)

text \<open>
  Whatever the strategy, \<open>Next\<close> on a consistent balancer whose weights fit reports an empty
  balancer exactly when there is no entry and otherwise returns one of the entries, so a removed
  value is not picked again, and it keeps the entries' values and weights.  Under the
  weighted-random strategy exactly \<open>weight\<close> of the \<open>totalWeight\<close> equally likely draws select an
  entry.
\<close>
lemma lb_next_sound:
  assumes inv: "lb_inv b" and fits: "weight_sum (lb_entries b) \<le> MaxInt64" and rnd: "\<And>n. 0 < n \<Longrightarrow> 0 \<le> rnd n \<and> rnd n < n"
  shows "(lb_entries b = [] \<longrightarrow> lb_Next rnd b = (Inr None, b))
    \<and> (lb_entries b \<noteq> [] \<longrightarrow> (\<exists>e\<in>set (lb_All b). fst (lb_Next rnd b) = Inr (Some (Value e))))
    \<and> lb_All (snd (lb_Next rnd b)) = lb_All b
    \<and> (\<forall>e\<in>set (lb_All (lb_Remove b v)). lb_id b (Value e) \<noteq> lb_id b v)
    \<and> (\<forall>e\<in>set (lb_All b). int (card {r \<in> {0..<totalWeight b}. nextWeightedRandom (\<lambda>_. r) b = Some (Value e)}) = Weight e)"
proof -
  let ?es = "lb_entries b"
  have w: "\<forall>e\<in>set ?es. 1 \<le> lbe_weight e" and dist: "distinct (map lbe_value ?es)"
    using inv by (auto simp: lb_inv_def lb_ids_def distinct_map inj_on_def)
  have tw: "totalWeight b = weight_sum ?es"
    using inv fits weight_sum_pos [OF w] by (simp add: lb_inv_def in_i64_def MinInt64_def)
  have mem: "\<exists>e\<in>set ?es. fst (lb_Next rnd b) = Inr (Some (lbe_value e))" and keep: "lb_All (snd (lb_Next rnd b)) = lb_All b"
    if ne: "?es \<noteq> []"
  proof -
    have pos: "0 < totalWeight b" using weight_sum_pos [OF w] tw ne by (cases ?es) simp_all
    obtain j where j: "j < length ?es" and swrr: "nextSWRR b = Some (lbe_value (?es ! j), b\<lparr>lb_entries :=
        (map bump ?es)[j := (bump (?es ! j))\<lparr>currentWeight := wrap64 (currentWeight (bump (?es ! j)) - totalWeight b)\<rparr>]\<rparr>)"
      using nextSWRR_spec [OF ne] by blast
    have "nat (rnd (int (length ?es))) < length ?es"
      using rnd [of "int (length ?es)"] ne by (cases ?es) auto
    then show "\<exists>e\<in>set ?es. fst (lb_Next rnd b) = Inr (Some (lbe_value e))"
      using ne j swrr pos
      by (cases "lb_strategy b")
        (auto simp: lb_Next_def nextRoundRobin_def nextRandom_def nextWeightedRandom_def Let_def
          split: option.splits dest!: weighted_scan_member)
    show "lb_All (snd (lb_Next rnd b)) = lb_All b"
      using ne j swrr
      by (cases "lb_strategy b")
        (simp_all add: lb_Next_def nextRoundRobin_def lb_All_picked lb_All_def [of b] split: option.splits,
          simp_all add: lb_All_def Let_def)
  qed
  have "int (card {r \<in> {0..<totalWeight b}. nextWeightedRandom (\<lambda>_. r) b = Some (lbe_value e)}) = lbe_weight e"
    if "e \<in> set ?es" for e
  proof -
    have "nextWeightedRandom (\<lambda>_. r) b = weighted_scan r 0 ?es" if "0 \<le> r" "r < totalWeight b" for r
      using weighted_scan_hits [OF w, of r 0] that tw fits
      by (cases "weighted_scan r 0 ?es") (auto simp: nextWeightedRandom_def)
    then have "{r \<in> {0..<totalWeight b}. nextWeightedRandom (\<lambda>_. r) b = Some (lbe_value e)}
        = {r \<in> {0..<0 + weight_sum ?es}. weighted_scan r 0 ?es = Some (lbe_value e)}"
      by (auto simp: tw)
    then show ?thesis using weighted_scan_share [OF w dist _ _ that, of 0] fits by simp
  qed
  then have "\<forall>e\<in>set (lb_All b). int (card {r \<in> {0..<totalWeight b}. nextWeightedRandom (\<lambda>_. r) b = Some (Value e)}) = Weight e"
    by (simp add: lb_All_def)
  moreover have "\<forall>e\<in>set (lb_All (lb_Remove b v)). lb_id b (Value e) \<noteq> lb_id b v"
    by (simp add: lb_All_def lb_Remove_def remove_loop_spec split_beta)
  moreover have "?es = [] \<longrightarrow> lb_Next rnd b = (Inr None, b)" by (simp add: lb_Next_def)
  moreover have "\<exists>e\<in>set (lb_All b). fst (lb_Next rnd b) = Inr (Some (Value e))" if "?es \<noteq> []"
    using mem [OF that] by (simp add: lb_All_def)
  ultimately show ?thesis using keep by (cases "?es = []") simp_all
qed

end
