(* ===== verification/Float64.thy ===== *)
theory Float64
  imports Prelude "HOL-Library.Log_Nat"
begin

section \<open>Binary64 arithmetic\<close>

text \<open>
  Go's \<open>float64\<close> operations return the exact result rounded to the nearest multiple of a power of
  two with a 53-bit significand, ties to even.  A finite \<open>float64\<close> is modelled by its rational
  value and \<open>fl64\<close> is that rounding, so that \<open>x / y\<close> of the source is \<open>fl64 (x / y)\<close> and the
  conversion \<open>float64(n)\<close> is \<open>fl64 (of_int n)\<close>.  The values the components compute are zero or of
  magnitude between \<open>2^-100\<close> and \<open>2^100\<close>, where there is neither underflow nor overflow; infinities,
  NaN and subnormal numbers are not modelled.  The theory shows that the rounding is monotone and
  exact on integers up to \<open>2^53\<close>.
\<close>

definition round_even :: "rat \<Rightarrow> int" where
  "round_even x =
    (let n = \<lfloor>x\<rfloor>; d = x - of_int n in
     if d < 1 / 2 then n else if 1 / 2 < d then n + 1 else if even n then n else n + 1)"

text \<open>The binary exponent of a positive rational: \<open>2 powi e \<le> q < 2 powi (e + 1)\<close>.\<close>

definition fexp :: "rat \<Rightarrow> int" where
  "fexp q = (if 1 \<le> q then int (floorlog 2 (nat \<lfloor>q\<rfloor>)) - 1 else - int (ceillog2 (nat \<lceil>1 / q\<rceil>)))"

definition fl64_pos :: "rat \<Rightarrow> rat" where
  "fl64_pos q = of_int (round_even (q * 2 powi (52 - fexp q))) * 2 powi (fexp q - 52)"

definition fl64 :: "rat \<Rightarrow> rat" where
  "fl64 q = (if q = 0 then 0 else if 0 < q then fl64_pos q else - fl64_pos (- q))"

lemma round_even_int [simp]: "round_even (of_int n) = n"
  by (simp add: round_even_def)

lemma round_even_bounds: "\<lfloor>x\<rfloor> \<le> round_even x" "round_even x \<le> \<lfloor>x\<rfloor> + 1"
  by (simp_all add: round_even_def Let_def)

lemma round_even_mono:
  assumes "x \<le> y"
  shows "round_even x \<le> round_even y"
proof (cases "\<lfloor>x\<rfloor> = \<lfloor>y\<rfloor>")
  case True
  then have "x - of_int \<lfloor>x\<rfloor> \<le> y - of_int \<lfloor>y\<rfloor>" using assms by simp
  with True show ?thesis by (auto simp: round_even_def Let_def)
next
  case False
  then have "\<lfloor>x\<rfloor> + 1 \<le> \<lfloor>y\<rfloor>" using floor_mono [OF assms] by simp
  with round_even_bounds [of x] round_even_bounds [of y] show ?thesis by linarith
qed

lemma fexp_bounds:
  assumes "0 < q"
  shows "2 powi fexp q \<le> q" and "q < 2 powi (fexp q + 1)"
proof -
  have "2 powi fexp q \<le> q \<and> q < 2 powi (fexp q + 1)"
  proof (cases "1 \<le> q")
    case True
    then have pos: "0 < nat \<lfloor>q\<rfloor>" by simp
    define k where "k = floorlog 2 (nat \<lfloor>q\<rfloor>)"
    have "0 < k" using pos by (simp add: k_def floorlog_def)
    have "2 ^ (k - 1) \<le> nat \<lfloor>q\<rfloor>" and "nat \<lfloor>q\<rfloor> < 2 ^ k"
      using floorlog_bounds [of "nat \<lfloor>q\<rfloor>" 2] pos by (simp_all add: k_def)
    then have "2 ^ (k - 1) \<le> \<lfloor>q\<rfloor>" and "\<lfloor>q\<rfloor> < 2 ^ k"
      using pos by (simp_all add: le_nat_iff nat_less_iff)
    then have "(2::rat) ^ (k - 1) \<le> q" and "q < 2 ^ k"
      by (simp_all add: le_floor_iff floor_less_iff)
    moreover have "fexp q = int (k - 1)" "fexp q + 1 = int k"
      using True \<open>0 < k\<close> by (simp_all add: fexp_def k_def)
    ultimately show ?thesis by (simp only: power_int_of_nat)
  next
    case False
    define k where "k = ceillog2 (nat \<lceil>1 / q\<rceil>)"
    have r: "1 < 1 / q" using False assms by simp
    then have c: "1 < \<lceil>1 / q\<rceil>" by (simp only: less_ceiling_iff of_int_1)
    have "nat \<lceil>1 / q\<rceil> \<le> 2 ^ k" by (simp add: k_def le_two_power_ceillog2)
    then have "\<lceil>1 / q\<rceil> \<le> 2 ^ k" using c by (simp add: nat_le_iff)
    then have up: "1 / q \<le> 2 ^ k" by (simp add: ceiling_le_iff [of "1 / q"])
    have "2 ^ k < 2 * nat \<lceil>1 / q\<rceil>" unfolding k_def by (rule two_power_ceillog2_gt) (use assms in simp)
    moreover have "0 < k"
    proof (rule ccontr)
      assume "\<not> 0 < k"
      with \<open>\<lceil>1 / q\<rceil> \<le> 2 ^ k\<close> c show False by (simp del: one_less_ceiling ceiling_le_one)
    qed
    ultimately have "2 ^ (k - 1) < nat \<lceil>1 / q\<rceil>" by (cases k) simp_all
    then have "2 ^ (k - 1) < \<lceil>1 / q\<rceil>" by (simp add: zless_nat_eq_int_zless)
    then have low: "2 ^ (k - 1) < 1 / q" by (simp add: less_ceiling_iff)
    have e: "fexp q = - int k" "fexp q + 1 = - int (k - 1)"
      using False \<open>0 < k\<close> by (simp_all add: fexp_def k_def)
    have "2 powi (- int k) \<le> q" and "q < 2 powi (- int (k - 1))"
      unfolding power_int_minus power_int_of_nat using up low assms by (simp_all add: field_simps)
    then show ?thesis by (simp only: e(2) simp_thms) (simp add: e(1))
  qed
  then show "2 powi fexp q \<le> q" and "q < 2 powi (fexp q + 1)" by simp_all
qed

lemma two_powi_less: "(2 :: rat) powi a < 2 powi b \<Longrightarrow> a < b"
  by (metis linorder_not_less one_le_numeral power_int_increasing)

lemma fexp_unique: "0 < q \<Longrightarrow> 2 powi e \<le> q \<Longrightarrow> q < 2 powi (e + 1) \<Longrightarrow> fexp q = e"
  using fexp_bounds [of q] two_powi_less [of e "fexp q + 1"] two_powi_less [of "fexp q" "e + 1"] by linarith

lemma fexp_mono: "0 < p \<Longrightarrow> p \<le> q \<Longrightarrow> fexp p \<le> fexp q"
  using fexp_bounds [of p] fexp_bounds [of q] two_powi_less [of "fexp p" "fexp q + 1"] by linarith

lemma scaled_range:
  assumes "0 < q"
  shows "2 ^ 52 \<le> q * 2 powi (52 - fexp q)" and "q * 2 powi (52 - fexp q) < 2 ^ 53"
proof -
  have "(2::rat) powi fexp q * 2 powi (52 - fexp q) = 2 ^ 52"
    and "(2::rat) powi (fexp q + 1) * 2 powi (52 - fexp q) = 2 ^ 53"
    by (simp_all flip: power_int_add)
  moreover have "0 < (2::rat) powi (52 - fexp q)" by simp
  ultimately show "2 ^ 52 \<le> q * 2 powi (52 - fexp q)" and "q * 2 powi (52 - fexp q) < 2 ^ 53"
    using fexp_bounds [OF assms] by (metis mult_le_cancel_right_pos, metis mult_less_cancel_right_pos)
qed

lemma fl64_pos_range:
  assumes "0 < q"
  shows "2 powi fexp q \<le> fl64_pos q" and "fl64_pos q \<le> 2 powi (fexp q + 1)"
proof -
  let ?r = "round_even (q * 2 powi (52 - fexp q))"
  note s = scaled_range [OF assms]
  have "round_even (of_int (2 ^ 52)) \<le> ?r" and "?r \<le> round_even (of_int (2 ^ 53))"
    by (intro round_even_mono; use s in simp)+
  then have "2 ^ 52 \<le> ?r" and "?r \<le> 2 ^ 53" by (simp_all only: round_even_int)
  then have "of_int (2 ^ 52) \<le> (of_int ?r :: rat)" and "of_int ?r \<le> (of_int (2 ^ 53) :: rat)"
    by (simp_all only: of_int_le_iff)
  then have "(2 :: rat) powi 52 \<le> of_int ?r" and "of_int ?r \<le> (2 :: rat) powi 53" by simp_all
  then have "2 powi 52 * 2 powi (fexp q - 52) \<le> fl64_pos q" and "fl64_pos q \<le> 2 powi 53 * 2 powi (fexp q - 52)"
    unfolding fl64_pos_def by (intro mult_right_mono; simp)+
  moreover have "(2::rat) powi 52 * 2 powi (fexp q - 52) = 2 powi fexp q"
    and "(2::rat) powi 53 * 2 powi (fexp q - 52) = 2 powi (fexp q + 1)"
    by (subst power_int_add [symmetric]; simp add: add.commute)+
  ultimately show "2 powi fexp q \<le> fl64_pos q" and "fl64_pos q \<le> 2 powi (fexp q + 1)" by simp_all
qed

lemma fl64_pos_mono:
  assumes "0 < p" and "p \<le> q"
  shows "fl64_pos p \<le> fl64_pos q"
proof (cases "fexp p = fexp q")
  case True
  then have "p * 2 powi (52 - fexp p) \<le> q * 2 powi (52 - fexp q)" using assms by simp
  from round_even_mono [OF this] True show ?thesis by (simp add: fl64_pos_def)
next
  case False
  then have "fexp p + 1 \<le> fexp q" using fexp_mono [OF assms] by simp
  then have "(2::rat) powi (fexp p + 1) \<le> 2 powi fexp q" by (simp add: power_int_increasing)
  with fl64_pos_range [of p] fl64_pos_range [of q] assms show ?thesis by linarith
qed

lemma fl64_pos_positive: "0 < q \<Longrightarrow> 0 < fl64_pos q"
  using fl64_pos_range(1) [of q] zero_less_power_int [of "2 :: rat" "fexp q"] by linarith

theorem fl64_mono: "p \<le> q \<Longrightarrow> fl64 p \<le> fl64 q"
  using fl64_pos_mono [of p q] fl64_pos_mono [of "- q" "- p"] fl64_pos_positive [of q] fl64_pos_positive [of "- p"]
  by (auto simp: fl64_def)

theorem fl64_int:
  assumes "\<bar>n\<bar> \<le> 2 ^ 53"
  shows "fl64 (of_int n) = of_int n"
proof -
  have pos: "fl64_pos (of_int m) = of_int m" if "0 < m" "m \<le> 2 ^ 53" for m
  proof -
    have "\<exists>k. of_int m * (2 :: rat) powi (52 - fexp (of_int m)) = of_int k"
    proof (cases "m = 2 ^ 53")
      case True
      then have "fexp (of_int m) = 53" by (intro fexp_unique) simp_all
      then show ?thesis using True by (intro exI [of _ "2 ^ 52"]) simp
    next
      case False
      then have "(of_int m :: rat) < 2 ^ 53" using that by (simp add: of_int_less_iff [of m "2 ^ 53", where ?'a = rat, symmetric] del: of_int_less_iff)
      moreover have "(2 :: rat) powi fexp (of_int m) \<le> of_int m" using that by (intro fexp_bounds) simp
      ultimately have "(2 :: rat) powi fexp (of_int m) < 2 powi 53" by simp
      then have "fexp (of_int m) < 53" by (rule two_powi_less)
      then have "52 - fexp (of_int m) = int (nat (52 - fexp (of_int m)))" by simp
      then have "(2 :: rat) powi (52 - fexp (of_int m)) = 2 ^ nat (52 - fexp (of_int m))" by (metis power_int_of_nat)
      then show ?thesis by (intro exI [of _ "m * 2 ^ nat (52 - fexp (of_int m))"]) simp
    qed
    then obtain k where k: "of_int m * (2 :: rat) powi (52 - fexp (of_int m)) = of_int k" by blast
    then have "fl64_pos (of_int m) = of_int m * 2 powi (52 - fexp (of_int m)) * 2 powi (fexp (of_int m) - 52)"
      by (simp add: fl64_pos_def)
    then show ?thesis by (simp add: mult.assoc flip: power_int_add)
  qed
  show ?thesis using assms pos [of n] pos [of "- n"] by (auto simp: fl64_def simp flip: of_int_minus)
qed

lemma fl64_pos_idem:
  assumes "0 < q"
  shows "fl64_pos (fl64_pos q) = fl64_pos q"
proof -
  let ?e = "fexp q" and ?r = "round_even (q * 2 powi (52 - fexp q))" and ?v = "fl64_pos q"
  have v: "?v = of_int ?r * 2 powi (?e - 52)" by (simp add: fl64_pos_def)
  have pos: "0 < ?v" by (rule fl64_pos_positive [OF assms])
  have exact: "fl64_pos ?v = ?v" if "?v * 2 powi (52 - fexp ?v) = of_int k" for k
  proof -
    have "fl64_pos ?v = ?v * 2 powi (52 - fexp ?v) * 2 powi (fexp ?v - 52)"
      using that by (simp add: fl64_pos_def [of ?v])
    then show ?thesis by (simp add: mult.assoc flip: power_int_add)
  qed
  show ?thesis
  proof (cases "?v < 2 powi (?e + 1)")
    case True
    then have "fexp ?v = ?e" using fl64_pos_range(1) [OF assms] pos by (intro fexp_unique)
    then have "?v * 2 powi (52 - fexp ?v) = of_int ?r" by (simp add: v mult.assoc flip: power_int_add)
    then show ?thesis by (rule exact)
  next
    case False
    then have top: "?v = 2 powi (?e + 1)" using fl64_pos_range(2) [OF assms] by simp
    have "(2::rat) powi (?e + 1) < 2 powi (?e + 1 + 1)" by (intro power_int_strict_increasing) simp_all
    then have "fexp ?v = ?e + 1" using pos unfolding top by (intro fexp_unique) simp_all
    then have "?v * 2 powi (52 - fexp ?v) = of_int (2 ^ 52)"
      unfolding top by (simp flip: power_int_add)
    then show ?thesis by (rule exact)
  qed
qed

lemma fl64_idem [simp]: "fl64 (fl64 q) = fl64 q"
  using fl64_pos_idem [of q] fl64_pos_idem [of "- q"] fl64_pos_positive [of q] fl64_pos_positive [of "- q"]
  by (auto simp: fl64_def)

lemma fl64_0 [simp]: "fl64 0 = 0"
  by (simp add: fl64_def)

lemma fl64_nonneg: "0 \<le> q \<Longrightarrow> 0 \<le> fl64 q"
  using fl64_mono [of 0 q] by simp

text \<open>A rounded value below the rounded bound is below the bound itself.\<close>

lemma fl64_less_imp_le: "fl64 q < fl64 m \<Longrightarrow> fl64 q \<le> m"
  using fl64_mono [of m "fl64 q"] by (metis fl64_idem linorder_not_le order_less_imp_le)

text \<open>Rounding commutes with a shift of the exponent, so that an integer over a power of two is exact.\<close>

lemma fexp_scale:
  assumes "0 < q"
  shows "fexp (q * 2 powi j) = fexp q + j"
proof (rule fexp_unique)
  have "2 powi (fexp q + j) = (2 :: rat) powi fexp q * 2 powi j" "2 powi (fexp q + j + 1) = (2 :: rat) powi (fexp q + 1) * 2 powi j"
    by (simp_all flip: power_int_add add: ac_simps)
  moreover have "0 < (2 :: rat) powi j" by simp
  ultimately show "2 powi (fexp q + j) \<le> q * 2 powi j" "q * 2 powi j < 2 powi (fexp q + j + 1)"
    using fexp_bounds [OF assms] by simp_all
qed (use assms in simp)

lemma fl64_scale: "fl64 (q * 2 powi j) = fl64 q * 2 powi j"
proof -
  have pos: "fl64_pos (p * 2 powi j) = fl64_pos p * 2 powi j" if "0 < p" for p
  proof -
    have "p * 2 powi j * 2 powi (52 - (fexp p + j)) = p * 2 powi (52 - fexp p)"
      "(2 :: rat) powi (fexp p + j - 52) = 2 powi (fexp p - 52) * 2 powi j"
      by (simp_all flip: power_int_add add: mult.assoc algebra_simps)
    then show ?thesis unfolding fl64_pos_def fexp_scale [OF that] by (simp only: mult.assoc)
  qed
  have "0 < (2 :: rat) powi j" by simp
  then have "0 < q * 2 powi j \<longleftrightarrow> 0 < q" by (metis zero_less_mult_pos2 mult_pos_pos)
  then show ?thesis using pos [of q] pos [of "- q"] by (auto simp: fl64_def)
qed

lemma fl64_dyadic: "\<bar>n\<bar> \<le> 2 ^ 53 \<Longrightarrow> fl64 (of_int n / 2 ^ j) = of_int n / 2 ^ j"
  using fl64_scale [of "of_int n" "- int j"] by (simp add: fl64_int power_int_minus divide_inverse)

lemma fl64_value:
  assumes "0 < q" "2 powi e \<le> q" "q < 2 powi (e + 1)"
  shows "fl64 q = of_int (round_even (q * 2 powi (52 - e))) * 2 powi (e - 52)"
  using assms by (simp add: fl64_def fl64_pos_def fexp_unique [OF assms])

lemma fl64_value_nat:
  assumes "0 < q" "2 powi e \<le> q" "q < 2 powi (e + 1)" "52 - e = int n"
  shows "fl64 q = of_int (round_even (q * 2 ^ n)) / 2 ^ n"
proof -
  have n: "e - 52 = - int n" using assms(4) by simp
  have "(2 :: rat) powi (52 - e) = 2 ^ n" unfolding assms(4) by simp
  moreover have "(2 :: rat) powi (e - 52) = 1 / 2 ^ n" unfolding n by (simp add: power_int_minus divide_inverse)
  ultimately show ?thesis using fl64_value [OF assms(1-3)] by simp
qed

end
