(* ===== verification/Second_Ring.thy ===== *)
theory Second_Ring
  imports Float64
begin

section \<open>Per-second ring counters\<close>

text \<open>
  The sliding-window limiter and the circuit breaker count events in a ring with one bucket per
  second and keep the sum of the buckets.  This theory gives the shared algorithm, the lazy
  \<open>advance\<close> that expires buckets, and its meaning: a ring stands for the log of charged events, a
  bucket holds what was charged in one second of the trailing window, and the sum is what was
  charged in the whole window.  Seconds are Unix seconds; they are not negative, so that Go's
  \<open>%\<close> on them is \<open>mod\<close>.  The counters are Go \<open>int\<close>s that count calls; they are left unbounded.

  The locale \<open>second_ring\<close> is the interface the two clients rely on: from its laws alone
  follows that the sum is the amount charged in the window.
\<close>

subsection \<open>Time\<close>

definition Second :: int where
  "Second = 10 ^ 9"

lemma Second_pos: "0 < Second"
  by (simp add: Second_def)

text \<open>\<open>Duration.Seconds()\<close> and the conversion of its result to an integer type.\<close>

definition Duration_Seconds :: "int \<Rightarrow> rat" where
  "Duration_Seconds d = fl64 (of_int (d sdiv Second) + fl64 (of_int (d smod Second) / of_int Second))"

definition trunc :: "rat \<Rightarrow> int" where
  "trunc q = (if 0 \<le> q then \<lfloor>q\<rfloor> else \<lceil>q\<rceil>)"

definition Unix :: "int \<Rightarrow> int" where
  "Unix now = now div Second"

lemma seconds_whole:
  assumes "0 \<le> s" and "s \<le> 2 ^ 53"
  shows "trunc (Duration_Seconds (s * Second)) = s"
proof -
  have "fl64 (of_int s) = of_int s" using assms by (intro fl64_int) simp
  moreover have "fl64 0 = 0" by (simp add: fl64_def)
  moreover have "s * Second sdiv Second = s" and "s * Second smod Second = 0"
    using assms(1) by (simp_all add: Second_def signed_divide_int_def signed_modulo_int_def sgn_if)
  ultimately show ?thesis using assms(1) by (simp add: Duration_Seconds_def trunc_def)
qed

subsection \<open>The algorithm\<close>

definition slot :: "'c list \<Rightarrow> int \<Rightarrow> nat" where
  "slot counts sec = nat (sec mod int (length counts))"

function ring_roll :: "int \<Rightarrow> int list \<times> int \<times> int \<Rightarrow> int list \<times> int \<times> int" where
  "ring_roll sec (counts, base, tot) =
    (if base < sec
     then let base' = base + 1; i = slot counts base' in
          ring_roll sec (counts[i := 0], base', tot - counts ! i)
     else (counts, base, tot))"
  by pat_completeness auto
termination
  by (relation "measure (\<lambda>(sec, counts, base, tot). nat (sec - base))") auto

definition ring_advance :: "int \<Rightarrow> int list \<times> int \<times> int \<Rightarrow> int list \<times> int \<times> int" where
  "ring_advance sec r =
    (case r of (counts, base, tot) \<Rightarrow>
       if sec \<le> base then r
       else if int (length counts) \<le> sec - base
       then (map (\<lambda>_. 0) counts, sec, foldl (-) tot counts)
       else ring_roll sec r)"

definition ring_charge :: "int \<Rightarrow> int \<Rightarrow> int list \<times> int \<times> int \<Rightarrow> int list \<times> int \<times> int" where
  "ring_charge sec a r =
    (case r of (counts, base, tot) \<Rightarrow>
       (counts[slot counts sec := counts ! slot counts sec + a], base, tot + a))"

declare ring_roll.simps [simp del]

subsection \<open>What a ring stands for\<close>

definition amount_at :: "int \<Rightarrow> (int \<times> int) list \<Rightarrow> int" where
  "amount_at s evs = (\<Sum>e\<leftarrow>evs. if fst e = s then snd e else 0)"

definition amount_since :: "int \<Rightarrow> (int \<times> int) list \<Rightarrow> int" where
  "amount_since s evs = (\<Sum>e\<leftarrow>evs. if s < fst e then snd e else 0)"

definition ring_logs :: "nat \<Rightarrow> (int \<times> int) list \<Rightarrow> int list \<times> int \<times> int \<Rightarrow> bool" where
  "ring_logs n evs r =
    (case r of (counts, base, tot) \<Rightarrow>
       0 < n \<and> length counts = n \<and> tot = sum_list counts \<and> (\<forall>e\<in>set evs. fst e \<le> base)
       \<and> (\<forall>s\<in>{base - int n<..base}. counts ! slot counts s = amount_at s evs))"

lemma amount_at_simps [simp]:
  "amount_at s [] = 0" "amount_at s (evs @ [(t, a)]) = amount_at s evs + (if t = s then a else 0)"
  by (simp_all add: amount_at_def)

lemma amount_since_simps [simp]:
  "amount_since s [] = 0" "amount_since s (evs @ [(t, a)]) = amount_since s evs + (if s < t then a else 0)"
  by (simp_all add: amount_since_def)

lemma amount_at_future: "\<forall>e\<in>set evs. fst e \<le> b \<Longrightarrow> b < s \<Longrightarrow> amount_at s evs = 0"
  by (induction evs) (auto simp: amount_at_def)

lemma slot_less [simp]: "counts \<noteq> [] \<Longrightarrow> slot counts s < length counts"
  by (simp add: slot_def nat_less_iff)

lemma slot_update [simp]: "slot (counts[i := v]) s = slot counts s" "slot (map f counts) s = slot counts s"
  by (simp_all add: slot_def)

lemma slot_inj:
  assumes "s \<in> {b - int (length counts)<..b}" and "t \<in> {b - int (length counts)<..b}" and "slot counts s = slot counts t"
  shows "s = t"
proof -
  let ?n = "int (length counts)"
  have "0 < ?n" using assms(1) by auto
  then have "s mod ?n = t mod ?n" using assms(3) by (simp add: slot_def eq_nat_nat_iff)
  then have "?n dvd s - t" by (simp add: mod_eq_dvd_iff)
  moreover have "\<bar>s - t\<bar> < ?n" using assms(1,2) by auto
  ultimately show ?thesis using zdvd_not_zless [of "s - t" ?n] zdvd_not_zless [of "t - s" ?n]
    by (cases s t rule: linorder_cases) (auto simp: dvd_diff_commute)
qed

lemma sum_list_update_int: "i < length xs \<Longrightarrow> sum_list (xs[i := v]) = sum_list xs - xs ! i + (v :: int)"
proof (induction xs arbitrary: i)
  case (Cons x xs) then show ?case by (cases i) simp_all
qed simp

lemma slot_bij: "counts \<noteq> [] \<Longrightarrow> bij_betw (slot counts) {b - int (length counts)<..b} {..<length counts}"
proof (intro bij_betwI')
  fix s t assume "counts \<noteq> []" "s \<in> {b - int (length counts)<..b}" "t \<in> {b - int (length counts)<..b}"
  then show "(slot counts s = slot counts t) = (s = t)" using slot_inj by blast
next
  fix i assume "counts \<noteq> []" "i \<in> {..<length counts}"
  define s where "s = b - (b - int i) mod int (length counts)"
  have "s \<in> {b - int (length counts)<..b}" using \<open>counts \<noteq> []\<close> by (simp add: s_def)
  moreover have "slot counts s = i"
    using \<open>i \<in> {..<length counts}\<close> by (simp add: slot_def s_def mod_diff_right_eq)
  ultimately show "\<exists>s\<in>{b - int (length counts)<..b}. i = slot counts s" by blast
qed auto

lemma amount_since_sum:
  assumes "\<forall>e\<in>set evs. fst e \<le> b"
  shows "(\<Sum>s\<in>{b - n<..b}. amount_at s evs) = amount_since (b - n) evs"
  using assms
proof (induction evs)
  case (Cons e evs)
  have "(\<Sum>s\<in>{b - n<..b}. if fst e = s then snd e else 0) = (if b - n < fst e then snd e else 0)"
    using Cons.prems by (simp add: sum.delta')
  with Cons show ?case by (simp add: amount_at_def amount_since_def sum.distrib)
qed (simp add: amount_since_def amount_at_def)

lemma ring_logs_sum:
  assumes "ring_logs n evs (counts, base, tot)"
  shows "tot = amount_since (base - int n) evs"
proof -
  have r: "counts \<noteq> []" "length counts = n" "tot = sum_list counts" "\<forall>e\<in>set evs. fst e \<le> base"
    "\<forall>s\<in>{base - int n<..base}. counts ! slot counts s = amount_at s evs"
    using assms by (auto simp: ring_logs_def)
  have "sum_list counts = (\<Sum>i\<in>{..<length counts}. counts ! i)"
    by (simp add: sum_list_sum_nth atLeast0LessThan)
  also have "\<dots> = (\<Sum>s\<in>{base - int n<..base}. counts ! slot counts s)"
    using sum.reindex_bij_betw [OF slot_bij [OF r(1), of base], of "\<lambda>i. counts ! i"] r(2) by simp
  also have "\<dots> = amount_since (base - int n) evs"
    using r(4,5) by (simp add: amount_since_sum)
  finally show ?thesis by (simp add: r(3))
qed

subsection \<open>The interface of a per-second window\<close>

text \<open>
  A window of \<open>span\<close> seconds: \<open>logs evs r\<close> says that the ring \<open>r\<close> has been charged with the
  events \<open>evs\<close>, pairs of a second and an amount.
\<close>

locale second_ring =
  fixes advance :: "int \<Rightarrow> 'r \<Rightarrow> 'r" and charge :: "int \<Rightarrow> int \<Rightarrow> 'r \<Rightarrow> 'r"
    and logs :: "(int \<times> int) list \<Rightarrow> 'r \<Rightarrow> bool" and newest :: "'r \<Rightarrow> int" and content :: "'r \<Rightarrow> int"
    and span :: int
  assumes logs_advance: "logs evs r \<Longrightarrow> logs evs (advance s r)"
    and newest_advance: "newest (advance s r) = max s (newest r)"
    and logs_charge: "logs evs r \<Longrightarrow> logs (evs @ [(newest r, a)]) (charge (newest r) a r)"
    and newest_charge: "newest (charge s a r) = newest r"
    and logs_content: "logs evs r \<Longrightarrow> content r = amount_since (newest r - span) evs"
begin

text \<open>
  The clients' protocol: advance to the current second, then charge that second, or the newest one
  when the clock went backward.
\<close>

definition charge_now :: "int \<Rightarrow> int \<Rightarrow> 'r \<Rightarrow> 'r" where
  "charge_now s a r = charge (if s < newest (advance s r) then newest (advance s r) else s) a (advance s r)"

lemma charge_now_logs:
  assumes "logs evs r"
  shows "logs (evs @ [(max s (newest r), a)]) (charge_now s a r)"
proof -
  have "logs (evs @ [(newest (advance s r), a)]) (charge (newest (advance s r)) a (advance s r))"
    using assms by (intro logs_charge logs_advance)
  moreover have "(if s < newest (advance s r) then newest (advance s r) else s) = newest (advance s r)"
    by (simp add: newest_advance)
  ultimately show ?thesis by (simp add: charge_now_def newest_advance)
qed

lemma newest_charge_now: "newest (charge_now s a r) = max s (newest r)"
  by (simp add: charge_now_def newest_charge newest_advance)

lemma advanced_content:
  "logs evs r \<Longrightarrow> content (advance s r) = amount_since (max s (newest r) - span) evs"
  using logs_content [OF logs_advance] by (simp add: newest_advance)

end

subsection \<open>The ring implements it\<close>

lemma ring_step_logs:
  assumes "ring_logs n evs (counts, base, tot)"
  shows "ring_logs n evs (counts[slot counts (base + 1) := 0], base + 1, tot - counts ! slot counts (base + 1))"
proof -
  let ?i = "slot counts (base + 1)"
  have r: "counts \<noteq> []" "length counts = n" "\<forall>e\<in>set evs. fst e \<le> base"
    "\<forall>s\<in>{base - int n<..base}. counts ! slot counts s = amount_at s evs"
    using assms by (auto simp: ring_logs_def)
  have "counts[?i := 0] ! slot counts s = amount_at s evs" if s: "s \<in> {base + 1 - int n<..base + 1}" for s
  proof (cases "s = base + 1")
    case True
    then show ?thesis using r(1) amount_at_future [OF r(3)] by simp
  next
    case False
    then have "slot counts s \<noteq> ?i" using slot_inj [of s "base + 1" counts "base + 1"] s r(1,2) by auto
    then show ?thesis using False s r(4) by simp
  qed
  moreover have "\<forall>e\<in>set evs. fst e \<le> base + 1" using r(3) by auto
  ultimately show ?thesis using assms r(1) by (auto simp: ring_logs_def sum_list_update_int)
qed

lemma ring_roll_logs: "ring_logs n evs r \<Longrightarrow> ring_logs n evs (ring_roll sec r)"
proof (induction sec r rule: ring_roll.induct)
  case (1 sec counts base tot)
  then show ?case using ring_step_logs [OF "1.prems"]
    by (subst ring_roll.simps) (simp add: Let_def)
qed

lemma foldl_minus: "foldl (-) tot counts = tot - sum_list (counts :: int list)"
  by (induction counts arbitrary: tot) simp_all

lemma ring_advance_logs:
  assumes "ring_logs n evs r"
  shows "ring_logs n evs (ring_advance sec r)"
proof -
  obtain counts base tot where r: "r = (counts, base, tot)" by (cases r)
  have len: "length counts = n" "0 < n" "tot = sum_list counts" and old: "\<forall>e\<in>set evs. fst e \<le> base"
    using assms by (simp_all add: ring_logs_def r)
  have "ring_logs n evs (map (\<lambda>_. 0) counts, sec, foldl (-) tot counts)" if late: "int n \<le> sec - base"
  proof -
    have "\<forall>e\<in>set evs. fst e \<le> sec" using old late by auto
    moreover have "map (\<lambda>_. 0) counts ! slot counts s = amount_at s evs" if "s \<in> {sec - int n<..sec}" for s
    proof -
      have "slot counts s < length counts" using len by (intro slot_less) auto
      then show ?thesis using amount_at_future [OF old, of s] that late by simp
    qed
    moreover have "sum_list (map (\<lambda>_. 0 :: int) counts) = 0" by simp
    ultimately show ?thesis using len by (simp add: ring_logs_def foldl_minus)
  qed
  then show ?thesis
    using assms ring_roll_logs [OF assms] by (auto simp: ring_advance_def r ring_logs_def)
qed

lemma ring_roll_newest: "fst (snd (ring_roll sec r)) = max sec (fst (snd r))"
proof (induction sec r rule: ring_roll.induct)
  case (1 sec counts base tot)
  then show ?case by (subst ring_roll.simps) (auto simp: Let_def max_def)
qed

lemma ring_charge_logs:
  assumes "ring_logs n evs r"
  shows "ring_logs n (evs @ [(fst (snd r), a)]) (ring_charge (fst (snd r)) a r)"
proof -
  obtain counts base tot where r: "r = (counts, base, tot)" by (cases r)
  have c: "counts \<noteq> []" using assms by (auto simp: r ring_logs_def)
  have "counts[slot counts base := counts ! slot counts base + a] ! slot counts s
      = amount_at s evs + (if base = s then a else 0)" if s: "s \<in> {base - int n<..base}" for s
  proof (cases "s = base")
    case True
    then show ?thesis using slot_less [OF c, of base] s assms by (auto simp: r ring_logs_def)
  next
    case False
    then have "slot counts s \<noteq> slot counts base"
      using slot_inj [of s base counts base] s assms c by (auto simp: r ring_logs_def)
    with False s assms show ?thesis by (simp add: r ring_logs_def)
  qed
  with c assms show ?thesis
    by (auto simp: r ring_logs_def ring_charge_def sum_list_update_int)
qed

interpretation sr: second_ring ring_advance ring_charge "ring_logs n" "\<lambda>r. fst (snd r)" "\<lambda>r. snd (snd r)" "int n"
  for n
proof unfold_locales
  fix evs r s a
  show "ring_logs n evs r \<Longrightarrow> ring_logs n evs (ring_advance s r)" by (rule ring_advance_logs)
  show "fst (snd (ring_advance s r)) = max s (fst (snd r))"
    using ring_roll_newest [of s r] by (auto simp: ring_advance_def split: prod.splits)
  show "ring_logs n evs r \<Longrightarrow> ring_logs n (evs @ [(fst (snd r), a)]) (ring_charge (fst (snd r)) a r)"
    by (rule ring_charge_logs)
  show "fst (snd (ring_charge s a r)) = fst (snd r)" by (simp add: ring_charge_def split: prod.splits)
  show "ring_logs n evs r \<Longrightarrow> snd (snd r) = amount_since (fst (snd r) - int n) evs"
    using ring_logs_sum [of n evs "fst r" "fst (snd r)" "snd (snd r)"] by simp
qed

lemma ring_empty_logs: "0 < n \<Longrightarrow> ring_logs n [] (replicate n 0, base, 0)"
  by (auto simp: ring_logs_def sum_list_replicate slot_def nat_less_iff)

end
