(* ===== verification/Limiter.thy ===== *)
theory Limiter
  imports Second_Ring
begin

section \<open>In-process rate limiters (limiter/)\<close>

text \<open>
  The sliding-window limiter is a critical section around the per-second ring of
  \<open>Second_Ring\<close>; the fixed-window limiter is lock-free, so each of its atomic loads, stores and
  compare-and-swaps is one step of a thread and a limiter run is an interleaving of such steps.
  The clock is an argument: every operation takes the reading of \<open>time.Now()\<close> in Unix
  nanoseconds.  Rates are rational numbers (the value of the \<open>float64\<close>).
\<close>

subsection \<open>Options (options.go, limiter.go)\<close>

datatype limiter_error = ErrRateLimited | ErrLimiterClosed | CtxErr string

definition AlgorithmTokenBucket :: string where "AlgorithmTokenBucket = ''token_bucket''"
definition AlgorithmSlidingWindow :: string where "AlgorithmSlidingWindow = ''sliding_window''"
definition AlgorithmFixedWindow :: string where "AlgorithmFixedWindow = ''fixed_window''"
definition AlgorithmLeakyBucket :: string where "AlgorithmLeakyBucket = ''leaky_bucket''"
definition AlgorithmGCRA :: string where "AlgorithmGCRA = ''gcra''"

record limiter_options =
  lo_Algorithm :: string
  lo_Rate :: rat
  lo_Burst :: int
  lo_Window :: int

definition defaultLimiterOptions :: limiter_options where
  "defaultLimiterOptions = \<lparr>lo_Algorithm = AlgorithmTokenBucket, lo_Rate = 1, lo_Burst = 1, lo_Window = Second\<rparr>"

definition limiter_withDefaults :: "limiter_options \<Rightarrow> limiter_options" where
  "limiter_withDefaults o1 =
    (let d = defaultLimiterOptions in
     \<lparr>lo_Algorithm = (if lo_Algorithm o1 = '''' then lo_Algorithm d else lo_Algorithm o1),
      lo_Rate = (if lo_Rate o1 \<le> 0 then lo_Rate d else lo_Rate o1),
      lo_Burst = (if lo_Burst o1 \<le> 0 then lo_Burst d else lo_Burst o1),
      lo_Window = (if lo_Window o1 \<le> 0 then lo_Window d else lo_Window o1)\<rparr>)"

text \<open>The context is given by its error, \<open>None\<close> while it is not done.\<close>

definition closedWaitResult :: "string option \<Rightarrow> limiter_error" where
  "closedWaitResult ctx_Err = (case ctx_Err of Some e \<Rightarrow> CtxErr e | None \<Rightarrow> ErrLimiterClosed)"

record limiter_metrics =
  lm_Allowed :: "64 word"
  lm_Denied :: "64 word"
  lm_Acquired :: "64 word"

subsection \<open>Sliding window (sliding_window.go)\<close>

record sliding_window =
  sw_rate :: rat
  sw_windowSec :: nat
  sw_counts :: "int list"
  sw_base :: int
  sw_sum :: int
  sw_allowed :: "64 word"
  sw_denied :: "64 word"
  sw_acquired :: "64 word"
  sw_closed :: bool

definition newSlidingWindow :: "int \<Rightarrow> rat \<Rightarrow> int \<Rightarrow> sliding_window" where
  "newSlidingWindow now rate window =
    (let secs = trunc (Duration_Seconds window); secs = (if secs < 1 then 1 else secs) in
     \<lparr>sw_rate = rate, sw_windowSec = nat secs, sw_counts = replicate (nat secs) 0, sw_base = Unix now, sw_sum = 0,
      sw_allowed = 0, sw_denied = 0, sw_acquired = 0, sw_closed = False\<rparr>)"

abbreviation sw_ring :: "sliding_window \<Rightarrow> int list \<times> int \<times> int" where
  "sw_ring sw \<equiv> (sw_counts sw, sw_base sw, sw_sum sw)"

definition sw_advance :: "int \<Rightarrow> sliding_window \<Rightarrow> sliding_window" where
  "sw_advance sec sw =
    (case ring_advance sec (sw_ring sw) of
       (counts, base, s) \<Rightarrow> sw\<lparr>sw_counts := counts, sw_base := base, sw_sum := s\<rparr>)"

definition sw_acquire :: "int \<Rightarrow> int \<Rightarrow> sliding_window \<Rightarrow> bool \<times> sliding_window" where
  "sw_acquire now n sw0 =
    (let sec = Unix now; sw = sw_advance sec sw0;
         sec = (if sec < sw_base sw then sw_base sw else sec) in
     if fl64 (fl64 (of_int (sw_sum sw)) + fl64 (of_int n)) \<le> sw_rate sw
     then (True, case ring_charge sec n (sw_ring sw) of
             (counts, base, s) \<Rightarrow> sw\<lparr>sw_counts := counts, sw_sum := s,
                sw_allowed := sw_allowed sw + 1, sw_acquired := sw_acquired sw + word_of_int n\<rparr>)
     else (False, sw\<lparr>sw_denied := sw_denied sw + 1\<rparr>))"

definition sw_TryAcquire :: "int \<Rightarrow> int \<Rightarrow> sliding_window \<Rightarrow> bool \<times> sliding_window" where
  "sw_TryAcquire now n sw =
    (if n \<le> 0 then (True, sw) else if sw_closed sw then (False, sw) else sw_acquire now n sw)"

definition sw_Allow :: "int \<Rightarrow> sliding_window \<Rightarrow> bool \<times> sliding_window" where
  "sw_Allow now sw = (if sw_closed sw then (False, sw) else sw_acquire now 1 sw)"

definition sw_Close :: "sliding_window \<Rightarrow> sliding_window" where
  "sw_Close sw = sw\<lparr>sw_closed := True\<rparr>"

definition sw_Metrics :: "sliding_window \<Rightarrow> limiter_metrics" where
  "sw_Metrics sw = \<lparr>lm_Allowed = sw_allowed sw, lm_Denied = sw_denied sw, lm_Acquired = sw_acquired sw\<rparr>"

text \<open>
  A sequence of acquisitions at given clock readings: the answers and the final state.
\<close>

fun sw_run :: "(int \<times> int) list \<Rightarrow> sliding_window \<Rightarrow> bool list \<times> sliding_window" where
  "sw_run [] sw = ([], sw)"
| "sw_run ((now, n) # reqs) sw =
    (let (ok, sw') = sw_TryAcquire now n sw; (oks, sw'') = sw_run reqs sw' in (ok # oks, sw''))"

text \<open>
  The specification keeps every admitted event and answers by adding up the window.
\<close>

fun window_spec :: "int \<Rightarrow> rat \<Rightarrow> (int \<times> int) list \<Rightarrow> (int \<times> int) list \<Rightarrow> bool list \<times> (int \<times> int) list" where
  "window_spec w rate [] evs = ([], evs)"
| "window_spec w rate ((now, n) # reqs) evs =
    (let ok = (n \<le> 0 \<or> of_int (amount_since (Unix now - w) evs + n) \<le> rate);
         (oks, evs') = window_spec w rate reqs (if 0 < n \<and> ok then evs @ [(Unix now, n)] else evs) in
     (ok # oks, evs'))"

definition amount_between :: "int \<Rightarrow> int \<Rightarrow> (int \<times> int) list \<Rightarrow> int" where
  "amount_between a b evs = amount_since a evs - amount_since b evs"

lemma float_sum_le:
  assumes "0 \<le> s" and "0 < n" and "of_int s \<le> rate" and "rate < 2 ^ 53"
  shows "fl64 (fl64 (of_int s) + fl64 (of_int n)) \<le> rate \<longleftrightarrow> of_int (s + n) \<le> rate"
proof -
  have "(of_int s :: rat) < of_int (2 ^ 53)" using assms(3,4) by simp
  then have s: "s < 2 ^ 53" by (simp only: of_int_less_iff)
  then have fs: "fl64 (of_int s) = of_int s" using assms(1) by (intro fl64_int) simp
  show ?thesis
  proof (cases "s + n \<le> 2 ^ 53")
    case True
    then have "fl64 (of_int n) = of_int n" and "fl64 (of_int (s + n)) = of_int (s + n)"
      using assms(1,2) by (intro fl64_int; simp)+
    then show ?thesis using fs by simp
  next
    case False
    have top: "fl64 (of_int (2 ^ 53)) = of_int (2 ^ 53)" by (intro fl64_int) simp
    have "of_int (2 ^ 53) \<le> (of_int s :: rat) + fl64 (of_int n)"
    proof (cases "n \<le> 2 ^ 53")
      case True
      then have "fl64 (of_int n) = of_int n" using assms(2) by (intro fl64_int) simp
      then show ?thesis using False by (simp only: of_int_add [symmetric] of_int_le_iff)
    next
      case big: False
      then have "(of_int (2 ^ 53) :: rat) \<le> of_int n" by (simp only: of_int_le_iff)
      from fl64_mono [OF this] top show ?thesis using assms(1)
        by (metis add_increasing of_int_0_le_iff)
    qed
    from fl64_mono [OF this] top have "2 ^ 53 \<le> fl64 (fl64 (of_int s) + fl64 (of_int n))" by (simp add: fs)
    moreover have "(2 ^ 53 :: rat) \<le> of_int (s + n)"
    proof -
      have "(of_int (2 ^ 53) :: rat) \<le> of_int (s + n)" using False by (simp only: of_int_le_iff)
      then show ?thesis by simp
    qed
    ultimately show ?thesis using assms(4) by linarith
  qed
qed

lemma amount_since_antimono:
  "\<forall>e\<in>set evs. 0 \<le> snd e \<Longrightarrow> a \<le> b \<Longrightarrow> amount_since b evs \<le> amount_since a evs"
  by (induction evs) (auto simp: amount_since_def)

lemma amount_since_nonneg: "\<forall>e\<in>set evs. 0 \<le> snd e \<Longrightarrow> 0 \<le> amount_since a evs"
  by (induction evs) (auto simp: amount_since_def)

lemma amount_since_future: "\<forall>e\<in>set evs. fst e \<le> b \<Longrightarrow> amount_since b evs = 0"
  by (induction evs) (auto simp: amount_since_def)

definition sw_tracks :: "(int \<times> int) list \<Rightarrow> sliding_window \<Rightarrow> bool" where
  "sw_tracks evs sw \<longleftrightarrow> ring_logs (sw_windowSec sw) evs (sw_ring sw) \<and> \<not> sw_closed sw
     \<and> (\<forall>e\<in>set evs. 0 \<le> snd e)
     \<and> of_int (amount_since (sw_base sw - int (sw_windowSec sw)) evs) \<le> sw_rate sw"

lemma sw_advance_ring: "sw_ring (sw_advance sec sw) = ring_advance sec (sw_ring sw)"
  by (simp add: sw_advance_def split: prod.splits)

lemma sw_advance_rest [simp]:
  "sw_rate (sw_advance sec sw) = sw_rate sw" "sw_windowSec (sw_advance sec sw) = sw_windowSec sw"
  "sw_closed (sw_advance sec sw) = sw_closed sw"
  by (simp_all add: sw_advance_def split: prod.splits)

lemma sw_TryAcquire_spec:
  assumes track: "sw_tracks evs sw" and mono: "sw_base sw \<le> Unix now" and rate: "sw_rate sw < 2 ^ 53"
    and ok_def: "ok = (n \<le> 0 \<or> of_int (amount_since (Unix now - int (sw_windowSec sw)) evs + n) \<le> sw_rate sw)"
  shows "\<exists>sw'. sw_TryAcquire now n sw = (ok, sw') \<and> sw_tracks (if 0 < n \<and> ok then evs @ [(Unix now, n)] else evs) sw'
    \<and> sw_rate sw' = sw_rate sw \<and> sw_windowSec sw' = sw_windowSec sw \<and> sw_base sw' \<le> Unix now"
proof (cases "n \<le> 0")
  case True
  then show ?thesis using track mono ok_def by (simp add: sw_TryAcquire_def)
next
  case False
  let ?W = "int (sw_windowSec sw)" and ?sec = "Unix now"
  let ?ev = "amount_since (?sec - ?W) evs"
  define sw1 where "sw1 = sw_advance ?sec sw"
  have logs0: "ring_logs (sw_windowSec sw) evs (sw_ring sw)" and pos: "\<forall>e\<in>set evs. 0 \<le> snd e"
    using track by (simp_all add: sw_tracks_def)
  have Wpos: "0 < sw_windowSec sw" using logs0 by (simp add: ring_logs_def)
  have ring1: "sw_ring sw1 = ring_advance ?sec (sw_ring sw)" by (simp add: sw1_def sw_advance_ring)
  have base1: "sw_base sw1 = ?sec" using sr.newest_advance [of ?sec "sw_ring sw"] mono by (simp flip: ring1)
  have sum1: "sw_sum sw1 = ?ev" using sr.advanced_content [OF logs0, of ?sec] mono by (simp flip: ring1)
  have logs1: "ring_logs (sw_windowSec sw) evs (sw_ring sw1)" using sr.logs_advance [OF logs0] by (simp add: ring1)
  have "?ev \<le> amount_since (sw_base sw - ?W) evs"
    using pos mono by (intro amount_since_antimono) simp_all
  then have cap: "of_int ?ev \<le> sw_rate sw"
    using track by (metis dual_order.trans of_int_le_iff sw_tracks_def)
  have fits: "fl64 (fl64 (of_int (sw_sum sw1)) + fl64 (of_int n)) \<le> sw_rate sw \<longleftrightarrow> of_int (?ev + n) \<le> sw_rate sw"
    using float_sum_le [OF _ _ cap rate, of n] amount_since_nonneg [OF pos] False by (simp add: sum1)
  obtain counts base s where ch: "ring_charge ?sec n (sw_ring sw1) = (counts, base, s)"
    by (cases "ring_charge ?sec n (sw_ring sw1)")
  have base: "base = ?sec" using sr.newest_charge [of ?sec n "sw_ring sw1"] unfolding ch by (simp add: base1)
  have logs2: "ring_logs (sw_windowSec sw) (evs @ [(?sec, n)]) (counts, base, s)"
    using sr.logs_charge [OF logs1, of n] ch by (simp add: base1)
  have "of_int (amount_since (?sec - ?W) (evs @ [(?sec, n)])) \<le> sw_rate sw" if ok
    using that False logs1 by (auto simp: ok_def ring_logs_def)
  then show ?thesis
    using False track fits ok_def ch base base1 logs1 logs2 cap pos Wpos
    by (simp add: sw_TryAcquire_def sw_acquire_def sw_tracks_def Let_def flip: sw1_def)
       (simp add: sw1_def)
qed

lemma sw_run_spec:
  assumes "sw_tracks evs sw" and "\<forall>r\<in>set reqs. sw_base sw \<le> Unix (fst r)" and "sorted (map fst reqs)"
    and "sw_rate sw < 2 ^ 53"
  shows "fst (sw_run reqs sw) = fst (window_spec (int (sw_windowSec sw)) (sw_rate sw) reqs evs)"
  using assms
proof (induction reqs arbitrary: evs sw)
  case (Cons r reqs)
  obtain now n where r: "r = (now, n)" by force
  define ok where "ok = (n \<le> 0 \<or> of_int (amount_since (Unix now - int (sw_windowSec sw)) evs + n) \<le> sw_rate sw)"
  have mono: "sw_base sw \<le> Unix now" using Cons.prems(2) r by simp
  from sw_TryAcquire_spec [OF Cons.prems(1) mono Cons.prems(4) ok_def] obtain sw' where
    sw': "sw_TryAcquire now n sw = (ok, sw')" "sw_tracks (if 0 < n \<and> ok then evs @ [(Unix now, n)] else evs) sw'"
    "sw_rate sw' = sw_rate sw" "sw_windowSec sw' = sw_windowSec sw" "sw_base sw' \<le> Unix now"
    by blast
  have "\<forall>r\<in>set reqs. sw_base sw' \<le> Unix (fst r)"
    using Cons.prems(3) r sw'(5) by (auto simp: Unix_def Second_def intro: order_trans zdiv_mono1)
  from Cons.IH [OF sw'(2) this] Cons.prems(3,4) sw' r show ?case
    by (simp add: split_beta Let_def ok_def)
qed simp

lemma window_spec_cap:
  assumes "\<forall>r\<in>set reqs. \<forall>e\<in>set evs. fst e \<le> Unix (fst r)" and "sorted (map fst reqs)" and "0 \<le> w"
    and "\<forall>e\<in>set evs. 0 \<le> snd e" and "\<forall>t. of_int (amount_between (t - w) t evs) \<le> rate"
  shows "of_int (amount_between (t - w) t (snd (window_spec w rate reqs evs))) \<le> rate"
  using assms
proof (induction reqs arbitrary: evs)
  case (Cons r reqs)
  obtain now n where r: "r = (now, n)" by force
  define ok where "ok = (n \<le> 0 \<or> of_int (amount_since (Unix now - w) evs + n) \<le> rate)"
  define evs' where "evs' = (if 0 < n \<and> ok then evs @ [(Unix now, n)] else evs)"
  have cap: "of_int (amount_between (t - w) t evs') \<le> rate" for t
  proof (cases "0 < n \<and> ok \<and> Unix now \<le> t")
    case True
    then have "amount_since t evs = 0"
      using Cons.prems(1) r by (intro amount_since_future) (auto intro: order_trans)
    moreover have "amount_since (t - w) evs \<le> amount_since (Unix now - w) evs"
      using Cons.prems(4) True by (intro amount_since_antimono) simp_all
    ultimately have "amount_between (t - w) t evs' \<le> amount_since (Unix now - w) evs + n"
      using True by (auto simp: amount_between_def evs'_def)
    then have "(of_int (amount_between (t - w) t evs') :: rat) \<le> of_int (amount_since (Unix now - w) evs + n)"
      by (simp only: of_int_le_iff)
    with True show ?thesis unfolding ok_def by linarith
  next
    case False
    then have "amount_between (t - w) t evs' = amount_between (t - w) t evs"
      using Cons.prems(3) by (auto simp: amount_between_def evs'_def)
    with Cons.prems(5) show ?thesis by simp
  qed
  have "\<forall>r\<in>set reqs. \<forall>e\<in>set evs'. fst e \<le> Unix (fst r)"
    using Cons.prems(1,2) r by (auto simp: evs'_def Unix_def Second_def intro: zdiv_mono1 split: if_splits)
  moreover have "\<forall>e\<in>set evs'. 0 \<le> snd e" using Cons.prems(4) by (simp add: evs'_def)
  ultimately have "of_int (amount_between (t - w) t (snd (window_spec w rate reqs evs'))) \<le> rate"
    using Cons.IH [of evs'] Cons.prems(2,3) cap r by simp
  then show ?case by (simp add: r evs'_def ok_def split_beta Let_def)
qed simp

lemma newSlidingWindow_tracks:
  assumes "0 \<le> rate"
  shows "sw_tracks [] (newSlidingWindow now rate window)"
  using assms ring_empty_logs [of "nat (max 1 (trunc (Duration_Seconds window)))" "Unix now"]
  by (auto simp: sw_tracks_def newSlidingWindow_def Let_def max_def split: if_splits)

text \<open>
  C10. A sliding-window limiter with a rate below \<open>2^53\<close> decides exactly by the events it admitted
  in the trailing window.  With clock readings that never go backward, a request for \<open>n\<close> tokens is
  admitted precisely when the tokens admitted in the last \<open>windowSec\<close> seconds plus \<open>n\<close> do not exceed
  the rate, although the code keeps only per-second sums and compares rounded \<open>float64\<close> values;
  hence at most \<open>rate\<close> tokens are admitted in any \<open>windowSec\<close> consecutive seconds.
\<close>

theorem sliding_window_exact:
  assumes "sw = newSlidingWindow now0 rate window" and "0 < rate" and "rate < 2 ^ 53"
    and "sorted (now0 # map fst reqs)"
  shows "fst (sw_run reqs sw) = fst (window_spec (int (sw_windowSec sw)) rate reqs [])
    \<and> of_int (amount_between (t - int (sw_windowSec sw)) t
        (snd (window_spec (int (sw_windowSec sw)) rate reqs []))) \<le> rate"
proof
  have rate: "sw_rate sw = rate" and base: "sw_base sw = Unix now0"
    by (simp_all add: assms(1) newSlidingWindow_def Let_def)
  have "sw_tracks [] sw" using assms(1,2) newSlidingWindow_tracks by simp
  moreover have "\<forall>r\<in>set reqs. sw_base sw \<le> Unix (fst r)"
    using assms(4) by (auto simp: base Unix_def Second_def intro: zdiv_mono1)
  ultimately show "fst (sw_run reqs sw) = fst (window_spec (int (sw_windowSec sw)) rate reqs [])"
    using sw_run_spec [of "[]" sw reqs] assms(3,4) by (simp add: rate)
  show "of_int (amount_between (t - int (sw_windowSec sw)) t
        (snd (window_spec (int (sw_windowSec sw)) rate reqs []))) \<le> rate"
    using assms(2,4) by (intro window_spec_cap) (simp_all add: amount_between_def)
qed

lemma seconds_two: "trunc (Duration_Seconds (2 * Second)) = 2"
  using seconds_whole [of 2] by simp

theorem sliding_window_exact_witness:
  "fst (sw_run [(5 * Second, 2), (6 * Second, 2), (6 * Second, 1), (7 * Second, 2), (8 * Second, 2)]
        (newSlidingWindow (5 * Second) 3 (2 * Second))) = [True, False, True, True, False]"
proof -
  have W: "sw_windowSec (newSlidingWindow (5 * Second) 3 (2 * Second)) = 2"
    by (simp add: newSlidingWindow_def seconds_two)
  have "sorted (5 * Second # map fst [(5 * Second, 2 :: int), (6 * Second, 2), (6 * Second, 1), (7 * Second, 2), (8 * Second, 2)])"
    by (simp add: Second_def)
  from sliding_window_exact [OF refl _ _ this, of 3 "2 * Second"] W
  have "fst (sw_run [(5 * Second, 2), (6 * Second, 2), (6 * Second, 1), (7 * Second, 2), (8 * Second, 2)]
        (newSlidingWindow (5 * Second) 3 (2 * Second)))
      = fst (window_spec 2 3 [(5 * Second, 2), (6 * Second, 2), (6 * Second, 1), (7 * Second, 2), (8 * Second, 2)] [])"
    by simp
  also have "\<dots> = [True, False, True, True, False]"
    by (simp add: Unix_def Second_def amount_since_def Let_def)
  finally show ?thesis .
qed

subsection \<open>Fixed window (fixed\_window.go)\<close>

record fixed_window =
  fw_rate :: int
  fw_windowNs :: int
  fw_count :: int
  fw_windowStart :: int
  fw_allowed :: "64 word"
  fw_denied :: "64 word"
  fw_acquired :: "64 word"
  fw_closed :: bool

definition newFixedWindow :: "int \<Rightarrow> int \<Rightarrow> int \<Rightarrow> fixed_window" where
  "newFixedWindow now rate window =
    \<lparr>fw_rate = (if rate < 1 then 1 else rate), fw_windowNs = (if window < Second then Second else window),
     fw_count = 0, fw_windowStart = now, fw_allowed = 0, fw_denied = 0, fw_acquired = 0, fw_closed = False\<rparr>"

text \<open>
  A thread inside \<open>acquire(n)\<close>: the point it has reached, with its local variables.  Every
  constructor but \<open>Returned\<close> stands before one atomic operation.
\<close>

datatype fw_pc =
    LoadStart nat int int
  | CasStart nat int int int
  | ResetCount nat int int
  | LoadCount nat int int
  | CasCount nat int int int
  | AddAllowed int
  | AddAcquired int
  | AddDenied
  | Returned bool

text \<open>The loop head: two attempts, then the request is denied.\<close>

definition next_attempt :: "nat \<Rightarrow> int \<Rightarrow> int \<Rightarrow> fw_pc" where
  "next_attempt attempt now n = (if attempt + 1 < 2 then LoadStart (attempt + 1) now n else AddDenied)"

fun fw_step :: "fw_pc \<Rightarrow> fixed_window \<Rightarrow> fw_pc \<times> fixed_window" where
  "fw_step (LoadStart att now n) fw =
    (if wrap64 (fw_windowStart fw + fw_windowNs fw) \<le> now then (CasStart att now n (fw_windowStart fw), fw)
     else (LoadCount att now n, fw))"
| "fw_step (CasStart att now n start) fw =
    (if fw_windowStart fw = start then (ResetCount att now n, fw\<lparr>fw_windowStart := now\<rparr>)
     else (next_attempt att now n, fw))"
| "fw_step (ResetCount att now n) fw = (LoadCount att now n, fw\<lparr>fw_count := 0\<rparr>)"
| "fw_step (LoadCount att now n) fw =
    (if fw_rate fw < wrap64 (fw_count fw + n) then (AddDenied, fw) else (CasCount att now n (fw_count fw), fw))"
| "fw_step (CasCount att now n cur) fw =
    (if fw_count fw = cur then (AddAllowed n, fw\<lparr>fw_count := wrap64 (cur + n)\<rparr>) else (next_attempt att now n, fw))"
| "fw_step (AddAllowed n) fw = (AddAcquired n, fw\<lparr>fw_allowed := fw_allowed fw + 1\<rparr>)"
| "fw_step (AddAcquired n) fw = (Returned True, fw\<lparr>fw_acquired := fw_acquired fw + word_of_int n\<rparr>)"
| "fw_step AddDenied fw = (Returned False, fw\<lparr>fw_denied := fw_denied fw + 1\<rparr>)"
| "fw_step (Returned b) fw = (Returned b, fw)"

text \<open>
  A call that nobody interrupts is at most eight such steps.
\<close>

fun fw_steps :: "nat \<Rightarrow> fw_pc \<Rightarrow> fixed_window \<Rightarrow> fw_pc \<times> fixed_window" where
  "fw_steps 0 pc fw = (pc, fw)"
| "fw_steps (Suc k) pc fw = (case fw_step pc fw of (pc', fw') \<Rightarrow> fw_steps k pc' fw')"

definition fw_acquire :: "int \<Rightarrow> int \<Rightarrow> fixed_window \<Rightarrow> bool \<times> fixed_window" where
  "fw_acquire now n fw =
    (case fw_steps 8 (LoadStart 0 now n) fw of (pc, fw') \<Rightarrow> (pc = Returned True, fw'))"

definition fw_TryAcquire :: "int \<Rightarrow> int \<Rightarrow> fixed_window \<Rightarrow> bool \<times> fixed_window" where
  "fw_TryAcquire now n fw =
    (if n \<le> 0 then (True, fw) else if fw_closed fw then (False, fw) else fw_acquire now n fw)"

definition fw_Allow :: "int \<Rightarrow> fixed_window \<Rightarrow> bool \<times> fixed_window" where
  "fw_Allow now fw = (if fw_closed fw then (False, fw) else fw_acquire now 1 fw)"

definition fw_Close :: "fixed_window \<Rightarrow> fixed_window" where
  "fw_Close fw = fw\<lparr>fw_closed := True\<rparr>"

definition fw_Metrics :: "fixed_window \<Rightarrow> limiter_metrics" where
  "fw_Metrics fw = \<lparr>lm_Allowed = fw_allowed fw, lm_Denied = fw_denied fw, lm_Acquired = fw_acquired fw\<rparr>"

text \<open>Threads inside \<open>acquire\<close>, interleaved by a schedule of thread numbers.\<close>

fun fw_interleave :: "nat list \<Rightarrow> fw_pc list \<times> fixed_window \<Rightarrow> fw_pc list \<times> fixed_window" where
  "fw_interleave [] s = s"
| "fw_interleave (i # sched) (pcs, fw) =
    (case fw_step (pcs ! i) fw of (pc, fw') \<Rightarrow> fw_interleave sched (pcs[i := pc], fw'))"

lemma fw_acquire_alone:
  assumes fw1_def: "fw1 = (if wrap64 (fw_windowStart fw + fw_windowNs fw) \<le> now
                     then fw\<lparr>fw_windowStart := now, fw_count := 0\<rparr> else fw)"
  shows "fw_acquire now n fw =
    (if fw_rate fw < wrap64 (fw_count fw1 + n) then (False, fw1\<lparr>fw_denied := fw_denied fw1 + 1\<rparr>)
     else (True, fw1\<lparr>fw_count := wrap64 (fw_count fw1 + n), fw_allowed := fw_allowed fw1 + 1,
                   fw_acquired := fw_acquired fw1 + word_of_int n\<rparr>))"
  by (auto simp: fw1_def fw_acquire_def eval_nat_numeral)

text \<open>
  Uncontended and within \<open>2^62\<close>, the counter is the number of tokens of the current window and
  stays within the rate.
\<close>

lemma fw_TryAcquire_bounded:
  assumes "0 \<le> fw_count fw" and "fw_count fw \<le> fw_rate fw" and "fw_rate fw \<le> 2 ^ 62" and "0 < n" and "n < 2 ^ 62"
    and "fw_TryAcquire now n fw = (ok, fw')"
  shows "0 \<le> fw_count fw' \<and> fw_count fw' \<le> fw_rate fw' \<and> fw_rate fw' = fw_rate fw
    \<and> (fw_windowStart fw' = fw_windowStart fw \<longrightarrow> fw_windowStart fw \<noteq> now \<longrightarrow>
        fw_count fw' = fw_count fw + (if ok then n else 0))
    \<and> (ok \<longrightarrow> n \<le> fw_rate fw)"
proof -
  have id: "wrap64 (c + n) = c + n" if "0 \<le> c" "c \<le> fw_rate fw" for c
    using that assms(3-5) by (intro wrap64_id) (simp add: in_i64_def MinInt64_def MaxInt64_def)
  show ?thesis
    using assms id [of 0] id [of "fw_count fw"]
    by (auto simp: fw_TryAcquire_def fw_acquire_alone [OF refl] split: if_splits)
qed

text \<open>
  The lock-free fixed window can admit more than \<open>rate\<close> requests in one window.  First, the
  reset is two operations: between the compare-and-swap on \<open>windowStart\<close> and the store of zero to
  \<open>count\<close> another caller may be admitted, and the store then forgets it, so that with rate 1 two
  callers are admitted at the same instant.  Second, the test \<open>cur+int64(n) > rate\<close> wraps: a request
  for \<open>MaxInt64\<close> tokens after one admitted token is granted, whatever the rate, and leaves a counter
  so negative that the limit is gone.
\<close>
lemma fixed_window_over_admits:
  "fst (fw_interleave ([0, 0] @ replicate 5 1 @ replicate 5 0)
      ([LoadStart 0 (3 * Second) 1, LoadStart 0 (3 * Second) 1], newFixedWindow 0 1 Second))
     = [Returned True, Returned True]
   \<and> (case fw_TryAcquire 1 1 (newFixedWindow 0 10 Second) of (ok1, fw1) \<Rightarrow>
      case fw_TryAcquire 2 MaxInt64 fw1 of (ok2, fw2) \<Rightarrow> ok1 \<and> ok2 \<and> fw_count fw2 = MinInt64)"
proof
  show "fst (fw_interleave ([0, 0] @ replicate 5 1 @ replicate 5 0)
      ([LoadStart 0 (3 * Second) 1, LoadStart 0 (3 * Second) 1], newFixedWindow 0 1 Second))
     = [Returned True, Returned True]"
    by code_simp
  show "case fw_TryAcquire 1 1 (newFixedWindow 0 10 Second) of (ok1, fw1) \<Rightarrow>
      case fw_TryAcquire 2 MaxInt64 fw1 of (ok2, fw2) \<Rightarrow> ok1 \<and> ok2 \<and> fw_count fw2 = MinInt64"
    by code_simp
qed

end
