(* ===== verification/Breaker.thy ===== *)
theory Breaker
  imports Second_Ring
begin

section \<open>Circuit breaker (breaker/)\<close>

text \<open>
  The breaker's state, its admission policy, the recording of outcomes and the transitions.  A call
  to \<open>Execute\<close> has two parts with the caller's function between them, and calls of several
  goroutines overlap: \<open>brk_begin\<close> is the part up to the call of \<open>fn\<close> and \<open>brk_finish\<close> the part
  after it; each is one step of the model, so that calls interleave at the granularity of these
  two parts.  Every reading of the clock is an argument (Unix nanoseconds).  The hook of
  \<open>SetOnEvent\<close> is represented by whether it is installed and by the list of its invocations.

  The theorems: the window sums are the calls recorded in the trailing window, so the breaker trips
  exactly when the documented condition holds on them; in every reachable state a half-open
  breaker accounts for each of its probe slots, never runs more than \<open>MaxRequests\<close> probes and is
  never wedged.
\<close>

subsection \<open>Options (options.go)\<close>

datatype breaker_state = StateClosed | StateOpen | StateHalfOpen

datatype breaker_error = ErrCircuitOpen

record breaker_options =
  bo_Name :: string
  MaxRequests :: "32 word"
  Interval :: int
  OpenDuration :: int
  FailRate :: rat
  MinRequests :: "32 word"

definition defaultBreakerOptions :: breaker_options where
  "defaultBreakerOptions = \<lparr>bo_Name = '''', MaxRequests = 5, Interval = 60 * Second, OpenDuration = 30 * Second,
     FailRate = 1 / 2, MinRequests = 10\<rparr>"

definition breaker_withDefaults :: "breaker_options \<Rightarrow> breaker_options" where
  "breaker_withDefaults o0 =
    (let d = defaultBreakerOptions;
         o1 = (if MaxRequests o0 = 0 then o0\<lparr>MaxRequests := MaxRequests d\<rparr> else o0);
         o2 = (if Interval o1 \<le> 0 then o1\<lparr>Interval := Interval d\<rparr> else o1);
         o3 = (if OpenDuration o2 \<le> 0 then o2\<lparr>OpenDuration := OpenDuration d\<rparr> else o2);
         o4 = (if FailRate o3 = 0 then o3\<lparr>FailRate := FailRate d\<rparr> else o3);
         o5 = (if MinRequests o4 = 0 then o4\<lparr>MinRequests := MinRequests d\<rparr> else o4);
         o6 = (if MaxRequests o5 < 1 then o5\<lparr>MaxRequests := 1\<rparr> else o5);
         o7 = (if MinRequests o6 < 1 then o6\<lparr>MinRequests := 1\<rparr> else o6);
         secs = trunc (Duration_Seconds (Interval o7));
         o8 = (if secs < 1 then o7\<lparr>Interval := Second\<rparr> else o7\<lparr>Interval := secs * Second\<rparr>)
     in if OpenDuration o8 < 0 then o8\<lparr>OpenDuration := OpenDuration d\<rparr> else o8)"

fun state_String :: "breaker_state \<Rightarrow> string" where
  "state_String StateClosed = ''closed''"
| "state_String StateOpen = ''open''"
| "state_String StateHalfOpen = ''half_open''"

record breaker_event =
  be_Name :: string
  be_State :: breaker_state

subsection \<open>State (breaker.go)\<close>

record breaker_metrics =
  bm_State :: breaker_state
  bm_Total :: "64 word"
  bm_Success :: "64 word"
  bm_Failures :: "64 word"
  ConsecutiveFail :: "32 word"

record breaker =
  brk_opts :: breaker_options
  brk_state :: breaker_state
  brk_expiry :: int
  brk_counts :: "int list"
  brk_fails :: "int list"
  brk_base :: int
  sumTotal :: int
  sumFail :: int
  halfOpenSuccess :: "32 word"
  halfOpenCount :: "32 word"
  halfOpenGen :: "32 word"
  brk_total :: "64 word"
  brk_success :: "64 word"
  brk_failures :: "64 word"
  consecFail :: "32 word"
  onEvent :: bool
  brk_events :: "breaker_event list"

definition SetOnEvent :: "bool \<Rightarrow> breaker \<Rightarrow> breaker" where
  "SetOnEvent installed b = b\<lparr>onEvent := installed\<rparr>"

definition fireEvent :: "string \<Rightarrow> breaker \<Rightarrow> breaker" where
  "fireEvent name b =
    (if onEvent b then b\<lparr>brk_events := brk_events b @ [\<lparr>be_Name = name, be_State = brk_state b\<rparr>]\<rparr> else b)"

definition NewBreaker :: "int \<Rightarrow> breaker_options \<Rightarrow> breaker" where
  "NewBreaker now o0 =
    (let opts = breaker_withDefaults o0;
         secs = trunc (Duration_Seconds (Interval opts)); secs = (if secs < 1 then 1 else secs) in
     \<lparr>brk_opts = opts, brk_state = StateClosed, brk_expiry = 0,
      brk_counts = replicate (nat secs) 0, brk_fails = replicate (nat secs) 0, brk_base = Unix now,
      sumTotal = 0, sumFail = 0, halfOpenSuccess = 0, halfOpenCount = 0, halfOpenGen = 0,
      brk_total = 0, brk_success = 0, brk_failures = 0, consecFail = 0, onEvent = False, brk_events = []\<rparr>)"

definition brk_Metrics :: "breaker \<Rightarrow> breaker_metrics" where
  "brk_Metrics b = \<lparr>bm_State = brk_state b, bm_Total = brk_total b, bm_Success = brk_success b,
     bm_Failures = brk_failures b, ConsecutiveFail = consecFail b\<rparr>"

subsection \<open>The sliding window\<close>

function brk_roll :: "int \<Rightarrow> breaker \<Rightarrow> breaker" where
  "brk_roll sec b =
    (if brk_base b < sec
     then let i = slot (brk_counts b) (brk_base b + 1) in
          brk_roll sec (b\<lparr>brk_base := brk_base b + 1,
            sumTotal := sumTotal b - brk_counts b ! i, sumFail := sumFail b - brk_fails b ! i,
            brk_counts := (brk_counts b)[i := 0], brk_fails := (brk_fails b)[i := 0]\<rparr>)
     else b)"
  by pat_completeness auto
termination
  by (relation "measure (\<lambda>(sec, b). nat (sec - brk_base b))") auto

declare brk_roll.simps [simp del]

definition brk_advance :: "int \<Rightarrow> breaker \<Rightarrow> breaker" where
  "brk_advance sec b =
    (if sec \<le> brk_base b then b
     else if int (length (brk_counts b)) \<le> sec - brk_base b
     then b\<lparr>sumTotal := foldl (-) (sumTotal b) (brk_counts b), sumFail := foldl (-) (sumFail b) (brk_fails b),
            brk_counts := map (\<lambda>_. 0) (brk_counts b), brk_fails := map (\<lambda>_. 0) (brk_fails b), brk_base := sec\<rparr>
     else brk_roll sec b)"

definition recordWindow :: "int \<Rightarrow> bool \<Rightarrow> breaker \<Rightarrow> breaker" where
  "recordWindow now success b0 =
    (let sec = Unix now; b = brk_advance sec b0;
         sec = (if sec < brk_base b then brk_base b else sec);
         idx = slot (brk_counts b) sec;
         b1 = b\<lparr>brk_counts := (brk_counts b)[idx := brk_counts b ! idx + 1], sumTotal := sumTotal b + 1\<rparr> in
     if success then b1
     else b1\<lparr>brk_fails := (brk_fails b1)[idx := brk_fails b1 ! idx + 1], sumFail := sumFail b1 + 1\<rparr>)"

subsection \<open>Transitions\<close>

definition tripLocked :: "int \<Rightarrow> breaker \<Rightarrow> breaker" where
  "tripLocked now b = fireEvent ''trip'' (b\<lparr>brk_state := StateOpen, brk_expiry := now + OpenDuration (brk_opts b)\<rparr>)"

definition maybeTrip :: "int \<Rightarrow> int \<Rightarrow> breaker \<Rightarrow> breaker" where
  "maybeTrip t1 t2 b0 =
    (if brk_state b0 \<noteq> StateClosed then b0
     else let b = brk_advance (Unix t1) b0 in
       if (word_of_int (sumTotal b) :: 32 word) < MinRequests (brk_opts b) then b
       else if FailRate (brk_opts b) \<le> 0 then (if 0 < sumFail b then tripLocked t2 b else b)
       else if FailRate (brk_opts b) \<le> fl64 (fl64 (of_int (sumFail b)) / fl64 (of_int (sumTotal b)))
       then tripLocked t2 b else b)"

definition toOpen :: "int \<Rightarrow> breaker \<Rightarrow> breaker" where
  "toOpen now b =
    fireEvent ''trip'' (b\<lparr>brk_state := StateOpen, brk_expiry := now + OpenDuration (brk_opts b),
                         halfOpenSuccess := 0, halfOpenCount := 0\<rparr>)"

definition toClosed :: "int \<Rightarrow> breaker \<Rightarrow> breaker" where
  "toClosed now b =
    (if brk_state b \<noteq> StateHalfOpen then b
     else fireEvent ''recover''
       (b\<lparr>brk_counts := map (\<lambda>_. 0) (brk_counts b), brk_fails := map (\<lambda>_. 0) (brk_fails b),
          sumTotal := 0, sumFail := 0, brk_base := Unix now,
          halfOpenSuccess := 0, halfOpenCount := 0, brk_state := StateClosed\<rparr>))"

definition recordSuccess :: "int \<Rightarrow> 32 word \<Rightarrow> breaker \<Rightarrow> breaker" where
  "recordSuccess now gen b0 =
    (let b = b0\<lparr>brk_success := brk_success b0 + 1, consecFail := 0\<rparr> in
     fireEvent ''success''
      (case brk_state b of
         StateHalfOpen \<Rightarrow>
           (if halfOpenGen b = gen
            then let b1 = b\<lparr>halfOpenSuccess := halfOpenSuccess b + 1\<rparr> in
                 if MaxRequests (brk_opts b1) \<le> halfOpenSuccess b1 then toClosed now b1 else b1
            else b)
       | StateClosed \<Rightarrow> recordWindow now True b
       | StateOpen \<Rightarrow> b))"

definition recordFailure :: "int \<Rightarrow> int \<Rightarrow> int \<Rightarrow> 32 word \<Rightarrow> breaker \<Rightarrow> breaker" where
  "recordFailure t1 t2 t3 gen b0 =
    (let b = b0\<lparr>brk_failures := brk_failures b0 + 1, consecFail := consecFail b0 + 1\<rparr> in
     fireEvent ''failure''
      (case brk_state b of
         StateHalfOpen \<Rightarrow> (if halfOpenGen b = gen then toOpen t1 b else b)
       | StateClosed \<Rightarrow>
           (let b1 = recordWindow t1 False b in
            if brk_state b1 = StateClosed then maybeTrip t2 t3 b1 else b1)
       | StateOpen \<Rightarrow> b))"

subsection \<open>Admission\<close>

definition toHalfOpenOrReject :: "int \<Rightarrow> breaker \<Rightarrow> breaker_error option \<times> breaker" where
  "toHalfOpenOrReject now b =
    (if brk_state b \<noteq> StateOpen
     then if brk_state b = StateHalfOpen
          then let b1 = b\<lparr>halfOpenCount := halfOpenCount b + 1\<rparr> in
               if sint (halfOpenCount b1) \<le> sint (MaxRequests (brk_opts b1)) then (None, b1)
               else (Some ErrCircuitOpen, b1\<lparr>halfOpenCount := halfOpenCount b1 - 1\<rparr>)
          else (Some ErrCircuitOpen, b)
     else if now < brk_expiry b then (Some ErrCircuitOpen, b)
     else (None, b\<lparr>brk_state := StateHalfOpen, halfOpenGen := halfOpenGen b + 1,
                   halfOpenSuccess := 0, halfOpenCount := 1\<rparr>))"

definition beforeCall :: "int \<Rightarrow> int \<Rightarrow> breaker \<Rightarrow> breaker_error option \<times> breaker" where
  "beforeCall t1 t2 b =
    (case brk_state b of
       StateClosed \<Rightarrow> (None, b)
     | StateOpen \<Rightarrow> (if t1 < brk_expiry b then (Some ErrCircuitOpen, b) else toHalfOpenOrReject t2 b)
     | StateHalfOpen \<Rightarrow>
         (if MaxRequests (brk_opts b) \<le> halfOpenCount b then (Some ErrCircuitOpen, b)
          else let b1 = b\<lparr>halfOpenCount := halfOpenCount b + 1\<rparr> in
               if sint (MaxRequests (brk_opts b1)) < sint (halfOpenCount b1)
               then (Some ErrCircuitOpen, b1\<lparr>halfOpenCount := halfOpenCount b1 - 1\<rparr>)
               else (None, b1)))"

subsection \<open>Execute\<close>

text \<open>
  \<open>brk_begin\<close> answers whether the call is rejected, has failed because its context is already
  cancelled, or runs \<open>fn\<close> with the captured epoch and the half-open flag.  \<open>clk i\<close> is the
  \<open>i\<close>-th clock reading of the step.
\<close>

datatype begin_result = Rejected breaker_error | Cancelled string | Running "32 word" bool

datatype 'a outcome = Ret 'a | Fail 'a string | Panic string

definition brk_begin :: "(nat \<Rightarrow> int) \<Rightarrow> string option \<Rightarrow> breaker \<Rightarrow> begin_result \<times> breaker" where
  "brk_begin clk ctx_Err b =
    (case beforeCall (clk 0) (clk 1) b of
       (Some err, b1) \<Rightarrow> (Rejected err, fireEvent ''reject'' (b1\<lparr>brk_total := brk_total b1 + 1\<rparr>))
     | (None, b1) \<Rightarrow>
         (let probeGen = halfOpenGen b1 in
          case ctx_Err of
            Some err \<Rightarrow> (Cancelled err, recordFailure (clk 2) (clk 3) (clk 4) probeGen (b1\<lparr>brk_total := brk_total b1 + 1\<rparr>))
          | None \<Rightarrow> (Running probeGen (brk_state b1 = StateHalfOpen), b1\<lparr>brk_total := brk_total b1 + 1\<rparr>)))"

definition brk_finish :: "(nat \<Rightarrow> int) \<Rightarrow> 32 word \<Rightarrow> bool \<Rightarrow> 'a outcome \<Rightarrow> breaker \<Rightarrow> breaker" where
  "brk_finish clk probeGen halfOpenSlot out b =
    (case out of
       Ret v \<Rightarrow> recordSuccess (clk 0) probeGen b
     | Fail v err \<Rightarrow> recordFailure (clk 0) (clk 1) (clk 2) probeGen b
     | Panic r \<Rightarrow> if halfOpenSlot then recordFailure (clk 0) (clk 1) (clk 2) probeGen b else b)"

datatype 'a execute_result = Value 'a | Error 'a string | CircuitOpen | CtxCancelled string | Repanic string

definition Execute :: "(nat \<Rightarrow> int) \<Rightarrow> (nat \<Rightarrow> int) \<Rightarrow> string option \<Rightarrow> 'a outcome \<Rightarrow> breaker \<Rightarrow> 'a execute_result \<times> breaker" where
  "Execute clk1 clk2 ctx_Err out b =
    (case brk_begin clk1 ctx_Err b of
       (Rejected err, b1) \<Rightarrow> (CircuitOpen, b1)
     | (Cancelled err, b1) \<Rightarrow> (CtxCancelled err, b1)
     | (Running gen halfOpenSlot, b1) \<Rightarrow>
         (case out of Ret v \<Rightarrow> Value v | Fail v err \<Rightarrow> Error v err | Panic r \<Rightarrow> Repanic r,
          brk_finish clk2 gen halfOpenSlot out b1))"

subsection \<open>The window is two per-second rings\<close>

abbreviation call_ring :: "breaker \<Rightarrow> int list \<times> int \<times> int" where
  "call_ring b \<equiv> (brk_counts b, brk_base b, sumTotal b)"

abbreviation fail_ring :: "breaker \<Rightarrow> int list \<times> int \<times> int" where
  "fail_ring b \<equiv> (brk_fails b, brk_base b, sumFail b)"

text \<open>Everything but the window.\<close>

definition clear_window :: "breaker \<Rightarrow> breaker" where
  "clear_window b = b\<lparr>brk_counts := [], brk_fails := [], brk_base := 0, sumTotal := 0, sumFail := 0\<rparr>"

lemma clear_window_eqD:
  assumes "clear_window b = clear_window b'"
  shows "brk_state b = brk_state b'" "brk_opts b = brk_opts b'" "brk_expiry b = brk_expiry b'"
    "halfOpenSuccess b = halfOpenSuccess b'" "halfOpenCount b = halfOpenCount b'" "halfOpenGen b = halfOpenGen b'"
    "brk_total b = brk_total b'" "brk_success b = brk_success b'" "brk_failures b = brk_failures b'"
    "consecFail b = consecFail b'" "onEvent b = onEvent b'" "brk_events b = brk_events b'"
  using assms by (cases b; cases b'; simp add: clear_window_def)+

lemma brk_roll_clear: "clear_window (brk_roll sec b) = clear_window b"
proof (induction sec b rule: brk_roll.induct)
  case (1 sec b) then show ?case by (subst brk_roll.simps) (simp add: Let_def clear_window_def)
qed

lemma brk_advance_clear: "clear_window (brk_advance sec b) = clear_window b"
  by (simp add: brk_advance_def brk_roll_clear) (simp add: clear_window_def)

lemmas brk_advance_rest [simp] = clear_window_eqD [OF brk_advance_clear]

lemma recordWindow_clear: "clear_window (recordWindow now ok b) = clear_window b"
  using brk_advance_clear [of "Unix now" b] by (simp add: recordWindow_def Let_def) (simp add: clear_window_def)

lemmas recordWindow_rest [simp] = clear_window_eqD [OF recordWindow_clear]

lemma brk_roll_rings:
  assumes "length (brk_fails b) = length (brk_counts b)"
  shows "call_ring (brk_roll sec b) = ring_roll sec (call_ring b) \<and> fail_ring (brk_roll sec b) = ring_roll sec (fail_ring b)"
  using assms
proof (induction sec b rule: brk_roll.induct)
  case (1 sec b)
  have "slot (brk_fails b) s = slot (brk_counts b) s" for s using "1.prems" by (simp add: slot_def)
  with 1 show ?case
    by (subst (1 2 3 4 5 6) brk_roll.simps, subst (1 2) ring_roll.simps) (simp add: Let_def)
qed

lemma brk_advance_rings:
  assumes "length (brk_fails b) = length (brk_counts b)"
  shows "call_ring (brk_advance sec b) = ring_advance sec (call_ring b)"
    and "fail_ring (brk_advance sec b) = ring_advance sec (fail_ring b)"
  using brk_roll_rings [OF assms, of sec] assms by (simp_all add: brk_advance_def ring_advance_def)

text \<open>
  The events recorded so far, pairs of a charged second and a success flag, and what the two rings
  hold of them.
\<close>

definition call_evs :: "(int \<times> bool) list \<Rightarrow> (int \<times> int) list" where
  "call_evs evs = map (\<lambda>(s, ok). (s, 1)) evs"

definition fail_evs :: "(int \<times> bool) list \<Rightarrow> (int \<times> int) list" where
  "fail_evs evs = map (\<lambda>(s, ok). (s, if ok then 0 else 1)) evs"

definition window_logs :: "nat \<Rightarrow> (int \<times> bool) list \<Rightarrow> breaker \<Rightarrow> bool" where
  "window_logs n evs b \<longleftrightarrow> ring_logs n (call_evs evs) (call_ring b) \<and> ring_logs n (fail_evs evs) (fail_ring b)"

lemma window_logs_lengths:
  "window_logs n evs b \<Longrightarrow> length (brk_fails b) = length (brk_counts b) \<and> length (brk_counts b) = n"
  by (auto simp: window_logs_def ring_logs_def)

lemma brk_advance_logs: "window_logs n evs b \<Longrightarrow> window_logs n evs (brk_advance sec b)"
  using brk_advance_rings [of b sec] window_logs_lengths [of n evs b] sr.logs_advance
  by (simp add: window_logs_def)

lemma brk_advance_base: "window_logs n evs b \<Longrightarrow> brk_base (brk_advance sec b) = max sec (brk_base b)"
  using brk_advance_rings(1) [of b sec] window_logs_lengths [of n evs b] sr.newest_advance [of sec "call_ring b"]
  by (metis fst_conv snd_conv)

lemma ring_charge_zero: "counts \<noteq> [] \<Longrightarrow> ring_charge sec 0 (counts, base, s) = (counts, base, s)"
  by (simp add: ring_charge_def)

lemma recordWindow_rings:
  assumes "window_logs n evs b" and b1_def: "b1 = brk_advance (Unix now) b"
  shows "call_ring (recordWindow now ok b) = ring_charge (brk_base b1) 1 (call_ring b1)"
    and "fail_ring (recordWindow now ok b) = ring_charge (brk_base b1) (if ok then 0 else 1) (fail_ring b1)"
proof -
  have "window_logs n evs b1" unfolding b1_def by (rule brk_advance_logs [OF assms(1)])
  then have len: "length (brk_fails b1) = length (brk_counts b1)" "brk_fails b1 \<noteq> []"
    by (auto simp: window_logs_def ring_logs_def)
  have slots: "slot (brk_fails b1) s = slot (brk_counts b1) s" for s using len by (simp add: slot_def)
  have "(if Unix now < brk_base b1 then brk_base b1 else Unix now) = brk_base b1"
    using brk_advance_base [OF assms(1)] by (simp add: b1_def)
  then show "call_ring (recordWindow now ok b) = ring_charge (brk_base b1) 1 (call_ring b1)"
    and "fail_ring (recordWindow now ok b) = ring_charge (brk_base b1) (if ok then 0 else 1) (fail_ring b1)"
    using len slots by (auto simp: recordWindow_def Let_def ring_charge_def simp flip: b1_def split: if_splits)
qed

lemma recordWindow_logs:
  assumes "window_logs n evs b"
  shows "window_logs n (evs @ [(max (Unix now) (brk_base b), ok)]) (recordWindow now ok b)"
    and "brk_base (recordWindow now ok b) = max (Unix now) (brk_base b)"
proof -
  let ?b1 = "brk_advance (Unix now) b"
  have base: "brk_base ?b1 = max (Unix now) (brk_base b)" by (rule brk_advance_base [OF assms])
  have "window_logs n evs ?b1" by (rule brk_advance_logs [OF assms])
  then have "ring_logs n (call_evs evs @ [(brk_base ?b1, 1)]) (ring_charge (brk_base ?b1) 1 (call_ring ?b1))"
    and "ring_logs n (fail_evs evs @ [(brk_base ?b1, if ok then 0 else 1)])
           (ring_charge (brk_base ?b1) (if ok then 0 else 1) (fail_ring ?b1))"
    unfolding window_logs_def
    using sr.logs_charge [of n "call_evs evs" "call_ring ?b1" 1]
      sr.logs_charge [of n "fail_evs evs" "fail_ring ?b1" "if ok then 0 else 1"] by simp_all
  then show "window_logs n (evs @ [(max (Unix now) (brk_base b), ok)]) (recordWindow now ok b)"
    unfolding window_logs_def recordWindow_rings [OF assms refl] by (simp add: call_evs_def fail_evs_def base)
  have "brk_base (recordWindow now ok b) = fst (snd (call_ring (recordWindow now ok b)))" by simp
  also have "\<dots> = max (Unix now) (brk_base b)"
    unfolding recordWindow_rings(1) [OF assms refl] sr.newest_charge by (simp add: base)
  finally show "brk_base (recordWindow now ok b) = max (Unix now) (brk_base b)" .
qed

definition calls_since :: "int \<Rightarrow> (int \<times> bool) list \<Rightarrow> nat" where
  "calls_since s evs = length (filter (\<lambda>e. s < fst e) evs)"

definition fails_since :: "int \<Rightarrow> (int \<times> bool) list \<Rightarrow> nat" where
  "fails_since s evs = length (filter (\<lambda>e. s < fst e \<and> \<not> snd e) evs)"

lemma window_sums:
  assumes "window_logs n evs b"
  shows "sumTotal b = int (calls_since (brk_base b - int n) evs)"
    and "sumFail b = int (fails_since (brk_base b - int n) evs)"
proof -
  have "amount_since s (call_evs evs) = int (calls_since s evs)" for s
    by (induction evs) (auto simp: call_evs_def calls_since_def amount_since_def)
  moreover have "amount_since s (fail_evs evs) = int (fails_since s evs)" for s
    by (induction evs) (auto simp: fail_evs_def fails_since_def amount_since_def)
  ultimately show "sumTotal b = int (calls_since (brk_base b - int n) evs)"
    and "sumFail b = int (fails_since (brk_base b - int n) evs)"
    using assms sr.logs_content [of n "call_evs evs" "call_ring b"] sr.logs_content [of n "fail_evs evs" "fail_ring b"]
    by (simp_all add: window_logs_def)
qed

subsection \<open>When a closed breaker trips\<close>

definition brk_record :: "int \<times> bool \<Rightarrow> breaker \<Rightarrow> breaker" where
  "brk_record r b =
    (if snd r then recordSuccess (fst r) (halfOpenGen b) b
     else recordFailure (fst r) (fst r) (fst r) (halfOpenGen b) b)"

text \<open>The documented condition, on the calls of the trailing window of \<open>n\<close> seconds.\<close>

definition trip_due :: "breaker_options \<Rightarrow> nat \<Rightarrow> int \<Rightarrow> (int \<times> bool) list \<Rightarrow> bool" where
  "trip_due opts n now evs \<longleftrightarrow>
    (let calls = calls_since (Unix now - int n) evs; fails = fails_since (Unix now - int n) evs in
     unat (MinRequests opts) \<le> calls
     \<and> (if FailRate opts \<le> 0 then 0 < fails else FailRate opts \<le> fl64 (fl64 (of_nat fails) / fl64 (of_nat calls))))"

text \<open>The specification: the outcomes are kept as they came and the condition is checked at each failure.\<close>

fun trips :: "breaker_options \<Rightarrow> nat \<Rightarrow> (int \<times> bool) list \<Rightarrow> (int \<times> bool) list \<Rightarrow> bool" where
  "trips opts n evs [] = False"
| "trips opts n evs ((now, ok) # rs) =
    ((\<not> ok \<and> trip_due opts n now (evs @ [(Unix now, ok)])) \<or> trips opts n (evs @ [(Unix now, ok)]) rs)"

lemma fireEvent_rest [simp]:
  "brk_state (fireEvent e b) = brk_state b" "brk_opts (fireEvent e b) = brk_opts b"
  "halfOpenSuccess (fireEvent e b) = halfOpenSuccess b" "halfOpenCount (fireEvent e b) = halfOpenCount b"
  "halfOpenGen (fireEvent e b) = halfOpenGen b" "brk_counts (fireEvent e b) = brk_counts b"
  "brk_fails (fireEvent e b) = brk_fails b" "brk_base (fireEvent e b) = brk_base b"
  "sumTotal (fireEvent e b) = sumTotal b" "sumFail (fireEvent e b) = sumFail b"
  "brk_expiry (fireEvent e b) = brk_expiry b" "brk_total (fireEvent e b) = brk_total b"
  by (simp_all add: fireEvent_def)

lemma window_logs_cong:
  "brk_counts b' = brk_counts b \<Longrightarrow> brk_fails b' = brk_fails b \<Longrightarrow> brk_base b' = brk_base b \<Longrightarrow>
   sumTotal b' = sumTotal b \<Longrightarrow> sumFail b' = sumFail b \<Longrightarrow> window_logs n evs b' = window_logs n evs b"
  by (simp add: window_logs_def)

lemma calls_since_le: "calls_since s evs \<le> length evs"
  by (simp add: calls_since_def)

lemma maybeTrip_spec:
  assumes logs: "window_logs n evs b" and closed: "brk_state b = StateClosed" and base: "brk_base b = Unix now"
    and small: "length evs < 2 ^ 32"
  shows "brk_state (maybeTrip now now b) = (if trip_due (brk_opts b) n now evs then StateOpen else StateClosed)"
    and "window_logs n evs (maybeTrip now now b)" and "brk_base (maybeTrip now now b) = Unix now"
    and "brk_opts (maybeTrip now now b) = brk_opts b"
proof -
  have adv: "brk_advance (Unix now) b = b" by (simp add: brk_advance_def base)
  note sums = window_sums [OF logs, unfolded base]
  have "calls_since (Unix now - int n) evs < 2 ^ 32" using calls_since_le small by (rule order.strict_trans1)
  then have cmp: "(word_of_int (sumTotal b) :: 32 word) < MinRequests (brk_opts b)
      \<longleftrightarrow> calls_since (Unix now - int n) evs < unat (MinRequests (brk_opts b))"
    by (simp add: sums word_less_nat_alt unat_of_nat)
  show "brk_state (maybeTrip now now b) = (if trip_due (brk_opts b) n now evs then StateOpen else StateClosed)"
    using closed cmp sums by (auto simp: maybeTrip_def adv trip_due_def Let_def tripLocked_def)
  show "window_logs n evs (maybeTrip now now b)"
    using logs by (simp add: maybeTrip_def adv Let_def tripLocked_def window_logs_def)
  show "brk_base (maybeTrip now now b) = Unix now" and "brk_opts (maybeTrip now now b) = brk_opts b"
    using base by (simp_all add: maybeTrip_def adv Let_def tripLocked_def)
qed

lemma brk_record_closed:
  assumes logs: "window_logs n evs b" and closed: "brk_state b = StateClosed" and mono: "brk_base b \<le> Unix now"
    and small: "length evs + 1 < 2 ^ 32"
  shows "brk_state (brk_record (now, ok) b)
      = (if \<not> ok \<and> trip_due (brk_opts b) n now (evs @ [(Unix now, ok)]) then StateOpen else StateClosed)
    \<and> window_logs n (evs @ [(Unix now, ok)]) (brk_record (now, ok) b)
    \<and> brk_base (brk_record (now, ok) b) = Unix now \<and> brk_opts (brk_record (now, ok) b) = brk_opts b"
proof -
  have charge: "window_logs n (evs @ [(Unix now, ok)]) (recordWindow now ok b')" "brk_base (recordWindow now ok b') = Unix now"
    if "window_logs n evs b'" "brk_base b' = brk_base b" for b'
    using recordWindow_logs [OF that(1), of now ok] that(2) mono by (simp_all add: max_absorb1)
  show ?thesis
  proof (cases ok)
    case True
    define b' where "b' = b\<lparr>brk_success := brk_success b + 1, consecFail := 0\<rparr>"
    have b': "window_logs n evs b'" "brk_base b' = brk_base b" "brk_state b' = StateClosed" "brk_opts b' = brk_opts b"
      using logs closed by (simp_all add: b'_def window_logs_def)
    have "brk_record (now, ok) b = fireEvent ''success'' (recordWindow now ok b')"
      using True closed by (simp add: brk_record_def recordSuccess_def b'_def Let_def)
    then show ?thesis using True b' charge [OF b'(1,2)] by (simp add: window_logs_def)
  next
    case False
    define b' where "b' = b\<lparr>brk_failures := brk_failures b + 1, consecFail := consecFail b + 1\<rparr>"
    have b': "window_logs n evs b'" "brk_base b' = brk_base b" "brk_state b' = StateClosed" "brk_opts b' = brk_opts b"
      using logs closed by (simp_all add: b'_def window_logs_def)
    have eq: "brk_record (now, ok) b = fireEvent ''failure'' (maybeTrip now now (recordWindow now ok b'))"
      using False closed by (simp add: brk_record_def recordFailure_def b'_def Let_def)
    have "brk_state (recordWindow now ok b') = StateClosed" using b' by simp
    from maybeTrip_spec [OF charge(1) this charge(2)] b' small False
    show ?thesis unfolding eq by (simp add: window_logs_def)
  qed
qed

lemma brk_record_open: "brk_state b = StateOpen \<Longrightarrow> brk_state (brk_record r b) = StateOpen"
  by (simp add: brk_record_def recordSuccess_def recordFailure_def Let_def)

lemma brk_record_fold_open: "brk_state b = StateOpen \<Longrightarrow> brk_state (fold brk_record rs b) = StateOpen"
  by (induction rs arbitrary: b) (simp_all add: brk_record_open)

lemma brk_records_spec:
  assumes "window_logs n evs b" and "brk_state b = StateClosed" and "sorted (map fst rs)"
    and "\<forall>r\<in>set rs. brk_base b \<le> Unix (fst r)" and "length evs + length rs < 2 ^ 32"
  shows "brk_state (fold brk_record rs b) = (if trips (brk_opts b) n evs rs then StateOpen else StateClosed)"
  using assms
proof (induction rs arbitrary: evs b)
  case (Cons r rs)
  obtain now ok where r: "r = (now, ok)" by force
  let ?b = "brk_record (now, ok) b"
  have s: "brk_state ?b = (if \<not> ok \<and> trip_due (brk_opts b) n now (evs @ [(Unix now, ok)]) then StateOpen else StateClosed)"
    "window_logs n (evs @ [(Unix now, ok)]) ?b" "brk_base ?b = Unix now" "brk_opts ?b = brk_opts b"
    using brk_record_closed [OF Cons.prems(1,2), of now ok] Cons.prems(4,5) r by simp_all
  have later: "\<forall>r\<in>set rs. brk_base ?b \<le> Unix (fst r)"
    using Cons.prems(3) r s(3) by (auto simp: Unix_def Second_def intro: zdiv_mono1)
  show ?case
  proof (cases "\<not> ok \<and> trip_due (brk_opts b) n now (evs @ [(Unix now, ok)])")
    case True
    then have "brk_state ?b = StateOpen" unfolding s(1) by (rule if_P)
    then have "brk_state (fold brk_record rs ?b) = StateOpen" by (rule brk_record_fold_open)
    then show ?thesis using True r by auto
  next
    case False
    then have "brk_state ?b = StateClosed" using s(1) by simp
    from Cons.IH [OF s(2) this _ later] Cons.prems(3,5) False r show ?thesis by (auto simp: s(4))
  qed
qed simp

lemma NewBreaker_logs:
  assumes "b = NewBreaker now o0"
  shows "window_logs (length (brk_counts b)) [] b" and "brk_state b = StateClosed" and "brk_base b = Unix now"
  using ring_empty_logs [of "length (brk_counts b)" "Unix now"]
  by (auto simp: assms NewBreaker_def Let_def window_logs_def call_evs_def fail_evs_def)


definition breaker_example :: breaker where
  "breaker_example = NewBreaker 0 \<lparr>bo_Name = ''x'', MaxRequests = 1, Interval = 2 * Second, OpenDuration = 5,
     FailRate = -1, MinRequests = 2\<rparr>"

lemma breaker_example_window: "length (brk_counts breaker_example) = 2"
  using seconds_whole [of 2] Second_pos
  by (simp add: breaker_example_def NewBreaker_def breaker_withDefaults_def defaultBreakerOptions_def Let_def)

lemma breaker_example_opts: "MinRequests (brk_opts breaker_example) = 2" "FailRate (brk_opts breaker_example) = - 1"
  using seconds_whole [of 2] Second_pos
  by (simp_all add: breaker_example_def NewBreaker_def breaker_withDefaults_def defaultBreakerOptions_def Let_def)


subsection \<open>Half-open probes\<close>

text \<open>
  Overlapping calls: a call in flight is the epoch it captured and its half-open flag.  The
  number in front counts the steps made so far.  The breaker never looks at the value a call
  returns, so the outcomes carry none.
\<close>

inductive brk_reach :: "breaker_options \<Rightarrow> nat \<Rightarrow> breaker \<Rightarrow> (32 word \<times> bool) list \<Rightarrow> bool" for o0 where
  start: "brk_reach o0 0 (NewBreaker now o0) []"
| admitted: "brk_reach o0 n b calls \<Longrightarrow> brk_begin clk ctx b = (Running g s, b') \<Longrightarrow> brk_reach o0 (Suc n) b' ((g, s) # calls)"
| refused: "brk_reach o0 n b calls \<Longrightarrow> brk_begin clk ctx b = (r, b') \<Longrightarrow> (\<forall>g s. r \<noteq> Running g s) \<Longrightarrow> brk_reach o0 (Suc n) b' calls"
| finished: "brk_reach o0 n b (xs @ (g, s) # ys) \<Longrightarrow> brk_reach o0 (Suc n) (brk_finish clk g s (out :: unit outcome) b) (xs @ ys)"
| hooked: "brk_reach o0 n b calls \<Longrightarrow> brk_reach o0 (Suc n) (SetOnEvent h b) calls"

text \<open>The probes in flight of the breaker's current half-open epoch.\<close>

definition probes :: "breaker \<Rightarrow> (32 word \<times> bool) list \<Rightarrow> nat" where
  "probes b calls = length (filter (\<lambda>c. fst c = halfOpenGen b) calls)"

definition probe_inv :: "breaker_options \<Rightarrow> nat \<Rightarrow> breaker \<Rightarrow> (32 word \<times> bool) list \<Rightarrow> bool" where
  "probe_inv opts n b calls \<longleftrightarrow>
     brk_opts b = opts \<and> unat (halfOpenGen b) \<le> n \<and> (\<forall>c\<in>set calls. unat (fst c) \<le> unat (halfOpenGen b))
     \<and> (brk_state b = StateHalfOpen \<longrightarrow>
          (\<forall>c\<in>set calls. fst c = halfOpenGen b \<longrightarrow> snd c)
          \<and> unat (halfOpenCount b) = unat (halfOpenSuccess b) + probes b calls
          \<and> unat (halfOpenCount b) \<le> unat (MaxRequests opts)
          \<and> unat (halfOpenSuccess b) < unat (MaxRequests opts))"

lemma recordFailure_probe:
  "halfOpenGen (recordFailure t1 t2 t3 g b) = halfOpenGen b" "brk_opts (recordFailure t1 t2 t3 g b) = brk_opts b"
  "brk_state (recordFailure t1 t2 t3 g b) = StateHalfOpen \<longleftrightarrow> brk_state b = StateHalfOpen \<and> halfOpenGen b \<noteq> g"
  "brk_state b = StateHalfOpen \<Longrightarrow> halfOpenGen b \<noteq> g \<Longrightarrow> halfOpenCount (recordFailure t1 t2 t3 g b) = halfOpenCount b"
  "brk_state b = StateHalfOpen \<Longrightarrow> halfOpenGen b \<noteq> g \<Longrightarrow> halfOpenSuccess (recordFailure t1 t2 t3 g b) = halfOpenSuccess b"
  by (auto simp: recordFailure_def toOpen_def maybeTrip_def tripLocked_def Let_def split: breaker_state.splits)

lemma recordSuccess_probe:
  "halfOpenGen (recordSuccess t g b) = halfOpenGen b" "brk_opts (recordSuccess t g b) = brk_opts b"
  "brk_state (recordSuccess t g b) = StateHalfOpen \<longleftrightarrow> brk_state b = StateHalfOpen
     \<and> (halfOpenGen b = g \<longrightarrow> halfOpenSuccess b + 1 < MaxRequests (brk_opts b))"
  "brk_state (recordSuccess t g b) = StateHalfOpen \<Longrightarrow> halfOpenCount (recordSuccess t g b) = halfOpenCount b"
  "brk_state (recordSuccess t g b) = StateHalfOpen \<Longrightarrow>
     halfOpenSuccess (recordSuccess t g b) = halfOpenSuccess b + (if halfOpenGen b = g then 1 else 0)"
  by (auto simp: recordSuccess_def toClosed_def Let_def split: breaker_state.splits if_splits)

lemma sint_small:
  assumes "unat (w :: 32 word) < 2 ^ 31"
  shows "sint w = int (unat w)"
proof -
  have "int (unat w) < int (2 ^ 31)" using assms by (simp only: of_nat_less_iff)
  then have "uint w < 2 ^ 31" by simp
  moreover have "- (2 ^ 31) \<le> uint w" using uint_ge_0 [of w] by (rule order_trans [rotated]) simp
  ultimately have "signed_take_bit 31 (uint w) = uint w" by (intro signed_take_bit_int_eq_self) simp_all
  then show ?thesis by (simp add: sint_uint)
qed

lemma unat_Suc: "unat (w :: 32 word) < 2 ^ 32 - 1 \<Longrightarrow> unat (w + 1) = unat w + 1"
  by (simp add: unat_word_ariths)

lemma beforeCall_probe:
  assumes "beforeCall t1 t2 b = (r, b')" and "unat (MaxRequests (brk_opts b)) < 2 ^ 31"
  shows "(r = Some ErrCircuitOpen \<and> b' = b)
    \<or> (r = None \<and> brk_state b = StateClosed \<and> b' = b)
    \<or> (r = None \<and> brk_state b = StateHalfOpen \<and> unat (halfOpenCount b) < unat (MaxRequests (brk_opts b))
         \<and> b' = b\<lparr>halfOpenCount := halfOpenCount b + 1\<rparr>)
    \<or> (r = None \<and> brk_state b = StateOpen \<and> brk_expiry b \<le> t1 \<and> brk_expiry b \<le> t2
         \<and> b' = b\<lparr>brk_state := StateHalfOpen, halfOpenGen := halfOpenGen b + 1, halfOpenSuccess := 0, halfOpenCount := 1\<rparr>)"
  using assms by (auto simp: beforeCall_def toHalfOpenOrReject_def Let_def word_less_nat_alt linorder_not_le
      split: breaker_state.splits if_splits)

lemma half_open_admits:
  assumes "brk_state b = StateHalfOpen" and "unat (MaxRequests (brk_opts b)) < 2 ^ 31"
    and "unat (halfOpenCount b) < unat (MaxRequests (brk_opts b))"
  shows "beforeCall t1 t2 b = (None, b\<lparr>halfOpenCount := halfOpenCount b + 1\<rparr>)"
proof -
  have "unat (halfOpenCount b + 1) = unat (halfOpenCount b) + 1" using assms(2,3) by (intro unat_Suc) simp
  moreover from this have "sint (halfOpenCount b + 1) = int (unat (halfOpenCount b + 1))"
    using assms(2,3) by (intro sint_small) simp
  moreover have "sint (MaxRequests (brk_opts b)) = int (unat (MaxRequests (brk_opts b)))"
    using assms(2) by (rule sint_small)
  ultimately have "\<not> sint (MaxRequests (brk_opts b)) < sint (halfOpenCount b + 1)"
    using assms(3) by linarith
  then show ?thesis using assms(1,3) by (simp add: beforeCall_def Let_def word_le_nat_alt)
qed

lemma probe_inv_begin:
  assumes inv: "probe_inv opts n b calls" and fits: "unat (MaxRequests opts) < 2 ^ 31" "0 < unat (MaxRequests opts)"
    and n: "n < 2 ^ 32 - 1" and "beforeCall t1 t2 b = (None, b')"
  shows "probe_inv opts (Suc n) b' ((halfOpenGen b', brk_state b' = StateHalfOpen) # calls)"
proof -
  have max: "MaxRequests (brk_opts b) = MaxRequests opts" using inv by (simp add: probe_inv_def)
  consider "brk_state b = StateClosed" "b' = b"
    | "brk_state b = StateHalfOpen" "unat (halfOpenCount b) < unat (MaxRequests opts)" "b' = b\<lparr>halfOpenCount := halfOpenCount b + 1\<rparr>"
    | "b' = b\<lparr>brk_state := StateHalfOpen, halfOpenGen := halfOpenGen b + 1, halfOpenSuccess := 0, halfOpenCount := 1\<rparr>"
    using beforeCall_probe [OF assms(5)] fits(1) by (auto simp: max)
  then show ?thesis
  proof cases
    case 1 then show ?thesis using inv by (auto simp: probe_inv_def)
  next
    case 2
    then have "unat (halfOpenCount b + 1) = unat (halfOpenCount b) + 1" using fits(1) by (intro unat_Suc) simp
    with 2 inv show ?thesis by (auto simp: probe_inv_def probes_def)
  next
    case 3
    have gen: "unat (halfOpenGen b + 1) = unat (halfOpenGen b) + 1"
      using inv n by (intro unat_Suc) (simp add: probe_inv_def)
    have new: "fst c \<noteq> halfOpenGen b + 1" if "c \<in> set calls" for c
      using inv that gen by (force simp: probe_inv_def)
    then have "filter (\<lambda>c. fst c = halfOpenGen b + 1) calls = []" by (simp add: filter_empty_conv)
    moreover have "\<forall>c\<in>set calls. unat (fst c) \<le> Suc (unat (halfOpenGen b))"
      using inv by (auto simp: probe_inv_def intro: le_SucI)
    ultimately show ?thesis using 3 inv gen new fits(2) by (auto simp: probe_inv_def probes_def)
  qed
qed

lemma probe_inv_failure':
  assumes inv: "probe_inv opts n b (xs @ (g, s) # ys)"
  shows "probe_inv opts n (recordFailure t1 t2 t3 g b) (xs @ ys)"
  using inv by (auto simp: probe_inv_def probes_def recordFailure_probe)

lemma probe_inv_failure:
  "probe_inv opts n b (xs @ (g, s) # ys) \<Longrightarrow> probe_inv opts (Suc n) (recordFailure t1 t2 t3 g b) (xs @ ys)"
  by (drule probe_inv_failure') (auto simp: probe_inv_def)

lemma probe_inv_success:
  assumes inv: "probe_inv opts n b (xs @ (g, s) # ys)" and fits: "unat (MaxRequests opts) < 2 ^ 31"
  shows "probe_inv opts (Suc n) (recordSuccess t g b) (xs @ ys)"
proof -
  have "unat (halfOpenSuccess b + 1) = unat (halfOpenSuccess b) + 1" if "brk_state b = StateHalfOpen"
    using inv fits that by (intro unat_Suc) (simp add: probe_inv_def)
  with inv show ?thesis
    by (auto simp: probe_inv_def probes_def recordSuccess_probe word_less_nat_alt)
qed

lemma probe_inv_cong:
  "brk_opts b' = brk_opts b \<Longrightarrow> brk_state b' = brk_state b \<Longrightarrow> halfOpenGen b' = halfOpenGen b \<Longrightarrow>
   halfOpenCount b' = halfOpenCount b \<Longrightarrow> halfOpenSuccess b' = halfOpenSuccess b \<Longrightarrow>
   probe_inv opts n b calls \<Longrightarrow> probe_inv opts n b' calls"
  by (auto simp: probe_inv_def probes_def)

lemma probe_inv_later: "probe_inv opts n b calls \<Longrightarrow> probe_inv opts (Suc n) b calls"
  by (auto simp: probe_inv_def)

lemma probe_inv_drop:
  "probe_inv opts n b (xs @ (g, False) # ys) \<Longrightarrow> probe_inv opts (Suc n) b (xs @ ys)"
  by (auto simp: probe_inv_def probes_def)

lemma probe_inv_finish:
  assumes "probe_inv opts n b (xs @ (g, s) # ys)" and "unat (MaxRequests opts) < 2 ^ 31"
  shows "probe_inv opts (Suc n) (brk_finish clk g s out b) (xs @ ys)"
  using assms probe_inv_failure [OF assms(1)] probe_inv_success [OF assms] probe_inv_drop [of opts n b xs g ys]
  by (cases s) (auto simp: brk_finish_def split: outcome.splits)

lemma MaxRequests_default: "0 < unat (MaxRequests (breaker_withDefaults o0))"
  by (auto simp: breaker_withDefaults_def defaultBreakerOptions_def Let_def unat_gt_0)

lemma reach_probe_inv:
  assumes "brk_reach o0 n b calls" and "unat (MaxRequests (breaker_withDefaults o0)) < 2 ^ 31" and "n < 2 ^ 32"
  shows "probe_inv (breaker_withDefaults o0) n b calls"
  using assms
proof (induction rule: brk_reach.induct)
  case (start now)
  show ?case by (simp add: probe_inv_def NewBreaker_def Let_def)
next
  case (admitted n b calls clk ctx g s b')
  have inv: "probe_inv (breaker_withDefaults o0) n b calls" using admitted by simp
  obtain b1 where b1: "beforeCall (clk 0) (clk 1) b = (None, b1)" "g = halfOpenGen b1" "s = (brk_state b1 = StateHalfOpen)"
    "b' = b1\<lparr>brk_total := brk_total b1 + 1\<rparr>"
    using admitted.hyps(2) by (auto simp: brk_begin_def Let_def split: prod.splits option.splits)
  from probe_inv_begin [OF inv admitted.prems(1) MaxRequests_default _ b1(1)] admitted.prems(2)
  have "probe_inv (breaker_withDefaults o0) (Suc n) b1 ((g, s) # calls)" by (simp add: b1(2,3))
  then show ?case by (rule probe_inv_cong [rotated -1]) (simp_all add: b1(4))
next
  case (refused n b calls clk ctx r b')
  have inv: "probe_inv (breaker_withDefaults o0) n b calls" using refused by simp
  obtain e b1 where bc: "beforeCall (clk 0) (clk 1) b = (e, b1)" by force
  show ?case
  proof (cases e)
    case None
    have "\<exists>err. ctx = Some err" using refused.hyps(2,3) bc None by (auto simp: brk_begin_def Let_def split: option.splits)
    then have b': "b' = recordFailure (clk 2) (clk 3) (clk 4) (halfOpenGen b1) (b1\<lparr>brk_total := brk_total b1 + 1\<rparr>)"
      using refused.hyps(2) bc None by (auto simp: brk_begin_def Let_def)
    have "probe_inv (breaker_withDefaults o0) (Suc n) b1 ((halfOpenGen b1, brk_state b1 = StateHalfOpen) # calls)"
      using probe_inv_begin [OF inv refused.prems(1) MaxRequests_default] bc None refused.prems(2) by simp
    then have "probe_inv (breaker_withDefaults o0) (Suc n) (b1\<lparr>brk_total := brk_total b1 + 1\<rparr>)
        ([] @ (halfOpenGen b1, brk_state b1 = StateHalfOpen) # calls)"
      by (auto intro: probe_inv_cong [rotated -1])
    from probe_inv_failure' [OF this] show ?thesis by (simp add: b')
  next
    case (Some err)
    have b1: "b1 = b" using beforeCall_probe [OF bc] Some inv refused.prems(1) by (simp add: probe_inv_def)
    then have "b' = fireEvent ''reject'' (b\<lparr>brk_total := brk_total b + 1\<rparr>)"
      using refused.hyps(2) bc Some by (auto simp: brk_begin_def)
    with probe_inv_later [OF inv] show ?thesis by (auto intro: probe_inv_cong [rotated -1])
  qed
next
  case (finished n b xs g s ys clk out)
  then show ?case by (intro probe_inv_finish) simp_all
next
  case (hooked n b calls h)
  then have "probe_inv (breaker_withDefaults o0) (Suc n) b calls" by (intro probe_inv_later) simp
  then show ?case by (rule probe_inv_cong [rotated -1]) (simp_all add: SetOnEvent_def)
qed

lemma brk_finish_states:
  assumes "brk_state b = StateHalfOpen"
  shows "brk_state (brk_finish clk (halfOpenGen b) s (Fail v e) b) = StateOpen"
    and "brk_state (brk_finish clk (halfOpenGen b) True (Panic e) b) = StateOpen"
    and "brk_state (brk_finish clk (halfOpenGen b) s (Ret v) b)
      = (if halfOpenSuccess b + 1 < MaxRequests (brk_opts b) then StateHalfOpen else StateClosed)"
    and "g \<noteq> halfOpenGen b \<Longrightarrow> brk_state (brk_finish clk g s out b) = StateHalfOpen"
  using assms
  by (auto simp: brk_finish_def recordFailure_def recordSuccess_def toOpen_def toClosed_def Let_def split: outcome.splits)


definition probe_opts :: breaker_options where
  "probe_opts = \<lparr>bo_Name = ''p'', MaxRequests = 2, Interval = Second, OpenDuration = 5, FailRate = -1, MinRequests = 1\<rparr>"

definition probing_breaker :: breaker where
  "probing_breaker = snd (brk_begin (\<lambda>_. 9) None (snd (brk_begin (\<lambda>_. 0) (Some ''cancelled'') (NewBreaker 0 probe_opts))))"


end
