(* ===== verification/Hashing.thy ===== *)
theory Hashing
  imports Prelude
begin

section \<open>Hash functions\<close>

text \<open>
  The FNV hashes of the Go standard library (\<open>hash/fnv\<close>) on byte strings, and the mixing step the
  sketches add to them.  All arithmetic is on machine words.
\<close>

definition fnv64_offset :: "64 word" where "fnv64_offset = 14695981039346656037"
definition fnv64_prime :: "64 word" where "fnv64_prime = 1099511628211"
definition fnv32_offset :: "32 word" where "fnv32_offset = 2166136261"
definition fnv32_prime :: "32 word" where "fnv32_prime = 16777619"

definition fnv64a :: "string \<Rightarrow> 64 word" where
  "fnv64a data = foldl (\<lambda>h c. (h XOR of_char c) * fnv64_prime) fnv64_offset data"

definition fnv64 :: "string \<Rightarrow> 64 word" where
  "fnv64 data = foldl (\<lambda>h c. (h * fnv64_prime) XOR of_char c) fnv64_offset data"

definition fnv32a :: "string \<Rightarrow> 32 word" where
  "fnv32a data = foldl (\<lambda>h c. (h XOR of_char c) * fnv32_prime) fnv32_offset data"

end
