(* ===== verification/Rendezvous.thy ===== *)
theory Rendezvous
  imports Hashing
begin

section \<open>Rendezvous hashing (consistenthash/consistenthash.go)\<close>

text \<open>
  A map is the list of its nodes in insertion order with the identity and hash functions it was
  built with; the read-write mutex makes every method one step, and the pooled scratch buffer only
  carries the bytes \<open>id || key\<close> to the hash.  The theorems are the promises of the scheme: the node
  chosen for a key has the highest score; adding a node moves a key only to that node and removing
  a node moves only the keys it held; the replica list of \<open>GetN\<close> is the ranking by score.
\<close>

record 'n hrw_map =
  hm_id :: "'n \<Rightarrow> string"
  hm_hash :: "string \<Rightarrow> 64 word"
  hm_nodes :: "'n list"

definition DefaultHash :: "string \<Rightarrow> 64 word" where
  "DefaultHash data = fnv64a data"

definition containsLocked :: "string \<Rightarrow> 'n hrw_map \<Rightarrow> bool" where
  "containsLocked i m \<longleftrightarrow> (\<exists>n\<in>set (hm_nodes m). hm_id m n = i)"

definition appendDedupLocked :: "'n list \<Rightarrow> 'n hrw_map \<Rightarrow> 'n hrw_map" where
  "appendDedupLocked nodes m =
    foldl (\<lambda>m n. if containsLocked (hm_id m n) m then m else m\<lparr>hm_nodes := hm_nodes m @ [n]\<rparr>) m nodes"

definition WithHash :: "(string \<Rightarrow> 64 word) \<Rightarrow> 'n hrw_map \<Rightarrow> 'n hrw_map" where
  "WithHash h m = m\<lparr>hm_hash := h\<rparr>"

definition WithNodes :: "'n list \<Rightarrow> 'n hrw_map \<Rightarrow> 'n hrw_map" where
  "WithNodes nodes m = appendDedupLocked nodes m"

definition hrw_New :: "('n \<Rightarrow> string) \<Rightarrow> ('n hrw_map \<Rightarrow> 'n hrw_map) list \<Rightarrow> 'n hrw_map" where
  "hrw_New idf opts = foldl (\<lambda>m opt. opt m) \<lparr>hm_id = idf, hm_hash = DefaultHash, hm_nodes = []\<rparr> opts"

definition hrw_Add :: "'n list \<Rightarrow> 'n hrw_map \<Rightarrow> 'n hrw_map" where
  "hrw_Add nodes m = appendDedupLocked nodes m"

definition hrw_Remove :: "'n \<Rightarrow> 'n hrw_map \<Rightarrow> 'n hrw_map" where
  "hrw_Remove node m = m\<lparr>hm_nodes := filter (\<lambda>n. hm_id m n \<noteq> hm_id m node) (hm_nodes m)\<rparr>"

definition hrw_Len :: "'n hrw_map \<Rightarrow> nat" where
  "hrw_Len m = length (hm_nodes m)"

definition scoreNode :: "'n hrw_map \<Rightarrow> 'n \<Rightarrow> string \<Rightarrow> 64 word" where
  "scoreNode m node key = hm_hash m (hm_id m node @ key)"

fun get_loop :: "('n \<Rightarrow> 64 word) \<Rightarrow> ('n \<times> 64 word) option \<Rightarrow> 'n list \<Rightarrow> 'n option" where
  "get_loop score best [] = map_option fst best"
| "get_loop score best (n # ns) =
    (let s = score n in
     case best of
       None \<Rightarrow> get_loop score (Some (n, s)) ns
     | Some (b, bestScore) \<Rightarrow> get_loop score (if bestScore < s then Some (n, s) else best) ns)"

definition hrw_Get :: "string \<Rightarrow> 'n hrw_map \<Rightarrow> 'n option" where
  "hrw_Get key m = (if hm_nodes m = [] then None else get_loop (\<lambda>n. scoreNode m n key) None (hm_nodes m))"

text \<open>The selection of \<open>GetN\<close>: the inner loop finds the first largest score from position \<open>i\<close>.\<close>

fun max_from :: "('n \<times> 64 word) list \<Rightarrow> nat \<Rightarrow> nat list \<Rightarrow> nat" where
  "max_from scores mx [] = mx"
| "max_from scores mx (j # js) = max_from scores (if snd (scores ! mx) < snd (scores ! j) then j else mx) js"

definition select_step :: "('n \<times> 64 word) list \<Rightarrow> nat \<Rightarrow> ('n \<times> 64 word) list" where
  "select_step scores i =
    (let mx = max_from scores i [i + 1..<length scores] in
     scores[i := scores ! mx, mx := scores ! i])"

definition GetN :: "string \<Rightarrow> int \<Rightarrow> 'n hrw_map \<Rightarrow> 'n list" where
  "GetN key n m =
    (if hm_nodes m = [] \<or> n \<le> 0 then []
     else let scores = map (\<lambda>nd. (nd, scoreNode m nd key)) (hm_nodes m);
              n = min (nat n) (length scores) in
          map fst (take n (foldl select_step scores [0..<n])))"

subsection \<open>Nodes stay distinct\<close>

definition hrw_inv :: "'n hrw_map \<Rightarrow> bool" where
  "hrw_inv m \<longleftrightarrow> distinct (map (hm_id m) (hm_nodes m))"

lemma appendDedupLocked_facts:
  "hm_id (appendDedupLocked nodes m) = hm_id m \<and> hm_hash (appendDedupLocked nodes m) = hm_hash m
   \<and> (hrw_inv m \<longrightarrow> hrw_inv (appendDedupLocked nodes m))
   \<and> (\<exists>new. hm_nodes (appendDedupLocked nodes m) = hm_nodes m @ new \<and> set new \<subseteq> set nodes)"
proof (induction nodes arbitrary: m)
  case (Cons n nodes)
  define m1 where "m1 = (if containsLocked (hm_id m n) m then m else m\<lparr>hm_nodes := hm_nodes m @ [n]\<rparr>)"
  have "hrw_inv m \<Longrightarrow> hrw_inv m1" by (auto simp: m1_def hrw_inv_def containsLocked_def)
  moreover have "\<exists>new. hm_nodes m1 = hm_nodes m @ new \<and> set new \<subseteq> {n}" by (auto simp: m1_def)
  moreover have "hm_id m1 = hm_id m" "hm_hash m1 = hm_hash m" by (simp_all add: m1_def)
  moreover have "appendDedupLocked (n # nodes) m = appendDedupLocked nodes m1" by (simp add: appendDedupLocked_def m1_def)
  ultimately show ?case using Cons.IH [of m1] by fastforce
qed (simp add: appendDedupLocked_def)

lemma hrw_Remove_inv: "hrw_inv m \<Longrightarrow> hrw_inv (hrw_Remove node m)"
  by (simp add: hrw_inv_def hrw_Remove_def distinct_map_filter)

subsection \<open>Get picks the first node of highest score\<close>

text \<open>The reference: keep the earlier of two nodes unless the later one scores strictly more.\<close>

definition winner :: "('n \<Rightarrow> 64 word) \<Rightarrow> 'n list \<Rightarrow> 'n \<Rightarrow> bool" where
  "winner score ns n \<longleftrightarrow>
    (\<exists>xs ys. ns = xs @ n # ys \<and> (\<forall>x\<in>set xs. score x < score n) \<and> (\<forall>y\<in>set ys. score y \<le> score n))"

lemma winnerI:
  "ns = xs @ n # ys \<Longrightarrow> \<forall>x\<in>set xs. score x < score n \<Longrightarrow> \<forall>y\<in>set ys. score y \<le> score n \<Longrightarrow> winner score ns n"
  unfolding winner_def by blast

lemma winner_unique:
  assumes "winner score ns a" and "winner score ns b"
  shows "a = b"
proof -
  obtain xs ys where a: "ns = xs @ a # ys" "\<forall>x\<in>set xs. score x < score a" "\<forall>y\<in>set ys. score y \<le> score a"
    using assms(1) by (auto simp: winner_def)
  obtain us vs where b: "ns = us @ b # vs" "\<forall>x\<in>set us. score x < score b" "\<forall>y\<in>set vs. score y \<le> score b"
    using assms(2) by (auto simp: winner_def)
  have "xs @ a # ys = us @ b # vs" using a(1) b(1) by simp
  then have "(xs = us \<and> a = b) \<or> (\<exists>zs. us = xs @ a # zs) \<or> (\<exists>zs. xs = us @ b # zs)"
    by (fastforce simp: append_eq_append_conv2 append_eq_Cons_conv Cons_eq_append_conv)
  then consider "a = b" | zs where "us = xs @ a # zs" | zs where "xs = us @ b # zs"
    by blast
  then show ?thesis
  proof cases
    case (2 zs)
    then have "b \<in> set ys" using a(1) b(1) by auto
    with 2 a(3) b(2) show ?thesis by fastforce
  next
    case (3 zs)
    then have "a \<in> set vs" using a(1) b(1) by auto
    with 3 a(2) b(3) show ?thesis by fastforce
  qed
qed

lemma get_loop_winner:
  assumes "winner score seen b"
  shows "\<exists>n. get_loop score (Some (b, score b)) ns = Some n \<and> winner score (seen @ ns) n"
  using assms
proof (induction ns arbitrary: seen b)
  case (Cons n ns)
  have "winner score (seen @ [n]) (if score b < score n then n else b)"
  proof -
    obtain xs ys where b: "seen = xs @ b # ys" "\<forall>x\<in>set xs. score x < score b" "\<forall>y\<in>set ys. score y \<le> score b"
      using Cons.prems by (auto simp: winner_def)
    show ?thesis
    proof (cases "score b < score n")
      case True
      then have "\<forall>x\<in>set seen. score x < score n" using b by (auto intro: less_trans le_less_trans)
      then show ?thesis using True winnerI [of "seen @ [n]" seen n "[]"] by simp
    next
      case False
      with b show ?thesis using winnerI [of "seen @ [n]" xs b "ys @ [n]" score] by auto
    qed
  qed
  from Cons.IH [OF this] show ?case by (auto simp: Let_def split: if_splits)
qed simp

lemma hrw_Get_winner:
  "hm_nodes m \<noteq> [] \<Longrightarrow> \<exists>n. hrw_Get key m = Some n \<and> winner (\<lambda>n. scoreNode m n key) (hm_nodes m) n"
proof (cases "hm_nodes m")
  case (Cons n ns)
  have "winner (\<lambda>n. scoreNode m n key) [n] n" by (rule winnerI [of _ "[]" _ "[]"]) simp_all
  from get_loop_winner [OF this, of ns] Cons show ?thesis by (simp add: hrw_Get_def Let_def)
qed simp

lemma hrw_Get_eq: "winner (\<lambda>n. scoreNode m n key) (hm_nodes m) n \<Longrightarrow> hrw_Get key m = Some n"
proof -
  assume w: "winner (\<lambda>n. scoreNode m n key) (hm_nodes m) n"
  then have "hm_nodes m \<noteq> []" by (auto simp: winner_def)
  from hrw_Get_winner [OF this, of key] winner_unique [OF w] show ?thesis by auto
qed

subsection \<open>Membership changes move few keys\<close>

lemma winner_filter:
  assumes "winner score ns n" and "P n"
  shows "winner score (filter P ns) n"
proof -
  obtain xs ys where "ns = xs @ n # ys" "\<forall>x\<in>set xs. score x < score n" "\<forall>y\<in>set ys. score y \<le> score n"
    using assms(1) by (auto simp: winner_def)
  then show ?thesis using assms(2) by (intro winnerI [of _ "filter P xs" n "filter P ys"]) auto
qed

lemma winner_append:
  assumes "winner score (ns @ new) n"
  shows "n \<in> set new \<or> winner score ns n"
proof -
  obtain xs ys where n: "ns @ new = xs @ n # ys" "\<forall>x\<in>set xs. score x < score n" "\<forall>y\<in>set ys. score y \<le> score n"
    using assms by (auto simp: winner_def)
  show ?thesis
  proof (cases "length xs < length ns")
    case True
    then have "take (length ns) (xs @ n # ys) = xs @ n # take (length ns - length xs - 1) ys"
      by (cases "length ns - length xs") simp_all
    then have "ns = xs @ n # take (length ns - length xs - 1) ys" using n(1) by (metis append_eq_conv_conj)
    with n(2,3) show ?thesis by (auto intro!: winnerI dest: in_set_takeD)
  next
    case False
    have "(ns @ new) ! length xs = n" using n(1) by simp
    moreover have "length xs < length (ns @ new)" using n(1) by simp
    ultimately have "n = new ! (length xs - length ns)" "length xs - length ns < length new"
      using False by (auto simp: nth_append)
    then show ?thesis by simp
  qed
qed

subsection \<open>The ranking of GetN\<close>

lemma max_from_spec:
  assumes "i \<le> mx" and "mx < j" and "j \<le> length S"
    and "\<forall>k\<in>{i..<j}. snd (S ! k) \<le> snd (S ! mx)" and "\<forall>k\<in>{i..<mx}. snd (S ! k) < snd (S ! mx)"
  shows "i \<le> max_from S mx [j..<length S] \<and> max_from S mx [j..<length S] < length S
    \<and> (\<forall>k\<in>{i..<length S}. snd (S ! k) \<le> snd (S ! max_from S mx [j..<length S]))
    \<and> (\<forall>k\<in>{i..<max_from S mx [j..<length S]}. snd (S ! k) < snd (S ! max_from S mx [j..<length S]))"
  using assms
proof (induction "length S - j" arbitrary: mx j)
  case (Suc d)
  define mx' where "mx' = (if snd (S ! mx) < snd (S ! j) then j else mx)"
  have step: "max_from S mx [j..<length S] = max_from S mx' [Suc j..<length S]"
    using Suc.hyps(2) by (simp add: upt_conv_Cons mx'_def)
  have below: "snd (S ! k) < snd (S ! j)" if "snd (S ! mx) < snd (S ! j)" "k \<in> {i..<j}" for k
    using Suc.prems(4) that by (meson le_less_trans)
  have "\<forall>k\<in>{i..<Suc j}. snd (S ! k) \<le> snd (S ! mx')" and "\<forall>k\<in>{i..<mx'}. snd (S ! k) < snd (S ! mx')"
    using Suc.prems(4,5) below less_imp_le [OF below] by (auto simp: mx'_def less_Suc_eq)
  moreover have "i \<le> mx'" "mx' < Suc j" using Suc.prems(1,2) by (auto simp: mx'_def)
  ultimately show ?case unfolding step using Suc.hyps by (intro Suc.hyps(1)) auto
qed simp

definition ranked_to :: "nat \<Rightarrow> ('n \<times> 64 word) list \<Rightarrow> bool" where
  "ranked_to n S \<longleftrightarrow> (\<forall>i<n. \<forall>k. i < k \<longrightarrow> k < length S \<longrightarrow> snd (S ! k) \<le> snd (S ! i))"

lemma select_step_spec:
  assumes "i < length S" and "ranked_to i S"
  shows "mset (select_step S i) = mset S" and "ranked_to (Suc i) (select_step S i)"
    and "j < i \<Longrightarrow> select_step S i ! j = S ! j"
    and "i = 0 \<Longrightarrow> winner snd S (select_step S i ! 0)"
proof -
  define mx where "mx = max_from S i [i + 1..<length S]"
  have mx: "i \<le> mx" "mx < length S" "\<forall>k\<in>{i..<length S}. snd (S ! k) \<le> snd (S ! mx)" "\<forall>k\<in>{i..<mx}. snd (S ! k) < snd (S ! mx)"
    using max_from_spec [of i i "i + 1" S] assms(1) by (auto simp: mx_def)
  have step: "select_step S i = S[i := S ! mx, mx := S ! i]" by (simp add: select_step_def mx_def Let_def)
  show "mset (select_step S i) = mset S" using mx(2) assms(1) by (simp add: step mset_swap)
  show "j < i \<Longrightarrow> select_step S i ! j = S ! j" using mx(1) by (simp add: step)
  have at: "select_step S i ! k = (if k = mx then S ! i else if k = i then S ! mx else S ! k)" if "k < length S" for k
    using that mx(2) assms(1) by (auto simp: step nth_list_update)
  show "ranked_to (Suc i) (select_step S i)"
    unfolding ranked_to_def
  proof (intro allI impI)
    fix a k assume a: "a < Suc i" "a < k" "k < length (select_step S i)"
    then have k: "k < length S" by (simp add: step)
    show "snd (select_step S i ! k) \<le> snd (select_step S i ! a)"
    proof (cases "a = i")
      case True then show ?thesis using at mx a k assms(1) by auto
    next
      case False
      then have "a < i" using a(1) by simp
      then show ?thesis using assms a k mx(1,2) by (auto simp: at ranked_to_def)
    qed
  qed
  assume "i = 0"
  have "S = take mx S @ S ! mx # drop (Suc mx) S" using mx(2) by (simp add: id_take_nth_drop)
  moreover have "\<forall>x\<in>set (take mx S). snd x < snd (S ! mx)"
    unfolding all_set_conv_all_nth using mx(2,4) \<open>i = 0\<close> by simp
  moreover have "\<forall>y\<in>set (drop (Suc mx) S). snd y \<le> snd (S ! mx)"
    unfolding all_set_conv_all_nth using mx(3) \<open>i = 0\<close> by simp
  ultimately have "winner snd S (S ! mx)" by (rule winnerI)
  moreover have "select_step S i ! 0 = S ! mx" using at [of 0] assms(1) \<open>i = 0\<close> by auto
  ultimately show "winner snd S (select_step S i ! 0)" by simp
qed

lemma select_all_spec:
  assumes "n \<le> length S"
  shows "mset (foldl select_step S [0..<n]) = mset S \<and> ranked_to n (foldl select_step S [0..<n])
    \<and> (0 < n \<longrightarrow> winner snd S (foldl select_step S [0..<n] ! 0))"
  using assms
proof (induction n)
  case (Suc n)
  let ?R = "foldl select_step S [0..<n]"
  have IH: "mset ?R = mset S" "ranked_to n ?R" "0 < n \<Longrightarrow> winner snd S (?R ! 0)" using Suc by auto
  have len: "n < length ?R" using Suc.prems mset_eq_length [OF IH(1)] by simp
  from select_step_spec [OF len IH(2)] IH show ?case by (cases n) (auto simp: ranked_to_def)
qed (simp add: ranked_to_def)

lemma GetN_ranking:
  assumes inv: "hrw_inv m" and ne: "hm_nodes m \<noteq> []" and win: "winner (\<lambda>n. scoreNode m n key) (hm_nodes m) n" and r: "0 < r"
  shows "length (GetN key r m) = min (nat r) (hrw_Len m) \<and> distinct (GetN key r m)
        \<and> set (GetN key r m) \<subseteq> set (hm_nodes m) \<and> hd (GetN key r m) = n
        \<and> sorted_wrt (\<lambda>a b. scoreNode m b key \<le> scoreNode m a key) (GetN key r m)
        \<and> (\<forall>x\<in>set (hm_nodes m) - set (GetN key r m). scoreNode m x key \<le> scoreNode m (last (GetN key r m)) key)"
proof -
  let ?sc = "\<lambda>n. scoreNode m n key"
  define S where "S = map (\<lambda>nd. (nd, ?sc nd)) (hm_nodes m)"
  define k where "k = min (nat r) (length S)"
  define R where "R = foldl select_step S [0..<k]"
  have k: "0 < k" "k \<le> length S" using r ne by (auto simp: k_def S_def)
  have perm: "mset R = mset S" and rank: "ranked_to k R" and first: "winner snd S (R ! 0)"
    using select_all_spec [OF k(2)] k(1) by (simp_all add: R_def)
  have lenR: "length R = length S" using mset_eq_length [OF perm] .
  have setR: "set R = set S" using mset_eq_setD [OF perm] .
  have pair: "snd p = ?sc (fst p)" if "p \<in> set R" for p using that setR by (auto simp: S_def)
  have get: "GetN key r m = map fst (take k R)"
    using ne r by (simp add: GetN_def Let_def k_def S_def R_def)
  have "distinct (map fst S)" using inv by (auto simp: S_def comp_def hrw_inv_def distinct_map)
  then have distR: "distinct (map fst R)"
    using perm by (metis mset_map mset_eq_imp_distinct_iff)
  then have "distinct (GetN key r m)" unfolding get by (simp add: take_map [symmetric])
  moreover have len: "length (GetN key r m) = min (nat r) (hrw_Len m)"
    using lenR by (simp add: get k_def S_def hrw_Len_def)
  moreover have "set (GetN key r m) \<subseteq> set (hm_nodes m)"
    using setR by (auto simp: get S_def dest: in_set_takeD)
  moreover have "hd (GetN key r m) = n"
  proof -
    obtain xs ys where "S = xs @ R ! 0 # ys" "\<forall>x\<in>set xs. snd x < snd (R ! 0)" "\<forall>y\<in>set ys. snd y \<le> snd (R ! 0)"
      using first by (auto simp: winner_def)
    then have "winner ?sc (hm_nodes m) (fst (R ! 0))"
      unfolding S_def by (auto simp: map_eq_append_conv map_eq_Cons_conv intro!: winnerI)
    then have "fst (R ! 0) = n" using winner_unique [OF win] by simp
    moreover have "take k R \<noteq> []" using k lenR by auto
    ultimately show ?thesis using k(1) by (simp add: get hd_map hd_conv_nth)
  qed
  moreover have "sorted_wrt (\<lambda>a b. ?sc b \<le> ?sc a) (GetN key r m)"
    using rank k(2) lenR pair by (auto simp: get sorted_wrt_iff_nth_less ranked_to_def)
  moreover have "?sc x \<le> ?sc (last (GetN key r m))" if x: "x \<in> set (hm_nodes m) - set (GetN key r m)" for x
  proof -
    have "(x, ?sc x) \<in> set R" using x setR by (simp add: S_def)
    then obtain i where i: "i < length R" "R ! i = (x, ?sc x)" by (auto simp: in_set_conv_nth)
    have "k \<le> i"
    proof (rule ccontr)
      assume "\<not> k \<le> i"
      then have "R ! i \<in> set (take k R)" using i(1) by (auto simp: in_set_conv_nth)
      with i x show False by (force simp: get)
    qed
    have "take k R \<noteq> []" using k lenR by auto
    then have "last (GetN key r m) = fst (R ! (k - 1))"
      using k lenR by (simp add: get last_map last_conv_nth)
    moreover have "snd (R ! i) \<le> snd (R ! (k - 1))"
      using rank \<open>k \<le> i\<close> i(1) k(1) by (auto simp: ranked_to_def)
    moreover have "R ! (k - 1) \<in> set R" using k lenR by simp
    ultimately show ?thesis using i pair by simp
  qed
  ultimately show ?thesis by blast
qed

text \<open>
  C13. Rendezvous hashing keeps its promises for any hash function.  \<open>Get\<close> on a non-empty map returns
  a node of the highest score; after \<open>Add\<close> a key stays where it was or moves to one of the added
  nodes; after \<open>Remove\<close> a key that was not on the removed node stays where it was; and \<open>GetN\<close>
  returns \<open>min n Len\<close> distinct nodes by falling score, the first of them the node of \<open>Get\<close>, none
  of the others scoring more than the last.
\<close>

theorem hrw_minimal_disruption:
  assumes "hrw_inv m" and "hrw_Get key m = Some n"
  shows "n \<in> set (hm_nodes m) \<and> (\<forall>x\<in>set (hm_nodes m). scoreNode m x key \<le> scoreNode m n key)
    \<and> (hrw_Get key (hrw_Add new m) = Some n \<or> (\<exists>x\<in>set new. hrw_Get key (hrw_Add new m) = Some x))
    \<and> (hm_id m gone \<noteq> hm_id m n \<longrightarrow> hrw_Get key (hrw_Remove gone m) = Some n)
    \<and> (0 < r \<longrightarrow> length (GetN key r m) = min (nat r) (hrw_Len m) \<and> distinct (GetN key r m)
        \<and> set (GetN key r m) \<subseteq> set (hm_nodes m) \<and> hd (GetN key r m) = n
        \<and> sorted_wrt (\<lambda>a b. scoreNode m b key \<le> scoreNode m a key) (GetN key r m)
        \<and> (\<forall>x\<in>set (hm_nodes m) - set (GetN key r m). scoreNode m x key \<le> scoreNode m (last (GetN key r m)) key))"
proof -
  let ?score = "\<lambda>n. scoreNode m n key"
  have ne: "hm_nodes m \<noteq> []" using assms(2) by (auto simp: hrw_Get_def)
  have win: "winner ?score (hm_nodes m) n" using hrw_Get_winner [OF ne, of key] assms(2) by auto
  then have top: "n \<in> set (hm_nodes m)" "\<forall>x\<in>set (hm_nodes m). ?score x \<le> ?score n"
    by (auto simp: winner_def less_imp_le)
  have "hrw_Get key (hrw_Remove gone m) = Some n" if "hm_id m gone \<noteq> hm_id m n"
  proof (rule hrw_Get_eq)
    show "winner (\<lambda>n. scoreNode (hrw_Remove gone m) n key) (hm_nodes (hrw_Remove gone m)) n"
      using winner_filter [OF win, of "\<lambda>x. hm_id m x \<noteq> hm_id m gone"] that
      by (simp add: hrw_Remove_def scoreNode_def eq_commute)
  qed
  moreover have "hrw_Get key (hrw_Add new m) = Some n \<or> (\<exists>x\<in>set new. hrw_Get key (hrw_Add new m) = Some x)"
  proof -
    obtain ext where ext: "hm_nodes (hrw_Add new m) = hm_nodes m @ ext" "set ext \<subseteq> set new"
      using appendDedupLocked_facts [of new m] by (auto simp: hrw_Add_def)
    have same: "scoreNode (hrw_Add new m) x key = scoreNode m x key" for x
      using appendDedupLocked_facts [of new m] by (simp add: hrw_Add_def scoreNode_def)
    have "hm_nodes (hrw_Add new m) \<noteq> []" using ext ne by simp
    from hrw_Get_winner [OF this, of key] obtain x where x: "hrw_Get key (hrw_Add new m) = Some x"
      "winner ?score (hm_nodes m @ ext) x" by (auto simp: ext same)
    from winner_append [OF x(2)] show ?thesis using winner_unique [OF win] ext(2) x(1) by auto
  qed
  moreover have "length (GetN key r m) = min (nat r) (hrw_Len m) \<and> distinct (GetN key r m)
        \<and> set (GetN key r m) \<subseteq> set (hm_nodes m) \<and> hd (GetN key r m) = n
        \<and> sorted_wrt (\<lambda>a b. ?score b \<le> ?score a) (GetN key r m)
        \<and> (\<forall>x\<in>set (hm_nodes m) - set (GetN key r m). ?score x \<le> ?score (last (GetN key r m)))" if "0 < r"
    using GetN_ranking [OF assms(1) ne win that] by simp
  ultimately show ?thesis using top by blast
qed


theorem hrw_minimal_disruption_witness:
  "hrw_Get ''user'' (hrw_Remove ''b'' (hrw_New id [WithNodes [''a'', ''b'', ''c'']]))
     = hrw_Get ''user'' (hrw_New id [WithNodes [''a'', ''b'', ''c'']])"
proof -
  let ?m = "hrw_New id [WithNodes [''a'', ''b'', ''c'']]"
  have "hrw_inv ?m" "hrw_Get ''user'' ?m = Some ''c''" by code_simp+
  moreover have "hm_id ?m ''b'' \<noteq> hm_id ?m ''c''" by code_simp
  ultimately show ?thesis using hrw_minimal_disruption [of ?m "''user''" "''c''" "[]" "''b''"] by metis
qed

end
