(* ===== verification/Set_Spec.thy ===== *)
theory Set_Spec
  imports Prelude
begin

section \<open>The interface of a set\<close>

text \<open>
  What the set-like packages (\<open>set\<close>, \<open>bitset\<close>) promise: operations on a concrete representation
  that act as the operations on the mathematical set it stands for.  The client lemma is the
  de-duplication loop the packages are used for: inserting the elements of a stream one by one and
  asking before each whether it was seen.
\<close>

locale set_adt =
  fixes fresh :: 's and put :: "'a \<Rightarrow> 's \<Rightarrow> 's" and take_out :: "'a \<Rightarrow> 's \<Rightarrow> 's" and isin :: "'s \<Rightarrow> 'a \<Rightarrow> bool"
    and els :: "'s \<Rightarrow> 'a set" and ok :: "'s \<Rightarrow> bool"
  assumes ok_fresh: "ok fresh" and els_fresh: "els fresh = {}"
    and ok_put: "ok s \<Longrightarrow> ok (put x s)" and els_put: "ok s \<Longrightarrow> els (put x s) = insert x (els s)"
    and ok_take_out: "ok s \<Longrightarrow> ok (take_out x s)" and els_take_out: "ok s \<Longrightarrow> els (take_out x s) = els s - {x}"
    and isin_els: "ok s \<Longrightarrow> isin s x \<longleftrightarrow> x \<in> els s"
begin

fun dedup :: "'a list \<Rightarrow> 's \<Rightarrow> 'a list" where
  "dedup [] s = []"
| "dedup (x # xs) s = (if isin s x then dedup xs s else x # dedup xs (put x s))"

lemma dedup_spec:
  "ok s \<Longrightarrow> distinct (dedup xs s) \<and> set (dedup xs s) = set xs - els s"
proof (induction xs arbitrary: s)
  case (Cons x xs)
  then show ?case using Cons.IH [of s] Cons.IH [of "put x s"] by (auto simp: isin_els els_put ok_put)
qed simp

lemma fold_put: "ok s \<Longrightarrow> ok (fold put xs s) \<and> els (fold put xs s) = els s \<union> set xs"
  by (induction xs arbitrary: s) (auto simp: ok_put els_put)

lemma fold_take_out: "ok s \<Longrightarrow> ok (fold take_out xs s) \<and> els (fold take_out xs s) = els s - set xs"
  by (induction xs arbitrary: s) (auto simp: ok_take_out els_take_out)

end

text \<open>Sets with the binary operations.\<close>

locale set_adt2 = set_adt fresh put take_out isin els ok
  for fresh :: 's and put :: "'a \<Rightarrow> 's \<Rightarrow> 's" and take_out isin els ok +
  fixes union :: "'s \<Rightarrow> 's \<Rightarrow> 's" and inter :: "'s \<Rightarrow> 's \<Rightarrow> 's"
  assumes ok_union: "ok a \<Longrightarrow> ok b \<Longrightarrow> ok (union a b)" and els_union: "ok a \<Longrightarrow> ok b \<Longrightarrow> els (union a b) = els a \<union> els b"
    and ok_inter: "ok a \<Longrightarrow> ok b \<Longrightarrow> ok (inter a b)" and els_inter: "ok a \<Longrightarrow> ok b \<Longrightarrow> els (inter a b) = els a \<inter> els b"
begin

lemma inter_union_distrib: "ok a \<Longrightarrow> ok b \<Longrightarrow> ok c \<Longrightarrow> els (inter a (union b c)) = els (union (inter a b) (inter a c))"
  by (auto simp: els_inter els_union ok_inter ok_union)

end

end
