(* ===== verification/Gset.thy ===== *)
theory Gset
  imports Set_Spec
begin

section \<open>Generic sets (set/set.go)\<close>

text \<open>
  A set is a Go map with empty values.  It is modelled by the list of its keys in the order in which
  the runtime happens to iterate them; a new key goes anywhere, here to the end, and the theorems
  hold for every order because they quantify over all such lists.  A \<open>nil\<close> set is \<open>None\<close>.
\<close>

record 'a gset =
  gs_m :: "'a list"

definition gs_ok :: "'a gset \<Rightarrow> bool" where
  "gs_ok s \<longleftrightarrow> distinct (gs_m s)"

definition gs_els :: "'a gset \<Rightarrow> 'a set" where
  "gs_els s = set (gs_m s)"

text \<open>The map assignment \<open>s.m[v] = struct{}{}\<close>, the map deletion and the map read.\<close>

definition gs_put :: "'a \<Rightarrow> 'a gset \<Rightarrow> 'a gset" where
  "gs_put v s = (if v \<in> set (gs_m s) then s else s\<lparr>gs_m := gs_m s @ [v]\<rparr>)"

definition gs_del :: "'a \<Rightarrow> 'a gset \<Rightarrow> 'a gset" where
  "gs_del v s = s\<lparr>gs_m := filter (\<lambda>x. x \<noteq> v) (gs_m s)\<rparr>"

definition gs_Contains :: "'a gset \<Rightarrow> 'a \<Rightarrow> bool" where
  "gs_Contains s v \<longleftrightarrow> v \<in> set (gs_m s)"

subsection \<open>Construction and elements\<close>

definition gs_WithCapacity :: "int \<Rightarrow> 'a gset" where
  "gs_WithCapacity capacity = \<lparr>gs_m = []\<rparr>"

definition gs_Add :: "'a list \<Rightarrow> 'a gset \<Rightarrow> 'a gset" where
  "gs_Add vals s = fold gs_put vals s"

definition gs_New :: "'a list \<Rightarrow> 'a gset" where
  "gs_New vals = gs_Add vals \<lparr>gs_m = []\<rparr>"

definition gs_From :: "'a list \<Rightarrow> 'a gset" where
  "gs_From vals = gs_New vals"

definition gs_Remove :: "'a list \<Rightarrow> 'a gset \<Rightarrow> 'a gset" where
  "gs_Remove vals s = fold gs_del vals s"

fun gs_ContainsAll :: "'a list \<Rightarrow> 'a gset \<Rightarrow> bool" where
  "gs_ContainsAll [] s = True"
| "gs_ContainsAll (v # vals) s = (if \<not> gs_Contains s v then False else gs_ContainsAll vals s)"

fun gs_ContainsAny :: "'a list \<Rightarrow> 'a gset \<Rightarrow> bool" where
  "gs_ContainsAny [] s = False"
| "gs_ContainsAny (v # vals) s = (if gs_Contains s v then True else gs_ContainsAny vals s)"

definition gs_Len :: "'a gset \<Rightarrow> nat" where
  "gs_Len s = length (gs_m s)"

definition gs_IsEmpty :: "'a gset \<Rightarrow> bool" where
  "gs_IsEmpty s \<longleftrightarrow> length (gs_m s) = 0"

definition gs_Clear :: "'a gset \<Rightarrow> 'a gset" where
  "gs_Clear s = s\<lparr>gs_m := []\<rparr>"

definition gs_Pop :: "'a gset \<Rightarrow> 'a option \<times> 'a gset" where
  "gs_Pop s = (case gs_m s of [] \<Rightarrow> (None, s) | v # _ \<Rightarrow> (Some v, gs_del v s))"

text \<open>\<open>Each\<close> threads the state \<open>fn\<close> works on.\<close>

definition gs_Each :: "('a \<Rightarrow> 'st \<Rightarrow> 'st) \<Rightarrow> 'a gset \<Rightarrow> 'st \<Rightarrow> 'st" where
  "gs_Each fn s = fold fn (gs_m s)"

definition gs_Filter :: "('a \<Rightarrow> bool) \<Rightarrow> 'a gset \<Rightarrow> 'a gset" where
  "gs_Filter fn s = fold (\<lambda>v out. if fn v then gs_put v out else out) (gs_m s) (gs_New [])"

definition gs_ToSlice :: "'a gset \<Rightarrow> 'a list" where
  "gs_ToSlice s = fold (\<lambda>v out. out @ [v]) (gs_m s) []"

definition gs_Clone :: "'a gset \<Rightarrow> 'a gset" where
  "gs_Clone s = fold gs_put (gs_m s) (gs_New [])"

subsection \<open>Set algebra\<close>

definition gs_Union :: "'a gset option list \<Rightarrow> 'a gset" where
  "gs_Union sets = fold (\<lambda>s out. case s of None \<Rightarrow> out | Some s \<Rightarrow> fold gs_put (gs_m s) out) sets (gs_WithCapacity 0)"

definition gs_Intersect :: "'a gset option \<Rightarrow> 'a gset option \<Rightarrow> 'a gset" where
  "gs_Intersect a b =
    (case (a, b) of
       (Some a, Some b) \<Rightarrow>
         (let (small, big) = (if length (gs_m b) < length (gs_m a) then (b, a) else (a, b)) in
          fold (\<lambda>v out. if gs_Contains big v then gs_put v out else out) (gs_m small) (gs_WithCapacity 0))
     | _ \<Rightarrow> gs_WithCapacity 0)"

definition gs_Difference :: "'a gset option \<Rightarrow> 'a gset option \<Rightarrow> 'a gset" where
  "gs_Difference a b =
    (case a of
       None \<Rightarrow> gs_WithCapacity 0
     | Some a \<Rightarrow>
         fold (\<lambda>v out. case b of None \<Rightarrow> gs_put v out | Some b \<Rightarrow> if \<not> gs_Contains b v then gs_put v out else out)
           (gs_m a) (gs_WithCapacity 0))"

definition gs_SymmetricDifference :: "'a gset option \<Rightarrow> 'a gset option \<Rightarrow> 'a gset" where
  "gs_SymmetricDifference a b =
    (let absent = (\<lambda>s v. case s of None \<Rightarrow> True | Some s \<Rightarrow> \<not> gs_Contains s v);
         out1 = (case a of None \<Rightarrow> gs_WithCapacity 0
                 | Some a \<Rightarrow> fold (\<lambda>v out. if absent b v then gs_put v out else out) (gs_m a) (gs_WithCapacity 0)) in
     case b of None \<Rightarrow> out1
     | Some b \<Rightarrow> fold (\<lambda>v out. if absent a v then gs_put v out else out) (gs_m b) out1)"

subsection \<open>In-place mutation\<close>

definition gs_AddAll :: "'a gset option \<Rightarrow> 'a gset \<Rightarrow> 'a gset" where
  "gs_AddAll other s = (case other of None \<Rightarrow> s | Some p \<Rightarrow> fold gs_put (gs_m p) s)"

definition gs_RetainAll :: "'a gset option \<Rightarrow> 'a gset \<Rightarrow> nat \<times> 'a gset" where
  "gs_RetainAll other s =
    fold (\<lambda>v (removed, s). if (case other of None \<Rightarrow> True | Some p \<Rightarrow> \<not> gs_Contains p v)
                           then (removed + 1, gs_del v s) else (removed, s)) (gs_m s) (0, s)"

definition gs_RemoveAll :: "'a gset option \<Rightarrow> 'a gset \<Rightarrow> nat \<times> 'a gset" where
  "gs_RemoveAll other s =
    (case other of None \<Rightarrow> (0, s)
     | Some p \<Rightarrow> fold (\<lambda>v (removed, s). if gs_Contains s v then (removed + 1, gs_del v s) else (removed, s)) (gs_m p) (0, s))"

subsection \<open>Predicates\<close>

definition gs_IsSubset :: "'a gset option \<Rightarrow> 'a gset option \<Rightarrow> bool" where
  "gs_IsSubset sub super =
    (case sub of None \<Rightarrow> True
     | Some a \<Rightarrow> (case super of None \<Rightarrow> gs_IsEmpty a | Some b \<Rightarrow> gs_ContainsAll (gs_m a) b))"

definition gs_IsSuperset :: "'a gset option \<Rightarrow> 'a gset option \<Rightarrow> bool" where
  "gs_IsSuperset super sub = gs_IsSubset sub super"

definition gs_IsDisjoint :: "'a gset option \<Rightarrow> 'a gset option \<Rightarrow> bool" where
  "gs_IsDisjoint a b =
    (case (a, b) of
       (Some a, Some b) \<Rightarrow>
         (let (small, big) = (if length (gs_m b) < length (gs_m a) then (b, a) else (a, b)) in
          \<not> gs_ContainsAny (gs_m small) big)
     | _ \<Rightarrow> True)"

definition gs_Equal :: "'a gset option \<Rightarrow> 'a gset option \<Rightarrow> bool" where
  "gs_Equal a b =
    (case (a, b) of
       (None, None) \<Rightarrow> True
     | (Some a, Some b) \<Rightarrow> if length (gs_m a) \<noteq> length (gs_m b) then False else gs_ContainsAll (gs_m a) b
     | _ \<Rightarrow> False)"

subsection \<open>Correctness\<close>

lemma set_gs_m: "set (gs_m s) = gs_els s"
  by (simp add: gs_els_def)

lemma gs_put_facts: "gs_ok s \<Longrightarrow> gs_ok (gs_put v s)" "gs_els (gs_put v s) = insert v (gs_els s)"
  by (auto simp: gs_ok_def gs_els_def gs_put_def)

lemma gs_del_facts: "gs_ok s \<Longrightarrow> gs_ok (gs_del v s)" "gs_els (gs_del v s) = gs_els s - {v}"
  by (auto simp: gs_ok_def gs_els_def gs_del_def)

lemma gs_del_card: "v \<in> gs_els s \<Longrightarrow> card (gs_els s) = Suc (card (gs_els (gs_del v s)))"
  unfolding gs_del_facts using card_Suc_Diff1 [of "gs_els s" v] by (simp add: gs_els_def)

lemma gs_empty [simp]: "gs_ok (gs_WithCapacity n)" "gs_els (gs_WithCapacity n) = {}"
  by (simp_all add: gs_ok_def gs_els_def gs_WithCapacity_def)

lemma gs_Contains_els: "gs_Contains s v \<longleftrightarrow> v \<in> gs_els s"
  by (simp add: gs_Contains_def gs_els_def)

interpretation gs: set_adt "gs_WithCapacity 0" gs_put gs_del gs_Contains gs_els gs_ok
  by unfold_locales (simp_all add: gs_put_facts gs_del_facts gs_Contains_els)

lemma fold_put_if:
  "gs_ok out \<Longrightarrow> gs_ok (fold (\<lambda>v out. if P v then gs_put v out else out) vs out)
     \<and> gs_els (fold (\<lambda>v out. if P v then gs_put v out else out) vs out) = gs_els out \<union> {v \<in> set vs. P v}"
  by (induction vs arbitrary: out) (auto simp: gs_put_facts)

lemma gs_ContainsAll_iff: "gs_ContainsAll vs s \<longleftrightarrow> set vs \<subseteq> gs_els s"
  by (induction vs) (auto simp: gs_Contains_els)

lemma gs_ContainsAny_iff: "gs_ContainsAny vs s \<longleftrightarrow> set vs \<inter> gs_els s \<noteq> {}"
  by (induction vs) (auto simp: gs_Contains_els)

lemma gs_Len_card: "gs_ok s \<Longrightarrow> gs_Len s = card (gs_els s)"
  by (simp add: gs_Len_def gs_ok_def gs_els_def distinct_card)

definition nil_els :: "'a gset option \<Rightarrow> 'a set" where
  "nil_els s = (case s of None \<Rightarrow> {} | Some s \<Rightarrow> gs_els s)"

definition nil_ok :: "'a gset option \<Rightarrow> bool" where
  "nil_ok s \<longleftrightarrow> (case s of None \<Rightarrow> True | Some s \<Rightarrow> gs_ok s)"

lemma gs_Union_spec: "gs_ok (gs_Union sets) \<and> gs_els (gs_Union sets) = (\<Union>s\<in>set sets. nil_els s)"
proof -
  have "gs_ok (fold (\<lambda>s out. case s of None \<Rightarrow> out | Some s \<Rightarrow> fold gs_put (gs_m s) out) sets out)
      \<and> gs_els (fold (\<lambda>s out. case s of None \<Rightarrow> out | Some s \<Rightarrow> fold gs_put (gs_m s) out) sets out)
        = gs_els out \<union> (\<Union>s\<in>set sets. nil_els s)" if "gs_ok out" for out
    using that
  proof (induction sets arbitrary: out)
    case (Cons s sets)
    define out1 where "out1 = (case s of None \<Rightarrow> out | Some s \<Rightarrow> fold gs_put (gs_m s) out)"
    have "gs_ok out1 \<and> gs_els out1 = gs_els out \<union> nil_els s"
      using gs.fold_put [OF Cons.prems] by (cases s) (auto simp: out1_def nil_els_def set_gs_m Cons.prems)
    then show ?case using Cons.IH [of out1] by (simp add: Un_assoc flip: out1_def)
  qed simp
  from this [of "gs_WithCapacity 0"] show ?thesis by (simp add: gs_Union_def)
qed

lemma gs_Intersect_spec: "gs_ok (gs_Intersect a b) \<and> gs_els (gs_Intersect a b) = nil_els a \<inter> nil_els b"
proof (cases a; cases b)
  fix x y assume "a = Some x" "b = Some y"
  then show ?thesis
    using fold_put_if [of "gs_WithCapacity 0" "gs_Contains x" "gs_m y"] fold_put_if [of "gs_WithCapacity 0" "gs_Contains y" "gs_m x"]
    by (auto simp: gs_Intersect_def nil_els_def gs_Contains_els set_gs_m)
qed (simp_all add: gs_Intersect_def nil_els_def)

lemma gs_Difference_spec: "gs_ok (gs_Difference a b) \<and> gs_els (gs_Difference a b) = nil_els a - nil_els b"
proof (cases a)
  case (Some x)
  have "gs_Difference a b = fold (\<lambda>v out. if v \<notin> nil_els b then gs_put v out else out) (gs_m x) (gs_WithCapacity 0)"
    by (cases b) (simp_all add: Some gs_Difference_def nil_els_def gs_Contains_els)
  then show ?thesis
    using fold_put_if [of "gs_WithCapacity 0" "\<lambda>v. v \<notin> nil_els b" "gs_m x"]
    by (auto simp: Some nil_els_def set_gs_m)
qed (simp add: gs_Difference_def nil_els_def)

lemma gs_SymmetricDifference_spec:
  "gs_ok (gs_SymmetricDifference a b)
   \<and> gs_els (gs_SymmetricDifference a b) = (nil_els a - nil_els b) \<union> (nil_els b - nil_els a)"
proof -
  have absent: "(case s of None \<Rightarrow> True | Some s \<Rightarrow> \<not> gs_Contains s v) \<longleftrightarrow> v \<notin> nil_els s" for s :: "'a gset option" and v
    by (cases s) (simp_all add: nil_els_def gs_Contains_els)
  define out1 where "out1 = (case a of None \<Rightarrow> gs_WithCapacity 0
      | Some a \<Rightarrow> fold (\<lambda>v out. if v \<notin> nil_els b then gs_put v out else out) (gs_m a) (gs_WithCapacity 0))"
  have 1: "gs_ok out1 \<and> gs_els out1 = nil_els a - nil_els b"
    using fold_put_if [of "gs_WithCapacity 0" "\<lambda>v. v \<notin> nil_els b"]
    by (cases a) (auto simp: out1_def nil_els_def set_gs_m)
  have "gs_SymmetricDifference a b = (case b of None \<Rightarrow> out1
      | Some b \<Rightarrow> fold (\<lambda>v out. if v \<notin> nil_els a then gs_put v out else out) (gs_m b) out1)"
    unfolding gs_SymmetricDifference_def Let_def absent out1_def ..
  with 1 fold_put_if [of out1 "\<lambda>v. v \<notin> nil_els a"] show ?thesis
    by (cases b) (auto simp: nil_els_def set_gs_m)
qed

interpretation gs2: set_adt2 "gs_WithCapacity 0" gs_put gs_del gs_Contains gs_els gs_ok
  "\<lambda>a b. gs_Union [Some a, Some b]" "\<lambda>a b. gs_Intersect (Some a) (Some b)"
  by unfold_locales (simp_all add: gs_Union_spec gs_Intersect_spec nil_els_def)

lemma gs_RetainAll_spec:
  assumes "gs_ok s" and "gs_RetainAll other s = (removed, s')"
  shows "gs_ok s' \<and> gs_els s' = gs_els s \<inter> nil_els other \<and> removed + card (gs_els s') = card (gs_els s)"
proof -
  let ?drop = "\<lambda>v. case other of None \<Rightarrow> True | Some p \<Rightarrow> \<not> gs_Contains p v"
  let ?f = "\<lambda>v (removed, s). if ?drop v then (removed + 1, gs_del v s) else (removed, s)"
  have drop: "?drop v \<longleftrightarrow> v \<notin> nil_els other" for v by (cases other) (simp_all add: nil_els_def gs_Contains_els)
  have "gs_ok s2 \<and> gs_els s2 = gs_els s1 - {v \<in> set vs. v \<notin> nil_els other} \<and> n2 + card (gs_els s2) = n1 + card (gs_els s1)"
    if "fold ?f vs (n1, s1) = (n2, s2)" "gs_ok s1" "distinct vs" "set vs \<subseteq> gs_els s1" for vs n1 n2 s1 s2
    using that
  proof (induction vs arbitrary: n1 s1)
    case (Cons v vs)
    show ?case
    proof (cases "v \<in> nil_els other")
      case True
      then show ?thesis using Cons.IH [of n1 s1] Cons.prems by (auto simp: drop)
    next
      case False
      have "card (gs_els s1) = Suc (card (gs_els (gs_del v s1)))"
        using Cons.prems(4) by (intro gs_del_card) simp
      moreover have "set vs \<subseteq> gs_els (gs_del v s1)" using Cons.prems(3,4) by (auto simp: gs_del_facts)
      ultimately show ?thesis
        using Cons.IH [of "n1 + 1" "gs_del v s1"] Cons.prems False by (auto simp: drop gs_del_facts)
    qed
  qed simp
  from this [OF assms(2) [unfolded gs_RetainAll_def] assms(1)] assms(1) show ?thesis
    by (auto simp: gs_ok_def gs_els_def)
qed

lemma gs_RemoveAll_spec:
  assumes "gs_ok s" and "gs_RemoveAll other s = (removed, s')"
  shows "gs_ok s' \<and> gs_els s' = gs_els s - nil_els other \<and> removed + card (gs_els s') = card (gs_els s)"
proof (cases other)
  case (Some p)
  let ?f = "\<lambda>v (removed, s). if gs_Contains s v then (removed + 1, gs_del v s) else (removed, s)"
  have "gs_ok s2 \<and> gs_els s2 = gs_els s1 - set vs \<and> n2 + card (gs_els s2) = n1 + card (gs_els s1)"
    if "fold ?f vs (n1, s1) = (n2, s2)" "gs_ok s1" for vs n1 n2 s1 s2
    using that
  proof (induction vs arbitrary: n1 s1)
    case (Cons v vs)
    show ?case
    proof (cases "v \<in> gs_els s1")
      case True
      then have "card (gs_els s1) = Suc (card (gs_els (gs_del v s1)))"
        by (rule gs_del_card)
      moreover have "fold ?f vs (n1 + 1, gs_del v s1) = (n2, s2)" using Cons.prems(1) True by (simp add: gs_Contains_els)
      then have "gs_ok s2 \<and> gs_els s2 = gs_els (gs_del v s1) - set vs \<and> n2 + card (gs_els s2) = n1 + 1 + card (gs_els (gs_del v s1))"
        using Cons.prems(2) by (intro Cons.IH) (simp_all add: gs_del_facts)
      moreover from this have "gs_els s2 = gs_els s1 - set (v # vs)" by (auto simp: gs_del_facts)
      ultimately show ?thesis by linarith
    next
      case False
      then have "fold ?f vs (n1, s1) = (n2, s2)" using Cons.prems(1) by (simp add: gs_Contains_els)
      from Cons.IH [OF this Cons.prems(2)] show ?thesis unfolding list.set Diff_insert0 [OF False] .
    qed
  qed simp
  from this [of "gs_m p" 0 s removed s'] assms show ?thesis by (auto simp: gs_RemoveAll_def Some nil_els_def set_gs_m)
qed (use assms in \<open>simp add: gs_RemoveAll_def nil_els_def\<close>)

lemma gs_IsDisjoint_spec: "gs_IsDisjoint a b \<longleftrightarrow> nil_els a \<inter> nil_els b = {}"
  by (auto simp: gs_IsDisjoint_def nil_els_def gs_ContainsAny_iff set_gs_m split: option.splits)

lemma gs_Equal_spec:
  assumes "nil_ok a" and "nil_ok b"
  shows "gs_Equal a b \<longleftrightarrow> (a = None \<longleftrightarrow> b = None) \<and> nil_els a = nil_els b"
proof (cases a; cases b)
  fix x y assume xy: "a = Some x" "b = Some y"
  then have card: "length (gs_m x) = card (gs_els x)" "length (gs_m y) = card (gs_els y)"
    using assms by (simp_all add: nil_ok_def gs_ok_def gs_els_def distinct_card)
  have "card (gs_els x) = card (gs_els y) \<and> gs_els x \<subseteq> gs_els y \<longleftrightarrow> gs_els x = gs_els y"
    using card_subset_eq [of "gs_els y" "gs_els x"] by (auto simp: gs_els_def)
  then show ?thesis
    using xy by (auto simp: gs_Equal_def nil_els_def gs_ContainsAll_iff card set_gs_m)
qed (simp_all add: gs_Equal_def)

text \<open>
  The set package is the algebra of finite sets, for every iteration order of its maps and with
  \<open>nil\<close> read as the empty set.  \<open>New\<close>, \<open>Add\<close> and \<open>Remove\<close> build the sets they name, \<open>Union\<close>,
  \<open>Intersect\<close>, \<open>Difference\<close> and \<open>SymmetricDifference\<close> are the set operations, \<open>RetainAll\<close> and
  \<open>RemoveAll\<close> are the in-place intersection and difference and return the number of removed
  elements, and the predicates decide the corresponding relations.
\<close>
lemma set_algebra:
  assumes "gs_ok s" and "nil_ok a" and "nil_ok b" and "gs_RetainAll a s = (n1, s1)" and "gs_RemoveAll a s = (n2, s2)"
  shows "gs_els (gs_New vals) = set vals \<and> gs_els (gs_Add vals s) = gs_els s \<union> set vals
    \<and> gs_els (gs_Remove vals s) = gs_els s - set vals \<and> gs_Len s = card (gs_els s)
    \<and> gs_els (gs_Union sets) = (\<Union>s\<in>set sets. nil_els s)
    \<and> gs_els (gs_Intersect a b) = nil_els a \<inter> nil_els b \<and> gs_els (gs_Difference a b) = nil_els a - nil_els b
    \<and> gs_els (gs_SymmetricDifference a b) = (nil_els a - nil_els b) \<union> (nil_els b - nil_els a)
    \<and> gs_els s1 = gs_els s \<inter> nil_els a \<and> n1 = card (gs_els s - nil_els a)
    \<and> gs_els s2 = gs_els s - nil_els a \<and> n2 = card (gs_els s \<inter> nil_els a)
    \<and> (gs_IsSubset a b \<longleftrightarrow> nil_els a \<subseteq> nil_els b) \<and> (gs_IsDisjoint a b \<longleftrightarrow> nil_els a \<inter> nil_els b = {})
    \<and> (gs_Equal a b \<longleftrightarrow> (a = None \<longleftrightarrow> b = None) \<and> nil_els a = nil_els b)
    \<and> (\<forall>r\<in>{gs_New vals, gs_Add vals s, gs_Remove vals s, gs_Union sets, gs_Intersect a b, gs_Difference a b,
            gs_SymmetricDifference a b, s1, s2}. gs_ok r)"
proof -
  have fin: "finite (gs_els s)" by (simp add: gs_els_def)
  have "card (gs_els s \<inter> nil_els a) + card (gs_els s - nil_els a) = card (gs_els s)"
    using card_Int_Diff [OF fin, of "nil_els a"] by simp
  then have n: "n1 = card (gs_els s - nil_els a)" "n2 = card (gs_els s \<inter> nil_els a)"
    using gs_RetainAll_spec [OF assms(1,4)] gs_RemoveAll_spec [OF assms(1,5)] by auto
  have new: "gs_ok \<lparr>gs_m = []\<rparr>" "gs_els \<lparr>gs_m = []\<rparr> = {}" by (simp_all add: gs_ok_def gs_els_def)
  have "gs_IsSubset a b \<longleftrightarrow> nil_els a \<subseteq> nil_els b"
    by (cases a; cases b) (auto simp: gs_IsSubset_def nil_els_def gs_ContainsAll_iff gs_IsEmpty_def gs_els_def)
  with n show ?thesis
    using gs.fold_put [OF new(1), of vals] gs.fold_put [OF assms(1), of vals] gs.fold_take_out [OF assms(1), of vals]
      gs_Union_spec [of sets] gs_Intersect_spec [of a b] gs_Difference_spec [of a b] gs_SymmetricDifference_spec [of a b]
      gs_RetainAll_spec [OF assms(1,4)] gs_RemoveAll_spec [OF assms(1,5)] gs_IsDisjoint_spec [of a b]
      gs_Equal_spec [OF assms(2,3)] gs_Len_card [OF assms(1)]
    by (simp add: gs_New_def gs_Add_def gs_Remove_def new)
qed

end
