(* ===== verification/Bit_Buffer.thy ===== *)
theory Bit_Buffer
  imports Prelude
begin

section \<open>Packed bit arrays\<close>

text \<open>
  The bit arrays of \<open>bitset\<close> and \<open>bloom\<close>: bit \<open>i\<close> of a slice of \<open>uint64\<close> is bit \<open>i mod 64\<close> of word
  \<open>i div 64\<close>.  The updates are written with the masks of the source, \<open>|= 1 << k\<close>, \<open>&^= 1 << k\<close> and
  the test \<open>& (1 << k) != 0\<close>; the lemmas give their effect on single bits.
\<close>

type_synonym bit_buffer = "64 word list"

definition buf_bit :: "bit_buffer \<Rightarrow> nat \<Rightarrow> bool" where
  "buf_bit buf i \<longleftrightarrow> bit (buf ! (i div 64)) (i mod 64)"

definition buf_test :: "bit_buffer \<Rightarrow> nat \<Rightarrow> bool" where
  "buf_test buf i \<longleftrightarrow> (buf ! (i div 64)) AND push_bit (i mod 64) 1 \<noteq> 0"

definition buf_set :: "nat \<Rightarrow> bit_buffer \<Rightarrow> bit_buffer" where
  "buf_set i buf = buf[i div 64 := (buf ! (i div 64)) OR push_bit (i mod 64) 1]"

definition buf_clear :: "nat \<Rightarrow> bit_buffer \<Rightarrow> bit_buffer" where
  "buf_clear i buf = buf[i div 64 := (buf ! (i div 64)) AND NOT (push_bit (i mod 64) 1)]"

lemma bit_mask_word: "bit ((2 :: 64 word) ^ k) n \<longleftrightarrow> n = k \<and> n < 64"
  by (auto simp: bit_exp_iff)

lemma and_mask_neq_0: "k < 64 \<Longrightarrow> (w :: 64 word) AND 2 ^ k \<noteq> 0 \<longleftrightarrow> bit w k"
  by (auto simp: bit_eq_iff [of "w AND 2 ^ k" 0] bit_and_iff bit_mask_word)

lemma buf_test_bit: "buf_test buf i \<longleftrightarrow> buf_bit buf i"
  by (simp add: buf_test_def buf_bit_def and_mask_neq_0)

lemma same_bit: "i div 64 = j div 64 \<Longrightarrow> i mod 64 = j mod 64 \<Longrightarrow> i = (j :: nat)"
  by (metis div_mult_mod_eq)

lemma buf_bit_set:
  assumes "i < 64 * length buf"
  shows "buf_bit (buf_set i buf) j \<longleftrightarrow> j = i \<or> buf_bit buf j"
proof (cases "j div 64 = i div 64")
  case True
  have "i div 64 < length buf" using assms by auto
  then show ?thesis
    using True same_bit [of j i] by (auto simp: buf_bit_def buf_set_def bit_or_iff bit_mask_word)
next
  case False
  then show ?thesis by (auto simp: buf_bit_def buf_set_def)
qed

lemma buf_bit_clear:
  assumes "i < 64 * length buf"
  shows "buf_bit (buf_clear i buf) j \<longleftrightarrow> j \<noteq> i \<and> buf_bit buf j"
proof (cases "j div 64 = i div 64")
  case True
  have "i div 64 < length buf" using assms by auto
  then show ?thesis
    using True same_bit [of j i] by (auto simp: buf_bit_def buf_clear_def bit_and_iff bit_not_iff bit_mask_word)
next
  case False
  then show ?thesis by (auto simp: buf_bit_def buf_clear_def)
qed

lemma length_buf_ops [simp]: "length (buf_set i buf) = length buf" "length (buf_clear i buf) = length buf"
  by (simp_all add: buf_set_def buf_clear_def)

lemma buf_bit_zero [simp]: "i < 64 * n \<Longrightarrow> \<not> buf_bit (replicate n 0) i"
  by (simp add: buf_bit_def less_mult_imp_div_less mult.commute)

text \<open>The set of positions of the ones.\<close>

definition buf_ones :: "bit_buffer \<Rightarrow> nat set" where
  "buf_ones buf = {i. i < 64 * length buf \<and> buf_bit buf i}"

lemma buf_ones_ops:
  "i < 64 * length buf \<Longrightarrow> buf_ones (buf_set i buf) = insert i (buf_ones buf)"
  "i < 64 * length buf \<Longrightarrow> buf_ones (buf_clear i buf) = buf_ones buf - {i}"
  "buf_ones (replicate n 0) = {}"
  by (auto simp: buf_ones_def buf_bit_set buf_bit_clear)

lemma buf_bit_append:
  "i < 64 * length buf \<Longrightarrow> buf_bit (buf @ more) i = buf_bit buf i"
  by (simp add: buf_bit_def nth_append less_mult_imp_div_less mult.commute)

lemma buf_ones_extend: "buf_ones (buf @ replicate n 0) = buf_ones buf"
proof (intro set_eqI iffI)
  fix i assume i: "i \<in> buf_ones (buf @ replicate n 0)"
  have "i < 64 * length buf"
  proof (rule ccontr)
    assume "\<not> i < 64 * length buf"
    then have "length buf \<le> i div 64" and "i div 64 < length buf + n"
      using i by (auto simp: buf_ones_def)
    with i show False by (simp add: buf_ones_def buf_bit_def nth_append)
  qed
  with i show "i \<in> buf_ones buf" by (simp add: buf_ones_def buf_bit_append)
qed (auto simp: buf_ones_def buf_bit_append)

lemma buf_ones_or:
  assumes "length a \<le> length b"
  shows "buf_ones (map2 (OR) a (take (length a) b) @ drop (length a) b) = buf_ones a \<union> buf_ones b"
    (is "buf_ones ?c = _")
proof -
  have len: "length ?c = length b" using assms by simp
  have "buf_bit ?c i \<longleftrightarrow> (i < 64 * length a \<and> buf_bit a i) \<or> buf_bit b i" if "i < 64 * length b" for i
  proof (cases "i div 64 < length a")
    case True
    then show ?thesis using assms by (auto simp: buf_bit_def nth_append bit_or_iff)
  next
    case False
    then show ?thesis using assms that by (auto simp: buf_bit_def nth_append)
  qed
  with len assms show ?thesis by (auto simp: buf_ones_def)
qed

end
