(* ===== verification/Bitset.thy ===== *)
theory Bitset
  imports Bit_Buffer Set_Spec
begin

section \<open>Bit sets (bitset/bitset.go)\<close>

text \<open>
  A bit set is a packed bit array with the number \<open>n\<close> of bits it admits.  Indices are Go integers;
  a panic is \<open>None\<close>.  The bit-counting primitives of \<open>math/bits\<close> are written out on the bits of the
  word.  The set of its elements is the set of positions of ones; the invariant says that no one
  lies at or above \<open>n\<close>, which is what \<open>Test\<close> and \<open>Clear\<close> rely on.
\<close>

record bitset =
  bs_buf :: bit_buffer
  bs_n :: int

definition bitset_New :: "int \<Rightarrow> bitset" where
  "bitset_New n = (let n = (if n \<le> 0 then 64 else n) in \<lparr>bs_buf = replicate (nat ((n + 63) div 64)) 0, bs_n = n\<rparr>)"

definition bs_grow :: "int \<Rightarrow> bitset \<Rightarrow> bitset" where
  "bs_grow i b =
    (let wordsNeeded = (i + 64) div 64 in
     if wordsNeeded \<le> int (length (bs_buf b)) then (if bs_n b \<le> i then b\<lparr>bs_n := i + 1\<rparr> else b)
     else b\<lparr>bs_buf := bs_buf b @ replicate (nat wordsNeeded - length (bs_buf b)) 0, bs_n := i + 1\<rparr>)"

definition bs_Set :: "int \<Rightarrow> bitset \<Rightarrow> bitset option" where
  "bs_Set i b = (if i < 0 then None else let b' = bs_grow i b in Some (b'\<lparr>bs_buf := buf_set (nat i) (bs_buf b')\<rparr>))"

definition bs_Clear :: "int \<Rightarrow> bitset \<Rightarrow> bitset" where
  "bs_Clear i b = (if i < 0 \<or> bs_n b \<le> i then b else b\<lparr>bs_buf := buf_clear (nat i) (bs_buf b)\<rparr>)"

definition bs_Test :: "int \<Rightarrow> bitset \<Rightarrow> bool" where
  "bs_Test i b = (if i < 0 \<or> bs_n b \<le> i then False else buf_test (bs_buf b) (nat i))"

definition OnesCount64 :: "64 word \<Rightarrow> nat" where
  "OnesCount64 w = length (filter (bit w) [0..<64])"

definition TrailingZeros64 :: "64 word \<Rightarrow> nat" where
  "TrailingZeros64 w = length (takeWhile (\<lambda>i. \<not> bit w i) [0..<64])"

definition bs_Len :: "bitset \<Rightarrow> nat" where
  "bs_Len b = foldl (\<lambda>cnt w. cnt + OnesCount64 w) 0 (bs_buf b)"

definition bs_IsEmpty :: "bitset \<Rightarrow> bool" where
  "bs_IsEmpty b = list_all (\<lambda>w. w = 0) (bs_buf b)"

definition bs_ClearAll :: "bitset \<Rightarrow> bitset" where
  "bs_ClearAll b = b\<lparr>bs_buf := map (\<lambda>_. 0) (bs_buf b)\<rparr>"

text \<open>A \<open>nil\<close> argument is \<open>None\<close>.\<close>

definition bs_Union :: "bitset option \<Rightarrow> bitset \<Rightarrow> bitset" where
  "bs_Union other b =
    (case other of
       None \<Rightarrow> b
     | Some p \<Rightarrow>
         (let b' = (if length (bs_buf b) < length (bs_buf p) then bs_grow (bs_n p - 1) b else b) in
          b'\<lparr>bs_buf := map (\<lambda>i. if i < length (bs_buf p) then (bs_buf b' ! i) OR (bs_buf p ! i) else bs_buf b' ! i)
                         [0..<length (bs_buf b')]\<rparr>))"

definition bs_Intersect :: "bitset option \<Rightarrow> bitset \<Rightarrow> bitset" where
  "bs_Intersect other b =
    (case other of
       None \<Rightarrow> bs_ClearAll b
     | Some p \<Rightarrow>
         b\<lparr>bs_buf := map (\<lambda>i. if i < length (bs_buf p) then (bs_buf b ! i) AND (bs_buf p ! i) else 0)
                        [0..<length (bs_buf b)]\<rparr>)"

text \<open>The inner loop of \<open>ToSlice\<close> clears the lowest one until none is left.\<close>

lemma lowest_cleared_less: "w \<noteq> 0 \<Longrightarrow> unat (w AND (w - 1)) < unat (w :: 64 word)"
proof -
  assume "w \<noteq> 0"
  have "w AND (w - 1) \<le> w - 1" by (rule word_and_le1)
  also have "w - 1 < w" using \<open>w \<noteq> 0\<close> by (simp add: word_less_nat_alt unat_minus_one unat_gt_0)
  finally show ?thesis by (simp add: word_less_nat_alt)
qed

function to_slice_word :: "nat \<Rightarrow> 64 word \<Rightarrow> nat list" where
  "to_slice_word wordIdx w =
    (if w = 0 then [] else (wordIdx * 64 + TrailingZeros64 w) # to_slice_word wordIdx (w AND (w - 1)))"
  by pat_completeness auto
termination
  by (relation "measure (\<lambda>(_, w). unat w)") (auto simp: lowest_cleared_less)

declare to_slice_word.simps [simp del]

definition bs_ToSlice :: "bitset \<Rightarrow> nat list" where
  "bs_ToSlice b = concat (map (\<lambda>(i, w). to_slice_word i w) (enumerate 0 (bs_buf b)))"

subsection \<open>Counting and scanning the bits of a word\<close>

lemma TrailingZeros64_spec:
  assumes "w \<noteq> 0"
  shows "TrailingZeros64 w < 64" and "bit w (TrailingZeros64 w)" and "\<And>i. i < TrailingZeros64 w \<Longrightarrow> \<not> bit w i"
proof -
  let ?t = "takeWhile (\<lambda>i. \<not> bit w i) [0..<64]"
  obtain n where n: "n < 64" "bit w n" using assms by (auto simp: bit_eq_iff)
  show lt: "TrailingZeros64 w < 64"
  proof (rule ccontr)
    assume "\<not> ?thesis"
    then have "length ?t = length [0..<64]"
      using length_takeWhile_le [of "\<lambda>i. \<not> bit w i" "[0..<64]"] by (simp add: TrailingZeros64_def)
    then have "\<forall>x\<in>set [0..<64]. \<not> bit w x" by (metis takeWhile_eq_take take_all order_refl takeWhile_eq_all_conv)
    with n show False by auto
  qed
  then show "bit w (TrailingZeros64 w)"
    using nth_length_takeWhile [of "\<lambda>i. \<not> bit w i" "[0..<64]"] by (simp add: TrailingZeros64_def)
  fix i assume i: "i < TrailingZeros64 w"
  then have "?t ! i = [0..<64] ! i" by (simp add: TrailingZeros64_def takeWhile_nth)
  then have "?t ! i = i" using i lt by simp
  moreover have "?t ! i \<in> set ?t" using i by (intro nth_mem) (simp add: TrailingZeros64_def)
  ultimately show "\<not> bit w i" using set_takeWhileD [of i "\<lambda>i. \<not> bit w i" "[0..<64]"] by simp
qed

lemma clear_lowest:
  assumes "w \<noteq> 0"
  shows "bit (w AND (w - 1)) n \<longleftrightarrow> bit w n \<and> n \<noteq> TrailingZeros64 w"
proof -
  define t where "t = TrailingZeros64 w"
  note tz = TrailingZeros64_spec [OF assms, folded t_def]
  define h where "h = push_bit (Suc t) (drop_bit (Suc t) w)"
  have low: "take_bit (Suc t) w = 2 ^ t"
    by (rule bit_word_eqI) (use tz in \<open>auto simp: bit_take_bit_iff bit_mask_word less_Suc_eq\<close>)
  have "w = h + 2 ^ t"
    using bits_ident [of "Suc t" w] by (simp add: h_def low)
  then have "w - 1 = h + mask t" by (simp add: mask_eq_decr_exp)
  also have "\<dots> = h OR mask t"
    by (rule disjunctive_add) (auto simp: h_def bit_push_bit_iff bit_mask_iff)
  finally have "bit (w - 1) n \<longleftrightarrow> bit h n \<or> (n < t \<and> n < 64)"
    by (auto simp: bit_or_iff bit_mask_iff)
  moreover have "bit h n \<longleftrightarrow> Suc t \<le> n \<and> bit w n"
    by (auto simp: h_def bit_push_bit_iff bit_drop_bit_eq simp del: push_bit_Suc dest: bit_imp_le_length)
  ultimately show ?thesis using tz by (auto simp: bit_and_iff simp flip: t_def)
qed

lemma to_slice_word_spec: "to_slice_word k w = map (\<lambda>i. k * 64 + i) (filter (bit w) [0..<64])"
proof (induction k w rule: to_slice_word.induct)
  case (1 k w)
  show ?case
  proof (cases "w = 0")
    case True then show ?thesis by (simp add: to_slice_word.simps)
  next
    case False
    let ?t = "TrailingZeros64 w"
    note tz = TrailingZeros64_spec [OF False]
    have "[0..<64] = [0..<?t] @ ?t # [Suc ?t..<64]"
      using upt_add_eq_append [of 0 ?t "64 - ?t"] tz(1) by (simp add: upt_conv_Cons)
    moreover have "filter (bit v) [0..<?t] = []" if "\<forall>i<?t. \<not> bit v i" for v :: "64 word"
      using that by (auto simp: filter_empty_conv)
    ultimately have "filter (bit w) [0..<64] = ?t # filter (bit w) [Suc ?t..<64]"
      and "filter (bit (w AND (w - 1))) [0..<64] = filter (bit (w AND (w - 1))) [Suc ?t..<64]"
      using tz clear_lowest [OF False] by simp_all
    moreover have "filter (bit (w AND (w - 1))) [Suc ?t..<64] = filter (bit w) [Suc ?t..<64]"
      by (rule filter_cong) (use clear_lowest [OF False] in auto)
    ultimately show ?thesis using 1 False by (subst to_slice_word.simps) simp
  qed
qed

subsection \<open>The set a bit set stands for\<close>

definition bs_els :: "bitset \<Rightarrow> int set" where
  "bs_els b = int ` buf_ones (bs_buf b)"

definition bs_ok :: "bitset \<Rightarrow> bool" where
  "bs_ok b \<longleftrightarrow> bs_n b \<le> 64 * int (length (bs_buf b)) \<and> (\<forall>i\<in>bs_els b. i < bs_n b)"

lemma els_index: "int i \<in> bs_els b \<longleftrightarrow> i \<in> buf_ones (bs_buf b)"
  by (auto simp: bs_els_def)

lemma bs_New_ok: "bs_ok (bitset_New n)" "bs_els (bitset_New n) = {}"
  by (auto simp: bs_ok_def bs_els_def bitset_New_def Let_def buf_ones_ops)

lemma bs_grow_facts:
  assumes "bs_ok b" and "0 \<le> i"
  shows "bs_ok (bs_grow i b)" and "bs_els (bs_grow i b) = bs_els b" and "i < bs_n (bs_grow i b)"
    and "bs_n b \<le> bs_n (bs_grow i b)" and "nat i < 64 * length (bs_buf (bs_grow i b))"
    and "length (bs_buf b) \<le> length (bs_buf (bs_grow i b))"
proof -
  have w: "i < 64 * ((i + 64) div 64)" "64 * ((i + 64) div 64) \<le> i + 64" using assms(2) by linarith+
  show els: "bs_els (bs_grow i b) = bs_els b"
    by (simp add: bs_grow_def Let_def bs_els_def buf_ones_extend)
  have above: "\<And>x. x \<in> bs_els b \<Longrightarrow> x < bs_n b" using assms(1) by (simp add: bs_ok_def)
  show n: "i < bs_n (bs_grow i b)" "bs_n b \<le> bs_n (bs_grow i b)"
    using assms w by (auto simp: bs_grow_def Let_def bs_ok_def)
  have len: "bs_n (bs_grow i b) \<le> 64 * int (length (bs_buf (bs_grow i b)))"
    using assms w by (auto simp: bs_grow_def Let_def bs_ok_def nat_le_iff of_nat_diff le_nat_iff)
  then show "bs_ok (bs_grow i b)" using above n(2) by (force simp: bs_ok_def els)
  show "nat i < 64 * length (bs_buf (bs_grow i b))" using n(1) len assms(2) by (simp add: nat_less_iff)
  show "length (bs_buf b) \<le> length (bs_buf (bs_grow i b))"
    by (auto simp: bs_grow_def Let_def le_nat_iff)
qed

lemma bs_Set_facts:
  assumes "bs_ok b" and "0 \<le> i"
  shows "\<exists>b'. bs_Set i b = Some b' \<and> bs_ok b' \<and> bs_els b' = insert i (bs_els b)"
proof -
  let ?g = "bs_grow i b"
  note g = bs_grow_facts [OF assms]
  let ?b = "?g\<lparr>bs_buf := buf_set (nat i) (bs_buf ?g)\<rparr>"
  have els: "bs_els ?b = insert i (bs_els b)"
    using g(2,5) assms(2) by (simp add: bs_els_def buf_ones_ops)
  moreover have "bs_ok ?b" unfolding bs_ok_def els using g(1-3) by (auto simp: bs_ok_def)
  ultimately show ?thesis using assms(2) by (simp add: bs_Set_def Let_def)
qed

lemma bs_Clear_facts:
  assumes "bs_ok b"
  shows "bs_ok (bs_Clear i b) \<and> bs_els (bs_Clear i b) = bs_els b - {i}"
proof (cases "i < 0 \<or> bs_n b \<le> i")
  case True
  then have "i \<notin> bs_els b" using assms by (auto simp: bs_ok_def bs_els_def)
  with True assms show ?thesis by (simp add: bs_Clear_def)
next
  case False
  then have "nat i < 64 * length (bs_buf b)" using assms by (auto simp: bs_ok_def)
  then have "bs_els (bs_Clear i b) = int ` (buf_ones (bs_buf b) - {nat i})"
    using False by (simp add: bs_Clear_def bs_els_def buf_ones_ops)
  also have "\<dots> = bs_els b - {i}" using False by (auto simp: bs_els_def)
  finally show ?thesis using assms False by (auto simp: bs_ok_def bs_Clear_def)
qed

lemma bs_Test_els:
  assumes "bs_ok b"
  shows "bs_Test i b \<longleftrightarrow> i \<in> bs_els b"
proof (cases "i < 0 \<or> bs_n b \<le> i")
  case True
  then show ?thesis using assms by (auto simp: bs_ok_def bs_els_def bs_Test_def)
next
  case False
  then have "nat i < 64 * length (bs_buf b)" "i = int (nat i)" using assms by (auto simp: bs_ok_def)
  then show ?thesis using False els_index [of "nat i" b] by (simp add: bs_Test_def buf_test_bit buf_ones_def)
qed

text \<open>Non-negative indices, the domain on which \<open>Set\<close> does not panic, are the natural numbers.\<close>

interpretation bs: set_adt "bitset_New 0" "\<lambda>i b. the (bs_Set (int i) b)" "\<lambda>i b. bs_Clear (int i) b"
  "\<lambda>b i. bs_Test (int i) b" "\<lambda>b. buf_ones (bs_buf b)" bs_ok
proof unfold_locales
  fix b and i :: nat
  show "bs_ok (bitset_New 0)" "buf_ones (bs_buf (bitset_New 0)) = {}" using bs_New_ok by (auto simp: bs_els_def)
  assume ok: "bs_ok b"
  obtain b' where b': "bs_Set (int i) b = Some b'" "bs_ok b'" "bs_els b' = insert (int i) (bs_els b)"
    using bs_Set_facts [OF ok, of "int i"] by auto
  show "bs_ok (the (bs_Set (int i) b))" using b' by simp
  have "int ` buf_ones (bs_buf b') = int ` insert i (buf_ones (bs_buf b))" using b'(3) by (simp add: bs_els_def)
  then show "buf_ones (bs_buf (the (bs_Set (int i) b))) = insert i (buf_ones (bs_buf b))"
    using b'(1) by (simp add: inj_image_eq_iff del: image_insert)
  have "int ` buf_ones (bs_buf (bs_Clear (int i) b)) = int ` (buf_ones (bs_buf b) - {i})"
    using bs_Clear_facts [OF ok, of "int i"] by (auto simp: bs_els_def)
  then show "buf_ones (bs_buf (bs_Clear (int i) b)) = buf_ones (bs_buf b) - {i}"
    by (simp add: inj_image_eq_iff)
  show "bs_ok (bs_Clear (int i) b)" using bs_Clear_facts [OF ok] by simp
  show "bs_Test (int i) b \<longleftrightarrow> i \<in> buf_ones (bs_buf b)" using bs_Test_els [OF ok] by (simp add: els_index)
qed

subsection \<open>Enumeration, counting and set algebra\<close>

lemma to_slice_buf:
  "concat (map (\<lambda>(i, w). to_slice_word i w) (enumerate 0 buf)) = filter (buf_bit buf) [0..<64 * length buf]"
proof (induction buf rule: rev_induct)
  case (snoc w buf)
  let ?n = "64 * length buf"
  have "[0..<64 * length (buf @ [w])] = [0..<?n] @ map (\<lambda>i. ?n + i) [0..<64]"
    using upt_add_eq_append [of 0 ?n 64] map_add_upt [of ?n 64] by (simp add: add.commute)
  moreover have "filter (buf_bit (buf @ [w])) [0..<?n] = filter (buf_bit buf) [0..<?n]"
    by (rule filter_cong) (simp_all add: buf_bit_append)
  moreover have "filter (buf_bit (buf @ [w])) (map (\<lambda>i. ?n + i) [0..<64]) = map (\<lambda>i. ?n + i) (filter (bit w) [0..<64])"
    unfolding filter_map comp_def by (rule arg_cong [of _ _ "map _"], rule filter_cong) (auto simp: buf_bit_def)
  ultimately show ?case
    using snoc by (simp add: enumerate_append_eq to_slice_word_spec mult.commute)
qed simp

lemma bs_ToSlice_spec: "bs_ToSlice b = filter (buf_bit (bs_buf b)) [0..<64 * length (bs_buf b)]"
  by (simp add: bs_ToSlice_def to_slice_buf)

lemma bs_Len_length: "bs_Len b = length (bs_ToSlice b)"
proof -
  have "foldl (\<lambda>cnt w. cnt + OnesCount64 w) n buf
      = n + length (concat (map (\<lambda>(i, w). to_slice_word i w) (enumerate k buf)))" for n k buf
  proof (induction buf arbitrary: n k)
    case (Cons w buf)
    from Cons.IH [of "n + OnesCount64 w" "Suc k"] show ?case by (simp add: to_slice_word_spec OnesCount64_def)
  qed simp
  from this [of 0 "bs_buf b" 0] show ?thesis by (simp add: bs_Len_def bs_ToSlice_def)
qed

lemma bs_Intersect_els: "bs_els (bs_Intersect (Some p) b) = bs_els b \<inter> bs_els p"
proof -
  have "buf_bit (bs_buf (bs_Intersect (Some p) b)) i \<longleftrightarrow> i < 64 * length (bs_buf p) \<and> buf_bit (bs_buf b) i \<and> buf_bit (bs_buf p) i"
    if "i < 64 * length (bs_buf b)" for i
  proof -
    have "i div 64 < length (bs_buf b)" using that by auto
    then show ?thesis by (auto simp: bs_Intersect_def buf_bit_def bit_and_iff)
  qed
  then show ?thesis by (auto simp: bs_els_def buf_ones_def bs_Intersect_def)
qed

lemma bs_Union_els:
  assumes "bs_ok b" and "bs_ok p"
  shows "bs_els (bs_Union (Some p) b) = bs_els b \<union> bs_els p"
proof -
  define b' where "b' = (if length (bs_buf b) < length (bs_buf p) then bs_grow (bs_n p - 1) b else b)"
  have els': "bs_els b' = bs_els b" by (simp add: b'_def bs_grow_def Let_def bs_els_def buf_ones_extend)
  have cover: "i < 64 * length (bs_buf b')" if "i \<in> buf_ones (bs_buf p)" for i
  proof (cases "length (bs_buf b) < length (bs_buf p)")
    case True
    have "int i < bs_n p" using that assms(2) by (force simp: bs_ok_def bs_els_def)
    then have "nat (bs_n p - 1) < 64 * length (bs_buf b')"
      using bs_grow_facts(5) [OF assms(1), of "bs_n p - 1"] True by (simp add: b'_def)
    with \<open>int i < bs_n p\<close> show ?thesis by linarith
  next
    case False
    then show ?thesis using that by (auto simp: b'_def buf_ones_def)
  qed
  have "buf_bit (bs_buf (bs_Union (Some p) b)) i \<longleftrightarrow> buf_bit (bs_buf b') i \<or> (i < 64 * length (bs_buf p) \<and> buf_bit (bs_buf p) i)"
    if "i < 64 * length (bs_buf b')" for i
  proof -
    have "i div 64 < length (bs_buf b')" using that by auto
    then show ?thesis by (auto simp: bs_Union_def Let_def buf_bit_def bit_or_iff simp flip: b'_def)
  qed
  then have "buf_ones (bs_buf (bs_Union (Some p) b)) = buf_ones (bs_buf b') \<union> buf_ones (bs_buf p)"
    using cover by (auto simp: buf_ones_def bs_Union_def Let_def simp flip: b'_def)
  then show ?thesis using els' by (simp add: bs_els_def image_Un)
qed

lemma bs_Union_ok:
  assumes "bs_ok b" and "bs_ok p" and "bs_n p \<le> bs_n b \<or> length (bs_buf b) < length (bs_buf p)"
  shows "bs_ok (bs_Union (Some p) b)"
proof -
  let ?u = "bs_Union (Some p) b"
  define b' where "b' = (if length (bs_buf b) < length (bs_buf p) then bs_grow (bs_n p - 1) b else b)"
  have u: "bs_n ?u = bs_n b'" "length (bs_buf ?u) = length (bs_buf b')"
    by (simp_all add: bs_Union_def Let_def b'_def)
  have "bs_n b \<le> bs_n b' \<and> bs_n p \<le> bs_n b' \<and> bs_n b' \<le> 64 * int (length (bs_buf b'))"
  proof (cases "length (bs_buf b) < length (bs_buf p) \<and> 0 < bs_n p")
    case True
    then show ?thesis using bs_grow_facts [OF assms(1), of "bs_n p - 1"] by (simp add: b'_def bs_ok_def)
  next
    case False
    then show ?thesis using assms by (auto simp: b'_def bs_ok_def bs_grow_def Let_def)
  qed
  then show ?thesis
    using assms(1,2) by (auto simp: bs_ok_def u bs_Union_els [OF assms(1,2)] intro: less_le_trans)
qed

text \<open>
  A bit set behaves as the set of its elements.  On consistent bit sets \<open>Set\<close>, \<open>Clear\<close>,
  \<open>Test\<close>, \<open>Intersect\<close> and, when the argument admits no more bits than the receiver or has more
  words, \<open>Union\<close> are insertion, deletion, membership, intersection and union and keep the
  consistency; \<open>Set\<close> panics exactly on negative indices; \<open>ToSlice\<close> lists the elements in
  ascending order although it scans by clearing lowest ones; \<open>Len\<close> is their number.
\<close>
lemma bitset_refines_set:
  assumes "bs_ok b" and "bs_ok p"
  shows "(\<forall>i\<ge>0. \<exists>b'. bs_Set i b = Some b' \<and> bs_ok b' \<and> bs_els b' = insert i (bs_els b)) \<and> (\<forall>i<0. bs_Set i b = None)
    \<and> (\<forall>i. bs_ok (bs_Clear i b) \<and> bs_els (bs_Clear i b) = bs_els b - {i}) \<and> (\<forall>i. bs_Test i b \<longleftrightarrow> i \<in> bs_els b)
    \<and> bs_els (bs_Intersect (Some p) b) = bs_els b \<inter> bs_els p \<and> bs_ok (bs_Intersect (Some p) b)
    \<and> bs_els (bs_Union (Some p) b) = bs_els b \<union> bs_els p
    \<and> (bs_n p \<le> bs_n b \<or> length (bs_buf b) < length (bs_buf p) \<longrightarrow> bs_ok (bs_Union (Some p) b))
    \<and> sorted_wrt (<) (bs_ToSlice b) \<and> int ` set (bs_ToSlice b) = bs_els b \<and> bs_Len b = card (bs_els b)"
proof -
  have slice: "set (bs_ToSlice b) = buf_ones (bs_buf b)" "sorted_wrt (<) (bs_ToSlice b)"
    by (auto simp: bs_ToSlice_spec buf_ones_def sorted_wrt_filter)
  then have "distinct (bs_ToSlice b)" by (simp add: strict_sorted_iff)
  then have "bs_Len b = card (bs_els b)"
    using slice(1) by (simp add: bs_Len_length bs_els_def card_image inj_on_def flip: distinct_card)
  moreover have "bs_ok (bs_Intersect (Some p) b)"
    using assms(1) unfolding bs_ok_def bs_Intersect_els by (simp add: bs_Intersect_def)
  moreover have "\<forall>i<0. bs_Set i b = None" by (simp add: bs_Set_def)
  ultimately show ?thesis
    using bs_Set_facts [OF assms(1)] bs_Clear_facts [OF assms(1)] bs_Test_els [OF assms(1)] bs_Intersect_els
      bs_Union_els [OF assms] bs_Union_ok [OF assms] slice by (simp add: bs_els_def)
qed

text \<open>
  \<open>Union\<close> with an argument of the same number of words but a larger \<open>n\<close> copies bits that the
  receiver then does not see: after uniting the empty set over one bit with the set containing 5,
  \<open>ToSlice\<close> reports 5 and \<open>Test(5)\<close> denies it.
\<close>
lemma union_hides_bits:
  "\<exists>p. bs_Set 5 (bitset_New 8) = Some p
     \<and> bs_ToSlice (bs_Union (Some p) (bitset_New 1)) = [5] \<and> \<not> bs_Test 5 (bs_Union (Some p) (bitset_New 1))"
proof -
  have "bs_Set 5 (bitset_New 8) = Some \<lparr>bs_buf = [32], bs_n = 8\<rparr>" by code_simp
  moreover have "bs_ToSlice (bs_Union (Some \<lparr>bs_buf = [32], bs_n = 8\<rparr>) (bitset_New 1)) = [5]"
    "\<not> bs_Test 5 (bs_Union (Some \<lparr>bs_buf = [32], bs_n = 8\<rparr>) (bitset_New 1))" by code_simp+
  ultimately show ?thesis by blast
qed

end
