(* ===== verification/Map_Spec.thy ===== *)
theory Map_Spec
  imports Prelude
begin

section \<open>The interface of a map\<close>

text \<open>
  What the map-like packages (\<open>trie\<close>, \<open>bimap\<close>, \<open>multimap\<close>) promise of lookups after updates.  The
  client lemma describes a whole history of writes: a lookup finds the last write to its key.
\<close>

locale map_adt =
  fixes fresh :: 'm and upd :: "'k \<Rightarrow> 'v \<Rightarrow> 'm \<Rightarrow> 'm" and del :: "'k \<Rightarrow> 'm \<Rightarrow> 'm" and look :: "'m \<Rightarrow> 'k \<Rightarrow> 'v option"
    and ok :: "'m \<Rightarrow> bool" and norm :: "'k \<Rightarrow> 'n"
  assumes ok_fresh: "ok fresh" and look_fresh: "look fresh k = None"
    and ok_upd: "ok m \<Longrightarrow> ok (upd k v m)"
    and look_upd: "ok m \<Longrightarrow> look (upd k v m) k' = (if norm k' = norm k then Some v else look m k')"
    and ok_del: "ok m \<Longrightarrow> ok (del k m)"
    and look_del: "ok m \<Longrightarrow> look (del k m) k' = (if norm k' = norm k then None else look m k')"
begin

text \<open>A write is a key with \<open>Some\<close> value to store or \<open>None\<close> to delete.\<close>

fun apply_write :: "'k \<times> 'v option \<Rightarrow> 'm \<Rightarrow> 'm" where
  "apply_write (k, Some v) m = upd k v m"
| "apply_write (k, None) m = del k m"

fun last_write :: "'n \<Rightarrow> ('k \<times> 'v option) list \<Rightarrow> 'v option \<Rightarrow> 'v option" where
  "last_write n [] v = v"
| "last_write n (w # ws) v = last_write n ws (if norm (fst w) = n then snd w else v)"

lemma apply_write_ok: "ok m \<Longrightarrow> ok (apply_write w m)"
  by (cases w; cases "snd w") (simp_all add: ok_upd ok_del)

lemma look_apply: "ok m \<Longrightarrow> look (apply_write w m) k = (if norm k = norm (fst w) then snd w else look m k)"
  by (cases w; cases "snd w") (simp_all add: look_upd look_del)

lemma look_history:
  assumes "ok m"
  shows "ok (fold apply_write ws m) \<and> look (fold apply_write ws m) k = last_write (norm k) ws (look m k)"
  using assms
proof (induction ws arbitrary: m)
  case (Cons w ws)
  from Cons.IH [OF apply_write_ok [OF Cons.prems], of w] Cons.prems show ?case by (simp add: look_apply eq_commute)
qed simp

end

end
