(* ===== verification/Trie.thy ===== *)
theory Trie
  imports Map_Spec "HOL-Library.AList" "HOL-Library.List_Lexorder" "HOL-Library.Char_ord" "HOL-Library.Sublist"
begin

section \<open>Prefix trees (trie/trie.go)\<close>

text \<open>
  A node holds its children, a Go map read as an association list, and an optional value
  (\<open>hasValue\<close> with \<open>value\<close>).  Nodes are reached from the root only, so the in-place updates along
  a path are functional updates.  The read-write mutex makes every method one step.
\<close>

datatype 'v tnode = TNode (children: "(string \<times> 'v tnode) list") (tvalue: "'v option")

record 'v trie =
  t_root :: "'v tnode"
  t_count :: int

subsection \<open>Keys\<close>

definition trim_slash :: "string \<Rightarrow> string" where
  "trim_slash key = (let isslash = (\<lambda>c. c = CHR ''/'') in rev (dropWhile isslash (rev (dropWhile isslash key))))"

fun split_slash :: "string \<Rightarrow> string list" where
  "split_slash [] = [[]]"
| "split_slash (c # cs) =
    (if c = CHR ''/'' then [] # split_slash cs
     else case split_slash cs of [] \<Rightarrow> [[c]] | s # ss \<Rightarrow> (c # s) # ss)"

definition segments :: "string \<Rightarrow> string list" where
  "segments key = (let key = trim_slash key in if key = [] then [] else split_slash key)"

fun join_slash :: "string list \<Rightarrow> string" where
  "join_slash [] = []"
| "join_slash [s] = s"
| "join_slash (s # ss) = s @ CHR ''/'' # join_slash ss"

subsection \<open>Operations\<close>

definition trie_New :: "'v trie" where
  "trie_New = \<lparr>t_root = TNode [] None, t_count = 0\<rparr>"

fun tn_insert :: "string list \<Rightarrow> 'v \<Rightarrow> 'v tnode \<Rightarrow> 'v tnode" where
  "tn_insert [] v (TNode cs val) = TNode cs (Some v)"
| "tn_insert (s # ss) v (TNode cs val) =
    (let child = (case map_of cs s of None \<Rightarrow> TNode [] None | Some c \<Rightarrow> c) in
     TNode (AList.update s (tn_insert ss v child) cs) val)"

fun tn_descend :: "string list \<Rightarrow> 'v tnode \<Rightarrow> 'v tnode option" where
  "tn_descend [] n = Some n"
| "tn_descend (s # ss) n = (case map_of (children n) s of None \<Rightarrow> None | Some c \<Rightarrow> tn_descend ss c)"

definition tn_get :: "string list \<Rightarrow> 'v tnode \<Rightarrow> 'v option" where
  "tn_get segs n = (case tn_descend segs n of None \<Rightarrow> None | Some m \<Rightarrow> tvalue m)"

definition trie_Insert :: "string \<Rightarrow> 'v \<Rightarrow> 'v trie \<Rightarrow> 'v trie" where
  "trie_Insert key v t =
    (let segs = segments key in
     t\<lparr>t_count := (if tn_get segs (t_root t) = None then t_count t + 1 else t_count t),
       t_root := tn_insert segs v (t_root t)\<rparr>)"

definition trie_Get :: "string \<Rightarrow> 'v trie \<Rightarrow> 'v option" where
  "trie_Get key t =
    (let segs = segments key in
     case tn_descend segs (t_root t) of None \<Rightarrow> None | Some n \<Rightarrow> tvalue n)"

definition trie_Has :: "string \<Rightarrow> 'v trie \<Rightarrow> bool" where
  "trie_Has key t \<longleftrightarrow> trie_Get key t \<noteq> None"

fun longest_loop :: "string list \<Rightarrow> 'v tnode \<Rightarrow> string list \<Rightarrow> ('v \<times> string) option \<Rightarrow> ('v \<times> string) option" where
  "longest_loop [] cur path best = best"
| "longest_loop (s # ss) cur path best =
    (case map_of (children cur) s of
       None \<Rightarrow> best
     | Some child \<Rightarrow>
         longest_loop ss child (path @ [s])
           (case tvalue child of None \<Rightarrow> best | Some v \<Rightarrow> Some (v, join_slash (path @ [s]))))"

definition LongestPrefix :: "string \<Rightarrow> 'v trie \<Rightarrow> ('v \<times> string) option" where
  "LongestPrefix query t =
    (case longest_loop (segments query) (t_root t) [] None of
       Some r \<Rightarrow> Some r
     | None \<Rightarrow> (case tvalue (t_root t) of Some v \<Rightarrow> Some (v, []) | None \<Rightarrow> None))"

text \<open>
  Deletion clears the value and prunes from the leaf upward: a node whose updated child has
  neither children nor a value drops it.
\<close>

definition tn_empty :: "'v tnode \<Rightarrow> bool" where
  "tn_empty n \<longleftrightarrow> children n = [] \<and> tvalue n = None"

fun tn_delete :: "string list \<Rightarrow> 'v tnode \<Rightarrow> 'v tnode" where
  "tn_delete [] (TNode cs val) = TNode cs None"
| "tn_delete (s # ss) (TNode cs val) =
    (case map_of cs s of
       None \<Rightarrow> TNode cs val
     | Some c \<Rightarrow>
         (let c' = tn_delete ss c in
          if tn_empty c' then TNode (AList.delete s cs) val else TNode (AList.update s c' cs) val))"

definition trie_Delete :: "string \<Rightarrow> 'v trie \<Rightarrow> bool \<times> 'v trie" where
  "trie_Delete key t =
    (let segs = segments key in
     if segs = [] then (tvalue (t_root t) \<noteq> None, t\<lparr>t_root := TNode (children (t_root t)) None\<rparr>)
     else case tn_descend segs (t_root t) of
            None \<Rightarrow> (False, t)
          | Some n \<Rightarrow> (if tvalue n = None then (False, t)
                       else (True, t\<lparr>t_root := tn_delete segs (t_root t), t_count := t_count t - 1\<rparr>)))"

function walk :: "'v tnode \<Rightarrow> string list \<Rightarrow> string list" where
  "walk n path =
    (if tvalue n \<noteq> None then [join_slash path] else [])
    @ concat (map (\<lambda>(seg, c). walk c (path @ [seg])) (sort_key fst (children n)))"
  by pat_completeness auto
termination
proof (relation "measure (\<lambda>(n, _). size n)", goal_cases)
  case (2 n path x seg c)
  then have "(seg, c) \<in> set (children n)" by simp
  then have "size c \<le> size_list (size_prod (\<lambda>_. 0) size) (children n)"
    by (rule size_list_estimation') simp
  then show ?case by (cases n) simp
qed simp

definition KeysWithPrefix :: "string \<Rightarrow> 'v trie \<Rightarrow> string list" where
  "KeysWithPrefix pre t =
    (let segs = segments pre in
     case tn_descend segs (t_root t) of None \<Rightarrow> [] | Some n \<Rightarrow> walk n segs)"

definition trie_Len :: "'v trie \<Rightarrow> int" where
  "trie_Len t = t_count t"

declare walk.simps [simp del]

subsection \<open>Lookups after updates\<close>

lemma tn_get_Nil [simp]: "tn_get [] n = tvalue n"
  by (simp add: tn_get_def)

lemma tn_get_Cons [simp]: "tn_get (s # ss) n = (case map_of (children n) s of None \<Rightarrow> None | Some c \<Rightarrow> tn_get ss c)"
  by (simp add: tn_get_def split: option.splits)

lemma tn_get_empty: "children n = [] \<Longrightarrow> tvalue n = None \<Longrightarrow> tn_get p n = None"
  by (cases p) simp_all

lemma tn_get_insert: "tn_get p (tn_insert ss v n) = (if p = ss then Some v else tn_get p n)"
proof (induction ss v n arbitrary: p rule: tn_insert.induct)
  case (1 v cs val)
  then show ?case by (cases p) simp_all
next
  case (2 s ss v cs val)
  define child where "child = (case map_of cs s of None \<Rightarrow> TNode [] None | Some c \<Rightarrow> c)"
  note IH = 2 [OF child_def]
  have old: "tn_get qs child = (case map_of cs s of None \<Rightarrow> None | Some c \<Rightarrow> tn_get qs c)" for qs
    by (simp add: child_def tn_get_empty split: option.splits)
  have new: "tn_insert (s # ss) v (TNode cs val) = TNode (AList.update s (tn_insert ss v child) cs) val"
    by (simp add: child_def Let_def)
  show ?case
  proof (cases p)
    case (Cons q qs)
    then show ?thesis unfolding new by (cases "q = s") (simp_all add: update_conv' IH old)
  qed simp
qed

lemma tn_get_delete: "tn_get p (tn_delete ss n) = (if p = ss then None else tn_get p n)"
proof (induction ss n arbitrary: p rule: tn_delete.induct)
  case (1 cs val)
  then show ?case by (cases p) simp_all
next
  case (2 s ss cs val)
  show ?case
  proof (cases "map_of cs s")
    case None
    then show ?thesis by (cases p) auto
  next
    case (Some c)
    note IH = 2 [OF Some]
    show ?thesis
    proof (cases p)
      case (Cons q qs)
      have "tn_get qs (tn_delete ss c) = None" if "tn_empty (tn_delete ss c)"
        using that by (intro tn_get_empty) (simp_all add: tn_empty_def)
      then show ?thesis using Some Cons IH [of qs] by (auto simp: Let_def update_conv' delete_conv')
    qed (auto simp: Some Let_def)
  qed
qed

lemma trie_Get_tn: "trie_Get k t = tn_get (segments k) (t_root t)"
  by (simp add: trie_Get_def tn_get_def Let_def)

lemma trie_Get_Insert: "trie_Get k' (trie_Insert k v t) = (if segments k' = segments k then Some v else trie_Get k' t)"
  by (simp add: trie_Get_tn trie_Insert_def Let_def tn_get_insert)

lemma trie_Delete_root:
  "t_root (snd (trie_Delete k t)) = t_root t \<and> tn_get (segments k) (t_root t) = None
   \<or> t_root (snd (trie_Delete k t)) = tn_delete (segments k) (t_root t)"
proof (cases "segments k")
  case Nil
  then show ?thesis by (cases "t_root t") (simp add: trie_Delete_def Let_def)
next
  case (Cons s ss)
  then show ?thesis by (auto simp: trie_Delete_def Let_def tn_get_def split: option.splits)
qed

lemma trie_Get_Delete: "trie_Get k' (snd (trie_Delete k t)) = (if segments k' = segments k then None else trie_Get k' t)"
  using trie_Delete_root [of k t] by (auto simp: trie_Get_tn tn_get_delete)

lemma trie_Get_New: "trie_Get k trie_New = None"
  by (simp add: trie_Get_tn trie_New_def tn_get_empty)

interpretation tr: map_adt trie_New trie_Insert "\<lambda>k t. snd (trie_Delete k t)" "\<lambda>t k. trie_Get k t" "\<lambda>_. True" segments
  by unfold_locales (simp_all add: trie_Get_Insert trie_Get_Delete trie_Get_New)

subsection \<open>Counting keys\<close>

definition trie_keys :: "'v trie \<Rightarrow> string list set" where
  "trie_keys t = {p. tn_get p (t_root t) \<noteq> None}"

definition trie_counted :: "'v trie \<Rightarrow> bool" where
  "trie_counted t \<longleftrightarrow> finite (trie_keys t) \<and> t_count t = int (card (trie_keys t))"

lemma trie_keys_Insert: "trie_keys (trie_Insert k v t) = insert (segments k) (trie_keys t)"
  by (auto simp: trie_keys_def trie_Insert_def Let_def tn_get_insert)

lemma trie_keys_Delete: "trie_keys (snd (trie_Delete k t)) = trie_keys t - {segments k}"
  using trie_Delete_root [of k t] by (auto simp: trie_keys_def tn_get_delete split: if_splits)

lemma trie_counted_New: "trie_counted trie_New"
  by (simp add: trie_counted_def trie_keys_def trie_New_def tn_get_empty)

lemma trie_counted_Insert:
  assumes "trie_counted t"
  shows "trie_counted (trie_Insert k v t)"
proof -
  have "t_count (trie_Insert k v t) = t_count t + (if segments k \<in> trie_keys t then 0 else 1)"
    by (simp add: trie_Insert_def Let_def trie_keys_def)
  then show ?thesis using assms by (auto simp: trie_counted_def trie_keys_Insert card_insert_if)
qed

lemma trie_Delete_result: "fst (trie_Delete k t) \<longleftrightarrow> segments k \<in> trie_keys t"
  by (auto simp: trie_Delete_def Let_def trie_keys_def tn_get_def split: option.splits)

lemma trie_counted_Delete:
  assumes "trie_counted t" and "segments k \<noteq> []"
  shows "trie_counted (snd (trie_Delete k t))"
proof -
  have "t_count (snd (trie_Delete k t)) = t_count t - (if segments k \<in> trie_keys t then 1 else 0)"
    using assms(2) by (auto simp: trie_Delete_def Let_def trie_keys_def tn_get_def split: option.splits)
  moreover have "segments k \<in> trie_keys t \<Longrightarrow> 0 < card (trie_keys t)"
    using assms(1) by (auto simp: trie_counted_def card_gt_0_iff)
  ultimately show ?thesis
    using assms(1) by (auto simp: trie_counted_def trie_keys_Delete card_Diff_singleton_if of_nat_diff)
qed

subsection \<open>Longest prefix\<close>

definition matches :: "string list \<Rightarrow> 'v tnode \<Rightarrow> nat list" where
  "matches ss n = filter (\<lambda>i. tn_get (take i ss) n \<noteq> None) [0..<Suc (length ss)]"

text \<open>The specification: the value at the longest prefix of the query that has one.\<close>

definition longest_spec :: "string list \<Rightarrow> 'v tnode \<Rightarrow> ('v \<times> string) option" where
  "longest_spec ss n =
    (if matches ss n = [] then None
     else let p = take (last (matches ss n)) ss in map_option (\<lambda>v. (v, join_slash p)) (tn_get p n))"

definition inner :: "string list \<Rightarrow> 'v tnode \<Rightarrow> nat list" where
  "inner ss n = filter (\<lambda>i. tn_get (take i ss) n \<noteq> None) [1..<Suc (length ss)]"

lemma inner_Cons:
  "inner (s # ss) n = (case map_of (children n) s of None \<Rightarrow> []
     | Some c \<Rightarrow> (if tvalue c = None then [] else [1]) @ map Suc (inner ss c))"
proof -
  have "[1..<Suc (length (s # ss))] = 1 # map Suc [1..<Suc (length ss)]"
    using upt_conv_Cons [of 1 "Suc (length (s # ss))"] by (simp add: map_Suc_upt del: upt_Suc)
  then show ?thesis
    by (simp add: inner_def filter_map comp_def split: option.splits)
qed

lemma longest_loop_spec:
  "longest_loop ss cur path best =
    (if inner ss cur = [] then best
     else let i = last (inner ss cur) in map_option (\<lambda>v. (v, join_slash (path @ take i ss))) (tn_get (take i ss) cur))"
proof (induction ss arbitrary: cur path best)
  case Nil
  then show ?case by (simp add: inner_def)
next
  case (Cons s ss)
  show ?case
  proof (cases "map_of (children cur) s")
    case None then show ?thesis by (simp add: inner_Cons)
  next
    case (Some c)
    show ?thesis
    proof (cases "inner ss c = []")
      case True
      then show ?thesis using Some Cons.IH [of c "path @ [s]"] by (auto simp: inner_Cons split: option.splits)
    next
      case False
      then have "last (inner (s # ss) cur) = Suc (last (inner ss c))" "inner (s # ss) cur \<noteq> []"
        using Some by (auto simp: inner_Cons last_map)
      with False Some Cons.IH [of c "path @ [s]"] show ?thesis by (simp add: Let_def)
    qed
  qed
qed

lemma LongestPrefix_spec: "LongestPrefix query t = longest_spec (segments query) (t_root t)"
proof -
  let ?ss = "segments query" and ?n = "t_root t"
  have m: "matches ?ss ?n = (if tvalue ?n = None then [] else [0]) @ inner ?ss ?n"
    by (simp add: matches_def inner_def upt_conv_Cons del: upt_Suc)
  have hit: "tn_get (take (last (inner ?ss ?n)) ?ss) ?n \<noteq> None" if "inner ?ss ?n \<noteq> []"
    using last_in_set [OF that] unfolding inner_def set_filter by blast
  show ?thesis
  proof (cases "inner ?ss ?n = []")
    case True
    then show ?thesis
      by (simp add: LongestPrefix_def longest_spec_def longest_loop_spec m split: option.splits)
  next
    case False
    with hit obtain v where "tn_get (take (last (inner ?ss ?n)) ?ss) ?n = Some v" by blast
    with False show ?thesis by (simp add: LongestPrefix_def longest_spec_def longest_loop_spec m Let_def)
  qed
qed

subsection \<open>Prefix scans\<close>

fun tn_wf :: "'v tnode \<Rightarrow> bool" where
  "tn_wf (TNode cs val) \<longleftrightarrow> distinct (map fst cs) \<and> (\<forall>x\<in>set cs. tn_wf (snd x))"

lemma tn_wf_child: "tn_wf n \<Longrightarrow> map_of (children n) s = Some c \<Longrightarrow> tn_wf c"
  by (cases n) (auto dest: map_of_SomeD)

lemma tn_wf_update: "tn_wf (TNode cs val) \<Longrightarrow> tn_wf c \<Longrightarrow> tn_wf (TNode (AList.update s c cs) val')"
  by (induction cs) (auto simp: dom_update)

lemma tn_wf_delete_key: "tn_wf (TNode cs val) \<Longrightarrow> tn_wf (TNode (AList.delete s cs) val')"
proof -
  assume wf: "tn_wf (TNode cs val)"
  have "set (AList.delete s cs) \<subseteq> set cs" by (induction cs) auto
  with wf show ?thesis by (auto simp: distinct_delete)
qed

lemma tn_wf_insert: "tn_wf n \<Longrightarrow> tn_wf (tn_insert ss v n)"
proof (induction ss v n rule: tn_insert.induct)
  case (2 s ss v cs val)
  define child where "child = (case map_of cs s of None \<Rightarrow> TNode [] None | Some c \<Rightarrow> c)"
  have "tn_wf child" using tn_wf_child [OF "2.prems"] by (simp add: child_def split: option.splits)
  with "2.IH" [OF child_def] show ?case
    using tn_wf_update [OF "2.prems"] by (simp add: Let_def child_def del: tn_wf.simps)
qed simp

lemma tn_wf_delete: "tn_wf n \<Longrightarrow> tn_wf (tn_delete ss n)"
proof (induction ss n rule: tn_delete.induct)
  case (2 s ss cs val)
  show ?case
  proof (cases "map_of cs s")
    case (Some c)
    with 2 have "tn_wf (tn_delete ss c)" using tn_wf_child [OF "2.prems"] by simp
    then show ?thesis
      using Some tn_wf_update [OF "2.prems"] tn_wf_delete_key [OF "2.prems"] by (simp add: Let_def del: tn_wf.simps)
  qed (use 2 in simp)
qed simp

lemma tn_wf_descend: "tn_wf n \<Longrightarrow> tn_descend ss n = Some m \<Longrightarrow> tn_wf m"
  by (induction ss arbitrary: n) (auto split: option.splits dest: tn_wf_child)

lemma tn_get_append: "tn_get (p @ q) n = (case tn_descend p n of None \<Rightarrow> None | Some m \<Rightarrow> tn_get q m)"
  by (induction p arbitrary: n) (simp_all split: option.splits)

lemma walk_spec:
  "tn_wf n \<Longrightarrow> set (walk n path) = {join_slash (path @ p) | p. tn_get p n \<noteq> None}"
proof (induction n path rule: walk.induct)
  case (1 n path)
  obtain cs val where n: "n = TNode cs val" by (cases n)
  have dist: "distinct (map fst cs)" using "1.prems" n by simp
  have IH: "set (walk c (path @ [seg])) = {join_slash ((path @ [seg]) @ p) | p. tn_get p c \<noteq> None}"
    if "(seg, c) \<in> set cs" for seg c
  proof -
    have "tn_wf c" using that "1.prems" n by auto
    with "1.IH" [of "(seg, c)" seg c] that n show ?thesis by simp
  qed
  have kids: "(seg, c) \<in> set cs \<longleftrightarrow> map_of cs seg = Some c" for seg c
    using dist by (simp add: map_of_eq_Some_iff)
  have "set (walk n path) = (if val \<noteq> None then {join_slash path} else {})
      \<union> (\<Union>(seg, c)\<in>set cs. {join_slash (path @ seg # p) | p. tn_get p c \<noteq> None})"
  proof -
    have "set (walk n path) = (if val \<noteq> None then {join_slash path} else {}) \<union> (\<Union>(seg, c)\<in>set cs. set (walk c (path @ [seg])))"
      by (subst walk.simps) (auto simp: n)
    also have "(\<Union>(seg, c)\<in>set cs. set (walk c (path @ [seg])))
        = (\<Union>(seg, c)\<in>set cs. {join_slash (path @ seg # p) | p. tn_get p c \<noteq> None})"
      by (rule SUP_cong [OF refl]) (force simp: IH)
    finally show ?thesis .
  qed
  also have "\<dots> = {join_slash (path @ p) | p. tn_get p n \<noteq> None}" (is "?L = ?R")
  proof
    show "?L \<subseteq> ?R"
    proof
      fix x assume "x \<in> ?L"
      then consider "val \<noteq> None" "x = join_slash path"
        | seg c p where "(seg, c) \<in> set cs" "x = join_slash (path @ seg # p)" "tn_get p c \<noteq> None"
        by (auto split: if_splits)
      then show "x \<in> ?R"
      proof cases
        case 1 then show ?thesis by (intro CollectI exI [of _ "[]"]) (simp add: n)
      next
        case (2 seg c p) then show ?thesis by (intro CollectI exI [of _ "seg # p"]) (simp add: n kids)
      qed
    qed
    show "?R \<subseteq> ?L"
    proof
      fix x assume "x \<in> ?R"
      then obtain p where p: "x = join_slash (path @ p)" "tn_get p n \<noteq> None" by blast
      show "x \<in> ?L"
      proof (cases p)
        case Nil with p show ?thesis by (simp add: n)
      next
        case (Cons seg q)
        with p obtain c where "map_of cs seg = Some c" "tn_get q c \<noteq> None"
          by (auto simp: n split: option.splits)
        with p Cons show ?thesis by (fastforce simp: kids [symmetric])
      qed
    qed
  qed
  finally show ?case .
qed

lemma KeysWithPrefix_spec:
  assumes "tn_wf (t_root t)"
  shows "set (KeysWithPrefix pre t) = join_slash ` {p \<in> trie_keys t. prefix (segments pre) p}"
proof -
  have keys: "{p \<in> trie_keys t. prefix (segments pre) p} = (@) (segments pre) ` {q. tn_get (segments pre @ q) (t_root t) \<noteq> None}"
    by (auto simp: trie_keys_def prefix_def)
  show ?thesis
  proof (cases "tn_descend (segments pre) (t_root t)")
    case None
    then show ?thesis unfolding keys by (simp add: KeysWithPrefix_def Let_def tn_get_append)
  next
    case (Some m)
    then have "set (KeysWithPrefix pre t) = {join_slash (segments pre @ p) | p. tn_get p m \<noteq> None}"
      using walk_spec [OF tn_wf_descend [OF assms Some]] by (simp add: KeysWithPrefix_def Let_def)
    then show ?thesis unfolding keys using Some by (auto simp: tn_get_append image_image)
  qed
qed

lemma trie_wf_Insert: "tn_wf (t_root t) \<Longrightarrow> tn_wf (t_root (trie_Insert k v t))"
  by (simp add: trie_Insert_def Let_def tn_wf_insert)

lemma trie_wf_Delete: "tn_wf (t_root t) \<Longrightarrow> tn_wf (t_root (snd (trie_Delete k t)))"
proof (cases "segments k")
  case Nil
  moreover assume "tn_wf (t_root t)"
  ultimately show ?thesis by (cases "t_root t") (simp add: trie_Delete_def Let_def)
next
  case (Cons s ss)
  assume "tn_wf (t_root t)"
  with Cons show ?thesis
    by (auto simp: trie_Delete_def Let_def tn_wf_delete simp del: tn_delete.simps split: option.splits)
qed

subsection \<open>Properties\<close>

definition trie_inv :: "'v trie \<Rightarrow> bool" where
  "trie_inv t \<longleftrightarrow> tn_wf (t_root t) \<and> trie_counted t"

lemma trie_inv_New: "trie_inv trie_New"
  by (simp add: trie_inv_def trie_counted_New) (simp add: trie_New_def)

text \<open>The longest match, declaratively: the hit is a stored prefix of the query and no longer one is stored.\<close>

lemma LongestPrefix_hit:
  assumes "LongestPrefix q t = Some (v, key)"
  shows "\<exists>p. prefix p (segments q) \<and> tn_get p (t_root t) = Some v \<and> key = join_slash p
    \<and> (\<forall>p'\<in>trie_keys t. prefix p' (segments q) \<longrightarrow> length p' \<le> length p)"
proof -
  let ?ss = "segments q" and ?n = "t_root t"
  define i where "i = last (matches ?ss ?n)"
  from assms have ne: "matches ?ss ?n \<noteq> []" and v: "tn_get (take i ?ss) ?n = Some v" and key: "key = join_slash (take i ?ss)"
    by (auto simp: LongestPrefix_spec longest_spec_def i_def Let_def split: if_splits)
  have "i \<in> set (matches ?ss ?n)" using ne by (simp add: i_def)
  then have i: "i \<le> length ?ss" by (auto simp: matches_def simp del: upt_Suc)
  have srt: "sorted (matches ?ss ?n)" unfolding matches_def by (rule sorted_wrt_filter) (rule sorted_upt)
  have "length p' \<le> i" if "p' \<in> trie_keys t" "prefix p' ?ss" for p'
  proof -
    have "take (length p') ?ss = p'" "length p' \<le> length ?ss" using that(2) by (auto simp: prefix_def)
    then have "length p' \<in> set (matches ?ss ?n)" using that(1) by (auto simp: matches_def trie_keys_def simp del: upt_Suc)
    then obtain j where j: "j < length (matches ?ss ?n)" "matches ?ss ?n ! j = length p'"
      by (auto simp: in_set_conv_nth)
    then show ?thesis using sorted_nth_mono [OF srt, of j "length (matches ?ss ?n) - 1"] ne
      by (simp add: i_def last_conv_nth)
  qed
  then show ?thesis using v key i by (intro exI [of _ "take i ?ss"]) (auto simp: take_is_prefix)
qed

lemma LongestPrefix_miss: "LongestPrefix q t = None \<longleftrightarrow> (\<forall>p\<in>trie_keys t. \<not> prefix p (segments q))"
proof -
  let ?ss = "segments q" and ?n = "t_root t"
  have "LongestPrefix q t = None \<longleftrightarrow> matches ?ss ?n = []"
  proof (cases "matches ?ss ?n = []")
    case False
    from last_in_set [OF this] have "tn_get (take (last (matches ?ss ?n)) ?ss) ?n \<noteq> None"
      unfolding matches_def set_filter by blast
    with False show ?thesis by (auto simp: LongestPrefix_spec longest_spec_def Let_def)
  qed (simp add: LongestPrefix_spec longest_spec_def)
  also have "\<dots> \<longleftrightarrow> (\<forall>p\<in>trie_keys t. \<not> prefix p ?ss)"
  proof
    assume e: "matches ?ss ?n = []"
    show "\<forall>p\<in>trie_keys t. \<not> prefix p ?ss"
    proof (intro ballI notI)
      fix p assume p: "p \<in> trie_keys t" "prefix p ?ss"
      then have "length p \<in> set (matches ?ss ?n)"
        by (auto simp: matches_def trie_keys_def prefix_def simp del: upt_Suc)
      with e show False by simp
    qed
  next
    assume "\<forall>p\<in>trie_keys t. \<not> prefix p ?ss"
    then show "matches ?ss ?n = []"
      unfolding matches_def filter_empty_conv trie_keys_def using take_is_prefix by blast
  qed
  finally show ?thesis .
qed



text \<open>
  Deleting the empty key clears the root's value without decrementing the count, so \<open>Len\<close> is one
  too large afterwards: the hypothesis on the deleted key above is needed.
\<close>

lemma delete_root_miscounts:
  "fst (trie_Delete [] (trie_Insert [] v trie_New)) \<and> trie_Len (snd (trie_Delete [] (trie_Insert [] v trie_New))) = 1
   \<and> trie_keys (snd (trie_Delete [] (trie_Insert [] v trie_New))) = {}"
proof -
  have "segments [] = []" by code_simp
  then show ?thesis
    by (simp add: trie_keys_Delete trie_keys_Insert)
      (simp add: trie_Delete_def trie_Insert_def trie_New_def trie_Len_def Let_def trie_keys_def tn_get_empty)
qed

end
