(* ===== verification/Bloom.thy ===== *)
theory Bloom
  imports Bit_Buffer Hashing
begin

section \<open>Bloom filters (bloom/bloom.go)\<close>

text \<open>
  A filter is a packed bit array of \<open>m\<close> bits with \<open>k\<close> double-hashed indices per element.  The pool of
  index slices is an allocation detail: an index list is computed afresh.  All integers are 64-bit
  words; an index out of range panics, which is \<open>None\<close>.  The read-write mutex makes each method one
  step.  \<open>New\<close> and \<open>EstimatedFalsePositiveRate\<close> go through \<open>math.Log\<close> and \<open>math.Exp\<close> and are not
  modelled; every filter is built by \<open>NewFromParams\<close>.
\<close>

record bloom =
  bf_bits :: bit_buffer
  bf_m :: "64 word"
  bf_k :: "64 word"
  bf_n :: "64 word"

datatype bloom_error = bloom_ErrIncompatible

definition NewFromParams :: "64 word \<Rightarrow> 64 word \<Rightarrow> bloom option" where
  "NewFromParams m k =
    (if m = 0 then None
     else let k = (if k = 0 then 1 else k); words = (m + 63) div 64 in
       Some \<lparr>bf_bits = replicate (unat words) 0, bf_m = m, bf_k = k, bf_n = 0\<rparr>)"

definition bf_doubleHash :: "string \<Rightarrow> 64 word \<times> 64 word" where
  "bf_doubleHash data = (fnv64a data, fnv64 data)"

definition bf_indices :: "string \<Rightarrow> bloom \<Rightarrow> 64 word list" where
  "bf_indices data f =
    (let (h1, h2) = bf_doubleHash data; h2 = (if h2 = 0 then 1 else h2) in
     map (\<lambda>i. (h1 + of_nat i * h2) mod bf_m f) [0..<unat (bf_k f)])"

text \<open>\<open>i >> 6\<close> selects the word and \<open>1 << (i & 63)\<close> the bit in it.\<close>

definition word_of_bit :: "64 word \<Rightarrow> nat" where
  "word_of_bit i = unat (drop_bit 6 i)"

definition mask_of_bit :: "64 word \<Rightarrow> 64 word" where
  "mask_of_bit i = push_bit (unat (i AND 63)) 1"

fun testLocked :: "64 word list \<Rightarrow> bloom \<Rightarrow> bool option" where
  "testLocked [] f = Some True"
| "testLocked (i # is) f =
    (if length (bf_bits f) \<le> word_of_bit i then None
     else if (bf_bits f ! word_of_bit i) AND mask_of_bit i = 0 then Some False
     else testLocked is f)"

fun set_bits_loop :: "64 word list \<Rightarrow> bit_buffer \<Rightarrow> bit_buffer option" where
  "set_bits_loop [] bs = Some bs"
| "set_bits_loop (i # is) bs =
    (if length bs \<le> word_of_bit i then None
     else set_bits_loop is (bs[word_of_bit i := (bs ! word_of_bit i) OR mask_of_bit i]))"

definition bf_addLocked :: "64 word list \<Rightarrow> bloom \<Rightarrow> bloom option" where
  "bf_addLocked idx f =
    (case set_bits_loop idx (bf_bits f) of None \<Rightarrow> None
     | Some bs \<Rightarrow> Some (f\<lparr>bf_bits := bs, bf_n := bf_n f + 1\<rparr>))"

definition bf_Add :: "string \<Rightarrow> bloom \<Rightarrow> bloom option" where
  "bf_Add data f = bf_addLocked (bf_indices data f) f"

definition bf_Test :: "string \<Rightarrow> bloom \<Rightarrow> bool option" where
  "bf_Test data f = testLocked (bf_indices data f) f"

definition bf_TestAndAdd :: "string \<Rightarrow> bloom \<Rightarrow> (bool \<times> bloom) option" where
  "bf_TestAndAdd data f =
    (let idx = bf_indices data f in
     case testLocked idx f of None \<Rightarrow> None
     | Some present \<Rightarrow> (case bf_addLocked idx f of None \<Rightarrow> None | Some f' \<Rightarrow> Some (present, f')))"

text \<open>The argument of \<open>Merge\<close> is \<open>None\<close> when it is the receiver itself.\<close>

definition bf_Merge :: "bloom option \<Rightarrow> bloom \<Rightarrow> bloom_error option \<times> bloom option" where
  "bf_Merge other f =
    (case other of
       None \<Rightarrow> (None, Some f)
     | Some p \<Rightarrow>
         if bf_m f \<noteq> bf_m p \<or> bf_k f \<noteq> bf_k p then (Some bloom_ErrIncompatible, Some f)
         else if length (bf_bits p) < length (bf_bits f) then (None, None)
         else (None, Some (f\<lparr>bf_bits := map (\<lambda>i. (bf_bits f ! i) OR (bf_bits p ! i)) [0..<length (bf_bits f)],
                             bf_n := bf_n f + bf_n p\<rparr>)))"

definition bf_Reset :: "bloom \<Rightarrow> bloom" where
  "bf_Reset f = f\<lparr>bf_bits := map (\<lambda>_. 0) (bf_bits f), bf_n := 0\<rparr>"

definition bf_N :: "bloom \<Rightarrow> 64 word" where
  "bf_N f = bf_n f"

subsection \<open>Words and bits\<close>

lemma word_of_bit_div: "word_of_bit i = unat i div 64"
  by (simp add: word_of_bit_def drop_bit_eq_div unat_div)

lemma mask_of_bit_push: "mask_of_bit i = push_bit (unat i mod 64) 1"
proof -
  have "i AND 63 = take_bit 6 i" by (simp add: take_bit_eq_mask mask_eq_exp_minus_1)
  then show ?thesis by (simp add: mask_of_bit_def take_bit_eq_mod unat_mod)
qed

lemma testLocked_spec:
  assumes "\<And>i. i \<in> set is \<Longrightarrow> unat i < 64 * length (bf_bits f)"
  shows "testLocked is f = Some (\<forall>i\<in>set is. unat i \<in> buf_ones (bf_bits f))"
  using assms
proof (induction "is")
  case (Cons i "is")
  have i: "unat i < 64 * length (bf_bits f)" using Cons.prems by simp
  then have "word_of_bit i < length (bf_bits f)" by (simp add: word_of_bit_div less_mult_imp_div_less mult.commute)
  moreover have "(bf_bits f ! word_of_bit i) AND mask_of_bit i = 0 \<longleftrightarrow> unat i \<notin> buf_ones (bf_bits f)"
    using i buf_test_bit [of "bf_bits f" "unat i"]
    by (auto simp: buf_test_def buf_ones_def word_of_bit_div mask_of_bit_push)
  ultimately show ?case using Cons by simp
qed simp

lemma set_bits_loop_spec:
  assumes "\<And>i. i \<in> set is \<Longrightarrow> unat i < 64 * length bs"
  shows "\<exists>bs'. set_bits_loop is bs = Some bs' \<and> length bs' = length bs
    \<and> buf_ones bs' = buf_ones bs \<union> unat ` set is"
  using assms
proof (induction "is" arbitrary: bs)
  case (Cons i "is")
  have i: "unat i < 64 * length bs" using Cons.prems by simp
  have "word_of_bit i < length bs" using i by (simp add: word_of_bit_div less_mult_imp_div_less mult.commute)
  moreover have "bs[word_of_bit i := (bs ! word_of_bit i) OR mask_of_bit i] = buf_set (unat i) bs"
    by (simp add: buf_set_def word_of_bit_div mask_of_bit_push)
  moreover obtain bs' where "set_bits_loop is (buf_set (unat i) bs) = Some bs'" "length bs' = length bs"
      "buf_ones bs' = buf_ones (buf_set (unat i) bs) \<union> unat ` set is"
    using Cons.IH [of "buf_set (unat i) bs"] Cons.prems by auto
  ultimately show ?case using i by (simp add: buf_ones_ops)
qed simp

subsection \<open>The filter as a set of index sets\<close>

definition bf_ok :: "bloom \<Rightarrow> bool" where
  "bf_ok f \<longleftrightarrow> bf_m f \<noteq> 0 \<and> bf_k f \<noteq> 0 \<and> length (bf_bits f) = (unat (bf_m f) + 63) div 64"

definition index_set :: "bloom \<Rightarrow> string \<Rightarrow> nat set" where
  "index_set f data = unat ` set (bf_indices data f)"

text \<open>\<open>f\<close> holds exactly the elements of \<open>S\<close>: its ones are the indices of \<open>S\<close> and nothing else.\<close>

definition bf_holds :: "bloom \<Rightarrow> string set \<Rightarrow> bool" where
  "bf_holds f S \<longleftrightarrow> bf_ok f \<and> buf_ones (bf_bits f) = (\<Union>d\<in>S. index_set f d)"

lemma bf_indices_bound:
  assumes "bf_ok f" and "i \<in> set (bf_indices data f)"
  shows "unat i < 64 * length (bf_bits f)"
proof -
  have "0 < bf_m f" using assms(1) by (simp add: bf_ok_def word_neq_0_conv)
  then have "i < bf_m f" using assms(2) by (auto simp: bf_indices_def Let_def split_beta intro: word_mod_less_divisor)
  then have "unat i < unat (bf_m f)" by (simp add: word_less_nat_alt)
  then show ?thesis using assms(1) by (simp add: bf_ok_def)
qed

lemma index_set_cong: "bf_m g = bf_m f \<Longrightarrow> bf_k g = bf_k f \<Longrightarrow> index_set g = index_set f"
  by (auto simp: index_set_def bf_indices_def fun_eq_iff)

lemma bf_Test_spec:
  assumes "bf_holds f S"
  shows "bf_Test data f = Some (index_set f data \<subseteq> (\<Union>d\<in>S. index_set f d))"
proof -
  have ok: "bf_ok f" using assms by (simp add: bf_holds_def)
  have "bf_Test data f = Some (\<forall>i\<in>set (bf_indices data f). unat i \<in> buf_ones (bf_bits f))"
    unfolding bf_Test_def by (rule testLocked_spec) (rule bf_indices_bound [OF ok])
  then show ?thesis using assms by (simp add: bf_holds_def index_set_def image_subset_iff)
qed

lemma bf_addLocked_spec:
  assumes "bf_holds f S"
  obtains f' where "bf_addLocked (bf_indices data f) f = Some f'" "bf_holds f' (insert data S)"
    "bf_m f' = bf_m f" "bf_k f' = bf_k f" "bf_n f' = bf_n f + 1"
proof -
  have ok: "bf_ok f" using assms by (simp add: bf_holds_def)
  obtain bs where bs: "set_bits_loop (bf_indices data f) (bf_bits f) = Some bs" "length bs = length (bf_bits f)"
      "buf_ones bs = buf_ones (bf_bits f) \<union> index_set f data"
    using set_bits_loop_spec [of "bf_indices data f" "bf_bits f"] bf_indices_bound [OF ok] by (auto simp: index_set_def)
  let ?f = "f\<lparr>bf_bits := bs, bf_n := bf_n f + 1\<rparr>"
  have "index_set ?f = index_set f" by (rule index_set_cong) simp_all
  then have "bf_holds ?f (insert data S)" using assms bs by (auto simp: bf_holds_def bf_ok_def)
  moreover have "bf_addLocked (bf_indices data f) f = Some ?f" using bs(1) by (simp add: bf_addLocked_def)
  ultimately show ?thesis by (intro that [of ?f]) simp_all
qed

lemma bf_Merge_spec:
  assumes "bf_holds f S" and "bf_holds p T" and "bf_m f = bf_m p" and "bf_k f = bf_k p"
  obtains f' where "bf_Merge (Some p) f = (None, Some f')" "bf_holds f' (S \<union> T)"
    "bf_m f' = bf_m f" "bf_k f' = bf_k f" "bf_n f' = bf_n f + bf_n p"
proof -
  have len: "length (bf_bits p) = length (bf_bits f)" using assms by (simp add: bf_holds_def bf_ok_def)
  let ?bs = "map (\<lambda>i. (bf_bits f ! i) OR (bf_bits p ! i)) [0..<length (bf_bits f)]"
  have "?bs = map2 (OR) (bf_bits f) (take (length (bf_bits f)) (bf_bits p)) @ drop (length (bf_bits f)) (bf_bits p)"
    by (rule nth_equalityI) (simp_all add: len)
  then have ones: "buf_ones ?bs = buf_ones (bf_bits f) \<union> buf_ones (bf_bits p)"
    using buf_ones_or [of "bf_bits f" "bf_bits p"] len by simp
  let ?f = "f\<lparr>bf_bits := ?bs, bf_n := bf_n f + bf_n p\<rparr>"
  have same: "index_set ?f = index_set f" "index_set p = index_set f"
    by (rule index_set_cong; simp add: assms)+
  have "bf_holds ?f (S \<union> T)"
    using assms(1,2) same ones by (simp add: bf_holds_def bf_ok_def UN_Un)
  moreover have "bf_Merge (Some p) f = (None, Some ?f)" using assms len by (simp add: bf_Merge_def)
  ultimately show ?thesis by (intro that [of ?f]) simp_all
qed

lemma bf_Reset_spec: "bf_holds f S \<Longrightarrow> bf_holds (bf_Reset f) {}"
  by (simp add: bf_holds_def bf_Reset_def bf_ok_def buf_ones_ops(3) map_replicate_const)

lemma NewFromParams_spec:
  assumes "m \<noteq> 0" and "unat m + 63 < 2 ^ 64"
  obtains f where "NewFromParams m k = Some f" "bf_holds f {}"
proof -
  have "unat (m + 63) = unat m + 63" using assms(2) by (simp add: unat_word_ariths)
  then have "unat ((m + 63) div 64) = (unat m + 63) div 64" by (simp add: unat_div)
  with assms(1) show ?thesis
    by (intro that) (auto simp: NewFromParams_def Let_def bf_holds_def bf_ok_def buf_ones_ops(3) split: if_splits)
qed

subsection \<open>Properties\<close>

text \<open>A history of a filter: what was put in since the last \<open>Reset\<close> is tracked beside it.\<close>

datatype bloom_op = BAdd string | BTestAndAdd string | BMerge bloom "string set" | BReset

fun bloom_do :: "bloom_op \<Rightarrow> bloom \<times> string set \<Rightarrow> (bloom \<times> string set) option" where
  "bloom_do (BAdd d) (f, S) = map_option (\<lambda>f'. (f', insert d S)) (bf_Add d f)"
| "bloom_do (BTestAndAdd d) (f, S) = map_option (\<lambda>(_, f'). (f', insert d S)) (bf_TestAndAdd d f)"
| "bloom_do (BMerge p T) (f, S) =
    (case bf_Merge (Some p) f of
       (Some e, Some f') \<Rightarrow> Some (f', S) | (None, Some f') \<Rightarrow> Some (f', S \<union> T) | (_, None) \<Rightarrow> None)"
| "bloom_do BReset (f, S) = Some (bf_Reset f, {})"

fun bloom_run :: "bloom_op list \<Rightarrow> bloom \<times> string set \<Rightarrow> (bloom \<times> string set) option" where
  "bloom_run [] s = Some s"
| "bloom_run (x # xs) s = (case bloom_do x s of None \<Rightarrow> None | Some s' \<Rightarrow> bloom_run xs s')"

definition bloom_args_ok :: "bloom_op \<Rightarrow> bool" where
  "bloom_args_ok x \<longleftrightarrow> (\<forall>p T. x = BMerge p T \<longrightarrow> bf_holds p T)"

lemma bloom_do_holds:
  assumes "bf_holds f S" and "bloom_args_ok x"
  shows "\<exists>f' S'. bloom_do x (f, S) = Some (f', S') \<and> bf_holds f' S'"
proof (cases x)
  case (BAdd d)
  then show ?thesis using bf_addLocked_spec [OF assms(1), of d] by (auto simp: bf_Add_def)
next
  case (BTestAndAdd d)
  obtain f' where f': "bf_addLocked (bf_indices d f) f = Some f'" "bf_holds f' (insert d S)"
    using bf_addLocked_spec [OF assms(1), of d] by metis
  obtain b where "testLocked (bf_indices d f) f = Some b"
    using bf_Test_spec [OF assms(1)] unfolding bf_Test_def by blast
  with f' have "bloom_do x (f, S) = Some (f', insert d S)" by (simp add: BTestAndAdd bf_TestAndAdd_def Let_def)
  with f'(2) show ?thesis by blast
next
  case (BMerge p T)
  then have p: "bf_holds p T" using assms(2) by (simp add: bloom_args_ok_def)
  show ?thesis
  proof (cases "bf_m f = bf_m p \<and> bf_k f = bf_k p")
    case True
    then obtain f' where "bf_Merge (Some p) f = (None, Some f')" "bf_holds f' (S \<union> T)"
      using bf_Merge_spec [OF assms(1) p] by metis
    then show ?thesis by (simp add: BMerge)
  next
    case False
    then have "bf_Merge (Some p) f = (Some bloom_ErrIncompatible, Some f)" by (auto simp: bf_Merge_def)
    then show ?thesis using assms(1) by (simp add: BMerge)
  qed
next
  case BReset
  then show ?thesis using bf_Reset_spec [OF assms(1)] by simp
qed

lemma bloom_run_holds:
  "bf_holds f S \<Longrightarrow> list_all bloom_args_ok xs \<Longrightarrow> \<exists>f' S'. bloom_run xs (f, S) = Some (f', S') \<and> bf_holds f' S'"
proof (induction xs arbitrary: f S)
  case (Cons x xs)
  from bloom_do_holds [of f S x] Cons.prems obtain g T where "bloom_do x (f, S) = Some (g, T)" "bf_holds g T" by auto
  with Cons.IH [of g T] Cons.prems show ?case by simp
qed simp

text \<open>
  A Bloom filter has no false negatives and its positives are exactly the collisions.  For a
  filter of at most \<open>2^64 - 64\<close> bits, no sequence of \<open>Add\<close>, \<open>TestAndAdd\<close>, \<open>Merge\<close> and \<open>Reset\<close> panics;
  afterwards \<open>Test\<close> answers \<open>true\<close> for an element if and only if every one of its \<open>k\<close> bit positions
  is a position of some element added, or merged in, since the last \<open>Reset\<close>.  In particular
  \<open>Test\<close> is \<open>true\<close> for each of those elements.
\<close>
lemma bloom_no_false_negatives:
  assumes "m \<noteq> 0" and "unat m + 63 < 2 ^ 64" and "list_all bloom_args_ok ops"
  shows "\<exists>f0 f S. NewFromParams m k = Some f0 \<and> bloom_run ops (f0, {}) = Some (f, S)
    \<and> (\<forall>data. bf_Test data f = Some (index_set f data \<subseteq> (\<Union>d\<in>S. index_set f d)))
    \<and> (\<forall>data\<in>S. bf_Test data f = Some True)"
proof -
  obtain f0 where f0: "NewFromParams m k = Some f0" "bf_holds f0 {}"
    using NewFromParams_spec [OF assms(1,2)] by metis
  obtain f S where f: "bloom_run ops (f0, {}) = Some (f, S)" "bf_holds f S"
    using bloom_run_holds [OF f0(2) assms(3)] by blast
  have t: "bf_Test data f = Some (index_set f data \<subseteq> (\<Union>d\<in>S. index_set f d))" for data
    by (rule bf_Test_spec [OF f(2)])
  have "bf_Test data f = Some True" if "data \<in> S" for data using that t [of data] by auto
  with f0(1) f(1) t show ?thesis by blast
qed

text \<open>Above that size the word count wraps to zero: the filter is built, and the first \<open>Add\<close> panics.\<close>

lemma bloom_size_wraps:
  "NewFromParams (2 ^ 64 - 1) k = Some f \<Longrightarrow> bf_bits f = []"
  by (auto simp: NewFromParams_def Let_def)

end
