(* ===== verification/Countmin.thy ===== *)
theory Countmin
  imports Hashing
begin

section \<open>Count-min sketches (countmin/countmin.go)\<close>

text \<open>
  A sketch is \<open>d\<close> rows of \<open>w\<close> 64-bit counters.  \<open>New\<close> keeps \<open>w\<close> and \<open>d\<close> as \<open>uint32\<close> and allocates
  rows of the untruncated sizes; counters wrap.  A division by zero or an index out of range panics,
  which is \<open>None\<close>.  The package takes no locks, so a sketch has one writer.  \<open>NewForError\<close> computes
  sizes with \<open>math.Log\<close> and is not modelled.
\<close>

record countmin =
  cm_w :: "32 word"
  cm_d :: "32 word"
  cm_counts :: "64 word list list"
  cm_total :: "64 word"

datatype countmin_error = countmin_ErrIncompatible

definition cm_New :: "64 word \<Rightarrow> 64 word \<Rightarrow> countmin" where
  "cm_New width depth =
    (let width = (if width = 0 then 2048 else width); depth = (if depth = 0 then 5 else depth) in
     \<lparr>cm_w = ucast width, cm_d = ucast depth, cm_counts = replicate (unat depth) (replicate (unat width) 0), cm_total = 0\<rparr>)"

definition splitmix64 :: "64 word \<Rightarrow> 64 word" where
  "splitmix64 x =
    (let x = x + 0x9E3779B97F4A7C15;
         x = (x XOR drop_bit 30 x) * 0xBF58476D1CE4E5B9;
         x = (x XOR drop_bit 27 x) * 0x94D049BB133111EB in
     x XOR drop_bit 31 x)"

definition cm_doubleHash :: "string \<Rightarrow> 64 word \<times> 64 word" where
  "cm_doubleHash data =
    (let h1 = splitmix64 (fnv64a data); h2 = splitmix64 (fnv64 data) in (h1, if h2 = 0 then 1 else h2))"

definition cm_index :: "string \<Rightarrow> 32 word \<Rightarrow> nat \<Rightarrow> nat" where
  "cm_index data w i = (let (h1, h2) = cm_doubleHash data in unat ((h1 + of_nat i * h2) mod ucast w))"

fun cm_add_loop :: "string \<Rightarrow> 64 word \<Rightarrow> 32 word \<Rightarrow> nat list \<Rightarrow> 64 word list list \<Rightarrow> 64 word list list option" where
  "cm_add_loop data cnt w [] rows = Some rows"
| "cm_add_loop data cnt w (i # is) rows =
    (if w = 0 \<or> length rows \<le> i \<or> length (rows ! i) \<le> cm_index data w i then None
     else let idx = cm_index data w i in
       cm_add_loop data cnt w is (rows[i := (rows ! i)[idx := rows ! i ! idx + cnt]]))"

definition cm_Add :: "string \<Rightarrow> 64 word \<Rightarrow> countmin \<Rightarrow> countmin option" where
  "cm_Add data cnt c =
    (case cm_add_loop data cnt (cm_w c) [0..<unat (cm_d c)] (cm_counts c) of
       None \<Rightarrow> None | Some rows \<Rightarrow> Some (c\<lparr>cm_counts := rows, cm_total := cm_total c + cnt\<rparr>))"

definition cm_AddString :: "string \<Rightarrow> countmin \<Rightarrow> countmin option" where
  "cm_AddString s c = cm_Add s 1 c"

fun cm_min_loop :: "string \<Rightarrow> countmin \<Rightarrow> nat list \<Rightarrow> 64 word \<Rightarrow> 64 word option" where
  "cm_min_loop data c [] mn = Some mn"
| "cm_min_loop data c (i # is) mn =
    (if cm_w c = 0 \<or> length (cm_counts c) \<le> i \<or> length (cm_counts c ! i) \<le> cm_index data (cm_w c) i then None
     else let v = cm_counts c ! i ! cm_index data (cm_w c) i in
       cm_min_loop data c is (if v < mn then v else mn))"

definition Estimate :: "string \<Rightarrow> countmin \<Rightarrow> 64 word option" where
  "Estimate data c = cm_min_loop data c [0..<unat (cm_d c)] (NOT 0)"

definition cm_Total :: "countmin \<Rightarrow> 64 word" where
  "cm_Total c = cm_total c"

definition cm_Reset :: "countmin \<Rightarrow> countmin" where
  "cm_Reset c = c\<lparr>cm_counts := map (map (\<lambda>_. 0)) (cm_counts c), cm_total := 0\<rparr>"

text \<open>
  \<open>Merge\<close> adds cell by cell over the other sketch's rows.  The shapes agree when both sketches were
  built with the same sizes; a shorter receiver would panic.
\<close>

definition cm_Merge :: "countmin \<Rightarrow> countmin \<Rightarrow> (countmin_error + countmin) option" where
  "cm_Merge p c =
    (if cm_w c \<noteq> cm_w p \<or> cm_d c \<noteq> cm_d p then Some (Inl countmin_ErrIncompatible)
     else if length (cm_counts c) < length (cm_counts p)
        \<or> \<not> list_all (\<lambda>i. length (cm_counts p ! i) \<le> length (cm_counts c ! i)) [0..<length (cm_counts p)] then None
     else Some (Inr (c\<lparr>cm_counts := map (\<lambda>i. map (\<lambda>j. if i < length (cm_counts p) \<and> j < length (cm_counts p ! i)
                                                     then cm_counts c ! i ! j + cm_counts p ! i ! j else cm_counts c ! i ! j)
                                                  [0..<length (cm_counts c ! i)]) [0..<length (cm_counts c)],
                       cm_total := cm_total c + cm_total p\<rparr>)))"

subsection \<open>The counters of a stream\<close>

text \<open>The mass a stream of weighted events puts into one cell, on one element, and altogether.\<close>

type_synonym weighted = "(string \<times> 64 word) list"

definition mass :: "weighted \<Rightarrow> nat" where
  "mass evs = (\<Sum>e\<leftarrow>evs. unat (snd e))"

definition cell_evs :: "32 word \<Rightarrow> nat \<Rightarrow> nat \<Rightarrow> weighted \<Rightarrow> weighted" where
  "cell_evs w i j evs = filter (\<lambda>e. cm_index (fst e) w i = j) evs"

definition true_count :: "string \<Rightarrow> weighted \<Rightarrow> nat" where
  "true_count data evs = mass (filter (\<lambda>e. fst e = data) evs)"

lemma mass_simps [simp]: "mass [] = 0" "mass (e # es) = unat (snd e) + mass es" "mass (es @ fs) = mass es + mass fs"
  by (simp_all add: mass_def)

lemma mass_filter_le: "mass (filter P es) \<le> mass es"
  by (induction es) auto

lemma mass_filter_mono: "(\<And>e. P e \<Longrightarrow> Q e) \<Longrightarrow> mass (filter P es) \<le> mass (filter Q es)"
proof (induction es)
  case (Cons e es)
  then show ?case by (cases "P e"; cases "Q e") auto
qed simp

definition cm_ok :: "countmin \<Rightarrow> bool" where
  "cm_ok c \<longleftrightarrow> cm_w c \<noteq> 0 \<and> cm_d c \<noteq> 0 \<and> length (cm_counts c) = unat (cm_d c)
    \<and> (\<forall>i<length (cm_counts c). length (cm_counts c ! i) = unat (cm_w c))"

definition cm_tracks :: "weighted \<Rightarrow> countmin \<Rightarrow> bool" where
  "cm_tracks evs c \<longleftrightarrow> cm_ok c
    \<and> (\<forall>i<unat (cm_d c). \<forall>j<unat (cm_w c). cm_counts c ! i ! j = of_nat (mass (cell_evs (cm_w c) i j evs)))
    \<and> cm_total c = of_nat (mass evs)"

lemma unat_lt2p32: "unat (w :: 32 word) < 2 ^ 32"
  using unsigned_less [of w, where 'a = nat] by simp

lemma cm_index_bound: "w \<noteq> 0 \<Longrightarrow> cm_index data w i < unat w"
proof -
  assume w: "w \<noteq> 0"
  have u: "unat (ucast w :: 64 word) = unat w"     using unat_lt2p32 [of w] by (simp add: unsigned_ucast_eq take_bit_nat_eq_self)
  have "(ucast w :: 64 word) \<noteq> 0" using w u by (metis unat_eq_zero)
  then have "(h mod ucast w :: 64 word) < ucast w" for h by (simp add: word_mod_less_divisor word_neq_0_conv)
  then show ?thesis by (simp add: cm_index_def split_beta word_less_nat_alt u)
qed

lemma cm_add_loop_spec:
  assumes "w \<noteq> 0" and "distinct is" and "\<And>i. i \<in> set is \<Longrightarrow> i < length rows"
    and "\<And>i. i < length rows \<Longrightarrow> length (rows ! i) = unat w"
  shows "\<exists>rows'. cm_add_loop data cnt w is rows = Some rows' \<and> length rows' = length rows
    \<and> (\<forall>i<length rows. length (rows' ! i) = unat w
        \<and> (\<forall>j<unat w. rows' ! i ! j = rows ! i ! j + (if i \<in> set is \<and> cm_index data w i = j then cnt else 0)))"
  using assms
proof (induction "is" arbitrary: rows)
  case (Cons i "is")
  let ?x = "cm_index data w i"
  let ?rows = "rows[i := (rows ! i)[?x := rows ! i ! ?x + cnt]]"
  have i: "i < length rows" "i \<notin> set is" "distinct is" using Cons.prems by auto
  have x: "?x < unat w" "length (rows ! i) = unat w" using cm_index_bound [OF Cons.prems(1)] Cons.prems(4) i by auto
  have shape: "length (?rows ! k) = unat w" if "k < length ?rows" for k
    using that Cons.prems(4) x by (cases "k = i") auto
  obtain rows' where r: "cm_add_loop data cnt w is ?rows = Some rows'" "length rows' = length rows"
    "\<forall>k<length rows. length (rows' ! k) = unat w
        \<and> (\<forall>j<unat w. rows' ! k ! j = ?rows ! k ! j + (if k \<in> set is \<and> cm_index data w k = j then cnt else 0))"
    using Cons.IH [OF Cons.prems(1) i(3) _ shape] Cons.prems(3) by auto
  have "?rows ! k ! j + (if k \<in> set is \<and> cm_index data w k = j then cnt else 0)
      = rows ! k ! j + (if k \<in> set (i # is) \<and> cm_index data w k = j then cnt else 0)"
    if "k < length rows" "j < unat w" for k j
    using that i x by (cases "k = i"; cases "j = ?x") auto
  then show ?case using r i x Cons.prems(1) by (intro exI [of _ rows']) (simp add: Let_def)
qed simp

lemma cm_Add_tracks:
  assumes "cm_tracks evs c"
  obtains c' where "cm_Add data cnt c = Some c'" "cm_tracks (evs @ [(data, cnt)]) c'" "cm_w c' = cm_w c" "cm_d c' = cm_d c"
proof -
  have ok: "cm_ok c" using assms by (simp add: cm_tracks_def)
  then obtain rows where r: "cm_add_loop data cnt (cm_w c) [0..<unat (cm_d c)] (cm_counts c) = Some rows"
    "length rows = unat (cm_d c)"
    "\<forall>i<unat (cm_d c). length (rows ! i) = unat (cm_w c)
        \<and> (\<forall>j<unat (cm_w c). rows ! i ! j = cm_counts c ! i ! j + (if cm_index data (cm_w c) i = j then cnt else 0))"
    using cm_add_loop_spec [of "cm_w c" "[0..<unat (cm_d c)]" "cm_counts c" data cnt] by (auto simp: cm_ok_def)
  let ?c = "c\<lparr>cm_counts := rows, cm_total := cm_total c + cnt\<rparr>"
  have "cm_tracks (evs @ [(data, cnt)]) ?c"
    using assms ok r by (auto simp: cm_tracks_def cm_ok_def cell_evs_def)
  moreover have "cm_Add data cnt c = Some ?c" using r(1) by (simp add: cm_Add_def)
  ultimately show ?thesis by (intro that [of ?c]) simp_all
qed

lemma cm_Reset_tracks: "cm_tracks evs c \<Longrightarrow> cm_tracks [] (cm_Reset c)"
  by (simp add: cm_tracks_def cm_ok_def cm_Reset_def cell_evs_def)

lemma cm_Merge_tracks:
  assumes "cm_tracks evs c" and "cm_tracks evs' p" and "cm_w c = cm_w p" and "cm_d c = cm_d p"
  obtains c' where "cm_Merge p c = Some (Inr c')" "cm_tracks (evs @ evs') c'" "cm_w c' = cm_w c" "cm_d c' = cm_d c"
proof -
  have ok: "cm_ok c" "cm_ok p" using assms by (simp_all add: cm_tracks_def)
  let ?rows = "map (\<lambda>i. map (\<lambda>j. if i < length (cm_counts p) \<and> j < length (cm_counts p ! i)
                                 then cm_counts c ! i ! j + cm_counts p ! i ! j else cm_counts c ! i ! j)
                              [0..<length (cm_counts c ! i)]) [0..<length (cm_counts c)]"
  let ?c = "c\<lparr>cm_counts := ?rows, cm_total := cm_total c + cm_total p\<rparr>"
  have "cm_Merge p c = Some (Inr ?c)"
    using ok assms(3,4) by (auto simp: cm_Merge_def cm_ok_def list_all_iff)
  moreover have "cm_tracks (evs @ evs') ?c"
    using assms ok by (auto simp: cm_tracks_def cm_ok_def cell_evs_def)
  ultimately show ?thesis by (intro that [of ?c]) simp_all
qed

lemma cm_New_tracks:
  assumes "unat width < 2 ^ 32" and "unat depth < 2 ^ 32"
  shows "cm_tracks [] (cm_New width depth)"
proof -
  have u: "unat (ucast x :: 32 word) = unat x" if "unat x < 2 ^ 32" for x :: "64 word"
    using that by (simp add: unsigned_ucast_eq take_bit_nat_eq_self)
  let ?w = "if width = 0 then 2048 else width" and ?d = "if depth = 0 then 5 else depth"
  have "unat (ucast ?w :: 32 word) = unat ?w" "unat (ucast ?d :: 32 word) = unat ?d"
    by (rule u, use assms in simp)+
  moreover have "unat ?w \<noteq> 0" "unat ?d \<noteq> 0" by (simp_all add: unat_eq_zero)
  ultimately show ?thesis
    by (auto simp: cm_New_def Let_def cm_tracks_def cm_ok_def cell_evs_def unat_eq_0 simp del: unat_eq_zero)
qed

subsection \<open>Estimates\<close>

lemma cm_min_loop_spec:
  assumes "\<And>i. i \<in> set is \<Longrightarrow> cm_w c \<noteq> 0 \<and> i < length (cm_counts c) \<and> cm_index data (cm_w c) i < length (cm_counts c ! i)"
  shows "\<exists>e. cm_min_loop data c is mn = Some e \<and> e \<le> mn
    \<and> (\<forall>i\<in>set is. e \<le> cm_counts c ! i ! cm_index data (cm_w c) i)
    \<and> (e = mn \<or> (\<exists>i\<in>set is. e = cm_counts c ! i ! cm_index data (cm_w c) i))"
  using assms
proof (induction "is" arbitrary: mn)
  case (Cons i "is")
  let ?v = "cm_counts c ! i ! cm_index data (cm_w c) i"
  let ?mn = "if ?v < mn then ?v else mn"
  obtain e where "cm_min_loop data c is ?mn = Some e" "e \<le> ?mn"
    "\<forall>k\<in>set is. e \<le> cm_counts c ! k ! cm_index data (cm_w c) k"
    "e = ?mn \<or> (\<exists>k\<in>set is. e = cm_counts c ! k ! cm_index data (cm_w c) k)"
    using Cons.IH [of ?mn] Cons.prems by auto
  moreover have "?mn \<le> mn" "?mn \<le> ?v" by auto
  ultimately show ?case using Cons.prems [of i] by (intro exI [of _ e]) (auto simp: Let_def split: if_splits)
qed simp

text \<open>The mass of the other elements that share the cell of \<open>data\<close> in row \<open>i\<close>.\<close>

definition collisions :: "string \<Rightarrow> 32 word \<Rightarrow> nat \<Rightarrow> weighted \<Rightarrow> nat" where
  "collisions data w i evs = mass (filter (\<lambda>e. fst e \<noteq> data \<and> cm_index (fst e) w i = cm_index data w i) evs)"

lemma cell_mass: "mass (cell_evs w i (cm_index data w i) evs) = true_count data evs + collisions data w i evs"
  unfolding cell_evs_def true_count_def collisions_def by (induction evs) auto

lemma cm_Estimate_spec:
  assumes "cm_tracks evs c" and "mass evs < 2 ^ 64"
  obtains e where "Estimate data c = Some e"
    "unat e = true_count data evs + Min ((\<lambda>i. collisions data (cm_w c) i evs) ` {..<unat (cm_d c)})"
proof -
  have ok: "cm_ok c" using assms by (simp add: cm_tracks_def)
  let ?v = "\<lambda>i. cm_counts c ! i ! cm_index data (cm_w c) i"
  let ?col = "\<lambda>i. collisions data (cm_w c) i evs"
  have d: "0 < unat (cm_d c)" using ok by (simp add: cm_ok_def unat_gt_0)
  have v: "unat (?v i) = true_count data evs + ?col i" if "i < unat (cm_d c)" for i
  proof -
    have "?v i = of_nat (mass (cell_evs (cm_w c) i (cm_index data (cm_w c) i) evs))"
      using assms(1) that ok cm_index_bound [of "cm_w c" data i] by (simp add: cm_tracks_def cm_ok_def)
    moreover have "mass (cell_evs (cm_w c) i (cm_index data (cm_w c) i) evs) < 2 ^ 64"
      unfolding cell_evs_def using mass_filter_le assms(2) by (rule le_less_trans)
    ultimately show ?thesis by (simp only: cell_mass) (simp add: unat_of_nat take_bit_nat_eq_self del: of_nat_add)
  qed
  have "i \<in> set [0..<unat (cm_d c)] \<Longrightarrow>
      cm_w c \<noteq> 0 \<and> i < length (cm_counts c) \<and> cm_index data (cm_w c) i < length (cm_counts c ! i)" for i
    using ok cm_index_bound [of "cm_w c" data i] by (simp add: cm_ok_def)
  then have "\<exists>e. cm_min_loop data c [0..<unat (cm_d c)] (NOT 0) = Some e \<and> e \<le> NOT 0
    \<and> (\<forall>i\<in>set [0..<unat (cm_d c)]. e \<le> ?v i) \<and> (e = NOT 0 \<or> (\<exists>i\<in>set [0..<unat (cm_d c)]. e = ?v i))"
    by (rule cm_min_loop_spec)
  then
  obtain e where e: "Estimate data c = Some e" "\<forall>i<unat (cm_d c). e \<le> ?v i"
    "e = NOT 0 \<or> (\<exists>i<unat (cm_d c). e = ?v i)"    unfolding Estimate_def by (metis atLeastLessThan_iff le0 set_upt)
  from e(2,3) d obtain k where k: "k < unat (cm_d c)" "e = ?v k"
  proof (cases "e = NOT 0")
    case True
    have "?v 0 \<le> NOT 0" by simp
    with e(2) d True have "e = ?v 0" by (metis order.antisym)
    with d that show thesis by blast
  qed (use e(3) that in blast)
  have "Min (?col ` {..<unat (cm_d c)}) = ?col k"
  proof (rule Min_eqI)
    fix y assume "y \<in> ?col ` {..<unat (cm_d c)}"
    then obtain i where i: "i < unat (cm_d c)" "y = ?col i" by auto
    have "unat (?v k) \<le> unat (?v i)" using e(2) k i(1) by (metis word_le_nat_alt)
    then show "?col k \<le> y" using v k(1) i by simp
  qed (use k in auto)
  with e(1) k v [OF k(1)] show ?thesis by (intro that [of e]) simp_all
qed

lemma true_plus_collisions: "true_count data evs + collisions data w i evs \<le> mass evs"
  unfolding cell_mass [symmetric] cell_evs_def by (rule mass_filter_le)

subsection \<open>Properties\<close>

datatype cm_op = CAdd string "64 word" | CMerge countmin weighted | CReset

fun cm_do :: "cm_op \<Rightarrow> countmin \<times> weighted \<Rightarrow> (countmin \<times> weighted) option" where
  "cm_do (CAdd data cnt) (c, evs) = map_option (\<lambda>c'. (c', evs @ [(data, cnt)])) (cm_Add data cnt c)"
| "cm_do (CMerge p evs') (c, evs) =
    (case cm_Merge p c of None \<Rightarrow> None | Some (Inl _) \<Rightarrow> Some (c, evs) | Some (Inr c') \<Rightarrow> Some (c', evs @ evs'))"
| "cm_do CReset (c, evs) = Some (cm_Reset c, [])"

fun cm_run :: "cm_op list \<Rightarrow> countmin \<times> weighted \<Rightarrow> (countmin \<times> weighted) option" where
  "cm_run [] s = Some s"
| "cm_run (x # xs) s = (case cm_do x s of None \<Rightarrow> None | Some s' \<Rightarrow> cm_run xs s')"

definition cm_args_ok :: "cm_op \<Rightarrow> bool" where
  "cm_args_ok x \<longleftrightarrow> (\<forall>p evs. x = CMerge p evs \<longrightarrow> cm_tracks evs p)"

lemma cm_do_tracks:
  assumes "cm_tracks evs c" and "cm_args_ok x"
  shows "\<exists>c' evs'. cm_do x (c, evs) = Some (c', evs') \<and> cm_tracks evs' c' \<and> cm_w c' = cm_w c \<and> cm_d c' = cm_d c"
proof (cases x)
  case (CAdd data cnt)
  obtain c' where "cm_Add data cnt c = Some c'" "cm_tracks (evs @ [(data, cnt)]) c'" "cm_w c' = cm_w c" "cm_d c' = cm_d c"
    by (rule cm_Add_tracks [OF assms(1)])
  then show ?thesis by (simp add: CAdd)
next
  case (CMerge p evs')
  then have p: "cm_tracks evs' p" using assms(2) by (simp add: cm_args_ok_def)
  show ?thesis
  proof (cases "cm_w c = cm_w p \<and> cm_d c = cm_d p")
    case True
    then obtain c' where "cm_Merge p c = Some (Inr c')" "cm_tracks (evs @ evs') c'" "cm_w c' = cm_w c" "cm_d c' = cm_d c"
      using cm_Merge_tracks [OF assms(1) p] by metis
    then show ?thesis by (simp add: CMerge)
  next
    case False
    then have "cm_Merge p c = Some (Inl countmin_ErrIncompatible)" by (auto simp: cm_Merge_def)
    then show ?thesis using assms(1) by (simp add: CMerge)
  qed
next
  case CReset
  then show ?thesis using cm_Reset_tracks [OF assms(1)] by (simp add: cm_Reset_def)
qed

lemma cm_run_tracks:
  "cm_tracks evs c \<Longrightarrow> list_all cm_args_ok xs \<Longrightarrow>
   \<exists>c' evs'. cm_run xs (c, evs) = Some (c', evs') \<and> cm_tracks evs' c' \<and> cm_w c' = cm_w c \<and> cm_d c' = cm_d c"
proof (induction xs arbitrary: c evs)
  case (Cons x xs)
  from cm_do_tracks [of evs c x] Cons.prems
  obtain c1 evs1 where "cm_do x (c, evs) = Some (c1, evs1)" "cm_tracks evs1 c1" "cm_w c1 = cm_w c" "cm_d c1 = cm_d c" by auto
  with Cons.IH [of evs1 c1] Cons.prems show ?case by simp
qed simp

text \<open>
  A count-min sketch never under-counts.  For sizes below \<open>2^32\<close> no sequence of \<open>Add\<close>,
  \<open>Merge\<close> and \<open>Reset\<close> panics, and as long as the counts since the last \<open>Reset\<close> sum to less than
  \<open>2^64\<close>, \<open>Estimate\<close> of an element returns its true count plus the smallest, over the rows, of the
  mass of other elements in its cell; \<open>Total\<close> is the whole mass, which bounds every estimate.
\<close>
lemma countmin_estimate:
  assumes "unat width < 2 ^ 32" and "unat depth < 2 ^ 32" and "list_all cm_args_ok ops"
  shows "\<exists>c evs. cm_run ops (cm_New width depth, []) = Some (c, evs)
    \<and> (mass evs < 2 ^ 64 \<longrightarrow> unat (cm_Total c) = mass evs
        \<and> (\<forall>data. \<exists>e. Estimate data c = Some e
            \<and> unat e = true_count data evs + Min ((\<lambda>i. collisions data (cm_w c) i evs) ` {..<unat (cm_d c)})
            \<and> true_count data evs \<le> unat e \<and> unat e \<le> mass evs))"
proof -
  obtain c evs where c: "cm_run ops (cm_New width depth, []) = Some (c, evs)" "cm_tracks evs c"
    using cm_run_tracks [OF cm_New_tracks [OF assms(1,2)] assms(3)] by blast
  have "\<exists>e. Estimate data c = Some e
            \<and> unat e = true_count data evs + Min ((\<lambda>i. collisions data (cm_w c) i evs) ` {..<unat (cm_d c)})
            \<and> true_count data evs \<le> unat e \<and> unat e \<le> mass evs" if "mass evs < 2 ^ 64" for data
  proof -
    let ?cols = "(\<lambda>i. collisions data (cm_w c) i evs) ` {..<unat (cm_d c)}"
    have "0 < unat (cm_d c)" using c(2) by (simp add: cm_tracks_def cm_ok_def unat_gt_0)
    then have "Min ?cols \<in> ?cols" by (intro Min_in) auto
    then have "true_count data evs + Min ?cols \<le> mass evs" using true_plus_collisions by auto
    then show ?thesis using cm_Estimate_spec [OF c(2) that, of data] by (metis le_add1)
  qed
  moreover have "unat (cm_Total c) = mass evs" if "mass evs < 2 ^ 64"
    using c(2) that by (simp add: cm_tracks_def cm_Total_def unat_of_nat take_bit_nat_eq_self)
  ultimately show ?thesis using c(1) by blast
qed

text \<open>A width of \<open>2^32\<close> is truncated to zero and the first \<open>Add\<close> divides by it.\<close>

lemma countmin_width_truncates: "depth = 1 \<Longrightarrow> cm_Add data cnt (cm_New (2 ^ 32) depth) = None"
  by (simp add: cm_Add_def cm_New_def)

end
