(* ===== verification/Bimap.thy ===== *)
theory Bimap
  imports Prelude "HOL-Library.AList"
begin

section \<open>Bidirectional maps (bimap/bimap.go)\<close>

text \<open>
  Two Go maps, read as association lists: \<open>forward\<close> from keys to values and \<open>reverse\<close> from values to
  keys.  The list order stands for the iteration order, about which nothing is assumed.  The
  invariant says that each is the inverse of the other, which is the one-to-one promise.
\<close>

record ('k, 'v) bimap =
  bm_forward :: "('k \<times> 'v) list"
  bm_reverse :: "('v \<times> 'k) list"

datatype bimap_error = ErrDuplicateKey | ErrDuplicateValue

definition bimap_New :: "('k, 'v) bimap" where
  "bimap_New = \<lparr>bm_forward = [], bm_reverse = []\<rparr>"

definition bm_Insert :: "'k \<Rightarrow> 'v \<Rightarrow> ('k, 'v) bimap \<Rightarrow> bimap_error option \<times> ('k, 'v) bimap" where
  "bm_Insert k v b =
    (if map_of (bm_forward b) k \<noteq> None then (Some ErrDuplicateKey, b)
     else if map_of (bm_reverse b) v \<noteq> None then (Some ErrDuplicateValue, b)
     else (None, b\<lparr>bm_forward := AList.update k v (bm_forward b), bm_reverse := AList.update v k (bm_reverse b)\<rparr>))"

text \<open>\<open>MustInsert\<close> panics on an error, which is \<open>None\<close>.\<close>

definition bm_MustInsert :: "'k \<Rightarrow> 'v \<Rightarrow> ('k, 'v) bimap \<Rightarrow> ('k, 'v) bimap option" where
  "bm_MustInsert k v b = (case bm_Insert k v b of (Some _, _) \<Rightarrow> None | (None, b') \<Rightarrow> Some b')"

fun from_map_loop :: "('k \<times> 'v) list \<Rightarrow> ('k, 'v) bimap \<Rightarrow> bimap_error + ('k, 'v) bimap" where
  "from_map_loop [] b = Inr b"
| "from_map_loop ((k, v) # kvs) b =
    (case bm_Insert k v b of (Some e, _) \<Rightarrow> Inl e | (None, b') \<Rightarrow> from_map_loop kvs b')"

definition FromMap :: "('k \<times> 'v) list \<Rightarrow> bimap_error + ('k, 'v) bimap" where
  "FromMap m = from_map_loop m bimap_New"

definition bm_Get :: "'k \<Rightarrow> ('k, 'v) bimap \<Rightarrow> 'v option" where
  "bm_Get k b = map_of (bm_forward b) k"

definition bm_GetKey :: "'v \<Rightarrow> ('k, 'v) bimap \<Rightarrow> 'k option" where
  "bm_GetKey v b = map_of (bm_reverse b) v"

definition bm_HasKey :: "'k \<Rightarrow> ('k, 'v) bimap \<Rightarrow> bool" where
  "bm_HasKey k b \<longleftrightarrow> map_of (bm_forward b) k \<noteq> None"

definition bm_HasValue :: "'v \<Rightarrow> ('k, 'v) bimap \<Rightarrow> bool" where
  "bm_HasValue v b \<longleftrightarrow> map_of (bm_reverse b) v \<noteq> None"

definition bm_Delete :: "'k \<Rightarrow> ('k, 'v) bimap \<Rightarrow> bool \<times> ('k, 'v) bimap" where
  "bm_Delete k b =
    (case map_of (bm_forward b) k of
       None \<Rightarrow> (False, b)
     | Some v \<Rightarrow> (True, b\<lparr>bm_forward := AList.delete k (bm_forward b), bm_reverse := AList.delete v (bm_reverse b)\<rparr>))"

definition bm_DeleteValue :: "'v \<Rightarrow> ('k, 'v) bimap \<Rightarrow> bool \<times> ('k, 'v) bimap" where
  "bm_DeleteValue v b =
    (case map_of (bm_reverse b) v of
       None \<Rightarrow> (False, b)
     | Some k \<Rightarrow> (True, b\<lparr>bm_reverse := AList.delete v (bm_reverse b), bm_forward := AList.delete k (bm_forward b)\<rparr>))"

definition bm_Len :: "('k, 'v) bimap \<Rightarrow> nat" where
  "bm_Len b = length (bm_forward b)"

definition bm_Keys :: "('k, 'v) bimap \<Rightarrow> 'k list" where
  "bm_Keys b = map fst (bm_forward b)"

definition bm_Values :: "('k, 'v) bimap \<Rightarrow> 'v list" where
  "bm_Values b = map fst (bm_reverse b)"

definition bm_Clear :: "('k, 'v) bimap \<Rightarrow> ('k, 'v) bimap" where
  "bm_Clear b = b\<lparr>bm_forward := [], bm_reverse := []\<rparr>"

subsection \<open>Both directions agree\<close>

definition bm_ok :: "('k, 'v) bimap \<Rightarrow> bool" where
  "bm_ok b \<longleftrightarrow> distinct (map fst (bm_forward b)) \<and> distinct (map fst (bm_reverse b))
    \<and> (\<forall>k v. map_of (bm_forward b) k = Some v \<longleftrightarrow> map_of (bm_reverse b) v = Some k)"

lemma bm_ok_iff: "bm_ok b \<Longrightarrow> bm_Get k b = Some v \<longleftrightarrow> bm_GetKey v b = Some k"
  by (simp add: bm_ok_def bm_Get_def bm_GetKey_def)

lemma bm_ok_New: "bm_ok bimap_New"
  by (simp add: bm_ok_def bimap_New_def)

lemma bm_ok_Insert:
  assumes "bm_ok b"
  shows "bm_ok (snd (bm_Insert k v b))"
proof (cases "map_of (bm_forward b) k = None \<and> map_of (bm_reverse b) v = None")
  case True
  note iff = assms [unfolded bm_ok_def, THEN conjunct2, THEN conjunct2]
  have "map_of (bm_forward b) k' \<noteq> Some v" "map_of (bm_reverse b) v' \<noteq> Some k" for k' v'
    using True iff by (metis option.distinct(1))+
  then show ?thesis
    using True assms by (auto simp: bm_Insert_def bm_ok_def distinct_update update_conv')
qed (use assms in \<open>auto simp: bm_Insert_def\<close>)

lemma bm_ok_remove:
  assumes "bm_ok b" and "map_of (bm_forward b) k = Some v"
  shows "bm_ok (b\<lparr>bm_forward := AList.delete k (bm_forward b), bm_reverse := AList.delete v (bm_reverse b)\<rparr>)"
proof -
  have "map_of (bm_forward b) k' = Some v \<Longrightarrow> k' = k" "map_of (bm_reverse b) v' = Some k \<Longrightarrow> v' = v" for k' v'
    using assms unfolding bm_ok_def by (metis option.inject)+
  moreover have "map_of (bm_forward b) k' = Some v' \<longleftrightarrow> map_of (bm_reverse b) v' = Some k'" for k' v'
    using assms(1) unfolding bm_ok_def by blast
  ultimately have "((map_of (bm_forward b))(k := None)) k' = Some v' \<longleftrightarrow> ((map_of (bm_reverse b))(v := None)) v' = Some k'" for k' v'
    by (metis fun_upd_apply option.distinct(1))
  then show ?thesis
    using assms(1) unfolding bm_ok_def by (simp add: distinct_delete delete_conv' del: map_of_eq_Some_iff fun_upd_apply)
qed

lemma bm_ok_Delete: "bm_ok b \<Longrightarrow> bm_ok (snd (bm_Delete k b))"
  by (auto simp: bm_Delete_def bm_ok_remove split: option.splits)

lemma bm_DeleteValue_Delete:
  assumes "bm_ok b"
  shows "bm_DeleteValue v b = (case bm_GetKey v b of None \<Rightarrow> (False, b) | Some k \<Rightarrow> bm_Delete k b)"
proof (cases "bm_GetKey v b")
  case (Some k)
  then have "map_of (bm_forward b) k = Some v" using bm_ok_iff [OF assms, of k v] by (simp add: bm_Get_def)
  with Some show ?thesis by (simp add: bm_DeleteValue_def bm_GetKey_def bm_Delete_def)
qed (simp add: bm_DeleteValue_def bm_GetKey_def)

lemma bm_ok_DeleteValue: "bm_ok b \<Longrightarrow> bm_ok (snd (bm_DeleteValue v b))"
  by (simp add: bm_DeleteValue_Delete bm_ok_Delete split: option.splits)

lemma bm_Get_Delete:
  "bm_Get k' (snd (bm_Delete k b)) = (if k' = k then None else bm_Get k' b)"
  by (auto simp: bm_Delete_def bm_Get_def delete_conv' split: option.splits)

lemma bm_Get_Insert:
  "fst (bm_Insert k v b) = None \<Longrightarrow> bm_Get k' (snd (bm_Insert k v b)) = (if k' = k then Some v else bm_Get k' b)"
  by (auto simp: bm_Insert_def bm_Get_def update_conv' split: if_splits)

lemma bm_Len_Values:
  assumes "bm_ok b"
  shows "length (bm_Values b) = bm_Len b"
proof -
  let ?inv = "\<lambda>k. the (map_of (bm_forward b) k)"
  have k: "distinct (map fst (bm_forward b))" "distinct (map fst (bm_reverse b))" using assms by (simp_all add: bm_ok_def)
  have dom: "set (map fst (bm_forward b)) = dom (map_of (bm_forward b))"
    "set (map fst (bm_reverse b)) = dom (map_of (bm_reverse b))" by (simp_all add: dom_map_of_conv_image_fst)
  have "bij_betw ?inv (dom (map_of (bm_forward b))) (dom (map_of (bm_reverse b)))"
  proof (rule bij_betwI')
    fix k1 k2 assume "k1 \<in> dom (map_of (bm_forward b))" "k2 \<in> dom (map_of (bm_forward b))"
    then obtain v1 v2 where v: "map_of (bm_forward b) k1 = Some v1" "map_of (bm_forward b) k2 = Some v2" by blast
    then have "map_of (bm_reverse b) v1 = Some k1" "map_of (bm_reverse b) v2 = Some k2"
      using assms unfolding bm_ok_def by blast+
    with v show "(?inv k1 = ?inv k2) = (k1 = k2)" by (cases "v1 = v2") auto
  next
    fix k assume "k \<in> dom (map_of (bm_forward b))"
    then show "?inv k \<in> dom (map_of (bm_reverse b))" using assms by (auto simp: bm_ok_def)
  next
    fix v assume "v \<in> dom (map_of (bm_reverse b))"
    then obtain k where "map_of (bm_forward b) k = Some v" using assms by (auto simp: bm_ok_def)
    then show "\<exists>k\<in>dom (map_of (bm_forward b)). v = ?inv k" by (intro bexI [of _ k]) auto
  qed
  then have "card (set (map fst (bm_forward b))) = card (set (map fst (bm_reverse b)))"
    unfolding dom by (rule bij_betw_same_card)
  then show ?thesis using k by (simp add: distinct_card bm_Values_def bm_Len_def del: set_map)
qed

subsection \<open>Building from a map\<close>

lemma bm_Insert_fresh:
  assumes "bm_ok b" and "k \<notin> set (bm_Keys b)"
  shows "fst (bm_Insert k v b) = (if v \<in> snd ` set (bm_forward b) then Some ErrDuplicateValue else None)"
proof -
  have f: "map_of (bm_forward b) k = None" using assms(2) by (simp add: bm_Keys_def map_of_eq_None_iff)
  have "v \<in> snd ` set (bm_forward b) \<longleftrightarrow> map_of (bm_reverse b) v \<noteq> None"
  proof -
    have "v \<in> snd ` set (bm_forward b) \<longleftrightarrow> (\<exists>k. map_of (bm_forward b) k = Some v)"
      using assms(1) by (force simp: bm_ok_def map_of_eq_Some_iff)
    then show ?thesis using assms(1) by (auto simp: bm_ok_def)
  qed
  with f show ?thesis by (simp add: bm_Insert_def)
qed

lemma bm_forward_Insert:
  "fst (bm_Insert k v b) = None \<Longrightarrow> bm_forward (snd (bm_Insert k v b)) = bm_forward b @ [(k, v)]"
proof -
  assume "fst (bm_Insert k v b) = None"
  then have "map_of (bm_forward b) k = None" "bm_forward (snd (bm_Insert k v b)) = AList.update k v (bm_forward b)"
    by (auto simp: bm_Insert_def split: if_splits)
  moreover have "map_of xs k = None \<Longrightarrow> AList.update k v xs = xs @ [(k, v)]" for xs :: "('a \<times> 'b) list"
    by (induction xs) (auto split: if_splits)
  ultimately show ?thesis by simp
qed

lemma from_map_loop_spec:
  assumes "bm_ok b" and "distinct (map fst (bm_forward b @ m))" and "distinct (map snd (bm_forward b))"
  shows "if distinct (map snd (bm_forward b @ m))
    then \<exists>b'. from_map_loop m b = Inr b' \<and> bm_ok b' \<and> bm_forward b' = bm_forward b @ m
    else from_map_loop m b = Inl ErrDuplicateValue"
  using assms
proof (induction m arbitrary: b)
  case (Cons kv m)
  obtain k v where kv: "kv = (k, v)" by (cases kv)
  have fresh: "k \<notin> set (bm_Keys b)" using Cons.prems(2) by (auto simp: kv bm_Keys_def)
  show ?case
  proof (cases "v \<in> snd ` set (bm_forward b)")
    case True
    then have "fst (bm_Insert k v b) = Some ErrDuplicateValue" using bm_Insert_fresh [OF Cons.prems(1) fresh] by simp
    then show ?thesis using True by (auto simp: kv split: prod.splits)
  next
    case False
    then have ok: "fst (bm_Insert k v b) = None" using bm_Insert_fresh [OF Cons.prems(1) fresh] by simp
    let ?b = "snd (bm_Insert k v b)"
    have fwd: "bm_forward ?b = bm_forward b @ [kv]" using bm_forward_Insert [OF ok] by (simp add: kv)
    have step: "from_map_loop (kv # m) b = from_map_loop m ?b" using ok by (cases "bm_Insert k v b") (simp add: kv)
    have "distinct (map snd (bm_forward ?b))" using False Cons.prems(3) by (simp add: fwd kv)
    then show ?thesis
      using Cons.IH [OF bm_ok_Insert [OF Cons.prems(1), of k v]] Cons.prems(2)
      unfolding step fwd append_assoc append_Cons append_Nil by blast
  qed
qed simp

lemma FromMap_spec:
  assumes "distinct (map fst m)"
  shows "if distinct (map snd m) then \<exists>b. FromMap m = Inr b \<and> bm_ok b \<and> (\<forall>k. bm_Get k b = map_of m k)
    else FromMap m = Inl ErrDuplicateValue"
  using from_map_loop_spec [OF bm_ok_New, of m] assms
  by (auto simp: FromMap_def bm_Get_def bimap_New_def split: if_splits)

text \<open>
  A bidirectional map is one-to-one after every operation: looking up by key and by value are
  inverse to each other, \<open>Insert\<close> fails exactly when the key or the value is taken and otherwise adds
  the pair and nothing else, both deletions remove the pair from both directions, the two views have
  the same length, and \<open>FromMap\<close> succeeds exactly when no value repeats, in whatever order the map
  is visited.
\<close>
lemma bimap_one_to_one:
  assumes "bm_ok b"
  shows "(bm_Get k b = Some v \<longleftrightarrow> bm_GetKey v b = Some k) \<and> length (bm_Values b) = bm_Len b \<and> bm_ok (bm_Clear b)
    \<and> bm_ok (snd (bm_Insert k v b)) \<and> bm_ok (snd (bm_Delete k b)) \<and> bm_ok (snd (bm_DeleteValue v b))
    \<and> (fst (bm_Insert k v b) = None \<longleftrightarrow> \<not> bm_HasKey k b \<and> \<not> bm_HasValue v b)
    \<and> (fst (bm_Insert k v b) = None \<longrightarrow>
         bm_Get k' (snd (bm_Insert k v b)) = (if k' = k then Some v else bm_Get k' b))
    \<and> bm_Get k' (snd (bm_Delete k b)) = (if k' = k then None else bm_Get k' b)
    \<and> bm_DeleteValue v b = (case bm_GetKey v b of None \<Rightarrow> (False, b) | Some k \<Rightarrow> bm_Delete k b)
    \<and> (distinct (map fst m) \<longrightarrow> ((\<exists>b'. FromMap m = Inr b') \<longleftrightarrow> distinct (map snd m)))"
proof -
  have clear: "bm_ok (bm_Clear b)" by (simp add: bm_ok_def bm_Clear_def)
  have ins: "fst (bm_Insert k v b) = None \<longleftrightarrow> \<not> bm_HasKey k b \<and> \<not> bm_HasValue v b"
    by (simp add: bm_Insert_def bm_HasKey_def bm_HasValue_def)
  have from_map: "distinct (map fst m) \<longrightarrow> ((\<exists>b'. FromMap m = Inr b') \<longleftrightarrow> distinct (map snd m))"
    using FromMap_spec [of m] by (auto split: if_splits)
  show ?thesis
    using clear ins from_map bm_Get_Insert bm_ok_iff [OF assms] bm_Len_Values [OF assms]
    by (intro conjI impI bm_ok_Insert bm_ok_Delete bm_ok_DeleteValue bm_Get_Delete bm_DeleteValue_Delete bm_Get_Insert assms)
      simp_all
qed

end
