(* ===== verification/Featureflag.thy ===== *)
theory Featureflag
  imports Hashing
begin

section \<open>Feature flags (featureflag/featureflag.go)\<close>

text \<open>
  A flag with its switches.  \<open>notBefore\<close> is \<open>None\<close> for the zero time; the wall clock is the argument
  \<open>now\<close> of \<open>Enabled\<close>.  Options are functions on the flag, applied in order by \<open>New\<close>.  The rollout
  hash is written as the inlined loop of the source and proved to be the FNV-1a of the standard
  library, which the source pins by a test.
\<close>

record flag =
  ff_enabled :: bool
  ff_percentage :: "64 word"
  ff_allowlist :: "string list"
  ff_notBefore :: "int option"

definition clamp_percentage :: "64 word \<Rightarrow> 64 word" where
  "clamp_percentage p = (if 100 < p then 100 else p)"

definition WithPercentage :: "64 word \<Rightarrow> flag \<Rightarrow> flag" where
  "WithPercentage p f = f\<lparr>ff_percentage := clamp_percentage p\<rparr>"

definition ff_Allow :: "string list \<Rightarrow> flag \<Rightarrow> flag" where
  "ff_Allow ks f = f\<lparr>ff_allowlist := fold List.insert ks (ff_allowlist f)\<rparr>"

definition WithAllowlist :: "string list \<Rightarrow> flag \<Rightarrow> flag" where
  "WithAllowlist ks f = f\<lparr>ff_allowlist := fold List.insert ks (ff_allowlist f)\<rparr>"

definition WithStartTime :: "int option \<Rightarrow> flag \<Rightarrow> flag" where
  "WithStartTime t f = f\<lparr>ff_notBefore := t\<rparr>"

definition WithEnabled :: "bool \<Rightarrow> flag \<Rightarrow> flag" where
  "WithEnabled on f = f\<lparr>ff_enabled := on\<rparr>"

definition flag_New :: "(flag \<Rightarrow> flag) list \<Rightarrow> flag" where
  "flag_New opts =
    fold (\<lambda>opt f. opt f) opts \<lparr>ff_enabled = False, ff_percentage = 100, ff_allowlist = [], ff_notBefore = None\<rparr>"

definition fnv32aOffsetBasis :: "32 word" where "fnv32aOffsetBasis = 2166136261"
definition fnv32aPrime :: "32 word" where "fnv32aPrime = 16777619"

fun hash_loop :: "string \<Rightarrow> 32 word \<Rightarrow> 32 word" where
  "hash_loop [] h = h"
| "hash_loop (c # cs) h = hash_loop cs ((h XOR of_char c) * fnv32aPrime)"

definition hashPercent :: "string \<Rightarrow> 64 word" where
  "hashPercent key = ucast (hash_loop key fnv32aOffsetBasis mod 100)"

definition ff_Enabled :: "int \<Rightarrow> string \<Rightarrow> flag \<Rightarrow> bool" where
  "ff_Enabled now key f =
    (if \<not> ff_enabled f then False
     else if (case ff_notBefore f of None \<Rightarrow> False | Some t \<Rightarrow> now < t) then False
     else if key \<in> set (ff_allowlist f) then True
     else if 100 \<le> ff_percentage f then True
     else if ff_percentage f = 0 then False
     else hashPercent key < ff_percentage f)"

definition Enable :: "flag \<Rightarrow> flag" where
  "Enable f = f\<lparr>ff_enabled := True\<rparr>"

definition Disable :: "flag \<Rightarrow> flag" where
  "Disable f = f\<lparr>ff_enabled := False\<rparr>"

definition SetPercentage :: "64 word \<Rightarrow> flag \<Rightarrow> flag" where
  "SetPercentage p f = f\<lparr>ff_percentage := clamp_percentage p\<rparr>"

definition Revoke :: "string list \<Rightarrow> flag \<Rightarrow> flag" where
  "Revoke ks f = f\<lparr>ff_allowlist := fold removeAll ks (ff_allowlist f)\<rparr>"

subsection \<open>The rollout hash\<close>

lemma hash_loop_fnv: "hash_loop key h = foldl (\<lambda>h c. (h XOR of_char c) * fnv32_prime) h key"
  by (induction key arbitrary: h) (simp_all add: fnv32aPrime_def fnv32_prime_def)

lemma hashPercent_fnv32a: "hashPercent key = ucast (fnv32a key mod 100)"
  by (simp add: hashPercent_def hash_loop_fnv fnv32a_def fnv32aOffsetBasis_def fnv32_offset_def)

lemma unat_hashPercent: "unat (hashPercent key) = unat (fnv32a key) mod 100"
proof -
  have lt: "unat (fnv32a key) mod 100 < 2 ^ 64" by (rule less_trans [of _ 100]) simp_all
  have "unat (hashPercent key) = take_bit 64 (unat (fnv32a key mod 100))"
    by (simp add: hashPercent_fnv32a unsigned_ucast_eq)
  also have "\<dots> = unat (fnv32a key) mod 100"
    using lt by (simp add: unat_mod take_bit_nat_eq_self)
  finally show ?thesis .
qed

lemma hashPercent_less: "hashPercent key < 100"
  by (simp add: word_less_nat_alt unat_hashPercent)

lemma ff_allowlist_ops:
  "set (ff_allowlist (ff_Allow ks f)) = set (ff_allowlist f) \<union> set ks"
  "set (ff_allowlist (Revoke ks f)) = set (ff_allowlist f) - set ks"
proof -
  have "set (fold List.insert ks xs) = set xs \<union> set ks" for xs
    by (induction ks arbitrary: xs) auto
  then show "set (ff_allowlist (ff_Allow ks f)) = set (ff_allowlist f) \<union> set ks" by (simp add: ff_Allow_def)
  have "set (fold removeAll ks xs) = set xs - set ks" for xs
    by (induction ks arbitrary: xs) auto
  then show "set (ff_allowlist (Revoke ks f)) = set (ff_allowlist f) - set ks" by (simp add: Revoke_def)
qed

definition open_at :: "int \<Rightarrow> flag \<Rightarrow> bool" where
  "open_at now f \<longleftrightarrow> ff_enabled f \<and> (\<forall>t. ff_notBefore f = Some t \<longrightarrow> t \<le> now)"

lemma ff_Enabled_spec:
  "ff_Enabled now key f \<longleftrightarrow> open_at now f \<and> (key \<in> set (ff_allowlist f) \<or> hashPercent key < ff_percentage f)"
  using hashPercent_less [of key]
  by (auto simp: ff_Enabled_def open_at_def split: option.splits)

text \<open>
  The staged evaluation of \<open>Enabled\<close> is one condition: the flag is on, its start time has
  passed, and the key is allow-listed or its FNV-1a hash modulo 100 is below the percentage.  So a
  rollout is deterministic and monotone: raising the percentage never switches a key off, at 0 only
  the allow list is on and at 100 or more every key is, before and after clamping; \<open>Allow\<close> and
  \<open>Revoke\<close> act on the listed keys only, and \<open>Disable\<close> wins over everything.
\<close>
lemma rollout_monotone:
  "(ff_Enabled now key f \<longleftrightarrow>
      open_at now f \<and> (key \<in> set (ff_allowlist f) \<or> unat (fnv32a key) mod 100 < unat (ff_percentage f)))
   \<and> (p \<le> q \<longrightarrow> ff_Enabled now key (SetPercentage p f) \<longrightarrow> ff_Enabled now key (SetPercentage q f))
   \<and> (ff_Enabled now key (SetPercentage 0 f) \<longleftrightarrow> open_at now f \<and> key \<in> set (ff_allowlist f))
   \<and> (100 \<le> p \<longrightarrow> (ff_Enabled now key (SetPercentage p f) \<longleftrightarrow> open_at now f))
   \<and> (key \<notin> set ks \<longrightarrow> ff_Enabled now key (ff_Allow ks f) = ff_Enabled now key f
        \<and> ff_Enabled now key (Revoke ks f) = ff_Enabled now key f)
   \<and> (key \<in> set ks \<longrightarrow> (ff_Enabled now key (ff_Allow ks f) \<longleftrightarrow> open_at now f))
   \<and> \<not> ff_Enabled now key (Disable f)"
proof -
  have hash: "hashPercent key < w \<longleftrightarrow> unat (fnv32a key) mod 100 < unat w" for w
    by (simp add: word_less_nat_alt unat_hashPercent)
  have gate: "open_at now (SetPercentage p f) = open_at now f" "open_at now (ff_Allow ks f) = open_at now f"
    "open_at now (Revoke ks f) = open_at now f" for p
    by (simp_all add: open_at_def SetPercentage_def ff_Allow_def Revoke_def)
  have pct: "ff_percentage (SetPercentage p f) = clamp_percentage p" "ff_allowlist (SetPercentage p f) = ff_allowlist f" for p
    by (simp_all add: SetPercentage_def)
  have keep: "ff_percentage (ff_Allow ks f) = ff_percentage f" "ff_percentage (Revoke ks f) = ff_percentage f"
    by (simp_all add: ff_Allow_def Revoke_def)
  have mono: "hashPercent key < clamp_percentage p \<Longrightarrow> p \<le> q \<Longrightarrow> hashPercent key < clamp_percentage q"
    using hashPercent_less [of key] by (auto simp: clamp_percentage_def split: if_splits intro: less_le_trans)
  have full: "100 \<le> p \<Longrightarrow> hashPercent key < clamp_percentage p"
    using hashPercent_less [of key] by (auto simp: clamp_percentage_def intro: less_le_trans)
  have zero: "\<not> hashPercent key < clamp_percentage 0" by (simp add: clamp_percentage_def)
  have "\<not> ff_Enabled now key (Disable f)" by (simp add: ff_Enabled_def Disable_def)
  then show ?thesis
    using mono full zero
    by (simp add: ff_Enabled_spec gate pct keep ff_allowlist_ops flip: hash) blast
qed

end
