(* ===== verification/Semaphore.thy ===== *)
theory Semaphore
  imports Prelude
begin

section \<open>Weighted semaphores (semaphore/semaphore.go)\<close>

text \<open>
  Permits are tokens in a buffered channel; \<open>len(ch)\<close> is the number of free ones.  Each call is a
  program counter that moves by atomic steps: a channel operation, taking or releasing \<open>wmu\<close>, reading
  \<open>len(ch)\<close>.  \<open>sem_moves\<close> lists the possible next moves of a call, so that the choice of a \<open>select\<close> with
  several ready cases is the choice of a list element and a blocked call has no move.  The unlock that
  ends a critical section is part of its last move.  Whether the caller's context is done is an
  argument of each move.
\<close>

record semaphore =
  sem_tokens :: nat
  sem_cap :: nat
  sem_closed :: bool
  sem_wmu :: "nat option"

datatype sem_error = sem_ErrClosed | sem_ErrCtx | sem_ErrExceeds

datatype sem_pc =
    Idle
  | Acquired nat | AcquireFailed sem_error
  | Unit1 | Unit2
  | WLock nat | WCheck nat | WTake nat nat | WWait nat | WPutBack nat
  | TryUnit | TryLock nat | TryCheck nat | TryTake nat nat | TryFailed
  | RelCheck nat | RelSend nat | Released nat | RelPanic

definition sem_New :: "int \<Rightarrow> semaphore option" where
  "sem_New capacity =
    (if capacity \<le> 0 then None
     else Some \<lparr>sem_tokens = nat capacity, sem_cap = nat capacity, sem_closed = False, sem_wmu = None\<rparr>)"

definition at_least_one :: "int \<Rightarrow> nat" where
  "at_least_one n = (if n \<le> 0 then 1 else nat n)"

text \<open>The entry of each method, up to its first access to shared state.\<close>

definition sem_Acquire :: "int \<Rightarrow> semaphore \<Rightarrow> sem_pc" where
  "sem_Acquire n s =
    (let n = at_least_one n in
     if sem_cap s < n then AcquireFailed sem_ErrExceeds else if n = 1 then Unit1 else WLock n)"

definition sem_TryAcquire :: "int \<Rightarrow> semaphore \<Rightarrow> sem_pc" where
  "sem_TryAcquire n s =
    (let n = at_least_one n in
     if sem_cap s < n then TryFailed else if n = 1 then TryUnit else TryLock n)"

definition sem_Release :: "int \<Rightarrow> sem_pc" where
  "sem_Release n = RelCheck (at_least_one n)"

definition sem_Close :: "semaphore \<Rightarrow> semaphore" where
  "sem_Close s = s\<lparr>sem_closed := True\<rparr>"

definition sem_Available :: "semaphore \<Rightarrow> nat" where
  "sem_Available s = sem_tokens s"

definition take_token :: "semaphore \<Rightarrow> semaphore" where
  "take_token s = s\<lparr>sem_tokens := sem_tokens s - 1\<rparr>"

definition put_token :: "semaphore \<Rightarrow> semaphore" where
  "put_token s = s\<lparr>sem_tokens := sem_tokens s + 1\<rparr>"

definition on :: "bool \<Rightarrow> 'a list \<Rightarrow> 'a list" where
  "on b xs = (if b then xs else [])"

text \<open>\<open>takeLocked\<close>: one receive per move, the last one ends the critical section.\<close>

definition takeLocked :: "(nat \<Rightarrow> sem_pc) \<Rightarrow> sem_pc \<Rightarrow> nat \<Rightarrow> semaphore \<Rightarrow> (sem_pc \<times> semaphore) list" where
  "takeLocked again finished left s =
    on (0 < sem_tokens s)
      [if left \<le> 1 then (finished, (take_token s)\<lparr>sem_wmu := None\<rparr>) else (again (left - 1), take_token s)]"

fun sem_moves :: "bool \<Rightarrow> nat \<Rightarrow> sem_pc \<Rightarrow> semaphore \<Rightarrow> (sem_pc \<times> semaphore) list" where
  "sem_moves done t Unit1 s =
    on (0 < sem_tokens s) [(Acquired 1, take_token s)]
    @ on (sem_closed s) [(AcquireFailed sem_ErrClosed, s)]
    @ on (sem_tokens s = 0 \<and> \<not> sem_closed s) [(Unit2, s)]"
| "sem_moves done t Unit2 s =
    on (0 < sem_tokens s) [(Acquired 1, take_token s)]
    @ on (sem_closed s) [(AcquireFailed sem_ErrClosed, s)]
    @ on done [(AcquireFailed sem_ErrCtx, s)]"
| "sem_moves done t (WLock n) s = on (sem_wmu s = None) [(WCheck n, s\<lparr>sem_wmu := Some t\<rparr>)]"
| "sem_moves done t (WCheck n) s =
    (if n \<le> sem_tokens s then [(WTake n n, s)] else [(WWait n, s\<lparr>sem_wmu := None\<rparr>)])"
| "sem_moves done t (WTake n left) s = takeLocked (WTake n) (Acquired n) left s"
| "sem_moves done t (WWait n) s =
    on (0 < sem_tokens s) [(WPutBack n, take_token s)]
    @ on (sem_closed s) [(AcquireFailed sem_ErrClosed, s)]
    @ on done [(AcquireFailed sem_ErrCtx, s)]"
| "sem_moves done t (WPutBack n) s = on (sem_tokens s < sem_cap s) [(WLock n, put_token s)]"
| "sem_moves done t TryUnit s = (if 0 < sem_tokens s then [(Acquired 1, take_token s)] else [(TryFailed, s)])"
| "sem_moves done t (TryLock n) s = on (sem_wmu s = None) [(TryCheck n, s\<lparr>sem_wmu := Some t\<rparr>)]"
| "sem_moves done t (TryCheck n) s =
    (if sem_tokens s < n then [(TryFailed, s\<lparr>sem_wmu := None\<rparr>)] else [(TryTake n n, s)])"
| "sem_moves done t (TryTake n left) s = takeLocked (TryTake n) (Acquired n) left s"
| "sem_moves done t (RelCheck n) s = (if sem_closed s then [(Released n, s)] else [(RelSend n, s)])"
| "sem_moves done t (RelSend n) s =
    (if n = 0 then [(Released 0, s)]
     else if sem_tokens s < sem_cap s then [(RelSend (n - 1), put_token s)]
     else [(RelPanic, s)])"
| "sem_moves done t pc s = []"

subsection \<open>Threads\<close>

text \<open>
  A thread is a call in progress with the number of permits it holds.  Clients release only what
  they hold; beyond that they call what they like when they like.
\<close>

record sem_thread =
  th_pc :: sem_pc
  th_held :: nat

record sem_system =
  sys_sem :: semaphore
  sys_threads :: "sem_thread list"

text \<open>
  Finishing a call books its effect on the permits held: an acquisition adds them and a dropped
  release, after \<open>Close\<close>, gives them up.  A sent release gives up one permit per token.
\<close>

fun settle :: "sem_pc \<Rightarrow> nat \<Rightarrow> sem_thread" where
  "settle (Acquired n) held = \<lparr>th_pc = Idle, th_held = held + n\<rparr>"
| "settle (AcquireFailed e) held = \<lparr>th_pc = Idle, th_held = held\<rparr>"
| "settle TryFailed held = \<lparr>th_pc = Idle, th_held = held\<rparr>"
| "settle (Released n) held = \<lparr>th_pc = Idle, th_held = held - n\<rparr>"
| "settle pc held = \<lparr>th_pc = pc, th_held = held\<rparr>"

definition after_move :: "sem_pc \<Rightarrow> sem_pc \<Rightarrow> nat \<Rightarrow> sem_thread" where
  "after_move pc pc' held =
    (case (pc, pc') of (RelSend n, RelSend m) \<Rightarrow> \<lparr>th_pc = pc', th_held = held - 1\<rparr> | _ \<Rightarrow> settle pc' held)"

inductive sem_step :: "sem_system \<Rightarrow> sem_system \<Rightarrow> bool" where
  acquire: "i < length ths \<Longrightarrow> ths ! i = \<lparr>th_pc = Idle, th_held = h\<rparr> \<Longrightarrow>
    sem_step \<lparr>sys_sem = s, sys_threads = ths\<rparr> \<lparr>sys_sem = s, sys_threads = ths[i := settle (sem_Acquire n s) h]\<rparr>"
| try_acquire: "i < length ths \<Longrightarrow> ths ! i = \<lparr>th_pc = Idle, th_held = h\<rparr> \<Longrightarrow>
    sem_step \<lparr>sys_sem = s, sys_threads = ths\<rparr> \<lparr>sys_sem = s, sys_threads = ths[i := settle (sem_TryAcquire n s) h]\<rparr>"
| release: "i < length ths \<Longrightarrow> ths ! i = \<lparr>th_pc = Idle, th_held = h\<rparr> \<Longrightarrow> at_least_one n \<le> h \<Longrightarrow>
    sem_step \<lparr>sys_sem = s, sys_threads = ths\<rparr> \<lparr>sys_sem = s, sys_threads = ths[i := settle (sem_Release n) h]\<rparr>"
| close: "sem_step \<lparr>sys_sem = s, sys_threads = ths\<rparr> \<lparr>sys_sem = sem_Close s, sys_threads = ths\<rparr>"
| move: "i < length ths \<Longrightarrow> ths ! i = \<lparr>th_pc = pc, th_held = h\<rparr> \<Longrightarrow> (pc', s') \<in> set (sem_moves done i pc s) \<Longrightarrow>
    sem_step \<lparr>sys_sem = s, sys_threads = ths\<rparr> \<lparr>sys_sem = s', sys_threads = ths[i := after_move pc pc' h]\<rparr>"

definition sem_init :: "semaphore \<Rightarrow> nat \<Rightarrow> sem_system" where
  "sem_init s n = \<lparr>sys_sem = s, sys_threads = replicate n \<lparr>th_pc = Idle, th_held = 0\<rparr>\<rparr>"

subsection \<open>Conservation of permits\<close>

fun in_transit :: "sem_pc \<Rightarrow> nat" where
  "in_transit (WTake n left) = n - left"
| "in_transit (TryTake n left) = n - left"
| "in_transit (WPutBack n) = 1"
| "in_transit pc = 0"

definition weight :: "sem_thread \<Rightarrow> nat" where
  "weight th = th_held th + in_transit (th_pc th)"

fun in_section :: "sem_pc \<Rightarrow> bool" where
  "in_section (WCheck n) = True"
| "in_section (WTake n left) = True"
| "in_section (TryCheck n) = True"
| "in_section (TryTake n left) = True"
| "in_section pc = False"

fun pc_ok :: "nat \<Rightarrow> sem_pc \<Rightarrow> nat \<Rightarrow> bool" where
  "pc_ok c (WLock n) held \<longleftrightarrow> 0 < n \<and> n \<le> c"
| "pc_ok c (WCheck n) held \<longleftrightarrow> 0 < n \<and> n \<le> c"
| "pc_ok c (WTake n left) held \<longleftrightarrow> n \<le> c \<and> 0 < left \<and> left \<le> n"
| "pc_ok c (WWait n) held \<longleftrightarrow> 0 < n \<and> n \<le> c"
| "pc_ok c (WPutBack n) held \<longleftrightarrow> 0 < n \<and> n \<le> c"
| "pc_ok c (TryLock n) held \<longleftrightarrow> 0 < n \<and> n \<le> c"
| "pc_ok c (TryCheck n) held \<longleftrightarrow> 0 < n \<and> n \<le> c"
| "pc_ok c (TryTake n left) held \<longleftrightarrow> n \<le> c \<and> 0 < left \<and> left \<le> n"
| "pc_ok c (RelCheck n) held \<longleftrightarrow> n \<le> held"
| "pc_ok c (RelSend n) held \<longleftrightarrow> n \<le> held"
| "pc_ok c Idle held = True"
| "pc_ok c Unit1 held = True"
| "pc_ok c Unit2 held = True"
| "pc_ok c TryUnit held = True"
| "pc_ok c pc held = False"

lemmas sem_unfold = weight_def settle.simps after_move_def takeLocked_def take_token_def put_token_def on_def Let_def


lemma move_conserves:
  assumes "(pc', s') \<in> set (sem_moves dn i pc s)" and "pc_ok (sem_cap s) pc h"
    and "sem_tokens s + h + in_transit pc \<le> sem_cap s"
    and th_def: "th = after_move pc pc' h"
  shows "sem_cap s' = sem_cap s \<and> sem_closed s' = sem_closed s \<and> pc_ok (sem_cap s) (th_pc th) (th_held th)
    \<and> sem_tokens s' + weight th \<le> sem_tokens s + h + in_transit pc
    \<and> (\<not> sem_closed s \<longrightarrow> sem_tokens s' + weight th = sem_tokens s + h + in_transit pc)"
  using assms by (cases pc) (auto simp: sem_unfold split: if_splits)

lemma move_lock:
  assumes "(pc', s') \<in> set (sem_moves dn i pc s)" and "in_section pc \<longrightarrow> sem_wmu s = Some i"
    and th_def: "th = after_move pc pc' h"
  shows "if in_section (th_pc th) then sem_wmu s' = Some i \<and> (in_section pc \<or> sem_wmu s = None)
    else sem_wmu s' = (if in_section pc then None else sem_wmu s)"
  using assms by (cases pc) (auto simp: sem_unfold split: if_splits)

definition sem_inv :: "nat \<Rightarrow> sem_system \<Rightarrow> bool" where
  "sem_inv c sys \<longleftrightarrow>
    (let s = sys_sem sys; ths = sys_threads sys; outstanding = sum_list (map weight ths) in
     sem_cap s = c \<and> sem_tokens s + outstanding \<le> c \<and> (\<not> sem_closed s \<longrightarrow> sem_tokens s + outstanding = c)
     \<and> (\<forall>i<length ths. pc_ok c (th_pc (ths ! i)) (th_held (ths ! i)))
     \<and> (\<forall>i. sem_wmu s = Some i \<longleftrightarrow> i < length ths \<and> in_section (th_pc (ths ! i))))"

lemma entry_ok:
  "weight (settle (sem_Acquire n s) h) = h \<and> \<not> in_section (th_pc (settle (sem_Acquire n s) h))
    \<and> pc_ok (sem_cap s) (th_pc (settle (sem_Acquire n s) h)) (th_held (settle (sem_Acquire n s) h))"
  "weight (settle (sem_TryAcquire n s) h) = h \<and> \<not> in_section (th_pc (settle (sem_TryAcquire n s) h))
    \<and> pc_ok (sem_cap s) (th_pc (settle (sem_TryAcquire n s) h)) (th_held (settle (sem_TryAcquire n s) h))"
  "at_least_one n \<le> h \<Longrightarrow> weight (settle (sem_Release n) h) = h \<and> \<not> in_section (th_pc (settle (sem_Release n) h))
    \<and> pc_ok c (th_pc (settle (sem_Release n) h)) (th_held (settle (sem_Release n) h))"
  by (auto simp: sem_Acquire_def sem_TryAcquire_def sem_Release_def at_least_one_def weight_def Let_def)

text \<open>A thread that replaces its call keeps the invariant when the call does.\<close>

lemma sem_inv_update:
  assumes inv: "sem_inv c \<lparr>sys_sem = s, sys_threads = ths\<rparr>" and i: "i < length ths"
    and cap: "sem_cap s' = c" "sem_closed s' = sem_closed s"
    and ok: "pc_ok c (th_pc th) (th_held th)"
    and le: "sem_tokens s' + weight th \<le> sem_tokens s + weight (ths ! i)"
    and eq: "\<not> sem_closed s \<Longrightarrow> sem_tokens s' + weight th = sem_tokens s + weight (ths ! i)"
    and lock: "if in_section (th_pc th) then sem_wmu s' = Some i \<and> (in_section (th_pc (ths ! i)) \<or> sem_wmu s = None)
      else sem_wmu s' = (if in_section (th_pc (ths ! i)) then None else sem_wmu s)"
  shows "sem_inv c \<lparr>sys_sem = s', sys_threads = ths[i := th]\<rparr>"
proof -
  have sums: "sum_list (map weight (ths[i := th])) + weight (ths ! i) = sum_list (map weight ths) + weight th"
    by (rule sum_list_map_update [OF i])
  have wmu: "sem_wmu s = Some k \<longleftrightarrow> k < length ths \<and> in_section (th_pc (ths ! k))" for k
    using inv by (simp add: sem_inv_def Let_def)
  have "sem_wmu s' = Some k \<longleftrightarrow> k < length ths \<and> in_section (th_pc (ths[i := th] ! k))" for k
    using lock wmu [of k] wmu [of i] i by (cases "k = i") (auto split: if_splits)
  moreover have "k < length ths \<Longrightarrow> pc_ok c (th_pc (ths[i := th] ! k)) (th_held (ths[i := th] ! k))" for k
    using inv ok by (cases "k = i") (auto simp: sem_inv_def Let_def)
  moreover have "sem_tokens s + sum_list (map weight ths) \<le> c"
    "\<not> sem_closed s \<Longrightarrow> sem_tokens s + sum_list (map weight ths) = c"
    using inv by (auto simp: sem_inv_def Let_def)
  ultimately show ?thesis using sums le eq cap by (auto simp: sem_inv_def Let_def)
qed

lemma sem_inv_room:
  assumes "sem_inv c \<lparr>sys_sem = s, sys_threads = ths\<rparr>" and "i < length ths"
  shows "sem_tokens s + th_held (ths ! i) + in_transit (th_pc (ths ! i)) \<le> c"
  using assms sum_list_map_member [OF assms(2), of weight] by (auto simp: sem_inv_def Let_def weight_def)

lemma sem_step_inv: "sem_step a b \<Longrightarrow> sem_inv c a \<Longrightarrow> sem_inv c b"
proof (induction rule: sem_step.induct)
  case (acquire i ths h s n)
  then have "sem_cap s = c" by (simp add: sem_inv_def Let_def)
  with acquire entry_ok(1) [of n s h] show ?case by (intro sem_inv_update) (simp_all add: weight_def)
next
  case (try_acquire i ths h s n)
  then have "sem_cap s = c" by (simp add: sem_inv_def Let_def)
  with try_acquire entry_ok(2) [of n s h] show ?case by (intro sem_inv_update) (simp_all add: weight_def)
next
  case (release i ths h n s)
  then have "sem_cap s = c" by (simp add: sem_inv_def Let_def)
  with release entry_ok(3) [of n h c] show ?case by (intro sem_inv_update) (simp_all add: weight_def)
next
  case (close s ths)
  then show ?case by (simp add: sem_inv_def Let_def sem_Close_def)
next
  case (move i ths pc h pc' s' dn s)
  have facts: "sem_cap s = c" "pc_ok c pc h" "in_section pc \<longrightarrow> sem_wmu s = Some i"
    using move by (auto simp: sem_inv_def Let_def)
  have "sem_tokens s + h + in_transit pc \<le> c" using sem_inv_room [OF move(4,1)] move(2) by simp
  with facts move_conserves [OF move(3), of h "after_move pc pc' h"]
  have c: "sem_cap s' = c" "sem_closed s' = sem_closed s"
    "pc_ok c (th_pc (after_move pc pc' h)) (th_held (after_move pc pc' h))"
    "sem_tokens s' + weight (after_move pc pc' h) \<le> sem_tokens s + (h + in_transit pc)"
    "\<not> sem_closed s \<Longrightarrow> sem_tokens s' + weight (after_move pc pc' h) = sem_tokens s + (h + in_transit pc)"
    by (simp_all add: add.assoc)
  have i: "th_pc (ths ! i) = pc" "weight (ths ! i) = h + in_transit pc" using move(2) by (simp_all add: weight_def)
  show ?case
    by (rule sem_inv_update [OF move(4,1)])
      (unfold i, rule c, rule c, rule c, rule c, erule c, rule move_lock [OF move(3) facts(3) refl])
qed

lemma sem_init_inv: "sem_New capacity = Some s \<Longrightarrow> sem_inv (nat capacity) (sem_init s n)"
  by (auto simp: sem_New_def sem_inv_def sem_init_def Let_def weight_def sum_list_replicate split: if_splits)

lemma sem_reach_inv: "sem_step\<^sup>*\<^sup>* a b \<Longrightarrow> sem_inv c a \<Longrightarrow> sem_inv c b"
  by (induction rule: rtranclp_induct) (auto intro: sem_step_inv)

subsection \<open>Properties\<close>

lemma sem_inv_parts:
  assumes "sem_inv c sys"
  shows "sem_tokens (sys_sem sys) + sum_list (map weight (sys_threads sys)) \<le> c"
    "\<not> sem_closed (sys_sem sys) \<Longrightarrow> sem_tokens (sys_sem sys) + sum_list (map weight (sys_threads sys)) = c"
    "i < length (sys_threads sys) \<Longrightarrow> pc_ok c (th_pc (sys_threads sys ! i)) (th_held (sys_threads sys ! i))"
    "sem_wmu (sys_sem sys) = Some i \<longleftrightarrow> i < length (sys_threads sys) \<and> in_section (th_pc (sys_threads sys ! i))"
    "sem_cap (sys_sem sys) = c"
  using assms by (simp_all add: sem_inv_def Let_def)

lemma held_le_outstanding: "sum_list (map th_held ths) \<le> sum_list (map weight ths)"
  by (rule sum_list_mono) (simp add: weight_def)

lemma in_section_unique:
  assumes "sem_inv c sys" and "i < length (sys_threads sys)" and "j < length (sys_threads sys)"
    and "in_section (th_pc (sys_threads sys ! i))" and "in_section (th_pc (sys_threads sys ! j))"
  shows "i = j"
  using sem_inv_parts(4) [OF assms(1), of i] sem_inv_parts(4) [OF assms(1), of j] assms by simp

lemma transit_cases: "0 < in_transit pc \<Longrightarrow> in_section pc \<or> (\<exists>m. pc = WPutBack m)"
  by (cases pc) auto

text \<open>A take that finds no token waits for a permit somebody holds, or has borrowed and will put back.\<close>

lemma blocked_take_waits_for_holder:
  assumes inv: "sem_inv c sys" and open_sem: "\<not> sem_closed (sys_sem sys)" and i: "i < length (sys_threads sys)"
    and pc: "th_pc (sys_threads sys ! i) = WTake n left \<or> th_pc (sys_threads sys ! i) = TryTake n left"
    and none: "sem_tokens (sys_sem sys) = 0"
  shows "\<exists>j<length (sys_threads sys). 0 < th_held (sys_threads sys ! j) \<or> (\<exists>m. th_pc (sys_threads sys ! j) = WPutBack m)"
proof (rule ccontr)
  let ?ths = "sys_threads sys"
  assume "\<not> ?thesis"
  then have idle: "th_held (?ths ! j) = 0" "th_pc (?ths ! j) \<noteq> WPutBack m" if "j < length ?ths" for j m
    using that by auto
  have section_i: "in_section (th_pc (?ths ! i))" using pc by auto
  have zero: "weight (?ths ! j) = 0" if "j < length ?ths" "j \<noteq> i" for j
  proof -
    have "\<not> in_section (th_pc (?ths ! j))" using in_section_unique [OF inv i that(1) section_i] that(2) by blast
    then have "in_transit (th_pc (?ths ! j)) = 0" using transit_cases idle(2) [OF that(1)] by fastforce
    then show ?thesis using idle(1) [OF that(1)] by (simp add: weight_def)
  qed
  let ?z = "\<lparr>th_pc = Idle, th_held = 0\<rparr>"
  have "weight x = 0" if "x \<in> set (?ths[i := ?z])" for x
  proof -
    from that obtain k where "k < length ?ths" "x = ?ths[i := ?z] ! k" by (auto simp: in_set_conv_nth)
    then show ?thesis using zero [of k] by (cases "k = i") (auto simp: weight_def)
  qed
  then have "sum_list (map weight (?ths[i := ?z])) = 0" by simp
  with sum_list_map_update [OF i, of weight ?z] have "sum_list (map weight ?ths) = weight (?ths ! i)"
    by (simp add: weight_def)
  then have "weight (?ths ! i) = c" using sem_inv_parts(2) [OF inv open_sem] none by simp
  moreover have "weight (?ths ! i) < c"
    using pc idle(1) [OF i] sem_inv_parts(3) [OF inv i] by (auto simp: weight_def)
  ultimately show False by simp
qed



text \<open>
  After \<open>Close\<close> that last guarantee is gone, because \<open>Release\<close> drops its tokens.  The states below are
  stuck: thread 0 waits inside \<open>takeLocked\<close>, which looks at neither \<open>closed\<close> nor the context.
\<close>

fun dormant :: "sem_pc \<Rightarrow> bool" where
  "dormant (RelSend n) = False"
| "dormant (WPutBack n) = False"
| "dormant pc = (\<not> in_section pc)"

definition stuck :: "sem_system \<Rightarrow> bool" where
  "stuck sys \<longleftrightarrow> sem_closed (sys_sem sys) \<and> sem_tokens (sys_sem sys) = 0 \<and> sem_wmu (sys_sem sys) = Some 0
    \<and> 0 < length (sys_threads sys) \<and> th_pc (sys_threads sys ! 0) = WTake 2 1
    \<and> (\<forall>i<length (sys_threads sys). i = 0 \<or> dormant (th_pc (sys_threads sys ! i)))"

lemma move_stuck:
  assumes "(pc', s') \<in> set (sem_moves dn i pc s)" and "sem_closed s" "sem_tokens s = 0" "sem_wmu s = Some 0"
    and "dormant pc"
  shows "s' = s \<and> dormant (th_pc (after_move pc pc' h))"
  using assms by (cases pc) (auto simp: sem_unfold split: if_splits)

lemma stuck_update: "stuck \<lparr>sys_sem = s, sys_threads = ths\<rparr> \<Longrightarrow> i \<noteq> 0 \<Longrightarrow> dormant (th_pc th) \<Longrightarrow>
    stuck \<lparr>sys_sem = s, sys_threads = ths[i := th]\<rparr>"
  by (auto simp: stuck_def nth_list_update split: if_splits) (metis nth_list_update_eq nth_list_update_neq)

lemma stuck_not_idle: "stuck \<lparr>sys_sem = s, sys_threads = ths\<rparr> \<Longrightarrow> ths ! i = \<lparr>th_pc = Idle, th_held = h\<rparr> \<Longrightarrow> i \<noteq> 0"
  by (metis sem_pc.distinct(14) sem_thread.select_convs(1) stuck_def sem_system.select_convs(2))

lemma entry_dormant:
  "dormant (th_pc (settle (sem_Acquire n s) h))" "dormant (th_pc (settle (sem_TryAcquire n s) h))"
  "dormant (th_pc (settle (sem_Release n) h))"
  by (simp_all add: sem_Acquire_def sem_TryAcquire_def sem_Release_def Let_def)

lemma stuck_step: "sem_step a b \<Longrightarrow> stuck a \<Longrightarrow> stuck b"
proof (induction rule: sem_step.induct)
  case (acquire i ths h s n)
  then have "i \<noteq> 0" by (blast dest: stuck_not_idle)
  with acquire show ?case by (intro stuck_update entry_dormant)
next
  case (try_acquire i ths h s n)
  then have "i \<noteq> 0" by (blast dest: stuck_not_idle)
  with try_acquire show ?case by (intro stuck_update entry_dormant)
next
  case (release i ths h n s)
  then have "i \<noteq> 0" by (blast dest: stuck_not_idle)
  with release show ?case by (intro stuck_update entry_dormant)
next
  case (close s ths)
  then show ?case by (simp add: stuck_def sem_Close_def)
next
  case (move i ths pc h pc' s' dn s)
  have i: "i \<noteq> 0"
  proof
    assume "i = 0"
    then have "pc = WTake 2 1" "sem_tokens s = 0" using move by (simp_all add: stuck_def)
    with move(3) show False by (simp add: takeLocked_def on_def)
  qed
  have "dormant pc" using move i by (auto simp: stuck_def dest: spec [of _ i])
  then have "s' = s \<and> dormant (th_pc (after_move pc pc' h))"
    using move_stuck [OF move(3)] move(4) by (simp add: stuck_def)
  with move(4) i show ?case by (auto intro: stuck_update)
qed

lemma stuck_forever: "sem_step\<^sup>*\<^sup>* a b \<Longrightarrow> stuck a \<Longrightarrow> stuck b"
  by (induction rule: rtranclp_induct) (auto intro: stuck_step)

text \<open>Two threads on a semaphore of capacity two.\<close>

definition sem_sys :: "nat \<Rightarrow> bool \<Rightarrow> nat option \<Rightarrow> sem_pc \<Rightarrow> sem_pc \<Rightarrow> nat \<Rightarrow> sem_system" where
  "sem_sys tokens clsd wmu pc0 pc1 held1 =
    \<lparr>sys_sem = \<lparr>sem_tokens = tokens, sem_cap = 2, sem_closed = clsd, sem_wmu = wmu\<rparr>,
     sys_threads = [\<lparr>th_pc = pc0, th_held = 0\<rparr>, \<lparr>th_pc = pc1, th_held = held1\<rparr>]\<rparr>"

lemma move_sys:
  "(pc', s') \<in> set (sem_moves dn i pc (sys_sem a)) \<Longrightarrow> i < length (sys_threads a) \<Longrightarrow> sys_threads a ! i = \<lparr>th_pc = pc, th_held = h\<rparr>
   \<Longrightarrow> b = \<lparr>sys_sem = s', sys_threads = (sys_threads a)[i := after_move pc pc' h]\<rparr> \<Longrightarrow> sem_step a b"
  by (cases a) (auto intro: sem_step.move)

lemma close_hang_trace:
  "sem_step\<^sup>*\<^sup>* (sem_sys 2 False None Idle Idle 0) (sem_sys 0 True (Some 0) (WTake 2 1) Idle 1)"
proof -
  note exec = sem_sys_def sem_unfold sem_Acquire_def at_least_one_def
  have "sem_step\<^sup>*\<^sup>* (sem_sys 2 False None Idle Idle 0) (sem_sys 2 False None (WLock 2) Idle 0)"
    using sem_step.acquire [of 0 "sys_threads (sem_sys 2 False None Idle Idle 0)" 0 "sys_sem (sem_sys 2 False None Idle Idle 0)" 2]
    by (intro r_into_rtranclp) (simp add: exec)
  also have "sem_step\<^sup>*\<^sup>* \<dots> (sem_sys 2 False (Some 0) (WCheck 2) Idle 0)"
    by (rule r_into_rtranclp, rule move_sys [where i = 0 and pc = "WLock 2" and pc' = "WCheck 2"]) (simp_all add: exec)
  also have "sem_step\<^sup>*\<^sup>* \<dots> (sem_sys 2 False (Some 0) (WTake 2 2) Idle 0)"
    by (rule r_into_rtranclp, rule move_sys [where i = 0 and pc = "WCheck 2" and pc' = "WTake 2 2"]) (simp_all add: exec)
  also have "sem_step\<^sup>*\<^sup>* \<dots> (sem_sys 2 False (Some 0) (WTake 2 2) Unit1 0)"
    using sem_step.acquire [of 1 "sys_threads (sem_sys 2 False (Some 0) (WTake 2 2) Idle 0)" 0
        "sys_sem (sem_sys 2 False (Some 0) (WTake 2 2) Idle 0)" 1] by (intro r_into_rtranclp) (simp add: exec)
  also have "sem_step\<^sup>*\<^sup>* \<dots> (sem_sys 1 False (Some 0) (WTake 2 2) Idle 1)"
    by (rule r_into_rtranclp, rule move_sys [where i = 1 and pc = Unit1 and pc' = "Acquired 1" and h = 0 and dn = False]) (simp_all add: exec)
  also have "sem_step\<^sup>*\<^sup>* \<dots> (sem_sys 0 False (Some 0) (WTake 2 1) Idle 1)"
    by (rule r_into_rtranclp, rule move_sys [where i = 0 and pc = "WTake 2 2" and pc' = "WTake 2 1"]) (simp_all add: exec)
  also have "sem_step\<^sup>*\<^sup>* \<dots> (sem_sys 0 True (Some 0) (WTake 2 1) Idle 1)"
    using sem_step.close [of "sys_sem (sem_sys 0 False (Some 0) (WTake 2 1) Idle 1)" "sys_threads (sem_sys 0 False (Some 0) (WTake 2 1) Idle 1)"]
    by (intro r_into_rtranclp) (simp add: sem_sys_def sem_Close_def)
  finally show ?thesis .
qed

text \<open>
  \<open>Close\<close> does not wake every pending \<open>Acquire\<close>.  With capacity two, a weighted acquire passes
  its length check, a unit acquire takes a token in between, and then the semaphore is closed: from
  that reachable state on, whatever any thread does, releases and cancelled contexts included, the
  weighted acquire stays inside \<open>takeLocked\<close> and keeps \<open>wmu\<close>, so it never returns.
\<close>
lemma semaphore_close_hangs:
  "\<exists>sys. sem_step\<^sup>*\<^sup>* (sem_init (the (sem_New 2)) 2) sys \<and> sem_closed (sys_sem sys)
    \<and> Collect (sem_step\<^sup>*\<^sup>* sys) \<subseteq> {sys'. th_pc (sys_threads sys' ! 0) = WTake 2 1 \<and> sem_wmu (sys_sem sys') = Some 0}"
proof -
  let ?sys = "sem_sys 0 True (Some 0) (WTake 2 1) Idle 1"
  have "sem_init (the (sem_New 2)) 2 = sem_sys 2 False None Idle Idle 0"
    by (simp add: sem_init_def sem_New_def sem_sys_def numeral_2_eq_2)
  then have "sem_step\<^sup>*\<^sup>* (sem_init (the (sem_New 2)) 2) ?sys" using close_hang_trace by simp
  moreover have "stuck ?sys" by (simp add: stuck_def sem_sys_def less_Suc_eq numeral_2_eq_2)
  then have "Collect (sem_step\<^sup>*\<^sup>* ?sys) \<subseteq> {sys'. th_pc (sys_threads sys' ! 0) = WTake 2 1 \<and> sem_wmu (sys_sem sys') = Some 0}"
    using stuck_forever [of ?sys] by (auto simp: stuck_def)
  moreover have "sem_closed (sys_sem ?sys)" by (simp add: sem_sys_def)
  ultimately show ?thesis by blast
qed

end
