(* ===== verification/Idempotency.thy ===== *)
theory Idempotency
  imports Prelude "HOL-Library.AList"
begin

section \<open>Idempotent execution (idempotency/idempotency.go)\<close>

text \<open>
  The cache maps keys to entries that are shared by pointer between the leader, its followers and the
  map, so entries live in a heap and the map holds their addresses.  \<open>Do\<close> is split where it gives up
  the mutex: \<open>do_begin\<close> is its first critical section, the function runs outside, \<open>finishLocked\<close> is the
  second critical section, and a follower waits in between.  Times are integers; the zero time of an
  entry without expiry is \<open>None\<close>, which is before every other time.  The order in which a Go map is
  visited is the argument \<open>visit\<close>.
\<close>

type_synonym 'v answer = "'v \<times> string option"

record 'v idem_entry =
  e_done :: bool
  e_val :: "'v"
  e_err :: "string option"
  e_completed :: bool
  e_expiresAt :: "int option"

record 'v idem =
  im_entries :: "(string \<times> nat) list"
  im_heap :: "'v idem_entry list"
  im_ttl :: int
  im_maxEntries :: int
  im_cacheErrors :: bool
  im_recovered :: "64 word"

definition idem_expired :: "'v idem_entry \<Rightarrow> int \<Rightarrow> bool" where
  "idem_expired e now = (case e_expiresAt e of None \<Rightarrow> False | Some t \<Rightarrow> t < now)"

definition WithTTL :: "int \<Rightarrow> 'v idem \<Rightarrow> 'v idem" where
  "WithTTL d c = c\<lparr>im_ttl := d\<rparr>"

definition WithMaxEntries :: "int \<Rightarrow> 'v idem \<Rightarrow> 'v idem" where
  "WithMaxEntries n c = c\<lparr>im_maxEntries := n\<rparr>"

definition WithCacheErrors :: "bool \<Rightarrow> 'v idem \<Rightarrow> 'v idem" where
  "WithCacheErrors on c = c\<lparr>im_cacheErrors := on\<rparr>"

definition idem_New :: "('v idem \<Rightarrow> 'v idem) list \<Rightarrow> 'v idem" where
  "idem_New opts = fold (\<lambda>opt c. opt c) opts
    \<lparr>im_entries = [], im_heap = [], im_ttl = 60 * 10 ^ 9, im_maxEntries = 4096, im_cacheErrors = False, im_recovered = 0\<rparr>"

definition Recovered :: "'v idem \<Rightarrow> 64 word" where
  "Recovered c = im_recovered c"

subsection \<open>Eviction\<close>

definition before :: "int option \<Rightarrow> int option \<Rightarrow> bool" where
  "before a b = (case b of None \<Rightarrow> False | Some y \<Rightarrow> (case a of None \<Rightarrow> True | Some x \<Rightarrow> x < y))"

fun oldest_completed :: "'v idem_entry list \<Rightarrow> (string \<times> nat) list \<Rightarrow> (string \<times> int option) option \<Rightarrow> string option" where
  "oldest_completed h [] found = map_option fst found"
| "oldest_completed h ((k, p) # kps) found =
    oldest_completed h kps
      (if \<not> e_completed (h ! p) then found
       else case found of
           None \<Rightarrow> Some (k, e_expiresAt (h ! p))
         | Some (_, t) \<Rightarrow> if before (e_expiresAt (h ! p)) t then Some (k, e_expiresAt (h ! p)) else found)"

lemma oldest_completed_key:
  "oldest_completed h kps found = Some k \<Longrightarrow>
   (\<exists>t. found = Some (k, t)) \<or> (\<exists>p. (k, p) \<in> set kps \<and> e_completed (h ! p))"
proof (induction h kps found rule: oldest_completed.induct)
  case (2 h k' p kps found)
  then show ?case by (auto split: if_splits option.splits)
qed auto

function drop_oldest :: "((string \<times> nat) list \<Rightarrow> (string \<times> nat) list) \<Rightarrow> 'v idem_entry list \<Rightarrow> int \<Rightarrow> (string \<times> nat) list \<Rightarrow> (string \<times> nat) list" where
  "drop_oldest visit h mx es =
    (if mx < int (length es) then
       case oldest_completed h (visit es) None of
         None \<Rightarrow> es
       | Some k \<Rightarrow> if k \<in> fst ` set es then drop_oldest visit h mx (AList.delete k es) else es
     else es)"
  by pat_completeness auto
termination
proof (relation "measure (\<lambda>(_, _, _, es). length es)", goal_cases)
  case (2 visit h mx es k)
  have "k \<in> fst ` set xs \<Longrightarrow> length (AList.delete k xs) < length xs" for xs :: "(string \<times> nat) list"
    by (induction xs) (auto simp: less_Suc_eq_le length_delete_le Suc_le_eq intro: rev_image_eqI)
  with 2 show ?case by simp
qed simp

declare drop_oldest.simps [simp del]

definition evictLocked :: "((string \<times> nat) list \<Rightarrow> (string \<times> nat) list) \<Rightarrow> int \<Rightarrow> 'v idem \<Rightarrow> 'v idem" where
  "evictLocked visit now c =
    (if im_maxEntries c \<le> 0 \<or> int (length (im_entries c)) \<le> im_maxEntries c then c
     else let live = filter (\<lambda>(k, p). \<not> (e_completed (im_heap c ! p) \<and> idem_expired (im_heap c ! p) now)) (im_entries c) in
       c\<lparr>im_entries := drop_oldest visit (im_heap c) (im_maxEntries c) live\<rparr>)"

subsection \<open>The three parts of Do\<close>

datatype 'v begin_do = Hit nat "'v answer" | Follow nat | Lead nat

definition do_begin :: "((string \<times> nat) list \<Rightarrow> (string \<times> nat) list) \<Rightarrow> 'v \<Rightarrow> int \<Rightarrow> string \<Rightarrow> 'v idem \<Rightarrow> 'v begin_do \<times> 'v idem" where
  "do_begin visit zero now key c =
    (let lead = (let p = length (im_heap c);
                     e = \<lparr>e_done = False, e_val = zero, e_err = None, e_completed = False, e_expiresAt = None\<rparr> in
                 (Lead p, evictLocked visit now (c\<lparr>im_heap := im_heap c @ [e], im_entries := AList.update key p (im_entries c)\<rparr>))) in
     case map_of (im_entries c) key of
       None \<Rightarrow> lead
     | Some p \<Rightarrow>
         (let e = im_heap c ! p in
          if e_completed e \<and> \<not> idem_expired e now then (Hit p (e_val e, e_err e), c)
          else if \<not> e_completed e then (Follow p, c)
          else lead))"

text \<open>The protected call of the function: a panic becomes an error and is counted.\<close>

datatype 'v fn_outcome = FnReturns 'v "string option" | FnPanics string

fun call_fn :: "'v \<Rightarrow> 'v fn_outcome \<Rightarrow> 'v idem \<Rightarrow> 'v answer \<times> 'v idem" where
  "call_fn zero (FnReturns v err) c = ((v, err), c)"
| "call_fn zero (FnPanics r) c = ((zero, Some (''idempotency: fn panic recovered: '' @ r)), c\<lparr>im_recovered := im_recovered c + 1\<rparr>)"

definition finishLocked :: "nat \<Rightarrow> string \<Rightarrow> 'v answer \<Rightarrow> int \<Rightarrow> 'v idem \<Rightarrow> 'v idem" where
  "finishLocked p key ans now c =
    (let keep = (snd ans = None \<or> im_cacheErrors c);
         e = (im_heap c ! p)\<lparr>e_val := fst ans, e_err := snd ans, e_completed := True,
               e_expiresAt := (if keep \<and> 0 < im_ttl c then Some (now + im_ttl c) else e_expiresAt (im_heap c ! p)), e_done := True\<rparr> in
     c\<lparr>im_heap := (im_heap c)[p := e], im_entries := (if keep then im_entries c else AList.delete key (im_entries c))\<rparr>)"

definition idem_waitFor :: "bool \<Rightarrow> string \<Rightarrow> 'v \<Rightarrow> nat \<Rightarrow> 'v idem \<Rightarrow> 'v answer list" where
  "idem_waitFor ctxDone ctxErr zero p c =
    (if e_done (im_heap c ! p) then [(e_val (im_heap c ! p), e_err (im_heap c ! p))] else [])
    @ (if ctxDone then [(zero, Some ctxErr)] else [])"

definition idem_Len :: "'v idem \<Rightarrow> nat" where
  "idem_Len c = length (im_entries c)"

definition Forget :: "string \<Rightarrow> 'v idem \<Rightarrow> 'v idem" where
  "Forget key c = c\<lparr>im_entries := AList.delete key (im_entries c)\<rparr>"

definition idem_Clear :: "'v idem \<Rightarrow> 'v idem" where
  "idem_Clear c = c\<lparr>im_entries := []\<rparr>"

subsection \<open>Concurrent calls\<close>

datatype idem_pc = Idle | Leading string nat | Following nat

text \<open>The log records each answer given from an entry: by its leader, a follower or a cache hit.\<close>

record 'v idem_system =
  is_cache :: "'v idem"
  is_threads :: "idem_pc list"
  is_log :: "(nat \<times> 'v answer) list"

inductive do_step :: "((string \<times> nat) list \<Rightarrow> (string \<times> nat) list) \<Rightarrow> 'v \<Rightarrow> 'v idem_system \<Rightarrow> 'v idem_system \<Rightarrow> bool"
  for visit zero where
  hit: "i < length ths \<Longrightarrow> ths ! i = Idle \<Longrightarrow> do_begin visit zero now key c = (Hit p ans, c') \<Longrightarrow>
    do_step visit zero \<lparr>is_cache = c, is_threads = ths, is_log = lg\<rparr> \<lparr>is_cache = c', is_threads = ths, is_log = (p, ans) # lg\<rparr>"
| follow: "i < length ths \<Longrightarrow> ths ! i = Idle \<Longrightarrow> do_begin visit zero now key c = (Follow p, c') \<Longrightarrow>
    do_step visit zero \<lparr>is_cache = c, is_threads = ths, is_log = lg\<rparr> \<lparr>is_cache = c', is_threads = ths[i := Following p], is_log = lg\<rparr>"
| lead: "i < length ths \<Longrightarrow> ths ! i = Idle \<Longrightarrow> do_begin visit zero now key c = (Lead p, c') \<Longrightarrow>
    do_step visit zero \<lparr>is_cache = c, is_threads = ths, is_log = lg\<rparr> \<lparr>is_cache = c', is_threads = ths[i := Leading key p], is_log = lg\<rparr>"
| finish: "i < length ths \<Longrightarrow> ths ! i = Leading key p \<Longrightarrow> call_fn zero outcome c = (ans, c') \<Longrightarrow>
    do_step visit zero \<lparr>is_cache = c, is_threads = ths, is_log = lg\<rparr>
      \<lparr>is_cache = finishLocked p key ans now c', is_threads = ths[i := Idle], is_log = (p, ans) # lg\<rparr>"
| wake: "i < length ths \<Longrightarrow> ths ! i = Following p \<Longrightarrow> ans \<in> set (idem_waitFor False err zero p c) \<Longrightarrow>
    do_step visit zero \<lparr>is_cache = c, is_threads = ths, is_log = lg\<rparr> \<lparr>is_cache = c, is_threads = ths[i := Idle], is_log = (p, ans) # lg\<rparr>"
| cancel: "i < length ths \<Longrightarrow> ths ! i = Following p \<Longrightarrow> ans \<in> set (idem_waitFor True err zero p c) \<Longrightarrow>
    do_step visit zero \<lparr>is_cache = c, is_threads = ths, is_log = lg\<rparr> \<lparr>is_cache = c, is_threads = ths[i := Idle], is_log = lg\<rparr>"

inductive any_step :: "((string \<times> nat) list \<Rightarrow> (string \<times> nat) list) \<Rightarrow> 'v \<Rightarrow> 'v idem_system \<Rightarrow> 'v idem_system \<Rightarrow> bool"
  for visit zero where
  do_call: "do_step visit zero a b \<Longrightarrow> any_step visit zero a b"
| forget: "any_step visit zero \<lparr>is_cache = c, is_threads = ths, is_log = lg\<rparr> \<lparr>is_cache = Forget key c, is_threads = ths, is_log = lg\<rparr>"
| clear: "any_step visit zero \<lparr>is_cache = c, is_threads = ths, is_log = lg\<rparr> \<lparr>is_cache = idem_Clear c, is_threads = ths, is_log = lg\<rparr>"

subsection \<open>Eviction keeps what is in flight\<close>

definition visits_all :: "((string \<times> nat) list \<Rightarrow> (string \<times> nat) list) \<Rightarrow> bool" where
  "visits_all visit \<longleftrightarrow> (\<forall>es. set (visit es) = set es)"

lemma set_delete_sub: "set (AList.delete k es) \<subseteq> set es"
  by (induction es) auto

lemma in_delete: "x \<in> set es \<Longrightarrow> fst x \<noteq> k \<Longrightarrow> x \<in> set (AList.delete k es)"
  by (induction es) auto

lemma set_update_sub: "set (AList.update k p es) \<subseteq> insert (k, p) (set es)"
  by (induction es) auto

lemma drop_oldest_sub: "set (drop_oldest visit h mx es) \<subseteq> set es"
proof (induction visit h mx es rule: drop_oldest.induct)
  case (1 visit h mx es)
  show ?case
  proof (cases "oldest_completed h (visit es) None")
    case (Some k)
    with 1 set_delete_sub [of k es] show ?thesis by (subst drop_oldest.simps) (simp, blast)
  qed (subst drop_oldest.simps, simp)
qed

lemma drop_oldest_distinct: "distinct (map fst es) \<Longrightarrow> distinct (map fst (drop_oldest visit h mx es))"
proof (induction visit h mx es rule: drop_oldest.induct)
  case (1 visit h mx es)
  then show ?case by (subst drop_oldest.simps) (auto split: option.splits simp: distinct_delete)
qed

lemma drop_oldest_keeps:
  assumes "visits_all visit" "distinct (map fst es)" "(k, p) \<in> set es" "\<not> e_completed (h ! p)"
  shows "(k, p) \<in> set (drop_oldest visit h mx es)"
  using assms
proof (induction visit h mx es rule: drop_oldest.induct)
  case (1 visit h mx es)
  show ?case
  proof (cases "mx < int (length es)")
    case True
    show ?thesis
    proof (cases "oldest_completed h (visit es) None")
      case None
      then show ?thesis using "1.prems" by (subst drop_oldest.simps) simp
    next
      case (Some k')
      then obtain p' where p': "(k', p') \<in> set es" "e_completed (h ! p')"
        using oldest_completed_key [OF Some] "1.prems"(1) by (auto simp: visits_all_def)
      have "k \<noteq> k'" using p' "1.prems" by (auto dest: eq_key_imp_eq_value)
      moreover have "k' \<in> fst ` set es" using p'(1) by force
      ultimately show ?thesis
        using "1.IH" [OF True Some] "1.prems" True Some in_delete [of "(k, p)" es k']
        by (subst drop_oldest.simps) (simp add: distinct_delete)
    qed
  qed (use "1.prems" in \<open>subst drop_oldest.simps, simp\<close>)
qed

lemma evict_same [simp]:
  "im_heap (evictLocked visit now c) = im_heap c" "im_ttl (evictLocked visit now c) = im_ttl c"
  "im_cacheErrors (evictLocked visit now c) = im_cacheErrors c"
  by (simp_all add: evictLocked_def Let_def)

lemma evict_sub: "set (im_entries (evictLocked visit now c)) \<subseteq> set (im_entries c)"
  by (auto simp: evictLocked_def Let_def dest!: subsetD [OF drop_oldest_sub])

lemma evict_distinct: "distinct (map fst (im_entries c)) \<Longrightarrow> distinct (map fst (im_entries (evictLocked visit now c)))"
  by (simp add: evictLocked_def Let_def drop_oldest_distinct distinct_map_filter)

lemma evict_keeps:
  "visits_all visit \<Longrightarrow> distinct (map fst (im_entries c)) \<Longrightarrow> (k, p) \<in> set (im_entries c) \<Longrightarrow> \<not> e_completed (im_heap c ! p)
   \<Longrightarrow> (k, p) \<in> set (im_entries (evictLocked visit now c))"
  by (simp add: evictLocked_def Let_def drop_oldest_keeps distinct_map_filter)

subsection \<open>Every wait has a leader\<close>

definition flight_inv :: "'v idem_system \<Rightarrow> bool" where
  "flight_inv sys \<longleftrightarrow>
    (let h = im_heap (is_cache sys); ths = is_threads sys in
     (\<forall>k p. (k, p) \<in> set (im_entries (is_cache sys)) \<longrightarrow> p < length h)
     \<and> (\<forall>i<length ths. \<forall>k p. ths ! i = Leading k p \<longrightarrow> p < length h \<and> \<not> e_completed (h ! p))
     \<and> (\<forall>i<length ths. \<forall>j<length ths. \<forall>k k' p. ths ! i = Leading k p \<and> ths ! j = Leading k' p \<longrightarrow> i = j)
     \<and> (\<forall>p<length h. \<not> e_completed (h ! p) \<longrightarrow> (\<exists>i<length ths. \<exists>k. ths ! i = Leading k p))
     \<and> (\<forall>p<length h. e_done (h ! p) = e_completed (h ! p))
     \<and> (\<forall>i<length ths. \<forall>p. ths ! i = Following p \<longrightarrow> p < length h)
     \<and> (\<forall>p ans. (p, ans) \<in> set (is_log sys) \<longrightarrow>
          p < length h \<and> e_completed (h ! p) \<and> (e_val (h ! p), e_err (h ! p)) = ans))"

lemma do_begin_cases:
  assumes "do_begin visit zero now key c = (r, c')"
  obtains (hit) p where "r = Hit p (e_val (im_heap c ! p), e_err (im_heap c ! p))" "c' = c"
      "map_of (im_entries c) key = Some p" "e_completed (im_heap c ! p)" "\<not> idem_expired (im_heap c ! p) now"
  | (follow) p where "r = Follow p" "c' = c" "map_of (im_entries c) key = Some p" "\<not> e_completed (im_heap c ! p)"
  | (lead) e where "r = Lead (length (im_heap c))"
      "c' = evictLocked visit now (c\<lparr>im_heap := im_heap c @ [e], im_entries := AList.update key (length (im_heap c)) (im_entries c)\<rparr>)"
      "\<not> e_completed e" "\<not> e_done e"
      "\<forall>p. map_of (im_entries c) key = Some p \<longrightarrow> e_completed (im_heap c ! p)"
proof -
  let ?e = "\<lparr>e_done = False, e_val = zero, e_err = None, e_completed = False, e_expiresAt = None\<rparr>"
  let ?c = "evictLocked visit now (c\<lparr>im_heap := im_heap c @ [?e], im_entries := AList.update key (length (im_heap c)) (im_entries c)\<rparr>)"
  show thesis
  proof (cases "map_of (im_entries c) key")
    case None
    with assms have "r = Lead (length (im_heap c))" "c' = ?c" by (simp_all add: do_begin_def Let_def)
    with None show thesis by (intro lead [of ?e]) simp_all
  next
    case (Some p)
    consider "e_completed (im_heap c ! p)" "\<not> idem_expired (im_heap c ! p) now" | "\<not> e_completed (im_heap c ! p)"
      | "e_completed (im_heap c ! p)" "idem_expired (im_heap c ! p) now" by blast
    then show thesis
    proof cases
      case 1 with Some assms show thesis by (intro hit [of p]) (auto simp: do_begin_def Let_def)
    next
      case 2 with Some assms show thesis by (intro follow [of p]) (simp_all add: do_begin_def Let_def)
    next
      case 3
      with Some assms have "r = Lead (length (im_heap c))" "c' = ?c" by (simp_all add: do_begin_def Let_def)
      with 3 Some show thesis by (intro lead [of ?e]) simp_all
    qed
  qed
qed

lemma flight_parts:
  assumes "flight_inv \<lparr>is_cache = c, is_threads = ths, is_log = lg\<rparr>"
  shows "\<And>k p. (k, p) \<in> set (im_entries c) \<Longrightarrow> p < length (im_heap c)"
    and "\<And>i k p. i < length ths \<Longrightarrow> ths ! i = Leading k p \<Longrightarrow> p < length (im_heap c) \<and> \<not> e_completed (im_heap c ! p)"
    and "\<And>i j k k' p. i < length ths \<Longrightarrow> j < length ths \<Longrightarrow> ths ! i = Leading k p \<Longrightarrow> ths ! j = Leading k' p \<Longrightarrow> i = j"
    and "\<And>p. p < length (im_heap c) \<Longrightarrow> \<not> e_completed (im_heap c ! p) \<Longrightarrow> \<exists>i<length ths. \<exists>k. ths ! i = Leading k p"
    and "\<And>p. p < length (im_heap c) \<Longrightarrow> e_done (im_heap c ! p) = e_completed (im_heap c ! p)"
    and "\<And>i p. i < length ths \<Longrightarrow> ths ! i = Following p \<Longrightarrow> p < length (im_heap c)"
    and "\<And>p ans. (p, ans) \<in> set lg \<Longrightarrow>
      p < length (im_heap c) \<and> e_completed (im_heap c ! p) \<and> (e_val (im_heap c ! p), e_err (im_heap c ! p)) = ans"
  using assms by (auto simp: flight_inv_def Let_def)

lemma flight_intro:
  assumes "\<And>k p. (k, p) \<in> set (im_entries c) \<Longrightarrow> p < length (im_heap c)"
    and "\<And>i k p. i < length ths \<Longrightarrow> ths ! i = Leading k p \<Longrightarrow> p < length (im_heap c) \<and> \<not> e_completed (im_heap c ! p)"
    and "\<And>i j k k' p. i < length ths \<Longrightarrow> j < length ths \<Longrightarrow> ths ! i = Leading k p \<Longrightarrow> ths ! j = Leading k' p \<Longrightarrow> i = j"
    and "\<And>p. p < length (im_heap c) \<Longrightarrow> \<not> e_completed (im_heap c ! p) \<Longrightarrow> \<exists>i<length ths. \<exists>k. ths ! i = Leading k p"
    and "\<And>p. p < length (im_heap c) \<Longrightarrow> e_done (im_heap c ! p) = e_completed (im_heap c ! p)"
    and "\<And>i p. i < length ths \<Longrightarrow> ths ! i = Following p \<Longrightarrow> p < length (im_heap c)"
    and "\<And>p ans. (p, ans) \<in> set lg \<Longrightarrow>
      p < length (im_heap c) \<and> e_completed (im_heap c ! p) \<and> (e_val (im_heap c ! p), e_err (im_heap c ! p)) = ans"
  shows "flight_inv \<lparr>is_cache = c, is_threads = ths, is_log = lg\<rparr>"
  unfolding flight_inv_def Let_def using assms by simp

text \<open>The state of a thread that is not leading can change freely, as long as it follows something.\<close>

lemma flight_retire:
  assumes inv: "flight_inv \<lparr>is_cache = c, is_threads = ths, is_log = lg\<rparr>" and "i < length ths" and "\<forall>k p. ths ! i \<noteq> Leading k p"
    and "\<forall>k p. pc \<noteq> Leading k p" and "\<And>p. pc = Following p \<Longrightarrow> p < length (im_heap c)"
  shows "flight_inv \<lparr>is_cache = c, is_threads = ths[i := pc], is_log = lg\<rparr>"
proof (rule flight_intro)
  fix p assume "p < length (im_heap c)" "\<not> e_completed (im_heap c ! p)"
  then obtain j k where "j < length ths" "ths ! j = Leading k p" using flight_parts(4) [OF inv] by blast
  moreover from this assms(3) have "j \<noteq> i" by auto
  ultimately show "\<exists>i'<length (ths[i := pc]). \<exists>k. ths[i := pc] ! i' = Leading k p" by (intro exI [of _ j]) auto
qed (use flight_parts [OF inv] assms in \<open>auto simp: nth_list_update split: if_splits\<close>)

lemma flight_log:
  assumes inv: "flight_inv \<lparr>is_cache = c, is_threads = ths, is_log = lg\<rparr>" and "p < length (im_heap c)" "e_completed (im_heap c ! p)"
  shows "flight_inv \<lparr>is_cache = c, is_threads = ths, is_log = (p, (e_val (im_heap c ! p), e_err (im_heap c ! p))) # lg\<rparr>"
  by (rule flight_intro; (insert flight_parts [OF inv] assms(2,3)); auto)

lemma flight_lead:
  assumes inv: "flight_inv \<lparr>is_cache = c, is_threads = ths, is_log = lg\<rparr>" and i: "i < length ths" "ths ! i = Idle"
    and e: "\<not> e_completed e" "\<not> e_done e" and heap: "im_heap c' = im_heap c @ [e]"
    and sub: "set (im_entries c') \<subseteq> insert (key, length (im_heap c)) (set (im_entries c))"
  shows "flight_inv \<lparr>is_cache = c', is_threads = ths[i := Leading key (length (im_heap c))], is_log = lg\<rparr>"
proof (rule flight_intro, goal_cases)
  case (1 k p)
  with sub flight_parts(1) [OF inv, of k p] show ?case by (auto simp: heap)
next
  case (2 j k p)
  then show ?case using flight_parts(2) [OF inv, of j k p] e i by (cases "j = i") (auto simp: heap nth_append)
next
  case (3 j j' k k' p)
  then show ?case using flight_parts(2) [OF inv, of j k p] flight_parts(2) [OF inv, of j' k' p] flight_parts(3) [OF inv, of j j' k p k'] i
    by (cases "j = i"; cases "j' = i") auto
next
  case (4 p)
  show ?case
  proof (cases "p < length (im_heap c)")
    case True
    with 4 obtain j k where "j < length ths" "ths ! j = Leading k p" using flight_parts(4) [OF inv, of p] by (auto simp: heap nth_append)
    moreover from this i have "j \<noteq> i" by auto
    ultimately show ?thesis by (intro exI [of _ j]) auto
  next
    case False
    with 4 have "p = length (im_heap c)" by (simp add: heap)
    then show ?thesis using i by (intro exI [of _ i]) simp
  qed
next
  case (5 p)
  then show ?case using flight_parts(5) [OF inv, of p] e by (cases "p = length (im_heap c)") (auto simp: heap nth_append)
next
  case (6 j p)
  then show ?case using flight_parts(6) [OF inv, of j p] i by (cases "j = i") (auto simp: heap)
next
  case (7 p ans)
  then show ?case using flight_parts(7) [OF inv, of p ans] by (simp add: heap nth_append)
qed

lemma flight_finish:
  assumes inv: "flight_inv \<lparr>is_cache = c, is_threads = ths, is_log = lg\<rparr>" and i: "i < length ths" "ths ! i = Leading key p"
  shows "flight_inv \<lparr>is_cache = finishLocked p key ans now c, is_threads = ths[i := Idle], is_log = (p, ans) # lg\<rparr>"
proof -
  let ?c = "finishLocked p key ans now c"
  obtain e where heap: "im_heap ?c = (im_heap c)[p := e]" and e: "e_completed e" "e_done e" "e_val e = fst ans" "e_err e = snd ans"
    by (simp add: finishLocked_def Let_def)
  have sub: "set (im_entries ?c) \<subseteq> set (im_entries c)" using set_delete_sub [of key "im_entries c"] by (auto simp: finishLocked_def Let_def)
  have p: "p < length (im_heap c)" "\<not> e_completed (im_heap c ! p)" using flight_parts(2) [OF inv i] by auto
  show ?thesis
  proof (rule flight_intro, goal_cases)
    case (1 k q) with sub flight_parts(1) [OF inv, of k q] show ?case by (auto simp: heap)
  next
    case (2 j k q)
    then have j: "j \<noteq> i" "j < length ths" "ths ! j = Leading k q" by (cases "j = i"; simp)+
    then have "q \<noteq> p" using flight_parts(3) [OF inv j(2) i(1) j(3)] i(2) by auto
    then show ?case using flight_parts(2) [OF inv j(2,3)] by (simp add: heap)
  next
    case (3 j j' k k' q)
    then show ?case using flight_parts(3) [OF inv, of j j' k q k'] i by (cases "j = i"; cases "j' = i") auto
  next
    case (4 q)
    then have "q \<noteq> p" using e p by (auto simp: heap)
    with 4 obtain j k where "j < length ths" "ths ! j = Leading k q" using flight_parts(4) [OF inv, of q] by (auto simp: heap)
    moreover from this i \<open>q \<noteq> p\<close> have "j \<noteq> i" by auto
    ultimately show ?case by (intro exI [of _ j]) auto
  next
    case (5 q) then show ?case using flight_parts(5) [OF inv, of q] e p by (cases "q = p") (auto simp: heap)
  next
    case (6 j q) then show ?case using flight_parts(6) [OF inv, of j q] by (cases "j = i") (auto simp: heap)
  next
    case (7 q a)
    then show ?case using flight_parts(7) [OF inv, of q a] e p by (cases "q = p") (auto simp: heap)
  qed
qed

lemma flight_step: "do_step visit zero a b \<Longrightarrow> flight_inv a \<Longrightarrow> flight_inv b"
proof (induction rule: do_step.induct)
  case (hit i ths now key c p ans c' lg)
  from hit(3) show ?case
  proof (cases rule: do_begin_cases)
    case (hit p')
    with flight_parts(1) [OF \<open>flight_inv _\<close>] flight_log [OF \<open>flight_inv _\<close>, of p'] show ?thesis
      by (auto dest: map_of_SomeD)
  qed simp_all
next
  case (follow i ths now key c p c' lg)
  from follow(3) show ?case
  proof (cases rule: do_begin_cases)
    case (follow p')
    then have "p < length (im_heap c)" using flight_parts(1) [OF \<open>flight_inv _\<close>] by (auto dest: map_of_SomeD)
    then show ?thesis using follow \<open>flight_inv _\<close> \<open>i < length ths\<close> \<open>ths ! i = Idle\<close> by (auto intro: flight_retire)
  qed simp_all
next
  case (lead i ths now key c p c' lg)
  note facts = lead(1,2,4)
  from lead(3) show ?case
  proof (cases rule: do_begin_cases)
    case (lead e)
    have "set (im_entries c') \<subseteq> insert (key, length (im_heap c)) (set (im_entries c))"
      using evict_sub [of visit now "c\<lparr>im_heap := im_heap c @ [e], im_entries := AList.update key (length (im_heap c)) (im_entries c)\<rparr>"]
        set_update_sub [of key "length (im_heap c)" "im_entries c"] unfolding lead(2) by auto
    then show ?thesis using lead flight_lead [OF facts(3,1,2) lead(3,4), of c' key] by simp
  qed simp_all
next
  case (finish i ths key p outcome c ans c' lg now)
  then have "flight_inv \<lparr>is_cache = c', is_threads = ths, is_log = lg\<rparr>"
    by (cases outcome) (auto simp: flight_inv_def)
  then show ?case using finish by (intro flight_finish)
next
  case (wake i ths p ans err c lg)
  have p: "p < length (im_heap c)" using flight_parts(6) [OF wake(4,1,2)] .
  with wake flight_parts(5) [OF wake(4) p] have c: "e_completed (im_heap c ! p)" "ans = (e_val (im_heap c ! p), e_err (im_heap c ! p))"
    by (auto simp: idem_waitFor_def split: if_splits)
  from flight_log [OF wake(4) p c(1)] show ?case
    unfolding c(2) using wake(1,2) by (intro flight_retire) auto
next
  case (cancel i ths p ans err c lg)
  then show ?case by (intro flight_retire) auto
qed

lemma flight_any_step: "any_step visit zero a b \<Longrightarrow> flight_inv a \<Longrightarrow> flight_inv b"
proof (induction rule: any_step.induct)
  case (forget c ths lg key)
  then show ?case using set_delete_sub [of key "im_entries c"] by (auto simp: flight_inv_def Let_def Forget_def)
next
  case (clear c ths lg)
  then show ?case by (simp add: flight_inv_def Let_def idem_Clear_def)
qed (rule flight_step)

lemma flight_reach: "(any_step visit zero)\<^sup>*\<^sup>* a b \<Longrightarrow> flight_inv a \<Longrightarrow> flight_inv b"
  by (induction rule: rtranclp_induct) (auto intro: flight_any_step)

definition idem_init :: "'v idem \<Rightarrow> nat \<Rightarrow> 'v idem_system" where
  "idem_init c n = \<lparr>is_cache = c\<lparr>im_entries := [], im_heap := []\<rparr>, is_threads = replicate n Idle, is_log = []\<rparr>"

lemma flight_init: "flight_inv (idem_init c n)"
  by (simp add: flight_inv_def idem_init_def)

subsection \<open>One leader per key\<close>

definition single_inv :: "'v idem_system \<Rightarrow> bool" where
  "single_inv sys \<longleftrightarrow> distinct (map fst (im_entries (is_cache sys)))
    \<and> (\<forall>i<length (is_threads sys). \<forall>k p. is_threads sys ! i = Leading k p \<longrightarrow> map_of (im_entries (is_cache sys)) k = Some p)"

lemma single_retire:
  "single_inv \<lparr>is_cache = c, is_threads = ths, is_log = lg\<rparr> \<Longrightarrow> \<forall>k p. pc \<noteq> Leading k p \<Longrightarrow>
   single_inv \<lparr>is_cache = c, is_threads = ths[i := pc], is_log = lg'\<rparr>"
  by (auto simp: single_inv_def nth_list_update split: if_splits) (metis nth_list_update_eq nth_list_update_neq)

lemma single_lead:
  assumes flight: "flight_inv \<lparr>is_cache = c, is_threads = ths, is_log = lg\<rparr>" and single: "single_inv \<lparr>is_cache = c, is_threads = ths, is_log = lg\<rparr>"
    and visit: "visits_all visit" and i: "i < length ths" and e: "\<not> e_completed e"
    and old: "\<forall>p. map_of (im_entries c) key = Some p \<longrightarrow> e_completed (im_heap c ! p)"
    and c'_def: "c' = evictLocked visit now (c\<lparr>im_heap := im_heap c @ [e], im_entries := AList.update key (length (im_heap c)) (im_entries c)\<rparr>)"
  shows "single_inv \<lparr>is_cache = c', is_threads = ths[i := Leading key (length (im_heap c))], is_log = lg\<rparr>"
proof -
  let ?n = "length (im_heap c)" and ?es = "AList.update key (length (im_heap c)) (im_entries c)"
  have dist: "distinct (map fst ?es)" using single by (simp add: single_inv_def distinct_update)
  have dist': "distinct (map fst (im_entries c'))" unfolding c'_def by (rule evict_distinct) (simp add: dist)
  have keeps: "map_of (im_entries c') k = Some p" if "map_of ?es k = Some p" "\<not> e_completed ((im_heap c @ [e]) ! p)" for k p
  proof -
    have "(k, p) \<in> set (im_entries c')" unfolding c'_def
      by (rule evict_keeps [OF visit]) (use that dist in \<open>auto dest: map_of_SomeD\<close>)
    then show ?thesis using dist' by (simp add: map_of_is_SomeI)
  qed
  have "map_of (im_entries c') k = Some p" if j: "j < length ths" "ths[i := Leading key ?n] ! j = Leading k p" for j k p
  proof (cases "j = i")
    case True
    with j i have "k = key" "p = ?n" by auto
    then show ?thesis using e by (intro keeps) (simp_all add: update_conv')
  next
    case False
    with j have pc: "ths ! j = Leading k p" by simp
    have p: "p < ?n" "\<not> e_completed (im_heap c ! p)" using flight_parts(2) [OF flight j(1) pc] by auto
    have "map_of (im_entries c) k = Some p" using single j(1) pc by (simp add: single_inv_def)
    moreover from this old p have "k \<noteq> key" by auto
    ultimately show ?thesis using p by (intro keeps) (simp_all add: update_conv' nth_append)
  qed
  with dist' show ?thesis by (simp add: single_inv_def)
qed

lemma single_finish:
  assumes flight: "flight_inv \<lparr>is_cache = c, is_threads = ths, is_log = lg\<rparr>" and single: "single_inv \<lparr>is_cache = c, is_threads = ths, is_log = lg\<rparr>"
    and i: "i < length ths" "ths ! i = Leading key p"
  shows "single_inv \<lparr>is_cache = finishLocked p key ans now c, is_threads = ths[i := Idle], is_log = lg'\<rparr>"
proof -
  have "map_of (im_entries (finishLocked p key ans now c)) k = Some q"
    if j: "j < length ths" "ths[i := Idle] ! j = Leading k q" for j k q
  proof -
    have pc: "j \<noteq> i" "ths ! j = Leading k q" using j i by (cases "j = i"; simp)+
    then have m: "map_of (im_entries c) k = Some q" "map_of (im_entries c) key = Some p" using single i j(1) by (auto simp: single_inv_def)
    have "k \<noteq> key"
    proof
      assume "k = key"
      with m have "q = p" by simp
      with flight_parts(3) [OF flight j(1) i(1) pc(2)] i(2) pc(1) show False by simp
    qed
    then show ?thesis using m(1) by (auto simp: finishLocked_def Let_def delete_conv')
  qed
  moreover have "distinct (map fst (im_entries (finishLocked p key ans now c)))"
    using single by (auto simp: single_inv_def finishLocked_def Let_def distinct_delete)
  ultimately show ?thesis by (simp add: single_inv_def)
qed

lemma single_step: "do_step visit zero a b \<Longrightarrow> visits_all visit \<Longrightarrow> flight_inv a \<Longrightarrow> single_inv a \<Longrightarrow> single_inv b"
proof (induction rule: do_step.induct)
  case (hit i ths now key c p ans c' lg)
  from hit(3) show ?case by (cases rule: do_begin_cases) (use hit in \<open>simp_all add: single_inv_def\<close>)
next
  case (follow i ths now key c p c' lg)
  from follow(3) have "c' = c" by (cases rule: do_begin_cases) simp_all
  with follow show ?case by (auto intro: single_retire)
next
  case (lead i ths now key c p c' lg)
  note facts = lead(5,6,4,1)
  from lead(3) show ?case
  proof (cases rule: do_begin_cases)
    case (lead e)
    then show ?thesis using single_lead [OF facts(1,2) _ facts(4) lead(3,5,2)] lead(4-) \<open>visits_all visit\<close> by simp
  qed simp_all
next
  case (finish i ths key p outcome c ans c' lg now)
  then have "flight_inv \<lparr>is_cache = c', is_threads = ths, is_log = lg\<rparr>" "single_inv \<lparr>is_cache = c', is_threads = ths, is_log = lg\<rparr>"
    by (cases outcome; auto simp: flight_inv_def single_inv_def)+
  then show ?case using finish(1,2) by (rule single_finish)
next
  case (wake i ths p ans err c lg)
  then show ?case by (auto intro: single_retire)
next
  case (cancel i ths p ans err c lg)
  then show ?case by (auto intro: single_retire)
qed

lemma single_reach:
  "(do_step visit zero)\<^sup>*\<^sup>* a b \<Longrightarrow> visits_all visit \<Longrightarrow> flight_inv a \<Longrightarrow> single_inv a \<Longrightarrow> flight_inv b \<and> single_inv b"
  by (induction rule: rtranclp_induct) (auto intro: single_step flight_step)

subsection \<open>Properties\<close>

lemma finish_then_hit:
  assumes "p < length (im_heap c)" and "map_of (im_entries c) key = Some p" and "snd ans = None \<or> im_cacheErrors c"
    and "0 < im_ttl c" and "now' \<le> now + im_ttl c"
  shows "do_begin visit zero now' key (finishLocked p key ans now c) = (Hit p ans, finishLocked p key ans now c)"
  using assms by (auto simp: do_begin_def finishLocked_def Let_def idem_expired_def)

lemma finish_then_retry:
  assumes "snd ans \<noteq> None" and "\<not> im_cacheErrors c"
  shows "\<exists>c'. do_begin visit zero now' key (finishLocked p key ans now c) = (Lead (length (im_heap c)), c')"
  using assms by (auto simp: do_begin_def finishLocked_def Let_def delete_conv')

text \<open>
  C16. \<open>Do\<close> runs its function at most once at a time per key.  For any number of threads, any
  interleaving of their calls, any outcomes of the functions, panics included, and any order in
  which eviction visits the map: no two threads lead the same key, and a call that finds the key in
  flight becomes a follower of that very execution.  A follower whose entry is not yet done has a
  leader still running, so it cannot wait for nothing, and all answers given from one entry, to its
  leader, its followers and later hits, are the same.
\<close>

theorem idempotency_single_flight:
  assumes "visits_all visit" and "(do_step visit zero)\<^sup>*\<^sup>* (idem_init c n) sys"
  shows "(\<forall>i<length (is_threads sys). \<forall>j<length (is_threads sys). \<forall>key p q.
            is_threads sys ! i = Leading key p \<and> is_threads sys ! j = Leading key q \<longrightarrow> i = j)
    \<and> (\<forall>i<length (is_threads sys). \<forall>key p now. is_threads sys ! i = Leading key p \<longrightarrow>
         do_begin visit zero now key (is_cache sys) = (Follow p, is_cache sys))
    \<and> (\<forall>i<length (is_threads sys). \<forall>p. is_threads sys ! i = Following p \<longrightarrow>
         idem_waitFor False [] zero p (is_cache sys) \<noteq> []
         \<or> (\<exists>j<length (is_threads sys). \<exists>key. is_threads sys ! j = Leading key p))
    \<and> (\<forall>p a b. (p, a) \<in> set (is_log sys) \<and> (p, b) \<in> set (is_log sys) \<longrightarrow> a = b)"
proof -
  obtain cc ths lg where sys: "sys = \<lparr>is_cache = cc, is_threads = ths, is_log = lg\<rparr>" by (cases sys)
  have "single_inv (idem_init c n)" by (simp add: single_inv_def idem_init_def)
  from single_reach [OF assms(2,1) flight_init this]
  have flight: "flight_inv \<lparr>is_cache = cc, is_threads = ths, is_log = lg\<rparr>" and single: "single_inv \<lparr>is_cache = cc, is_threads = ths, is_log = lg\<rparr>"
    unfolding sys by simp_all
  have entry: "map_of (im_entries cc) key = Some p" if "i < length ths" "ths ! i = Leading key p" for i key p
    using single that by (simp add: single_inv_def)
  have one: "i = j" if "i < length ths" "j < length ths" "ths ! i = Leading key p" "ths ! j = Leading key q" for i j key p q
    using flight_parts(3) [OF flight that(1,2,3)] entry [OF that(1,3)] entry [OF that(2,4)] that(4) by simp
  moreover have "do_begin visit zero now key cc = (Follow p, cc)" if "i < length ths" "ths ! i = Leading key p" for i key p now
    using entry [OF that] flight_parts(2) [OF flight that] by (simp add: do_begin_def Let_def)
  moreover have "idem_waitFor False [] zero p cc \<noteq> [] \<or> (\<exists>j<length ths. \<exists>key. ths ! j = Leading key p)"
    if "i < length ths" "ths ! i = Following p" for i p
    using flight_parts(4,5) [OF flight flight_parts(6) [OF flight that]] by (auto simp: idem_waitFor_def)
  moreover have "a = b" if "(p, a) \<in> set lg" "(p, b) \<in> set lg" for p a b
    using flight_parts(7) [OF flight that(1)] flight_parts(7) [OF flight that(2)] by simp
  ultimately show ?thesis unfolding sys by simp blast
qed

theorem idempotency_single_flight_witness:
  "\<exists>sys. (do_step (\<lambda>es. es) 0)\<^sup>*\<^sup>* (idem_init (idem_New [] :: int idem) 2) sys
    \<and> do_begin (\<lambda>es. es) 0 5 ''k'' (is_cache sys) = (Follow 0, is_cache sys)"
proof -
  let ?c = "(idem_New [] :: int idem)\<lparr>im_entries := [], im_heap := []\<rparr>"
  define c' where "c' = snd (do_begin (\<lambda>es. es) 0 3 ''k'' ?c)"
  have "do_begin (\<lambda>es. es) 0 3 ''k'' ?c = (Lead 0, c')" by (simp add: c'_def do_begin_def Let_def idem_New_def)
  from do_step.lead [OF _ _ this, of 0 "[Idle, Idle]" "[]"]
  have step: "do_step (\<lambda>es. es) 0 (idem_init (idem_New []) 2) \<lparr>is_cache = c', is_threads = [Leading ''k'' 0, Idle], is_log = []\<rparr>"
    by (simp add: idem_init_def numeral_2_eq_2)
  note reach = r_into_rtranclp [of "do_step (\<lambda>es. es) 0", OF step]
  have "visits_all (\<lambda>es. es)" by (simp add: visits_all_def)
  from idempotency_single_flight [OF this reach]
  have "do_begin (\<lambda>es. es) 0 5 ''k'' c' = (Follow 0, c')" by (elim conjE) force
  with reach show ?thesis by (intro exI [of _ "\<lparr>is_cache = c', is_threads = [Leading ''k'' 0, Idle], is_log = []\<rparr>"]) simp
qed

text \<open>
  \<open>Forget\<close> during a flight breaks this.  \<open>finishLocked\<close> deletes the key without asking whether its entry
  is still the leader's own: a leader that was forgotten and then fails removes the entry of its
  successor, and a third call starts a second execution while the successor is still running.
\<close>

lemma forget_double_flight:
  fixes c :: "'v idem"
  assumes "im_entries c = []" "im_heap c = []" "im_maxEntries c = 0" "\<not> im_cacheErrors c"
  shows "let c1 = snd (do_begin visit zero 0 key c);
             c2 = snd (do_begin visit zero 1 key (Forget key c1));
             c3 = finishLocked 0 key (zero, Some err) 2 c2 in
         fst (do_begin visit zero 0 key c) = Lead 0 \<and> fst (do_begin visit zero 1 key (Forget key c1)) = Lead 1
         \<and> \<not> e_completed (im_heap c3 ! 1) \<and> fst (do_begin visit zero 3 key c3) = Lead 2"
  using assms by (simp add: do_begin_def Let_def evictLocked_def Forget_def finishLocked_def)

end
