(* ===== verification/Limiter_Buckets.thy ===== *)
theory Limiter_Buckets
  imports Limiter
begin

section \<open>Token bucket, leaky bucket, GCRA and blocking waits (limiter/)\<close>

text \<open>
  The lock-free limiters keep a level and a timestamp, or one theoretical arrival time, in atomics.
  As for the fixed window, a call is a program counter that stands before one atomic operation, and
  threads interleave at these operations.  The token bucket and the leaky bucket share the whole
  protocol and differ in the decision on the level they loaded, so the protocol \<open>bk_step\<close> takes the
  decision as an argument.  Floating-point values are rationals rounded by \<open>fl64\<close>.
\<close>

subsection \<open>Buckets (token_bucket.go, leaky_bucket.go)\<close>

record bucket =
  bk_rate :: rat
  bk_cap :: rat
  bk_level :: rat
  bk_last :: int
  bk_allowed :: "64 word"
  bk_denied :: "64 word"
  bk_acquired :: "64 word"
  bk_closed :: bool

definition elapsed_flow :: "int \<Rightarrow> int \<Rightarrow> rat \<Rightarrow> rat" where
  "elapsed_flow now lst rate =
    (let flow = fl64 (fl64 (fl64 (of_int (wrap64 (now - lst))) / 10 ^ 9) * rate) in if flow < 0 then 0 else flow)"

text \<open>The new level if the request is granted.\<close>

definition tb_avail :: "bucket \<Rightarrow> int \<Rightarrow> int \<Rightarrow> rat \<Rightarrow> rat" where
  "tb_avail b now lst cur =
    (let avail = fl64 (cur + elapsed_flow now lst (bk_rate b)) in if bk_cap b < avail then bk_cap b else avail)"

definition tb_decide :: "bucket \<Rightarrow> int \<Rightarrow> int \<Rightarrow> int \<Rightarrow> rat \<Rightarrow> rat option" where
  "tb_decide b now lst n cur =
    (let avail = tb_avail b now lst cur in
     if avail < fl64 (of_int n) then None else Some (fl64 (avail - fl64 (of_int n))))"

definition lk_level :: "bucket \<Rightarrow> int \<Rightarrow> int \<Rightarrow> rat \<Rightarrow> rat" where
  "lk_level b now lst cur =
    (let level = fl64 (cur - elapsed_flow now lst (bk_rate b)) in if level < 0 then 0 else level)"

definition lk_decide :: "bucket \<Rightarrow> int \<Rightarrow> int \<Rightarrow> int \<Rightarrow> rat \<Rightarrow> rat option" where
  "lk_decide b now lst n cur =
    (let level = lk_level b now lst cur in
     if bk_cap b < fl64 (level + fl64 (of_int n)) then None else Some (fl64 (level + fl64 (of_int n))))"

definition newTokenBucket :: "int \<Rightarrow> rat \<Rightarrow> int \<Rightarrow> bucket" where
  "newTokenBucket now rate burst =
    (let burst = (if burst < 1 then 1 else burst) in
     \<lparr>bk_rate = rate, bk_cap = fl64 (of_int burst), bk_level = fl64 (of_int burst), bk_last = now,
      bk_allowed = 0, bk_denied = 0, bk_acquired = 0, bk_closed = False\<rparr>)"

definition newLeakyBucket :: "int \<Rightarrow> rat \<Rightarrow> int \<Rightarrow> bucket" where
  "newLeakyBucket now rate burst =
    (let burst = (if burst < 1 then 1 else burst) in
     \<lparr>bk_rate = rate, bk_cap = fl64 (of_int burst), bk_level = 0, bk_last = now,
      bk_allowed = 0, bk_denied = 0, bk_acquired = 0, bk_closed = False\<rparr>)"

datatype bk_pc =
    LoadLast int int
  | LoadLevel nat int int int
  | CasLevel nat int int int rat rat
  | CasLast int int int
  | ReloadLast nat int int
  | BkAllowed int | BkAcquired int | BkDenied
  | BkReturned bool

fun bk_step :: "(bucket \<Rightarrow> int \<Rightarrow> int \<Rightarrow> int \<Rightarrow> rat \<Rightarrow> rat option) \<Rightarrow> bk_pc \<Rightarrow> bucket \<Rightarrow> bk_pc \<times> bucket" where
  "bk_step decide (LoadLast now n) b =
    (let lst = bk_last b in (LoadLevel 0 (if now < lst then lst else now) lst n, b))"
| "bk_step decide (LoadLevel att now lst n) b =
    (if 2 \<le> att then (BkDenied, b)
     else case decide b now lst n (bk_level b) of
         None \<Rightarrow> (BkDenied, b) | Some nxt \<Rightarrow> (CasLevel att now lst n (bk_level b) nxt, b))"
| "bk_step decide (CasLevel att now lst n cur nxt) b =
    (if bk_level b = cur then (CasLast now lst n, b\<lparr>bk_level := nxt\<rparr>) else (ReloadLast att now n, b))"
| "bk_step decide (CasLast now lst n) b =
    (BkAllowed n, if bk_last b = lst then b\<lparr>bk_last := now\<rparr> else b)"
| "bk_step decide (ReloadLast att now n) b = (LoadLevel (att + 1) now (bk_last b) n, b)"
| "bk_step decide (BkAllowed n) b = (BkAcquired n, b\<lparr>bk_allowed := bk_allowed b + 1\<rparr>)"
| "bk_step decide (BkAcquired n) b = (BkReturned True, b\<lparr>bk_acquired := bk_acquired b + word_of_int n\<rparr>)"
| "bk_step decide BkDenied b = (BkReturned False, b\<lparr>bk_denied := bk_denied b + 1\<rparr>)"
| "bk_step decide (BkReturned r) b = (BkReturned r, b)"

text \<open>A call that nobody interrupts is at most six steps.\<close>

fun bk_steps :: "(bucket \<Rightarrow> int \<Rightarrow> int \<Rightarrow> int \<Rightarrow> rat \<Rightarrow> rat option) \<Rightarrow> nat \<Rightarrow> bk_pc \<Rightarrow> bucket \<Rightarrow> bk_pc \<times> bucket" where
  "bk_steps decide 0 pc b = (pc, b)"
| "bk_steps decide (Suc k) pc b = (case bk_step decide pc b of (pc', b') \<Rightarrow> bk_steps decide k pc' b')"

definition bk_acquire :: "(bucket \<Rightarrow> int \<Rightarrow> int \<Rightarrow> int \<Rightarrow> rat \<Rightarrow> rat option) \<Rightarrow> int \<Rightarrow> int \<Rightarrow> bucket \<Rightarrow> bool \<times> bucket" where
  "bk_acquire decide now n b =
    (case bk_steps decide 6 (LoadLast now n) b of (pc, b') \<Rightarrow> (pc = BkReturned True, b'))"

definition tb_acquire :: "int \<Rightarrow> int \<Rightarrow> bucket \<Rightarrow> bool \<times> bucket" where
  "tb_acquire = bk_acquire tb_decide"

definition tb_TryAcquire :: "int \<Rightarrow> int \<Rightarrow> bucket \<Rightarrow> bool \<times> bucket" where
  "tb_TryAcquire now n b =
    (if n \<le> 0 then (True, b) else if bk_closed b then (False, b) else tb_acquire now n b)"

definition tb_Allow :: "int \<Rightarrow> bucket \<Rightarrow> bool \<times> bucket" where
  "tb_Allow now b = (if bk_closed b then (False, b) else tb_acquire now 1 b)"

definition lk_acquire :: "int \<Rightarrow> int \<Rightarrow> bucket \<Rightarrow> bool \<times> bucket" where
  "lk_acquire = bk_acquire lk_decide"

definition lk_TryAcquire :: "int \<Rightarrow> int \<Rightarrow> bucket \<Rightarrow> bool \<times> bucket" where
  "lk_TryAcquire now n b =
    (if n \<le> 0 then (True, b) else if bk_closed b then (False, b) else lk_acquire now n b)"

definition lk_Allow :: "int \<Rightarrow> bucket \<Rightarrow> bool \<times> bucket" where
  "lk_Allow now b = (if bk_closed b then (False, b) else lk_acquire now 1 b)"

definition bk_Close :: "bucket \<Rightarrow> bucket" where
  "bk_Close b = b\<lparr>bk_closed := True\<rparr>"

definition bk_Metrics :: "bucket \<Rightarrow> limiter_metrics" where
  "bk_Metrics b = \<lparr>lm_Allowed = bk_allowed b, lm_Denied = bk_denied b, lm_Acquired = bk_acquired b\<rparr>"

text \<open>The estimates that size the sleep of \<open>Wait\<close>, in nanoseconds.\<close>

definition Microsecond :: int where "Microsecond = 1000"
definition Millisecond :: int where "Millisecond = 1000000"

definition clamp_delay :: "int \<Rightarrow> int" where
  "clamp_delay d =
    (let d = (if d < Microsecond then Microsecond else d) in if Millisecond < d then Millisecond else d)"

definition nextAvailableDelay :: "int \<Rightarrow> bucket \<Rightarrow> int" where
  "nextAvailableDelay now b =
    (let now = (if now < bk_last b then bk_last b else now); avail = tb_avail b now (bk_last b) (bk_level b) in
     if 1 \<le> avail then 0
     else clamp_delay (trunc (fl64 (fl64 (fl64 (1 - avail) / bk_rate b) * 10 ^ 9))))"

definition nextDrainDelay :: "int \<Rightarrow> bucket \<Rightarrow> int" where
  "nextDrainDelay now b =
    (let now = (if now < bk_last b then bk_last b else now); level = lk_level b now (bk_last b) (bk_level b) in
     if fl64 (level + 1) \<le> bk_cap b then 0
     else clamp_delay (trunc (fl64 (fl64 (fl64 (fl64 (level + 1) - bk_cap b) / bk_rate b) * 10 ^ 9))))"

fun bk_interleave :: "(bucket \<Rightarrow> int \<Rightarrow> int \<Rightarrow> int \<Rightarrow> rat \<Rightarrow> rat option) \<Rightarrow> nat list \<Rightarrow> bk_pc list \<times> bucket \<Rightarrow> bk_pc list \<times> bucket" where
  "bk_interleave decide [] s = s"
| "bk_interleave decide (i # sched) (pcs, b) =
    (case bk_step decide (pcs ! i) b of (pc, b') \<Rightarrow> bk_interleave decide sched (pcs[i := pc], b'))"

subsection \<open>GCRA (gcra.go)\<close>

record gcra =
  gc_emissionNs :: rat
  gc_burstOffsetNs :: rat
  gc_tat :: int
  gc_allowed :: "64 word"
  gc_denied :: "64 word"
  gc_acquired :: "64 word"
  gc_closed :: bool

definition newGCRA :: "rat \<Rightarrow> int \<Rightarrow> gcra" where
  "newGCRA rate burst =
    (let burst = (if burst < 1 then 1 else burst); emission = fl64 (10 ^ 9 / rate) in
     \<lparr>gc_emissionNs = emission, gc_burstOffsetNs = fl64 (emission * fl64 (of_int burst)), gc_tat = 0,
      gc_allowed = 0, gc_denied = 0, gc_acquired = 0, gc_closed = False\<rparr>)"

definition gcra_cost :: "gcra \<Rightarrow> int \<Rightarrow> int" where
  "gcra_cost g n = trunc (fl64 (fl64 (of_int n) * gc_emissionNs g))"

definition gcra_allowance :: "gcra \<Rightarrow> int" where
  "gcra_allowance g = trunc (gc_burstOffsetNs g)"

text \<open>
  The counter of a call: \<open>GLoad\<close> before the load and the test, with the clock reading of this attempt
  and the one it will take for a second attempt, \<open>GCas\<close> before the compare-and-swap.
\<close>

datatype gcra_pc =
    GLoad nat int int int
  | GCas nat int int int int int
  | GAllowed int | GAcquired int | GDenied
  | GReturned bool

fun gcra_step :: "gcra_pc \<Rightarrow> gcra \<Rightarrow> gcra_pc \<times> gcra" where
  "gcra_step (GLoad att now now2 n) g =
    (if 2 \<le> att then (GDenied, g)
     else let loaded = gc_tat g; tat = (if loaded < now then now else loaded); newTAT = wrap64 (tat + gcra_cost g n) in
       if gcra_allowance g < wrap64 (newTAT - now) then (GDenied, g) else (GCas att now now2 n loaded newTAT, g))"
| "gcra_step (GCas att now now2 n loaded newTAT) g =
    (if gc_tat g = loaded then (GAllowed n, g\<lparr>gc_tat := newTAT\<rparr>) else (GLoad (att + 1) now2 now2 n, g))"
| "gcra_step (GAllowed n) g = (GAcquired n, g\<lparr>gc_allowed := gc_allowed g + 1\<rparr>)"
| "gcra_step (GAcquired n) g = (GReturned True, g\<lparr>gc_acquired := gc_acquired g + word_of_int n\<rparr>)"
| "gcra_step GDenied g = (GReturned False, g\<lparr>gc_denied := gc_denied g + 1\<rparr>)"
| "gcra_step (GReturned r) g = (GReturned r, g)"

fun gcra_steps :: "nat \<Rightarrow> gcra_pc \<Rightarrow> gcra \<Rightarrow> gcra_pc \<times> gcra" where
  "gcra_steps 0 pc g = (pc, g)"
| "gcra_steps (Suc k) pc g = (case gcra_step pc g of (pc', g') \<Rightarrow> gcra_steps k pc' g')"

definition gcra_acquire :: "int \<Rightarrow> int \<Rightarrow> gcra \<Rightarrow> bool \<times> gcra" where
  "gcra_acquire now n g = (case gcra_steps 4 (GLoad 0 now now n) g of (pc, g') \<Rightarrow> (pc = GReturned True, g'))"

definition gcra_TryAcquire :: "int \<Rightarrow> int \<Rightarrow> gcra \<Rightarrow> bool \<times> gcra" where
  "gcra_TryAcquire now n g =
    (if n \<le> 0 then (True, g) else if gc_closed g then (False, g) else gcra_acquire now n g)"

definition gcra_Allow :: "int \<Rightarrow> gcra \<Rightarrow> bool \<times> gcra" where
  "gcra_Allow now g = (if gc_closed g then (False, g) else gcra_acquire now 1 g)"

definition gcra_Close :: "gcra \<Rightarrow> gcra" where
  "gcra_Close g = g\<lparr>gc_closed := True\<rparr>"

definition gcra_Metrics :: "gcra \<Rightarrow> limiter_metrics" where
  "gcra_Metrics g = \<lparr>lm_Allowed = gc_allowed g, lm_Denied = gc_denied g, lm_Acquired = gc_acquired g\<rparr>"

definition gcra_nextDelay :: "int \<Rightarrow> gcra \<Rightarrow> int" where
  "gcra_nextDelay now g =
    (if gc_tat g \<le> now then 0
     else let deficit = wrap64 (gc_tat g - now - gcra_allowance g) in
       if deficit \<le> 0 then 0 else clamp_delay deficit)"

subsection \<open>Waiting\<close>

text \<open>
  All five \<open>Wait\<close> methods are one polling loop around \<open>Allow\<close>.  A poll is what the world does around
  one iteration: what other goroutines did to the limiter before it and during the sleep, the state
  of the context at its start and during the sleep, and the clock after it.  When the polls run out
  the call is still waiting.
\<close>

record 'l poll =
  others_before :: "'l \<Rightarrow> 'l"
  ctx_before :: "string option"
  ctx_asleep :: "string option"
  others_asleep :: "'l \<Rightarrow> 'l"
  poll_now :: int

datatype wait_result = Waiting | WaitNil | WaitErr limiter_error

fun poll_loop :: "('l \<Rightarrow> bool) \<Rightarrow> (int \<Rightarrow> 'l \<Rightarrow> bool \<times> 'l) \<Rightarrow> 'l poll list \<Rightarrow> 'l \<Rightarrow> wait_result \<times> 'l" where
  "poll_loop shut allow [] l = (Waiting, l)"
| "poll_loop shut allow (p # ps) l =
    (let l = others_before p l in
     if shut l then (WaitErr (closedWaitResult (ctx_before p)), l)
     else case ctx_before p of
         Some e \<Rightarrow> (WaitErr (CtxErr e), l)
       | None \<Rightarrow> (case ctx_asleep p of
             Some e \<Rightarrow> (WaitErr (CtxErr e), l)
           | None \<Rightarrow> (case allow (poll_now p) (others_asleep p l) of
                 (True, l') \<Rightarrow> (WaitNil, l')
               | (False, l') \<Rightarrow> poll_loop shut allow ps l')))"

definition limiter_Wait :: "('l \<Rightarrow> bool) \<Rightarrow> (int \<Rightarrow> 'l \<Rightarrow> bool \<times> 'l) \<Rightarrow> string option \<Rightarrow> int \<Rightarrow> 'l poll list \<Rightarrow> 'l \<Rightarrow> wait_result \<times> 'l" where
  "limiter_Wait shut allow ctx now ps l =
    (if shut l then (WaitErr (closedWaitResult ctx), l)
     else case allow now l of (True, l') \<Rightarrow> (WaitNil, l') | (False, l') \<Rightarrow> poll_loop shut allow ps l')"

definition tb_Wait :: "string option \<Rightarrow> int \<Rightarrow> bucket poll list \<Rightarrow> bucket \<Rightarrow> wait_result \<times> bucket" where
  "tb_Wait = limiter_Wait bk_closed tb_Allow"

definition lk_Wait :: "string option \<Rightarrow> int \<Rightarrow> bucket poll list \<Rightarrow> bucket \<Rightarrow> wait_result \<times> bucket" where
  "lk_Wait = limiter_Wait bk_closed lk_Allow"

definition gcra_Wait :: "string option \<Rightarrow> int \<Rightarrow> gcra poll list \<Rightarrow> gcra \<Rightarrow> wait_result \<times> gcra" where
  "gcra_Wait = limiter_Wait gc_closed gcra_Allow"

definition sw_Wait :: "string option \<Rightarrow> int \<Rightarrow> sliding_window poll list \<Rightarrow> sliding_window \<Rightarrow> wait_result \<times> sliding_window" where
  "sw_Wait = limiter_Wait sw_closed sw_Allow"

definition fw_Wait :: "string option \<Rightarrow> int \<Rightarrow> fixed_window poll list \<Rightarrow> fixed_window \<Rightarrow> wait_result \<times> fixed_window" where
  "fw_Wait = limiter_Wait fw_closed fw_Allow"

subsection \<open>Construction (limiter.go)\<close>

datatype any_limiter =
  TokenBucket bucket | SlidingWindow sliding_window | FixedWindow fixed_window | LeakyBucket bucket | GCRA gcra

definition NewLimiter :: "int \<Rightarrow> limiter_options \<Rightarrow> any_limiter option" where
  "NewLimiter now opts =
    (if lo_Rate opts \<le> 0 then None
     else let o1 = limiter_withDefaults opts in
       if lo_Algorithm o1 = AlgorithmTokenBucket then Some (TokenBucket (newTokenBucket now (lo_Rate o1) (lo_Burst o1)))
       else if lo_Algorithm o1 = AlgorithmSlidingWindow then Some (SlidingWindow (newSlidingWindow now (lo_Rate o1) (lo_Window o1)))
       else if lo_Algorithm o1 = AlgorithmFixedWindow then Some (FixedWindow (newFixedWindow now (trunc (lo_Rate o1)) (lo_Window o1)))
       else if lo_Algorithm o1 = AlgorithmLeakyBucket then Some (LeakyBucket (newLeakyBucket now (lo_Rate o1) (lo_Burst o1)))
       else if lo_Algorithm o1 = AlgorithmGCRA then Some (GCRA (newGCRA (lo_Rate o1) (lo_Burst o1)))
       else None)"

subsection \<open>GCRA bounds every interval\<close>

text \<open>
  Successful compare-and-swaps, in their order, with the clock reading and the cost of each.  The log
  is built beside the run.
\<close>

fun gcra_log :: "nat list \<Rightarrow> gcra_pc list \<times> gcra \<Rightarrow> (int \<times> int) list" where
  "gcra_log [] s = []"
| "gcra_log (i # sched) (pcs, g) =
    (case gcra_step (pcs ! i) g of (pc, g') \<Rightarrow>
      (case pcs ! i of GCas att now now2 n loaded newTAT \<Rightarrow> if gc_tat g = loaded then [(now, gcra_cost g n)] else [] | _ \<Rightarrow> [])
      @ gcra_log sched (pcs[i := pc], g'))"

text \<open>The arrival time after a sequence of admissions.\<close>

definition tat_after :: "int \<Rightarrow> (int \<times> int) list \<Rightarrow> int" where
  "tat_after t xs = foldl (\<lambda>t (now, c). max t now + c) t xs"

lemma tat_after_simps [simp]:
  "tat_after t [] = t" "tat_after t (x # xs) = tat_after (max t (fst x) + snd x) xs" "tat_after t (xs @ ys) = tat_after (tat_after t xs) ys"
  by (simp_all add: tat_after_def split_beta)

lemma tat_after_lower:
  "\<forall>x\<in>set xs. 0 \<le> snd x \<Longrightarrow> s \<le> t \<Longrightarrow> s + (\<Sum>x\<leftarrow>xs. snd x) \<le> tat_after t xs"
proof (induction xs arbitrary: s t)
  case (Cons x xs)
  from Cons.prems have "s + snd x \<le> max t (fst x) + snd x" by (simp add: max.coboundedI1)
  with Cons.IH [OF _ this] Cons.prems(1) show ?case by (simp add: add.assoc)
qed simp

text \<open>Admissions that respect the allowance, each judged by its own clock reading.\<close>

fun admissible :: "int \<Rightarrow> int \<Rightarrow> (int \<times> int) list \<Rightarrow> bool" where
  "admissible B t [] = True"
| "admissible B t (x # xs) \<longleftrightarrow> max t (fst x) + snd x \<le> fst x + B \<and> admissible B (max t (fst x) + snd x) xs"

lemma admissible_append: "admissible B t (xs @ ys) \<longleftrightarrow> admissible B t xs \<and> admissible B (tat_after t xs) ys"
  by (induction xs arbitrary: t) auto

lemma admissible_upper: "admissible B t xs \<Longrightarrow> xs \<noteq> [] \<Longrightarrow> tat_after t xs \<le> fst (last xs) + B"
  by (induction xs arbitrary: t) (auto split: if_splits)

lemma admissible_window:
  assumes "admissible B t xs" and "\<forall>x\<in>set xs. 0 \<le> snd x \<and> s \<le> fst x \<and> fst x \<le> e" and "s \<le> e" "0 \<le> B"
  shows "(\<Sum>x\<leftarrow>xs. snd x) \<le> e - s + B"
proof (cases xs)
  case Nil
  then show ?thesis using assms by simp
next
  case (Cons y ys)
  have "s + snd y \<le> max t (fst y) + snd y" using assms(2) Cons by (simp add: max.coboundedI2)
  from tat_after_lower [OF _ this, of ys] have "s + (\<Sum>x\<leftarrow>xs. snd x) \<le> tat_after t xs"
    using assms(2) Cons by (simp add: add.assoc)
  also have "\<dots> \<le> fst (last xs) + B" using admissible_upper [OF assms(1)] Cons by simp
  also have "\<dots> \<le> e + B" using assms(2) last_in_set [of xs] Cons by (auto simp del: last.simps)
  finally show ?thesis by simp
qed

text \<open>Sizes within which no sum wraps around.\<close>

definition gcra_fits :: "gcra \<Rightarrow> int \<Rightarrow> int \<Rightarrow> bool" where
  "gcra_fits g now n \<longleftrightarrow> 0 \<le> now \<and> now < 2 ^ 60 \<and> 0 \<le> gcra_cost g n \<and> gcra_cost g n < 2 ^ 60"

fun gcra_pc_ok :: "gcra \<Rightarrow> gcra_pc \<Rightarrow> bool" where
  "gcra_pc_ok g (GLoad att now now2 n) \<longleftrightarrow> gcra_fits g now n \<and> gcra_fits g now2 n"
| "gcra_pc_ok g (GCas att now now2 n loaded newTAT) \<longleftrightarrow> gcra_fits g now n \<and> gcra_fits g now2 n
    \<and> newTAT = max loaded now + gcra_cost g n \<and> newTAT \<le> now + gcra_allowance g"
| "gcra_pc_ok g pc = True"

definition gcra_inv :: "gcra_pc list \<Rightarrow> gcra \<Rightarrow> bool" where
  "gcra_inv pcs g \<longleftrightarrow> 0 \<le> gc_tat g \<and> gc_tat g < 2 ^ 62 \<and> 0 \<le> gcra_allowance g \<and> gcra_allowance g < 2 ^ 60
    \<and> (\<forall>pc\<in>set pcs. gcra_pc_ok g pc)"

lemma gcra_step_config:
  "gcra_step pc g = (pc', g') \<Longrightarrow> gc_emissionNs g' = gc_emissionNs g \<and> gc_burstOffsetNs g' = gc_burstOffsetNs g"
  by (induction pc g rule: gcra_step.induct) (auto simp: Let_def split: if_splits)

lemma gcra_config_cong:
  assumes "gc_emissionNs g' = gc_emissionNs g" and "gc_burstOffsetNs g' = gc_burstOffsetNs g"
  shows "gcra_cost g' n = gcra_cost g n" "gcra_allowance g' = gcra_allowance g" "gcra_pc_ok g' pc = gcra_pc_ok g pc"
proof -
  show c: "gcra_cost g' n = gcra_cost g n" "gcra_allowance g' = gcra_allowance g" for n
    using assms by (simp_all add: gcra_cost_def gcra_allowance_def)
  then show "gcra_pc_ok g' pc = gcra_pc_ok g pc" by (cases pc) (simp_all add: gcra_fits_def)
qed

lemma gcra_load_ok:
  assumes "gcra_fits g now n" and "0 \<le> gc_tat g" "gc_tat g < 2 ^ 62" "0 \<le> gcra_allowance g" "gcra_allowance g < 2 ^ 60"
  shows "wrap64 (max (gc_tat g) now + gcra_cost g n) = max (gc_tat g) now + gcra_cost g n"
    "wrap64 (max (gc_tat g) now + gcra_cost g n - now) = max (gc_tat g) now + gcra_cost g n - now"
  by (rule wrap64_id, use assms in \<open>simp add: gcra_fits_def in_i64_def MinInt64_def MaxInt64_def max_def\<close>)+

lemma gcra_step_inv:
  assumes inv: "gcra_inv pcs g" and i: "i < length pcs" and step: "gcra_step (pcs ! i) g = (pc', g')"
  shows "gcra_inv (pcs[i := pc']) g'"
    and "case pcs ! i of GCas att now now2 n loaded newTAT \<Rightarrow>
        if gc_tat g = loaded then gc_tat g' = max (gc_tat g) now + gcra_cost g n \<and> gc_tat g' \<le> now + gcra_allowance g \<and> 0 \<le> gcra_cost g n
        else gc_tat g' = gc_tat g | _ \<Rightarrow> gc_tat g' = gc_tat g"
proof -
  note cong = gcra_config_cong [OF gcra_step_config [OF step, THEN conjunct1] gcra_step_config [OF step, THEN conjunct2]]
  have ok: "gcra_pc_ok g (pcs ! i)" using inv i by (simp add: gcra_inv_def)
  have bounds: "0 \<le> gc_tat g" "gc_tat g < 2 ^ 62" "0 \<le> gcra_allowance g" "gcra_allowance g < 2 ^ 60"
    using inv by (simp_all add: gcra_inv_def)
  have new: "gcra_pc_ok g pc' \<and> 0 \<le> gc_tat g' \<and> gc_tat g' < 2 ^ 62"
  proof (cases "pcs ! i")
    case (GLoad att now now2 n)
    have m: "(if gc_tat g < now then now else gc_tat g) = max (gc_tat g) now" by simp
    show ?thesis using step ok bounds gcra_load_ok [of g now n]
      unfolding GLoad gcra_step.simps m by (auto simp: Let_def split: if_splits)
  next
    case (GCas att now now2 n loaded newTAT)
    then show ?thesis using step ok bounds by (auto simp: gcra_fits_def split: if_splits)
  next
    case (GReturned r)
    then have "pc' = GReturned r" "g' = g" using step by auto
    then show ?thesis using bounds by simp
  qed (use step bounds in auto)
  have "gcra_pc_ok g' pc" if "pc \<in> set (pcs[i := pc'])" for pc
    using set_update_subset_insert [of pcs i pc'] that new inv cong(3) by (auto simp: gcra_inv_def)
  then show "gcra_inv (pcs[i := pc']) g'" using new bounds cong(2) by (simp add: gcra_inv_def)
  show "case pcs ! i of GCas att now now2 n loaded newTAT \<Rightarrow>
        if gc_tat g = loaded then gc_tat g' = max (gc_tat g) now + gcra_cost g n \<and> gc_tat g' \<le> now + gcra_allowance g \<and> 0 \<le> gcra_cost g n
        else gc_tat g' = gc_tat g | _ \<Rightarrow> gc_tat g' = gc_tat g"
  proof (cases "pcs ! i")
    case (GReturned r)
    then have "g' = g" using step by auto
    then show ?thesis by (simp add: GReturned)
  qed (use step ok in \<open>auto simp: Let_def gcra_fits_def split: if_splits\<close>)
qed

lemma gcra_log_admissible:
  assumes "gcra_inv pcs g" and "\<forall>i\<in>set sched. i < length pcs"
  shows "admissible (gcra_allowance g) (gc_tat g) (gcra_log sched (pcs, g)) \<and> (\<forall>x\<in>set (gcra_log sched (pcs, g)). 0 \<le> snd x)"
  using assms
proof (induction sched arbitrary: pcs g)
  case (Cons i sched)
  obtain pc' g' where step: "gcra_step (pcs ! i) g = (pc', g')" by (cases "gcra_step (pcs ! i) g")
  have i: "i < length pcs" using Cons.prems(2) by simp
  note one = gcra_step_inv [OF Cons.prems(1) i step]
  have "gcra_allowance g' = gcra_allowance g" using gcra_step_config [OF step] by (simp add: gcra_allowance_def)
  with Cons.IH [OF one(1)] Cons.prems(2)
  have IH: "admissible (gcra_allowance g) (gc_tat g') (gcra_log sched (pcs[i := pc'], g'))" "\<forall>x\<in>set (gcra_log sched (pcs[i := pc'], g')). 0 \<le> snd x"
    by simp_all
  show ?case
  proof (cases "pcs ! i")
    case (GCas att now now2 n loaded newTAT)
    show ?thesis
    proof (cases "gc_tat g = loaded")
      case True
      with GCas step have "gcra_log (i # sched) (pcs, g) = (now, gcra_cost g n) # gcra_log sched (pcs[i := pc'], g')" by simp
      then show ?thesis using one(2) IH True by (simp add: GCas)
    next
      case False
      with GCas step have "gcra_log (i # sched) (pcs, g) = gcra_log sched (pcs[i := pc'], g')" by simp
      then show ?thesis using one(2) IH False by (simp add: GCas)
    qed
  next
    case (GReturned r)
    then have "pc' = GReturned r" "g' = g" using step by auto
    then show ?thesis using IH by (simp add: GReturned)
  qed (use one(2) IH step in simp_all)
qed simp

text \<open>
  C17. The theoretical arrival time bounds every interval, under every interleaving of concurrent
  callers.  Take any run of threads whose clock readings, costs and allowance stay clear of the ends
  of \<open>int64\<close>, and any stretch of consecutive admissions whose clock readings lie in an interval from
  \<open>s\<close> to \<open>e\<close>: their costs, \<open>n\<close> times the emission interval each, sum to at most the length of the interval
  plus the burst allowance.  Clocks may run backwards and differ between callers.
\<close>

theorem gcra_bounds_interval:
  assumes "gcra_inv pcs g" and "\<forall>i\<in>set sched. i < length pcs"
    and "gcra_log sched (pcs, g) = before @ xs @ after"
    and "\<forall>x\<in>set xs. s \<le> fst x \<and> fst x \<le> e" and "s \<le> e"
  shows "(\<Sum>x\<leftarrow>xs. snd x) \<le> e - s + gcra_allowance g"
proof -
  note log = gcra_log_admissible [OF assms(1,2), unfolded assms(3)]
  have "admissible (gcra_allowance g) (tat_after (gc_tat g) before) xs"
    using log by (simp add: admissible_append)
  moreover have "0 \<le> gcra_allowance g" using assms(1) by (simp add: gcra_inv_def)
  ultimately show ?thesis using log assms(4,5) by (intro admissible_window) auto
qed

lemma gcra_example:
  "gcra_cost (newGCRA 1000 2) 1 = 1000000" "gcra_allowance (newGCRA 1000 2) = 2000000"
proof -
  have f: "fl64 1 = 1" "fl64 2 = 2" "fl64 1000000 = 1000000" "fl64 2000000 = 2000000"
    using fl64_int [of 1] fl64_int [of 2] fl64_int [of 1000000] fl64_int [of 2000000] by simp_all
  show "gcra_cost (newGCRA 1000 2) 1 = 1000000" "gcra_allowance (newGCRA 1000 2) = 2000000"
    by (simp_all add: gcra_cost_def gcra_allowance_def newGCRA_def Let_def f trunc_def)
qed

theorem gcra_bounds_interval_witness:
  "(\<Sum>x\<leftarrow>gcra_log [0, 1, 1, 0, 0, 0] ([GLoad 0 5 7 1, GLoad 0 6 6 1], newGCRA 1000 2). snd x) \<le> 7 - 5 + gcra_allowance (newGCRA 1000 2)"
proof -
  let ?pcs = "[GLoad 0 5 7 1, GLoad 0 6 6 1]" and ?g = "newGCRA 1000 2"
  have e: "gcra_cost (newGCRA 1000 2) 1 = 1000000" "gcra_allowance (newGCRA 1000 2) = 2000000" by (rule gcra_example)+
  have "gc_tat ?g = 0" by (simp add: newGCRA_def Let_def)
  then have inv: "gcra_inv ?pcs ?g" by (simp add: gcra_inv_def gcra_fits_def e)
  have cong: "gcra_cost (?g\<lparr>gc_tat := t\<rparr>) 1 = 1000000" "gcra_allowance (?g\<lparr>gc_tat := t\<rparr>) = 2000000" for t
    using e by (simp_all add: gcra_cost_def gcra_allowance_def)
  have w: "wrap64 x = x" if "0 \<le> x" "x < 2 ^ 60" for x
    using that by (intro wrap64_id) (simp add: in_i64_def MinInt64_def MaxInt64_def)
  have log: "gcra_log [0, 1, 1, 0, 0, 0] (?pcs, ?g) = [] @ [(6, 1000000), (7, 1000000)] @ []"
    using \<open>gc_tat ?g = 0\<close> by (simp add: e cong w Let_def)
  from gcra_bounds_interval [OF inv _ log, of 5 7] show ?thesis unfolding log by simp
qed

text \<open>At more than \<open>10^9\<close> requests per second one token costs no time at all, and nothing is limited.\<close>

lemma gcra_unlimited: "gcra_cost (newGCRA (2 * 10 ^ 9) 5) 1 = 0"
  by code_simp

subsection \<open>The level of a bucket\<close>

text \<open>
  What the protocol needs of a decision: on a level within the capacity it yields a level within the
  capacity, and it looks at the configuration of the bucket only.
\<close>

locale level_rule =
  fixes decide :: "bucket \<Rightarrow> int \<Rightarrow> int \<Rightarrow> int \<Rightarrow> rat \<Rightarrow> rat option" and cap_ok :: "rat \<Rightarrow> bool"
  assumes decide_bounds: "cap_ok (bk_cap b) \<Longrightarrow> 0 \<le> cur \<Longrightarrow> cur \<le> bk_cap b \<Longrightarrow> 0 < n \<Longrightarrow>
      decide b now lst n cur = Some nxt \<Longrightarrow> 0 \<le> nxt \<and> nxt \<le> bk_cap b"
begin

fun pc_within :: "rat \<Rightarrow> bk_pc \<Rightarrow> bool" where
  "pc_within cap (LoadLast now n) \<longleftrightarrow> 0 < n"
| "pc_within cap (LoadLevel att now lst n) \<longleftrightarrow> 0 < n"
| "pc_within cap (CasLevel att now lst n cur nxt) \<longleftrightarrow> 0 < n \<and> 0 \<le> nxt \<and> nxt \<le> cap"
| "pc_within cap (ReloadLast att now n) \<longleftrightarrow> 0 < n"
| "pc_within cap pc \<longleftrightarrow> True"

definition levels_in :: "rat \<Rightarrow> bk_pc list \<Rightarrow> bucket \<Rightarrow> bool" where
  "levels_in cap pcs b \<longleftrightarrow> bk_cap b = cap \<and> 0 \<le> bk_level b \<and> bk_level b \<le> cap \<and> (\<forall>pc\<in>set pcs. pc_within cap pc)"

lemma step_within:
  assumes "levels_in cap pcs b" and "cap_ok cap" and "i < length pcs" and step: "bk_step decide (pcs ! i) b = (pc', b')"
  shows "levels_in cap (pcs[i := pc']) b'"
proof -
  have ok: "pc_within cap (pcs ! i)" and lv: "bk_cap b = cap" "0 \<le> bk_level b" "bk_level b \<le> cap"
    using assms(1,3) by (simp_all add: levels_in_def)
  have "pc_within cap pc' \<and> bk_cap b' = cap \<and> 0 \<le> bk_level b' \<and> bk_level b' \<le> cap"
  proof (cases "pcs ! i")
    case (LoadLevel att now lst n)
    then show ?thesis
      using step ok lv assms(2) decide_bounds [of b "bk_level b" n now lst] by (auto split: if_splits option.splits)
  next
    case (BkReturned r)
    then have "pc' = BkReturned r" "b' = b" using step by auto
    then show ?thesis using lv by simp
  qed (use step ok lv in \<open>auto simp: Let_def split: if_splits\<close>)
  moreover have "pc_within cap pc" if "pc \<in> set (pcs[i := pc'])" for pc
    using set_update_subset_insert [of pcs i pc'] that calculation assms(1) by (auto simp: levels_in_def)
  ultimately show ?thesis by (simp add: levels_in_def)
qed

lemma interleave_within:
  assumes "levels_in cap pcs b" and "cap_ok cap" and "\<forall>i\<in>set sched. i < length pcs"
  shows "levels_in cap (fst (bk_interleave decide sched (pcs, b))) (snd (bk_interleave decide sched (pcs, b)))"
  using assms
proof (induction sched arbitrary: pcs b)
  case (Cons i sched)
  obtain pc' b' where step: "bk_step decide (pcs ! i) b = (pc', b')" by (cases "bk_step decide (pcs ! i) b")
  have "levels_in cap (pcs[i := pc']) b'" by (rule step_within [OF Cons.prems(1,2) _ step]) (use Cons.prems(3) in simp)
  from Cons.IH [OF this Cons.prems(2)] Cons.prems(3) step show ?case by simp
qed simp

end

definition whole_cap :: "rat \<Rightarrow> bool" where
  "whole_cap c \<longleftrightarrow> (\<exists>k. c = of_int k \<and> 0 < k \<and> k \<le> 2 ^ 53)"

lemma whole_cap_fl: "whole_cap c \<Longrightarrow> fl64 c = c \<and> 0 < c"
  by (auto simp: whole_cap_def intro: fl64_int)



lemma elapsed_flow_nonneg: "0 \<le> elapsed_flow now lst rate"
  by (simp add: elapsed_flow_def Let_def)

lemma elapsed_flow_now [simp]: "elapsed_flow now now rate = 0"
  by (simp add: elapsed_flow_def wrap64_id in_i64_def MinInt64_def MaxInt64_def)

interpretation tb: level_rule tb_decide whole_cap
proof
  fix b cur n now lst nxt
  assume c: "whole_cap (bk_cap b)" and cur: "0 \<le> cur" "cur \<le> bk_cap b" and n: "0 < (n :: int)" and d: "tb_decide b now lst n cur = Some nxt"
  let ?a = "tb_avail b now lst cur"
  have a: "?a \<le> bk_cap b" by (simp add: tb_avail_def Let_def)
  have n0: "0 \<le> fl64 (of_int n)" using n by (intro fl64_nonneg) simp
  from d have "fl64 (of_int n) \<le> ?a" and nxt: "nxt = fl64 (?a - fl64 (of_int n))"
    by (auto simp: tb_decide_def Let_def split: if_splits)
  then have "0 \<le> nxt" by (simp add: fl64_nonneg)
  moreover have "nxt \<le> fl64 (bk_cap b)" unfolding nxt using a n0 by (intro fl64_mono) simp
  ultimately show "0 \<le> nxt \<and> nxt \<le> bk_cap b" using whole_cap_fl [OF c] by simp
qed

interpretation lk: level_rule lk_decide whole_cap
proof
  fix b cur n now lst nxt
  assume c: "whole_cap (bk_cap b)" and cur: "0 \<le> cur" "cur \<le> bk_cap b" and n: "0 < (n :: int)" and d: "lk_decide b now lst n cur = Some nxt"
  let ?l = "lk_level b now lst cur"
  have "0 \<le> ?l" by (simp add: lk_level_def Let_def)
  moreover have "0 \<le> fl64 (of_int n)" using n by (intro fl64_nonneg) simp
  ultimately have "0 \<le> fl64 (?l + fl64 (of_int n))" by (intro fl64_nonneg) simp
  then show "0 \<le> nxt \<and> nxt \<le> bk_cap b" using d by (auto simp: lk_decide_def Let_def split: if_splits)
qed

subsection \<open>Bursts\<close>

lemma bk_acquire_alone:
  assumes now'_def: "now' = (if now < bk_last b then bk_last b else now)"
  shows "bk_acquire decide now n b =
    (case decide b now' (bk_last b) n (bk_level b) of
       None \<Rightarrow> (False, b\<lparr>bk_denied := bk_denied b + 1\<rparr>)
     | Some nxt \<Rightarrow> (True, b\<lparr>bk_level := nxt, bk_last := now', bk_allowed := bk_allowed b + 1, bk_acquired := bk_acquired b + word_of_int n\<rparr>))"
  by (auto simp: now'_def bk_acquire_def eval_nat_numeral Let_def split: option.splits)

fun tb_run :: "int \<Rightarrow> int list \<Rightarrow> bucket \<Rightarrow> bool list \<times> bucket" where
  "tb_run now [] b = ([], b)"
| "tb_run now (n # ns) b = (let (ok, b') = tb_TryAcquire now n b; (oks, b'') = tb_run now ns b' in (ok # oks, b''))"

text \<open>Granting greedily from \<open>k\<close> tokens.\<close>

fun greedy :: "int \<Rightarrow> int list \<Rightarrow> bool list" where
  "greedy k [] = []"
| "greedy k (n # ns) = (if n \<le> 0 then True # greedy k ns else if n \<le> k then True # greedy (k - n) ns else False # greedy k ns)"

lemma tb_avail_whole:
  assumes "bk_cap b = of_int burst" and "0 \<le> k" "k \<le> burst" "burst \<le> 2 ^ 53" and "k = burst \<or> now = lst"
  shows "tb_avail b now lst (of_int k) = of_int k"
proof (cases "now = lst")
  case True
  have "fl64 (of_int k) = of_int k" using assms(2-4) by (intro fl64_int) simp
  then show ?thesis using True assms(1,3) by (simp add: tb_avail_def)
next
  case False
  then have k: "k = burst" using assms(5) by simp
  have "fl64 (of_int burst) = of_int burst" using assms(2-4) by (intro fl64_int) simp
  moreover have "fl64 (of_int burst) \<le> fl64 (of_int burst + elapsed_flow now lst (bk_rate b))"
    using elapsed_flow_nonneg by (intro fl64_mono) simp
  ultimately show ?thesis using assms(1) k by (simp add: tb_avail_def Let_def)
qed

lemma tb_run_greedy:
  assumes "bk_cap b = of_int burst" "bk_level b = of_int k" "0 \<le> k" "k \<le> burst" "burst \<le> 2 ^ 53" "\<not> bk_closed b"
    and "k = burst \<or> bk_last b = now" and "bk_last b \<le> now" and "\<forall>n\<in>set ns. n \<le> 2 ^ 53"
  shows "fst (tb_run now ns b) = greedy k ns"
  using assms
proof (induction ns arbitrary: b k)
  case (Cons n ns)
  let ?t = "tb_TryAcquire now n b"
  have run: "fst (tb_run now (n # ns) b) = fst ?t # fst (tb_run now ns (snd ?t))" by (simp add: Let_def split_beta)
  show ?case
  proof (cases "n \<le> 0")
    case True
    then have "?t = (True, b)" by (simp add: tb_TryAcquire_def)
    then show ?thesis unfolding run using Cons.IH [of b k] Cons.prems True by simp
  next
    case False
    have n: "fl64 (of_int n) = of_int n" using Cons.prems(9) False by (intro fl64_int) simp
    have a: "tb_avail b now (bk_last b) (of_int k) = of_int k" by (rule tb_avail_whole) (use Cons.prems in auto)
    have t: "?t = bk_acquire tb_decide now n b" using False Cons.prems(6) by (simp add: tb_TryAcquire_def tb_acquire_def)
    have now: "now = (if now < bk_last b then bk_last b else now)" using Cons.prems(8) by simp
    show ?thesis
    proof (cases "n \<le> k")
      case True
      have "fl64 (of_int (k - n)) = of_int (k - n)" using True False Cons.prems(3-5) by (intro fl64_int) simp
      then have d: "tb_decide b now (bk_last b) n (of_int k) = Some (of_int (k - n))"
        using True by (simp add: tb_decide_def a n)
      then show ?thesis
        unfolding run t bk_acquire_alone [OF now] Cons.prems(2)
        using Cons.IH [of "b\<lparr>bk_level := of_int (k - n), bk_last := now, bk_allowed := bk_allowed b + 1, bk_acquired := bk_acquired b + word_of_int n\<rparr>" "k - n"]
          Cons.prems True False by simp
    next
      case gt: False
      then have d: "tb_decide b now (bk_last b) n (of_int k) = None" by (simp add: tb_decide_def a n)
      then show ?thesis
        unfolding run t bk_acquire_alone [OF now] Cons.prems(2)
        using Cons.IH [of "b\<lparr>bk_denied := bk_denied b + 1\<rparr>" k] Cons.prems gt False by simp
    qed
  qed
qed simp

lemma token_bucket_burst:
  assumes "0 < burst" and "burst \<le> 2 ^ 53" and "start \<le> now" and "\<forall>n\<in>set ns. n \<le> 2 ^ 53"
  shows "fst (tb_run now ns (newTokenBucket start rate burst)) = greedy burst ns"
proof -
  have "fl64 (of_int burst) = of_int burst" using assms by (intro fl64_int) simp
  then show ?thesis
    using assms by (intro tb_run_greedy [where k = burst and burst = burst]) (simp_all add: newTokenBucket_def Let_def)
qed

text \<open>
  The levels of the lock-free buckets stay in range and bursts are exact.  However many callers
  interleave their loads and compare-and-swaps, whatever clock readings and token numbers they bring
  and however the floating-point refill rounds, the tokens of a token bucket and the water of a leaky
  bucket stay between 0 and the burst capacity.  And a new token bucket serves requests that arrive at
  one instant greedily from exactly \<open>burst\<close> tokens.
\<close>
lemma bucket_levels_bounded:
  assumes "0 < burst" and "burst \<le> 2 ^ 53" and "\<forall>i\<in>set sched. i < length reqs" and "\<forall>r\<in>set reqs. 0 < snd r"
    and "start \<le> now" and "\<forall>n\<in>set ns. n \<le> 2 ^ 53"
  shows "(let b = snd (bk_interleave tb_decide sched (map (\<lambda>(now, n). LoadLast now n) reqs, newTokenBucket start rate burst)) in
           0 \<le> bk_level b \<and> bk_level b \<le> of_int burst)
    \<and> (let b = snd (bk_interleave lk_decide sched (map (\<lambda>(now, n). LoadLast now n) reqs, newLeakyBucket start rate burst)) in
           0 \<le> bk_level b \<and> bk_level b \<le> of_int burst)
    \<and> fst (tb_run now ns (newTokenBucket start rate burst)) = greedy burst ns"
proof -
  let ?pcs = "map (\<lambda>(now, n). LoadLast now n) reqs"
  have b: "fl64 (of_int burst) = of_int burst" using assms by (intro fl64_int) simp
  have c: "whole_cap (of_int burst)" using assms(1,2) by (auto simp: whole_cap_def)
  have s: "\<forall>i\<in>set sched. i < length ?pcs" using assms(3) by simp
  have "tb.levels_in (of_int burst) ?pcs (newTokenBucket start rate burst)"
    using assms(1,4) b by (auto simp: tb.levels_in_def newTokenBucket_def)
  from tb.interleave_within [OF this c s] show ?thesis
  proof -
    assume t: "tb.levels_in (of_int burst) (fst (bk_interleave tb_decide sched (?pcs, newTokenBucket start rate burst)))
      (snd (bk_interleave tb_decide sched (?pcs, newTokenBucket start rate burst)))"
    have "lk.levels_in (of_int burst) ?pcs (newLeakyBucket start rate burst)"
      using assms(1,4) b by (auto simp: lk.levels_in_def newLeakyBucket_def)
    from lk.interleave_within [OF this c s] t token_bucket_burst [OF assms(1,2,5,6)] show ?thesis
      by (simp add: tb.levels_in_def lk.levels_in_def Let_def)
  qed
qed

text \<open>
  The two compare-and-swaps of a grant are not one: the level is swapped before the timestamp, and a
  level that a refill restores looks unchanged.  With rate 1 and burst 1, an empty bucket and one
  second gone, two callers are granted the one token that has flowed in.
\<close>

lemma token_bucket_double_spend:
  fixes b :: bucket
  assumes b: "bk_rate b = 1" "bk_cap b = 1" "bk_level b = 0" "bk_last b = 0"
  shows "fst (bk_interleave tb_decide [0, 0, 1, 1, 0, 1, 0, 1, 0, 1, 0, 1] ([LoadLast Second 1, LoadLast Second 1], b))
    = [BkReturned True, BkReturned True]"
proof -
  have f: "fl64 1 = 1" "fl64 1000000000 = 1000000000"
    using fl64_int [of 1] fl64_int [of 1000000000] by simp_all
  have "wrap64 1000000000 = 1000000000" by (intro wrap64_id) (simp add: in_i64_def MinInt64_def MaxInt64_def)
  then have d: "tb_decide x Second 0 1 0 = Some 0" if "bk_rate x = 1" "bk_cap x = 1" for x
    using that by (simp add: tb_decide_def tb_avail_def elapsed_flow_def Second_def f)
  show ?thesis using b Second_pos by (simp add: d Let_def)
qed

subsection \<open>Waits end\<close>

lemma poll_loop_ends:
  "\<exists>p\<in>set ps. ctx_before p \<noteq> None \<or> ctx_asleep p \<noteq> None \<Longrightarrow> fst (poll_loop shut allow ps l) \<noteq> Waiting"
proof (induction ps arbitrary: l)
  case (Cons p ps)
  then show ?case by (auto simp: Let_def split: option.splits prod.splits bool.splits)
qed simp

text \<open>Once the limiter stays closed, one more poll ends the wait.\<close>

lemma poll_loop_closed:
  "shut (others_before p l) \<Longrightarrow> poll_loop shut allow (p # ps) l = (WaitErr (closedWaitResult (ctx_before p)), others_before p l)"
  by simp

lemma poll_loop_nil:
  "fst (poll_loop shut allow ps l) = WaitNil \<Longrightarrow> \<exists>now l0. allow now l0 = (True, snd (poll_loop shut allow ps l))"
proof (induction ps arbitrary: l)
  case (Cons p ps)
  then show ?case by (auto simp: Let_def split: option.splits prod.splits bool.splits if_splits)
qed simp



text \<open>A wait that polls in vain counts a denial for every poll, although the metric is documented not to.\<close>

lemma wait_counts_denials:
  "case fw_Wait None 1 [\<lparr>others_before = id, ctx_before = None, ctx_asleep = None, others_asleep = id, poll_now = 3 * Second\<rparr>]
      (snd (fw_Allow 0 (newFixedWindow 0 1 Second))) of
    (r, fw) \<Rightarrow> r = WaitNil \<and> lm_Denied (fw_Metrics fw) = 1"
  by code_simp

end
