(* ===== verification/Backoff.thy ===== *)
theory Backoff
  imports Second_Ring
begin

section \<open>Retry delays (backoff/backoff.go)\<close>

text \<open>
  A backoff under its mutex.  Durations are 64-bit integers with wrap-around where the source can
  overflow, the growth goes through \<open>float64\<close> as in the source, and the random source of the standard
  library is the argument \<open>rnd\<close>, of which its documentation promises a value in \<open>[0, n)\<close> for positive
  \<open>n\<close>; for \<open>n \<le> 0\<close> it panics, which is \<open>None\<close>.
\<close>

datatype jitter = JitterNone | JitterFull | JitterEqual | JitterDecorrelated

datatype backoff_error = backoff_ErrMaxAttempts | BackoffCtx string

record backoff =
  bo_base :: int
  bo_factor :: rat
  bo_max :: int
  bo_jitter :: jitter
  bo_maxAttempts :: int
  bo_attempt :: int
  bo_raw :: int
  bo_last :: int

definition WithBase :: "int \<Rightarrow> backoff \<Rightarrow> backoff" where "WithBase d b = b\<lparr>bo_base := d\<rparr>"
definition WithFactor :: "rat \<Rightarrow> backoff \<Rightarrow> backoff" where "WithFactor f b = b\<lparr>bo_factor := f\<rparr>"
definition WithMax :: "int \<Rightarrow> backoff \<Rightarrow> backoff" where "WithMax d b = b\<lparr>bo_max := d\<rparr>"
definition WithJitter :: "jitter \<Rightarrow> backoff \<Rightarrow> backoff" where "WithJitter j b = b\<lparr>bo_jitter := j\<rparr>"
definition bo_WithMaxAttempts :: "int \<Rightarrow> backoff \<Rightarrow> backoff" where "bo_WithMaxAttempts n b = b\<lparr>bo_maxAttempts := n\<rparr>"

definition backoff_New :: "(backoff \<Rightarrow> backoff) list \<Rightarrow> backoff" where
  "backoff_New opts =
    (let b = fold (\<lambda>opt b. opt b) opts
           \<lparr>bo_base = 100000000, bo_factor = 2, bo_max = 10 * Second, bo_jitter = JitterFull, bo_maxAttempts = 0,
            bo_attempt = 0, bo_raw = 0, bo_last = 0\<rparr>;
         b = (if bo_factor b < 1 then b\<lparr>bo_factor := 1\<rparr> else b);
         b = (if bo_base b < 0 then b\<lparr>bo_base := 0\<rparr> else b);
         b = (if bo_max b < bo_base b then b\<lparr>bo_max := bo_base b\<rparr> else b) in
     b\<lparr>bo_raw := bo_base b, bo_last := bo_base b\<rparr>)"

definition randRange :: "(int \<Rightarrow> int) \<Rightarrow> int \<Rightarrow> int \<Rightarrow> int option" where
  "randRange rnd lo hi =
    (if hi \<le> lo then Some lo
     else let span = wrap64 (hi - lo); span = (if span \<noteq> MaxInt64 then wrap64 (span + 1) else span) in
       if span \<le> 0 then None else Some (wrap64 (lo + rnd span)))"

definition bo_advance :: "backoff \<Rightarrow> backoff" where
  "bo_advance b =
    (if bo_max b \<le> bo_raw b then b\<lparr>bo_raw := bo_max b\<rparr>
     else let nf = fl64 (fl64 (of_int (bo_raw b)) * bo_factor b) in
       if fl64 (of_int (bo_max b)) \<le> nf then b\<lparr>bo_raw := bo_max b\<rparr> else b\<lparr>bo_raw := trunc nf\<rparr>)"

definition computeLocked :: "(int \<Rightarrow> int) \<Rightarrow> backoff \<Rightarrow> (int \<times> backoff) option" where
  "computeLocked rnd b =
    (case bo_jitter b of
       JitterDecorrelated \<Rightarrow>
         (let hi = wrap64 (bo_last b * 3); hi = (if hi < bo_base b then bo_base b else hi) in
          case randRange rnd (bo_base b) hi of None \<Rightarrow> None
          | Some d \<Rightarrow> (let d = (if bo_max b < d then bo_max b else d) in Some (d, b\<lparr>bo_last := d\<rparr>)))
     | JitterFull \<Rightarrow> (case randRange rnd 0 (bo_raw b) of None \<Rightarrow> None | Some d \<Rightarrow> Some (d, bo_advance b))
     | JitterEqual \<Rightarrow> (case randRange rnd 0 (bo_raw b sdiv 2) of None \<Rightarrow> None
         | Some d \<Rightarrow> Some (wrap64 (bo_raw b sdiv 2 + d), bo_advance b))
     | JitterNone \<Rightarrow> Some (bo_raw b, bo_advance b))"

text \<open>\<open>Inl ()\<close> is the answer \<open>ok = false\<close>.\<close>

definition bo_Next :: "(int \<Rightarrow> int) \<Rightarrow> backoff \<Rightarrow> ((unit + int) \<times> backoff) option" where
  "bo_Next rnd b =
    (if 0 < bo_maxAttempts b \<and> bo_maxAttempts b \<le> bo_attempt b then Some (Inl (), b)
     else case computeLocked rnd (b\<lparr>bo_attempt := bo_attempt b + 1\<rparr>) of
         None \<Rightarrow> None | Some (d, b') \<Rightarrow> Some (Inr d, b'))"

definition bo_Attempt :: "backoff \<Rightarrow> int" where
  "bo_Attempt b = bo_attempt b"

definition bo_Reset :: "backoff \<Rightarrow> backoff" where
  "bo_Reset b = b\<lparr>bo_attempt := 0, bo_raw := bo_base b, bo_last := bo_base b\<rparr>"

text \<open>\<open>Wait\<close> with the state of the context during the sleep.\<close>

definition bo_Wait :: "(int \<Rightarrow> int) \<Rightarrow> string option \<Rightarrow> backoff \<Rightarrow> (backoff_error option \<times> backoff) option" where
  "bo_Wait rnd ctx b =
    (case bo_Next rnd b of
       None \<Rightarrow> None
     | Some (Inl _, b') \<Rightarrow> Some (Some backoff_ErrMaxAttempts, b')
     | Some (Inr d, b') \<Rightarrow> Some (map_option BackoffCtx ctx, b'))"

subsection \<open>Delays stay in range\<close>

definition fair :: "(int \<Rightarrow> int) \<Rightarrow> bool" where
  "fair rnd \<longleftrightarrow> (\<forall>n. 0 < n \<longrightarrow> 0 \<le> rnd n \<and> rnd n < n)"

definition bo_ok :: "backoff \<Rightarrow> bool" where
  "bo_ok b \<longleftrightarrow> 0 \<le> bo_base b \<and> bo_base b \<le> bo_max b \<and> bo_max b \<le> MaxInt64 \<and> 1 \<le> bo_factor b
    \<and> 0 \<le> bo_raw b \<and> bo_raw b \<le> bo_max b \<and> bo_base b \<le> bo_last b \<and> bo_last b \<le> bo_max b"

lemma randRange_bounds:
  assumes "fair rnd" and "0 \<le> lo" and "lo \<le> hi" and "hi \<le> MaxInt64"
  obtains d where "randRange rnd lo hi = Some d" "lo \<le> d" "d \<le> hi"
proof (cases "hi \<le> lo")
  case True
  then show ?thesis using assms(3) by (intro that [of lo]) (simp_all add: randRange_def)
next
  case False
  define span where "span = (if hi - lo \<noteq> MaxInt64 then hi - lo + 1 else hi - lo)"
  have w: "wrap64 (hi - lo) = hi - lo" using assms(2-4) by (intro wrap64_id) (simp add: in_i64_def MinInt64_def)
  have w': "hi - lo \<noteq> MaxInt64 \<Longrightarrow> wrap64 (hi - lo + 1) = hi - lo + 1"
    using assms(2-4) by (intro wrap64_id) (simp add: in_i64_def MinInt64_def)
  have s: "0 < span" "span \<le> hi - lo + 1" using False by (auto simp: span_def)
  then have r: "0 \<le> rnd span" "rnd span < span" using assms(1) by (auto simp: fair_def)
  then have "wrap64 (lo + rnd span) = lo + rnd span"
    using s assms(2,4) by (intro wrap64_id) (simp add: in_i64_def MinInt64_def)
  moreover have "randRange rnd lo hi = Some (wrap64 (lo + rnd span))"
    using False s(1) w w' by (auto simp: randRange_def Let_def span_def split: if_splits)
  ultimately show ?thesis using r s by (intro that [of "lo + rnd span"]) simp_all
qed

lemma bo_advance_bounds:
  assumes "bo_ok b"
  shows "0 \<le> bo_raw (bo_advance b) \<and> bo_raw (bo_advance b) \<le> bo_max b"
proof -
  let ?nf = "fl64 (fl64 (of_int (bo_raw b)) * bo_factor b)"
  have f: "0 \<le> fl64 (of_int (bo_raw b))" using assms by (intro fl64_nonneg) (simp add: bo_ok_def)
  have "0 \<le> ?nf" using assms f by (intro fl64_nonneg mult_nonneg_nonneg) (auto simp: bo_ok_def)
  moreover have "trunc ?nf \<le> bo_max b" if "?nf < fl64 (of_int (bo_max b))"
    using fl64_less_imp_le [OF that] \<open>0 \<le> ?nf\<close> by (simp add: trunc_def floor_le_iff le_less_trans)
  ultimately show ?thesis using assms by (auto simp: bo_advance_def Let_def bo_ok_def trunc_def)
qed

lemma bo_advance_ok: "bo_ok b \<Longrightarrow> bo_ok (bo_advance b)"
  using bo_advance_bounds [of b] by (auto simp: bo_ok_def bo_advance_def Let_def)

lemma computeLocked_bounds:
  assumes ok: "bo_ok b" and fair: "fair rnd"
  obtains d b' where "computeLocked rnd b = Some (d, b')" "bo_ok b'" "0 \<le> d" "d \<le> bo_max b"
    "bo_jitter b = JitterDecorrelated \<Longrightarrow> bo_base b \<le> d"
    "bo_attempt b' = bo_attempt b" "bo_maxAttempts b' = bo_maxAttempts b" "bo_max b' = bo_max b" "bo_base b' = bo_base b" "bo_jitter b' = bo_jitter b"
proof -
  have b: "0 \<le> bo_base b" "bo_base b \<le> bo_max b" "bo_max b \<le> MaxInt64" "0 \<le> bo_raw b" "bo_raw b \<le> bo_max b"
    using ok by (simp_all add: bo_ok_def)
  have adv: "bo_attempt (bo_advance b) = bo_attempt b" "bo_maxAttempts (bo_advance b) = bo_maxAttempts b" "bo_max (bo_advance b) = bo_max b"
    "bo_base (bo_advance b) = bo_base b" "bo_jitter (bo_advance b) = bo_jitter b"
    by (simp_all add: bo_advance_def Let_def)
  show ?thesis
  proof (cases "bo_jitter b")
    case JitterNone
    then show ?thesis using b bo_advance_ok [OF ok] adv by (intro that [of "bo_raw b" "bo_advance b"]) (simp_all add: computeLocked_def)
  next
    case JitterFull
    obtain d where "randRange rnd 0 (bo_raw b) = Some d" "0 \<le> d" "d \<le> bo_raw b" by (rule randRange_bounds [OF fair, of 0 "bo_raw b"]) (use b in auto)
    then show ?thesis using JitterFull b bo_advance_ok [OF ok] adv by (intro that [of d "bo_advance b"]) (simp_all add: computeLocked_def)
  next
    case JitterEqual
    let ?h = "bo_raw b sdiv 2"
    have h: "?h = bo_raw b div 2" using b(4) by (cases "bo_raw b = 0") (simp_all add: signed_divide_int_def)
    then have "0 \<le> ?h" "?h \<le> MaxInt64" "?h + ?h \<le> bo_raw b" using b by simp_all
    moreover obtain d where "randRange rnd 0 ?h = Some d" "0 \<le> d" "d \<le> ?h" by (rule randRange_bounds [OF fair, of 0 ?h]) (use calculation in auto)
    ultimately have d: "randRange rnd 0 ?h = Some d" "0 \<le> ?h + d" "?h + d \<le> bo_raw b" by simp_all
    then have "wrap64 (?h + d) = ?h + d" using b by (intro wrap64_id) (simp add: in_i64_def MinInt64_def)
    then show ?thesis using JitterEqual b bo_advance_ok [OF ok] adv d by (intro that [of "?h + d" "bo_advance b"]) (simp_all add: computeLocked_def)
  next
    case JitterDecorrelated
    define hi where "hi = (if wrap64 (bo_last b * 3) < bo_base b then bo_base b else wrap64 (bo_last b * 3))"
    have "bo_base b \<le> hi" "hi \<le> MaxInt64" using b wrap64_in_i64 [of "bo_last b * 3"] by (simp_all add: hi_def in_i64_def)
    then obtain d where d: "randRange rnd (bo_base b) hi = Some d" "bo_base b \<le> d" by (rule randRange_bounds [OF fair b(1), of hi])
    let ?d = "if bo_max b < d then bo_max b else d"
    have "bo_base b \<le> ?d" "?d \<le> bo_max b" using d b by auto
    moreover have "computeLocked rnd b = Some (?d, b\<lparr>bo_last := ?d\<rparr>)"
      using JitterDecorrelated d by (simp add: computeLocked_def Let_def hi_def)
    ultimately show ?thesis using ok b by (intro that [of ?d "b\<lparr>bo_last := ?d\<rparr>"]) (auto simp: bo_ok_def)
  qed
qed

lemma bo_New_ok:
  assumes "bo_base (fold (\<lambda>opt b. opt b) opts b0) \<le> MaxInt64" "bo_max (fold (\<lambda>opt b. opt b) opts b0) \<le> MaxInt64"
    and "b0 = \<lparr>bo_base = 100000000, bo_factor = 2, bo_max = 10 * Second, bo_jitter = JitterFull, bo_maxAttempts = 0,
            bo_attempt = 0, bo_raw = 0, bo_last = 0\<rparr>"
  shows "bo_ok (backoff_New opts)"
  using assms by (auto simp: backoff_New_def Let_def bo_ok_def MaxInt64_def)

text \<open>A run: \<open>Some\<close> random source for a \<open>Next\<close>, \<open>None\<close> for a \<open>Reset\<close>.\<close>

fun bo_run :: "(int \<Rightarrow> int) option list \<Rightarrow> backoff \<Rightarrow> ((unit + int) list \<times> backoff) option" where
  "bo_run [] b = Some ([], b)"
| "bo_run (None # xs) b = bo_run xs (bo_Reset b)"
| "bo_run (Some rnd # xs) b =
    (case bo_Next rnd b of None \<Rightarrow> None
     | Some (r, b') \<Rightarrow> map_option (\<lambda>(rs, b''). (r # rs, b'')) (bo_run xs b'))"

lemma bo_Next_ok:
  assumes "bo_ok b" and "fair rnd"
  shows "\<exists>r b'. bo_Next rnd b = Some (r, b') \<and> bo_ok b' \<and> bo_max b' = bo_max b \<and> bo_base b' = bo_base b \<and> bo_jitter b' = bo_jitter b
    \<and> bo_maxAttempts b' = bo_maxAttempts b
    \<and> (r = Inl () \<longleftrightarrow> 0 < bo_maxAttempts b \<and> bo_maxAttempts b \<le> bo_attempt b)
    \<and> (\<forall>d. r = Inr d \<longrightarrow> 0 \<le> d \<and> d \<le> bo_max b \<and> (bo_jitter b = JitterDecorrelated \<longrightarrow> bo_base b \<le> d) \<and> bo_attempt b' = bo_attempt b + 1)"
proof (cases "0 < bo_maxAttempts b \<and> bo_maxAttempts b \<le> bo_attempt b")
  case True
  then show ?thesis using assms(1) by (simp add: bo_Next_def)
next
  case False
  let ?b = "b\<lparr>bo_attempt := bo_attempt b + 1\<rparr>"
  have "bo_ok ?b" using assms(1) by (simp add: bo_ok_def)
  then obtain d b' where "computeLocked rnd ?b = Some (d, b')" "bo_ok b'" "0 \<le> d" "d \<le> bo_max ?b"
    "bo_jitter ?b = JitterDecorrelated \<Longrightarrow> bo_base ?b \<le> d" "bo_attempt b' = bo_attempt ?b" "bo_maxAttempts b' = bo_maxAttempts ?b"
    "bo_max b' = bo_max ?b" "bo_base b' = bo_base ?b" "bo_jitter b' = bo_jitter ?b"
    using computeLocked_bounds [OF _ assms(2), of ?b] by metis
  then show ?thesis using False by (auto simp: bo_Next_def)
qed

lemma bo_run_ok:
  "bo_ok b \<Longrightarrow> \<forall>rnd. Some rnd \<in> set xs \<longrightarrow> fair rnd \<Longrightarrow>
   \<exists>rs b'. bo_run xs b = Some (rs, b') \<and> bo_ok b' \<and> bo_max b' = bo_max b \<and> bo_base b' = bo_base b \<and> bo_jitter b' = bo_jitter b
    \<and> (\<forall>d. Inr d \<in> set rs \<longrightarrow> 0 \<le> d \<and> d \<le> bo_max b \<and> (bo_jitter b = JitterDecorrelated \<longrightarrow> bo_base b \<le> d))"
proof (induction xs b rule: bo_run.induct)
  case (2 xs b)
  have "bo_ok (bo_Reset b)" using "2.prems" by (auto simp: bo_ok_def bo_Reset_def)
  with 2 show ?case by (auto simp: bo_Reset_def)
next
  case (3 rnd xs b)
  then have "fair rnd" by simp
  from bo_Next_ok [OF "3.prems"(1) this] obtain r b' where r: "bo_Next rnd b = Some (r, b')" "bo_ok b'" "bo_max b' = bo_max b" "bo_base b' = bo_base b"
    "bo_jitter b' = bo_jitter b" "\<forall>d. r = Inr d \<longrightarrow> 0 \<le> d \<and> d \<le> bo_max b \<and> (bo_jitter b = JitterDecorrelated \<longrightarrow> bo_base b \<le> d)" by metis
  with "3.IH" [of "(r, b')" r b'] "3.prems" obtain rs b'' where "bo_run xs b' = Some (rs, b'')" "bo_ok b''" "bo_max b'' = bo_max b" "bo_base b'' = bo_base b"
    "bo_jitter b'' = bo_jitter b" "\<forall>d. Inr d \<in> set rs \<longrightarrow> 0 \<le> d \<and> d \<le> bo_max b \<and> (bo_jitter b = JitterDecorrelated \<longrightarrow> bo_base b \<le> d)" by auto
  with r show ?case by auto
qed simp

subsection \<open>The exponential sequence\<close>

lemma bo_advance_exact:
  assumes "bo_factor b = of_int f" "1 \<le> f" "0 \<le> bo_raw b" "bo_raw b \<le> bo_max b" "bo_max b \<le> 2 ^ 53"
  shows "bo_advance b = b\<lparr>bo_raw := min (bo_max b) (bo_raw b * f)\<rparr>"
proof (cases "bo_max b \<le> bo_raw b")
  case True
  then have "bo_raw b = bo_max b" using assms(4) by simp
  moreover have "bo_max b * 1 \<le> bo_max b * f" using assms(2-4) by (intro mult_left_mono) auto
  ultimately show ?thesis by (simp add: bo_advance_def)
next
  case False
  have raw: "fl64 (of_int (bo_raw b)) = of_int (bo_raw b)" and mx: "fl64 (of_int (bo_max b)) = of_int (bo_max b)"
    using assms(3-5) by (intro fl64_int; simp)+
  show ?thesis
  proof (cases "bo_raw b * f \<le> 2 ^ 53")
    case True
    have "0 \<le> bo_raw b * f" using assms(2,3) by simp
    then have "fl64 (of_int (bo_raw b * f)) = of_int (bo_raw b * f)" using True by (intro fl64_int) simp
    then have "fl64 (of_int (bo_raw b) * bo_factor b) = of_int (bo_raw b * f)" using assms(1) by simp
    then show ?thesis
      using False raw mx \<open>0 \<le> bo_raw b * f\<close>
      by (auto simp: bo_advance_def Let_def trunc_def min_def simp del: of_int_mult)
  next
    case big: False
    then have "fl64 (of_int (2 ^ 53)) \<le> fl64 (of_int (bo_raw b * f))" by (intro fl64_mono) (simp only: of_int_le_iff)
    moreover have "fl64 (of_int (2 ^ 53)) = (of_int (2 ^ 53) :: rat)" by (intro fl64_int) simp
    moreover have "(of_int (bo_max b) :: rat) \<le> of_int (2 ^ 53)" using assms(5) by (simp only: of_int_le_iff)
    ultimately have "fl64 (of_int (bo_max b)) \<le> fl64 (of_int (bo_raw b) * bo_factor b)" using assms(1) mx by simp
    then show ?thesis using False raw big assms(5) by (simp add: bo_advance_def)
  qed
qed

fun delays :: "nat \<Rightarrow> backoff \<Rightarrow> (unit + int) list option" where
  "delays 0 b = Some []"
| "delays (Suc n) b = (case bo_Next (\<lambda>_. 0) b of None \<Rightarrow> None | Some (r, b') \<Rightarrow> map_option ((#) r) (delays n b'))"

lemma delays_exact:
  assumes "bo_jitter b = JitterNone" "bo_maxAttempts b = 0" "bo_factor b = of_int f" "1 \<le> f" "0 \<le> bo_base b" "bo_max b \<le> 2 ^ 53"
    and "bo_raw b = min (bo_max b) (bo_base b * f ^ k)" and "bo_base b \<le> bo_max b"
  shows "delays n b = Some (map (\<lambda>i. Inr (min (bo_max b) (bo_base b * f ^ (k + i)))) [0..<n])"
  using assms
proof (induction n arbitrary: b k)
  case (Suc n)
  let ?b = "b\<lparr>bo_attempt := bo_attempt b + 1, bo_raw := min (bo_max b) (bo_base b * f ^ Suc k)\<rparr>"
  have raw: "0 \<le> bo_raw b" "bo_raw b \<le> bo_max b" using Suc.prems by simp_all
  have grow: "min (bo_max b) (bo_raw b * f) = min (bo_max b) (bo_base b * f ^ Suc k)"
  proof (cases "bo_base b * f ^ k \<le> bo_max b")
    case True
    then show ?thesis using Suc.prems(7) by (simp add: mult.assoc mult.commute mult.left_commute)
  next
    case False
    then have "bo_raw b = bo_max b" using Suc.prems(7) by simp
    moreover have "bo_max b * 1 \<le> bo_max b * f" using Suc.prems raw by (intro mult_left_mono) auto
    moreover have "bo_base b * f ^ k * 1 \<le> bo_base b * f ^ k * f" using Suc.prems by (intro mult_left_mono) auto
    ultimately show ?thesis using False by (simp add: min_def mult.commute mult.left_commute)
  qed
  have "bo_Next (\<lambda>_. 0) b = Some (Inr (bo_raw b), ?b)"
    using Suc.prems bo_advance_exact [of "b\<lparr>bo_attempt := bo_attempt b + 1\<rparr>" f] raw grow
    by (simp add: bo_Next_def computeLocked_def)
  moreover have "delays n ?b = Some (map (\<lambda>i. Inr (min (bo_max b) (bo_base b * f ^ (Suc k + i)))) [0..<n])"
    using Suc.IH [of ?b "Suc k"] Suc.prems by simp
  moreover have "[0..<Suc n] = 0 # map Suc [0..<n]" by (simp add: map_Suc_upt upt_conv_Cons del: upt_Suc)
  ultimately show ?case using Suc.prems(7) by (simp del: upt_Suc)
qed simp

text \<open>
  Every delay is within its documented range.  Take a backoff built by \<open>New\<close> from any options
  that are 64-bit durations, and any sequence of \<open>Next\<close> and \<open>Reset\<close> with any random source that keeps
  its contract: no call panics, no delay is negative or above the cap, decorrelated delays are never
  below the base, whatever \<open>last*3\<close> overflows to.  Without jitter, with a whole growth factor \<open>f\<close> and a
  cap of at most \<open>2^53\<close> nanoseconds, the \<open>i\<close>-th delay is exactly \<open>min(max, base * f^i)\<close>.
\<close>
lemma backoff_delays_bounded:
  assumes "b = backoff_New opts" and "bo_ok b" and "\<forall>rnd. Some rnd \<in> set xs \<longrightarrow> fair rnd"
  shows "(\<exists>rs b'. bo_run xs b = Some (rs, b')
      \<and> (\<forall>d. Inr d \<in> set rs \<longrightarrow> 0 \<le> d \<and> d \<le> bo_max b \<and> (bo_jitter b = JitterDecorrelated \<longrightarrow> bo_base b \<le> d)))
    \<and> (bo_jitter b = JitterNone \<and> bo_maxAttempts b = 0 \<and> bo_factor b = of_int f \<and> bo_max b \<le> 2 ^ 53 \<longrightarrow>
        delays n b = Some (map (\<lambda>i. Inr (min (bo_max b) (bo_base b * f ^ i))) [0..<n]))"
proof -
  have start: "bo_raw b = bo_base b" by (simp add: assms(1) backoff_New_def Let_def)
  have ok: "1 \<le> bo_factor b" "0 \<le> bo_base b" "bo_base b \<le> bo_max b" using assms(2) by (simp_all add: bo_ok_def)
  have "delays n b = Some (map (\<lambda>i. Inr (min (bo_max b) (bo_base b * f ^ (0 + i)))) [0..<n])"
    if "bo_jitter b = JitterNone" "bo_maxAttempts b = 0" "bo_factor b = of_int f" "bo_max b \<le> 2 ^ 53"
    using that ok start by (intro delays_exact) simp_all
  then show ?thesis using bo_run_ok [OF assms(2,3)] by auto
qed

end
