(* ===== verification/Retry.thy ===== *)
theory Retry
  imports Backoff
begin

section \<open>Retrying a call (retry/retry.go)\<close>

text \<open>
  \<open>Do\<close> calls a function that may answer differently every time, under a context that may be done at
  any moment.  The \<open>k\<close>-th iteration of its loop sees the \<open>k\<close>-th answer of the function, the state of
  the context before the call and during the sleep after it.  The loop may run forever, which is
  \<open>None\<close>; a panic is the outcome \<open>Panics\<close>.
\<close>

datatype 'a outcome = Panics | Returns 'a

type_synonym delay_rule = "int \<Rightarrow> int outcome"

record ('v, 'e) retry_result =
  rr_Value :: "'v"
  rr_Err :: "'e option"
  rr_Tries :: int

record 'e retry_config =
  MaxAttempts :: int
  cfg_Backoff :: "delay_rule option"
  IsRetryable :: "('e \<Rightarrow> bool) option"

definition ConstantBackoff :: "int \<Rightarrow> delay_rule" where
  "ConstantBackoff d _ = Returns d"

text \<open>A shift by a negative count panics; the shifted duration wraps at 64 bits.\<close>

definition ExponentialBackoff :: "int \<Rightarrow> int \<Rightarrow> delay_rule" where
  "ExponentialBackoff base mx attempt =
    (if 30 < attempt then Returns mx
     else if attempt - 1 < 0 then Panics
     else let d = wrap64 (base * 2 ^ nat (attempt - 1)) in
       Returns (if mx < d \<or> d \<le> 0 then mx else d))"

definition NoBackoff :: delay_rule where
  "NoBackoff _ = Returns 0"

definition retry_WithMaxAttempts :: "int \<Rightarrow> 'e retry_config \<Rightarrow> 'e retry_config" where
  "retry_WithMaxAttempts n c = c\<lparr>MaxAttempts := n\<rparr>"

definition WithBackoff :: "delay_rule option \<Rightarrow> 'e retry_config \<Rightarrow> 'e retry_config" where
  "WithBackoff b c = c\<lparr>cfg_Backoff := b\<rparr>"

definition WithRetryable :: "('e \<Rightarrow> bool) option \<Rightarrow> 'e retry_config \<Rightarrow> 'e retry_config" where
  "WithRetryable f c = c\<lparr>IsRetryable := f\<rparr>"

text \<open>What the caller supplies, by iteration.\<close>

record ('v, 'e) retry_world =
  rw_fn :: "nat \<Rightarrow> 'v \<times> 'e option"
  rw_before :: "nat \<Rightarrow> 'e option"
  rw_during :: "nat \<Rightarrow> 'e option"

definition call_backoff :: "'e retry_config \<Rightarrow> int \<Rightarrow> int outcome" where
  "call_backoff c attempt = (case cfg_Backoff c of None \<Rightarrow> Panics | Some b \<Rightarrow> b attempt)"

definition gives_up :: "'e retry_config \<Rightarrow> 'e \<Rightarrow> bool" where
  "gives_up c err = (case IsRetryable c of None \<Rightarrow> False | Some f \<Rightarrow> \<not> f err)"

text \<open>
  One iteration: \<open>Inr\<close> ends the loop with an outcome and the number of calls made, \<open>Inl\<close> goes on with
  the last error.
\<close>

definition retry_attempt :: "'e retry_config \<Rightarrow> ('v, 'e) retry_world \<Rightarrow> 'v \<Rightarrow> nat
    \<Rightarrow> 'e + (('v, 'e) retry_result outcome \<times> nat)" where
  "retry_attempt c w zero k =
    (let attempt = wrap64 (int k + 1) in
     case rw_before w k of
       Some e \<Rightarrow> Inr (Returns \<lparr>rr_Value = zero, rr_Err = Some e, rr_Tries = wrap64 (attempt - 1)\<rparr>, k)
     | None \<Rightarrow>
       (case rw_fn w k of
          (val, None) \<Rightarrow> Inr (Returns \<lparr>rr_Value = val, rr_Err = None, rr_Tries = attempt\<rparr>, Suc k)
        | (_, Some err) \<Rightarrow>
          if gives_up c err then Inr (Returns \<lparr>rr_Value = zero, rr_Err = Some err, rr_Tries = attempt\<rparr>, Suc k)
          else if MaxAttempts c = 0 \<or> attempt < MaxAttempts c then
            (case call_backoff c attempt of
               Panics \<Rightarrow> Inr (Panics, Suc k)
             | Returns delay \<Rightarrow>
               if 0 < delay then
                 (case rw_during w k of
                    Some e \<Rightarrow> Inr (Returns \<lparr>rr_Value = zero, rr_Err = Some e, rr_Tries = attempt\<rparr>, Suc k)
                  | None \<Rightarrow> Inl err)
               else Inl err)
          else Inl err))"

partial_function (option) retry_loop :: "'e retry_config \<Rightarrow> ('v, 'e) retry_world \<Rightarrow> 'v \<Rightarrow> nat \<Rightarrow> 'e option
    \<Rightarrow> (('v, 'e) retry_result outcome \<times> nat) option" where
  "retry_loop c w zero k lastErr =
    (if MaxAttempts c = 0 \<or> wrap64 (int k + 1) \<le> MaxAttempts c then
       (case retry_attempt c w zero k of
          Inr out \<Rightarrow> Some out
        | Inl err \<Rightarrow> retry_loop c w zero (Suc k) (Some err))
     else Some (Returns \<lparr>rr_Value = zero, rr_Err = lastErr, rr_Tries = MaxAttempts c\<rparr>, k))"

declare retry_loop.simps [code]

definition retry_Do :: "('v, 'e) retry_world \<Rightarrow> 'v \<Rightarrow> ('e retry_config \<Rightarrow> 'e retry_config) list
    \<Rightarrow> (('v, 'e) retry_result outcome \<times> nat) option" where
  "retry_Do w zero opts =
    (let c = fold (\<lambda>opt c. opt c) opts \<lparr>MaxAttempts = 3, cfg_Backoff = Some NoBackoff, IsRetryable = None\<rparr> in
     retry_loop c w zero 0 None)"

definition applied :: "('e retry_config \<Rightarrow> 'e retry_config) list \<Rightarrow> 'e retry_config" where
  "applied opts = fold (\<lambda>opt c. opt c) opts \<lparr>MaxAttempts = 3, cfg_Backoff = Some NoBackoff, IsRetryable = None\<rparr>"

subsection \<open>How the loop ends\<close>

text \<open>The error the \<open>k\<close>-th call returns when the loop goes on after it.\<close>

definition goes_on :: "'e retry_config \<Rightarrow> ('v, 'e) retry_world \<Rightarrow> 'v \<Rightarrow> nat \<Rightarrow> bool" where
  "goes_on c w zero k \<longleftrightarrow> (\<exists>e. retry_attempt c w zero k = Inl e)"

definition error_before :: "('v, 'e) retry_world \<Rightarrow> nat \<Rightarrow> 'e option" where
  "error_before w k = (case k of 0 \<Rightarrow> None | Suc j \<Rightarrow> snd (rw_fn w j))"

lemma retry_attempt_Inl: "retry_attempt c w zero k = Inl e \<Longrightarrow> snd (rw_fn w k) = Some e"
  by (auto simp: retry_attempt_def Let_def split: option.splits prod.splits if_splits outcome.splits)

lemma retry_loop_skip:
  assumes "MaxAttempts c = 0 \<or> int n \<le> MaxAttempts c" and "MaxAttempts c < MaxInt64" "int n < MaxInt64"
    and "\<forall>j<n. goes_on c w zero j"
  shows "retry_loop c w zero 0 None = retry_loop c w zero n (error_before w n)"
  using assms
proof (induction n)
  case 0
  then show ?case by (simp add: error_before_def)
next
  case (Suc n)
  then obtain e where e: "retry_attempt c w zero n = Inl e" by (auto simp: goes_on_def)
  have "wrap64 (int n + 1) = int n + 1" using Suc.prems(3) by (intro wrap64_id) (simp add: in_i64_def MinInt64_def)
  then have "retry_loop c w zero n (error_before w n) = retry_loop c w zero (Suc n) (Some e)"
    using Suc.prems(1) e by (subst retry_loop.simps) auto
  moreover have "retry_loop c w zero 0 None = retry_loop c w zero n (error_before w n)"
    using Suc.prems by (intro Suc.IH) auto
  ultimately show ?case using retry_attempt_Inl [OF e] by (simp add: error_before_def)
qed

lemma retry_loop_stops:
  assumes "MaxAttempts c = 0 \<or> int (Suc n) \<le> MaxAttempts c" and "MaxAttempts c < MaxInt64" "int (Suc n) < MaxInt64"
    and "\<forall>j<n. goes_on c w zero j" and "retry_attempt c w zero n = Inr out"
  shows "retry_loop c w zero 0 None = Some out"
proof -
  have w: "wrap64 (int n + 1) = int n + 1" using assms(3) by (intro wrap64_id) (simp add: in_i64_def MinInt64_def)
  have "retry_loop c w zero 0 None = retry_loop c w zero n (error_before w n)"
    using assms by (intro retry_loop_skip) auto
  then show ?thesis using assms(1,5) w by (subst (asm) (2) retry_loop.simps) auto
qed

lemma retry_loop_exhausts:
  assumes "MaxAttempts c = int m" "0 < m" "int m < MaxInt64" and "\<forall>j<m. goes_on c w zero j"
  shows "retry_loop c w zero 0 None =
    Some (Returns \<lparr>rr_Value = zero, rr_Err = snd (rw_fn w (m - 1)), rr_Tries = int m\<rparr>, m)"
proof -
  have w: "wrap64 (int m + 1) = int m + 1" using assms(3) by (intro wrap64_id) (simp add: in_i64_def MinInt64_def)
  have "retry_loop c w zero 0 None = retry_loop c w zero m (error_before w m)"
    using assms by (intro retry_loop_skip) auto
  then show ?thesis using assms(1,2) w by (subst (asm) (2) retry_loop.simps) (auto simp: error_before_def split: nat.splits)
qed

text \<open>An iteration that is followed by another: a retryable error and an undisturbed wait.\<close>

definition retried :: "'e retry_config \<Rightarrow> ('v, 'e) retry_world \<Rightarrow> nat \<Rightarrow> bool" where
  "retried c w k \<longleftrightarrow> rw_before w k = None \<and> rw_during w k = None
    \<and> (case snd (rw_fn w k) of None \<Rightarrow> False | Some e \<Rightarrow> \<not> gives_up c e)"

definition total_backoff :: "'e retry_config \<Rightarrow> bool" where
  "total_backoff c \<longleftrightarrow> (\<forall>a>0. call_backoff c a \<noteq> Panics)"

lemma retried_goes_on:
  assumes "total_backoff c" and "retried c w k" and "0 < wrap64 (int k + 1)"
  shows "goes_on c w zero k"
proof -
  have "call_backoff c (wrap64 (int k + 1)) \<noteq> Panics" using assms(1,3) by (auto simp: total_backoff_def)
  then show ?thesis
    using assms(2)
    by (auto simp: goes_on_def retried_def retry_attempt_def Let_def split: option.splits prod.splits outcome.splits)
qed

lemma retry_attempt_calls:
  assumes "retry_attempt c w zero k = Inr (Returns r, n)" and "int (Suc k) < MaxInt64"
  shows "rr_Tries r = int n \<and> n \<le> Suc k"
proof -
  have w: "wrap64 (int k + 1) = int k + 1" "wrap64 (int k) = int k"
    using assms(2) by (simp_all add: in_i64_def MinInt64_def)
  show ?thesis using assms(1) w
    by (auto simp: retry_attempt_def Let_def split: option.splits prod.splits if_splits outcome.splits)
qed

lemma retry_attempt_panics:
  assumes "retry_attempt c w zero k = Inr (Panics, n)" and "total_backoff c" and "0 < wrap64 (int k + 1)"
  shows False
  using assms by (auto simp: total_backoff_def retry_attempt_def Let_def split: option.splits prod.splits if_splits outcome.splits)

lemma retry_loop_returns:
  assumes m: "MaxAttempts c = int m" "0 < m" "int m < MaxInt64" and t: "total_backoff c"
  shows "\<exists>r n. retry_loop c w zero 0 None = Some (Returns r, n) \<and> rr_Tries r = int n \<and> n \<le> m"
proof (cases "\<forall>j<m. goes_on c w zero j")
  case True
  then show ?thesis by (simp add: retry_loop_exhausts [OF m])
next
  case False
  define k where "k = (LEAST j. \<not> goes_on c w zero j)"
  have k: "\<not> goes_on c w zero k" "\<forall>j<k. goes_on c w zero j" "k < m"
    using False LeastI_ex [of "\<lambda>j. \<not> goes_on c w zero j"] not_less_Least [of _ "\<lambda>j. \<not> goes_on c w zero j"]
      Least_le [of "\<lambda>j. \<not> goes_on c w zero j"] unfolding k_def by (blast, blast, metis le_less_trans)
  have w: "wrap64 (int k + 1) = int k + 1" using m(3) k(3) by (intro wrap64_id) (simp add: in_i64_def MinInt64_def)
  obtain out n where out: "retry_attempt c w zero k = Inr (out, n)"
    using k(1) by (metis goes_on_def prod.exhaust sumE)
  obtain r where r: "out = Returns r" using retry_attempt_panics [OF _ t, of w zero k n] out w by (cases out) auto
  have "retry_loop c w zero 0 None = Some (out, n)"
    using k m out by (intro retry_loop_stops) auto
  then show ?thesis using retry_attempt_calls [of c w zero k r n] out r k(3) m(3) by auto
qed

lemma retry_loop_never_returns:
  assumes "retry_loop c w zero k lastErr = Some y" and "MaxAttempts c = 0"
  shows "\<exists>k. \<not> goes_on c w zero k"
proof -
  have "MaxAttempts c = 0 \<longrightarrow> (\<exists>k. \<not> goes_on c w zero k)"
  proof (rule retry_loop.raw_induct [where P = "\<lambda>c w zero k l y. MaxAttempts c = 0 \<longrightarrow> (\<exists>k. \<not> goes_on c w zero k)", OF _ assms(1)], goal_cases)
    case (1 loop c w zero k l y)
    show ?case
    proof (intro impI, rule ccontr)
      assume m: "MaxAttempts c = 0" and "\<nexists>k. \<not> goes_on c w zero k"
      then obtain e where "retry_attempt c w zero k = Inl e" unfolding goes_on_def by blast
      then show False using 1 m \<open>\<nexists>k. _ k\<close> by (auto simp: m)
    qed
  qed
  then show ?thesis using assms(2) by blast
qed

lemma retry_Do_loop: "retry_Do w zero opts = retry_loop (applied opts) w zero 0 None"
  by (simp add: retry_Do_def applied_def)

lemma retried_prefix:
  assumes "total_backoff c" and "\<forall>j<n. retried c w j" and "int n < MaxInt64"
  shows "\<forall>j<n. goes_on c w zero j"
proof (intro allI impI)
  fix j assume "j < n"
  then have "wrap64 (int j + 1) = int j + 1" using assms(3) by (intro wrap64_id) (simp add: in_i64_def MinInt64_def)
  then show "goes_on c w zero j" using assms(1,2) \<open>j < n\<close> by (intro retried_goes_on) auto
qed

text \<open>The loop ends at its first iteration that is not retried.\<close>

lemma retry_loop_first:
  assumes "total_backoff c" and "0 \<le> MaxAttempts c" "MaxAttempts c < MaxInt64" "int (Suc n) < MaxInt64"
    and "MaxAttempts c = 0 \<or> int n < MaxAttempts c" and "\<forall>j<n. retried c w j" and "retry_attempt c w zero n = Inr out"
  shows "retry_loop c w zero 0 None = Some out"
  using assms by (intro retry_loop_stops retried_prefix) auto

text \<open>
  What \<open>Do\<close> returns.  For any function, context and options with a backoff that does not panic,
  and any \<open>n\<close> below the attempt limit whose first \<open>n\<close> calls failed with retryable errors and whose
  waits were not disturbed: when call \<open>n + 1\<close> succeeds its value is returned, when its error is
  permanent that error is, and when the context is done before it the context's error is, without
  another call.  When all \<open>MaxAttempts\<close> calls fail the last error is returned.  A positive limit makes
  \<open>Do\<close> return in every case, after \<open>Tries\<close> calls, at most the limit; without a limit it runs on as
  long as every call is to be retried.
\<close>
lemma retry_outcome:
  assumes "c = applied opts" and "total_backoff c" and "0 \<le> MaxAttempts c" "MaxAttempts c < MaxInt64" "int (Suc n) < MaxInt64"
    and "MaxAttempts c = 0 \<or> int n < MaxAttempts c" and "\<forall>j<n. retried c w j"
  shows "(rw_before w n = None \<and> rw_fn w n = (v, None) \<longrightarrow>
      retry_Do w zero opts = Some (Returns \<lparr>rr_Value = v, rr_Err = None, rr_Tries = int n + 1\<rparr>, n + 1))
    \<and> (rw_before w n = None \<and> rw_fn w n = (v, Some e) \<and> gives_up c e \<longrightarrow>
      retry_Do w zero opts = Some (Returns \<lparr>rr_Value = zero, rr_Err = Some e, rr_Tries = int n + 1\<rparr>, n + 1))
    \<and> (rw_before w n = Some e \<longrightarrow>
      retry_Do w zero opts = Some (Returns \<lparr>rr_Value = zero, rr_Err = Some e, rr_Tries = int n\<rparr>, n))
    \<and> (int n + 1 = MaxAttempts c \<and> retried c w n \<longrightarrow>
      retry_Do w zero opts = Some (Returns \<lparr>rr_Value = zero, rr_Err = snd (rw_fn w n), rr_Tries = int n + 1\<rparr>, n + 1))
    \<and> (0 < MaxAttempts c \<longrightarrow>
      (\<exists>r k. retry_Do w zero opts = Some (Returns r, k) \<and> rr_Tries r = int k \<and> int k \<le> MaxAttempts c))
    \<and> (MaxAttempts c = 0 \<and> (\<forall>a. call_backoff c a \<noteq> Panics) \<and> (\<forall>k. retried c w k) \<longrightarrow> retry_Do w zero opts = None)"
proof -
  have w: "wrap64 (int n + 1) = int n + 1" "wrap64 (int n) = int n"
    using assms(5) by (simp_all add: in_i64_def MinInt64_def)
  have do_eq: "retry_Do w zero opts = retry_loop c w zero 0 None" by (simp add: retry_Do_loop assms(1))
  note first = retry_loop_first [OF assms(2-7), of zero, folded do_eq]
  have "retry_loop c w zero 0 None = Some (Returns \<lparr>rr_Value = zero, rr_Err = snd (rw_fn w n), rr_Tries = int n + 1\<rparr>, n + 1)"
    if "int n + 1 = MaxAttempts c" "retried c w n"
    using retry_loop_exhausts [of c "Suc n" w zero] retried_prefix [OF assms(2), of "Suc n" w zero] assms(5,7) that
    by (auto simp: less_Suc_eq add.commute)
  moreover have "\<exists>r k. retry_loop c w zero 0 None = Some (Returns r, k) \<and> rr_Tries r = int k \<and> int k \<le> MaxAttempts c"
    if "0 < MaxAttempts c"
    using retry_loop_returns [OF _ _ _ assms(2), of "nat (MaxAttempts c)" w zero] that assms(4) by fastforce
  moreover have "retry_loop c w zero 0 None = None"
    if "MaxAttempts c = 0" "\<forall>a. call_backoff c a \<noteq> Panics" "\<forall>k. retried c w k"
  proof -
    have "goes_on c w zero k" for k
      using that(2) that(3) [rule_format, of k]
      by (auto simp: goes_on_def retried_def retry_attempt_def Let_def split: option.splits prod.splits outcome.splits)
    then show ?thesis using retry_loop_never_returns [of c w zero 0 None] that(1)
      by (cases "retry_loop c w zero 0 None") auto
  qed
  moreover have "retry_attempt c w zero n = Inr (Returns \<lparr>rr_Value = v, rr_Err = None, rr_Tries = int n + 1\<rparr>, n + 1)"
    if "rw_before w n = None \<and> rw_fn w n = (v, None)" using that w by (simp add: retry_attempt_def)
  moreover have "retry_attempt c w zero n = Inr (Returns \<lparr>rr_Value = zero, rr_Err = Some e, rr_Tries = int n + 1\<rparr>, n + 1)"
    if "rw_before w n = None \<and> rw_fn w n = (v, Some e) \<and> gives_up c e" using that w by (simp add: retry_attempt_def)
  moreover have "retry_attempt c w zero n = Inr (Returns \<lparr>rr_Value = zero, rr_Err = Some e, rr_Tries = int n\<rparr>, n)"
    if "rw_before w n = Some e" using that w by (simp add: retry_attempt_def)
  ultimately show ?thesis using first unfolding do_eq by blast
qed

text \<open>A negative limit returns no error although the function was never called.\<close>

lemma retry_negative_limit:
  "retry_Do w zero [retry_WithMaxAttempts (- 1)] = Some (Returns \<lparr>rr_Value = zero, rr_Err = None, rr_Tries = - 1\<rparr>, 0)"
  by (simp add: retry_Do_def retry_WithMaxAttempts_def retry_loop.simps wrap64_def)

definition flaky :: "(string, string) retry_world" where
  "flaky = \<lparr>rw_fn = (\<lambda>k. if k < 2 then ('''', Some ''timeout'') else (''bid'', None)), rw_before = (\<lambda>_. None), rw_during = (\<lambda>_. None)\<rparr>"

subsection \<open>The exponential rule against the backoff package\<close>

text \<open>
  The inline exponential rule of this package and the \<open>backoff\<close> package agree: for a positive base
  below \<open>2^34\<close> nanoseconds, where the shift cannot overflow, and a cap of at most \<open>2^53\<close> nanoseconds that \<open>base * 2^30\<close> reaches, the delay after attempt \<open>i + 1\<close> is
  the \<open>i\<close>-th delay of a backoff built with the same base and cap, factor two and no jitter, for every
  \<open>i\<close>.
\<close>
lemma exponential_rules_agree:
  assumes "0 < base" "base \<le> mx" "mx \<le> 2 ^ 53" "mx \<le> base * 2 ^ 30" "base < 2 ^ 34"
  shows "delays n (backoff_New [WithBase base, WithMax mx, WithFactor 2, WithJitter JitterNone])
    = Some (map (\<lambda>i. case ExponentialBackoff base mx (int i + 1) of Returns d \<Rightarrow> Inr d | Panics \<Rightarrow> Inl ()) [0..<n])"
proof -
  let ?b = "backoff_New [WithBase base, WithMax mx, WithFactor 2, WithJitter JitterNone]"
  have b: "bo_jitter ?b = JitterNone" "bo_maxAttempts ?b = 0" "bo_factor ?b = of_int 2" "bo_base ?b = base" "bo_max ?b = mx" "bo_raw ?b = base"
    using assms by (simp_all add: backoff_New_def WithBase_def WithMax_def WithFactor_def WithJitter_def Let_def)
  have "delays n ?b = Some (map (\<lambda>i. Inr (min (bo_max ?b) (bo_base ?b * 2 ^ (0 + i)))) [0..<n])"
    using assms b by (intro delays_exact) simp_all
  moreover have "ExponentialBackoff base mx (int i + 1) = Returns (min mx (base * 2 ^ i))" for i
  proof (cases "30 \<le> i")
    case True
    then have "base * 2 ^ 30 \<le> base * 2 ^ i" using assms(1) by (intro mult_left_mono power_increasing) auto
    then show ?thesis using True assms(4) by (simp add: ExponentialBackoff_def min_def)
  next
    case False
    then have "base * 2 ^ i \<le> 2 ^ 34 * 2 ^ 29" using assms(1,5) by (intro mult_mono power_increasing) auto
    moreover have "base * 2 ^ i \<noteq> 2 ^ 63"
    proof
      assume "base * 2 ^ i = 2 ^ 63"
      moreover have "base * 2 ^ i < 2 ^ 34 * 2 ^ i" using assms(5) by simp
      moreover have "(2::int) ^ 34 * 2 ^ i \<le> 2 ^ 34 * 2 ^ 29" using False by (intro mult_left_mono power_increasing) auto
      ultimately show False by simp
    qed
    moreover have "0 < base * 2 ^ i" using assms(1) by simp
    ultimately have "wrap64 (base * 2 ^ i) = base * 2 ^ i" by (intro wrap64_id) (simp add: in_i64_def MinInt64_def MaxInt64_def)
    then show ?thesis using False \<open>0 < base * 2 ^ i\<close> by (simp add: ExponentialBackoff_def Let_def)
  qed
  ultimately show ?thesis using b by simp
qed

text \<open>From \<open>2^35\<close> on the shift can wrap to a small positive delay instead of saturating.\<close>

lemma exponential_wraps: "ExponentialBackoff (2 ^ 35 + 1) (10 ^ 12) 30 = Returns 536870912"
  by (simp add: ExponentialBackoff_def Let_def wrap64_def)

end
