(* ===== verification/Batcher.thy ===== *)
theory Batcher
  imports Prelude
begin

section \<open>The batch coalescer (batcher/batcher.go)\<close>

text \<open>
  A batcher with its input channel, its two signal channels, its read-write mutex, the collector
  goroutine and any number of callers.  Each channel or mutex operation is one step, and the steps of
  all goroutines interleave.  \<open>accepted\<close> and \<open>flushed\<close> are ghosts: the items \<open>Add\<close> put into the
  channel and the batches handed to the flush callback, in order.  An acknowledgement channel of \<open>Flush\<close> is
  a flag in \<open>acks\<close>, and \<open>tickets\<close> records how many items had been accepted when its \<open>Flush\<close> began.  A
  panicking callback is recovered and counted, so a flush always ends.
\<close>

datatype 'a collector =
    CSelect "'a list"
  | CDrainDone "'a list"
  | CDrainFlush nat "'a list"
  | CExit

record 'a batcher =
  maxSize :: nat
  bufferCap :: nat
  b_in :: "'a list"
  b_done :: bool
  flushCh :: "nat list"
  b_closed :: bool
  readers :: nat
  writer :: bool
  recovered :: "64 word"
  acks :: "bool list"
  run_pc :: "'a collector"
  accepted :: "'a list"
  flushed :: "'a list list"
  tickets :: "nat list"

datatype 'a bt_pc =
    AddStart 'a | AddLock 'a | AddSend 'a | AddUnlock bool | AddReturns bool
  | FlushStart | FlushSend nat | FlushWait nat | FlushReturns bool
  | CloseStart | CloseWait | CloseLock | CloseDrain "'a list" | CloseReturns

definition WithBufferSize :: "int \<Rightarrow> 'a batcher \<Rightarrow> 'a batcher" where
  "WithBufferSize n b = (if 0 \<le> n then b\<lparr>bufferCap := nat n\<rparr> else b)"

definition batcher_New :: "int \<Rightarrow> ('a batcher \<Rightarrow> 'a batcher) list \<Rightarrow> 'a batcher option" where
  "batcher_New sz opts =
    (if sz \<le> 0 then None
     else Some (fold (\<lambda>opt b. opt b) opts
       \<lparr>maxSize = nat sz, bufferCap = nat sz, b_in = [], b_done = False, flushCh = [], b_closed = False,
        readers = 0, writer = False, recovered = 0, acks = [], run_pc = CSelect [], accepted = [], flushed = [], tickets = []\<rparr>))"

text \<open>The callback gets a batch; \<open>panics\<close> tells whether it panics.\<close>

definition safeFlush :: "bool \<Rightarrow> 'a list \<Rightarrow> 'a batcher \<Rightarrow> 'a batcher" where
  "safeFlush panics buf b =
    b\<lparr>flushed := flushed b @ [buf], recovered := (if panics then recovered b + 1 else recovered b)\<rparr>"

definition bt_flush :: "bool \<Rightarrow> 'a list \<Rightarrow> 'a batcher \<Rightarrow> 'a batcher" where
  "bt_flush panics buf b = (if buf = [] then b else safeFlush panics buf b)"

definition addAndMaybeFlush :: "bool \<Rightarrow> 'a \<Rightarrow> 'a list \<Rightarrow> 'a batcher \<Rightarrow> 'a list \<times> 'a batcher" where
  "addAndMaybeFlush panics item buf b =
    (let buf = buf @ [item] in
     if maxSize b \<le> length buf then ([], bt_flush panics buf b) else (buf, b))"

text \<open>An item arrives at the collector, from the channel or straight from a sender.\<close>

fun collect :: "bool \<Rightarrow> 'a \<Rightarrow> 'a batcher \<Rightarrow> 'a batcher option" where
  "collect panics item b =
    (case run_pc b of
       CSelect buf \<Rightarrow> (let (buf', b') = addAndMaybeFlush panics item buf b in Some (b'\<lparr>run_pc := CSelect buf'\<rparr>))
     | CDrainDone buf \<Rightarrow> (let (buf', b') = addAndMaybeFlush panics item buf b in Some (b'\<lparr>run_pc := CDrainDone buf'\<rparr>))
     | CDrainFlush a buf \<Rightarrow> (let (buf', b') = addAndMaybeFlush panics item buf b in Some (b'\<lparr>run_pc := CDrainFlush a buf'\<rparr>))
     | CExit \<Rightarrow> None)"

definition receive :: "bool \<Rightarrow> 'a batcher \<Rightarrow> 'a batcher list" where
  "receive panics b =
    (case b_in b of [] \<Rightarrow> []
     | item # rest \<Rightarrow> (case collect panics item (b\<lparr>b_in := rest\<rparr>) of None \<Rightarrow> [] | Some b' \<Rightarrow> [b']))"

text \<open>
  The collector: \<open>tick\<close> tells whether the ticker has fired and \<open>offered\<close> whether a sender waits at an
  unbuffered channel, in which case the default branches are not taken.
\<close>

definition batcher_run :: "bool \<Rightarrow> bool \<Rightarrow> bool \<Rightarrow> 'a batcher \<Rightarrow> 'a batcher list" where
  "batcher_run tick panics offered b =
    receive panics b @
    (case run_pc b of
       CSelect buf \<Rightarrow>
         (if b_done b then [b\<lparr>run_pc := CDrainDone buf\<rparr>] else [])
         @ (if tick then [(bt_flush panics buf b)\<lparr>run_pc := CSelect []\<rparr>] else [])
         @ (case flushCh b of [] \<Rightarrow> [] | a # rest \<Rightarrow> [b\<lparr>flushCh := rest, run_pc := CDrainFlush a buf\<rparr>])
     | CDrainDone buf \<Rightarrow>
         (if b_in b = [] \<and> \<not> offered then [(bt_flush panics buf b)\<lparr>run_pc := CExit, b_closed := True\<rparr>] else [])
     | CDrainFlush a buf \<Rightarrow>
         (if b_in b = [] \<and> \<not> offered
          then [(bt_flush panics buf b)\<lparr>run_pc := CSelect [], acks := (acks b)[a := True]\<rparr>] else [])
     | CExit \<Rightarrow> [])"

text \<open>The steps of \<open>Add\<close>, \<open>Flush\<close> and \<open>Close\<close>; a caller whose list is empty is blocked.\<close>

fun bt_moves :: "bool \<Rightarrow> 'a bt_pc \<Rightarrow> 'a batcher \<Rightarrow> ('a bt_pc \<times> 'a batcher) list" where
  "bt_moves panics (AddStart x) b = [(if b_done b then AddReturns False else AddLock x, b)]"
| "bt_moves panics (AddLock x) b = (if writer b then [] else [(AddSend x, b\<lparr>readers := readers b + 1\<rparr>)])"
| "bt_moves panics (AddSend x) b =
    (if length (b_in b) < bufferCap b
     then [(AddUnlock True, b\<lparr>b_in := b_in b @ [x], accepted := accepted b @ [x]\<rparr>)] else [])
    @ (if b_done b then [(AddUnlock False, b)] else [])"
| "bt_moves panics (AddUnlock r) b = [(AddReturns r, b\<lparr>readers := readers b - 1\<rparr>)]"
| "bt_moves panics FlushStart b =
    [(FlushSend (length (acks b)), b\<lparr>acks := acks b @ [False], tickets := tickets b @ [length (accepted b)]\<rparr>)]"
| "bt_moves panics (FlushSend a) b =
    (if flushCh b = [] then [(FlushWait a, b\<lparr>flushCh := [a]\<rparr>)] else [])
    @ (if b_done b then [(FlushReturns False, b)] else [])"
| "bt_moves panics (FlushWait a) b =
    (if acks b ! a then [(FlushReturns True, b)] else [])
    @ (if b_done b then [(FlushReturns False, b)] else [])"
| "bt_moves panics CloseStart b = [(CloseWait, b\<lparr>b_done := True\<rparr>)]"
| "bt_moves panics CloseWait b = (if b_closed b then [(CloseLock, b)] else [])"
| "bt_moves panics CloseLock b =
    (if writer b \<or> 0 < readers b then [] else [(CloseDrain [], b\<lparr>writer := True\<rparr>)])"
| "bt_moves panics (CloseDrain buf) b =
    (case b_in b of
       [] \<Rightarrow> [(CloseReturns, (bt_flush panics buf b)\<lparr>writer := False\<rparr>)]
     | item # rest \<Rightarrow> (let (buf', b') = addAndMaybeFlush panics item buf (b\<lparr>b_in := rest\<rparr>) in [(CloseDrain buf', b')]))"
| "bt_moves panics (AddReturns r) b = []"
| "bt_moves panics (FlushReturns r) b = []"
| "bt_moves panics CloseReturns b = []"

subsection \<open>Goroutines\<close>

record 'a bt_system =
  bt :: "'a batcher"
  callers :: "'a bt_pc list"

fun idle :: "'a bt_pc \<Rightarrow> bool" where
  "idle (AddReturns _) = True"
| "idle (FlushReturns _) = True"
| "idle CloseReturns = True"
| "idle _ = False"

fun fresh_call :: "'a bt_pc \<Rightarrow> bool" where
  "fresh_call (AddStart _) = True"
| "fresh_call FlushStart = True"
| "fresh_call CloseStart = True"
| "fresh_call _ = False"

fun offers :: "'a bt_pc \<Rightarrow> bool" where
  "offers (AddSend _) = True"
| "offers _ = False"

inductive bt_step :: "'a bt_system \<Rightarrow> 'a bt_system \<Rightarrow> bool" where
  new_call: "i < length ths \<Longrightarrow> idle (ths ! i) \<Longrightarrow> fresh_call pc \<Longrightarrow>
    bt_step \<lparr>bt = b, callers = ths\<rparr> \<lparr>bt = b, callers = ths[i := pc]\<rparr>"
| caller: "i < length ths \<Longrightarrow> (pc, b') \<in> set (bt_moves panics (ths ! i) b) \<Longrightarrow>
    bt_step \<lparr>bt = b, callers = ths\<rparr> \<lparr>bt = b', callers = ths[i := pc]\<rparr>"
| collector: "b' \<in> set (batcher_run tick panics (bufferCap b = 0 \<and> (\<exists>pc\<in>set ths. offers pc)) b) \<Longrightarrow>
    bt_step \<lparr>bt = b, callers = ths\<rparr> \<lparr>bt = b', callers = ths\<rparr>"
| handoff: "i < length ths \<Longrightarrow> ths ! i = AddSend x \<Longrightarrow> bufferCap b = 0 \<Longrightarrow> b_in b = [] \<Longrightarrow>
    collect panics x (b\<lparr>accepted := accepted b @ [x]\<rparr>) = Some b' \<Longrightarrow>
    bt_step \<lparr>bt = b, callers = ths\<rparr> \<lparr>bt = b', callers = ths[i := AddUnlock True]\<rparr>"

definition bt_init :: "'a batcher \<Rightarrow> nat \<Rightarrow> 'a bt_system" where
  "bt_init b n = \<lparr>bt = b, callers = replicate n (AddReturns False)\<rparr>"

subsection \<open>Nothing is lost, duplicated or reordered\<close>

fun cbuf :: "'a collector \<Rightarrow> 'a list" where
  "cbuf (CSelect buf) = buf"
| "cbuf (CDrainDone buf) = buf"
| "cbuf (CDrainFlush a buf) = buf"
| "cbuf CExit = []"

fun reading :: "'a bt_pc \<Rightarrow> nat" where
  "reading (AddSend x) = 1"
| "reading (AddUnlock r) = 1"
| "reading _ = 0"

fun draining :: "'a bt_pc \<Rightarrow> bool" where
  "draining (CloseDrain buf) = True"
| "draining _ = False"

fun caller_ok :: "'a batcher \<Rightarrow> 'a bt_pc \<Rightarrow> bool" where
  "caller_ok b (CloseDrain buf) \<longleftrightarrow> writer b \<and> b_closed b \<and> length buf < maxSize b \<and> accepted b = concat (flushed b) @ buf @ b_in b"
| "caller_ok b CloseLock \<longleftrightarrow> b_closed b"
| "caller_ok b (FlushSend a) \<longleftrightarrow> a < length (acks b)"
| "caller_ok b (FlushWait a) \<longleftrightarrow> a < length (acks b)"
| "caller_ok b _ \<longleftrightarrow> True"

fun exiting :: "'a collector \<Rightarrow> bool" where
  "exiting (CDrainDone buf) = True"
| "exiting _ = False"

fun ack_pending :: "'a collector \<Rightarrow> nat list" where
  "ack_pending (CDrainFlush a buf) = [a]"
| "ack_pending _ = []"

text \<open>What holds of the batcher alone, apart from the item balance.\<close>

definition batches_ok :: "'a batcher \<Rightarrow> bool" where
  "batches_ok b \<longleftrightarrow> (\<forall>batch\<in>set (flushed b). batch \<noteq> [] \<and> length batch \<le> maxSize b)"

definition acks_ok :: "'a batcher \<Rightarrow> bool" where
  "acks_ok b \<longleftrightarrow> length (tickets b) = length (acks b)
    \<and> (\<forall>a<length (acks b). tickets b ! a \<le> length (accepted b) \<and> (acks b ! a \<longrightarrow> tickets b ! a \<le> length (concat (flushed b))))"

definition bt_shape :: "'a batcher \<Rightarrow> bool" where
  "bt_shape b \<longleftrightarrow> 0 < maxSize b \<and> (b_closed b \<longleftrightarrow> run_pc b = CExit) \<and> (b_closed b \<or> exiting (run_pc b) \<longrightarrow> b_done b)
    \<and> (writer b \<longrightarrow> b_closed b \<and> readers b = 0) \<and> length (cbuf (run_pc b)) < maxSize b
    \<and> (\<forall>a\<in>set (flushCh b @ ack_pending (run_pc b)). a < length (acks b)) \<and> batches_ok b \<and> acks_ok b"

definition balanced :: "'a batcher \<Rightarrow> bool" where
  "balanced b \<longleftrightarrow> accepted b = concat (flushed b) @ cbuf (run_pc b) @ b_in b"

definition bt_inv :: "'a bt_system \<Rightarrow> bool" where
  "bt_inv s \<longleftrightarrow> bt_shape (bt s) \<and> (\<not> writer (bt s) \<longrightarrow> balanced (bt s))
    \<and> readers (bt s) = sum_list (map reading (callers s))
    \<and> (\<forall>i<length (callers s). caller_ok (bt s) (callers s ! i))
    \<and> (\<forall>i<length (callers s). \<forall>j<length (callers s). draining (callers s ! i) \<and> draining (callers s ! j) \<longrightarrow> i = j)
    \<and> (writer (bt s) \<longrightarrow> (\<exists>i<length (callers s). draining (callers s ! i)))"

lemmas bt_ops = addAndMaybeFlush_def bt_flush_def safeFlush_def Let_def

text \<open>Flushing a buffer, or adding an item to it, moves items along without changing their order.\<close>

lemma bt_flush_concat [simp]: "concat (flushed (bt_flush p buf b)) = concat (flushed b) @ buf"
  by (simp add: bt_flush_def safeFlush_def)

lemma batches_ok_flush: "length buf \<le> maxSize b \<Longrightarrow> batches_ok b \<Longrightarrow> batches_ok (bt_flush p buf b)"
  by (auto simp: batches_ok_def bt_flush_def safeFlush_def)

lemma bt_flush_frame [simp]:
  "maxSize (bt_flush p buf b) = maxSize b" "bufferCap (bt_flush p buf b) = bufferCap b" "b_in (bt_flush p buf b) = b_in b"
  "b_done (bt_flush p buf b) = b_done b" "flushCh (bt_flush p buf b) = flushCh b" "b_closed (bt_flush p buf b) = b_closed b"
  "readers (bt_flush p buf b) = readers b" "writer (bt_flush p buf b) = writer b" "acks (bt_flush p buf b) = acks b"
  "run_pc (bt_flush p buf b) = run_pc b" "accepted (bt_flush p buf b) = accepted b" "tickets (bt_flush p buf b) = tickets b"
  by (simp_all add: bt_flush_def safeFlush_def)

lemma addAndMaybeFlush_cases:
  assumes "addAndMaybeFlush p x buf b = (buf', b')" and "length buf < maxSize b"
  obtains "buf' = buf @ [x]" "b' = b" "length buf' < maxSize b"
  | "buf' = []" "b' = bt_flush p (buf @ [x]) b" "length (buf @ [x]) \<le> maxSize b"
  using assms by (auto simp: addAndMaybeFlush_def Let_def split: if_splits)

lemma acks_ok_flush: "acks_ok b \<Longrightarrow> acks_ok (bt_flush p buf b)"
  by (simp add: acks_ok_def del: length_concat) (simp add: trans_le_add1)

lemma shape_flush: "bt_shape b \<Longrightarrow> length buf \<le> maxSize b \<Longrightarrow> bt_shape (bt_flush p buf b)"
  by (auto simp: bt_shape_def batches_ok_flush acks_ok_flush)

lemma bt_frame [simp]:
  "batches_ok (b\<lparr>run_pc := pc\<rparr>) = batches_ok b" "acks_ok (b\<lparr>run_pc := pc\<rparr>) = acks_ok b"
  "batches_ok (b\<lparr>b_in := xs\<rparr>) = batches_ok b" "acks_ok (b\<lparr>b_in := xs\<rparr>) = acks_ok b"
  "batches_ok (b\<lparr>flushCh := as\<rparr>) = batches_ok b" "acks_ok (b\<lparr>flushCh := as\<rparr>) = acks_ok b"
  "batches_ok (b\<lparr>b_closed := c\<rparr>) = batches_ok b" "acks_ok (b\<lparr>b_closed := c\<rparr>) = acks_ok b"
  "batches_ok (b\<lparr>b_done := c\<rparr>) = batches_ok b" "acks_ok (b\<lparr>b_done := c\<rparr>) = acks_ok b"
  "batches_ok (b\<lparr>readers := r\<rparr>) = batches_ok b" "acks_ok (b\<lparr>readers := r\<rparr>) = acks_ok b"
  "batches_ok (b\<lparr>writer := c\<rparr>) = batches_ok b" "acks_ok (b\<lparr>writer := c\<rparr>) = acks_ok b"
  "batches_ok (b\<lparr>acks := bs\<rparr>) = batches_ok b" "batches_ok (b\<lparr>tickets := ts\<rparr>) = batches_ok b"
  "batches_ok (b\<lparr>accepted := xs\<rparr>) = batches_ok b"
  by (simp_all add: batches_ok_def acks_ok_def)

text \<open>An item that arrives at the collector goes to the end of its buffer, or out with it.\<close>

lemma collect_ok:
  assumes "collect p x b = Some b'" and "bt_shape b" and "accepted b = concat (flushed b) @ cbuf (run_pc b) @ x # b_in b"
  shows "bt_shape b' \<and> balanced b' \<and> writer b' = writer b \<and> readers b' = readers b \<and> b_closed b' = b_closed b \<and> acks b' = acks b \<and> \<not> b_closed b'"
proof -
  have len: "length (cbuf (run_pc b)) < maxSize b" using assms(2) by (simp add: bt_shape_def)
  obtain buf' b1 where ab: "addAndMaybeFlush p x (cbuf (run_pc b)) b = (buf', b1)" by fastforce
  have open_: "\<not> b_closed b" using assms(1,2) by (auto simp: bt_shape_def split: collector.splits)
  have b': "\<exists>pc. b' = b1\<lparr>run_pc := pc\<rparr> \<and> cbuf pc = buf' \<and> pc \<noteq> CExit \<and> ack_pending pc = ack_pending (run_pc b) \<and> exiting pc = exiting (run_pc b)"
    using assms(1) ab by (auto split: collector.splits)
  from ab len show ?thesis
  proof (cases rule: addAndMaybeFlush_cases)
    case 1
    then show ?thesis using b' assms(2,3) open_ by (auto simp: bt_shape_def balanced_def)
  next
    case 2
    then have s: "bt_shape b1" using shape_flush [OF assms(2)] by simp
    have "concat (flushed b1) = concat (flushed b) @ cbuf (run_pc b) @ [x]" using 2 by simp
    then show ?thesis using b' 2 s assms(3) open_ by (auto simp: bt_shape_def balanced_def)
  qed
qed

text \<open>A step of the collector.\<close>

lemma receive_ok:
  assumes "b' \<in> set (receive p b)" and "bt_shape b" and "balanced b"
  shows "bt_shape b' \<and> balanced b' \<and> writer b' = writer b \<and> readers b' = readers b \<and> b_closed b' = b_closed b \<and> acks b' = acks b \<and> \<not> b_closed b'"
proof -
  obtain x rest where x: "b_in b = x # rest" "collect p x (b\<lparr>b_in := rest\<rparr>) = Some b'"
    using assms(1) by (cases "b_in b") (force simp del: collect.simps simp: receive_def split: option.splits)+
  have "bt_shape (b\<lparr>b_in := rest\<rparr>)" using assms(2) by (auto simp: bt_shape_def)
  then show ?thesis using collect_ok [OF x(2)] assms(3) x(1) by (auto simp: balanced_def)
qed

lemma shape_run_pc:
  assumes "bt_shape b" and "length (cbuf pc) < maxSize b" and "\<forall>a\<in>set (ack_pending pc). a < length (acks b)"
    and "pc \<noteq> CExit" and "\<not> b_closed b" and "exiting pc \<longrightarrow> b_done b"
  shows "bt_shape (b\<lparr>run_pc := pc\<rparr>)"
  using assms by (auto simp: bt_shape_def)

lemma acks_ok_ack:
  assumes "acks_ok b" and "concat (flushed b) = accepted b"
  shows "acks_ok (b\<lparr>run_pc := pc, acks := (acks b)[a := True]\<rparr>)"
  using assms by (auto simp: acks_ok_def nth_list_update simp del: length_concat)

lemma batcher_run_ok:
  assumes b': "b' \<in> set (batcher_run tick p offered b)" and s: "bt_shape b" and "\<not> writer b \<longrightarrow> balanced b"
  shows "bt_shape b' \<and> balanced b' \<and> writer b' = writer b \<and> readers b' = readers b \<and> length (acks b') = length (acks b) \<and> \<not> writer b
    \<and> (b_closed b \<longrightarrow> b_closed b')"
proof (cases "b' \<in> set (receive p b)")
  case True
  then have "run_pc b \<noteq> CExit" by (auto simp: receive_def split: list.splits option.splits)
  then have "\<not> writer b" using s by (auto simp: bt_shape_def)
  then show ?thesis using receive_ok [OF True s] assms(3) by auto
next
  case False
  then have pc: "run_pc b \<noteq> CExit" using b' by (auto simp: batcher_run_def)
  then have open_: "\<not> b_closed b" "\<not> writer b" using s by (auto simp: bt_shape_def)
  have bal: "accepted b = concat (flushed b) @ cbuf (run_pc b) @ b_in b" using assms(3) open_ by (simp add: balanced_def)
  have len: "length (cbuf (run_pc b)) < maxSize b" "0 < maxSize b" using s by (auto simp: bt_shape_def)
  note fl = shape_flush [OF s, of "cbuf (run_pc b)" p]
  show ?thesis
  proof (cases "run_pc b")
    case (CSelect buf)
    with False b' consider "b_done b" "b' = b\<lparr>run_pc := CDrainDone buf\<rparr>" | "b' = (bt_flush p buf b)\<lparr>run_pc := CSelect []\<rparr>"
      | a rest where "flushCh b = a # rest" "b' = b\<lparr>flushCh := rest, run_pc := CDrainFlush a buf\<rparr>"
      by (cases "flushCh b") (auto simp: batcher_run_def split: if_splits)
    then show ?thesis
    proof cases
      case 1
      then show ?thesis using CSelect s open_ bal len by (simp add: shape_run_pc balanced_def)
    next
      case 2
      then show ?thesis using CSelect fl open_ bal len by (simp add: shape_run_pc balanced_def)
    next
      case 3
      then show ?thesis using CSelect s open_ bal len by (auto simp: bt_shape_def balanced_def)
    qed
  next
    case (CDrainDone buf)
    with False b' have e: "b_in b = []" "b' = (bt_flush p buf b)\<lparr>run_pc := CExit, b_closed := True\<rparr>"
      by (auto simp: batcher_run_def split: if_splits)
    then show ?thesis using CDrainDone fl s open_ bal len by (auto simp: bt_shape_def balanced_def)
  next
    case (CDrainFlush a buf)
    with False b' have e: "b_in b = []" "b' = (bt_flush p buf b)\<lparr>run_pc := CSelect [], acks := (acks b)[a := True]\<rparr>"
      by (auto simp: batcher_run_def split: if_splits)
    have "acks_ok (bt_flush p buf b)" using CDrainFlush fl len by (simp add: bt_shape_def)
    then have "acks_ok b'" using acks_ok_ack [where b = "bt_flush p buf b" and pc = "CSelect []" and a = a] e bal CDrainFlush by simp
    then show ?thesis using CDrainFlush fl e open_ bal len by (auto simp: bt_shape_def balanced_def)
  qed (use pc in simp)
qed

text \<open>
  A step of a caller.  Whoever sends holds the mutex for reading and whoever drains holds it for
  writing, so the two never meet.
\<close>

lemma caller_ok_mono:
  assumes "caller_ok b pc" and "length (acks b) \<le> length (acks b')" and "b_closed b \<longrightarrow> b_closed b'" and "\<not> draining pc"
  shows "caller_ok b' pc"
  using assms by (cases pc) auto

lemma bt_inv_update:
  assumes inv: "bt_inv \<lparr>bt = b, callers = ths\<rparr>" and i: "i < length ths"
    and b': "bt_shape b'" "\<not> writer b' \<Longrightarrow> balanced b'" "readers b' + reading (ths ! i) = readers b + reading pc"
    and mono: "length (acks b) \<le> length (acks b')" "b_closed b \<longrightarrow> b_closed b'"
    and pc: "caller_ok b' pc" "writer b' \<Longrightarrow> draining pc \<or> writer b \<and> \<not> draining (ths ! i)"
    and others: "\<And>j buf. j < length ths \<Longrightarrow> j \<noteq> i \<Longrightarrow> ths ! j = CloseDrain buf \<Longrightarrow> caller_ok b' (CloseDrain buf) \<and> \<not> draining pc"
  shows "bt_inv \<lparr>bt = b', callers = ths[i := pc]\<rparr>"
proof -
  have "caller_ok b' (ths[i := pc] ! j)" if "j < length ths" for j
  proof (cases "j = i")
    case True
    then show ?thesis using pc(1) i by simp
  next
    case False
    have "caller_ok b (ths ! j)" using inv that by (simp add: bt_inv_def)
    then show ?thesis using others [OF that False] caller_ok_mono [OF _ mono] False
      by (cases "draining (ths ! j)") (auto elim!: draining.elims(2))
  qed
  moreover have "draining (ths[i := pc] ! j) \<and> draining (ths[i := pc] ! k) \<longrightarrow> j = k" if "j < length ths" "k < length ths" for j k
    using inv others [of j] others [of k] that i
    by (auto simp: bt_inv_def nth_list_update elim!: draining.elims(2))
  moreover have "readers b' = sum_list (map reading (ths[i := pc]))"
    using sum_list_map_update [OF i, of reading pc] b'(3) inv by (simp add: bt_inv_def)
  moreover have "\<exists>j<length ths. draining (ths[i := pc] ! j)" if w: "writer b'"
  proof (cases "draining pc")
    case True
    then show ?thesis using i by (intro exI [of _ i]) simp
  next
    case False
    then obtain j where "j < length ths" "draining (ths ! j)" "\<not> draining (ths ! i)" using pc(2) [OF w] inv by (auto simp: bt_inv_def)
    then show ?thesis by (intro exI [of _ j]) (metis nth_list_update_neq)
  qed
  ultimately show ?thesis using b'(1,2) by (simp add: bt_inv_def)
qed

lemma bt_inv_no_drain:
  assumes "bt_inv \<lparr>bt = b, callers = ths\<rparr>" and "j < length ths" "ths ! j = CloseDrain buf"
  shows "writer b" "readers b = 0" "i < length ths \<Longrightarrow> reading (ths ! i) = 0"
proof -
  show w: "writer b" using assms by (metis (no_types, lifting) bt_inv_def bt_system.select_convs caller_ok.simps(1))
  show r: "readers b = 0" using assms(1) w by (simp add: bt_inv_def bt_shape_def)
  show "i < length ths \<Longrightarrow> reading (ths ! i) = 0"
    using sum_list_map_member [of i ths reading] r assms(1) by (simp add: bt_inv_def)
qed

lemma acks_ok_accept: "acks_ok b \<Longrightarrow> acks_ok (b\<lparr>b_in := xs, accepted := accepted b @ [x]\<rparr>)"
  by (auto simp: acks_ok_def)

lemma acks_ok_request:
  "acks_ok b \<Longrightarrow> acks_ok (b\<lparr>acks := acks b @ [False], tickets := tickets b @ [length (accepted b)]\<rparr>)"
  by (auto simp: acks_ok_def nth_append less_Suc_eq)

lemma caller_add_ok:
  assumes inv: "bt_inv \<lparr>bt = b, callers = ths\<rparr>" and i: "i < length ths"
    and pc: "ths ! i \<in> range AddStart \<union> range AddLock \<union> range AddSend \<union> range AddUnlock"
    and step: "(pc, b') \<in> set (bt_moves p (ths ! i) b)"
  shows "bt_inv \<lparr>bt = b', callers = ths[i := pc]\<rparr>"
proof -
  have sh: "bt_shape b" and bal: "\<not> writer b \<Longrightarrow> balanced b" and ok: "\<And>j. j < length ths \<Longrightarrow> caller_ok b (ths ! j)"
    using inv by (auto simp: bt_inv_def)
  have readers: "readers b = sum_list (map reading ths)" using inv by (simp add: bt_inv_def)
  have hold: "0 < readers b" "\<not> writer b" if "reading (ths ! i) = 1"
  proof -
    show "0 < readers b" using sum_list_map_member [OF i, of reading] that unfolding readers by linarith
    then show "\<not> writer b" using sh by (auto simp: bt_shape_def)
  qed
  have no_drain: "False" if "j < length ths" "ths ! j = CloseDrain buf" "\<not> writer b" for j buf
    using bt_inv_no_drain(1) [OF inv that(1,2)] that(3) by simp
  from pc consider x where "ths ! i = AddStart x" | x where "ths ! i = AddLock x" | x where "ths ! i = AddSend x" | r where "ths ! i = AddUnlock r"
    by blast
  then show ?thesis
  proof cases
    case 1
    then show ?thesis using step sh bal ok by (intro bt_inv_update [OF inv i]) (force split: if_splits)+
  next
    case 2
    then have w: "\<not> writer b" "pc = AddSend x" "b' = b\<lparr>readers := readers b + 1\<rparr>" using step by (auto split: if_splits)
    then show ?thesis using 2 sh bal no_drain by (intro bt_inv_update [OF inv i]) (auto simp: bt_shape_def balanced_def)
  next
    case 3
    then have w: "\<not> writer b" using hold by simp
    from 3 step consider "b' = b\<lparr>b_in := b_in b @ [x], accepted := accepted b @ [x]\<rparr>" "pc = AddUnlock True" | "b' = b" "pc = AddUnlock False"
      by (auto split: if_splits)
    then show ?thesis
    proof cases
      case a: 1
      then show ?thesis using 3 w sh bal no_drain acks_ok_accept [of b]
        by (intro bt_inv_update [OF inv i]) (auto simp: bt_shape_def balanced_def)
    next
      case 2
      then show ?thesis using 3 w sh bal no_drain by (intro bt_inv_update [OF inv i]) auto
    qed
  next
    case 4
    then have w: "\<not> writer b" "0 < readers b" using hold by simp_all
    have "pc = AddReturns r" "b' = b\<lparr>readers := readers b - 1\<rparr>" using 4 step by simp_all
    then show ?thesis using 4 w sh bal no_drain by (intro bt_inv_update [OF inv i]) (auto simp: bt_shape_def balanced_def)
  qed
qed

text \<open>Steps that leave the items, the mutex and the collector alone.\<close>

lemma bt_inv_keep:
  assumes inv: "bt_inv \<lparr>bt = b, callers = ths\<rparr>" and i: "i < length ths" and sh: "bt_shape b'"
    and same: "writer b' = writer b" "b_closed b' = b_closed b" "maxSize b' = maxSize b" "accepted b' = accepted b"
      "flushed b' = flushed b" "b_in b' = b_in b" "run_pc b' = run_pc b" "readers b' = readers b"
    and acks: "length (acks b) \<le> length (acks b')"
    and pc: "caller_ok b' pc" "\<not> draining pc" "reading pc = reading (ths ! i)" "\<not> draining (ths ! i)"
  shows "bt_inv \<lparr>bt = b', callers = ths[i := pc]\<rparr>"
proof -
  have "caller_ok b' (CloseDrain buf)" if "j < length ths" "ths ! j = CloseDrain buf" for j buf
  proof -
    have "caller_ok b (ths ! j)" using inv that(1) by (simp add: bt_inv_def)
    then show ?thesis using that(2) same by simp
  qed
  moreover have "\<not> writer b' \<Longrightarrow> balanced b'" using inv same by (simp add: bt_inv_def balanced_def)
  ultimately show ?thesis using sh same acks pc by (intro bt_inv_update [OF inv i]) (simp_all del: caller_ok.simps(1))
qed

lemma caller_flush_ok:
  assumes inv: "bt_inv \<lparr>bt = b, callers = ths\<rparr>" and i: "i < length ths"
    and pc: "ths ! i \<in> {FlushStart} \<union> range FlushSend \<union> range FlushWait"
    and step: "(pc, b') \<in> set (bt_moves p (ths ! i) b)"
  shows "bt_inv \<lparr>bt = b', callers = ths[i := pc]\<rparr>"
proof -
  have sh: "bt_shape b" and ok: "caller_ok b (ths ! i)" using inv i by (auto simp: bt_inv_def)
  from pc consider "ths ! i = FlushStart" | a where "ths ! i = FlushSend a" | a where "ths ! i = FlushWait a" by blast
  then show ?thesis
  proof cases
    case 1
    then have b': "pc = FlushSend (length (acks b))" "b' = b\<lparr>acks := acks b @ [False], tickets := tickets b @ [length (accepted b)]\<rparr>"
      using step by simp_all
    have "bt_shape b'" using sh acks_ok_request [of b] unfolding b' bt_shape_def by (auto intro: less_SucI)
    then show ?thesis using 1 by (intro bt_inv_keep [OF inv i]) (simp_all add: b')
  next
    case 2
    then have a: "a < length (acks b)" using ok by simp
    from 2 step consider "b' = b\<lparr>flushCh := [a]\<rparr>" "pc = FlushWait a" | "b' = b" "pc = FlushReturns False" by (auto split: if_splits)
    then show ?thesis
    proof cases
      case b': 1
      have "bt_shape b'" using sh a unfolding b' bt_shape_def by auto
      then show ?thesis using 2 a by (intro bt_inv_keep [OF inv i]) (simp_all add: b')
    next
      case b': 2
      then show ?thesis using 2 sh by (intro bt_inv_keep [OF inv i]) simp_all
    qed
  next
    case 3
    then have "b' = b" "pc \<in> range FlushReturns" using step by (auto split: if_splits)
    then show ?thesis using 3 sh by (intro bt_inv_keep [OF inv i]) auto
  qed
qed

lemma caller_close_ok:
  assumes inv: "bt_inv \<lparr>bt = b, callers = ths\<rparr>" and i: "i < length ths"
    and pc: "ths ! i \<in> {CloseStart, CloseWait, CloseLock} \<union> range CloseDrain"
    and step: "(pc, b') \<in> set (bt_moves p (ths ! i) b)"
  shows "bt_inv \<lparr>bt = b', callers = ths[i := pc]\<rparr>"
proof -
  have sh: "bt_shape b" and bal: "\<not> writer b \<Longrightarrow> balanced b" and ok: "\<And>j. j < length ths \<Longrightarrow> caller_ok b (ths ! j)"
    using inv by (auto simp: bt_inv_def)
  from pc consider "ths ! i = CloseStart" | "ths ! i = CloseWait" | "ths ! i = CloseLock" | buf where "ths ! i = CloseDrain buf" by blast
  then show ?thesis
  proof cases
    case 1
    then have b': "b' = b\<lparr>b_done := True\<rparr>" "pc = CloseWait" using step by simp_all
    have "bt_shape b'" using sh unfolding b' bt_shape_def by auto
    then show ?thesis using 1 by (intro bt_inv_keep [OF inv i]) (simp_all add: b')
  next
    case 2
    then have "b_closed b" "b' = b" "pc = CloseLock" using step by (auto split: if_splits)
    then show ?thesis using 2 sh by (intro bt_inv_keep [OF inv i]) simp_all
  next
    case 3
    then have w: "\<not> writer b" "readers b = 0" "pc = CloseDrain []" "b' = b\<lparr>writer := True\<rparr>" using step by (auto split: if_splits)
    have c: "b_closed b" "run_pc b = CExit" using ok [OF i] 3 sh by (auto simp: bt_shape_def)
    have "accepted b = concat (flushed b) @ b_in b" using bal [OF w(1)] c by (simp add: balanced_def)
    then show ?thesis using 3 w c sh bt_inv_no_drain(1) [OF inv]
      by (intro bt_inv_update [OF inv i]) (auto simp: bt_shape_def)
  next
    case 4
    have alone: "False" if "j < length ths" "j \<noteq> i" "ths ! j = CloseDrain buf'" for j buf'
      using inv that i 4 by (metis (no_types, lifting) bt_inv_def bt_system.select_convs(2) draining.simps(1))
    have d: "writer b" "b_closed b" "length buf < maxSize b" "accepted b = concat (flushed b) @ buf @ b_in b" using ok [OF i] 4 by simp_all
    have e: "run_pc b = CExit" "readers b = 0" using sh d by (auto simp: bt_shape_def)
    show ?thesis
    proof (cases "b_in b")
      case Nil
      then have "pc = CloseReturns" "b' = (bt_flush p buf b)\<lparr>writer := False\<rparr>" using step 4 by simp_all
      then show ?thesis using 4 d e Nil shape_flush [OF sh, of buf p] alone
        by (intro bt_inv_update [OF inv i]) (auto simp: bt_shape_def balanced_def)
    next
      case (Cons x rest)
      obtain buf' b1 where ab: "addAndMaybeFlush p x buf (b\<lparr>b_in := rest\<rparr>) = (buf', b1)" by fastforce
      then have b': "pc = CloseDrain buf'" "b' = b1" using step 4 Cons by simp_all
      have sh': "bt_shape (b\<lparr>b_in := rest\<rparr>)" using sh by (auto simp: bt_shape_def)
      have len: "length buf < maxSize (b\<lparr>b_in := rest\<rparr>)" using d by simp
      from ab len show ?thesis
      proof (cases rule: addAndMaybeFlush_cases)
        case 1
        then show ?thesis using 4 b' d e Cons sh' alone by (intro bt_inv_update [OF inv i]) auto
      next
        case 2
        then show ?thesis using 4 b' d e Cons shape_flush [OF sh', of "buf @ [x]" p] alone by (intro bt_inv_update [OF inv i]) auto
      qed
    qed
  qed
qed

lemma handoff_ok:
  assumes inv: "bt_inv \<lparr>bt = b, callers = ths\<rparr>" and i: "i < length ths" "ths ! i = AddSend x" and e: "b_in b = []"
    and c: "collect p x (b\<lparr>accepted := accepted b @ [x]\<rparr>) = Some b'"
  shows "bt_inv \<lparr>bt = b', callers = ths[i := AddUnlock True]\<rparr>"
proof -
  let ?b = "b\<lparr>accepted := accepted b @ [x]\<rparr>"
  have sh: "bt_shape b" using inv by (simp add: bt_inv_def)
  have open_: "\<not> writer b" using sum_list_map_member [OF i(1), of reading] inv i(2) by (auto simp: bt_inv_def bt_shape_def)
  have "acks_ok ?b" using sh by (auto simp: bt_shape_def acks_ok_def)
  then have "bt_shape ?b" using sh unfolding bt_shape_def by auto
  moreover have "accepted ?b = concat (flushed ?b) @ cbuf (run_pc ?b) @ x # b_in ?b"
    using inv open_ e by (simp add: bt_inv_def balanced_def)
  ultimately have b': "bt_shape b' \<and> balanced b' \<and> writer b' = writer ?b \<and> readers b' = readers ?b \<and> b_closed b' = b_closed ?b \<and> acks b' = acks ?b \<and> \<not> b_closed b'"
    by (intro collect_ok [OF c])
  then show ?thesis using i bt_inv_no_drain(1) [OF inv] open_
    by (intro bt_inv_update [OF inv i(1)]) auto
qed

lemma bt_step_inv: "bt_step s s' \<Longrightarrow> bt_inv s \<Longrightarrow> bt_inv s'"
proof (induction rule: bt_step.induct)
  case (new_call i ths pc b)
  then have "caller_ok b pc" "\<not> draining pc" "reading pc = reading (ths ! i)" "\<not> draining (ths ! i)" "bt_shape b"
    by (auto simp: bt_inv_def elim!: idle.elims(2) fresh_call.elims(2))
  then show ?case using new_call by (intro bt_inv_keep [OF new_call.prems]) simp_all
next
  case (caller i ths pc b' p b)
  note c = caller
  show ?case
  proof (cases "ths ! i \<in> range AddStart \<union> range AddLock \<union> range AddSend \<union> range AddUnlock")
    case True
    then show ?thesis using c by (intro caller_add_ok)
  next
    case notadd: False
    show ?thesis
    proof (cases "ths ! i \<in> {FlushStart} \<union> range FlushSend \<union> range FlushWait")
      case True
      then show ?thesis using c by (intro caller_flush_ok)
    next
      case False
      with notadd c(2) have "ths ! i \<in> {CloseStart, CloseWait, CloseLock} \<union> range CloseDrain" by (cases "ths ! i") auto
      then show ?thesis using c by (intro caller_close_ok)
    qed
  qed
next
  case (collector b' tick p b ths)
  have "bt_shape b" "\<not> writer b \<longrightarrow> balanced b" using collector.prems unfolding bt_inv_def by simp_all
  note r = batcher_run_ok [OF collector.hyps this]
  have "caller_ok b' pc" if m: "pc \<in> set ths" for pc
  proof -
    obtain j where j: "j < length ths" "pc = ths ! j" using m by (auto simp: in_set_conv_nth)
    have "\<forall>i<length ths. caller_ok b (ths ! i)" using collector.prems by (simp add: bt_inv_def)
    then have "caller_ok b pc" using j by blast
    moreover have "\<not> draining pc" using bt_inv_no_drain(1) [OF collector.prems j(1)] r j(2) by (metis draining.elims(2))
    ultimately show ?thesis using caller_ok_mono [of b pc b'] r by simp
  qed
  then have "\<forall>i<length ths. caller_ok b' (ths ! i)" by simp
  moreover have "\<not> writer b'" using r by simp
  ultimately show ?case using r collector.prems unfolding bt_inv_def by simp
next
  case (handoff i ths x b p b')
  then show ?case by (intro handoff_ok)
qed

lemma bt_reachable_inv:
  assumes "batcher_New n opts = Some b" and "bt_shape b" and "balanced b" and "\<not> writer b \<and> readers b = 0" and "bt_step\<^sup>*\<^sup>* (bt_init b k) s"
  shows "bt_inv s"
  using assms(5)
proof (induction rule: rtranclp_induct)
  case base
  then show ?case using assms(2-4) by (simp add: bt_inv_def bt_init_def sum_list_replicate)
qed (blast intro: bt_step_inv)

lemma batcher_New_ok:
  assumes "batcher_New n (map WithBufferSize caps) = Some b"
  shows "bt_shape b \<and> balanced b \<and> \<not> writer b \<and> readers b = 0 \<and> maxSize b = nat n \<and> 0 < n"
proof -
  have "\<exists>cap. fold (\<lambda>opt b. opt b) (map WithBufferSize caps) c = c\<lparr>bufferCap := cap\<rparr>" for c :: "'a batcher"
  proof (induction caps arbitrary: c)
    case Nil
    then show ?case by (intro exI [of _ "bufferCap c"]) simp
  next
    case (Cons n caps)
    then obtain cap where "fold (\<lambda>opt b. opt b) (map WithBufferSize caps) (WithBufferSize n c) = (WithBufferSize n c)\<lparr>bufferCap := cap\<rparr>" by blast
    moreover have "(WithBufferSize n c)\<lparr>bufferCap := cap\<rparr> = c\<lparr>bufferCap := cap\<rparr>" by (simp add: WithBufferSize_def)
    ultimately show ?case by (intro exI [of _ cap]) simp
  qed
  then obtain cap where opts: "fold (\<lambda>opt b. opt b) (map WithBufferSize caps) c0 = c0\<lparr>bufferCap := cap\<rparr>"
    if "c0 = \<lparr>maxSize = nat n, bufferCap = nat n, b_in = [], b_done = False, flushCh = [], b_closed = False,
        readers = 0, writer = False, recovered = 0, acks = [], run_pc = CSelect [], accepted = [], flushed = [], tickets = []\<rparr>" for c0 :: "'a batcher"
    by metis
  have "0 < n" using assms by (simp add: batcher_New_def split: if_splits)
  moreover have "b = \<lparr>maxSize = nat n, bufferCap = cap, b_in = [], b_done = False, flushCh = [], b_closed = False,
        readers = 0, writer = False, recovered = 0, acks = [], run_pc = CSelect [], accepted = [], flushed = [], tickets = []\<rparr>"
    using assms opts by (simp add: batcher_New_def split: if_splits)
  ultimately show ?thesis by (simp add: bt_shape_def balanced_def batches_ok_def acks_ok_def)
qed

lemma bt_inv_balance:
  assumes "bt_inv s"
  shows "\<exists>buf. accepted (bt s) = concat (flushed (bt s)) @ buf @ b_in (bt s) \<and> length buf < maxSize (bt s)"
proof (cases "writer (bt s)")
  case True
  then obtain i where i: "i < length (callers s)" "draining (callers s ! i)" using assms by (auto simp: bt_inv_def)
  then obtain buf where "callers s ! i = CloseDrain buf" by (auto elim: draining.elims(2))
  moreover have "caller_ok (bt s) (callers s ! i)" using assms i(1) by (simp add: bt_inv_def)
  ultimately show ?thesis by auto
next
  case False
  then have "balanced (bt s)" "bt_shape (bt s)" using assms by (simp_all add: bt_inv_def)
  then show ?thesis by (auto simp: balanced_def bt_shape_def)
qed



lemma close_returns_flushed:
  assumes "bt_inv s" and "(CloseReturns, b') \<in> set (bt_moves p (callers s ! i) (bt s))" and "i < length (callers s)"
  shows "concat (flushed b') = accepted b'"
proof -
  obtain buf where buf: "callers s ! i = CloseDrain buf" using assms(2) by (cases "callers s ! i") (auto split: if_splits)
  have "caller_ok (bt s) (callers s ! i)" using assms(1,3) by (simp add: bt_inv_def)
  then have "accepted (bt s) = concat (flushed (bt s)) @ buf @ b_in (bt s)" using buf by simp
  moreover have "b_in (bt s) = [] \<and> b' = (bt_flush p buf (bt s))\<lparr>writer := False\<rparr>"
    using assms(2) buf by (cases "b_in (bt s)") (auto split: prod.splits)
  ultimately show ?thesis by simp
qed

lemma collector_progress:
  assumes "b_done b" and "\<not> b_closed b" and "bt_shape b"
  shows "batcher_run False p offered b \<noteq> [] \<or> (offered \<and> collect p x b \<noteq> None)"
proof -
  have pc: "run_pc b \<noteq> CExit" using assms(2,3) by (simp add: bt_shape_def)
  show ?thesis
  proof (cases "b_in b")
    case Nil
    then show ?thesis using pc assms(1) by (cases "run_pc b") (auto simp: batcher_run_def split: prod.splits)
  next
    case (Cons y ys)
    then have "receive p b \<noteq> []" using pc by (cases "run_pc b") (auto simp: receive_def split: prod.splits)
    then show ?thesis by (simp add: batcher_run_def)
  qed
qed


lemma caller_run:
  assumes "bt_step\<^sup>*\<^sup>* \<lparr>bt = b', callers = ths'\<rparr> s" and "i < length ths" and "(pc, b') \<in> set (bt_moves False (ths ! i) b)"
    and "ths' = ths[i := pc]"
  shows "bt_step\<^sup>*\<^sup>* \<lparr>bt = b, callers = ths\<rparr> s"
  using bt_step.caller [OF assms(2,3)] assms(1) unfolding assms(4) by (rule converse_rtranclp_into_rtranclp)

lemma call_run:
  assumes "bt_step\<^sup>*\<^sup>* \<lparr>bt = b, callers = ths'\<rparr> s" and "i < length ths" and "idle (ths ! i)" and "fresh_call pc" and "ths' = ths[i := pc]"
  shows "bt_step\<^sup>*\<^sup>* \<lparr>bt = b, callers = ths\<rparr> s"
  using bt_step.new_call [OF assms(2-4)] assms(1) unfolding assms(5) by (rule converse_rtranclp_into_rtranclp)

lemma collector_run:
  assumes "bt_step\<^sup>*\<^sup>* \<lparr>bt = b', callers = ths\<rparr> s" and "b' \<in> set (batcher_run False False (bufferCap b = 0 \<and> (\<exists>pc\<in>set ths. offers pc)) b)"
  shows "bt_step\<^sup>*\<^sup>* \<lparr>bt = b, callers = ths\<rparr> s"
  using bt_step.collector [OF assms(2)] assms(1) by (rule converse_rtranclp_into_rtranclp)

text \<open>States of a batcher of size two that has flushed nothing.\<close>

definition bt_at :: "bool \<Rightarrow> nat \<Rightarrow> bool \<Rightarrow> int collector \<Rightarrow> int list \<Rightarrow> int batcher" where
  "bt_at done r w pc xs = \<lparr>maxSize = 2, bufferCap = 2, b_in = xs, b_done = done, flushCh = [], b_closed = (pc = CExit),
     readers = r, writer = w, recovered = 0, acks = [], run_pc = pc, accepted = xs, flushed = [], tickets = []\<rparr>"

lemma bt_at_New: "batcher_New 2 (map WithBufferSize []) = Some (bt_at False 0 False (CSelect []) [])"
  by (simp add: batcher_New_def bt_at_def)

text \<open>One caller adds an item while the other closes.\<close>

lemma strand_run:
  "bt_step\<^sup>*\<^sup>* (bt_init (bt_at False 0 False (CSelect []) []) 2) \<lparr>bt = bt_at True 0 False CExit [7], callers = [AddReturns True, CloseReturns]\<rparr>"
proof -
  note close = caller_run [where i = 1]
  note add = caller_run [where i = 0]
  let ?final = "\<lparr>bt = bt_at True 0 False CExit [7], callers = [AddReturns True, CloseReturns]\<rparr>"
  have "bt_step\<^sup>*\<^sup>* ?final ?final" by blast
  then have "bt_step\<^sup>*\<^sup>* \<lparr>bt = bt_at True 1 False CExit [7], callers = [AddUnlock True, CloseReturns]\<rparr> ?final"
    by (rule add [where pc = "AddReturns True"]) (simp_all add: bt_at_def)
  then have "bt_step\<^sup>*\<^sup>* \<lparr>bt = bt_at True 1 False CExit [], callers = [AddSend 7, CloseReturns]\<rparr> ?final"
    by (rule add [where pc = "AddUnlock True"]) (simp_all add: bt_at_def)
  then have "bt_step\<^sup>*\<^sup>* \<lparr>bt = bt_at True 0 False CExit [], callers = [AddLock 7, CloseReturns]\<rparr> ?final"
    by (rule add [where pc = "AddSend 7"]) (simp_all add: bt_at_def)
  then have "bt_step\<^sup>*\<^sup>* \<lparr>bt = bt_at True 0 True CExit [], callers = [AddLock 7, CloseDrain []]\<rparr> ?final"
    by (rule close [where pc = CloseReturns]) (simp_all add: bt_at_def bt_flush_def)
  then have "bt_step\<^sup>*\<^sup>* \<lparr>bt = bt_at True 0 False CExit [], callers = [AddLock 7, CloseLock]\<rparr> ?final"
    by (rule close [where pc = "CloseDrain []"]) (simp_all add: bt_at_def)
  then have "bt_step\<^sup>*\<^sup>* \<lparr>bt = bt_at True 0 False CExit [], callers = [AddLock 7, CloseWait]\<rparr> ?final"
    by (rule close [where pc = CloseLock]) (simp_all add: bt_at_def)
  then have "bt_step\<^sup>*\<^sup>* \<lparr>bt = bt_at True 0 False (CDrainDone []) [], callers = [AddLock 7, CloseWait]\<rparr> ?final"
    by (rule collector_run) (simp add: bt_at_def batcher_run_def receive_def bt_flush_def)
  then have "bt_step\<^sup>*\<^sup>* \<lparr>bt = bt_at True 0 False (CSelect []) [], callers = [AddLock 7, CloseWait]\<rparr> ?final"
    by (rule collector_run) (simp add: bt_at_def batcher_run_def receive_def)
  then have "bt_step\<^sup>*\<^sup>* \<lparr>bt = bt_at False 0 False (CSelect []) [], callers = [AddLock 7, CloseStart]\<rparr> ?final"
    by (rule close [where pc = CloseWait]) (simp_all add: bt_at_def)
  then have "bt_step\<^sup>*\<^sup>* \<lparr>bt = bt_at False 0 False (CSelect []) [], callers = [AddStart 7, CloseStart]\<rparr> ?final"
    by (rule add [where pc = "AddLock 7"]) (simp_all add: bt_at_def)
  then have "bt_step\<^sup>*\<^sup>* \<lparr>bt = bt_at False 0 False (CSelect []) [], callers = [AddStart 7, AddReturns False]\<rparr> ?final"
    by (rule call_run [where i = 1 and pc = CloseStart]) simp_all
  then show ?thesis unfolding bt_init_def
    by (rule call_run [where i = 0 and pc = "AddStart 7"]) (simp_all add: numeral_2_eq_2)
qed


text \<open>
  An item can be stranded.  An \<open>Add\<close> that passed its check before \<open>Close\<close> was called may get the
  read lock only after \<open>Close\<close> has drained the channel and returned; its \<open>select\<close> may still take the
  buffered send, so \<open>Add\<close> reports true for an item that no collector is left to flush.
\<close>

lemma batcher_strands_item:
  "\<exists>b0 s. batcher_New 2 [] = Some b0 \<and> bt_step\<^sup>*\<^sup>* (bt_init b0 2) s \<and> callers s = [AddReturns True, CloseReturns]
    \<and> accepted (bt s) = [7 :: int] \<and> b_in (bt s) = [7] \<and> flushed (bt s) = [] \<and> run_pc (bt s) = CExit
    \<and> (\<forall>tick p. batcher_run tick p False (bt s) = [])"
  using bt_at_New strand_run
  by (intro exI [of _ "bt_at False 0 False (CSelect []) []"] exI [of _ "\<lparr>bt = bt_at True 0 False CExit [7], callers = [AddReturns True, CloseReturns]\<rparr>"])
    (simp add: bt_at_def batcher_run_def receive_def)

end
