(* ===== verification/Budget.thy ===== *)
theory Budget
  imports Second_Ring
begin

section \<open>Budget pacing (budget/budget.go)\<close>

text \<open>
  A pacer with its cumulative weight curve.  Configuration values are finite floats, that is
  rationals; the spend counter handed in by the caller is any \<open>float64\<close>, \<open>NaN\<close> and the infinities
  included, because guarding against them is a purpose of the code.  A time carries its Unix
  nanoseconds and the nanoseconds since local midnight, which the daily shape uses.
\<close>

datatype f64 = Fin rat | NaN | PosInf | NegInf

record moment =
  UnixNano :: int
  since_midnight :: int

datatype budget_error = ErrBudget

record pacer =
  pc_total :: rat
  pc_period :: int
  pc_buckets :: int
  pc_weight :: "rat list"
  pc_tolerance :: rat
  pc_emaAlpha :: rat
  pc_emaRate :: rat
  pc_lastSpend :: f64
  pc_lastTime :: "moment option"
  pc_rawWeights :: "rat list"

fun isFinite :: "f64 \<Rightarrow> bool" where
  "isFinite (Fin x) = True"
| "isFinite _ = False"

definition WithBuckets :: "int \<Rightarrow> pacer \<Rightarrow> pacer" where
  "WithBuckets n p = (if 0 < n then p\<lparr>pc_buckets := n\<rparr> else p)"

definition WithWeights :: "rat list \<Rightarrow> pacer \<Rightarrow> pacer" where
  "WithWeights w p = p\<lparr>pc_rawWeights := w\<rparr>"

definition WithTolerance :: "rat \<Rightarrow> pacer \<Rightarrow> pacer" where
  "WithTolerance f p = (if 0 \<le> f then p\<lparr>pc_tolerance := f\<rparr> else p)"

definition WithSmoothing :: "rat \<Rightarrow> pacer \<Rightarrow> pacer" where
  "WithSmoothing alpha p = p\<lparr>pc_emaAlpha := alpha\<rparr>"

definition raw_weight :: "rat list \<Rightarrow> nat \<Rightarrow> rat" where
  "raw_weight raw i = (if i < length raw then (if raw ! i < 0 then 0 else raw ! i) else 1)"

fun curve_loop :: "rat list \<Rightarrow> rat \<Rightarrow> rat \<Rightarrow> rat list" where
  "curve_loop [] s cum = []"
| "curve_loop (v # vs) s cum =
    (let cum = fl64 (cum + fl64 (v / s)); cum = (if 1 < cum then 1 else cum) in cum # curve_loop vs s cum)"

definition buildCurve :: "pacer \<Rightarrow> pacer" where
  "buildCurve p =
    (let n = nat (pc_buckets p);
         w = map (raw_weight (pc_rawWeights p)) [0..<n];
         s = foldl (\<lambda>s v. fl64 (s + v)) 0 w;
         (w, s) = (if s \<le> 0 then (replicate n 1, fl64 (of_nat n)) else (w, s)) in
     p\<lparr>pc_weight := (0 # curve_loop w s 0)[n := 1]\<rparr>)"

definition budget_New :: "rat \<Rightarrow> int \<Rightarrow> (pacer \<Rightarrow> pacer) list \<Rightarrow> budget_error + pacer" where
  "budget_New amount period opts =
    (if amount \<le> 0 \<or> period \<le> 0 then Inl ErrBudget
     else let p = fold (\<lambda>opt p. opt p) opts
            \<lparr>pc_total = amount, pc_period = period, pc_buckets = 24, pc_weight = [], pc_tolerance = fl64 (5 / 100), pc_emaAlpha = 0,
             pc_emaRate = 0, pc_lastSpend = Fin 0, pc_lastTime = None, pc_rawWeights = []\<rparr>;
            p = (if pc_buckets p \<le> 0 then p\<lparr>pc_buckets := 24\<rparr> else p) in
       Inr (buildCurve p))"

definition dailyPeriod :: int where
  "dailyPeriod = 24 * 3600 * Second"

definition fractionOfPeriod :: "moment \<Rightarrow> pacer \<Rightarrow> rat" where
  "fractionOfPeriod t p =
    (if pc_period p = dailyPeriod then
       (let f = fl64 (fl64 (of_int (since_midnight t)) / fl64 (of_int dailyPeriod));
            f = (if f < 0 then 0 else f) in
        if 1 \<le> f then fl64 (999999 / 1000000) else f)
     else
       (let f = fl64 (fl64 (of_int (UnixNano t smod pc_period p)) / fl64 (of_int (pc_period p))) in
        if f < 0 then 0 else f))"

text \<open>An index outside the curve is \<open>None\<close>, the panic of the source.\<close>

definition targetFraction :: "moment \<Rightarrow> pacer \<Rightarrow> rat option" where
  "targetFraction t p =
    (let f = fractionOfPeriod t p;
         idx = fl64 (f * fl64 (of_int (pc_buckets p)));
         i = trunc idx;
         i = (if pc_buckets p \<le> i then pc_buckets p - 1 else i) in
     if i < 0 \<or> int (length (pc_weight p)) \<le> i + 1 then None
     else let lo = pc_weight p ! nat i; hi = pc_weight p ! nat (i + 1);
              frac = fl64 (idx - fl64 (of_int i));
              frac = (if frac < 0 then 0 else if 1 < frac then 1 else frac) in
       Some (fl64 (lo + fl64 (fl64 (hi - lo) * frac))))"

definition TargetSpend :: "moment \<Rightarrow> pacer \<Rightarrow> rat option" where
  "TargetSpend t p = map_option (\<lambda>f. fl64 (f * pc_total p)) (targetFraction t p)"

fun sanitizeSpend :: "f64 \<Rightarrow> rat" where
  "sanitizeSpend (Fin x) = (if x < 0 then 0 else x)"
| "sanitizeSpend _ = 0"

definition Deviation :: "f64 \<Rightarrow> moment \<Rightarrow> pacer \<Rightarrow> rat option" where
  "Deviation actualSpend t p =
    map_option (\<lambda>planned. if planned \<le> 0 then 0 else fl64 (fl64 (sanitizeSpend actualSpend - planned) / planned)) (TargetSpend t p)"

definition OnPlan :: "f64 \<Rightarrow> moment \<Rightarrow> pacer \<Rightarrow> bool option" where
  "OnPlan actualSpend t p = map_option (\<lambda>d. \<bar>d\<bar> \<le> pc_tolerance p) (Deviation actualSpend t p)"

definition ShouldThrottle :: "f64 \<Rightarrow> moment \<Rightarrow> pacer \<Rightarrow> bool option" where
  "ShouldThrottle actualSpend t p =
    (if \<not> isFinite actualSpend then Some True
     else let spend = sanitizeSpend actualSpend in
       if pc_total p \<le> spend then Some True
       else map_option (\<lambda>d. pc_tolerance p < d) (Deviation (Fin spend) t p))"

definition pace_of :: "rat \<Rightarrow> rat \<Rightarrow> rat" where
  "pace_of tolerance dev =
    (if dev \<le> tolerance then 1
     else let over = fl64 (dev - tolerance); r = fl64 (1 - over) in if r < 0 then 0 else r)"

definition PaceRatio :: "f64 \<Rightarrow> moment \<Rightarrow> pacer \<Rightarrow> rat option" where
  "PaceRatio actualSpend t p =
    (if \<not> isFinite actualSpend then Some 0
     else let spend = sanitizeSpend actualSpend in
       if pc_total p \<le> spend then Some 0
       else map_option (pace_of (pc_tolerance p)) (Deviation (Fin spend) t p))"

subsection \<open>The smoothed spend rate\<close>

text \<open>The instantaneous rate; a difference with a non-finite operand is not finite.\<close>

fun inst_rate :: "f64 \<Rightarrow> f64 \<Rightarrow> rat \<Rightarrow> f64" where
  "inst_rate (Fin a) (Fin b) dt = Fin (fl64 (fl64 (a - b) / dt))"
| "inst_rate NaN _ _ = NaN"
| "inst_rate _ NaN _ = NaN"
| "inst_rate PosInf PosInf _ = NaN"
| "inst_rate NegInf NegInf _ = NaN"
| "inst_rate PosInf _ _ = PosInf"
| "inst_rate NegInf _ _ = NegInf"
| "inst_rate (Fin _) PosInf _ = NegInf"
| "inst_rate (Fin _) NegInf _ = PosInf"

definition Smooth :: "f64 \<Rightarrow> moment \<Rightarrow> pacer \<Rightarrow> rat \<times> pacer" where
  "Smooth actualSpend t p =
    (case pc_lastTime p of
       None \<Rightarrow> (0, p\<lparr>pc_lastTime := Some t, pc_lastSpend := actualSpend\<rparr>)
     | Some lastTime \<Rightarrow>
       (let dt = Duration_Seconds (UnixNano t - UnixNano lastTime) in
        if dt \<le> 0 then (pc_emaRate p, p)
        else let cur = pc_emaRate p;
                 next_rate = (case inst_rate actualSpend (pc_lastSpend p) dt of
                   Fin inst \<Rightarrow>
                     (if pc_emaAlpha p \<le> 0 then inst
                      else if cur = 0 then inst
                      else fl64 (fl64 (pc_emaAlpha p * inst) + fl64 (fl64 (1 - pc_emaAlpha p) * cur)))
                 | _ \<Rightarrow> cur) in
          (next_rate, p\<lparr>pc_emaRate := next_rate, pc_lastSpend := actualSpend, pc_lastTime := Some t\<rparr>)))"

definition SmoothedRate :: "pacer \<Rightarrow> rat" where
  "SmoothedRate p = pc_emaRate p"

subsection \<open>The weight curve\<close>

lemma fl64_1 [simp]: "fl64 1 = 1"
  using fl64_int [of 1] by simp

lemma fl64_positive: "0 < q \<Longrightarrow> 0 < fl64 q"
  by (simp add: fl64_def fl64_pos_positive)

lemma fl64_add_ge: "fl64 c = c \<Longrightarrow> 0 \<le> x \<Longrightarrow> c \<le> fl64 (c + x)"
  using fl64_mono [of c "c + x"] by simp

lemma curve_loop_length [simp]: "length (curve_loop vs s cum) = length vs"
  by (induction vs s cum rule: curve_loop.induct) (simp_all add: Let_def)

lemma curve_loop_sorted:
  assumes "\<forall>v\<in>set vs. 0 \<le> v" "0 < s" "0 \<le> cum" "cum \<le> 1" "fl64 cum = cum"
  shows "sorted (cum # curve_loop vs s cum) \<and> (\<forall>c\<in>set (curve_loop vs s cum). c \<le> 1)"
  using assms
proof (induction vs s cum rule: curve_loop.induct)
  case (2 v vs s cum)
  define c where "c = (if 1 < fl64 (cum + fl64 (v / s)) then 1 else fl64 (cum + fl64 (v / s)))"
  have "0 \<le> fl64 (v / s)" using "2.prems" by (intro fl64_nonneg) simp
  then have "cum \<le> fl64 (cum + fl64 (v / s))" using "2.prems"(5) by (intro fl64_add_ge) auto
  then have c: "cum \<le> c" "c \<le> 1" "fl64 c = c" "0 \<le> c" using "2.prems" by (auto simp: c_def)
  have eq: "curve_loop (v # vs) s cum = c # curve_loop vs s c" by (simp add: c_def Let_def)
  have "sorted (c # curve_loop vs s c) \<and> (\<forall>x\<in>set (curve_loop vs s c). x \<le> 1)"
    using "2.IH" [OF refl c_def] "2.prems" c by simp
  then show ?case unfolding eq using c by auto
qed simp

definition pacer_ok :: "pacer \<Rightarrow> bool" where
  "pacer_ok p \<longleftrightarrow> 0 < pc_total p \<and> 0 < pc_period p \<and> 0 < pc_buckets p \<and> 0 \<le> pc_tolerance p
    \<and> length (pc_weight p) = Suc (nat (pc_buckets p)) \<and> sorted (pc_weight p)
    \<and> pc_weight p ! 0 = 0 \<and> pc_weight p ! nat (pc_buckets p) = 1"

lemma sorted_pin_last:
  assumes "sorted xs" "xs \<noteq> []" "\<forall>x\<in>set xs. x \<le> (m :: rat)"
  shows "sorted (xs[length xs - 1 := m])"
proof -
  have "xs = butlast xs @ [last xs]" using assms(2) by simp
  then have "xs[length xs - 1 := m] = butlast xs @ [m]" by (metis length_butlast list_update_length)
  moreover have "sorted (butlast xs)" using assms(1) by (simp add: sorted_butlast)
  ultimately show ?thesis using assms(3) by (auto simp: sorted_append dest: in_set_butlastD)
qed

lemma buildCurve_ok:
  assumes "0 < pc_total p" "0 < pc_period p" "0 < pc_buckets p" "0 \<le> pc_tolerance p"
  shows "pacer_ok (buildCurve p)"
proof -
  define n where "n = nat (pc_buckets p)"
  define w where "w = map (raw_weight (pc_rawWeights p)) [0..<n]"
  define s where "s = foldl (\<lambda>s v. fl64 (s + v)) 0 w"
  define w' where "w' = (if s \<le> 0 then replicate n 1 else w)"
  define s' where "s' = (if s \<le> 0 then fl64 (of_nat n) else s)"
  have n: "0 < n" using assms(3) by (simp add: n_def)
  have len: "length w' = n" by (simp add: w'_def w_def)
  have "\<forall>v\<in>set w'. 0 \<le> v" by (auto simp: w'_def w_def raw_weight_def)
  moreover have "0 < s'" using n by (auto simp: s'_def intro: fl64_positive)
  ultimately have c: "sorted (0 # curve_loop w' s' 0) \<and> (\<forall>x\<in>set (curve_loop w' s' 0). x \<le> 1)"
    by (intro curve_loop_sorted) auto
  have eq: "pc_weight (buildCurve p) = (0 # curve_loop w' s' 0)[n := 1]"
    unfolding buildCurve_def Let_def n_def [symmetric] w_def [symmetric] s_def [symmetric] w'_def s'_def
    by (cases "s \<le> 0") simp_all
  have "sorted ((0 # curve_loop w' s' 0)[length (0 # curve_loop w' s' 0) - 1 := 1])"
    using c by (intro sorted_pin_last) auto
  then have "sorted (pc_weight (buildCurve p))" by (simp add: eq len)
  moreover have "pc_weight (buildCurve p) ! 0 = 0" "pc_weight (buildCurve p) ! n = 1" "length (pc_weight (buildCurve p)) = Suc n"
    using n len by (auto simp: eq gr0_conv_Suc)
  moreover have "pc_total (buildCurve p) = pc_total p" "pc_period (buildCurve p) = pc_period p"
    "pc_buckets (buildCurve p) = pc_buckets p" "pc_tolerance (buildCurve p) = pc_tolerance p"
    by (simp_all add: buildCurve_def Let_def split: prod.splits)
  ultimately show ?thesis using assms by (simp add: pacer_ok_def n_def)
qed

definition pacer_options :: "(pacer \<Rightarrow> pacer) set" where
  "pacer_options = range WithBuckets \<union> range WithWeights \<union> range WithTolerance \<union> range WithSmoothing"

lemma pacer_options_keep:
  assumes "set opts \<subseteq> pacer_options" and "0 \<le> pc_tolerance p" and "0 < pc_buckets p"
  shows "let q = fold (\<lambda>opt p. opt p) opts p in
    pc_total q = pc_total p \<and> pc_period q = pc_period p \<and> 0 \<le> pc_tolerance q \<and> 0 < pc_buckets q"
  using assms
proof (induction opts arbitrary: p)
  case (Cons opt opts)
  from Cons.prems(1) have "opt \<in> pacer_options" by simp
  then have "pc_total (opt p) = pc_total p \<and> pc_period (opt p) = pc_period p \<and> 0 \<le> pc_tolerance (opt p) \<and> 0 < pc_buckets (opt p)"
    using Cons.prems by (auto simp: pacer_options_def WithBuckets_def WithWeights_def WithTolerance_def WithSmoothing_def)
  then show ?case using Cons.IH [of "opt p"] Cons.prems(1) by (simp add: Let_def)
qed simp

lemma budget_New_ok:
  assumes "budget_New amount period opts = Inr p" and "set opts \<subseteq> pacer_options"
  shows "pacer_ok p" "pc_total p = amount"
proof -
  define q where "q = fold (\<lambda>opt p. opt p) opts
    \<lparr>pc_total = amount, pc_period = period, pc_buckets = 24, pc_weight = [], pc_tolerance = fl64 (5 / 100), pc_emaAlpha = 0,
     pc_emaRate = 0, pc_lastSpend = Fin 0, pc_lastTime = None, pc_rawWeights = []\<rparr>"
  have pos: "0 < amount" "0 < period" using assms(1) by (auto simp: budget_New_def split: if_splits)
  have q: "pc_total q = amount" "pc_period q = period" "0 \<le> pc_tolerance q" "0 < pc_buckets q"
    using pacer_options_keep [OF assms(2)] by (simp_all add: q_def fl64_nonneg Let_def)
  have p: "p = buildCurve q" using assms(1) pos q(4) by (simp add: budget_New_def q_def Let_def)
  show "pacer_ok p" using pos q unfolding p by (intro buildCurve_ok) simp_all
  show "pc_total p = amount" using q(1) unfolding p by (simp add: buildCurve_def Let_def split: prod.splits)
qed

subsection \<open>Decisions\<close>

lemma fractionOfPeriod_nonneg: "0 \<le> fractionOfPeriod t p"
  by (auto simp: fractionOfPeriod_def Let_def intro!: fl64_nonneg)

lemma TargetSpend_defined:
  assumes "pacer_ok p"
  obtains planned where "TargetSpend t p = Some planned" "0 \<le> planned"
proof -
  define idx where "idx = fl64 (fractionOfPeriod t p * fl64 (of_int (pc_buckets p)))"
  define i where "i = (if pc_buckets p \<le> trunc idx then pc_buckets p - 1 else trunc idx)"
  have n: "0 < pc_buckets p" "length (pc_weight p) = Suc (nat (pc_buckets p))" "sorted (pc_weight p)" "pc_weight p ! 0 = 0"
    using assms by (simp_all add: pacer_ok_def)
  have "0 \<le> idx" unfolding idx_def using n(1) fractionOfPeriod_nonneg [of t p] by (intro fl64_nonneg mult_nonneg_nonneg) (auto intro: fl64_nonneg)
  then have i: "0 \<le> i" "i < pc_buckets p" using n(1) by (auto simp: i_def trunc_def)
  let ?lo = "pc_weight p ! nat i" and ?hi = "pc_weight p ! nat (i + 1)"
  have lo: "0 \<le> ?lo" using sorted_nth_mono [OF n(3), of 0 "nat i"] n(2,4) i by simp
  have hi: "?lo \<le> ?hi" using n(2) i by (intro sorted_nth_mono [OF n(3)]) auto
  define frac where "frac = (let f = fl64 (idx - fl64 (of_int i)) in if f < 0 then 0 else if 1 < f then 1 else f)"
  have "0 \<le> frac" by (auto simp: frac_def Let_def)
  then have "0 \<le> fl64 (fl64 (?hi - ?lo) * frac)" using hi by (intro fl64_nonneg mult_nonneg_nonneg) (auto intro: fl64_nonneg)
  then have "0 \<le> fl64 (?lo + fl64 (fl64 (?hi - ?lo) * frac))" using lo by (intro fl64_nonneg) simp
  moreover have "targetFraction t p = Some (fl64 (?lo + fl64 (fl64 (?hi - ?lo) * frac)))"
    using i n(2) unfolding targetFraction_def Let_def idx_def [symmetric] i_def [symmetric] frac_def by simp
  ultimately show ?thesis using assms
    by (intro that [of "fl64 (fl64 (?lo + fl64 (fl64 (?hi - ?lo) * frac)) * pc_total p)"])
      (auto simp: TargetSpend_def pacer_ok_def intro!: fl64_nonneg mult_nonneg_nonneg)
qed

lemma sanitizeSpend_mono: "x \<le> y \<Longrightarrow> sanitizeSpend (Fin x) \<le> sanitizeSpend (Fin y)"
  by simp

lemma Deviation_mono:
  assumes "Deviation (Fin x) t p = Some dx" "Deviation (Fin y) t p = Some dy" "x \<le> y"
  shows "dx \<le> dy"
  using assms sanitizeSpend_mono [OF assms(3)]
  by (auto simp: Deviation_def simp del: sanitizeSpend.simps intro!: fl64_mono divide_right_mono split: if_splits)

lemma pace_of_range: "0 \<le> pace_of tol dev" "pace_of tol dev \<le> 1"
proof -
  show "0 \<le> pace_of tol dev" by (simp add: pace_of_def Let_def)
  show "pace_of tol dev \<le> 1"
  proof (cases "dev \<le> tol")
    case False
    then have "0 \<le> fl64 (dev - tol)" by (intro fl64_nonneg) simp
    then have "fl64 (1 - fl64 (dev - tol)) \<le> 1" using fl64_mono [of "1 - fl64 (dev - tol)" 1] by simp
    then show ?thesis using False by (simp add: pace_of_def Let_def)
  qed (simp add: pace_of_def)
qed

lemma pace_of_antimono:
  assumes "a \<le> b"
  shows "pace_of tol b \<le> pace_of tol a"
proof (cases "a \<le> tol")
  case True
  then show ?thesis using pace_of_range(2) [of tol b] by (simp add: pace_of_def)
next
  case False
  then have "fl64 (1 - fl64 (b - tol)) \<le> fl64 (1 - fl64 (a - tol))" using assms by (intro fl64_mono diff_left_mono) simp
  then show ?thesis using False assms by (simp add: pace_of_def Let_def)
qed

text \<open>Below the budget every decision is a function of the deviation.\<close>

lemma decisions_below:
  assumes "pacer_ok p" and "TargetSpend t p = Some planned" and "sanitizeSpend (Fin x) < pc_total p"
  obtains d where "Deviation (Fin (sanitizeSpend (Fin x))) t p = Some d" "ShouldThrottle (Fin x) t p = Some (pc_tolerance p < d)"
    "PaceRatio (Fin x) t p = Some (pace_of (pc_tolerance p) d)" "sanitizeSpend (Fin x) \<le> planned \<Longrightarrow> d \<le> 0"
proof -
  let ?s = "sanitizeSpend (Fin x)"
  define d where "d = (if planned \<le> 0 then 0 else fl64 (fl64 (?s - planned) / planned))"
  have same: "sanitizeSpend (Fin ?s) = ?s" by simp
  have dev: "Deviation (Fin ?s) t p = Some d" unfolding Deviation_def same by (simp add: assms(2) d_def)
  have "d \<le> 0" if "?s \<le> planned"
  proof -
    have "fl64 (?s - planned) \<le> 0" using fl64_mono [of "?s - planned" 0] that by simp
    then have "fl64 (fl64 (?s - planned) / planned) \<le> 0" if "0 < planned"
      using that fl64_mono [of "fl64 (?s - planned) / planned" 0] by (simp add: divide_nonpos_pos)
    then show ?thesis by (simp add: d_def)
  qed
  moreover have "ShouldThrottle (Fin x) t p = Some (pc_tolerance p < d)" "PaceRatio (Fin x) t p = Some (pace_of (pc_tolerance p) d)"
    using assms(3) dev by (simp_all add: ShouldThrottle_def PaceRatio_def Let_def del: sanitizeSpend.simps)
  ultimately show ?thesis using dev by (intro that [of d]) simp_all
qed

lemma decisions_spent:
  assumes "\<not> isFinite s \<or> pc_total p \<le> sanitizeSpend s"
  shows "ShouldThrottle s t p = Some True" "PaceRatio s t p = Some 0"
  using assms by (auto simp: ShouldThrottle_def PaceRatio_def Let_def)

lemma decisions_range:
  assumes "pacer_ok p" and "TargetSpend t p = Some planned"
  shows "\<exists>r b. PaceRatio s t p = Some r \<and> 0 \<le> r \<and> r \<le> 1 \<and> ShouldThrottle s t p = Some b \<and> (r < 1 \<longrightarrow> b)"
proof (cases "\<not> isFinite s \<or> pc_total p \<le> sanitizeSpend s")
  case True
  then show ?thesis using decisions_spent [OF True] by (intro exI [of _ 0] exI [of _ True]) simp
next
  case False
  then obtain z where z: "s = Fin z" by (cases s) auto
  then have "sanitizeSpend (Fin z) < pc_total p" using False by (simp del: sanitizeSpend.simps)
  then show ?thesis unfolding z
    by (rule decisions_below [OF assms]) (use pace_of_range in \<open>auto simp: pace_of_def\<close>)
qed

lemma decisions_mono:
  assumes "pacer_ok p" and "TargetSpend t p = Some planned" and "x \<le> y"
  shows "the (PaceRatio (Fin y) t p) \<le> the (PaceRatio (Fin x) t p)
    \<and> (ShouldThrottle (Fin x) t p = Some True \<longrightarrow> ShouldThrottle (Fin y) t p = Some True)"
proof (cases "pc_total p \<le> sanitizeSpend (Fin y)")
  case True
  then show ?thesis using decisions_spent [of "Fin y" p t] decisions_range [OF assms(1,2), of "Fin x"] by auto
next
  case False
  have le: "sanitizeSpend (Fin x) \<le> sanitizeSpend (Fin y)" using assms(3) by (rule sanitizeSpend_mono)
  with False have lt: "sanitizeSpend (Fin x) < pc_total p" "sanitizeSpend (Fin y) < pc_total p" by linarith+
  obtain dx where dx: "Deviation (Fin (sanitizeSpend (Fin x))) t p = Some dx" "ShouldThrottle (Fin x) t p = Some (pc_tolerance p < dx)"
    "PaceRatio (Fin x) t p = Some (pace_of (pc_tolerance p) dx)" using decisions_below [OF assms(1,2) lt(1)] .
  obtain dy where dy: "Deviation (Fin (sanitizeSpend (Fin y))) t p = Some dy" "ShouldThrottle (Fin y) t p = Some (pc_tolerance p < dy)"
    "PaceRatio (Fin y) t p = Some (pace_of (pc_tolerance p) dy)" using decisions_below [OF assms(1,2) lt(2)] .
  have "dx \<le> dy" using Deviation_mono [OF dx(1) dy(1) le] .
  then show ?thesis using dx dy pace_of_antimono [of dx dy "pc_tolerance p"] by auto
qed

text \<open>
  Pacing is total and protective.  For every pacer \<open>New\<close> accepts, whatever its options, every time
  and every spend counter, \<open>NaN\<close> and infinities included: the cumulative curve rises from 0 to 1 over
  the buckets, no index is out of range, the pace ratio lies between 0 and 1; an exhausted budget or a
  non-finite counter throttles and stops; spending up to the plan neither throttles nor slows; and more
  spend never raises the pace nor lifts the throttle, rounding notwithstanding.
\<close>
lemma pacing_sound:
  assumes "budget_New amount period opts = Inr p" and "set opts \<subseteq> pacer_options"
  shows "sorted (pc_weight p) \<and> length (pc_weight p) = Suc (nat (pc_buckets p)) \<and> pc_weight p ! 0 = 0 \<and> pc_weight p ! nat (pc_buckets p) = 1
    \<and> (\<exists>planned\<ge>0. TargetSpend t p = Some planned
        \<and> (0 \<le> x \<and> x \<le> planned \<and> x < amount \<longrightarrow> ShouldThrottle (Fin x) t p = Some False \<and> PaceRatio (Fin x) t p = Some 1))
    \<and> (\<exists>r b. PaceRatio s t p = Some r \<and> 0 \<le> r \<and> r \<le> 1 \<and> ShouldThrottle s t p = Some b \<and> (r < 1 \<longrightarrow> b))
    \<and> (\<not> isFinite s \<or> amount \<le> sanitizeSpend s \<longrightarrow> ShouldThrottle s t p = Some True \<and> PaceRatio s t p = Some 0)
    \<and> (x \<le> y \<longrightarrow> the (PaceRatio (Fin y) t p) \<le> the (PaceRatio (Fin x) t p)
        \<and> (ShouldThrottle (Fin x) t p = Some True \<longrightarrow> ShouldThrottle (Fin y) t p = Some True))"
proof -
  have ok: "pacer_ok p" and amount: "pc_total p = amount" using budget_New_ok [OF assms] by simp_all
  obtain planned where planned: "TargetSpend t p = Some planned" "0 \<le> planned" using TargetSpend_defined [OF ok] .
  have tol: "0 \<le> pc_tolerance p" and pos: "0 < amount" using ok amount by (simp_all add: pacer_ok_def)
  have curve: "sorted (pc_weight p) \<and> length (pc_weight p) = Suc (nat (pc_buckets p)) \<and> pc_weight p ! 0 = 0 \<and> pc_weight p ! nat (pc_buckets p) = 1"
    using ok by (simp add: pacer_ok_def)
  have behind: "ShouldThrottle (Fin x) t p = Some False \<and> PaceRatio (Fin x) t p = Some 1" if x: "0 \<le> x" "x \<le> planned" "x < amount"
  proof -
    have "sanitizeSpend (Fin x) < pc_total p" using x amount by simp
    then show ?thesis
      by (rule decisions_below [OF ok planned(1)]) (use x tol in \<open>auto simp: pace_of_def\<close>)
  qed
  have mono: "the (PaceRatio (Fin y) t p) \<le> the (PaceRatio (Fin x) t p)
      \<and> (ShouldThrottle (Fin x) t p = Some True \<longrightarrow> ShouldThrottle (Fin y) t p = Some True)" if "x \<le> y"
    using decisions_mono [OF ok planned(1) that] .
  show ?thesis using curve planned behind decisions_range [OF ok planned(1)] mono decisions_spent [of s p t] amount by blast
qed

lemma flat_pacer: "\<exists>p. budget_New 100 (10 * Second) [WithBuckets 2] = Inr p"
  by (simp add: budget_New_def WithBuckets_def Second_def Let_def)

text \<open>The smoothed rate survives a non-finite spend: the rate is kept and the next finite pair counts again.\<close>

lemma Smooth_bad_spend:
  assumes "\<not> isFinite s" and "pc_lastTime p = Some t0"
  shows "fst (Smooth s t p) = pc_emaRate p" "pc_emaRate (snd (Smooth s t p)) = pc_emaRate p"
  using assms by (cases s; cases "pc_lastSpend p"; simp add: Smooth_def Let_def)+

end
