(* ===== verification/Bit_Tricks.thy ===== *)
theory Bit_Tricks
  imports Bitset
begin

unbundle bit_operations_syntax

section \<open>Bit tricks (bit/bit.go)\<close>

text \<open>
  The functions of the package at the type \<open>uint64\<close>, and those that need a sign at the type \<open>int\<close> of a
  64-bit platform.  Every operation wraps at 64 bits as in the source; \<open>x >> 63\<close> of a signed value is the
  arithmetic shift.  The loops over a changing word are \<open>partial_function\<close>s or functions with their
  termination proof.
\<close>

datatype bit_error = ErrNegativeBit

text \<open>Signed values are their 64-bit patterns; \<open>sgn_mask\<close> is the arithmetic shift by \<open>intSize - 1\<close>.\<close>

definition sgn_mask :: "64 word \<Rightarrow> 64 word" where
  "sgn_mask x = signed_drop_bit 63 x"

definition HasOppositeSigns :: "64 word \<Rightarrow> 64 word \<Rightarrow> bool" where
  "HasOppositeSigns x y \<longleftrightarrow> (x XOR y) <s 0"

definition bit_Min :: "64 word \<Rightarrow> 64 word \<Rightarrow> 64 word" where
  "bit_Min x y = (let x = x - y in y + (x AND sgn_mask x))"

definition bit_Max :: "64 word \<Rightarrow> 64 word \<Rightarrow> 64 word" where
  "bit_Max x y = (let y = x - y in x - (y AND sgn_mask y))"

definition bit_Abs :: "64 word \<Rightarrow> 64 word" where
  "bit_Abs n = (n XOR sgn_mask n) - sgn_mask n"

function CountOneBit :: "64 word \<Rightarrow> nat" where
  "CountOneBit num = (if num = 0 then 0 else Suc (CountOneBit (num AND (num - 1))))"
  by auto
termination by (relation "measure unat") (auto simp: lowest_cleared_less)
declare CountOneBit.simps [simp del]

definition IsPowerOfTwo :: "64 word \<Rightarrow> bool" where
  "IsPowerOfTwo num \<longleftrightarrow> 0 < num \<and> num AND (num - 1) = 0"

definition RightOneBitNum :: "64 word \<Rightarrow> 64 word" where
  "RightOneBitNum num = num AND (NOT num + 1)"

fun smear_loop :: "nat list \<Rightarrow> 64 word \<Rightarrow> 64 word" where
  "smear_loop [] num = num"
| "smear_loop (i # is) num = smear_loop is (num OR drop_bit (2 ^ i) num)"

definition LeftOneBitNum :: "64 word \<Rightarrow> 64 word" where
  "LeftOneBitNum num =
    (if num AND (num - 1) = 0 then num else drop_bit 1 (smear_loop [0, 1, 2, 3, 4, 5] num + 1))"

definition NextHighestPowerOfTwo :: "64 word \<Rightarrow> 64 word" where
  "NextHighestPowerOfTwo num =
    (if num AND (num - 1) = 0 then num else smear_loop [0, 1, 2, 3, 4, 5] (num - 1) + 1)"

definition PreHighestPowerOfTwo :: "64 word \<Rightarrow> 64 word" where
  "PreHighestPowerOfTwo num = LeftOneBitNum num"

definition bit_Swap :: "64 word list \<Rightarrow> 64 word list" where
  "bit_Swap nums =
    (if length nums < 2 then nums
     else let nums = nums[0 := nums ! 0 XOR nums ! 1];
              nums = nums[1 := nums ! 1 XOR nums ! 0] in
       nums[0 := nums ! 0 XOR nums ! 1])"

partial_function (option) bit_Sum :: "64 word \<Rightarrow> 64 word \<Rightarrow> 64 word option" where
  "bit_Sum x y = (if y = 0 then Some x else bit_Sum (x XOR y) (push_bit 1 (x AND y)))"

lemma halve_less: "1 \<le> w \<Longrightarrow> unat (drop_bit 1 w) < unat (w :: 64 word)"
proof -
  assume "1 \<le> w"
  then have "0 < unat w" by (simp add: word_le_nat_alt)
  then have "unat w div 2 < unat w" by simp
  moreover have "unat (drop_bit 1 w) = unat w div 2" unfolding unat_drop_bit_eq by (simp add: drop_bit_eq_div)
  ultimately show ?thesis by simp
qed

function MaxBits :: "64 word \<Rightarrow> nat" where
  "MaxBits num = (if 1 \<le> num then Suc (MaxBits (drop_bit 1 num)) else 0)"
  by auto
termination using halve_less by (relation "measure unat") auto
declare MaxBits.simps [simp del]

definition bit_Bit :: "64 word \<Rightarrow> int \<Rightarrow> bit_error + 64 word" where
  "bit_Bit x y = (if y < 0 then Inl ErrNegativeBit else Inr (drop_bit (nat y) x AND 1))"

definition ReverseBit :: "64 word \<Rightarrow> int \<Rightarrow> bit_error + 64 word" where
  "ReverseBit x y = (if y < 0 then Inl ErrNegativeBit else Inr (x XOR push_bit (nat y) 1))"

definition SetBit :: "64 word \<Rightarrow> int \<Rightarrow> bit_error + 64 word" where
  "SetBit x y = (if y < 0 then Inl ErrNegativeBit else Inr (x OR push_bit (nat y) 1))"

definition UnsetBit :: "64 word \<Rightarrow> int \<Rightarrow> bit_error + 64 word" where
  "UnsetBit x y = (if y < 0 then Inl ErrNegativeBit else Inr (x AND NOT (push_bit (nat y) 1)))"

subsection \<open>Addition by carries\<close>

lemma xor_carry: "(x XOR y) + push_bit 1 (x AND y) = x + (y :: 64 word)"
proof -
  have "(x XOR y) AND (x AND y) = 0" by (rule bit_word_eqI) (simp add: bit_and_iff bit_xor_iff)
  then have "(x XOR y) + (x AND y) = (x XOR y) OR (x AND y)" by (rule disjunctive_add_eq_or)
  also have "\<dots> = x OR y" by (rule bit_word_eqI) (auto simp: bit_and_iff bit_xor_iff bit_or_iff)
  finally have "(x XOR y) + (x AND y) + (x AND y) = x + y" using word_plus_and_or [of x y] by (simp add: add.commute)
  then show ?thesis by (simp add: push_bit_eq_mult algebra_simps)
qed

lemma bit_Sum_exact: "\<forall>n<k. \<not> bit y n \<Longrightarrow> k \<le> 64 \<Longrightarrow> bit_Sum x y = Some (x + y)"
proof (induction "64 - k" arbitrary: k x y)
  case 0
  then have "y = 0" by (intro bit_word_eqI) auto
  then show ?case by (simp add: bit_Sum.simps)
next
  case (Suc d)
  have "\<forall>n<Suc k. \<not> bit (push_bit 1 (x AND y)) n"
  proof (intro allI impI notI)
    fix n assume "n < Suc k" "bit (push_bit 1 (x AND y)) n"
    then have "1 \<le> n" "bit (x AND y) (n - 1)" by (simp_all only: bit_push_bit_iff)
    then show False using Suc.prems(1) \<open>n < Suc k\<close> by (simp only: bit_and_iff) auto
  qed
  moreover have "d = 64 - Suc k" "Suc k \<le> 64" using Suc.hyps(2) by simp_all
  ultimately have "bit_Sum (x XOR y) (push_bit 1 (x AND y)) = Some ((x XOR y) + push_bit 1 (x AND y))"
    using Suc.hyps(1) [of "Suc k" "push_bit 1 (x AND y)" "x XOR y"] by blast
  then show ?case unfolding xor_carry by (subst bit_Sum.simps) (simp split: if_split)
qed

subsection \<open>Counting and locating ones\<close>

lemma CountOneBit_slice: "CountOneBit w = length (to_slice_word 0 w)"
proof (induction w rule: CountOneBit.induct)
  case (1 num)
  then show ?case by (subst CountOneBit.simps, subst to_slice_word.simps) simp
qed

lemma CountOneBit_exact: "CountOneBit w = OnesCount64 w"
  by (simp add: CountOneBit_slice to_slice_word_spec OnesCount64_def)

lemma single_bit: "w \<noteq> 0 \<Longrightarrow> w AND (w - 1) = 0 \<longleftrightarrow> w = 2 ^ TrailingZeros64 (w :: 64 word)"
proof -
  assume w: "w \<noteq> 0"
  note tz = TrailingZeros64_spec [OF w]
  have "w AND (w - 1) = 0 \<longleftrightarrow> (\<forall>n. bit w n \<longrightarrow> n = TrailingZeros64 w)"
  proof
    assume "w AND (w - 1) = 0"
    then show "\<forall>n. bit w n \<longrightarrow> n = TrailingZeros64 w" using clear_lowest [OF w] by simp
  next
    assume "\<forall>n. bit w n \<longrightarrow> n = TrailingZeros64 w"
    then show "w AND (w - 1) = 0" using clear_lowest [OF w] by (intro bit_word_eqI) auto
  qed
  also have "\<dots> \<longleftrightarrow> w = 2 ^ TrailingZeros64 w"
  proof
    assume "\<forall>n. bit w n \<longrightarrow> n = TrailingZeros64 w"
    then have "bit w n \<longleftrightarrow> n = TrailingZeros64 w \<and> n < 64" for n using tz(1,2) by blast
    then show "w = 2 ^ TrailingZeros64 w" by (intro bit_word_eqI) (simp only: bit_mask_word)
  next
    assume "w = 2 ^ TrailingZeros64 w"
    then have "bit w n \<longleftrightarrow> bit ((2 :: 64 word) ^ TrailingZeros64 w) n" for n by (rule arg_cong [where f = "\<lambda>v. bit v n"])
    then have "bit w n \<longleftrightarrow> n = TrailingZeros64 w \<and> n < 64" for n unfolding bit_mask_word .
    then show "\<forall>n. bit w n \<longrightarrow> n = TrailingZeros64 w" by blast
  qed
  finally show ?thesis .
qed

lemma IsPowerOfTwo_exact: "IsPowerOfTwo w \<longleftrightarrow> (\<exists>k<64. w = 2 ^ k)"
proof
  assume "IsPowerOfTwo w"
  then have "w \<noteq> 0" "w AND (w - 1) = 0" by (auto simp: IsPowerOfTwo_def word_gt_0)
  then show "\<exists>k<64. w = 2 ^ k" using single_bit [THEN iffD1, of w] TrailingZeros64_spec(1) [of w] by blast
next
  assume "\<exists>k<64. w = 2 ^ k"
  then obtain k where k: "k < 64" "w = 2 ^ k" by blast
  have ones: "bit w n \<longleftrightarrow> n = k" for n using k by (auto simp: bit_mask_word)
  then have "w \<noteq> 0" by (metis bit_0_eq bot_apply bot_bool_def)
  moreover have "TrailingZeros64 w = k" using TrailingZeros64_spec(2) [OF \<open>w \<noteq> 0\<close>] ones by simp
  ultimately have "w AND (w - 1) = 0" using single_bit [of w] k(2) by argo
  then show "IsPowerOfTwo w" using \<open>w \<noteq> 0\<close> by (simp add: IsPowerOfTwo_def word_gt_0)
qed

lemma MaxBits_bound: "bit w n \<Longrightarrow> n < MaxBits w"
proof (induction w arbitrary: n rule: MaxBits.induct)
  case (1 w)
  then have "w \<noteq> 0" by auto
  then have w: "1 \<le> w" by (simp add: word_le_nat_alt unat_gt_0 Suc_le_eq)
  show ?case
  proof (cases n)
    case 0
    then show ?thesis using w by (subst MaxBits.simps) simp
  next
    case (Suc m)
    then have "bit (drop_bit 1 w) m" using "1.prems" by (simp add: bit_drop_bit_eq)
    then have "m < MaxBits (drop_bit 1 w)" using "1.IH" [OF w] by blast
    then show ?thesis using Suc w by (subst MaxBits.simps) simp
  qed
qed

lemma MaxBits_top: "w \<noteq> 0 \<Longrightarrow> 0 < MaxBits w \<and> bit w (MaxBits w - 1)"
proof (induction w rule: MaxBits.induct)
  case (1 w)
  have w: "1 \<le> w" using "1.prems" by (simp add: word_le_nat_alt unat_gt_0 Suc_le_eq)
  have step: "MaxBits w = Suc (MaxBits (drop_bit 1 w))" using w by (subst MaxBits.simps) simp
  show ?case
  proof (cases "drop_bit 1 w = 0")
    case True
    then have "MaxBits (drop_bit 1 w) = 0" by (subst MaxBits.simps) simp
    moreover obtain n where n: "bit w n" using "1.prems" by (auto simp: bit_eq_iff)
    moreover have "n = 0"
    proof (rule ccontr)
      assume "n \<noteq> 0"
      then have "bit (drop_bit 1 w) (n - 1)" using n by (simp add: bit_drop_bit_eq)
      then show False using True by simp
    qed
    ultimately show ?thesis using step by simp
  next
    case False
    then have "0 < MaxBits (drop_bit 1 w) \<and> bit (drop_bit 1 w) (MaxBits (drop_bit 1 w) - 1)" using "1.IH" [OF w] by blast
    then show ?thesis using step by (cases "MaxBits (drop_bit 1 w)") (simp_all add: bit_drop_bit_eq)
  qed
qed

lemma MaxBits_le: "MaxBits w \<le> 64"
  using MaxBits_top [of w] bit_imp_le_length [of w "MaxBits w - 1"]
  by (cases "w = 0") (auto simp: MaxBits.simps)

subsection \<open>Filling the ones below the highest\<close>

lemma smear_step:
  assumes "\<forall>n. bit w n \<longleftrightarrow> (\<exists>j<a. bit num (n + j))"
  shows "bit (w OR drop_bit a w) n \<longleftrightarrow> (\<exists>j<2 * a. bit (num :: 64 word) (n + j))"
proof -
  have "bit (w OR drop_bit a w) n \<longleftrightarrow> (\<exists>j<a. bit num (n + j)) \<or> (\<exists>j<a. bit num (a + n + j))"
    using assms by (simp add: bit_or_iff bit_drop_bit_eq)
  also have "\<dots> \<longleftrightarrow> (\<exists>j<2 * a. bit num (n + j))"
  proof
    assume "(\<exists>j<a. bit num (n + j)) \<or> (\<exists>j<a. bit num (a + n + j))"
    then show "\<exists>j<2 * a. bit num (n + j)"
    proof
      assume "\<exists>j<a. bit num (a + n + j)"
      then obtain j where "j < a" "bit num (n + (a + j))" by (auto simp: ac_simps)
      then show ?thesis by (intro exI [of _ "a + j"]) simp
    next
      assume "\<exists>j<a. bit num (n + j)"
      then obtain j where "j < a" "bit num (n + j)" by blast
      then show ?thesis by (intro exI [of _ j]) simp
    qed
  next
    assume "\<exists>j<2 * a. bit num (n + j)"
    then obtain j where j: "j < 2 * a" "bit num (n + j)" by blast
    show "(\<exists>j<a. bit num (n + j)) \<or> (\<exists>j<a. bit num (a + n + j))"
    proof (cases "j < a")
      case False
      then have "j - a < a \<and> bit num (a + n + (j - a))" using j by (simp add: ac_simps)
      then show ?thesis by blast
    qed (use j in blast)
  qed
  finally show ?thesis .
qed

lemma smear_prefix: "bit (smear_loop [0..<k] num) n \<longleftrightarrow> (\<exists>j<2 ^ k. bit num (n + j))"
proof (induction k arbitrary: n)
  case (Suc k)
  have "smear_loop (xs @ [i]) w = smear_loop xs w OR drop_bit (2 ^ i) (smear_loop xs w)" for xs i w
    by (induction xs arbitrary: w) simp_all
  then show ?case using smear_step [of "smear_loop [0..<k] num" "2 ^ k" num n] Suc by simp
qed simp

lemma smear_mask: "smear_loop [0, 1, 2, 3, 4, 5] num = mask (MaxBits num)"
proof -
  have upto: "[0, 1, 2, 3, 4, 5] = [0..<6 :: nat]" by (simp add: upt_conv_Cons)
  have "(\<exists>j<2 ^ 6. bit num (n + j)) \<longleftrightarrow> n < MaxBits num" for n
  proof
    assume "\<exists>j<2 ^ 6. bit num (n + j)"
    then show "n < MaxBits num" by (auto dest: MaxBits_bound)
  next
    assume n: "n < MaxBits num"
    then have "num \<noteq> 0" by (auto simp: MaxBits.simps)
    then have "bit num (n + (MaxBits num - 1 - n))" using MaxBits_top [of num] n by simp
    moreover have "MaxBits num - 1 - n < 2 ^ 6" using MaxBits_le [of num] n by simp
    ultimately show "\<exists>j<2 ^ 6. bit num (n + j)" by blast
  qed
  then show ?thesis unfolding upto using MaxBits_le [of num]
    by (intro bit_word_eqI) (simp add: smear_prefix bit_mask_iff)
qed

lemma mask_succ: "mask k + 1 = (2 ^ k :: 64 word)"
  by (simp add: mask_eq_decr_exp)

lemma LeftOneBitNum_exact:
  assumes "w \<noteq> 0" and "MaxBits w < 64"
  shows "LeftOneBitNum w = 2 ^ (MaxBits w - 1)"
proof (cases "w AND (w - 1) = 0")
  case True
  then have p: "w = 2 ^ TrailingZeros64 w" using single_bit [OF assms(1)] by simp
  have "bit w (MaxBits w - 1)" using MaxBits_top [OF assms(1)] by simp
  then have "bit ((2 :: 64 word) ^ TrailingZeros64 w) (MaxBits w - 1)" using p by simp
  then have "MaxBits w - 1 = TrailingZeros64 w" by (simp add: bit_mask_word)
  then show ?thesis using True p by (simp add: LeftOneBitNum_def)
next
  case False
  have "drop_bit 1 (2 ^ MaxBits w :: 64 word) = 2 ^ (MaxBits w - 1)"
    using assms(2) MaxBits_top [OF assms(1)]
    by (intro bit_word_eqI) (auto simp: bit_drop_bit_eq bit_mask_word simp del: drop_bit_exp_eq)
  then show ?thesis using False unfolding LeftOneBitNum_def smear_mask mask_succ by simp
qed

lemma power_bits: "k < 64 \<Longrightarrow> unat ((2 :: 64 word) ^ k) = 2 ^ k"
proof -
  assume "k < 64"
  then have "(2 :: nat) ^ k < 2 ^ 64" by (intro power_strict_increasing) simp_all
  moreover have "unat (of_nat (2 ^ k) :: 64 word) = 2 ^ k mod 2 ^ 64" by (simp only: unat_of_nat len_bit0 len_num1) simp
  ultimately show ?thesis by simp
qed

lemma MaxBits_range:
  assumes "w \<noteq> 0"
  shows "2 ^ (MaxBits w - 1) \<le> unat w" "unat w < 2 ^ MaxBits w"
proof -
  have "bit (unat w) (MaxBits w - 1)" using MaxBits_top [OF assms] by (simp add: bit_unsigned_iff)
  then have "odd (unat w div 2 ^ (MaxBits w - 1))" by (simp add: bit_iff_odd)
  then show "2 ^ (MaxBits w - 1) \<le> unat w" by (metis div_less even_zero not_le)
  have "take_bit (MaxBits w) (unat w) = unat w"
    by (rule bit_eqI) (auto simp: bit_take_bit_iff bit_unsigned_iff dest: MaxBits_bound)
  then show "unat w < 2 ^ MaxBits w" by (metis take_bit_nat_less_exp)
qed

lemma NextHighestPowerOfTwo_exact:
  assumes "w \<noteq> 0" and "unat w \<le> 2 ^ 63"
  obtains k where "k < 64" "NextHighestPowerOfTwo w = 2 ^ k" "unat w \<le> 2 ^ k" "\<And>j. j < k \<Longrightarrow> 2 ^ j < unat w"
proof (cases "w AND (w - 1) = 0")
  case True
  let ?k = "TrailingZeros64 w"
  have k: "?k < 64" "w = 2 ^ ?k" using single_bit [OF assms(1)] True TrailingZeros64_spec(1) [OF assms(1)] by blast+
  then have "unat w = 2 ^ ?k" using power_bits [OF k(1)] by metis
  moreover have "NextHighestPowerOfTwo w = 2 ^ ?k" using True k(2) by (metis NextHighestPowerOfTwo_def)
  ultimately show ?thesis using k(1) by (intro that [of ?k]) simp_all
next
  case False
  let ?v = "w - 1"
  have v: "?v \<noteq> 0" using False by auto
  have u: "unat ?v = unat w - 1" "0 < unat w" using assms(1) by (simp_all add: unat_minus_one unat_gt_0)
  note r = MaxBits_range [OF v]
  have "(2 :: nat) ^ (MaxBits ?v - 1) < 2 ^ 63" using r(1) u assms(2) by linarith
  then have "MaxBits ?v - 1 < 63" by (simp only: power_strict_increasing_iff)
  then have "MaxBits ?v < 64" by simp
  moreover have "NextHighestPowerOfTwo w = 2 ^ MaxBits ?v"
    using False unfolding NextHighestPowerOfTwo_def smear_mask mask_succ by simp
  moreover have "2 ^ j < unat w" if "j < MaxBits ?v" for j
  proof -
    have "(2 :: nat) ^ j \<le> 2 ^ (MaxBits ?v - 1)" using that by (intro power_increasing) auto
    then show ?thesis using r(1) u by linarith
  qed
  ultimately show ?thesis using r(2) u by (intro that [of "MaxBits ?v"]) auto
qed

lemma RightOneBitNum_exact:
  assumes "w \<noteq> 0"
  shows "RightOneBitNum w = 2 ^ TrailingZeros64 w"
proof -
  note tz = TrailingZeros64_spec [OF assms]
  have "NOT w + 1 = NOT (w - 1)" by (simp add: not_eq_complement)
  then have "RightOneBitNum w = w AND NOT (w - 1)" by (simp add: RightOneBitNum_def)
  moreover have "bit (w AND NOT (w - 1)) n \<longleftrightarrow> n = TrailingZeros64 w \<and> n < 64" for n
    using clear_lowest [OF assms, of n] tz(1,2) by (auto simp: bit_and_iff bit_not_iff dest: bit_imp_le_length)
  ultimately show ?thesis by (intro bit_word_eqI) (simp only: bit_mask_word)
qed

subsection \<open>Signed tricks\<close>

lemma sgn_mask_eq: "sgn_mask x = (if sint x < 0 then - 1 else 0)"
proof (rule bit_word_eqI)
  fix n assume "n < LENGTH(64)"
  moreover have "bit x 63 \<longleftrightarrow> sint x < 0" using bit_last_iff [of x] by simp
  ultimately show "bit (sgn_mask x) n \<longleftrightarrow> bit (if sint x < 0 then - 1 else 0 :: 64 word) n"
    by (cases n) (simp_all add: sgn_mask_def bit_signed_drop_bit_iff)
qed

lemma sint_diff: "in_i64 (sint x - sint y) \<Longrightarrow> sint (x - y :: 64 word) = sint x - sint y"
  by (simp add: in_i64_def MinInt64_def MaxInt64_def signed_take_bit_int_eq_self sint_word_ariths)

lemma bit_Min_exact: "in_i64 (sint x - sint y) \<Longrightarrow> bit_Min x y = (if sint x < sint y then x else y)"
  by (simp add: bit_Min_def Let_def sgn_mask_eq sint_diff)

lemma bit_Max_exact: "in_i64 (sint x - sint y) \<Longrightarrow> bit_Max x y = (if sint x < sint y then y else x)"
  by (simp add: bit_Max_def Let_def sgn_mask_eq sint_diff)

lemma bit_Abs_exact: "bit_Abs n = (if sint n < 0 then - n else n)"
  by (simp add: bit_Abs_def sgn_mask_eq not_eq_complement)

lemma bit_Swap_exact: "bit_Swap (a # b # rest) = b # a # rest"
proof -
  have "(a XOR b) XOR (b XOR (a XOR b)) = b" "b XOR (a XOR b) = a"
    by (rule bit_word_eqI, auto simp: bit_xor_iff)+
  then show ?thesis by (simp add: bit_Swap_def Let_def)
qed

text \<open>The four single-bit operations act on exactly the bit they name; a negative index is refused.\<close>

lemma bit_ops_exact:
  assumes "y < 64"
  shows "bit_Bit x (int y) = Inr (if bit x y then 1 else 0)"
    and "ReverseBit x (int y) = Inr (flip_bit y x)" and "SetBit x (int y) = Inr (set_bit y x)" and "UnsetBit x (int y) = Inr (unset_bit y x)"
  by (auto simp: bit_Bit_def ReverseBit_def SetBit_def UnsetBit_def flip_bit_eq_xor set_bit_eq_or unset_bit_eq_and_not and_one_eq
      bit_iff_odd_drop_bit odd_iff_mod_2_eq_one)

text \<open>
  The bit tricks compute what they are named after, for every 64-bit operand.  The carry loop of
  \<open>Sum\<close> ends and adds with wrap-around; \<open>CountOneBit\<close> ends and is the population count of \<open>math/bits\<close>;
  \<open>MaxBits\<close> is the length of the binary representation; \<open>IsPowerOfTwo\<close>, \<open>RightOneBitNum\<close> and
  \<open>LeftOneBitNum\<close> recognise and isolate single bits; \<open>NextHighestPowerOfTwo\<close> is the least power of two
  not below its argument; \<open>Min\<close>, \<open>Max\<close> and \<open>Abs\<close> are the signed operations while the difference does
  not overflow; \<open>Swap\<close> exchanges the first two elements.
\<close>
lemma bit_tricks_exact:
  fixes x y w :: "64 word"
  shows "bit_Sum x y = Some (x + y) \<and> CountOneBit w = OnesCount64 w \<and> (IsPowerOfTwo w \<longleftrightarrow> (\<exists>k<64. w = 2 ^ k))
    \<and> (w \<noteq> 0 \<longrightarrow> 2 ^ (MaxBits w - 1) \<le> unat w \<and> unat w < 2 ^ MaxBits w \<and> RightOneBitNum w = 2 ^ TrailingZeros64 w)
    \<and> (w \<noteq> 0 \<and> unat w < 2 ^ 63 \<longrightarrow> LeftOneBitNum w = 2 ^ (MaxBits w - 1) \<and> PreHighestPowerOfTwo w = LeftOneBitNum w)
    \<and> (w \<noteq> 0 \<and> unat w \<le> 2 ^ 63 \<longrightarrow>
        (\<exists>k<64. NextHighestPowerOfTwo w = 2 ^ k \<and> unat w \<le> 2 ^ k \<and> (\<forall>j<k. 2 ^ j < unat w)))
    \<and> (in_i64 (sint x - sint y) \<longrightarrow> bit_Min x y = (if sint x < sint y then x else y) \<and> bit_Max x y = (if sint x < sint y then y else x))
    \<and> bit_Abs w = (if sint w < 0 then - w else w) \<and> bit_Swap (x # y # rest) = y # x # rest"
proof -
  have "MaxBits w < 64" if "w \<noteq> 0" "unat w < 2 ^ 63"
  proof -
    have "(2 :: nat) ^ (MaxBits w - 1) < 2 ^ 63" using MaxBits_range(1) [OF that(1)] that(2) by linarith
    then have "MaxBits w - 1 < 63" by (simp only: power_strict_increasing_iff)
    then show ?thesis by simp
  qed
  then have left: "w \<noteq> 0 \<and> unat w < 2 ^ 63 \<longrightarrow> LeftOneBitNum w = 2 ^ (MaxBits w - 1) \<and> PreHighestPowerOfTwo w = LeftOneBitNum w"
    using LeftOneBitNum_exact [of w] by (simp add: PreHighestPowerOfTwo_def)
  have next_power: "w \<noteq> 0 \<and> unat w \<le> 2 ^ 63 \<longrightarrow>
      (\<exists>k<64. NextHighestPowerOfTwo w = 2 ^ k \<and> unat w \<le> 2 ^ k \<and> (\<forall>j<k. 2 ^ j < unat w))"
    using NextHighestPowerOfTwo_exact [of w] by metis
  show ?thesis
    by (intro conjI left next_power bit_Sum_exact [of 0] CountOneBit_exact IsPowerOfTwo_exact bit_Abs_exact bit_Swap_exact)
      (use MaxBits_range [of w] in \<open>auto simp: RightOneBitNum_exact bit_Min_exact bit_Max_exact\<close>)
qed

text \<open>With the top bit set the ones of the smeared word carry out, and the answer is zero.\<close>

lemma left_one_loses_top: "LeftOneBitNum (2 ^ 63 + 1) = 0"
proof -
  have w: "(2 ^ 63 + 1 :: 64 word) AND 2 ^ 63 \<noteq> 0" by simp
  then have "(2 ^ 63 + 1 :: 64 word) AND (2 ^ 63 + 1 - 1) \<noteq> 0" by simp
  moreover have "bit (2 ^ 63 + 1 :: 64 word) 63" by simp
  then have "MaxBits (2 ^ 63 + 1) = 64" using MaxBits_bound [of "2 ^ 63 + 1" 63] MaxBits_le [of "2 ^ 63 + 1"] by simp
  ultimately show ?thesis unfolding LeftOneBitNum_def smear_mask by (simp add: mask_eq_decr_exp)
qed

end
