(* ===== verification/Bufio.thy ===== *)
theory Bufio
  imports Prelude "HOL-Library.Sublist"
begin

section \<open>bufio.Writer\<close>

text \<open>
  The \<open>bufio.Writer\<close> of the standard library, which the spill store and the file writer of \<open>src/log4go\<close> put
  before a file: a buffer of \<open>sz\<close> bytes and a sticky error.  The write of the file underneath is an
  argument: it takes bytes and the state of the device and returns how many bytes it took; fewer than it
  was given is an error.  The locale \<open>byte_sink\<close> is what such a write promises, and \<open>flush_spec\<close> and
  \<open>write_spec\<close> are what the buffered writer makes of it.
\<close>

type_synonym bytes = "8 word list"

record bufw =
  bw_buf :: bytes
  bw_err :: bool

definition fresh_bufw :: bufw where
  "fresh_bufw = \<lparr>bw_buf = [], bw_err = False\<rparr>"

definition bw_Flush :: "(bytes \<Rightarrow> 'd \<Rightarrow> nat \<times> 'd) \<Rightarrow> bufw \<Rightarrow> 'd \<Rightarrow> bufw \<times> 'd" where
  "bw_Flush wr w d =
    (if bw_err w \<or> bw_buf w = [] then (w, d)
     else let (n, d') = wr (bw_buf w) d
          in if n < length (bw_buf w) then (\<lparr>bw_buf = drop n (bw_buf w), bw_err = True\<rparr>, d')
             else (\<lparr>bw_buf = [], bw_err = False\<rparr>, d'))"

function bw_Write :: "(bytes \<Rightarrow> 'd \<Rightarrow> nat \<times> 'd) \<Rightarrow> nat \<Rightarrow> bytes \<Rightarrow> bufw \<Rightarrow> 'd \<Rightarrow> bufw \<times> 'd" where
  "bw_Write wr sz p w d =
    (if length p > sz - length (bw_buf w) \<and> \<not> bw_err w
     then if bw_buf w = []
          then let (n, d') = wr p d
               in bw_Write wr sz (drop n p) (w\<lparr>bw_err := n < length p\<rparr>) d'
          else let n = sz - length (bw_buf w);
                   (w', d') = bw_Flush wr (w\<lparr>bw_buf := bw_buf w @ take n p\<rparr>) d
               in bw_Write wr sz (drop n p) w' d'
     else if bw_err w then (w, d)
     else (w\<lparr>bw_buf := bw_buf w @ p\<rparr>, d))"
  by pat_completeness auto
termination
proof (relation "measure (\<lambda>(wr, sz, p, w, d). length p + length (bw_buf w) + (if bw_err w then 0 else 1))")
  fix wr :: "bytes \<Rightarrow> 'd \<Rightarrow> nat \<times> 'd" and sz p w d x n d'
  assume *: "sz - length (bw_buf w) < length p \<and> \<not> bw_err w" "bw_buf w = []" "x = wr p d" "(n, d') = x"
  then show "((wr, sz, drop n p, w\<lparr>bw_err := n < length p\<rparr>, d'), wr, sz, p, w, d)
      \<in> measure (\<lambda>(wr, sz, p, w, d). length p + length (bw_buf w) + (if bw_err w then 0 else 1))"
    by auto
next
  fix wr :: "bytes \<Rightarrow> 'd \<Rightarrow> nat \<times> 'd" and sz p w d n x w' d'
  assume *: "sz - length (bw_buf w) < length p \<and> \<not> bw_err w" "bw_buf w \<noteq> []"
    "n = sz - length (bw_buf w)" "x = bw_Flush wr (w\<lparr>bw_buf := bw_buf w @ take n p\<rparr>) d" "(w', d') = x"
  then have "length (bw_buf w') + (if bw_err w' then 0 else 1) < length (bw_buf w) + n + 1"
    by (auto simp: bw_Flush_def Let_def split: prod.splits if_splits)
  moreover have "n < length p" "\<not> bw_err w" using * by simp_all
  ultimately show "((wr, sz, drop n p, w', d'), wr, sz, p, w, d)
      \<in> measure (\<lambda>(wr, sz, p, w, d). length p + length (bw_buf w) + (if bw_err w then 0 else 1))"
    unfolding in_measure case_prod_conv length_drop by simp
qed simp

declare bw_Write.simps [simp del]

text \<open>
  A device whose write hands out a prefix of what it is given.  \<open>grows d b d'\<close>: the device has taken exactly
  the bytes \<open>b\<close>; a \<open>roomy\<close> device takes everything and stays roomy.
\<close>

locale byte_sink =
  fixes wr :: "bytes \<Rightarrow> 'd \<Rightarrow> nat \<times> 'd" and grows :: "'d \<Rightarrow> bytes \<Rightarrow> 'd \<Rightarrow> bool" and roomy :: "'d \<Rightarrow> bool"
  assumes grows_refl: "grows d [] d"
    and grows_trans: "grows d b d' \<Longrightarrow> grows d' c d'' \<Longrightarrow> grows d (b @ c) d''"
    and write_grows: "wr p d = (n, d') \<Longrightarrow> grows d (take n p) d' \<and> n \<le> length p"
    and write_roomy: "wr p d = (n, d') \<Longrightarrow> roomy d \<Longrightarrow> n = length p \<and> roomy d'"
begin

lemma flush_spec:
  assumes "bw_Flush wr w d = (w', d')" and "\<not> bw_err w"
  shows "\<exists>out. grows d out d' \<and> out @ bw_buf w' = bw_buf w \<and> (\<not> bw_err w' \<longrightarrow> bw_buf w' = [])
    \<and> (bw_err w' \<longrightarrow> bw_buf w' \<noteq> []) \<and> (roomy d \<longrightarrow> \<not> bw_err w' \<and> roomy d')"
proof (cases "bw_buf w = []")
  case True
  with assms show ?thesis by (intro exI [of _ "[]"]) (auto simp: bw_Flush_def grows_refl)
next
  case False
  obtain n d1 where o: "wr (bw_buf w) d = (n, d1)" by (cases "wr (bw_buf w) d")
  have "d' = d1" and "w' = (if n < length (bw_buf w) then \<lparr>bw_buf = drop n (bw_buf w), bw_err = True\<rparr>
      else \<lparr>bw_buf = [], bw_err = False\<rparr>)"
    using assms False o by (auto simp: bw_Flush_def Let_def split: if_splits)
  with write_grows [OF o] write_roomy [OF o] False show ?thesis by (intro exI [of _ "take n (bw_buf w)"]) auto
qed

lemma write_spec:
  assumes "bw_Write wr sz p w d = (w', d')" and "\<not> bw_err w" and "length (bw_buf w) \<le> sz"
  shows "\<exists>out. grows d out d' \<and> length (bw_buf w') \<le> sz
    \<and> (\<not> bw_err w' \<longrightarrow> out @ bw_buf w' = bw_buf w @ p) \<and> (bw_err w' \<longrightarrow> strict_prefix out (bw_buf w @ p))
    \<and> (roomy d \<longrightarrow> \<not> bw_err w' \<and> roomy d')"
  using assms
proof (induction "length p + length (bw_buf w) + (if bw_err w then 0 else 1)" arbitrary: p w d w' d' rule: less_induct)
  case less
  show ?case
  proof (cases "length p > sz - length (bw_buf w)")
    case small: False
    then have "w' = w\<lparr>bw_buf := bw_buf w @ p\<rparr>" "d' = d"
      using less.prems by (simp_all add: bw_Write.simps [of wr sz p])
    then show ?thesis using small less.prems(2,3) by (intro exI [of _ "[]"]) (auto simp: grows_refl)
  next
    case big: True
    show ?thesis
    proof (cases "bw_buf w = []")
      case True
      obtain n d1 where o: "wr p d = (n, d1)" by (cases "wr p d")
      note ow = write_grows [OF o] write_roomy [OF o]
      let ?w = "w\<lparr>bw_err := n < length p\<rparr>"
      have rec: "bw_Write wr sz (drop n p) ?w d1 = (w', d')"
        using less.prems(1,2) big True o by (simp add: bw_Write.simps [of wr sz p])
      show ?thesis
      proof (cases "n < length p")
        case short: True
        then have "w' = ?w" "d' = d1" using rec by (simp_all add: bw_Write.simps)
        moreover have "strict_prefix (take n p) p" using short by (metis length_take min.absorb4 nat_neq_iff take_is_prefix strict_prefix_def)
        ultimately show ?thesis using ow short True less.prems(3) by (intro exI [of _ "take n p"]) auto
      next
        case False
        then have "n = length p" using ow(1) by simp
        then have "w' = w\<lparr>bw_err := False, bw_buf := []\<rparr>" "d' = d1"
          using rec True less.prems(2) by (simp_all add: bw_Write.simps)
        then show ?thesis using ow \<open>n = length p\<close> True less.prems(2) by (intro exI [of _ p]) auto
      qed
    next
      case False
      let ?n = "sz - length (bw_buf w)"
      let ?w = "w\<lparr>bw_buf := bw_buf w @ take ?n p\<rparr>"
      obtain w1 d1 where f: "bw_Flush wr ?w d = (w1, d1)" by (cases "bw_Flush wr ?w d")
      obtain o1 where o1: "grows d o1 d1" "o1 @ bw_buf w1 = bw_buf w @ take ?n p" "\<not> bw_err w1 \<longrightarrow> bw_buf w1 = []"
        "bw_err w1 \<longrightarrow> bw_buf w1 \<noteq> []" "roomy d \<longrightarrow> \<not> bw_err w1 \<and> roomy d1"
        using flush_spec [OF f] less.prems(2) by auto
      have rec: "bw_Write wr sz (drop ?n p) w1 d1 = (w', d')"
        using less.prems(1,2) big False f by (simp add: bw_Write.simps [of wr sz p])
      show ?thesis
      proof (cases "bw_err w1")
        case True
        then have e: "w' = w1" "d' = d1" using rec by (simp_all add: bw_Write.simps)
        have "strict_prefix o1 (o1 @ bw_buf w1)" using True o1(4) by (auto simp: strict_prefix_def)
        then have "strict_prefix o1 (bw_buf w @ take ?n p)" using o1(2) by simp
        then have sp: "strict_prefix o1 (bw_buf w @ p)"
          by (metis append_assoc append_take_drop_id prefix_def prefix_order.less_le_trans)
        have "length (bw_buf w1) \<le> length (o1 @ bw_buf w1)" by simp
        also have "\<dots> \<le> sz" unfolding o1(2) using less.prems(3) by simp
        finally show ?thesis using e o1 True sp by (intro exI [of _ o1]) auto
      next
        case ok: False
        then have nil: "bw_buf w1 = []" using o1(3) by simp
        have lt: "length (drop ?n p) + length (bw_buf w1) + (if bw_err w1 then 0 else 1)
            < length p + length (bw_buf w) + (if bw_err w then 0 else 1)"
          using nil False less.prems(2) ok by (cases "bw_buf w") simp_all
        obtain o2 where o2: "grows d1 o2 d'" "length (bw_buf w') \<le> sz"
          "\<not> bw_err w' \<longrightarrow> o2 @ bw_buf w' = drop ?n p" "bw_err w' \<longrightarrow> strict_prefix o2 (drop ?n p)"
          "roomy d1 \<longrightarrow> \<not> bw_err w' \<and> roomy d'"
          using less.hyps [OF lt rec ok] nil by auto
        have all: "o1 @ drop ?n p = bw_buf w @ p" using o1(2) nil by (metis append.right_neutral append_assoc append_take_drop_id)
        have "bw_err w' \<longrightarrow> strict_prefix (o1 @ o2) (bw_buf w @ p)"
          using o2(4) all by (metis strict_prefix_def same_prefix_prefix append_same_eq same_append_eq)
        moreover have "\<not> bw_err w' \<longrightarrow> (o1 @ o2) @ bw_buf w' = bw_buf w @ p" using o2(3) all by simp
        ultimately show ?thesis using grows_trans [OF o1(1) o2(1)] o1 o2 by (intro exI [of _ "o1 @ o2"]) auto
      qed
    qed
  qed
qed

end

lemma bw_Write_sticky: "bw_err w \<Longrightarrow> bw_Write wr sz p w d = (w, d)"
  by (simp add: bw_Write.simps)

lemma bw_Flush_sticky: "bw_err w \<Longrightarrow> bw_Flush wr w d = (w, d)"
  by (simp add: bw_Flush_def)

end
