(* ===== verification/Spill.thy ===== *)
theory Spill
  imports Bufio Strconv
begin

section \<open>The overflow store of the log writers\<close>

text \<open>
  Models \<open>src/log4go/kafka_overflow.go\<close>: the overflow policies and their counters, the
  \<open>Spiller\<close> interface and its three implementations.  \<open>RingSpiller\<close> is a circular buffer in memory;
  \<open>FileSpiller\<close> appends length-prefixed frames to \<open>spill.log\<close> through a \<open>bufio.Writer\<close>, which is
  modelled with its buffer of 4096 bytes and its sticky error, over a disk that may be short of room;
  \<open>ChainedSpiller\<close> puts a ring before a file.  The codec is an argument (\<open>json.Marshal\<close> underneath);
  what the store relies on is \<open>codec_ok\<close>.  The contract the log writers rely on is the locale
  \<open>spiller\<close>; the ring without overwriting, the file and the chain are interpretations of it, the
  chain by way of the two-level locale over any two stores with the contract.
\<close>

subsection \<open>Policies\<close>

type_synonym OverflowPolicy = int

definition OverflowDrop :: OverflowPolicy where "OverflowDrop = 0"
definition OverflowBlock :: OverflowPolicy where "OverflowBlock = 1"
definition OverflowSpill :: OverflowPolicy where "OverflowSpill = 2"

definition policy_String :: "OverflowPolicy \<Rightarrow> string" where
  "policy_String p = (if p = OverflowBlock then ''block''
    else if p = OverflowSpill then ''spill'' else ''drop'')"

definition ParseOverflowPolicy :: "string \<Rightarrow> OverflowPolicy" where
  "ParseOverflowPolicy s = (if s = ''block'' then OverflowBlock
    else if s = ''spill'' then OverflowSpill else OverflowDrop)"

lemmas policy_defs = OverflowDrop_def OverflowBlock_def OverflowSpill_def

lemma parse_policy_cases:
  "ParseOverflowPolicy s \<in> {OverflowDrop, OverflowBlock, OverflowSpill}"
  by (simp add: ParseOverflowPolicy_def)

lemma policy_parse_print: "ParseOverflowPolicy (policy_String (ParseOverflowPolicy s)) = ParseOverflowPolicy s"
  by (simp add: ParseOverflowPolicy_def policy_String_def policy_defs)

subsection \<open>Counters and throttled alerts\<close>

datatype alert_level = AlertInfo | AlertWarn | AlertError

definition alert_level_String :: "alert_level \<Rightarrow> string" where
  "alert_level_String l = (case l of AlertWarn \<Rightarrow> ''WARN'' | AlertError \<Rightarrow> ''ERROR'' | AlertInfo \<Rightarrow> ''INFO'')"

text \<open>
  The installed sink: \<open>None\<close> when \<open>SetAlertSink\<close> was never called, \<open>Some False\<close> when it was called
  with a nil interface (the pointer that is stored is not nil), \<open>Some True\<close> with a sink.
\<close>

record overflow_stats =
  os_dropped :: "64 word"
  os_spilled :: "64 word"
  os_dropEvery :: "64 word"
  os_spillEvery :: "64 word"
  os_alertSink :: "bool option"

datatype alert_effect = LogLine string | SinkSend alert_level string string | NilSinkPanic

definition SetAlertEvery :: "64 word \<Rightarrow> 64 word \<Rightarrow> overflow_stats \<Rightarrow> overflow_stats" where
  "SetAlertEvery d p s = s\<lparr>os_dropEvery := d, os_spillEvery := p\<rparr>"

definition SetAlertSink :: "bool \<Rightarrow> overflow_stats \<Rightarrow> overflow_stats" where
  "SetAlertSink present s = s\<lparr>os_alertSink := Some present\<rparr>"

definition os_alert :: "overflow_stats \<Rightarrow> string \<Rightarrow> 64 word \<Rightarrow> 64 word \<Rightarrow> string \<Rightarrow> alert_effect list" where
  "os_alert s kind n every reason =
    (let level = (if kind = ''DROP'' then AlertError else AlertWarn);
         text = (if n = 1 then Some (''first event: '' @ reason)
           else if 0 < every \<and> n mod every = 0
           then Some (''total='' @ itoa_nat (unat n) @ '' (logged every '' @ itoa_nat (unat every) @ ''): '' @ reason)
           else None)
     in case text of None \<Rightarrow> []
        | Some t \<Rightarrow> LogLine (''[log4go] overflow '' @ kind @ '' '' @ t)
            # (case os_alertSink s of None \<Rightarrow> []
               | Some present \<Rightarrow> [if present then SinkSend level kind t else NilSinkPanic]))"

definition IncDropped :: "overflow_stats \<Rightarrow> overflow_stats \<times> alert_effect list" where
  "IncDropped s =
    (let n = os_dropped s + 1; s' = s\<lparr>os_dropped := n\<rparr>
     in (s', os_alert s' ''DROP'' n (os_dropEvery s') ''queue full; record lost''))"

definition IncSpilled :: "overflow_stats \<Rightarrow> overflow_stats \<times> alert_effect list" where
  "IncSpilled s =
    (let n = os_spilled s + 1; s' = s\<lparr>os_spilled := n\<rparr>
     in (s', os_alert s' ''SPILL'' n (os_spillEvery s') ''overflow buffered to spill store''))"

lemma fst_IncDropped [simp]: "fst (IncDropped s) = s\<lparr>os_dropped := os_dropped s + 1\<rparr>"
  by (simp add: IncDropped_def Let_def)

lemma fst_IncSpilled [simp]: "fst (IncSpilled s) = s\<lparr>os_spilled := os_spilled s + 1\<rparr>"
  by (simp add: IncSpilled_def Let_def)

text \<open>
  The comment of \<open>SetAlertSink\<close> says that nil disables the push; the stored pointer is not nil, so the
  first overflow after it calls a method of a nil interface.
\<close>

lemma nil_sink_panics:
  assumes "os_dropped s = 0"
  shows "NilSinkPanic \<in> set (snd (IncDropped (SetAlertSink False s)))"
  using assms by (simp add: IncDropped_def SetAlertSink_def os_alert_def Let_def)

text \<open>An alert is raised by the first event and then by every \<open>dropEvery\<close>-th one only.\<close>

lemma alert_throttled:
  "snd (IncDropped s) \<noteq> [] \<longleftrightarrow>
    os_dropped s + 1 = 1 \<or> (0 < os_dropEvery s \<and> (os_dropped s + 1) mod os_dropEvery s = 0)"
  by (simp add: IncDropped_def os_alert_def Let_def)

subsection \<open>The ring\<close>

record 'a ring_spiller =
  rs_buf :: "'a list"
  rs_head :: nat
  rs_size :: nat
  rs_capv :: nat

definition NewRingSpiller :: "'a \<Rightarrow> int \<Rightarrow> 'a ring_spiller" where
  "NewRingSpiller z capacity =
    (let c = (if capacity < 1 then 1024 else nat capacity)
     in \<lparr>rs_buf = replicate c z, rs_head = 0, rs_size = 0, rs_capv = c\<rparr>)"

definition rs_Push :: "'a \<Rightarrow> 'a ring_spiller \<Rightarrow> bool \<times> 'a ring_spiller" where
  "rs_Push msg r = (True, r\<lparr>rs_buf := (rs_buf r)[rs_head r := msg],
      rs_head := (rs_head r + 1) mod rs_capv r,
      rs_size := (if rs_size r < rs_capv r then rs_size r + 1 else rs_size r)\<rparr>)"

text \<open>The loop of \<open>Drain\<close>: read the slot, clear it, go on.\<close>

fun rs_drain_loop :: "'a \<Rightarrow> nat \<Rightarrow> nat \<Rightarrow> nat \<Rightarrow> 'a list \<Rightarrow> 'a list \<times> 'a list" where
  "rs_drain_loop z cap start 0 buf = ([], buf)"
| "rs_drain_loop z cap start (Suc n) buf =
    (let (out, buf') = rs_drain_loop z cap (start + 1) n (buf[start mod cap := z])
     in (buf ! (start mod cap) # out, buf'))"

definition rs_Drain :: "'a \<Rightarrow> 'a ring_spiller \<Rightarrow> 'a list \<times> 'a ring_spiller" where
  "rs_Drain z r =
    (if rs_size r = 0 then ([], r)
     else let start = (rs_head r + rs_capv r - rs_size r) mod rs_capv r;
              (out, buf') = rs_drain_loop z (rs_capv r) start (rs_size r) (rs_buf r)
          in (out, r\<lparr>rs_buf := buf', rs_size := 0, rs_head := 0\<rparr>))"

definition rs_Len :: "'a ring_spiller \<Rightarrow> int" where
  "rs_Len r = int (rs_size r)"

definition PushNoOverwrite :: "'a \<Rightarrow> 'a ring_spiller \<Rightarrow> bool \<times> 'a ring_spiller" where
  "PushNoOverwrite msg r =
    (if rs_capv r \<le> rs_size r then (False, r)
     else (True, r\<lparr>rs_buf := (rs_buf r)[rs_head r := msg],
            rs_head := (rs_head r + 1) mod rs_capv r, rs_size := rs_size r + 1\<rparr>))"

definition rs_Close :: "'a ring_spiller \<Rightarrow> 'a ring_spiller" where
  "rs_Close r = r"

definition rs_wf :: "'a ring_spiller \<Rightarrow> bool" where
  "rs_wf r \<longleftrightarrow> length (rs_buf r) = rs_capv r \<and> rs_head r < rs_capv r \<and> rs_size r \<le> rs_capv r"

definition rs_start :: "'a ring_spiller \<Rightarrow> nat" where
  "rs_start r = (rs_head r + rs_capv r - rs_size r) mod rs_capv r"

definition rs_items :: "'a ring_spiller \<Rightarrow> 'a list" where
  "rs_items r = ring_items (rs_buf r) (rs_start r) (rs_size r)"

lemma rs_wf_New: "rs_wf (NewRingSpiller z c) \<and> rs_items (NewRingSpiller z c) = []"
  by (simp add: rs_wf_def rs_items_def NewRingSpiller_def Let_def)

lemma length_rs_items [simp]: "length (rs_items r) = rs_size r"
  by (simp add: rs_items_def)

lemma rs_head_slot:
  assumes "rs_wf r"
  shows "(rs_start r + rs_size r) mod rs_capv r = rs_head r"
proof -
  have "(rs_start r + rs_size r) mod rs_capv r = (rs_head r + rs_capv r - rs_size r + rs_size r) mod rs_capv r"
    by (simp add: rs_start_def mod_add_left_eq)
  also have "\<dots> = rs_head r" using assms by (simp add: rs_wf_def)
  finally show ?thesis .
qed

lemma rs_start_step:
  assumes "rs_wf r" and "rs_size r < rs_capv r"
  shows "((rs_head r + 1) mod rs_capv r + rs_capv r - Suc (rs_size r)) mod rs_capv r = rs_start r"
proof -
  have "((rs_head r + 1) mod rs_capv r + (rs_capv r - Suc (rs_size r))) mod rs_capv r
      = (rs_head r + 1 + (rs_capv r - Suc (rs_size r))) mod rs_capv r"
    by (simp add: mod_add_left_eq)
  moreover have "rs_head r + 1 + (rs_capv r - Suc (rs_size r)) = rs_head r + rs_capv r - rs_size r"
    "(rs_head r + 1) mod rs_capv r + (rs_capv r - Suc (rs_size r))
      = (rs_head r + 1) mod rs_capv r + rs_capv r - Suc (rs_size r)"
    using assms(2) by linarith+
  ultimately show ?thesis by (simp only: rs_start_def)
qed

lemma rs_write_slot:
  assumes "rs_wf r" and "rs_size r < rs_capv r"
  shows "rs_wf (snd (PushNoOverwrite m r))" "rs_items (snd (PushNoOverwrite m r)) = rs_items r @ [m]"
proof -
  show "rs_wf (snd (PushNoOverwrite m r))"
    using assms by (auto simp: rs_wf_def PushNoOverwrite_def)
  have len: "length (rs_buf r) = rs_capv r" using assms by (simp add: rs_wf_def)
  show "rs_items (snd (PushNoOverwrite m r)) = rs_items r @ [m]"
    using ring_items_snoc [of "rs_size r" "rs_buf r" "rs_start r" m] assms rs_start_step [OF assms]
      rs_head_slot [OF assms(1)]
    by (simp add: rs_items_def PushNoOverwrite_def rs_start_def [of "_\<lparr>rs_size := _\<rparr>"] len)
qed

text \<open>\<open>Push\<close> keeps the last \<open>capv\<close> records.\<close>

lemma rs_Push_window:
  assumes "rs_wf r"
  shows "rs_wf (snd (rs_Push m r))"
    and "rs_items (snd (rs_Push m r)) = (if rs_size r < rs_capv r then rs_items r else tl (rs_items r)) @ [m]"
proof -
  show "rs_wf (snd (rs_Push m r))" using assms by (auto simp: rs_wf_def rs_Push_def)
  show "rs_items (snd (rs_Push m r)) = (if rs_size r < rs_capv r then rs_items r else tl (rs_items r)) @ [m]"
  proof (cases "rs_size r < rs_capv r")
    case True
    then have "snd (rs_Push m r) = snd (PushNoOverwrite m r)" by (simp add: rs_Push_def PushNoOverwrite_def)
    with rs_write_slot [OF assms True, of m] True show ?thesis by simp
  next
    case False
    with assms have full: "rs_size r = rs_capv r" and len: "length (rs_buf r) = rs_capv r"
      and hd: "rs_head r < rs_capv r" by (simp_all add: rs_wf_def)
    have st: "rs_start r = rs_head r" using full hd by (simp add: rs_start_def)
    have "rs_items (snd (rs_Push m r)) = ring_items ((rs_buf r)[rs_head r := m]) ((rs_head r + 1) mod rs_capv r) (rs_capv r)"
      using full by (simp add: rs_items_def rs_Push_def rs_start_def)
    also have "\<dots> = tl (ring_items (rs_buf r) (rs_head r) (rs_capv r)) @ [m]"
      using ring_items_overwrite [of "rs_head r" "rs_buf r" m] hd len by simp
    finally show ?thesis using False full st by (simp add: rs_items_def)
  qed
qed

lemma rs_drain_loop_items:
  assumes "length buf = cap" and "0 < cap" and "n \<le> cap"
  shows "fst (rs_drain_loop z cap start n buf) = ring_items buf start n
    \<and> length (snd (rs_drain_loop z cap start n buf)) = cap"
  using assms
proof (induction n arbitrary: start buf)
  case 0
  then show ?case by simp
next
  case (Suc n)
  let ?b = "buf[start mod cap := z]"
  have IH: "fst (rs_drain_loop z cap (start + 1) n ?b) = ring_items ?b (start + 1) n"
    "length (snd (rs_drain_loop z cap (start + 1) n ?b)) = cap"
    using Suc.IH [of ?b "start + 1"] Suc.prems by simp_all
  have "(start + 1 + i) mod length buf \<noteq> start mod cap" if "i < n" for i
    using ring_index_inj [of "Suc i" cap 0 start] that Suc.prems by auto
  then have "ring_items ?b (start + 1) n = ring_items buf (start + 1) n"
    by (rule ring_items_update_other)
  moreover have "ring_items buf start (Suc n) = buf ! (start mod cap) # ring_items buf (start + 1) n"
    using Suc.prems(1) by (intro nth_equalityI) (auto simp: nth_Cons split: nat.split simp del: upt_Suc)
  ultimately show ?case using IH by (simp add: case_prod_beta)
qed

lemma rs_Drain_all:
  assumes "rs_wf r"
  shows "fst (rs_Drain z r) = rs_items r" "rs_wf (snd (rs_Drain z r))" "rs_items (snd (rs_Drain z r)) = []"
proof -
  have "fst (rs_drain_loop z (rs_capv r) (rs_start r) (rs_size r) (rs_buf r)) = rs_items r
      \<and> length (snd (rs_drain_loop z (rs_capv r) (rs_start r) (rs_size r) (rs_buf r))) = rs_capv r"
    unfolding rs_items_def by (rule rs_drain_loop_items) (use assms in \<open>auto simp: rs_wf_def\<close>)
  then show "fst (rs_Drain z r) = rs_items r" "rs_wf (snd (rs_Drain z r))" "rs_items (snd (rs_Drain z r)) = []"
    using assms
    by (auto simp: rs_Drain_def rs_wf_def rs_items_def rs_start_def case_prod_beta Let_def)
qed

subsection \<open>Frames\<close>

text \<open>\<open>binary.BigEndian.PutUint32(hdr, uint32(len(b)))\<close> and \<open>binary.BigEndian.Uint32\<close>.\<close>

definition put_uint32 :: "nat \<Rightarrow> bytes" where
  "put_uint32 n = map word_of_nat [n div 2 ^ 24, n div 2 ^ 16, n div 2 ^ 8, n]"

definition get_uint32 :: "bytes \<Rightarrow> nat" where
  "get_uint32 b = unat (b ! 0) * 2 ^ 24 + unat (b ! 1) * 2 ^ 16 + unat (b ! 2) * 2 ^ 8 + unat (b ! 3)"

definition frame :: "bytes \<Rightarrow> bytes" where
  "frame b = put_uint32 (length b) @ b"

text \<open>
  The loop of \<open>decodeSpillFile\<close>: \<open>io.ReadFull\<close> of a header, then of a body; a short read ends the
  loop, a body the codec rejects is skipped.
\<close>

function decode_frames :: "(bytes \<Rightarrow> 'a option) \<Rightarrow> bytes \<Rightarrow> 'a list" where
  "decode_frames dec bs =
    (if length bs < 4 then []
     else let l = get_uint32 bs; rest = drop 4 bs
          in if length rest < l then []
             else (case dec (take l rest) of None \<Rightarrow> [] | Some v \<Rightarrow> [v]) @ decode_frames dec (drop l rest))"
  by pat_completeness auto
termination
  by (relation "measure (\<lambda>(dec, bs). length bs)") auto

declare decode_frames.simps [simp del]

lemma length_put_uint32 [simp]: "length (put_uint32 n) = 4"
  by (simp add: put_uint32_def)

lemma get_put_uint32: "get_uint32 (put_uint32 n @ xs) = n mod 2 ^ 32"
proof -
  have "n mod 2 ^ 32 = n div 2 ^ 24 mod 256 * 2 ^ 24 + n mod 2 ^ 24"
    using mod_mult2_eq [of n "2 ^ 24" 256] by simp
  moreover have "n mod 2 ^ 24 = n div 2 ^ 16 mod 256 * 2 ^ 16 + n mod 2 ^ 16"
    using mod_mult2_eq [of n "2 ^ 16" 256] by simp
  moreover have "n mod 2 ^ 16 = n div 2 ^ 8 mod 256 * 2 ^ 8 + n mod 2 ^ 8"
    using mod_mult2_eq [of n "2 ^ 8" 256] by simp
  ultimately show ?thesis
    by (simp add: get_uint32_def put_uint32_def unat_of_nat take_bit_eq_mod)
qed

lemma length_frame [simp]: "length (frame b) = 4 + length b"
  by (simp add: frame_def)

lemma decode_frame:
  assumes "length b < 2 ^ 32"
  shows "decode_frames dec (frame b @ rest) = (case dec b of None \<Rightarrow> [] | Some v \<Rightarrow> [v]) @ decode_frames dec rest"
  using assms get_put_uint32 [of "length b" "b @ rest"]
  by (subst decode_frames.simps) (simp add: frame_def Let_def)

lemma decode_torn_frame:
  assumes "strict_prefix t (frame b)" and "length b < 2 ^ 32"
  shows "decode_frames dec t = []"
proof (cases "length t < 4")
  case True
  then show ?thesis by (subst decode_frames.simps) simp
next
  case False
  obtain u where u: "frame b = t @ u" "u \<noteq> []" using assms(1) by (auto simp: strict_prefix_def prefix_def)
  define t' where "t' = drop 4 t"
  from False u(1) have "take 4 t = put_uint32 (length b)"
    unfolding frame_def by (metis append_eq_conv_conj append_take_drop_id length_put_uint32 not_less
        take_append take_all diff_is_0_eq' take0 append_Nil2)
  then have t: "t = put_uint32 (length b) @ t'" by (metis append_take_drop_id t'_def)
  then have "b = t' @ u" using u(1) by (simp add: frame_def)
  then have "length t' < length b" using u(2) by simp
  then show ?thesis
    using assms(2) t by (subst decode_frames.simps) (simp add: get_put_uint32 Let_def)
qed

text \<open>What the file holds after the encoded records \<open>bs\<close> were appended.\<close>

definition frames :: "bytes list \<Rightarrow> bytes" where
  "frames bs = concat (map frame bs)"

lemma frames_simps [simp]:
  "frames [] = []" "frames (b # bs) = frame b @ frames bs" "frames (as @ bs) = frames as @ frames bs"
  by (simp_all add: frames_def)

definition codec_ok :: "('a \<Rightarrow> bytes option) \<Rightarrow> (bytes \<Rightarrow> 'a option) \<Rightarrow> bool" where
  "codec_ok enc dec \<longleftrightarrow> (\<forall>m b. enc m = Some b \<longrightarrow> dec b = Some m)"

text \<open>The encodings of a list of records, all of them short enough for the header.\<close>

definition encodes :: "('a \<Rightarrow> bytes option) \<Rightarrow> 'a list \<Rightarrow> bytes list \<Rightarrow> bool" where
  "encodes enc ms bs \<longleftrightarrow> map enc ms = map Some bs \<and> (\<forall>b\<in>set bs. length b < 2 ^ 32)"

lemma encodes_Nil [simp]: "encodes enc [] bs \<longleftrightarrow> bs = []"
  by (auto simp: encodes_def)

lemma encodes_append: "encodes enc ms bs \<Longrightarrow> encodes enc ns cs \<Longrightarrow> encodes enc (ms @ ns) (bs @ cs)"
  by (auto simp: encodes_def)

lemma encodes_single: "encodes enc [m] [b] \<longleftrightarrow> enc m = Some b \<and> length b < 2 ^ 32"
  by (auto simp: encodes_def)

lemma encodes_length: "encodes enc ms bs \<Longrightarrow> length bs = length ms"
  by (auto simp: encodes_def dest: map_eq_imp_length_eq)

lemma encodes_Cons: "encodes enc (m # ms) bs \<longleftrightarrow>
    (\<exists>b bs'. bs = b # bs' \<and> enc m = Some b \<and> length b < 2 ^ 32 \<and> encodes enc ms bs')"
  by (cases bs) (auto simp: encodes_def)

lemma decode_frames_encoded:
  assumes "codec_ok enc dec" and "encodes enc ms bs"
  shows "decode_frames dec (frames bs @ rest) = ms @ decode_frames dec rest"
  using assms(2)
proof (induction ms arbitrary: bs)
  case (Cons m ms)
  then obtain b bs' where b: "bs = b # bs'" "enc m = Some b" "length b < 2 ^ 32" "encodes enc ms bs'"
    by (auto simp: encodes_Cons)
  moreover have "dec b = Some m" using assms(1) b(2) by (simp add: codec_ok_def)
  ultimately show ?case using Cons.IH [OF b(4)] by (simp add: decode_frame)
qed simp

lemma decode_frames_Nil [simp]: "decode_frames dec [] = []"
  by (subst decode_frames.simps) simp

lemma decode_frames_exact: "codec_ok enc dec \<Longrightarrow> encodes enc ms bs \<Longrightarrow> decode_frames dec (frames bs) = ms"
  using decode_frames_encoded [of enc dec ms bs "[]"] by simp

text \<open>
  A file cut anywhere yields the records whose frames are complete and nothing else: a prefix of what
  was appended.
\<close>

lemma decode_frames_cut:
  assumes "codec_ok enc dec" and "encodes enc ms bs" and "prefix t (frames bs)"
  obtains k where "decode_frames dec t = take k ms" "t \<noteq> frames bs \<longrightarrow> k < length ms"
proof -
  have "\<exists>k. decode_frames dec t = take k ms \<and> (t \<noteq> frames bs \<longrightarrow> k < length ms)"
    using assms(2,3)
  proof (induction ms arbitrary: bs t)
    case Nil
    then show ?case by (intro exI [of _ 0]) simp
  next
    case (Cons m ms)
    then obtain b bs' where b: "bs = b # bs'" "enc m = Some b" "length b < 2 ^ 32" "encodes enc ms bs'"
      by (auto simp: encodes_Cons)
    have d: "dec b = Some m" using assms(1) b(2) by (simp add: codec_ok_def)
    show ?case
    proof (cases "strict_prefix t (frame b)")
      case True
      then show ?thesis using b(3) by (intro exI [of _ 0]) (simp add: decode_torn_frame)
    next
      case False
      then obtain t' where t: "t = frame b @ t'" "prefix t' (frames bs')"
        using Cons.prems(2) b(1) by (auto simp: prefix_append strict_prefix_def)
      obtain k where "decode_frames dec t' = take k ms" "t' \<noteq> frames bs' \<longrightarrow> k < length ms"
        using Cons.IH [OF b(4) t(2)] by blast
      then show ?thesis using t b d by (intro exI [of _ "Suc k"]) (simp add: decode_frame)
    qed
  qed
  then show thesis using that by blast
qed

subsection \<open>The disk and the buffered writer\<close>

text \<open>
  The spill directory: the files \<open>spill.log\<close>, \<open>spill.log.read\<close> and \<open>spill.log.recover\<close>, and the room
  left on the device (\<open>None\<close> when it is not short).
\<close>

record disk =
  dk_log :: "bytes option"
  dk_read :: "bytes option"
  dk_recover :: "bytes option"
  dk_room :: "nat option"

text \<open>The default size of \<open>bufio.NewWriter\<close>.\<close>

definition bufio_size :: nat where
  "bufio_size = 4096"

text \<open>\<open>os.File.Write\<close>: how many bytes went out; fewer than asked for is an error.\<close>

definition os_write :: "bool \<Rightarrow> bytes \<Rightarrow> disk \<Rightarrow> nat \<times> disk" where
  "os_write opened p d =
    (if \<not> opened then (0, d)
     else let n = (case dk_room d of None \<Rightarrow> length p | Some r \<Rightarrow> min (length p) r)
          in (n, d\<lparr>dk_log := map_option (\<lambda>l. l @ take n p) (dk_log d),
                   dk_room := map_option (\<lambda>r. r - n) (dk_room d)\<rparr>))"

text \<open>
  What every operation of the writer does to the disk: \<open>spill.log\<close> only grows, and the file
  followed by the buffer holds the bytes written so far.  After an error the file is a proper part
  of them.
\<close>

definition appends :: "disk \<Rightarrow> bytes \<Rightarrow> disk \<Rightarrow> bool" where
  "appends d b d' \<longleftrightarrow> dk_log d' = map_option (\<lambda>l. l @ b) (dk_log d) \<and> dk_read d' = dk_read d
    \<and> dk_recover d' = dk_recover d \<and> (dk_room d = None \<longrightarrow> dk_room d' = None)"

lemma appends_refl [simp]: "appends d [] d"
  by (cases "dk_log d") (simp_all add: appends_def)

lemma appends_trans: "appends d b d' \<Longrightarrow> appends d' c d'' \<Longrightarrow> appends d (b @ c) d''"
  by (cases "dk_log d") (auto simp: appends_def)

lemma os_write_appends:
  assumes "os_write opened p d = (n, d')"
  shows "appends d (take n p) d'" "n \<le> length p" "opened \<Longrightarrow> dk_room d = None \<Longrightarrow> n = length p"
  using assms by (auto simp: os_write_def appends_def Let_def option.map_ident split: if_splits option.splits)

interpretation dk: byte_sink "os_write opened" appends "\<lambda>d. opened \<and> dk_room d = None"
proof
  fix p d n d'
  assume "os_write opened p d = (n, d')"
  note w = os_write_appends [OF this]
  then show "appends d (take n p) d' \<and> n \<le> length p" by simp
  show "opened \<and> dk_room d = None \<Longrightarrow> n = length p \<and> opened \<and> dk_room d' = None" using w by (simp add: appends_def)
qed (use appends_trans in auto)

subsection \<open>The file\<close>

text \<open>
  A \<open>FileSpiller\<close>; \<open>sp_opened\<close> says whether the descriptor is open.  The state of an operation is the
  spiller with the disk.  Each call of the operating system that can fail takes its outcome from
  \<open>os_env\<close>; \<open>Stat\<close> of a file just opened is taken to succeed.  Byte counts stay far below the range
  of \<open>int64\<close>, being lengths of slices and of a file.
\<close>

record file_spiller =
  sp_maxBytes :: int
  sp_w :: bufw
  sp_opened :: bool
  sp_written :: int
  sp_count :: int

record os_env =
  ok_rename :: bool
  ok_open :: bool
  ok_read :: bool

definition os_fine :: os_env where
  "os_fine = \<lparr>ok_rename = True, ok_open = True, ok_read = True\<rparr>"

definition sp_open :: "os_env \<Rightarrow> file_spiller \<times> disk \<Rightarrow> bool \<times> file_spiller \<times> disk" where
  "sp_open env = (\<lambda>(f, d).
    if \<not> ok_open env then (False, f, d)
    else let l = (case dk_log d of None \<Rightarrow> [] | Some l \<Rightarrow> l)
         in (True, f\<lparr>sp_written := int (length l), sp_w := fresh_bufw, sp_opened := True\<rparr>, d\<lparr>dk_log := Some l\<rparr>))"

definition NewFileSpiller :: "bool \<Rightarrow> os_env \<Rightarrow> int \<Rightarrow> disk \<Rightarrow> (file_spiller \<times> disk) option" where
  "NewFileSpiller mkdir_ok env maxBytes d =
    (if \<not> mkdir_ok then None
     else let mb = (if maxBytes \<le> 0 then 64 * 2 ^ 20 else maxBytes);
              (ok, f, d') = sp_open env
                (\<lparr>sp_maxBytes = mb, sp_w = fresh_bufw, sp_opened = False, sp_written = 0, sp_count = 0\<rparr>, d)
          in if ok then Some (f, d') else None)"

definition fs_Push :: "('a \<Rightarrow> bytes option) \<Rightarrow> 'a \<Rightarrow> file_spiller \<times> disk \<Rightarrow> bool \<times> file_spiller \<times> disk" where
  "fs_Push enc msg = (\<lambda>(f, d).
    case enc msg of
      None \<Rightarrow> (False, f, d)
    | Some b \<Rightarrow>
        let recLen = int (4 + length b)
        in if sp_maxBytes f < sp_written f + recLen then (False, f, d)
           else let (w1, d1) = bw_Write (os_write (sp_opened f)) bufio_size (put_uint32 (length b)) (sp_w f) d
                in if bw_err w1 then (False, f\<lparr>sp_w := w1\<rparr>, d1)
                   else let (w2, d2) = bw_Write (os_write (sp_opened f)) bufio_size b w1 d1
                        in if bw_err w2 then (False, f\<lparr>sp_w := w2\<rparr>, d2)
                           else (True, f\<lparr>sp_w := w2, sp_written := sp_written f + recLen,
                                         sp_count := sp_count f + 1\<rparr>, d2))"

definition decodeSpillFile :: "(bytes \<Rightarrow> 'a option) \<Rightarrow> os_env \<Rightarrow> bytes option \<Rightarrow> 'a list" where
  "decodeSpillFile dec env file =
    (case file of None \<Rightarrow> [] | Some bs \<Rightarrow> if ok_read env then decode_frames dec bs else [])"

definition fs_Drain :: "(bytes \<Rightarrow> 'a option) \<Rightarrow> os_env \<Rightarrow> file_spiller \<times> disk \<Rightarrow> 'a list \<times> file_spiller \<times> disk" where
  "fs_Drain dec env = (\<lambda>(f, d).
    let (w, d1) = bw_Flush (os_write (sp_opened f)) (sp_w f) d;
        f1 = f\<lparr>sp_w := w, sp_opened := False\<rparr>
    in if \<not> ok_rename env \<or> dk_log d1 = None then ([], snd (sp_open env (f1, d1)))
       else let d2 = d1\<lparr>dk_read := dk_log d1, dk_log := None\<rparr>;
                (_, f3, d3) = sp_open env (f1, d2);
                f4 = f3\<lparr>sp_count := 0\<rparr>
            in (decodeSpillFile dec env (dk_read d3), f4, d3\<lparr>dk_read := None\<rparr>))"

definition fs_Len :: "file_spiller \<Rightarrow> int" where
  "fs_Len f = sp_count f"

definition fs_Close :: "file_spiller \<times> disk \<Rightarrow> file_spiller \<times> disk" where
  "fs_Close = (\<lambda>(f, d).
    let (w, d1) = bw_Flush (os_write (sp_opened f)) (sp_w f) d in (f\<lparr>sp_w := w, sp_opened := False\<rparr>, d1))"

text \<open>\<open>DrainFileRecover\<close>, on a directory no spiller has open.\<close>

definition DrainFileRecover :: "(bytes \<Rightarrow> 'a option) \<Rightarrow> os_env \<Rightarrow> disk \<Rightarrow> 'a list \<times> disk" where
  "DrainFileRecover dec env d =
    (if dk_log d = None \<or> \<not> ok_rename env then ([], d)
     else (decodeSpillFile dec env (dk_log d), d\<lparr>dk_log := None, dk_recover := None\<rparr>))"

text \<open>
  The state between operations: the file followed by the buffer holds the frames of the records
  \<open>ms\<close>.  After a failed write the file holds a proper part of the frames of \<open>ms\<close> and of the record
  whose write failed, and nothing more is accepted.
\<close>

definition fs_holds :: "('a \<Rightarrow> bytes option) \<Rightarrow> 'a list \<Rightarrow> file_spiller \<times> disk \<Rightarrow> bool" where
  "fs_holds enc ms = (\<lambda>(f, d). sp_opened f \<and> \<not> bw_err (sp_w f) \<and> length (bw_buf (sp_w f)) \<le> bufio_size
    \<and> sp_maxBytes f < 2 ^ 32
    \<and> (\<exists>l bs. dk_log d = Some l \<and> encodes enc ms bs \<and> l @ bw_buf (sp_w f) = frames bs
        \<and> sp_written f = int (length (frames bs))))"

definition fs_broken :: "('a \<Rightarrow> bytes option) \<Rightarrow> 'a list \<Rightarrow> file_spiller \<times> disk \<Rightarrow> bool" where
  "fs_broken enc ms = (\<lambda>(f, d). bw_err (sp_w f) \<and> sp_maxBytes f < 2 ^ 32
    \<and> (\<exists>l m bs. dk_log d = Some l \<and> encodes enc (ms @ [m]) bs \<and> strict_prefix l (frames bs)))"

lemma fs_holdsI:
  assumes "sp_opened f" "\<not> bw_err (sp_w f)" "length (bw_buf (sp_w f)) \<le> bufio_size" "sp_maxBytes f < 2 ^ 32"
    "dk_log d = Some l" "encodes enc ms bs" "l @ bw_buf (sp_w f) = frames bs"
    "sp_written f = int (length (frames bs))"
  shows "fs_holds enc ms (f, d)"
  unfolding fs_holds_def using assms by blast

lemma fs_brokenI:
  assumes "bw_err (sp_w f)" "sp_maxBytes f < 2 ^ 32" "dk_log d = Some l"
    "encodes enc (ms @ [m]) bs" "strict_prefix l (frames bs)"
  shows "fs_broken enc ms (f, d)"
  unfolding fs_broken_def using assms by (simp del: frames_simps) blast

lemma fs_holds_open:
  assumes "ok_open env" and "sp_maxBytes f < 2 ^ 32" and "dk_log d = None"
  shows "fs_holds enc [] (snd (sp_open env (f, d)))"
  using assms by (simp add: fs_holds_def sp_open_def fresh_bufw_def Let_def)

lemma NewFileSpiller_holds:
  assumes "NewFileSpiller True os_fine mb d = Some s" and "dk_log d = None" and "mb < 2 ^ 32"
  shows "fs_holds enc [] s" "dk_room (snd s) = dk_room d"
  using assms by (auto simp: NewFileSpiller_def fs_holds_def sp_open_def fresh_bufw_def os_fine_def Let_def split: if_splits)

text \<open>One push: refused with nothing changed, accepted, or broken by a failed write.\<close>

lemma fs_Push_cases:
  assumes h: "fs_holds enc ms (f, d)" and p: "fs_Push enc m (f, d) = (ok, f', d')"
  shows "(dk_room d = None \<longrightarrow> dk_room d' = None) \<and>
    (ok \<and> fs_holds enc (ms @ [m]) (f', d') \<or> \<not> ok \<and> f' = f \<and> d' = d
     \<or> \<not> ok \<and> fs_broken enc ms (f', d') \<and> dk_room d \<noteq> None)"
proof -
  from h obtain l bs where s: "sp_opened f" "\<not> bw_err (sp_w f)" "length (bw_buf (sp_w f)) \<le> bufio_size"
    "sp_maxBytes f < 2 ^ 32" "dk_log d = Some l" "encodes enc ms bs" "l @ bw_buf (sp_w f) = frames bs"
    "sp_written f = int (length (frames bs))" by (auto simp: fs_holds_def)
  show ?thesis
  proof (cases "enc m")
    case None
    with p show ?thesis by (simp add: fs_Push_def)
  next
    case (Some b)
    show ?thesis
    proof (cases "sp_maxBytes f < sp_written f + int (4 + length b)")
      case True
      with p Some show ?thesis by (simp add: fs_Push_def)
    next
      case False
      then have "int (length b) < 2 ^ 32" using s(4,8) by linarith
      then have enc: "encodes enc (ms @ [m]) (bs @ [b])"
        using s(6) Some by (intro encodes_append) (simp_all add: encodes_single)
      obtain w1 d1 where w1: "bw_Write (os_write True) bufio_size (put_uint32 (length b)) (sp_w f) d = (w1, d1)"
        by (cases "bw_Write (os_write True) bufio_size (put_uint32 (length b)) (sp_w f) d")
      obtain o1 where o1: "appends d o1 d1" "length (bw_buf w1) \<le> bufio_size"
        "\<not> bw_err w1 \<longrightarrow> o1 @ bw_buf w1 = bw_buf (sp_w f) @ put_uint32 (length b)"
        "bw_err w1 \<longrightarrow> strict_prefix o1 (bw_buf (sp_w f) @ put_uint32 (length b))"
        "dk_room d = None \<longrightarrow> \<not> bw_err w1" using dk.write_spec [OF w1 s(2,3)] by auto
      have r1: "dk_room d = None \<longrightarrow> dk_room d1 = None" using o1(1) by (simp add: appends_def)
      have all: "l @ bw_buf (sp_w f) @ frame b = frames (bs @ [b])" using s(7) by simp
      show ?thesis
      proof (cases "bw_err w1")
        case True
        then have e: "\<not> ok" "f' = f\<lparr>sp_w := w1\<rparr>" "d' = d1" using p Some False w1 s(1)
          by (simp_all add: fs_Push_def Let_def)
        have "strict_prefix o1 (bw_buf (sp_w f) @ frame b)"
          using o1(4) True by (metis append_assoc frame_def prefix_def prefix_order.less_le_trans)
        then have "strict_prefix (l @ o1) (frames (bs @ [b]))"
          unfolding all [symmetric] by (simp add: strict_prefix_def)
        moreover have "dk_log d1 = Some (l @ o1)" using o1(1) s(5) by (simp add: appends_def)
        ultimately have "fs_broken enc ms (f', d')" using True s(4) e by (intro fs_brokenI [OF _ _ _ enc]) simp_all
        then show ?thesis using e o1(5) True r1 by auto
      next
        case ok1: False
        obtain w2 d2 where w2: "bw_Write (os_write True) bufio_size b w1 d1 = (w2, d2)" by (cases "bw_Write (os_write True) bufio_size b w1 d1")
        obtain o2 where o2: "appends d1 o2 d2" "length (bw_buf w2) \<le> bufio_size"
          "\<not> bw_err w2 \<longrightarrow> o2 @ bw_buf w2 = bw_buf w1 @ b" "bw_err w2 \<longrightarrow> strict_prefix o2 (bw_buf w1 @ b)"
          "dk_room d1 = None \<longrightarrow> \<not> bw_err w2" using dk.write_spec [OF w2 ok1 o1(2)] by auto
        have lg: "dk_log d2 = Some (l @ o1 @ o2)" and r2: "dk_room d1 = None \<longrightarrow> dk_room d2 = None"
          using o1(1) o2(1) s(5) by (simp_all add: appends_def)
        have all2: "l @ o1 @ bw_buf w1 @ b = frames (bs @ [b])"
          using o1(3) ok1 all by (simp add: frame_def)
        show ?thesis
        proof (cases "bw_err w2")
          case True
          then have e: "\<not> ok" "f' = f\<lparr>sp_w := w2\<rparr>" "d' = d2" using p Some False w1 w2 ok1 s(1)
            by (simp_all add: fs_Push_def Let_def)
          have "strict_prefix (l @ o1 @ o2) (frames (bs @ [b]))"
            unfolding all2 [symmetric] using o2(4) True by (simp add: strict_prefix_def)
          then have "fs_broken enc ms (f', d')" using True s(4) e lg by (intro fs_brokenI [OF _ _ _ enc]) simp_all
          then show ?thesis using e o2(5) True r1 r2 by auto
        next
          case ok2: False
          then have e: "ok" "f' = f\<lparr>sp_w := w2, sp_written := sp_written f + int (4 + length b), sp_count := sp_count f + 1\<rparr>"
            "d' = d2" using p Some False w1 w2 ok1 s(1) by (simp_all add: fs_Push_def Let_def)
          have "(l @ o1 @ o2) @ bw_buf w2 = frames (bs @ [b])" using o2(3) ok2 all2 by simp
          moreover have "sp_written f + int (4 + length b) = int (length (frames (bs @ [b])))" using s(8) by simp
          ultimately have "fs_holds enc (ms @ [m]) (f', d')"
            using e lg ok2 s(1,4) o2(2) enc by (intro fs_holdsI [where l = "l @ o1 @ o2" and bs = "bs @ [b]"]) simp_all
          then show ?thesis using e r1 r2 by auto
        qed
      qed
    qed
  qed
qed

lemma fs_Drain_log:
  assumes "bw_Flush (os_write (sp_opened f)) (sp_w f) d = (w, d1)" and "dk_log d1 = Some l" and "sp_maxBytes f < 2 ^ 32"
    and "fs_Drain dec os_fine (f, d) = (out, s')"
  shows "out = decode_frames dec l" "fs_holds enc [] s'" "dk_room (snd s') = dk_room d1"
    "sp_maxBytes (fst s') = sp_maxBytes f" "dk_log (snd s') = Some []"
  using assms
  by (auto simp: fs_Drain_def os_fine_def sp_open_def fresh_bufw_def decodeSpillFile_def fs_holds_def Let_def)

text \<open>
  Draining: everything when the device had room, a prefix of it otherwise; the store is then empty.
\<close>

lemma fs_Drain_holds:
  assumes "codec_ok enc dec" and h: "fs_holds enc ms (f, d)" and D: "fs_Drain dec os_fine (f, d) = (out, s')"
  shows "prefix out ms" "dk_room d = None \<Longrightarrow> out = ms \<and> dk_room (snd s') = None" "fs_holds enc [] s'"
proof -
  from h obtain l bs where s: "sp_opened f" "\<not> bw_err (sp_w f)" "sp_maxBytes f < 2 ^ 32" "dk_log d = Some l"
    "encodes enc ms bs" "l @ bw_buf (sp_w f) = frames bs" by (auto simp: fs_holds_def)
  obtain w d1 where fl: "bw_Flush (os_write (sp_opened f)) (sp_w f) d = (w, d1)" by (cases "bw_Flush (os_write (sp_opened f)) (sp_w f) d")
  obtain o1 where o1: "appends d o1 d1" "o1 @ bw_buf w = bw_buf (sp_w f)" "\<not> bw_err w \<longrightarrow> bw_buf w = []"
    "sp_opened f \<longrightarrow> dk_room d = None \<longrightarrow> \<not> bw_err w" using dk.flush_spec [OF fl s(2)] by auto
  have lg: "dk_log d1 = Some (l @ o1)" using o1(1) s(4) by (simp add: appends_def)
  note L = fs_Drain_log [OF fl lg s(3) D]
  have "prefix (l @ o1) (frames bs)" using s(6) o1(2) by (metis append_assoc prefix_def)
  then obtain k where "decode_frames dec (l @ o1) = take k ms" by (rule decode_frames_cut [OF assms(1) s(5)])
  then show "prefix out ms" using L(1) by (simp add: take_is_prefix)
  show "fs_holds enc [] s'" by (rule L(2))
  show "out = ms \<and> dk_room (snd s') = None" if "dk_room d = None"
  proof -
    have "bw_buf w = []" using o1(3,4) s(1) that by simp
    then have "l @ o1 = frames bs" using o1(2) s(6) by simp
    moreover have "dk_room d1 = None" using o1(1) that by (simp add: appends_def)
    ultimately show ?thesis using L(1,3) decode_frames_exact [OF assms(1) s(5)] by simp
  qed
qed

lemma fs_Drain_broken:
  assumes "codec_ok enc dec" and h: "fs_broken enc ms (f, d)" and D: "fs_Drain dec os_fine (f, d) = (out, s')"
  shows "prefix out ms" "fs_holds enc [] s'"
proof -
  from h obtain l m bs where s: "bw_err (sp_w f)" "sp_maxBytes f < 2 ^ 32" "dk_log d = Some l"
    "encodes enc (ms @ [m]) bs" "strict_prefix l (frames bs)" by (auto simp: fs_broken_def)
  have fl: "bw_Flush (os_write (sp_opened f)) (sp_w f) d = (sp_w f, d)" using s(1) by (simp add: bw_Flush_def)
  note L = fs_Drain_log [OF fl s(3,2) D]
  obtain k where "decode_frames dec l = take k (ms @ [m])" "l \<noteq> frames bs \<longrightarrow> k < length (ms @ [m])"
    using decode_frames_cut [OF assms(1) s(4)] s(5) by (metis prefix_order.less_imp_le)
  then have "out = take k ms" using L(1) s(5) by (simp add: strict_prefix_def)
  then show "prefix out ms" by (simp add: take_is_prefix)
  show "fs_holds enc [] s'" by (rule L(2))
qed

lemma fs_Push_broken: "fs_broken enc ms (f, d) \<Longrightarrow> fst (fs_Push enc m (f, d)) = False \<and> snd (fs_Push enc m (f, d)) = (f, d)"
  by (auto simp: fs_broken_def fs_Push_def bw_Write_sticky Let_def split: option.split)

text \<open>
  The process dies and the writer is started again: the buffer is gone, the spiller is created on
  what the disk holds and is drained at once, as \<open>Start\<close> of the writers does.
\<close>

definition fs_restart :: "(bytes \<Rightarrow> 'a option) \<Rightarrow> int \<Rightarrow> disk \<Rightarrow> 'a list \<times> file_spiller \<times> disk" where
  "fs_restart dec maxBytes d = fs_Drain dec os_fine (the (NewFileSpiller True os_fine maxBytes d))"

lemma fs_restart_log:
  assumes "dk_log d = Some l" and "mb < 2 ^ 32" and "fs_restart dec mb d = (out, s')"
  shows "out = decode_frames dec l" "fs_holds enc [] s'"
proof -
  obtain f d1 where n: "NewFileSpiller True os_fine mb d = Some (f, d1)" "dk_log d1 = Some l" "sp_maxBytes f < 2 ^ 32" "sp_w f = fresh_bufw"
    using assms(1,2) by (auto simp: NewFileSpiller_def sp_open_def os_fine_def Let_def)
  have fl: "bw_Flush (os_write (sp_opened f)) (sp_w f) d1 = (fresh_bufw, d1)"
    using n(4) by (simp add: bw_Flush_def fresh_bufw_def)
  have "fs_Drain dec os_fine (f, d1) = (out, s')" using assms(3) n(1) by (simp add: fs_restart_def)
  from fs_Drain_log [OF fl n(2,3) this] show "out = decode_frames dec l" "fs_holds enc [] s'" by simp_all
qed

lemma fs_restart_prefix:
  assumes "codec_ok enc dec" and "fs_holds enc ms (f, d) \<or> fs_broken enc ms (f, d)" and "mb < 2 ^ 32"
    and "fs_restart dec mb d = (out, s')"
  shows "prefix out ms" "fs_holds enc [] s'"
proof -
  obtain l where l: "dk_log d = Some l" using assms(2) by (auto simp: fs_holds_def fs_broken_def)
  note R = fs_restart_log [OF l assms(3,4)]
  show "fs_holds enc [] s'" by (rule R(2))
  from assms(2) show "prefix out ms"
  proof
    assume "fs_holds enc ms (f, d)"
    then obtain bs where s: "encodes enc ms bs" "l @ bw_buf (sp_w f) = frames bs"
      using l by (auto simp: fs_holds_def)
    then have "prefix l (frames bs)" by (metis prefix_def)
    then obtain k where "decode_frames dec l = take k ms" by (rule decode_frames_cut [OF assms(1) s(1)])
    then show ?thesis using R(1) by (simp add: take_is_prefix)
  next
    assume "fs_broken enc ms (f, d)"
    then obtain m bs where s: "encodes enc (ms @ [m]) bs" "strict_prefix l (frames bs)"
      using l by (auto simp: fs_broken_def)
    obtain k where "decode_frames dec l = take k (ms @ [m])" "l \<noteq> frames bs \<longrightarrow> k < length (ms @ [m])"
      using decode_frames_cut [OF assms(1) s(1)] s(2) by (metis prefix_order.less_imp_le)
    then have "out = take k ms" using R(1) s(2) by (simp add: strict_prefix_def)
    then show ?thesis by (simp add: take_is_prefix)
  qed
qed

text \<open>
  A run of the store: pushes, drains, restarts of the process, and changes of the room left on the
  device.  Each drain is recorded with the records accepted since the one before it.
\<close>

datatype 'a spill_op = OpPush 'a | OpDrain | OpRestart | OpRoom "nat option"

fun fs_run :: "('a \<Rightarrow> bytes option) \<Rightarrow> (bytes \<Rightarrow> 'a option) \<Rightarrow> int \<Rightarrow> 'a spill_op list
    \<Rightarrow> file_spiller \<times> disk \<Rightarrow> 'a list \<Rightarrow> ('a list \<times> 'a list) list" where
  "fs_run enc dec mb [] s pend = []"
| "fs_run enc dec mb (OpPush m # ops) s pend =
    (let (ok, s') = fs_Push enc m s in fs_run enc dec mb ops s' (if ok then pend @ [m] else pend))"
| "fs_run enc dec mb (OpDrain # ops) s pend =
    (let (out, s') = fs_Drain dec os_fine s in (pend, out) # fs_run enc dec mb ops s' [])"
| "fs_run enc dec mb (OpRestart # ops) s pend =
    (let (out, s') = fs_restart dec mb (snd s) in (pend, out) # fs_run enc dec mb ops s' [])"
| "fs_run enc dec mb (OpRoom r # ops) s pend =
    fs_run enc dec mb ops (fst s, (snd s)\<lparr>dk_room := r\<rparr>) pend"

lemma fs_holds_room [simp]: "fs_holds enc ms (f, d\<lparr>dk_room := r\<rparr>) = fs_holds enc ms (f, d)"
  by (simp add: fs_holds_def)

lemma fs_broken_room [simp]: "fs_broken enc ms (f, d\<lparr>dk_room := r\<rparr>) = fs_broken enc ms (f, d)"
  by (simp add: fs_broken_def)

lemma fs_run_prefix:
  assumes "codec_ok enc dec" and "mb < 2 ^ 32" and "fs_holds enc pend s \<or> fs_broken enc pend s"
  shows "\<forall>(p, out) \<in> set (fs_run enc dec mb ops s pend). prefix out p"
  using assms(3)
proof (induction ops arbitrary: s pend)
  case (Cons op ops)
  obtain f d where s: "s = (f, d)" by (cases s)
  show ?case
  proof (cases op)
    case (OpPush m)
    obtain ok f' d' where p: "fs_Push enc m (f, d) = (ok, f', d')" by (cases "fs_Push enc m (f, d)") auto
    have "fs_holds enc (if ok then pend @ [m] else pend) (f', d') \<or> fs_broken enc (if ok then pend @ [m] else pend) (f', d')"
    proof (cases "fs_holds enc pend (f, d)")
      case True
      from fs_Push_cases [OF True p] True show ?thesis by auto
    next
      case False
      with Cons.prems s have b: "fs_broken enc pend (f, d)" by simp
      then show ?thesis using fs_Push_broken [OF b, of m] p by simp
    qed
    from Cons.IH [OF this] show ?thesis using OpPush s p by simp
  next
    case OpDrain
    obtain out s' where D: "fs_Drain dec os_fine (f, d) = (out, s')" by (cases "fs_Drain dec os_fine (f, d)")
    have "prefix out pend \<and> fs_holds enc [] s'"
      using Cons.prems s fs_Drain_holds [OF assms(1) _ D] fs_Drain_broken [OF assms(1) _ D] by blast
    then show ?thesis using OpDrain s D Cons.IH [of "[]" s'] by simp
  next
    case OpRestart
    obtain out s' where R: "fs_restart dec mb d = (out, s')" by (cases "fs_restart dec mb d")
    have "prefix out pend \<and> fs_holds enc [] s'"
      using fs_restart_prefix [OF assms(1) _ assms(2) R] Cons.prems s by blast
    then show ?thesis using OpRestart s R Cons.IH [of "[]" s'] by simp
  next
    case (OpRoom r)
    then show ?thesis using s Cons.prems Cons.IH [of pend "(f, d\<lparr>dk_room := r\<rparr>)"] by simp
  qed
qed simp

text \<open>
  A record accepted into the file store sits in the buffer of the writer; a process that dies before
  the next drain loses it, although the push answered true.
\<close>

lemma accepted_record_lost_in_crash:
  assumes "enc m = Some b" and "length b \<le> 4092" and "4 + int (length b) \<le> mb" and "mb < 2 ^ 32"
  shows "\<exists>f d f' d'. NewFileSpiller True os_fine mb \<lparr>dk_log = None, dk_read = None, dk_recover = None, dk_room = None\<rparr> = Some (f, d)
    \<and> fs_Push enc m (f, d) = (True, f', d') \<and> fst (fs_restart dec mb d') = []"
proof -
  let ?d = "\<lparr>dk_log = Some [], dk_read = None, dk_recover = None, dk_room = None\<rparr>"
  let ?f = "\<lparr>sp_maxBytes = mb, sp_w = fresh_bufw, sp_opened = True, sp_written = 0, sp_count = 0\<rparr>"
  have n: "NewFileSpiller True os_fine mb \<lparr>dk_log = None, dk_read = None, dk_recover = None, dk_room = None\<rparr> = Some (?f, ?d)"
    using assms(3) by (simp add: NewFileSpiller_def sp_open_def os_fine_def fresh_bufw_def Let_def)
  have p: "\<exists>f'. fs_Push enc m (?f, ?d) = (True, f', ?d)"
    using assms by (simp add: fs_Push_def fresh_bufw_def Let_def bw_Write.simps bufio_size_def)
  obtain out s' where r: "fs_restart dec mb ?d = (out, s')" by (cases "fs_restart dec mb ?d")
  have "out = []" using fs_restart_log(1) [of ?d "[]", OF _ assms(4) r] by simp
  with n p r show ?thesis by (metis fst_conv)
qed

text \<open>
  What a drain moved aside to \<open>spill.log.read\<close> before the process died is never read again: a restart
  returns the same records whatever that file holds.
\<close>

lemma aside_file_never_recovered:
  assumes "dk_log d = Some l" and "mb < 2 ^ 32"
  shows "fst (fs_restart dec mb (d\<lparr>dk_read := r\<rparr>)) = decode_frames dec l
    \<and> fst (DrainFileRecover dec os_fine (d\<lparr>dk_read := r\<rparr>)) = decode_frames dec l"
proof
  obtain out s' where R: "fs_restart dec mb (d\<lparr>dk_read := r\<rparr>) = (out, s')" by (cases "fs_restart dec mb (d\<lparr>dk_read := r\<rparr>)")
  show "fst (fs_restart dec mb (d\<lparr>dk_read := r\<rparr>)) = decode_frames dec l"
    using fs_restart_log(1) [OF _ assms(2) R] assms(1) R by simp
  show "fst (DrainFileRecover dec os_fine (d\<lparr>dk_read := r\<rparr>)) = decode_frames dec l"
    using assms(1) by (simp add: DrainFileRecover_def os_fine_def decodeSpillFile_def)
qed

subsection \<open>The contract of a store\<close>

text \<open>
  What the log writers rely on: an accepted record is kept behind the ones before it, a refusal
  changes nothing, a drain hands out everything and leaves the store empty.
\<close>

fun store_run :: "('a \<Rightarrow> 's \<Rightarrow> bool \<times> 's) \<Rightarrow> ('s \<Rightarrow> 'a list \<times> 's) \<Rightarrow> 'a option list \<Rightarrow> 's
    \<Rightarrow> 'a list \<Rightarrow> ('a list \<times> 'a list) list" where
  "store_run push drain [] s pend = []"
| "store_run push drain (Some m # ops) s pend =
    (let (ok, s') = push m s in store_run push drain ops s' (if ok then pend @ [m] else pend))"
| "store_run push drain (None # ops) s pend =
    (let (out, s') = drain s in (pend, out) # store_run push drain ops s' [])"

locale spiller =
  fixes wf :: "'s \<Rightarrow> bool"
    and items :: "'s \<Rightarrow> 'a list"
    and push :: "'a \<Rightarrow> 's \<Rightarrow> bool \<times> 's"
    and drain :: "'s \<Rightarrow> 'a list \<times> 's"
  assumes push_accepted: "wf s \<Longrightarrow> push m s = (True, s') \<Longrightarrow> wf s' \<and> items s' = items s @ [m]"
    and push_refused: "wf s \<Longrightarrow> push m s = (False, s') \<Longrightarrow> s' = s"
    and drain_all: "wf s \<Longrightarrow> drain s = (out, s') \<Longrightarrow> out = items s \<and> wf s' \<and> items s' = []"
begin

lemma push_cases:
  assumes "wf s" and "push m s = (ok, s')"
  shows "wf s' \<and> items s' = items s @ (if ok then [m] else [])"
  using assms push_accepted [of s m s'] push_refused [of s m s'] by (cases ok) auto

text \<open>In any run each drain hands out exactly what was accepted since the one before.\<close>

lemma run_exact:
  assumes "wf s" and "items s = pend"
  shows "\<forall>(p, out) \<in> set (store_run push drain ops s pend). out = p"
  using assms
proof (induction ops arbitrary: s pend)
  case (Cons op ops)
  show ?case
  proof (cases op)
    case (Some m)
    obtain ok s' where p: "push m s = (ok, s')" by (cases "push m s")
    show ?thesis
      using push_cases [OF Cons.prems(1) p] Cons.prems(2) Cons.IH [of s' "pend @ (if ok then [m] else [])"] Some p
      by (cases ok) simp_all
  next
    case None
    obtain out s' where d: "drain s = (out, s')" by (cases "drain s")
    show ?thesis using drain_all [OF Cons.prems(1) d] Cons.prems(2) Cons.IH [of s' "[]"] None d by simp
  qed
qed simp

end

text \<open>Two stores in a row, the second used only when the first refuses.\<close>

definition two_push :: "('a \<Rightarrow> 's \<Rightarrow> bool \<times> 's) \<Rightarrow> ('a \<Rightarrow> 't \<Rightarrow> bool \<times> 't) \<Rightarrow> 'a \<Rightarrow> 's \<times> 't \<Rightarrow> bool \<times> 's \<times> 't" where
  "two_push push1 push2 m = (\<lambda>(s, t).
    let (ok, s') = push1 m s
    in if ok then (True, s', t) else let (ok2, t') = push2 m t in (ok2, s', t'))"

definition two_drain :: "('s \<Rightarrow> 'a list \<times> 's) \<Rightarrow> ('t \<Rightarrow> 'a list \<times> 't) \<Rightarrow> 's \<times> 't \<Rightarrow> 'a list \<times> 's \<times> 't" where
  "two_drain drain1 drain2 = (\<lambda>(s, t).
    let (out1, s') = drain1 s; (out2, t') = drain2 t in (out1 @ out2, s', t'))"

locale two_level =
  hot: spiller wf1 items1 push1 drain1 + cold: spiller wf2 items2 push2 drain2
  for wf1 :: "'s \<Rightarrow> bool" and items1 :: "'s \<Rightarrow> 'a list" and push1 drain1
    and wf2 :: "'t \<Rightarrow> bool" and items2 :: "'t \<Rightarrow> 'a list" and push2 drain2 +
  fixes full :: "'s \<Rightarrow> bool"
  assumes hot_full: "wf1 s \<Longrightarrow> push1 m s = (ok, s') \<Longrightarrow> ok \<longleftrightarrow> \<not> full s"

sublocale two_level \<subseteq> spiller "\<lambda>(s, t). wf1 s \<and> wf2 t \<and> (items2 t \<noteq> [] \<longrightarrow> full s)"
  "\<lambda>(s, t). items1 s @ items2 t" "two_push push1 push2" "two_drain drain1 drain2"
proof (unfold_locales, goal_cases)
  case (1 st m st')
  obtain s t where st: "st = (s, t)" by (cases st)
  obtain ok s' where p: "push1 m s = (ok, s')" by (cases "push1 m s")
  obtain ok2 t' where q: "push2 m t = (ok2, t')" by (cases "push2 m t")
  show ?case
    using 1 st p q hot.push_cases [OF _ p] cold.push_cases [OF _ q] hot.push_refused [of s m s'] hot_full [OF _ p]
    by (auto simp: two_push_def split: if_splits)
next
  case (2 st m st')
  then show ?case
    by (auto simp: two_push_def split: prod.splits if_splits dest: hot.push_refused cold.push_refused)
next
  case (3 st out st')
  then show ?case
    by (auto simp: two_drain_def split: prod.splits dest: hot.drain_all cold.drain_all)
qed

interpretation rng: spiller rs_wf rs_items PushNoOverwrite "rs_Drain z"
proof
  fix s m s'
  assume "rs_wf s" and "PushNoOverwrite m s = (True, s')"
  moreover from this have "rs_size s < rs_capv s" by (auto simp: PushNoOverwrite_def split: if_splits)
  ultimately show "rs_wf s' \<and> rs_items s' = rs_items s @ [m]"
    using rs_write_slot [of s m] by simp
next
  fix s m s'
  assume "PushNoOverwrite m s = (False, s')"
  then show "s' = s" by (simp add: PushNoOverwrite_def split: if_splits)
next
  fix s out s'
  assume "rs_wf s" and "rs_Drain z s = (out, s')"
  then show "out = rs_items s \<and> rs_wf s' \<and> rs_items s' = []" using rs_Drain_all [of s z] by simp
qed

text \<open>The file store on a device that is not short of room, with a codec that can read what it writes.\<close>

definition fs_ok :: "('a \<Rightarrow> bytes option) \<Rightarrow> (bytes \<Rightarrow> 'a option) \<Rightarrow> file_spiller \<times> disk \<Rightarrow> bool" where
  "fs_ok enc dec s \<longleftrightarrow> codec_ok enc dec \<and> dk_room (snd s) = None \<and> (\<exists>ms. fs_holds enc ms s)"

definition fs_items :: "(bytes \<Rightarrow> 'a option) \<Rightarrow> file_spiller \<times> disk \<Rightarrow> 'a list" where
  "fs_items dec = (\<lambda>(f, d). decode_frames dec ((case dk_log d of None \<Rightarrow> [] | Some l \<Rightarrow> l) @ bw_buf (sp_w f)))"

lemma fs_items_holds: "codec_ok enc dec \<Longrightarrow> fs_holds enc ms s \<Longrightarrow> fs_items dec s = ms"
  by (auto simp: fs_items_def fs_holds_def decode_frames_exact)

interpretation fs: spiller "fs_ok enc dec" "fs_items dec" "fs_Push enc" "fs_Drain dec os_fine"
proof
  fix s m s'
  assume ok: "fs_ok enc dec s" and p: "fs_Push enc m s = (True, s')"
  obtain f d f' d' where s: "s = (f, d)" "s' = (f', d')" by (cases s, cases s')
  obtain ms where h: "fs_holds enc ms (f, d)" and c: "codec_ok enc dec" "dk_room d = None"
    using ok s by (auto simp: fs_ok_def)
  have "fs_holds enc (ms @ [m]) (f', d')" "dk_room d' = None"
    using fs_Push_cases [OF h] p s c(2) by fastforce+
  then show "fs_ok enc dec s' \<and> fs_items dec s' = fs_items dec s @ [m]"
    using h c s by (auto simp: fs_ok_def fs_items_holds)
next
  fix s m s'
  assume ok: "fs_ok enc dec s" and p: "fs_Push enc m s = (False, s')"
  obtain f d f' d' where s: "s = (f, d)" "s' = (f', d')" by (cases s, cases s')
  obtain ms where h: "fs_holds enc ms (f, d)" and c: "dk_room d = None"
    using ok s by (auto simp: fs_ok_def)
  show "s' = s" using fs_Push_cases [OF h] p s c by fastforce
next
  fix s out s'
  assume ok: "fs_ok enc dec s" and D: "fs_Drain dec os_fine s = (out, s')"
  obtain f d where s: "s = (f, d)" by (cases s)
  obtain ms where h: "fs_holds enc ms (f, d)" and c: "codec_ok enc dec" "dk_room d = None"
    using ok s by (auto simp: fs_ok_def)
  have "out = ms \<and> dk_room (snd s') = None" "fs_holds enc [] s'"
    using fs_Drain_holds(2,3) [OF c(1) h, of out s'] D s c(2) by simp_all
  then show "out = fs_items dec s \<and> fs_ok enc dec s' \<and> fs_items dec s' = []"
    using h c s by (auto simp: fs_ok_def fs_items_holds)
qed

subsection \<open>The chain\<close>

record 'a chained_spiller =
  ch_ring :: "'a ring_spiller option"
  ch_file :: "file_spiller option"

definition NewChainedSpiller :: "'a ring_spiller option \<Rightarrow> file_spiller option \<Rightarrow> 'a chained_spiller" where
  "NewChainedSpiller ring file = \<lparr>ch_ring = ring, ch_file = file\<rparr>"

definition ch_push_file :: "('a \<Rightarrow> bytes option) \<Rightarrow> 'a \<Rightarrow> 'a chained_spiller \<times> disk \<Rightarrow> bool \<times> 'a chained_spiller \<times> disk" where
  "ch_push_file enc msg = (\<lambda>(c, d).
    case ch_file c of None \<Rightarrow> (False, c, d)
    | Some f \<Rightarrow> let (ok, f', d') = fs_Push enc msg (f, d) in (ok, c\<lparr>ch_file := Some f'\<rparr>, d'))"

definition ch_Push :: "('a \<Rightarrow> bytes option) \<Rightarrow> 'a \<Rightarrow> 'a chained_spiller \<times> disk \<Rightarrow> bool \<times> 'a chained_spiller \<times> disk" where
  "ch_Push enc msg = (\<lambda>(c, d).
    case ch_ring c of None \<Rightarrow> ch_push_file enc msg (c, d)
    | Some r \<Rightarrow> let (ok, r') = PushNoOverwrite msg r; c' = c\<lparr>ch_ring := Some r'\<rparr>
        in if ok then (True, c', d) else ch_push_file enc msg (c', d))"

definition ch_Drain :: "'a \<Rightarrow> (bytes \<Rightarrow> 'a option) \<Rightarrow> os_env \<Rightarrow> 'a chained_spiller \<times> disk \<Rightarrow> 'a list \<times> 'a chained_spiller \<times> disk" where
  "ch_Drain z dec env = (\<lambda>(c, d).
    let (out1, c1) = (case ch_ring c of None \<Rightarrow> ([], c)
          | Some r \<Rightarrow> let (out, r') = rs_Drain z r in (out, c\<lparr>ch_ring := Some r'\<rparr>))
    in case ch_file c1 of None \<Rightarrow> (out1, c1, d)
       | Some f \<Rightarrow> let (out2, f', d') = fs_Drain dec env (f, d) in (out1 @ out2, c1\<lparr>ch_file := Some f'\<rparr>, d'))"

definition ch_Len :: "'a chained_spiller \<Rightarrow> int" where
  "ch_Len c = (case ch_ring c of None \<Rightarrow> 0 | Some r \<Rightarrow> rs_Len r) + (case ch_file c of None \<Rightarrow> 0 | Some f \<Rightarrow> fs_Len f)"

definition ch_Close :: "'a chained_spiller \<times> disk \<Rightarrow> 'a chained_spiller \<times> disk" where
  "ch_Close = (\<lambda>(c, d).
    let c1 = (case ch_ring c of None \<Rightarrow> c | Some r \<Rightarrow> c\<lparr>ch_ring := Some (rs_Close r)\<rparr>)
    in case ch_file c1 of None \<Rightarrow> (c1, d)
       | Some f \<Rightarrow> let (f', d') = fs_Close (f, d) in (c1\<lparr>ch_file := Some f'\<rparr>, d'))"

definition ch_HasPersistent :: "'a chained_spiller \<Rightarrow> bool" where
  "ch_HasPersistent c \<longleftrightarrow> ch_file c \<noteq> None"

interpretation rf: two_level rs_wf rs_items PushNoOverwrite "rs_Drain z"
  "fs_ok enc dec" "fs_items dec" "fs_Push enc" "fs_Drain dec os_fine" "\<lambda>r. rs_capv r \<le> rs_size r"
  by unfold_locales (auto simp: PushNoOverwrite_def split: if_splits)

text \<open>A chain with both levels is the two-level store over its ring and its file.\<close>

definition ch_of :: "'a ring_spiller \<times> file_spiller \<times> disk \<Rightarrow> 'a chained_spiller \<times> disk" where
  "ch_of = (\<lambda>(r, f, d). (\<lparr>ch_ring = Some r, ch_file = Some f\<rparr>, d))"

lemma ch_Push_two:
  "ch_Push enc m (ch_of s) = (let (ok, s') = two_push PushNoOverwrite (fs_Push enc) m s in (ok, ch_of s'))"
  by (auto simp: ch_Push_def ch_push_file_def ch_of_def two_push_def Let_def split: prod.splits)

lemma ch_Drain_two:
  "ch_Drain z dec env (ch_of s) = (let (out, s') = two_drain (rs_Drain z) (fs_Drain dec env) s in (out, ch_of s'))"
  by (auto simp: ch_Drain_def ch_of_def two_drain_def Let_def split: prod.splits)

subsection \<open>The interface value\<close>

text \<open>A value of the interface \<open>Spiller\<close>, with the disk of its directory.\<close>

datatype 'a spill_store = RingStore "'a ring_spiller" | FileStore file_spiller | ChainStore "'a chained_spiller"

definition store_Push :: "('a \<Rightarrow> bytes option) \<Rightarrow> 'a \<Rightarrow> 'a spill_store \<times> disk \<Rightarrow> bool \<times> 'a spill_store \<times> disk" where
  "store_Push enc msg = (\<lambda>(s, d). case s of
      RingStore r \<Rightarrow> let (ok, r') = rs_Push msg r in (ok, RingStore r', d)
    | FileStore f \<Rightarrow> let (ok, f', d') = fs_Push enc msg (f, d) in (ok, FileStore f', d')
    | ChainStore c \<Rightarrow> let (ok, c', d') = ch_Push enc msg (c, d) in (ok, ChainStore c', d'))"

definition store_Drain :: "'a \<Rightarrow> (bytes \<Rightarrow> 'a option) \<Rightarrow> os_env \<Rightarrow> 'a spill_store \<times> disk \<Rightarrow> 'a list \<times> 'a spill_store \<times> disk" where
  "store_Drain z dec env = (\<lambda>(s, d). case s of
      RingStore r \<Rightarrow> let (out, r') = rs_Drain z r in (out, RingStore r', d)
    | FileStore f \<Rightarrow> let (out, f', d') = fs_Drain dec env (f, d) in (out, FileStore f', d')
    | ChainStore c \<Rightarrow> let (out, c', d') = ch_Drain z dec env (c, d) in (out, ChainStore c', d'))"

definition store_Len :: "'a spill_store \<Rightarrow> int" where
  "store_Len s = (case s of RingStore r \<Rightarrow> rs_Len r | FileStore f \<Rightarrow> fs_Len f | ChainStore c \<Rightarrow> ch_Len c)"

definition store_Close :: "'a spill_store \<times> disk \<Rightarrow> 'a spill_store \<times> disk" where
  "store_Close = (\<lambda>(s, d). case s of
      RingStore r \<Rightarrow> (RingStore (rs_Close r), d)
    | FileStore f \<Rightarrow> let (f', d') = fs_Close (f, d) in (FileStore f', d')
    | ChainStore c \<Rightarrow> let (c', d') = ch_Close (c, d) in (ChainStore c', d'))"

text \<open>The stores with the contract: the file, and the chain of a ring and a file.\<close>

definition st_ok :: "('a \<Rightarrow> bytes option) \<Rightarrow> (bytes \<Rightarrow> 'a option) \<Rightarrow> 'a spill_store \<times> disk \<Rightarrow> bool" where
  "st_ok enc dec = (\<lambda>(s, d). case s of
      RingStore r \<Rightarrow> False
    | FileStore f \<Rightarrow> fs_ok enc dec (f, d)
    | ChainStore c \<Rightarrow> (case (ch_ring c, ch_file c) of
        (Some r, Some f) \<Rightarrow> rs_wf r \<and> fs_ok enc dec (f, d) \<and> (fs_items dec (f, d) \<noteq> [] \<longrightarrow> rs_capv r \<le> rs_size r)
      | _ \<Rightarrow> False))"

definition st_items :: "(bytes \<Rightarrow> 'a option) \<Rightarrow> 'a spill_store \<times> disk \<Rightarrow> 'a list" where
  "st_items dec = (\<lambda>(s, d). case s of
      RingStore r \<Rightarrow> rs_items r
    | FileStore f \<Rightarrow> fs_items dec (f, d)
    | ChainStore c \<Rightarrow> (case ch_ring c of None \<Rightarrow> [] | Some r \<Rightarrow> rs_items r)
        @ (case ch_file c of None \<Rightarrow> [] | Some f \<Rightarrow> fs_items dec (f, d)))"

lemma st_chain_cases:
  assumes "st_ok enc dec (ChainStore c, d)"
  obtains r f where "(c, d) = ch_of (r, f, d)" "rs_wf r" "fs_ok enc dec (f, d)"
    "fs_items dec (f, d) \<noteq> [] \<longrightarrow> rs_capv r \<le> rs_size r" "st_items dec (ChainStore c, d) = rs_items r @ fs_items dec (f, d)"
  using assms by (cases c) (auto simp: st_ok_def st_items_def ch_of_def split: option.splits)

interpretation st: spiller "st_ok enc dec" "st_items dec" "store_Push enc" "store_Drain z dec os_fine"
proof
  fix s m s'
  assume ok: "st_ok enc dec s" and p: "store_Push enc m s = (True, s')"
  obtain a d where s: "s = (a, d)" by (cases s)
  show "st_ok enc dec s' \<and> st_items dec s' = st_items dec s @ [m]"
  proof (cases a)
    case (RingStore r)
    with ok s show ?thesis by (simp add: st_ok_def)
  next
    case (FileStore f)
    obtain t where "fs_Push enc m (f, d) = (True, t)" "s' = (FileStore (fst t), snd t)"
      using p s FileStore by (auto simp: store_Push_def split: prod.splits)
    then show ?thesis using fs.push_accepted [of enc dec "(f, d)" m t] ok s FileStore
      by (simp add: st_ok_def st_items_def split: prod.splits)
  next
    case (ChainStore c)
    have "st_ok enc dec (ChainStore c, d)" using ok s ChainStore by simp
    then obtain r f where c: "(c, d) = ch_of (r, f, d)" "rs_wf r" "fs_ok enc dec (f, d)"
      "fs_items dec (f, d) \<noteq> [] \<longrightarrow> rs_capv r \<le> rs_size r"
      "st_items dec (ChainStore c, d) = rs_items r @ fs_items dec (f, d)" by (rule st_chain_cases)
    obtain r' f' d' where t: "two_push PushNoOverwrite (fs_Push enc) m (r, f, d) = (True, r', f', d')"
      "s' = (ChainStore \<lparr>ch_ring = Some r', ch_file = Some f'\<rparr>, d')"
      using p s ChainStore c(1) ch_Push_two [of enc m "(r, f, d)"]
      by (auto simp: store_Push_def ch_of_def split: prod.splits)
    then show ?thesis using rf.push_accepted [of enc dec "(r, f, d)" m "(r', f', d')"] c s ChainStore
      by (auto simp: st_ok_def st_items_def)
  qed
next
  fix s m s'
  assume ok: "st_ok enc dec s" and p: "store_Push enc m s = (False, s')"
  obtain a d where s: "s = (a, d)" by (cases s)
  show "s' = s"
  proof (cases a)
    case (RingStore r)
    with ok s show ?thesis by (simp add: st_ok_def)
  next
    case (FileStore f)
    obtain t where "fs_Push enc m (f, d) = (False, t)" "s' = (FileStore (fst t), snd t)"
      using p s FileStore by (auto simp: store_Push_def split: prod.splits)
    then show ?thesis using fs.push_refused [of enc dec "(f, d)" m t] ok s FileStore
      by (simp add: st_ok_def)
  next
    case (ChainStore c)
    have "st_ok enc dec (ChainStore c, d)" using ok s ChainStore by simp
    then obtain r f where c: "(c, d) = ch_of (r, f, d)" "rs_wf r" "fs_ok enc dec (f, d)"
      "fs_items dec (f, d) \<noteq> [] \<longrightarrow> rs_capv r \<le> rs_size r"
      "st_items dec (ChainStore c, d) = rs_items r @ fs_items dec (f, d)" by (rule st_chain_cases)
    obtain t where t: "two_push PushNoOverwrite (fs_Push enc) m (r, f, d) = (False, t)"
      "s' = (ChainStore (fst (ch_of t)), snd (ch_of t))"
      using p s ChainStore c(1) ch_Push_two [of enc m "(r, f, d)"]
      by (auto simp: store_Push_def split: prod.splits)
    then have "t = (r, f, d)" using rf.push_refused [of enc dec "(r, f, d)" m t] c by simp
    then show ?thesis using t s ChainStore c(1) by (auto simp: ch_of_def)
  qed
next
  fix s out s'
  assume ok: "st_ok enc dec s" and p: "store_Drain z dec os_fine s = (out, s')"
  obtain a d where s: "s = (a, d)" by (cases s)
  show "out = st_items dec s \<and> st_ok enc dec s' \<and> st_items dec s' = []"
  proof (cases a)
    case (RingStore r)
    with ok s show ?thesis by (simp add: st_ok_def)
  next
    case (FileStore f)
    obtain t where "fs_Drain dec os_fine (f, d) = (out, t)" "s' = (FileStore (fst t), snd t)"
      using p s FileStore by (auto simp: store_Drain_def split: prod.splits)
    then show ?thesis using fs.drain_all [of enc dec "(f, d)" out t] ok s FileStore
      by (simp add: st_ok_def st_items_def split: prod.splits)
  next
    case (ChainStore c)
    have "st_ok enc dec (ChainStore c, d)" using ok s ChainStore by simp
    then obtain r f where c: "(c, d) = ch_of (r, f, d)" "rs_wf r" "fs_ok enc dec (f, d)"
      "fs_items dec (f, d) \<noteq> [] \<longrightarrow> rs_capv r \<le> rs_size r"
      "st_items dec (ChainStore c, d) = rs_items r @ fs_items dec (f, d)" by (rule st_chain_cases)
    obtain r' f' d' where t: "two_drain (rs_Drain z) (fs_Drain dec os_fine) (r, f, d) = (out, r', f', d')"
      "s' = (ChainStore \<lparr>ch_ring = Some r', ch_file = Some f'\<rparr>, d')"
      using p s ChainStore c(1) ch_Drain_two [of z dec os_fine "(r, f, d)"]
      by (auto simp: store_Drain_def ch_of_def split: prod.splits)
    then show ?thesis using rf.drain_all [of enc dec "(r, f, d)" z out "(r', f', d')"] c s ChainStore
      by (auto simp: st_ok_def st_items_def)
  qed
qed

subsection \<open>The store a writer starts with\<close>

datatype spill_type = SpillRing | SpillFile | SpillChain

definition parse_spill_type :: "string \<Rightarrow> spill_type" where
  "parse_spill_type s = (if s = ''file'' then SpillFile else if s = ''ring'' then SpillRing else SpillChain)"

text \<open>
  The store of \<open>Start\<close>; \<open>has_dir\<close> says whether \<open>SpillDir\<close> is set.  A file store that cannot be created is
  an error, a chain degrades to its ring.
\<close>

definition start_store :: "'m \<Rightarrow> spill_type \<Rightarrow> int \<Rightarrow> bool \<Rightarrow> os_env \<Rightarrow> int \<Rightarrow> bool \<Rightarrow> disk
    \<Rightarrow> ('m spill_store \<times> disk) option" where
  "start_store z ty spillSize mkdir_ok env maxBytes has_dir d =
    (case ty of
       SpillFile \<Rightarrow> map_option (\<lambda>(f, d'). (FileStore f, d')) (NewFileSpiller mkdir_ok env maxBytes d)
     | SpillRing \<Rightarrow> Some (RingStore (NewRingSpiller z spillSize), d)
     | SpillChain \<Rightarrow>
         let ring = NewRingSpiller z spillSize
         in if has_dir
            then case NewFileSpiller mkdir_ok env maxBytes d of
                   Some (f, d') \<Rightarrow> Some (ChainStore (NewChainedSpiller (Some ring) (Some f)), d')
                 | None \<Rightarrow> Some (RingStore ring, d)
            else Some (RingStore ring, d))"

lemma start_store_ok:
  assumes "start_store z ty c True os_fine mb True d = Some s" and "ty \<noteq> SpillRing"
    and "codec_ok enc dec" and "mb < 2 ^ 32" and "dk_log d = None" and "dk_room d = None"
  shows "st_ok enc dec s \<and> st_items dec s = []"
proof -
  obtain f d' where n: "NewFileSpiller True os_fine mb d = Some (f, d')"
    by (auto simp: NewFileSpiller_def sp_open_def os_fine_def Let_def)
  have h: "fs_holds enc [] (f, d')" "dk_room d' = None"
    using NewFileSpiller_holds [OF n assms(5,4)] assms(6) by simp_all
  then have "fs_ok enc dec (f, d')" "fs_items dec (f, d') = []"
    using assms(3) by (auto simp: fs_ok_def fs_items_holds)
  then show ?thesis
    using assms(1,2) n rs_wf_New [of z c]
    by (cases ty) (auto simp: start_store_def st_ok_def st_items_def NewChainedSpiller_def)
qed

subsection \<open>The codec of Kafka messages\<close>

text \<open>
  An instant is a number of nanoseconds since the Unix epoch; the zero \<open>time.Time\<close> is the first of
  January of the year 1.  A nil byte slice and an empty one are both \<open>[]\<close>.  \<open>json.Marshal\<close> and
  \<open>json.Unmarshal\<close> of the record are arguments.
\<close>

record kafka_header =
  kh_Key :: bytes
  kh_Value :: bytes

record kafka_message =
  km_Topic :: string
  km_Partition :: int
  km_Offset :: int
  km_Key :: bytes
  km_Value :: bytes
  km_Headers :: "kafka_header list"
  km_Timestamp :: int

record spill_record =
  sr_Topic :: string
  sr_Key :: bytes
  sr_Value :: bytes
  sr_Timestamp :: int

definition zero_time :: int where
  "zero_time = - 62135596800 * 10 ^ 9"

definition spillRecord_of :: "kafka_message \<Rightarrow> spill_record" where
  "spillRecord_of msg =
    \<lparr>sr_Topic = km_Topic msg,
     sr_Key = (if 0 < length (km_Key msg) then km_Key msg else []),
     sr_Value = (if 0 < length (km_Value msg) then km_Value msg else []),
     sr_Timestamp = (if km_Timestamp msg \<noteq> zero_time then wrap64 (km_Timestamp msg) else 0)\<rparr>"

definition producer_Encode :: "(spill_record \<Rightarrow> bytes option) \<Rightarrow> kafka_message \<Rightarrow> bytes option" where
  "producer_Encode marshal msg = marshal (spillRecord_of msg)"

definition producer_Decode :: "(bytes \<Rightarrow> spill_record option) \<Rightarrow> bytes \<Rightarrow> kafka_message option" where
  "producer_Decode unmarshal b =
    (case unmarshal b of None \<Rightarrow> None
     | Some r \<Rightarrow> Some \<lparr>km_Topic = sr_Topic r, km_Partition = 0, km_Offset = 0, km_Key = sr_Key r, km_Value = sr_Value r,
         km_Headers = [], km_Timestamp = (if sr_Timestamp r \<noteq> 0 then sr_Timestamp r else zero_time)\<rparr>)"

text \<open>
  What a round through the store keeps: topic, key and value always, the instant when it is in the
  range of \<open>UnixNano\<close> and not the epoch itself; headers, partition and offset are dropped.
\<close>

lemma producer_codec_roundtrip:
  assumes "\<And>r b. marshal r = Some b \<Longrightarrow> unmarshal b = Some r" and "producer_Encode marshal m = Some b"
  obtains m' where "producer_Decode unmarshal b = Some m'"
    "km_Topic m' = km_Topic m" "km_Key m' = km_Key m" "km_Value m' = km_Value m"
    "in_i64 (km_Timestamp m) \<Longrightarrow> km_Timestamp m \<noteq> 0 \<Longrightarrow> km_Timestamp m' = km_Timestamp m"
    "km_Timestamp m = zero_time \<Longrightarrow> km_Timestamp m' = zero_time"
    "km_Headers m' = []" "km_Partition m' = 0" "km_Offset m' = 0"
proof -
  have "unmarshal b = Some (spillRecord_of m)" using assms by (simp add: producer_Encode_def)
  then show thesis
    by (intro that [of "the (producer_Decode unmarshal b)"]) (auto simp: producer_Decode_def spillRecord_of_def)
qed

text \<open>The messages \<open>KafkaWriter.Write\<close> builds carry topic, key and value only.\<close>

definition plain_msg :: "kafka_message \<Rightarrow> bool" where
  "plain_msg m \<longleftrightarrow> km_Partition m = 0 \<and> km_Offset m = 0 \<and> km_Headers m = [] \<and> km_Timestamp m = zero_time"

lemma producer_codec_ok:
  assumes "\<And>r b. marshal r = Some b \<Longrightarrow> unmarshal b = Some r"
  shows "codec_ok (\<lambda>m. if plain_msg m then producer_Encode marshal m else None) (producer_Decode unmarshal)"
proof -
  have "producer_Decode unmarshal b = Some m" if pm: "plain_msg m" "producer_Encode marshal m = Some b" for m b
  proof -
    obtain m' where m': "producer_Decode unmarshal b = Some m'" "km_Topic m' = km_Topic m" "km_Key m' = km_Key m"
      "km_Value m' = km_Value m" "km_Timestamp m = zero_time \<Longrightarrow> km_Timestamp m' = zero_time"
      "km_Headers m' = []" "km_Partition m' = 0" "km_Offset m' = 0"
      by (rule producer_codec_roundtrip [OF assms pm(2)]) blast+
    have "m' = m" using m' pm(1) by (cases m, cases m') (simp add: plain_msg_def)
    with m'(1) show ?thesis by simp
  qed
  then show ?thesis by (auto simp: codec_ok_def split: if_splits)
qed

subsection \<open>Properties\<close>

text \<open>
  C20. A file store, and a chain of a ring and a file, created on an empty directory whose device is
  not short of room, is a first-in first-out store: in any run of pushes and drains each drain
  returns exactly the records accepted since the previous one, in the order they were pushed,
  whatever mixture of ring, buffer and file held them.
\<close>

theorem spill_store_fifo:
  assumes "codec_ok enc dec" and "mb < 2 ^ 32" and "dk_log d0 = None" and "dk_room d0 = None"
    and "NewFileSpiller True os_fine mb d0 = Some (f, d)"
  shows "(\<forall>(accepted, drained) \<in> set (store_run (store_Push enc) (store_Drain z dec os_fine) ops
            (ChainStore (NewChainedSpiller (Some (NewRingSpiller z c)) (Some f)), d) []). drained = accepted)
    \<and> (\<forall>(accepted, drained) \<in> set (store_run (store_Push enc) (store_Drain z dec os_fine) ops
            (FileStore f, d) []). drained = accepted)"
proof -
  have h: "fs_holds enc [] (f, d)" and r: "dk_room d = None"
    using NewFileSpiller_holds [OF assms(5,3,2)] assms(4) by simp_all
  have ok: "fs_ok enc dec (f, d)" "fs_items dec (f, d) = []"
    using h r assms(1) by (auto simp: fs_ok_def fs_items_holds)
  show ?thesis
  proof
    show "\<forall>(accepted, drained) \<in> set (store_run (store_Push enc) (store_Drain z dec os_fine) ops
            (ChainStore (NewChainedSpiller (Some (NewRingSpiller z c)) (Some f)), d) []). drained = accepted"
      by (rule st.run_exact [where dec = dec])
        (use ok rs_wf_New [of z c] in \<open>simp_all add: st_ok_def st_items_def NewChainedSpiller_def\<close>)
    show "\<forall>(accepted, drained) \<in> set (store_run (store_Push enc) (store_Drain z dec os_fine) ops
            (FileStore f, d) []). drained = accepted"
      by (rule st.run_exact [where dec = dec]) (use ok in \<open>simp_all add: st_ok_def st_items_def\<close>)
  qed
qed

theorem spill_store_fifo_witness:
  "list_all (\<lambda>(accepted, drained). drained = accepted) (store_run (store_Push Some) (store_Drain [] Some os_fine)
        [Some [1], Some [2, 3], None]
        (ChainStore (NewChainedSpiller (Some (NewRingSpiller [] 1))
          (Some \<lparr>sp_maxBytes = 100, sp_w = fresh_bufw, sp_opened = True, sp_written = 0, sp_count = 0\<rparr>)),
         \<lparr>dk_log = Some [], dk_read = None, dk_recover = None, dk_room = None\<rparr>) [])"
  unfolding list_all_iff
  by (rule spill_store_fifo [of Some Some 100 "\<lparr>dk_log = None, dk_read = None, dk_recover = None, dk_room = None\<rparr>", THEN conjunct1])
    (simp_all add: codec_ok_def NewFileSpiller_def sp_open_def os_fine_def fresh_bufw_def Let_def)

text \<open>
  C21. The file store never invents, repeats or reorders a record: through any run of pushes,
  drains, crashes with a restart on what the disk holds, and a device running out of room at any
  byte, each recovery returns a prefix of the records accepted since the previous one.
\<close>

theorem spill_file_prefix:
  assumes "codec_ok enc dec" and "mb < 2 ^ 32" and "dk_log d0 = None"
    and "NewFileSpiller True os_fine mb d0 = Some s"
  shows "\<forall>(accepted, recovered) \<in> set (fs_run enc dec mb ops s []). prefix recovered accepted"
  using fs_run_prefix [OF assms(1,2)] NewFileSpiller_holds(1) [OF assms(4,3,2)] by blast

theorem spill_file_prefix_witness:
  "list_all (\<lambda>(accepted, recovered). prefix recovered accepted) (fs_run Some Some 100
      [OpPush [1], OpRoom (Some 3), OpPush [2, 3], OpDrain, OpPush [4], OpRestart]
      (\<lparr>sp_maxBytes = 100, sp_w = fresh_bufw, sp_opened = True, sp_written = 0, sp_count = 0\<rparr>,
       \<lparr>dk_log = Some [], dk_read = None, dk_recover = None, dk_room = None\<rparr>) [])"
  unfolding list_all_iff
  by (rule spill_file_prefix [of Some Some 100 "\<lparr>dk_log = None, dk_read = None, dk_recover = None, dk_room = None\<rparr>"])
    (simp_all add: codec_ok_def NewFileSpiller_def sp_open_def os_fine_def fresh_bufw_def Let_def)

end
