(* ===== verification/Kafka_Breaker.thy ===== *)
theory Kafka_Breaker
  imports Prelude Float64
begin

section \<open>The circuit breaker of the Kafka writer\<close>

text \<open>
  Models \<open>src/log4go/kafka_breaker.go\<close>.  The counters of the window are 64-bit words, instants are
  nanoseconds in \<open>int64\<close>, and the failure rate is the rounded quotient of two rounded counters.
  \<open>evaluate\<close> runs on one goroutine; the counters are touched in between by atomic additions, which are
  the other events of a run.  The hook \<open>onTransition\<close> is the list of transitions an operation returns.
\<close>

definition breakerClosed :: int where "breakerClosed = 0"
definition breakerOpen :: int where "breakerOpen = 1"
definition breakerHalfOpen :: int where "breakerHalfOpen = 2"

lemmas kb_state_defs = breakerClosed_def breakerOpen_def breakerHalfOpen_def

definition breakerStateName :: "int \<Rightarrow> string" where
  "breakerStateName s = (if s = breakerOpen then ''open'' else if s = breakerHalfOpen then ''half_open'' else ''closed'')"

record kafka_breaker =
  kb_stateVal :: int
  kb_openedAt :: int
  kb_winStart :: int
  kb_winSent :: "64 word"
  kb_winErr :: "64 word"
  kb_failRate :: rat
  kb_minSamples :: "64 word"
  kb_window :: int
  kb_cooldown :: int

definition newKafkaBreaker :: "rat \<Rightarrow> 64 word \<Rightarrow> int \<Rightarrow> int \<Rightarrow> int \<Rightarrow> kafka_breaker" where
  "newKafkaBreaker failRate minSamples window cooldown now =
    \<lparr>kb_stateVal = 0, kb_openedAt = 0, kb_winStart = now, kb_winSent = 0, kb_winErr = 0,
     kb_failRate = failRate, kb_minSamples = minSamples, kb_window = window, kb_cooldown = cooldown\<rparr>"

record kafka_breaker_options =
  o_BreakerDisabled :: bool
  o_BreakerFailRate :: rat
  o_BreakerMinSamples :: "64 word"
  o_BreakerWindow :: int
  o_BreakerCooldown :: int

definition newKafkaBreakerFromOptions :: "kafka_breaker_options \<Rightarrow> int \<Rightarrow> kafka_breaker option" where
  "newKafkaBreakerFromOptions o' now =
    (if o_BreakerDisabled o' then None
     else let fr = (if o_BreakerFailRate o' \<le> 0 then 1 / 2 else o_BreakerFailRate o');
              ms = (if o_BreakerMinSamples o' = 0 then 20 else o_BreakerMinSamples o');
              win = (if o_BreakerWindow o' \<le> 0 then 2 * 10 ^ 9 else o_BreakerWindow o');
              cd = (if o_BreakerCooldown o' \<le> 0 then 5 * 10 ^ 9 else o_BreakerCooldown o')
          in Some (newKafkaBreaker fr ms win cd now))"

definition recordSendN :: "64 word \<Rightarrow> kafka_breaker \<Rightarrow> kafka_breaker" where
  "recordSendN n b = (if n \<noteq> 0 then b\<lparr>kb_winSent := kb_winSent b + n\<rparr> else b)"

definition recordSend :: "kafka_breaker \<Rightarrow> kafka_breaker" where
  "recordSend b = b\<lparr>kb_winSent := kb_winSent b + 1\<rparr>"

definition recordError :: "kafka_breaker \<Rightarrow> kafka_breaker" where
  "recordError b = b\<lparr>kb_winErr := kb_winErr b + 1\<rparr>"

definition kb_isOpen :: "kafka_breaker \<Rightarrow> bool" where
  "kb_isOpen b \<longleftrightarrow> kb_stateVal b = breakerOpen"

definition kb_stateCode :: "kafka_breaker \<Rightarrow> int" where
  "kb_stateCode b = kb_stateVal b"

definition kb_transition :: "int \<Rightarrow> int \<Rightarrow> kafka_breaker \<Rightarrow> kafka_breaker \<times> (string \<times> string) list" where
  "kb_transition to nowNS b =
    (let b1 = b\<lparr>kb_stateVal := to\<rparr>
     in if kb_stateVal b = to then (b1, [])
        else (if to = breakerOpen then b1\<lparr>kb_openedAt := nowNS\<rparr> else b1,
              [(breakerStateName (kb_stateVal b), breakerStateName to)]))"

definition kb_rate :: "kafka_breaker \<Rightarrow> rat" where
  "kb_rate b = fl64 (fl64 (of_nat (unat (kb_winErr b))) / fl64 (of_nat (unat (kb_winSent b))))"

definition roll_window :: "int \<Rightarrow> kafka_breaker \<Rightarrow> kafka_breaker" where
  "roll_window nowNS b = b\<lparr>kb_winStart := nowNS, kb_winSent := 0, kb_winErr := 0\<rparr>"

definition decideAndRoll :: "int \<Rightarrow> kafka_breaker \<Rightarrow> kafka_breaker \<times> (string \<times> string) list" where
  "decideAndRoll nowNS b =
    (let b1 = roll_window nowNS b
     in if kb_winSent b < kb_minSamples b then (b1, [])
        else if kb_failRate b \<le> kb_rate b
             then if kb_stateVal b1 \<noteq> breakerOpen then kb_transition breakerOpen nowNS b1 else (b1, [])
             else if kb_stateVal b1 \<noteq> breakerClosed then kb_transition breakerClosed nowNS b1 else (b1, []))"

definition kb_evaluate :: "int \<Rightarrow> kafka_breaker \<Rightarrow> kafka_breaker \<times> (string \<times> string) list" where
  "kb_evaluate nowNS b =
    (if kb_stateVal b = breakerClosed
     then if wrap64 (nowNS - kb_winStart b) < kb_window b then (b, []) else decideAndRoll nowNS b
     else if kb_stateVal b = breakerOpen
     then if kb_cooldown b \<le> wrap64 (nowNS - kb_openedAt b)
          then kb_transition breakerHalfOpen nowNS (roll_window nowNS b) else (b, [])
     else if kb_stateVal b = breakerHalfOpen
     then if wrap64 (nowNS - kb_winStart b) < kb_window b then (b, []) else decideAndRoll nowNS b
     else (b, []))"

subsection \<open>Runs\<close>

datatype kb_event = KSend "64 word" | KError | KTick int

fun kb_step :: "kb_event \<Rightarrow> kafka_breaker \<Rightarrow> kafka_breaker" where
  "kb_step (KSend n) b = recordSendN n b"
| "kb_step KError b = recordError b"
| "kb_step (KTick now) b = fst (kb_evaluate now b)"

definition kb_steps :: "kb_event list \<Rightarrow> kafka_breaker \<Rightarrow> kafka_breaker" where
  "kb_steps evs b = fold kb_step evs b"

lemmas kb_simps = recordSendN_def recordError_def kb_evaluate_def decideAndRoll_def kb_transition_def roll_window_def Let_def

definition kb_state_ok :: "kafka_breaker \<Rightarrow> bool" where
  "kb_state_ok b \<longleftrightarrow> kb_stateVal b \<in> {breakerClosed, breakerOpen, breakerHalfOpen}"

lemma kb_step_ok: "kb_state_ok b \<Longrightarrow> kb_state_ok (kb_step e b)"
  by (cases e) (auto simp: kb_state_ok_def kb_simps)

lemma kb_step_config:
  "kb_failRate (kb_step e b) = kb_failRate b" "kb_minSamples (kb_step e b) = kb_minSamples b"
  "kb_window (kb_step e b) = kb_window b" "kb_cooldown (kb_step e b) = kb_cooldown b"
  by (cases e; simp add: kb_simps)+

text \<open>The edges of the state machine, and what each of them requires.\<close>

lemma kb_step_edges:
  assumes "kb_state_ok b" and "kb_stateVal (kb_step e b) \<noteq> kb_stateVal b"
  shows "\<exists>now. e = KTick now \<and>
     (kb_stateVal b \<noteq> breakerOpen \<and> kb_stateVal (kb_step e b) = breakerOpen
        \<and> kb_openedAt (kb_step e b) = now
        \<and> kb_window b \<le> wrap64 (now - kb_winStart b) \<and> kb_minSamples b \<le> kb_winSent b \<and> kb_failRate b \<le> kb_rate b
    \<or> kb_stateVal b = breakerOpen \<and> kb_stateVal (kb_step e b) = breakerHalfOpen
        \<and> kb_cooldown b \<le> wrap64 (now - kb_openedAt b)
    \<or> kb_stateVal b = breakerHalfOpen \<and> kb_stateVal (kb_step e b) = breakerClosed
        \<and> kb_window b \<le> wrap64 (now - kb_winStart b) \<and> kb_minSamples b \<le> kb_winSent b \<and> kb_rate b < kb_failRate b)"
proof (cases e)
  case (KTick now)
  from assms(1) consider "kb_stateVal b = 0" | "kb_stateVal b = 1" | "kb_stateVal b = 2"
    by (auto simp: kb_state_ok_def kb_state_defs)
  then show ?thesis
    using assms(2) KTick
    by cases (auto simp: kb_simps kb_state_defs not_less not_le split: if_splits)
qed (use assms in \<open>simp_all add: kb_simps split: if_splits\<close>)

text \<open>
  A window in which every send failed trips the breaker whatever the failure rate at most one; a
  window without errors never does.
\<close>

lemma kb_rate_all_failed:
  assumes "kb_winErr b = kb_winSent b" and "0 < unat (kb_winSent b)"
  shows "kb_rate b = 1"
proof -
  define n where "n = unat (kb_winSent b)"
  have "fl64 1 \<le> fl64 (of_nat n)" using assms(2) by (intro fl64_mono) (simp add: n_def [symmetric])
  moreover have one: "fl64 1 = 1" using fl64_int [of 1] by simp
  ultimately have "fl64 (of_nat n) \<noteq> 0" by linarith
  then show ?thesis unfolding kb_rate_def assms(1) n_def [symmetric] using one by simp
qed

lemma kb_rate_no_error: "kb_winErr b = 0 \<Longrightarrow> kb_rate b = 0"
  by (simp add: kb_rate_def)

text \<open>
  An outage is detected: with the breaker closed, a window that has lasted long enough, in which at
  least \<open>minSamples\<close> sends were made and all failed, opens it at the next tick; the first tick after
  the cool-down probes; and a probe window without errors closes it.
\<close>

lemma kb_outage_opens:
  assumes "kb_stateVal b = breakerClosed" and "kb_window b \<le> wrap64 (now - kb_winStart b)"
    and "kb_minSamples b \<le> kb_winSent b" and "kb_winErr b = kb_winSent b"
    and "0 < kb_minSamples b" and "kb_failRate b \<le> 1"
  shows "kb_isOpen (fst (kb_evaluate now b))"
proof -
  have "0 < kb_winSent b" using assms(3,5) by simp
  then have "kb_rate b = 1" using assms(4) by (intro kb_rate_all_failed) (simp_all add: word_less_nat_alt)
  then show ?thesis using assms by (simp add: kb_simps kb_isOpen_def kb_state_defs)
qed

lemma kb_cooldown_probes:
  assumes "kb_stateVal b = breakerOpen" and "kb_cooldown b \<le> wrap64 (now - kb_openedAt b)"
  shows "kb_stateVal (fst (kb_evaluate now b)) = breakerHalfOpen \<and> kb_winSent (fst (kb_evaluate now b)) = 0
    \<and> kb_winErr (fst (kb_evaluate now b)) = 0"
  using assms by (simp add: kb_simps kb_state_defs)

lemma kb_clean_probe_closes:
  assumes "kb_stateVal b = breakerHalfOpen" and "kb_window b \<le> wrap64 (now - kb_winStart b)"
    and "kb_minSamples b \<le> kb_winSent b" and "kb_winErr b = 0" and "0 < kb_failRate b"
  shows "kb_stateVal (fst (kb_evaluate now b)) = breakerClosed"
  using assms kb_rate_no_error [of b] by (simp add: kb_simps kb_state_defs)

end
