(* ===== verification/Kafka_Writer.thy ===== *)
theory Kafka_Writer
  imports Spill Kafka_Breaker
begin

section \<open>The Kafka writer\<close>

text \<open>
  Models the delivery path of \<open>src/log4go/kafka_writer.go\<close>: \<open>Write\<close> and \<open>send\<close> with the three overflow
  policies, and the daemon with its per-record and batch modes, the fail-over to the spill store, the
  periodic drain and the shutdown.  A call of \<open>send\<close> and an iteration of the daemon's \<open>select\<close> are one step
  each; their order is arbitrary.  A \<open>select\<close> with several ready cases picks one at random: the choice is
  an argument.  The answers of the producer to successive \<open>Send\<close> and \<open>SendBatch\<close> calls are the script
  \<open>kw_outcomes\<close> (true is an error; an exhausted script answers success).  The last four fields are
  ghosts: the records handed to the producer without an error, counted as dropped, lost to a producer
  error that was counted, and lost with no count at all.  The event hook and the log lines are left out.
\<close>

record 'm kw =
  kw_level :: int
  kw_paused :: bool
  kw_policy :: OverflowPolicy
  kw_cap :: nat
  kw_messages :: "'m list"
  kw_spiller :: "('m spill_store \<times> disk) option"
  kw_breaker :: "kafka_breaker option"
  kw_stats :: overflow_stats
  kw_sent :: "64 word"
  kw_errored :: "64 word"
  kw_failovered :: "64 word"
  kw_batchMode :: bool
  kw_batchSize :: nat
  kw_batches :: "64 word"
  kw_batchMax :: "64 word"
  kw_batch :: "'m list"
  kw_run :: bool
  kw_closing :: bool
  kw_stop :: bool
  kw_exited :: bool
  kw_outcomes :: "bool list"
  kw_delivered :: "'m list"
  kw_dropped :: "'m list"
  kw_failed :: "'m list"
  kw_forgotten :: "'m list"

subsection \<open>The producers' side\<close>

definition kw_IncDropped :: "'m \<Rightarrow> 'm kw \<Rightarrow> 'm kw" where
  "kw_IncDropped m k = k\<lparr>kw_stats := fst (IncDropped (kw_stats k)), kw_dropped := kw_dropped k @ [m]\<rparr>"

definition kw_enqueue :: "'m \<Rightarrow> 'm kw \<Rightarrow> 'm kw" where
  "kw_enqueue m k = k\<lparr>kw_messages := kw_messages k @ [m]\<rparr>"

definition kw_spill_or_drop :: "('m \<Rightarrow> bytes option) \<Rightarrow> 'm \<Rightarrow> 'm kw \<Rightarrow> 'm kw" where
  "kw_spill_or_drop enc m k =
    (case kw_spiller k of
       None \<Rightarrow> kw_IncDropped m k
     | Some s \<Rightarrow> let (ok, s') = store_Push enc m s; k1 = k\<lparr>kw_spiller := Some s'\<rparr>
         in if ok then k1\<lparr>kw_stats := fst (IncSpilled (kw_stats k1))\<rparr> else kw_IncDropped m k1)"

text \<open>\<open>pick_stop\<close>: which case is taken when the channel has room and \<open>stop\<close> is closed.  \<open>None\<close>: blocked.\<close>

definition kw_send :: "('m \<Rightarrow> bytes option) \<Rightarrow> bool \<Rightarrow> 'm \<Rightarrow> 'm kw \<Rightarrow> 'm kw option" where
  "kw_send enc pick_stop m k =
    (if kw_closing k then Some (kw_IncDropped m k)
     else let room = length (kw_messages k) < kw_cap k
          in if room \<and> \<not> (kw_stop k \<and> pick_stop) then Some (kw_enqueue m k)
             else if kw_stop k then Some (kw_IncDropped m k)
             else if kw_policy k = OverflowBlock then None
             else if kw_policy k = OverflowSpill then Some (kw_spill_or_drop enc m k)
             else Some (kw_IncDropped m k))"

text \<open>
  \<open>Write\<close>: the guards, then the message of the configured topic and key.  The payload is the answer of the
  configured codec.
\<close>

definition kw_Write :: "(kafka_message \<Rightarrow> bytes option) \<Rightarrow> bool \<Rightarrow> string \<Rightarrow> bytes \<Rightarrow> int \<Rightarrow> string \<Rightarrow> bytes
    \<Rightarrow> kafka_message kw \<Rightarrow> kafka_message kw option" where
  "kw_Write enc pick_stop topic key r_level r_msg payload k =
    (if kw_paused k then Some k
     else if kw_level k < r_level then Some k
     else if r_msg = [] then Some k
     else kw_send enc pick_stop
       \<lparr>km_Topic = topic, km_Partition = 0, km_Offset = 0, km_Key = key, km_Value = payload, km_Headers = [], km_Timestamp = zero_time\<rparr> k)"

subsection \<open>The daemon\<close>

definition producer_call :: "'m kw \<Rightarrow> bool \<times> 'm kw" where
  "producer_call k = (case kw_outcomes k of [] \<Rightarrow> (False, k) | e # es \<Rightarrow> (e, k\<lparr>kw_outcomes := es\<rparr>))"

definition kw_failover :: "('m \<Rightarrow> bytes option) \<Rightarrow> 'm \<Rightarrow> 'm kw \<Rightarrow> 'm kw" where
  "kw_failover enc m k = kw_spill_or_drop enc m (k\<lparr>kw_failovered := kw_failovered k + 1\<rparr>)"

definition kw_diverts :: "'m kw \<Rightarrow> bool" where
  "kw_diverts k \<longleftrightarrow> (case kw_breaker k of None \<Rightarrow> False | Some b \<Rightarrow> kb_isOpen b) \<and> kw_spiller k \<noteq> None"

definition kw_sendOne :: "('m \<Rightarrow> bytes option) \<Rightarrow> 'm \<Rightarrow> 'm kw \<Rightarrow> 'm kw" where
  "kw_sendOne enc m k =
    (if kw_diverts k then kw_failover enc m k
     else let (err, k1) = producer_call k;
              k2 = k1\<lparr>kw_breaker := map_option recordSend (kw_breaker k1)\<rparr>
          in if err
             then let k3 = k2\<lparr>kw_breaker := map_option recordError (kw_breaker k2)\<rparr>
                  in if kw_spiller k3 \<noteq> None then kw_failover enc m k3
                     else k3\<lparr>kw_errored := kw_errored k3 + 1, kw_failed := kw_failed k3 @ [m]\<rparr>
             else k2\<lparr>kw_sent := kw_sent k2 + 1, kw_delivered := kw_delivered k2 @ [m]\<rparr>)"

definition kw_failover_batch :: "('m \<Rightarrow> bytes option) \<Rightarrow> 'm kw \<Rightarrow> 'm kw" where
  "kw_failover_batch enc k = (fold (kw_failover enc) (kw_batch k) k)\<lparr>kw_batch := []\<rparr>"

text \<open>The closure \<open>flush\<close>; outside the batch mode it is the empty function.\<close>

definition kw_flush :: "('m \<Rightarrow> bytes option) \<Rightarrow> 'm kw \<Rightarrow> 'm kw" where
  "kw_flush enc k =
    (if \<not> kw_batchMode k then k
     else if kw_batch k = [] then k
     else if kw_diverts k then kw_failover_batch enc k
     else let (err, k1) = producer_call k
          in if err \<and> kw_spiller k1 \<noteq> None then kw_failover_batch enc k1
             else let n = word_of_nat (length (kw_batch k1));
                      k2 = k1\<lparr>kw_sent := kw_sent k1 + n, kw_breaker := map_option (recordSendN n) (kw_breaker k1)\<rparr>
                  in if err
                     then k2\<lparr>kw_errored := kw_errored k2 + n, kw_failed := kw_failed k2 @ kw_batch k2, kw_batch := []\<rparr>
                     else k2\<lparr>kw_batches := kw_batches k2 + 1, kw_batchMax := (if kw_batchMax k2 < n then n else kw_batchMax k2),
                             kw_delivered := kw_delivered k2 @ kw_batch k2, kw_batch := []\<rparr>)"

definition kw_accumulate :: "('m \<Rightarrow> bytes option) \<Rightarrow> 'm \<Rightarrow> 'm kw \<Rightarrow> 'm kw" where
  "kw_accumulate enc m k =
    (let k1 = k\<lparr>kw_batch := kw_batch k @ [m]\<rparr>
     in if kw_batchSize k1 \<le> length (kw_batch k1) then kw_flush enc k1 else k1)"

definition kw_receive :: "('m \<Rightarrow> bytes option) \<Rightarrow> 'm kw \<Rightarrow> 'm kw option" where
  "kw_receive enc k =
    (case kw_messages k of [] \<Rightarrow> None
     | m # ms \<Rightarrow> let k1 = k\<lparr>kw_messages := ms\<rparr>
         in Some (if kw_batchMode k1 then kw_accumulate enc m k1 else kw_sendOne enc m k1))"

text \<open>
  The loop of \<open>drainSpill\<close>.  When the channel is full again the record in hand is pushed back and the
  function returns: the records behind it in the drained slice are referred to by nothing.
\<close>

fun kw_reinject :: "('m \<Rightarrow> bytes option) \<Rightarrow> 'm list \<Rightarrow> 'm kw \<Rightarrow> 'm kw" where
  "kw_reinject enc [] k = k"
| "kw_reinject enc (m # ms) k =
    (if length (kw_messages k) < kw_cap k then kw_reinject enc ms (kw_enqueue m k)
     else case kw_spiller k of
       None \<Rightarrow> k\<lparr>kw_forgotten := kw_forgotten k @ m # ms\<rparr>
     | Some s \<Rightarrow> let (ok, s') = store_Push enc m s
         in k\<lparr>kw_spiller := Some s', kw_forgotten := kw_forgotten k @ (if ok then ms else m # ms)\<rparr>)"

definition kw_drainSpill :: "'m \<Rightarrow> ('m \<Rightarrow> bytes option) \<Rightarrow> (bytes \<Rightarrow> 'm option) \<Rightarrow> os_env \<Rightarrow> 'm kw \<Rightarrow> 'm kw" where
  "kw_drainSpill z enc dec env k =
    (if kw_closing k then k
     else case kw_spiller k of None \<Rightarrow> k
       | Some s \<Rightarrow> if store_Len (fst s) = 0 then k
           else let (out, s') = store_Drain z dec env s in kw_reinject enc out (k\<lparr>kw_spiller := Some s'\<rparr>))"

definition kw_tick :: "'m \<Rightarrow> ('m \<Rightarrow> bytes option) \<Rightarrow> (bytes \<Rightarrow> 'm option) \<Rightarrow> os_env \<Rightarrow> int \<Rightarrow> 'm kw \<Rightarrow> 'm kw" where
  "kw_tick z enc dec env now k =
    (let k1 = kw_drainSpill z enc dec env k
     in k1\<lparr>kw_breaker := map_option (\<lambda>b. fst (kb_evaluate now b)) (kw_breaker k1)\<rparr>)"

text \<open>The error hook of the producer.\<close>

definition kw_async_error :: "'m kw \<Rightarrow> 'm kw" where
  "kw_async_error k = k\<lparr>kw_errored := kw_errored k + 1, kw_breaker := map_option recordError (kw_breaker k)\<rparr>"

text \<open>
  \<open>drainOnShutdown\<close>: everything queued goes into the batch, flushed when it is full and once more at
  the end.
\<close>

definition kw_drain_queue :: "('m \<Rightarrow> bytes option) \<Rightarrow> 'm list \<Rightarrow> 'm kw \<Rightarrow> 'm kw" where
  "kw_drain_queue enc = fold (\<lambda>m k. kw_accumulate enc m (k\<lparr>kw_messages := tl (kw_messages k)\<rparr>))"

definition kw_drainOnShutdown :: "('m \<Rightarrow> bytes option) \<Rightarrow> 'm kw \<Rightarrow> 'm kw" where
  "kw_drainOnShutdown enc k =
kw_flush enc (kw_drain_queue enc (kw_messages k) k)"

definition kw_send_ignoring :: "'m \<Rightarrow> 'm kw \<Rightarrow> 'm kw" where
  "kw_send_ignoring m k =
    (let (err, k1) = producer_call k
     in if err then k1\<lparr>kw_forgotten := kw_forgotten k1 @ [m]\<rparr> else k1\<lparr>kw_delivered := kw_delivered k1 @ [m]\<rparr>)"

definition kw_drainSpillToProducer :: "'m \<Rightarrow> (bytes \<Rightarrow> 'm option) \<Rightarrow> os_env \<Rightarrow> 'm kw \<Rightarrow> 'm kw" where
  "kw_drainSpillToProducer z dec env k =
    (case kw_spiller k of None \<Rightarrow> k
     | Some s \<Rightarrow> let (out, s') = store_Drain z dec env s in fold kw_send_ignoring out (k\<lparr>kw_spiller := Some s'\<rparr>))"

text \<open>
  The shutdown case of the daemon's \<open>select\<close>; the goroutine returns and its variable \<open>batch\<close> goes out of
  scope.
\<close>

definition kw_shutdown :: "'m \<Rightarrow> ('m \<Rightarrow> bytes option) \<Rightarrow> (bytes \<Rightarrow> 'm option) \<Rightarrow> os_env \<Rightarrow> 'm kw \<Rightarrow> 'm kw" where
  "kw_shutdown z enc dec env k =
    (let k1 = kw_drainSpillToProducer z dec env (kw_drainOnShutdown enc k)
     in k1\<lparr>kw_exited := True, kw_forgotten := kw_forgotten k1 @ kw_batch k1, kw_batch := []\<rparr>)"

subsection \<open>Start and Stop\<close>

text \<open>The resume loop of \<open>Start\<close>: unlike \<open>drainSpill\<close> it goes on after a full channel and counts a refusal.\<close>

fun kw_resume :: "('m \<Rightarrow> bytes option) \<Rightarrow> 'm list \<Rightarrow> 'm kw \<Rightarrow> 'm kw" where
  "kw_resume enc [] k = k"
| "kw_resume enc (m # ms) k =
    kw_resume enc ms
      (if length (kw_messages k) < kw_cap k then kw_enqueue m k
       else case kw_spiller k of None \<Rightarrow> kw_IncDropped m k
         | Some s \<Rightarrow> let (ok, s') = store_Push enc m s; k1 = k\<lparr>kw_spiller := Some s'\<rparr>
             in if ok then k1 else kw_IncDropped m k1)"

definition kw_Start :: "'m \<Rightarrow> ('m \<Rightarrow> bytes option) \<Rightarrow> (bytes \<Rightarrow> 'm option) \<Rightarrow> os_env \<Rightarrow> spill_type \<Rightarrow> int \<Rightarrow> bool \<Rightarrow> int \<Rightarrow> bool \<Rightarrow> disk
    \<Rightarrow> int \<Rightarrow> 'm kw \<Rightarrow> 'm kw option" where
  "kw_Start z enc dec env ty spillSize mkdir_ok maxBytes has_dir d bufferSize k =
    (let k1 = k\<lparr>kw_cap := (if bufferSize \<le> 1 then 1024 else nat bufferSize), kw_messages := [], kw_stop := False\<rparr>
     in if kw_policy k1 \<noteq> OverflowSpill then Some (k1\<lparr>kw_run := True\<rparr>)
        else case start_store z ty spillSize mkdir_ok env maxBytes has_dir d of
          None \<Rightarrow> None
        | Some s \<Rightarrow> let (out, s') = store_Drain z dec env s
            in Some ((kw_resume enc out (k1\<lparr>kw_spiller := Some s'\<rparr>))\<lparr>kw_run := True\<rparr>))"

text \<open>\<open>Stop\<close> up to the wait for the daemon: the first caller closes the channel \<open>stop\<close>.\<close>

definition kw_Stop :: "'m kw \<Rightarrow> 'm kw" where
  "kw_Stop k = (if \<not> kw_run k then k else k\<lparr>kw_run := False, kw_closing := True, kw_stop := True\<rparr>)"

definition kw_Pause :: "'m kw \<Rightarrow> 'm kw" where "kw_Pause k = k\<lparr>kw_paused := True\<rparr>"
definition kw_Resume :: "'m kw \<Rightarrow> 'm kw" where "kw_Resume k = k\<lparr>kw_paused := False\<rparr>"

definition NewKafkaWriter :: "int \<Rightarrow> string \<Rightarrow> bool \<Rightarrow> int \<Rightarrow> kafka_breaker option \<Rightarrow> bool list \<Rightarrow> 'm kw" where
  "NewKafkaWriter level policy batchMode batchSize breaker outcomes =
    \<lparr>kw_level = level, kw_paused = False, kw_policy = ParseOverflowPolicy policy, kw_cap = 0, kw_messages = [],
     kw_spiller = None, kw_breaker = breaker,
     kw_stats = \<lparr>os_dropped = 0, os_spilled = 0, os_dropEvery = 1000, os_spillEvery = 1000, os_alertSink = None\<rparr>,
     kw_sent = 0, kw_errored = 0, kw_failovered = 0, kw_batchMode = batchMode,
     kw_batchSize = (if batchSize \<le> 0 then 1024 else nat batchSize), kw_batches = 0, kw_batchMax = 0, kw_batch = [],
     kw_run = False, kw_closing = False, kw_stop = False, kw_exited = False, kw_outcomes = outcomes,
     kw_delivered = [], kw_dropped = [], kw_failed = [], kw_forgotten = []\<rparr>"

subsection \<open>Runs\<close>

datatype 'm kw_event = ESend bool 'm | EReceive | EFlushTimer | ETick int | EAsyncError | EStop | EShutdown

definition kw_do :: "'m \<Rightarrow> ('m \<Rightarrow> bytes option) \<Rightarrow> (bytes \<Rightarrow> 'm option) \<Rightarrow> 'm kw_event \<Rightarrow> 'm kw \<Rightarrow> 'm kw option" where
  "kw_do z enc dec e k =
    (case e of
       ESend pick m \<Rightarrow> kw_send enc pick m k
     | EReceive \<Rightarrow> if kw_exited k then None else kw_receive enc k
     | EFlushTimer \<Rightarrow> if kw_exited k \<or> \<not> kw_batchMode k then None else Some (kw_flush enc k)
     | ETick now \<Rightarrow> if kw_exited k then None else Some (kw_tick z enc dec os_fine now k)
     | EAsyncError \<Rightarrow> Some (kw_async_error k)
     | EStop \<Rightarrow> Some (kw_Stop k)
     | EShutdown \<Rightarrow> if kw_exited k \<or> \<not> kw_stop k then None else Some (kw_shutdown z enc dec os_fine k))"

fun kw_runs :: "'m \<Rightarrow> ('m \<Rightarrow> bytes option) \<Rightarrow> (bytes \<Rightarrow> 'm option) \<Rightarrow> 'm kw_event list \<Rightarrow> 'm kw \<Rightarrow> 'm kw option" where
  "kw_runs z enc dec [] k = Some k"
| "kw_runs z enc dec (e # es) k = (case kw_do z enc dec e k of None \<Rightarrow> None | Some k' \<Rightarrow> kw_runs z enc dec es k')"

text \<open>The records the callers hand to the writer in a run.\<close>

fun offered :: "'m kw_event list \<Rightarrow> 'm list" where
  "offered [] = []"
| "offered (ESend pick m # es) = m # offered es"
| "offered (_ # es) = offered es"

subsection \<open>Accounting\<close>

definition kw_stored :: "(bytes \<Rightarrow> 'm option) \<Rightarrow> 'm kw \<Rightarrow> 'm list" where
  "kw_stored dec k = (case kw_spiller k of None \<Rightarrow> [] | Some s \<Rightarrow> st_items dec s)"

definition kw_books :: "(bytes \<Rightarrow> 'm option) \<Rightarrow> 'm kw \<Rightarrow> 'm multiset" where
  "kw_books dec k = mset (kw_messages k) + mset (kw_batch k) + mset (kw_stored dec k) + mset (kw_delivered k)
    + mset (kw_dropped k) + mset (kw_failed k) + mset (kw_forgotten k)"

text \<open>The store has its contract, and the counter of drops is the number of records dropped.\<close>

definition kw_fit :: "('m \<Rightarrow> bytes option) \<Rightarrow> (bytes \<Rightarrow> 'm option) \<Rightarrow> 'm kw \<Rightarrow> bool" where
  "kw_fit enc dec k \<longleftrightarrow> (\<forall>s. kw_spiller k = Some s \<longrightarrow> st_ok enc dec s)
    \<and> os_dropped (kw_stats k) = word_of_nat (length (kw_dropped k))"

text \<open>The memory of the writer is bounded: the channel, and the batch between two iterations.\<close>

definition kw_bounded :: "'m kw \<Rightarrow> bool" where
  "kw_bounded k \<longleftrightarrow> length (kw_messages k) \<le> kw_cap k \<and> 0 < kw_batchSize k
    \<and> (if kw_batchMode k then length (kw_batch k) < kw_batchSize k else kw_batch k = [])"

text \<open>An operation that settles the records \<open>ms\<close>: fit stays, and the books grow by them.\<close>

definition settles :: "('m \<Rightarrow> bytes option) \<Rightarrow> (bytes \<Rightarrow> 'm option) \<Rightarrow> 'm multiset \<Rightarrow> 'm kw \<Rightarrow> 'm kw \<Rightarrow> bool" where
  "settles enc dec ms k k' \<longleftrightarrow> (kw_fit enc dec k \<longrightarrow> kw_fit enc dec k' \<and> kw_books dec k' = kw_books dec k + ms)"

lemma settles_refl [simp]: "settles enc dec {#} k k"
  by (simp add: settles_def)

lemma settles_trans: "settles enc dec A k k' \<Longrightarrow> settles enc dec B k' k'' \<Longrightarrow> settles enc dec (A + B) k k''"
  by (simp add: settles_def)

lemma settles_same:
  "kw_spiller k' = kw_spiller k \<Longrightarrow> os_dropped (kw_stats k') = os_dropped (kw_stats k) \<Longrightarrow> kw_dropped k' = kw_dropped k
    \<Longrightarrow> mset (kw_messages k') + mset (kw_batch k') + mset (kw_delivered k') + mset (kw_failed k') + mset (kw_forgotten k')
      = mset (kw_messages k) + mset (kw_batch k) + mset (kw_delivered k) + mset (kw_failed k) + mset (kw_forgotten k) + ms
    \<Longrightarrow> settles enc dec ms k k'"
  by (auto simp: settles_def kw_fit_def kw_books_def kw_stored_def add_eq_conv_diff ac_simps)

lemma settles_dropped: "settles enc dec {#m#} k (kw_IncDropped m k)"
  by (simp add: settles_def kw_fit_def kw_books_def kw_stored_def kw_IncDropped_def add.commute)

lemma settles_stored:
  assumes "kw_spiller k = Some s" and "store_Push enc m s = (ok, s')"
  shows "settles enc dec (if ok then {#m#} else {#}) k (k\<lparr>kw_spiller := Some s'\<rparr>)"
  unfolding settles_def
proof
  assume "kw_fit enc dec k"
  then have "st_ok enc dec s" using assms(1) by (simp add: kw_fit_def)
  from st.push_cases [OF this assms(2)] \<open>kw_fit enc dec k\<close> assms(1)
  show "kw_fit enc dec (k\<lparr>kw_spiller := Some s'\<rparr>)
      \<and> kw_books dec (k\<lparr>kw_spiller := Some s'\<rparr>) = kw_books dec k + (if ok then {#m#} else {#})"
    by (simp add: kw_fit_def kw_books_def kw_stored_def)
qed

lemma settles_spill_or_drop: "settles enc dec {#m#} k (kw_spill_or_drop enc m k)"
proof (cases "kw_spiller k")
  case None
  then show ?thesis by (simp add: kw_spill_or_drop_def settles_dropped)
next
  case (Some s)
  obtain ok s' where p: "store_Push enc m s = (ok, s')" by (cases "store_Push enc m s")
  let ?k = "k\<lparr>kw_spiller := Some s'\<rparr>"
  have 1: "settles enc dec (if ok then {#m#} else {#}) k ?k" by (rule settles_stored [OF Some p])
  show ?thesis
  proof (cases ok)
    case True
    have "settles enc dec {#} ?k (?k\<lparr>kw_stats := fst (IncSpilled (kw_stats ?k))\<rparr>)"
      by (rule settles_same) simp_all
    with settles_trans [OF 1 this] True Some p show ?thesis by (simp add: kw_spill_or_drop_def)
  next
    case False
    with settles_trans [OF 1 settles_dropped [of enc dec m ?k]] Some p show ?thesis
      by (simp add: kw_spill_or_drop_def)
  qed
qed

lemma settles_failover: "settles enc dec {#m#} k (kw_failover enc m k)"
proof -
  let ?k = "k\<lparr>kw_failovered := kw_failovered k + 1\<rparr>"
  have "settles enc dec {#} k ?k" by (rule settles_same) simp_all
  from settles_trans [OF this settles_spill_or_drop [of enc dec m ?k]] show ?thesis
    by (simp add: kw_failover_def)
qed

lemma producer_call_frame:
  assumes "producer_call k = (err, k1)"
  obtains es where "k1 = k\<lparr>kw_outcomes := es\<rparr>" "set es \<subseteq> set (kw_outcomes k)" "err \<Longrightarrow> True \<in> set (kw_outcomes k)"
proof
  show "k1 = k\<lparr>kw_outcomes := kw_outcomes k1\<rparr>"
    using assms by (cases k) (auto simp: producer_call_def split: list.splits)
  show "set (kw_outcomes k1) \<subseteq> set (kw_outcomes k)" "err \<Longrightarrow> True \<in> set (kw_outcomes k)"
    using assms by (auto simp: producer_call_def split: list.splits)
qed

lemma settles_sendOne: "settles enc dec {#m#} k (kw_sendOne enc m k)"
proof (cases "kw_diverts k")
  case True
  then show ?thesis by (simp add: kw_sendOne_def settles_failover)
next
  case False
  obtain err k1 where pc: "producer_call k = (err, k1)" by (cases "producer_call k")
  obtain es where fr: "k1 = k\<lparr>kw_outcomes := es\<rparr>" using producer_call_frame [OF pc] by blast
  let ?k2 = "k1\<lparr>kw_breaker := map_option recordSend (kw_breaker k1)\<rparr>"
  let ?k3 = "?k2\<lparr>kw_breaker := map_option recordError (kw_breaker ?k2)\<rparr>"
  have 3: "settles enc dec {#} k ?k3" by (rule settles_same) (simp_all add: fr)
  show ?thesis
  proof (cases "err \<and> kw_spiller k1 \<noteq> None")
    case True
    then show ?thesis using settles_trans [OF 3 settles_failover [of enc dec m ?k3]] False pc
      by (simp add: kw_sendOne_def Let_def)
  next
    case no_fo: False
    then show ?thesis using False pc fr
      by (intro settles_same) (auto simp: kw_sendOne_def Let_def)
  qed
qed

lemma settles_fold:
  assumes "\<And>m k. settles enc dec {#m#} k (f m k)"
  shows "settles enc dec (mset ms) k (fold f ms k)"
  using assms
proof (induction ms arbitrary: k)
  case (Cons m ms)
  from settles_trans [OF Cons.prems Cons.IH [OF Cons.prems]] show ?case by simp
qed simp

lemma settles_failover_batch:
  "settles enc dec {#} k (kw_failover_batch enc k)"
proof -
  let ?k = "fold (kw_failover enc) (kw_batch k) k"
  have keep: "kw_batch (fold (kw_failover enc) ms k) = kw_batch k" for ms k
    by (induction ms arbitrary: k) (simp_all add: kw_failover_def kw_spill_or_drop_def kw_IncDropped_def Let_def
        split: option.split prod.split)
  show ?thesis
    unfolding settles_def kw_failover_batch_def
  proof
    assume "kw_fit enc dec k"
    with settles_fold [OF settles_failover, of enc dec "kw_batch k" k]
    have "kw_fit enc dec ?k" "kw_books dec ?k = kw_books dec k + mset (kw_batch k)"
      by (simp_all add: settles_def)
    then show "kw_fit enc dec (?k\<lparr>kw_batch := []\<rparr>) \<and> kw_books dec (?k\<lparr>kw_batch := []\<rparr>) = kw_books dec k + {#}"
      using keep [of "kw_batch k" k] by (simp add: kw_fit_def kw_books_def kw_stored_def ac_simps)
  qed
qed

lemma settles_flush: "settles enc dec {#} k (kw_flush enc k)"
proof (cases "\<not> kw_batchMode k \<or> kw_batch k = [] \<or> kw_diverts k")
  case True
  then show ?thesis by (auto simp: kw_flush_def settles_failover_batch)
next
  case False
  obtain err k1 where pc: "producer_call k = (err, k1)" by (cases "producer_call k")
  obtain es where fr: "k1 = k\<lparr>kw_outcomes := es\<rparr>" using producer_call_frame [OF pc] by blast
  have 1: "settles enc dec {#} k k1" by (rule settles_same) (simp_all add: fr)
  show ?thesis
  proof (cases "err \<and> kw_spiller k1 \<noteq> None")
    case True
    then show ?thesis using settles_trans [OF 1 settles_failover_batch [of enc dec k1]] False pc
      by (simp add: kw_flush_def)
  next
    case no_fo: False
    then show ?thesis using False pc fr by (intro settles_same) (auto simp: kw_flush_def Let_def)
  qed
qed

lemma settles_accumulate: "settles enc dec {#m#} k (kw_accumulate enc m k)"
proof -
  let ?k = "k\<lparr>kw_batch := kw_batch k @ [m]\<rparr>"
  have 1: "settles enc dec {#m#} k ?k" by (rule settles_same) simp_all
  from settles_trans [OF 1 settles_flush [of enc dec ?k]] 1 show ?thesis by (simp add: kw_accumulate_def Let_def)
qed

lemma settles_take_message:
  assumes "\<And>m k. settles enc dec {#m#} k (f m k)" and "kw_messages k = m # ms"
  shows "settles enc dec {#} k (f m (k\<lparr>kw_messages := ms\<rparr>))"
proof -
  let ?k = "k\<lparr>kw_messages := ms\<rparr>"
  have "kw_fit enc dec ?k = kw_fit enc dec k" "kw_books dec k = kw_books dec ?k + {#m#}"
    using assms(2) by (simp_all add: kw_fit_def kw_books_def kw_stored_def)
  then show ?thesis using assms(1) [of m ?k] by (simp add: settles_def)
qed

lemma settles_receive:
  assumes "kw_receive enc k = Some k'"
  shows "settles enc dec {#} k k'"
proof -
  obtain m ms where ms: "kw_messages k = m # ms" using assms by (cases "kw_messages k") (simp_all add: kw_receive_def)
  have "k' = kw_accumulate enc m (k\<lparr>kw_messages := ms\<rparr>) \<or> k' = kw_sendOne enc m (k\<lparr>kw_messages := ms\<rparr>)"
    using assms ms by (auto simp: kw_receive_def Let_def)
  then show ?thesis
    using settles_take_message [OF settles_accumulate ms] settles_take_message [OF settles_sendOne ms] by auto
qed

lemma settles_send: "kw_send enc pick m k = Some k' \<Longrightarrow> settles enc dec {#m#} k k'"
  using settles_dropped [of enc dec m k] settles_spill_or_drop [of enc dec m k]
  by (auto simp: kw_send_def Let_def kw_enqueue_def split: if_splits intro!: settles_same)

text \<open>What the daemon's work on one record leaves alone.\<close>

definition same_shell :: "'m kw \<Rightarrow> 'm kw \<Rightarrow> bool" where
  "same_shell k k' \<longleftrightarrow> kw_messages k' = kw_messages k \<and> kw_cap k' = kw_cap k \<and> kw_batchMode k' = kw_batchMode k
    \<and> kw_batchSize k' = kw_batchSize k \<and> kw_forgotten k' = kw_forgotten k \<and> (kw_spiller k' = None \<longleftrightarrow> kw_spiller k = None)
    \<and> set (kw_outcomes k') \<subseteq> set (kw_outcomes k)"

lemma same_shell_refl [simp]: "same_shell k k"
  by (simp add: same_shell_def)

lemma same_shell_trans: "same_shell k k' \<Longrightarrow> same_shell k' k'' \<Longrightarrow> same_shell k k''"
  by (auto simp: same_shell_def)

lemma same_shell_failover: "same_shell k (kw_failover enc m k)" "kw_batch (kw_failover enc m k) = kw_batch k"
  by (auto simp: same_shell_def kw_failover_def kw_spill_or_drop_def kw_IncDropped_def Let_def split: option.split prod.split)

lemma same_shell_failover_batch: "same_shell k (kw_failover_batch enc k)" "kw_batch (kw_failover_batch enc k) = []"
proof -
  have "same_shell k (fold (kw_failover enc) ms k)" for ms
    by (induction ms arbitrary: k) (auto intro: same_shell_trans same_shell_failover)
  from this [of "kw_batch k"] show "same_shell k (kw_failover_batch enc k)"
    by (simp add: kw_failover_batch_def same_shell_def)
  show "kw_batch (kw_failover_batch enc k) = []" by (simp add: kw_failover_batch_def)
qed

lemma same_shell_flush:
  "same_shell k (kw_flush enc k)" "kw_batch (kw_flush enc k) = (if kw_batchMode k then [] else kw_batch k)"
proof -
  obtain err k1 where pc: "producer_call k = (err, k1)" by (cases "producer_call k")
  obtain es where fr: "k1 = k\<lparr>kw_outcomes := es\<rparr>" "set es \<subseteq> set (kw_outcomes k)"
    using producer_call_frame [OF pc] by blast
  have 1: "same_shell k k1" using fr by (simp add: same_shell_def)
  note fb = same_shell_failover_batch [where k = k and enc = enc] same_shell_failover_batch [where k = k1 and enc = enc]
    same_shell_trans [OF 1 same_shell_failover_batch(1) [of k1 enc]]
  show "same_shell k (kw_flush enc k)"
    using fb pc fr by (auto simp: kw_flush_def Let_def) (auto simp: same_shell_def)
  show "kw_batch (kw_flush enc k) = (if kw_batchMode k then [] else kw_batch k)"
    using fb pc by (auto simp: kw_flush_def Let_def)
qed

lemma same_shell_accumulate: "same_shell k (kw_accumulate enc m k)"
proof -
  let ?k = "k\<lparr>kw_batch := kw_batch k @ [m]\<rparr>"
  have "same_shell k ?k" by (simp add: same_shell_def)
  with same_shell_trans [OF this same_shell_flush(1) [of ?k enc]] show ?thesis
    by (simp add: kw_accumulate_def Let_def)
qed

lemma batch_accumulate:
  "kw_batch (kw_accumulate enc m k) =
    (if kw_batchSize k \<le> length (kw_batch k) + 1 \<and> kw_batchMode k then [] else kw_batch k @ [m])"
  by (simp add: kw_accumulate_def Let_def same_shell_flush(2))

lemma same_shell_sendOne: "same_shell k (kw_sendOne enc m k)" "kw_batch (kw_sendOne enc m k) = kw_batch k"
proof -
  obtain err k1 where pc: "producer_call k = (err, k1)" by (cases "producer_call k")
  obtain es where fr: "k1 = k\<lparr>kw_outcomes := es\<rparr>" "set es \<subseteq> set (kw_outcomes k)"
    using producer_call_frame [OF pc] by blast
  let ?k3 = "k1\<lparr>kw_breaker := map_option recordError (map_option recordSend (kw_breaker k1))\<rparr>"
  have 3: "same_shell k ?k3" using fr by (simp add: same_shell_def)
  note fo = same_shell_failover [where k = k and enc = enc and m = m] same_shell_failover [where k = ?k3 and enc = enc and m = m]
    same_shell_trans [OF 3 same_shell_failover(1) [of ?k3 enc m]]
  show "same_shell k (kw_sendOne enc m k)"
    using fo pc fr by (auto simp: kw_sendOne_def Let_def) (auto simp: same_shell_def)
  show "kw_batch (kw_sendOne enc m k) = kw_batch k"
    using fo pc fr by (auto simp: kw_sendOne_def Let_def)
qed

text \<open>\<open>drainSpill\<close> and the shutdown.\<close>

lemma settles_forget: "settles enc dec (mset ms) k (k\<lparr>kw_forgotten := kw_forgotten k @ ms\<rparr>)"
  by (rule settles_same) simp_all

lemma settles_reinject: "settles enc dec (mset ms) k (kw_reinject enc ms k)"
proof (induction ms arbitrary: k)
  case (Cons m ms)
  show ?case
  proof (cases "length (kw_messages k) < kw_cap k")
    case True
    have "settles enc dec {#m#} k (kw_enqueue m k)" by (rule settles_same) (simp_all add: kw_enqueue_def)
    with settles_trans [OF this Cons.IH] True show ?thesis by simp
  next
    case full: False
    show ?thesis
    proof (cases "kw_spiller k")
      case None
      then show ?thesis using full settles_forget [of enc dec "m # ms" k] by simp
    next
      case (Some s)
      obtain ok s' where p: "store_Push enc m s = (ok, s')" by (cases "store_Push enc m s")
      let ?k = "k\<lparr>kw_spiller := Some s'\<rparr>" and ?rest = "if ok then ms else m # ms"
      have "settles enc dec ((if ok then {#m#} else {#}) + mset ?rest) k (?k\<lparr>kw_forgotten := kw_forgotten ?k @ ?rest\<rparr>)"
        by (rule settles_trans [OF settles_stored [OF Some p] settles_forget])
      then show ?thesis using full Some p by (cases ok) simp_all
    qed
  qed
qed simp

lemma settles_take_store:
  assumes "kw_spiller k = Some s" and "store_Drain z dec os_fine s = (out, s')"
    and "settles enc dec (mset out) (k\<lparr>kw_spiller := Some s'\<rparr>) k'"
  shows "settles enc dec {#} k k'"
  unfolding settles_def
proof
  assume fit: "kw_fit enc dec k"
  then have "st_ok enc dec s" using assms(1) by (simp add: kw_fit_def)
  from st.drain_all [OF this assms(2)] fit assms(1)
  have "kw_fit enc dec (k\<lparr>kw_spiller := Some s'\<rparr>)" "kw_books dec k = kw_books dec (k\<lparr>kw_spiller := Some s'\<rparr>) + mset out"
    by (simp_all add: kw_fit_def kw_books_def kw_stored_def ac_simps)
  with assms(3) show "kw_fit enc dec k' \<and> kw_books dec k' = kw_books dec k + {#}" by (simp add: settles_def)
qed

lemma settles_drainSpill: "settles enc dec {#} k (kw_drainSpill z enc dec os_fine k)"
proof (cases "kw_spiller k")
  case (Some s)
  obtain out s' where "store_Drain z dec os_fine s = (out, s')" by (cases "store_Drain z dec os_fine s")
  with settles_take_store [OF Some this settles_reinject] Some show ?thesis by (simp add: kw_drainSpill_def)
qed (simp add: kw_drainSpill_def)

lemma settles_tick: "settles enc dec {#} k (kw_tick z enc dec os_fine now k)"
proof -
  let ?k = "kw_drainSpill z enc dec os_fine k"
  have "settles enc dec {#} ?k (kw_tick z enc dec os_fine now k)"
    by (rule settles_same) (simp_all add: kw_tick_def Let_def)
  from settles_trans [OF settles_drainSpill this] show ?thesis by simp
qed

lemma settles_send_ignoring: "settles enc dec {#m#} k (kw_send_ignoring m k)"
proof -
  obtain err k1 where pc: "producer_call k = (err, k1)" by (cases "producer_call k")
  obtain es where fr: "k1 = k\<lparr>kw_outcomes := es\<rparr>" using producer_call_frame [OF pc] by blast
  show ?thesis by (rule settles_same) (simp_all add: kw_send_ignoring_def pc fr)
qed

lemma settles_drainSpillToProducer: "settles enc dec {#} k (kw_drainSpillToProducer z dec os_fine k)"
proof (cases "kw_spiller k")
  case (Some s)
  obtain out s' where d: "store_Drain z dec os_fine s = (out, s')" by (cases "store_Drain z dec os_fine s")
  have "settles enc dec {#} k (fold kw_send_ignoring out (k\<lparr>kw_spiller := Some s'\<rparr>))"
    by (rule settles_take_store [OF Some d settles_fold]) (rule settles_send_ignoring)
  then show ?thesis using Some d by (simp add: kw_drainSpillToProducer_def)
qed (simp add: kw_drainSpillToProducer_def)

lemma drain_queue:
  assumes "kw_messages k = ms"
  shows "settles enc dec {#} k (kw_drain_queue enc ms k) \<and> kw_messages (kw_drain_queue enc ms k) = []
    \<and> same_shell (k\<lparr>kw_messages := []\<rparr>) (kw_drain_queue enc ms k)"
  using assms
proof (induction ms arbitrary: k)
  case Nil
  then show ?case by (simp add: same_shell_def kw_drain_queue_def)
next
  case (Cons m ms)
  let ?k = "kw_accumulate enc m (k\<lparr>kw_messages := ms\<rparr>)"
  have sh: "same_shell (k\<lparr>kw_messages := ms\<rparr>) ?k" by (rule same_shell_accumulate)
  have m: "kw_messages ?k = ms" using sh by (simp add: same_shell_def)
  note IH = Cons.IH [OF m]
  have "settles enc dec {#} k ?k" by (rule settles_take_message [OF settles_accumulate Cons.prems])
  moreover have "same_shell (k\<lparr>kw_messages := []\<rparr>) (?k\<lparr>kw_messages := []\<rparr>)" using sh by (simp add: same_shell_def)
  ultimately show ?case
    using IH Cons.prems settles_trans [of enc dec "{#}" k ?k "{#}"] same_shell_trans [of "k\<lparr>kw_messages := []\<rparr>" "?k\<lparr>kw_messages := []\<rparr>"]
    by (simp add: kw_drain_queue_def)
qed

lemma drainOnShutdown_spec:
  shows "settles enc dec {#} k (kw_drainOnShutdown enc k)"
    and "same_shell (k\<lparr>kw_messages := []\<rparr>) (kw_drainOnShutdown enc k)"
    and "kw_batchMode k \<Longrightarrow> kw_batch (kw_drainOnShutdown enc k) = []"
proof -
  let ?k = "kw_drain_queue enc (kw_messages k) k"
  note q = drain_queue [OF refl, of enc dec k]
  have e: "kw_drainOnShutdown enc k = kw_flush enc ?k" by (simp add: kw_drainOnShutdown_def)
  show "settles enc dec {#} k (kw_drainOnShutdown enc k)"
    using settles_trans [OF conjunct1 [OF q] settles_flush [of enc dec ?k]] e by simp
  show "same_shell (k\<lparr>kw_messages := []\<rparr>) (kw_drainOnShutdown enc k)"
    using q same_shell_trans same_shell_flush(1) [of ?k enc] e by metis
  show "kw_batch (kw_drainOnShutdown enc k) = []" if "kw_batchMode k"
    using q that e same_shell_flush(2) [of enc ?k] by (simp add: same_shell_def)
qed

lemma settles_shutdown: "settles enc dec {#} k (kw_shutdown z enc dec os_fine k)"
proof -
  let ?k = "kw_drainSpillToProducer z dec os_fine (kw_drainOnShutdown enc k)"
  have 1: "settles enc dec {#} k ?k"
    using settles_trans [OF drainOnShutdown_spec(1) settles_drainSpillToProducer] by simp
  have "settles enc dec {#} ?k (kw_shutdown z enc dec os_fine k)"
    by (rule settles_same) (simp_all add: kw_shutdown_def Let_def)
  from settles_trans [OF 1 this] show ?thesis by simp
qed

lemma settles_do:
  assumes "kw_do z enc dec e k = Some k'"
  shows "settles enc dec (mset (offered [e])) k k'"
proof (cases e)
  case (ESend pick m)
  then show ?thesis using assms settles_send by (simp add: kw_do_def)
next
  case EReceive
  then show ?thesis using assms settles_receive by (simp add: kw_do_def split: if_splits)
next
  case EFlushTimer
  then show ?thesis using assms settles_flush by (auto simp: kw_do_def split: if_splits)
next
  case (ETick now)
  then show ?thesis using assms settles_tick by (auto simp: kw_do_def split: if_splits)
next
  case EAsyncError
  then show ?thesis using assms by (intro settles_same) (auto simp: kw_do_def kw_async_error_def)
next
  case EStop
  then show ?thesis using assms by (intro settles_same) (auto simp: kw_do_def kw_Stop_def)
next
  case EShutdown
  then show ?thesis using assms settles_shutdown by (auto simp: kw_do_def split: if_splits)
qed

lemma offered_Cons: "offered (e # es) = offered [e] @ offered es"
  by (cases e) simp_all

lemma settles_runs: "kw_runs z enc dec es k = Some k' \<Longrightarrow> settles enc dec (mset (offered es)) k k'"
proof (induction es arbitrary: k)
  case (Cons e es)
  then obtain k1 where k1: "kw_do z enc dec e k = Some k1" "kw_runs z enc dec es k1 = Some k'"
    by (auto split: option.splits)
  from settles_trans [OF settles_do [OF k1(1)] Cons.IH [OF k1(2)]] show ?case
    by (subst offered_Cons) (simp add: union_commute)
qed simp

lemma bounded_shell:
  assumes "kw_bounded k" and "same_shell k k'" and "if kw_batchMode k then length (kw_batch k') < kw_batchSize k else kw_batch k' = []"
  shows "kw_bounded k'"
  using assms by (simp add: kw_bounded_def same_shell_def)

lemma bounded_send:
  assumes "kw_bounded k" and "kw_send enc pick m k = Some k'"
  shows "kw_bounded k'"
proof -
  have "kw_bounded (kw_spill_or_drop enc m k)"
    using assms(1) by (auto simp: kw_bounded_def kw_spill_or_drop_def kw_IncDropped_def Let_def split: option.split prod.split)
  moreover have "kw_bounded (kw_IncDropped m k)" using assms(1) by (simp add: kw_bounded_def kw_IncDropped_def)
  moreover have "length (kw_messages k) < kw_cap k \<Longrightarrow> kw_bounded (kw_enqueue m k)"
    using assms(1) by (simp add: kw_bounded_def kw_enqueue_def)
  ultimately show ?thesis using assms(2) by (auto simp: kw_send_def Let_def split: if_splits)
qed

lemma bounded_receive:
  assumes "kw_bounded k" and "kw_receive enc k = Some k'"
  shows "kw_bounded k'"
proof -
  obtain m ms where ms: "kw_messages k = m # ms" using assms(2) by (cases "kw_messages k") (simp_all add: kw_receive_def)
  let ?k = "k\<lparr>kw_messages := ms\<rparr>"
  have b: "kw_bounded ?k" using assms(1) ms by (simp add: kw_bounded_def)
  show ?thesis
  proof (cases "kw_batchMode k")
    case True
    then have e: "k' = kw_accumulate enc m ?k" using assms(2) ms by (simp add: kw_receive_def)
    show ?thesis unfolding e
      by (rule bounded_shell [OF b same_shell_accumulate]) (use True b in \<open>auto simp: batch_accumulate kw_bounded_def\<close>)
  next
    case False
    then have e: "k' = kw_sendOne enc m ?k" using assms(2) ms by (simp add: kw_receive_def)
    show ?thesis unfolding e
      by (rule bounded_shell [OF b same_shell_sendOne(1)]) (use False b in \<open>simp add: same_shell_sendOne(2) kw_bounded_def\<close>)
  qed
qed

lemma bounded_reinject: "kw_bounded k \<Longrightarrow> kw_bounded (kw_reinject enc ms k)"
proof (induction ms arbitrary: k)
  case (Cons m ms)
  then show ?case
    by (auto simp: kw_enqueue_def Let_def split: option.split prod.split) (auto simp: kw_bounded_def)
qed simp

lemma bounded_tick: "kw_bounded k \<Longrightarrow> kw_bounded (kw_tick z enc dec env now k)"
proof -
  assume b: "kw_bounded k"
  have "kw_bounded (k\<lparr>kw_spiller := s\<rparr>)" for s using b by (simp add: kw_bounded_def)
  from bounded_reinject [OF this] b have "kw_bounded (kw_drainSpill z enc dec env k)"
    by (simp add: kw_drainSpill_def split: option.split prod.split)
  then show ?thesis by (simp add: kw_tick_def kw_bounded_def Let_def)
qed

lemma shell_drainSpillToProducer:
  "kw_messages (kw_drainSpillToProducer z dec env k) = kw_messages k" "kw_cap (kw_drainSpillToProducer z dec env k) = kw_cap k"
  "kw_batchMode (kw_drainSpillToProducer z dec env k) = kw_batchMode k" "kw_batchSize (kw_drainSpillToProducer z dec env k) = kw_batchSize k"
  "kw_batch (kw_drainSpillToProducer z dec env k) = kw_batch k"
proof -
  have "kw_messages (fold kw_send_ignoring ms k) = kw_messages k \<and> kw_cap (fold kw_send_ignoring ms k) = kw_cap k
    \<and> kw_batchMode (fold kw_send_ignoring ms k) = kw_batchMode k \<and> kw_batchSize (fold kw_send_ignoring ms k) = kw_batchSize k
    \<and> kw_batch (fold kw_send_ignoring ms k) = kw_batch k" for ms and k :: "'a kw"
    by (induction ms arbitrary: k) (simp_all add: kw_send_ignoring_def producer_call_def split: list.split)
  then show "kw_messages (kw_drainSpillToProducer z dec env k) = kw_messages k" "kw_cap (kw_drainSpillToProducer z dec env k) = kw_cap k"
    "kw_batchMode (kw_drainSpillToProducer z dec env k) = kw_batchMode k" "kw_batchSize (kw_drainSpillToProducer z dec env k) = kw_batchSize k"
    "kw_batch (kw_drainSpillToProducer z dec env k) = kw_batch k"
    by (simp_all add: kw_drainSpillToProducer_def split: option.split prod.split)
qed

lemma bounded_shutdown: "kw_bounded k \<Longrightarrow> kw_bounded (kw_shutdown z enc dec env k)"
  using drainOnShutdown_spec(2) [of k enc]
  by (simp add: kw_shutdown_def kw_bounded_def Let_def shell_drainSpillToProducer same_shell_def)

lemma bounded_do:
  assumes "kw_bounded k" and "kw_do z enc dec e k = Some k'"
  shows "kw_bounded k'"
proof (cases e)
  case EFlushTimer
  then have k': "k' = kw_flush enc k" using assms(2) by (simp add: kw_do_def split: if_splits)
  show ?thesis unfolding k'
    by (rule bounded_shell [OF assms(1) same_shell_flush(1)]) (use assms(1) in \<open>simp add: same_shell_flush(2) kw_bounded_def\<close>)
next
  case EAsyncError
  then show ?thesis using assms by (auto simp: kw_do_def kw_async_error_def kw_bounded_def)
next
  case EStop
  then show ?thesis using assms by (auto simp: kw_do_def kw_Stop_def kw_bounded_def)
qed (use assms bounded_send bounded_receive bounded_tick bounded_shutdown in \<open>auto simp: kw_do_def split: if_splits\<close>)

lemma bounded_runs: "kw_bounded k \<Longrightarrow> kw_runs z enc dec es k = Some k' \<Longrightarrow> kw_bounded k'"
  by (induction es arbitrary: k) (auto split: option.splits dest: bounded_do)

subsection \<open>Where records go missing\<close>

lemma reinject_splits:
  assumes "length (kw_messages k) \<le> kw_cap k" and "kw_spiller k = Some s"
    and "r = kw_cap k - length (kw_messages k)" and "r < length ms" and "store_Push enc (ms ! r) s = (ok, s')"
  shows "kw_reinject enc ms k = k\<lparr>kw_messages := kw_messages k @ take r ms, kw_spiller := Some s',
    kw_forgotten := kw_forgotten k @ (if ok then drop (Suc r) ms else drop r ms)\<rparr>"
  using assms
proof (induction ms arbitrary: k r)
  case (Cons m ms)
  show ?case
  proof (cases r)
    case 0
    with Cons.prems show ?thesis by (cases k) simp
  next
    case (Suc q)
    then have lt: "length (kw_messages k) < kw_cap k" and q: "q = kw_cap k - Suc (length (kw_messages k))" "q < length ms"
      using Cons.prems(3,4) by simp_all
    have p: "store_Push enc (ms ! q) s = (ok, s')" using Cons.prems(5) Suc by simp
    have "kw_reinject enc ms (kw_enqueue m k) = (kw_enqueue m k)\<lparr>kw_messages := kw_messages (kw_enqueue m k) @ take q ms,
        kw_spiller := Some s', kw_forgotten := kw_forgotten (kw_enqueue m k) @ (if ok then drop (Suc q) ms else drop q ms)\<rparr>"
      by (rule Cons.IH [OF _ _ _ _ p]) (use Cons.prems(2) q lt in \<open>simp_all add: kw_enqueue_def\<close>)
    then show ?thesis using Suc lt by (simp add: kw_enqueue_def)
  qed
qed simp

text \<open>Without producer errors the shutdown forgets nothing but what is left in the batch variable.\<close>

lemma send_ignoring_fine:
  assumes "True \<notin> set (kw_outcomes k)"
  shows "kw_forgotten (fold kw_send_ignoring ms k) = kw_forgotten k
    \<and> kw_delivered (fold kw_send_ignoring ms k) = kw_delivered k @ ms
    \<and> kw_spiller (fold kw_send_ignoring ms k) = kw_spiller k \<and> kw_stats (fold kw_send_ignoring ms k) = kw_stats k"
  using assms
proof (induction ms arbitrary: k)
  case (Cons m ms)
  obtain err k1 where pc: "producer_call k = (err, k1)" by (cases "producer_call k")
  obtain es where fr: "k1 = k\<lparr>kw_outcomes := es\<rparr>" "set es \<subseteq> set (kw_outcomes k)" and ne: "\<not> err"
    using producer_call_frame [OF pc] Cons.prems by metis
  have e: "kw_send_ignoring m k = k\<lparr>kw_outcomes := es, kw_delivered := kw_delivered k @ [m]\<rparr>"
    using pc fr(1) ne by (simp add: kw_send_ignoring_def)
  have "True \<notin> set (kw_outcomes (kw_send_ignoring m k))" using fr(2) Cons.prems e by auto
  from Cons.IH [OF this] e show ?case by simp
qed simp

lemma shutdown_fine:
  assumes "True \<notin> set (kw_outcomes k)"
  shows "kw_forgotten (kw_shutdown z enc dec os_fine k) = kw_forgotten k @ kw_batch (kw_drainOnShutdown enc k)"
    and "kw_messages (kw_shutdown z enc dec os_fine k) = []"
proof -
  let ?k = "kw_drainOnShutdown enc k"
  note sh = drainOnShutdown_spec(2) [of k enc, unfolded same_shell_def]
  have "True \<notin> set (kw_outcomes ?k)" using sh assms by auto
  then have "True \<notin> set (kw_outcomes (?k\<lparr>kw_spiller := s\<rparr>))" for s by simp
  from send_ignoring_fine [OF this]
  have "kw_forgotten (kw_drainSpillToProducer z dec os_fine ?k) = kw_forgotten k"
    using sh by (simp add: kw_drainSpillToProducer_def split: option.split prod.split)
  then show "kw_forgotten (kw_shutdown z enc dec os_fine k) = kw_forgotten k @ kw_batch ?k"
    by (simp add: kw_shutdown_def Let_def shell_drainSpillToProducer)
  show "kw_messages (kw_shutdown z enc dec os_fine k) = []"
    using sh by (simp add: kw_shutdown_def Let_def shell_drainSpillToProducer)
qed

lemma batch_drain_queue_plain:
  assumes "\<not> kw_batchMode k" and "kw_messages k = ms"
  shows "kw_batch (kw_drain_queue enc ms k) = kw_batch k @ ms \<and> \<not> kw_batchMode (kw_drain_queue enc ms k)
    \<and> kw_delivered (kw_drain_queue enc ms k) = kw_delivered k \<and> kw_stats (kw_drain_queue enc ms k) = kw_stats k
    \<and> kw_spiller (kw_drain_queue enc ms k) = kw_spiller k"
  using assms
proof (induction ms arbitrary: k)
  case (Cons m ms)
  let ?k = "kw_accumulate enc m (k\<lparr>kw_messages := ms\<rparr>)"
  have "\<not> kw_batchMode ?k" "kw_messages ?k = ms" "kw_batch ?k = kw_batch k @ [m]" "kw_delivered ?k = kw_delivered k"
    "kw_stats ?k = kw_stats k" "kw_spiller ?k = kw_spiller k"
    using Cons.prems(1) by (simp_all add: kw_accumulate_def kw_flush_def Let_def)
  with Cons.IH [of ?k] Cons.prems(2) show ?case by (simp add: kw_drain_queue_def)
qed (simp add: kw_drain_queue_def)

lemma batch_shutdown_plain:
  assumes "\<not> kw_batchMode k"
  shows "kw_batch (kw_drainOnShutdown enc k) = kw_batch k @ kw_messages k"
    and "kw_delivered (kw_drainOnShutdown enc k) = kw_delivered k" "kw_stats (kw_drainOnShutdown enc k) = kw_stats k"
      "kw_spiller (kw_drainOnShutdown enc k) = kw_spiller k"
  using batch_drain_queue_plain [OF assms refl, of enc] by (simp_all add: kw_drainOnShutdown_def kw_flush_def)

lemma shutdown_plain_delivers:
  assumes "kw_fit enc dec k" and "\<not> kw_batchMode k" and "True \<notin> set (kw_outcomes k)"
  shows "kw_delivered (kw_shutdown z enc dec os_fine k) = kw_delivered k @ kw_stored dec k"
    and "kw_stats (kw_shutdown z enc dec os_fine k) = kw_stats k"
proof -
  let ?k = "kw_drainOnShutdown enc k"
  note p = batch_shutdown_plain [OF assms(2), of enc]
  have "True \<notin> set (kw_outcomes ?k)"
    using drainOnShutdown_spec(2) [of k enc] assms(3) by (auto simp: same_shell_def)
  then have "True \<notin> set (kw_outcomes (?k\<lparr>kw_spiller := s\<rparr>))" for s by simp
  note f = send_ignoring_fine [OF this]
  have "kw_delivered (kw_drainSpillToProducer z dec os_fine ?k) = kw_delivered k @ kw_stored dec k
      \<and> kw_stats (kw_drainSpillToProducer z dec os_fine ?k) = kw_stats k"
  proof (cases "kw_spiller k")
    case None
    then show ?thesis using p by (simp add: kw_drainSpillToProducer_def kw_stored_def)
  next
    case (Some s)
    obtain out s' where d: "store_Drain z dec os_fine s = (out, s')" by (cases "store_Drain z dec os_fine s")
    have "st_ok enc dec s" using assms(1) Some by (simp add: kw_fit_def)
    from st.drain_all [OF this d] show ?thesis using p f d Some by (simp add: kw_drainSpillToProducer_def kw_stored_def)
  qed
  then show "kw_delivered (kw_shutdown z enc dec os_fine k) = kw_delivered k @ kw_stored dec k"
    "kw_stats (kw_shutdown z enc dec os_fine k) = kw_stats k"
    by (simp_all add: kw_shutdown_def Let_def)
qed

text \<open>The writer after \<open>Start\<close> on an empty spill directory.\<close>

lemma kw_Start_fresh:
  assumes "kw_Start z enc dec os_fine ty c True mb True d buf (NewKafkaWriter level policy bm bs br outs) = Some k"
    and "ty \<noteq> SpillRing" and "codec_ok enc dec" and "mb < 2 ^ 32" and "dk_log d = None" and "dk_room d = None"
  shows "kw_fit enc dec k" "kw_books dec k = {#}" "kw_bounded k"
proof -
  define k1 :: "'a kw" where "k1 = (NewKafkaWriter level policy bm bs br outs)\<lparr>kw_cap := if buf \<le> 1 then 1024 else nat buf,
    kw_messages := [], kw_stop := False\<rparr>"
  have st: "(if kw_policy k1 \<noteq> OverflowSpill then Some (k1\<lparr>kw_run := True\<rparr>)
      else case start_store z ty c True os_fine mb True d of None \<Rightarrow> None
        | Some s \<Rightarrow> let (out, s') = store_Drain z dec os_fine s
            in Some ((kw_resume enc out (k1\<lparr>kw_spiller := Some s'\<rparr>))\<lparr>kw_run := True\<rparr>)) = Some k"
    using assms(1) unfolding kw_Start_def k1_def Let_def .
  have "k = k1\<lparr>kw_run := True\<rparr> \<or> (\<exists>s. st_ok enc dec s \<and> st_items dec s = [] \<and> k = k1\<lparr>kw_spiller := Some s, kw_run := True\<rparr>)"
  proof (cases "kw_policy k1 = OverflowSpill")
    case False
    then show ?thesis using st by simp
  next
    case True
    obtain s where s: "start_store z ty c True os_fine mb True d = Some s"
      using st True by (cases "start_store z ty c True os_fine mb True d") simp_all
    obtain out s' where dr: "store_Drain z dec os_fine s = (out, s')" by (cases "store_Drain z dec os_fine s")
    have ok: "st_ok enc dec s" "st_items dec s = []" using start_store_ok [OF s assms(2-6)] by simp_all
    have "out = []" "st_ok enc dec s'" "st_items dec s' = []" using st.drain_all [OF ok(1) dr] ok(2) by simp_all
    moreover have "k = k1\<lparr>kw_spiller := Some s', kw_run := True\<rparr>" using st True s dr \<open>out = []\<close> by simp
    ultimately show ?thesis by blast
  qed
  moreover have "kw_fit enc dec k1 \<and> kw_books dec k1 = {#} \<and> kw_bounded k1 \<and> kw_stored dec k1 = []"
    by (simp add: k1_def kw_fit_def kw_books_def kw_bounded_def kw_stored_def NewKafkaWriter_def)
  ultimately show "kw_fit enc dec k" "kw_books dec k = {#}" "kw_bounded k"
    by (auto simp: kw_fit_def kw_books_def kw_bounded_def kw_stored_def)
qed

subsection \<open>Properties\<close>



text \<open>
  At shutdown, with a producer that reports no error: in batch mode nothing is forgotten, while in
  the per-record mode (the default) every record still in the queue is forgotten.  There the function
  \<open>flush\<close> is empty, so \<open>drainOnShutdown\<close> moves the queue into a batch nobody sends, and neither the drop
  counter nor the error counter shows it; only the spill store reaches the producer.
\<close>
lemma kafka_shutdown_outcome:
  assumes "kw_fit enc dec k" and "kw_bounded k" and "True \<notin> set (kw_outcomes k)"
    and "kw_do z enc dec EShutdown k = Some k'"
  shows "if kw_batchMode k then kw_forgotten k' = kw_forgotten k \<and> kw_messages k' = [] \<and> kw_batch k' = []
    else kw_forgotten k' = kw_forgotten k @ kw_messages k \<and> kw_delivered k' = kw_delivered k @ kw_stored dec k
      \<and> kw_stats k' = kw_stats k"
proof -
  have k': "k' = kw_shutdown z enc dec os_fine k" using assms(4) by (simp add: kw_do_def split: if_splits)
  note sh = shutdown_fine [OF assms(3), of z enc dec]
  show ?thesis
  proof (cases "kw_batchMode k")
    case True
    then show ?thesis using sh drainOnShutdown_spec(3) [OF True, of enc] by (simp add: k') (simp add: kw_shutdown_def Let_def)
  next
    case False
    moreover have "kw_batch k = []" using assms(2) False by (simp add: kw_bounded_def)
    ultimately show ?thesis
      using sh batch_shutdown_plain(1) [OF False, of enc] shutdown_plain_delivers [OF assms(1) False assms(3), of z]
      by (simp add: k')
  qed
qed



end
