(* ===== verification/Log_Record.thy ===== *)
theory Log_Record
  imports Strconv "HOL-Library.Word"
begin

section \<open>Log records and their renderings\<close>

text \<open>
  Models \<open>src/log4go/field.go\<close>, \<open>logfmt.go\<close>, the renderings of \<open>Record\<close> in \<open>log.go\<close> and the Kafka payload
  in \<open>kafka_writer.go\<close>.  A field is its key with the unboxed value of its kind.  The shortest decimal form
  of a float and the civil date of a day are the standard library's and are arguments (\<open>render_env\<close>); the
  answer of the JSON codec for a value of any type, and the text of an error, are part of the field,
  \<open>None\<close> standing for an error or a recovered panic.  The lemmas show that the escaping loop that copies
  clean runs is the byte-wise escaping, that a reader of JSON strings gets every string back, and that a
  rendered record is one line whatever its message, keys and values hold.
\<close>

definition quote :: char where "quote = CHR 0x22"
definition bslash :: char where "bslash = CHR 0x5C"
definition nl :: char where "nl = CHR 0x0A"

lemmas char_defs = quote_def bslash_def nl_def

datatype field_value =
    FString string
  | FInt int
  | FInt64 int
  | FUint "64 word"
  | FFloat64 "64 word"
  | FBool bool
  | FDuration int
  | FTime int
  | FError "string option"
  | FBytes string
  | FAny "string option"

record field =
  fd_key :: string
  fd_val :: field_value

record render_env =
  fmt_float :: "64 word \<Rightarrow> string"
  civil_date :: "int \<Rightarrow> nat \<times> nat \<times> nat"

subsection \<open>Escaping\<close>

definition hexDigit :: "nat \<Rightarrow> char" where
  "hexDigit n = ''0123456789abcdef'' ! n"

definition json_clean :: "char \<Rightarrow> bool" where
  "json_clean c \<longleftrightarrow> 0x20 \<le> byte c \<and> c \<noteq> quote \<and> c \<noteq> bslash"

definition json_escape :: "char \<Rightarrow> string" where
  "json_escape c =
    (if c = quote \<or> c = bslash then [bslash, c]
     else if c = nl then [bslash, CHR ''n'']
     else if c = CHR 0x0D then [bslash, CHR ''r'']
     else if c = CHR 0x09 then [bslash, CHR ''t'']
     else if c = CHR 0x08 then [bslash, CHR ''b'']
     else if c = CHR 0x0C then [bslash, CHR ''f'']
     else [bslash, CHR ''u'', CHR ''0'', CHR ''0'', hexDigit (byte c div 16), hexDigit (byte c mod 16)])"

text \<open>The loop of \<open>appendJSONStringContent\<close>: \<open>start\<close> is the first byte of the clean run not yet copied.\<close>

function json_content_loop :: "string \<Rightarrow> nat \<Rightarrow> nat \<Rightarrow> string \<Rightarrow> string" where
  "json_content_loop s i start buf =
    (if i < length s
     then let c = s ! i
          in if json_clean c then json_content_loop s (i + 1) start buf
             else let buf1 = (if start < i then buf @ take (i - start) (drop start s) else buf)
                  in json_content_loop s (i + 1) (i + 1) (buf1 @ json_escape c)
     else if start < length s then buf @ drop start s else buf)"
  by pat_completeness auto
termination
  by (relation "measure (\<lambda>(s, i, start, buf). length s - i)") auto

declare json_content_loop.simps [simp del]

definition appendJSONStringContent :: "string \<Rightarrow> string \<Rightarrow> string" where
  "appendJSONStringContent buf s = json_content_loop s 0 0 buf"

definition appendJSONQuoted :: "string \<Rightarrow> string \<Rightarrow> string" where
  "appendJSONQuoted buf s = appendJSONStringContent (buf @ [quote]) s @ [quote]"

definition logfmt_special :: "char \<Rightarrow> bool" where
  "logfmt_special c \<longleftrightarrow> byte c \<le> 0x20 \<or> c = CHR ''='' \<or> c = quote \<or> c = bslash \<or> 0x7e < byte c"

definition logfmt_escape :: "char \<Rightarrow> string" where
  "logfmt_escape c =
    (if c = quote \<or> c = bslash then [bslash, c]
     else if c = nl then [bslash, CHR ''n'']
     else if c = CHR 0x0D then [bslash, CHR ''r'']
     else if c = CHR 0x09 then [bslash, CHR ''t'']
     else if byte c < 0x20 then [bslash, CHR ''x'', hexDigit (byte c div 16), hexDigit (byte c mod 16)]
     else [c])"

definition appendLogfmtValue :: "string \<Rightarrow> string \<Rightarrow> string" where
  "appendLogfmtValue buf s =
    (if s = [] \<or> list_ex logfmt_special s
     then buf @ [quote] @ concat (map logfmt_escape s) @ [quote]
     else buf @ s)"

subsection \<open>Times and fields\<close>

definition append2d :: "string \<Rightarrow> nat \<Rightarrow> string" where
  "append2d buf v = buf @ [char_of (48 + v div 10), char_of (48 + v mod 10)]"

definition append4d :: "string \<Rightarrow> nat \<Rightarrow> string" where
  "append4d buf v = buf @ [char_of (48 + v div 1000), char_of (48 + (v div 100) mod 10),
    char_of (48 + (v div 10) mod 10), char_of (48 + v mod 10)]"

definition append6d :: "string \<Rightarrow> nat \<Rightarrow> string" where
  "append6d buf v = buf @ [char_of (48 + (v div 100000) mod 10), char_of (48 + (v div 10000) mod 10),
    char_of (48 + (v div 1000) mod 10), char_of (48 + (v div 100) mod 10),
    char_of (48 + (v div 10) mod 10), char_of (48 + v mod 10)]"

text \<open>
  \<open>time.Unix(unixNano/1e9, unixNano%1e9).UTC()\<close> splits the instant into whole seconds and a non-negative
  rest, for negative instants too.
\<close>

definition appendISOTimeUTC :: "render_env \<Rightarrow> string \<Rightarrow> int \<Rightarrow> string" where
  "appendISOTimeUTC env buf unixNano =
    (let secs = unixNano div 10 ^ 9; nsec = nat (unixNano mod 10 ^ 9);
         (year, month, day) = civil_date env (secs div 86400);
         clock = nat (secs mod 86400);
         buf1 = append4d buf year @ ''-'';
         buf2 = append2d buf1 month @ ''-'';
         buf3 = append2d buf2 day @ ''T'';
         buf4 = append2d buf3 (clock div 3600) @ '':'';
         buf5 = append2d buf4 (clock mod 3600 div 60) @ '':'';
         buf6 = append2d buf5 (clock mod 60) @ ''.''
     in append6d buf6 (nsec div 1000) @ ''Z'')"

definition floatExpMask :: "64 word" where
  "floatExpMask = 0x7FF0000000000000"

definition AppendBool :: "bool \<Rightarrow> string" where
  "AppendBool b = (if b then ''true'' else ''false'')"

definition field_value_json :: "render_env \<Rightarrow> string \<Rightarrow> field_value \<Rightarrow> string" where
  "field_value_json env buf v =
    (case v of
       FString s \<Rightarrow> appendJSONQuoted buf s
     | FInt i \<Rightarrow> buf @ Itoa i
     | FInt64 i \<Rightarrow> buf @ Itoa i
     | FUint u \<Rightarrow> buf @ itoa_nat (unat u)
     | FBool b \<Rightarrow> buf @ AppendBool b
     | FFloat64 w \<Rightarrow> if and w floatExpMask = floatExpMask then buf @ ''null'' else buf @ fmt_float env w
     | FDuration i \<Rightarrow> buf @ Itoa i
     | FTime i \<Rightarrow> appendISOTimeUTC env (buf @ [quote]) i @ [quote]
     | FBytes s \<Rightarrow> appendJSONQuoted buf s
     | FError e \<Rightarrow> (case e of Some s \<Rightarrow> appendJSONQuoted buf s | None \<Rightarrow> buf @ ''null'')
     | FAny a \<Rightarrow> (case a of Some vb \<Rightarrow> buf @ vb | None \<Rightarrow> buf @ ''null''))"

definition appendFieldJSON :: "render_env \<Rightarrow> string \<Rightarrow> field \<Rightarrow> string" where
  "appendFieldJSON env buf f =
    field_value_json env (appendJSONStringContent (buf @ [quote]) (fd_key f) @ [quote] @ '':'') (fd_val f)"

fun fields_json_loop :: "render_env \<Rightarrow> bool \<Rightarrow> field list \<Rightarrow> string \<Rightarrow> string" where
  "fields_json_loop env first [] buf = buf"
| "fields_json_loop env first (f # fs) buf =
    fields_json_loop env False fs (appendFieldJSON env (if first then buf else buf @ '','') f)"

definition appendFieldsJSONObject :: "render_env \<Rightarrow> string \<Rightarrow> field list \<Rightarrow> string" where
  "appendFieldsJSONObject env buf fs = fields_json_loop env True fs (buf @ ''{'') @ ''}''"

definition appendFieldLogfmt :: "render_env \<Rightarrow> string \<Rightarrow> field \<Rightarrow> string" where
  "appendFieldLogfmt env buf f =
    (let buf1 = appendLogfmtValue (buf @ '' '') (fd_key f) @ ''=''
     in case fd_val f of
       FString s \<Rightarrow> appendLogfmtValue buf1 s
     | FInt i \<Rightarrow> buf1 @ Itoa i
     | FInt64 i \<Rightarrow> buf1 @ Itoa i
     | FUint u \<Rightarrow> buf1 @ itoa_nat (unat u)
     | FBool b \<Rightarrow> buf1 @ AppendBool b
     | FFloat64 w \<Rightarrow> if and w floatExpMask = floatExpMask then buf1 @ ''-'' else buf1 @ fmt_float env w
     | FDuration i \<Rightarrow> buf1 @ Itoa i
     | FTime i \<Rightarrow> appendISOTimeUTC env buf1 i
     | FBytes s \<Rightarrow> appendLogfmtValue buf1 s
     | FError e \<Rightarrow> (case e of Some s \<Rightarrow> appendLogfmtValue buf1 s | None \<Rightarrow> buf1 @ ''-'')
     | FAny a \<Rightarrow> (case a of Some vb \<Rightarrow> appendLogfmtValue buf1 vb | None \<Rightarrow> buf1 @ ''-''))"

subsection \<open>Records\<close>

definition LevelFlags :: "string list" where
  "LevelFlags = [''EMERGENCY'', ''ALERT'', ''CRITICAL'', ''ERROR'', ''WARNING'', ''NOTICE'', ''INFO'', ''DEBUG'', ''TRACE'']"

text \<open>\<open>r_level\<close> indexes \<open>LevelFlags\<close>; the log methods only pass the nine level constants.\<close>

record log_record =
  r_level :: nat
  r_time :: string
  r_file :: string
  r_msg :: string
  r_unixNano :: int
  r_seq :: "64 word"
  r_fields :: "field list"

definition FieldsJSON :: "render_env \<Rightarrow> log_record \<Rightarrow> string" where
  "FieldsJSON env r = (if r_fields r = [] then [] else appendFieldsJSONObject env [] (r_fields r))"

definition record_JSON :: "render_env \<Rightarrow> log_record \<Rightarrow> string" where
  "record_JSON env r =
    (let b0 = [CHR 0x7B, quote] @ ''unix_nano'' @ [quote] @ '':'' @ Itoa (r_unixNano r);
         b1 = b0 @ '','' @ [quote] @ ''seq'' @ [quote] @ '':'' @ itoa_nat (unat (r_seq r));
         b2 = appendISOTimeUTC env (b1 @ '','' @ [quote] @ ''time'' @ [quote] @ '':'' @ [quote]) (r_unixNano r) @ [quote];
         b3 = appendJSONQuoted (b2 @ '','' @ [quote] @ ''level'' @ [quote] @ '':'') (LevelFlags ! r_level r);
         b4 = appendJSONQuoted (b3 @ '','' @ [quote] @ ''msg'' @ [quote] @ '':'') (r_msg r);
         b5 = (if r_file r \<noteq> [] then appendJSONQuoted (b4 @ '','' @ [quote] @ ''file'' @ [quote] @ '':'') (r_file r) else b4);
         b6 = (if r_fields r \<noteq> [] then appendFieldsJSONObject env (b5 @ '','' @ [quote] @ ''fields'' @ [quote] @ '':'') (r_fields r) else b5)
     in b6 @ [CHR 0x7D, nl])"

definition record_Logfmt :: "render_env \<Rightarrow> log_record \<Rightarrow> string" where
  "record_Logfmt env r =
    (let b1 = appendISOTimeUTC env ''time='' (r_unixNano r);
         b2 = appendLogfmtValue (b1 @ '' level='') (LevelFlags ! r_level r);
         b3 = appendLogfmtValue (b2 @ '' msg='') (r_msg r);
         b4 = (if r_file r \<noteq> [] then appendLogfmtValue (b3 @ '' file='') (r_file r) else b3)
     in fold (\<lambda>f b. appendFieldLogfmt env b f) (r_fields r) b4 @ [nl])"

definition record_String :: "render_env \<Rightarrow> log_record \<Rightarrow> string" where
  "record_String env r =
    (let fj = FieldsJSON env r
     in ''#'' @ itoa_nat (unat (r_seq r)) @ '' '' @ r_time r @ '' ['' @ LevelFlags ! r_level r @ ''] <'' @ r_file r @ ''> ''
        @ r_msg r @ (if fj \<noteq> [] then '' '' @ fj else []) @ [nl])"

definition FieldValue :: "string \<Rightarrow> log_record \<Rightarrow> field_value option" where
  "FieldValue key r = map_option fd_val (find (\<lambda>f. fd_key f = key) (r_fields r))"

subsection \<open>The Kafka payload\<close>

record kafka_payload =
  kp_UnixNano :: int
  kp_Seq :: "64 word"
  kp_Level :: string
  kp_File :: string
  kp_Message :: string
  kp_ServerIP :: string
  kp_Now :: int
  kp_ESIndex :: string
  kp_userFields :: "field list"

definition kafkaReservedKey :: "string \<Rightarrow> bool" where
  "kafkaReservedKey k \<longleftrightarrow> k \<in> set [''unix_nano'', ''seq'', ''level'', ''file'', ''message'', ''timestamp'', ''now'']"

definition appendRoutingField :: "render_env \<Rightarrow> string \<Rightarrow> string \<Rightarrow> field list \<Rightarrow> string \<Rightarrow> string" where
  "appendRoutingField env buf key fs fallback =
    (case find (\<lambda>f. fd_key f = key) fs of
       Some f \<Rightarrow> appendFieldJSON env (buf @ '','') f
     | None \<Rightarrow> if fallback \<noteq> [] then appendJSONQuoted (buf @ '','' @ [quote] @ key @ [quote] @ '':'') fallback else buf)"

definition payload_user_field :: "render_env \<Rightarrow> field \<Rightarrow> string \<Rightarrow> string" where
  "payload_user_field env f buf =
    (if kafkaReservedKey (fd_key f) \<or> fd_key f = ''server_ip'' \<or> fd_key f = ''es_index'' then buf
     else appendFieldJSON env (buf @ '','') f)"

definition payload_MarshalJSON :: "render_env \<Rightarrow> kafka_payload \<Rightarrow> string" where
  "payload_MarshalJSON env p =
    (let b0 = [CHR 0x7B, quote] @ ''unix_nano'' @ [quote] @ '':'' @ Itoa (kp_UnixNano p);
         b1 = b0 @ '','' @ [quote] @ ''seq'' @ [quote] @ '':'' @ itoa_nat (unat (kp_Seq p));
         b2 = appendJSONQuoted (b1 @ '','' @ [quote] @ ''level'' @ [quote] @ '':'') (kp_Level p);
         b3 = (if kp_File p \<noteq> [] then appendJSONQuoted (b2 @ '','' @ [quote] @ ''file'' @ [quote] @ '':'') (kp_File p) else b2);
         b4 = appendJSONQuoted (b3 @ '','' @ [quote] @ ''message'' @ [quote] @ '':'') (kp_Message p);
         b5 = appendISOTimeUTC env (b4 @ '','' @ [quote] @ ''timestamp'' @ [quote] @ '':'' @ [quote]) (kp_UnixNano p) @ [quote];
         b6 = b5 @ '','' @ [quote] @ ''now'' @ [quote] @ '':'' @ Itoa (kp_Now p);
         b7 = appendRoutingField env b6 ''server_ip'' (kp_userFields p) (kp_ServerIP p);
         b8 = appendRoutingField env b7 ''es_index'' (kp_userFields p) (kp_ESIndex p)
     in fold (payload_user_field env) (kp_userFields p) b8 @ [CHR 0x7D])"

text \<open>
  The fields of a payload: the record's, the writer's \<open>ExtraFields\<close> (a map, here the list of its entries in
  the order of the iteration), or both without repeated keys.
\<close>

fun dedup_fields :: "string list \<Rightarrow> field list \<Rightarrow> field list" where
  "dedup_fields seen [] = []"
| "dedup_fields seen (f # fs) =
    (if fd_key f \<in> set seen then dedup_fields seen fs else f # dedup_fields (fd_key f # seen) fs)"

definition payload_fields :: "field list \<Rightarrow> field list \<Rightarrow> field list" where
  "payload_fields rf ef =
    (if rf \<noteq> [] \<and> ef = [] then rf
     else if rf = [] \<and> ef \<noteq> [] then ef
     else if rf \<noteq> [] then dedup_fields [] (rf @ ef)
     else [])"

definition buildPayload :: "string \<Rightarrow> string \<Rightarrow> field list \<Rightarrow> log_record \<Rightarrow> kafka_payload" where
  "buildPayload serverIP esIndex extra r =
    \<lparr>kp_UnixNano = r_unixNano r, kp_Seq = r_seq r, kp_Level = LevelFlags ! r_level r, kp_File = r_file r, kp_Message = r_msg r,
     kp_ServerIP = serverIP, kp_Now = quo64 (r_unixNano r) (10 ^ 9), kp_ESIndex = esIndex,
     kp_userFields = payload_fields (r_fields r) extra\<rparr>"

subsection \<open>The escaping loop is byte-wise escaping\<close>

definition json_byte :: "char \<Rightarrow> string" where
  "json_byte c = (if json_clean c then [c] else json_escape c)"

lemma concat_clean: "list_all json_clean s \<Longrightarrow> concat (map json_byte s) = s"
  by (induction s) (simp_all add: json_byte_def)

lemma json_content_loop_spec:
  assumes "start \<le> i" and "i \<le> length s" and "list_all json_clean (take (i - start) (drop start s))"
  shows "json_content_loop s i start buf = buf @ concat (map json_byte (drop start s))"
  using assms
proof (induction s i start buf rule: json_content_loop.induct)
  case (1 s i start buf)
  let ?run = "take (i - start) (drop start s)"
  have split: "drop start s = ?run @ drop i s" using "1.prems"(1) by (metis append_take_drop_id drop_drop le_add_diff_inverse2)
  show ?case
  proof (cases "i < length s")
    case False
    then have "drop start s = ?run" using "1.prems"(2) split by simp
    moreover have "concat (map json_byte ?run) = ?run" by (rule concat_clean [OF "1.prems"(3)])
    ultimately show ?thesis using False
      by (simp add: json_content_loop.simps [of s i])
  next
    case True
    have d: "drop i s = s ! i # drop (i + 1) s" using True by (simp add: Cons_nth_drop_Suc)
    have step: "take (i + 1 - start) (drop start s) = ?run @ [s ! i]"
      using True "1.prems"(1) by (simp add: Suc_diff_le take_Suc_conv_app_nth)
    show ?thesis
    proof (cases "json_clean (s ! i)")
      case clean: True
      have "json_content_loop s (i + 1) start buf = buf @ concat (map json_byte (drop start s))"
        by (rule "1.IH"(1) [OF True refl clean]) (use "1.prems" True step clean in auto)
      then show ?thesis using True clean by (simp add: json_content_loop.simps [of s i start])
    next
      case dirty: False
      let ?buf = "(if start < i then buf @ ?run else buf)"
      have "json_content_loop s (i + 1) (i + 1) (?buf @ json_escape (s ! i))
          = (?buf @ json_escape (s ! i)) @ concat (map json_byte (drop (i + 1) s))"
        by (rule "1.IH"(2) [OF True refl dirty refl]) (use True in simp_all)
      moreover have "?buf = buf @ ?run" using "1.prems"(1) by auto
      moreover have "concat (map json_byte (drop start s)) = ?run @ json_escape (s ! i) @ concat (map json_byte (drop (i + 1) s))"
      proof -
        have "concat (map json_byte (drop start s)) = concat (map json_byte (?run @ s ! i # drop (i + 1) s))"
          using split d by metis
        then show ?thesis using concat_clean [OF "1.prems"(3)] dirty by (simp add: json_byte_def)
      qed
      ultimately show ?thesis using True dirty by (simp add: json_content_loop.simps [of s i start])
    qed
  qed
qed

lemma appendJSONStringContent_eq: "appendJSONStringContent buf s = buf @ concat (map json_byte s)"
  using json_content_loop_spec [of 0 0 s buf] by (simp add: appendJSONStringContent_def)

lemma appendJSONQuoted_eq: "appendJSONQuoted buf s = buf @ [quote] @ concat (map json_byte s) @ [quote]"
  by (simp add: appendJSONQuoted_def appendJSONStringContent_eq)

subsection \<open>Reading a JSON string back\<close>

text \<open>
  The body of a JSON string up to its closing quote, by the grammar of RFC 8259: the two-character
  escapes, and \<open>\u\<close> with four hexadecimal digits, here for the code points below 128.
\<close>

definition hex_val :: "char \<Rightarrow> nat option" where
  "hex_val c = (if is_digit c then Some (byte c - 48)
    else if 97 \<le> byte c \<and> byte c \<le> 102 then Some (byte c - 87)
    else if 65 \<le> byte c \<and> byte c \<le> 70 then Some (byte c - 55) else None)"

definition short_escape :: "char \<Rightarrow> char option" where
  "short_escape c = map_of [(quote, quote), (bslash, bslash), (CHR ''/'', CHR ''/''), (CHR ''n'', nl),
    (CHR ''r'', CHR 0x0D), (CHR ''t'', CHR 0x09), (CHR ''b'', CHR 0x08), (CHR ''f'', CHR 0x0C)] c"

definition hex4 :: "string \<Rightarrow> nat option" where
  "hex4 s = (if length s < 4 then None
    else case map hex_val (take 4 s) of
      [Some a, Some b, Some c, Some d] \<Rightarrow> Some (a * 4096 + b * 256 + c * 16 + d) | _ \<Rightarrow> None)"

function json_read :: "string \<Rightarrow> (string \<times> string) option" where
  "json_read [] = None"
| "json_read (c # cs) =
    (if c = quote then Some ([], cs)
     else if c = bslash
     then case cs of [] \<Rightarrow> None
       | e # ds \<Rightarrow>
           if e = CHR ''u''
           then case hex4 ds of
                  Some n \<Rightarrow> if n < 128 then map_option (\<lambda>(s, rest). (char_of n # s, rest)) (json_read (drop 4 ds)) else None
                | None \<Rightarrow> None
           else case short_escape e of
                  Some x \<Rightarrow> map_option (\<lambda>(s, rest). (x # s, rest)) (json_read ds)
                | None \<Rightarrow> None
     else if byte c < 0x20 then None
     else map_option (\<lambda>(s, rest). (c # s, rest)) (json_read cs))"
  by pat_completeness auto
termination
  by (relation "measure length") auto

declare json_read.simps [simp del]

lemma hex_val_hexDigit: "n < 16 \<Longrightarrow> hex_val (hexDigit n) = Some n"
proof -
  have "list_all (\<lambda>n. hex_val (hexDigit n) = Some n) [0..<16]" by code_simp
  then show "n < 16 \<Longrightarrow> ?thesis" by (simp add: list_all_iff)
qed

lemma char_of_byte: "char_of (byte c) = c"
  by (simp add: byte_def)

lemma json_read_bslash:
  "json_read (bslash # e # ds) =
    (if e = CHR ''u''
     then case hex4 ds of
            Some n \<Rightarrow> if n < 128 then map_option (\<lambda>(s, rest). (char_of n # s, rest)) (json_read (drop 4 ds)) else None
          | None \<Rightarrow> None
     else case short_escape e of
            Some x \<Rightarrow> map_option (\<lambda>(s, rest). (x # s, rest)) (json_read ds)
          | None \<Rightarrow> None)"
  by (subst json_read.simps(2)) (simp add: char_defs)

lemma json_read_byte: "json_read (json_byte c @ cs) = map_option (\<lambda>(s, rest). (c # s, rest)) (json_read cs)"
proof (cases "json_clean c")
  case True
  then show ?thesis by (simp add: json_byte_def json_clean_def json_read.simps(2) [of c])
next
  case False
  have short: ?thesis if "json_byte c = [bslash, e]" "short_escape e = Some c" "e \<noteq> CHR ''u''" for e
    using that by (simp add: json_read_bslash)
  note defs = json_byte_def json_escape_def json_clean_def short_escape_def char_defs byte_def
  consider "c = quote" | "c = bslash" | "c = nl" | "c = CHR 0x0D" | "c = CHR 0x09" | "c = CHR 0x08" | "c = CHR 0x0C"
    | (ctrl) "byte c < 0x20" "c \<notin> {quote, bslash, nl, CHR 0x0D, CHR 0x09, CHR 0x08, CHR 0x0C}"
    using False linorder_not_le [of "0x20" "byte c"] unfolding json_clean_def by blast
  then show ?thesis
  proof cases
    case ctrl
    then have e: "json_byte c = [bslash, CHR ''u'', CHR ''0'', CHR ''0'', hexDigit (byte c div 16), hexDigit (byte c mod 16)]"
      using False by (simp add: json_byte_def json_escape_def)
    have "byte c div 16 < 16" "byte c mod 16 < 16" using ctrl(1) by simp_all
    moreover have "hex_val (CHR ''0'') = Some 0" by (simp add: hex_val_def is_digit_def byte_def)
    ultimately have "hex4 ([CHR ''0'', CHR ''0'', hexDigit (byte c div 16), hexDigit (byte c mod 16)] @ cs) = Some (byte c)"
      by (simp add: hex4_def hex_val_hexDigit)
    then show ?thesis
      using ctrl(1) unfolding e by (simp add: json_read_bslash char_of_byte)
  next
    case 1
    then show ?thesis by (intro short [of quote]) (simp_all add: defs)
  next
    case 2
    then show ?thesis by (intro short [of bslash]) (simp_all add: defs)
  next
    case 3
    then show ?thesis by (intro short [of "CHR ''n''"]) (simp_all add: defs)
  next
    case 4
    then show ?thesis by (intro short [of "CHR ''r''"]) (simp_all add: defs)
  next
    case 5
    then show ?thesis by (intro short [of "CHR ''t''"]) (simp_all add: defs)
  next
    case 6
    then show ?thesis by (intro short [of "CHR ''b''"]) (simp_all add: defs)
  next
    case 7
    then show ?thesis by (intro short [of "CHR ''f''"]) (simp_all add: defs)
  qed
qed

lemma json_read_content: "json_read (concat (map json_byte s) @ [quote] @ rest) = Some (s, rest)"
proof (induction s)
  case Nil
  then show ?case by (simp add: json_read.simps(2))
next
  case (Cons c s)
  then show ?case using json_read_byte [of c "concat (map json_byte s) @ [quote] @ rest"] by simp
qed

subsection \<open>One record, one line\<close>

definition printable :: "string \<Rightarrow> bool" where
  "printable s \<longleftrightarrow> list_all (\<lambda>c. 0x20 \<le> byte c) s"

lemma printable_simps [simp]:
  "printable []" "printable (c # s) \<longleftrightarrow> 0x20 \<le> byte c \<and> printable s" "printable (s @ t) \<longleftrightarrow> printable s \<and> printable t"
  by (simp_all add: printable_def)

lemma printable_concat: "(\<And>c. c \<in> set s \<Longrightarrow> printable (f c)) \<Longrightarrow> printable (concat (map f s))"
  by (induction s) simp_all

lemma printable_no_newline: "printable s \<Longrightarrow> nl \<notin> set s"
  by (auto simp: printable_def list_all_iff nl_def byte_def)

lemma byte_literals [simp]: "0x20 \<le> byte quote" "0x20 \<le> byte bslash"
  by (simp_all add: char_defs byte_def)

lemma hexDigit_printable: "n < 16 \<Longrightarrow> 0x20 \<le> byte (hexDigit n)"
proof -
  have "list_all (\<lambda>n. 0x20 \<le> byte (hexDigit n)) [0..<16]" by code_simp
  then show "n < 16 \<Longrightarrow> ?thesis" by (simp add: list_all_iff)
qed

lemma byte_range: "byte c < 256"
  by (simp add: byte_def)

lemma byte_nibbles [simp]: "byte c div 16 < 16" "byte c mod 16 < 16"
  using byte_range [of c] by (simp_all add: less_mult_imp_div_less)

lemma printable_json_byte: "printable (json_byte c)"
  by (auto simp: json_byte_def json_escape_def json_clean_def hexDigit_printable) (simp_all add: byte_def)

lemma printable_logfmt_escape: "printable (logfmt_escape c)"
  by (auto simp: logfmt_escape_def hexDigit_printable) (simp_all add: byte_def)

lemma printable_appendJSONQuoted [simp]: "printable (appendJSONQuoted buf s) \<longleftrightarrow> printable buf"
  by (auto simp: appendJSONQuoted_eq intro!: printable_concat printable_json_byte)

lemma printable_appendLogfmtValue [simp]: "printable (appendLogfmtValue buf s) \<longleftrightarrow> printable buf"
proof -
  have "printable (concat (map logfmt_escape s))" by (rule printable_concat) (rule printable_logfmt_escape)
  moreover have "printable s" if "\<not> list_ex logfmt_special s"
    using that by (induction s) (simp_all add: logfmt_special_def)
  ultimately show ?thesis by (simp add: appendLogfmtValue_def)
qed

lemma printable_itoa [simp]: "printable (itoa_nat n)"
proof -
  have "list_all is_digit (itoa_nat n)" by (rule itoa_nat_props [THEN conjunct1])
  then show ?thesis unfolding printable_def by (rule list.pred_mono_strong) (simp add: is_digit_def)
qed

lemma printable_Itoa [simp]: "printable (Itoa i)"
  by (simp add: Itoa_def byte_def)

definition env_ok :: "render_env \<Rightarrow> bool" where
  "env_ok env \<longleftrightarrow> (\<forall>w. printable (fmt_float env w))
    \<and> (\<forall>day. case civil_date env day of (y, m, d) \<Rightarrow> y < 10000 \<and> m < 100 \<and> d < 100)"

lemma printable_decimal:
  "v < 100 \<Longrightarrow> printable (append2d buf v) \<longleftrightarrow> printable buf"
  "v < 10000 \<Longrightarrow> printable (append4d buf v) \<longleftrightarrow> printable buf"
  "printable (append6d buf v) \<longleftrightarrow> printable buf"
proof -
  have d: "0x20 \<le> byte (char_of (48 + n))" if "n < 100" for n :: nat using that by (simp add: byte_char_of)
  have m: "0x20 \<le> byte (char_of (48 + n mod 10))" for n :: nat
    using d [of "n mod 10"] mod_less_divisor [of 10 n] by linarith
  show "v < 100 \<Longrightarrow> printable (append2d buf v) \<longleftrightarrow> printable buf"
    using d [of "v div 10"] m by (simp add: append2d_def)
  show "v < 10000 \<Longrightarrow> printable (append4d buf v) \<longleftrightarrow> printable buf"
    using d [of "v div 1000"] m by (simp add: append4d_def)
  show "printable (append6d buf v) \<longleftrightarrow> printable buf" using m by (simp add: append6d_def)
qed

lemma printable_ISO:
  assumes "env_ok env"
  shows "printable (appendISOTimeUTC env buf t) \<longleftrightarrow> printable buf"
proof -
  obtain y m d where c: "civil_date env (t div 1000000000 div 86400) = (y, m, d)"
    by (cases "civil_date env (t div 1000000000 div 86400)") auto
  then have r: "y < 10000" "m < 100" "d < 100"
    using assms by (auto simp: env_ok_def split: prod.splits)
  define k where "k = nat (t div 1000000000 mod 86400)"
  have "t div 1000000000 mod 86400 < 86400" by (rule pos_mod_bound) simp
  then have "k < 86400" unfolding k_def by linarith
  then have "k div 3600 < 100" "k mod 3600 div 60 < 100" "k mod 60 < 100" by simp_all
  then show ?thesis using r
    by (simp add: appendISOTimeUTC_def Let_def c k_def [symmetric] printable_decimal byte_def)
qed

text \<open>The codec's text for a value of any type is compact JSON, which has no control bytes.\<close>

definition field_ok :: "field \<Rightarrow> bool" where
  "field_ok f \<longleftrightarrow> (case fd_val f of FAny (Some vb) \<Rightarrow> printable vb | _ \<Rightarrow> True)"

lemma printable_content [simp]: "printable (appendJSONStringContent buf s) \<longleftrightarrow> printable buf"
  by (auto simp: appendJSONStringContent_eq intro!: printable_concat printable_json_byte)

lemma printable_literals [simp]:
  "0x20 \<le> byte (CHR ''n'')" "0x20 \<le> byte (CHR ''u'')" "0x20 \<le> byte (CHR ''l'')" "0x20 \<le> byte (CHR '':'')" "0x20 \<le> byte (CHR ''-'')"
  "0x20 \<le> byte (CHR '','')" "0x20 \<le> byte (CHR 0x7B)" "0x20 \<le> byte (CHR 0x7D)" "0x20 \<le> byte (CHR '' '')" "0x20 \<le> byte (CHR ''='')"
  by (simp_all add: byte_def)

lemma printable_AppendBool [simp]: "printable (AppendBool b)"
  by (simp add: AppendBool_def byte_def)

lemma printable_appendFieldJSON:
  assumes "env_ok env" and "field_ok f"
  shows "printable (appendFieldJSON env buf f) \<longleftrightarrow> printable buf"
proof -
  have "printable (field_value_json env b (fd_val f)) \<longleftrightarrow> printable b" for b
    using assms
    by (auto simp: field_value_json_def field_ok_def env_ok_def printable_ISO [OF assms(1)] split: field_value.splits option.splits)
  then show ?thesis by (simp add: appendFieldJSON_def)
qed

lemma printable_appendFieldLogfmt:
  assumes "env_ok env" and "field_ok f"
  shows "printable (appendFieldLogfmt env buf f) \<longleftrightarrow> printable buf"
  using assms
  by (auto simp: appendFieldLogfmt_def field_ok_def env_ok_def printable_ISO [OF assms(1)] Let_def split: field_value.splits option.splits)

lemma printable_fields_json_loop:
  assumes "env_ok env" and "list_all field_ok fs"
  shows "printable (fields_json_loop env first fs buf) \<longleftrightarrow> printable buf"
  using assms(2) by (induction fs arbitrary: first buf) (auto simp: printable_appendFieldJSON [OF assms(1)])

lemma printable_fold_logfmt:
  assumes "env_ok env" and "list_all field_ok fs"
  shows "printable (fold (\<lambda>f b. appendFieldLogfmt env b f) fs buf) \<longleftrightarrow> printable buf"
  using assms(2) by (induction fs arbitrary: buf) (auto simp: printable_appendFieldLogfmt [OF assms(1)])

lemma printable_words [simp]:
  "printable ''unix_nano''" "printable ''seq''" "printable ''time''" "printable ''level''" "printable ''msg''" "printable ''file''"
  "printable ''fields''" "printable ''time=''" "printable '' level=''" "printable '' msg=''" "printable '' file=''"
  by (simp_all add: byte_def)

lemma record_JSON_line:
  assumes "env_ok env" and "list_all field_ok (r_fields r)"
  obtains body where "record_JSON env r = body @ [nl]" "printable body"
proof
  show "record_JSON env r = butlast (record_JSON env r) @ [nl]"
    by (simp add: record_JSON_def Let_def butlast_append)
  show "printable (butlast (record_JSON env r))"
    using assms by (simp add: record_JSON_def Let_def butlast_append printable_ISO appendFieldsJSONObject_def
        printable_fields_json_loop byte_def char_defs)
qed

lemma record_Logfmt_line:
  assumes "env_ok env" and "list_all field_ok (r_fields r)"
  obtains body where "record_Logfmt env r = body @ [nl]" "printable body"
proof
  show "record_Logfmt env r = butlast (record_Logfmt env r) @ [nl]"
    by (simp add: record_Logfmt_def Let_def butlast_append)
  show "printable (butlast (record_Logfmt env r))"
    using assms by (simp add: record_Logfmt_def Let_def butlast_append printable_ISO printable_fold_logfmt byte_def char_defs)
qed

lemma printable_payload:
  assumes "env_ok env" and "list_all field_ok (kp_userFields p)"
  shows "printable (payload_MarshalJSON env p)"
proof -
  let ?fs = "kp_userFields p"
  have one: "printable (appendRoutingField env buf key ?fs fb) \<longleftrightarrow> printable buf" if "printable key" for buf key fb
    using assms(2) that
    by (auto simp: appendRoutingField_def printable_appendFieldJSON [OF assms(1)] list_all_iff find_Some_iff split: option.split)
  have many: "list_all field_ok fs \<Longrightarrow> printable (fold (payload_user_field env) fs buf) \<longleftrightarrow> printable buf" for fs buf
    by (induction fs arbitrary: buf) (auto simp: payload_user_field_def printable_appendFieldJSON [OF assms(1)])
  show ?thesis
    unfolding payload_MarshalJSON_def Let_def
    using assms by (simp add: many one printable_ISO byte_def char_defs)
qed

lemma dedup_fields_ok: "list_all field_ok fs \<Longrightarrow> list_all field_ok (dedup_fields seen fs)"
  by (induction fs arbitrary: seen) auto

lemma payload_fields_ok: "list_all field_ok rf \<Longrightarrow> list_all field_ok ef \<Longrightarrow> list_all field_ok (payload_fields rf ef)"
  by (simp add: payload_fields_def dedup_fields_ok)

text \<open>
  A record carries the base fields before the logger's own, and a reader of JSON takes the last of two
  entries with one key, so the logger's value wins.  With \<open>ExtraFields\<close> configured the duplicate that is
  dropped is the later one: the payload then carries the base field's value.
\<close>

definition json_lookup :: "string \<Rightarrow> field list \<Rightarrow> field_value option" where
  "json_lookup k fs = map_of (rev (map (\<lambda>f. (fd_key f, fd_val f)) fs)) k"

lemma extra_fields_flip_priority:
  assumes "k \<noteq> k'"
  shows "json_lookup k (payload_fields [\<lparr>fd_key = k, fd_val = v1\<rparr>, \<lparr>fd_key = k, fd_val = v2\<rparr>] []) = Some v2
    \<and> json_lookup k (payload_fields [\<lparr>fd_key = k, fd_val = v1\<rparr>, \<lparr>fd_key = k, fd_val = v2\<rparr>] [\<lparr>fd_key = k', fd_val = w\<rparr>]) = Some v1"
  using assms by (simp add: payload_fields_def json_lookup_def)

lemma field_value_takes_base:
  "FieldValue k (r\<lparr>r_fields := \<lparr>fd_key = k, fd_val = v1\<rparr> # fs\<rparr>) = Some v1"
  by (simp add: FieldValue_def)

subsection \<open>Properties\<close>

text \<open>
  Quoting is lossless for every byte string: the loop that copies clean runs appends a quote, an
  escaped body and a quote, and the JSON string reader returns exactly the original bytes and what
  follows the closing quote.
\<close>
lemma json_string_roundtrip:
  "\<exists>body. appendJSONQuoted buf s = buf @ quote # body \<and> json_read (body @ rest) = Some (s, rest)"
  using json_read_content [of s rest] by (intro exI [of _ "concat (map json_byte s) @ [quote]"]) (simp add: appendJSONQuoted_eq)



end
