(* ===== verification/Log_Sampling.thy ===== *)
theory Log_Sampling
  imports Strconv Hashing Float64
begin

section \<open>Sampling of log records\<close>

text \<open>
  Models \<open>src/log4go/sampling.go\<close> (the per-level burst sampler) and \<open>sampling_strategy.go\<close> (the decisions by
  correlation id).  Counters are 64-bit words; a ratio is a rational, compared in binary64 rounding.
\<close>

subsection \<open>The burst sampler\<close>

record sampler =
  sa_Initial :: int
  sa_Thereafter :: int
  sa_counts :: "64 word list"

definition newSampler :: "int \<Rightarrow> int \<Rightarrow> sampler" where
  "newSampler initial thereafter = \<lparr>sa_Initial = initial, sa_Thereafter = thereafter, sa_counts = replicate 9 0\<rparr>"

definition sampler_allow :: "int \<Rightarrow> sampler \<Rightarrow> bool \<times> sampler" where
  "sampler_allow level s =
    (if level < 0 \<or> int (length (sa_counts s)) \<le> level then (True, s)
     else let c = sa_counts s ! nat level + 1;
              s' = s\<lparr>sa_counts := (sa_counts s)[nat level := c]\<rparr>
          in (c \<le> word_of_int (sa_Initial s)
              \<or> (c - word_of_int (sa_Initial s)) mod word_of_int (sa_Thereafter s) = 0, s'))"

text \<open>The answers to a sequence of records, given by their levels.\<close>

fun allow_seq :: "int list \<Rightarrow> sampler \<Rightarrow> bool list" where
  "allow_seq [] s = []"
| "allow_seq (l # ls) s = (let (ok, s') = sampler_allow l s in ok # allow_seq ls s')"

text \<open>The documented rule for the \<open>k\<close>-th record of a level, counted from 1.\<close>

definition burst_rule :: "nat \<Rightarrow> nat \<Rightarrow> nat \<Rightarrow> bool" where
  "burst_rule initial thereafter k \<longleftrightarrow> k \<le> initial \<or> (k - initial) mod thereafter = 0"

definition sampler_at :: "nat \<Rightarrow> nat \<Rightarrow> (nat \<Rightarrow> nat) \<Rightarrow> sampler \<Rightarrow> bool" where
  "sampler_at initial thereafter seen s \<longleftrightarrow> sa_Initial s = int initial \<and> sa_Thereafter s = int thereafter
    \<and> length (sa_counts s) = 9 \<and> (\<forall>l<9. sa_counts s ! l = word_of_nat (seen l))"

lemma unat_small: "a < 2 ^ 64 \<Longrightarrow> unat (word_of_nat a :: 64 word) = a"
  by (simp add: unat_of_nat take_bit_nat_eq_self)

lemma word_of_nat_le: "a < 2 ^ 64 \<Longrightarrow> b < 2 ^ 64 \<Longrightarrow> (word_of_nat a :: 64 word) \<le> word_of_nat b \<longleftrightarrow> a \<le> b"
  by (simp add: word_le_nat_alt unat_small)

lemma sampler_allow_at:
  assumes "sampler_at initial thereafter seen s" and "l < 9" and "seen l + 1 < 2 ^ 64"
    and "initial < 2 ^ 63" and "0 < thereafter" "thereafter < 2 ^ 63"
  shows "fst (sampler_allow (int l) s) = burst_rule initial thereafter (seen l + 1)"
    and "sampler_at initial thereafter (seen(l := seen l + 1)) (snd (sampler_allow (int l) s))"
proof -
  let ?k = "seen l + 1"
  have s: "sa_Initial s = int initial" "sa_Thereafter s = int thereafter" "length (sa_counts s) = 9"
    "sa_counts s ! l = word_of_nat (seen l)" using assms(1,2) by (simp_all add: sampler_at_def)
  have c: "sa_counts s ! l + 1 = (word_of_nat ?k :: 64 word)" using s(4) by simp
  have i: "(word_of_int (sa_Initial s) :: 64 word) = word_of_nat initial"
    and t: "(word_of_int (sa_Thereafter s) :: 64 word) = word_of_nat thereafter" using s by simp_all
  have le: "(word_of_nat ?k :: 64 word) \<le> word_of_nat initial \<longleftrightarrow> ?k \<le> initial"
    using assms(3,4) by (intro word_of_nat_le) simp_all
  have md: "((word_of_nat ?k :: 64 word) - word_of_nat initial) mod word_of_nat thereafter = 0
      \<longleftrightarrow> (?k - initial) mod thereafter = 0" if "initial < ?k"
  proof -
    have "(word_of_nat ?k :: 64 word) - word_of_nat initial = word_of_nat (?k - initial)"
      using that by (simp add: of_nat_diff)
    moreover have "unat (word_of_nat (?k - initial) mod (word_of_nat thereafter :: 64 word)) = (?k - initial) mod thereafter"
    proof -
      have "unat (word_of_nat (?k - initial) :: 64 word) = ?k - initial" using assms(3) by (intro unat_small) linarith
      moreover have "unat (word_of_nat thereafter :: 64 word) = thereafter" using assms(6) by (intro unat_small) simp
      ultimately show ?thesis by (simp only: unat_mod)
    qed
    ultimately show ?thesis by (metis unat_eq_zero unat_0)
  qed
  have "fst (sampler_allow (int l) s) \<longleftrightarrow> (word_of_nat ?k :: 64 word) \<le> word_of_nat initial
      \<or> ((word_of_nat ?k :: 64 word) - word_of_nat initial) mod word_of_nat thereafter = 0"
    unfolding sampler_allow_def using assms(2) s(3) by (simp add: Let_def c i t del: of_nat_add)
  then show "fst (sampler_allow (int l) s) = burst_rule initial thereafter (seen l + 1)"
    using le md unfolding burst_rule_def by (cases "initial < ?k") auto
  have "snd (sampler_allow (int l) s) = s\<lparr>sa_counts := (sa_counts s)[l := word_of_nat ?k]\<rparr>"
    unfolding sampler_allow_def using assms(2) s(3) by (simp add: Let_def c del: of_nat_add)
  then show "sampler_at initial thereafter (seen(l := seen l + 1)) (snd (sampler_allow (int l) s))"
    using assms(1,2) by (simp add: sampler_at_def nth_list_update)
qed

text \<open>The number of emitted records among the first \<open>n\<close> of a level.\<close>

definition burst_count :: "nat \<Rightarrow> nat \<Rightarrow> nat \<Rightarrow> nat" where
  "burst_count initial thereafter n = length (filter (burst_rule initial thereafter) [1..<Suc n])"

lemma burst_count_Suc: "burst_count i t (Suc n) = burst_count i t n + (if burst_rule i t (Suc n) then 1 else 0)"
  by (simp add: burst_count_def)

lemma burst_count_eq:
  assumes "0 < t"
  shows "burst_count i t n = min n i + (n - i) div t"
proof (induction n)
  case 0
  then show ?case by (simp add: burst_count_def)
next
  case (Suc n)
  show ?case
  proof (cases "Suc n \<le> i")
    case True
    then show ?thesis using Suc by (simp add: burst_count_Suc burst_rule_def)
  next
    case False
    then have "Suc n - i = Suc (n - i)" by simp
    then show ?thesis using Suc False assms
      by (auto simp: burst_count_Suc burst_rule_def div_Suc mod_Suc split: if_splits)
  qed
qed

lemma allow_seq_at:
  assumes "sampler_at initial thereafter seen s" and "\<And>l. l \<in> set ls \<Longrightarrow> l < 9"
    and "\<And>l. l < 9 \<Longrightarrow> seen l + length ls < 2 ^ 64"
    and "initial < 2 ^ 63" and "0 < thereafter" "thereafter < 2 ^ 63"
  shows "allow_seq (map int ls) s
    = map (\<lambda>i. burst_rule initial thereafter (seen (ls ! i) + count_list (take (Suc i) ls) (ls ! i))) [0..<length ls]"
  using assms(1-3)
proof (induction ls arbitrary: s seen)
  case (Cons l ls)
  note st = sampler_allow_at [OF Cons.prems(1) _ _ assms(4-6), of l]
  have l: "l < 9" "seen l + 1 < 2 ^ 64" using Cons.prems(2,3) [of l] by simp_all
  obtain ok s' where a: "sampler_allow (int l) s = (ok, s')" by (cases "sampler_allow (int l) s")
  let ?seen = "seen(l := seen l + 1)"
  have "allow_seq (map int ls) s'
      = map (\<lambda>i. burst_rule initial thereafter (?seen (ls ! i) + count_list (take (Suc i) ls) (ls ! i))) [0..<length ls]"
  proof (rule Cons.IH)
    show "sampler_at initial thereafter ?seen s'" using st(2) l a by simp
    show "\<And>l. l \<in> set ls \<Longrightarrow> l < 9" using Cons.prems(2) by simp
    show "?seen m + length ls < 2 ^ 64" if "m < 9" for m using Cons.prems(3) [OF that] by (cases "m = l") simp_all
  qed
  moreover have "ok = burst_rule initial thereafter (seen l + 1)" using st(1) l a by simp
  ultimately show ?case using a
    by (auto simp: map_upt_Suc simp del: upt_Suc intro!: arg_cong [of _ _ "burst_rule initial thereafter"])
qed simp

subsection \<open>Decisions by correlation id\<close>

definition hex_digit :: "char \<Rightarrow> bool" where
  "hex_digit c \<longleftrightarrow> 48 \<le> byte c \<and> byte c \<le> 57 \<or> 97 \<le> byte c \<and> byte c \<le> 102 \<or> 65 \<le> byte c \<and> byte c \<le> 70"

definition isHex :: "string \<Rightarrow> bool" where
  "isHex s \<longleftrightarrow> list_all hex_digit s \<and> 0 < length s"

definition hex_digit_val :: "char \<Rightarrow> nat" where
  "hex_digit_val c = (if byte c \<le> 57 then byte c - 48 else if byte c \<le> 70 then byte c - 55 else byte c - 87)"

definition ParseHex :: "string \<Rightarrow> 64 word" where
  "ParseHex s = word_of_nat (foldl (\<lambda>v c. v * 16 + hex_digit_val c) 0 s)"

definition idUint64 :: "string \<Rightarrow> 64 word option" where
  "idUint64 ident =
    (if ident = [] then None
     else let hex = (if 16 < length ident then take 16 ident else ident)
          in if isHex hex \<and> 8 \<le> length hex
             then Some (ParseHex (if length hex < 16 then replicate (16 - length hex) (CHR ''0'') @ hex else hex))
             else Some (fnv64a ident))"

datatype sampling_strategy = FullSampling | TraceIDRatioBased rat | TailDigitSampling "64 word" "64 word"

definition MaxUint64 :: nat where
  "MaxUint64 = 2 ^ 64 - 1"

definition ShouldLog :: "sampling_strategy \<Rightarrow> string \<Rightarrow> bool" where
  "ShouldLog s ident =
    (case s of
       FullSampling \<Rightarrow> True
     | TraceIDRatioBased ratio \<Rightarrow>
         if 1 \<le> ratio then True else if ratio \<le> 0 then False
         else (case idUint64 ident of None \<Rightarrow> True
           | Some v \<Rightarrow> fl64 (of_nat (unat v)) < fl64 (ratio * fl64 (of_nat MaxUint64)))
     | TailDigitSampling modulus keep \<Rightarrow>
         if modulus = 0 then True
         else (case idUint64 ident of None \<Rightarrow> True | Some v \<Rightarrow> v mod modulus < keep))"

text \<open>
  Raising the ratio only adds chains: an identifier kept at one ratio is kept at every higher one, so
  two services with different ratios agree on everything the stricter one keeps.
\<close>

lemma ratio_monotone:
  assumes "r \<le> r'" and "ShouldLog (TraceIDRatioBased r) ident"
  shows "ShouldLog (TraceIDRatioBased r') ident"
proof -
  have "0 \<le> fl64 (of_nat MaxUint64)" by (intro fl64_nonneg) simp
  then have "fl64 (r * fl64 (of_nat MaxUint64)) \<le> fl64 (r' * fl64 (of_nat MaxUint64))"
    using assms(1) by (intro fl64_mono mult_right_mono)
  then show ?thesis using assms by (auto simp: ShouldLog_def split: if_splits option.splits)
qed

text \<open>
  A request without a correlation id is kept at every positive ratio and by every tail rule.
\<close>

lemma empty_id_kept: "0 < r \<Longrightarrow> ShouldLog (TraceIDRatioBased r) []" "ShouldLog (TailDigitSampling m k) []"
  by (simp_all add: ShouldLog_def idUint64_def)

lemma case_insensitive_hex: "idUint64 ''ABCDEF01'' = idUint64 ''abcdef01''"
  by (simp add: idUint64_def isHex_def hex_digit_def byte_def ParseHex_def hex_digit_val_def)

subsection \<open>Properties\<close>

text \<open>
  C30. The burst sampler is exact for every mixture of levels: the \<open>k\<close>-th record of a level passes exactly
  when \<open>k\<close> is at most \<open>Initial\<close> or \<open>k - Initial\<close> is a multiple of \<open>Thereafter\<close>, whatever the records of
  the other levels are, so of the first \<open>n\<close> records of a level exactly \<open>min n Initial + (n - Initial) div Thereafter\<close>
  pass, for any sequence shorter than \<open>2 ^ 64\<close>.
\<close>

theorem sampler_exact:
  assumes "initial < 2 ^ 63" and "0 < thereafter" "thereafter < 2 ^ 63"
    and "length ls < 2 ^ 64" and "\<forall>l\<in>set ls. l < 9"
  shows "allow_seq (map int ls) (newSampler (int initial) (int thereafter))
      = map (\<lambda>i. burst_rule initial thereafter (count_list (take (Suc i) ls) (ls ! i))) [0..<length ls]
    \<and> burst_count initial thereafter n = min n initial + (n - initial) div thereafter"
proof
  have "sampler_at initial thereafter (\<lambda>_. 0) (newSampler (int initial) (int thereafter))"
    by (simp add: sampler_at_def newSampler_def)
  from allow_seq_at [OF this _ _ assms(1-3), of ls] assms(4,5)
  show "allow_seq (map int ls) (newSampler (int initial) (int thereafter))
      = map (\<lambda>i. burst_rule initial thereafter (count_list (take (Suc i) ls) (ls ! i))) [0..<length ls]"
    by simp
  show "burst_count initial thereafter n = min n initial + (n - initial) div thereafter"
    by (rule burst_count_eq [OF assms(2)])
qed

theorem sampler_exact_witness:
  "allow_seq (map int [3, 3, 7, 3, 3]) (newSampler (int 1) (int 2))
    = map (\<lambda>i. burst_rule 1 2 (count_list (take (Suc i) [3, 3, 7, 3, 3::nat]) ([3, 3, 7, 3, 3] ! i))) [0..<length [3, 3, 7, 3, 3::nat]]"
  by (rule sampler_exact [THEN conjunct1]) simp_all

end
