(* ===== verification/Logger.thy ===== *)
theory Logger
  imports Log_Record Log_Sampling Map_Spec
begin

section \<open>The logger\<close>

text \<open>
  Models the core of \<open>src/log4go/log.go\<close>: a tree of loggers (a root and the children that \<open>With\<close>,
  \<open>WithContext\<close> and \<open>WithSampling\<close> clone from it) that share one record channel, the base fields, the
  counters and the channel \<open>quit\<close>; the filter of \<open>deliverRecordToWriter\<close>; the hand-over to the bootstrap
  goroutine; and \<open>Close\<close>.  Loggers are numbered and a sampler is an index, since children share the sampler of
  their parent by pointer.  A log call builds its record in one step and hands it over in another, so the
  calls of any number of goroutines interleave; \<open>lt_pending\<close> are the records built and not yet handed over.
  The caller's position and the answer of \<open>fmt.Sprintf\<close> for the arguments of a call are arguments of the call,
  and \<open>ft\<close> is the layout rendering of \<open>time.Time.Format\<close>; the steps of one call up to the hand-over are one
  step of the model.  The last three fields are
  ghosts: the records in the order they entered the channel, those delivered to the writers, and those
  dropped because the logger was being retired.
\<close>

record logger =
  lg_fields :: "field list"
  lg_level :: int
  lg_format :: int
  lg_layout :: string
  lg_hasSubSecond :: bool
  lg_lastTime :: int
  lg_lastTimeStr :: "string option"
  lg_sampler :: "nat option"
  lg_strategy :: "sampling_strategy option"
  lg_sampleDrop :: bool
  lg_priorityLevel :: int
  lg_closeOnce :: bool

record log_tree =
  lt_loggers :: "logger list"
  lt_base :: "field list option"
  lt_samplers :: "sampler list"
  lt_cap :: nat
  lt_records :: "log_record list"
  lt_quit :: bool
  lt_exited :: bool
  lt_panicked :: bool
  lt_occurred :: "64 word list"
  lt_written :: "64 word list"
  lt_globalSeq :: "64 word"
  lt_pending :: "log_record list"
  lt_enqueued :: "log_record list"
  lt_delivered :: "log_record list"
  lt_retired :: "log_record list"

definition newLogger :: "nat \<Rightarrow> log_tree" where
  "newLogger cap =
    \<lparr>lt_loggers = [\<lparr>lg_fields = [], lg_level = 7, lg_format = 0, lg_layout = ''2006/01/02 15:04:05'', lg_hasSubSecond = False,
        lg_lastTime = 0, lg_lastTimeStr = None, lg_sampler = None, lg_strategy = None, lg_sampleDrop = False, lg_priorityLevel = -1, lg_closeOnce = False\<rparr>],
     lt_base = None, lt_samplers = [], lt_cap = cap, lt_records = [], lt_quit = False, lt_exited = False, lt_panicked = False,
     lt_occurred = replicate 9 0, lt_written = replicate 9 0, lt_globalSeq = 0,
     lt_pending = [], lt_enqueued = [], lt_delivered = [], lt_retired = []\<rparr>"

subsection \<open>Base fields\<close>

fun replace_field :: "field \<Rightarrow> field list \<Rightarrow> field list option" where
  "replace_field f [] = None"
| "replace_field f (g # gs) =
    (if fd_key g = fd_key f then Some (f # gs) else map_option ((#) g) (replace_field f gs))"

definition SetBaseField :: "field \<Rightarrow> field list option \<Rightarrow> field list option" where
  "SetBaseField f base =
    (case base of
       Some cur \<Rightarrow> (case replace_field f cur of Some nxt \<Rightarrow> Some nxt | None \<Rightarrow> Some (cur @ [f]))
     | None \<Rightarrow> Some [f])"

definition RemoveBaseField :: "string \<Rightarrow> field list option \<Rightarrow> field list option" where
  "RemoveBaseField key base =
    (case base of None \<Rightarrow> None
     | Some s \<Rightarrow>
         if s = [] then base
         else let nxt = filter (\<lambda>f. fd_key f \<noteq> key) s
              in if length nxt = length s then base else if nxt = [] then None else Some nxt)"

definition ClearBaseFields :: "field list option \<Rightarrow> field list option" where
  "ClearBaseFields base = None"

definition base_list :: "field list option \<Rightarrow> field list" where
  "base_list base = (case base of None \<Rightarrow> [] | Some fs \<Rightarrow> fs)"

subsection \<open>Configuration and children\<close>

fun contains_sub :: "string \<Rightarrow> string \<Rightarrow> bool" where
  "contains_sub p [] \<longleftrightarrow> p = []"
| "contains_sub p (c # cs) \<longleftrightarrow> take (length p) (c # cs) = p \<or> contains_sub p cs"

definition lg_SetLayout :: "string \<Rightarrow> logger \<Rightarrow> logger" where
  "lg_SetLayout layout l = l\<lparr>lg_hasSubSecond := contains_sub ''.0'' layout \<or> contains_sub ''.9'' layout, lg_layout := layout\<rparr>"

text \<open>The level, the format and the priority are stored as \<open>int32\<close>, so an \<open>int\<close> outside its range wraps.\<close>

definition to_int32 :: "int \<Rightarrow> int" where "to_int32 v = signed_take_bit 31 v"

definition lg_SetLevel :: "int \<Rightarrow> logger \<Rightarrow> logger" where "lg_SetLevel v l = l\<lparr>lg_level := to_int32 v\<rparr>"
definition lg_SetFormat :: "int \<Rightarrow> logger \<Rightarrow> logger" where "lg_SetFormat v l = l\<lparr>lg_format := to_int32 v\<rparr>"
definition lg_SetPriorityLevel :: "int \<Rightarrow> logger \<Rightarrow> logger" where
  "lg_SetPriorityLevel v l = l\<lparr>lg_priorityLevel := to_int32 v\<rparr>"

definition lg_SetSamplingStrategy :: "sampling_strategy option \<Rightarrow> logger \<Rightarrow> logger" where
  "lg_SetSamplingStrategy s l = l\<lparr>lg_strategy := s\<rparr>"

text \<open>
  \<open>clone\<close> copies the knobs it lists; \<open>hasSubSecond\<close>, the cached time and the \<open>sync.Once\<close> of \<open>Close\<close> start anew.
\<close>

definition lg_clone :: "logger \<Rightarrow> logger" where
  "lg_clone l = l\<lparr>lg_hasSubSecond := False, lg_lastTime := 0, lg_lastTimeStr := None, lg_closeOnce := False\<rparr>"

definition lg_withField :: "field \<Rightarrow> logger \<Rightarrow> logger" where
  "lg_withField f l = (lg_clone l)\<lparr>lg_fields := lg_fields l @ [f]\<rparr>"

definition lg_WithFields :: "field list \<Rightarrow> logger \<Rightarrow> logger" where
  "lg_WithFields fs l = (lg_clone l)\<lparr>lg_fields := lg_fields l @ fs\<rparr>"

text \<open>
  \<open>WithContext\<close>: the fields the extractor finds in the context, and the verdict of the strategy on the
  correlation id, taken once.
\<close>

definition lg_WithContext :: "field list \<Rightarrow> string \<Rightarrow> logger \<Rightarrow> logger" where
  "lg_WithContext ctx_fields ident l =
    (let c = lg_clone l;
         c1 = (if ctx_fields = [] then c else c\<lparr>lg_fields := lg_fields c @ ctx_fields\<rparr>)
     in case lg_strategy c1 of None \<Rightarrow> c1 | Some s \<Rightarrow> c1\<lparr>lg_sampleDrop := \<not> ShouldLog s ident\<rparr>)"

definition sampling_of :: "int \<Rightarrow> int \<Rightarrow> sampler option" where
  "sampling_of initial thereafter =
    (if initial \<le> 0 \<and> thereafter \<le> 0 then None
     else Some (newSampler (if initial < 0 then 0 else initial) (if thereafter \<le> 0 then 1 else thereafter)))"

definition install_sampler :: "int \<Rightarrow> int \<Rightarrow> logger \<Rightarrow> log_tree \<Rightarrow> logger \<times> log_tree" where
  "install_sampler initial thereafter l t =
    (case sampling_of initial thereafter of
       None \<Rightarrow> (l\<lparr>lg_sampler := None\<rparr>, t)
     | Some s \<Rightarrow> (l\<lparr>lg_sampler := Some (length (lt_samplers t))\<rparr>, t\<lparr>lt_samplers := lt_samplers t @ [s]\<rparr>))"

definition lt_SetSampling :: "nat \<Rightarrow> int \<Rightarrow> int \<Rightarrow> log_tree \<Rightarrow> log_tree" where
  "lt_SetSampling i initial thereafter t =
    (let (l, t1) = install_sampler initial thereafter (lt_loggers t ! i) t
     in t1\<lparr>lt_loggers := (lt_loggers t1)[i := l]\<rparr>)"

definition lt_WithSampling :: "nat \<Rightarrow> int \<Rightarrow> int \<Rightarrow> log_tree \<Rightarrow> log_tree" where
  "lt_WithSampling i initial thereafter t =
    (let (l, t1) = install_sampler initial thereafter (lg_clone (lt_loggers t ! i)) t
     in t1\<lparr>lt_loggers := lt_loggers t1 @ [l]\<rparr>)"

subsection \<open>A log call\<close>

text \<open>
  The string handed to \<open>fmt.Sprintf\<close> when there are \<open>n\<close> arguments: a format without a verb gets one \<open>%v\<close> for
  each argument, and so does every format with a doubled percent sign.
\<close>

definition sprintf_format :: "string \<Rightarrow> nat \<Rightarrow> string" where
  "sprintf_format f n =
    (if n = 0 then f
     else if \<not> (contains_sub ''%'' f \<and> \<not> contains_sub ''%%'' f) then f @ concat (replicate n ''%v'') else f)"

definition call_msg :: "string \<Rightarrow> nat \<Rightarrow> (string \<Rightarrow> string) \<Rightarrow> string" where
  "call_msg f n sprintf = (if n = 0 then f else sprintf (sprintf_format f n))"

text \<open>The cache of the time text: one rendering per second, except for a layout with a fraction.\<close>

definition time_text :: "(string \<Rightarrow> int \<Rightarrow> string) \<Rightarrow> int \<Rightarrow> logger \<Rightarrow> string \<times> logger" where
  "time_text ft nano l =
    (let sec = nano div 10 ^ 9
     in case lg_lastTimeStr l of
          Some tm \<Rightarrow>
            if \<not> lg_hasSubSecond l \<and> lg_lastTime l = sec then (tm, l)
            else let tm' = ft (lg_layout l) nano in (tm', l\<lparr>lg_lastTime := sec, lg_lastTimeStr := Some tm'\<rparr>)
        | None \<Rightarrow> let tm' = ft (lg_layout l) nano in (tm', l\<lparr>lg_lastTime := sec, lg_lastTimeStr := Some tm'\<rparr>))"

definition sample :: "nat \<Rightarrow> logger \<Rightarrow> log_tree \<Rightarrow> bool \<times> log_tree" where
  "sample level l t =
    (case lg_sampler l of
       None \<Rightarrow> (True, t)
     | Some p \<Rightarrow> let (ok, s') = sampler_allow (int level) (lt_samplers t ! p)
         in (ok, t\<lparr>lt_samplers := (lt_samplers t)[p := s']\<rparr>))"

definition merge_fields :: "field list option \<Rightarrow> field list \<Rightarrow> field list" where
  "merge_fields base fs =
    (case base of
       Some bf \<Rightarrow> if bf \<noteq> [] then (if fs \<noteq> [] then bf @ fs else bf) else fs
     | None \<Rightarrow> fs)"

definition deliverRecordToWriter ::
  "(string \<Rightarrow> int \<Rightarrow> string) \<Rightarrow> nat \<Rightarrow> nat \<Rightarrow> string \<Rightarrow> nat \<Rightarrow> (string \<Rightarrow> string) \<Rightarrow> string \<Rightarrow> int \<Rightarrow> log_tree \<Rightarrow> log_tree" where
  "deliverRecordToWriter ft i level f n sprintf src nano t =
    (let l = lt_loggers t ! i;
         t1 = t\<lparr>lt_occurred := (lt_occurred t)[level := lt_occurred t ! level + 1]\<rparr>
     in if lg_level l < int level then t1
        else if lg_sampleDrop l \<and> lg_priorityLevel l < int level then t1
        else let (ok, t2) = sample level l t1
             in if \<not> ok then t2
                else let (tm, l') = time_text ft nano l;
                         sq = lt_globalSeq t2 + 1;
                         r = \<lparr>r_level = level, r_time = tm, r_file = src, r_msg = call_msg f n sprintf, r_unixNano = nano,
                              r_seq = sq, r_fields = merge_fields (lt_base t2) (lg_fields l)\<rparr>
                     in t2\<lparr>lt_loggers := (lt_loggers t2)[i := l'], lt_globalSeq := sq, lt_pending := lt_pending t2 @ [r]\<rparr>)"

text \<open>
  The bytes \<open>deliverRecordToWriter\<close> serialises in advance for the formats JSON (1) and logfmt (2), and the line a
  writer emits for a record.
\<close>

definition formattedBytes :: "render_env \<Rightarrow> int \<Rightarrow> log_record \<Rightarrow> string option" where
  "formattedBytes env fmt r =
    (if fmt = 1 then Some (record_JSON env r) else if fmt = 2 then Some (record_Logfmt env r) else None)"

definition writer_line :: "render_env \<Rightarrow> int \<Rightarrow> log_record \<Rightarrow> string" where
  "writer_line env fmt r = (case formattedBytes env fmt r of Some b \<Rightarrow> b | None \<Rightarrow> record_String env r)"

text \<open>\<open>enqueue\<close> of the \<open>k\<close>-th pending record; \<open>pick_quit\<close> chooses when both cases are ready.  \<open>None\<close>: it blocks.\<close>

definition lt_enqueue :: "nat \<Rightarrow> bool \<Rightarrow> log_tree \<Rightarrow> log_tree option" where
  "lt_enqueue k pick_quit t =
    (if length (lt_pending t) \<le> k then None
     else let r = lt_pending t ! k; t1 = t\<lparr>lt_pending := take k (lt_pending t) @ drop (Suc k) (lt_pending t)\<rparr>
          in if length (lt_records t) < lt_cap t \<and> \<not> (lt_quit t \<and> pick_quit)
             then Some (t1\<lparr>lt_records := lt_records t @ [r], lt_enqueued := lt_enqueued t @ [r]\<rparr>)
             else if lt_quit t then Some (t1\<lparr>lt_retired := lt_retired t @ [r]\<rparr>)
             else None)"

subsection \<open>The bootstrap goroutine and Close\<close>

definition boot_deliver :: "log_record \<Rightarrow> log_tree \<Rightarrow> log_tree" where
  "boot_deliver r t = t\<lparr>lt_written := (lt_written t)[r_level r := lt_written t ! r_level r + 1],
    lt_delivered := lt_delivered t @ [r]\<rparr>"

definition boot_receive :: "log_tree \<Rightarrow> log_tree option" where
  "boot_receive t =
    (if lt_exited t then None
     else case lt_records t of [] \<Rightarrow> None | r # rs \<Rightarrow> Some (boot_deliver r (t\<lparr>lt_records := rs\<rparr>)))"

definition drainAndExit :: "log_tree \<Rightarrow> log_tree option" where
  "drainAndExit t =
    (if lt_exited t \<or> \<not> lt_quit t then None
     else Some ((fold boot_deliver (lt_records t) (t\<lparr>lt_records := []\<rparr>))\<lparr>lt_exited := True\<rparr>))"

text \<open>\<open>Close\<close> on logger \<open>i\<close> up to the wait: closing the shared channel a second time panics.\<close>

definition lt_Close :: "nat \<Rightarrow> log_tree \<Rightarrow> log_tree" where
  "lt_Close i t =
    (if lg_closeOnce (lt_loggers t ! i) then t
     else let t1 = t\<lparr>lt_loggers := (lt_loggers t)[i := (lt_loggers t ! i)\<lparr>lg_closeOnce := True\<rparr>]\<rparr>
          in if lt_quit t1 then t1\<lparr>lt_panicked := True\<rparr> else t1\<lparr>lt_quit := True\<rparr>)"

subsection \<open>Runs\<close>

datatype lt_event =
    LCall nat nat string nat "string \<Rightarrow> string" string int
  | LEnqueue nat bool
  | LReceive
  | LExit
  | LClose nat
  | LChild nat "field list"
  | LContext nat "field list" string
  | LSampling nat int int
  | LSetSampling nat int int
  | LTune nat "logger \<Rightarrow> logger"
  | LBase "field list option \<Rightarrow> field list option"

definition lt_do :: "(string \<Rightarrow> int \<Rightarrow> string) \<Rightarrow> lt_event \<Rightarrow> log_tree \<Rightarrow> log_tree option" where
  "lt_do ft e t =
    (case e of
       LCall i level f n sprintf src nano \<Rightarrow>
         if i < length (lt_loggers t) \<and> level < 9 then Some (deliverRecordToWriter ft i level f n sprintf src nano t) else None
     | LEnqueue k pick \<Rightarrow> lt_enqueue k pick t
     | LReceive \<Rightarrow> boot_receive t
     | LExit \<Rightarrow> drainAndExit t
     | LClose i \<Rightarrow> if i < length (lt_loggers t) then Some (lt_Close i t) else None
     | LChild i fs \<Rightarrow> if i < length (lt_loggers t) then Some (t\<lparr>lt_loggers := lt_loggers t @ [lg_WithFields fs (lt_loggers t ! i)]\<rparr>) else None
     | LContext i fs ident \<Rightarrow> if i < length (lt_loggers t) then Some (t\<lparr>lt_loggers := lt_loggers t @ [lg_WithContext fs ident (lt_loggers t ! i)]\<rparr>) else None
     | LSampling i a b \<Rightarrow> if i < length (lt_loggers t) then Some (lt_WithSampling i a b t) else None
     | LSetSampling i a b \<Rightarrow> if i < length (lt_loggers t) then Some (lt_SetSampling i a b t) else None
     | LTune i f \<Rightarrow> if i < length (lt_loggers t) then Some (t\<lparr>lt_loggers := (lt_loggers t)[i := f (lt_loggers t ! i)]\<rparr>) else None
     | LBase f \<Rightarrow> Some (t\<lparr>lt_base := f (lt_base t)\<rparr>))"

fun lt_run :: "(string \<Rightarrow> int \<Rightarrow> string) \<Rightarrow> lt_event list \<Rightarrow> log_tree \<Rightarrow> log_tree option" where
  "lt_run ft [] t = Some t"
| "lt_run ft (e # es) t = (case lt_do ft e t of None \<Rightarrow> None | Some t' \<Rightarrow> lt_run ft es t')"

fun calls_at :: "nat \<Rightarrow> lt_event list \<Rightarrow> nat" where
  "calls_at l [] = 0"
| "calls_at l (LCall i level f n sprintf src nano # es) = (if level = l then 1 else 0) + calls_at l es"
| "calls_at l (_ # es) = calls_at l es"

subsection \<open>Accounting\<close>

definition lt_live :: "log_tree \<Rightarrow> log_record list" where
  "lt_live t = lt_pending t @ lt_enqueued t @ lt_retired t"

definition at_level :: "nat \<Rightarrow> log_record list \<Rightarrow> nat" where
  "at_level l rs = length (filter (\<lambda>r. r_level r = l) rs)"

lemma at_level_simps [simp]:
  "at_level l [] = 0" "at_level l (r # rs) = (if r_level r = l then 1 else 0) + at_level l rs" "at_level l (rs @ ss) = at_level l rs + at_level l ss"
  by (simp_all add: at_level_def)

text \<open>The channel, the sequence numbers and the counters, after \<open>n\<close> records were built.\<close>

definition lt_queue_ok :: "log_tree \<Rightarrow> bool" where
  "lt_queue_ok t \<longleftrightarrow> lt_enqueued t = lt_delivered t @ lt_records t \<and> length (lt_records t) \<le> lt_cap t
    \<and> (\<forall>r\<in>set (lt_live t). r_level r < 9)"

text \<open>The numbers \<open>globalSeq.Add(1)\<close> returns in its first \<open>n\<close> calls, and the numbers records carry.\<close>

definition first_seqs :: "nat \<Rightarrow> 64 word multiset" where
  "first_seqs n = image_mset word_of_nat (mset [1..<Suc n])"

definition seqs_of :: "log_record list \<Rightarrow> 64 word multiset" where
  "seqs_of rs = mset (map r_seq rs)"

lemma first_seqs_simps [simp]:
  "first_seqs 0 = {#}" "first_seqs (Suc n) = add_mset (word_of_nat (Suc n)) (first_seqs n)"
  by (simp_all add: first_seqs_def)

lemma seqs_of_simps [simp]:
  "seqs_of [] = {#}" "seqs_of (r # rs) = add_mset (r_seq r) (seqs_of rs)" "seqs_of (rs @ ss) = seqs_of rs + seqs_of ss"
  by (simp_all add: seqs_of_def)

lemma first_seqs_distinct:
  assumes "n < 2 ^ 64"
  shows "distinct (map word_of_nat [1..<Suc n] :: 64 word list)"
  using assms
  by (auto simp: distinct_map inj_on_def word_of_nat_eq_iff take_bit_nat_eq_self)

definition lt_seq_ok :: "nat \<Rightarrow> log_tree \<Rightarrow> bool" where
  "lt_seq_ok n t \<longleftrightarrow> lt_globalSeq t = word_of_nat n \<and> seqs_of (lt_live t) = first_seqs n"

definition lt_counts_ok :: "(nat \<Rightarrow> nat) \<Rightarrow> log_tree \<Rightarrow> bool" where
  "lt_counts_ok calls t \<longleftrightarrow> length (lt_occurred t) = 9 \<and> length (lt_written t) = 9
    \<and> (\<forall>l<9. lt_occurred t ! l = word_of_nat (calls l) \<and> lt_written t ! l = word_of_nat (at_level l (lt_delivered t)))"

definition lt_inv :: "(nat \<Rightarrow> nat) \<Rightarrow> nat \<Rightarrow> log_tree \<Rightarrow> bool" where
  "lt_inv calls n t \<longleftrightarrow> lt_queue_ok t \<and> lt_seq_ok n t \<and> lt_counts_ok calls t"

lemmas lt_inv_defs = lt_inv_def lt_queue_ok_def lt_seq_ok_def lt_counts_ok_def lt_live_def

lemma lt_inv_cong:
  assumes "lt_inv calls n t"
    and "lt_cap t' = lt_cap t" "lt_records t' = lt_records t" "lt_occurred t' = lt_occurred t" "lt_written t' = lt_written t"
      "lt_globalSeq t' = lt_globalSeq t" "lt_pending t' = lt_pending t" "lt_enqueued t' = lt_enqueued t"
      "lt_delivered t' = lt_delivered t" "lt_retired t' = lt_retired t"
  shows "lt_inv calls n t'"
  unfolding lt_inv_defs assms(2-) by (rule assms(1) [unfolded lt_inv_defs])

lemma newLogger_inv: "lt_inv (\<lambda>_. 0) 0 (newLogger cap)"
  by (simp add: lt_inv_defs newLogger_def)

lemma sample_frame:
  assumes "sample level l t = (ok, t')"
  obtains ss where "t' = t\<lparr>lt_samplers := ss\<rparr>"
  using assms by (cases "lg_sampler l") (auto simp: sample_def split: prod.splits, cases t, auto)

lemma deliver_cases:
  fixes t :: log_tree
  defines "t1 \<equiv> \<lambda>level. t\<lparr>lt_occurred := (lt_occurred t)[level := lt_occurred t ! level + 1]\<rparr>"
  shows "\<exists>ss ls. deliverRecordToWriter ft i level f n sprintf src nano t = (t1 level)\<lparr>lt_samplers := ss\<rparr>
    \<or> (\<exists>r. r_level r = level \<and> r_seq r = lt_globalSeq t + 1 \<and>
        deliverRecordToWriter ft i level f n sprintf src nano t
          = (t1 level)\<lparr>lt_samplers := ss, lt_loggers := ls, lt_globalSeq := lt_globalSeq t + 1, lt_pending := lt_pending t @ [r]\<rparr>)"
    (is "\<exists>ss ls. ?d = _ \<or> _")
proof -
  let ?l = "lt_loggers t ! i"
  obtain ok t2 where s: "sample level ?l (t1 level) = (ok, t2)" by (cases "sample level ?l (t1 level)")
  obtain ss where t2: "t2 = (t1 level)\<lparr>lt_samplers := ss\<rparr>" using sample_frame [OF s] by blast
  obtain tm l' where tm: "time_text ft nano ?l = (tm, l')" by (cases "time_text ft nano ?l")
  have same: "t1 level = (t1 level)\<lparr>lt_samplers := lt_samplers t\<rparr>" by (cases t) (simp add: t1_def)
  show ?thesis
  proof (cases "lg_level ?l < int level \<or> lg_sampleDrop ?l \<and> lg_priorityLevel ?l < int level")
    case True
    then have "?d = t1 level" by (auto simp: deliverRecordToWriter_def t1_def Let_def)
    then show ?thesis using same by auto
  next
    case False
    have d: "?d = (if ok then t2\<lparr>lt_loggers := (lt_loggers t2)[i := l'], lt_globalSeq := lt_globalSeq t2 + 1,
             lt_pending := lt_pending t2 @ [\<lparr>r_level = level, r_time = tm, r_file = src, r_msg = call_msg f n sprintf,
               r_unixNano = nano, r_seq = lt_globalSeq t2 + 1, r_fields = merge_fields (lt_base t2) (lg_fields ?l)\<rparr>]\<rparr> else t2)"
      using False s tm by (auto simp: deliverRecordToWriter_def t1_def Let_def)
    show ?thesis
    proof (cases ok)
      case True
      have "?d = (t1 level)\<lparr>lt_samplers := ss, lt_loggers := (lt_loggers t2)[i := l'], lt_globalSeq := lt_globalSeq t + 1,
          lt_pending := lt_pending t @ [\<lparr>r_level = level, r_time = tm, r_file = src, r_msg = call_msg f n sprintf,
            r_unixNano = nano, r_seq = lt_globalSeq t + 1, r_fields = merge_fields (lt_base t) (lg_fields ?l)\<rparr>]\<rparr>"
        using True by (simp add: d t2 t1_def)
      then show ?thesis by (metis log_record.select_convs(1,6))
    qed (use d t2 in auto)
  qed
qed

lemma lt_inv_occurred:
  assumes "lt_inv calls n t" and "level < 9"
  shows "lt_inv (calls(level := calls level + 1)) n (t\<lparr>lt_occurred := (lt_occurred t)[level := lt_occurred t ! level + 1]\<rparr>)"
  using assms by (auto simp: lt_inv_defs nth_list_update ac_simps)

lemma lt_inv_built:
  assumes "lt_inv calls n t" and "r_level r < 9" and "r_seq r = lt_globalSeq t + 1"
  shows "lt_inv calls (Suc n) (t\<lparr>lt_globalSeq := lt_globalSeq t + 1, lt_pending := lt_pending t @ [r]\<rparr>)"
proof -
  have s: "lt_globalSeq t + 1 = word_of_nat (Suc n)" using assms(1) by (simp add: lt_inv_def lt_seq_ok_def)
  have "seqs_of (lt_live t) = first_seqs n" using assms(1) by (simp add: lt_inv_def lt_seq_ok_def)
  then have "lt_seq_ok (Suc n) (t\<lparr>lt_globalSeq := lt_globalSeq t + 1, lt_pending := lt_pending t @ [r]\<rparr>)"
    using s assms(3) by (simp add: lt_seq_ok_def lt_live_def)
  then show ?thesis using assms(1,2) by (auto simp: lt_inv_def lt_queue_ok_def lt_counts_ok_def lt_live_def)
qed

lemma lt_inv_call:
  assumes "lt_inv calls n t" and "level < 9"
  shows "\<exists>n'. n' \<le> Suc n \<and> lt_inv (calls(level := calls level + 1)) n' (deliverRecordToWriter ft i level f k sprintf src nano t)"
proof -
  let ?t = "t\<lparr>lt_occurred := (lt_occurred t)[level := lt_occurred t ! level + 1]\<rparr>"
  note o = lt_inv_occurred [OF assms]
  obtain ss ls where d: "deliverRecordToWriter ft i level f k sprintf src nano t = ?t\<lparr>lt_samplers := ss\<rparr>
      \<or> (\<exists>r. r_level r = level \<and> r_seq r = lt_globalSeq t + 1 \<and>
          deliverRecordToWriter ft i level f k sprintf src nano t
            = ?t\<lparr>lt_samplers := ss, lt_loggers := ls, lt_globalSeq := lt_globalSeq t + 1, lt_pending := lt_pending t @ [r]\<rparr>)"
    using deliver_cases [of ft i level f k sprintf src nano t] by blast
  then consider (drop) "deliverRecordToWriter ft i level f k sprintf src nano t = ?t\<lparr>lt_samplers := ss\<rparr>"
    | (built) r where "r_level r = level" "r_seq r = lt_globalSeq t + 1"
        "deliverRecordToWriter ft i level f k sprintf src nano t
          = ?t\<lparr>lt_samplers := ss, lt_loggers := ls, lt_globalSeq := lt_globalSeq t + 1, lt_pending := lt_pending t @ [r]\<rparr>" by blast
  then show ?thesis
  proof cases
    case drop
    have "lt_inv (calls(level := calls level + 1)) n (?t\<lparr>lt_samplers := ss\<rparr>)" by (rule lt_inv_cong [OF o]) simp_all
    then show ?thesis using drop by (intro exI [of _ n]) simp
  next
    case built
    have "lt_inv (calls(level := calls level + 1)) (Suc n)
        (?t\<lparr>lt_globalSeq := lt_globalSeq ?t + 1, lt_pending := lt_pending ?t @ [r]\<rparr>)"
      by (rule lt_inv_built [OF o]) (use built(1,2) assms(2) in simp_all)
    then have "lt_inv (calls(level := calls level + 1)) (Suc n)
        (?t\<lparr>lt_samplers := ss, lt_loggers := ls, lt_globalSeq := lt_globalSeq t + 1, lt_pending := lt_pending t @ [r]\<rparr>)"
      by (rule lt_inv_cong) simp_all
    then show ?thesis using built(3) by (intro exI [of _ "Suc n"]) simp
  qed
qed

lemma mset_take_out: "k < length xs \<Longrightarrow> mset xs = mset (take k xs @ drop (Suc k) xs) + {#xs ! k#}"
proof -
  assume "k < length xs"
  then have "xs = take k xs @ xs ! k # drop (Suc k) xs" by (rule id_take_nth_drop)
  then show ?thesis by (metis add_mset_add_single mset.simps(2) mset_append union_mset_add_mset_right)
qed

lemma lt_inv_enqueue:
  assumes "lt_inv calls n t" and "lt_enqueue k pick t = Some t'"
  shows "lt_inv calls n t'"
proof -
  have k: "k < length (lt_pending t)" using assms(2) by (auto simp: lt_enqueue_def split: if_splits)
  let ?r = "lt_pending t ! k" and ?ps = "take k (lt_pending t) @ drop (Suc k) (lt_pending t)"
  have m: "seqs_of (lt_pending t) = seqs_of ?ps + {#r_seq ?r#}"
    using arg_cong [OF mset_take_out [OF k], of "image_mset r_seq"] by (simp add: seqs_of_def)
  have sub: "set ?ps \<subseteq> set (lt_pending t)" using set_take_subset set_drop_subset by fastforce
  have r: "?r \<in> set (lt_pending t)" using k by simp
  consider "length (lt_records t) < lt_cap t"
      "t' = t\<lparr>lt_pending := ?ps, lt_records := lt_records t @ [?r], lt_enqueued := lt_enqueued t @ [?r]\<rparr>"
    | "t' = t\<lparr>lt_pending := ?ps, lt_retired := lt_retired t @ [?r]\<rparr>"
    using assms(2) by (auto simp: lt_enqueue_def Let_def split: if_splits)
  then show ?thesis
  proof cases
    case 1
    have "lt_queue_ok t'" using 1 assms(1) sub r by (auto simp: lt_inv_def lt_queue_ok_def lt_live_def)
    moreover have "lt_seq_ok n t'" using 1 assms(1) m by (simp add: lt_inv_def lt_seq_ok_def lt_live_def ac_simps)
    ultimately show ?thesis using 1 assms(1) by (simp add: lt_inv_def lt_counts_ok_def)
  next
    case 2
    have "lt_queue_ok t'" using 2 assms(1) sub r by (auto simp: lt_inv_def lt_queue_ok_def lt_live_def)
    moreover have "lt_seq_ok n t'" using 2 assms(1) m by (simp add: lt_inv_def lt_seq_ok_def lt_live_def ac_simps)
    ultimately show ?thesis using 2 assms(1) by (simp add: lt_inv_def lt_counts_ok_def)
  qed
qed

lemma lt_inv_deliver:
  assumes "lt_inv calls n t" and "lt_records t = r # rs"
  shows "lt_inv calls n (boot_deliver r (t\<lparr>lt_records := rs\<rparr>))"
proof -
  have "r \<in> set (lt_live t)" using assms by (simp add: lt_inv_def lt_queue_ok_def lt_live_def)
  then have "r_level r < 9" using assms(1) by (simp add: lt_inv_def lt_queue_ok_def)
  then have "lt_counts_ok calls (boot_deliver r (t\<lparr>lt_records := rs\<rparr>))"
    using assms(1) by (auto simp: lt_inv_def lt_counts_ok_def boot_deliver_def nth_list_update)
  moreover have "lt_queue_ok (boot_deliver r (t\<lparr>lt_records := rs\<rparr>))"
    using assms by (simp add: lt_inv_def lt_queue_ok_def lt_live_def boot_deliver_def)
  moreover have "lt_seq_ok n (boot_deliver r (t\<lparr>lt_records := rs\<rparr>))"
    using assms by (simp add: lt_inv_def lt_seq_ok_def lt_live_def boot_deliver_def)
  ultimately show ?thesis by (simp add: lt_inv_def)
qed

lemma lt_inv_drain:
  assumes "lt_inv calls n t" and "lt_records t = rs"
  shows "lt_inv calls n (fold boot_deliver rs (t\<lparr>lt_records := []\<rparr>))"
  using assms
proof (induction rs arbitrary: t)
  case Nil
  then show ?case by (cases t) simp
next
  case (Cons r rs)
  have "lt_inv calls n (boot_deliver r (t\<lparr>lt_records := rs\<rparr>))" by (rule lt_inv_deliver [OF Cons.prems])
  moreover have "(boot_deliver r (t\<lparr>lt_records := rs\<rparr>))\<lparr>lt_records := []\<rparr> = boot_deliver r (t\<lparr>lt_records := []\<rparr>)"
    by (cases t) (simp add: boot_deliver_def)
  moreover have "lt_records (boot_deliver r (t\<lparr>lt_records := rs\<rparr>)) = rs" by (simp add: boot_deliver_def)
  ultimately show ?case using Cons.IH [of "boot_deliver r (t\<lparr>lt_records := rs\<rparr>)"] by simp
qed

lemma lt_inv_do:
  assumes "lt_inv calls n t" and "lt_do ft e t = Some t'"
  shows "\<exists>n'. n' \<le> Suc n \<and> lt_inv (\<lambda>l. calls l + calls_at l [e]) n' t'"
proof -
  have keep: "\<exists>n'. n' \<le> Suc n \<and> lt_inv (\<lambda>l. calls l + calls_at l [e]) n' t'"
    if "\<And>l. calls_at l [e] = 0" "lt_inv calls n t'"
    using that by (intro exI [of _ n]) simp
  show ?thesis
  proof (cases e)
    case (LCall i level f k sprintf src nano)
    then have "level < 9" "t' = deliverRecordToWriter ft i level f k sprintf src nano t"
      using assms(2) by (auto simp: lt_do_def split: if_splits)
    moreover have "(\<lambda>l. calls l + calls_at l [e]) = calls(level := calls level + 1)" using LCall by auto
    ultimately show ?thesis using lt_inv_call [OF assms(1)] by simp
  next
    case (LEnqueue k pick)
    then show ?thesis using assms lt_inv_enqueue by (intro keep) (auto simp: lt_do_def)
  next
    case LReceive
    then show ?thesis using assms lt_inv_deliver
      by (intro keep) (auto simp: lt_do_def boot_receive_def split: if_splits list.splits)
  next
    case LExit
    then have e: "t' = (fold boot_deliver (lt_records t) (t\<lparr>lt_records := []\<rparr>))\<lparr>lt_exited := True\<rparr>"
      using assms(2) by (auto simp: lt_do_def drainAndExit_def split: if_splits)
    show ?thesis
      by (rule keep) (use LExit e in simp, unfold e, rule lt_inv_cong [OF lt_inv_drain [OF assms(1) refl]], simp_all)
  next
    case (LClose i)
    then show ?thesis using assms(2)
      by (intro keep lt_inv_cong [OF assms(1)]) (auto simp: lt_do_def lt_Close_def Let_def split: if_splits)
  next
    case (LSampling i a b)
    then show ?thesis using assms(2)
      by (intro keep lt_inv_cong [OF assms(1)])
        (auto simp: lt_do_def lt_WithSampling_def install_sampler_def split: if_splits option.splits)
  next
    case (LSetSampling i a b)
    then show ?thesis using assms(2)
      by (intro keep lt_inv_cong [OF assms(1)])
        (auto simp: lt_do_def lt_SetSampling_def install_sampler_def split: if_splits option.splits)
  qed (use assms(2) in \<open>(intro keep lt_inv_cong [OF assms(1)]; auto simp: lt_do_def split: if_splits)\<close>)+
qed

lemma calls_at_Cons: "calls_at l (e # es) = calls_at l [e] + calls_at l es"
  by (cases e) simp_all

lemma lt_inv_run:
  assumes "lt_inv calls n t" and "lt_run ft es t = Some t'"
  shows "\<exists>n'. n' \<le> n + length es \<and> lt_inv (\<lambda>l. calls l + calls_at l es) n' t'"
  using assms
proof (induction es arbitrary: calls n t)
  case Nil
  then show ?case by (intro exI [of _ n]) simp
next
  case (Cons e es)
  obtain t1 where t1: "lt_do ft e t = Some t1" "lt_run ft es t1 = Some t'" using Cons.prems(2) by (auto split: option.splits)
  obtain n1 where n1: "n1 \<le> Suc n" "lt_inv (\<lambda>l. calls l + calls_at l [e]) n1 t1"
    using lt_inv_do [OF Cons.prems(1) t1(1)] by blast
  obtain n' where n': "n' \<le> n1 + length es" "lt_inv (\<lambda>l. calls l + calls_at l [e] + calls_at l es) n' t'"
    using Cons.IH [OF n1(2) t1(2)] by blast
  have "(\<lambda>l. calls l + calls_at l (e # es)) = (\<lambda>l. calls l + calls_at l [e] + calls_at l es)"
    by (rule ext) (subst calls_at_Cons, simp)
  then show ?case using n' n1(1) by (intro exI [of _ n']) simp
qed

subsection \<open>Base fields as a map\<close>

definition base_keys :: "field list option \<Rightarrow> string list" where
  "base_keys base = map fd_key (base_list base)"

definition base_look :: "field list option \<Rightarrow> string \<Rightarrow> field_value option" where
  "base_look base k = map_of (map (\<lambda>f. (fd_key f, fd_val f)) (base_list base)) k"

abbreviation "mk_field k v \<equiv> \<lparr>fd_key = k, fd_val = v\<rparr>"

lemma replace_field_keys: "replace_field f fs = Some gs \<Longrightarrow> map fd_key gs = map fd_key fs"
  by (induction fs arbitrary: gs) (auto split: if_splits)

lemma replace_field_none: "replace_field f fs = None \<longleftrightarrow> fd_key f \<notin> set (map fd_key fs)"
  by (induction fs) auto

lemma replace_field_look:
  "replace_field f fs = Some gs
    \<Longrightarrow> map_of (map (\<lambda>f. (fd_key f, fd_val f)) gs) = (map_of (map (\<lambda>f. (fd_key f, fd_val f)) fs))(fd_key f \<mapsto> fd_val f)"
  by (induction fs arbitrary: gs) (auto split: if_splits)

lemma SetBaseField_look: "base_look (SetBaseField f base) = (base_look base)(fd_key f \<mapsto> fd_val f)"
proof (rule ext)
  fix k
  show "base_look (SetBaseField f base) k = ((base_look base)(fd_key f \<mapsto> fd_val f)) k"
  proof (cases base)
    case None
    then show ?thesis by (simp add: base_look_def SetBaseField_def base_list_def)
  next
    case (Some cur)
    show ?thesis
    proof (cases "replace_field f cur")
      case None
      then have "map_of (map (\<lambda>f. (fd_key f, fd_val f)) cur) (fd_key f) = None"
        by (simp add: replace_field_none map_of_eq_None_iff image_image)
      then show ?thesis using Some None
        by (auto simp: base_look_def SetBaseField_def base_list_def map_add_def split: option.splits)
    next
      case (Some nxt)
      then show ?thesis using \<open>base = Some cur\<close>
        by (simp add: base_look_def SetBaseField_def base_list_def replace_field_look)
    qed
  qed
qed

lemma SetBaseField_distinct: "distinct (base_keys base) \<Longrightarrow> distinct (base_keys (SetBaseField f base))"
  by (cases base) (auto simp: base_keys_def base_list_def SetBaseField_def replace_field_none
      dest!: replace_field_keys split: option.splits)

lemma filter_same_length: "length (filter P xs) = length xs \<Longrightarrow> filter P xs = xs"
  by (metis filter_True length_filter_less nat_neq_iff)

lemma RemoveBaseField_list: "base_list (RemoveBaseField k base) = filter (\<lambda>f. fd_key f \<noteq> k) (base_list base)"
  by (cases base) (auto simp: RemoveBaseField_def base_list_def Let_def filter_same_length)

lemma RemoveBaseField_look: "base_look (RemoveBaseField k base) = (base_look base)(k := None)"
proof -
  have "map_of (map (\<lambda>f. (fd_key f, fd_val f)) (filter (\<lambda>f. fd_key f \<noteq> k) fs)) = (map_of (map (\<lambda>f. (fd_key f, fd_val f)) fs))(k := None)"
    for fs :: "field list" by (induction fs) auto
  from fun_cong [OF this] show ?thesis by (intro ext) (simp add: base_look_def RemoveBaseField_list)
qed

lemma RemoveBaseField_distinct: "distinct (base_keys base) \<Longrightarrow> distinct (base_keys (RemoveBaseField k base))"
  by (simp add: base_keys_def RemoveBaseField_list distinct_map_filter)

interpretation bf: map_adt None "\<lambda>k v. SetBaseField (mk_field k v)" RemoveBaseField base_look "\<lambda>b. distinct (base_keys b)" "\<lambda>k. k"
  by unfold_locales
    (simp_all add: SetBaseField_look SetBaseField_distinct RemoveBaseField_look RemoveBaseField_distinct,
      simp_all add: base_keys_def base_look_def base_list_def)

subsection \<open>Temporary sampling windows\<close>

text \<open>
  \<open>SetSamplingStrategyFor\<close>: every call remembers the strategy it replaced; its timer and its \<open>stop\<close> put that
  strategy back.  The timer of a stopped session ends without doing so.
\<close>

record strat_session =
  ss_prev :: "sampling_strategy option"
  ss_fired :: bool
  ss_stopped :: bool

record strat_windows =
  sw_cur :: "sampling_strategy option"
  sw_sessions :: "strat_session list"

definition SetSamplingStrategyFor :: "sampling_strategy option \<Rightarrow> strat_windows \<Rightarrow> strat_windows" where
  "SetSamplingStrategyFor s w =
    \<lparr>sw_cur = s, sw_sessions = sw_sessions w @ [\<lparr>ss_prev = sw_cur w, ss_fired = False, ss_stopped = False\<rparr>]\<rparr>"

definition window_timer :: "nat \<Rightarrow> strat_windows \<Rightarrow> strat_windows" where
  "window_timer i w =
    (let s = sw_sessions w ! i
     in if ss_fired s \<or> ss_stopped s then w
        else w\<lparr>sw_cur := ss_prev s, sw_sessions := (sw_sessions w)[i := s\<lparr>ss_fired := True\<rparr>]\<rparr>)"

definition window_stop :: "nat \<Rightarrow> strat_windows \<Rightarrow> strat_windows" where
  "window_stop i w =
    (let s = sw_sessions w ! i
     in if ss_stopped s then w
        else w\<lparr>sw_cur := ss_prev s, sw_sessions := (sw_sessions w)[i := s\<lparr>ss_stopped := True\<rparr>]\<rparr>)"

lemma window_reverts:
  fixes w :: strat_windows
  defines "i \<equiv> length (sw_sessions w)"
  shows "sw_cur (SetSamplingStrategyFor s w) = s"
    and "sw_cur (window_timer i (SetSamplingStrategyFor s w)) = sw_cur w"
    and "sw_cur (window_stop i (SetSamplingStrategyFor s w)) = sw_cur w"
  by (simp_all add: SetSamplingStrategyFor_def window_timer_def window_stop_def i_def Let_def)

text \<open>
  A second window opened while the first is active does not replace it: the first timer ends the second
  window early, and the second timer then installs the first strategy for good.
\<close>

lemma overlapping_windows_stick:
  fixes w :: strat_windows and a b :: "sampling_strategy option"
  defines "i \<equiv> length (sw_sessions w)"
  defines "w2 \<equiv> SetSamplingStrategyFor b (SetSamplingStrategyFor a w)"
  shows "sw_cur (window_timer i w2) = sw_cur w"
    and "sw_cur (window_timer (Suc i) (window_timer i w2)) = a"
  by (simp_all add: SetSamplingStrategyFor_def window_timer_def i_def w2_def Let_def nth_append)

subsection \<open>What a call builds\<close>

lemma merge_fields_eq: "merge_fields base fs = base_list base @ fs"
  by (simp add: merge_fields_def base_list_def split: option.splits)

text \<open>Closing a child and then its parent closes the shared channel twice.\<close>

lemma close_child_then_root_panics:
  "lt_panicked (lt_Close 0 (lt_Close 1 (the (lt_do ft (LChild 0 fs) (newLogger cap)))))"
  by (simp add: lt_do_def newLogger_def lt_Close_def lg_WithFields_def lg_clone_def)

lemma close_twice_harmless:
  assumes "i < length (lt_loggers t)"
  shows "lt_Close i (lt_Close i t) = lt_Close i t"
  using assms by (simp add: lt_Close_def Let_def)

text \<open>
  The cached text is right for a layout without a fraction, and a logger with a sub-second layout renders
  every instant; its child, however, gives all records of a second the text of the first.
\<close>

definition cache_right :: "(string \<Rightarrow> int \<Rightarrow> string) \<Rightarrow> logger \<Rightarrow> bool" where
  "cache_right ft l \<longleftrightarrow> (\<forall>tm. lg_lastTimeStr l = Some tm \<longrightarrow> (\<exists>nano. nano div 10 ^ 9 = lg_lastTime l \<and> tm = ft (lg_layout l) nano))"

lemma time_text_right:
  assumes "cache_right ft l" and whole: "\<And>a b. a div 10 ^ 9 = b div 10 ^ 9 \<Longrightarrow> ft (lg_layout l) a = ft (lg_layout l) b"
  shows "fst (time_text ft nano l) = ft (lg_layout l) nano" and "cache_right ft (snd (time_text ft nano l))"
proof -
  have "fst (time_text ft nano l) = ft (lg_layout l) nano \<and> cache_right ft (snd (time_text ft nano l))"
  proof (cases "\<exists>tm. lg_lastTimeStr l = Some tm \<and> \<not> lg_hasSubSecond l \<and> lg_lastTime l = nano div 10 ^ 9")
    case True
    then obtain tm where tm: "lg_lastTimeStr l = Some tm" "\<not> lg_hasSubSecond l" "lg_lastTime l = nano div 10 ^ 9" by blast
    then obtain m where "m div 10 ^ 9 = nano div 10 ^ 9" "tm = ft (lg_layout l) m" using assms(1) by (auto simp: cache_right_def)
    then have "tm = ft (lg_layout l) nano" using whole by metis
    with tm assms(1) show ?thesis by (simp add: time_text_def)
  next
    case False
    then have "time_text ft nano l
        = (ft (lg_layout l) nano, l\<lparr>lg_lastTime := nano div 10 ^ 9, lg_lastTimeStr := Some (ft (lg_layout l) nano)\<rparr>)"
      by (auto simp: time_text_def Let_def split: option.splits)
    then show ?thesis by (auto simp: cache_right_def)
  qed
  then show "fst (time_text ft nano l) = ft (lg_layout l) nano" "cache_right ft (snd (time_text ft nano l))" by simp_all
qed

lemma clone_forgets_sub_second:
  fixes l :: logger and ft :: "string \<Rightarrow> int \<Rightarrow> string" and a b :: int
  defines "p \<equiv> lg_SetLayout ''15:04:05.000'' l"
  assumes "a div 10 ^ 9 = b div 10 ^ 9"
  shows "fst (time_text ft b (snd (time_text ft a p))) = ft ''15:04:05.000'' b"
    and "fst (time_text ft b (snd (time_text ft a (lg_clone p)))) = ft ''15:04:05.000'' a"
  using assms(2) by (simp_all add: p_def time_text_def lg_SetLayout_def lg_clone_def Let_def split: option.splits)

text \<open>A record at a priority level passes the verdict of the request and is still dropped by the burst sampler.\<close>

lemma sampler_drops_priority:
  fixes t :: log_tree and m f :: string and n :: int and g :: "string \<Rightarrow> string" and ft :: "string \<Rightarrow> int \<Rightarrow> string"
  defines "t \<equiv> the (lt_run ft [LTune 0 (lg_SetPriorityLevel 3), LSetSampling 0 1 1000, LCall 0 0 m 0 g f n, LCall 0 0 m 0 g f n] (newLogger 4))"
  shows "length (lt_pending t) = 1" and "lt_occurred t ! 0 = 2"
  by (simp_all add: t_def lt_do_def newLogger_def lt_SetSampling_def install_sampler_def sampling_of_def newSampler_def
      Let_def word_le_nat_alt deliverRecordToWriter_def sample_def time_text_def sampler_allow_def lg_SetPriorityLevel_def to_int32_def merge_fields_def)

text \<open>A format with an escaped percent sign gets a verb for each argument although it has them all.\<close>

lemma sprintf_extra_verbs: "sprintf_format ''%d%% done'' 1 = ''%d%% done%v''"
  by (simp add: sprintf_format_def)

subsection \<open>Fields from a context\<close>

text \<open>
  A context is the map from a string key to its value, or \<open>None\<close> for a nil context; extractors return maps.
  A registered nil extractor is never stored by \<open>AddContextExtractor\<close> and is skipped by the loop.
\<close>

type_synonym ctx_values = "string \<rightharpoonup> field_value"
type_synonym extractor = "ctx_values \<Rightarrow> ctx_values"

definition defaultContextTraceKeys :: "string list" where
  "defaultContextTraceKeys =
    [''trace_id'', ''traceID'', ''trace-id'', ''span_id'', ''spanID'', ''span-id'', ''x-request-id'', ''requestId'', ''request_id'',
     ''x-correlation-id'', ''correlation_id'', ''device_id'', ''deviceId'', ''did'', ''dpid'', ''uid'', ''user_id'', ''userId'',
     ''tenant_id'', ''tenantId'', ''org_id'', ''orgId'']"

fun probe_keys :: "string list \<Rightarrow> ctx_values \<Rightarrow> ctx_values" where
  "probe_keys [] ctx = Map.empty"
| "probe_keys (k # ks) ctx = (case ctx k of None \<Rightarrow> probe_keys ks ctx | Some v \<Rightarrow> (probe_keys ks ctx)(k \<mapsto> v))"

definition defaultContextExtractor :: extractor where
  "defaultContextExtractor ctx = probe_keys defaultContextTraceKeys ctx"

fun correlation_loop :: "(field_value \<Rightarrow> string) \<Rightarrow> string list \<Rightarrow> ctx_values \<Rightarrow> string" where
  "correlation_loop text [] ctx = []"
| "correlation_loop text (k # ks) ctx = (case ctx k of Some v \<Rightarrow> text v | None \<Rightarrow> correlation_loop text ks ctx)"

definition correlationIDFromContext :: "(field_value \<Rightarrow> string) \<Rightarrow> ctx_values option \<Rightarrow> string" where
  "correlationIDFromContext text ctx = (case ctx of None \<Rightarrow> [] | Some c \<Rightarrow> correlation_loop text defaultContextTraceKeys c)"

definition AddContextExtractor :: "extractor option \<Rightarrow> extractor list \<Rightarrow> extractor list" where
  "AddContextExtractor fn fns = (case fn of None \<Rightarrow> fns | Some f \<Rightarrow> fns @ [f])"

fun merge_extracted :: "extractor list \<Rightarrow> ctx_values \<Rightarrow> ctx_values \<Rightarrow> ctx_values" where
  "merge_extracted [] ctx merged = merged"
| "merge_extracted (fn # fns) ctx merged = merge_extracted fns ctx (merged ++ fn ctx)"

definition runContextExtractors :: "extractor list \<Rightarrow> ctx_values option \<Rightarrow> ctx_values" where
  "runContextExtractors fns ctx = (case ctx of None \<Rightarrow> Map.empty | Some c \<Rightarrow> merge_extracted fns c Map.empty)"

lemma probe_keys_eq: "probe_keys ks ctx = ctx |` set ks"
  by (induction ks) (auto simp: restrict_map_def fun_eq_iff split: option.splits)

lemma merge_extracted_append: "merge_extracted (fns @ gns) ctx m = merge_extracted gns ctx (merge_extracted fns ctx m)"
  by (induction fns arbitrary: m) simp_all

text \<open>An added extractor overrides the earlier ones on its own keys and leaves the other keys to them.\<close>

lemma added_extractor_overrides:
  "runContextExtractors (AddContextExtractor (Some f) fns) (Some ctx) = runContextExtractors fns (Some ctx) ++ f ctx"
  by (simp add: runContextExtractors_def AddContextExtractor_def merge_extracted_append)

text \<open>
  The built-in extractor finds a field in every context that gives a correlation id, so a request that is
  sampled by its id also carries it.
\<close>

lemma correlation_id_is_logged:
  assumes "correlationIDFromContext text (Some ctx) \<noteq> []"
  obtains k v where "defaultContextExtractor ctx k = Some v" "correlationIDFromContext text (Some ctx) = text v"
proof -
  have "\<exists>k v. k \<in> set ks \<and> ctx k = Some v \<and> correlation_loop text ks ctx = text v" if "correlation_loop text ks ctx \<noteq> []" for ks
    using that by (induction ks) (auto split: option.splits)
  from this [of defaultContextTraceKeys] assms obtain k v where "k \<in> set defaultContextTraceKeys" "ctx k = Some v"
    "correlation_loop text defaultContextTraceKeys ctx = text v" by (auto simp: correlationIDFromContext_def)
  then show ?thesis using that [of k v]
    by (simp add: correlationIDFromContext_def defaultContextExtractor_def probe_keys_eq restrict_map_def)
qed

lemma lt_do_cap: "lt_do ft e t = Some t' \<Longrightarrow> lt_cap t' = lt_cap t"
proof -
  have d: "lt_cap (fold boot_deliver rs t0) = lt_cap t0" for rs t0
    by (induction rs arbitrary: t0) (simp_all add: boot_deliver_def)
  show "lt_do ft e t = Some t' \<Longrightarrow> lt_cap t' = lt_cap t"
  proof (cases e)
    case (LCall i level f n sprintf src nano)
    then show "lt_do ft e t = Some t' \<Longrightarrow> lt_cap t' = lt_cap t"
      using deliver_cases [of ft i level f n sprintf src nano t] by (auto simp: lt_do_def split: if_splits)
  qed (auto simp: lt_do_def lt_enqueue_def boot_receive_def boot_deliver_def drainAndExit_def d lt_Close_def lt_WithSampling_def
      lt_SetSampling_def install_sampler_def Let_def split: if_splits list.splits option.splits)
qed

lemma lt_run_cap: "lt_run ft es t = Some t' \<Longrightarrow> lt_cap t' = lt_cap t"
  by (induction es arbitrary: t) (auto simp: lt_do_cap split: option.splits)

subsection \<open>Theorems\<close>

text \<open>A write to the base fields: \<open>SetBaseField\<close> with a value, or \<open>RemoveBaseField\<close>.\<close>

fun base_write :: "string \<times> field_value option \<Rightarrow> field list option \<Rightarrow> field list option" where
  "base_write (k, Some v) base = SetBaseField (mk_field k v) base"
| "base_write (k, None) base = RemoveBaseField k base"

lemma base_write_apply: "base_write w = bf.apply_write w"
  by (rule ext) (cases w; cases "snd w"; simp)

lemma last_write_map_of: "bf.last_write k ws v = (case map_of (rev ws) k of None \<Rightarrow> v | Some u \<Rightarrow> u)"
proof (induction ws arbitrary: v)
  case (Cons w ws)
  then show ?case by (cases w) (auto simp: map_add_def split: option.splits)
qed simp

text \<open>
  C28. The base fields are a map: after any sequence of \<open>SetBaseField\<close> and \<open>RemoveBaseField\<close> from a fresh
  logger the keys are distinct and a key has the value of its last write, or no field when that was a
  removal; and a record carries the base fields followed by the fields of its logger.
\<close>

theorem base_fields_last_write:
  "distinct (base_keys (fold base_write ws None))
    \<and> base_look (fold base_write ws None) k = (case map_of (rev ws) k of None \<Rightarrow> None | Some u \<Rightarrow> u)
    \<and> merge_fields (fold base_write ws None) fs = base_list (fold base_write ws None) @ fs"
proof -
  have e: "fold base_write ws None = fold bf.apply_write ws None"
    by (simp add: base_write_apply cong: fold_cong)
  have "distinct (base_keys (None :: field list option))" by (simp add: base_keys_def base_list_def)
  from bf.look_history [OF this, of ws k] show ?thesis
    by (simp add: e last_write_map_of bf.look_fresh merge_fields_eq)
qed

text \<open>
  C27. Whatever the interleaving of log calls on a logger and its children, hand-overs, deliveries,
  reconfiguration and shutdown: the records that entered the channel are those delivered followed by those
  waiting, in that order; the channel never exceeds its capacity; per level, \<open>Occurred\<close> is the number of
  calls and \<open>Written\<close> the number of records delivered; and no two records carry the same sequence number in
  fewer than \<open>2^64\<close> steps.
\<close>

theorem logger_accounts:
  assumes "lt_run ft evs (newLogger cap) = Some t"
  shows "lt_enqueued t = lt_delivered t @ lt_records t \<and> length (lt_records t) \<le> cap
    \<and> (\<forall>l<9. lt_occurred t ! l = word_of_nat (calls_at l evs)
         \<and> lt_written t ! l = word_of_nat (length (filter (\<lambda>r. r_level r = l) (lt_delivered t))))
    \<and> (length evs < 2 ^ 64 \<longrightarrow> distinct (map r_seq (lt_pending t @ lt_enqueued t @ lt_retired t)))"
proof -
  obtain n where n: "n \<le> length evs" "lt_inv (\<lambda>l. calls_at l evs) n t"
    using lt_inv_run [OF newLogger_inv assms] by auto
  have "distinct (map r_seq (lt_live t))" if "length evs < 2 ^ 64"
  proof -
    have "mset (map r_seq (lt_live t)) = mset (map word_of_nat [1..<Suc n])"
      using n(2) by (simp add: lt_inv_def lt_seq_ok_def seqs_of_def first_seqs_def)
    moreover have "distinct (map word_of_nat [1..<Suc n] :: 64 word list)"
      using n(1) that by (intro first_seqs_distinct) simp
    ultimately show ?thesis by (metis mset_eq_imp_distinct_iff)
  qed
  moreover have "lt_cap t = cap" using lt_run_cap [OF assms] by (simp add: newLogger_def)
  ultimately show ?thesis
    using n(2) unfolding lt_inv_def lt_queue_ok_def lt_counts_ok_def at_level_def lt_live_def by blast
qed

theorem logger_accounts_witness:
  "(\<exists>t. lt_run (\<lambda>_ _. []) [LChild 0 [], LCall 1 3 ''a'' 0 id [] 0, LCall 0 6 ''b'' 0 id [] 1, LEnqueue 1 False, LReceive, LClose 0, LExit] (newLogger 2) = Some t
    \<and> lt_occurred t ! 6 = 1 \<and> lt_written t ! 6 = 1 \<and> lt_enqueued t = lt_delivered t @ lt_records t
    \<and> length (lt_records t) \<le> 2
    \<and> distinct (map r_seq (lt_pending t @ lt_enqueued t @ lt_retired t)))"
proof -
  let ?evs = "[LChild 0 [], LCall 1 3 ''a'' 0 id [] 0, LCall 0 6 ''b'' 0 id [] 1, LEnqueue 1 False, LReceive, LClose 0, LExit]"
  have "\<exists>t. lt_run (\<lambda>_ _. []) ?evs (newLogger 2) = Some t \<and> length (filter (\<lambda>r. r_level r = 6) (lt_delivered t)) = 1"
    by (simp add: lt_do_def newLogger_def lg_WithFields_def lg_clone_def deliverRecordToWriter_def sample_def time_text_def call_msg_def merge_fields_def
        lt_enqueue_def boot_receive_def boot_deliver_def lt_Close_def drainAndExit_def Let_def)
  then obtain t where t: "lt_run (\<lambda>_ _. []) ?evs (newLogger 2) = Some t" "length (filter (\<lambda>r. r_level r = 6) (lt_delivered t)) = 1" by blast
  have "lt_occurred t ! 6 = 1" "lt_written t ! 6 = 1" using logger_accounts [OF t(1)] t(2) by auto
  moreover have "length ?evs < 2 ^ 64" by simp
  with logger_accounts [OF t(1)] have "lt_enqueued t = lt_delivered t @ lt_records t" "length (lt_records t) \<le> 2"
    "distinct (map r_seq (lt_pending t @ lt_enqueued t @ lt_retired t))" by blast+
  ultimately show ?thesis using t(1) by blast
qed

text \<open>
  Shutdown loses nothing that was accepted before the goroutine left: in a run that ends with its exit,
  every record that entered the channel has been delivered to the writers, in order.
\<close>
lemma logger_exit_drains:
  assumes "lt_run ft (evs @ [LExit]) (newLogger cap) = Some t"
  shows "lt_quit t \<and> lt_exited t \<and> lt_records t = [] \<and> lt_delivered t = lt_enqueued t"
proof -
  have split: "lt_run ft (es @ [e]) t0 = (case lt_run ft es t0 of None \<Rightarrow> None | Some t1 \<Rightarrow> lt_do ft e t1)" for es e t0
    by (induction es arbitrary: t0) (simp_all split: option.splits)
  obtain t1 where t1: "lt_run ft evs (newLogger cap) = Some t1" "drainAndExit t1 = Some t"
    using assms by (auto simp: split lt_do_def split: option.splits)
  have keep: "lt_records (fold boot_deliver rs t0) = lt_records t0 \<and> lt_quit (fold boot_deliver rs t0) = lt_quit t0" for rs t0
    by (induction rs arbitrary: t0) (simp_all add: boot_deliver_def)
  obtain n where "lt_inv (\<lambda>l. calls_at l (evs @ [LExit])) n t"
    using lt_inv_run [OF newLogger_inv assms] by auto
  then have "lt_enqueued t = lt_delivered t @ lt_records t" by (simp add: lt_inv_def lt_queue_ok_def)
  with t1(2) show ?thesis by (auto simp: drainAndExit_def keep split: if_splits)
qed

end
