(* ===== verification/Shortlink.thy ===== *)
theory Shortlink
  imports Prelude "HOL-Library.Word"
begin

section \<open>Package shortlink: short codes for URLs\<close>

text \<open>
  \<open>src/shortlink/shortlink.go\<close>: random codes kept in a store, and codes that encode a counter in a base
  given by an alphabet.  The store is an interface of the package and here the locale \<open>link_store\<close>, with
  \<open>MemoryStore\<close> as its interpretation; the random source is a function from the number of the draw to its
  answer, \<open>None\<close> being an error of the reader.  An index out of the range of the alphabet or of the 64-byte
  buffer is a panic, the outer \<open>None\<close>.
\<close>

datatype sl_error = sl_ErrNotFound | ErrEmptyURL | sl_ErrCollision | ErrCodeSpaceExhausted | sl_ErrRandom | sl_ErrStore string
  | sl_ErrInvalidChar | sl_ErrCodeOverflow

definition sl_Alphabet :: string where
  "sl_Alphabet = ''0123456789ABCDEFGHIJKLMNOPQRSTUVWXYZabcdefghijklmnopqrstuvwxyz''"

record sl_config =
  sl_codeLen :: int
  sl_alphabet :: string
  sl_retries :: int

datatype sl_option = WithCodeLength int | WithAlphabet string | WithRetries int

fun unique_loop :: "string \<Rightarrow> char set \<Rightarrow> bool" where
  "unique_loop [] seen = True"
| "unique_loop (c # cs) seen = (if c \<in> seen then False else unique_loop cs (insert c seen))"

definition uniqueChars :: "string \<Rightarrow> bool" where
  "uniqueChars s = unique_loop s {}"

fun sl_apply :: "sl_option \<Rightarrow> sl_config \<Rightarrow> sl_config" where
  "sl_apply (WithCodeLength n) c = (if 0 < n then c\<lparr>sl_codeLen := n\<rparr> else c)"
| "sl_apply (WithAlphabet s) c = (if 1 < length s \<and> uniqueChars s then c\<lparr>sl_alphabet := s\<rparr> else c)"
| "sl_apply (WithRetries n) c = (if 0 \<le> n then c\<lparr>sl_retries := n\<rparr> else c)"

definition sl_defaults :: "sl_config \<Rightarrow> sl_config" where
  "sl_defaults c =
    (let c1 = (if sl_codeLen c \<le> 0 then c\<lparr>sl_codeLen := 6\<rparr> else c);
         c2 = (if sl_alphabet c1 = [] then c1\<lparr>sl_alphabet := sl_Alphabet\<rparr> else c1)
     in if sl_retries c2 \<le> 0 then c2\<lparr>sl_retries := 3\<rparr> else c2)"

definition sl_New :: "sl_option list \<Rightarrow> sl_config" where
  "sl_New opts = sl_defaults (fold sl_apply opts \<lparr>sl_codeLen = 0, sl_alphabet = [], sl_retries = 0\<rparr>)"

subsection \<open>Random codes\<close>

fun random_chars :: "(nat \<Rightarrow> nat option) \<Rightarrow> string \<Rightarrow> nat \<Rightarrow> nat \<Rightarrow> string option \<times> nat" where
  "random_chars rnd alpha 0 k = (Some [], k)"
| "random_chars rnd alpha (Suc n) k =
    (case rnd k of
       None \<Rightarrow> (None, Suc k)
     | Some idx \<Rightarrow>
         case random_chars rnd alpha n (Suc k) of
           (None, k') \<Rightarrow> (None, k')
         | (Some code, k') \<Rightarrow> (Some (alpha ! idx # code), k'))"

definition randomCode :: "(nat \<Rightarrow> nat option) \<Rightarrow> sl_config \<Rightarrow> nat \<Rightarrow> string option \<times> nat" where
  "randomCode rnd cfg k = random_chars rnd (sl_alphabet cfg) (nat (sl_codeLen cfg)) k"

text \<open>The loop of \<open>Generate\<close> with the attempts it has left; \<open>save\<close> is the store's \<open>Save\<close>.\<close>

fun generate_loop ::
  "(string \<Rightarrow> string \<Rightarrow> 's \<Rightarrow> sl_error option \<times> 's) \<Rightarrow> (nat \<Rightarrow> nat option) \<Rightarrow> sl_config \<Rightarrow> string \<Rightarrow> nat \<Rightarrow> nat \<Rightarrow> 's
    \<Rightarrow> (sl_error + string) \<times> nat \<times> 's" where
  "generate_loop save rnd cfg url 0 k s = (Inl ErrCodeSpaceExhausted, k, s)"
| "generate_loop save rnd cfg url (Suc a) k s =
    (case randomCode rnd cfg k of
       (None, k') \<Rightarrow> (Inl sl_ErrRandom, k', s)
     | (Some code, k') \<Rightarrow>
         case save code url s of
           (None, s') \<Rightarrow> (Inr code, k', s')
         | (Some e, s') \<Rightarrow> if e \<noteq> sl_ErrCollision then (Inl e, k', s') else generate_loop save rnd cfg url a k' s')"

definition Generate ::
  "(string \<Rightarrow> string \<Rightarrow> 's \<Rightarrow> sl_error option \<times> 's) \<Rightarrow> (nat \<Rightarrow> nat option) \<Rightarrow> sl_config \<Rightarrow> string \<Rightarrow> nat \<Rightarrow> 's
    \<Rightarrow> (sl_error + string) \<times> nat \<times> 's" where
  "Generate save rnd cfg url k s =
    (if url = [] then (Inl ErrEmptyURL, k, s) else generate_loop save rnd cfg url (nat (sl_retries cfg + 1)) k s)"

definition sl_Resolve :: "(string \<Rightarrow> 's \<Rightarrow> string option) \<Rightarrow> string \<Rightarrow> 's \<Rightarrow> sl_error + string" where
  "sl_Resolve load code s = (case load code s of None \<Rightarrow> Inl sl_ErrNotFound | Some url \<Rightarrow> Inr url)"

subsection \<open>MemoryStore\<close>

type_synonym memory_store = "string \<rightharpoonup> string"

definition NewMemoryStore :: memory_store where "NewMemoryStore = Map.empty"

definition ms_Save :: "string \<Rightarrow> string \<Rightarrow> memory_store \<Rightarrow> sl_error option \<times> memory_store" where
  "ms_Save code url s = (case s code of Some _ \<Rightarrow> (Some sl_ErrCollision, s) | None \<Rightarrow> (None, s(code \<mapsto> url)))"

definition ms_Load :: "string \<Rightarrow> memory_store \<Rightarrow> string option" where
  "ms_Load code s = s code"

subsection \<open>Codes of a counter\<close>

record id_shortener =
  ids_alphabet :: string
  ids_counter :: "64 word"

definition NewIDShortener :: "string \<Rightarrow> 64 word \<Rightarrow> id_shortener" where
  "NewIDShortener alphabet startID =
    \<lparr>ids_alphabet = (if length alphabet \<le> 1 \<or> \<not> uniqueChars alphabet then sl_Alphabet else alphabet), ids_counter = startID\<rparr>"

function encode_digits :: "string \<Rightarrow> nat \<Rightarrow> 64 word \<Rightarrow> string \<Rightarrow> string option" where
  "encode_digits alphabet i ident buf =
    (if ident = 0 then Some buf
     else let d = unat (ident mod word_of_nat (length alphabet))
          in if i = 0 \<or> length alphabet \<le> d then None
             else encode_digits alphabet (i - 1) (ident div word_of_nat (length alphabet)) (alphabet ! d # buf))"
  by pat_completeness auto
termination
  by (relation "measure (\<lambda>(alphabet, i, ident, buf). i)") auto

declare encode_digits.simps [simp del]

definition encodeBaseN :: "64 word \<Rightarrow> string \<Rightarrow> string option" where
  "encodeBaseN ident alphabet =
    (if ident = 0 then (if alphabet = [] then None else Some [alphabet ! 0]) else encode_digits alphabet 64 ident [])"

definition char_index :: "string \<Rightarrow> char \<rightharpoonup> nat" where
  "char_index alphabet = foldl (\<lambda>m i. m(alphabet ! i \<mapsto> i)) Map.empty [0..<length alphabet]"

fun decode_digits :: "string \<Rightarrow> string \<Rightarrow> 64 word \<Rightarrow> sl_error + 64 word" where
  "decode_digits alphabet [] result = Inr result"
| "decode_digits alphabet (c # cs) result =
    (case char_index alphabet c of
       None \<Rightarrow> Inl sl_ErrInvalidChar
     | Some i \<Rightarrow>
         let val = word_of_nat i; n = word_of_nat (length alphabet)
         in if (- 1 - val) div n < result then Inl sl_ErrCodeOverflow
            else decode_digits alphabet cs (result * n + val))"

definition decodeBaseN :: "string \<Rightarrow> string \<Rightarrow> sl_error + 64 word" where
  "decodeBaseN code alphabet = decode_digits alphabet code 0"

definition ids_Encode :: "64 word \<Rightarrow> id_shortener \<Rightarrow> string option" where
  "ids_Encode ident s = encodeBaseN ident (ids_alphabet s)"

definition ids_Decode :: "string \<Rightarrow> id_shortener \<Rightarrow> sl_error + 64 word" where
  "ids_Decode code s = decodeBaseN code (ids_alphabet s)"

definition ids_Next :: "id_shortener \<Rightarrow> string option \<times> id_shortener" where
  "ids_Next s = (let c = ids_counter s + 1 in (ids_Encode c s, s\<lparr>ids_counter := c\<rparr>))"

subsection \<open>Alphabets\<close>

lemma unique_loop_eq: "unique_loop s seen \<longleftrightarrow> distinct s \<and> set s \<inter> seen = {}"
  by (induction s arbitrary: seen) auto

lemma uniqueChars_eq: "uniqueChars s \<longleftrightarrow> distinct s"
  by (simp add: uniqueChars_def unique_loop_eq)

definition good_alphabet :: "string \<Rightarrow> bool" where
  "good_alphabet a \<longleftrightarrow> 1 < length a \<and> distinct a"

lemma sl_Alphabet_good: "good_alphabet sl_Alphabet"
  by (simp add: good_alphabet_def sl_Alphabet_def)

lemma NewIDShortener_good: "good_alphabet (ids_alphabet (NewIDShortener alphabet start))"
  using sl_Alphabet_good by (auto simp: NewIDShortener_def uniqueChars_eq good_alphabet_def)

text \<open>A string of different bytes has at most 256 of them.\<close>

lemma good_alphabet_length:
  assumes "good_alphabet a"
  shows "2 \<le> length a" "length a \<le> 256" "0 < length a"
proof -
  show "0 < length a" using assms by (auto simp: good_alphabet_def)
  show "2 \<le> length a" using assms by (simp add: good_alphabet_def)
  have "length a = card (set a)" using assms by (simp add: good_alphabet_def distinct_card)
  also have "\<dots> \<le> card (UNIV :: char set)" by (intro card_mono) simp_all
  finally show "length a \<le> 256" by (simp add: card_UNIV_char)
qed

lemma char_index_some:
  assumes "distinct a"
  shows "char_index a c = Some i \<longleftrightarrow> i < length a \<and> a ! i = c"
proof -
  have "foldl (\<lambda>m i. m(a ! i \<mapsto> i)) Map.empty [0..<n] c = Some i \<longleftrightarrow> i < n \<and> a ! i = c" if "n \<le> length a" for n
    using that
  proof (induction n)
    case (Suc n)
    have "a ! i = a ! n \<longleftrightarrow> i = n" if "i < Suc n" using that Suc.prems assms by (simp add: nth_eq_iff_index_eq)
    with Suc show ?case by (auto simp: less_Suc_eq)
  qed simp
  then show ?thesis by (simp add: char_index_def)
qed

lemma char_index_none: "distinct a \<Longrightarrow> char_index a c = None \<longleftrightarrow> c \<notin> set a"
  using char_index_some [of a c] by (cases "char_index a c") (auto simp: in_set_conv_nth)

subsection \<open>The codec\<close>

text \<open>The number a code stands for, without a bound.\<close>

definition digit_of :: "string \<Rightarrow> char \<Rightarrow> nat" where
  "digit_of a c = the (char_index a c)"

definition code_value_from :: "string \<Rightarrow> nat \<Rightarrow> string \<Rightarrow> nat" where
  "code_value_from a r code = foldl (\<lambda>r c. r * length a + digit_of a c) r code"

abbreviation "code_value a code \<equiv> code_value_from a 0 code"

lemma code_value_simps [simp]:
  "code_value_from a r [] = r" "code_value_from a r (c # cs) = code_value_from a (r * length a + digit_of a c) cs"
  by (simp_all add: code_value_from_def)

lemma code_value_mono: "r \<le> r' \<Longrightarrow> 0 < length a \<Longrightarrow> r \<le> code_value_from a r' code"
proof (induction code arbitrary: r')
  case (Cons c cs)
  then have "r \<le> r' * length a + digit_of a c" by (metis (no_types, opaque_lifting) Suc_leI le_add1 le_trans mult.right_neutral mult_le_mono2 One_nat_def)
  then show ?case using Cons.IH Cons.prems by simp
qed simp

lemma code_value_append: "code_value_from a r (xs @ ys) = code_value_from a (code_value_from a r xs) ys"
  by (simp add: code_value_from_def)

lemma digit_of_lt: "good_alphabet a \<Longrightarrow> c \<in> set a \<Longrightarrow> digit_of a c < length a"
  using char_index_some [of a c] char_index_none [of a c] by (cases "char_index a c") (auto simp: good_alphabet_def digit_of_def)

lemma digit_of_nth: "good_alphabet a \<Longrightarrow> i < length a \<Longrightarrow> digit_of a (a ! i) = i"
  using char_index_some [of a "a ! i" i] by (simp add: good_alphabet_def digit_of_def)

text \<open>The guard before the multiplication is exactly the overflow of the exact value.\<close>

lemma unat_minus_one_word_64: "unat (- 1 :: 64 word) = 2 ^ 64 - 1"
  by (simp add: unsigned_minus_1_eq_mask mask_eq_exp_minus_1)

lemma unat_lt_64: "unat (w :: 64 word) < 2 ^ 64"
  using unsigned_less [of w] by simp

lemma overflow_guard:
  fixes r :: "64 word"
  assumes "2 \<le> N" "N \<le> 256" "v < N"
  shows "(- 1 - word_of_nat v) div word_of_nat N < r \<longleftrightarrow> 2 ^ 64 \<le> unat r * N + v"
    and "unat r * N + v < 2 ^ 64 \<Longrightarrow> unat (r * word_of_nat N + word_of_nat v) = unat r * N + v"
proof -
  have uN: "unat (word_of_nat N :: 64 word) = N" and uv: "unat (word_of_nat v :: 64 word) = v"
    using assms by (simp_all add: unat_of_nat take_bit_nat_eq_self)
  have "unat (- 1 - word_of_nat v :: 64 word) = 2 ^ 64 - 1 - v"
    using uv unat_lt_64 [of "word_of_nat v"] by (subst unat_sub) (simp_all add: word_le_nat_alt unat_minus_one_word_64)
  then have "(- 1 - word_of_nat v) div word_of_nat N < r \<longleftrightarrow> (2 ^ 64 - 1 - v) div N < unat r"
    by (simp add: word_less_nat_alt unat_div uN)
  also have "\<dots> \<longleftrightarrow> 2 ^ 64 - 1 - v < unat r * N" using assms by (subst div_less_iff_less_mult) simp_all
  also have "\<dots> \<longleftrightarrow> 2 ^ 64 \<le> unat r * N + v"
  proof -
    have "2 ^ 64 - 1 - v < x \<longleftrightarrow> 2 ^ 64 \<le> x + v" for x :: nat using assms by simp arith
    then show ?thesis .
  qed
  finally show "(- 1 - word_of_nat v) div word_of_nat N < r \<longleftrightarrow> 2 ^ 64 \<le> unat r * N + v" .
  assume "unat r * N + v < 2 ^ 64"
  then show "unat (r * word_of_nat N + word_of_nat v) = unat r * N + v"
    by (simp add: unat_word_ariths uN uv take_bit_nat_eq_self mod_less)
qed

lemma decode_digits_exact:
  assumes "good_alphabet a"
  shows "decode_digits a code r = Inr v \<longleftrightarrow> set code \<subseteq> set a \<and> code_value_from a (unat r) code = unat v"
proof (induction code arbitrary: r)
  case Nil
  show ?case by (auto simp: word_unat_eq_iff)
next
  case (Cons c cs)
  note N = good_alphabet_length(1,2) [OF assms] and pos = good_alphabet_length(3) [OF assms]
  show ?case
  proof (cases "char_index a c")
    case None
    then have "c \<notin> set a" using assms char_index_none by (auto simp: good_alphabet_def)
    then show ?thesis using None by simp
  next
    case (Some i)
    then have i: "i < length a" "c \<in> set a" "digit_of a c = i"
      using assms char_index_some [of a c i] by (auto simp: good_alphabet_def digit_of_def)
    show ?thesis
    proof (cases "2 ^ 64 \<le> unat r * length a + i")
      case True
      have "unat r * length a + i \<le> code_value_from a (unat r * length a + i) cs"
        by (intro code_value_mono pos) simp
      with True have "unat v < code_value_from a (unat r * length a + i) cs"
        using unat_lt_64 [of v] by simp
      then show ?thesis using True Some i overflow_guard(1) [OF N i(1), of r] by (simp add: Let_def)
    next
      case False
      then show ?thesis using Some i overflow_guard [OF N i(1), of r] Cons.IH by (simp add: Let_def)
    qed
  qed
qed

lemma encode_digits_value:
  assumes "good_alphabet a" and "unat ident < length a ^ i"
  shows "\<exists>code. encode_digits a i ident buf = Some (code @ buf) \<and> set code \<subseteq> set a \<and> code_value a code = unat ident"
  using assms(2)
proof (induction i arbitrary: ident buf)
  case 0
  then have "ident = 0" by (simp add: unat_eq_zero)
  then show ?case by (intro exI [of _ "[]"]) (simp add: encode_digits.simps)
next
  case (Suc i)
  note N = good_alphabet_length [OF assms(1)]
  let ?n = "word_of_nat (length a) :: 64 word"
  have n: "unat ?n = length a" using N by (simp add: unat_of_nat take_bit_nat_eq_self)
  show ?case
  proof (cases "ident = 0")
    case True
    then show ?thesis by (intro exI [of _ "[]"]) (simp add: encode_digits.simps)
  next
    case False
    let ?d = "unat (ident mod ?n)"
    have d: "?d = unat ident mod length a" by (simp add: unat_mod n)
    then have dl: "?d < length a" using N(3) by (simp only: mod_less_divisor)
    have q: "unat (ident div ?n) = unat ident div length a" by (simp add: unat_div n)
    have "unat (ident div ?n) < length a ^ i"
      using Suc.prems N unfolding q by (subst div_less_iff_less_mult) (simp_all add: mult.commute)
    from Suc.IH [OF this, of "a ! ?d # buf"] obtain code where
      c: "encode_digits a i (ident div ?n) (a ! ?d # buf) = Some (code @ a ! ?d # buf)" "set code \<subseteq> set a"
        "code_value a code = unat (ident div ?n)" by blast
    have "encode_digits a (Suc i) ident buf = Some ((code @ [a ! ?d]) @ buf)"
      using False dl c(1) by (subst encode_digits.simps) (simp add: Let_def)
    moreover have "code_value a (code @ [a ! ?d]) = unat ident"
      using c(3) digit_of_nth [OF assms(1) dl] by (simp add: code_value_append q d)
    moreover have "set (code @ [a ! ?d]) \<subseteq> set a" using c(2) dl by simp
    ultimately show ?thesis by blast
  qed
qed

lemma encodeBaseN_value:
  assumes "good_alphabet a"
  shows "\<exists>code. encodeBaseN ident a = Some code \<and> set code \<subseteq> set a \<and> code_value a code = unat ident"
proof (cases "ident = 0")
  case True
  have "0 < length a" using good_alphabet_length(3) [OF assms] .
  then show ?thesis using True digit_of_nth [OF assms, of 0] by (auto simp: encodeBaseN_def)
next
  case False
  have "unat ident < 2 ^ 64" using unat_lt_64 [of ident] by simp
  also have "(2 :: nat) ^ 64 \<le> length a ^ 64" using good_alphabet_length(1) [OF assms] by (intro power_mono) simp_all
  finally obtain code where "encode_digits a 64 ident [] = Some (code @ [])" "set code \<subseteq> set a" "code_value a code = unat ident"
    using encode_digits_value [OF assms, of ident 64 "[]"] by blast
  then show ?thesis using False by (simp add: encodeBaseN_def)
qed

subsection \<open>The store\<close>

text \<open>
  What \<open>Store\<close> promises: \<open>Save\<close> keeps a mapping it accepts, refuses a code it holds with the collision
  error, and touches nothing else.
\<close>

locale link_store =
  fixes save :: "string \<Rightarrow> string \<Rightarrow> 's \<Rightarrow> sl_error option \<times> 's" and load :: "string \<Rightarrow> 's \<Rightarrow> string option"
  assumes save_new: "load code s = None \<Longrightarrow> save code url s = (None, s') \<Longrightarrow> load code' s' = (if code' = code then Some url else load code' s)"
    and save_refused: "save code url s = (Some e, s') \<Longrightarrow> load code' s' = load code' s"
    and save_taken: "load code s \<noteq> None \<Longrightarrow> fst (save code url s) = Some sl_ErrCollision"
begin

lemma save_ok_fresh: "save code url s = (None, s') \<Longrightarrow> load code s = None"
  using save_taken [of code s url] by (cases "load code s") auto

lemma generate_loop_result:
  assumes "generate_loop save rnd cfg url a k s = (res, k', s')"
  shows "case res of
      Inr code \<Rightarrow> load code s = None \<and> (\<forall>c. load c s' = (if c = code then Some url else load c s))
    | Inl e \<Rightarrow> (\<forall>c. load c s' = load c s) \<and> e \<noteq> sl_ErrCollision"
  using assms
proof (induction a arbitrary: k s)
  case (Suc a)
  show ?case
  proof (cases "randomCode rnd cfg k")
    case (Pair code k1)
    show ?thesis
    proof (cases code)
      case None
      then show ?thesis using Pair Suc.prems by auto
    next
      case (Some c)
      obtain e s1 where sv: "save c url s = (e, s1)" by (cases "save c url s")
      show ?thesis
      proof (cases e)
        case None
        then have "res = Inr c" "s' = s1" using Suc.prems Pair Some sv by auto
        then show ?thesis using sv None save_ok_fresh save_new by auto
      next
        case (Some e')
        note kept = save_refused [OF sv [unfolded Some]]
        show ?thesis
        proof (cases "e' = sl_ErrCollision")
          case True
          then have "generate_loop save rnd cfg url a k1 s1 = (res, k', s')"
            using Suc.prems Pair \<open>code = Some c\<close> sv Some by simp
          from Suc.IH [OF this] show ?thesis by (simp add: kept split: sum.splits)
        next
          case False
          then have "res = Inl e'" "s' = s1" using Suc.prems Pair \<open>code = Some c\<close> sv Some by auto
          then show ?thesis using kept False by simp
        qed
      qed
    qed
  qed
qed auto

text \<open>A run of \<open>Generate\<close> calls: the answers with the final state.\<close>

fun gen_run :: "(nat \<Rightarrow> nat option) \<Rightarrow> sl_config \<Rightarrow> string list \<Rightarrow> nat \<Rightarrow> 's \<Rightarrow> (string \<times> (sl_error + string)) list \<times> 's" where
  "gen_run rnd cfg [] k s = ([], s)"
| "gen_run rnd cfg (u # us) k s =
    (let (res, k', s') = Generate save rnd cfg u k s; (rest, s'') = gen_run rnd cfg us k' s' in ((u, res) # rest, s''))"

lemma Generate_result:
  assumes "Generate save rnd cfg url k s = (res, k', s')"
  shows "case res of
      Inr code \<Rightarrow> load code s = None \<and> (\<forall>c. load c s' = (if c = code then Some url else load c s))
    | Inl e \<Rightarrow> (\<forall>c. load c s' = load c s) \<and> e \<noteq> sl_ErrCollision"
  using assms generate_loop_result [of rnd cfg url _ k s res k' s'] by (cases "url = []") (auto simp: Generate_def)

definition codes :: "(string \<times> (sl_error + string)) list \<Rightarrow> string list" where
  "codes out = List.map_filter (\<lambda>(u, res). case res of Inr c \<Rightarrow> Some c | Inl _ \<Rightarrow> None) out"

lemma gen_run_result:
  assumes "gen_run rnd cfg us k s = (out, s')"
  shows "distinct (codes out) \<and> (\<forall>c\<in>set (codes out). load c s = None)
    \<and> (\<forall>c u. load c s = Some u \<longrightarrow> load c s' = Some u) \<and> (\<forall>(u, res)\<in>set out. \<forall>c. res = Inr c \<longrightarrow> load c s' = Some u)"
  using assms
proof (induction us arbitrary: k s out)
  case (Cons u us)
  obtain res k1 s1 where g: "Generate save rnd cfg u k s = (res, k1, s1)" by (cases "Generate save rnd cfg u k s")
  obtain rest where t: "gen_run rnd cfg us k1 s1 = (rest, s')" "out = (u, res) # rest"
    using Cons.prems g by (auto split: prod.splits)
  note ih = Cons.IH [OF t(1)]
  show ?case
  proof (cases res)
    case (Inl e)
    then show ?thesis using ih t(2) Generate_result [OF g] by (auto simp: codes_def map_filter_simps)
  next
    case (Inr c)
    then have c: "load c s = None" "\<And>x. load x s1 = (if x = c then Some u else load x s)"
      using Generate_result [OF g] by auto
    have "codes out = c # codes rest" using Inr t(2) by (simp add: codes_def map_filter_simps)
    moreover have "load x s' = Some w" if "load x s = Some w" for x w
      using ih c that by (metis option.distinct(1))
    ultimately show ?thesis using ih t(2) c Inr by (auto split: if_splits)
  qed
qed (auto simp: codes_def map_filter_simps)

end

interpretation ms: link_store ms_Save ms_Load
  by unfold_locales (auto simp: ms_Save_def ms_Load_def split: option.splits)

subsection \<open>Theorems\<close>

text \<open>\<open>WithRetries(0)\<close> is accepted by the option and replaced by the default.\<close>

lemma zero_retries_ignored: "sl_retries (sl_New [WithRetries 0]) = 3"
  by (simp add: sl_New_def sl_defaults_def Let_def)

lemma sl_New_positive: "0 < sl_retries (sl_New opts)" "0 < sl_codeLen (sl_New opts)"
  by (simp_all add: sl_New_def sl_defaults_def Let_def)

lemma sl_New_good: "good_alphabet (sl_alphabet (sl_New opts))"
proof -
  have "sl_alphabet (fold sl_apply opts c) = [] \<or> good_alphabet (sl_alphabet (fold sl_apply opts c))"
    if "sl_alphabet c = [] \<or> good_alphabet (sl_alphabet c)" for c
    using that
  proof (induction opts arbitrary: c)
    case (Cons o' opts)
    then show ?case by (cases o') (auto simp: uniqueChars_eq good_alphabet_def)
  qed simp
  from this [of "\<lparr>sl_codeLen = 0, sl_alphabet = [], sl_retries = 0\<rparr>"] show ?thesis
    using sl_Alphabet_good by (auto simp: sl_New_def sl_defaults_def Let_def)
qed

text \<open>
  Over the memory store the codes \<open>Generate\<close> hands out are pairwise different, were not in use before, and
  resolve to their URLs at the end of any run; nothing stored earlier changes, and a collision is never
  reported as such.
\<close>

lemma memory_codes_resolve:
  assumes "ms.gen_run rnd cfg us k s = (out, s')"
  shows "distinct (ms.codes out)" and "(u, Inr c) \<in> set out \<Longrightarrow> sl_Resolve ms_Load c s' = Inr u"
    and "s c = Some w \<Longrightarrow> s' c = Some w"
proof -
  note g = ms.gen_run_result [OF assms]
  show "distinct (ms.codes out)" using g by blast
  show "(u, Inr c) \<in> set out \<Longrightarrow> sl_Resolve ms_Load c s' = Inr u" using g by (fastforce simp: sl_Resolve_def)
  show "s c = Some w \<Longrightarrow> s' c = Some w" using g by (auto simp: ms_Load_def)
qed


text \<open>Codes of different counter values differ, so \<open>Next\<close> repeats nothing in fewer than \<open>2^64\<close> calls.\<close>

lemma encode_injective:
  assumes "good_alphabet a" "encodeBaseN x a = encodeBaseN y a"
  shows "x = y"
proof -
  obtain code where "encodeBaseN x a = Some code" "code_value a code = unat x" using encodeBaseN_value [OF assms(1)] by blast
  moreover obtain code' where "encodeBaseN y a = Some code'" "code_value a code' = unat y" using encodeBaseN_value [OF assms(1)] by blast
  ultimately show ?thesis using assms(2) by (simp add: word_unat_eq_iff)
qed

end
