(* ===== verification/Sliding_Window.thy ===== *)
theory Sliding_Window
  imports Ringbuf Float64
begin

section \<open>Package slidingwindow: rolling aggregates\<close>

text \<open>
  \<open>src/slidingwindow/slidingwindow.go\<close>: the last \<open>N\<close> values with a running sum and cached extremes, and the
  values of the last \<open>ttl\<close>.  The ring of \<open>Window\<close> moves exactly as that of \<open>ringbuf\<close>, so its content is the
  window of \<open>Buffer_Spec\<close>.  Values are finite floats; the answer \<open>NaN\<close> of an empty window is \<open>None\<close>.
\<close>

record window =
  wd_buf :: "rat list"
  wd_head :: nat
  wd_size :: nat
  wd_cap :: nat
  wd_sum :: rat
  wd_hasMinMax :: bool
  wd_minVal :: rat
  wd_maxVal :: rat

definition wd_New :: "int \<Rightarrow> window option" where
  "wd_New capacity =
    (if capacity \<le> 0 then None
     else Some \<lparr>wd_buf = replicate (nat capacity) 0, wd_head = 0, wd_size = 0, wd_cap = nat capacity, wd_sum = 0,
       wd_hasMinMax = False, wd_minVal = 0, wd_maxVal = 0\<rparr>)"

definition wd_store :: "rat \<Rightarrow> window \<Rightarrow> window" where
  "wd_store v w =
    (if wd_size w < wd_cap w then
       (let idx = (wd_head w + wd_size w) mod wd_cap w in w\<lparr>wd_buf := (wd_buf w)[idx := v], wd_size := wd_size w + 1\<rparr>)
     else
       (let old = wd_buf w ! wd_head w;
            w1 = w\<lparr>wd_sum := fl64 (wd_sum w - old), wd_buf := (wd_buf w)[wd_head w := v], wd_head := (wd_head w + 1) mod wd_cap w\<rparr>
        in if wd_hasMinMax w1 \<and> (old = wd_minVal w1 \<or> old = wd_maxVal w1) then w1\<lparr>wd_hasMinMax := False\<rparr> else w1))"

definition wd_Push :: "rat \<Rightarrow> window \<Rightarrow> window" where
  "wd_Push v w0 =
    (let w1 = wd_store v w0; w = w1\<lparr>wd_sum := fl64 (wd_sum w1 + v)\<rparr>
     in if wd_hasMinMax w then
          (let w2 = (if v < wd_minVal w then w\<lparr>wd_minVal := v\<rparr> else w)
           in if wd_maxVal w2 < v then w2\<lparr>wd_maxVal := v\<rparr> else w2)
        else w)"

definition wd_Sum :: "window \<Rightarrow> rat" where "wd_Sum w = wd_sum w"
definition wd_Count :: "window \<Rightarrow> nat" where "wd_Count w = wd_size w"

definition wd_Avg :: "window \<Rightarrow> rat option" where
  "wd_Avg w = (if wd_size w = 0 then None else Some (fl64 (wd_sum w / fl64 (of_nat (wd_size w)))))"

fun minmax_loop :: "window \<Rightarrow> nat list \<Rightarrow> rat \<times> rat \<Rightarrow> rat \<times> rat" where
  "minmax_loop w [] mm = mm"
| "minmax_loop w (i # is) (mn, mx) =
    (let v = wd_buf w ! ((wd_head w + i) mod wd_cap w)
     in minmax_loop w is (if v < mn then v else mn, if mx < v then v else mx))"

definition ensureMinMax :: "window \<Rightarrow> window" where
  "ensureMinMax w =
    (if wd_hasMinMax w then w
     else let (mn, mx) = minmax_loop w [1..<wd_size w] (wd_buf w ! wd_head w, wd_buf w ! wd_head w)
          in w\<lparr>wd_minVal := mn, wd_maxVal := mx, wd_hasMinMax := True\<rparr>)"

definition wd_Min :: "window \<Rightarrow> rat option \<times> window" where
  "wd_Min w = (if wd_size w = 0 then (None, w) else let w' = ensureMinMax w in (Some (wd_minVal w'), w'))"

definition wd_Max :: "window \<Rightarrow> rat option \<times> window" where
  "wd_Max w = (if wd_size w = 0 then (None, w) else let w' = ensureMinMax w in (Some (wd_maxVal w'), w'))"

definition wd_Clear :: "window \<Rightarrow> window" where
  "wd_Clear w = w\<lparr>wd_head := 0, wd_size := 0, wd_sum := 0, wd_hasMinMax := False\<rparr>"

subsection \<open>TimeWindow\<close>

record time_window =
  tw_ttl :: int
  tw_vals :: "(rat \<times> int) list"
  tw_head :: nat
  tw_size :: nat
  tw_cap :: nat
  tw_sum :: rat

definition NewTimeWindow :: "int \<Rightarrow> int \<Rightarrow> time_window option" where
  "NewTimeWindow ttl maxCapacity =
    (if ttl \<le> 0 then None
     else let c = (if maxCapacity \<le> 0 then 1024 else nat maxCapacity)
          in Some \<lparr>tw_ttl = ttl, tw_vals = replicate c (0, 0), tw_head = 0, tw_size = 0, tw_cap = c, tw_sum = 0\<rparr>)"

function tw_evict :: "int \<Rightarrow> time_window \<Rightarrow> time_window" where
  "tw_evict cutoff w =
    (if 0 < tw_size w \<and> snd (tw_vals w ! tw_head w) \<le> cutoff
     then tw_evict cutoff (w\<lparr>tw_sum := fl64 (tw_sum w - fst (tw_vals w ! tw_head w)), tw_head := (tw_head w + 1) mod tw_cap w,
       tw_size := tw_size w - 1\<rparr>)
     else w)"
  by pat_completeness auto
termination
  by (relation "measure (\<lambda>(cutoff, w). tw_size w)") auto

declare tw_evict.simps [simp del]

definition tw_Push :: "rat \<Rightarrow> int \<Rightarrow> time_window \<Rightarrow> time_window" where
  "tw_Push v ts w0 =
    (let w = tw_evict (ts - tw_ttl w0) w0;
         w1 = (if tw_size w < tw_cap w
               then let idx = (tw_head w + tw_size w) mod tw_cap w
                    in w\<lparr>tw_vals := (tw_vals w)[idx := (v, ts)], tw_size := tw_size w + 1\<rparr>
               else w\<lparr>tw_sum := fl64 (tw_sum w - fst (tw_vals w ! tw_head w)), tw_vals := (tw_vals w)[tw_head w := (v, ts)],
                 tw_head := (tw_head w + 1) mod tw_cap w\<rparr>)
     in w1\<lparr>tw_sum := fl64 (tw_sum w1 + v)\<rparr>)"

definition tw_Sum :: "time_window \<Rightarrow> rat" where "tw_Sum w = tw_sum w"
definition tw_Count :: "time_window \<Rightarrow> nat" where "tw_Count w = tw_size w"

definition tw_Avg :: "time_window \<Rightarrow> rat option" where
  "tw_Avg w = (if tw_size w = 0 then None else Some (fl64 (tw_sum w / fl64 (of_nat (tw_size w)))))"

subsection \<open>The content of a window\<close>

definition wd_ring :: "window \<Rightarrow> rat circular_buffer" where
  "wd_ring w = \<lparr>cb_buf = wd_buf w, cb_head = wd_head w, cb_size = wd_size w, cb_cap = wd_cap w\<rparr>"

definition wd_items :: "window \<Rightarrow> rat list" where
  "wd_items w = ringbuf_ToSlice (wd_ring w)"

lemma wd_Push_ring: "wd_ring (wd_Push v w) = ringbuf_Push v (wd_ring w)"
  by (simp add: wd_ring_def wd_Push_def wd_store_def ringbuf_Push_def Let_def)

lemma length_wd_items [simp]: "length (wd_items w) = wd_size w"
  by (simp add: wd_items_def wd_ring_def)

lemma wd_items_nth: "i < wd_size w \<Longrightarrow> wd_items w ! i = wd_buf w ! ((wd_head w + i) mod wd_cap w)"
  by (simp add: wd_items_def wd_ring_def ringbuf_ToSlice_def)

abbreviation "lo xs \<equiv> Min (set xs)"
abbreviation "hi xs \<equiv> Max (set xs)"

text \<open>The invariant for the values seen since the window was emptied.\<close>

definition wd_ok :: "nat \<Rightarrow> rat list \<Rightarrow> window \<Rightarrow> bool" where
  "wd_ok cap vs w \<longleftrightarrow> cb_wf cap (wd_ring w) \<and> wd_items w = last_n cap vs
    \<and> (wd_hasMinMax w \<longrightarrow> 0 < wd_size w \<and> wd_minVal w = lo (wd_items w) \<and> wd_maxVal w = hi (wd_items w))"

lemma minmax_loop_eq:
  "minmax_loop w is (mn, mx)
    = (fold (\<lambda>i m. min (wd_buf w ! ((wd_head w + i) mod wd_cap w)) m) is mn,
       fold (\<lambda>i m. max (wd_buf w ! ((wd_head w + i) mod wd_cap w)) m) is mx)"
  by (induction "is" arbitrary: mn mx) (auto simp: Let_def min_def max_def)

lemma ensureMinMax_ok:
  assumes "wd_ok cap vs w" "0 < wd_size w"
  shows "wd_ok cap vs (ensureMinMax w)" "wd_minVal (ensureMinMax w) = lo (wd_items w)" "wd_maxVal (ensureMinMax w) = hi (wd_items w)"
    "wd_sum (ensureMinMax w) = wd_sum w" "wd_items (ensureMinMax w) = wd_items w" "wd_size (ensureMinMax w) = wd_size w"
proof -
  have ring: "wd_ring (ensureMinMax w) = wd_ring w" by (simp add: ensureMinMax_def wd_ring_def split: prod.splits)
  then show it: "wd_items (ensureMinMax w) = wd_items w" by (simp add: wd_items_def)
  show "wd_sum (ensureMinMax w) = wd_sum w" "wd_size (ensureMinMax w) = wd_size w" by (simp_all add: ensureMinMax_def split: prod.splits)
  have "wd_minVal (ensureMinMax w) = lo (wd_items w) \<and> wd_maxVal (ensureMinMax w) = hi (wd_items w)"
  proof (cases "wd_hasMinMax w")
    case True
    then show ?thesis using assms by (simp add: ensureMinMax_def wd_ok_def)
  next
    case False
    obtain x xs where x: "wd_items w = x # xs" using assms(2) by (metis length_wd_items list.exhaust list.size(3) less_irrefl)
    have hd: "wd_buf w ! wd_head w = x"
    proof -
      have "wd_head w < wd_cap w" using assms(1) by (simp add: wd_ok_def cb_wf_def wd_ring_def)
      then show ?thesis using wd_items_nth [of 0 w] assms(2) x by simp
    qed
    have xs: "map (\<lambda>i. wd_buf w ! ((wd_head w + i) mod wd_cap w)) [1..<wd_size w] = xs"
    proof (rule nth_equalityI)
      have "length xs = wd_size w - 1" using x length_wd_items [of w] by simp
      then show "length (map (\<lambda>i. wd_buf w ! ((wd_head w + i) mod wd_cap w)) [1..<wd_size w]) = length xs" by simp
      fix i assume "i < length (map (\<lambda>i. wd_buf w ! ((wd_head w + i) mod wd_cap w)) [1..<wd_size w])"
      then have i: "Suc i < wd_size w" by simp
      then show "map (\<lambda>i. wd_buf w ! ((wd_head w + i) mod wd_cap w)) [1..<wd_size w] ! i = xs ! i"
        using wd_items_nth [OF i] x nth_upt [of 1 i "wd_size w"] by simp
    qed
    have "fold (\<lambda>i. f (wd_buf w ! ((wd_head w + i) mod wd_cap w))) [1..<wd_size w] m = fold f xs m" for f and m :: rat
      by (simp add: fold_map o_def flip: xs)
    then have "wd_minVal (ensureMinMax w) = fold min xs x" "wd_maxVal (ensureMinMax w) = fold max xs x"
      using False hd by (simp_all add: ensureMinMax_def minmax_loop_eq)
    then show ?thesis by (simp only: x Min.set_eq_fold Max.set_eq_fold)
  qed
  then show mm: "wd_minVal (ensureMinMax w) = lo (wd_items w)" "wd_maxVal (ensureMinMax w) = hi (wd_items w)" by simp_all
  show "wd_ok cap vs (ensureMinMax w)" using assms mm it ring \<open>wd_size (ensureMinMax w) = wd_size w\<close> by (simp add: wd_ok_def)
qed

text \<open>A push keeps the invariant; dropping a value that is neither extreme keeps both extremes.\<close>

lemma extreme_tl:
  assumes "xs \<noteq> []" "tl xs \<noteq> []"
  shows "hd xs \<noteq> lo xs \<Longrightarrow> lo (tl xs) = lo xs" "hd xs \<noteq> hi xs \<Longrightarrow> hi (tl xs) = hi xs"
proof -
  obtain x ys where xs: "xs = x # ys" "ys \<noteq> []" using assms by (cases xs) auto
  then show "hd xs \<noteq> lo xs \<Longrightarrow> lo (tl xs) = lo xs" "hd xs \<noteq> hi xs \<Longrightarrow> hi (tl xs) = hi xs"
    by (auto simp: min_def max_def)
qed

lemma wd_Push_minmax:
  assumes "wd_hasMinMax (wd_Push v w)"
  shows "wd_hasMinMax w" and "wd_minVal (wd_Push v w) = min v (wd_minVal w)" and "wd_maxVal (wd_Push v w) = max v (wd_maxVal w)"
    and "wd_cap w \<le> wd_size w \<Longrightarrow> wd_buf w ! wd_head w \<noteq> wd_minVal w \<and> wd_buf w ! wd_head w \<noteq> wd_maxVal w"
  using assms by (auto simp: wd_Push_def wd_store_def Let_def min_def max_def split: if_splits)

lemma wd_Push_ok:
  assumes "wd_ok cap vs w"
  shows "wd_ok cap (vs @ [v]) (wd_Push v w)"
proof -
  have wf: "cb_wf cap (wd_ring w)" "0 < cap" "wd_cap w = cap" "wd_size w \<le> cap" "wd_head w < cap"
    using assms by (simp_all add: wd_ok_def cb_wf_def wd_ring_def)
  have it: "wd_items (wd_Push v w) = absorb_window cap v (wd_items w)"
    using ringbuf_Push_items [OF wf(1)] by (simp add: wd_items_def wd_Push_ring)
  then have items: "wd_items (wd_Push v w) = last_n cap (vs @ [v])"
    using assms absorb_window_last_n [OF wf(2)] by (simp add: wd_ok_def)
  have ne: "wd_items (wd_Push v w) \<noteq> []" by (simp add: it absorb_window_def)
  have "wd_minVal (wd_Push v w) = lo (wd_items (wd_Push v w)) \<and> wd_maxVal (wd_Push v w) = hi (wd_items (wd_Push v w))"
    if h: "wd_hasMinMax (wd_Push v w)"
  proof -
    note p = wd_Push_minmax [OF h]
    have w: "0 < wd_size w" "wd_minVal w = lo (wd_items w)" "wd_maxVal w = hi (wd_items w)" using assms p(1) by (simp_all add: wd_ok_def)
    have wne: "wd_items w \<noteq> []" using w(1) by (metis length_wd_items list.size(3) less_irrefl)
    show ?thesis
    proof (cases "wd_size w < cap")
      case True
      then show ?thesis using p w wne by (simp add: it absorb_window_def insert_commute min.commute max.commute)
    next
      case False
      have "hd (wd_items w) = wd_buf w ! wd_head w" using wd_items_nth [OF w(1)] wne wf(3,5) by (simp add: hd_conv_nth)
      then have ex: "hd (wd_items w) \<noteq> lo (wd_items w)" "hd (wd_items w) \<noteq> hi (wd_items w)" using p(4) False wf(3,4) w by auto
      then have "tl (wd_items w) \<noteq> []" using wne by (cases "wd_items w") auto
      note t = extreme_tl [OF wne this]
      show ?thesis using False p w ex t wne \<open>tl (wd_items w) \<noteq> []\<close>
        by (simp add: it absorb_window_def min.commute max.commute)
    qed
  qed
  moreover have "0 < wd_size (wd_Push v w)" using ne length_wd_items [of "wd_Push v w"] by (metis length_greater_0_conv)
  ultimately show ?thesis using ringbuf_Push_wf [OF wf(1), of v] items by (auto simp: wd_ok_def wd_Push_ring)
qed

lemma wd_Clear_ok: "wd_ok cap vs w \<Longrightarrow> wd_ok cap [] (wd_Clear w)"
  by (auto simp: wd_ok_def wd_Clear_def wd_ring_def cb_wf_def wd_items_def ringbuf_ToSlice_def last_n_def)

lemma wd_New_ok: "wd_New capacity = Some w \<Longrightarrow> wd_ok (nat capacity) [] w \<and> wd_sum w = 0"
  by (auto simp: wd_ok_def wd_New_def wd_ring_def cb_wf_def wd_items_def ringbuf_ToSlice_def last_n_def split: if_splits)

subsection \<open>The running sum\<close>

definition small_ints :: "int \<Rightarrow> rat list \<Rightarrow> bool" where
  "small_ints m vs \<longleftrightarrow> list_all (\<lambda>v. \<exists>n. v = of_int n \<and> \<bar>n\<bar> \<le> m) vs"

lemma small_ints_sum:
  assumes "small_ints m vs"
  shows "\<exists>n. sum_list vs = of_int n \<and> \<bar>n\<bar> \<le> int (length vs) * m"
  using assms
proof (induction vs)
  case (Cons v vs)
  then obtain n k where "sum_list vs = of_int n" "\<bar>n\<bar> \<le> int (length vs) * m" "v = of_int k" "\<bar>k\<bar> \<le> m"
    by (auto simp: small_ints_def)
  then show ?case by (intro exI [of _ "k + n"]) (simp add: algebra_simps)
qed simp

lemma small_sum_exact:
  assumes "small_ints m vs" "int (length vs) * m \<le> 2 ^ 53"
  shows "fl64 (sum_list vs) = sum_list vs"
proof -
  obtain n where "sum_list vs = of_int n" "\<bar>n\<bar> \<le> int (length vs) * m" using small_ints_sum [OF assms(1)] by blast
  then show ?thesis using assms(2) fl64_int [of n] by simp
qed

lemma small_ints_last_n: "small_ints m vs \<Longrightarrow> small_ints m (last_n n vs)"
  by (auto simp: small_ints_def last_n_def list_all_iff dest: in_set_dropD)

definition wd_exact :: "int \<Rightarrow> rat list \<Rightarrow> window \<Rightarrow> bool" where
  "wd_exact m vs w \<longleftrightarrow> small_ints m vs \<and> wd_sum w = sum_list (wd_items w)"

lemma wd_Push_sum: "wd_sum (wd_Push v w) = fl64 ((if wd_size w < wd_cap w then wd_sum w else fl64 (wd_sum w - wd_buf w ! wd_head w)) + v)"
  by (simp add: wd_Push_def wd_store_def Let_def)

lemma wd_Push_exact:
  assumes ok: "wd_ok cap vs w" and ex: "wd_exact m vs w" and v: "small_ints m [v]" and m: "int cap * m \<le> 2 ^ 53" "0 \<le> m"
  shows "wd_exact m (vs @ [v]) (wd_Push v w)"
proof -
  have small: "small_ints m (vs @ [v])" using ex v by (simp add: wd_exact_def small_ints_def)
  have wf: "cb_wf cap (wd_ring w)" "wd_cap w = cap" "wd_size w \<le> cap" "wd_head w < cap" "0 < cap"
    using ok by (simp_all add: wd_ok_def cb_wf_def wd_ring_def)
  have it: "wd_items (wd_Push v w) = absorb_window cap v (wd_items w)"
    using ringbuf_Push_items [OF wf(1)] by (simp add: wd_items_def wd_Push_ring)
  have "wd_items (wd_Push v w) = last_n cap (vs @ [v])" using wd_Push_ok [OF ok, of v] by (simp add: wd_ok_def)
  then have si: "small_ints m (wd_items (wd_Push v w))" using small by (simp add: small_ints_last_n)
  have "wd_size (wd_Push v w) \<le> cap" using wd_Push_ok [OF ok, of v] by (simp add: wd_ok_def cb_wf_def wd_ring_def)
  then have "int (wd_size (wd_Push v w)) * m \<le> int cap * m" using m(2) by (intro mult_right_mono) simp_all
  then have fine: "fl64 (sum_list (wd_items (wd_Push v w))) = sum_list (wd_items (wd_Push v w))"
    using m(1) by (intro small_sum_exact [OF si]) simp
  have sum: "wd_sum w = sum_list (wd_items w)" using ex by (simp add: wd_exact_def)
  show ?thesis
  proof (cases "wd_size w < cap")
    case True
    then show ?thesis using small sum fine wf(2) by (simp add: wd_exact_def wd_Push_sum it absorb_window_def)
  next
    case False
    then have s: "0 < wd_size w" using wf(5) by simp
    then have ne: "wd_items w \<noteq> []" by (metis length_wd_items list.size(3) less_irrefl)
    have hd: "hd (wd_items w) = wd_buf w ! wd_head w" using wd_items_nth [OF s] ne wf(2,4) by (simp add: hd_conv_nth)
    have tl: "wd_sum w - wd_buf w ! wd_head w = sum_list (tl (wd_items w))" using sum ne hd by (cases "wd_items w") simp_all
    have "small_ints m (tl (wd_items w))"
      using si False it by (simp add: absorb_window_def small_ints_def)
    moreover have "int (length (tl (wd_items w))) * m \<le> int cap * m" using m(2) wf(3) by (intro mult_right_mono) simp_all
    ultimately have "fl64 (sum_list (tl (wd_items w))) = sum_list (tl (wd_items w))" using m(1) small_sum_exact order_trans by blast
    then show ?thesis using small fine False wf(2) tl by (simp add: wd_exact_def wd_Push_sum it absorb_window_def)
  qed
qed

subsection \<open>Runs of a count window\<close>

datatype wd_op = WPush rat | WMin | WMax | WClear

fun wd_do :: "wd_op \<Rightarrow> window \<Rightarrow> window" where
  "wd_do (WPush v) w = wd_Push v w"
| "wd_do WMin w = snd (wd_Min w)"
| "wd_do WMax w = snd (wd_Max w)"
| "wd_do WClear w = wd_Clear w"

fun wd_seen :: "wd_op list \<Rightarrow> rat list \<Rightarrow> rat list" where
  "wd_seen [] vs = vs"
| "wd_seen (WPush v # ops) vs = wd_seen ops (vs @ [v])"
| "wd_seen (WClear # ops) vs = wd_seen ops []"
| "wd_seen (_ # ops) vs = wd_seen ops vs"

lemma wd_query_ok:
  assumes "wd_ok cap vs w"
  shows "wd_ok cap vs (snd (wd_Min w))" "wd_ok cap vs (snd (wd_Max w))"
    and "fst (wd_Min w) = (if last_n cap vs = [] then None else Some (lo (last_n cap vs)))"
    and "fst (wd_Max w) = (if last_n cap vs = [] then None else Some (hi (last_n cap vs)))"
    and "wd_sum (snd (wd_Min w)) = wd_sum w \<and> wd_items (snd (wd_Min w)) = wd_items w"
    and "wd_sum (snd (wd_Max w)) = wd_sum w \<and> wd_items (snd (wd_Max w)) = wd_items w"
proof -
  have i: "wd_items w = last_n cap vs" using assms by (simp add: wd_ok_def)
  then have e: "wd_size w = 0 \<longleftrightarrow> last_n cap vs = []" by (metis length_wd_items length_0_conv)
  show "wd_ok cap vs (snd (wd_Min w))" "wd_ok cap vs (snd (wd_Max w))"
    "fst (wd_Min w) = (if last_n cap vs = [] then None else Some (lo (last_n cap vs)))"
    "fst (wd_Max w) = (if last_n cap vs = [] then None else Some (hi (last_n cap vs)))"
    "wd_sum (snd (wd_Min w)) = wd_sum w \<and> wd_items (snd (wd_Min w)) = wd_items w"
    "wd_sum (snd (wd_Max w)) = wd_sum w \<and> wd_items (snd (wd_Max w)) = wd_items w"
    using assms e i ensureMinMax_ok [OF assms] by (auto simp: wd_Min_def wd_Max_def Let_def)
qed

lemma wd_do_ok: "wd_ok cap vs w \<Longrightarrow> wd_ok cap (wd_seen [e] vs) (wd_do e w)"
  using wd_query_ok wd_Push_ok wd_Clear_ok by (cases e) auto

lemma wd_seen_Cons: "wd_seen (e # ops) vs = wd_seen ops (wd_seen [e] vs)"
  by (cases e) simp_all

lemma wd_run_ok: "wd_ok cap vs w \<Longrightarrow> wd_ok cap (wd_seen ops vs) (fold wd_do ops w)"
proof (induction ops arbitrary: vs w)
  case (Cons e ops)
  show ?case using Cons.IH [OF wd_do_ok [OF Cons.prems, of e]] by (simp add: wd_seen_Cons [of e ops])
qed simp

lemma wd_run_exact:
  assumes "wd_ok cap vs w" "wd_exact m vs w" "int cap * m \<le> 2 ^ 53" "0 \<le> m"
    and "\<And>v. WPush v \<in> set ops \<Longrightarrow> small_ints m [v]"
  shows "wd_exact m (wd_seen ops vs) (fold wd_do ops w)"
  using assms(1,2,5)
proof (induction ops arbitrary: vs w)
  case (Cons e ops)
  have "wd_exact m (wd_seen [e] vs) (wd_do e w)"
  proof (cases e)
    case (WPush v)
    then show ?thesis using wd_Push_exact [OF Cons.prems(1,2) _ assms(3,4)] Cons.prems(3) by simp
  next
    case WClear
    then show ?thesis by (simp add: wd_exact_def small_ints_def wd_Clear_def wd_items_def wd_ring_def ringbuf_ToSlice_def)
  qed (use Cons.prems(2) wd_query_ok(5,6) [OF Cons.prems(1)] in \<open>simp_all add: wd_exact_def\<close>)
  then show ?case using Cons.IH [OF wd_do_ok [OF Cons.prems(1)]] Cons.prems(3) by (simp add: wd_seen_Cons [of e ops])
qed simp

text \<open>
  After any run of pushes, queries and clears a count window holds the last \<open>capacity\<close> values pushed since
  the last clear; \<open>Min\<close> and \<open>Max\<close> are their extremes whatever the cache went through, and the running sum is
  exact when the values are integers whose total in a full window fits a significand.
\<close>

lemma window_aggregates:
  assumes "wd_New capacity = Some w0"
  defines "w ops \<equiv> fold wd_do ops w0" and "held ops \<equiv> last_n (nat capacity) (wd_seen ops [])"
  shows "wd_Count (w ops) = length (held ops)"
    and "fst (wd_Min (w ops)) = (if held ops = [] then None else Some (lo (held ops)))"
    and "fst (wd_Max (w ops)) = (if held ops = [] then None else Some (hi (held ops)))"
    and "(\<And>v. WPush v \<in> set ops \<Longrightarrow> small_ints m [v]) \<Longrightarrow> 0 \<le> m \<Longrightarrow> capacity * m \<le> 2 ^ 53 \<Longrightarrow> wd_Sum (w ops) = sum_list (held ops)"
proof -
  have n: "wd_ok (nat capacity) [] w0" "wd_sum w0 = 0" "0 < capacity"
    using wd_New_ok [OF assms(1)] assms(1) by (auto simp: wd_New_def split: if_splits)
  note ok = wd_run_ok [OF n(1), of ops]
  have i: "wd_items (w ops) = held ops" using ok by (simp add: w_def held_def wd_ok_def)
  show "wd_Count (w ops) = length (held ops)" by (simp add: wd_Count_def flip: i)
  show "fst (wd_Min (w ops)) = (if held ops = [] then None else Some (lo (held ops)))"
    "fst (wd_Max (w ops)) = (if held ops = [] then None else Some (hi (held ops)))"
    using wd_query_ok(3,4) [OF ok] by (simp_all add: w_def held_def)
  assume s: "\<And>v. WPush v \<in> set ops \<Longrightarrow> small_ints m [v]" "0 \<le> m" "capacity * m \<le> 2 ^ 53"
  have "wd_exact m [] w0" using n by (simp add: wd_exact_def small_ints_def wd_ok_def last_n_def)
  then have "wd_exact m (wd_seen ops []) (w ops)" unfolding w_def using n s by (intro wd_run_exact [OF n(1)]) simp_all
  then show "wd_Sum (w ops) = sum_list (held ops)" using i by (simp add: wd_exact_def wd_Sum_def)
qed

subsection \<open>The content of a time window\<close>

definition tw_items :: "time_window \<Rightarrow> (rat \<times> int) list" where
  "tw_items w = ring_items (tw_vals w) (tw_head w) (tw_size w)"

definition tw_wf :: "time_window \<Rightarrow> bool" where
  "tw_wf w \<longleftrightarrow> 0 < tw_cap w \<and> length (tw_vals w) = tw_cap w \<and> tw_head w < tw_cap w \<and> tw_size w \<le> tw_cap w"

lemma length_tw_items [simp]: "length (tw_items w) = tw_size w"
  by (simp add: tw_items_def)

lemma tw_items_first:
  assumes "tw_wf w" "0 < tw_size w"
  shows "tw_items w = tw_vals w ! tw_head w # ring_items (tw_vals w) ((tw_head w + 1) mod tw_cap w) (tw_size w - 1)"
  using assms ring_items_Suc [of "tw_head w" "tw_vals w" "tw_size w - 1"] by (simp add: tw_items_def tw_wf_def)

lemma tw_evict_items:
  assumes "tw_wf w"
  shows "tw_wf (tw_evict cutoff w)" and "tw_items (tw_evict cutoff w) = dropWhile (\<lambda>(v, t). t \<le> cutoff) (tw_items w)"
    and "tw_ttl (tw_evict cutoff w) = tw_ttl w" and "tw_cap (tw_evict cutoff w) = tw_cap w"
proof -
  have "tw_wf (tw_evict cutoff w) \<and> tw_items (tw_evict cutoff w) = dropWhile (\<lambda>(v, t). t \<le> cutoff) (tw_items w)
      \<and> tw_ttl (tw_evict cutoff w) = tw_ttl w \<and> tw_cap (tw_evict cutoff w) = tw_cap w"
    using assms
  proof (induction cutoff w rule: tw_evict.induct)
    case (1 cutoff w)
    let ?w = "w\<lparr>tw_sum := fl64 (tw_sum w - fst (tw_vals w ! tw_head w)), tw_head := (tw_head w + 1) mod tw_cap w, tw_size := tw_size w - 1\<rparr>"
    show ?case
    proof (cases "0 < tw_size w \<and> snd (tw_vals w ! tw_head w) \<le> cutoff")
      case True
      have wf: "tw_wf ?w" using 1(2) True by (auto simp: tw_wf_def intro: le_trans [OF diff_le_self])
      have "tw_items w = tw_vals w ! tw_head w # tw_items ?w" using tw_items_first [OF 1(2)] True by (simp add: tw_items_def)
      moreover have "tw_evict cutoff w = tw_evict cutoff ?w" using True by (subst tw_evict.simps) simp
      ultimately show ?thesis using 1(1) [OF True wf] True by (auto split: prod.splits)
    next
      case False
      then have e: "tw_evict cutoff w = w" by (subst tw_evict.simps) (simp only: if_False)
      have "dropWhile (\<lambda>(v, t). t \<le> cutoff) (tw_items w) = tw_items w"
      proof (cases "tw_size w = 0")
        case True
        then show ?thesis by (simp add: tw_items_def)
      next
        case f: False
        then show ?thesis using False tw_items_first [OF 1(2)] by (auto split: prod.splits)
      qed
      then show ?thesis using e 1(2) by simp
    qed
  qed
  then show "tw_wf (tw_evict cutoff w)" "tw_items (tw_evict cutoff w) = dropWhile (\<lambda>(v, t). t \<le> cutoff) (tw_items w)"
    "tw_ttl (tw_evict cutoff w) = tw_ttl w" "tw_cap (tw_evict cutoff w) = tw_cap w" by simp_all
qed

lemma tw_Push_items:
  assumes "tw_wf w"
  shows "tw_wf (tw_Push v ts w)"
    and "tw_items (tw_Push v ts w) = absorb_window (tw_cap w) (v, ts) (dropWhile (\<lambda>(v, t). t \<le> ts - tw_ttl w) (tw_items w))"
    and "tw_ttl (tw_Push v ts w) = tw_ttl w" and "tw_cap (tw_Push v ts w) = tw_cap w"
proof -
  let ?w = "tw_evict (ts - tw_ttl w) w"
  note e = tw_evict_items [OF assms, of "ts - tw_ttl w"]
  show "tw_wf (tw_Push v ts w)" using e(1) by (simp add: tw_Push_def tw_wf_def Let_def)
  show "tw_ttl (tw_Push v ts w) = tw_ttl w" "tw_cap (tw_Push v ts w) = tw_cap w" using e(3,4) by (simp_all add: tw_Push_def Let_def)
  have "tw_items (tw_Push v ts w) = absorb_window (tw_cap ?w) (v, ts) (tw_items ?w)"
    using e(1) ring_items_snoc [of "tw_size ?w" "tw_vals ?w" "tw_head ?w" "(v, ts)"]
      ring_items_overwrite [of "tw_head ?w" "tw_vals ?w" "(v, ts)"]
    by (auto simp: tw_Push_def tw_items_def absorb_window_def Let_def tw_wf_def)
  then show "tw_items (tw_Push v ts w) = absorb_window (tw_cap w) (v, ts) (dropWhile (\<lambda>(v, t). t \<le> ts - tw_ttl w) (tw_items w))"
    using e(2,4) by simp
qed

text \<open>The pushes that are still live at the time of the last one.\<close>

definition tw_live :: "int \<Rightarrow> (rat \<times> int) list \<Rightarrow> (rat \<times> int) list" where
  "tw_live ttl ps = (if ps = [] then [] else filter (\<lambda>(v, t). snd (last ps) - ttl < t) ps)"

lemma dropWhile_last_n:
  assumes "sorted (map snd (xs :: (rat \<times> int) list))"
  shows "dropWhile (\<lambda>(v, t). t \<le> c) (last_n n xs) = last_n n (filter (\<lambda>(v, t). c < t) xs)"
proof -
  have d: "dropWhile (\<lambda>(v, t). t \<le> c) ys = filter (\<lambda>(v, t). c < t) ys" if "sorted (map snd (ys :: (rat \<times> int) list))" for ys
    using that by (induction ys) (auto simp: not_le split: prod.splits intro!: filter_True [symmetric])
  have s: "sorted (map snd (last_n n xs))" using assms by (simp add: last_n_def drop_map [symmetric] sorted_wrt_drop)
  define us vs where "us = takeWhile (\<lambda>(v, t). t \<le> c) xs" and "vs = dropWhile (\<lambda>(v, t). t \<le> c) xs"
  then have xs: "xs = us @ vs" by (simp only: takeWhile_dropWhile_id)
  have vs: "filter (\<lambda>(v, t). c < t) xs = vs" using d [OF assms] by (simp add: vs_def)
  have "filter (\<lambda>(v, t). c < t) (drop k us) = []" for k
    by (auto simp: us_def filter_empty_conv dest!: in_set_dropD set_takeWhileD)
  moreover have "filter (\<lambda>(v, t). c < t) (drop k vs) = drop k vs" for k
    unfolding vs [symmetric] by (auto simp: filter_id_conv dest!: in_set_dropD)
  ultimately have "filter (\<lambda>(v, t). c < t) (last_n n xs) = last_n n vs"
    by (simp add: xs last_n_def)
  then show ?thesis using d [OF s] vs by simp
qed

text \<open>
  After pushes at non-decreasing times a time window holds the most recent \<open>cap\<close> of the pushes that are
  younger than \<open>ttl\<close> at the last push, and nothing else.
\<close>

lemma time_window_content:
  assumes "tw_wf w" "tw_items w = []" and "sorted (map snd ps)" and "0 < tw_ttl w"
  shows "tw_items (fold (\<lambda>(v, t). tw_Push v t) ps w) = last_n (tw_cap w) (tw_live (tw_ttl w) ps)
    \<and> tw_wf (fold (\<lambda>(v, t). tw_Push v t) ps w) \<and> tw_ttl (fold (\<lambda>(v, t). tw_Push v t) ps w) = tw_ttl w
    \<and> tw_cap (fold (\<lambda>(v, t). tw_Push v t) ps w) = tw_cap w"
  using assms(3)
proof (induction ps rule: rev_induct)
  case Nil
  show ?case using assms by (simp add: tw_live_def last_n_def)
next
  case (snoc p ps)
  obtain v t where p: "p = (v, t)" by (cases p)
  let ?w = "fold (\<lambda>(v, t). tw_Push v t) ps w" and ?ttl = "tw_ttl w" and ?cap = "tw_cap w"
  have srt: "sorted (map snd ps)" "\<And>u. u \<in> set ps \<Longrightarrow> snd u \<le> t" using snoc.prems p by (auto simp: sorted_append)
  have ih: "tw_items ?w = last_n ?cap (tw_live ?ttl ps)" "tw_wf ?w" "tw_ttl ?w = ?ttl" "tw_cap ?w = ?cap" using snoc.IH srt by simp_all
  have fs: "sorted (map snd (tw_live ?ttl ps))" using srt(1) by (simp add: tw_live_def sorted_filter)
  have last: "ps \<noteq> [] \<Longrightarrow> snd (last ps) \<le> t" using srt(2) by simp
  have "filter (\<lambda>(v, t'). t - ?ttl < t') (tw_live ?ttl ps) = filter (\<lambda>(v, t'). t - ?ttl < t') ps"
    using last by (cases "ps = []") (auto simp: tw_live_def intro!: filter_cong)
  then have "dropWhile (\<lambda>(v, t'). t' \<le> t - ?ttl) (tw_items ?w) = last_n ?cap (filter (\<lambda>(v, t'). t - ?ttl < t') ps)"
    using dropWhile_last_n [OF fs, of "t - ?ttl" ?cap] ih(1) by simp
  then have "tw_items (tw_Push v t ?w) = last_n ?cap (filter (\<lambda>(v, t'). t - ?ttl < t') ps @ [(v, t)])"
    using tw_Push_items(2) [OF ih(2), of v t] ih(3,4) absorb_window_last_n [of ?cap "(v, t)"] assms(1) by (simp add: tw_wf_def)
  moreover have "tw_live ?ttl (ps @ [p]) = filter (\<lambda>(v, t'). t - ?ttl < t') ps @ [(v, t)]" using p assms(4) by (simp add: tw_live_def)
  ultimately show ?case using tw_Push_items [OF ih(2), of v t] ih(3,4) p by simp
qed

text \<open>
  The capacity is called a pre-allocation hint; it bounds the content, and a push into a full window drops a
  value that is still live.
\<close>

lemma capacity_drops_live:
  assumes "NewTimeWindow ttl 1 = Some w" "1 < ttl"
  shows "tw_Count (tw_Push b 1 (tw_Push a 0 w)) = 1"
proof -
  have w: "tw_wf w" "tw_items w = []" "tw_cap w = 1" "tw_ttl w = ttl"
    using assms(1) by (auto simp: NewTimeWindow_def tw_wf_def tw_items_def Let_def split: if_splits)
  have "tw_items (fold (\<lambda>(v, t). tw_Push v t) [(a, 0), (b, 1)] w) = last_n 1 (tw_live ttl [(a, 0), (b, 1)])"
    using time_window_content [OF w(1,2), of "[(a, 0), (b, 1)]"] w(3,4) assms(2) by simp
  then have "length (tw_items (tw_Push b 1 (tw_Push a 0 w))) = 1" using assms(2) by (simp add: tw_live_def last_n_def)
  then show ?thesis by (simp add: tw_Count_def)
qed

end
