(* ===== verification/Wtimer.thy ===== *)
theory Wtimer
  imports Heap
begin

section \<open>Package wtimer: one goroutine firing timers\<close>

text \<open>
  \<open>src/wtimer/wtimer.go\<close>.  A timer is reached from the heap and from the caller that may cancel it, so timers
  live in a store and the heap holds their addresses.  The loop of \<open>run\<close>, the callers of \<open>Add\<close> and \<open>Close\<close>
  and cancellations are atomic steps that interleave: a caller of \<open>Add\<close> checks \<open>closed\<close>, pushes under the
  mutex and wakes the loop in three separate steps.  The time a step reads is an argument.  \<open>wh_fired\<close> is a
  ghost, the callbacks run with the deadline they had and the time they were found due.
\<close>

record timer =
  tm_when :: int
  tm_interval :: int
  tm_index :: int
  tm_cancelled :: bool

text \<open>Where the goroutine is: at the top of its loop, waiting, or with a timer it has popped.\<close>

datatype wheel_pc = WTop | WWaitWake | WWaitTimer int | WFire nat int | WAfter nat | WDone

record wheel =
  wh_heap :: "nat list"
  wh_store :: "timer list"
  wh_wakeup :: bool
  wh_closed :: bool
  wh_recovered :: nat
  wh_pc :: wheel_pc
  wh_adding :: "(int \<times> int) list"
  wh_waking :: nat
  wh_fired :: "(nat \<times> int \<times> int) list"

subsection \<open>heap.Interface on timerHeap\<close>

definition tmh_Len :: "wheel \<Rightarrow> nat" where
  "tmh_Len w = length (wh_heap w)"

definition tmh_Less :: "wheel \<Rightarrow> nat \<Rightarrow> nat \<Rightarrow> bool" where
  "tmh_Less w i j \<longleftrightarrow> tm_when (wh_store w ! (wh_heap w ! i)) < tm_when (wh_store w ! (wh_heap w ! j))"

definition tm_set_index :: "nat \<Rightarrow> int \<Rightarrow> timer list \<Rightarrow> timer list" where
  "tm_set_index a i st = st[a := (st ! a)\<lparr>tm_index := i\<rparr>]"

definition tmh_Swap :: "nat \<Rightarrow> nat \<Rightarrow> wheel \<Rightarrow> wheel" where
  "tmh_Swap i j w =
    (let h = swapped i j (wh_heap w)
     in w\<lparr>wh_heap := h, wh_store := tm_set_index (h ! j) (int j) (tm_set_index (h ! i) (int i) (wh_store w))\<rparr>)"

definition tmh_Push :: "nat \<Rightarrow> wheel \<Rightarrow> wheel" where
  "tmh_Push t w = w\<lparr>wh_store := tm_set_index t (int (length (wh_heap w))) (wh_store w), wh_heap := wh_heap w @ [t]\<rparr>"

definition tmh_Pop :: "wheel \<Rightarrow> nat \<times> wheel" where
  "tmh_Pop w =
    (let n = length (wh_heap w); t = wh_heap w ! (n - 1)
     in (t, w\<lparr>wh_store := tm_set_index t (-1) (wh_store w), wh_heap := take (n - 1) (wh_heap w)\<rparr>))"

abbreviation "wheel_push \<equiv> heap_Push tmh_Len tmh_Less tmh_Swap tmh_Push"
abbreviation "wheel_pop \<equiv> heap_Pop tmh_Len tmh_Less tmh_Swap tmh_Pop"

subsection \<open>Callers\<close>

definition wh_New :: wheel where
  "wh_New = \<lparr>wh_heap = [], wh_store = [], wh_wakeup = False, wh_closed = False, wh_recovered = 0, wh_pc = WTop,
    wh_adding = [], wh_waking = 0, wh_fired = []\<rparr>"

definition wh_wake :: "wheel \<Rightarrow> wheel" where
  "wh_wake w = w\<lparr>wh_wakeup := True\<rparr>"

text \<open>
  \<open>add\<close> up to its check: \<open>None\<close> is an error.  Then the push of the new timer, with the time \<open>now\<close> at which its
  deadline is computed.
\<close>

definition add_check :: "int \<Rightarrow> int \<Rightarrow> bool \<Rightarrow> wheel \<Rightarrow> wheel option" where
  "add_check delay interval has_fn w =
    (if wh_closed w then None else if \<not> has_fn then None else Some (w\<lparr>wh_adding := wh_adding w @ [(delay, interval)]\<rparr>))"

definition add_push :: "nat \<Rightarrow> int \<Rightarrow> wheel \<Rightarrow> wheel option" where
  "add_push k now w =
    (if length (wh_adding w) \<le> k then None
     else let (delay, interval) = wh_adding w ! k; t = length (wh_store w);
              w1 = w\<lparr>wh_adding := take k (wh_adding w) @ drop (Suc k) (wh_adding w),
                wh_store := wh_store w @ [\<lparr>tm_when = now + delay, tm_interval = interval, tm_index = 0, tm_cancelled = False\<rparr>]\<rparr>
          in Some ((wheel_push t w1)\<lparr>wh_waking := wh_waking w + 1\<rparr>))"

definition add_wake :: "wheel \<Rightarrow> wheel option" where
  "add_wake w = (if wh_waking w = 0 then None else Some (wh_wake (w\<lparr>wh_waking := wh_waking w - 1\<rparr>)))"

definition wh_Cancel :: "nat \<Rightarrow> wheel \<Rightarrow> wheel" where
  "wh_Cancel t w = w\<lparr>wh_store := (wh_store w)[t := (wh_store w ! t)\<lparr>tm_cancelled := True\<rparr>]\<rparr>"

definition wh_Len :: "wheel \<Rightarrow> nat" where
  "wh_Len w = length (filter (\<lambda>t. \<not> tm_cancelled (wh_store w ! t)) (wh_heap w))"

text \<open>\<open>Close\<close> up to the wait for the goroutine; its wake-up is a step of its own, counted with those of \<open>Add\<close>.\<close>

definition wh_Close :: "wheel \<Rightarrow> wheel" where
  "wh_Close w = (if wh_closed w then w else w\<lparr>wh_closed := True, wh_waking := wh_waking w + 1\<rparr>)"

subsection \<open>The loop\<close>

text \<open>Cancelled timers leave the top, one per round, so the length of the heap is fuel enough.\<close>

fun clean_top :: "nat \<Rightarrow> wheel \<Rightarrow> wheel" where
  "clean_top 0 w = w"
| "clean_top (Suc n) w =
    (if wh_heap w \<noteq> [] \<and> tm_cancelled (wh_store w ! (wh_heap w ! 0)) then clean_top n (snd (wheel_pop w)) else w)"

definition run_top :: "int \<Rightarrow> wheel \<Rightarrow> wheel" where
  "run_top now w0 =
    (let w = clean_top (length (wh_heap w0)) w0
     in if wh_heap w = [] then w\<lparr>wh_pc := (if wh_closed w then WDone else WWaitWake)\<rparr>
        else let t = wh_heap w ! 0; d = tm_when (wh_store w ! t)
             in if now < d then w\<lparr>wh_pc := (if wh_closed w then WDone else WWaitTimer d)\<rparr>
                else let (t', w') = wheel_pop w in w'\<lparr>wh_pc := WFire t' now\<rparr>)"

definition safeFire :: "bool \<Rightarrow> nat \<Rightarrow> int \<Rightarrow> wheel \<Rightarrow> wheel" where
  "safeFire panics t now w =
    w\<lparr>wh_fired := wh_fired w @ [(t, tm_when (wh_store w ! t), now)], wh_recovered := (if panics then wh_recovered w + 1 else wh_recovered w)\<rparr>"

definition run_fire :: "bool \<Rightarrow> nat \<Rightarrow> int \<Rightarrow> wheel \<Rightarrow> wheel" where
  "run_fire panics t due w = (if tm_cancelled (wh_store w ! t) then w else safeFire panics t due w)\<lparr>wh_pc := WAfter t\<rparr>"

definition run_after :: "int \<Rightarrow> nat \<Rightarrow> wheel \<Rightarrow> wheel" where
  "run_after now t w =
    (let tm = wh_store w ! t
     in if 0 < tm_interval tm \<and> \<not> tm_cancelled tm \<and> \<not> wh_closed w
        then (wheel_push t (w\<lparr>wh_store := (wh_store w)[t := tm\<lparr>tm_when := now + tm_interval tm\<rparr>]\<rparr>))\<lparr>wh_pc := WTop\<rparr>
        else w\<lparr>wh_pc := WTop\<rparr>)"

subsection \<open>Runs\<close>

datatype wheel_event =
    TCheck int int bool
  | TPush nat int
  | TWake
  | TCancel nat
  | TClose
  | TTop int
  | TReceive
  | TTimer
  | TFire bool
  | TAfter int

definition wh_do :: "wheel_event \<Rightarrow> wheel \<Rightarrow> wheel option" where
  "wh_do e w =
    (case e of
       TCheck delay interval has_fn \<Rightarrow> add_check delay interval has_fn w
     | TPush k now \<Rightarrow> add_push k now w
     | TWake \<Rightarrow> add_wake w
     | TCancel t \<Rightarrow> if t < length (wh_store w) then Some (wh_Cancel t w) else None
     | TClose \<Rightarrow> Some (wh_Close w)
     | TTop now \<Rightarrow> if wh_pc w = WTop then Some (run_top now w) else None
     | TReceive \<Rightarrow>
         (case wh_pc w of
            WWaitWake \<Rightarrow> if wh_wakeup w then Some (w\<lparr>wh_wakeup := False, wh_pc := WTop\<rparr>) else None
          | WWaitTimer d \<Rightarrow> if wh_wakeup w then Some (w\<lparr>wh_wakeup := False, wh_pc := WTop\<rparr>) else None
          | _ \<Rightarrow> None)
     | TTimer \<Rightarrow> (case wh_pc w of WWaitTimer d \<Rightarrow> Some (w\<lparr>wh_pc := WTop\<rparr>) | _ \<Rightarrow> None)
     | TFire panics \<Rightarrow> (case wh_pc w of WFire t due \<Rightarrow> Some (run_fire panics t due w) | _ \<Rightarrow> None)
     | TAfter now \<Rightarrow> (case wh_pc w of WAfter t \<Rightarrow> Some (run_after now t w) | _ \<Rightarrow> None))"

fun wh_run :: "wheel_event list \<Rightarrow> wheel \<Rightarrow> wheel option" where
  "wh_run [] w = Some w"
| "wh_run (e # es) w = (case wh_do e w of None \<Rightarrow> None | Some w' \<Rightarrow> wh_run es w')"

subsection \<open>The heap\<close>

text \<open>What the heap operations leave alone: everything but the order of the heap and the positions noted in timers.\<close>

definition core :: "wheel \<Rightarrow> wheel" where
  "core w = w\<lparr>wh_heap := [], wh_store := map (\<lambda>t. t\<lparr>tm_index := 0\<rparr>) (wh_store w)\<rparr>"

lemma map_set_index: "map (\<lambda>t. t\<lparr>tm_index := 0\<rparr>) (tm_set_index a i st) = map (\<lambda>t. t\<lparr>tm_index := 0\<rparr>) st"
proof -
  have "(map (\<lambda>t. t\<lparr>tm_index := 0\<rparr>) st)[a := (st ! a)\<lparr>tm_index := 0\<rparr>] = map (\<lambda>t. t\<lparr>tm_index := 0\<rparr>) st"
    by (cases "a < length st") (simp_all add: list_update_beyond flip: map_update)
  then show ?thesis by (simp add: tm_set_index_def map_update)
qed

lemma length_tm_set_index [simp]: "length (tm_set_index a i st) = length st"
  by (simp add: tm_set_index_def)

lemma core_fields:
  assumes "core w' = core w"
  shows "wh_wakeup w' = wh_wakeup w" "wh_closed w' = wh_closed w" "wh_pc w' = wh_pc w" "wh_adding w' = wh_adding w"
    "wh_waking w' = wh_waking w" "wh_fired w' = wh_fired w" "length (wh_store w') = length (wh_store w)"
proof -
  show "wh_wakeup w' = wh_wakeup w" "wh_closed w' = wh_closed w" "wh_pc w' = wh_pc w" "wh_adding w' = wh_adding w"
    "wh_waking w' = wh_waking w" "wh_fired w' = wh_fired w"
    using assms unfolding core_def by (cases w, cases w', simp)+
  have "length (wh_store (core w')) = length (wh_store (core w))" using assms by simp
  then show "length (wh_store w') = length (wh_store w)" by (simp add: core_def)
qed

lemma core_timers:
  assumes "core w' = core w" "t < length (wh_store w)"
  shows "tm_when (wh_store w' ! t) = tm_when (wh_store w ! t)" "tm_interval (wh_store w' ! t) = tm_interval (wh_store w ! t)"
    "tm_cancelled (wh_store w' ! t) = tm_cancelled (wh_store w ! t)"
proof -
  have "wh_store (core w') ! t = wh_store (core w) ! t" using assms by simp
  then have e: "(wh_store w' ! t)\<lparr>tm_index := 0\<rparr> = (wh_store w ! t)\<lparr>tm_index := 0\<rparr>"
    using assms core_fields(7) [OF assms(1)] by (simp add: core_def)
  from arg_cong [OF e, of tm_when] arg_cong [OF e, of tm_interval] arg_cong [OF e, of tm_cancelled]
  show "tm_when (wh_store w' ! t) = tm_when (wh_store w ! t)" "tm_interval (wh_store w' ! t) = tm_interval (wh_store w ! t)"
    "tm_cancelled (wh_store w' ! t) = tm_cancelled (wh_store w ! t)" by simp_all
qed

definition wt_wf :: "wheel \<Rightarrow> wheel \<Rightarrow> bool" where
  "wt_wf R w \<longleftrightarrow> distinct (wh_heap w) \<and> (\<forall>a\<in>set (wh_heap w). a < length (wh_store w)) \<and> core w = R"

definition wt_view :: "nat \<Rightarrow> wheel \<Rightarrow> nat \<times> int" where
  "wt_view t w = (t, tm_when (wh_store w ! t))"

definition wt_elems :: "wheel \<Rightarrow> (nat \<times> int) list" where
  "wt_elems w = map (\<lambda>t. wt_view t w) (wh_heap w)"

definition wt_fresh :: "nat \<Rightarrow> wheel \<Rightarrow> bool" where
  "wt_fresh t w \<longleftrightarrow> t < length (wh_store w) \<and> t \<notin> set (wh_heap w)"

lemma length_wt_elems [simp]: "length (wt_elems w) = length (wh_heap w)"
  by (simp add: wt_elems_def)

lemma when_set_index [simp]: "tm_when (tm_set_index a i st ! b) = tm_when (st ! b)"
proof -
  have "st[a := (st ! a)\<lparr>tm_index := i\<rparr>] ! b = (if a = b \<and> a < length st then (st ! b)\<lparr>tm_index := i\<rparr> else st ! b)"
    by (cases "a = b"; cases "a < length st") (simp_all add: list_update_beyond not_less)
  then show ?thesis by (simp add: tm_set_index_def)
qed

lemma map_swapped: "i < length xs \<Longrightarrow> j < length xs \<Longrightarrow> map f (swapped i j xs) = swapped i j (map f xs)"
  by (simp add: swapped_def map_update)

lemma swapped_distinct_set:
  assumes "i < length xs" "j < length xs"
  shows "distinct (swapped i j xs) = distinct xs" "set (swapped i j xs) = set xs"
  using mset_swapped [OF assms] by (metis mset_eq_imp_distinct_iff, metis set_mset_mset)

interpretation wth: heap_container "wt_wf R" wt_elems snd tmh_Less tmh_Swap tmh_Len wt_fresh wt_view tmh_Push fst tmh_Pop
  for R :: wheel
proof unfold_locales
  fix w :: wheel and i j t
  show "tmh_Len w = length (wt_elems w)" by (simp add: tmh_Len_def)
  assume wf: "wt_wf R w"
  show "wt_fresh t w \<Longrightarrow> wt_wf R (tmh_Push t w)"
    using wf by (auto simp: wt_wf_def wt_fresh_def tmh_Push_def core_def map_set_index)
  show "wt_fresh t w \<Longrightarrow> wt_elems (tmh_Push t w) = wt_elems w @ [wt_view t w]"
    by (simp add: wt_elems_def tmh_Push_def wt_view_def)
  {
    assume ij: "i < length (wt_elems w)" "j < length (wt_elems w)"
    show "tmh_Less w i j = (snd (wt_elems w ! i) < snd (wt_elems w ! j))"
      using ij by (simp add: tmh_Less_def wt_elems_def wt_view_def)
    show "wt_wf R (tmh_Swap i j w)"
      using wf ij by (simp add: wt_wf_def tmh_Swap_def Let_def swapped_distinct_set core_def map_set_index)
    show "wt_elems (tmh_Swap i j w) = swapped i j (wt_elems w)"
      using ij by (simp add: wt_elems_def map_swapped [symmetric] tmh_Swap_def Let_def wt_view_def)
  }
  assume ne: "wt_elems w \<noteq> []"
  then have h: "wh_heap w \<noteq> []" by (simp add: wt_elems_def)
  show "wt_wf R (snd (tmh_Pop w))"
    using wf by (auto simp: wt_wf_def tmh_Pop_def Let_def core_def map_set_index dest: in_set_takeD)
  show "wt_elems (snd (tmh_Pop w)) = butlast (wt_elems w)" "fst (tmh_Pop w) = fst (last (wt_elems w))"
    using h by (simp_all add: tmh_Pop_def wt_elems_def wt_view_def Let_def butlast_conv_take take_map last_map last_conv_nth)
qed

definition wh_ok :: "wheel \<Rightarrow> bool" where
  "wh_ok w \<longleftrightarrow> wth.heap_ok (core w) w"

lemma wt_elems_set: "fst ` set (wt_elems w) = set (wh_heap w)"
  by (force simp: wt_elems_def wt_view_def)

lemma wh_ok_bounds: "wh_ok w \<Longrightarrow> t \<in> set (wh_heap w) \<Longrightarrow> t < length (wh_store w)"
  by (simp add: wh_ok_def wth.heap_ok_def wt_wf_def)

lemma heap_set_mset: "mset (wt_elems w') = M \<Longrightarrow> set (wh_heap w') = fst ` set_mset M"
  by (metis set_mset_mset wt_elems_set)

lemma wheel_push_ok:
  assumes "wh_ok w" "wt_fresh t w"
  shows "wh_ok (wheel_push t w)" "core (wheel_push t w) = core w" "set (wh_heap (wheel_push t w)) = insert t (set (wh_heap w))"
proof -
  note p = wth.Push_ok [OF assms(1) [unfolded wh_ok_def] assms(2)]
  show c: "core (wheel_push t w) = core w" using p by (simp add: wth.heap_ok_def wt_wf_def)
  show "wh_ok (wheel_push t w)" using p c by (simp add: wh_ok_def)
  show "set (wh_heap (wheel_push t w)) = insert t (set (wh_heap w))"
    using heap_set_mset [OF conjunct2 [OF p]] by (simp add: wt_view_def wt_elems_set)
qed

lemma wheel_pop_ok:
  assumes "wh_ok w" "wh_heap w \<noteq> []" "wheel_pop w = (t, w')"
  shows "wh_ok w'" "core w' = core w" "t = wh_heap w ! 0" "set (wh_heap w) = insert t (set (wh_heap w'))" "t \<notin> set (wh_heap w')"
    "length (wh_heap w) = Suc (length (wh_heap w'))" "\<And>u. u \<in> set (wh_heap w) \<Longrightarrow> tm_when (wh_store w ! t) \<le> tm_when (wh_store w ! u)"
proof -
  have ne: "wt_elems w \<noteq> []" using assms(2) by (simp add: wt_elems_def)
  note p = wth.Pop_ok [OF assms(1) [unfolded wh_ok_def] ne assms(3)]
  show c: "core w' = core w" using p by (simp add: wth.heap_ok_def wt_wf_def)
  show "wh_ok w'" using p c by (simp add: wh_ok_def)
  show t: "t = wh_heap w ! 0" using p assms(2) by (simp add: wt_elems_def wt_view_def)
  have m: "mset (wt_elems w) = add_mset (wt_elems w ! 0) (mset (wt_elems w'))" using p by simp
  have v: "wt_elems w ! 0 = wt_view t w" using t assms(2) by (simp add: wt_elems_def)
  show s: "set (wh_heap w) = insert t (set (wh_heap w'))"
    using heap_set_mset [OF m] v by (simp add: wt_view_def wt_elems_set)
  show len: "length (wh_heap w) = Suc (length (wh_heap w'))" using arg_cong [OF m, of size] by simp
  have "distinct (wh_heap w)" "distinct (wh_heap w')" using assms(1) p by (simp_all add: wh_ok_def wth.heap_ok_def wt_wf_def)
  then have "card (set (wh_heap w)) = Suc (card (set (wh_heap w')))" using len by (simp add: distinct_card)
  then show "t \<notin> set (wh_heap w')" using s by (metis List.finite_set insert_absorb n_not_Suc_n)
  fix u assume "u \<in> set (wh_heap w)"
  then have "wt_view u w \<in> set (wt_elems w)" by (simp add: wt_elems_def)
  from wth.heap_ok_root [OF assms(1) [unfolded wh_ok_def] this] v
  show "tm_when (wh_store w ! t) \<le> tm_when (wh_store w ! u)" by (simp add: wt_view_def)
qed

subsection \<open>The invariant\<close>

abbreviation "due_at w t \<equiv> tm_when (wh_store w ! t)"

text \<open>Callbacks of \<open>t\<close> so far, and the one that is certain to be tried.\<close>

definition shots :: "nat \<Rightarrow> wheel \<Rightarrow> nat" where
  "shots t w = length (filter (\<lambda>f. fst f = t) (wh_fired w))"

definition armed :: "nat \<Rightarrow> wheel \<Rightarrow> nat" where
  "armed t w = (if t \<in> set (wh_heap w) \<or> (\<exists>due. wh_pc w = WFire t due) then 1 else 0)"

definition pc_ok :: "wheel \<Rightarrow> bool" where
  "pc_ok w \<longleftrightarrow> (\<forall>t due. wh_pc w = WFire t due \<longrightarrow> t < length (wh_store w) \<and> t \<notin> set (wh_heap w) \<and> due_at w t \<le> due)
    \<and> (\<forall>t. wh_pc w = WAfter t \<longrightarrow> t < length (wh_store w) \<and> t \<notin> set (wh_heap w))"

definition fired_ok :: "wheel \<Rightarrow> bool" where
  "fired_ok w \<longleftrightarrow> (\<forall>(t, d, due)\<in>set (wh_fired w). d \<le> due \<and> t < length (wh_store w))
    \<and> (\<forall>t<length (wh_store w). tm_interval (wh_store w ! t) \<le> 0 \<longrightarrow> shots t w + armed t w \<le> 1)"

definition wake_ok :: "wheel \<Rightarrow> bool" where
  "wake_ok w \<longleftrightarrow> wh_wakeup w \<or> 0 < wh_waking w
    \<or> (wh_pc w = WWaitWake \<longrightarrow> wh_heap w = [] \<and> \<not> wh_closed w)
      \<and> (\<forall>d. wh_pc w = WWaitTimer d \<longrightarrow> (\<forall>t\<in>set (wh_heap w). d \<le> due_at w t) \<and> \<not> wh_closed w)"

definition wh_inv :: "wheel \<Rightarrow> bool" where
  "wh_inv w \<longleftrightarrow> wh_ok w \<and> pc_ok w \<and> fired_ok w \<and> wake_ok w"

lemma wh_New_inv: "wh_inv wh_New"
  by (simp add: wh_inv_def wh_New_def wh_ok_def wth.heap_ok_def wt_wf_def is_heap_def pc_ok_def fired_ok_def wake_ok_def)

text \<open>\<open>wh_ok\<close> depends on the heap and the deadlines only.\<close>

lemma wh_ok_cong:
  assumes "wh_ok w" "wh_heap w' = wh_heap w" "length (wh_store w) \<le> length (wh_store w')"
    and "\<And>t. t \<in> set (wh_heap w) \<Longrightarrow> due_at w' t = due_at w t"
  shows "wh_ok w'"
proof -
  have "wt_elems w' = wt_elems w" using assms(2,4) by (simp add: wt_elems_def wt_view_def)
  then show ?thesis using assms(1-3) by (auto simp: wh_ok_def wth.heap_ok_def wt_wf_def)
qed

lemma clean_top_ok:
  assumes "wh_ok w"
  shows "wh_ok (clean_top n w) \<and> core (clean_top n w) = core w \<and> set (wh_heap (clean_top n w)) \<subseteq> set (wh_heap w)"
  using assms
proof (induction n arbitrary: w)
  case (Suc n)
  obtain t w' where p: "wheel_pop w = (t, w')" by (cases "wheel_pop w")
  show ?case
  proof (cases "wh_heap w \<noteq> [] \<and> tm_cancelled (wh_store w ! (wh_heap w ! 0))")
    case True
    note q = wheel_pop_ok [OF Suc.prems conjunct1 [OF True] p]
    show ?thesis using Suc.IH [OF q(1)] q(2,4) True p by auto
  qed (use Suc.prems in auto)
qed simp

text \<open>Enough fuel: after the rounds the heap is empty or its first timer is not cancelled.\<close>

lemma clean_top_enough:
  assumes "wh_ok w" "length (wh_heap w) \<le> n"
  shows "wh_heap (clean_top n w) = [] \<or> \<not> tm_cancelled (wh_store (clean_top n w) ! (wh_heap (clean_top n w) ! 0))"
  using assms
proof (induction n arbitrary: w)
  case (Suc n)
  obtain t w' where p: "wheel_pop w = (t, w')" by (cases "wheel_pop w")
  show ?case
  proof (cases "wh_heap w \<noteq> [] \<and> tm_cancelled (wh_store w ! (wh_heap w ! 0))")
    case True
    note q = wheel_pop_ok [OF Suc.prems(1) conjunct1 [OF True] p]
    have "length (wh_heap w') \<le> n" using q(6) Suc.prems(2) by simp
    then show ?thesis using Suc.IH [OF q(1)] True p by auto
  qed auto
qed simp

text \<open>What the heap operations change of the invariant: only which timers are armed.\<close>

lemma shots_core:
  assumes "core w' = core w"
  shows "shots t w' = shots t w"
  by (simp add: shots_def core_fields(6) [OF assms])

lemma fired_ok_core:
  assumes "fired_ok w" "core w' = core w" "\<And>t. armed t w' \<le> armed t w"
  shows "fired_ok w'"
proof -
  have "shots t w' + armed t w' \<le> 1" if "t < length (wh_store w)" "tm_interval (wh_store w ! t) \<le> 0" for t
  proof -
    have "shots t w + armed t w \<le> 1" using assms(1) that unfolding fired_ok_def by blast
    then show ?thesis using assms(3) [of t] shots_core [OF assms(2), of t] by linarith
  qed
  then show ?thesis using assms(1) core_fields [OF assms(2)] core_timers [OF assms(2)] by (auto simp: fired_ok_def)
qed

lemma run_top_inv:
  assumes "wh_inv w" "wh_pc w = WTop"
  shows "wh_inv (run_top now w)"
proof -
  let ?w = "clean_top (length (wh_heap w)) w"
  have ok: "wh_ok w" "fired_ok w" using assms by (simp_all add: wh_inv_def)
  have c: "wh_ok ?w" "core ?w = core w" "set (wh_heap ?w) \<subseteq> set (wh_heap w)" using clean_top_ok [OF ok(1)] by blast+
  note f = core_fields [OF c(2)] and tm = core_timers [OF c(2)]
  have pcw: "wh_pc ?w = WTop" using f(3) assms(2) by simp
  have fo: "fired_ok ?w" using c(3) pcw by (intro fired_ok_core [OF ok(2) c(2)]) (auto simp: armed_def)
  show ?thesis
  proof (cases "wh_heap ?w = [] \<or> now < due_at ?w (wh_heap ?w ! 0)")
    case True
    define pc where "pc = (if wh_closed ?w then WDone else if wh_heap ?w = [] then WWaitWake else WWaitTimer (due_at ?w (wh_heap ?w ! 0)))"
    have pc: "run_top now w = ?w\<lparr>wh_pc := pc\<rparr>" using True by (cases "wh_heap ?w = []") (simp_all add: run_top_def Let_def pc_def)
    have ok': "wh_ok (?w\<lparr>wh_pc := pc\<rparr>)" by (rule wh_ok_cong [OF c(1)]) simp_all
    have low: "due_at ?w (wh_heap ?w ! 0) \<le> due_at ?w u" if "u \<in> set (wh_heap ?w)" for u
    proof -
      have ne: "wh_heap ?w \<noteq> []" using that by auto
      obtain t w' where p: "wheel_pop ?w = (t, w')" by (cases "wheel_pop ?w")
      from wheel_pop_ok(3,7) [OF c(1) ne p] that show ?thesis by simp
    qed
    have "fired_ok (?w\<lparr>wh_pc := pc\<rparr>)" using fo pcw by (auto simp: fired_ok_def shots_def armed_def pc_def)
    moreover have "pc_ok (?w\<lparr>wh_pc := pc\<rparr>)" by (auto simp: pc_ok_def pc_def)
    moreover have "wake_ok (?w\<lparr>wh_pc := pc\<rparr>)" using low by (auto simp: wake_ok_def pc_def)
    ultimately show ?thesis using ok' pc by (simp add: wh_inv_def)
  next
    case False
    obtain t w' where p: "wheel_pop ?w = (t, w')" by (cases "wheel_pop ?w")
    have e: "run_top now w = w'\<lparr>wh_pc := WFire t now\<rparr>" using False p by (simp add: run_top_def Let_def)
    have ne: "wh_heap ?w \<noteq> []" using False by blast
    note q = wheel_pop_ok [OF c(1) ne p]
    have t: "t < length (wh_store ?w)" using q(4) wh_ok_bounds [OF c(1)] by blast
    note f' = core_fields [OF q(2)] and tm' = core_timers [OF q(2)]
    have ok': "wh_ok (w'\<lparr>wh_pc := WFire t now\<rparr>)" by (rule wh_ok_cong [OF q(1)]) simp_all
    have "pc_ok (w'\<lparr>wh_pc := WFire t now\<rparr>)" using t q(3,5) f'(7) tm'(1) [OF t] False by (auto simp: pc_ok_def not_less)
    moreover have "fired_ok (w'\<lparr>wh_pc := WFire t now\<rparr>)"
    proof -
      have "armed u (w'\<lparr>wh_pc := WFire t now\<rparr>) = armed u ?w" for u using q(4,5) pcw by (auto simp: armed_def)
      moreover have "shots u (w'\<lparr>wh_pc := WFire t now\<rparr>) = shots u ?w" for u using f'(6) by (simp add: shots_def)
      ultimately show ?thesis using fo f'(6,7) tm'(2) by (auto simp: fired_ok_def)
    qed
    moreover have "wake_ok (w'\<lparr>wh_pc := WFire t now\<rparr>)" by (simp add: wake_ok_def)
    ultimately show ?thesis using ok' e by (simp add: wh_inv_def)
  qed
qed

lemma add_push_inv:
  assumes "wh_inv w" "add_push k now w = Some w'"
  shows "wh_inv w'"
proof -
  obtain delay interval where a: "wh_adding w ! k = (delay, interval)" by (cases "wh_adding w ! k")
  define t where "t = length (wh_store w)"
  define w1 where "w1 = w\<lparr>wh_adding := take k (wh_adding w) @ drop (Suc k) (wh_adding w),
    wh_store := wh_store w @ [\<lparr>tm_when = now + delay, tm_interval = interval, tm_index = 0, tm_cancelled = False\<rparr>]\<rparr>"
  have w': "w' = (wheel_push t w1)\<lparr>wh_waking := wh_waking w + 1\<rparr>"
    using assms(2) a by (auto simp: add_push_def w1_def t_def Let_def split: if_splits)
  have inv: "wh_ok w" "pc_ok w" "fired_ok w" using assms(1) by (simp_all add: wh_inv_def)
  have old: "wh_store w1 ! u = wh_store w ! u" if "u < t" for u using that by (simp add: w1_def t_def nth_append)
  have ok1: "wh_ok w1"
    using wh_ok_bounds [OF inv(1)] old by (intro wh_ok_cong [OF inv(1)]) (auto simp: w1_def t_def)
  have fr: "wt_fresh t w1" using wh_ok_bounds [OF inv(1)] by (auto simp: wt_fresh_def w1_def t_def)
  note p = wheel_push_ok [OF ok1 fr] and f = core_fields [OF wheel_push_ok(2) [OF ok1 fr]] and tm = core_timers [OF wheel_push_ok(2) [OF ok1 fr]]
  have len: "length (wh_store w1) = Suc t" by (simp add: w1_def t_def)
  have ok': "wh_ok w'" unfolding w' by (rule wh_ok_cong [OF p(1)]) simp_all
  have pc: "wh_pc w' = wh_pc w" "wh_fired w' = wh_fired w" "length (wh_store w') = Suc t" "set (wh_heap w') = insert t (set (wh_heap w))"
    using f p(3) len by (simp_all add: w' w1_def)
  have timers: "due_at w' u = due_at w u" "tm_interval (wh_store w' ! u) = tm_interval (wh_store w ! u)" if "u < t" for u
    using tm [of u] old [OF that] that len by (simp_all add: w')
  have "pc_ok w'" using inv(2) pc timers by (auto simp: pc_ok_def t_def less_Suc_eq)
  moreover have "fired_ok w'"
  proof -
    have none: "shots t w' = 0" using inv(3) pc(2) by (auto simp: shots_def fired_ok_def t_def filter_empty_conv)
    have arm: "armed u w' = armed u w" if "u < t" for u using that pc by (simp add: armed_def)
    have sh: "shots u w' = shots u w" for u using pc(2) by (simp add: shots_def)
    have "shots u w' + armed u w' \<le> 1" if "u < Suc t" "tm_interval (wh_store w' ! u) \<le> 0" for u
    proof (cases "u = t")
      case True
      then show ?thesis using none by (simp add: armed_def)
    next
      case False
      then have "u < t" using that by simp
      then show ?thesis using inv(3) that(2) timers(2) arm sh by (simp add: fired_ok_def t_def)
    qed
    moreover have "\<forall>(u, d, due)\<in>set (wh_fired w'). d \<le> due \<and> u < length (wh_store w')"
      using inv(3) pc(2,3) by (auto simp: fired_ok_def t_def)
    ultimately show ?thesis using pc(3) by (simp add: fired_ok_def)
  qed
  moreover have "wake_ok w'" by (simp add: w' wake_ok_def)
  ultimately show ?thesis using ok' by (simp add: wh_inv_def)
qed

lemma run_fire_inv:
  assumes "wh_inv w" "wh_pc w = WFire t due"
  shows "wh_inv (run_fire panics t due w)"
proof -
  let ?w = "run_fire panics t due w"
  have inv: "wh_ok w" "t < length (wh_store w)" "t \<notin> set (wh_heap w)" "due_at w t \<le> due" "fired_ok w"
    using assms by (auto simp: wh_inv_def pc_ok_def)
  have same: "wh_heap ?w = wh_heap w" "wh_store ?w = wh_store w" "wh_pc ?w = WAfter t"
    by (simp_all add: run_fire_def safeFire_def)
  have fired: "wh_fired ?w = wh_fired w \<or> wh_fired ?w = wh_fired w @ [(t, due_at w t, due)]"
    by (simp add: run_fire_def safeFire_def)
  have "wh_ok ?w" by (rule wh_ok_cong [OF inv(1)]) (simp_all add: same)
  moreover have "pc_ok ?w" using inv same by (simp add: pc_ok_def)
  moreover have "fired_ok ?w"
  proof -
    have "shots u ?w + armed u ?w \<le> shots u w + armed u w" for u
      using fired inv(3) assms(2) same by (auto simp: shots_def armed_def)
    then have "shots u ?w + armed u ?w \<le> 1" if "u < length (wh_store w)" "tm_interval (wh_store w ! u) \<le> 0" for u
      using inv(5) that unfolding fired_ok_def by (meson le_trans)
    moreover have "\<forall>(u, d, e)\<in>set (wh_fired ?w). d \<le> e \<and> u < length (wh_store w)"
      using fired inv(2,4,5) by (auto simp: fired_ok_def)
    ultimately show ?thesis by (simp add: fired_ok_def same)
  qed
  moreover have "wake_ok ?w" by (simp add: wake_ok_def same)
  ultimately show ?thesis by (simp add: wh_inv_def)
qed

lemma run_after_inv:
  assumes "wh_inv w" "wh_pc w = WAfter t"
  shows "wh_inv (run_after now t w)"
proof -
  let ?tm = "wh_store w ! t"
  have inv: "wh_ok w" "t < length (wh_store w)" "t \<notin> set (wh_heap w)" "fired_ok w" using assms by (auto simp: wh_inv_def pc_ok_def)
  show ?thesis
  proof (cases "0 < tm_interval ?tm \<and> \<not> tm_cancelled ?tm \<and> \<not> wh_closed w")
    case True
    define w1 where "w1 = w\<lparr>wh_store := (wh_store w)[t := ?tm\<lparr>tm_when := now + tm_interval ?tm\<rparr>]\<rparr>"
    have e: "run_after now t w = (wheel_push t w1)\<lparr>wh_pc := WTop\<rparr>" using True by (simp add: run_after_def w1_def Let_def)
    have ok1: "wh_ok w1"
    proof (rule wh_ok_cong [OF inv(1)])
      fix u assume "u \<in> set (wh_heap w)"
      then have "u \<noteq> t" using inv(3) by blast
      then show "due_at w1 u = due_at w u" by (simp add: w1_def)
    qed (simp_all add: w1_def)
    have fr: "wt_fresh t w1" using inv by (simp add: wt_fresh_def w1_def)
    note p = wheel_push_ok [OF ok1 fr] and f = core_fields [OF wheel_push_ok(2) [OF ok1 fr]] and tm = core_timers [OF wheel_push_ok(2) [OF ok1 fr]]
    let ?w = "(wheel_push t w1)\<lparr>wh_pc := WTop\<rparr>"
    have "wh_ok ?w" by (rule wh_ok_cong [OF p(1)]) simp_all
    moreover have "fired_ok ?w"
    proof -
      have int: "tm_interval (wh_store ?w ! u) = tm_interval (wh_store w ! u)" if "u < length (wh_store w)" for u
        using tm(2) [of u] that by (cases "u = t") (simp_all add: w1_def)
      have "shots u ?w = shots u w" for u using f(6) by (simp add: shots_def w1_def)
      moreover have "armed u ?w \<le> armed u w" if "u \<noteq> t" for u using that p(3) by (auto simp: armed_def w1_def)
      ultimately have "shots u ?w + armed u ?w \<le> 1" if "u < length (wh_store w)" "tm_interval (wh_store w ! u) \<le> 0" for u
        using inv(4) that True unfolding fired_ok_def by (metis add_left_mono le_trans linorder_not_less)
      then show ?thesis using int inv(4) f(6,7) by (auto simp: fired_ok_def w1_def)
    qed
    ultimately show ?thesis by (simp add: e wh_inv_def pc_ok_def wake_ok_def)
  next
    case False
    then have e: "run_after now t w = w\<lparr>wh_pc := WTop\<rparr>" by (auto simp: run_after_def Let_def)
    have "wh_ok (w\<lparr>wh_pc := WTop\<rparr>)" by (rule wh_ok_cong [OF inv(1)]) simp_all
    moreover have "fired_ok (w\<lparr>wh_pc := WTop\<rparr>)" using inv(4) assms(2) by (auto simp: fired_ok_def shots_def armed_def)
    ultimately show ?thesis by (simp add: e wh_inv_def pc_ok_def wake_ok_def)
  qed
qed

lemma wh_Cancel_inv:
  assumes "wh_inv w" "t < length (wh_store w)"
  shows "wh_inv (wh_Cancel t w)"
proof -
  let ?w = "wh_Cancel t w"
  have tm: "due_at ?w u = due_at w u" "tm_interval (wh_store ?w ! u) = tm_interval (wh_store w ! u)" for u
    using assms(2) by (cases "u = t", simp_all add: wh_Cancel_def)+
  have same: "wh_heap ?w = wh_heap w" "wh_pc ?w = wh_pc w" "wh_fired ?w = wh_fired w" "length (wh_store ?w) = length (wh_store w)"
    "wh_wakeup ?w = wh_wakeup w" "wh_waking ?w = wh_waking w" "wh_closed ?w = wh_closed w" by (simp_all add: wh_Cancel_def)
  have "wh_ok w" using assms(1) by (simp add: wh_inv_def)
  then have "wh_ok ?w" by (rule wh_ok_cong) (simp_all add: same tm)
  moreover have "pc_ok ?w = pc_ok w" unfolding pc_ok_def same tm by (rule refl)
  moreover have "fired_ok ?w = fired_ok w" unfolding fired_ok_def shots_def armed_def same tm by (rule refl)
  moreover have "wake_ok ?w = wake_ok w" unfolding wake_ok_def same tm by (rule refl)
  ultimately show ?thesis using assms(1) by (simp add: wh_inv_def)
qed

text \<open>Steps that touch neither heap, store nor log keep all but the wake-up part.\<close>

lemma wh_inv_frame:
  assumes "wh_inv w" "wh_heap w' = wh_heap w" "wh_store w' = wh_store w" "wh_fired w' = wh_fired w"
    and "wh_pc w' = wh_pc w \<or> wh_pc w' = WTop \<and> (wh_pc w = WWaitWake \<or> (\<exists>d. wh_pc w = WWaitTimer d))" and "wake_ok w'"
  shows "wh_inv w'"
proof -
  have "wh_ok w" using assms(1) by (simp add: wh_inv_def)
  then have "wh_ok w'" by (rule wh_ok_cong) (simp_all add: assms(2,3))
  moreover have "pc_ok w'"
  proof (cases "wh_pc w' = wh_pc w")
    case True
    then have "pc_ok w' = pc_ok w" unfolding pc_ok_def assms(2,3) by simp
    then show ?thesis using assms(1) by (simp add: wh_inv_def)
  next
    case False
    then show ?thesis using assms(5) by (simp add: pc_ok_def)
  qed
  moreover have "fired_ok w'"
  proof -
    have "armed t w' = armed t w" for t unfolding armed_def assms(2) using assms(5) by (elim disjE) (simp, auto)
    moreover have "shots t w' = shots t w" for t using assms(4) by (simp add: shots_def)
    ultimately have "fired_ok w' = fired_ok w" unfolding fired_ok_def assms(3,4) by simp
    then show ?thesis using assms(1) by (simp add: wh_inv_def)
  qed
  ultimately show ?thesis using assms(6) by (simp add: wh_inv_def)
qed

lemma wh_do_inv:
  assumes "wh_inv w" "wh_do e w = Some w'"
  shows "wh_inv w'"
proof (cases e)
  case (TCheck delay interval has_fn)
  then have "w' = w\<lparr>wh_adding := wh_adding w @ [(delay, interval)]\<rparr>" using assms(2) by (auto simp: wh_do_def add_check_def split: if_splits)
  then show ?thesis using assms(1) by (intro wh_inv_frame [OF assms(1)]) (auto simp: wh_inv_def wake_ok_def)
next
  case (TPush k now)
  then show ?thesis using assms add_push_inv by (simp add: wh_do_def)
next
  case TWake
  then have "w' = wh_wake (w\<lparr>wh_waking := wh_waking w - 1\<rparr>)" using assms(2) by (auto simp: wh_do_def add_wake_def split: if_splits)
  then show ?thesis by (intro wh_inv_frame [OF assms(1)]) (auto simp: wh_wake_def wake_ok_def)
next
  case (TCancel t)
  then show ?thesis using assms wh_Cancel_inv by (auto simp: wh_do_def split: if_splits)
next
  case TClose
  then have w': "w' = wh_Close w" using assms(2) by (simp add: wh_do_def)
  show ?thesis
  proof (cases "wh_closed w")
    case True
    then show ?thesis using assms(1) w' by (simp add: wh_Close_def)
  next
    case False
    then show ?thesis by (intro wh_inv_frame [OF assms(1)]) (simp_all add: w' wh_Close_def wake_ok_def)
  qed
next
  case (TTop now)
  then show ?thesis using assms run_top_inv by (auto simp: wh_do_def split: if_splits)
next
  case (TFire panics)
  then show ?thesis using assms run_fire_inv by (auto simp: wh_do_def split: wheel_pc.splits)
next
  case (TAfter now)
  then show ?thesis using assms run_after_inv by (auto simp: wh_do_def split: wheel_pc.splits)
next
  case TReceive
  then show ?thesis using assms
    by (auto simp: wh_do_def wake_ok_def intro!: wh_inv_frame [OF assms(1)] split: wheel_pc.splits if_splits)
next
  case TTimer
  then show ?thesis using assms
    by (auto simp: wh_do_def wake_ok_def intro!: wh_inv_frame [OF assms(1)] split: wheel_pc.splits if_splits)
qed

lemma wh_run_inv: "wh_inv w \<Longrightarrow> wh_run es w = Some w' \<Longrightarrow> wh_inv w'"
proof (induction es arbitrary: w)
  case (Cons e es)
  then show ?case using wh_do_inv [OF Cons.prems(1)] by (auto split: option.splits)
qed simp

subsection \<open>Cancellation\<close>

lemma store_kept:
  assumes "core w' = core w" "t < length (wh_store w)"
  shows "t < length (wh_store w') \<and> tm_cancelled (wh_store w' ! t) = tm_cancelled (wh_store w ! t) \<and> wh_fired w' = wh_fired w"
  using core_fields(6,7) [OF assms(1)] core_timers(3) [OF assms] assms(2) by simp

lemma cancelled_stays:
  assumes "wh_inv w" "wh_do e w = Some w'" "t < length (wh_store w)" "tm_cancelled (wh_store w ! t)"
  shows "t < length (wh_store w') \<and> tm_cancelled (wh_store w' ! t) \<and> shots t w' = shots t w"
proof (cases e)
  case (TPush k now)
  obtain delay interval where a: "wh_adding w ! k = (delay, interval)" by (cases "wh_adding w ! k")
  let ?w1 = "w\<lparr>wh_adding := take k (wh_adding w) @ drop (Suc k) (wh_adding w),
    wh_store := wh_store w @ [\<lparr>tm_when = now + delay, tm_interval = interval, tm_index = 0, tm_cancelled = False\<rparr>]\<rparr>"
  have w': "w' = (wheel_push (length (wh_store w)) ?w1)\<lparr>wh_waking := wh_waking w + 1\<rparr>"
    using assms(2) a TPush by (auto simp: wh_do_def add_push_def Let_def split: if_splits)
  have ok: "wh_ok w" using assms(1) by (simp add: wh_inv_def)
  have ok1: "wh_ok ?w1" using wh_ok_bounds [OF ok] by (intro wh_ok_cong [OF ok]) (auto simp: nth_append)
  have fr: "wt_fresh (length (wh_store w)) ?w1" using wh_ok_bounds [OF ok] by (auto simp: wt_fresh_def)
  from store_kept [OF wheel_push_ok(2) [OF ok1 fr], of t] assms(3,4) show ?thesis by (simp add: w' nth_append shots_def)
next
  case (TTop now)
  let ?w = "clean_top (length (wh_heap w)) w"
  have ok: "wh_ok w" using assms(1) by (simp add: wh_inv_def)
  have c: "wh_ok ?w" "core ?w = core w" using clean_top_ok [OF ok] by blast+
  obtain u w2 where p: "wheel_pop ?w = (u, w2)" by (cases "wheel_pop ?w")
  have w': "w' = run_top now w" using assms(2) TTop by (auto simp: wh_do_def split: if_splits)
  have "wh_store w' = wh_store ?w \<and> wh_fired w' = wh_fired ?w
      \<or> wh_heap ?w \<noteq> [] \<and> wh_store w' = wh_store w2 \<and> wh_fired w' = wh_fired w2"
    using p by (auto simp: w' run_top_def Let_def split: if_splits)
  moreover have "core w2 = core w" if "wh_heap ?w \<noteq> []" using wheel_pop_ok(2) [OF c(1) that p] c(2) by simp
  ultimately show ?thesis using store_kept [OF c(2) assms(3)] store_kept [of w2 w t] assms(3,4) by (auto simp: shots_def)
next
  case (TAfter now)
  then obtain u where u: "wh_pc w = WAfter u" "w' = run_after now u w" using assms(2) by (auto simp: wh_do_def split: wheel_pc.splits)
  have inv: "wh_ok w" "u < length (wh_store w)" "u \<notin> set (wh_heap w)" using assms(1) u(1) by (auto simp: wh_inv_def pc_ok_def)
  let ?w1 = "w\<lparr>wh_store := (wh_store w)[u := (wh_store w ! u)\<lparr>tm_when := now + tm_interval (wh_store w ! u)\<rparr>]\<rparr>"
  have ok1: "wh_ok ?w1"
  proof (rule wh_ok_cong [OF inv(1)])
    fix x assume "x \<in> set (wh_heap w)"
    then have "x \<noteq> u" using inv(3) by blast
    then show "due_at ?w1 x = due_at w x" by simp
  qed simp_all
  have fr: "wt_fresh u ?w1" using inv by (simp add: wt_fresh_def)
  have "tm_cancelled (wh_store ?w1 ! t)" using assms(3,4) by (cases "t = u") simp_all
  then show ?thesis using store_kept [OF wheel_push_ok(2) [OF ok1 fr], of t] assms(3,4) u(2)
    by (auto simp: run_after_def Let_def shots_def)
qed (use assms in \<open>auto simp: wh_do_def add_check_def add_wake_def wh_wake_def wh_Cancel_def wh_Close_def run_fire_def safeFire_def
    shots_def nth_list_update split: if_splits wheel_pc.splits\<close>)

lemma cancelled_never_fires:
  assumes "wh_inv w" "wh_run es w = Some w'" "t < length (wh_store w)" "tm_cancelled (wh_store w ! t)"
  shows "shots t w' = shots t w"
  using assms
proof (induction es arbitrary: w)
  case (Cons e es)
  obtain w1 where w1: "wh_do e w = Some w1" "wh_run es w1 = Some w'" using Cons.prems(2) by (auto split: option.splits)
  note c = cancelled_stays [OF Cons.prems(1) w1(1) Cons.prems(3,4)]
  have "shots t w' = shots t w1" by (rule Cons.IH [OF wh_do_inv [OF Cons.prems(1) w1(1)] w1(2)]) (use c in simp_all)
  then show ?case using c by simp
qed simp

lemma wh_run_append: "wh_run (es @ fs) w = (case wh_run es w of None \<Rightarrow> None | Some w1 \<Rightarrow> wh_run fs w1)"
  by (induction es arbitrary: w) (simp_all split: option.splits)

subsection \<open>Theorems\<close>

text \<open>The timer that is popped is the earliest of the heap.\<close>

lemma run_top_earliest:
  assumes "wh_ok w" "wh_pc (run_top now w) = WFire t now" "wh_pc w = WTop" "u \<in> set (wh_heap (clean_top (length (wh_heap w)) w))"
  shows "due_at w t \<le> due_at w u"
proof -
  let ?w = "clean_top (length (wh_heap w)) w"
  have c: "wh_ok ?w" "core ?w = core w" using clean_top_ok [OF assms(1)] by blast+
  have ne: "wh_heap ?w \<noteq> []" using assms(4) by auto
  obtain t' w' where p: "wheel_pop ?w = (t', w')" by (cases "wheel_pop ?w")
  note q = wheel_pop_ok [OF c(1) ne p]
  have "t = t'" using assms(2) ne p core_fields(3) [OF c(2)] assms(3) by (auto simp: run_top_def Let_def split: if_splits)
  then show ?thesis
    using q(7) [OF assms(4)] q(4) core_timers(1) [OF c(2)] wh_ok_bounds [OF c(1)] core_fields(7) [OF c(2)] assms(4)
    by (metis insertI1)
qed

text \<open>\<open>Close\<close> does not stop a timer that is due: the loop pops it although the wheel is closed.\<close>

lemma closed_wheel_fires:
  assumes "wh_closed w" "wh_heap (clean_top (length (wh_heap w)) w) \<noteq> []"
    and "due_at (clean_top (length (wh_heap w)) w) (wh_heap (clean_top (length (wh_heap w)) w) ! 0) \<le> now"
  shows "\<exists>t. wh_pc (run_top now w) = WFire t now"
  using assms(2,3) by (auto simp: run_top_def Let_def not_less split: prod.splits)

text \<open>An \<open>Add\<close> that passed its check before \<open>Close\<close> can push a timer nobody will fire, and reports no error.\<close>

lemma heap_singleton [simp]: "heap_up lt swap 0 s = s" "heap_down lt swap 0 0 s = (s, 0)" "parent 0 = 0"
  by (simp_all add: heap_up.simps [of lt swap 0] heap_down.simps [of lt swap 0] parent_def)

lemma add_races_close:
  "\<exists>w. wh_run [TCheck 5 0 True, TClose, TWake, TTop 0, TPush 0 0] wh_New = Some w \<and> wh_pc w = WDone \<and> wh_Len w = 1"
proof -
  let ?w = "\<lparr>wh_heap = [], wh_store = [], wh_wakeup = True, wh_closed = True, wh_recovered = 0, wh_pc = WDone,
    wh_adding = [(5, 0)], wh_waking = 0, wh_fired = []\<rparr>"
  have "wh_run [TCheck 5 0 True, TClose, TWake, TTop 0, TPush 0 0] wh_New = wh_do (TPush 0 0) ?w"
    by (simp add: wh_do_def wh_New_def add_check_def wh_Close_def add_wake_def wh_wake_def run_top_def Let_def split: option.splits)
  moreover have "\<exists>w. wh_do (TPush 0 0) ?w = Some w \<and> wh_pc w = WDone \<and> wh_Len w = 1"
    by (simp add: wh_do_def add_push_def heap_Push_def tmh_Push_def tmh_Len_def tm_set_index_def wh_Len_def Let_def)
  ultimately show ?thesis by simp
qed



end
