(* ===== verification/Civil.thy ===== *)
theory Civil
  imports Prelude
begin

section \<open>Days and civil dates\<close>

text \<open>
  What the sources use of the calendar of package \<open>time\<close>: the proleptic Gregorian date of a day, counted
  from 1 January 1970, and the day of a date, with months and days out of their ranges carried over the way
  \<open>time.Date\<close> does.  The two are inverse, so that everything built on them can reason about day numbers.
  Years are counted from 0 here as in \<open>time\<close>; \<open>days_before\<close> is the number of days before 1 January of a
  year, from 1 January of the year 1.
\<close>

definition leap_year :: "int \<Rightarrow> bool" where
  "leap_year y \<longleftrightarrow> y mod 4 = 0 \<and> (y mod 100 \<noteq> 0 \<or> y mod 400 = 0)"

definition days_before :: "int \<Rightarrow> int" where
  "days_before y = 365 * (y - 1) + (y - 1) div 4 - (y - 1) div 100 + (y - 1) div 400"

definition year_length :: "int \<Rightarrow> int" where
  "year_length y = (if leap_year y then 366 else 365)"

text \<open>The year of a day: an estimate from the mean length of a year, which is off by at most one.\<close>

definition year_of :: "int \<Rightarrow> int" where
  "year_of n =
    (let y = 400 * n div 146097 + 1
     in if n < days_before y then y - 1 else if days_before (y + 1) \<le> n then y + 1 else y)"

definition month_start :: "bool \<Rightarrow> int \<Rightarrow> int" where
  "month_start leap m = [0, 31, 59, 90, 120, 151, 181, 212, 243, 273, 304, 334, 365] ! nat (m - 1) + (if leap \<and> 2 < m then 1 else 0)"

definition month_length :: "int \<Rightarrow> int \<Rightarrow> int" where
  "month_length y m = month_start (leap_year y) (m + 1) - month_start (leap_year y) m"

definition month_of :: "bool \<Rightarrow> int \<Rightarrow> int" where
  "month_of leap d = int (length (filter (\<lambda>m. month_start leap m \<le> d) [1..12]))"

text \<open>Days are counted from 1 January 1970, day 719162 of the calendar.\<close>

definition epoch_day :: int where "epoch_day = 719162"

definition date_of :: "int \<Rightarrow> int \<times> int \<times> int" where
  "date_of n =
    (let k = n + epoch_day; y = year_of k; d = k - days_before y; m = month_of (leap_year y) d
     in (y, m, d - month_start (leap_year y) m + 1))"

definition day_of :: "int \<Rightarrow> int \<Rightarrow> int \<Rightarrow> int" where
  "day_of y m d =
    (let y' = y + (m - 1) div 12; m' = (m - 1) mod 12 + 1
     in days_before y' + month_start (leap_year y') m' + d - 1 - epoch_day)"

definition valid_date :: "int \<Rightarrow> int \<Rightarrow> int \<Rightarrow> bool" where
  "valid_date y m d \<longleftrightarrow> 1 \<le> m \<and> m \<le> 12 \<and> 1 \<le> d \<and> d \<le> month_length y m"

subsection \<open>Years\<close>

lemma div_step: "0 < k \<Longrightarrow> x div k = (x - 1) div k + (if x mod k = 0 then 1 else (0 :: int))"
proof -
  assume k: "0 < k"
  show ?thesis
  proof (cases "x mod k = 0")
    case True
    then obtain q where "x = k * q" by (auto simp: mod_eq_0_iff_dvd elim: dvdE)
    moreover have "(k * q - 1) div k = q - 1"
      using k by (intro int_div_pos_eq [where r = "k - 1"]) (auto simp: algebra_simps)
    ultimately show ?thesis using k True by simp
  next
    case False
    then have "0 < x mod k" using k by (simp add: pos_mod_sign order_less_le)
    then have "(x - 1) div k = x div k"
      using k pos_mod_bound [OF k, of x] div_mult_mod_eq [of x k]
      by (intro int_div_pos_eq [where r = "x mod k - 1"]) (auto simp: algebra_simps)
    then show ?thesis using False by simp
  qed
qed

lemma step_sum:
  assumes "q4 = p4 + a" "q100 = p100 + b" "q400 = p400 + (c :: int)"
  shows "365 * y + q4 - q100 + q400 = 365 * (y - 1) + p4 - p100 + p400 + 365 + a - b + c"
  using assms by simp

lemma quotient_sum:
  assumes "x = 4 * q4 + r4" "0 \<le> r4" "r4 < 4" "x = 100 * q100 + r100" "0 \<le> r100" "r100 < 100"
    "x = 400 * q400 + r400" "0 \<le> r400" "r400 < (400 :: int)"
  shows "146097 * x - 800 \<le> 400 * (365 * x + q4 - q100 + q400) \<and> 400 * (365 * x + q4 - q100 + q400) \<le> 146097 * x + 400"
proof -
  have "400 * (365 * x + q4 - q100 + q400) = 146097 * x - 100 * r4 + 4 * r100 - r400"
    using assms(1,4,7) by (simp only: ring_distribs)
  then show ?thesis using assms(2,3,5,6,8,9) by simp
qed

lemma leap_sum:
  assumes "c \<Longrightarrow> b" "b \<Longrightarrow> a"
  shows "x + 365 + (if a then 1 else 0) - (if b then 1 else 0) + (if c then 1 else 0) = x + (if a \<and> (\<not> b \<or> c) then 366 else (365 :: int))"
  using assms by (cases a; cases b; cases c) simp_all

lemma near_year:
  assumes "146097 * (y - 1) \<le> 400 * n" "400 * n < 146097 * (y :: int)"
  shows "400 * d \<le> 146097 * (y - 1 - 1) + 400 \<Longrightarrow> d \<le> n" "146097 * (y + 2 - 1) - 800 \<le> 400 * e \<Longrightarrow> n < e"
proof -
  have e: "146097 * (y - 1 - 1) + 400 = 146097 * (y - 1) - 145697" "146097 * (y + 2 - 1) - 800 = 146097 * y + 145297"
    by (simp_all only: ring_distribs)
  define z where "z = 146097 * (y - 1)"
  define z' where "z' = 146097 * y"
  show "d \<le> n" if "400 * d \<le> 146097 * (y - 1 - 1) + 400"
    using that assms(1) unfolding e z_def [symmetric] by linarith
  show "n < e" if "146097 * (y + 2 - 1) - 800 \<le> 400 * e"
    using that assms(2) unfolding e z'_def [symmetric] by linarith
qed

lemma days_before_step: "days_before (y + 1) = days_before y + year_length y"
proof -
  have imp: "y mod 400 = 0 \<Longrightarrow> y mod 100 = 0" "y mod 100 = 0 \<Longrightarrow> y mod 4 = 0"
    using dvd_trans [of 100 400 y] dvd_trans [of 4 100 y] by (simp_all add: mod_eq_0_iff_dvd)
  have "y div 4 = (y - 1) div 4 + (if y mod 4 = 0 then 1 else 0)" "y div 100 = (y - 1) div 100 + (if y mod 100 = 0 then 1 else 0)"
    "y div 400 = (y - 1) div 400 + (if y mod 400 = 0 then 1 else 0)"
    by (rule div_step, simp)+
  then have "days_before (y + 1) = days_before y + 365 + (if y mod 4 = 0 then 1 else 0) - (if y mod 100 = 0 then 1 else 0)
      + (if y mod 400 = 0 then 1 else 0)"
    unfolding days_before_def add_diff_cancel_right' by (rule step_sum)
  then show ?thesis unfolding year_length_def leap_year_def by (rule trans) (rule leap_sum [OF imp])
qed

lemma year_length_pos: "0 < year_length y"
  by (simp add: year_length_def)

lemma days_before_strict: "x < y \<Longrightarrow> days_before x < days_before y"
proof (induction y rule: int_gr_induct [of x])
  case base
  then show ?case using year_length_pos [of x] by (simp add: days_before_step)
next
  case (step y)
  then show ?case using year_length_pos [of y] by (simp add: days_before_step)
qed

lemma days_before_mono: "x \<le> y \<Longrightarrow> days_before x \<le> days_before y"
  by (cases "x = y") (simp_all add: days_before_strict order_less_imp_le)

lemma days_before_bounds:
  "146097 * (y - 1) - 800 \<le> 400 * days_before y" "400 * days_before y \<le> 146097 * (y - 1) + 400"
proof -
  define x where "x = y - 1"
  have "x = 4 * (x div 4) + x mod 4" "0 \<le> x mod 4" "x mod 4 < 4"
    "x = 100 * (x div 100) + x mod 100" "0 \<le> x mod 100" "x mod 100 < 100"
    "x = 400 * (x div 400) + x mod 400" "0 \<le> x mod 400" "x mod 400 < 400" by simp_all
  from quotient_sum [OF this]
  show "146097 * (y - 1) - 800 \<le> 400 * days_before y" "400 * days_before y \<le> 146097 * (y - 1) + 400"
    unfolding days_before_def x_def by simp_all
qed

lemma year_of_bounds: "days_before (year_of n) \<le> n \<and> n < days_before (year_of n + 1)"
proof -
  define y where "y = 400 * n div 146097 + 1"
  have e: "146097 * (y - 1) \<le> 400 * n" "400 * n < 146097 * y"
    using div_mult_mod_eq [of "400 * n" 146097] pos_mod_bound [of 146097 "400 * n"] pos_mod_sign [of 146097 "400 * n"]
    unfolding y_def by (simp_all only: ring_distribs)
  have "days_before (y - 1) \<le> n" by (rule near_year(1) [OF e days_before_bounds(2)])
  moreover have "n < days_before (y + 2)" by (rule near_year(2) [OF e days_before_bounds(1)])
  ultimately show ?thesis
    unfolding year_of_def y_def [symmetric] Let_def by (auto simp: algebra_simps)
qed

lemma year_of_unique:
  assumes "days_before y \<le> n" "n < days_before (y + 1)"
  shows "year_of n = y"
proof (rule ccontr)
  assume "year_of n \<noteq> y"
  then consider "year_of n + 1 \<le> y" | "y + 1 \<le> year_of n" by linarith
  then show False
  proof cases
    case 1
    then have "days_before (year_of n + 1) \<le> days_before y" by (rule days_before_mono)
    then show False using assms year_of_bounds [of n] by simp
  next
    case 2
    then have "days_before (y + 1) \<le> days_before (year_of n)" by (rule days_before_mono)
    then show False using assms year_of_bounds [of n] by simp
  qed
qed

subsection \<open>Months\<close>

lemma month_cases:
  assumes "1 \<le> m" "m \<le> (12 :: int)"
  shows "m = 1 \<or> m = 2 \<or> m = 3 \<or> m = 4 \<or> m = 5 \<or> m = 6 \<or> m = 7 \<or> m = 8 \<or> m = 9 \<or> m = 10 \<or> m = 11 \<or> m = 12"
  using assms by presburger

lemma month_start_values:
  "month_start l 1 = 0" "month_start l 2 = 31" "month_start l 3 = (if l then 60 else 59)" "month_start l 4 = (if l then 91 else 90)"
  "month_start l 5 = (if l then 121 else 120)" "month_start l 6 = (if l then 152 else 151)" "month_start l 7 = (if l then 182 else 181)"
  "month_start l 8 = (if l then 213 else 212)" "month_start l 9 = (if l then 244 else 243)" "month_start l 10 = (if l then 274 else 273)"
  "month_start l 11 = (if l then 305 else 304)" "month_start l 12 = (if l then 335 else 334)" "month_start l 13 = (if l then 366 else 365)"
  by (simp_all add: month_start_def)

lemma months_list: "[1..12] = [1, 2, 3, 4, 5, 6, 7, 8, 9, 10, 11, 12 :: int]"
  by code_simp

lemma month_of_unique:
  assumes "1 \<le> m" "m \<le> 12" "month_start l m \<le> d" "d < month_start l (m + 1)"
  shows "month_of l d = m"
  using month_cases [OF assms(1,2)] assms(3,4)
  by (elim disjE) (cases l; simp add: month_of_def months_list month_start_values)+

lemma month_of_bounds:
  assumes "0 \<le> d" "d < (if l then 366 else 365)"
  shows "1 \<le> month_of l d \<and> month_of l d \<le> 12 \<and> month_start l (month_of l d) \<le> d \<and> d < month_start l (month_of l d + 1)"
proof -
  have "\<exists>m\<in>set [1..12]. month_start l m \<le> d \<and> d < month_start l (m + 1)"
    unfolding months_list using assms by (cases l) (simp_all add: month_start_values, linarith+)
  then obtain m where m: "1 \<le> m" "m \<le> 12" "month_start l m \<le> d" "d < month_start l (m + 1)" by auto
  then show ?thesis using month_of_unique [OF m] by simp
qed

subsection \<open>Dates\<close>

lemma date_of_valid:
  assumes "date_of n = (y, m, d)"
  shows "valid_date y m d \<and> day_of y m d = n"
proof -
  let ?k = "n + epoch_day"
  define e where "e = ?k - days_before (year_of ?k)"
  have y: "y = year_of ?k" and m: "m = month_of (leap_year y) e" and d: "d = e - month_start (leap_year y) m + 1"
    using assms by (auto simp: date_of_def Let_def e_def)
  have "0 \<le> e" "e < (if leap_year y then 366 else 365)"
    using year_of_bounds [of ?k] by (simp_all add: e_def y days_before_step year_length_def)
  from month_of_bounds [OF this] m have mb: "1 \<le> m" "m \<le> 12" "month_start (leap_year y) m \<le> e" "e < month_start (leap_year y) (m + 1)"
    by simp_all
  moreover have "(m - 1) div 12 = 0" "(m - 1) mod 12 = m - 1" using mb(1,2) by (simp_all add: div_pos_pos_trivial)
  ultimately show ?thesis using d by (simp add: valid_date_def month_length_def day_of_def Let_def e_def y)
qed

lemma month_end_le:
  assumes "1 \<le> m" "m \<le> 12"
  shows "0 \<le> month_start l m" "month_start l (m + 1) \<le> (if l then 366 else 365)" "month_start l m < month_start l (m + 1)"
  using month_cases [OF assms] by (elim disjE; cases l; simp add: month_start_values)+

lemma date_of_day:
  assumes "valid_date y m d"
  shows "date_of (day_of y m d) = (y, m, d)"
proof -
  have m: "1 \<le> m" "m \<le> 12" "1 \<le> d" "d \<le> month_start (leap_year y) (m + 1) - month_start (leap_year y) m"
    using assms by (simp_all add: valid_date_def month_length_def)
  define e where "e = month_start (leap_year y) m + d - 1"
  have "(m - 1) div 12 = 0" "(m - 1) mod 12 = m - 1" using m(1,2) by (simp_all add: div_pos_pos_trivial)
  then have k: "day_of y m d + epoch_day = days_before y + e" by (simp add: day_of_def Let_def e_def)
  have "0 \<le> e" "e < (if leap_year y then 366 else 365)"
    using month_end_le [OF m(1,2), of "leap_year y"] m(3,4) by (simp_all add: e_def)
  then have "year_of (days_before y + e) = y"
    by (intro year_of_unique) (simp_all add: days_before_step year_length_def)
  moreover have "month_of (leap_year y) e = m" by (rule month_of_unique [OF m(1,2)]) (use m in \<open>simp_all add: e_def\<close>)
  ultimately show ?thesis by (simp add: date_of_def Let_def k) (simp add: e_def)
qed

text \<open>\<open>Weekday\<close>: 1 January 1970 was a Thursday; Sunday is 0.\<close>

definition weekday :: "int \<Rightarrow> int" where
  "weekday n = (n + 4) mod 7"

lemma weekday_range: "0 \<le> weekday n \<and> weekday n < 7"
  by (simp add: weekday_def)

lemma day_of_add: "day_of y m (d + n) = day_of y m d + n"
  by (simp add: day_of_def Let_def)

text \<open>A month is followed by the next one, December by January of the next year.\<close>

lemma day_of_next_month:
  assumes "1 \<le> m" "m \<le> 12"
  shows "day_of y (m + 1) 1 = day_of y m 1 + month_length y m"
proof (cases "m = 12")
  case True
  then show ?thesis
    by (simp add: day_of_def Let_def month_length_def days_before_step year_length_def month_start_values)
next
  case False
  then have "m div 12 = 0" "m mod 12 = m" "(m - 1) div 12 = 0" "(m - 1) mod 12 = m - 1"
    using assms by (simp_all add: div_pos_pos_trivial)
  then show ?thesis by (simp add: day_of_def Let_def month_length_def)
qed

lemma month_length_pos: "1 \<le> m \<Longrightarrow> m \<le> 12 \<Longrightarrow> 0 < month_length y m"
  using month_end_le(3) [of m "leap_year y"] by (simp add: month_length_def)

lemma weekday_add: "weekday (n + k) = (weekday n + k) mod 7"
  by (simp add: weekday_def mod_simps ac_simps)

end
