(* ===== verification/Datetime.thy ===== *)
theory Datetime
  imports Civil Float64
begin

section \<open>Package datetime\<close>

text \<open>
  \<open>src/datetime/datetime.go\<close>: boundaries of days, months and weeks, day counts and ranges.  A time is its
  instant in nanoseconds with a location; a location is the offset from UTC in seconds as a function of the
  second, which is what \<open>Location.lookup\<close> answers.  \<open>time_Date\<close> adjusts for the zone the way \<open>time.Date\<close> does:
  it looks the offset up for the wall clock read as UTC, and once more for the instant this gives; when the
  first offset is still in force there, both lookups agree.  Instants stay within the range of \<open>time.Time\<close>;
  differences saturate at the range of a duration as \<open>Sub\<close> does.  Formatting with a layout is an argument.
\<close>

type_synonym location = "int \<Rightarrow> int"

record go_time =
  gt_nanos :: int
  gt_loc :: location

definition sec_nanos :: int where "sec_nanos = 10 ^ 9"
definition day_nanos :: int where "day_nanos = 86400 * 10 ^ 9"

text \<open>The wall clock of a time as nanoseconds since the epoch, its day and the time of day.\<close>

definition wall :: "go_time \<Rightarrow> int" where
  "wall t = gt_nanos t + gt_loc t (gt_nanos t div sec_nanos) * sec_nanos"

definition wall_day :: "go_time \<Rightarrow> int" where
  "wall_day t = wall t div day_nanos"

definition wall_clock :: "go_time \<Rightarrow> int" where
  "wall_clock t = wall t mod day_nanos"

definition t_Date :: "go_time \<Rightarrow> int \<times> int \<times> int" where
  "t_Date t = date_of (wall_day t)"

definition t_Weekday :: "go_time \<Rightarrow> int" where
  "t_Weekday t = weekday (wall_day t)"

definition from_wall :: "location \<Rightarrow> int \<Rightarrow> int" where
  "from_wall loc w =
    (let unix = w div sec_nanos; offset = loc unix
     in if offset = 0 then w else w - loc (unix - offset) * sec_nanos)"

definition time_Date :: "int \<Rightarrow> int \<Rightarrow> int \<Rightarrow> int \<Rightarrow> location \<Rightarrow> go_time" where
  "time_Date y m d clock loc = \<lparr>gt_nanos = from_wall loc (day_of y m d * day_nanos + clock), gt_loc = loc\<rparr>"

definition t_AddDate :: "int \<Rightarrow> int \<Rightarrow> int \<Rightarrow> go_time \<Rightarrow> go_time" where
  "t_AddDate years months days t =
    (let (y, m, d) = t_Date t in time_Date (y + years) (m + months) (d + days) (wall_clock t) (gt_loc t))"

definition t_Sub :: "go_time \<Rightarrow> go_time \<Rightarrow> int" where
  "t_Sub t u = max MinInt64 (min MaxInt64 (gt_nanos t - gt_nanos u))"

definition t_Add :: "int \<Rightarrow> go_time \<Rightarrow> go_time" where
  "t_Add d t = t\<lparr>gt_nanos := gt_nanos t + d\<rparr>"

definition utc :: location where "utc = (\<lambda>_. 0)"

subsection \<open>Days, months and weeks\<close>

definition StartTime :: "go_time \<Rightarrow> go_time" where
  "StartTime t = (let (y, m, d) = t_Date t in time_Date y m d 0 (gt_loc t))"

definition EndTime :: "go_time \<Rightarrow> go_time" where
  "EndTime t = (let (y, m, d) = t_Date t in time_Date y m d (23 * 3600 * sec_nanos + 59 * 60 * sec_nanos + 59 * sec_nanos + (10 ^ 9 - 1)) (gt_loc t))"

definition t_Day :: "go_time \<Rightarrow> int" where
  "t_Day t = snd (snd (t_Date t))"

definition FirstDateTimeOfMonth :: "go_time \<Rightarrow> go_time" where
  "FirstDateTimeOfMonth t = StartTime (t_AddDate 0 0 (- t_Day t + 1) t)"

definition LastDateTimeOfMonth :: "go_time \<Rightarrow> go_time" where
  "LastDateTimeOfMonth t = t_AddDate 0 1 (- 1) (EndTime (t_AddDate 0 0 (- t_Day t + 1) t))"

definition FirstDateTimeOfWeek :: "int \<Rightarrow> go_time \<Rightarrow> go_time" where
  "FirstDateTimeOfWeek firstDay t = StartTime (t_AddDate 0 0 (- rem64 (t_Weekday t - firstDay + 7) 7) t)"

definition LastDateTimeOfWeek :: "int \<Rightarrow> go_time \<Rightarrow> go_time" where
  "LastDateTimeOfWeek firstDay t = EndTime (t_AddDate 0 0 6 (FirstDateTimeOfWeek firstDay t))"

definition FirstDateTimeOfISOWeek :: "go_time \<Rightarrow> go_time" where
  "FirstDateTimeOfISOWeek = FirstDateTimeOfWeek 1"

definition LastDateTimeOfISOWeek :: "go_time \<Rightarrow> go_time" where
  "LastDateTimeOfISOWeek = LastDateTimeOfWeek 1"

subsection \<open>Differences and ranges\<close>

definition DeltaDateDays :: "go_time \<Rightarrow> go_time \<Rightarrow> int" where
  "DeltaDateDays start end' =
    (let (sy, sm, sd) = t_Date (StartTime start); (ey, em, ed) = t_Date (StartTime end');
         sUTC = time_Date sy sm sd 0 utc; eUTC = time_Date ey em ed 0 utc
     in quo64 (t_Sub eUTC sUTC) (24 * 3600 * sec_nanos))"

text \<open>\<open>Duration.Hours\<close>: the whole hours and the rest are converted to \<open>float64\<close> and added.\<close>

definition dur_Hours :: "int \<Rightarrow> rat" where
  "dur_Hours d = fl64 (fl64 (of_int (quo64 d (3600 * sec_nanos))) + fl64 (fl64 (of_int (rem64 d (3600 * sec_nanos))) / of_int (3600 * sec_nanos)))"

definition DeltaHours :: "go_time \<Rightarrow> go_time \<Rightarrow> rat" where
  "DeltaHours start end' = dur_Hours (t_Sub end' start)"

definition DeltaDays :: "go_time \<Rightarrow> go_time \<Rightarrow> rat" where
  "DeltaDays start end' = fl64 (dur_Hours (t_Sub end' start) / 24)"

definition AddDays :: "int \<Rightarrow> go_time \<Rightarrow> go_time" where
  "AddDays days t = t_AddDate 0 0 days t"

definition maxRangeEntries :: int where "maxRangeEntries = 10000"

definition RangeTime :: "int \<Rightarrow> go_time \<Rightarrow> go_time \<Rightarrow> go_time list" where
  "RangeTime interval start0 end0 =
    (if interval \<le> 0 then []
     else let (start, end') = (if gt_nanos end0 < gt_nanos start0 then (end0, start0) else (start0, end0));
              delta = wrap64 (quo64 (t_Sub end' start) interval + 1)
          in if delta \<le> 0 \<or> maxRangeEntries < delta then []
             else if delta = 1 then [start]
             else map (\<lambda>i. t_Add (wrap64 (interval * int i)) start) [0..<nat delta])"

text \<open>The conversion of a \<open>float64\<close> to \<open>int\<close> drops the fraction.\<close>

definition trunc_rat :: "rat \<Rightarrow> int" where
  "trunc_rat x = (if 0 \<le> x then \<lfloor>x\<rfloor> else \<lceil>x\<rceil>)"

definition LayoutDateISO8601 :: string where "LayoutDateISO8601 = ''2006-01-02''"

definition RangeDateStr :: "(string \<Rightarrow> go_time \<Rightarrow> string) \<Rightarrow> string \<Rightarrow> go_time \<Rightarrow> go_time \<Rightarrow> string list" where
  "RangeDateStr Format layout0 start0 end0 =
    (let (start, end') = (if gt_nanos end0 < gt_nanos start0 then (end0, start0) else (start0, end0));
         layout = (if layout0 = [] then LayoutDateISO8601 else layout0);
         delta = trunc_rat (fl64 (dur_Hours (t_Sub (EndTime end') (StartTime start)) / 24)) + 1
     in if delta \<le> 0 \<or> maxRangeEntries < delta then []
        else if delta = 1 then [Format layout start]
        else map (\<lambda>i. Format layout (t_AddDate 0 0 (int i) start)) [0..<nat delta])"

subsection \<open>Zones of a fixed offset\<close>

definition fixed_zone :: "go_time \<Rightarrow> bool" where
  "fixed_zone t \<longleftrightarrow> (\<exists>o'. gt_loc t = (\<lambda>_. o'))"

lemma from_wall_fixed: "from_wall (\<lambda>_. o') w = w - o' * sec_nanos"
  by (simp add: from_wall_def Let_def)

lemma wall_time_Date:
  assumes "0 \<le> clock" "clock < day_nanos"
  shows "wall_day (time_Date y m d clock (\<lambda>_. o')) = day_of y m d" "wall_clock (time_Date y m d clock (\<lambda>_. o')) = clock"
  using assms by (simp_all add: wall_day_def wall_clock_def wall_def time_Date_def from_wall_fixed)

lemma wall_clock_range: "0 \<le> wall_clock t" "wall_clock t < day_nanos"
  by (simp_all add: wall_clock_def day_nanos_def)

lemma wall_split: "wall t = wall_day t * day_nanos + wall_clock t"
  by (simp add: wall_day_def wall_clock_def)

lemma fixed_wall: "gt_loc t = (\<lambda>_. o') \<Longrightarrow> wall t = gt_nanos t + o' * sec_nanos"
  by (simp add: wall_def)

text \<open>Date arithmetic on the wall clock: the day is the day number of the carried date, the time of day stays.\<close>

lemma AddDate_fixed:
  assumes "gt_loc t = (\<lambda>_. o')" "t_Date t = (y, m, d)"
  shows "gt_loc (t_AddDate a b c t) = (\<lambda>_. o')" "wall_day (t_AddDate a b c t) = day_of (y + a) (m + b) (d + c)"
    "wall_clock (t_AddDate a b c t) = wall_clock t"
  using assms wall_clock_range [of t] by (simp_all add: t_AddDate_def wall_time_Date) (simp add: time_Date_def)

lemma date_day: "t_Date t = (y, m, d) \<Longrightarrow> day_of y m d = wall_day t \<and> valid_date y m d"
  using date_of_valid by (simp add: t_Date_def)

lemma AddDays_fixed:
  assumes "gt_loc t = (\<lambda>_. o')"
  shows "gt_loc (t_AddDate 0 0 n t) = (\<lambda>_. o')" "wall_day (t_AddDate 0 0 n t) = wall_day t + n"
    "wall_clock (t_AddDate 0 0 n t) = wall_clock t"
proof -
  obtain y m d where dt: "t_Date t = (y, m, d)" by (cases "t_Date t") auto
  note a = AddDate_fixed [OF assms dt, of 0 0 n]
  show "gt_loc (t_AddDate 0 0 n t) = (\<lambda>_. o')" "wall_day (t_AddDate 0 0 n t) = wall_day t + n"
    "wall_clock (t_AddDate 0 0 n t) = wall_clock t" using a date_day [OF dt] by (simp_all add: day_of_add)
qed

lemma StartTime_fixed:
  assumes "gt_loc t = (\<lambda>_. o')"
  shows "gt_loc (StartTime t) = (\<lambda>_. o')" "wall_day (StartTime t) = wall_day t" "wall_clock (StartTime t) = 0"
proof -
  obtain y m d where dt: "t_Date t = (y, m, d)" by (cases "t_Date t") auto
  then show "wall_day (StartTime t) = wall_day t" "wall_clock (StartTime t) = 0"
    using assms date_day [OF dt] by (simp_all add: StartTime_def wall_time_Date day_nanos_def)
  show "gt_loc (StartTime t) = (\<lambda>_. o')" using dt assms by (simp add: StartTime_def time_Date_def)
qed

lemma EndTime_fixed:
  assumes "gt_loc t = (\<lambda>_. o')"
  shows "gt_loc (EndTime t) = (\<lambda>_. o')" "wall_day (EndTime t) = wall_day t" "wall_clock (EndTime t) = day_nanos - 1"
proof -
  obtain y m d where dt: "t_Date t = (y, m, d)" by (cases "t_Date t") auto
  then show "wall_day (EndTime t) = wall_day t" "wall_clock (EndTime t) = day_nanos - 1"
    using assms date_day [OF dt] by (simp_all add: EndTime_def wall_time_Date day_nanos_def sec_nanos_def)
  show "gt_loc (EndTime t) = (\<lambda>_. o')" using dt assms by (simp add: EndTime_def time_Date_def)
qed

lemma nanos_fixed:
  "gt_loc t = (\<lambda>_. o') \<Longrightarrow> gt_nanos t = wall_day t * day_nanos + wall_clock t - o' * sec_nanos"
  using wall_split [of t] fixed_wall [of t o'] by simp

lemmas time_fixed = StartTime_fixed EndTime_fixed AddDays_fixed

lemma month_fixed:
  assumes "gt_loc t = (\<lambda>_. o')" "t_Date t = (y, m, d)"
  shows "gt_loc (FirstDateTimeOfMonth t) = (\<lambda>_. o')" "wall_day (FirstDateTimeOfMonth t) = day_of y m 1" "wall_clock (FirstDateTimeOfMonth t) = 0"
    "gt_loc (LastDateTimeOfMonth t) = (\<lambda>_. o')" "wall_day (LastDateTimeOfMonth t) = day_of y (m + 1) 1 - 1"
    "wall_clock (LastDateTimeOfMonth t) = day_nanos - 1"
proof -
  let ?f = "t_AddDate 0 0 (- t_Day t + 1) t"
  have v: "valid_date y m d" "day_of y m d = wall_day t" using date_day [OF assms(2)] by simp_all
  have f: "gt_loc ?f = (\<lambda>_. o')" "wall_day ?f = day_of y m 1"
    using AddDays_fixed [OF assms(1), of "- t_Day t + 1"] v(2) assms(2) day_of_add [of y m 1 "d - 1"] by (simp_all add: t_Day_def)
  then show "gt_loc (FirstDateTimeOfMonth t) = (\<lambda>_. o')" "wall_day (FirstDateTimeOfMonth t) = day_of y m 1" "wall_clock (FirstDateTimeOfMonth t) = 0"
    by (simp_all add: FirstDateTimeOfMonth_def StartTime_fixed)
  have e: "gt_loc (EndTime ?f) = (\<lambda>_. o')" "t_Date (EndTime ?f) = (y, m, 1)"
    using EndTime_fixed [OF f(1)] f(2) date_of_day [of y m 1] v(1) by (simp_all add: t_Date_def valid_date_def)
  from AddDate_fixed [OF e, of 0 1 "- 1"] EndTime_fixed [OF f(1)] day_of_add [of y "m + 1" 1 "- 1"]
  show "gt_loc (LastDateTimeOfMonth t) = (\<lambda>_. o')" "wall_day (LastDateTimeOfMonth t) = day_of y (m + 1) 1 - 1"
    "wall_clock (LastDateTimeOfMonth t) = day_nanos - 1" by (simp_all add: LastDateTimeOfMonth_def)
qed

lemma rem7: "0 \<le> x \<Longrightarrow> rem64 x 7 = x mod 7"
  by (cases "x = 0") (simp_all add: rem64_def signed_modulo_int_def)

lemma week_fixed:
  assumes "gt_loc t = (\<lambda>_. o')" "0 \<le> firstDay" "firstDay < 7"
  defines "k \<equiv> (t_Weekday t - firstDay) mod 7"
  shows "gt_loc (FirstDateTimeOfWeek firstDay t) = (\<lambda>_. o')" "wall_day (FirstDateTimeOfWeek firstDay t) = wall_day t - k"
    "wall_clock (FirstDateTimeOfWeek firstDay t) = 0" "weekday (wall_day t - k) = firstDay"
    "gt_loc (LastDateTimeOfWeek firstDay t) = (\<lambda>_. o')" "wall_day (LastDateTimeOfWeek firstDay t) = wall_day t - k + 6"
    "wall_clock (LastDateTimeOfWeek firstDay t) = day_nanos - 1"
proof -
  have r: "rem64 (t_Weekday t - firstDay + 7) 7 = k"
    using weekday_range [of "wall_day t"] assms(2,3) by (simp add: rem7 t_Weekday_def k_def mod_simps)
  show f: "gt_loc (FirstDateTimeOfWeek firstDay t) = (\<lambda>_. o')" "wall_day (FirstDateTimeOfWeek firstDay t) = wall_day t - k"
    "wall_clock (FirstDateTimeOfWeek firstDay t) = 0"
    using assms(1) by (simp_all add: FirstDateTimeOfWeek_def r time_fixed)
  show "gt_loc (LastDateTimeOfWeek firstDay t) = (\<lambda>_. o')" "wall_day (LastDateTimeOfWeek firstDay t) = wall_day t - k + 6"
    "wall_clock (LastDateTimeOfWeek firstDay t) = day_nanos - 1"
    using f by (simp_all add: LastDateTimeOfWeek_def time_fixed)
  have "(weekday (wall_day t) - k) mod 7 = firstDay mod 7" unfolding k_def t_Weekday_def by (simp add: mod_simps)
  then show "weekday (wall_day t - k) = firstDay"
    using weekday_add [of "wall_day t" "- k"] assms(2,3) by simp
qed

subsection \<open>Day counts\<close>

lemma nonzero_mult_sdiv_cancel: "b \<noteq> 0 \<Longrightarrow> (a * b) sdiv b = (a :: int)"
  by (cases "0 < b") (auto simp: signed_divide_int_def abs_mult sgn_mult mult_sgn_abs)

lemma utc_days:
  assumes "valid_date y m d" "valid_date y' m' d'"
  shows "t_Sub (time_Date y' m' d' 0 utc) (time_Date y m d 0 utc)
    = max MinInt64 (min MaxInt64 ((day_of y' m' d' - day_of y m d) * day_nanos))"
  by (simp add: t_Sub_def time_Date_def from_wall_def utc_def Let_def left_diff_distrib)

text \<open>Within the range of a duration, about 292 years, the count is exact whatever the two offsets.\<close>

lemma DeltaDateDays_exact:
  assumes "gt_loc s = (\<lambda>_. o')" "gt_loc e = (\<lambda>_. o'')" "\<bar>wall_day e - wall_day s\<bar> \<le> 106751"
  shows "DeltaDateDays s e = wall_day e - wall_day s"
proof -
  obtain y m d where s: "t_Date (StartTime s) = (y, m, d)" by (cases "t_Date (StartTime s)") auto
  obtain y' m' d' where e: "t_Date (StartTime e) = (y', m', d')" by (cases "t_Date (StartTime e)") auto
  let ?D = "wall_day e - wall_day s"
  have sub: "t_Sub (time_Date y' m' d' 0 utc) (time_Date y m d 0 utc) = ?D * day_nanos"
    using date_day [OF s] date_day [OF e] StartTime_fixed [OF assms(1)] StartTime_fixed [OF assms(2)] assms(3)
    by (simp add: utc_days day_nanos_def MinInt64_def MaxInt64_def)
  have "24 * 3600 * sec_nanos = day_nanos" "day_nanos \<noteq> 0" by (simp_all add: day_nanos_def sec_nanos_def)
  moreover from this(2) have "(?D * day_nanos) sdiv day_nanos = ?D" by (rule nonzero_mult_sdiv_cancel)
  moreover have "in_i64 ?D" using assms(3) unfolding in_i64_def MinInt64_def MaxInt64_def by (simp add: abs_le_iff)
  ultimately show ?thesis unfolding DeltaDateDays_def s e Let_def case_prod_conv sub quo64_def by (simp only: wrap64_id)
qed

text \<open>Beyond it \<open>Sub\<close> saturates: between two dates 400 years apart it counts 106751 days of 146097.\<close>

lemma max_days: "quo64 MaxInt64 (24 * 3600 * sec_nanos) = 106751"
  by (simp add: quo64_def MaxInt64_def sec_nanos_def signed_divide_int_def wrap64_def)

lemma DeltaDateDays_saturates:
  assumes "gt_loc s = (\<lambda>_. o')" "gt_loc e = (\<lambda>_. o'')" "106752 \<le> wall_day e - wall_day s"
  shows "DeltaDateDays s e = 106751"
proof -
  obtain y m d where s: "t_Date (StartTime s) = (y, m, d)" by (cases "t_Date (StartTime s)") auto
  obtain y' m' d' where e: "t_Date (StartTime e) = (y', m', d')" by (cases "t_Date (StartTime e)") auto
  have sub: "t_Sub (time_Date y' m' d' 0 utc) (time_Date y m d 0 utc) = MaxInt64"
    using date_day [OF s] date_day [OF e] StartTime_fixed [OF assms(1)] StartTime_fixed [OF assms(2)] assms(3)
    by (simp add: utc_days day_nanos_def MinInt64_def MaxInt64_def)
  show ?thesis unfolding DeltaDateDays_def s e Let_def case_prod_conv sub by (rule max_days)
qed

subsection \<open>Ranges\<close>

text \<open>
  The whole part of the days of \<open>k\<close> days less a nanosecond, as \<open>RangeDateStr\<close> computes it in \<open>float64\<close>.
\<close>

definition float_days :: "int \<Rightarrow> int" where
  "float_days k = trunc_rat (fl64 (dur_Hours (k * day_nanos - 1) / 24))"

lemma sdivmod_add:
  assumes "0 \<le> a" "0 \<le> r" "r < (b :: int)"
  shows "(a * b + r) sdiv b = a \<and> (a * b + r) smod b = r"
proof -
  have "0 \<le> a * b + r" "0 < b" "(a * b + r) div b = a" "(a * b + r) mod b = r" using assms by simp_all
  then show ?thesis by (cases "a * b + r = 0") (auto simp: signed_divide_int_def signed_modulo_int_def)
qed

lemma dur_Hours_days:
  assumes "1 \<le> k" "k \<le> 106751"
  shows "dur_Hours (k * day_nanos - 1) = fl64 (of_int (24 * k - 1) + fl64 (3599999999999 / 3600000000000))"
proof -
  have e: "k * day_nanos - 1 = (24 * k - 1) * 3600000000000 + 3599999999999" by (simp add: day_nanos_def)

  have "(k * day_nanos - 1) sdiv (3600 * sec_nanos) = 24 * k - 1" "(k * day_nanos - 1) smod (3600 * sec_nanos) = 3599999999999"
    unfolding e using sdivmod_add [of "24 * k - 1" 3599999999999 3600000000000] assms(1) by (simp_all add: sec_nanos_def)
  moreover have "in_i64 (24 * k - 1)" using assms unfolding in_i64_def MinInt64_def MaxInt64_def by simp
  ultimately have "quo64 (k * day_nanos - 1) (3600 * sec_nanos) = 24 * k - 1" "rem64 (k * day_nanos - 1) (3600 * sec_nanos) = 3599999999999"
    by (simp_all add: quo64_def rem64_def)
  moreover have "fl64 (of_int (24 * k - 1)) = of_int (24 * k - 1)" "fl64 (of_int 3599999999999) = of_int 3599999999999"
    by (rule fl64_int; use assms in simp)+
  ultimately show ?thesis unfolding dur_Hours_def by (simp only:) (simp add: sec_nanos_def)
qed

text \<open>Up to 85 days the fraction survives both roundings and the days are counted exactly.\<close>

lemma float_days_exact:
  assumes "1 \<le> k" "k \<le> 85"
  shows "float_days k = k - 1"
proof -
  let ?f = "fl64 (3599999999999 / 3600000000000)" and ?h = "dur_Hours (k * day_nanos - 1)"
  have "?f \<le> fl64 (of_int (2 ^ 42 - 1) / 2 ^ 42)" by (rule fl64_mono) simp
  also have "\<dots> = of_int (2 ^ 42 - 1) / 2 ^ 42" by (rule fl64_dyadic) simp
  finally have f: "?f \<le> of_int (2 ^ 42 - 1) / 2 ^ 42" "0 \<le> ?f" by simp (rule fl64_nonneg, simp)
  have h: "?h = fl64 (of_int (24 * k - 1) + ?f)" by (rule dur_Hours_days) (use assms in simp_all)
  have "?h \<le> fl64 (of_int (24 * k * 2 ^ 42 - 1) / 2 ^ 42)" unfolding h by (rule fl64_mono) (use f(1) in \<open>simp add: field_simps\<close>)
  then have up: "?h \<le> of_int (24 * k * 2 ^ 42 - 1) / 2 ^ 42" using assms by (subst (asm) fl64_dyadic) simp_all
  have "fl64 (of_int (24 * k - 1)) \<le> ?h" unfolding h by (rule fl64_mono) (use f(2) in simp)
  moreover have "fl64 (of_int (24 * k - 1)) = of_int (24 * k - 1)" by (rule fl64_int) (use assms in simp)
  ultimately have low: "of_int (24 * k - 1) \<le> ?h" by simp
  have "fl64 (of_int (k - 1)) \<le> fl64 (?h / 24)" by (rule fl64_mono) (use low in simp)
  moreover have "fl64 (of_int (k - 1)) = of_int (k - 1)" by (rule fl64_int) (use assms in simp)
  ultimately have low2: "of_int (k - 1) \<le> fl64 (?h / 24)" by simp
  have q: "?h / 24 \<le> of_int k - 2 / 3 / 2 ^ 46" using up by (simp add: field_simps)
  have "fl64 (?h / 24) < of_int k"
  proof (cases "k \<le> 64")
    case True
    have "fl64 (?h / 24) \<le> fl64 (of_int (k * 2 ^ 47 - 1) / 2 ^ 47)" by (rule fl64_mono) (use q in \<open>simp add: field_simps\<close>)
    also have "\<dots> = of_int (k * 2 ^ 47 - 1) / 2 ^ 47" by (rule fl64_dyadic) (use assms True in simp)
    also have "\<dots> < of_int k" by (simp add: field_simps)
    finally show ?thesis .
  next
    case False
    have fl: "\<lfloor>of_int (k * 2 ^ 46) - 2 / 3 :: rat\<rfloor> = k * 2 ^ 46 - 1" by (rule floor_unique) simp_all
    have "fl64 (?h / 24) \<le> fl64 (of_int k - 2 / 3 / 2 ^ 46)" by (rule fl64_mono [OF q])
    also have "\<dots> = of_int (round_even ((of_int k - 2 / 3 / 2 ^ 46) * 2 ^ 46)) / 2 ^ 46"
      by (rule fl64_value_nat [where e = 6]) (use assms False in simp_all)
    also have "(of_int k - 2 / 3 / 2 ^ 46) * 2 ^ 46 = (of_int (k * 2 ^ 46) - 2 / 3 :: rat)"
      by (simp add: left_diff_distrib)
    also have "of_int (round_even (of_int (k * 2 ^ 46) - 2 / 3)) / 2 ^ 46 < (of_int k :: rat)"
      unfolding round_even_def fl Let_def by (simp add: field_simps)
    finally show ?thesis .
  qed
  with low2 show ?thesis using assms unfolding float_days_def trunc_rat_def by (simp add: floor_eq_iff)
qed

text \<open>From 342 days the sum rounds up to a whole number of days, so that a day too many is counted.\<close>

lemma float_days_rounds_up:
  assumes "342 \<le> k" "k \<le> 682"
  shows "float_days k = k"
proof -
  let ?f = "fl64 (3599999999999 / 3600000000000)" and ?h = "dur_Hours (k * day_nanos - 1)"
  have "fl64 (of_int (2 ^ 41 - 1) / 2 ^ 41) \<le> ?f" "?f \<le> fl64 (of_int 1)" by (rule fl64_mono; simp)+
  moreover have "fl64 (of_int (2 ^ 41 - 1) / 2 ^ 41) = of_int (2 ^ 41 - 1) / 2 ^ 41" by (rule fl64_dyadic) simp
  ultimately have f: "of_int (2 ^ 41 - 1) / 2 ^ 41 \<le> ?f" "?f \<le> 1" using fl64_int [of 1] by simp_all
  have h: "?h = fl64 (of_int (24 * k - 1) + ?f)" by (rule dur_Hours_days) (use assms in simp_all)
  have fl: "\<lfloor>of_int (24 * k * 2 ^ 39) - 1 / 4 :: rat\<rfloor> = 24 * k * 2 ^ 39 - 1" by (rule floor_unique) simp_all
  have "fl64 (of_int (24 * k) - 1 / 2 ^ 41) = of_int (round_even ((of_int (24 * k) - 1 / 2 ^ 41) * 2 ^ 39)) / 2 ^ 39"
    by (rule fl64_value_nat [where e = 13]) (use assms in simp_all)
  also have "(of_int (24 * k) - 1 / 2 ^ 41) * 2 ^ 39 = (of_int (24 * k * 2 ^ 39) - 1 / 4 :: rat)"
    by (simp add: left_diff_distrib)
  also have "of_int (round_even (of_int (24 * k * 2 ^ 39) - 1 / 4)) / 2 ^ 39 = (of_int (24 * k) :: rat)"
    unfolding round_even_def fl Let_def by simp
  finally have "of_int (24 * k) \<le> ?h"
    unfolding h by (rule subst [where P = "\<lambda>x. x \<le> _"]) (rule fl64_mono, use f(1) in \<open>simp add: field_simps\<close>)
  moreover have "?h \<le> fl64 (of_int (24 * k))" unfolding h by (rule fl64_mono) (use f(2) in simp)
  moreover have "fl64 (of_int (24 * k)) = of_int (24 * k)" by (rule fl64_int) (use assms in simp)
  ultimately have "?h / 24 = of_int k" by simp
  moreover have "fl64 (of_int k) = of_int k" by (rule fl64_int) (use assms in simp)
  ultimately show ?thesis using assms by (simp add: float_days_def trunc_rat_def)
qed

lemma RangeDateStr_count:
  assumes "gt_loc s = (\<lambda>_. o')" "gt_loc e = (\<lambda>_. o')" "gt_nanos s \<le> gt_nanos e" "wall_day e - wall_day s < 9999"
  defines "k \<equiv> wall_day e - wall_day s + 1"
  assumes "float_days k = k - 1 \<or> float_days k = k"
  shows "RangeDateStr fmt layout s e =
    map (\<lambda>i. fmt (if layout = [] then LayoutDateISO8601 else layout) (if float_days k = 0 then s else t_AddDate 0 0 (int i) s)) [0..<nat (float_days k + 1)]"
proof -
  have w: "wall s \<le> wall e" using assms(1-3) by (simp add: fixed_wall)
  then have k: "1 \<le> k" unfolding k_def wall_day_def by (simp add: zdiv_mono1 day_nanos_def)
  have "gt_nanos (EndTime e) - gt_nanos (StartTime s) = k * day_nanos - 1"
    using EndTime_fixed [OF assms(2)] StartTime_fixed [OF assms(1)]
    by (simp add: nanos_fixed [OF EndTime_fixed(1) [OF assms(2)]] nanos_fixed [OF StartTime_fixed(1) [OF assms(1)]] k_def algebra_simps)
  moreover have "k * day_nanos - 1 \<le> MaxInt64" "MinInt64 \<le> k * day_nanos - 1"
    using k assms(4) by (simp_all add: k_def day_nanos_def MaxInt64_def MinInt64_def)
  ultimately have "t_Sub (EndTime e) (StartTime s) = k * day_nanos - 1" by (simp add: t_Sub_def)
  then have d: "trunc_rat (fl64 (dur_Hours (t_Sub (EndTime e) (StartTime s)) / 24)) = float_days k" by (simp add: float_days_def)
  have "0 \<le> float_days k" "float_days k + 1 \<le> 10000" using assms(4,6) k by (auto simp: k_def)
  then show ?thesis
    using assms(3) by (auto simp: RangeDateStr_def d Let_def maxRangeEntries_def)
qed

text \<open>
  A range of at most 85 days lists one date for each day from the first to the last; for a span of a year
  it goes one day past the end.
\<close>

lemma RangeDateStr_days:
  assumes "gt_loc s = (\<lambda>_. o')" "gt_loc e = (\<lambda>_. o')" "gt_nanos s \<le> gt_nanos e" "wall_day e - wall_day s < 85"
  shows "map (\<lambda>t. wall_day t) (map (\<lambda>i. if wall_day e = wall_day s then s else t_AddDate 0 0 (int i) s) [0..<nat (wall_day e - wall_day s + 1)])
      = [wall_day s..wall_day e]"
    and "RangeDateStr fmt layout s e = map (fmt (if layout = [] then LayoutDateISO8601 else layout))
      (map (\<lambda>i. if wall_day e = wall_day s then s else t_AddDate 0 0 (int i) s) [0..<nat (wall_day e - wall_day s + 1)])"
proof -
  have w: "wall s \<le> wall e" using assms(1-3) by (simp add: fixed_wall)
  then have le: "wall_day s \<le> wall_day e" by (simp add: wall_day_def zdiv_mono1 day_nanos_def)
  have f: "float_days (wall_day e - wall_day s + 1) = wall_day e - wall_day s" using float_days_exact [of "wall_day e - wall_day s + 1"] le assms(4) by simp
  show "RangeDateStr fmt layout s e = map (fmt (if layout = [] then LayoutDateISO8601 else layout))
      (map (\<lambda>i. if wall_day e = wall_day s then s else t_AddDate 0 0 (int i) s) [0..<nat (wall_day e - wall_day s + 1)])"
    using RangeDateStr_count [OF assms(1-3), of fmt layout] f assms(4) by simp
  show "map (\<lambda>t. wall_day t) (map (\<lambda>i. if wall_day e = wall_day s then s else t_AddDate 0 0 (int i) s) [0..<nat (wall_day e - wall_day s + 1)])
      = [wall_day s..wall_day e]"
  proof (rule nth_equalityI)
    fix i
    assume "i < length (map (\<lambda>t. wall_day t) (map (\<lambda>i. if wall_day e = wall_day s then s else t_AddDate 0 0 (int i) s) [0..<nat (wall_day e - wall_day s + 1)]))"
    then show "map (\<lambda>t. wall_day t) (map (\<lambda>i. if wall_day e = wall_day s then s else t_AddDate 0 0 (int i) s) [0..<nat (wall_day e - wall_day s + 1)]) ! i
        = [wall_day s..wall_day e] ! i"
      using AddDays_fixed(2) [OF assms(1)] le by auto
  qed simp
qed

lemma year_range_extra_day:
  assumes "gt_loc s = (\<lambda>_. o')" "gt_loc e = (\<lambda>_. o')" "gt_nanos s \<le> gt_nanos e" "wall_day e - wall_day s = 365"
  shows "length (RangeDateStr fmt layout s e) = 367"
  using RangeDateStr_count [OF assms(1-3), of fmt layout] float_days_rounds_up [of 366] assms(4) by simp

text \<open>\<open>RangeTime\<close>: every point of the grid from the earlier to the later time, and nothing beyond it.\<close>

lemma RangeTime_grid:
  assumes "0 < interval" "gt_nanos e - gt_nanos s \<le> MaxInt64" "gt_nanos s \<le> gt_nanos e"
    "(gt_nanos e - gt_nanos s) div interval < maxRangeEntries"
  shows "RangeTime interval s e = map (\<lambda>i. t_Add (interval * int i) s) [0..<nat ((gt_nanos e - gt_nanos s) div interval + 1)]"
proof -
  let ?d = "gt_nanos e - gt_nanos s"
  let ?n = "?d div interval"
  have sub: "t_Sub e s = ?d" using assms(2,3) by (simp add: t_Sub_def MinInt64_def)
  have n: "0 \<le> ?n" "?n < 10000" using assms(1,3,4) by (simp_all add: pos_imp_zdiv_nonneg_iff maxRangeEntries_def)
  have "?d sdiv interval = ?n" using assms(1,3) by (cases "?d = 0") (auto simp: signed_divide_int_def)
  then have q: "wrap64 (quo64 ?d interval + 1) = ?n + 1" using n by (simp add: quo64_def in_i64_def MinInt64_def MaxInt64_def)
  have "wrap64 (interval * int i) = interval * int i" if "i < nat (?n + 1)" for i
  proof -
    have "int i \<le> ?n" using that n(1) by simp
    then have "interval * int i \<le> interval * ?n" using assms(1) by simp
    also have "\<dots> \<le> ?d" using assms(1) mult_div_mod_eq [of interval ?d] pos_mod_sign [of interval ?d] by linarith
    finally have "interval * int i \<le> MaxInt64" "MinInt64 \<le> interval * int i"
      using assms(1,2) by (simp_all add: MinInt64_def order_trans [of _ 0])
    then show ?thesis by (intro wrap64_id) (simp add: in_i64_def)
  qed
  then have "map (\<lambda>i. t_Add (wrap64 (interval * int i)) s) [0..<nat (?n + 1)] = map (\<lambda>i. t_Add (interval * int i) s) [0..<nat (?n + 1)]"
    by simp
  moreover have "?n = 0 \<Longrightarrow> map (\<lambda>i. t_Add (interval * int i) s) [0..<nat (?n + 1)] = [s]" by (simp add: t_Add_def)
  ultimately show ?thesis using assms(1,3) n by (auto simp: RangeTime_def sub q Let_def maxRangeEntries_def)
qed

subsection \<open>A zone that skips midnight\<close>

text \<open>
  Where the clock is put forward at midnight the start of that day does not exist, and the start computed for
  it is on the day before; the count of days, which starts from it, is then short by one.
\<close>

definition skips_midnight :: location where
  "skips_midnight u = (if u < 10800 then -10800 else -7200)"

lemma start_on_day_before:
  "let t = \<lparr>gt_nanos = 43200 * 10 ^ 9, gt_loc = skips_midnight\<rparr>; y = \<lparr>gt_nanos = -43200 * 10 ^ 9, gt_loc = skips_midnight\<rparr>
   in wall_day t = 0 \<and> wall_day (StartTime t) = -1 \<and> wall_day y = -1 \<and> DeltaDateDays y t = 0"
proof -
  let ?t = "\<lparr>gt_nanos = 43200 * 10 ^ 9, gt_loc = skips_midnight\<rparr>" and ?y = "\<lparr>gt_nanos = -43200 * 10 ^ 9, gt_loc = skips_midnight\<rparr>"
  have d: "date_of 0 = (1970, 1, 1)" "date_of (-1) = (1969, 12, 31)" by code_simp+
  have v: "day_of 1970 1 1 = 0" "day_of 1969 12 31 = -1" by code_simp+
  have t: "wall_day ?t = 0" "wall_day ?y = -1" by (simp_all add: wall_day_def wall_def sec_nanos_def day_nanos_def skips_midnight_def)
  have s: "wall_day (StartTime ?t) = -1" "wall_day (StartTime ?y) = -1"
    unfolding StartTime_def t_Date_def t d case_prod_conv time_Date_def
    by (simp_all add: v wall_day_def wall_def from_wall_def Let_def sec_nanos_def day_nanos_def skips_midnight_def)
  have "DeltaDateDays ?y ?t = 0"
    unfolding DeltaDateDays_def t_Date_def s d by (simp add: t_Sub_def quo64_def MinInt64_def MaxInt64_def wrap64_def)
  then show ?thesis using s t unfolding Let_def by blast
qed

subsection \<open>Boundaries\<close>

text \<open>
  C33. In every zone of a fixed offset the boundaries are those of the calendar.  A day runs from its midnight
  to the last nanosecond before the next; the month of a time runs from its first day to the nanosecond before
  the first day of the next month; a week of any first weekday runs over seven days, starts on that weekday
  and contains the time; and the dates and the numbers of days are in one-to-one correspondence.
\<close>

theorem calendar_boundaries:
  assumes "gt_loc t = (\<lambda>_. offset)" "t_Date t = (y, m, d)" "0 \<le> firstDay" "firstDay < 7"
  shows "valid_date y m d \<and> day_of y m d = wall_day t
    \<and> gt_nanos (StartTime t) \<le> gt_nanos t \<and> gt_nanos t \<le> gt_nanos (EndTime t)
    \<and> gt_nanos (EndTime t) + 1 = gt_nanos (StartTime t) + day_nanos \<and> t_Date (StartTime t) = (y, m, d) \<and> wall_clock (StartTime t) = 0
    \<and> gt_nanos (FirstDateTimeOfMonth t) \<le> gt_nanos t \<and> gt_nanos t \<le> gt_nanos (LastDateTimeOfMonth t)
    \<and> t_Date (FirstDateTimeOfMonth t) = (y, m, 1)
    \<and> gt_nanos (LastDateTimeOfMonth t) + 1 = gt_nanos (FirstDateTimeOfMonth t) + month_length y m * day_nanos
    \<and> gt_nanos (FirstDateTimeOfWeek firstDay t) \<le> gt_nanos t \<and> gt_nanos t \<le> gt_nanos (LastDateTimeOfWeek firstDay t)
    \<and> t_Weekday (FirstDateTimeOfWeek firstDay t) = firstDay \<and> wall_clock (FirstDateTimeOfWeek firstDay t) = 0
    \<and> gt_nanos (LastDateTimeOfWeek firstDay t) + 1 = gt_nanos (FirstDateTimeOfWeek firstDay t) + 7 * day_nanos"
proof -
  note v = date_day [OF assms(2)]
  have md: "1 \<le> m" "m \<le> 12" "1 \<le> d" "d \<le> month_length y m" using v by (simp_all add: valid_date_def)
  note st = StartTime_fixed [OF assms(1)] and en = EndTime_fixed [OF assms(1)]
  note mo = month_fixed [OF assms(1,2)] and we = week_fixed [OF assms(1,3,4)]
  note nn = nanos_fixed [OF assms(1)] nanos_fixed [OF st(1)] nanos_fixed [OF en(1)]
    nanos_fixed [OF mo(1)] nanos_fixed [OF mo(4)] nanos_fixed [OF we(1)] nanos_fixed [OF we(5)]
  note c = wall_clock_range [of t]
  have day: "wall_day t = day_of y m 1 + (d - 1)" using v day_of_add [of y m 1 "d - 1"] by simp
  have nxt: "day_of y (m + 1) 1 = day_of y m 1 + month_length y m" by (rule day_of_next_month [OF md(1,2)])
  have dn: "0 < day_nanos" by (simp add: day_nanos_def)
  have mono: "a \<le> b \<Longrightarrow> x \<le> x' \<Longrightarrow> a * day_nanos + x \<le> b * day_nanos + x'" for a b x x'
    using dn by (intro add_mono mult_right_mono) simp_all
  let ?k = "(t_Weekday t - firstDay) mod 7"
  have k: "0 \<le> ?k" "?k < 7" by simp_all
  have "gt_nanos (FirstDateTimeOfMonth t) \<le> gt_nanos t" "gt_nanos t \<le> gt_nanos (LastDateTimeOfMonth t)"
    using mono [of "day_of y m 1" "wall_day t" 0 "wall_clock t"] mono [of "wall_day t" "day_of y (m + 1) 1 - 1" "wall_clock t" "day_nanos - 1"]
      c dn day nxt md by (simp_all add: nn mo)
  moreover have "gt_nanos (FirstDateTimeOfWeek firstDay t) \<le> gt_nanos t" "gt_nanos t \<le> gt_nanos (LastDateTimeOfWeek firstDay t)"
    using mono [of "wall_day t - ?k" "wall_day t" 0 "wall_clock t"] mono [of "wall_day t" "wall_day t - ?k + 6" "wall_clock t" "day_nanos - 1"]
      c dn k by (simp_all add: nn we)
  moreover have "t_Date (FirstDateTimeOfMonth t) = (y, m, 1)" using mo(2) date_of_day [of y m 1] md by (simp add: t_Date_def valid_date_def)
  moreover have "t_Date (StartTime t) = (y, m, d)" using assms(2) st(2) by (simp add: t_Date_def)
  moreover have "gt_nanos (LastDateTimeOfMonth t) + 1 = gt_nanos (FirstDateTimeOfMonth t) + month_length y m * day_nanos"
    using nxt by (simp add: nn mo algebra_simps)
  moreover have "gt_nanos (LastDateTimeOfWeek firstDay t) + 1 = gt_nanos (FirstDateTimeOfWeek firstDay t) + 7 * day_nanos"
    by (simp add: nn we algebra_simps)
  ultimately show ?thesis using v st en we c by (simp add: nn t_Weekday_def)
qed

theorem calendar_boundaries_witness:
  "t_Date \<lparr>gt_nanos = 1709210096 * 10 ^ 9, gt_loc = (\<lambda>_. 28800)\<rparr> = (2024, 2, 29)
    \<and> t_Date (FirstDateTimeOfMonth \<lparr>gt_nanos = 1709210096 * 10 ^ 9, gt_loc = (\<lambda>_. 28800)\<rparr>) = (2024, 2, 1)
    \<and> t_Weekday (FirstDateTimeOfWeek 1 \<lparr>gt_nanos = 1709210096 * 10 ^ 9, gt_loc = (\<lambda>_. 28800)\<rparr>) = 1"
proof -
  let ?t = "\<lparr>gt_nanos = 1709210096 * 10 ^ 9, gt_loc = (\<lambda>_. 28800)\<rparr>"
  have "wall_day ?t = 19782" by (simp add: wall_day_def wall_def sec_nanos_def day_nanos_def)
  moreover have "date_of 19782 = (2024, 2, 29)" by code_simp
  ultimately have d: "t_Date ?t = (2024, 2, 29)" by (simp add: t_Date_def)
  show ?thesis using calendar_boundaries [of ?t 28800 2024 2 29 1] d by simp
qed

end
