(* ===== verification/Log_Queue.thy ===== *)
theory Log_Queue
  imports Spill "HOL-Library.Multiset"
begin

section \<open>The queue of the asynchronous log writers\<close>

text \<open>
  The file writer and the network writer of \<open>src/log4go\<close> have the same pipeline: callers hand records to a
  bounded channel under the overflow policy, one daemon consumes it, a spill store takes the overflow and is
  drained back into the channel periodically, and \<open>Stop\<close> makes the daemon empty channel and store.  The
  definitions follow \<open>file_writer.go\<close>, of which \<open>net_writer.go\<close> is a copy; what the daemon does with a record
  is an argument, and the locale \<open>log_consumer\<close> is all the pipeline relies on.

  A caller first reads \<open>closing\<close> and then enters its \<open>select\<close>: these are two steps, between which it is in
  \<open>lq_sending\<close>, where a caller that blocks stays.  The last fields are ghosts: the records that entered the
  channel in their order, those counted as dropped, those a full ring overwrote and those nothing refers to
  any more.
\<close>

record 'r log_queue =
  lq_policy :: OverflowPolicy
  lq_cap :: nat
  lq_messages :: "'r list"
  lq_spiller :: "('r spill_store \<times> disk) option"
  lq_stats :: overflow_stats
  lq_closing :: bool
  lq_stop :: bool
  lq_exited :: bool
  lq_sending :: "'r list"
  lq_entered :: "'r list"
  lq_dropped :: "'r list"
  lq_overwritten :: "'r list"
  lq_forgotten :: "'r list"

definition new_queue :: "OverflowPolicy \<Rightarrow> nat \<Rightarrow> 'r log_queue" where
  "new_queue policy cap = \<lparr>lq_policy = policy, lq_cap = cap, lq_messages = [], lq_spiller = None,
    lq_stats = \<lparr>os_dropped = 0, os_spilled = 0, os_dropEvery = 1000, os_spillEvery = 1000, os_alertSink = None\<rparr>,
    lq_closing = False, lq_stop = False, lq_exited = False, lq_sending = [], lq_entered = [], lq_dropped = [],
    lq_overwritten = [], lq_forgotten = []\<rparr>"

subsection \<open>Callers\<close>

definition lq_IncDropped :: "'r \<Rightarrow> 'r log_queue \<Rightarrow> 'r log_queue" where
  "lq_IncDropped r q = q\<lparr>lq_stats := fst (IncDropped (lq_stats q)), lq_dropped := lq_dropped q @ [r]\<rparr>"

definition lq_enqueue :: "'r \<Rightarrow> 'r log_queue \<Rightarrow> 'r log_queue" where
  "lq_enqueue r q = q\<lparr>lq_messages := lq_messages q @ [r], lq_entered := lq_entered q @ [r]\<rparr>"

text \<open>What a push into the store displaces: a full ring overwrites its oldest record.\<close>

definition store_lost :: "'r spill_store \<times> disk \<Rightarrow> 'r list" where
  "store_lost s = (case fst s of RingStore g \<Rightarrow> if rs_size g < rs_capv g then [] else take 1 (rs_items g) | _ \<Rightarrow> [])"

definition lq_spill :: "('r \<Rightarrow> bytes option) \<Rightarrow> 'r \<Rightarrow> 'r log_queue \<Rightarrow> bool \<times> 'r log_queue" where
  "lq_spill enc r q =
    (case lq_spiller q of None \<Rightarrow> (False, q)
     | Some s \<Rightarrow> let (ok, s') = store_Push enc r s
         in (ok, q\<lparr>lq_spiller := Some s', lq_overwritten := lq_overwritten q @ store_lost s\<rparr>))"

definition send_check :: "'r \<Rightarrow> 'r log_queue \<Rightarrow> 'r log_queue" where
  "send_check r q = (if lq_closing q then lq_IncDropped r q else q\<lparr>lq_sending := lq_sending q @ [r]\<rparr>)"

text \<open>
  The \<open>select\<close> of caller \<open>k\<close>; \<open>pick_stop\<close> is the choice when the channel has room and \<open>stop\<close> is closed.
  \<open>None\<close>: no case is ready.
\<close>

definition send_select :: "('r \<Rightarrow> bytes option) \<Rightarrow> bool \<Rightarrow> nat \<Rightarrow> 'r log_queue \<Rightarrow> 'r log_queue option" where
  "send_select enc pick_stop k q =
    (if length (lq_sending q) \<le> k then None
     else let r = lq_sending q ! k; q1 = q\<lparr>lq_sending := take k (lq_sending q) @ drop (Suc k) (lq_sending q)\<rparr>;
              room = length (lq_messages q) < lq_cap q
          in if room \<and> \<not> (lq_stop q \<and> pick_stop) then Some (lq_enqueue r q1)
             else if lq_stop q then Some (lq_IncDropped r q1)
             else if lq_policy q = OverflowBlock then None
             else if lq_policy q = OverflowSpill
             then let (ok, q2) = lq_spill enc r q1
                  in Some (if ok then q2\<lparr>lq_stats := fst (IncSpilled (lq_stats q2))\<rparr> else lq_IncDropped r q2)
             else Some (lq_IncDropped r q1))"

subsection \<open>Spilled records\<close>

text \<open>
  The loop of \<open>drainSpill\<close>: when the channel is full again the record in hand is pushed back, and the records
  behind it in the drained slice are referred to by nothing.
\<close>

fun lq_reinject :: "('r \<Rightarrow> bytes option) \<Rightarrow> 'r list \<Rightarrow> 'r log_queue \<Rightarrow> 'r log_queue" where
  "lq_reinject enc [] q = q"
| "lq_reinject enc (r # rs) q =
    (if length (lq_messages q) < lq_cap q then lq_reinject enc rs (lq_enqueue r q)
     else let (ok, q1) = lq_spill enc r q in q1\<lparr>lq_forgotten := lq_forgotten q1 @ (if ok then rs else r # rs)\<rparr>)"

definition lq_drainSpill :: "'r \<Rightarrow> ('r \<Rightarrow> bytes option) \<Rightarrow> (bytes \<Rightarrow> 'r option) \<Rightarrow> os_env \<Rightarrow> 'r log_queue \<Rightarrow> 'r log_queue" where
  "lq_drainSpill z enc dec env q =
    (if lq_closing q then q
     else case lq_spiller q of None \<Rightarrow> q
       | Some s \<Rightarrow> if store_Len (fst s) = 0 then q
           else let (out, s') = store_Drain z dec env s in lq_reinject enc out (q\<lparr>lq_spiller := Some s'\<rparr>))"

text \<open>The resume loop of \<open>startDaemon\<close>, which goes on after a full channel and counts a refusal.\<close>

fun lq_resume :: "('r \<Rightarrow> bytes option) \<Rightarrow> 'r list \<Rightarrow> 'r log_queue \<Rightarrow> 'r log_queue" where
  "lq_resume enc [] q = q"
| "lq_resume enc (r # rs) q =
    lq_resume enc rs
      (if length (lq_messages q) < lq_cap q then lq_enqueue r q
       else let (ok, q1) = lq_spill enc r q in if ok then q1 else lq_IncDropped r q1)"

definition lq_take_spill :: "'r \<Rightarrow> (bytes \<Rightarrow> 'r option) \<Rightarrow> os_env \<Rightarrow> 'r log_queue \<Rightarrow> 'r list \<times> 'r log_queue" where
  "lq_take_spill z dec env q =
    (case lq_spiller q of None \<Rightarrow> ([], q)
     | Some s \<Rightarrow> let (out, s') = store_Drain z dec env s in (out, q\<lparr>lq_spiller := Some s'\<rparr>))"

text \<open>\<open>Stop\<close> first claims \<open>closing\<close> and then closes the channel \<open>stop\<close>; callers and daemon may run in between.\<close>

definition lq_Stop :: "'r log_queue \<Rightarrow> 'r log_queue" where
  "lq_Stop q = (if lq_closing q then q else q\<lparr>lq_closing := True\<rparr>)"

definition lq_close_stop :: "'r log_queue \<Rightarrow> 'r log_queue option" where
  "lq_close_stop q = (if lq_closing q \<and> \<not> lq_stop q then Some (q\<lparr>lq_stop := True\<rparr>) else None)"

subsection \<open>The daemon\<close>

text \<open>
  \<open>consume e r\<close> is the daemon's work on a record and \<open>idle e\<close> its work on a tick, both in an environment \<open>e\<close> (the
  time and the outcomes of system calls).  At shutdown the records of the channel and then those of the store
  are consumed, in the environments \<open>env 0\<close>, \<open>env 1\<close> and so on.
\<close>

fun consume_all :: "('e \<Rightarrow> 'r \<Rightarrow> 's \<Rightarrow> 's) \<Rightarrow> (nat \<Rightarrow> 'e) \<Rightarrow> nat \<Rightarrow> 'r list \<Rightarrow> 's \<Rightarrow> 's" where
  "consume_all consume env n [] s = s"
| "consume_all consume env n (r # rs) s = consume_all consume env (Suc n) rs (consume (env n) r s)"

definition daemon_receive :: "('e \<Rightarrow> 'r \<Rightarrow> 's \<Rightarrow> 's) \<Rightarrow> 'e \<Rightarrow> 'r log_queue \<times> 's \<Rightarrow> ('r log_queue \<times> 's) option" where
  "daemon_receive consume e = (\<lambda>(q, s). case lq_messages q of [] \<Rightarrow> None | r # rs \<Rightarrow> Some (q\<lparr>lq_messages := rs\<rparr>, consume e r s))"

definition daemon_shutdown :: "'r \<Rightarrow> (bytes \<Rightarrow> 'r option) \<Rightarrow> ('e \<Rightarrow> 'r \<Rightarrow> 's \<Rightarrow> 's) \<Rightarrow> ('e \<Rightarrow> 's \<Rightarrow> 's) \<Rightarrow> (nat \<Rightarrow> 'e) \<Rightarrow> os_env
    \<Rightarrow> 'r log_queue \<times> 's \<Rightarrow> 'r log_queue \<times> 's" where
  "daemon_shutdown z dec consume idle env oenv = (\<lambda>(q, s).
    let n = length (lq_messages q); s1 = consume_all consume env 0 (lq_messages q) s;
        (out, q1) = lq_take_spill z dec oenv (q\<lparr>lq_messages := []\<rparr>);
        s2 = consume_all consume env n out s1
    in (q1\<lparr>lq_exited := True\<rparr>, idle (env (n + length out)) s2))"

datatype ('e, 'r) lq_event = QCheck 'r | QSelect bool nat | QReceive 'e | QTick 'e | QStop | QCloseStop | QShutdown "nat \<Rightarrow> 'e"

definition lq_do :: "'r \<Rightarrow> ('r \<Rightarrow> bytes option) \<Rightarrow> (bytes \<Rightarrow> 'r option) \<Rightarrow> ('e \<Rightarrow> 'r \<Rightarrow> 's \<Rightarrow> 's) \<Rightarrow> ('e \<Rightarrow> 's \<Rightarrow> 's)
    \<Rightarrow> ('e, 'r) lq_event \<Rightarrow> 'r log_queue \<times> 's \<Rightarrow> ('r log_queue \<times> 's) option" where
  "lq_do z enc dec consume idle ev qs =
    (case ev of
       QCheck r \<Rightarrow> Some (send_check r (fst qs), snd qs)
     | QSelect pick k \<Rightarrow> map_option (\<lambda>q. (q, snd qs)) (send_select enc pick k (fst qs))
     | QReceive e \<Rightarrow> if lq_exited (fst qs) then None else daemon_receive consume e qs
     | QTick e \<Rightarrow> if lq_exited (fst qs) then None else Some (lq_drainSpill z enc dec os_fine (fst qs), idle e (snd qs))
     | QStop \<Rightarrow> Some (lq_Stop (fst qs), snd qs)
     | QCloseStop \<Rightarrow> map_option (\<lambda>q. (q, snd qs)) (lq_close_stop (fst qs))
     | QShutdown env \<Rightarrow> if lq_exited (fst qs) \<or> \<not> lq_stop (fst qs) then None
         else Some (daemon_shutdown z dec consume idle env os_fine qs))"

fun lq_run :: "'r \<Rightarrow> ('r \<Rightarrow> bytes option) \<Rightarrow> (bytes \<Rightarrow> 'r option) \<Rightarrow> ('e \<Rightarrow> 'r \<Rightarrow> 's \<Rightarrow> 's) \<Rightarrow> ('e \<Rightarrow> 's \<Rightarrow> 's)
    \<Rightarrow> ('e, 'r) lq_event list \<Rightarrow> 'r log_queue \<times> 's \<Rightarrow> ('r log_queue \<times> 's) option" where
  "lq_run z enc dec consume idle [] qs = Some qs"
| "lq_run z enc dec consume idle (ev # evs) qs =
    (case lq_do z enc dec consume idle ev qs of None \<Rightarrow> None | Some qs' \<Rightarrow> lq_run z enc dec consume idle evs qs')"

fun handed :: "('e, 'r) lq_event list \<Rightarrow> 'r list" where
  "handed [] = []"
| "handed (QCheck r # evs) = r # handed evs"
| "handed (_ # evs) = handed evs"

subsection \<open>The store, with a ring that overwrites\<close>

text \<open>
  A store that may displace records to take a new one.  Every \<open>spiller\<close> is one that displaces nothing.
\<close>

locale overflow_store =
  fixes wf :: "'s \<Rightarrow> bool" and items :: "'s \<Rightarrow> 'a list" and push :: "'a \<Rightarrow> 's \<Rightarrow> bool \<times> 's" and drain :: "'s \<Rightarrow> 'a list \<times> 's"
    and displaced :: "'s \<Rightarrow> 'a list"
  assumes push_books: "wf s \<Longrightarrow> push m s = (ok, s') \<Longrightarrow>
      wf s' \<and> mset (items s') + mset (displaced s) = mset (items s) + (if ok then {#m#} else {#})"
    and drain_books: "wf s \<Longrightarrow> drain s = (out, s') \<Longrightarrow> out = items s \<and> wf s' \<and> items s' = []"

sublocale spiller \<subseteq> overflow_store wf items push drain "\<lambda>_. []"
proof
  fix s m ok s'
  assume "wf s" "push m s = (ok, s')"
  then show "wf s' \<and> mset (items s') + mset [] = mset (items s) + (if ok then {#m#} else {#})" using push_cases by auto
qed (rule drain_all)

definition sx_ok :: "('r \<Rightarrow> bytes option) \<Rightarrow> (bytes \<Rightarrow> 'r option) \<Rightarrow> 'r spill_store \<times> disk \<Rightarrow> bool" where
  "sx_ok enc dec s \<longleftrightarrow> (case fst s of RingStore g \<Rightarrow> rs_wf g | _ \<Rightarrow> st_ok enc dec s)"

interpretation sx: overflow_store "sx_ok enc dec" "st_items dec" "store_Push enc" "store_Drain z dec os_fine" store_lost
proof
  fix s m ok s'
  assume ok: "sx_ok enc dec s" and p: "store_Push enc m s = (ok, s')"
  obtain a d where s: "s = (a, d)" by (cases s)
  show "sx_ok enc dec s' \<and> mset (st_items dec s') + mset (store_lost s) = mset (st_items dec s) + (if ok then {#m#} else {#})"
  proof (cases a)
    case (RingStore g)
    have wf: "rs_wf g" using ok s RingStore by (simp add: sx_ok_def)
    have s': "s' = (RingStore (snd (rs_Push m g)), d)" "ok"
      using p s RingStore by (auto simp: store_Push_def rs_Push_def)
    have "0 < rs_capv g" using wf by (auto simp: rs_wf_def)
    then have "rs_size g < rs_capv g \<or> rs_items g \<noteq> []" using length_rs_items [of g] by (cases "rs_items g") auto
    then have "mset (tl (rs_items g)) + mset (take 1 (rs_items g)) = mset (rs_items g)" by (cases "rs_items g") simp_all
    then show ?thesis
      using rs_Push_window [OF wf, of m] s s' RingStore by (auto simp: sx_ok_def st_items_def store_lost_def)
  next
    case (FileStore f)
    then have st: "st_ok enc dec s" using ok s by (simp add: sx_ok_def)
    have "\<exists>f' d'. s' = (FileStore f', d')" using p s FileStore by (auto simp: store_Push_def split: prod.splits)
    then show ?thesis using st.push_books [OF st p] s FileStore by (auto simp: sx_ok_def store_lost_def)
  next
    case (ChainStore c)
    then have st: "st_ok enc dec s" using ok s by (simp add: sx_ok_def)
    have "\<exists>c' d'. s' = (ChainStore c', d')" using p s ChainStore by (auto simp: store_Push_def split: prod.splits)
    then show ?thesis using st.push_books [OF st p] s ChainStore by (auto simp: sx_ok_def store_lost_def)
  qed
next
  fix s out s'
  assume ok: "sx_ok enc dec s" and p: "store_Drain z dec os_fine s = (out, s')"
  obtain a d where s: "s = (a, d)" by (cases s)
  show "out = st_items dec s \<and> sx_ok enc dec s' \<and> st_items dec s' = []"
  proof (cases a)
    case (RingStore g)
    then have "rs_wf g" using ok s by (simp add: sx_ok_def)
    from rs_Drain_all [OF this, of z] show ?thesis using p s RingStore
      by (auto simp: store_Drain_def sx_ok_def st_items_def split: prod.splits)
  next
    case (FileStore f)
    then have st: "st_ok enc dec s" using ok s by (simp add: sx_ok_def)
    have "\<exists>f' d'. s' = (FileStore f', d')" using p s FileStore by (auto simp: store_Drain_def split: prod.splits)
    then show ?thesis using st.drain_all [OF st p] by (auto simp: sx_ok_def)
  next
    case (ChainStore c)
    then have st: "st_ok enc dec s" using ok s by (simp add: sx_ok_def)
    have "\<exists>c' d'. s' = (ChainStore c', d')" using p s ChainStore by (auto simp: store_Drain_def split: prod.splits)
    then show ?thesis using st.drain_all [OF st p] by (auto simp: sx_ok_def)
  qed
qed

subsection \<open>Accounting\<close>

definition lq_stored :: "(bytes \<Rightarrow> 'r option) \<Rightarrow> 'r log_queue \<Rightarrow> 'r list" where
  "lq_stored dec q = (case lq_spiller q of None \<Rightarrow> [] | Some s \<Rightarrow> st_items dec s)"

definition lq_books :: "(bytes \<Rightarrow> 'r option) \<Rightarrow> 'r log_queue \<Rightarrow> 'r multiset" where
  "lq_books dec q = mset (lq_sending q) + mset (lq_messages q) + mset (lq_stored dec q) + mset (lq_dropped q)
    + mset (lq_overwritten q) + mset (lq_forgotten q)"

definition lq_fit :: "('r \<Rightarrow> bytes option) \<Rightarrow> (bytes \<Rightarrow> 'r option) \<Rightarrow> 'r log_queue \<Rightarrow> bool" where
  "lq_fit enc dec q \<longleftrightarrow> (\<forall>s. lq_spiller q = Some s \<longrightarrow> sx_ok enc dec s)
    \<and> os_dropped (lq_stats q) = word_of_nat (length (lq_dropped q)) \<and> length (lq_messages q) \<le> lq_cap q"

text \<open>An operation that takes the records \<open>A\<close> in and hands \<open>B\<close> out: the queue stays fit and the books balance.\<close>

definition moves :: "('r \<Rightarrow> bytes option) \<Rightarrow> (bytes \<Rightarrow> 'r option) \<Rightarrow> 'r multiset \<Rightarrow> 'r multiset \<Rightarrow> 'r log_queue \<Rightarrow> 'r log_queue \<Rightarrow> bool" where
  "moves enc dec A B q q' \<longleftrightarrow> (lq_fit enc dec q \<longrightarrow> lq_fit enc dec q' \<and> lq_books dec q' + B = lq_books dec q + A)"

lemma moves_refl [simp]: "moves enc dec {#} {#} q q"
  by (simp add: moves_def)

lemma moves_trans: "moves enc dec A B q q' \<Longrightarrow> moves enc dec A' B' q' q'' \<Longrightarrow> moves enc dec (A + A') (B + B') q q''"
  unfolding moves_def by (metis (no_types, lifting) add.assoc add.commute)

lemma moves_dropped: "moves enc dec {#r#} {#} q (lq_IncDropped r q)"
  by (simp add: moves_def lq_fit_def lq_books_def lq_stored_def lq_IncDropped_def add.commute)

lemma moves_enqueue: "length (lq_messages q) < lq_cap q \<Longrightarrow> moves enc dec {#r#} {#} q (lq_enqueue r q)"
  by (simp add: moves_def lq_fit_def lq_books_def lq_stored_def lq_enqueue_def)

lemma moves_spill:
  assumes "lq_spill enc r q = (ok, q')"
  shows "moves enc dec (if ok then {#r#} else {#}) {#} q q'"
proof (cases "lq_spiller q")
  case None
  then show ?thesis using assms by (auto simp: lq_spill_def)
next
  case (Some s)
  obtain s' where p: "store_Push enc r s = (ok, s')" and q': "q' = q\<lparr>lq_spiller := Some s', lq_overwritten := lq_overwritten q @ store_lost s\<rparr>"
    using assms Some by (auto simp: lq_spill_def split: prod.splits)
  show ?thesis
    unfolding moves_def
  proof
    assume fit: "lq_fit enc dec q"
    then have "sx_ok enc dec s" using Some by (simp add: lq_fit_def)
    from sx.push_books [OF this p] fit Some
    show "lq_fit enc dec q' \<and> lq_books dec q' + {#} = lq_books dec q + (if ok then {#r#} else {#})"
      by (auto simp: q' lq_fit_def lq_books_def lq_stored_def ac_simps)
  qed
qed

lemma moves_stat: "moves enc dec {#} {#} q (q\<lparr>lq_stats := fst (IncSpilled (lq_stats q))\<rparr>)"
  by (simp add: moves_def lq_fit_def lq_books_def lq_stored_def)

lemma moves_forget: "moves enc dec (mset rs) {#} q (q\<lparr>lq_forgotten := lq_forgotten q @ rs\<rparr>)"
  by (simp add: moves_def lq_fit_def lq_books_def lq_stored_def ac_simps)

lemma moves_check: "moves enc dec {#r#} {#} q (send_check r q)"
proof -
  have "moves enc dec {#r#} {#} q (q\<lparr>lq_sending := lq_sending q @ [r]\<rparr>)"
    by (simp add: moves_def lq_fit_def lq_books_def lq_stored_def)
  then show ?thesis using moves_dropped [of enc dec r q] by (simp add: send_check_def)
qed

lemma moves_unsend:
  assumes "k < length (lq_sending q)"
  shows "moves enc dec {#} {#lq_sending q ! k#} q (q\<lparr>lq_sending := take k (lq_sending q) @ drop (Suc k) (lq_sending q)\<rparr>)"
proof -
  have "mset (lq_sending q) = mset (take k (lq_sending q) @ lq_sending q ! k # drop (Suc k) (lq_sending q))"
    by (simp only: id_take_nth_drop [OF assms, symmetric])
  then show ?thesis by (simp add: moves_def lq_fit_def lq_books_def lq_stored_def)
qed

lemma moves_cancel: "moves enc dec {#} {#r#} q q1 \<Longrightarrow> moves enc dec {#r#} {#} q1 q2 \<Longrightarrow> moves enc dec {#} {#} q q2"
  by (auto simp: moves_def)

lemma moves_select:
  assumes "send_select enc pick k q = Some q'"
  shows "moves enc dec {#} {#} q q'"
proof -
  let ?r = "lq_sending q ! k" and ?q1 = "q\<lparr>lq_sending := take k (lq_sending q) @ drop (Suc k) (lq_sending q)\<rparr>"
  obtain ok q2 where sp: "lq_spill enc ?r ?q1 = (ok, q2)" by (cases "lq_spill enc ?r ?q1")
  have k: "k < length (lq_sending q)" using assms by (simp add: send_select_def split: if_splits)
  have "moves enc dec {#?r#} {#} ?q1 (if ok then q2\<lparr>lq_stats := fst (IncSpilled (lq_stats q2))\<rparr> else lq_IncDropped ?r q2)"
    using moves_trans [OF moves_spill [OF sp] moves_stat] moves_trans [OF moves_spill [OF sp] moves_dropped] by (cases ok) simp_all
  then have "moves enc dec {#?r#} {#} ?q1 q'"
    using assms k sp moves_dropped [of enc dec ?r ?q1] moves_enqueue [of ?q1 enc dec ?r]
    by (auto simp: send_select_def Let_def split: if_splits)
  then show ?thesis by (rule moves_cancel [OF moves_unsend [OF k]])
qed

lemma moves_reinject: "moves enc dec (mset rs) {#} q (lq_reinject enc rs q)"
proof (induction rs arbitrary: q)
  case (Cons r rs)
  show ?case
  proof (cases "length (lq_messages q) < lq_cap q")
    case True
    from moves_trans [OF moves_enqueue [OF True, of enc dec r] Cons.IH] True show ?thesis by simp
  next
    case False
    obtain ok q1 where sp: "lq_spill enc r q = (ok, q1)" by (cases "lq_spill enc r q")
    from moves_trans [OF moves_spill [OF sp] moves_forget [of enc dec "if ok then rs else r # rs" q1]] False sp
    show ?thesis by (cases ok) simp_all
  qed
qed simp

lemma moves_take:
  assumes "lq_take_spill z dec os_fine q = (out, q')"
  shows "moves enc dec {#} (mset out) q q'" "lq_fit enc dec q \<Longrightarrow> lq_stored dec q' = []"
proof -
  have "moves enc dec {#} (mset out) q q' \<and> (lq_fit enc dec q \<longrightarrow> lq_stored dec q' = [])"
  proof (cases "lq_spiller q")
    case None
    then show ?thesis using assms by (auto simp: lq_take_spill_def lq_stored_def)
  next
    case (Some s)
    obtain s' where d: "store_Drain z dec os_fine s = (out, s')" and q': "q' = q\<lparr>lq_spiller := Some s'\<rparr>"
      using assms Some by (auto simp: lq_take_spill_def split: prod.splits)
    have "sx_ok enc dec s \<Longrightarrow> out = st_items dec s \<and> sx_ok enc dec s' \<and> st_items dec s' = []" by (rule sx.drain_books [OF _ d])
    then show ?thesis using Some by (auto simp: moves_def q' lq_fit_def lq_books_def lq_stored_def ac_simps)
  qed
  then show "moves enc dec {#} (mset out) q q'" "lq_fit enc dec q \<Longrightarrow> lq_stored dec q' = []" by simp_all
qed

lemma moves_give_back: "moves enc dec {#} A q q1 \<Longrightarrow> moves enc dec A {#} q1 q2 \<Longrightarrow> moves enc dec {#} {#} q q2"
  by (auto simp: moves_def)

lemma moves_drainSpill: "moves enc dec {#} {#} q (lq_drainSpill z enc dec os_fine q)"
proof (cases "lq_spiller q")
  case (Some s)
  obtain out s' where d: "store_Drain z dec os_fine s = (out, s')" by (cases "store_Drain z dec os_fine s")
  then have "lq_take_spill z dec os_fine q = (out, q\<lparr>lq_spiller := Some s'\<rparr>)" using Some by (simp add: lq_take_spill_def)
  from moves_give_back [OF moves_take(1) [OF this] moves_reinject] d Some show ?thesis by (simp add: lq_drainSpill_def)
qed (simp add: lq_drainSpill_def)

lemma moves_resume: "moves enc dec (mset rs) {#} q (lq_resume enc rs q)"
proof (induction rs arbitrary: q)
  case (Cons r rs)
  obtain ok q1 where sp: "lq_spill enc r q = (ok, q1)" by (cases "lq_spill enc r q")
  have "moves enc dec {#r#} {#} q (if length (lq_messages q) < lq_cap q then lq_enqueue r q else if ok then q1 else lq_IncDropped r q1)"
    using moves_enqueue [of q enc dec r] moves_spill [OF sp, of dec] moves_trans [OF moves_spill [OF sp] moves_dropped [of enc dec r q1]]
    by (cases ok) simp_all
  from moves_trans [OF this Cons.IH] sp show ?case by (simp split: if_splits)
qed simp

lemma moves_Stop: "moves enc dec {#} {#} q (lq_Stop q)"
  by (simp add: moves_def lq_fit_def lq_books_def lq_stored_def lq_Stop_def)

lemma moves_close_stop: "lq_close_stop q = Some q' \<Longrightarrow> moves enc dec {#} {#} q q'"
  by (auto simp: moves_def lq_fit_def lq_books_def lq_stored_def lq_close_stop_def split: if_splits)

lemma moves_receive: "lq_messages q = r # rs \<Longrightarrow> moves enc dec {#} {#r#} q (q\<lparr>lq_messages := rs\<rparr>)"
  by (simp add: moves_def lq_fit_def lq_books_def lq_stored_def)

lemma moves_clear: "moves enc dec {#} (mset (lq_messages q)) q (q\<lparr>lq_messages := []\<rparr>)"
  by (simp add: moves_def lq_fit_def lq_books_def lq_stored_def ac_simps)

lemma moves_exit: "moves enc dec {#} {#} q (q\<lparr>lq_exited := True\<rparr>)"
  by (simp add: moves_def lq_fit_def lq_books_def lq_stored_def)

subsection \<open>The channel keeps the order\<close>

definition extends :: "'r log_queue \<Rightarrow> 'r log_queue \<Rightarrow> bool" where
  "extends q q' \<longleftrightarrow> (\<exists>es. lq_messages q' = lq_messages q @ es \<and> lq_entered q' = lq_entered q @ es)"

lemma extends_same: "lq_messages q' = lq_messages q \<Longrightarrow> lq_entered q' = lq_entered q \<Longrightarrow> extends q q'"
  by (simp add: extends_def)

lemma extends_trans: "extends q q' \<Longrightarrow> extends q' q'' \<Longrightarrow> extends q q''"
  by (auto simp: extends_def)

lemma extends_enqueue: "extends q (lq_enqueue r q)"
  by (simp add: extends_def lq_enqueue_def)

lemma spill_keeps: "lq_spill enc r q = (ok, q') \<Longrightarrow> lq_messages q' = lq_messages q \<and> lq_entered q' = lq_entered q \<and> lq_cap q' = lq_cap q"
  by (auto simp: lq_spill_def split: option.splits prod.splits)

lemma extends_select:
  assumes "send_select enc pick k q = Some q'"
  shows "extends q q'"
proof -
  let ?q1 = "q\<lparr>lq_sending := take k (lq_sending q) @ drop (Suc k) (lq_sending q)\<rparr>"
  obtain ok q2 where sp: "lq_spill enc (lq_sending q ! k) ?q1 = (ok, q2)" by (cases "lq_spill enc (lq_sending q ! k) ?q1")
  have "extends q ?q1" by (simp add: extends_def)
  from extends_trans [OF this extends_enqueue [of ?q1 "lq_sending q ! k"]] assms spill_keeps [OF sp] sp show ?thesis
    by (auto simp: send_select_def Let_def lq_IncDropped_def split: if_splits intro!: extends_same)
qed

lemma extends_reinject: "extends q (lq_reinject enc rs q)"
proof (induction rs arbitrary: q)
  case (Cons r rs)
  obtain ok q1 where sp: "lq_spill enc r q = (ok, q1)" by (cases "lq_spill enc r q")
  show ?case
    using extends_trans [OF extends_enqueue Cons.IH] spill_keeps [OF sp] sp by (auto intro: extends_same)
qed (simp add: extends_same)

lemma extends_drainSpill: "extends q (lq_drainSpill z enc dec env q)"
proof -
  have "extends q (lq_reinject enc out (q\<lparr>lq_spiller := s\<rparr>))" for out s
    by (rule extends_trans [OF _ extends_reinject]) (simp add: extends_same)
  then show ?thesis by (auto simp: lq_drainSpill_def extends_same split: option.splits prod.splits)
qed

subsection \<open>The pipeline over a consumer\<close>

text \<open>
  All the pipeline needs to know of the daemon's work: a record consumed is one record handled more, at the end
  of those handled before, and a tick handles none.
\<close>

locale log_consumer =
  fixes consume :: "'e \<Rightarrow> 'r \<Rightarrow> 's \<Rightarrow> 's" and idle :: "'e \<Rightarrow> 's \<Rightarrow> 's" and handled :: "'s \<Rightarrow> 'r list"
  assumes handled_consume: "handled (consume e r s) = handled s @ [r]"
    and handled_idle: "handled (idle e s) = handled s"
begin

lemma handled_all: "handled (consume_all consume env n rs s) = handled s @ rs"
  by (induction rs arbitrary: n s) (simp_all add: handled_consume)

lemma shutdown_empties:
  assumes "daemon_shutdown z dec consume idle env os_fine (q, s) = (q', s')" and "lq_fit enc dec q"
  shows "lq_fit enc dec q' \<and> lq_messages q' = [] \<and> lq_stored dec q' = [] \<and> lq_exited q'
    \<and> handled s' = handled s @ lq_messages q @ lq_stored dec q \<and> lq_books dec q' + mset (handled s') = lq_books dec q + mset (handled s)"
proof -
  let ?q = "q\<lparr>lq_messages := []\<rparr>"
  obtain out q1 where t: "lq_take_spill z dec os_fine ?q = (out, q1)" by (cases "lq_take_spill z dec os_fine ?q")
  have m1: "moves enc dec {#} (mset (lq_messages q)) q ?q" by (rule moves_clear)
  note m2 = moves_take(1) [OF t, of enc]
  have fit: "lq_fit enc dec ?q" using m1 assms(2) by (simp add: moves_def)
  have q1: "lq_stored dec q1 = []" by (rule moves_take(2) [OF t fit])
  have "lq_messages q1 = []" using t by (auto simp: lq_take_spill_def split: option.splits prod.splits)
  moreover have "out = lq_stored dec q"
  proof (cases "lq_spiller q")
    case (Some st)
    then have "sx_ok enc dec st" using assms(2) by (simp add: lq_fit_def)
    moreover obtain s1 where "store_Drain z dec os_fine st = (out, s1)" using t Some by (auto simp: lq_take_spill_def split: prod.splits)
    ultimately show ?thesis using sx.drain_books [of enc dec st z out s1] Some by (simp add: lq_stored_def)
  qed (use t in \<open>auto simp: lq_take_spill_def lq_stored_def\<close>)
  moreover have "moves enc dec {#} (mset (lq_messages q) + mset out) q (q1\<lparr>lq_exited := True\<rparr>)"
    using moves_trans [OF moves_trans [OF m1 m2] moves_exit] by simp
  moreover have "q' = q1\<lparr>lq_exited := True\<rparr>" "handled s' = handled s @ lq_messages q @ out"
    using assms(1) t by (auto simp: daemon_shutdown_def handled_all handled_idle Let_def)
  ultimately show ?thesis using assms(2) q1 by (auto simp: moves_def lq_stored_def ac_simps)
qed

lemma do_books:
  assumes "lq_do z enc dec consume idle ev (q, s) = Some (q', s')" and "lq_fit enc dec q"
  shows "lq_fit enc dec q' \<and> lq_books dec q' + mset (handled s') = lq_books dec q + mset (handled s) + mset (handed [ev])"
proof (cases ev)
  case (QCheck r)
  then show ?thesis using assms moves_check [of enc dec r q] by (auto simp: lq_do_def moves_def)
next
  case (QSelect pick k)
  then obtain "send_select enc pick k q = Some q'" "s' = s" using assms(1) by (auto simp: lq_do_def)
  then show ?thesis using assms(2) moves_select [of enc pick k q q' dec] QSelect by (simp add: moves_def)
next
  case (QReceive e)
  then obtain r rs where r: "lq_messages q = r # rs" "q' = q\<lparr>lq_messages := rs\<rparr>" "s' = consume e r s"
    using assms(1) by (auto simp: lq_do_def daemon_receive_def split: if_splits list.splits)
  then show ?thesis using moves_receive [OF r(1), of enc dec] assms(2) QReceive by (auto simp: moves_def handled_consume)
next
  case (QTick e)
  then show ?thesis using assms moves_drainSpill [of enc dec q z] by (auto simp: lq_do_def moves_def handled_idle split: if_splits)
next
  case QStop
  then show ?thesis using assms moves_Stop [of enc dec q] by (auto simp: lq_do_def moves_def)
next
  case QCloseStop
  then obtain "lq_close_stop q = Some q'" "s' = s" using assms(1) by (auto simp: lq_do_def)
  then show ?thesis using assms(2) moves_close_stop [of q q' enc dec] QCloseStop by (simp add: moves_def)
next
  case (QShutdown env)
  then have "daemon_shutdown z dec consume idle env os_fine (q, s) = (q', s')" using assms(1) by (simp add: lq_do_def split: if_splits)
  from shutdown_empties [OF this assms(2)] show ?thesis unfolding QShutdown handed.simps mset.simps add_0_right by blast
qed

lemma handed_Cons: "handed (ev # evs) = handed [ev] @ handed evs"
  by (cases ev) simp_all

lemma run_books:
  assumes "lq_run z enc dec consume idle evs (q, s) = Some (q', s')" and "lq_fit enc dec q"
  shows "lq_fit enc dec q' \<and> lq_books dec q' + mset (handled s') = lq_books dec q + mset (handled s) + mset (handed evs)"
  using assms
proof (induction evs arbitrary: q s)
  case (Cons ev evs)
  then obtain q1 s1 where d: "lq_do z enc dec consume idle ev (q, s) = Some (q1, s1)" "lq_run z enc dec consume idle evs (q1, s1) = Some (q', s')"
    by (auto split: option.splits)
  note b = do_books [OF d(1) Cons.prems(2)]
  from Cons.IH [OF d(2)] b show ?case by (subst handed_Cons) (simp add: ac_simps)
qed simp

text \<open>As long as the daemon runs it handles the records in the order in which they entered the channel.\<close>

definition in_order :: "'r log_queue \<times> 's \<Rightarrow> bool" where
  "in_order qs \<longleftrightarrow> handled (snd qs) @ lq_messages (fst qs) = lq_entered (fst qs)"

lemma do_in_order:
  assumes "lq_do z enc dec consume idle ev (q, s) = Some (q', s')" and "in_order (q, s)" and "\<not> lq_exited q'"
  shows "in_order (q', s')"
proof (cases ev)
  case (QReceive e)
  then show ?thesis using assms by (auto simp: lq_do_def daemon_receive_def in_order_def handled_consume split: if_splits list.splits)
next
  case (QShutdown env)
  then have "lq_exited q'" using assms(1) by (auto simp: lq_do_def daemon_shutdown_def Let_def split: if_splits prod.splits)
  with assms(3) show ?thesis by simp
next
  case (QTick e)
  then have "extends q q'" "handled s' = handled s" using assms(1) extends_drainSpill by (auto simp: lq_do_def handled_idle split: if_splits)
  then show ?thesis using assms(2) by (auto simp: in_order_def extends_def)
next
  case (QSelect pick k)
  then have "extends q q'" "s' = s" using assms(1) extends_select by (auto simp: lq_do_def)
  then show ?thesis using assms(2) by (auto simp: in_order_def extends_def)
qed (use assms in \<open>auto simp: lq_do_def in_order_def send_check_def lq_IncDropped_def lq_Stop_def lq_close_stop_def split: if_splits\<close>)

lemma do_exited: "lq_do z enc dec consume idle ev (q, s) = Some (q', s') \<Longrightarrow> lq_exited q \<Longrightarrow> lq_exited q'"
  by (cases ev) (auto simp: lq_do_def send_check_def lq_IncDropped_def lq_Stop_def lq_close_stop_def send_select_def lq_enqueue_def lq_spill_def Let_def
      split: if_splits option.splits prod.splits)

lemma run_in_order:
  assumes "lq_run z enc dec consume idle evs (q, s) = Some (q', s')" and "in_order (q, s)" and "\<not> lq_exited q'"
  shows "in_order (q', s')"
  using assms
proof (induction evs arbitrary: q s)
  case (Cons ev evs)
  then obtain q1 s1 where d: "lq_do z enc dec consume idle ev (q, s) = Some (q1, s1)" "lq_run z enc dec consume idle evs (q1, s1) = Some (q', s')"
    by (auto split: option.splits)
  have stays: "lq_run z enc dec consume idle es (qa, sa) = Some (q', s') \<Longrightarrow> lq_exited qa \<Longrightarrow> lq_exited q'" for es qa sa
    by (induction es arbitrary: qa sa) (auto split: option.splits dest: do_exited)
  have "\<not> lq_exited q1" using stays [OF d(2)] Cons.prems(3) by blast
  from Cons.IH [OF d(2) do_in_order [OF d(1) Cons.prems(2) this] Cons.prems(3)] show ?case .
qed simp

end

text \<open>The environments an event uses, and invariants of the consumer along a run.\<close>

fun uses :: "('e, 'r) lq_event \<Rightarrow> 'e set" where
  "uses (QReceive e) = {e}"
| "uses (QTick e) = {e}"
| "uses (QShutdown env) = range env"
| "uses _ = {}"

lemma consume_all_inv:
  assumes "\<And>e r s. e \<in> E \<Longrightarrow> I s \<Longrightarrow> I (consume e r s)" and "range env \<subseteq> E" and "I s"
  shows "I (consume_all consume env n rs s)"
  using assms(3)
proof (induction rs arbitrary: n s)
  case (Cons r rs)
  have "env n \<in> E" using assms(2) by auto
  then show ?case using Cons.IH [OF assms(1) [OF _ Cons.prems]] by simp
qed simp

lemma run_inv:
  assumes "\<And>e r s. e \<in> E \<Longrightarrow> I s \<Longrightarrow> I (consume e r s)" and "\<And>e s. e \<in> E \<Longrightarrow> I s \<Longrightarrow> I (idle e s)"
    and "lq_run z enc dec consume idle evs (q, s) = Some (q', s')" and "\<forall>ev\<in>set evs. uses ev \<subseteq> E" and "I s"
  shows "I s'"
  using assms(3-)
proof (induction evs arbitrary: q s)
  case (Cons ev evs)
  then obtain q1 s1 where d: "lq_do z enc dec consume idle ev (q, s) = Some (q1, s1)" "lq_run z enc dec consume idle evs (q1, s1) = Some (q', s')"
    by (auto split: option.splits)
  have "I s1"
  proof (cases ev)
    case (QReceive e)
    then show ?thesis using d(1) Cons.prems(2,3) assms(1) by (auto simp: lq_do_def daemon_receive_def split: if_splits list.splits)
  next
    case (QTick e)
    then show ?thesis using d(1) Cons.prems(2,3) assms(2) by (auto simp: lq_do_def split: if_splits)
  next
    case (QShutdown env)
    then have "range env \<subseteq> E" using Cons.prems(2) by simp
    have all: "I (consume_all consume env n rs t)" if "I t" for n rs t
      by (rule consume_all_inv [where E = E and I = I and consume = consume, OF _ \<open>range env \<subseteq> E\<close> that]) (rule assms(1))
    have one: "I (idle (env k) t)" if "I t" for k t using assms(2) [of "env k"] \<open>range env \<subseteq> E\<close> that by auto
    show ?thesis using d(1) QShutdown Cons.prems(3) all one
      by (auto simp: lq_do_def daemon_shutdown_def Let_def split: if_splits prod.splits)
  qed (use d(1) Cons.prems(3) in \<open>auto simp: lq_do_def\<close>)
  then show ?case using Cons.IH [OF d(2)] Cons.prems(2) by simp
qed simp

end
