(* ===== verification/File_Writer.thy ===== *)
theory File_Writer
  imports Log_Queue Datetime
begin

section \<open>The file writer\<close>

text \<open>
  Models \<open>src/log4go/file_writer.go\<close>: the path pattern and the rotation over the calendar of \<open>Datetime\<close>, the
  buffered writes of \<open>Bufio\<close> into a file system, and the asynchronous pipeline, which is \<open>Log_Queue\<close> with
  \<open>writeOne\<close> as its consumer.  A call that reads the clock or makes system calls takes their results from an
  environment \<open>rot_env\<close>.  The bytes of a record (\<open>formattedBytes\<close>, or the text of \<open>String\<close>) are an argument
  \<open>render\<close>.  Rendering of the event hook and of log lines is left out.  The last three fields are ghosts: the
  records written with the path of the file, those counted as errors, and all handled in their order.
\<close>

subsection \<open>Files\<close>

record fsys =
  fy_files :: "string \<Rightarrow> bytes option"
  fy_room :: "nat option"

definition fy_write :: "bool \<Rightarrow> string \<Rightarrow> bytes \<Rightarrow> fsys \<Rightarrow> nat \<times> fsys" where
  "fy_write opened path p d =
    (if \<not> opened then (0, d)
     else let n = (case fy_room d of None \<Rightarrow> length p | Some r \<Rightarrow> min (length p) r)
          in (n, d\<lparr>fy_files := (fy_files d)(path := map_option (\<lambda>l. l @ take n p) (fy_files d path)),
                   fy_room := map_option (\<lambda>r. r - n) (fy_room d)\<rparr>))"

definition fy_create :: "string \<Rightarrow> fsys \<Rightarrow> fsys" where
  "fy_create path d = (case fy_files d path of None \<Rightarrow> d\<lparr>fy_files := (fy_files d)(path \<mapsto> [])\<rparr> | Some _ \<Rightarrow> d)"

subsection \<open>State\<close>

record 'r file_writer =
  fwr_actions :: "char list"
  fwr_variables :: "int option list"
  fwr_pathFmt :: string
  fwr_daily :: bool
  fwr_hourly :: bool
  fwr_minutely :: bool
  fwr_maxDays :: int
  fwr_maxHours :: int
  fwr_maxMinutes :: int
  fwr_initFileOk :: bool
  fwr_lastWriteTime :: go_time
  fwr_lastRotateCheck :: int
  fwr_bufferSize :: int
  fwr_flushBatchSize :: int
  fwr_batchSinceFlush :: int
  fwr_file :: "string option"
  fwr_opened :: bool
  fwr_buf :: "bufw option"
  fwr_fs :: fsys
  fwr_written :: "64 word"
  fwr_errored :: "64 word"
  fwr_lines :: "(string \<times> 'r) list"
  fwr_failed :: "'r list"
  fwr_handled :: "'r list"

record rot_env =
  re_now :: go_time
  re_mkdir :: bool
  re_open :: bool
  re_close :: bool

subsection \<open>The path pattern\<close>

definition getYear :: "go_time \<Rightarrow> int" where "getYear t = fst (t_Date t)"
definition getMonth :: "go_time \<Rightarrow> int" where "getMonth t = fst (snd (t_Date t))"
definition getDay :: "go_time \<Rightarrow> int" where "getDay t = snd (snd (t_Date t))"
definition getHour :: "go_time \<Rightarrow> int" where "getHour t = wall_clock t div (3600 * sec_nanos)"
definition getMin :: "go_time \<Rightarrow> int" where "getMin t = wall_clock t div (60 * sec_nanos) mod 60"

definition pathVariableTable :: "char \<rightharpoonup> (go_time \<Rightarrow> int)" where
  "pathVariableTable = [CHR ''Y'' \<mapsto> getYear, CHR ''M'' \<mapsto> getMonth, CHR ''D'' \<mapsto> getDay, CHR ''H'' \<mapsto> getHour, CHR ''m'' \<mapsto> getMin]"

text \<open>An action is kept as its letter; \<open>act\<close> looks it up again.\<close>

definition act :: "char \<Rightarrow> go_time \<Rightarrow> int" where
  "act c t = (case pathVariableTable c of None \<Rightarrow> 0 | Some f \<Rightarrow> f t)"

definition percent :: char where "percent = CHR ''%''"

text \<open>The loop of \<open>SetPathPattern\<close> over the bytes: the actions so far, and whether every letter was known.\<close>

fun pattern_actions :: "string \<Rightarrow> bool \<Rightarrow> char list \<Rightarrow> char list \<times> bool" where
  "pattern_actions [] var acts = (acts, True)"
| "pattern_actions (c # cs) var acts =
    (if var then (if pathVariableTable c = None then (acts, False) else pattern_actions cs False (acts @ [c]))
     else pattern_actions cs (c = percent) acts)"

text \<open>\<open>bytes.Replace\<close> of a two-byte sequence that starts with a percent sign.\<close>

fun replace_verb :: "char \<Rightarrow> string \<Rightarrow> string \<Rightarrow> string" where
  "replace_verb v by' (a # b # cs) = (if a = percent \<and> b = v then by' @ replace_verb v by' cs else a # replace_verb v by' (b # cs))"
| "replace_verb v by' cs = cs"

definition convertPatternToFmt :: "string \<Rightarrow> string" where
  "convertPatternToFmt pattern =
    (let p1 = replace_verb (CHR ''Y'') ''%d'' pattern; p2 = replace_verb (CHR ''M'') ''%02d'' p1;
         p3 = replace_verb (CHR ''D'') ''%02d'' p2; p4 = replace_verb (CHR ''H'') ''%02d'' p3
     in replace_verb (CHR ''m'') ''%02d'' p4)"

text \<open>The flag says whether the pattern was accepted.\<close>

definition SetPathPattern :: "string \<Rightarrow> 'r file_writer \<Rightarrow> bool \<times> 'r file_writer" where
  "SetPathPattern pattern w =
    (let n = length (filter (\<lambda>c. c = percent) pattern)
     in if n = 0 then (True, w\<lparr>fwr_pathFmt := pattern\<rparr>)
        else let (acts, ok) = pattern_actions pattern False [];
                 w1 = w\<lparr>fwr_actions := acts, fwr_variables := replicate n None\<rparr>
             in if ok then (True, w1\<lparr>fwr_pathFmt := convertPatternToFmt pattern\<rparr>) else (False, w1))"

text \<open>
  \<open>fmt.Sprintf\<close> on the formats that occur: \<open>%d\<close> and \<open>%02d\<close> with an \<open>int\<close> or nil, a percent sign at the end, and
  arguments left over.  A percent sign before anything else does not occur in a format that
  \<open>SetPathPattern\<close> accepts.
\<close>

definition pad02 :: "int \<Rightarrow> string" where
  "pad02 v = (if 0 \<le> v \<and> v < 10 then ''0'' @ Itoa v else Itoa v)"

definition sprintf_arg :: "(int \<Rightarrow> string) \<Rightarrow> int option list \<Rightarrow> string" where
  "sprintf_arg f vs = (case vs of [] \<Rightarrow> ''%!d(MISSING)'' | None # _ \<Rightarrow> ''%!d(<nil>)'' | Some v # _ \<Rightarrow> f v)"

fun extra_args :: "int option list \<Rightarrow> string" where
  "extra_args [] = []"
| "extra_args [v] = (case v of None \<Rightarrow> ''<nil>'' | Some x \<Rightarrow> ''int='' @ Itoa x)"
| "extra_args (v # vs) = extra_args [v] @ '', '' @ extra_args vs"

fun sprintf_path :: "string \<Rightarrow> int option list \<Rightarrow> string" where
  "sprintf_path [] vs = (if vs = [] then [] else ''%!(EXTRA '' @ extra_args vs @ '')'')"
| "sprintf_path (c # cs) vs =
    (if c \<noteq> percent then c # sprintf_path cs vs
     else if cs = [] then ''%!(NOVERB)'' @ sprintf_path [] vs
     else if take 1 cs = ''d'' then sprintf_arg Itoa vs @ sprintf_path (drop 1 cs) (drop 1 vs)
     else if take 3 cs = ''02d'' then sprintf_arg pad02 vs @ sprintf_path (drop 3 cs) (drop 1 vs)
     else c # sprintf_path cs vs)"

subsection \<open>Rotation\<close>

definition rot_due :: "'r file_writer \<Rightarrow> go_time \<Rightarrow> nat \<Rightarrow> int \<Rightarrow> bool" where
  "rot_due w now i v =
    (let last' = fwr_lastWriteTime w
     in if i = 2 then fwr_daily w \<and> v = getDay (t_AddDate 0 0 (fwr_maxDays w) last')
        else if i = 3 then fwr_hourly w \<and> v = getHour (t_Add (wrap64 (3600 * sec_nanos * fwr_maxHours w)) last')
        else if i = 4 then fwr_minutely w \<and> v = getMin (t_Add (wrap64 (60 * sec_nanos * fwr_maxMinutes w)) last')
        else False)"

text \<open>
  The loop over the actions: a variable that differs is taken over before the first file is open, and
  afterwards only at the positions 2, 3 and 4 and when it meets the configured distance.
\<close>

fun rot_scan :: "'r file_writer \<Rightarrow> go_time \<Rightarrow> nat \<Rightarrow> char list \<Rightarrow> int option list \<Rightarrow> bool \<times> int option list" where
  "rot_scan w now i [] vs = (False, vs)"
| "rot_scan w now i (c # cs) vs =
    (let v = act c now; take_over = (vs ! i \<noteq> Some v \<and> (\<not> fwr_initFileOk w \<or> rot_due w now i v));
         (rest, vs') = rot_scan w now (Suc i) cs (if take_over then vs[i := Some v] else vs)
     in (take_over \<or> rest, vs'))"

definition default_bufferSize :: nat where "default_bufferSize = 65536"

definition fwr_flushSync :: "'r file_writer \<Rightarrow> bool \<times> 'r file_writer" where
  "fwr_flushSync w =
    (case fwr_buf w of None \<Rightarrow> (True, w)
     | Some b \<Rightarrow> let (b', d') = bw_Flush (fy_write (fwr_opened w) (the (fwr_file w))) b (fwr_fs w)
         in (\<not> bw_err b', w\<lparr>fwr_buf := Some b', fwr_fs := d'\<rparr>))"

text \<open>
  \<open>rotateImpl\<close>; the flag is false when it returns an error.  Closing a file that is already closed is an
  error; a directory or a file that cannot be created leaves the closed file and its buffer in place.
\<close>

definition rotateImpl :: "rot_env \<Rightarrow> 'r file_writer \<Rightarrow> bool \<times> 'r file_writer" where
  "rotateImpl e w =
    (let now = re_now e; (rotate, vs) = rot_scan w now 0 (fwr_actions w) (fwr_variables w); w0 = w\<lparr>fwr_variables := vs\<rparr>
     in if \<not> rotate then (True, w0)
        else let w1 = w0\<lparr>fwr_initFileOk := True, fwr_lastWriteTime := now\<rparr>; (flushed, w2) = fwr_flushSync w1
             in if \<not> flushed then (False, w2)
                else if fwr_file w2 \<noteq> None \<and> \<not> fwr_opened w2 then (False, w2)
                else let w3 = (if fwr_file w2 = None then w2 else w2\<lparr>fwr_opened := False\<rparr>)
                     in if fwr_file w2 \<noteq> None \<and> \<not> re_close e then (False, w3)
                        else if \<not> re_mkdir e \<or> \<not> re_open e then (False, w3)
                        else let path = sprintf_path (fwr_pathFmt w3) vs
                             in (True, w3\<lparr>fwr_file := Some path, fwr_opened := True, fwr_buf := Some fresh_bufw,
                                          fwr_fs := fy_create path (fwr_fs w3)\<rparr>))"

definition buf_size :: "'r file_writer \<Rightarrow> nat" where
  "buf_size w = (if fwr_bufferSize w \<le> 0 then default_bufferSize else nat (fwr_bufferSize w))"

definition batch_size :: "'r file_writer \<Rightarrow> int" where
  "batch_size w = (if fwr_flushBatchSize w \<le> 0 then 1000 else fwr_flushBatchSize w)"

subsection \<open>Writing\<close>

text \<open>The write through \<open>bufio\<close> that \<open>writeSync\<close> and \<open>writeOne\<close> share: whether it succeeded.\<close>

definition buf_write :: "('r \<Rightarrow> bytes) \<Rightarrow> 'r \<Rightarrow> bufw \<Rightarrow> 'r file_writer \<Rightarrow> bool \<times> 'r file_writer" where
  "buf_write render r b w =
    (let (b', d') = bw_Write (fy_write (fwr_opened w) (the (fwr_file w))) (buf_size w) (render r) b (fwr_fs w);
         w1 = w\<lparr>fwr_buf := Some b', fwr_fs := d'\<rparr>
     in if bw_err b' then (False, w1)
        else (True, w1\<lparr>fwr_written := fwr_written w1 + 1, fwr_lines := fwr_lines w1 @ [(the (fwr_file w1), r)]\<rparr>))"

definition writeSync :: "('r \<Rightarrow> bytes) \<Rightarrow> 'r \<Rightarrow> 'r file_writer \<Rightarrow> bool \<times> 'r file_writer" where
  "writeSync render r w = (case fwr_buf w of None \<Rightarrow> (False, w) | Some b \<Rightarrow> buf_write render r b w)"

definition fwr_errors :: "'r \<Rightarrow> 'r file_writer \<Rightarrow> 'r file_writer" where
  "fwr_errors r w = w\<lparr>fwr_errored := fwr_errored w + 1, fwr_failed := fwr_failed w @ [r], fwr_handled := fwr_handled w @ [r]\<rparr>"

definition writeOne :: "('r \<Rightarrow> bytes) \<Rightarrow> rot_env \<Rightarrow> 'r \<Rightarrow> 'r file_writer \<Rightarrow> 'r file_writer" where
  "writeOne render e r w =
    (let now = gt_nanos (re_now e);
         w1 = (if sec_nanos \<le> now - fwr_lastRotateCheck w then snd (rotateImpl e (w\<lparr>fwr_lastRotateCheck := now\<rparr>)) else w)
     in case fwr_buf w1 of None \<Rightarrow> fwr_errors r w1
        | Some b \<Rightarrow> let (ok, w2) = buf_write render r b w1
            in if \<not> ok then fwr_errors r w2
               else let w3 = w2\<lparr>fwr_handled := fwr_handled w2 @ [r], fwr_batchSinceFlush := fwr_batchSinceFlush w2 + 1\<rparr>
                    in if batch_size w3 \<le> fwr_batchSinceFlush w3 then snd (fwr_flushSync (w3\<lparr>fwr_batchSinceFlush := 0\<rparr>)) else w3)"

text \<open>The daemon's work on a tick or a flush signal, besides the spilled records.\<close>

definition fwr_tick :: "rot_env \<Rightarrow> 'r file_writer \<Rightarrow> 'r file_writer" where
  "fwr_tick e w = snd (fwr_flushSync w)"

subsection \<open>Start, write and stop\<close>

definition NewFileWriter :: "int \<Rightarrow> int \<Rightarrow> fsys \<Rightarrow> 'r file_writer" where
  "NewFileWriter bufferSize flushBatchSize d =
    \<lparr>fwr_actions = [], fwr_variables = [], fwr_pathFmt = [], fwr_daily = False, fwr_hourly = False, fwr_minutely = False,
     fwr_maxDays = 0, fwr_maxHours = 0, fwr_maxMinutes = 0, fwr_initFileOk = False,
     fwr_lastWriteTime = \<lparr>gt_nanos = -62135596800 * sec_nanos, gt_loc = utc\<rparr>, fwr_lastRotateCheck = -62135596800 * sec_nanos,
     fwr_bufferSize = bufferSize, fwr_flushBatchSize = flushBatchSize, fwr_batchSinceFlush = 0, fwr_file = None, fwr_opened = False,
     fwr_buf = None, fwr_fs = d, fwr_written = 0, fwr_errored = 0, fwr_lines = [], fwr_failed = [], fwr_handled = []\<rparr>"

record fwr_options =
  fo_filename :: string
  fo_rotate :: bool
  fo_daily :: bool
  fo_hourly :: bool
  fo_minutely :: bool
  fo_maxDays :: int
  fo_maxHours :: int
  fo_maxMinutes :: int
  fo_bufferSize :: int
  fo_flushBatchSize :: int
  fo_async :: bool

definition NewFileWriterWithOptions :: "fwr_options \<Rightarrow> fsys \<Rightarrow> 'r file_writer" where
  "NewFileWriterWithOptions o' d =
    snd (SetPathPattern (fo_filename o')
      ((NewFileWriter (fo_bufferSize o') (fo_flushBatchSize o') d)\<lparr>fwr_daily := fo_daily o', fwr_hourly := fo_hourly o',
        fwr_minutely := fo_minutely o', fwr_maxDays := fo_maxDays o', fwr_maxHours := fo_maxHours o', fwr_maxMinutes := fo_maxMinutes o'\<rparr>))"

text \<open>\<open>Init\<close> up to the start of the daemon: the default distances and, in synchronous mode, the first rotation.\<close>

definition fwr_Init :: "fwr_options \<Rightarrow> rot_env \<Rightarrow> 'r file_writer \<Rightarrow> bool \<times> 'r file_writer" where
  "fwr_Init o' e w =
    (let w1 = (if fo_rotate o'
               then w\<lparr>fwr_maxDays := (if fwr_daily w \<and> fwr_maxDays w \<le> 0 then 60 else fwr_maxDays w),
                      fwr_maxHours := (if fwr_hourly w \<and> fwr_maxHours w \<le> 0 then 12 else fwr_maxHours w),
                      fwr_maxMinutes := (if fwr_minutely w \<and> fwr_maxMinutes w \<le> 0 then 1 else fwr_maxMinutes w)\<rparr>
               else w)
     in if fo_async o' then (True, w1) else rotateImpl e w1)"

text \<open>The channel and the store of \<open>startDaemon\<close>; a file store that cannot be created leaves the writer without one.\<close>

definition startDaemon :: "'r \<Rightarrow> ('r \<Rightarrow> bytes option) \<Rightarrow> (bytes \<Rightarrow> 'r option) \<Rightarrow> OverflowPolicy \<Rightarrow> int \<Rightarrow> spill_type \<Rightarrow> int \<Rightarrow> bool \<Rightarrow> os_env
    \<Rightarrow> int \<Rightarrow> bool \<Rightarrow> disk \<Rightarrow> 'r log_queue" where
  "startDaemon z enc dec policy asyncBufSize ty spillSize mkdir_ok env maxBytes has_dir d =
    (let q = new_queue policy (if asyncBufSize \<le> 0 then 4096 else nat asyncBufSize)
     in if policy \<noteq> OverflowSpill then q
        else case start_store z ty spillSize mkdir_ok env maxBytes has_dir d of
          None \<Rightarrow> q
        | Some s \<Rightarrow> let (out, s') = store_Drain z dec env s in lq_resume enc out (q\<lparr>lq_spiller := Some s'\<rparr>))"

text \<open>
  \<open>Write\<close>: the guards, then either path; the flag is false for an error of the synchronous path.  \<open>started\<close> says
  that the writer is asynchronous and its channel is there, which it is from \<open>Init\<close> to the end of \<open>Stop\<close>.
\<close>

definition fwr_Write :: "('r \<Rightarrow> bytes) \<Rightarrow> bool \<Rightarrow> int \<Rightarrow> int \<Rightarrow> bool \<Rightarrow> 'r \<Rightarrow> 'r log_queue \<times> 'r file_writer \<Rightarrow> bool \<times> 'r log_queue \<times> 'r file_writer" where
  "fwr_Write render paused level r_level started r = (\<lambda>(q, w).
    if paused \<or> level < r_level then (True, q, w)
    else if \<not> started then let (ok, w') = writeSync render r w in (ok, q, w')
    else (True, send_check r q, w))"

text \<open>
  The end of \<open>Stop\<close>, after the daemon has ended: the store is closed, the buffer flushed and the file closed.
\<close>

definition fwr_Stop_end :: "'r log_queue \<times> 'r file_writer \<Rightarrow> 'r log_queue \<times> 'r file_writer" where
  "fwr_Stop_end = (\<lambda>(q, w). (q\<lparr>lq_spiller := map_option store_Close (lq_spiller q)\<rparr>, (snd (fwr_flushSync w))\<lparr>fwr_opened := False\<rparr>))"

definition CrashLossBound :: "bool \<Rightarrow> 'r file_writer \<Rightarrow> int \<times> int" where
  "CrashLossBound async w = (if \<not> async then (0, 0) else (batch_size w, int (buf_size w)))"

subsection \<open>What the operations leave alone\<close>

definition fy_grows :: "string \<Rightarrow> fsys \<Rightarrow> bytes \<Rightarrow> fsys \<Rightarrow> bool" where
  "fy_grows path d b d' \<longleftrightarrow> fy_files d' = (fy_files d)(path := map_option (\<lambda>l. l @ b) (fy_files d path))
    \<and> (fy_room d = None \<longrightarrow> fy_room d' = None)"

interpretation ff: byte_sink "fy_write opened path" "fy_grows path" "\<lambda>d. opened \<and> fy_room d = None"
proof
  fix p d n d'
  assume "fy_write opened path p d = (n, d')"
  then show "fy_grows path d (take n p) d' \<and> n \<le> length p" "opened \<and> fy_room d = None \<Longrightarrow> n = length p \<and> opened \<and> fy_room d' = None"
    by (auto simp: fy_write_def fy_grows_def Let_def option.map_ident split: if_splits option.splits)
next
  fix d b d' c d''
  assume "fy_grows path d b d'" "fy_grows path d' c d''"
  then show "fy_grows path d (b @ c) d''" by (cases "fy_files d path") (auto simp: fy_grows_def)
qed (simp add: fy_grows_def option.map_ident)

text \<open>The counters, the ghosts and the configuration.\<close>

definition fwr_log :: "'r file_writer \<Rightarrow> 'r list \<times> (string \<times> 'r) list \<times> 'r list \<times> 64 word \<times> 64 word \<times> int \<times> int \<times> int" where
  "fwr_log w = (fwr_handled w, fwr_lines w, fwr_failed w, fwr_written w, fwr_errored w, fwr_bufferSize w, fwr_flushBatchSize w, fwr_batchSinceFlush w)"

lemma log_flush: "fwr_log (snd (fwr_flushSync w)) = fwr_log w"
  by (auto simp: fwr_flushSync_def fwr_log_def split: option.splits prod.splits)

lemma rotate_cases:
  obtains (keep) vs where "rotateImpl e w = (True, w\<lparr>fwr_variables := vs\<rparr>)"
    | (flush) vs w2 where "fwr_flushSync (w\<lparr>fwr_variables := vs, fwr_initFileOk := True, fwr_lastWriteTime := re_now e\<rparr>) = (False, w2)"
        "rotateImpl e w = (False, w2)"
    | (closed) vs w2 where "fwr_flushSync (w\<lparr>fwr_variables := vs, fwr_initFileOk := True, fwr_lastWriteTime := re_now e\<rparr>) = (True, w2)"
        "fwr_file w2 \<noteq> None" "\<not> fwr_opened w2" "rotateImpl e w = (False, w2)"
    | (stuck) vs w2 where "fwr_flushSync (w\<lparr>fwr_variables := vs, fwr_initFileOk := True, fwr_lastWriteTime := re_now e\<rparr>) = (True, w2)"
        "\<not> (re_close e \<and> re_mkdir e \<and> re_open e)"
        "rotateImpl e w = (False, if fwr_file w2 = None then w2 else w2\<lparr>fwr_opened := False\<rparr>)"
    | (opens) vs w2 path where "fwr_flushSync (w\<lparr>fwr_variables := vs, fwr_initFileOk := True, fwr_lastWriteTime := re_now e\<rparr>) = (True, w2)"
        "fwr_file w2 = None \<or> fwr_opened w2" "path = sprintf_path (fwr_pathFmt w2) vs"
        "rotateImpl e w = (True, w2\<lparr>fwr_opened := True, fwr_file := Some path, fwr_buf := Some fresh_bufw, fwr_fs := fy_create path (fwr_fs w2)\<rparr>)"
proof -
  obtain r vs where sc: "rot_scan w (re_now e) 0 (fwr_actions w) (fwr_variables w) = (r, vs)" by (cases "rot_scan w (re_now e) 0 (fwr_actions w) (fwr_variables w)")
  obtain ok w2 where fl: "fwr_flushSync (w\<lparr>fwr_variables := vs, fwr_initFileOk := True, fwr_lastWriteTime := re_now e\<rparr>) = (ok, w2)"
    by (cases "fwr_flushSync (w\<lparr>fwr_variables := vs, fwr_initFileOk := True, fwr_lastWriteTime := re_now e\<rparr>)")
  show thesis
  proof (cases r)
    case False
    then show thesis using keep [of vs] sc by (simp add: rotateImpl_def)
  next
    case r: True
    show thesis
    proof (cases ok)
      case False
      then show thesis using flush [of vs w2] sc fl r by (simp add: rotateImpl_def)
    next
      case True
      have fl: "fwr_flushSync (w\<lparr>fwr_variables := vs, fwr_initFileOk := True, fwr_lastWriteTime := re_now e\<rparr>) = (True, w2)" using fl True by simp
      show thesis
      proof (cases "fwr_file w2 \<noteq> None \<and> \<not> fwr_opened w2")
        case True
        then show thesis using closed [of vs w2] sc fl r by (simp add: rotateImpl_def)
      next
        case nc: False
        show thesis
        proof (cases "(fwr_file w2 \<noteq> None \<and> \<not> re_close e) \<or> \<not> re_mkdir e \<or> \<not> re_open e")
          case True
          then show thesis using nc by (intro stuck [of vs w2] fl) (auto simp: rotateImpl_def sc fl r Let_def)
        next
          case False
          then show thesis using nc
            by (intro opens [of vs w2 "sprintf_path (fwr_pathFmt w2) vs"] fl) (auto simp: rotateImpl_def sc fl r Let_def)
        qed
      qed
    qed
  qed
qed

lemma log_same: "fwr_log (w\<lparr>fwr_variables := vs, fwr_initFileOk := i, fwr_lastWriteTime := t\<rparr>) = fwr_log w"
  by (simp add: fwr_log_def)

lemma log_rotate: "fwr_log (snd (rotateImpl e w)) = fwr_log w"
proof -
  have f: "fwr_log w2 = fwr_log w" if "fwr_flushSync (w\<lparr>fwr_variables := vs, fwr_initFileOk := True, fwr_lastWriteTime := re_now e\<rparr>) = (ok, w2)" for ok vs w2
    using log_flush [of "w\<lparr>fwr_variables := vs, fwr_initFileOk := True, fwr_lastWriteTime := re_now e\<rparr>"] that by (simp add: log_same)
  show ?thesis by (cases rule: rotate_cases [of e w]) (auto dest!: f simp: fwr_log_def)
qed

lemma log_write:
  assumes "buf_write render r b w = (ok, w')"
  shows "fwr_log w' = (if ok then fwr_log (w\<lparr>fwr_written := fwr_written w + 1, fwr_lines := fwr_lines w @ [(the (fwr_file w), r)]\<rparr>) else fwr_log w)"
  using assms by (auto simp: buf_write_def fwr_log_def Let_def split: prod.splits if_splits)

text \<open>The state after the throttled rotation of \<open>writeOne\<close>.\<close>

definition fwr_checked :: "rot_env \<Rightarrow> 'r file_writer \<Rightarrow> 'r file_writer" where
  "fwr_checked e w = (if sec_nanos \<le> gt_nanos (re_now e) - fwr_lastRotateCheck w
    then snd (rotateImpl e (w\<lparr>fwr_lastRotateCheck := gt_nanos (re_now e)\<rparr>)) else w)"

lemma log_checked: "fwr_log (fwr_checked e w) = fwr_log w"
  using log_rotate [of e "w\<lparr>fwr_lastRotateCheck := gt_nanos (re_now e)\<rparr>"] by (simp add: fwr_checked_def fwr_log_def)

definition fwr_wrote :: "'r \<Rightarrow> 'r file_writer \<Rightarrow> 'r file_writer" where
  "fwr_wrote r w = (let w3 = w\<lparr>fwr_handled := fwr_handled w @ [r], fwr_batchSinceFlush := fwr_batchSinceFlush w + 1\<rparr>
    in if batch_size w3 \<le> fwr_batchSinceFlush w3 then snd (fwr_flushSync (w3\<lparr>fwr_batchSinceFlush := 0\<rparr>)) else w3)"

lemma writeOne_eq:
  "writeOne render e r w = (case fwr_buf (fwr_checked e w) of None \<Rightarrow> fwr_errors r (fwr_checked e w)
    | Some b \<Rightarrow> let (ok, w2) = buf_write render r b (fwr_checked e w) in if ok then fwr_wrote r w2 else fwr_errors r w2)"
  unfolding writeOne_def fwr_checked_def fwr_wrote_def Let_def by (auto split: option.splits prod.splits)

lemma log_wrote:
  "fwr_log (fwr_wrote r w) = fwr_log (w\<lparr>fwr_handled := fwr_handled w @ [r],
    fwr_batchSinceFlush := (if batch_size w \<le> fwr_batchSinceFlush w + 1 then 0 else fwr_batchSinceFlush w + 1)\<rparr>)"
proof -
  let ?w = "w\<lparr>fwr_handled := fwr_handled w @ [r], fwr_batchSinceFlush := 0\<rparr>"
  have "fwr_log (snd (fwr_flushSync ?w)) = fwr_log ?w" by (rule log_flush)
  then show ?thesis by (simp add: fwr_wrote_def Let_def batch_size_def fwr_log_def)
qed

text \<open>Every record handled is either a line of a file or counted as an error.\<close>

definition fwr_acc :: "'r file_writer \<Rightarrow> bool" where
  "fwr_acc w \<longleftrightarrow> mset (fwr_handled w) = mset (map snd (fwr_lines w)) + mset (fwr_failed w)
    \<and> fwr_written w = word_of_nat (length (fwr_lines w)) \<and> fwr_errored w = word_of_nat (length (fwr_failed w))"

lemma fwr_acc_log: "fwr_log w = fwr_log w' \<Longrightarrow> fwr_acc w = fwr_acc w'"
  by (simp add: fwr_acc_def fwr_log_def)

lemma log_fields:
  assumes "fwr_log w = fwr_log w'"
  shows "fwr_handled w = fwr_handled w'" "fwr_lines w = fwr_lines w'" "fwr_failed w = fwr_failed w'" "fwr_written w = fwr_written w'"
    "fwr_errored w = fwr_errored w'" "fwr_bufferSize w = fwr_bufferSize w'" "fwr_flushBatchSize w = fwr_flushBatchSize w'"
    "fwr_batchSinceFlush w = fwr_batchSinceFlush w'"
  using assms by (simp_all add: fwr_log_def)

lemma writeOne_acc:
  "fwr_handled (writeOne render e r w) = fwr_handled w @ [r]" "fwr_acc w \<Longrightarrow> fwr_acc (writeOne render e r w)"
proof -
  let ?w1 = "fwr_checked e w"
  note l = log_fields [OF log_checked [of e w]]
  have "fwr_handled (writeOne render e r w) = fwr_handled w @ [r] \<and> (fwr_acc w \<longrightarrow> fwr_acc (writeOne render e r w))"
  proof (cases "fwr_buf ?w1")
    case None
    then show ?thesis using l by (simp add: writeOne_eq fwr_errors_def fwr_acc_def)
  next
    case (Some b)
    obtain ok w2 where b: "buf_write render r b ?w1 = (ok, w2)" by (cases "buf_write render r b ?w1")
    note lw = log_write [OF b] and lo = log_fields [OF log_wrote [of r w2]]
    show ?thesis
      using lw lo l Some b by (cases ok) (auto simp: writeOne_eq fwr_errors_def fwr_acc_def fwr_log_def)
  qed
  then show "fwr_handled (writeOne render e r w) = fwr_handled w @ [r]" "fwr_acc w \<Longrightarrow> fwr_acc (writeOne render e r w)" by simp_all
qed

interpretation fwc: log_consumer "writeOne render" fwr_tick fwr_handled
proof
  show "fwr_handled (writeOne render e r s) = fwr_handled s @ [r]" for e r and s :: "'a file_writer" by (rule writeOne_acc(1))
  show "fwr_handled (fwr_tick e s) = fwr_handled s" for e and s :: "'a file_writer"
    using log_fields(1) [OF log_flush [of s]] by (simp add: fwr_tick_def)
qed

subsection \<open>What the files hold\<close>

definition content :: "string \<Rightarrow> fsys \<Rightarrow> bytes" where
  "content p d = (case fy_files d p of None \<Rightarrow> [] | Some l \<Rightarrow> l)"

definition unflushed :: "'r file_writer \<Rightarrow> bytes" where
  "unflushed w = (case fwr_buf w of None \<Rightarrow> [] | Some b \<Rightarrow> bw_buf b)"

definition file_text :: "('r \<Rightarrow> bytes) \<Rightarrow> string \<Rightarrow> (string \<times> 'r) list \<Rightarrow> bytes" where
  "file_text render p ls = concat (map (render \<circ> snd) (filter (\<lambda>l. fst l = p) ls))"

definition last_lines :: "('r \<Rightarrow> bytes) \<Rightarrow> nat \<Rightarrow> (string \<times> 'r) list \<Rightarrow> bytes" where
  "last_lines render k ls = concat (map (render \<circ> snd) (drop (length ls - k) ls))"

definition fwr_inv :: "('r \<Rightarrow> bytes) \<Rightarrow> fsys \<Rightarrow> 'r file_writer \<Rightarrow> bool" where
  "fwr_inv render d0 w \<longleftrightarrow> fy_room (fwr_fs w) = None
    \<and> (case fwr_buf w of None \<Rightarrow> fwr_file w = None
       | Some b \<Rightarrow> (\<exists>p. fwr_file w = Some p \<and> fy_files (fwr_fs w) p \<noteq> None) \<and> fwr_opened w \<and> \<not> bw_err b \<and> length (bw_buf b) \<le> buf_size w)
    \<and> (\<forall>p. content p (fwr_fs w) @ (if fwr_file w = Some p then unflushed w else []) = content p d0 @ file_text render p (fwr_lines w))
    \<and> 0 \<le> fwr_batchSinceFlush w \<and> fwr_batchSinceFlush w < batch_size w
    \<and> suffix (unflushed w) (last_lines render (nat (fwr_batchSinceFlush w)) (fwr_lines w))"

lemma inv_content:
  "fwr_inv render d0 w \<Longrightarrow> content q (fwr_fs w) @ (if fwr_file w = Some q then unflushed w else []) = content q d0 @ file_text render q (fwr_lines w)"
  by (simp add: fwr_inv_def)

lemma fwr_invI:
  assumes "fy_room (fwr_fs w) = None" "fwr_buf w = Some b" "fwr_file w = Some p" "fy_files (fwr_fs w) p \<noteq> None" "fwr_opened w" "\<not> bw_err b"
    "length (bw_buf b) \<le> buf_size w" "\<And>q. content q (fwr_fs w) @ (if p = q then bw_buf b else []) = content q d0 @ file_text render q (fwr_lines w)"
    "0 \<le> fwr_batchSinceFlush w" "fwr_batchSinceFlush w < batch_size w" "suffix (bw_buf b) (last_lines render (nat (fwr_batchSinceFlush w)) (fwr_lines w))"
  shows "fwr_inv render d0 w"
  unfolding fwr_inv_def unflushed_def assms(2) option.case using assms by (simp del: append_Nil2)

lemma content_grows:
  assumes "fy_grows q d b d'" "fy_files d q \<noteq> None"
  shows "content p d' = content p d @ (if p = q then b else [])" "fy_files d' q \<noteq> None"
  using assms by (auto simp: fy_grows_def content_def split: option.splits)

lemma content_create [simp]: "content p (fy_create q d) = content p d" "fy_files (fy_create q d) q \<noteq> None" "fy_room (fy_create q d) = fy_room d"
  by (auto simp: fy_create_def content_def split: option.splits)

lemma flush_inv:
  assumes "fwr_inv render d0 w" "fwr_flushSync w = (ok, w')"
  shows "fwr_inv render d0 w' \<and> ok \<and> unflushed w' = [] \<and> fwr_file w' = fwr_file w \<and> fwr_opened w' = fwr_opened w \<and> fwr_pathFmt w' = fwr_pathFmt w"
proof (cases "fwr_buf w")
  case None
  then show ?thesis using assms by (auto simp: fwr_flushSync_def unflushed_def)
next
  case (Some b)
  then obtain p where p: "fwr_file w = Some p" "fy_files (fwr_fs w) p \<noteq> None" "fwr_opened w" "\<not> bw_err b" "fy_room (fwr_fs w) = None"
    using assms(1) by (auto simp: fwr_inv_def)
  obtain b' d' where f: "bw_Flush (fy_write (fwr_opened w) p) b (fwr_fs w) = (b', d')" by (cases "bw_Flush (fy_write (fwr_opened w) p) b (fwr_fs w)")
  obtain out where o: "fy_grows p (fwr_fs w) out d'" "out @ bw_buf b' = bw_buf b" "\<not> bw_err b'" "bw_buf b' = []" "fy_room d' = None"
    using ff.flush_spec [OF f p(4)] p(3,5) by auto
  have w': "w' = w\<lparr>fwr_buf := Some b', fwr_fs := d'\<rparr>" "ok" using assms(2) Some p(1) f o(3) by (auto simp: fwr_flushSync_def)
  note c = content_grows [OF o(1) p(2)]
  have "content q (fwr_fs w) @ (if p = q then bw_buf b else []) = content q d0 @ file_text render q (fwr_lines w)" for q
    using inv_content [OF assms(1), of q] Some p(1) by (simp add: unflushed_def split: if_splits)
  then have "content q d' = content q d0 @ file_text render q (fwr_lines w)" for q
    using c(1) [of q] o(2,4) by (metis append_Nil2)
  moreover have "0 \<le> fwr_batchSinceFlush w" "fwr_batchSinceFlush w < batch_size w" using assms(1) by (simp_all add: fwr_inv_def)
  ultimately show ?thesis using Some p o c(2) w'(2) unfolding w'(1) by (simp add: fwr_inv_def unflushed_def batch_size_def split: if_splits)
qed

text \<open>With system calls that succeed, rotation closes a file only after its buffer is flushed.\<close>

definition env_ok :: "rot_env \<Rightarrow> bool" where
  "env_ok e \<longleftrightarrow> re_mkdir e \<and> re_open e \<and> re_close e"

lemma inv_same:
  assumes "fwr_inv render d0 w" "fwr_fs w' = fwr_fs w" "fwr_buf w' = fwr_buf w" "fwr_file w' = fwr_file w" "fwr_opened w' = fwr_opened w"
    "fwr_lines w' = fwr_lines w" "fwr_batchSinceFlush w' = fwr_batchSinceFlush w" "fwr_bufferSize w' = fwr_bufferSize w" "fwr_flushBatchSize w' = fwr_flushBatchSize w"
  shows "fwr_inv render d0 w'"
  using assms(1) unfolding fwr_inv_def unflushed_def buf_size_def batch_size_def assms(2-) .

lemma rotate_inv:
  assumes "fwr_inv render d0 w" "env_ok e"
  shows "fwr_inv render d0 (snd (rotateImpl e w))"
proof -
  have fl: "fwr_inv render d0 w2 \<and> ok \<and> unflushed w2 = [] \<and> fwr_file w2 = fwr_file w \<and> fwr_opened w2 = fwr_opened w"
    if "fwr_flushSync (w\<lparr>fwr_variables := vs, fwr_initFileOk := True, fwr_lastWriteTime := re_now e\<rparr>) = (ok, w2)" for ok vs w2
    using flush_inv [OF inv_same [OF assms(1)] that, simplified] by simp
  show ?thesis
  proof (cases rule: rotate_cases [of e w])
    case (keep vs)
    then show ?thesis using inv_same [OF assms(1), of "w\<lparr>fwr_variables := vs\<rparr>"] by simp
  next
    case (flush vs w2)
    with fl [OF flush(1)] show ?thesis by simp
  next
    case (closed vs w2)
    with fl [OF closed(1)] assms(1) show ?thesis by (auto simp: fwr_inv_def split: option.splits)
  next
    case (stuck vs w2)
    with assms(2) show ?thesis by (simp add: env_ok_def)
  next
    case (opens vs w2 path)
    note f = fl [OF opens(1)]
    have "content q (fwr_fs w2) = content q d0 @ file_text render q (fwr_lines w2)" for q
      using inv_content [of render d0 w2 q] f by (simp split: if_splits)
    moreover have "0 \<le> fwr_batchSinceFlush w2" "fwr_batchSinceFlush w2 < batch_size w2" "fy_room (fwr_fs w2) = None" using f by (simp_all add: fwr_inv_def)
    moreover obtain y where "fy_files (fy_create path (fwr_fs w2)) path = Some y" using content_create(2) by blast
    ultimately show ?thesis unfolding opens(4) by (simp add: fwr_inv_def unflushed_def fresh_bufw_def batch_size_def split: if_splits)
  qed
qed

lemma file_text_append: "file_text render p (ls @ [(q, r)]) = file_text render p ls @ (if p = q then render r else [])"
  by (simp add: file_text_def)

lemma last_lines_append: "last_lines render (Suc k) (ls @ [l]) = last_lines render k ls @ render (snd l)"
  by (simp add: last_lines_def)

lemma suffix_rest: "out @ rest = xs @ ys \<Longrightarrow> suffix xs zs \<Longrightarrow> suffix rest (zs @ ys)"
  by (auto simp: suffix_def) (metis append_assoc)

text \<open>A write puts the line behind what the file and the buffer hold together.\<close>

lemma write_inv:
  assumes "fwr_inv render d0 w" "fwr_buf w = Some b" "buf_write render r b w = (ok, w')"
  shows "ok \<and> fwr_inv render d0 (fwr_wrote r w')"
proof -
  obtain p where p: "fwr_file w = Some p" "fy_files (fwr_fs w) p \<noteq> None" "fwr_opened w" "\<not> bw_err b" "fy_room (fwr_fs w) = None"
      "length (bw_buf b) \<le> buf_size w"
    using assms(1,2) by (auto simp: fwr_inv_def)
  have bt: "0 \<le> fwr_batchSinceFlush w" "fwr_batchSinceFlush w < batch_size w" "suffix (bw_buf b) (last_lines render (nat (fwr_batchSinceFlush w)) (fwr_lines w))"
    using assms(1,2) by (simp_all add: fwr_inv_def unflushed_def)
  let ?W = "bw_Write (fy_write (fwr_opened w) p) (buf_size w) (render r) b (fwr_fs w)"
  obtain b' d' where f: "?W = (b', d')" by (cases ?W)
  obtain out where o: "fy_grows p (fwr_fs w) out d'" "length (bw_buf b') \<le> buf_size w" "out @ bw_buf b' = bw_buf b @ render r" "\<not> bw_err b'" "fy_room d' = None"
    using ff.write_spec [OF f p(4,6)] p(3,5) by auto
  note c = content_grows [OF o(1) p(2)]
  let ?k = "fwr_batchSinceFlush w + 1"
  define w3 where "w3 x = w\<lparr>fwr_buf := Some b', fwr_fs := d', fwr_written := fwr_written w + 1, fwr_lines := fwr_lines w @ [(p, r)],
    fwr_handled := fwr_handled w @ [r], fwr_batchSinceFlush := x\<rparr>" for x
  have w': "w' = w\<lparr>fwr_buf := Some b', fwr_fs := d', fwr_written := fwr_written w + 1, fwr_lines := fwr_lines w @ [(p, r)]\<rparr>" "ok"
    using assms(3) f o(4) p(1) by (simp_all add: buf_write_def)
  have cont: "content q d' @ (if p = q then bw_buf b' else []) = content q d0 @ file_text render q (fwr_lines w @ [(p, r)])" for q
    using c(1) [of q] o(3) inv_content [OF assms(1), of q] p(1) assms(2) by (auto simp: file_text_append unflushed_def split: if_splits)
  have suf: "suffix (bw_buf b') (last_lines render (nat ?k) (fwr_lines w @ [(p, r)]))"
    using suffix_rest [OF o(3) bt(3)] bt(1) by (simp add: last_lines_append Suc_nat_eq_nat_zadd1 [symmetric] add.commute)
  have wrote: "fwr_wrote r w' = (if batch_size w \<le> ?k then snd (fwr_flushSync (w3 0)) else w3 ?k)"
    by (simp add: fwr_wrote_def Let_def w'(1) w3_def batch_size_def)
  have pos: "0 < batch_size w" using bt by simp
  have sz: "buf_size (w3 x) = buf_size w" "batch_size (w3 x) = batch_size w" for x by (simp_all add: w3_def buf_size_def batch_size_def)
  have keep: "fwr_inv render d0 (w3 x)" if "x = ?k" "x < batch_size w" for x
  proof (rule fwr_invI [where b = b' and p = p])
    show "length (bw_buf b') \<le> buf_size (w3 x)" using o(2) unfolding sz .
    show "fwr_batchSinceFlush (w3 x) < batch_size (w3 x)" using that(2) unfolding sz by (simp add: w3_def)
  qed (use that bt(1) o p c(2) cont suf in \<open>simp_all add: w3_def del: append_Nil2\<close>)
  show ?thesis
  proof (cases "batch_size w \<le> ?k")
    case False
    then show ?thesis using keep [of ?k] w'(2) wrote by simp
  next
    case True
    obtain ok2 w4 where fl: "fwr_flushSync (w3 0) = (ok2, w4)" by (cases "fwr_flushSync (w3 0)")
    obtain b2 d2 where f2: "bw_Flush (fy_write (fwr_opened w) p) b' d' = (b2, d2)" by (cases "bw_Flush (fy_write (fwr_opened w) p) b' d'")
    obtain o2 where o2: "fy_grows p d' o2 d2" "o2 = bw_buf b'" "\<not> bw_err b2" "bw_buf b2 = []" "fy_room d2 = None"
      using ff.flush_spec [OF f2 o(4)] p(3) o(5) by auto
    note c2 = content_grows [OF o2(1) c(2)]
    have "content q d2 = content q d0 @ file_text render q (fwr_lines w @ [(p, r)])" for q
      using c2(1) [of q] cont [of q] o2(2) by (auto split: if_splits)
    moreover have "w4 = (w3 0)\<lparr>fwr_buf := Some b2, fwr_fs := d2\<rparr>" using fl f2 p(1) by (simp add: w3_def fwr_flushSync_def)
    moreover have "fwr_wrote r w' = w4" using True fl wrote by simp
    ultimately show ?thesis using w'(2) o2 c2(2) p pos by (auto simp: w3_def fwr_inv_def unflushed_def batch_size_def)
  qed
qed

lemma writeOne_inv:
  assumes "fwr_inv render d0 w" "env_ok e"
  shows "fwr_inv render d0 (writeOne render e r w)"
proof -
  have i: "fwr_inv render d0 (fwr_checked e w)"
    using rotate_inv [OF inv_same [OF assms(1)] assms(2), of "w\<lparr>fwr_lastRotateCheck := gt_nanos (re_now e)\<rparr>"] assms(1)
    by (simp add: fwr_checked_def)
  show ?thesis
  proof (cases "fwr_buf (fwr_checked e w)")
    case None
    then show ?thesis using inv_same [OF i, of "fwr_errors r (fwr_checked e w)"] by (simp add: writeOne_eq fwr_errors_def)
  next
    case (Some b)
    obtain ok w2 where b: "buf_write render r b (fwr_checked e w) = (ok, w2)" by (cases "buf_write render r b (fwr_checked e w)")
    from write_inv [OF i Some b] show ?thesis using Some b by (simp add: writeOne_eq)
  qed
qed

lemma tick_inv: "fwr_inv render d0 w \<Longrightarrow> fwr_inv render d0 (fwr_tick e w)"
  using flush_inv [of render d0 w] by (cases "fwr_flushSync w") (auto simp: fwr_tick_def)

lemma new_log:
  "fwr_log (NewFileWriterWithOptions o' d) = ([], [], [], 0, 0, fo_bufferSize o', fo_flushBatchSize o', 0)"
  "fwr_fs (NewFileWriterWithOptions o' d) = d" "fwr_buf (NewFileWriterWithOptions o' d) = None" "fwr_file (NewFileWriterWithOptions o' d) = None"
  by (simp_all add: NewFileWriterWithOptions_def SetPathPattern_def NewFileWriter_def fwr_log_def Let_def split: prod.splits)

lemma init_inv:
  assumes "fo_async o'" "fwr_Init o' e (NewFileWriterWithOptions o' d) = (ok, w)" "fy_room d = None"
  shows "fwr_inv render d w" "fwr_acc w" "fwr_handled w = []"
proof -
  let ?w = "NewFileWriterWithOptions o' d"
  note n = new_log [of o' d]
  have s: "fwr_log w = fwr_log ?w" "fwr_fs w = d" "fwr_buf w = None" "fwr_file w = None"
    using assms(1,2) n by (auto simp: fwr_Init_def fwr_log_def Let_def split: if_splits)
  have "fwr_handled w = []" "fwr_lines w = []" "fwr_failed w = []" "fwr_written w = 0" "fwr_errored w = 0" "fwr_batchSinceFlush w = 0"
    using s(1) unfolding n(1) by (simp_all add: fwr_log_def)
  then show "fwr_inv render d w" "fwr_acc w" "fwr_handled w = []"
    using s(2-4) assms(3) by (simp_all add: fwr_inv_def fwr_acc_def unflushed_def file_text_def last_lines_def batch_size_def)
qed

lemma start_fit:
  assumes "codec_ok enc dec" "mb < 2 ^ 32" "dk_log d = None" "dk_room d = None"
    and q_def: "q = startDaemon z enc dec policy asyncBufSize ty spillSize True os_fine mb True d"
  shows "lq_fit enc dec q" "lq_books dec q = {#}" "lq_messages q = []" "lq_entered q = []"
proof -
  let ?q = "new_queue policy (if asyncBufSize \<le> 0 then 4096 else nat asyncBufSize)"
  have n: "lq_fit enc dec ?q" "lq_books dec ?q = {#}" by (simp_all add: lq_fit_def lq_books_def lq_stored_def new_queue_def)
  have e: "q = ?q \<or> (\<exists>s. sx_ok enc dec s \<and> st_items dec s = [] \<and> q = ?q\<lparr>lq_spiller := Some s\<rparr>)"
  proof (cases "policy = OverflowSpill \<and> start_store z ty spillSize True os_fine mb True d \<noteq> None")
    case True
    then obtain s where s: "start_store z ty spillSize True os_fine mb True d = Some s" by blast
    have "sx_ok enc dec s \<and> st_items dec s = []"
    proof (cases ty)
      case SpillRing
      then show ?thesis using s rs_wf_New [of z spillSize] by (auto simp: start_store_def sx_ok_def st_items_def)
    next
      case SpillFile
      then have "\<exists>f d. s = (FileStore f, d)" using s by (auto simp: start_store_def)
      then show ?thesis using start_store_ok [OF s _ assms(1-4)] SpillFile by (auto simp: sx_ok_def)
    next
      case SpillChain
      have "\<exists>g d'. NewFileSpiller True os_fine mb d = Some (g, d')" by (auto simp: NewFileSpiller_def sp_open_def os_fine_def Let_def)
      then have "\<exists>c d. s = (ChainStore c, d)" using s SpillChain by (auto simp: start_store_def)
      then show ?thesis using start_store_ok [OF s _ assms(1-4)] SpillChain by (auto simp: sx_ok_def)
    qed
    moreover obtain out s' where d: "store_Drain z dec os_fine s = (out, s')" by (cases "store_Drain z dec os_fine s")
    ultimately have "out = []" "sx_ok enc dec s'" "st_items dec s' = []" using sx.drain_books [of enc dec s z out s'] by auto
    then have "q = ?q\<lparr>lq_spiller := Some s'\<rparr>" using True s d by (simp add: q_def startDaemon_def Let_def)
    then show ?thesis using \<open>sx_ok enc dec s'\<close> \<open>st_items dec s' = []\<close> by blast
  next
    case False
    then have "q = ?q" unfolding q_def startDaemon_def Let_def by (cases "start_store z ty spillSize True os_fine mb True d") auto
    then show ?thesis by simp
  qed
  then show "lq_fit enc dec q" "lq_books dec q = {#}" "lq_messages q = []" "lq_entered q = []"
    using n by (auto simp: lq_fit_def lq_books_def lq_stored_def new_queue_def)
qed

subsection \<open>Theorems\<close>

text \<open>A configuration and an environment of successful system calls, for concrete runs.\<close>

definition sample_options :: fwr_options where
  "sample_options = \<lparr>fo_filename = ''app-%Y.log'', fo_rotate = True, fo_daily = False, fo_hourly = False, fo_minutely = False, fo_maxDays = 0,
    fo_maxHours = 0, fo_maxMinutes = 0, fo_bufferSize = 0, fo_flushBatchSize = 0, fo_async = True\<rparr>"

definition sample_env :: rot_env where
  "sample_env = \<lparr>re_now = \<lparr>gt_nanos = 0, gt_loc = utc\<rparr>, re_mkdir = True, re_open = True, re_close = True\<rparr>"


text \<open>
  C25. When the system calls succeed and the device has room, nothing written is lost or reordered across
  rotations: at every moment each file holds what it held at the start followed by the lines written under
  its path, in their order, where the bytes still in the buffer are the end of the file that is open; and
  those bytes belong to the last records, fewer than the bound that \<open>CrashLossBound\<close> reports, and to at most
  as many bytes as it reports.
\<close>

theorem file_holds_lines:
  assumes "fo_async opts" "fwr_Init opts e0 (NewFileWriterWithOptions opts d0) = (ok, w)" "fy_room d0 = None"
    and "lq_run z enc dec (writeOne render) fwr_tick evs (q, w) = Some (q', w')"
    and "\<forall>ev\<in>set evs. \<forall>e\<in>uses ev. env_ok e"
  shows "(\<forall>p. content p (fwr_fs w') @ (if fwr_file w' = Some p then unflushed w' else []) = content p d0 @ file_text render p (fwr_lines w'))
    \<and> (\<exists>k. int k < fst (CrashLossBound True w') \<and> suffix (unflushed w') (last_lines render k (fwr_lines w')))
    \<and> int (length (unflushed w')) \<le> snd (CrashLossBound True w')"
proof -
  have i: "fwr_inv render d0 w'"
    by (rule run_inv [where E = "{e. env_ok e}" and I = "fwr_inv render d0", OF _ _ assms(4)])
      (use init_inv(1) [OF assms(1-3)] assms(5) in \<open>auto intro: writeOne_inv tick_inv\<close>)
  have "int (nat (fwr_batchSinceFlush w')) < batch_size w'" "suffix (unflushed w') (last_lines render (nat (fwr_batchSinceFlush w')) (fwr_lines w'))"
    using i by (simp_all add: fwr_inv_def)
  moreover have "length (unflushed w') \<le> buf_size w'" using i by (auto simp: fwr_inv_def unflushed_def split: option.splits)
  ultimately show ?thesis using inv_content [OF i] unfolding CrashLossBound_def by (simp del: append_Nil2 of_nat_nat int_nat_eq) blast
qed


theorem file_holds_lines_witness:
  "\<exists>q' w'. lq_run [] Some Some (writeOne id) fwr_tick [QCheck [65], QSelect False 0, QReceive sample_env]
        (new_queue OverflowDrop 8, snd (fwr_Init sample_options sample_env (NewFileWriterWithOptions sample_options \<lparr>fy_files = Map.empty, fy_room = None\<rparr>))) = Some (q', w')
    \<and> content ''app-1970.log'' (fwr_fs w') @ (if fwr_file w' = Some ''app-1970.log'' then unflushed w' else []) = file_text id ''app-1970.log'' (fwr_lines w')"
proof -
  let ?d = "\<lparr>fy_files = Map.empty, fy_room = None\<rparr>"
  obtain ok and w :: "bytes file_writer" where i: "fwr_Init sample_options sample_env (NewFileWriterWithOptions sample_options ?d) = (ok, w)" by fastforce
  obtain q' w' where r: "lq_run [] Some Some (writeOne id) fwr_tick [QCheck [65], QSelect False 0, QReceive sample_env] (new_queue OverflowDrop 8, w) = Some (q', w')"
    by (simp add: lq_do_def new_queue_def policy_defs send_check_def send_select_def lq_enqueue_def daemon_receive_def Let_def)
  have c: "content p ?d = []" for p by (simp add: content_def)
  have "fo_async sample_options" "env_ok sample_env" by (simp_all add: sample_options_def env_ok_def sample_env_def)
  with file_holds_lines [OF _ i _ r] have "content p (fwr_fs w') @ (if fwr_file w' = Some p then unflushed w' else []) = content p ?d @ file_text id p (fwr_lines w')" for p
    by (simp del: append_Nil2)
  from this [of "''app-1970.log''"] i r c show ?thesis by (auto simp del: append_Nil2)
qed

subsection \<open>Paths\<close>

text \<open>
  The file of a pattern in one pass: each variable is replaced by its value, the year as it is and the others
  with two digits.
\<close>

fun path_text :: "string \<Rightarrow> int list \<Rightarrow> string" where
  "path_text (a # c # cs) vs =
    (if a = percent then (if c = CHR ''Y'' then Itoa (hd vs) else pad02 (hd vs)) @ path_text cs (tl vs) else a # path_text (c # cs) vs)"
| "path_text cs vs = cs"

fun well_formed :: "string \<Rightarrow> bool" where
  "well_formed (a # c # cs) \<longleftrightarrow> (if a = percent then pathVariableTable c \<noteq> None \<and> well_formed cs else well_formed (c # cs))"
| "well_formed cs \<longleftrightarrow> percent \<notin> set cs"

lemma replace_verb_other [simp]: "a \<noteq> percent \<Longrightarrow> replace_verb v t (a # cs) = a # replace_verb v t cs"
  by (cases cs) simp_all

lemma convert_plain: "a \<noteq> percent \<Longrightarrow> convertPatternToFmt (a # cs) = a # convertPatternToFmt cs"
  by (simp add: convertPatternToFmt_def)

lemma percent_chars [simp]: "CHR ''d'' \<noteq> percent" "CHR ''0'' \<noteq> percent" "CHR ''2'' \<noteq> percent" "CHR ''Y'' \<noteq> percent" "CHR ''M'' \<noteq> percent"
  "CHR ''D'' \<noteq> percent" "CHR ''H'' \<noteq> percent" "CHR ''m'' \<noteq> percent"
  by (simp_all add: percent_def)

lemma convert_var:
  assumes "pathVariableTable c \<noteq> None"
  shows "convertPatternToFmt (percent # c # cs) = (if c = CHR ''Y'' then percent # ''d'' else percent # ''02d'') @ convertPatternToFmt cs"
proof -
  have "c \<in> {CHR ''Y'', CHR ''M'', CHR ''D'', CHR ''H'', CHR ''m''}"
    using assms by (auto simp: pathVariableTable_def split: if_splits)
  then show ?thesis by (auto simp: convertPatternToFmt_def percent_def [symmetric])
qed

lemma path_formatted:
  assumes "well_formed pattern" "length vs = length (filter (\<lambda>c. c = percent) pattern)"
  shows "sprintf_path (convertPatternToFmt pattern) (map Some vs) = path_text pattern vs"
  using assms
proof (induction pattern vs rule: path_text.induct)
  case (1 a c cs vs)
  show ?case
  proof (cases "a = percent")
    case True
    then have c: "pathVariableTable c \<noteq> None" "well_formed cs" using "1.prems"(1) by simp_all
    then have "c \<noteq> percent" by (auto simp: pathVariableTable_def percent_def split: if_splits)
    then obtain v vs' where vs: "vs = v # vs'" "length vs' = length (filter (\<lambda>c. c = percent) cs)"
      using "1.prems"(2) True by (cases vs) auto
    have "sprintf_path (convertPatternToFmt cs) (map Some vs') = path_text cs vs'" using "1.IH"(1) [OF True c(2)] vs by simp
    then show ?thesis using True vs by (simp add: convert_var [OF c(1)] sprintf_arg_def)
  next
    case False
    have "sprintf_path (convertPatternToFmt (c # cs)) (map Some vs) = path_text (c # cs) vs"
      using "1.IH"(2) [OF False] "1.prems" False by simp
    then show ?thesis using False by (simp add: convert_plain)
  qed
qed (simp_all add: convertPatternToFmt_def)

subsection \<open>What rotation does not do\<close>

text \<open>
  A file name without variables gives no actions, so no file is ever opened and every synchronous write is an
  error.
\<close>

lemma plain_name_never_opens:
  assumes "percent \<notin> set pattern" and w_def: "w = snd (SetPathPattern pattern (NewFileWriter bs fbs d))"
  shows "rotateImpl e w = (True, w)" "fst (writeSync render r w) = False"
proof -
  have "filter (\<lambda>c. c = percent) pattern = []" using assms(1) by (auto simp: filter_empty_conv)
  then have w: "w = (NewFileWriter bs fbs d)\<lparr>fwr_pathFmt := pattern\<rparr>" by (simp add: w_def SetPathPattern_def)
  show "rotateImpl e w = (True, w)" "fst (writeSync render r w) = False"
    by (simp_all add: w rotateImpl_def writeSync_def NewFileWriter_def)
qed

text \<open>After the first file the variables at the first two positions, year and month of the usual pattern, stay.\<close>

lemma rot_scan_keeps:
  assumes "fwr_initFileOk w" "j < 2"
  shows "snd (rot_scan w now i cs vs) ! j = vs ! j"
proof (induction cs arbitrary: i vs)
  case (Cons c cs)
  have "\<not> rot_due w now j v" for v using assms(2) by (simp add: rot_due_def)
  then have "(if vs ! i \<noteq> Some (act c now) \<and> (\<not> fwr_initFileOk w \<or> rot_due w now i (act c now)) then vs[i := Some (act c now)] else vs) ! j = vs ! j"
    using assms(1) by (cases "i = j") auto
  then show ?case using Cons.IH by (simp add: Let_def case_prod_beta)
qed simp

text \<open>
  So on the first of February the file of January is opened again: with a daily rotation, the pattern
  \<open>%Y%M%D\<close> and a distance of one day, the file that follows 31 January 2024 is that of 1 January.
\<close>

lemma rotation_reopens_old_month:
  assumes "fwr_initFileOk w" "fwr_daily w" "fwr_maxDays w = 1" "fwr_lastWriteTime w = \<lparr>gt_nanos = 19753 * day_nanos, gt_loc = utc\<rparr>"
  shows "t_Date \<lparr>gt_nanos = 19754 * day_nanos, gt_loc = utc\<rparr> = (2024, 2, 1)"
    and "rot_scan w \<lparr>gt_nanos = 19754 * day_nanos, gt_loc = utc\<rparr> 0 ''YMD'' [Some 2024, Some 1, Some 31] = (True, [Some 2024, Some 1, Some 1])"
proof -
  let ?now = "\<lparr>gt_nanos = 19754 * day_nanos, gt_loc = utc\<rparr>" and ?l = "\<lparr>gt_nanos = 19753 * day_nanos, gt_loc = utc\<rparr>"
  have d: "date_of 19754 = (2024, 2, 1)" by code_simp
  have w: "wall_day ?now = 19754" "wall_day ?l = 19753" by (simp_all add: wall_day_def wall_def utc_def day_nanos_def)
  show t: "t_Date ?now = (2024, 2, 1)" using d w by (simp add: t_Date_def)
  have "wall_day (t_AddDate 0 0 1 ?l) = 19754" using AddDays_fixed(2) [of ?l 0 1] w by (simp add: utc_def)
  then have "getDay (t_AddDate 0 0 1 ?l) = 1" using d by (simp add: getDay_def t_Date_def)
  then show "rot_scan w ?now 0 ''YMD'' [Some 2024, Some 1, Some 31] = (True, [Some 2024, Some 1, Some 1])"
    using t assms by (simp add: act_def pathVariableTable_def getYear_def getMonth_def rot_due_def numeral_2_eq_2) (simp add: getDay_def)
qed

text \<open>
  A rotation that closes the file and then cannot open the next one leaves the closed file in place; closing
  it again is an error, so that no later rotation gets past it and no byte reaches a file any more.
\<close>

definition fwr_wedged :: "fsys \<Rightarrow> 'r file_writer \<Rightarrow> bool" where
  "fwr_wedged d w \<longleftrightarrow> fwr_file w \<noteq> None \<and> \<not> fwr_opened w \<and> fwr_fs w = d"

interpretation cf: byte_sink "fy_write False path" "\<lambda>d b d'. d' = d \<and> b = []" "\<lambda>_. False"
  by unfold_locales (simp_all add: fy_write_def)

lemma closed_flush: "snd (bw_Flush (fy_write False p) b d) = d"
  using cf.flush_spec [of p b d "fst (bw_Flush (fy_write False p) b d)" "snd (bw_Flush (fy_write False p) b d)"]
    bw_Flush_sticky [of b "fy_write False p" d] by (cases "bw_err b") auto

lemma closed_write: "snd (bw_Write (fy_write False p) sz x b d) = d"
proof (induction "fy_write False p" sz x b d rule: bw_Write.induct)
  case (1 sz x b d)
  have w: "fy_write False p y d = (0, d)" for y by (simp add: fy_write_def)
  obtain b' where f: "bw_Flush (fy_write False p) (b\<lparr>bw_buf := bw_buf b @ take (sz - length (bw_buf b)) x\<rparr>) d = (b', d)"
    using closed_flush [of p "b\<lparr>bw_buf := bw_buf b @ take (sz - length (bw_buf b)) x\<rparr>" d] by (metis prod.collapse)
  show ?case using 1 w f by (subst bw_Write.simps) (auto simp: Let_def)
qed

lemma reopen_failure_wedges:
  assumes "fwr_inv render d0 w" "fwr_file w \<noteq> None" "rotateImpl e w = (False, w')"
  shows "\<exists>d. fwr_wedged d w'"
proof (cases rule: rotate_cases [of e w])
  case (flush vs w2)
  then show ?thesis using flush_inv [OF inv_same [OF assms(1)] flush(1), simplified] by simp
next
  case (closed vs w2)
  then show ?thesis using assms(3) by (auto simp: fwr_wedged_def)
next
  case (stuck vs w2)
  then show ?thesis using flush_inv [OF inv_same [OF assms(1)] stuck(1), simplified] assms(2,3) by (auto simp: fwr_wedged_def)
qed (use assms(3) in simp_all)

lemma wedged_flush: "fwr_wedged d w \<Longrightarrow> fwr_wedged d (snd (fwr_flushSync w))"
  using closed_flush by (fastforce simp: fwr_wedged_def fwr_flushSync_def split: option.splits prod.splits dest: arg_cong [where f = snd])

lemma wedged_rotate:
  assumes "fwr_wedged d w"
  shows "fwr_wedged d (snd (rotateImpl e w))"
proof -
  have f: "fwr_wedged d w2" if "fwr_flushSync (w\<lparr>fwr_variables := vs, fwr_initFileOk := True, fwr_lastWriteTime := re_now e\<rparr>) = (ok, w2)" for vs ok w2
    using wedged_flush [of d "w\<lparr>fwr_variables := vs, fwr_initFileOk := True, fwr_lastWriteTime := re_now e\<rparr>"] that assms by (simp add: fwr_wedged_def)
  show ?thesis by (cases rule: rotate_cases [of e w]) (use assms in \<open>auto dest!: f simp: fwr_wedged_def\<close>)
qed

lemma wedged_writeOne:
  assumes "fwr_wedged d w"
  shows "fwr_wedged d (writeOne render e r w)"
proof -
  have c: "fwr_wedged d (fwr_checked e w)"
    using assms wedged_rotate [of d "w\<lparr>fwr_lastRotateCheck := gt_nanos (re_now e)\<rparr>" e] by (simp add: fwr_checked_def fwr_wedged_def)
  have b: "fwr_wedged d (snd (buf_write render r b w1))" if "fwr_wedged d w1" for b w1
    using that closed_write by (auto simp: buf_write_def fwr_wedged_def Let_def split: prod.splits dest: arg_cong [where f = snd])
  have "fwr_wedged d (fwr_wrote r w1)" if "fwr_wedged d w1" for w1
    using that wedged_flush [of d "w1\<lparr>fwr_handled := fwr_handled w1 @ [r], fwr_batchSinceFlush := 0\<rparr>"] by (auto simp: fwr_wrote_def fwr_wedged_def Let_def)
  moreover have "fwr_wedged d (fwr_errors r w1)" if "fwr_wedged d w1" for w1 using that by (simp add: fwr_errors_def fwr_wedged_def)
  ultimately show ?thesis using c b by (auto simp: writeOne_eq split: option.splits prod.splits) (metis snd_conv)+
qed

lemma wedged_forever:
  assumes "fwr_wedged d w" "lq_run z enc dec (writeOne render) fwr_tick evs (q, w) = Some (q', w')"
  shows "fwr_fs w' = d"
proof -
  have "fwr_wedged d w'"
    by (rule run_inv [where E = UNIV and I = "fwr_wedged d", OF _ _ assms(2)])
      (use assms(1) in \<open>auto intro: wedged_writeOne simp: fwr_tick_def wedged_flush\<close>)
  then show ?thesis by (simp add: fwr_wedged_def)
qed

text \<open>
  After \<open>Stop\<close> the channel is gone, so that a write takes the synchronous path into the buffer of the closed
  file: it succeeds and counts as written, and no byte of it reaches a file.
\<close>

lemma write_after_stop:
  assumes "fwr_Stop_end (q, w) = (q1, w1)" "fwr_buf w1 = Some b" "\<not> bw_err b" "length (bw_buf b) + length (render r) \<le> buf_size w1"
  shows "\<exists>w2. fwr_Write render False level level False r (q1, w1) = (True, q1, w2) \<and> fwr_written w2 = fwr_written w1 + 1 \<and> fwr_fs w2 = fwr_fs w1"
proof -
  have "\<not> length (render r) > buf_size w1 - length (bw_buf b)" using assms(4) by simp
  then show ?thesis using assms(2,3) by (simp add: fwr_Write_def writeSync_def buf_write_def bw_Write.simps)
qed

text \<open>
  A pattern that \<open>SetPathPattern\<close> rejects leaves the variables and actions read so far and no format; the
  error is only logged, and the first rotation opens a file whose name is what \<open>Sprintf\<close> says about the
  arguments left over.
\<close>

lemma rejected_pattern_file:
  assumes "SetPathPattern ''%Y%X.log'' (NewFileWriter bs fbs d) = (ok, w)" "getYear (re_now e) = 1970" "re_mkdir e" "re_open e"
  shows "\<not> ok \<and> fwr_file (snd (rotateImpl e w)) = Some ''%!(EXTRA int=1970, <nil>)''"
proof -
  have w: "\<not> ok" "w = (NewFileWriter bs fbs d)\<lparr>fwr_actions := ''Y'', fwr_variables := [None, None]\<rparr>"
    using assms(1) by (auto simp: SetPathPattern_def percent_def pathVariableTable_def numeral_2_eq_2)
  have i: "Itoa 1970 = ''1970''" by code_simp
  have "rot_scan w (re_now e) 0 ''Y'' [None, None] = (True, [Some 1970, None])"
    using assms(2) w(2) by (simp add: act_def pathVariableTable_def NewFileWriter_def)
  then show ?thesis using w assms(3,4) i by (simp add: rotateImpl_def NewFileWriter_def fwr_flushSync_def Let_def)
qed

end
