(* ===== verification/Net_Writer.thy ===== *)
theory Net_Writer
  imports Log_Queue
begin

section \<open>The network writer\<close>

text \<open>
  Models \<open>src/log4go/net_writer.go\<close>: the pipeline of \<open>Log_Queue\<close> with a daemon that dials lazily and writes each
  record to the connection.  The outcomes of \<open>Dial\<close> and \<open>Write\<close> are an environment: a write may fail after some
  bytes.  \<open>nw_wires\<close> holds, for each connection in the order of the dials, the bytes it took; the last one is the
  open one while \<open>nw_conn\<close>.  The last fields are ghosts: for each connection the records it took whole and the
  bytes of one that was cut, the records lost to a failed write and to a failed dial, and all handled in order.
\<close>

record 'r net_writer =
  nw_run :: bool
  nw_conn :: bool
  nw_wires :: "bytes list"
  nw_sent :: "64 word"
  nw_errored :: "64 word"
  nw_dropped :: "64 word"
  nw_sessions :: "('r list \<times> bytes) list"
  nw_failed :: "'r list"
  nw_undialled :: "'r list"
  nw_handled :: "'r list"

record net_env =
  ne_dial :: bool
  ne_cut :: "nat option"

definition nwr_queue :: "'r \<Rightarrow> OverflowPolicy \<Rightarrow> int \<Rightarrow> int \<Rightarrow> 'r log_queue" where
  "nwr_queue z policy bufferSize spillSize =
    (let q = new_queue policy (if bufferSize \<le> 1 then 1024 else nat bufferSize)
     in if policy = OverflowSpill
        then q\<lparr>lq_spiller := Some (RingStore (NewRingSpiller z spillSize), \<lparr>dk_log = None, dk_read = None, dk_recover = None, dk_room = None\<rparr>)\<rparr>
        else q)"

definition NewNetWriter :: "'r \<Rightarrow> OverflowPolicy \<Rightarrow> int \<Rightarrow> int \<Rightarrow> 'r log_queue \<times> 'r net_writer" where
  "NewNetWriter z policy bufferSize spillSize =
    (nwr_queue z policy bufferSize spillSize,
     \<lparr>nw_run = False, nw_conn = False, nw_wires = [], nw_sent = 0, nw_errored = 0, nw_dropped = 0, nw_sessions = [],
      nw_failed = [], nw_undialled = [], nw_handled = []\<rparr>)"

text \<open>The daemon's first statement.\<close>

definition nwr_started :: "'r net_writer \<Rightarrow> 'r net_writer" where
  "nwr_started w = w\<lparr>nw_run := True\<rparr>"

text \<open>\<open>Write\<close> up to its \<open>select\<close>, which is \<open>send_select\<close>.\<close>

definition nwr_Write :: "bool \<Rightarrow> int \<Rightarrow> int \<Rightarrow> 'r \<Rightarrow> 'r log_queue \<Rightarrow> 'r log_queue" where
  "nwr_Write paused level r_level r q = (if paused \<or> level < r_level then q else send_check r q)"

definition dialLocked :: "net_env \<Rightarrow> 'r net_writer \<Rightarrow> bool \<times> 'r net_writer" where
  "dialLocked e w =
    (if \<not> ne_dial e then (False, w)
     else (True, w\<lparr>nw_conn := True, nw_wires := nw_wires w @ [[]], nw_sessions := nw_sessions w @ [([], [])]\<rparr>))"

text \<open>A write to the open connection: all the bytes, or some of them and an error.\<close>

definition conn_write :: "net_env \<Rightarrow> bytes \<Rightarrow> bytes list \<Rightarrow> bool \<times> nat \<times> bytes list" where
  "conn_write e p wires =
    (let n = (case ne_cut e of None \<Rightarrow> length p | Some k \<Rightarrow> min k (length p))
     in (ne_cut e = None, n, butlast wires @ [last wires @ take n p]))"

definition nwr_writeOne :: "('r \<Rightarrow> bytes) \<Rightarrow> net_env \<Rightarrow> 'r \<Rightarrow> 'r net_writer \<Rightarrow> 'r net_writer" where
  "nwr_writeOne serialize e r w =
    (let (dialled, w1) = (if nw_conn w then (True, w) else dialLocked e w)
     in if \<not> dialled
        then w1\<lparr>nw_errored := nw_errored w1 + 1, nw_undialled := nw_undialled w1 @ [r], nw_handled := nw_handled w1 @ [r]\<rparr>
        else let (ok, n, wires) = conn_write e (serialize r) (nw_wires w1); (rs, _) = last (nw_sessions w1);
                 w2 = w1\<lparr>nw_wires := wires, nw_handled := nw_handled w1 @ [r]\<rparr>
             in if \<not> ok
                then w2\<lparr>nw_conn := False, nw_errored := nw_errored w2 + 1, nw_dropped := nw_dropped w2 + 1,
                        nw_sessions := butlast (nw_sessions w2) @ [(rs, take n (serialize r))], nw_failed := nw_failed w2 @ [r]\<rparr>
                else w2\<lparr>nw_sent := nw_sent w2 + 1, nw_sessions := butlast (nw_sessions w2) @ [(rs @ [r], [])]\<rparr>)"

text \<open>A tick only drains the store.\<close>

definition nwr_tick :: "net_env \<Rightarrow> 'r net_writer \<Rightarrow> 'r net_writer" where
  "nwr_tick e w = w"

text \<open>\<open>Stop\<close> up to the closing of \<open>stop\<close>, and its end after the daemon has ended.\<close>

definition nwr_Stop :: "'r log_queue \<times> 'r net_writer \<Rightarrow> 'r log_queue \<times> 'r net_writer" where
  "nwr_Stop = (\<lambda>(q, w). if nw_run w then (q\<lparr>lq_closing := True\<rparr>, w\<lparr>nw_run := False\<rparr>) else (q, w))"

definition nwr_Stop_end :: "'r net_writer \<Rightarrow> 'r net_writer" where
  "nwr_Stop_end w = w\<lparr>nw_conn := False\<rparr>"

subsection \<open>Accounting\<close>

definition nwr_delivered :: "'r net_writer \<Rightarrow> 'r list" where
  "nwr_delivered w = concat (map fst (nw_sessions w))"

text \<open>
  Each connection carries whole records and at most the beginning of one more, and the connection that is open
  carries none.
\<close>

definition nwr_inv :: "('r \<Rightarrow> bytes) \<Rightarrow> 'r net_writer \<Rightarrow> bool" where
  "nwr_inv serialize w \<longleftrightarrow> nw_wires w = map (\<lambda>(rs, cut). concat (map serialize rs) @ cut) (nw_sessions w)
    \<and> (nw_conn w \<longrightarrow> nw_sessions w \<noteq> [] \<and> snd (last (nw_sessions w)) = [])
    \<and> (\<forall>(rs, cut)\<in>set (nw_sessions w). cut \<noteq> [] \<longrightarrow> (\<exists>r\<in>set (nw_failed w). prefix cut (serialize r)))
    \<and> nw_sent w = word_of_nat (length (nwr_delivered w)) \<and> nw_dropped w = word_of_nat (length (nw_failed w))
    \<and> nw_errored w = word_of_nat (length (nw_failed w) + length (nw_undialled w))
    \<and> mset (nw_handled w) = mset (nwr_delivered w) + mset (nw_failed w) + mset (nw_undialled w)"

lemma nwr_handled: "nw_handled (nwr_writeOne serialize e r w) = nw_handled w @ [r]"
  by (simp add: nwr_writeOne_def dialLocked_def Let_def split: prod.splits)

interpretation nwc: log_consumer "nwr_writeOne serialize" nwr_tick nw_handled
  by unfold_locales (simp_all add: nwr_handled nwr_tick_def)

lemma dial_inv: "nwr_inv serialize w \<Longrightarrow> dialLocked e w = (True, w') \<Longrightarrow> nwr_inv serialize w' \<and> nw_conn w'"
  by (auto simp: nwr_inv_def dialLocked_def nwr_delivered_def split: if_splits)

lemma conn_inv:
  assumes "nwr_inv serialize w" "nw_conn w"
  shows "nwr_inv serialize (nwr_writeOne serialize e r w)"
proof -
  obtain ss rs where s: "nw_sessions w = ss @ [(rs, [])]"
    using assms by (cases "nw_sessions w" rule: rev_cases) (auto simp: nwr_inv_def)
  have w: "nw_wires w = map (\<lambda>(rs, cut). concat (map serialize rs) @ cut) ss @ [concat (map serialize rs)]"
    using assms(1) s by (simp add: nwr_inv_def)
  show ?thesis
    using assms s w by (cases "ne_cut e") (auto simp: nwr_writeOne_def conn_write_def nwr_inv_def nwr_delivered_def take_is_prefix Let_def ac_simps)
qed

lemma writeOne_dials:
  assumes "\<not> nw_conn w" "dialLocked e w = (True, w1)"
  shows "nwr_writeOne serialize e r w = nwr_writeOne serialize e r w1"
proof -
  have "nw_conn w1" using assms(2) by (auto simp: dialLocked_def split: if_splits)
  then show ?thesis using assms by (simp add: nwr_writeOne_def)
qed

lemma nwr_writeOne_inv:
  assumes "nwr_inv serialize w"
  shows "nwr_inv serialize (nwr_writeOne serialize e r w)"
proof (cases "nw_conn w")
  case True
  then show ?thesis by (rule conn_inv [OF assms])
next
  case False
  show ?thesis
  proof (cases "ne_dial e")
    case True
    then obtain w1 where d: "dialLocked e w = (True, w1)" by (simp add: dialLocked_def)
    then show ?thesis using conn_inv dial_inv [OF assms d] writeOne_dials [OF False d] by metis
  next
    case no: False
    then show ?thesis using assms False by (auto simp: nwr_writeOne_def dialLocked_def nwr_inv_def nwr_delivered_def)
  qed
qed

lemma new_fit: "lq_fit enc dec (nwr_queue z policy bufferSize spillSize)" "lq_books dec (nwr_queue z policy bufferSize spillSize) = {#}"
  "lq_messages (nwr_queue z policy bufferSize spillSize) = []" "lq_entered (nwr_queue z policy bufferSize spillSize) = []"
  using rs_wf_New [of z spillSize] by (auto simp: nwr_queue_def new_queue_def lq_fit_def lq_books_def lq_stored_def sx_ok_def st_items_def Let_def)

text \<open>
  C26. Every record handed to a network writer is at every moment in exactly one place, whatever the interleaving
  of callers, daemon, ticks and shutdown and whatever dials and writes do: with a blocked caller, in the channel,
  in the ring, delivered whole on one connection, lost to a failed write or a failed dial, counted as dropped,
  overwritten in the full ring, or forgotten by \<open>drainSpill\<close>.  The bytes of each connection are the records it
  took whole, in their order, and then at most the beginning of a record whose write failed: nothing follows a
  record that was cut.  \<open>Sent\<close> and \<open>Dropped\<close> count the delivered records and those lost to failed writes;
  those lost to failed dials are in \<open>Errored\<close> alone.
\<close>

theorem net_writer_accounts:
  assumes "NewNetWriter z policy bufferSize spillSize = (q, w)"
    and "lq_run z enc dec (nwr_writeOne serialize) nwr_tick evs (q, nwr_started w) = Some (q', w')"
  shows "mset (handed evs) = mset (lq_sending q') + mset (lq_messages q') + mset (lq_stored dec q') + mset (nwr_delivered w')
      + mset (nw_failed w') + mset (nw_undialled w') + mset (lq_dropped q') + mset (lq_overwritten q') + mset (lq_forgotten q')
    \<and> nw_wires w' = map (\<lambda>(rs, cut). concat (map serialize rs) @ cut) (nw_sessions w')
    \<and> (\<forall>(rs, cut)\<in>set (nw_sessions w'). cut \<noteq> [] \<longrightarrow> (\<exists>r\<in>set (nw_failed w'). prefix cut (serialize r)))
    \<and> nw_sent w' = word_of_nat (length (nwr_delivered w')) \<and> nw_dropped w' = word_of_nat (length (nw_failed w'))
    \<and> nw_errored w' = word_of_nat (length (nw_failed w') + length (nw_undialled w'))
    \<and> os_dropped (lq_stats q') = word_of_nat (length (lq_dropped q')) \<and> length (lq_messages q') \<le> lq_cap q'
    \<and> (\<not> lq_exited q' \<longrightarrow> nw_handled w' @ lq_messages q' = lq_entered q')"
proof -
  have q: "q = nwr_queue z policy bufferSize spillSize" and w: "nw_handled (nwr_started w) = []" "nwr_inv serialize (nwr_started w)"
    using assms(1) by (auto simp: NewNetWriter_def nwr_started_def nwr_inv_def nwr_delivered_def)
  have b: "lq_fit enc dec q' \<and> lq_books dec q' + mset (nw_handled w') = lq_books dec q + mset (nw_handled (nwr_started w)) + mset (handed evs)"
    by (rule nwc.run_books [OF assms(2)]) (simp add: q new_fit)
  have "nwr_inv serialize w'"
    by (rule run_inv [where E = UNIV and I = "nwr_inv serialize", OF _ _ assms(2)]) (use w in \<open>auto intro: nwr_writeOne_inv simp: nwr_tick_def\<close>)
  moreover have "\<not> lq_exited q' \<Longrightarrow> nwc.in_order (q', w')"
    by (rule nwc.run_in_order [OF assms(2)]) (use w in \<open>simp_all add: nwc.in_order_def q new_fit\<close>)
  moreover have "mset (handed evs) = lq_books dec q' + mset (nw_handled w')" using b w(1) by (simp add: q new_fit)
  ultimately show ?thesis using b by (simp add: lq_books_def nwr_inv_def nwc.in_order_def lq_fit_def ac_simps)
qed

theorem net_writer_accounts_witness:
  "\<exists>q' w'. lq_run [] Some Some (nwr_writeOne id) nwr_tick
        [QCheck [65, 66], QSelect False 0, QCheck [67], QSelect False 0, QReceive \<lparr>ne_dial = True, ne_cut = Some 1\<rparr>, QReceive \<lparr>ne_dial = True, ne_cut = None\<rparr>]
        (fst (NewNetWriter [] OverflowDrop 8 0), nwr_started (snd (NewNetWriter [] OverflowDrop 8 0))) = Some (q', w')
    \<and> mset [[65, 66], [67]] = mset (lq_sending q') + mset (lq_messages q') + mset (lq_stored Some q') + mset (nwr_delivered w')
      + mset (nw_failed w') + mset (nw_undialled w') + mset (lq_dropped q') + mset (lq_overwritten q') + mset (lq_forgotten q')
    \<and> nw_wires w' = [[65], [67]]"
proof -
  let ?evs = "[QCheck [65, 66], QSelect False 0, QCheck [67], QSelect False 0, QReceive \<lparr>ne_dial = True, ne_cut = Some 1\<rparr>, QReceive \<lparr>ne_dial = True, ne_cut = None\<rparr>]
    :: (net_env, bytes) lq_event list"
  let ?n = "NewNetWriter [] OverflowDrop 8 0 :: bytes log_queue \<times> bytes net_writer"
  obtain q w where n: "?n = (q, w)" by fastforce
  have "map_option (\<lambda>(q', w'). nw_wires w') (lq_run [] Some Some (nwr_writeOne id) nwr_tick ?evs (fst ?n, nwr_started (snd ?n))) = Some [[65], [67]]"
    by code_simp
  then obtain q' w' where r: "lq_run [] Some Some (nwr_writeOne id) nwr_tick ?evs (q, nwr_started w) = Some (q', w')" and wires: "nw_wires w' = [[65], [67]]"
    unfolding n by auto
  from net_writer_accounts [OF n r] n r wires show ?thesis by auto
qed

subsection \<open>Stop\<close>

text \<open>
  Once the daemon has run its first statement \<open>Stop\<close> claims \<open>closing\<close> as the file writer does.  Before that it
  does nothing, and the daemon that starts afterwards is never told to end.
\<close>

lemma Stop_claims:
  assumes "nw_run w = (\<not> lq_closing q)"
  shows "fst (nwr_Stop (q, w)) = lq_Stop q" "nw_run (snd (nwr_Stop (q, w))) = (\<not> lq_closing (fst (nwr_Stop (q, w))))"
  using assms by (auto simp: nwr_Stop_def lq_Stop_def)

lemma Stop_before_start:
  assumes "NewNetWriter z policy bufferSize spillSize = (q, w)"
  shows "nwr_Stop (q, w) = (q, w) \<and> \<not> lq_closing q"
  using assms by (auto simp: NewNetWriter_def nwr_Stop_def nwr_queue_def new_queue_def Let_def split: if_splits)

text \<open>A buffer size of one, too, gives the default of 1024.\<close>

lemma buffer_of_one: "lq_cap (nwr_queue z policy 1 spillSize) = 1024"
  by (simp add: nwr_queue_def new_queue_def Let_def)

end
