(* ===== verification/Latency.thy ===== *)
theory Latency
  imports Second_Ring "HOL-Library.Multiset"
begin

section \<open>Latency histograms\<close>

text \<open>
  Models \<open>src/latency\<close>: a ring of per-second buckets, each with the counts per latency range, and the
  percentiles read off their sum.  Every operation takes the Unix second that it reads under the lock.
  Durations are integers of nanoseconds and the sums \<open>uint64\<close> words; \<open>float64\<close> arithmetic is exact arithmetic
  rounded after each operation.  The scratch buffer \<open>mergeBuf\<close> is zeroed before each use and is not part of the
  state.  The counts are Go \<open>int\<close>s that count samples and are left unbounded.
\<close>

subsection \<open>Ranges\<close>

definition us :: int where "us = 1000"
definition ms :: int where "ms = 1000000"

definition DefaultBoundaries :: "int list" where
  "DefaultBoundaries = [100 * us, 500 * us, ms, 2 * ms, 3 * ms, 5 * ms, 10 * ms, 15 * ms, 20 * ms, 30 * ms, 50 * ms, 75 * ms, 100 * ms,
    200 * ms, 500 * ms, Second, 10 * Second]"

text \<open>\<open>sort.Search\<close> on the half-open range from \<open>i\<close> to \<open>j\<close>.\<close>

function go_Search :: "(nat \<Rightarrow> bool) \<Rightarrow> nat \<Rightarrow> nat \<Rightarrow> nat" where
  "go_Search f i j = (if i < j then let h = (i + j) div 2 in if \<not> f h then go_Search f (h + 1) j else go_Search f i h else i)"
  by pat_completeness auto
termination
  by (relation "measure (\<lambda>(f, i, j). j - i)") auto

declare go_Search.simps [simp del]

definition bucketIndex :: "int list \<Rightarrow> int \<Rightarrow> nat" where
  "bucketIndex boundaries v =
    (let idx = go_Search (\<lambda>i. v \<le> boundaries ! i) 0 (length boundaries)
     in if length boundaries \<le> idx then length boundaries - 1 else idx)"

definition lowerBound :: "int list \<Rightarrow> nat \<Rightarrow> int" where
  "lowerBound boundaries i = (if i = 0 then 0 else boundaries ! (i - 1))"

definition validBoundaries :: "int list \<Rightarrow> bool" where
  "validBoundaries bs \<longleftrightarrow> bs \<noteq> [] \<and> (\<forall>i<length bs. 0 < bs ! i \<and> (0 < i \<longrightarrow> bs ! (i - 1) < bs ! i))"

record latency_options =
  lt_Window :: int
  lt_Boundaries :: "int list"

definition latency_withDefaults :: "latency_options \<Rightarrow> latency_options" where
  "latency_withDefaults o' =
    \<lparr>lt_Window = (if lt_Window o' < Second then 60 * Second else lt_Window o'),
     lt_Boundaries = (if lt_Boundaries o' = [] then DefaultBoundaries else lt_Boundaries o')\<rparr>"

subsection \<open>The histogram\<close>

record window_bucket =
  wb_counts :: "int list"
  wb_total :: int
  wb_min :: int
  wb_max :: int
  wb_sum :: "64 word"

definition zero_bucket :: "nat \<Rightarrow> window_bucket" where
  "zero_bucket n = \<lparr>wb_counts = replicate n 0, wb_total = 0, wb_min = 0, wb_max = 0, wb_sum = 0\<rparr>"

record histogram =
  hg_boundaries :: "int list"
  hg_buckets :: "window_bucket list"
  hg_base :: int

definition NewHistogram :: "int \<Rightarrow> latency_options \<Rightarrow> histogram option" where
  "NewHistogram sec opts =
    (let o' = latency_withDefaults opts; secs = nat (lt_Window o' div Second); n = length (lt_Boundaries o')
     in if \<not> validBoundaries (lt_Boundaries o') then None
        else Some \<lparr>hg_boundaries = lt_Boundaries o', hg_buckets = replicate secs (zero_bucket n), hg_base = sec\<rparr>)"

definition zeroBucket :: "nat \<Rightarrow> histogram \<Rightarrow> histogram" where
  "zeroBucket i h = h\<lparr>hg_buckets := (hg_buckets h)[i := zero_bucket (length (wb_counts (hg_buckets h ! i)))]\<rparr>"

function hist_roll :: "int \<Rightarrow> histogram \<Rightarrow> histogram" where
  "hist_roll sec h =
    (if hg_base h < sec
     then let h1 = h\<lparr>hg_base := hg_base h + 1\<rparr> in hist_roll sec (zeroBucket (slot (hg_buckets h) (hg_base h1)) h1)
     else h)"
  by pat_completeness auto
termination
  by (relation "measure (\<lambda>(sec, h). nat (sec - hg_base h))") (auto simp: zeroBucket_def)

declare hist_roll.simps [simp del]

definition hist_advance :: "int \<Rightarrow> histogram \<Rightarrow> histogram" where
  "hist_advance sec h =
    (if sec \<le> hg_base h then h
     else if int (length (hg_buckets h)) \<le> sec - hg_base h
     then (foldl (\<lambda>h i. zeroBucket i h) h [0..<length (hg_buckets h)])\<lparr>hg_base := sec\<rparr>
     else hist_roll sec h)"

definition wb_add :: "int list \<Rightarrow> int \<Rightarrow> window_bucket \<Rightarrow> window_bucket" where
  "wb_add boundaries d b =
    (let idx = bucketIndex boundaries d; n = wb_total b
     in b\<lparr>wb_min := (if n = 0 then d else min d (wb_min b)), wb_max := (if n = 0 then d else max d (wb_max b)),
          wb_counts := (wb_counts b)[idx := wb_counts b ! idx + 1], wb_total := n + 1, wb_sum := wb_sum b + word_of_int d\<rparr>)"

definition hist_Observe :: "int \<Rightarrow> int \<Rightarrow> histogram \<Rightarrow> histogram" where
  "hist_Observe sec d h =
    (let d = (if d < 0 then 0 else d); h1 = hist_advance sec h; sec' = (if sec < hg_base h1 then hg_base h1 else sec);
         i = slot (hg_buckets h1) sec'
     in h1\<lparr>hg_buckets := (hg_buckets h1)[i := wb_add (hg_boundaries h1) d (hg_buckets h1 ! i)]\<rparr>)"

subsection \<open>Reading\<close>

text \<open>
  The accumulator of a fold over buckets: total, sum, minimum (\<open>None\<close> until there is one), maximum and the counts.
\<close>

type_synonym fold_acc = "int \<times> 64 word \<times> int option \<times> int \<times> int list"

definition fold_bucket :: "window_bucket \<Rightarrow> fold_acc \<Rightarrow> fold_acc" where
  "fold_bucket b = (\<lambda>(tot, sum, mn, mx, out).
    (tot + wb_total b, sum + wb_sum b,
     if 0 < wb_total b then (case mn of None \<Rightarrow> Some (wb_min b) | Some m \<Rightarrow> Some (if wb_min b < m then wb_min b else m)) else mn,
     if 0 < wb_total b \<and> mx < wb_max b then wb_max b else mx,
     map2 (+) out (wb_counts b)))"

definition foldLocked :: "int \<Rightarrow> int list \<Rightarrow> histogram \<Rightarrow> fold_acc \<times> histogram" where
  "foldLocked sec out h =
    (let h1 = hist_advance sec h in (foldl (\<lambda>acc b. fold_bucket b acc) (0, 0, None, 0, out) (hg_buckets h1), h1))"

text \<open>The loop over the merged counts: \<open>None\<close> when it runs out.\<close>

fun quantile_scan :: "int list \<Rightarrow> int \<Rightarrow> nat \<Rightarrow> int \<Rightarrow> int list \<Rightarrow> int option" where
  "quantile_scan bs target i running [] = None"
| "quantile_scan bs target i running (c # cs) =
    (let running' = running + c
     in if 0 < c \<and> target \<le> running'
        then let lo = lowerBound bs i; hi = bs ! i; inBucket = target - (running' - c);
                 frac = fl64 (fl64 (fl64 (of_int inBucket) - 1 / 2) / fl64 (of_int c))
             in Some (lo + trunc (fl64 (fl64 (of_int (hi - lo)) * frac)))
        else quantile_scan bs target (Suc i) running' cs)"

definition quantile_target :: "int \<Rightarrow> rat \<Rightarrow> int" where
  "quantile_target tot q =
    (let t = \<lceil>fl64 (q * fl64 (of_int tot))\<rceil>; t = (if t < 1 then 1 else t) in if tot < t then tot else t)"

definition quantileFromMerged :: "int list \<Rightarrow> int list \<Rightarrow> int \<Rightarrow> rat \<Rightarrow> int" where
  "quantileFromMerged bs merged tot q =
    (if tot = 0 then 0
     else case quantile_scan bs (quantile_target tot q) 0 0 merged of Some d \<Rightarrow> d | None \<Rightarrow> bs ! (length bs - 1))"

definition clamp01 :: "rat \<Rightarrow> rat" where
  "clamp01 q = (let q = (if q < 0 then 0 else q) in if 1 < q then 1 else q)"

definition zeros :: "int list \<Rightarrow> int list" where
  "zeros bs = replicate (length bs) 0"

definition hist_Quantile :: "int \<Rightarrow> rat \<Rightarrow> histogram \<Rightarrow> int \<times> histogram" where
  "hist_Quantile sec q h =
    (let ((tot, _, _, _, merged), h1) = foldLocked sec (zeros (hg_boundaries h)) h
     in (quantileFromMerged (hg_boundaries h) merged tot (clamp01 q), h1))"

record lat_stats =
  st_Count :: "64 word"
  st_Min :: int
  st_Max :: int
  st_Mean :: int
  st_P50 :: int
  st_P90 :: int
  st_P99 :: int
  st_P999 :: int

text \<open>The constants are the \<open>float64\<close> values nearest to the decimal fractions.\<close>

definition stats_of :: "int list \<Rightarrow> fold_acc \<Rightarrow> lat_stats" where
  "stats_of bs = (\<lambda>(tot, sum, mn, mx, merged).
    if tot = 0 then \<lparr>st_Count = 0, st_Min = 0, st_Max = 0, st_Mean = 0, st_P50 = 0, st_P90 = 0, st_P99 = 0, st_P999 = 0\<rparr>
    else \<lparr>st_Count = word_of_int tot, st_Min = (case mn of None \<Rightarrow> 0 | Some m \<Rightarrow> m), st_Max = mx,
          st_Mean = (if sum > 0 then sint (sum div word_of_int tot) else 0),
          st_P50 = quantileFromMerged bs merged tot (fl64 (1 / 2)), st_P90 = quantileFromMerged bs merged tot (fl64 (9 / 10)),
          st_P99 = quantileFromMerged bs merged tot (fl64 (99 / 100)), st_P999 = quantileFromMerged bs merged tot (fl64 (999 / 1000))\<rparr>)"

definition hist_Snapshot :: "int \<Rightarrow> histogram \<Rightarrow> lat_stats \<times> histogram" where
  "hist_Snapshot sec h = (let (acc, h1) = foldLocked sec (zeros (hg_boundaries h)) h in (stats_of (hg_boundaries h) acc, h1))"

subsection \<open>Shards\<close>

record shard_histogram =
  sh_shards :: "histogram list"
  sh_rr :: "64 word"

definition AutoShardCount :: "int \<Rightarrow> int" where
  "AutoShardCount procs = (let n = procs div 2 in if n < 2 then 2 else n)"

text \<open>Each shard reads the clock when it is made.\<close>

definition NewShardHistogram :: "int \<Rightarrow> (nat \<Rightarrow> int) \<Rightarrow> int \<Rightarrow> latency_options \<Rightarrow> shard_histogram option" where
  "NewShardHistogram procs sec n opts =
    (let n = (if n \<le> 0 then AutoShardCount procs else n)
     in map_option (\<lambda>hs. \<lparr>sh_shards = hs, sh_rr = 0\<rparr>) (those (map (\<lambda>i. NewHistogram (sec i) opts) [0..<nat n])))"

definition sh_Observe :: "int \<Rightarrow> int \<Rightarrow> shard_histogram \<Rightarrow> shard_histogram" where
  "sh_Observe sec d s =
    (let rr = sh_rr s + 1; idx = unat rr mod length (sh_shards s)
     in s\<lparr>sh_rr := rr, sh_shards := (sh_shards s)[idx := hist_Observe sec d (sh_shards s ! idx)]\<rparr>)"

definition merge_acc :: "fold_acc \<Rightarrow> fold_acc \<Rightarrow> fold_acc" where
  "merge_acc = (\<lambda>(tot, sum, mn, mx, _) (t, su, mn', mx', merged).
    (tot + t, sum + su,
     case mn' of None \<Rightarrow> mn | Some m' \<Rightarrow> (case mn of None \<Rightarrow> Some m' | Some m \<Rightarrow> Some (if m' < m then m' else m)),
     if mx < mx' then mx' else mx, merged))"

text \<open>\<open>foldAll\<close>: each shard folds into the counts that the shards before it left.\<close>

fun foldAll :: "int \<Rightarrow> fold_acc \<Rightarrow> histogram list \<Rightarrow> fold_acc \<times> histogram list" where
  "foldAll sec acc [] = (acc, [])"
| "foldAll sec acc (h # hs) =
    (let (f, h1) = foldLocked sec (snd (snd (snd (snd acc)))) h; (acc', hs') = foldAll sec (merge_acc acc f) hs in (acc', h1 # hs'))"

definition sh_bounds :: "shard_histogram \<Rightarrow> int list" where
  "sh_bounds s = hg_boundaries (hd (sh_shards s))"

definition sh_Quantile :: "int \<Rightarrow> rat \<Rightarrow> shard_histogram \<Rightarrow> int \<times> shard_histogram" where
  "sh_Quantile sec q s =
    (let ((tot, _, _, _, merged), hs) = foldAll sec (0, 0, None, 0, zeros (sh_bounds s)) (sh_shards s)
     in (quantileFromMerged (sh_bounds s) merged tot (clamp01 q), s\<lparr>sh_shards := hs\<rparr>))"

definition sh_Snapshot :: "int \<Rightarrow> shard_histogram \<Rightarrow> lat_stats \<times> shard_histogram" where
  "sh_Snapshot sec s =
    (let (acc, hs) = foldAll sec (0, 0, None, 0, zeros (sh_bounds s)) (sh_shards s) in (stats_of (sh_bounds s) acc, s\<lparr>sh_shards := hs\<rparr>))"

subsection \<open>Ranges partition the durations\<close>

definition splits_at :: "(nat \<Rightarrow> bool) \<Rightarrow> nat \<Rightarrow> nat \<Rightarrow> nat \<Rightarrow> bool" where
  "splits_at f i j r \<longleftrightarrow> r \<in> {i..j} \<and> (\<forall>k\<in>{i..<r}. \<not> f k) \<and> (\<forall>k\<in>{r..<j}. f k)"

lemma splits_atD:
  assumes "splits_at f i j r"
  shows "r \<le> j" "i \<le> k \<Longrightarrow> k < r \<Longrightarrow> \<not> f k" "r < j \<Longrightarrow> f r"
  using assms by (auto simp: splits_at_def)

lemma splits_right: "splits_at f (h + 1) j r \<Longrightarrow> i \<le> h \<Longrightarrow> \<forall>k\<in>{i..h}. \<not> f k \<Longrightarrow> splits_at f i j r"
  unfolding splits_at_def by (metis Suc_eq_plus1 atLeastAtMost_iff atLeastLessThan_iff le_trans not_less_eq_eq le_SucI)

lemma splits_left: "splits_at f i h r \<Longrightarrow> h < j \<Longrightarrow> \<forall>k\<in>{h..<j}. f k \<Longrightarrow> splits_at f i j r"
  unfolding splits_at_def by (metis atLeastAtMost_iff atLeastLessThan_iff le_trans less_imp_le not_le)

lemma go_Search_spec:
  assumes "i \<le> j" and "\<And>a b. i \<le> a \<Longrightarrow> a \<le> b \<Longrightarrow> b < j \<Longrightarrow> f a \<Longrightarrow> f b"
  shows "splits_at f i j (go_Search f i j)"
  using assms
proof (induction f i j rule: go_Search.induct)
  case (1 f i j)
  show ?case
  proof (cases "i < j")
    case True
    define h where "h = (i + j) div 2"
    have h: "i \<le> h" "h < j" using True by (auto simp: h_def)
    show ?thesis
    proof (cases "f h")
      case False
      have low: "\<not> f k" if "k \<in> {i..h}" for k using that h False "1.prems"(2) [of k h] by auto
      have "splits_at f (h + 1) j (go_Search f (h + 1) j)"
      proof (rule "1.IH"(1) [OF True h_def False])
        show "f b" if "h + 1 \<le> a" "a \<le> b" "b < j" "f a" for a b using "1.prems"(2) [of a b] that h by simp
      qed (use h in simp)
      moreover have "go_Search f i j = go_Search f (h + 1) j" using True False by (subst go_Search.simps) (simp add: h_def Let_def)
      ultimately show ?thesis using splits_right h low by metis
    next
      case hit: True
      have high: "f k" if "k \<in> {h..<j}" for k using "1.prems"(2) [of h k] h hit that by auto
      have "splits_at f i h (go_Search f i h)"
      proof (rule "1.IH"(2) [OF True h_def])
        show "f b" if "i \<le> a" "a \<le> b" "b < h" "f a" for a b using "1.prems"(2) [of a b] that h by simp
      qed (use h hit in simp_all)
      moreover have "go_Search f i j = go_Search f i h" using True hit by (subst go_Search.simps) (simp add: h_def Let_def)
      ultimately show ?thesis using splits_left h high by metis
    qed
  qed (use "1.prems"(1) in \<open>simp add: go_Search.simps splits_at_def\<close>)
qed

lemma bounds_increase:
  assumes "validBoundaries bs" "i < j" "j < length bs"
  shows "bs ! i < bs ! j"
  using assms(2,3)
proof (induction j)
  case (Suc j)
  have step: "bs ! j < bs ! Suc j" using assms(1) Suc.prems(2) by (auto simp: validBoundaries_def)
  show ?case
  proof (cases "i = j")
    case False
    then have "bs ! i < bs ! j" using Suc by simp
    with step show ?thesis by simp
  qed (use step in simp)
qed simp

lemma bucketIndex_spec:
  assumes "validBoundaries bs"
  shows "bucketIndex bs v < length bs" "\<forall>k<bucketIndex bs v. bs ! k < v"
    "v \<le> bs ! bucketIndex bs v \<or> bucketIndex bs v = length bs - 1 \<and> bs ! (length bs - 1) < v"
proof -
  let ?r = "go_Search (\<lambda>i. v \<le> bs ! i) 0 (length bs)"
  have n: "0 < length bs" using assms by (auto simp: validBoundaries_def)
  have "splits_at (\<lambda>i. v \<le> bs ! i) 0 (length bs) ?r"
  proof (rule go_Search_spec)
    show "v \<le> bs ! b" if "a \<le> b" "b < length bs" "v \<le> bs ! a" for a b
      using bounds_increase [OF assms, of a b] that by (cases "a = b") auto
  qed simp
  from splits_atD [OF this] have r: "?r \<le> length bs" "\<And>k. k < ?r \<Longrightarrow> bs ! k < v" "?r < length bs \<Longrightarrow> v \<le> bs ! ?r"
    by (metis le0 not_le)+
  show "bucketIndex bs v < length bs" using r(1) n by (simp add: bucketIndex_def Let_def)
  show "\<forall>k<bucketIndex bs v. bs ! k < v" using r(2) n by (simp add: bucketIndex_def Let_def)
  show "v \<le> bs ! bucketIndex bs v \<or> bucketIndex bs v = length bs - 1 \<and> bs ! (length bs - 1) < v"
    using r n by (simp add: bucketIndex_def Let_def)
qed

lemma bucketIndex_mono:
  assumes "validBoundaries bs" "v \<le> w"
  shows "bucketIndex bs v \<le> bucketIndex bs w"
proof (rule ccontr)
  assume "\<not> ?thesis"
  then have less: "bucketIndex bs w < bucketIndex bs v" by simp
  have "bs ! bucketIndex bs w < v" using bucketIndex_spec(2) [OF assms(1), of v] less by blast
  then have "bucketIndex bs w = length bs - 1" using bucketIndex_spec(3) [OF assms(1), of w] assms(2) by auto
  then show False using less bucketIndex_spec(1) [OF assms(1), of v] by simp
qed

text \<open>A sample lies in the range of its bucket, unless it exceeds the last boundary.\<close>

lemma sample_in_range:
  assumes "validBoundaries bs" "0 \<le> v" "v \<le> bs ! (length bs - 1)"
  shows "lowerBound bs (bucketIndex bs v) \<le> v \<and> v \<le> bs ! bucketIndex bs v"
  using bucketIndex_spec [OF assms(1), of v] assms(2,3) by (auto simp: lowerBound_def less_imp_le)

subsection \<open>What a histogram stands for\<close>

text \<open>The samples of one second, those of all later seconds, and the bucket that a list of samples makes.\<close>

definition samples_at :: "int \<Rightarrow> (int \<times> int) list \<Rightarrow> int list" where
  "samples_at s evs = map snd (filter (\<lambda>e. fst e = s) evs)"

definition samples_since :: "int \<Rightarrow> (int \<times> int) list \<Rightarrow> int list" where
  "samples_since s evs = map snd (filter (\<lambda>e. s < fst e) evs)"

definition bucket_of :: "int list \<Rightarrow> int list \<Rightarrow> window_bucket" where
  "bucket_of bs xs = foldl (\<lambda>b d. wb_add bs d b) (zero_bucket (length bs)) xs"

definition hist_logs :: "nat \<Rightarrow> int list \<Rightarrow> (int \<times> int) list \<Rightarrow> histogram \<Rightarrow> bool" where
  "hist_logs n bs evs h \<longleftrightarrow> hg_boundaries h = bs \<and> 0 < n \<and> length (hg_buckets h) = n \<and> (\<forall>e\<in>set evs. fst e \<le> hg_base h)
    \<and> (\<forall>s\<in>{hg_base h - int n<..hg_base h}. hg_buckets h ! slot (hg_buckets h) s = bucket_of bs (samples_at s evs))"

lemma samples_at_future: "\<forall>e\<in>set evs. fst e \<le> b \<Longrightarrow> b < s \<Longrightarrow> samples_at s evs = []"
  by (auto simp: samples_at_def filter_empty_conv)

lemma counts_length [simp]: "length (wb_counts (bucket_of bs xs)) = length bs"
  by (induction xs rule: rev_induct) (simp_all add: bucket_of_def zero_bucket_def wb_add_def Let_def)

lemma bucket_of_snoc: "bucket_of bs (xs @ [d]) = wb_add bs d (bucket_of bs xs)"
  by (simp add: bucket_of_def)

lemma bucket_of_Nil [simp]: "bucket_of bs [] = zero_bucket (length bs)"
  by (simp add: bucket_of_def)

definition second_at :: "int \<Rightarrow> nat \<Rightarrow> nat \<Rightarrow> int" where
  "second_at b n i = b - (b - int i) mod int n"

lemma second_at_slot:
  assumes "i < length bs"
  shows "second_at b (length bs) i \<in> {b - int (length bs)<..b}" "slot bs (second_at b (length bs) i) = i"
proof -
  have n: "0 < int (length bs)" "bs \<noteq> []" using assms by auto
  then show "second_at b (length bs) i \<in> {b - int (length bs)<..b}"
    by (auto simp: second_at_def pos_mod_sign pos_mod_bound)
  show "slot bs (second_at b (length bs) i) = i" using assms by (auto simp: slot_def second_at_def mod_diff_right_eq)
qed

lemma second_at_bij: "0 < n \<Longrightarrow> bij_betw (second_at b n) {..<n} {b - int n<..b}"
proof (rule bij_betw_byWitness [where f' = "slot (replicate n ())"])
  assume n: "0 < n"
  have len: "length (replicate n ()) = n" by simp
  show "\<forall>i\<in>{..<n}. slot (replicate n ()) (second_at b n i) = i" using second_at_slot(2) [of _ "replicate n ()" b] by simp
  show "second_at b n ` {..<n} \<subseteq> {b - int n<..b}" using second_at_slot(1) [of _ "replicate n ()" b] by auto
  show "slot (replicate n ()) ` {b - int n<..b} \<subseteq> {..<n}" using slot_less [of "replicate n ()"] n by auto
  show "\<forall>s\<in>{b - int n<..b}. second_at b n (slot (replicate n ()) s) = s"
  proof
    fix s assume s: "s \<in> {b - int n<..b}"
    let ?i = "slot (replicate n ()) s"
    have "?i < length (replicate n ())" using slot_less [of "replicate n ()" s] n by auto
    from second_at_slot [OF this, of b] show "second_at b n ?i = s"
      using slot_inj [of "second_at b n ?i" b "replicate n ()" s] s by simp
  qed
qed

lemma window_samples:
  assumes "0 < n" "\<forall>e\<in>set evs. fst e \<le> b"
  shows "mset (concat (map (\<lambda>i. samples_at (second_at b n i) evs) [0..<n])) = mset (samples_since (b - int n) evs)"
proof -
  have "mset (concat (map (\<lambda>i. samples_at (second_at b n i) evs) [0..<n])) = (\<Sum>i\<in>{..<n}. mset (samples_at (second_at b n i) evs))"
    by (simp add: mset_concat comp_def sum_list_distinct_conv_sum_set atLeast0LessThan)
  also have "\<dots> = (\<Sum>s\<in>{b - int n<..b}. mset (samples_at s evs))"
    by (rule sum.reindex_bij_betw [OF second_at_bij [OF assms(1)], of "\<lambda>s. mset (samples_at s evs)"])
  also have "\<dots> = mset (samples_since (b - int n) evs)"
    using assms(2)
  proof (induction evs)
    case (Cons e evs)
    have "(\<Sum>s\<in>{b - int n<..b}. mset (samples_at s (e # evs)))
        = (\<Sum>s\<in>{b - int n<..b}. if s = fst e then {#snd e#} else {#}) + (\<Sum>s\<in>{b - int n<..b}. mset (samples_at s evs))"
      by (subst sum.distrib [symmetric]) (rule sum.cong, auto simp: samples_at_def)
    then show ?case using Cons by (auto simp: samples_since_def sum.delta)
  qed (simp add: samples_at_def samples_since_def)
  finally show ?thesis .
qed

lemma buckets_list:
  assumes "hist_logs n bs evs h"
  shows "hg_buckets h = map (bucket_of bs) (map (\<lambda>i. samples_at (second_at (hg_base h) n i) evs) [0..<n])"
proof (rule nth_equalityI)
  fix i assume i: "i < length (hg_buckets h)"
  have "hg_buckets h ! slot (hg_buckets h) (second_at (hg_base h) n i) = bucket_of bs (samples_at (second_at (hg_base h) n i) evs)"
    using second_at_slot(1) [OF i, of "hg_base h"] assms by (simp add: hist_logs_def)
  then show "hg_buckets h ! i = map (bucket_of bs) (map (\<lambda>i. samples_at (second_at (hg_base h) n i) evs) [0..<n]) ! i"
    using second_at_slot(2) [OF i, of "hg_base h"] i assms by (simp add: hist_logs_def)
qed (use assms in \<open>simp add: hist_logs_def\<close>)

subsection \<open>The operations keep the log\<close>

lemma zero_step_logs:
  assumes "hist_logs n bs evs h"
  shows "hist_logs n bs evs (zeroBucket (slot (hg_buckets h) (hg_base h + 1)) (h\<lparr>hg_base := hg_base h + 1\<rparr>))"
proof -
  let ?B = "hg_buckets h" and ?i = "slot (hg_buckets h) (hg_base h + 1)"
  have r: "?B \<noteq> []" "length ?B = n" "\<forall>e\<in>set evs. fst e \<le> hg_base h" using assms by (auto simp: hist_logs_def)
  have i: "?i < n" using slot_less [OF r(1)] r(2) by simp
  then have z: "length (wb_counts (?B ! ?i)) = length bs" by (simp add: buckets_list [OF assms])
  have "?B[?i := zero_bucket (length bs)] ! slot ?B s = bucket_of bs (samples_at s evs)" if s: "s \<in> {hg_base h + 1 - int n<..hg_base h + 1}" for s
  proof (cases "s = hg_base h + 1")
    case True
    then show ?thesis using i r(2) samples_at_future [OF r(3), of s] by simp
  next
    case False
    then have "slot ?B s \<noteq> ?i" using slot_inj [of s "hg_base h + 1" ?B "hg_base h + 1"] s r by auto
    then show ?thesis using False s assms by (auto simp: hist_logs_def)
  qed
  moreover have "\<forall>e\<in>set evs. fst e \<le> hg_base h + 1" using r(3) by auto
  ultimately show ?thesis using assms z by (auto simp: hist_logs_def zeroBucket_def)
qed

lemma roll_logs: "hist_logs n bs evs h \<Longrightarrow> hist_logs n bs evs (hist_roll sec h) \<and> hg_base (hist_roll sec h) = max sec (hg_base h)"
proof (induction sec h rule: hist_roll.induct)
  case (1 sec h)
  show ?case
  proof (cases "hg_base h < sec")
    case True
    let ?h = "zeroBucket (slot (hg_buckets h) (hg_base h + 1)) (h\<lparr>hg_base := hg_base h + 1\<rparr>)"
    have "hist_roll sec h = hist_roll sec ?h" using True by (subst hist_roll.simps) (simp add: Let_def)
    moreover have "hist_logs n bs evs (hist_roll sec ?h) \<and> hg_base (hist_roll sec ?h) = max sec (hg_base ?h)"
      using "1.IH" [OF True refl] zero_step_logs [OF "1.prems"] by simp
    ultimately show ?thesis using True by (simp add: zeroBucket_def max_def)
  next
    case False
    then have "hist_roll sec h = h" by (subst hist_roll.simps) simp
    then show ?thesis using False "1.prems" by simp
  qed
qed

lemma zero_all:
  assumes "k \<le> length (hg_buckets h)"
  shows "hg_buckets (foldl (\<lambda>h i. zeroBucket i h) h [0..<k])
      = map (\<lambda>b. zero_bucket (length (wb_counts b))) (take k (hg_buckets h)) @ drop k (hg_buckets h)
    \<and> hg_boundaries (foldl (\<lambda>h i. zeroBucket i h) h [0..<k]) = hg_boundaries h"
  using assms
proof (induction k)
  case (Suc k)
  then have d: "drop k (hg_buckets h) = hg_buckets h ! k # drop (Suc k) (hg_buckets h)" by (simp add: Cons_nth_drop_Suc)
  show ?case using Suc d by (auto simp: zeroBucket_def nth_append take_Suc_conv_app_nth list_update_append)
qed simp

lemma advance_logs:
  assumes "hist_logs n bs evs h"
  shows "hist_logs n bs evs (hist_advance sec h) \<and> hg_base (hist_advance sec h) = max sec (hg_base h)"
proof -
  let ?h = "(foldl (\<lambda>h i. zeroBucket i h) h [0..<length (hg_buckets h)])\<lparr>hg_base := sec\<rparr>"
  have n: "0 < n" "length (hg_buckets h) = n" "\<forall>e\<in>set evs. fst e \<le> hg_base h" using assms by (simp_all add: hist_logs_def)
  have "hist_logs n bs evs ?h" if late: "int n \<le> sec - hg_base h"
  proof -
    have b: "hg_buckets ?h = replicate n (zero_bucket (length bs))" "hg_boundaries ?h = bs"
    proof -
      have "map (\<lambda>b. zero_bucket (length (wb_counts b))) (hg_buckets h) = map (\<lambda>i. zero_bucket (length bs)) [0..<n]"
        by (simp add: buckets_list [OF assms])
      then show "hg_buckets ?h = replicate n (zero_bucket (length bs))" using zero_all [of n h] n by (simp add: map_replicate_const)
      show "hg_boundaries ?h = bs" using zero_all [of n h] n assms by (simp add: hist_logs_def)
    qed
    have "replicate n (zero_bucket (length bs)) ! slot (replicate n (zero_bucket (length bs))) s = bucket_of bs (samples_at s evs)"
      if "s \<in> {sec - int n<..sec}" for s
    proof -
      have "slot (replicate n (zero_bucket (length bs))) s < n" using slot_less [of "replicate n (zero_bucket (length bs))" s] n by simp
      then show ?thesis using samples_at_future [OF n(3), of s] that late by simp
    qed
    moreover have "\<forall>e\<in>set evs. fst e \<le> sec" using n late by auto
    ultimately show ?thesis using b n(1) by (simp add: hist_logs_def)
  qed
  then show ?thesis using assms n roll_logs [OF assms, of sec] by (auto simp: hist_advance_def)
qed

lemma Observe_logs:
  assumes "hist_logs n bs evs h"
  shows "hist_logs n bs (evs @ [(max sec (hg_base h), max 0 d)]) (hist_Observe sec d h)"
    "hg_base (hist_Observe sec d h) = max sec (hg_base h)"
proof -
  let ?h = "hist_advance sec h" and ?b = "max sec (hg_base h)" and ?d = "max 0 d"
  have a: "hist_logs n bs evs ?h" "hg_base ?h = ?b" using advance_logs [OF assms, of sec] by simp_all
  let ?B = "hg_buckets ?h" and ?i = "slot (hg_buckets ?h) ?b"
  have r: "?B \<noteq> []" "length ?B = n" "hg_boundaries ?h = bs" "\<forall>e\<in>set evs. fst e \<le> ?b" using a by (auto simp: hist_logs_def)
  have o: "hist_Observe sec d h = ?h\<lparr>hg_buckets := ?B[?i := wb_add bs ?d (?B ! ?i)]\<rparr>"
  proof -
    have "(if d < 0 then 0 else d) = ?d" "(if sec < hg_base ?h then hg_base ?h else sec) = ?b" using a(2) by auto
    then show ?thesis unfolding hist_Observe_def Let_def using r(3) by simp
  qed
  have "?B[?i := wb_add bs ?d (?B ! ?i)] ! slot ?B s = bucket_of bs (samples_at s (evs @ [(?b, ?d)]))" if s: "s \<in> {?b - int n<..?b}" for s
  proof (cases "s = ?b")
    case True
    then have "?B ! ?i = bucket_of bs (samples_at ?b evs)" using a s by (auto simp: hist_logs_def)
    then show ?thesis using True slot_less [OF r(1)] by (simp add: samples_at_def bucket_of_snoc)
  next
    case False
    then have "slot ?B s \<noteq> ?i" using slot_inj [of s ?b ?B ?b] s r by auto
    then show ?thesis using False s a by (auto simp: hist_logs_def samples_at_def)
  qed
  then show "hist_logs n bs (evs @ [(?b, ?d)]) (hist_Observe sec d h)" using a r unfolding o by (auto simp: hist_logs_def)
  show "hg_base (hist_Observe sec d h) = ?b" using a(2) by (simp add: o)
qed

subsection \<open>What a fold returns\<close>

definition range_counts :: "int list \<Rightarrow> int list \<Rightarrow> int list" where
  "range_counts bs xs = map (\<lambda>j. int (count_list (map (bucketIndex bs) xs) j)) [0..<length bs]"

definition summary :: "int list \<Rightarrow> int list \<Rightarrow> int list \<Rightarrow> fold_acc" where
  "summary bs out xs = (int (length xs), word_of_int (sum_list xs), if xs = [] then None else Some (Min (set xs)), Max (insert 0 (set xs)),
    map2 (+) out (range_counts bs xs))"

lemma summary_perm: "mset xs = mset ys \<Longrightarrow> summary bs out xs = summary bs out ys"
proof -
  assume p: "mset xs = mset ys"
  then have "sum_list xs = sum_list ys" using sum_mset_sum_list by metis
  moreover have "length xs = length ys" "set xs = set ys" using p by (metis size_mset, metis set_mset_mset)
  moreover have "count_list (map (bucketIndex bs) xs) = count_list (map (bucketIndex bs) ys)"
    using p by (metis count_mset mset_map ext)
  moreover have "xs = [] \<longleftrightarrow> ys = []" using p by auto
  ultimately show ?thesis by (simp add: summary_def range_counts_def)
qed

lemma range_counts_length: "length (range_counts bs xs) = length bs"
  by (simp add: range_counts_def)

lemma range_counts_snoc:
  "bucketIndex bs d < length bs \<Longrightarrow> range_counts bs (xs @ [d]) = (range_counts bs xs)[bucketIndex bs d := range_counts bs xs ! bucketIndex bs d + 1]"
  by (rule nth_equalityI) (auto simp: range_counts_def nth_list_update)

lemma bucket_of_fields:
  assumes "validBoundaries bs"
  shows "wb_total (bucket_of bs xs) = int (length xs)" "wb_sum (bucket_of bs xs) = word_of_int (sum_list xs)"
    "wb_counts (bucket_of bs xs) = range_counts bs xs"
    "xs \<noteq> [] \<Longrightarrow> wb_min (bucket_of bs xs) = Min (set xs)" "xs \<noteq> [] \<Longrightarrow> wb_max (bucket_of bs xs) = Max (set xs)"
proof -
  have "wb_total (bucket_of bs xs) = int (length xs) \<and> wb_sum (bucket_of bs xs) = word_of_int (sum_list xs)
      \<and> wb_counts (bucket_of bs xs) = range_counts bs xs
      \<and> (xs \<noteq> [] \<longrightarrow> wb_min (bucket_of bs xs) = Min (set xs) \<and> wb_max (bucket_of bs xs) = Max (set xs))"
  proof (induction xs rule: rev_induct)
    case Nil
    show ?case by (simp add: zero_bucket_def range_counts_def map_replicate_const)
  next
    case (snoc d xs)
    have "range_counts bs [d] = (range_counts bs [])[bucketIndex bs d := range_counts bs [] ! bucketIndex bs d + 1]"
      using range_counts_snoc [OF bucketIndex_spec(1) [OF assms], of "[]"] by simp
    with snoc show ?case using bucketIndex_spec(1) [OF assms, of d]
      unfolding bucket_of_snoc by (cases "xs = []") (simp_all add: wb_add_def range_counts_snoc Let_def max.commute)
  qed
  then show "wb_total (bucket_of bs xs) = int (length xs)" "wb_sum (bucket_of bs xs) = word_of_int (sum_list xs)"
    "wb_counts (bucket_of bs xs) = range_counts bs xs"
    "xs \<noteq> [] \<Longrightarrow> wb_min (bucket_of bs xs) = Min (set xs)" "xs \<noteq> [] \<Longrightarrow> wb_max (bucket_of bs xs) = Max (set xs)"
    by simp_all
qed

lemma if_min_max: "(if b < a then b else a) = min a (b :: int)" "(if a < b then b else a) = max a (b :: int)"
  by auto

lemma range_counts_append: "map2 (+) (range_counts bs xs) (range_counts bs ys) = range_counts bs (xs @ ys)"
  by (rule nth_equalityI) (simp_all add: range_counts_def)

lemma map2_plus_assoc: "length a = length b \<Longrightarrow> length b = length c \<Longrightarrow> map2 (+) (map2 (+) a b) c = map2 (+) a (map2 (+) b (c :: int list))"
  by (rule nth_equalityI) simp_all

lemma fold_bucket_summary:
  assumes "validBoundaries bs" "length out = length bs" "\<forall>x\<in>set ys. 0 \<le> x"
  shows "fold_bucket (bucket_of bs ys) (summary bs out xs) = summary bs out (xs @ ys)"
proof (cases "ys = []")
  case True
  have "map2 (+) zs (replicate (length zs) 0) = zs" for zs :: "int list" by (rule nth_equalityI) simp_all
  from this [of "map2 (+) out (range_counts bs xs)"] True assms(2) show ?thesis
    by (simp add: fold_bucket_def summary_def zero_bucket_def range_counts_def)
next
  case False
  have m: "map2 (+) (map2 (+) out (range_counts bs xs)) (range_counts bs ys) = map2 (+) out (range_counts bs (xs @ ys))"
    using assms(2) map2_plus_assoc [of out "range_counts bs xs" "range_counts bs ys"] by (simp add: range_counts_append range_counts_length)
  have "Max (insert 0 (set xs \<union> set ys)) = max (Max (insert 0 (set xs))) (Max (set ys))"
    using False by (metis List.finite_set Max_Un Un_insert_left finite_insert insert_not_empty set_empty2)
  moreover have "xs \<noteq> [] \<Longrightarrow> Min (set xs \<union> set ys) = min (Min (set xs)) (Min (set ys))" using False by (simp add: Min_Un)
  moreover have "0 < int (length ys)" using False by simp
  ultimately show ?thesis unfolding fold_bucket_def summary_def case_prod_conv bucket_of_fields(1-3) [OF assms(1)]
      bucket_of_fields(4,5) [OF assms(1) False] if_min_max m
    by (simp add: if_min_max del: Max_less_iff Min_less_iff)
qed

lemma foldLocked_summary:
  assumes "hist_logs n bs evs h" "validBoundaries bs" "length out = length bs" "\<forall>e\<in>set evs. 0 \<le> snd e"
  shows "fst (foldLocked sec out h) = summary bs out (samples_since (max sec (hg_base h) - int n) evs)"
proof -
  let ?h = "hist_advance sec h" and ?b = "max sec (hg_base h)"
  have a: "hist_logs n bs evs ?h" "hg_base ?h = ?b" using advance_logs [OF assms(1), of sec] by simp_all
  have fold: "foldl (\<lambda>acc b. fold_bucket b acc) (summary bs out xs) (map (bucket_of bs) yss) = summary bs out (xs @ concat yss)"
    if "\<forall>ys\<in>set yss. \<forall>y\<in>set ys. 0 \<le> y" for xs yss
    using that by (induction yss arbitrary: xs) (simp_all add: fold_bucket_summary [OF assms(2,3)])
  have "map2 (+) out (range_counts bs []) = out" by (rule nth_equalityI) (simp_all add: range_counts_def assms(3))
  then have "(0, 0, None, 0, out) = summary bs out []" by (simp add: summary_def)
  then have "fst (foldLocked sec out h) = foldl (\<lambda>acc b. fold_bucket b acc) (summary bs out []) (hg_buckets ?h)"
    by (simp add: foldLocked_def Let_def)
  also have "\<dots> = summary bs out ([] @ concat (map (\<lambda>i. samples_at (second_at ?b n i) evs) [0..<n]))"
    unfolding buckets_list [OF a(1)] a(2) by (rule fold) (use assms(4) in \<open>auto simp: samples_at_def\<close>)
  also have "\<dots> = summary bs out (samples_since (?b - int n) evs)"
    using window_samples [of n evs ?b] a by (intro summary_perm) (simp add: hist_logs_def)
  finally show ?thesis .
qed

subsection \<open>Percentiles\<close>

lemma sorted_rank:
  assumes "sorted ys" "length (filter (\<lambda>y. y < i) ys) \<le> k" "k < length (filter (\<lambda>y. y \<le> i) ys)"
  shows "ys ! k = (i :: nat)"
proof (rule ccontr)
  assume ne: "ys ! k \<noteq> i"
  have k: "k < length ys" using assms(3) length_filter_le [of "\<lambda>y. y \<le> i" ys] by linarith
  have c: "length (filter P ys) = card {j. j < length ys \<and> P (ys ! j)}" for P by (rule length_filter_conv_card)
  show False
  proof (cases "ys ! k < i")
    case True
    then have "{..k} \<subseteq> {j. j < length ys \<and> ys ! j < i}" using k sorted_nth_mono [OF assms(1)] by (auto intro: le_less_trans)
    from card_mono [OF _ this] have "Suc k \<le> length (filter (\<lambda>y. y < i) ys)" by (simp add: c)
    then show False using assms(2) by simp
  next
    case False
    then have "i < ys ! k" using ne by simp
    then have "{j. j < length ys \<and> ys ! j \<le> i} \<subseteq> {..<k}"
      using sorted_nth_mono [OF assms(1), of k] by (force simp: not_le [symmetric])
    from card_mono [OF _ this] show False using assms(3) by (simp add: c)
  qed
qed

definition interpolate :: "int list \<Rightarrow> nat \<Rightarrow> int \<Rightarrow> int \<Rightarrow> int" where
  "interpolate bs i inBucket c = lowerBound bs i
    + trunc (fl64 (fl64 (of_int (bs ! i - lowerBound bs i)) * fl64 (fl64 (fl64 (of_int inBucket) - 1 / 2) / fl64 (of_int c))))"

text \<open>The scan stops in the range of the sample of rank \<open>target\<close>.\<close>

lemma scan_finds:
  assumes "\<forall>y\<in>set ys. y < m" "sorted ys" "i \<le> m" "int (length (filter (\<lambda>y. y < i) ys)) < target" "target \<le> int (length ys)"
  shows "\<exists>inBucket c. quantile_scan bs target i (int (length (filter (\<lambda>y. y < i) ys))) (map (\<lambda>j. int (count_list ys j)) [i..<m])
      = Some (interpolate bs (ys ! nat (target - 1)) inBucket c) \<and> 1 \<le> inBucket \<and> inBucket \<le> c \<and> c \<le> int (length ys)"
  using assms(3,4)
proof (induction "m - i" arbitrary: i)
  case 0
  then have "filter (\<lambda>y. y < i) ys = ys" using assms(1) by (auto simp: filter_id_conv)
  then show ?case using 0 assms(5) by simp
next
  case (Suc d)
  let ?c = "int (count_list ys i)" and ?r = "int (length (filter (\<lambda>y. y < i) ys))"
  have im: "i < m" using Suc.hyps(2) by simp
  have next': "?r + ?c = int (length (filter (\<lambda>y. y < Suc i) ys))"
    by (induction ys) (auto simp: less_Suc_eq)
  have le: "(\<lambda>y. y < Suc i) = (\<lambda>y. y \<le> i)" by (simp add: less_Suc_eq_le)
  show ?case
  proof (cases "0 < ?c \<and> target \<le> ?r + ?c")
    case True
    then have "ys ! nat (target - 1) = i" using Suc.prems(2) next' unfolding le by (intro sorted_rank [OF assms(2)]) linarith+
    moreover have "?c \<le> int (length ys)" using count_le_length by simp
    moreover have "quantile_scan bs target i ?r (map (\<lambda>j. int (count_list ys j)) [i..<m]) = Some (interpolate bs i (target - ?r) ?c)"
      using True im by (simp add: upt_conv_Cons interpolate_def Let_def)
    ultimately show ?thesis using True Suc.prems(2)
      by (intro exI [of _ "target - ?r"] exI [of _ ?c]) simp
  next
    case False
    then have "?r + ?c < target" using Suc.prems(2) by auto
    then have "int (length (filter (\<lambda>y. y < Suc i) ys)) < target" using next' by simp
    from Suc.hyps(1) [OF _ _ this] Suc.hyps(2) im False show ?thesis unfolding next' [symmetric]
      by (auto simp: upt_conv_Cons [OF im] Let_def)
  qed
qed

lemma interpolate_range:
  assumes "1 \<le> inBucket" "inBucket \<le> c" "c \<le> 2 ^ 53" "lowerBound bs i \<le> bs ! i" "bs ! i - lowerBound bs i \<le> 2 ^ 53"
  shows "lowerBound bs i \<le> interpolate bs i inBucket c \<and> interpolate bs i inBucket c \<le> bs ! i"
proof -
  let ?w = "bs ! i - lowerBound bs i"
  let ?frac = "fl64 (fl64 (fl64 (of_int inBucket) - 1 / 2) / fl64 (of_int c))"
  have e: "fl64 (of_int inBucket) = of_int inBucket" "fl64 (of_int c) = of_int c" "fl64 (of_int ?w) = of_int ?w"
    using assms by (intro fl64_int; simp)+
  have one: "fl64 1 = 1" using fl64_int [of 1] by simp
  have "(1 :: rat) \<le> of_int inBucket" using assms(1) by simp
  then have "fl64 (of_int inBucket - 1 / 2) \<le> of_int c" "0 \<le> fl64 (of_int inBucket - 1 / 2)"
    using fl64_mono [of "of_int inBucket - 1 / 2" "of_int c"] e assms(2) by (auto intro!: fl64_nonneg)
  then have "0 \<le> fl64 (of_int inBucket - 1 / 2) / of_int c" "fl64 (of_int inBucket - 1 / 2) / of_int c \<le> 1"
    using assms by (simp_all add: divide_le_eq_1)
  then have f: "0 \<le> ?frac" "?frac \<le> 1" using fl64_mono [of _ 1] fl64_nonneg one e by simp_all
  then have "0 \<le> of_int ?w * ?frac" "of_int ?w * ?frac \<le> of_int ?w"
    using assms(4) by (simp_all add: mult_left_le)
  then have "0 \<le> fl64 (of_int ?w * ?frac)" "fl64 (of_int ?w * ?frac) \<le> of_int ?w"
    using fl64_nonneg fl64_mono [of "of_int ?w * ?frac" "of_int ?w"] e(3) by simp_all
  then have "0 \<le> trunc (fl64 (of_int ?w * ?frac))" "trunc (fl64 (of_int ?w * ?frac)) \<le> ?w"
    by (simp_all add: trunc_def floor_le_iff)
  then show ?thesis unfolding interpolate_def e(3) by linarith
qed

lemma target_range: "0 < tot \<Longrightarrow> 1 \<le> quantile_target tot q \<and> quantile_target tot q \<le> tot"
  by (simp add: quantile_target_def Let_def)

lemma range_width:
  assumes "validBoundaries bs" "i < length bs"
  shows "lowerBound bs i \<le> bs ! i" "bs ! (length bs - 1) \<le> 2 ^ 53 \<Longrightarrow> bs ! i - lowerBound bs i \<le> 2 ^ 53"
proof -
  have p: "0 < bs ! i" "0 < i \<Longrightarrow> 0 < bs ! (i - 1)" using assms by (auto simp: validBoundaries_def)
  show "lowerBound bs i \<le> bs ! i" using p bounds_increase [OF assms(1), of "i - 1" i] assms(2) by (cases i) (simp_all add: lowerBound_def)
  have "0 \<le> lowerBound bs i" using p(2) by (cases i) (simp_all add: lowerBound_def less_imp_le)
  moreover have "bs ! i \<le> bs ! (length bs - 1)"
  proof (cases "i = length bs - 1")
    case False
    then have "i < length bs - 1" "length bs - 1 < length bs" using assms(2) by simp_all
    from bounds_increase [OF assms(1) this] show ?thesis by simp
  qed simp
  ultimately show "bs ! (length bs - 1) \<le> 2 ^ 53 \<Longrightarrow> bs ! i - lowerBound bs i \<le> 2 ^ 53" by linarith
qed

definition in_range :: "int list \<Rightarrow> int \<Rightarrow> int \<Rightarrow> bool" where
  "in_range bs v d \<longleftrightarrow> lowerBound bs (bucketIndex bs v) \<le> d \<and> d \<le> bs ! bucketIndex bs v"

lemma quantile_in_range:
  assumes "validBoundaries bs" "bs ! (length bs - 1) \<le> 2 ^ 53" "xs \<noteq> []" "length xs \<le> 2 ^ 53"
  shows "in_range bs (sort xs ! nat (quantile_target (int (length xs)) q - 1)) (quantileFromMerged bs (range_counts bs xs) (int (length xs)) q)"
proof -
  let ?t = "quantile_target (int (length xs)) q" and ?ys = "map (bucketIndex bs) (sort xs)"
  have t: "1 \<le> ?t" "?t \<le> int (length xs)" using target_range [of "int (length xs)" q] assms(3) by simp_all
  have "sorted ?ys" using sorted_sort [of xs] by (auto simp: sorted_iff_nth_mono intro: bucketIndex_mono [OF assms(1)])
  have c: "range_counts bs xs = map (\<lambda>j. int (count_list ?ys j)) [0..<length bs]"
    unfolding range_counts_def using mset_sort by (metis count_mset mset_map)
  obtain inB c where s: "quantile_scan bs ?t 0 0 (range_counts bs xs) = Some (interpolate bs (?ys ! nat (?t - 1)) inB c)" "1 \<le> inB" "inB \<le> c" "c \<le> int (length xs)"
    using scan_finds [of ?ys "length bs" 0 ?t bs] \<open>sorted ?ys\<close> t bucketIndex_spec(1) [OF assms(1)] unfolding c by auto
  have y: "?ys ! nat (?t - 1) = bucketIndex bs (sort xs ! nat (?t - 1))" using t by (subst nth_map) auto
  have "int (length xs) \<le> 2 ^ 53" using assms(4) by simp
  with interpolate_range [OF s(2,3), of bs "bucketIndex bs (sort xs ! nat (?t - 1))"] s range_width [OF assms(1) bucketIndex_spec(1) [OF assms(1)]] assms(2) y
  show ?thesis using assms(3) unfolding in_range_def quantileFromMerged_def by simp
qed

subsection \<open>Theorems\<close>

text \<open>
  The samples with the seconds they are charged to: the reading of the clock, or the latest second seen when the
  clock went backward.
\<close>

fun stamp :: "int \<Rightarrow> (int \<times> int) list \<Rightarrow> (int \<times> int) list" where
  "stamp base [] = []"
| "stamp base ((sec, d) # obs) = (max sec base, max 0 d) # stamp (max sec base) obs"

definition latest :: "int \<Rightarrow> (int \<times> int) list \<Rightarrow> int" where
  "latest base obs = foldl (\<lambda>b o'. max (fst o') b) base obs"

definition observe_all :: "(int \<times> int) list \<Rightarrow> histogram \<Rightarrow> histogram" where
  "observe_all obs h = foldl (\<lambda>h (sec, d). hist_Observe sec d h) h obs"

lemma observe_all_logs:
  "hist_logs n bs evs h \<Longrightarrow> hist_logs n bs (evs @ stamp (hg_base h) obs) (observe_all obs h) \<and> hg_base (observe_all obs h) = latest (hg_base h) obs"
proof (induction obs arbitrary: evs h)
  case (Cons o' obs)
  obtain sec d where o': "o' = (sec, d)" by (cases o')
  note s = Observe_logs [OF Cons.prems, of sec d]
  from Cons.IH [OF s(1)] s(2) show ?case by (simp add: o' observe_all_def latest_def)
qed (simp add: observe_all_def latest_def)

lemma stamp_nonneg: "\<forall>e\<in>set (stamp base obs). 0 \<le> snd e"
  by (induction base obs rule: stamp.induct) auto

lemma new_logs:
  assumes "NewHistogram sec opts = Some h"
  shows "hist_logs (length (hg_buckets h)) (hg_boundaries h) [] h" "validBoundaries (hg_boundaries h)" "hg_base h = sec"
proof -
  let ?o = "latency_withDefaults opts"
  have h: "validBoundaries (lt_Boundaries ?o)" "h = \<lparr>hg_boundaries = lt_Boundaries ?o,
      hg_buckets = replicate (nat (lt_Window ?o div Second)) (zero_bucket (length (lt_Boundaries ?o))), hg_base = sec\<rparr>"
    using assms by (auto simp: NewHistogram_def Let_def split: if_splits)
  have "Second \<le> lt_Window ?o" by (simp add: latency_withDefaults_def Second_def)
  then have w: "0 < lt_Window ?o div Second" by (simp add: pos_imp_zdiv_pos_iff Second_pos)
  then have "slot (replicate (nat (lt_Window ?o div Second)) c) s < nat (lt_Window ?o div Second)" for c :: window_bucket and s
    using slot_less [of "replicate (nat (lt_Window ?o div Second)) c" s] by simp
  then show "hist_logs (length (hg_buckets h)) (hg_boundaries h) [] h" using w by (simp add: h(2) hist_logs_def samples_at_def)
qed (use assms in \<open>auto simp: NewHistogram_def Let_def split: if_splits\<close>)

lemma mean_word:
  assumes "0 \<le> s" "s < 2 ^ 63" "0 < n" "n \<le> 2 ^ 53"
  shows "(if (word_of_int s :: 64 word) > 0 then sint ((word_of_int s :: 64 word) div word_of_int n) else 0) = s div n"
proof -
  have u: "uint (word_of_int s :: 64 word) = s" "uint (word_of_int n :: 64 word) = n"
    using assms by (simp_all add: uint_word_of_int)
  then have d: "uint ((word_of_int s :: 64 word) div word_of_int n) = s div n" by (simp add: uint_div)
  have "s div n < 2 ^ 63" "0 \<le> s div n" using assms by (simp_all add: div_le_dividend le_less_trans [OF zdiv_mono2 [of s 1 n]] pos_imp_zdiv_nonneg_iff)
  then have "sint ((word_of_int s :: 64 word) div word_of_int n) = s div n" using d by (simp add: sint_uint signed_take_bit_int_eq_self)
  moreover have "(word_of_int s :: 64 word) > 0 \<longleftrightarrow> s \<noteq> 0" using u(1) assms(1) by (simp add: word_less_def) linarith
  ultimately show ?thesis by simp
qed

lemma window_fold:
  assumes "hist_logs n bs evs h" "validBoundaries bs" "\<forall>e\<in>set evs. 0 \<le> snd e" and xs: "xs = samples_since (max sec (hg_base h) - int n) evs"
  shows "fst (foldLocked sec (zeros bs) h)
    = (int (length xs), word_of_int (sum_list xs), if xs = [] then None else Some (Min (set xs)), Max (insert 0 (set xs)), range_counts bs xs)"
proof -
  have "map2 (+) (zeros bs) (range_counts bs xs) = range_counts bs xs"
    by (rule nth_equalityI) (simp_all add: zeros_def range_counts_length)
  then show ?thesis using foldLocked_summary [OF assms(1,2) _ assms(3), of "zeros bs" sec] by (simp add: xs summary_def zeros_def)
qed

lemma observed_fold:
  assumes "NewHistogram sec0 opts = Some h" "xs = samples_since (max sec (latest sec0 obs) - int (length (hg_buckets h))) (stamp sec0 obs)"
  shows "fst (foldLocked sec (zeros (hg_boundaries h)) (observe_all obs h))
      = (int (length xs), word_of_int (sum_list xs), if xs = [] then None else Some (Min (set xs)), Max (insert 0 (set xs)), range_counts (hg_boundaries h) xs)"
    "hg_boundaries (observe_all obs h) = hg_boundaries h" "\<forall>x\<in>set xs. 0 \<le> x"
proof -
  note n = new_logs [OF assms(1)]
  have l: "hist_logs (length (hg_buckets h)) (hg_boundaries h) (stamp sec0 obs) (observe_all obs h)" "hg_base (observe_all obs h) = latest sec0 obs"
    using observe_all_logs [OF n(1), of obs] n(3) by auto
  show "fst (foldLocked sec (zeros (hg_boundaries h)) (observe_all obs h))
      = (int (length xs), word_of_int (sum_list xs), if xs = [] then None else Some (Min (set xs)), Max (insert 0 (set xs)), range_counts (hg_boundaries h) xs)"
    by (rule window_fold [OF l(1) n(2) stamp_nonneg]) (simp add: assms(2) l(2))
  show "hg_boundaries (observe_all obs h) = hg_boundaries h" using l(1) by (simp add: hist_logs_def)
  show "\<forall>x\<in>set xs. 0 \<le> x" using stamp_nonneg [of sec0 obs] by (auto simp: assms(2) samples_since_def)
qed

lemma Quantile_in_range:
  assumes "NewHistogram sec0 opts = Some h" "xs = samples_since (max sec (latest sec0 obs) - int (length (hg_buckets h))) (stamp sec0 obs)"
    and "xs \<noteq> []" "length xs \<le> 2 ^ 53" "hg_boundaries h ! (length (hg_boundaries h) - 1) \<le> 2 ^ 53"
  shows "in_range (hg_boundaries h) (sort xs ! nat (quantile_target (int (length xs)) (clamp01 q) - 1)) (fst (hist_Quantile sec q (observe_all obs h)))"
  using observed_fold(1,2) [OF assms(1,2)] quantile_in_range [OF new_logs(2) [OF assms(1)] assms(5,3,4), of "clamp01 q"] assms(3)
  by (auto simp: hist_Quantile_def split: prod.splits)

text \<open>
  C34. A snapshot describes exactly the samples of the trailing window, whatever the readings of the clock, steps
  backward included: the count, the minimum and the maximum are theirs, the mean is theirs as long as the sum
  fits 64 bits, and each percentile lies in the same latency range as the sample of that rank in their sorted
  list.  No sample inside the window is lost to the ring and none outside it is counted.
\<close>

theorem histogram_window_exact:
  assumes "NewHistogram sec0 opts = Some h" "hist_Snapshot sec (observe_all obs h) = (s, h')"
    and "xs = samples_since (max sec (latest sec0 obs) - int (length (hg_buckets h))) (stamp sec0 obs)"
    and "xs \<noteq> []" "length xs \<le> 2 ^ 53" "hg_boundaries h ! (length (hg_boundaries h) - 1) \<le> 2 ^ 53"
  shows "st_Count s = word_of_nat (length xs) \<and> st_Min s = Min (set xs) \<and> st_Max s = Max (set xs)
    \<and> (sum_list xs < 2 ^ 63 \<longrightarrow> st_Mean s = sum_list xs div int (length xs))
    \<and> (\<forall>(p, q)\<in>{(st_P50 s, 1 / 2), (st_P90 s, 9 / 10), (st_P99 s, 99 / 100), (st_P999 s, 999 / 1000)}.
         in_range (hg_boundaries h) (sort xs ! nat (quantile_target (int (length xs)) (fl64 q) - 1)) p)"
proof -
  note f = observed_fold [OF assms(1,3)]
  have "s = stats_of (hg_boundaries h) (int (length xs), word_of_int (sum_list xs), Some (Min (set xs)), Max (insert 0 (set xs)), range_counts (hg_boundaries h) xs)"
    using assms(2,4) f(1,2) by (simp add: hist_Snapshot_def split: prod.splits)
  moreover have "Max (insert 0 (set xs)) = Max (set xs)" using assms(4) f(3) by (simp add: Max_insert)
  moreover have "(if (word_of_int (sum_list xs) :: 64 word) > 0 then sint ((word_of_int (sum_list xs) :: 64 word) div word_of_int (int (length xs))) else 0)
      = sum_list xs div int (length xs)" if "sum_list xs < 2 ^ 63"
    using mean_word [of "sum_list xs" "int (length xs)"] that f(3) assms(4,5) by (simp add: sum_list_nonneg)
  moreover note quantile_in_range [OF new_logs(2) [OF assms(1)] assms(6,4,5)]
  ultimately show ?thesis using assms(4) by (simp add: stats_of_def)
qed

theorem histogram_window_exact_witness:
  "\<exists>h s h'. NewHistogram 100 \<lparr>lt_Window = 0, lt_Boundaries = []\<rparr> = Some h
    \<and> hist_Snapshot 160 (observe_all [(100, 7000000), (101, 4000000), (99, 9000000)] h) = (s, h')
    \<and> st_Count s = 2 \<and> st_Min s = 4000000 \<and> st_Max s = 9000000 \<and> st_Mean s = 6500000"
proof -
  let ?o = "\<lparr>lt_Window = 0, lt_Boundaries = []\<rparr>" and ?obs = "[(100, 7000000), (101, 4000000), (99, 9000000)] :: (int \<times> int) list"
  have v: "validBoundaries DefaultBoundaries" by code_simp
  obtain h where h: "NewHistogram 100 ?o = Some h" "length (hg_buckets h) = 60" "hg_boundaries h = DefaultBoundaries"
    using v by (simp add: NewHistogram_def latency_withDefaults_def Second_def)
  obtain s h' where s: "hist_Snapshot 160 (observe_all ?obs h) = (s, h')" by fastforce
  have x: "[4000000, 9000000] = samples_since (max 160 (latest 100 ?obs) - int (length (hg_buckets h))) (stamp 100 ?obs)"
    by (simp add: h(2) latest_def samples_since_def)
  have b: "hg_boundaries h ! (length (hg_boundaries h) - 1) \<le> 2 ^ 53" by (simp add: h(3) DefaultBoundaries_def Second_def)
  from histogram_window_exact [OF h(1) s x _ _ b] h(1) s show ?thesis by simp
qed

subsection \<open>Shards merge to one histogram\<close>

lemma merge_summary:
  assumes "length out = length bs"
  shows "merge_acc (summary bs out xs) (summary bs (snd (snd (snd (snd (summary bs out xs))))) ys) = summary bs out (xs @ ys)"
proof -
  have m: "map2 (+) (map2 (+) out (range_counts bs xs)) (range_counts bs ys) = map2 (+) out (range_counts bs (xs @ ys))"
    using assms map2_plus_assoc [of out "range_counts bs xs" "range_counts bs ys"] by (simp add: range_counts_append range_counts_length)
  have "xs \<noteq> [] \<Longrightarrow> ys \<noteq> [] \<Longrightarrow> Min (set xs \<union> set ys) = min (Min (set xs)) (Min (set ys))" by (simp add: Min_Un)
  moreover have "Max (insert 0 (set xs \<union> set ys)) = max (Max (insert 0 (set xs))) (Max (insert 0 (set ys)))"
    using Max_Un [of "insert 0 (set xs)" "insert 0 (set ys)"] by (simp add: insert_commute)
  ultimately show ?thesis
    unfolding merge_acc_def summary_def case_prod_conv snd_conv if_min_max m by (auto simp: if_min_max simp del: Max_less_iff Min_less_iff)
qed

lemma foldAll_summary:
  assumes "validBoundaries bs" "length out = length bs"
    and "list_all2 (\<lambda>evs h. hist_logs n bs evs h \<and> (\<forall>e\<in>set evs. 0 \<le> snd e) \<and> hg_base h \<le> sec) evss hs"
  shows "fst (foldAll sec (summary bs out xs) hs) = summary bs out (xs @ concat (map (samples_since (sec - int n)) evss))"
  using assms(3)
proof (induction evss hs arbitrary: xs rule: list_all2_induct)
  case (Cons evs evss h hs)
  let ?out = "snd (snd (snd (snd (summary bs out xs))))"
  have "length ?out = length bs" using assms(2) by (simp add: summary_def range_counts_length)
  then have "fst (foldLocked sec ?out h) = summary bs ?out (samples_since (sec - int n) evs)"
    using foldLocked_summary [of n bs evs h ?out sec] Cons.hyps(1) assms(1) by (simp add: max_absorb1)
  then show ?case using Cons.IH [of "xs @ samples_since (sec - int n) evs"] merge_summary [OF assms(2)] by (simp add: case_prod_beta)
qed simp

definition sh_observe_all :: "(int \<times> int) list \<Rightarrow> shard_histogram \<Rightarrow> shard_histogram" where
  "sh_observe_all obs s = foldl (\<lambda>s (sec, d). sh_Observe sec d s) s obs"

text \<open>The shards hold logs that make up the whole log between them, none ahead of the second \<open>b\<close>.\<close>

definition shard_logs :: "nat \<Rightarrow> int list \<Rightarrow> int \<Rightarrow> (int \<times> int) list \<Rightarrow> shard_histogram \<Rightarrow> bool" where
  "shard_logs n bs b evs s \<longleftrightarrow> sh_shards s \<noteq> [] \<and> (\<exists>evss. list_all2 (\<lambda>evs h. hist_logs n bs evs h \<and> (\<forall>e\<in>set evs. 0 \<le> snd e) \<and> hg_base h \<le> b) evss (sh_shards s)
    \<and> mset (concat evss) = mset evs)"

lemma mset_concat_update:
  assumes "i < length evss"
  shows "mset (concat (evss[i := evss ! i @ [e]])) = add_mset e (mset (concat evss))"
  using assms by (induction evss arbitrary: i) (auto simp: less_Suc_eq_0_disj)

lemma sh_Observe_logs:
  assumes "shard_logs n bs b evs s" "b \<le> sec"
  shows "shard_logs n bs sec (evs @ [(sec, max 0 d)]) (sh_Observe sec d s)"
proof -
  let ?i = "unat (sh_rr s + 1) mod length (sh_shards s)"
  obtain evss where e: "list_all2 (\<lambda>evs h. hist_logs n bs evs h \<and> (\<forall>e\<in>set evs. 0 \<le> snd e) \<and> hg_base h \<le> b) evss (sh_shards s)"
      "mset (concat evss) = mset evs" and ne: "sh_shards s \<noteq> []"
    using assms(1) by (auto simp: shard_logs_def)
  have i: "?i < length (sh_shards s)" "length evss = length (sh_shards s)" using ne list_all2_lengthD [OF e(1)] by simp_all
  then have l: "hist_logs n bs (evss ! ?i) (sh_shards s ! ?i)" "hg_base (sh_shards s ! ?i) \<le> sec" "\<forall>e\<in>set (evss ! ?i). 0 \<le> snd e"
    using list_all2_nthD [OF e(1), of ?i] assms(2) by auto
  have "list_all2 (\<lambda>evs h. hist_logs n bs evs h \<and> (\<forall>e\<in>set evs. 0 \<le> snd e) \<and> hg_base h \<le> sec) (evss[?i := evss ! ?i @ [(sec, max 0 d)]])
      ((sh_shards s)[?i := hist_Observe sec d (sh_shards s ! ?i)])"
  proof (rule list_all2_update_cong)
    show "list_all2 (\<lambda>evs h. hist_logs n bs evs h \<and> (\<forall>e\<in>set evs. 0 \<le> snd e) \<and> hg_base h \<le> sec) evss (sh_shards s)"
      by (rule list_all2_mono [OF e(1)]) (use assms(2) in auto)
    show "hist_logs n bs (evss ! ?i @ [(sec, max 0 d)]) (hist_Observe sec d (sh_shards s ! ?i))
        \<and> (\<forall>e\<in>set (evss ! ?i @ [(sec, max 0 d)]). 0 \<le> snd e) \<and> hg_base (hist_Observe sec d (sh_shards s ! ?i)) \<le> sec"
      using Observe_logs [OF l(1), of sec d] l by (auto simp: max_absorb1)
  qed
  moreover have "mset (concat (evss[?i := evss ! ?i @ [(sec, max 0 d)]])) = mset (evs @ [(sec, max 0 d)])"
    using mset_concat_update [of ?i evss] i e(2) by simp
  ultimately show ?thesis using ne unfolding shard_logs_def sh_Observe_def Let_def by auto
qed

lemma sh_observe_all_logs:
  "shard_logs n bs b evs s \<Longrightarrow> sorted (b # map fst obs) \<Longrightarrow> \<exists>b'. shard_logs n bs b' (evs @ stamp b obs) (sh_observe_all obs s) \<and> b' = latest b obs"
proof (induction obs arbitrary: b evs s)
  case (Cons o' obs)
  obtain sec d where o': "o' = (sec, d)" by (cases o')
  have b: "b \<le> sec" "sorted (sec # map fst obs)" using Cons.prems(2) by (auto simp: o')
  from Cons.IH [OF sh_Observe_logs [OF Cons.prems(1) b(1)] b(2)] b(1) show ?case by (simp add: o' sh_observe_all_def latest_def max_absorb1)
qed (simp add: sh_observe_all_def latest_def)

lemma new_shard_logs:
  assumes "NewShardHistogram procs secs n opts = Some s" "NewHistogram b opts = Some h" "\<forall>i. secs i \<le> b"
  shows "shard_logs (length (hg_buckets h)) (hg_boundaries h) b [] s"
proof -
  let ?n = "nat (if n \<le> 0 then AutoShardCount procs else n)"
  have pos: "0 < ?n" by (simp add: AutoShardCount_def Let_def)
  let ?h = "\<lambda>i. h\<lparr>hg_base := secs i\<rparr>"
  have each: "NewHistogram (secs i) opts = Some (?h i)" for i using assms(2) by (auto simp: NewHistogram_def Let_def split: if_splits)
  have l: "hist_logs (length (hg_buckets h)) (hg_boundaries h) [] (?h i)" "hg_base (?h i) \<le> b" for i
    using new_logs(1) [OF each [of i]] assms(3) by simp_all
  have "those (map (\<lambda>i. Some (?h i)) is) = Some (map ?h is)" for "is" by (induction "is") simp_all
  then have s: "sh_shards s = map ?h [0..<?n]" using assms(1) by (auto simp: NewShardHistogram_def each Let_def)
  have "list_all2 (\<lambda>evs h'. hist_logs (length (hg_buckets h)) (hg_boundaries h) evs h' \<and> (\<forall>e\<in>set evs. 0 \<le> snd e) \<and> hg_base h' \<le> b) (replicate ?n []) (sh_shards s)"
    unfolding list_all2_conv_all_nth s using l by simp
  then show ?thesis using pos unfolding shard_logs_def s by (intro conjI exI [of _ "replicate ?n []"]) simp_all
qed

text \<open>
  C35. The sharded histogram reports what one histogram would: as long as the clock does not step backward, a
  snapshot that merges the shards is equal in every field to the snapshot of a single histogram with the same
  options that has observed the same samples, whatever the number of shards.
\<close>

theorem shards_equal_histogram:
  assumes "NewShardHistogram procs secs n opts = Some s" "NewHistogram b opts = Some h" "\<forall>i. secs i \<le> b" "sorted (b # map fst obs @ [sec])"
  shows "fst (sh_Snapshot sec (sh_observe_all obs s)) = fst (hist_Snapshot sec (observe_all obs h))"
proof -
  let ?bs = "hg_boundaries h" and ?k = "length (hg_buckets h)" and ?s = "sh_observe_all obs s"
  have srt: "sorted (b # map fst obs)" "latest b obs \<le> sec"
  proof -
    show "sorted (b # map fst obs)" using assms(4) by (simp add: sorted_append)
    have "latest b obs \<in> set (b # map fst obs)" unfolding latest_def by (induction obs rule: rev_induct) (auto simp: max_def)
    then show "latest b obs \<le> sec" using assms(4) by (auto simp: sorted_append)
  qed
  obtain evss where e: "list_all2 (\<lambda>evs h'. hist_logs ?k ?bs evs h' \<and> (\<forall>e\<in>set evs. 0 \<le> snd e) \<and> hg_base h' \<le> sec) evss (sh_shards ?s)"
      "mset (concat evss) = mset (stamp b obs)" "sh_shards ?s \<noteq> []"
  proof -
    obtain evss where "list_all2 (\<lambda>evs h'. hist_logs ?k ?bs evs h' \<and> (\<forall>e\<in>set evs. 0 \<le> snd e) \<and> hg_base h' \<le> latest b obs) evss (sh_shards ?s)"
        "mset (concat evss) = mset (stamp b obs)" "sh_shards ?s \<noteq> []"
      using sh_observe_all_logs [OF new_shard_logs [OF assms(1-3)] srt(1)] by (auto simp: shard_logs_def)
    then show thesis using srt(2) by (intro that [of evss]) (auto elim!: list_all2_mono)
  qed
  note v = new_logs(2) [OF assms(2)]
  have bounds: "sh_bounds ?s = ?bs" using e(1,3) by (auto simp: sh_bounds_def list_all2_Cons2 hist_logs_def neq_Nil_conv)
  have z: "(0, 0, None, 0, zeros ?bs) = summary ?bs (zeros ?bs) []"
  proof -
    have "map2 (+) (zeros ?bs) (range_counts ?bs []) = zeros ?bs" by (rule nth_equalityI) (simp_all add: range_counts_def zeros_def)
    then show ?thesis by (simp add: summary_def)
  qed
  have "fst (foldAll sec (0, 0, None, 0, zeros ?bs) (sh_shards ?s)) = summary ?bs (zeros ?bs) (concat (map (samples_since (sec - int ?k)) evss))"
    unfolding z using foldAll_summary [OF v _ e(1), of "zeros ?bs" "[]"] by (simp add: zeros_def)
  also have "concat (map (samples_since (sec - int ?k)) evss) = samples_since (sec - int ?k) (concat evss)"
    by (induction evss) (simp_all add: samples_since_def)
  also have "summary ?bs (zeros ?bs) \<dots> = summary ?bs (zeros ?bs) (samples_since (sec - int ?k) (stamp b obs))"
    using e(2) by (intro summary_perm) (metis mset_filter mset_map samples_since_def)
  also have "\<dots> = fst (foldLocked sec (zeros ?bs) (observe_all obs h))"
    using foldLocked_summary [OF _ v _ stamp_nonneg, of ?k b obs "observe_all obs h" "zeros ?bs" sec] observe_all_logs [OF new_logs(1) [OF assms(2)], of obs]
      new_logs(3) [OF assms(2)] srt(2) by (simp add: zeros_def max_absorb1)
  finally show ?thesis using bounds observed_fold(2) [OF assms(2) refl, of obs] by (simp add: sh_Snapshot_def hist_Snapshot_def case_prod_beta)
qed

theorem shards_equal_histogram_witness:
  "\<exists>s h. NewShardHistogram 8 (\<lambda>_. 100) 3 \<lparr>lt_Window = 0, lt_Boundaries = []\<rparr> = Some s \<and> NewHistogram 100 \<lparr>lt_Window = 0, lt_Boundaries = []\<rparr> = Some h
    \<and> fst (sh_Snapshot 130 (sh_observe_all [(100, 7000000), (120, 4000000)] s)) = fst (hist_Snapshot 130 (observe_all [(100, 7000000), (120, 4000000)] h))"
proof -
  let ?o = "\<lparr>lt_Window = 0, lt_Boundaries = []\<rparr>"
  have v: "validBoundaries DefaultBoundaries" by code_simp
  obtain h where h: "NewHistogram 100 ?o = Some h" using v by (simp add: NewHistogram_def latency_withDefaults_def)
  then obtain s where s: "NewShardHistogram 8 (\<lambda>_. 100) 3 ?o = Some s"
    by (simp add: NewShardHistogram_def numeral_3_eq_3)
  from shards_equal_histogram [OF s h, of "[(100, 7000000), (120, 4000000)]" 130] s h show ?thesis by simp
qed

subsection \<open>Documentation\<close>

text \<open>A window below one second selects the default of 60 seconds, not one second.\<close>

lemma short_window: "lt_Window o' < Second \<Longrightarrow> lt_Window (latency_withDefaults o') = 60 * Second"
  by (simp add: latency_withDefaults_def)

text \<open>
  One sample is reported as the middle of its range whatever the quantile.  So the quantiles 0 and 1 are not the
  minimum and the maximum, and a sample above the last boundary is reported below it.
\<close>

lemma one_sample:
  assumes "validBoundaries bs" "i = bucketIndex bs v" "bs ! i - lowerBound bs i = 2 * w" "2 * w \<le> 2 ^ 53"
  shows "quantileFromMerged bs (range_counts bs [v]) 1 q = lowerBound bs i + w"
proof -
  have t: "quantile_target 1 q = 1" using target_range [of 1 q] by simp
  have i: "i < length bs" using bucketIndex_spec(1) [OF assms(1), of v] by (simp add: assms(2))
  have w: "0 \<le> w" using range_width(1) [OF assms(1) i] assms(3) by simp
  have scan: "quantile_scan bs 1 j 0 (map (\<lambda>k. int (count_list [i] k)) [j..<length bs]) = Some (interpolate bs i 1 1)" if "j \<le> i" for j
    using that
  proof (induction "i - j" arbitrary: j)
    case 0
    then show ?case using i by (simp add: upt_conv_Cons interpolate_def Let_def)
  next
    case (Suc d)
    then have "j < length bs" "Suc j \<le> i" using i by simp_all
    then show ?case using Suc.hyps(1) [of "Suc j"] Suc.hyps(2) by (simp add: upt_conv_Cons)
  qed
  have f: "fl64 1 = 1" "fl64 (1 / 2) = 1 / 2" "fl64 (of_int (2 * w)) = of_int (2 * w)" "fl64 (of_int w) = of_int w"
    using fl64_int [of 1] fl64_dyadic [of 1 1] fl64_int [of "2 * w"] fl64_int [of w] assms(4) w by simp_all
  have "fl64 (of_int (2 * w)) * fl64 (fl64 (fl64 (of_int 1) - 1 / 2) / fl64 (of_int 1)) = of_int w"
    unfolding f(3) by (simp add: f(1)) (simp add: f(2) flip: times_divide_eq_right)
  then have "interpolate bs i 1 1 = lowerBound bs i + w"
    using w f(4) unfolding interpolate_def assms(3) by (simp only: trunc_def) simp
  then show ?thesis using scan [of 0] t unfolding quantileFromMerged_def range_counts_def assms(2) by simp
qed

lemma quantile_is_not_extreme:
  "quantileFromMerged DefaultBoundaries (range_counts DefaultBoundaries [7000000]) 1 q = 7500000"
  "quantileFromMerged DefaultBoundaries (range_counts DefaultBoundaries [60 * Second]) 1 q = 5500000000"
proof -
  have v: "validBoundaries DefaultBoundaries" by code_simp
  have b: "bucketIndex DefaultBoundaries 7000000 = 6" "bucketIndex DefaultBoundaries (60 * Second) = 16" by code_simp+
  have l: "lowerBound DefaultBoundaries 6 = 5000000" "DefaultBoundaries ! 6 = 10000000" "lowerBound DefaultBoundaries 16 = 1000000000" "DefaultBoundaries ! 16 = 10000000000"
    by code_simp+
  show "quantileFromMerged DefaultBoundaries (range_counts DefaultBoundaries [7000000]) 1 q = 7500000"
    using one_sample [OF v b(1) [symmetric], of 2500000] l by simp
  show "quantileFromMerged DefaultBoundaries (range_counts DefaultBoundaries [60 * Second]) 1 q = 5500000000"
    using one_sample [OF v b(2) [symmetric], of 4500000000] l by simp
qed

end
