(* ===== verification/Hotkey.thy ===== *)
theory Hotkey
  imports Freqcap
begin

section \<open>Package hotkey: heavy hitters in a sliding window\<close>

text \<open>
  \<open>src/hotkey/hotkey.go\<close>.  Its slices, its \<open>trimBefore\<close> and the first loop of its \<open>evictIdleLocked\<close> are those of
  \<open>freqcap\<close>, whose definitions are used here: a loop that drops the result of \<open>trimBefore\<close> leaves the shifted
  array in the map under its old length.  The order in which Go walks a map is an argument \<open>order\<close>, the sort of
  \<open>Top\<close>, which is not stable, an argument \<open>srt\<close>.
\<close>

record detector =
  hk_window :: int
  hk_topK :: int
  hk_maxKeys :: int
  hk_maxHitsPerKey :: int
  hk_keys :: "(string \<times> int list) list"

text \<open>\<open>None\<close> is the panic; the options are optional arguments.\<close>

definition hotkey_New :: "int \<Rightarrow> int \<Rightarrow> int option \<Rightarrow> int option \<Rightarrow> detector option" where
  "hotkey_New window topK maxKeys maxHits =
    (if window \<le> 0 \<or> topK \<le> 0 then None
     else Some \<lparr>hk_window = window, hk_topK = topK, hk_maxKeys = (case maxKeys of None \<Rightarrow> DefaultMaxKeys | Some n \<Rightarrow> n),
                hk_maxHitsPerKey = (case maxHits of None \<Rightarrow> 0 | Some n \<Rightarrow> n), hk_keys = []\<rparr>)"

definition hk_slice :: "detector \<Rightarrow> string \<Rightarrow> int list" where
  "hk_slice d key = (case map_of (hk_keys d) key of None \<Rightarrow> [] | Some ts \<Rightarrow> ts)"

text \<open>The zero \<open>time.Time\<close>, the first of January of the year 1.\<close>

definition zero_time :: int where "zero_time = - 62135596800000000000"

text \<open>
  The scan for a victim: the key so far with its count and its last hit.
\<close>

fun victim_scan :: "int \<Rightarrow> (string \<times> int list) list \<Rightarrow> (string \<times> nat \<times> int) option \<Rightarrow> (string \<times> nat \<times> int) option" where
  "victim_scan cutoff [] best = best"
| "victim_scan cutoff ((k, ts) # rest) best =
    (let trimmed = trimBefore ts cutoff; c = length trimmed; lst = (if trimmed = [] then zero_time else last trimmed);
         better = (case best of None \<Rightarrow> True | Some (_, m, l) \<Rightarrow> c < m \<or> c = m \<and> lst < l)
     in victim_scan cutoff rest (if better then Some (k, c, lst) else best))"

text \<open>
  The loop that enforces \<open>maxKeys\<close>.  Every round removes one key, so that the number of keys is fuel enough.
\<close>

fun drop_victims :: "nat \<Rightarrow> ((string \<times> int list) list \<Rightarrow> (string \<times> int list) list) \<Rightarrow> int \<Rightarrow> int \<Rightarrow> (string \<times> int list) list
    \<Rightarrow> (string \<times> int list) list" where
  "drop_victims 0 order maxKeys cutoff keys = keys"
| "drop_victims (Suc n) order maxKeys cutoff keys =
    (if 0 < maxKeys \<and> maxKeys < int (length keys)
     then let best = victim_scan cutoff (order keys) None; victim = (case best of None \<Rightarrow> [] | Some (k, _) \<Rightarrow> k);
              keys' = map (\<lambda>(k, ts). (k, trim_array ts cutoff)) keys
          in if victim = [] then keys' else drop_victims n order maxKeys cutoff (AList.delete victim keys')
     else keys)"

definition hk_evict :: "((string \<times> int list) list \<Rightarrow> (string \<times> int list) list) \<Rightarrow> int \<Rightarrow> detector \<Rightarrow> detector" where
  "hk_evict order now d =
    (let keys = evictIdleLocked (hk_window d) (hk_keys d) now
     in d\<lparr>hk_keys := drop_victims (length keys) order (hk_maxKeys d) (now - hk_window d) keys\<rparr>)"

definition hk_hit :: "int \<Rightarrow> detector \<Rightarrow> int list \<Rightarrow> int list" where
  "hk_hit now d ts =
    (let ts = trimBefore ts (now - hk_window d) @ [now]
     in if 0 < hk_maxHitsPerKey d \<and> hk_maxHitsPerKey d < int (length ts) then drop (length ts - nat (hk_maxHitsPerKey d)) ts else ts)"

definition hk_Touch :: "((string \<times> int list) list \<Rightarrow> (string \<times> int list) list) \<Rightarrow> string \<Rightarrow> int \<Rightarrow> detector \<Rightarrow> detector" where
  "hk_Touch order key now d = hk_evict order now (d\<lparr>hk_keys := AList.update key (hk_hit now d (hk_slice d key)) (hk_keys d)\<rparr>)"

definition hk_Count :: "string \<Rightarrow> int \<Rightarrow> detector \<Rightarrow> nat \<times> detector" where
  "hk_Count key now d =
    (case map_of (hk_keys d) key of None \<Rightarrow> (0, d)
     | Some ts \<Rightarrow> let trimmed = trimBefore ts (now - hk_window d)
         in if trimmed = [] then (0, d\<lparr>hk_keys := AList.delete key (hk_keys d)\<rparr>)
            else (length trimmed, d\<lparr>hk_keys := AList.update key trimmed (hk_keys d)\<rparr>))"

definition hk_trimmed :: "int \<Rightarrow> (string \<times> int list) list \<Rightarrow> (string \<times> int list) list" where
  "hk_trimmed cutoff keys = filter (\<lambda>(k, ts). ts \<noteq> []) (map (\<lambda>(k, ts). (k, trimBefore ts cutoff)) keys)"

definition hk_Top :: "((string \<times> nat) list \<Rightarrow> (string \<times> nat) list) \<Rightarrow> int \<Rightarrow> detector \<Rightarrow> (string \<times> nat) list \<times> detector" where
  "hk_Top srt now d =
    (let keys = hk_trimmed (now - hk_window d) (hk_keys d); results = srt (map (\<lambda>(k, ts). (k, length ts)) keys)
     in (take (nat (hk_topK d)) results, d\<lparr>hk_keys := keys\<rparr>))"

definition hk_Reset :: "detector \<Rightarrow> detector" where
  "hk_Reset d = d\<lparr>hk_keys := []\<rparr>"

definition hk_Len :: "detector \<Rightarrow> nat" where
  "hk_Len d = length (hk_keys d)"

subsection \<open>Runs\<close>

datatype hk_op = HTouch string int | HCount string int | HTop int | HReset

fun hk_do :: "((string \<times> int list) list \<Rightarrow> (string \<times> int list) list) \<Rightarrow> ((string \<times> nat) list \<Rightarrow> (string \<times> nat) list) \<Rightarrow> hk_op
    \<Rightarrow> detector \<times> (string \<Rightarrow> int list) \<Rightarrow> detector \<times> (string \<Rightarrow> int list)" where
  "hk_do order srt (HTouch key now) (d, h) = (hk_Touch order key now d, h(key := h key @ [now]))"
| "hk_do order srt (HCount key now) (d, h) = (snd (hk_Count key now d), h)"
| "hk_do order srt (HTop now) (d, h) = (snd (hk_Top srt now d), h)"
| "hk_do order srt HReset (d, h) = (hk_Reset d, \<lambda>_. [])"

fun hk_times :: "hk_op list \<Rightarrow> int list" where
  "hk_times [] = []"
| "hk_times (HTouch key now # ops) = now # hk_times ops"
| "hk_times (HCount key now # ops) = now # hk_times ops"
| "hk_times (HTop now # ops) = now # hk_times ops"
| "hk_times (HReset # ops) = hk_times ops"

text \<open>
  Without caps the slice of a key holds at least its hits in the window, and at most as many entries as the key
  was ever hit.
\<close>

definition hk_inv :: "int \<Rightarrow> detector \<Rightarrow> (string \<Rightarrow> int list) \<Rightarrow> bool" where
  "hk_inv T d h \<longleftrightarrow> hk_maxKeys d \<le> 0 \<and> hk_maxHitsPerKey d \<le> 0 \<and> distinct (map fst (hk_keys d))
    \<and> tracks (T - hk_window d) (map_of (hk_keys d)) h \<and> (\<forall>k. length (hk_slice d k) \<le> length (h k))"

lemma length_trim_array [simp]: "length (trim_array ts c) = length ts"
proof -
  have "trim_count ts c \<le> length ts" by (simp add: trim_count_def length_takeWhile_le)
  then show ?thesis by (simp add: trim_array_def Let_def)
qed

lemma length_trimBefore_le: "length (trimBefore ts c) \<le> length ts"
  by (simp add: trimBefore_dropWhile length_dropWhile_le)

lemma no_victims: "maxKeys \<le> 0 \<Longrightarrow> drop_victims n order maxKeys cutoff keys = keys"
  by (cases n) simp_all

lemma hk_trimmed_of: "distinct (map fst keys) \<Longrightarrow> map_of (hk_trimmed cutoff keys) k =
    (case map_of keys k of None \<Rightarrow> None | Some ts \<Rightarrow> if trimBefore ts cutoff = [] then None else Some (trimBefore ts cutoff))"
proof (induction keys)
  case (Cons x keys)
  obtain j ts where x: "x = (j, ts)" by (cases x)
  have "hk_trimmed cutoff (x # keys) = (if trimBefore ts cutoff = [] then [] else [(j, trimBefore ts cutoff)]) @ hk_trimmed cutoff keys"
    by (simp add: x hk_trimmed_def)
  moreover have "map_of (hk_trimmed cutoff keys) k = None" if "k \<notin> fst ` set keys"
    using that by (force simp: hk_trimmed_def map_of_eq_None_iff)
  moreover have "map_of keys k = None" if "k \<notin> fst ` set keys" using that by (simp add: map_of_eq_None_iff)
  ultimately show ?case using Cons by (cases "k = j") (auto simp: x)
qed (simp add: hk_trimmed_def)

lemma hk_inv_Touch:
  assumes "hk_inv T d h" "T \<le> now"
  shows "hk_inv now (hk_Touch order key now d) (h(key := h key @ [now]))"
proof -
  let ?c = "now - hk_window d" and ?ts = "hk_slice d key"
  let ?keys = "AList.update key (trimBefore ?ts ?c @ [now]) (hk_keys d)"
  have i: "hk_maxKeys d \<le> 0" "hk_maxHitsPerKey d \<le> 0" "distinct (map fst (hk_keys d))" "\<And>k. length (hk_slice d k) \<le> length (h k)"
    and t: "tracks ?c (map_of (hk_keys d)) h"
    using assms tracks_later [of "T - hk_window d" _ h ?c] by (simp_all add: hk_inv_def)
  have "hk_Touch order key now d = d\<lparr>hk_keys := evictIdleLocked (hk_window d) ?keys now\<rparr>"
    using i(1,2) by (simp add: hk_Touch_def hk_hit_def hk_evict_def no_victims Let_def)
  moreover have dist: "distinct (map fst ?keys)" using i(3) by (rule distinct_update)
  moreover have "recent ?c (h key @ [now]) \<subseteq># recent ?c (trimBefore ?ts ?c @ [now])"
    using t recent_trimBefore [of ?c ?ts] by (auto simp: tracks_def hk_slice_def recent_def)
  then have "tracks ?c (map_of (evictIdleLocked (hk_window d) ?keys now)) (h(key := h key @ [now]))"
    using t by (intro tracks_evictIdle [OF dist]) (simp add: update_conv' tracks_upd)
  moreover have "length (case map_of (evictIdleLocked (hk_window d) ?keys now) k of None \<Rightarrow> [] | Some ts \<Rightarrow> ts) \<le> length ((h(key := h key @ [now])) k)" for k
    using i(4) [of k] length_trimBefore_le [of ?ts ?c] unfolding map_of_evictIdle [OF dist]
    by (auto simp: update_conv' hk_slice_def split: option.splits)
  ultimately show ?thesis using i(1,2) by (simp add: hk_inv_def hk_slice_def distinct_evictIdle)
qed

lemma hk_inv_Count:
  assumes "hk_inv T d h" "T \<le> now"
  shows "hk_inv now (snd (hk_Count key now d)) h" "size (recent (now - hk_window d) (h key)) \<le> fst (hk_Count key now d)"
    "fst (hk_Count key now d) \<le> length (h key)"
proof -
  let ?c = "now - hk_window d"
  have i: "hk_maxKeys d \<le> 0" "hk_maxHitsPerKey d \<le> 0" "distinct (map fst (hk_keys d))" "\<And>k. length (hk_slice d k) \<le> length (h k)"
    and t: "tracks ?c (map_of (hk_keys d)) h"
    using assms tracks_later [of "T - hk_window d" _ h ?c] by (simp_all add: hk_inv_def)
  have "hk_inv now (snd (hk_Count key now d)) h \<and> size (recent ?c (h key)) \<le> fst (hk_Count key now d) \<and> fst (hk_Count key now d) \<le> length (h key)"
  proof (cases "map_of (hk_keys d) key")
    case None
    then have "recent ?c (h key) \<subseteq># recent ?c []" using t unfolding tracks_def by (metis option.simps(4))
    then show ?thesis using None i t by (simp add: hk_Count_def hk_inv_def recent_def)
  next
    case (Some ts)
    have r: "recent ?c (h key) \<subseteq># recent ?c (trimBefore ts ?c)" using t Some unfolding tracks_def recent_trimBefore by (metis option.simps(5))
    then have "size (recent ?c (h key)) \<le> length (trimBefore ts ?c)" using size_mset_mono recent_size le_trans by blast
    moreover have "length (trimBefore ts ?c) \<le> length (h key)" using i(4) [of key] length_trimBefore_le [of ts ?c] Some by (simp add: hk_slice_def)
    moreover have "tracks ?c (map_of (AList.update key (trimBefore ts ?c) (hk_keys d))) h" using t r by (simp add: update_conv' tracks_upd_same)
    moreover have "tracks ?c (map_of (AList.delete key (hk_keys d))) h" if "trimBefore ts ?c = []"
      using t r that unfolding tracks_def by (simp add: delete_conv' recent_def)
    ultimately show ?thesis using i Some
      by (auto simp: hk_Count_def hk_inv_def hk_slice_def update_conv' delete_conv' distinct_update distinct_delete Let_def)
  qed
  then show "hk_inv now (snd (hk_Count key now d)) h" "size (recent ?c (h key)) \<le> fst (hk_Count key now d)" "fst (hk_Count key now d) \<le> length (h key)"
    by simp_all
qed

lemma hk_inv_Top:
  assumes "hk_inv T d h" "T \<le> now"
  shows "hk_inv now (snd (hk_Top srt now d)) h"
proof -
  let ?c = "now - hk_window d"
  have i: "hk_maxKeys d \<le> 0" "hk_maxHitsPerKey d \<le> 0" "distinct (map fst (hk_keys d))" "\<And>k. length (hk_slice d k) \<le> length (h k)"
    and t: "tracks ?c (map_of (hk_keys d)) h"
    using assms tracks_later [of "T - hk_window d" _ h ?c] by (simp_all add: hk_inv_def)
  have "distinct (map fst (hk_trimmed ?c (hk_keys d)))"
    using i(3) by (simp add: hk_trimmed_def distinct_map_filter comp_def case_prod_beta)
  moreover have "tracks ?c (map_of (hk_trimmed ?c (hk_keys d))) h"
    unfolding tracks_def hk_trimmed_of [OF i(3)]
  proof
    fix k
    show "recent ?c (h k) \<subseteq># recent ?c (case case map_of (hk_keys d) k of None \<Rightarrow> None | Some ts \<Rightarrow> if trimBefore ts ?c = [] then None else Some (trimBefore ts ?c)
        of None \<Rightarrow> [] | Some ts \<Rightarrow> ts)"
    proof (cases "map_of (hk_keys d) k")
      case (Some ts)
      then have "recent ?c (h k) \<subseteq># recent ?c (trimBefore ts ?c)" using t unfolding tracks_def recent_trimBefore by (metis option.simps(5))
      then show ?thesis using Some by (cases "trimBefore ts ?c = []") simp_all
    qed (use t in \<open>simp add: tracks_def, metis option.simps(4)\<close>)
  qed
  moreover have "length (case map_of (hk_trimmed ?c (hk_keys d)) k of None \<Rightarrow> [] | Some ts \<Rightarrow> ts) \<le> length (h k)" for k
    using i(4) [of k] unfolding hk_trimmed_of [OF i(3)]
    by (auto simp: hk_slice_def intro: le_trans [OF length_trimBefore_le] split: option.splits)
  ultimately show ?thesis using i by (simp add: hk_Top_def hk_inv_def hk_slice_def Let_def)
qed

lemma hk_params: "hk_window (fst (hk_do order srt op (d, h))) = hk_window d" "hk_topK (fst (hk_do order srt op (d, h))) = hk_topK d"
  "hk_maxKeys (fst (hk_do order srt op (d, h))) = hk_maxKeys d"
  by (cases op; auto simp: hk_Touch_def hk_evict_def hk_Count_def hk_Top_def hk_Reset_def Let_def split: option.splits if_splits)+

lemma hk_run_inv:
  assumes "hk_inv T d h" "sorted (T # hk_times ops @ [now])" "fold (hk_do order srt) ops (d, h) = (d', h')"
  shows "hk_inv now d' h' \<and> hk_window d' = hk_window d"
  using assms
proof (induction ops arbitrary: T d h)
  case Nil
  then show ?case using tracks_later [of "T - hk_window d'" "map_of (hk_keys d')" h' "now - hk_window d'"] by (simp add: hk_inv_def)
next
  case (Cons op ops)
  obtain d1 h1 where o: "hk_do order srt op (d, h) = (d1, h1)" by (cases "hk_do order srt op (d, h)")
  have "\<exists>T1. hk_inv T1 d1 h1 \<and> sorted (T1 # hk_times ops @ [now])"
  proof (cases op)
    case (HTouch key t)
    then show ?thesis using hk_inv_Touch [OF Cons.prems(1), of t order key] o Cons.prems(2) by (intro exI [of _ t]) auto
  next
    case (HCount key t)
    then show ?thesis using hk_inv_Count(1) [OF Cons.prems(1), of t key] o Cons.prems(2) by (intro exI [of _ t]) auto
  next
    case (HTop t)
    then show ?thesis using hk_inv_Top [OF Cons.prems(1), of t srt] o Cons.prems(2) by (intro exI [of _ t]) auto
  next
    case HReset
    then show ?thesis using o Cons.prems(1,2) by (intro exI [of _ T]) (auto simp: hk_inv_def hk_Reset_def tracks_def hk_slice_def recent_def)
  qed
  then show ?case using Cons.IH [of _ d1 h1] Cons.prems(3) o hk_params(1) [of order srt op d h] by auto
qed

text \<open>
  A detector without caps never undercounts: after any run of operations on a clock that does not step
  backward, \<open>Count\<close> is at least the number of hits of the key in the window, and it is at most the number of its
  hits since the last \<open>Reset\<close>.  Between the two it may exceed the true count (lemma \<open>stale_hits_counted\<close>).
\<close>
lemma hotkey_count_bounds:
  assumes "hotkey_New window topK (Some 0) maxHits = Some d" "maxHits = None" "sorted (hk_times ops @ [now])"
    and "fold (hk_do order srt) ops (d, \<lambda>_. []) = (d', h)"
  shows "size (recent (now - window) (h key)) \<le> fst (hk_Count key now d') \<and> fst (hk_Count key now d') \<le> length (h key)"
proof -
  define T where "T = hd (hk_times ops @ [now])"
  have "sorted (T # hk_times ops @ [now])" using assms(3) by (cases "hk_times ops") (auto simp: T_def)
  moreover have "hk_inv T d (\<lambda>_. [])" "hk_window d = window"
    using assms(1,2) by (auto simp: hotkey_New_def hk_inv_def tracks_def hk_slice_def recent_def split: if_splits)
  ultimately have "hk_inv now d' h" "hk_window d' = window" using hk_run_inv assms(4) by blast+
  then show ?thesis using hk_inv_Count(2,3) [of now d' h now key] by simp
qed

text \<open>
  The count of a key that is not touched again need not fall: each touch of another key shifts the expired hits
  out of its array and leaves copies of the later ones in their place.  After hits at 1, 5 and 6 in a window of
  10, a touch of another key at 12 keeps the count at 3, where one hit has expired.
\<close>

lemma stale_hits_counted:
  "(let d = the (hotkey_New 10 3 (Some 0) None); (d', h) = fold (hk_do id id) [HTouch ''a'' 1, HTouch ''a'' 5, HTouch ''a'' 6, HTouch ''b'' 12] (d, \<lambda>_. [])
    in fst (hk_Count ''a'' 12 d') = 3 \<and> size (recent (12 - 10) (h ''a'')) = 2)"
  by code_simp

subsection \<open>The cap on the number of keys\<close>

lemma victim_scan_key:
  "victim_scan cutoff keys best = Some (k, x) \<Longrightarrow> k \<in> fst ` set keys \<or> best = Some (k, x)"
proof (induction keys arbitrary: best)
  case (Cons a keys)
  obtain j ts where a: "a = (j, ts)" by (cases a)
  then show ?case using Cons.IH [OF Cons.prems [unfolded a victim_scan.simps Let_def]] by (auto split: if_splits)
qed simp

lemma victim_scan_finds: "keys \<noteq> [] \<or> best \<noteq> None \<Longrightarrow> victim_scan cutoff keys best \<noteq> None"
proof (induction keys arbitrary: best)
  case (Cons a keys)
  show ?case by (cases a) (simp add: Cons.IH Let_def split: option.splits)
qed simp

lemma length_delete_key: "distinct (map fst keys) \<Longrightarrow> k \<in> fst ` set keys \<Longrightarrow> Suc (length (AList.delete k keys)) = length keys"
proof (induction keys)
  case (Cons a keys)
  have "AList.delete k keys = keys" if "k \<notin> fst ` set keys" using that by (rule delete_id)
  with Cons show ?case by (cases "fst a = k") auto
qed simp

lemma drop_victims_cap:
  assumes "\<And>l. mset (order l) = mset l" "0 < maxKeys" "[] \<notin> fst ` set keys" "distinct (map fst keys)" "length keys \<le> n"
  shows "int (length (drop_victims n order maxKeys cutoff keys)) \<le> maxKeys"
  using assms(3-)
proof (induction n arbitrary: keys)
  case (Suc n)
  let ?keys = "map (\<lambda>(k, ts). (k, trim_array ts cutoff)) keys"
  show ?case
  proof (cases "maxKeys < int (length keys)")
    case True
    then have "order keys \<noteq> []" using mset_eq_length [OF assms(1) [of keys]] assms(2) by auto
    then obtain k x where v: "victim_scan cutoff (order keys) None = Some (k, x)"
      using victim_scan_finds [of "order keys" None cutoff] by fastforce
    have k: "k \<in> fst ` set keys" using victim_scan_key [OF v] assms(1) [of keys] by (metis mset_eq_setD option.distinct(1))
    have f: "map fst ?keys = map fst keys" "fst ` set ?keys = fst ` set keys" by (induction keys) auto
    have "Suc (length (AList.delete k ?keys)) = length ?keys"
      by (rule length_delete_key) (use Suc.prems(2) k in \<open>simp_all only: f\<close>)
    moreover have "int (length (drop_victims n order maxKeys cutoff (AList.delete k ?keys))) \<le> maxKeys"
    proof (rule Suc.IH)
      show "[] \<notin> fst ` set (AList.delete k ?keys)"
      proof -
        have "set (AList.delete k ?keys) \<subseteq> set ?keys" by (auto simp: AList.delete_eq)
        then show ?thesis using Suc.prems(1) f(2) by blast
      qed
      show "distinct (map fst (AList.delete k ?keys))" using Suc.prems(2) by (intro distinct_delete) (simp only: f)
      show "length (AList.delete k ?keys) \<le> n" using calculation Suc.prems(3) by simp
    qed
    moreover have "k \<noteq> []" using k Suc.prems(1) by metis
    ultimately show ?thesis using True v assms(2) by (simp add: case_prod_beta Let_def)
  qed simp
qed (use assms(2) in simp)

lemma evict_names: "fst ` set (evictIdleLocked w keys now) \<subseteq> fst ` set keys"
  by (rule keys_evictIdle)

lemma Touch_capped:
  assumes "\<And>l. mset (order l) = mset l" "0 < hk_maxKeys d" "[] \<notin> fst ` set (hk_keys d)" "key \<noteq> []" "distinct (map fst (hk_keys d))"
  shows "int (hk_Len (hk_Touch order key now d)) \<le> hk_maxKeys d"
proof -
  let ?keys = "AList.update key (hk_hit now d (hk_slice d key)) (hk_keys d)"
  have "[] \<notin> fst ` set (evictIdleLocked (hk_window d) ?keys now)"
    using assms(3,4) evict_names [of "hk_window d" ?keys now] by (auto simp: dom_update [symmetric] dom_map_of_conv_image_fst [symmetric] update_conv')
  then show ?thesis unfolding hk_Touch_def hk_evict_def hk_Len_def Let_def
    using drop_victims_cap [OF assms(1,2)] distinct_evictIdle [OF distinct_update [OF assms(5)]] by simp
qed

text \<open>The empty key ends the loop that enforces the cap when it is the victim, and the cap is exceeded.\<close>

lemma empty_key_defeats_cap:
  "hk_Len (fst (fold (hk_do id id) [HTouch [] 1, HTouch ''a'' 2, HTouch ''a'' 3, HTouch ''b'' 4] (the (hotkey_New 10 3 (Some 1) None), \<lambda>_. []))) = 3"
  by code_simp

subsection \<open>Top\<close>

lemma sorted_map_appendD: "sorted (map f (xs @ ys)) \<Longrightarrow> x \<in> set xs \<Longrightarrow> y \<in> set ys \<Longrightarrow> f x \<le> f y"
  by (auto simp: sorted_append)

text \<open>
  \<open>Top\<close> returns at most \<open>topK\<close> keys in decreasing order of their counts, and a tracked key that it leaves out
  counts no more than any key it returns.
\<close>

lemma Top_dominates:
  assumes "\<And>l. mset (srt l) = mset l" "\<And>l. sorted (map (\<lambda>e. - int (snd e)) (srt l))" "hk_Top srt now d = (out, d')"
  shows "length out \<le> nat (hk_topK d)" "sorted (map (\<lambda>e. - int (snd e)) out)"
    "(k, ts) \<in> set (hk_keys d') \<Longrightarrow> (k, length ts) \<notin> set out \<Longrightarrow> e \<in> set out \<Longrightarrow> length ts \<le> snd e"
proof -
  let ?l = "srt (map (\<lambda>(k, ts). (k, length ts)) (hk_keys d'))"
  have t: "out = take (nat (hk_topK d)) ?l" using assms(3) by (auto simp: hk_Top_def Let_def)
  show "length out \<le> nat (hk_topK d)" by (simp add: t)
  show "sorted (map (\<lambda>e. - int (snd e)) out)" using assms(2) by (simp add: t take_map [symmetric] sorted_wrt_take)
  assume k: "(k, ts) \<in> set (hk_keys d')" "(k, length ts) \<notin> set out" "e \<in> set out"
  then have "(k, length ts) \<in> set ?l" using assms(1) by (force simp flip: set_mset_mset)
  then have "(k, length ts) \<in> set (drop (nat (hk_topK d)) ?l)" using k(2) unfolding t by (metis Un_iff append_take_drop_id set_append)
  moreover have "sorted (map (\<lambda>e. - int (snd e)) (take (nat (hk_topK d)) ?l @ drop (nat (hk_topK d)) ?l))" using assms(2) by simp
  ultimately have "- int (snd e) \<le> - int (snd (k, length ts))" using k(3) unfolding t by (intro sorted_map_appendD)
  then show "length ts \<le> snd e" by simp
qed

end
