(* ===== verification/Debounce.thy ===== *)
theory Debounce
  imports Prelude
begin

section \<open>Package debounce\<close>

text \<open>
  Models \<open>src/debounce/debounce.go\<close>.  Calls, timers and the goroutines that run the function interleave: each
  critical section and each atomic access is a step, with the time at which it happens.  A timer of
  \<open>time.AfterFunc\<close> is armed until it is stopped or dispatches its goroutine; \<open>Stop\<close> reports whether it was still
  armed.  Timers are kept in the order of their creation, with the time of the call that made them.
\<close>

subsection \<open>Debounce\<close>

datatype timer_state = Armed | Dispatched int | Stopped

record db_timer =
  dt_called :: int
  dt_due :: int
  dt_state :: timer_state

text \<open>
  \<open>db_calling\<close> counts callers between the check of \<open>closed\<close> and the lock, \<open>db_flushing\<close> are the timers that a
  \<open>Flush\<close> has taken and not yet stopped, and \<open>db_going\<close> the goroutines that have not yet entered the function.  The
  last two fields are ghosts: the runs of the function with the timer and the time, and the timers ever taken by \<open>Flush\<close>.
\<close>

record debounce =
  db_after :: int
  db_current :: "nat option"
  db_timers :: "db_timer list"
  db_closed :: bool
  db_recovered :: "64 word"
  db_calling :: nat
  db_flushing :: "nat list"
  db_going :: "nat list"
  db_runs :: "(nat \<times> int) list"
  db_taken :: "nat set"

definition db_New :: "int \<Rightarrow> debounce" where
  "db_New after = \<lparr>db_after = after, db_current = None, db_timers = [], db_closed = False, db_recovered = 0, db_calling = 0,
    db_flushing = [], db_going = [], db_runs = [], db_taken = {}\<rparr>"

definition timer_stop :: "nat \<Rightarrow> debounce \<Rightarrow> bool \<times> debounce" where
  "timer_stop i d =
    (if dt_state (db_timers d ! i) = Armed then (True, d\<lparr>db_timers := (db_timers d)[i := (db_timers d ! i)\<lparr>dt_state := Stopped\<rparr>]\<rparr>)
     else (False, d))"

definition stop_current :: "debounce \<Rightarrow> debounce" where
  "stop_current d = (case db_current d of None \<Rightarrow> d | Some i \<Rightarrow> snd (timer_stop i d))"

definition call_check :: "debounce \<Rightarrow> debounce" where
  "call_check d = (if db_closed d then d else d\<lparr>db_calling := db_calling d + 1\<rparr>)"

definition call_schedule :: "int \<Rightarrow> debounce \<Rightarrow> debounce" where
  "call_schedule now d =
    (let d1 = stop_current d
     in d1\<lparr>db_calling := db_calling d1 - 1, db_current := Some (length (db_timers d1)),
           db_timers := db_timers d1 @ [\<lparr>dt_called = now, dt_due = now + db_after d1, dt_state = Armed\<rparr>]\<rparr>)"

definition flush_take :: "debounce \<Rightarrow> debounce" where
  "flush_take d = (case db_current d of None \<Rightarrow> d
    | Some i \<Rightarrow> d\<lparr>db_current := None, db_flushing := db_flushing d @ [i], db_taken := insert i (db_taken d)\<rparr>)"

definition flush_stop :: "nat \<Rightarrow> debounce \<Rightarrow> debounce" where
  "flush_stop i d =
    (let (ok, d1) = timer_stop i (d\<lparr>db_flushing := remove1 i (db_flushing d)\<rparr>)
     in if ok then d1\<lparr>db_going := db_going d1 @ [i]\<rparr> else d1)"

definition db_Cancel :: "debounce \<Rightarrow> debounce" where
  "db_Cancel d = (stop_current d)\<lparr>db_current := None\<rparr>"

text \<open>\<open>Close\<close> is \<open>Cancel\<close> followed by this store.\<close>

definition db_set_closed :: "debounce \<Rightarrow> debounce" where
  "db_set_closed d = d\<lparr>db_closed := True\<rparr>"

definition db_Pending :: "debounce \<Rightarrow> bool" where
  "db_Pending d \<longleftrightarrow> db_current d \<noteq> None"

text \<open>The runtime dispatches a timer that is due; its goroutine runs the wrapped function.\<close>

definition timer_fire :: "int \<Rightarrow> nat \<Rightarrow> debounce \<Rightarrow> debounce" where
  "timer_fire now i d =
    d\<lparr>db_timers := (db_timers d)[i := (db_timers d ! i)\<lparr>dt_state := Dispatched now\<rparr>], db_going := db_going d @ [i]\<rparr>"

definition db_fn :: "bool \<Rightarrow> int \<Rightarrow> nat \<Rightarrow> debounce \<Rightarrow> debounce" where
  "db_fn panics now i d =
    (let d1 = d\<lparr>db_going := remove1 i (db_going d)\<rparr>
     in if db_closed d1 then d1
        else d1\<lparr>db_runs := db_runs d1 @ [(i, now)], db_recovered := (if panics then db_recovered d1 + 1 else db_recovered d1)\<rparr>)"

datatype db_event = ECheck | ESchedule | EFire nat | EFn bool nat | EFlush | EFlushStop nat | ECancel | EClose

definition db_enabled :: "int \<Rightarrow> db_event \<Rightarrow> debounce \<Rightarrow> bool" where
  "db_enabled now ev d =
    (case ev of ESchedule \<Rightarrow> 0 < db_calling d
     | EFire i \<Rightarrow> i < length (db_timers d) \<and> dt_state (db_timers d ! i) = Armed \<and> dt_due (db_timers d ! i) \<le> now
     | EFn _ i \<Rightarrow> i \<in> set (db_going d) | EFlushStop i \<Rightarrow> i \<in> set (db_flushing d) | _ \<Rightarrow> True)"

definition db_do :: "int \<Rightarrow> db_event \<Rightarrow> debounce \<Rightarrow> debounce" where
  "db_do now ev d =
    (case ev of ECheck \<Rightarrow> call_check d | ESchedule \<Rightarrow> call_schedule now d | EFire i \<Rightarrow> timer_fire now i d | EFn p i \<Rightarrow> db_fn p now i d
     | EFlush \<Rightarrow> flush_take d | EFlushStop i \<Rightarrow> flush_stop i d | ECancel \<Rightarrow> db_Cancel d | EClose \<Rightarrow> db_set_closed d)"

fun db_run :: "(int \<times> db_event) list \<Rightarrow> debounce \<Rightarrow> debounce option" where
  "db_run [] d = Some d"
| "db_run ((now, ev) # evs) d = (if db_enabled now ev d then db_run evs (db_do now ev d) else None)"

subsection \<open>Quiet periods\<close>

text \<open>
  An armed timer is the current one or is being flushed; a timer has started its goroutine at most once, and only
  after it left the armed state; a timer that dispatched did so after its due time and before any later call.
\<close>

definition started :: "debounce \<Rightarrow> nat \<Rightarrow> nat" where
  "started d i = count_list (db_going d) i + count_list (map fst (db_runs d)) i"

definition quiet_until :: "debounce \<Rightarrow> nat \<Rightarrow> int \<Rightarrow> bool" where
  "quiet_until d i u \<longleftrightarrow> (\<forall>j. i < j \<and> j < length (db_timers d) \<longrightarrow> u \<le> dt_called (db_timers d ! j))"

definition runs_from :: "debounce \<Rightarrow> nat \<Rightarrow> int \<Rightarrow> bool" where
  "runs_from d i u \<longleftrightarrow> (\<forall>t. (i, t) \<in> set (db_runs d) \<longrightarrow> u \<le> t)"

definition tm_ok :: "int \<Rightarrow> debounce \<Rightarrow> nat \<Rightarrow> bool" where
  "tm_ok T d i \<longleftrightarrow> dt_due (db_timers d ! i) = dt_called (db_timers d ! i) + db_after d \<and> dt_called (db_timers d ! i) \<le> T
    \<and> (case dt_state (db_timers d ! i) of
         Armed \<Rightarrow> (db_current d = Some i \<or> i \<in> set (db_flushing d)) \<and> started d i = 0
       | Stopped \<Rightarrow> 0 < started d i \<longrightarrow> i \<in> db_taken d
       | Dispatched u \<Rightarrow> dt_due (db_timers d ! i) \<le> u \<and> u \<le> T \<and> runs_from d i u \<and> (i \<notin> db_taken d \<longrightarrow> quiet_until d i u))"

definition db_inv :: "int \<Rightarrow> debounce \<Rightarrow> bool" where
  "db_inv T d \<longleftrightarrow> (\<forall>i<length (db_timers d). tm_ok T d i) \<and> (\<forall>i. started d i \<le> 1) \<and> (\<forall>i\<ge>length (db_timers d). started d i = 0)
    \<and> (\<forall>i. db_current d = Some i \<longrightarrow> Suc i = length (db_timers d)) \<and> set (db_flushing d) \<subseteq> db_taken d \<and> db_taken d \<subseteq> {..<length (db_timers d)}"

lemma count_remove1: "count_list (remove1 x xs) y = count_list xs y - (if x = y \<and> x \<in> set xs then 1 else 0)"
proof (induction xs)
  case (Cons a xs)
  then show ?case using count_list_0_iff [of xs x] by auto
qed simp

lemma db_invI:
  assumes "\<And>i. i < length (db_timers d) \<Longrightarrow> tm_ok T d i" "\<And>i. started d i \<le> 1" "\<And>i. length (db_timers d) \<le> i \<Longrightarrow> started d i = 0"
    "\<And>i. db_current d = Some i \<Longrightarrow> Suc i = length (db_timers d)" "set (db_flushing d) \<subseteq> db_taken d" "db_taken d \<subseteq> {..<length (db_timers d)}"
  shows "db_inv T d"
  using assms by (simp add: db_inv_def)

lemma db_invD:
  assumes "db_inv T d"
  shows "i < length (db_timers d) \<Longrightarrow> tm_ok T d i" "started d i \<le> 1" "length (db_timers d) \<le> i \<Longrightarrow> started d i = 0"
    "db_current d = Some i \<Longrightarrow> Suc i = length (db_timers d)" "set (db_flushing d) \<subseteq> db_taken d" "db_taken d \<subseteq> {..<length (db_timers d)}"
  using assms unfolding db_inv_def by blast+

lemma later_inv: "db_inv T d \<Longrightarrow> T \<le> T' \<Longrightarrow> db_inv T' d"
proof -
  have "tm_ok T d i \<Longrightarrow> T \<le> T' \<Longrightarrow> tm_ok T' d i" for i unfolding tm_ok_def by (auto split: timer_state.splits)
  then show "db_inv T d \<Longrightarrow> T \<le> T' \<Longrightarrow> db_inv T' d" unfolding db_inv_def by blast
qed

lemma inv_frame:
  assumes "db_inv T d" "db_timers d' = db_timers d" "db_after d' = db_after d" "db_current d' = db_current d" "db_flushing d' = db_flushing d"
    "db_going d' = db_going d" "db_runs d' = db_runs d" "db_taken d' = db_taken d"
  shows "db_inv T d'"
  using assms(1) unfolding db_inv_def tm_ok_def started_def quiet_until_def runs_from_def assms(2-) .

text \<open>A timer that an operation does not touch stays in order when the operation only adds to what it may use.\<close>

lemma tm_ok_other:
  assumes "tm_ok T d i" "i < length (db_timers d)" "db_timers d' ! i = db_timers d ! i" "db_after d' = db_after d" "started d' i \<le> started d i"
    and "db_current d = Some i \<Longrightarrow> db_current d' = Some i \<or> i \<in> set (db_flushing d')" "i \<in> set (db_flushing d) \<Longrightarrow> i \<in> set (db_flushing d')"
    and "i \<in> db_taken d \<Longrightarrow> i \<in> db_taken d'" and "\<And>u. u \<le> T \<Longrightarrow> runs_from d i u \<Longrightarrow> runs_from d' i u" "\<And>u. u \<le> T \<Longrightarrow> quiet_until d i u \<Longrightarrow> quiet_until d' i u"
  shows "tm_ok T d' i"
  using assms unfolding tm_ok_def by (cases "dt_state (db_timers d ! i)") auto

lemma quiet_same: "map dt_called (db_timers d') = map dt_called (db_timers d) \<Longrightarrow> quiet_until d i u \<Longrightarrow> quiet_until d' i u"
  unfolding quiet_until_def by (metis length_map nth_map)

lemma called_update: "map dt_called (ts[i := (ts ! i)\<lparr>dt_state := x\<rparr>]) = map dt_called ts"
  by (cases "i < length ts") (auto intro!: nth_equalityI simp: nth_list_update)

lemma inv_stop:
  assumes "db_inv T d" "timer_stop i d = (ok, d')" "i < length (db_timers d)"
  shows "db_inv T d'" "dt_state (db_timers d' ! i) \<noteq> Armed" "length (db_timers d') = length (db_timers d)"
    "db_current d' = db_current d" "ok \<Longrightarrow> started d' i = 0 \<and> dt_state (db_timers d' ! i) = Stopped" "db_flushing d' = db_flushing d"
    "db_taken d' = db_taken d" "db_after d' = db_after d"
proof -
  show "db_inv T d'"
  proof (cases "dt_state (db_timers d ! i) = Armed")
    case True
    let ?d = "d\<lparr>db_timers := (db_timers d)[i := (db_timers d ! i)\<lparr>dt_state := Stopped\<rparr>]\<rparr>"
    have d': "d' = ?d" using assms(2) True by (simp add: timer_stop_def)
    have st: "started ?d = started d" by (simp add: fun_eq_iff started_def)
    have called: "map dt_called (db_timers ?d) = map dt_called (db_timers d)" by (simp add: called_update)
    have "tm_ok T ?d j" if "j < length (db_timers ?d)" for j
    proof (cases "j = i")
      case j: True
      then show ?thesis using db_invD(1) [OF assms(1,3)] True assms(3) by (simp add: tm_ok_def st)
    next
      case False
      show ?thesis by (rule tm_ok_other [OF db_invD(1) [OF assms(1)]])
        (use that False st quiet_same [OF called] in \<open>auto simp: runs_from_def\<close>)
    qed
    then show ?thesis using db_invD(2-) [OF assms(1)] unfolding d' by (intro db_invI) (auto simp: st)
  qed (use assms in \<open>simp add: timer_stop_def\<close>)
  show "ok \<Longrightarrow> started d' i = 0 \<and> dt_state (db_timers d' ! i) = Stopped"
    using assms(2,3) db_invD(1) [OF assms(1,3)] by (auto simp: timer_stop_def tm_ok_def started_def split: if_splits)
qed (use assms(2,3) in \<open>auto simp: timer_stop_def split: if_splits\<close>)

lemma inv_stop_current:
  assumes "db_inv T d"
  shows "db_inv T (stop_current d)" "i < length (db_timers (stop_current d)) \<Longrightarrow> dt_state (db_timers (stop_current d) ! i) = Armed \<Longrightarrow> i \<in> set (db_flushing (stop_current d))"
proof -
  have "db_inv T (stop_current d) \<and> (i < length (db_timers (stop_current d)) \<longrightarrow> dt_state (db_timers (stop_current d) ! i) = Armed \<longrightarrow> i \<in> set (db_flushing (stop_current d)))"
  proof (cases "db_current d")
    case None
    then show ?thesis using assms db_invD(1) [OF assms, of i] by (auto simp: stop_current_def tm_ok_def)
  next
    case (Some k)
    then have k: "k < length (db_timers d)" using db_invD(4) [OF assms] by force
    obtain ok d' where d': "timer_stop k d = (ok, d')" by (cases "timer_stop k d")
    note s = inv_stop [OF assms d' k]
    have "i \<in> set (db_flushing d')" if "i < length (db_timers d')" "dt_state (db_timers d' ! i) = Armed"
      using db_invD(1) [OF s(1) that(1)] that(2) s(2,4) Some by (auto simp: tm_ok_def)
    then show ?thesis using s(1) Some d' by (simp add: stop_current_def)
  qed
  then show "db_inv T (stop_current d)" "i < length (db_timers (stop_current d)) \<Longrightarrow> dt_state (db_timers (stop_current d) ! i) = Armed \<Longrightarrow> i \<in> set (db_flushing (stop_current d))"
    by simp_all
qed

lemma inv_schedule:
  assumes "db_inv T d" "T \<le> now"
  shows "db_inv now (call_schedule now d)"
proof -
  let ?d = "stop_current d" and ?d' = "call_schedule now d"
  have i: "db_inv now ?d" using later_inv [OF inv_stop_current(1) [OF assms(1)] assms(2)] .
  have s: "started ?d' = started ?d" by (simp add: fun_eq_iff started_def call_schedule_def Let_def)
  have t: "db_timers ?d' = db_timers ?d @ [\<lparr>dt_called = now, dt_due = now + db_after ?d, dt_state = Armed\<rparr>]" "db_after ?d' = db_after ?d"
    "db_current ?d' = Some (length (db_timers ?d))" "db_taken ?d' = db_taken ?d" "db_flushing ?d' = db_flushing ?d" "db_runs ?d' = db_runs ?d"
    by (simp_all add: call_schedule_def Let_def)
  have "tm_ok now ?d' j" if "j < length (db_timers ?d')" for j
  proof (cases "j < length (db_timers ?d)")
    case True
    have ok: "tm_ok now ?d j" by (rule db_invD(1) [OF i True])
    have q: "quiet_until ?d j u \<Longrightarrow> u \<le> now \<Longrightarrow> quiet_until ?d' j u" for u by (auto simp: quiet_until_def t nth_append less_Suc_eq)
    show ?thesis
      using ok inv_stop_current(2) [OF assms(1) True] q True by (cases "dt_state (db_timers ?d ! j)") (auto simp: tm_ok_def t s nth_append runs_from_def)
  next
    case False
    then have "j = length (db_timers ?d)" using that by (simp add: t)
    then show ?thesis using db_invD(3) [OF i, of j] by (simp add: tm_ok_def t s)
  qed
  then show ?thesis using db_invD(2-) [OF i] by (intro db_invI) (auto simp: t s)
qed

lemma inv_fire:
  assumes "db_inv T d" "T \<le> now" "db_enabled now (EFire i) d"
  shows "db_inv now (timer_fire now i d)"
proof -
  let ?d = "timer_fire now i d"
  have e: "i < length (db_timers d)" "dt_state (db_timers d ! i) = Armed" "dt_due (db_timers d ! i) \<le> now" using assms(3) by (simp_all add: db_enabled_def)
  have d: "db_inv now d" by (rule later_inv [OF assms(1,2)])
  have z: "started d i = 0" "db_current d = Some i \<or> i \<in> set (db_flushing d)" using db_invD(1) [OF d e(1)] e(2) by (simp_all add: tm_ok_def)
  have s: "started ?d j = started d j + (if j = i then 1 else 0)" for j by (simp add: started_def timer_fire_def)
  have called: "map dt_called (db_timers ?d) = map dt_called (db_timers d)" by (simp add: timer_fire_def called_update)
  have "tm_ok now ?d j" if j: "j < length (db_timers ?d)" for j
  proof (cases "j = i")
    case True
    have "runs_from ?d i now" using z(1) by (force simp: started_def count_list_0_iff runs_from_def timer_fire_def)
    moreover have "i \<notin> db_taken d \<Longrightarrow> quiet_until ?d i now"
      using z(2) db_invD(4,5) [OF d] by (auto simp: quiet_until_def timer_fire_def)
    ultimately show ?thesis using True e db_invD(1) [OF d e(1)] by (simp add: tm_ok_def timer_fire_def)
  next
    case False
    show ?thesis by (rule tm_ok_other [OF db_invD(1) [OF d]])
      (use j False s quiet_same [OF called] in \<open>auto simp: timer_fire_def runs_from_def\<close>)
  qed
  then show ?thesis using db_invD(2-) [OF d] z(1) e(1) by (intro db_invI) (auto simp: s, auto simp: timer_fire_def)
qed

lemma inv_fn:
  assumes "db_inv T d" "T \<le> now" "i \<in> set (db_going d)"
  shows "db_inv now (db_fn p now i d)"
proof -
  let ?d = "db_fn p now i d"
  have d: "db_inv now d" by (rule later_inv [OF assms(1,2)])
  have "0 < count_list (db_going d) i" using assms(3) by (metis count_list_0_iff gr0I)
  then have s: "started ?d j \<le> started d j" for j by (auto simp: started_def db_fn_def count_remove1 Let_def)
  have r: "db_timers ?d = db_timers d" "db_current ?d = db_current d" "db_flushing ?d = db_flushing d" "db_taken ?d = db_taken d" "db_after ?d = db_after d"
    by (auto simp: db_fn_def Let_def)
  have "set (db_runs ?d) \<subseteq> insert (i, now) (set (db_runs d))" by (auto simp: db_fn_def Let_def)
  then have runs: "u \<le> now \<Longrightarrow> runs_from d j u \<Longrightarrow> runs_from ?d j u" for j u by (auto simp: runs_from_def)
  have "tm_ok now ?d j" if "j < length (db_timers ?d)" for j
    by (rule tm_ok_other [OF db_invD(1) [OF d]]) (use that s runs in \<open>auto simp: r quiet_until_def\<close>)
  moreover have "started ?d j \<le> 1" "length (db_timers d) \<le> j \<Longrightarrow> started ?d j = 0" for j
    using s [of j] db_invD(2,3) [OF d, of j] by simp_all
  ultimately show ?thesis using db_invD(4-) [OF d] by (intro db_invI) (auto simp: r)
qed

lemma inv_flush_take:
  assumes "db_inv T d"
  shows "db_inv T (flush_take d)"
proof (cases "db_current d")
  case (Some i)
  let ?d = "d\<lparr>db_current := None, db_flushing := db_flushing d @ [i], db_taken := insert i (db_taken d)\<rparr>"
  have s: "started ?d = started d" by (simp add: fun_eq_iff started_def)
  have "tm_ok T ?d j" if "j < length (db_timers ?d)" for j
    by (rule tm_ok_other [OF db_invD(1) [OF assms]]) (use that Some s in \<open>auto simp: quiet_until_def runs_from_def\<close>)
  then have "db_inv T ?d" using db_invD(2-) [OF assms] db_invD(4) [OF assms Some] by (intro db_invI) (auto simp: s)
  then show ?thesis using Some by (simp add: flush_take_def)
qed (use assms in \<open>simp add: flush_take_def\<close>)

lemma inv_flush_stop:
  assumes "db_inv T d" "i \<in> set (db_flushing d)"
  shows "db_inv T (flush_stop i d)"
proof -
  let ?d = "flush_stop i d"
  have i: "i < length (db_timers d)" "i \<in> db_taken d" using db_invD(5,6) [OF assms(1)] assms(2) by auto
  obtain ok d1 where d1: "timer_stop i d = (ok, d1)" by (cases "timer_stop i d")
  note s = inv_stop [OF assms(1) d1 i(1)]
  have f: "?d = d1\<lparr>db_flushing := remove1 i (db_flushing d1), db_going := db_going d1 @ (if ok then [i] else [])\<rparr>"
    using d1 by (auto simp: flush_stop_def timer_stop_def Let_def split: if_splits)
  have st: "started ?d j = started d1 j + (if ok \<and> j = i then 1 else 0)" for j by (simp add: f started_def)
  have "tm_ok T ?d j" if j: "j < length (db_timers ?d)" for j
  proof (cases "j = i")
    case True
    then show ?thesis using db_invD(1) [OF s(1), of i] s(2,3,5,7) i
      by (cases "dt_state (db_timers d1 ! i)") (auto simp: tm_ok_def f runs_from_def quiet_until_def)
  next
    case False
    show ?thesis by (rule tm_ok_other [OF db_invD(1) [OF s(1)]]) (use j False st in \<open>auto simp: f runs_from_def quiet_until_def\<close>)
  qed
  moreover have "set (remove1 i (db_flushing d1)) \<subseteq> db_taken d1" using set_remove1_subset db_invD(5) [OF s(1)] by fast
  moreover have "started ?d j \<le> 1" "length (db_timers d1) \<le> j \<Longrightarrow> started ?d j = 0" for j
    using st [of j] db_invD(2,3) [OF s(1), of j] s(3,5) i by auto
  ultimately show ?thesis using db_invD(4,6) [OF s(1)] by (intro db_invI) (auto simp: f)
qed

lemma inv_Cancel:
  assumes "db_inv T d"
  shows "db_inv T (db_Cancel d)"
proof -
  let ?d = "stop_current d"
  note i = inv_stop_current [OF assms]
  have s: "started (?d\<lparr>db_current := None\<rparr>) = started ?d" by (simp add: fun_eq_iff started_def)
  have "tm_ok T (?d\<lparr>db_current := None\<rparr>) j" if "j < length (db_timers ?d)" for j
    using db_invD(1) [OF i(1) that] i(2) [OF that]
    by (cases "dt_state (db_timers ?d ! j)") (auto simp: tm_ok_def s runs_from_def quiet_until_def)
  then show ?thesis using db_invD(2-) [OF i(1)] unfolding db_Cancel_def by (intro db_invI) (auto simp: s)
qed

lemma db_do_inv:
  assumes "db_inv T d" "T \<le> now" "db_enabled now ev d"
  shows "db_inv now (db_do now ev d)"
proof -
  have l: "db_inv now d" by (rule later_inv [OF assms(1,2)])
  have "db_inv now (call_check d)" "db_inv now (db_set_closed d)"
    by (rule inv_frame [OF l]; simp add: call_check_def db_set_closed_def)+
  then show ?thesis
    using assms(3) inv_schedule [OF l] inv_fire [OF l] inv_fn [OF l] inv_flush_take [OF l] inv_flush_stop [OF l] inv_Cancel [OF l]
    by (cases ev) (simp_all add: db_do_def, simp_all add: db_enabled_def)
qed

lemma db_run_inv: "db_run evs d = Some d' \<Longrightarrow> db_inv T d \<Longrightarrow> sorted (T # map fst evs) \<Longrightarrow> \<exists>T'. db_inv T' d'"
proof (induction evs arbitrary: T d)
  case (Cons e evs)
  obtain now ev where e: "e = (now, ev)" by (cases e)
  then have "db_enabled now ev d" "db_run evs (db_do now ev d) = Some d'" "T \<le> now" "sorted (now # map fst evs)"
    using Cons.prems by (auto split: if_splits)
  then show ?case using Cons.IH db_do_inv [OF Cons.prems(2)] by blast
qed auto

lemma db_after_do: "db_after (db_do now ev d) = db_after d"
  by (cases ev) (auto simp: db_do_def call_check_def call_schedule_def stop_current_def timer_stop_def timer_fire_def db_fn_def flush_take_def
      flush_stop_def db_Cancel_def db_set_closed_def Let_def split: option.splits prod.splits if_splits)

lemma db_after_run: "db_run evs d = Some d' \<Longrightarrow> db_after d' = db_after d"
  by (induction evs arbitrary: d) (auto simp: db_after_do split: if_splits)

lemma count_list_distinct: "(\<And>x. count_list xs x \<le> 1) \<Longrightarrow> distinct xs"
proof (induction xs)
  case (Cons a xs)
  have "count_list xs x \<le> 1" for x using Cons.prems [of x] by (auto split: if_splits)
  moreover have "count_list xs a = 0" using Cons.prems [of a] by simp
  ultimately show ?case using Cons.IH by (simp add: count_list_0_iff)
qed simp

lemma run_timer:
  assumes "db_inv T d" "(i, t) \<in> set (db_runs d)" "i \<notin> db_taken d"
  shows "i < length (db_timers d)" "\<exists>u. dt_called (db_timers d ! i) + db_after d \<le> u \<and> u \<le> t \<and> quiet_until d i u"
proof -
  have s: "0 < started d i" using assms(2) by (force simp: started_def count_list_0_iff intro: gr0I)
  then show i: "i < length (db_timers d)" using db_invD(3) [OF assms(1), of i] by (cases "i < length (db_timers d)") auto
  show "\<exists>u. dt_called (db_timers d ! i) + db_after d \<le> u \<and> u \<le> t \<and> quiet_until d i u"
    using db_invD(1) [OF assms(1) i] s assms(2,3) by (cases "dt_state (db_timers d ! i)") (auto simp: tm_ok_def runs_from_def)
qed

text \<open>
  C36. Whatever callers, timers, flushes and cancellations interleave, each call leads to at most one run of the
  function, and a run that no \<open>Flush\<close> asked for ends a quiet period: its timer went off at some time \<open>u\<close> at least
  \<open>after\<close> later than the call that armed it, and no call came between that call and \<open>u\<close>.
\<close>

theorem debounce_quiet_period:
  assumes "db_run evs (db_New after) = Some d" "sorted (map fst evs)"
  shows "distinct (map fst (db_runs d))
    \<and> (\<forall>(i, t)\<in>set (db_runs d). i \<notin> db_taken d \<longrightarrow> i < length (db_timers d)
        \<and> (\<exists>u. dt_called (db_timers d ! i) + after \<le> u \<and> u \<le> t \<and> (\<forall>j. i < j \<and> j < length (db_timers d) \<longrightarrow> u \<le> dt_called (db_timers d ! j))))"
proof -
  define T where "T = (if evs = [] then 0 else fst (hd evs))"
  have "sorted (T # map fst evs)" using assms(2) by (cases evs) (auto simp: T_def)
  moreover have "db_inv T (db_New after)" by (simp add: db_New_def db_inv_def started_def)
  ultimately obtain T' where i: "db_inv T' d" using db_run_inv [OF assms(1)] by blast
  have a: "db_after d = after" using db_after_run [OF assms(1)] by (simp add: db_New_def)
  have "count_list (map fst (db_runs d)) k \<le> 1" for k using db_invD(2) [OF i, of k] by (simp add: started_def)
  then show ?thesis using run_timer [OF i] count_list_distinct unfolding a quiet_until_def by blast
qed

theorem debounce_quiet_period_witness:
  "\<exists>d. db_run [(0, ECheck), (0, ESchedule), (3, ECheck), (3, ESchedule), (13, EFire 1), (13, EFn False 1)] (db_New 10) = Some d
    \<and> db_runs d = [(1, 13)] \<and> distinct (map fst (db_runs d))"
proof -
  let ?evs = "[(0, ECheck), (0, ESchedule), (3, ECheck), (3, ESchedule), (13, EFire 1), (13, EFn False 1)]"
  have "map_option db_runs (db_run ?evs (db_New 10)) = Some [(1, 13)]" by code_simp
  then obtain d where d: "db_run ?evs (db_New 10) = Some d" "db_runs d = [(1, 13)]" by auto
  from debounce_quiet_period [OF d(1)] d show ?thesis by simp
qed

text \<open>After \<open>Close\<close> the function does not run any more.\<close>

lemma closed_no_runs:
  assumes "db_closed d" "db_run evs d = Some d'"
  shows "db_closed d' \<and> db_runs d' = db_runs d"
  using assms
proof (induction evs arbitrary: d)
  case (Cons e evs)
  obtain now ev where e: "e = (now, ev)" by (cases e)
  have "db_closed (db_do now ev d) \<and> db_runs (db_do now ev d) = db_runs d"
    using Cons.prems(1) by (cases ev) (auto simp: db_do_def call_check_def call_schedule_def stop_current_def timer_stop_def timer_fire_def db_fn_def flush_take_def
      flush_stop_def db_Cancel_def db_set_closed_def Let_def split: option.splits prod.splits if_splits)
  then show ?case using Cons by (auto simp: e split: if_splits)
qed simp

text \<open>The timer that has fired stays the current one, so \<open>Pending\<close> still reports a call that is scheduled.\<close>

lemma pending_after_run:
  "map_option (\<lambda>d. (db_runs d, db_Pending d)) (db_run [(0, ECheck), (0, ESchedule), (10, EFire 0), (10, EFn False 0)] (db_New 10)) = Some ([(0, 10)], True)"
  by code_simp

subsection \<open>Throttle\<close>

text \<open>\<open>th_runs\<close> is a ghost: the times at which a call was let through.  The difference of two times saturates.\<close>

record throttle =
  th_interval :: int
  th_last :: int
  th_closed :: bool
  th_callCount :: "64 word"
  th_runs :: "int list"

definition go_Sub :: "int \<Rightarrow> int \<Rightarrow> int" where
  "go_Sub t u = max (- (2 ^ 63)) (min (2 ^ 63 - 1) (t - u))"

definition th_zero :: int where "th_zero = - 62135596800000000000"

definition NewThrottle :: "int \<Rightarrow> throttle" where
  "NewThrottle interval = \<lparr>th_interval = interval, th_last = th_zero, th_closed = False, th_callCount = 0, th_runs = []\<rparr>"

text \<open>\<open>Call\<close> and \<open>CallBlocking\<close> differ in the goroutine that runs the function.\<close>

definition th_Call :: "int \<Rightarrow> throttle \<Rightarrow> bool \<times> throttle" where
  "th_Call now t =
    (if th_closed t then (False, t)
     else if th_interval t \<le> go_Sub now (th_last t)
     then (True, t\<lparr>th_last := now, th_callCount := th_callCount t + 1, th_runs := th_runs t @ [now]\<rparr>)
     else (False, t))"

definition th_Close :: "throttle \<Rightarrow> throttle" where
  "th_Close t = t\<lparr>th_closed := True\<rparr>"

fun spaced :: "int \<Rightarrow> int list \<Rightarrow> bool" where
  "spaced v (x # y # zs) \<longleftrightarrow> x + v \<le> y \<and> spaced v (y # zs)"
| "spaced v _ \<longleftrightarrow> True"

lemma spaced_snoc: "xs \<noteq> [] \<Longrightarrow> spaced v xs \<Longrightarrow> last xs + v \<le> y \<Longrightarrow> spaced v (xs @ [y])"
  by (induction v xs rule: spaced.induct) auto

text \<open>
  Calls let through are at least the interval apart, on any sequence of clock readings, and the counter counts
  them.
\<close>

lemma throttle_spaces:
  assumes "0 < interval" "t' = fold (\<lambda>now t. snd (th_Call now t)) nows (NewThrottle interval)"
  shows "spaced interval (th_runs t')" "th_callCount t' = word_of_nat (length (th_runs t'))"
proof -
  have "spaced interval (th_runs t') \<and> th_callCount t' = word_of_nat (length (th_runs t')) \<and> th_interval t' = interval
      \<and> (th_runs t' \<noteq> [] \<longrightarrow> th_last t' = last (th_runs t'))"
    unfolding assms(2)
  proof (induction nows rule: rev_induct)
    case (snoc now nows)
    let ?t = "fold (\<lambda>now t. snd (th_Call now t)) nows (NewThrottle interval)"
    have "th_last ?t + interval \<le> now" if "interval \<le> go_Sub now (th_last ?t)" using that assms(1) by (auto simp: go_Sub_def)
    then have "spaced interval (th_runs ?t @ [now])" if "interval \<le> go_Sub now (th_last ?t)"
      using that snoc spaced_snoc [of "th_runs ?t" interval now] by (cases "th_runs ?t = []") auto
    then show ?case using snoc by (simp add: th_Call_def)
  qed (simp add: NewThrottle_def)
  then show "spaced interval (th_runs t')" "th_callCount t' = word_of_nat (length (th_runs t'))" by simp_all
qed

end
