(* ===== verification/Worker_Pool.thy ===== *)
theory Worker_Pool
  imports Prelude "HOL-Library.Multiset"
begin

section \<open>Package workerpool\<close>

text \<open>
  Models \<open>src/workerpool/workerpool.go\<close> as interleaved steps: callers of \<open>Submit\<close> and \<open>TrySubmit\<close> between the check
  of \<open>closed\<close> and their \<open>select\<close>, the workers, the receiver of results and \<open>Close\<close>.  A job stands for the function
  and its context; whether it panics is part of the step that ends it.  A result is named by its job.  The last
  fields are ghosts: jobs the queue took, jobs refused, jobs that ran, results received and results dropped.
\<close>

text \<open>The flag of a busy worker says that it is in \<open>drainQueue\<close>.\<close>

datatype 'j wstate = WIdle | WDrain | WRun bool 'j | WSend bool 'j | WExit

record 'j pool =
  wp_queue :: "'j list"
  wp_cap :: nat
  wp_collect :: "nat option"
  wp_results :: "'j list"
  wp_done :: bool
  wp_closed :: bool
  wp_finished :: bool
  wp_workers :: "'j wstate list"
  wp_recovered :: "64 word"
  wp_submitting :: "(bool \<times> 'j) list"
  wp_accepted :: "'j list"
  wp_refused :: "'j list"
  wp_ran :: "'j list"
  wp_delivered :: "'j list"
  wp_lost :: "'j list"

datatype pool_option = WithQueueSize int | WithResults int

fun pool_apply :: "pool_option \<Rightarrow> nat option \<times> nat option \<Rightarrow> nat option \<times> nat option" where
  "pool_apply (WithQueueSize n) (queue, results) = (if 0 < n then Some (nat n) else queue, results)"
| "pool_apply (WithResults buffer) (queue, results) = (queue, Some (nat (if buffer < 0 then 0 else buffer)))"

text \<open>\<open>None\<close> is the panic.\<close>

definition pool_New :: "int \<Rightarrow> pool_option list \<Rightarrow> 'j pool option" where
  "pool_New workers opts =
    (if workers \<le> 0 then None
     else let (queue, results) = fold pool_apply opts (None, None)
          in Some \<lparr>wp_queue = [], wp_cap = (case queue of None \<Rightarrow> nat workers | Some n \<Rightarrow> n), wp_collect = results, wp_results = [],
               wp_done = False, wp_closed = False, wp_finished = False, wp_workers = replicate (nat workers) WIdle, wp_recovered = 0,
               wp_submitting = [], wp_accepted = [], wp_refused = [], wp_ran = [], wp_delivered = [], wp_lost = []\<rparr>)"

subsection \<open>Callers\<close>

text \<open>\<open>Submit\<close> and \<open>TrySubmit\<close> (\<open>try\<close>) up to the \<open>select\<close>.\<close>

definition submit_check :: "bool \<Rightarrow> 'j \<Rightarrow> 'j pool \<Rightarrow> 'j pool" where
  "submit_check try j p =
    (if wp_closed p then p\<lparr>wp_refused := wp_refused p @ [j]\<rparr> else p\<lparr>wp_submitting := wp_submitting p @ [(try, j)]\<rparr>)"

datatype choice = ChQueue | ChDone | ChCtx | ChDefault

definition choice_ready :: "choice \<Rightarrow> bool \<Rightarrow> 'j pool \<Rightarrow> bool" where
  "choice_ready c try p =
    (case c of ChQueue \<Rightarrow> length (wp_queue p) < wp_cap p | ChDone \<Rightarrow> wp_done p | ChCtx \<Rightarrow> \<not> try
     | ChDefault \<Rightarrow> try \<and> \<not> wp_done p \<and> wp_cap p \<le> length (wp_queue p))"

text \<open>The \<open>select\<close> of caller \<open>k\<close>; a ready context is chosen by the environment.\<close>

definition submit_select :: "nat \<Rightarrow> choice \<Rightarrow> 'j pool \<Rightarrow> 'j pool option" where
  "submit_select k c p =
    (if length (wp_submitting p) \<le> k then None
     else let (try, j) = wp_submitting p ! k; p1 = p\<lparr>wp_submitting := take k (wp_submitting p) @ drop (Suc k) (wp_submitting p)\<rparr>
          in if \<not> choice_ready c try p then None
             else if c = ChQueue then Some (p1\<lparr>wp_queue := wp_queue p1 @ [j], wp_accepted := wp_accepted p1 @ [j]\<rparr>)
             else Some (p1\<lparr>wp_refused := wp_refused p1 @ [j]\<rparr>))"

subsection \<open>Workers\<close>

definition set_worker :: "nat \<Rightarrow> 'j wstate \<Rightarrow> 'j pool \<Rightarrow> 'j pool" where
  "set_worker i w p = p\<lparr>wp_workers := (wp_workers p)[i := w]\<rparr>"

definition loop_again :: "bool \<Rightarrow> 'j wstate" where
  "loop_again draining = (if draining then WDrain else WIdle)"

datatype wstep = StTake | StSeeDone | StDrained | StFinish bool | StPut | StHand | StDrop

text \<open>A step of worker \<open>i\<close>: \<open>worker\<close>, \<open>drainQueue\<close>, \<open>safeCall\<close> and the \<open>select\<close> of \<open>runJob\<close>.\<close>

definition worker_step :: "nat \<Rightarrow> wstep \<Rightarrow> 'j pool \<Rightarrow> 'j pool option" where
  "worker_step i st p =
    (if length (wp_workers p) \<le> i then None
     else case (st, wp_workers p ! i) of
       (StTake, WIdle) \<Rightarrow> (case wp_queue p of [] \<Rightarrow> None | j # js \<Rightarrow> Some (set_worker i (WRun False j) (p\<lparr>wp_queue := js\<rparr>)))
     | (StTake, WDrain) \<Rightarrow> (case wp_queue p of [] \<Rightarrow> None | j # js \<Rightarrow> Some (set_worker i (WRun True j) (p\<lparr>wp_queue := js\<rparr>)))
     | (StSeeDone, WIdle) \<Rightarrow> if wp_done p then Some (set_worker i WDrain p) else None
     | (StDrained, WDrain) \<Rightarrow> if wp_queue p = [] then Some (set_worker i WExit p) else None
     | (StFinish panics, WRun dr j) \<Rightarrow>
         (let p1 = p\<lparr>wp_ran := wp_ran p @ [j], wp_recovered := (if panics then wp_recovered p + 1 else wp_recovered p)\<rparr>
          in Some (set_worker i (if wp_collect p = None then loop_again dr else WSend dr j) p1))
     | (StPut, WSend dr j) \<Rightarrow>
         (case wp_collect p of None \<Rightarrow> None
          | Some c \<Rightarrow> if length (wp_results p) < c then Some (set_worker i (loop_again dr) (p\<lparr>wp_results := wp_results p @ [j]\<rparr>)) else None)
     | (StHand, WSend dr j) \<Rightarrow>
         if wp_results p = [] then Some (set_worker i (loop_again dr) (p\<lparr>wp_delivered := wp_delivered p @ [j]\<rparr>)) else None
     | (StDrop, WSend dr j) \<Rightarrow> if wp_done p then Some (set_worker i (loop_again dr) (p\<lparr>wp_lost := wp_lost p @ [j]\<rparr>)) else None
     | _ \<Rightarrow> None)"

subsection \<open>Results and Close\<close>

definition results_receive :: "'j pool \<Rightarrow> 'j pool option" where
  "results_receive p = (case wp_results p of [] \<Rightarrow> None | j # js \<Rightarrow> Some (p\<lparr>wp_results := js, wp_delivered := wp_delivered p @ [j]\<rparr>))"

definition close_claim :: "'j pool \<Rightarrow> 'j pool" where
  "close_claim p = p\<lparr>wp_closed := True\<rparr>"

definition close_done :: "'j pool \<Rightarrow> 'j pool option" where
  "close_done p = (if wp_closed p \<and> \<not> wp_done p then Some (p\<lparr>wp_done := True\<rparr>) else None)"

text \<open>After \<open>wg.Wait\<close> the results channel is closed.\<close>

definition close_end :: "'j pool \<Rightarrow> 'j pool option" where
  "close_end p = (if wp_done p \<and> (\<forall>w\<in>set (wp_workers p). w = WExit) then Some (p\<lparr>wp_finished := wp_collect p \<noteq> None\<rparr>) else None)"

datatype 'j pool_event = PSubmit bool 'j | PSelect nat choice | PWork nat wstep | PReceive | PClose | PCloseDone | PCloseEnd

definition pool_do :: "'j pool_event \<Rightarrow> 'j pool \<Rightarrow> 'j pool option" where
  "pool_do ev p =
    (case ev of PSubmit try j \<Rightarrow> Some (submit_check try j p) | PSelect k c \<Rightarrow> submit_select k c p | PWork i st \<Rightarrow> worker_step i st p
     | PReceive \<Rightarrow> results_receive p | PClose \<Rightarrow> Some (close_claim p) | PCloseDone \<Rightarrow> close_done p | PCloseEnd \<Rightarrow> close_end p)"

fun pool_run :: "'j pool_event list \<Rightarrow> 'j pool \<Rightarrow> 'j pool option" where
  "pool_run [] p = Some p"
| "pool_run (ev # evs) p = (case pool_do ev p of None \<Rightarrow> None | Some p' \<Rightarrow> pool_run evs p')"

fun submitted :: "'j pool_event list \<Rightarrow> 'j list" where
  "submitted [] = []"
| "submitted (PSubmit _ j # evs) = j # submitted evs"
| "submitted (_ # evs) = submitted evs"

subsection \<open>Where a job is\<close>

fun running :: "'j wstate \<Rightarrow> 'j list" where
  "running (WRun _ j) = [j]"
| "running _ = []"

fun sending :: "'j wstate \<Rightarrow> 'j list" where
  "sending (WSend _ j) = [j]"
| "sending _ = []"

definition pool_books :: "'j pool \<Rightarrow> bool" where
  "pool_books p \<longleftrightarrow> mset (wp_accepted p) = mset (wp_queue p) + mset (concat (map running (wp_workers p))) + mset (wp_ran p)
    \<and> (if wp_collect p = None then wp_delivered p = [] \<and> wp_lost p = [] \<and> wp_results p = [] \<and> concat (map sending (wp_workers p)) = []
       else mset (wp_ran p) = mset (concat (map sending (wp_workers p))) + mset (wp_results p) + mset (wp_delivered p) + mset (wp_lost p))
    \<and> length (wp_queue p) \<le> wp_cap p \<and> (\<forall>c. wp_collect p = Some c \<longrightarrow> length (wp_results p) \<le> c)
    \<and> (wp_lost p \<noteq> [] \<longrightarrow> wp_done p) \<and> (wp_finished p \<longrightarrow> set (wp_workers p) \<subseteq> {WExit})"

lemma mset_concat_set:
  assumes "i < length ws"
  shows "mset (concat (map f (ws[i := w]))) + mset (f (ws ! i)) = mset (concat (map f ws)) + mset (f w)"
  using assms
proof (induction ws arbitrary: i)
  case (Cons a ws)
  show ?case
  proof (cases i)
    case (Suc k)
    then show ?thesis using Cons.IH [of k] Cons.prems by (simp add: add.assoc)
  qed (simp add: ac_simps)
qed simp

lemma set_worker_books:
  assumes "i < length (wp_workers p)" "wp_workers p ! i = w0"
  shows "mset (concat (map running (wp_workers (set_worker i w p)))) + mset (running w0) = mset (concat (map running (wp_workers p))) + mset (running w)"
    "mset (concat (map sending (wp_workers (set_worker i w p)))) + mset (sending w0) = mset (concat (map sending (wp_workers p))) + mset (sending w)"
    "set (wp_workers p) \<subseteq> {WExit} \<Longrightarrow> w0 = WExit"
  using mset_concat_set [OF assms(1), of running w] mset_concat_set [OF assms(1), of sending w] assms set_update_subset_insert [of "wp_workers p" i w]
    nth_mem [OF assms(1)] by (auto simp: set_worker_def)

lemma books_cancel: "a + r = q + (x + r) + n \<Longrightarrow> a = q + x + (n :: 'a multiset)"
proof -
  assume "a + r = q + (x + r) + n"
  then have "a + r = (q + x + n) + r" by (simp add: ac_simps)
  then show ?thesis by (rule add_right_imp_eq)
qed

lemma worker_step_books:
  assumes "pool_books p" "worker_step i st p = Some p'"
  shows "pool_books p'"
proof -
  have i: "i < length (wp_workers p)" using assms(2) by (auto simp: worker_step_def split: if_splits)
  note b = assms(1) [unfolded pool_books_def]
  note sw = set_worker_books [OF i refl]
  have keep: "pool_books (set_worker i w p1)"
    if p1: "wp_workers p1 = wp_workers p" "wp_collect p1 = wp_collect p" "wp_cap p1 = wp_cap p" "wp_done p1 = wp_done p" "wp_finished p1 = wp_finished p"
      and acc: "mset (wp_accepted p1) + mset (running (wp_workers p ! i)) = mset (wp_queue p1) + mset (concat (map running (wp_workers p))) + mset (running w) + mset (wp_ran p1)"
      and res: "if wp_collect p = None then wp_delivered p1 = [] \<and> wp_lost p1 = [] \<and> wp_results p1 = [] \<and> sending w = []
        else mset (wp_ran p1) + mset (sending (wp_workers p ! i)) = mset (concat (map sending (wp_workers p))) + mset (sending w) + mset (wp_results p1) + mset (wp_delivered p1) + mset (wp_lost p1)"
      and lim: "length (wp_queue p1) \<le> wp_cap p" "\<forall>c. wp_collect p = Some c \<longrightarrow> length (wp_results p1) \<le> c"
      and dn: "wp_lost p1 \<noteq> [] \<longrightarrow> wp_done p" and ne: "wp_workers p ! i \<noteq> WExit" for w p1
  proof -
    have w: "wp_workers (set_worker i w p1) = wp_workers (set_worker i w p)" by (simp add: set_worker_def p1)
    have f: "wp_accepted (set_worker i w p1) = wp_accepted p1" "wp_queue (set_worker i w p1) = wp_queue p1" "wp_ran (set_worker i w p1) = wp_ran p1"
      "wp_collect (set_worker i w p1) = wp_collect p" "wp_delivered (set_worker i w p1) = wp_delivered p1" "wp_lost (set_worker i w p1) = wp_lost p1"
      "wp_results (set_worker i w p1) = wp_results p1" "wp_cap (set_worker i w p1) = wp_cap p" "wp_done (set_worker i w p1) = wp_done p"
      "wp_finished (set_worker i w p1) = wp_finished p"
      by (simp_all add: set_worker_def p1)
    have nf: "\<not> wp_finished p" using b sw(3) ne by blast
    have a: "mset (wp_accepted p1) = mset (wp_queue p1) + mset (concat (map running (wp_workers (set_worker i w p)))) + mset (wp_ran p1)"
    proof -
      have "mset (wp_accepted p1) + mset (running (wp_workers p ! i))
          = mset (wp_queue p1) + (mset (concat (map running (wp_workers (set_worker i w p)))) + mset (running (wp_workers p ! i))) + mset (wp_ran p1)"
        unfolding sw(1) using acc by (simp add: add.assoc)
      then show ?thesis by (rule books_cancel)
    qed
    have nc: "wp_collect p = None \<Longrightarrow> concat (map sending (wp_workers (set_worker i w p))) = []"
      using res b set_update_subset_insert [of "wp_workers p" i w] by (auto simp: set_worker_def)
    have rs: "mset (wp_ran p1) = mset (concat (map sending (wp_workers (set_worker i w p)))) + mset (wp_results p1) + mset (wp_delivered p1) + mset (wp_lost p1)"
      if "wp_collect p \<noteq> None"
    proof -
      have "mset (wp_ran p1) + mset (sending (wp_workers p ! i)) = (mset (concat (map sending (wp_workers (set_worker i w p)))) + mset (sending (wp_workers p ! i)))
          + mset (wp_results p1) + mset (wp_delivered p1) + mset (wp_lost p1)"
        using res that sw(2) [of w] by simp
      then show ?thesis using books_cancel [of "mset (wp_ran p1)" _ "{#}" _ "mset (wp_results p1) + mset (wp_delivered p1) + mset (wp_lost p1)"]
        by (simp add: add.assoc)
    qed
    show ?thesis unfolding pool_books_def w f
    proof (intro conjI)
      show "if wp_collect p = None then wp_delivered p1 = [] \<and> wp_lost p1 = [] \<and> wp_results p1 = [] \<and> concat (map sending (wp_workers (set_worker i w p))) = []
          else mset (wp_ran p1) = mset (concat (map sending (wp_workers (set_worker i w p)))) + mset (wp_results p1) + mset (wp_delivered p1) + mset (wp_lost p1)"
      proof (cases "wp_collect p = None")
        case True
        then show ?thesis using res nc [OF True] unfolding if_P [OF True] by blast
      next
        case False
        show ?thesis unfolding if_not_P [OF False] by (rule rs [OF False])
      qed
    qed (use a dn nf lim in blast)+
  qed
  show ?thesis
  proof (cases "wp_workers p ! i")
    case WIdle
    then show ?thesis using assms(2) i b
      by (auto simp: worker_step_def split: wstep.splits list.splits if_splits intro!: keep)
  next
    case WDrain
    then show ?thesis using assms(2) i b
      by (auto simp: worker_step_def split: wstep.splits list.splits if_splits intro!: keep)
  next
    case (WRun dr j)
    then show ?thesis using assms(2) i b
      by (auto simp: worker_step_def loop_again_def Let_def split: wstep.splits if_splits intro!: keep)
  next
    case (WSend dr j)
    have col: "wp_collect p \<noteq> None" using b i WSend nth_mem [OF i] by (cases "wp_collect p") force+
    have la: "running (loop_again dr) = []" "sending (loop_again dr) = []" by (simp_all add: loop_again_def)
    obtain p1 where p': "p' = set_worker i (loop_again dr) p1" and p1: "(p1 = p\<lparr>wp_results := wp_results p @ [j]\<rparr> \<and> (\<forall>c. wp_collect p = Some c \<longrightarrow> length (wp_results p) < c))
        \<or> p1 = p\<lparr>wp_delivered := wp_delivered p @ [j]\<rparr> \<or> (p1 = p\<lparr>wp_lost := wp_lost p @ [j]\<rparr> \<and> wp_done p)"
      using assms(2) i WSend by (auto simp: worker_step_def split: wstep.splits option.splits if_splits)
    have sub: "mset (wp_ran p) = mset (concat (map sending (wp_workers p))) + mset (wp_results p) + mset (wp_delivered p) + mset (wp_lost p)"
      "mset (wp_accepted p) = mset (wp_queue p) + mset (concat (map running (wp_workers p))) + mset (wp_ran p)"
      "length (wp_queue p) \<le> wp_cap p" "\<forall>c. wp_collect p = Some c \<longrightarrow> length (wp_results p) \<le> c" "wp_lost p \<noteq> [] \<longrightarrow> wp_done p"
      using b col by (simp_all split: if_splits)
    from p1 show ?thesis unfolding p'
      by (elim disjE conjE; intro keep) (use sub col WSend la in \<open>simp_all add: Suc_le_eq\<close>)
  next
    case WExit
    then show ?thesis using assms(2) i by (auto simp: worker_step_def split: wstep.splits)
  qed
qed

lemma select_books:
  assumes "pool_books p" "submit_select k c p = Some p'"
  shows "pool_books p'"
proof -
  obtain sub j where "p' = p\<lparr>wp_submitting := sub, wp_queue := wp_queue p @ [j], wp_accepted := wp_accepted p @ [j]\<rparr> \<and> length (wp_queue p) < wp_cap p
      \<or> p' = p\<lparr>wp_submitting := sub, wp_refused := wp_refused p @ [j]\<rparr>"
    using assms(2) by (auto simp: submit_select_def choice_ready_def Let_def split: if_splits prod.splits)
  then show ?thesis using assms(1) by (auto simp: pool_books_def)
qed

lemma books_frame:
  assumes "pool_books p" "wp_accepted p' = wp_accepted p" "wp_queue p' = wp_queue p" "wp_workers p' = wp_workers p" "wp_ran p' = wp_ran p" "wp_collect p' = wp_collect p"
    "wp_delivered p' = wp_delivered p" "wp_lost p' = wp_lost p" "wp_results p' = wp_results p" "wp_cap p' = wp_cap p"
    and "wp_done p \<Longrightarrow> wp_done p'" "wp_finished p' \<Longrightarrow> wp_finished p \<or> set (wp_workers p) \<subseteq> {WExit}"
  shows "pool_books p'"
  using assms(1,11,12) unfolding pool_books_def assms(2-10) by blast

lemma receive_books:
  assumes "pool_books p" "wp_results p = j # js"
  shows "pool_books (p\<lparr>wp_results := js, wp_delivered := wp_delivered p @ [j]\<rparr>)"
proof -
  have c: "wp_collect p \<noteq> None" using assms by (cases "wp_collect p") (auto simp: pool_books_def)
  then show ?thesis using assms by (auto simp: pool_books_def Suc_le_eq less_imp_le)
qed

lemma pool_do_books:
  assumes "pool_books p" "pool_do ev p = Some p'"
  shows "pool_books p'"
proof (cases ev)
  case (PReceive)
  then show ?thesis using assms receive_books by (auto simp: pool_do_def results_receive_def split: list.splits)
next
  case (PWork i st)
  then show ?thesis using assms worker_step_books by (simp add: pool_do_def)
next
  case (PSelect k c)
  then show ?thesis using assms select_books by (simp add: pool_do_def)
next
  case (PSubmit tr j)
  then have "p' = submit_check tr j p" using assms(2) by (simp add: pool_do_def)
  then show ?thesis by (intro books_frame [OF assms(1)]) (auto simp: submit_check_def split: if_splits)
next
  case PClose
  then have "p' = close_claim p" using assms(2) by (simp add: pool_do_def)
  then show ?thesis by (intro books_frame [OF assms(1)]) (auto simp: close_claim_def)
next
  case PCloseDone
  then have "p' = p\<lparr>wp_done := True\<rparr>" using assms(2) by (auto simp: pool_do_def close_done_def split: if_splits)
  then show ?thesis by (intro books_frame [OF assms(1)]) auto
next
  case PCloseEnd
  then have "p' = p\<lparr>wp_finished := wp_collect p \<noteq> None\<rparr>" "set (wp_workers p) \<subseteq> {WExit}"
    using assms(2) by (auto simp: pool_do_def close_end_def split: if_splits)
  then show ?thesis by (intro books_frame [OF assms(1)]) auto
qed

text \<open>Callers: a job handed to \<open>Submit\<close> or \<open>TrySubmit\<close> is undecided, accepted or refused.\<close>

definition handed_over :: "'j pool \<Rightarrow> 'j multiset" where
  "handed_over p = mset (map snd (wp_submitting p)) + mset (wp_accepted p) + mset (wp_refused p)"

lemma pool_do_handed:
  assumes "pool_do ev p = Some p'"
  shows "handed_over p' = handed_over p + mset (submitted [ev])"
proof (cases ev)
  case (PSelect k c)
  obtain tr j where k: "k < length (wp_submitting p)" "wp_submitting p ! k = (tr, j)"
    using assms PSelect by (auto simp: pool_do_def submit_select_def split: if_splits prod.splits)
  have "mset (wp_submitting p) = mset (take k (wp_submitting p) @ (tr, j) # drop (Suc k) (wp_submitting p))"
    by (simp only: id_take_nth_drop [OF k(1), symmetric] k(2) [symmetric])
  then have "mset (map snd (wp_submitting p)) = add_mset j (mset (map snd (take k (wp_submitting p) @ drop (Suc k) (wp_submitting p))))"
    unfolding mset_map by simp
  then show ?thesis using assms PSelect k by (auto simp: pool_do_def submit_select_def handed_over_def Let_def split: if_splits)
next
  case (PWork i st)
  then have "wp_submitting p' = wp_submitting p \<and> wp_accepted p' = wp_accepted p \<and> wp_refused p' = wp_refused p"
    using assms by (auto simp: pool_do_def worker_step_def set_worker_def Let_def split: if_splits wstep.splits wstate.splits list.splits option.splits)
  then show ?thesis using PWork by (simp add: handed_over_def)
qed (use assms in \<open>auto simp: pool_do_def submit_check_def results_receive_def close_claim_def close_done_def close_end_def handed_over_def split: if_splits list.splits\<close>)

lemma submitted_Cons: "submitted (ev # evs) = submitted [ev] @ submitted evs"
  by (cases ev) simp_all

lemma pool_run_books:
  "pool_run evs p = Some p' \<Longrightarrow> pool_books p \<Longrightarrow> pool_books p' \<and> handed_over p' = handed_over p + mset (submitted evs)"
proof (induction evs arbitrary: p)
  case (Cons ev evs)
  then obtain p1 where d: "pool_do ev p = Some p1" "pool_run evs p1 = Some p'" by (auto split: option.splits)
  show ?case using Cons.IH [OF d(2) pool_do_books [OF Cons.prems(2) d(1)]] pool_do_handed [OF d(1)] by (subst submitted_Cons) (simp add: add.assoc)
qed simp

lemma pool_New_books:
  assumes "pool_New workers opts = Some p"
  shows "pool_books p" "handed_over p = {#}"
  using assms by (auto simp: pool_New_def pool_books_def handed_over_def concat_eq_Nil_conv case_prod_beta split: if_splits)

text \<open>
  C37. Under every interleaving of callers, workers, receiver and \<open>Close\<close>, each job submitted is undecided, refused
  or accepted, and each accepted job is queued, running or has run exactly once, panicking or not; queue and
  results stay within their capacities.  With result collection each job that ran has its result with a worker,
  in the channel, received or dropped, results are dropped only once \<open>Close\<close> has begun, and the results channel is
  closed only when every worker has left, so that nothing is sent on a closed channel.
\<close>

theorem pool_accounts:
  assumes "pool_New workers opts = Some p0" "pool_run evs p0 = Some p"
  shows "mset (submitted evs) = mset (map snd (wp_submitting p)) + mset (wp_accepted p) + mset (wp_refused p)
    \<and> mset (wp_accepted p) = mset (wp_queue p) + mset (concat (map running (wp_workers p))) + mset (wp_ran p)
    \<and> length (wp_queue p) \<le> wp_cap p
    \<and> (wp_collect p \<noteq> None \<longrightarrow> mset (wp_ran p) = mset (concat (map sending (wp_workers p))) + mset (wp_results p) + mset (wp_delivered p) + mset (wp_lost p))
    \<and> (wp_lost p \<noteq> [] \<longrightarrow> wp_done p) \<and> (wp_finished p \<longrightarrow> set (wp_workers p) \<subseteq> {WExit})"
proof -
  from pool_run_books [OF assms(2) pool_New_books(1) [OF assms(1)]] pool_New_books(2) [OF assms(1)]
  have "pool_books p" "handed_over p = mset (submitted evs)" by simp_all
  then show ?thesis by (simp add: pool_books_def handed_over_def split: if_splits)
qed

theorem pool_accounts_witness:
  "\<exists>p0 p. pool_New 2 [WithResults 0] = Some p0
    \<and> pool_run [PSubmit False ''a'', PSelect 0 ChQueue, PWork 1 StTake, PClose, PCloseDone, PWork 1 (StFinish True), PWork 1 StDrop] p0 = Some p
    \<and> mset (wp_accepted p) = mset (wp_queue p) + mset (concat (map running (wp_workers p))) + mset (wp_ran p) \<and> wp_lost p = [''a'']"
proof -
  let ?evs = "[PSubmit False ''a'', PSelect 0 ChQueue, PWork 1 StTake, PClose, PCloseDone, PWork 1 (StFinish True), PWork 1 StDrop]"
  obtain p0 :: "string pool" where p0: "pool_New 2 [WithResults 0] = Some p0" by (simp add: pool_New_def)
  have "map_option wp_lost (pool_run ?evs (the (pool_New 2 [WithResults 0]))) = Some [''a'']" by code_simp
  then obtain p where p: "pool_run ?evs p0 = Some p" "wp_lost p = [''a'']" using p0 by auto
  from pool_accounts [OF p0 p(1)] p0 p show ?thesis by simp
qed

subsection \<open>Close ends\<close>

fun weight :: "'j wstate \<Rightarrow> nat" where
  "weight WIdle = 2"
| "weight WDrain = 1"
| "weight (WRun _ _) = 4"
| "weight (WSend _ _) = 3"
| "weight WExit = 0"

text \<open>The work left: every step of a worker lowers it.\<close>

definition work_left :: "'j pool \<Rightarrow> nat" where
  "work_left p = 4 * length (wp_queue p) + sum_list (map weight (wp_workers p))"

lemma sum_weight:
  "i < length ws \<Longrightarrow> sum_list (map weight (ws[i := w])) + weight (ws ! i) = sum_list (map weight ws) + weight w"
proof (induction ws arbitrary: i)
  case (Cons a ws)
  then show ?case by (cases i) auto
qed simp

lemma worker_step_left:
  assumes "worker_step i st p = Some p'"
  shows "work_left p' < work_left p"
proof -
  have i: "i < length (wp_workers p)" using assms by (auto simp: worker_step_def split: if_splits)
  have w: "sum_list (map weight ((wp_workers p)[i := w])) + weight (wp_workers p ! i) = sum_list (map weight (wp_workers p)) + weight w" for w
    by (rule sum_weight [OF i])
  have step: "work_left (set_worker i w p1) < work_left p"
    if "wp_workers p1 = wp_workers p" "4 * length (wp_queue p1) + weight w < 4 * length (wp_queue p) + weight (wp_workers p ! i)" for w p1
    using w [of w] that by (simp add: work_left_def set_worker_def)
  show ?thesis
    using assms i by (cases "wp_workers p ! i")
      (auto simp: worker_step_def loop_again_def Let_def intro!: step split: wstep.splits list.splits option.splits if_splits)
qed

lemma worker_can_step:
  assumes "wp_done p" "w \<in> set (wp_workers p)" "w \<noteq> WExit"
  shows "\<exists>i st p'. worker_step i st p = Some p'"
proof -
  obtain i where i: "i < length (wp_workers p)" "wp_workers p ! i = w" using assms(2) by (auto simp: in_set_conv_nth)
  show ?thesis
  proof (cases w)
    case WIdle
    then have "worker_step i StSeeDone p \<noteq> None" using i assms(1) by (simp add: worker_step_def)
    then show ?thesis by blast
  next
    case WDrain
    then have "worker_step i StDrained p \<noteq> None \<or> worker_step i StTake p \<noteq> None" using i by (cases "wp_queue p") (simp_all add: worker_step_def)
    then show ?thesis by blast
  next
    case (WRun dr j)
    then have "worker_step i (StFinish False) p \<noteq> None" using i by (simp add: worker_step_def Let_def)
    then show ?thesis by blast
  next
    case (WSend dr j)
    then have "worker_step i StDrop p \<noteq> None" using i assms(1) by (simp add: worker_step_def)
    then show ?thesis by blast
  qed (use assms(3) in simp)
qed

lemma worker_step_keeps: "worker_step i st p = Some p' \<Longrightarrow> wp_done p' = wp_done p \<and> length (wp_workers p') = length (wp_workers p) \<and> wp_accepted p' = wp_accepted p"
  by (auto simp: worker_step_def set_worker_def Let_def split: if_splits wstep.splits wstate.splits list.splits option.splits)

lemma work_bound: "pool_run (map (\<lambda>(i, st). PWork i st) steps) p = Some p' \<Longrightarrow> length steps + work_left p' \<le> work_left p"
proof (induction steps arbitrary: p)
  case (Cons s steps)
  obtain i st where s: "s = (i, st)" by (cases s)
  then obtain p1 where d: "worker_step i st p = Some p1" "pool_run (map (\<lambda>(i, st). PWork i st) steps) p1 = Some p'"
    using Cons.prems by (auto simp: pool_do_def split: option.splits)
  show ?case using Cons.IH [OF d(2)] worker_step_left [OF d(1)] by simp
qed simp

lemma all_exit_done:
  assumes "pool_books p" "set (wp_workers p) \<subseteq> {WExit}" "wp_queue p = []"
  shows "mset (wp_ran p) = mset (wp_accepted p)"
proof -
  have "concat (map running (wp_workers p)) = []" using assms(2) by auto
  then show ?thesis using assms unfolding pool_books_def by (metis add.left_neutral add.right_neutral mset.simps(1))
qed

text \<open>
  C38. \<open>Close\<close> cannot hang on its workers: once it has closed \<open>done\<close>, a worker that has not left always has a step
  to take, even when nobody receives results, provided the jobs themselves end; and every sequence of worker
  steps is bounded by the work left, so that all workers leave and the wait of \<open>Close\<close> ends.
\<close>

theorem pool_close_ends:
  assumes "wp_done p"
  shows "(\<exists>steps p'. pool_run (map (\<lambda>(i, st). PWork i st) steps) p = Some p' \<and> set (wp_workers p') \<subseteq> {WExit} \<and> pool_do PCloseEnd p' \<noteq> None)
    \<and> (\<forall>steps p'. pool_run (map (\<lambda>(i, st). PWork i st) steps) p = Some p' \<longrightarrow> length steps \<le> work_left p
        \<and> (set (wp_workers p') \<subseteq> {WExit} \<or> (\<exists>i st. worker_step i st p' \<noteq> None)))"
proof
  show "\<exists>steps p'. pool_run (map (\<lambda>(i, st). PWork i st) steps) p = Some p' \<and> set (wp_workers p') \<subseteq> {WExit} \<and> pool_do PCloseEnd p' \<noteq> None"
    using assms
  proof (induction "work_left p" arbitrary: p rule: less_induct)
    case less
    show ?case
    proof (cases "set (wp_workers p) \<subseteq> {WExit}")
      case True
      then have "pool_do PCloseEnd p \<noteq> None" using less.prems by (auto simp: pool_do_def close_end_def)
      then show ?thesis using True by (intro exI [of _ "[]"]) simp
    next
      case False
      then obtain i st p1 where s: "worker_step i st p = Some p1" using worker_can_step [OF less.prems] by blast
      obtain steps p' where "pool_run (map (\<lambda>(i, st). PWork i st) steps) p1 = Some p'" "set (wp_workers p') \<subseteq> {WExit}" "pool_do PCloseEnd p' \<noteq> None"
        using less.hyps [OF worker_step_left [OF s]] worker_step_keeps [OF s] less.prems by auto
      then show ?thesis using s by (intro exI [of _ "(i, st) # steps"]) (simp add: pool_do_def)
    qed
  qed
next
  have stays: "pool_run (map (\<lambda>(i, st). PWork i st) steps) p = Some p' \<Longrightarrow> wp_done p \<Longrightarrow> wp_done p'" for steps p and p' :: "'a pool"
    by (induction steps arbitrary: p) (auto simp: pool_do_def worker_step_keeps split: option.splits)
  show "\<forall>steps p'. pool_run (map (\<lambda>(i, st). PWork i st) steps) p = Some p' \<longrightarrow> length steps \<le> work_left p
      \<and> (set (wp_workers p') \<subseteq> {WExit} \<or> (\<exists>i st. worker_step i st p' \<noteq> None))"
  proof (intro allI impI)
    fix steps and p' :: "'a pool"
    assume r: "pool_run (map (\<lambda>(i, st). PWork i st) steps) p = Some p'"
    have "set (wp_workers p') \<subseteq> {WExit} \<or> (\<exists>i st. worker_step i st p' \<noteq> None)"
      using worker_can_step [OF stays [OF r assms]] by blast
    then show "length steps \<le> work_left p \<and> (set (wp_workers p') \<subseteq> {WExit} \<or> (\<exists>i st. worker_step i st p' \<noteq> None))"
      using work_bound [OF r] by simp
  qed
qed

theorem pool_close_ends_witness:
  "\<exists>p. pool_run [PSubmit False ''a'', PSelect 0 ChQueue, PClose, PCloseDone] (the (pool_New 2 [WithResults 0])) = Some p
    \<and> (\<exists>steps p'. pool_run (map (\<lambda>(i, st). PWork i st) steps) p = Some p' \<and> set (wp_workers p') \<subseteq> {WExit})"
proof -
  let ?evs = "[PSubmit False ''a'', PSelect 0 ChQueue, PClose, PCloseDone]"
  have "map_option wp_done (pool_run ?evs (the (pool_New 2 [WithResults 0]))) = Some True" by code_simp
  then obtain p where p: "pool_run ?evs (the (pool_New 2 [WithResults 0])) = Some p" "wp_done p" by auto
  from pool_close_ends [OF p(2)] p(1) show ?thesis by blast
qed

text \<open>
  A job that a caller past the check of \<open>closed\<close> hands over after the workers have left is accepted and never
  runs.
\<close>

lemma late_submit_never_runs:
  "map_option (\<lambda>p. (wp_accepted p, wp_ran p, wp_workers p)) (pool_run [PSubmit False ''a'', PClose, PCloseDone, PWork 0 StSeeDone, PWork 0 StDrained, PSelect 0 ChQueue]
      (the (pool_New 1 []))) = Some ([''a''], [], [WExit])"
  by code_simp

text \<open>With room in the results channel a result may still be dropped once \<open>Close\<close> has begun.\<close>

lemma result_dropped_with_room:
  "map_option (\<lambda>p. (wp_ran p, wp_results p, wp_lost p)) (pool_run [PSubmit False ''a'', PSelect 0 ChQueue, PClose, PCloseDone, PWork 0 StTake, PWork 0 (StFinish False), PWork 0 StDrop]
      (the (pool_New 1 [WithResults 8]))) = Some ([''a''], [], [''a''])"
  by code_simp

end
