(* ===== verification/Shutdown.thy ===== *)
theory Shutdown
  imports Prelude
begin

section \<open>Package shutdown\<close>

text \<open>
  Models \<open>src/shutdown/shutdown.go\<close>: the depth-first resolution of the start order, start with rollback and stop.
  A hook is present or nil; whether a call of it fails, by an error, a timeout or a panic, is an argument, and the
  calls made are recorded as a trace.  The closure \<open>visit\<close> recurses through the graph; it is given fuel, and the
  number of components is enough (lemma \<open>resolve_fuel\<close>).
\<close>

record component =
  cm_name :: string
  cm_start :: bool
  cm_stop :: bool
  cm_deps :: "string list"

record manager =
  mg_components :: "component list"
  mg_order :: "string list option"

datatype sd_error = ErrCycle string | ErrMissingDep string string | ErrDuplicate string | StartFailed string | CtxDone
  | ErrShutdown "string list" | OutOfFuel

definition sd_New :: manager where
  "sd_New = \<lparr>mg_components = [], mg_order = None\<rparr>"

text \<open>\<open>byName\<close> is the components under their names.\<close>

definition byName :: "manager \<Rightarrow> string \<Rightarrow> component option" where
  "byName m name = map_of (map (\<lambda>c. (cm_name c, c)) (mg_components m)) name"

definition sd_Add :: "component \<Rightarrow> manager \<Rightarrow> sd_error option \<times> manager" where
  "sd_Add c m =
    (if byName m (cm_name c) \<noteq> None then (Some (ErrDuplicate (cm_name c)), m)
     else (None, m\<lparr>mg_components := mg_components m @ [c], mg_order := None\<rparr>))"

subsection \<open>Resolution\<close>

fun missing_dep :: "manager \<Rightarrow> component list \<Rightarrow> (string \<times> string) option" where
  "missing_dep m [] = None"
| "missing_dep m (c # cs) =
    (case find (\<lambda>d. byName m d = None) (cm_deps c) of Some d \<Rightarrow> Some (cm_name c, d) | None \<Rightarrow> missing_dep m cs)"

datatype colour = Unvisited | OnStack | Done

type_synonym dfs = "(string \<Rightarrow> colour) \<times> string list"

fun visit :: "nat \<Rightarrow> manager \<Rightarrow> component \<Rightarrow> dfs \<Rightarrow> sd_error + dfs"
  and visit_deps :: "nat \<Rightarrow> manager \<Rightarrow> string list \<Rightarrow> dfs \<Rightarrow> sd_error + dfs" where
  "visit 0 m c s = Inl OutOfFuel"
| "visit (Suc n) m c s =
    (case fst s (cm_name c) of
       OnStack \<Rightarrow> Inl (ErrCycle (cm_name c))
     | Done \<Rightarrow> Inr s
     | Unvisited \<Rightarrow>
         (case visit_deps n m (cm_deps c) ((fst s)(cm_name c := OnStack), snd s) of
            Inl e \<Rightarrow> Inl e
          | Inr s' \<Rightarrow> Inr ((fst s')(cm_name c := Done), snd s' @ [cm_name c])))"
| "visit_deps n m [] s = Inr s"
| "visit_deps n m (d # ds) s =
    (case visit n m (the (byName m d)) s of Inl e \<Rightarrow> Inl e | Inr s' \<Rightarrow> visit_deps n m ds s')"

fun visit_all :: "nat \<Rightarrow> manager \<Rightarrow> component list \<Rightarrow> dfs \<Rightarrow> sd_error + dfs" where
  "visit_all n m [] s = Inr s"
| "visit_all n m (c # cs) s = (case visit n m c s of Inl e \<Rightarrow> Inl e | Inr s' \<Rightarrow> visit_all n m cs s')"

definition resolve :: "manager \<Rightarrow> sd_error + string list" where
  "resolve m =
    (case missing_dep m (mg_components m) of Some (c, d) \<Rightarrow> Inl (ErrMissingDep c d)
     | None \<Rightarrow> (case visit_all (Suc (length (mg_components m))) m (mg_components m) (\<lambda>_. Unvisited, []) of
         Inl e \<Rightarrow> Inl e | Inr s \<Rightarrow> Inr (snd s)))"

definition resolveLocked :: "manager \<Rightarrow> sd_error option \<times> manager" where
  "resolveLocked m = (case resolve m of Inl e \<Rightarrow> (Some e, m) | Inr order \<Rightarrow> (None, m\<lparr>mg_order := Some order\<rparr>))"

subsection \<open>Start and stop\<close>

datatype hook_call = CallStart string | CallStop string

text \<open>
  \<open>stopReverse\<close> on names that are already reversed: the calls it makes and the components whose stop failed.
\<close>

definition stop_calls :: "manager \<Rightarrow> string list \<Rightarrow> string list" where
  "stop_calls m names = filter (\<lambda>n. case byName m n of None \<Rightarrow> False | Some c \<Rightarrow> cm_stop c) names"

definition stopReverse :: "manager \<Rightarrow> (string \<Rightarrow> bool) \<Rightarrow> string list \<Rightarrow> sd_error option \<times> hook_call list" where
  "stopReverse m fails names =
    (let errs = filter fails (stop_calls m names)
     in (if errs = [] then None else Some (ErrShutdown errs), map CallStop (stop_calls m names)))"

text \<open>
  The loop of \<open>Start\<close>: \<open>fails\<close> says whose start fails and \<open>ctx_done\<close> after whose start the context is done.
\<close>

fun start_loop :: "manager \<Rightarrow> (string \<Rightarrow> bool) \<Rightarrow> (string \<Rightarrow> bool) \<Rightarrow> string list \<Rightarrow> string list \<Rightarrow> sd_error option \<times> hook_call list" where
  "start_loop m fails ctx_done started [] = (None, [])"
| "start_loop m fails ctx_done started (n # ns) =
    (if (case byName m n of None \<Rightarrow> True | Some c \<Rightarrow> \<not> cm_start c) then start_loop m fails ctx_done (started @ [n]) ns
     else if fails n then (Some (StartFailed n), CallStart n # snd (stopReverse m (\<lambda>_. False) (rev started)))
     else if ctx_done n then (Some CtxDone, CallStart n # snd (stopReverse m (\<lambda>_. False) (rev (started @ [n]))))
     else let (e, tr) = start_loop m fails ctx_done (started @ [n]) ns in (e, CallStart n # tr))"

definition sd_Start :: "(string \<Rightarrow> bool) \<Rightarrow> (string \<Rightarrow> bool) \<Rightarrow> manager \<Rightarrow> sd_error option \<times> hook_call list \<times> manager" where
  "sd_Start fails ctx_done m =
    (let (e, m1) = resolveLocked m
     in case e of Some e' \<Rightarrow> (Some e', [], m1)
        | None \<Rightarrow> let (e2, tr) = start_loop m1 fails ctx_done [] (the (mg_order m1)) in (e2, tr, m1))"

definition sd_Stop :: "(string \<Rightarrow> bool) \<Rightarrow> manager \<Rightarrow> sd_error option \<times> hook_call list \<times> manager" where
  "sd_Stop fails m =
    (let (e, m1) = (if mg_order m = None then resolveLocked m else (None, m))
     in case e of Some e' \<Rightarrow> (Some e', [], m1)
        | None \<Rightarrow> let (e2, tr) = stopReverse m1 fails (rev (the (mg_order m1))) in (e2, tr, m1))"

definition sd_Components :: "manager \<Rightarrow> (sd_error + string list) \<times> manager" where
  "sd_Components m =
    (let (e, m1) = (if mg_order m = None then resolveLocked m else (None, m))
     in (case e of Some e' \<Rightarrow> Inl e' | None \<Rightarrow> Inr (the (mg_order m1)), m1))"

subsection \<open>The graph\<close>

definition sd_wf :: "manager \<Rightarrow> bool" where
  "sd_wf m \<longleftrightarrow> distinct (map cm_name (mg_components m)) \<and> (\<forall>order. mg_order m = Some order \<longrightarrow> resolve m = Inr order)"

definition depends :: "manager \<Rightarrow> (string \<times> string) set" where
  "depends m = {(cm_name c, d) | c d. c \<in> set (mg_components m) \<and> d \<in> set (cm_deps c)}"

definition names :: "manager \<Rightarrow> string set" where
  "names m = cm_name ` set (mg_components m)"

definition topological :: "manager \<Rightarrow> string list \<Rightarrow> bool" where
  "topological m order \<longleftrightarrow> distinct order \<and> (\<forall>i<length order. \<forall>d. (order ! i, d) \<in> depends m \<longrightarrow> d \<in> set (take i order))"

lemma byName_None: "byName m d = None \<longleftrightarrow> d \<notin> names m"
  by (auto simp: byName_def names_def map_of_eq_None_iff image_image)

lemma byName_Some: "distinct (map cm_name (mg_components m)) \<Longrightarrow> byName m d = Some c \<longleftrightarrow> c \<in> set (mg_components m) \<and> cm_name c = d"
proof -
  assume d: "distinct (map cm_name (mg_components m))"
  have "map fst (map (\<lambda>c. (cm_name c, c)) (mg_components m)) = map cm_name (mg_components m)" by simp
  then have "map_of (map (\<lambda>c. (cm_name c, c)) (mg_components m)) d = Some c \<longleftrightarrow> (d, c) \<in> set (map (\<lambda>c. (cm_name c, c)) (mg_components m))"
    using d by (intro map_of_eq_Some_iff) metis
  then show ?thesis by (auto simp: byName_def)
qed

lemma missing_dep_None: "missing_dep m cs = None \<longleftrightarrow> (\<forall>c\<in>set cs. set (cm_deps c) \<subseteq> names m)"
proof (induction cs)
  case (Cons c cs)
  have "find (\<lambda>d. byName m d = None) (cm_deps c) = None \<longleftrightarrow> set (cm_deps c) \<subseteq> names m"
    by (auto simp: find_None_iff byName_None)
  then show ?case using Cons.IH by (auto split: option.splits)
qed simp

lemma topological_snoc:
  assumes "topological m order" "n \<notin> set order" "\<And>d. (n, d) \<in> depends m \<Longrightarrow> d \<in> set order"
  shows "topological m (order @ [n])"
  using assms by (auto simp: topological_def nth_append less_Suc_eq)

lemma topological_acyclic:
  assumes "topological m order" "names m \<subseteq> set order" "Range (depends m) \<subseteq> names m"
  shows "acyclic (depends m)"
proof -
  define pos where "pos x = (LEAST i. i < length order \<and> order ! i = x)" for x
  have pos: "i < length order \<Longrightarrow> pos (order ! i) = i" for i
    using assms(1) unfolding pos_def topological_def by (intro Least_equality) (auto simp: nth_eq_iff_index_eq)
  have step: "pos d < pos c" if "(c, d) \<in> depends m" for c d
  proof -
    have "c \<in> names m" using that by (auto simp: depends_def names_def)
    then obtain i where i: "i < length order" "order ! i = c" using assms(2) by (metis in_set_conv_nth subsetD)
    then have "d \<in> set (take i order)" using assms(1) that by (auto simp: topological_def)
    then obtain j where "j < i" "order ! j = d" using i by (auto simp: in_set_conv_nth)
    then show ?thesis using i pos [of i] pos [of j] by auto
  qed
  have "(c, d) \<in> (depends m)\<^sup>+ \<Longrightarrow> pos d < pos c" for c d by (induction rule: trancl_induct) (auto dest: step)
  then show ?thesis by (auto simp: acyclic_def)
qed

subsection \<open>The search is right\<close>

definition dfs_ok :: "manager \<Rightarrow> dfs \<Rightarrow> bool" where
  "dfs_ok m s \<longleftrightarrow> topological m (snd s) \<and> set (snd s) = {n. fst s n = Done} \<and> set (snd s) \<subseteq> names m"

text \<open>What a successful visit keeps: the stack, what is done, and unvisited names only become fewer.\<close>

definition dfs_grows :: "dfs \<Rightarrow> dfs \<Rightarrow> bool" where
  "dfs_grows s s' \<longleftrightarrow> (\<forall>n. (fst s' n = OnStack) = (fst s n = OnStack) \<and> (fst s n = Done \<longrightarrow> fst s' n = Done))"

lemma dfs_grows_refl [simp]: "dfs_grows s s"
  by (simp add: dfs_grows_def)

lemma dfs_grows_trans: "dfs_grows s s' \<Longrightarrow> dfs_grows s' s'' \<Longrightarrow> dfs_grows s s''"
  by (simp add: dfs_grows_def)

definition unvisited :: "manager \<Rightarrow> dfs \<Rightarrow> nat" where
  "unvisited m s = card {n \<in> names m. fst s n = Unvisited}"

lemma finite_names: "finite (names m)"
  by (simp add: names_def)

lemma unvisited_grows: "dfs_grows s s' \<Longrightarrow> unvisited m s' \<le> unvisited m s"
proof -
  assume g: "dfs_grows s s'"
  have "{n \<in> names m. fst s' n = Unvisited} \<subseteq> {n \<in> names m. fst s n = Unvisited}"
  proof
    fix n assume "n \<in> {n \<in> names m. fst s' n = Unvisited}"
    then show "n \<in> {n \<in> names m. fst s n = Unvisited}" using g by (cases "fst s n") (simp_all add: dfs_grows_def, metis colour.distinct(1))
  qed
  then show ?thesis unfolding unvisited_def by (intro card_mono) (simp_all add: finite_names)
qed

lemma unvisited_push: "fst s n = Unvisited \<Longrightarrow> n \<in> names m \<Longrightarrow> Suc (unvisited m ((fst s)(n := OnStack), o')) = unvisited m s"
proof -
  assume n: "fst s n = Unvisited" "n \<in> names m"
  then have "{x \<in> names m. ((fst s)(n := OnStack)) x = Unvisited} = {x \<in> names m. fst s x = Unvisited} - {n}" by auto
  moreover have "card {x \<in> names m. fst s x = Unvisited} > 0" using n finite_names [of m] by (auto simp: card_gt_0_iff)
  ultimately show ?thesis using n finite_names [of m] by (simp add: unvisited_def)
qed

definition graph_ok :: "manager \<Rightarrow> bool" where
  "graph_ok m \<longleftrightarrow> distinct (map cm_name (mg_components m)) \<and> (\<forall>c\<in>set (mg_components m). set (cm_deps c) \<subseteq> names m)"

lemma component_edges:
  assumes "graph_ok m" "c \<in> set (mg_components m)"
  shows "(cm_name c, d) \<in> depends m \<longleftrightarrow> d \<in> set (cm_deps c)"
proof -
  have "c' = c" if "c' \<in> set (mg_components m)" "cm_name c' = cm_name c" for c'
    using that assms unfolding graph_ok_def by (meson distinct_map inj_onD)
  then show ?thesis using assms(2) by (auto simp: depends_def)
qed

lemma byName_the:
  assumes "graph_ok m" "d \<in> names m"
  shows "the (byName m d) \<in> set (mg_components m)" "cm_name (the (byName m d)) = d"
proof -
  obtain c where "byName m d = Some c" using assms(2) byName_None [of m d] by (cases "byName m d") auto
  then show "the (byName m d) \<in> set (mg_components m)" "cm_name (the (byName m d)) = d"
    using byName_Some [of m d c] assms(1) by (auto simp: graph_ok_def)
qed

lemma push_done:
  assumes "graph_ok m" "c \<in> set (mg_components m)" "fst s (cm_name c) = Unvisited" "dfs_ok m s1"
    and "dfs_grows ((fst s)(cm_name c := OnStack), snd s) s1" "\<forall>d\<in>set (cm_deps c). fst s1 d = Done"
  shows "dfs_ok m ((fst s1)(cm_name c := Done), snd s1 @ [cm_name c])" "dfs_grows s ((fst s1)(cm_name c := Done), snd s1 @ [cm_name c])"
proof -
  have stack: "fst s1 (cm_name c) = OnStack" using assms(5) by (simp add: dfs_grows_def)
  then have "cm_name c \<notin> set (snd s1)" using assms(4) by (simp add: dfs_ok_def)
  then have "topological m (snd s1 @ [cm_name c])"
    using assms(4,6) component_edges [OF assms(1,2)] by (intro topological_snoc) (auto simp: dfs_ok_def)
  then show "dfs_ok m ((fst s1)(cm_name c := Done), snd s1 @ [cm_name c])"
    using assms(2,4) stack by (auto simp: dfs_ok_def names_def)
  show "dfs_grows s ((fst s1)(cm_name c := Done), snd s1 @ [cm_name c])"
    unfolding dfs_grows_def
  proof
    fix x
    have "(fst s1 x = OnStack) = (((fst s)(cm_name c := OnStack)) x = OnStack) \<and> (((fst s)(cm_name c := OnStack)) x = Done \<longrightarrow> fst s1 x = Done)"
      using assms(5) by (simp add: dfs_grows_def)
    then show "(fst ((fst s1)(cm_name c := Done), snd s1 @ [cm_name c]) x = OnStack) = (fst s x = OnStack)
        \<and> (fst s x = Done \<longrightarrow> fst ((fst s1)(cm_name c := Done), snd s1 @ [cm_name c]) x = Done)"
      using assms(3) by (cases "x = cm_name c") simp_all
  qed
qed

lemma visit_sound:
  "graph_ok m \<Longrightarrow> c \<in> set (mg_components m) \<Longrightarrow> dfs_ok m s \<Longrightarrow> visit n m c s = Inr s' \<Longrightarrow> dfs_ok m s' \<and> dfs_grows s s' \<and> fst s' (cm_name c) = Done"
  "graph_ok m \<Longrightarrow> set ds \<subseteq> names m \<Longrightarrow> dfs_ok m s \<Longrightarrow> visit_deps n m ds s = Inr s' \<Longrightarrow> dfs_ok m s' \<and> dfs_grows s s' \<and> (\<forall>d\<in>set ds. fst s' d = Done)"
proof (induction n m c s and n m ds s arbitrary: s' and s' rule: visit_visit_deps.induct)
  case (2 n m c s)
  show ?case
  proof (cases "fst s (cm_name c)")
    case Unvisited
    let ?s = "((fst s)(cm_name c := OnStack), snd s)"
    obtain s1 where v: "visit_deps n m (cm_deps c) ?s = Inr s1" and s': "s' = ((fst s1)(cm_name c := Done), snd s1 @ [cm_name c])"
      using "2.prems"(4) Unvisited by (auto split: sum.splits)
    have ok: "dfs_ok m ?s" using "2.prems"(3) Unvisited by (auto simp: dfs_ok_def)
    have deps: "set (cm_deps c) \<subseteq> names m" using "2.prems"(1,2) by (simp add: graph_ok_def)
    from "2.IH" [OF Unvisited "2.prems"(1) deps ok v]
    have i: "dfs_ok m s1" "dfs_grows ?s s1" "\<forall>d\<in>set (cm_deps c). fst s1 d = Done" by auto
    show ?thesis unfolding s' using push_done [OF "2.prems"(1,2) Unvisited i] by simp
  qed (use "2.prems" in auto)
next
  case (4 n m d ds s)
  obtain s1 where v: "visit n m (the (byName m d)) s = Inr s1" "visit_deps n m ds s1 = Inr s'"
    using "4.prems"(4) by (auto split: sum.splits)
  have d: "the (byName m d) \<in> set (mg_components m)" "cm_name (the (byName m d)) = d" "set ds \<subseteq> names m"
    using byName_the [OF "4.prems"(1), of d] "4.prems"(2) by simp_all
  from "4.IH"(1) [OF "4.prems"(1) d(1) "4.prems"(3) v(1)] have a: "dfs_ok m s1" "dfs_grows s s1" "fst s1 d = Done" by (simp_all add: d(2))
  from "4.IH"(2) [OF v(1) "4.prems"(1) d(3) a(1) v(2)] have b: "dfs_ok m s'" "dfs_grows s1 s'" "\<forall>d\<in>set ds. fst s' d = Done" by simp_all
  show ?case using b a dfs_grows_trans by (auto simp: dfs_grows_def)
qed auto

text \<open>
  An error of a visit is a cycle through the stack, or the fuel was at most the number of unvisited names.
\<close>

lemma visit_error:
  "graph_ok m \<Longrightarrow> c \<in> set (mg_components m) \<Longrightarrow> dfs_ok m s \<Longrightarrow> visit n m c s = Inl e \<Longrightarrow> (\<And>g. fst s g = OnStack \<Longrightarrow> (g, cm_name c) \<in> (depends m)\<^sup>+)
    \<Longrightarrow> (e = OutOfFuel \<and> n \<le> unvisited m s) \<or> (\<exists>x. e = ErrCycle x \<and> (x, x) \<in> (depends m)\<^sup>+)"
  "graph_ok m \<Longrightarrow> set ds \<subseteq> names m \<Longrightarrow> dfs_ok m s \<Longrightarrow> visit_deps n m ds s = Inl e \<Longrightarrow> (\<And>g d. fst s g = OnStack \<Longrightarrow> d \<in> set ds \<Longrightarrow> (g, d) \<in> (depends m)\<^sup>+)
    \<Longrightarrow> (e = OutOfFuel \<and> n \<le> unvisited m s) \<or> (\<exists>x. e = ErrCycle x \<and> (x, x) \<in> (depends m)\<^sup>+)"
proof (induction n m c s and n m ds s rule: visit_visit_deps.induct)
  case (2 n m c s)
  have c: "cm_name c \<in> names m" using "2.prems"(2) by (simp add: names_def)
  show ?case
  proof (cases "fst s (cm_name c)")
    case Unvisited
    let ?s = "((fst s)(cm_name c := OnStack), snd s)"
    have v: "visit_deps n m (cm_deps c) ?s = Inl e" using "2.prems"(4) Unvisited by (auto split: sum.splits)
    have ok: "dfs_ok m ?s" using "2.prems"(3) Unvisited by (auto simp: dfs_ok_def)
    have deps: "set (cm_deps c) \<subseteq> names m" using "2.prems"(1,2) by (simp add: graph_ok_def)
    have reach: "(g, d) \<in> (depends m)\<^sup>+" if "fst ?s g = OnStack" "d \<in> set (cm_deps c)" for g d
    proof -
      have "(cm_name c, d) \<in> depends m" using component_edges [OF "2.prems"(1,2)] that(2) by simp
      then show ?thesis using that(1) "2.prems"(5) [of g] by (cases "g = cm_name c") (auto intro: trancl_into_trancl)
    qed
    have "n \<le> unvisited m ?s \<Longrightarrow> Suc n \<le> unvisited m s" using unvisited_push [OF Unvisited c, of "snd s"] by simp
    with "2.IH" [OF Unvisited "2.prems"(1) deps ok v reach] show ?thesis by blast
  next
    case OnStack
    then show ?thesis using "2.prems"(4,5) by auto
  qed (use "2.prems" in simp)
next
  case (4 n m d ds s)
  have d: "the (byName m d) \<in> set (mg_components m)" "cm_name (the (byName m d)) = d" "set ds \<subseteq> names m"
    using byName_the [OF "4.prems"(1), of d] "4.prems"(2) by simp_all
  show ?case
  proof (cases "visit n m (the (byName m d)) s")
    case (Inl e')
    then have "visit n m (the (byName m d)) s = Inl e" using "4.prems"(4) by simp
    from "4.IH"(1) [OF "4.prems"(1) d(1) "4.prems"(3) this] "4.prems"(5) d(2) show ?thesis by auto
  next
    case (Inr s1)
    then have v: "visit_deps n m ds s1 = Inl e" using "4.prems"(4) by simp
    from visit_sound(1) [OF "4.prems"(1) d(1) "4.prems"(3) Inr] have a: "dfs_ok m s1" "dfs_grows s s1" by simp_all
    have "(g, x) \<in> (depends m)\<^sup>+" if "fst s1 g = OnStack" "x \<in> set ds" for g x
      using "4.prems"(5) [of g x] that a(2) by (simp add: dfs_grows_def)
    from "4.IH"(2) [OF Inr "4.prems"(1) d(3) a(1) v this] unvisited_grows [OF a(2), of m] show ?thesis by auto
  qed
qed auto

lemma visit_all_sound:
  "graph_ok m \<Longrightarrow> set cs \<subseteq> set (mg_components m) \<Longrightarrow> dfs_ok m s \<Longrightarrow> visit_all n m cs s = Inr s' \<Longrightarrow> dfs_ok m s' \<and> dfs_grows s s' \<and> (\<forall>c\<in>set cs. fst s' (cm_name c) = Done)"
proof (induction cs arbitrary: s)
  case (Cons c cs)
  obtain s1 where v: "visit n m c s = Inr s1" "visit_all n m cs s1 = Inr s'" using Cons.prems(4) by (auto split: sum.splits)
  have a: "dfs_ok m s1" "dfs_grows s s1" "fst s1 (cm_name c) = Done" using visit_sound(1) [OF Cons.prems(1) _ Cons.prems(3) v(1)] Cons.prems(2) by simp_all
  from Cons.IH [OF Cons.prems(1) _ a(1) v(2)] Cons.prems(2) have b: "dfs_ok m s'" "dfs_grows s1 s'" "\<forall>c\<in>set cs. fst s' (cm_name c) = Done" by simp_all
  show ?case using a b dfs_grows_trans by (auto simp: dfs_grows_def)
qed simp

lemma visit_all_error:
  "graph_ok m \<Longrightarrow> set cs \<subseteq> set (mg_components m) \<Longrightarrow> dfs_ok m s \<Longrightarrow> (\<And>g. fst s g \<noteq> OnStack) \<Longrightarrow> unvisited m s < n \<Longrightarrow> visit_all n m cs s = Inl e
    \<Longrightarrow> \<exists>x. e = ErrCycle x \<and> (x, x) \<in> (depends m)\<^sup>+"
proof (induction cs arbitrary: s)
  case (Cons c cs)
  have c: "c \<in> set (mg_components m)" using Cons.prems(2) by simp
  show ?case
  proof (cases "visit n m c s")
    case (Inl e')
    then have "visit n m c s = Inl e" using Cons.prems(6) by simp
    from visit_error(1) [OF Cons.prems(1) c Cons.prems(3) this] Cons.prems(4,5) show ?thesis by auto
  next
    case (Inr s1)
    have a: "dfs_ok m s1" "dfs_grows s s1" using visit_sound(1) [OF Cons.prems(1) c Cons.prems(3) Inr] by simp_all
    show ?thesis using Cons.IH [OF Cons.prems(1) _ a(1)] Cons.prems Inr a(2) unvisited_grows [OF a(2), of m] by (simp add: dfs_grows_def)
  qed
qed simp

lemma card_names: "card (names m) \<le> length (mg_components m)"
  unfolding names_def by (metis card_image_le card_length finite_set le_trans)

lemma resolve_fuel:
  assumes "graph_ok m" "missing_dep m (mg_components m) = None" "resolve m = Inl e"
  shows "\<exists>x. e = ErrCycle x \<and> (x, x) \<in> (depends m)\<^sup>+"
proof -
  let ?s = "(\<lambda>_. Unvisited, []) :: dfs"
  have "dfs_ok m ?s" by (simp add: dfs_ok_def topological_def)
  moreover have "unvisited m ?s < Suc (length (mg_components m))" using card_names [of m] by (simp add: unvisited_def)
  moreover have "visit_all (Suc (length (mg_components m))) m (mg_components m) ?s = Inl e" using assms(2,3) by (auto simp: resolve_def split: sum.splits)
  ultimately show ?thesis by (intro visit_all_error [OF assms(1) subset_refl]) simp_all
qed

lemma Add_distinct: "distinct (map cm_name (mg_components m)) \<Longrightarrow> distinct (map cm_name (mg_components (snd (sd_Add c m))))"
  using byName_None [of m "cm_name c"] by (auto simp: sd_Add_def names_def)

lemma graph_ok_iff: "distinct (map cm_name (mg_components m)) \<Longrightarrow> graph_ok m \<longleftrightarrow> Range (depends m) \<subseteq> names m"
  by (auto simp: graph_ok_def depends_def)

lemma resolve_sound:
  assumes "distinct (map cm_name (mg_components m))" "resolve m = Inr order"
  shows "graph_ok m" "topological m order" "set order = names m"
proof -
  let ?s = "(\<lambda>_. Unvisited, []) :: dfs"
  have n: "missing_dep m (mg_components m) = None" using assms(2) by (auto simp: resolve_def split: option.splits)
  then show g: "graph_ok m" using assms(1) by (simp add: graph_ok_def missing_dep_None)
  obtain s where v: "visit_all (Suc (length (mg_components m))) m (mg_components m) ?s = Inr s" "order = snd s"
    using assms(2) n by (auto simp: resolve_def split: sum.splits)
  have "dfs_ok m ?s" by (simp add: dfs_ok_def topological_def)
  from visit_all_sound [OF g subset_refl this v(1)] have "dfs_ok m s" "\<forall>c\<in>set (mg_components m). fst s (cm_name c) = Done" by simp_all
  then show "topological m order" "set order = names m" by (auto simp: dfs_ok_def v(2) names_def)
qed

text \<open>
  C40. Resolution succeeds exactly when every dependency names a registered component and no component depends on
  itself through others.  The order it then returns lists every component once, each after all it depends on; a
  cycle it reports is one, and the search always ends.
\<close>

theorem resolve_exact:
  assumes "distinct (map cm_name (mg_components m))"
  shows "((\<exists>order. resolve m = Inr order) \<longleftrightarrow> Range (depends m) \<subseteq> names m \<and> acyclic (depends m))
    \<and> (\<forall>order. resolve m = Inr order \<longrightarrow> distinct order \<and> set order = names m \<and> (\<forall>i<length order. \<forall>d. (order ! i, d) \<in> depends m \<longrightarrow> d \<in> set (take i order)))
    \<and> (\<forall>x. resolve m = Inl (ErrCycle x) \<longrightarrow> (x, x) \<in> (depends m)\<^sup>+) \<and> resolve m \<noteq> Inl OutOfFuel"
proof -
  have sound: "graph_ok m \<and> topological m order \<and> set order = names m" if "resolve m = Inr order" for order
    using resolve_sound [OF assms that] by simp
  have fails: "\<not> Range (depends m) \<subseteq> names m \<and> (\<exists>c d. e = ErrMissingDep c d) \<or> (\<exists>x. e = ErrCycle x \<and> (x, x) \<in> (depends m)\<^sup>+)" if "resolve m = Inl e" for e
  proof (cases "missing_dep m (mg_components m)")
    case None
    then have "graph_ok m" using assms by (simp add: graph_ok_def missing_dep_None)
    from resolve_fuel [OF this None that] show ?thesis by simp
  next
    case (Some cd)
    then have "\<not> graph_ok m" by (metis graph_ok_def missing_dep_None option.distinct(1))
    then show ?thesis using that Some graph_ok_iff [OF assms] by (auto simp: resolve_def split: prod.splits)
  qed
  have "(\<exists>order. resolve m = Inr order) \<longleftrightarrow> Range (depends m) \<subseteq> names m \<and> acyclic (depends m)"
  proof (cases "resolve m")
    case (Inl e)
    then show ?thesis using fails [OF Inl] by (auto simp: acyclic_def)
  next
    case (Inr order)
    then show ?thesis using sound [OF Inr] topological_acyclic [of m order] graph_ok_iff [OF assms] by auto
  qed
  then show ?thesis using sound fails unfolding topological_def by blast
qed

theorem resolve_exact_witness:
  "resolve \<lparr>mg_components = [\<lparr>cm_name = ''api'', cm_start = True, cm_stop = True, cm_deps = [''db'']\<rparr>, \<lparr>cm_name = ''db'', cm_start = True, cm_stop = True, cm_deps = []\<rparr>],
      mg_order = None\<rparr> = Inr [''db'', ''api'']
    \<and> acyclic (depends \<lparr>mg_components = [\<lparr>cm_name = ''api'', cm_start = True, cm_stop = True, cm_deps = [''db'']\<rparr>, \<lparr>cm_name = ''db'', cm_start = True, cm_stop = True, cm_deps = []\<rparr>],
      mg_order = None\<rparr>)"
proof -
  let ?m = "\<lparr>mg_components = [\<lparr>cm_name = ''api'', cm_start = True, cm_stop = True, cm_deps = [''db'']\<rparr>, \<lparr>cm_name = ''db'', cm_start = True, cm_stop = True, cm_deps = []\<rparr>],
      mg_order = None\<rparr>"
  have r: "resolve ?m = Inr [''db'', ''api'']" by code_simp
  have "distinct (map cm_name (mg_components ?m))" by simp
  from resolve_exact [OF this] r show ?thesis by blast
qed

subsection \<open>The order of the hooks\<close>

lemma stop_trace: "snd (stopReverse m fails ns) = map CallStop (stop_calls m ns)"
  by (simp add: stopReverse_def Let_def)

definition has_start :: "manager \<Rightarrow> string \<Rightarrow> bool" where
  "has_start m n \<longleftrightarrow> (case byName m n of None \<Rightarrow> False | Some c \<Rightarrow> cm_start c)"

text \<open>What the loop of \<open>Start\<close> does, in closed form.\<close>

lemma start_loop_trace:
  "start_loop m fails ctx_done started ns = (e, tr) \<Longrightarrow>
    (e = None \<and> tr = map CallStart (filter (has_start m) ns) \<and> (\<forall>n\<in>set ns. has_start m n \<longrightarrow> \<not> fails n \<and> \<not> ctx_done n))
    \<or> (\<exists>us n vs. ns = us @ n # vs \<and> has_start m n \<and> (\<forall>u\<in>set us. has_start m u \<longrightarrow> \<not> fails u \<and> \<not> ctx_done u)
        \<and> (fails n \<and> e = Some (StartFailed n) \<and> tr = map CallStart (filter (has_start m) (us @ [n])) @ map CallStop (stop_calls m (rev (started @ us)))
          \<or> \<not> fails n \<and> ctx_done n \<and> e = Some CtxDone \<and> tr = map CallStart (filter (has_start m) (us @ [n])) @ map CallStop (stop_calls m (rev (started @ us @ [n])))))"
proof (induction m fails ctx_done started ns arbitrary: e tr rule: start_loop.induct)
  case (2 m fails ctx_done started n ns)
  have hs: "(case byName m n of None \<Rightarrow> True | Some c \<Rightarrow> \<not> cm_start c) \<longleftrightarrow> \<not> has_start m n" by (simp add: has_start_def split: option.splits)
  show ?case
  proof (cases "has_start m n \<and> (fails n \<or> ctx_done n)")
    case True
    then have "(fails n \<and> e = Some (StartFailed n) \<and> tr = map CallStart (filter (has_start m) ([] @ [n])) @ map CallStop (stop_calls m (rev (started @ [])))
        \<or> \<not> fails n \<and> ctx_done n \<and> e = Some CtxDone \<and> tr = map CallStart (filter (has_start m) ([] @ [n])) @ map CallStop (stop_calls m (rev (started @ [] @ [n]))))"
      using "2.prems" unfolding start_loop.simps hs stop_trace by (auto split: if_splits)
    then show ?thesis using True by (intro disjI2 exI [of _ "[]"] exI [of _ n] exI [of _ ns]) simp
  next
    case False
    obtain tr' where r: "start_loop m fails ctx_done (started @ [n]) ns = (e, tr')" "tr = (if has_start m n then CallStart n # tr' else tr')"
      using "2.prems" False unfolding start_loop.simps hs by (auto split: if_splits prod.splits)
    have "(e = None \<and> tr' = map CallStart (filter (has_start m) ns) \<and> (\<forall>n\<in>set ns. has_start m n \<longrightarrow> \<not> fails n \<and> \<not> ctx_done n))
      \<or> (\<exists>us k vs. ns = us @ k # vs \<and> has_start m k \<and> (\<forall>u\<in>set us. has_start m u \<longrightarrow> \<not> fails u \<and> \<not> ctx_done u)
          \<and> (fails k \<and> e = Some (StartFailed k) \<and> tr' = map CallStart (filter (has_start m) (us @ [k])) @ map CallStop (stop_calls m (rev ((started @ [n]) @ us)))
            \<or> \<not> fails k \<and> ctx_done k \<and> e = Some CtxDone \<and> tr' = map CallStart (filter (has_start m) (us @ [k])) @ map CallStop (stop_calls m (rev ((started @ [n]) @ us @ [k])))))"
    proof (cases "has_start m n")
      case True
      then show ?thesis using "2.IH"(2) [of e tr'] False r(1) hs by simp
    next
      case no: False
      then show ?thesis using "2.IH"(1) [of e tr'] r(1) hs by simp
    qed
    then show ?thesis
    proof (elim disjE exE conjE)
      assume "e = None" "tr' = map CallStart (filter (has_start m) ns)" "\<forall>n\<in>set ns. has_start m n \<longrightarrow> \<not> fails n \<and> \<not> ctx_done n"
      then show ?thesis using r(2) False by (intro disjI1) auto
    next
      fix us k vs
      assume k: "ns = us @ k # vs" "has_start m k" "\<forall>u\<in>set us. has_start m u \<longrightarrow> \<not> fails u \<and> \<not> ctx_done u" "fails k" "e = Some (StartFailed k)"
        "tr' = map CallStart (filter (has_start m) (us @ [k])) @ map CallStop (stop_calls m (rev ((started @ [n]) @ us)))"
      then show ?thesis using r(2) False by (intro disjI2 exI [of _ "n # us"] exI [of _ k] exI [of _ vs]) auto
    next
      fix us k vs
      assume k: "ns = us @ k # vs" "has_start m k" "\<forall>u\<in>set us. has_start m u \<longrightarrow> \<not> fails u \<and> \<not> ctx_done u" "\<not> fails k" "ctx_done k" "e = Some CtxDone"
        "tr' = map CallStart (filter (has_start m) (us @ [k])) @ map CallStop (stop_calls m (rev ((started @ [n]) @ us @ [k])))"
      then show ?thesis using r(2) False by (intro disjI2 exI [of _ "n # us"] exI [of _ k] exI [of _ vs]) auto
    qed
  qed
qed simp

text \<open>
  After a failed start every component whose start had been called and had succeeded has been stopped, when it has
  a stop hook, and the component that failed has not.
\<close>

definition has_stop :: "manager \<Rightarrow> string \<Rightarrow> bool" where
  "has_stop m n \<longleftrightarrow> (case byName m n of None \<Rightarrow> False | Some c \<Rightarrow> cm_stop c)"

lemma stop_calls_filter: "stop_calls m ns = filter (has_stop m) ns"
  unfolding stop_calls_def by (intro filter_cong refl) (simp add: has_stop_def)

lemma has_stop_update: "has_stop (m\<lparr>mg_order := v\<rparr>) = has_stop m"
  by (simp add: has_stop_def byName_def fun_eq_iff)

lemma failed_start_undone:
  assumes "start_loop m fails ctx_done [] ns = (Some (StartFailed n), tr)" "distinct ns"
  shows "CallStart k \<in> set tr \<Longrightarrow> k \<noteq> n \<Longrightarrow> has_stop m k \<Longrightarrow> CallStop k \<in> set tr" "CallStop n \<notin> set tr"
  using start_loop_trace [OF assms(1)] assms(2) by (auto simp: stop_calls_filter)

text \<open>\<open>Stop\<close> calls every registered stop hook, also of a component that was never started.\<close>

lemma Stop_trace:
  assumes "sd_wf m" "resolve m = Inr order"
  shows "fst (snd (sd_Stop fails m)) = map CallStop (filter (has_stop m) (rev order))"
    and "fst (sd_Stop fails m) = (if filter fails (filter (has_stop m) (rev order)) = [] then None else Some (ErrShutdown (filter fails (filter (has_stop m) (rev order)))))"
  using assms by (auto simp: sd_Stop_def sd_wf_def resolveLocked_def stopReverse_def stop_calls_filter has_stop_update Let_def)

lemma stop_without_start:
  "sd_Stop (\<lambda>_. False) (snd (sd_Add \<lparr>cm_name = ''db'', cm_start = True, cm_stop = True, cm_deps = []\<rparr> sd_New)) =
    (None, [CallStop ''db''], \<lparr>mg_components = [\<lparr>cm_name = ''db'', cm_start = True, cm_stop = True, cm_deps = []\<rparr>], mg_order = Some [''db'']\<rparr>)"
  by code_simp

end
