(* ===== verification/Adaptive.thy ===== *)
theory Adaptive
  imports Worker_Pool
begin

section \<open>Package adaptive\<close>

text \<open>
  Models \<open>src/adaptive/adaptive.go\<close> as interleaved steps: callers that hold the read lock, workers with their stop
  channels, the autoscaler and any number of calls of \<open>Close\<close>.  The stop channel of a worker is named by the
  worker; workers are numbered in the order of their start.  What the load monitor answers is part of the step, as
  are panics; CPU fractions are finite.  The last three fields are ghosts, as in \<open>workerpool\<close>.
\<close>

datatype 'j astate = AIdle | ADrain | ARun bool 'j | AExit

text \<open>The autoscaler: waiting for a tick, sampling, with a sample, with the worker count it has loaded, gone.\<close>

datatype scaler = ScWait | ScSample | ScGot rat | ScAct rat int | ScExit

datatype 'j closer = CClaim | CWait | CDrain | CRun 'j | CEnd

record 'j apool =
  ap_queue :: "'j list"
  ap_cap :: nat
  ap_min :: int
  ap_max :: int
  ap_target :: rat
  ap_live :: int
  ap_stopChs :: "nat list"
  ap_stopped :: "nat list"
  ap_closed :: bool
  ap_done :: bool
  ap_workers :: "'j astate list"
  ap_scaler :: scaler
  ap_submitting :: "(bool \<times> 'j) list"
  ap_closers :: "'j closer list"
  ap_recovered :: "64 word"
  ap_accepted :: "'j list"
  ap_refused :: "'j list"
  ap_ran :: "'j list"

subsection \<open>Construction\<close>

datatype ap_option = ap_WithMinWorkers int | ap_WithMaxWorkers int | ap_WithTargetCPU rat | ap_WithSampleInterval int | ap_WithQueueSize int

record ap_options =
  MinWorkers :: int
  MaxWorkers :: int
  TargetCPU :: rat
  SampleInterval :: int
  QueueSize :: int

fun ap_apply :: "ap_option \<Rightarrow> ap_options \<Rightarrow> ap_options" where
  "ap_apply (ap_WithMinWorkers n) o' = o'\<lparr>MinWorkers := n\<rparr>"
| "ap_apply (ap_WithMaxWorkers n) o' = o'\<lparr>MaxWorkers := n\<rparr>"
| "ap_apply (ap_WithTargetCPU f) o' = o'\<lparr>TargetCPU := f\<rparr>"
| "ap_apply (ap_WithSampleInterval d) o' = o'\<lparr>SampleInterval := d\<rparr>"
| "ap_apply (ap_WithQueueSize n) o' = o'\<lparr>QueueSize := n\<rparr>"

datatype ap_error = BadMinWorkers int | BadMaxWorkers int int | BadTargetCPU rat | BadSampleInterval int

text \<open>\<open>grow\<close>, one worker at a time.\<close>

definition grow_one :: "'j apool \<Rightarrow> 'j apool" where
  "grow_one p =
    (if ap_max p \<le> ap_live p then p
     else p\<lparr>ap_stopChs := ap_stopChs p @ [length (ap_workers p)], ap_live := ap_live p + 1, ap_workers := ap_workers p @ [AIdle]\<rparr>)"

definition ap_grow :: "nat \<Rightarrow> 'j apool \<Rightarrow> 'j apool" where
  "ap_grow n p = (grow_one ^^ n) p"

definition ap_New :: "int \<Rightarrow> ap_option list \<Rightarrow> ap_error + 'j apool" where
  "ap_New cpus opts =
    (let o' = fold ap_apply opts \<lparr>MinWorkers = 1, MaxWorkers = cpus * 2, TargetCPU = 3 / 4, SampleInterval = 1000000000, QueueSize = 0\<rparr>
     in if MinWorkers o' < 1 then Inl (BadMinWorkers (MinWorkers o'))
        else if MaxWorkers o' < MinWorkers o' then Inl (BadMaxWorkers (MaxWorkers o') (MinWorkers o'))
        else if TargetCPU o' \<le> 0 \<or> 1 \<le> TargetCPU o' then Inl (BadTargetCPU (TargetCPU o'))
        else if SampleInterval o' \<le> 0 then Inl (BadSampleInterval (SampleInterval o'))
        else let size = (if QueueSize o' \<le> 0 then MaxWorkers o' else QueueSize o')
             in Inr (ap_grow (nat (MinWorkers o')) \<lparr>ap_queue = [], ap_cap = nat size, ap_min = MinWorkers o', ap_max = MaxWorkers o', ap_target = TargetCPU o',
                  ap_live = 0, ap_stopChs = [], ap_stopped = [], ap_closed = False, ap_done = False, ap_workers = [], ap_scaler = ScWait, ap_submitting = [], ap_closers = [],
                  ap_recovered = 0, ap_accepted = [], ap_refused = [], ap_ran = []\<rparr>))"

subsection \<open>Callers\<close>

text \<open>A call of \<open>Close\<close> that holds the write lock keeps every \<open>Submit\<close> out.\<close>

fun holds_lock :: "'j closer \<Rightarrow> bool" where
  "holds_lock CDrain = True"
| "holds_lock (CRun j) = True"
| "holds_lock _ = False"

definition ap_check :: "bool \<Rightarrow> 'j \<Rightarrow> 'j apool \<Rightarrow> 'j apool option" where
  "ap_check try j p =
    (if list_ex holds_lock (ap_closers p) then None
     else if ap_closed p then Some (p\<lparr>ap_refused := ap_refused p @ [j]\<rparr>)
     else Some (p\<lparr>ap_submitting := ap_submitting p @ [(try, j)]\<rparr>))"

definition ap_ready :: "choice \<Rightarrow> bool \<Rightarrow> 'j apool \<Rightarrow> bool" where
  "ap_ready c try p =
    (case c of ChQueue \<Rightarrow> length (ap_queue p) < ap_cap p | ChDone \<Rightarrow> ap_done p | ChCtx \<Rightarrow> \<not> try
     | ChDefault \<Rightarrow> try \<and> \<not> ap_done p \<and> ap_cap p \<le> length (ap_queue p))"

definition ap_select :: "nat \<Rightarrow> choice \<Rightarrow> 'j apool \<Rightarrow> 'j apool option" where
  "ap_select k c p =
    (if length (ap_submitting p) \<le> k then None
     else let (try, j) = ap_submitting p ! k; p1 = p\<lparr>ap_submitting := take k (ap_submitting p) @ drop (Suc k) (ap_submitting p)\<rparr>
          in if \<not> ap_ready c try p then None
             else if c = ChQueue then Some (p1\<lparr>ap_queue := ap_queue p1 @ [j], ap_accepted := ap_accepted p1 @ [j]\<rparr>)
             else Some (p1\<lparr>ap_refused := ap_refused p1 @ [j]\<rparr>))"

subsection \<open>Workers\<close>

definition ap_safeWork :: "bool \<Rightarrow> 'j \<Rightarrow> 'j apool \<Rightarrow> 'j apool" where
  "ap_safeWork panics j p = p\<lparr>ap_ran := ap_ran p @ [j], ap_recovered := (if panics then ap_recovered p + 1 else ap_recovered p)\<rparr>"

definition ap_set :: "nat \<Rightarrow> 'j astate \<Rightarrow> 'j apool \<Rightarrow> 'j apool" where
  "ap_set i w p = p\<lparr>ap_workers := (ap_workers p)[i := w]\<rparr>"

definition ap_exit :: "nat \<Rightarrow> 'j apool \<Rightarrow> 'j apool" where
  "ap_exit i p = ap_set i AExit (p\<lparr>ap_live := ap_live p - 1\<rparr>)"

datatype astep = AtTake | AtSeeDone | AtSeeStop | AtDrained | AtFinish bool

definition ap_worker :: "nat \<Rightarrow> astep \<Rightarrow> 'j apool \<Rightarrow> 'j apool option" where
  "ap_worker i st p =
    (if length (ap_workers p) \<le> i then None
     else case (st, ap_workers p ! i) of
       (AtTake, AIdle) \<Rightarrow> (case ap_queue p of [] \<Rightarrow> None | j # js \<Rightarrow> Some (ap_set i (ARun False j) (p\<lparr>ap_queue := js\<rparr>)))
     | (AtTake, ADrain) \<Rightarrow> (case ap_queue p of [] \<Rightarrow> None | j # js \<Rightarrow> Some (ap_set i (ARun True j) (p\<lparr>ap_queue := js\<rparr>)))
     | (AtSeeDone, AIdle) \<Rightarrow> if ap_done p then Some (ap_set i ADrain p) else None
     | (AtSeeStop, AIdle) \<Rightarrow> if i \<in> set (ap_stopped p) then Some (ap_exit i p) else None
     | (AtDrained, ADrain) \<Rightarrow> if ap_queue p = [] then Some (ap_exit i p) else None
     | (AtFinish panics, ARun dr j) \<Rightarrow> Some (ap_set i (if dr then ADrain else AIdle) (ap_safeWork panics j p))
     | _ \<Rightarrow> None)"

subsection \<open>The autoscaler\<close>

definition ap_shrink :: "'j apool \<Rightarrow> 'j apool" where
  "ap_shrink p =
    (if ap_stopChs p = [] then p
     else p\<lparr>ap_stopChs := butlast (ap_stopChs p), ap_stopped := last (ap_stopChs p) # ap_stopped p\<rparr>)"

definition scale_act :: "rat \<Rightarrow> int \<Rightarrow> 'j apool \<Rightarrow> 'j apool" where
  "scale_act f cur p =
    (if ap_target p < f then (if ap_min p < cur then ap_shrink p else p)
     else if f < ap_target p then (if cur < ap_max p \<and> ap_queue p \<noteq> [] then ap_grow 1 p else p)
     else p)"

datatype sstep = StTick | StDone | StSample "rat option" | StLoad | StAct

definition ap_scale :: "sstep \<Rightarrow> 'j apool \<Rightarrow> 'j apool option" where
  "ap_scale st p =
    (case (st, ap_scaler p) of
       (StTick, ScWait) \<Rightarrow> Some (p\<lparr>ap_scaler := ScSample\<rparr>)
     | (StDone, ScWait) \<Rightarrow> if ap_done p then Some (p\<lparr>ap_scaler := ScExit\<rparr>) else None
     | (StSample None, ScSample) \<Rightarrow> Some (p\<lparr>ap_scaler := ScWait\<rparr>)
     | (StSample (Some f), ScSample) \<Rightarrow> Some (p\<lparr>ap_scaler := (if ap_done p then ScExit else ScGot f)\<rparr>)
     | (StLoad, ScGot f) \<Rightarrow> Some (p\<lparr>ap_scaler := ScAct f (ap_live p)\<rparr>)
     | (StAct, ScAct f cur) \<Rightarrow> Some (scale_act f cur (p\<lparr>ap_scaler := ScWait\<rparr>))
     | _ \<Rightarrow> None)"

subsection \<open>Close\<close>

text \<open>
  The first call sets \<open>closed\<close> and closes \<open>done\<close>; every call then waits, takes the write lock in turn and drains.  A
  later call is held up by \<open>closeOnce\<close> until \<open>done\<close> is closed, and so is its wait for the autoscaler.
\<close>

definition ap_Close :: "'j apool \<Rightarrow> 'j apool" where
  "ap_Close p = p\<lparr>ap_closed := True, ap_closers := ap_closers p @ [if ap_closed p then CWait else CClaim]\<rparr>"

datatype cstep = CtDone | CtLock | CtTake | CtFinish bool | CtEnd

definition ap_closer :: "nat \<Rightarrow> cstep \<Rightarrow> 'j apool \<Rightarrow> 'j apool option" where
  "ap_closer c st p =
    (if length (ap_closers p) \<le> c then None
     else case (st, ap_closers p ! c) of
       (CtDone, CClaim) \<Rightarrow> Some (p\<lparr>ap_done := True, ap_closers := (ap_closers p)[c := CWait]\<rparr>)
     | (CtLock, CWait) \<Rightarrow>
         if ap_scaler p = ScExit \<and> list_all (\<lambda>w. w = AExit) (ap_workers p) \<and> ap_submitting p = [] \<and> \<not> list_ex holds_lock (ap_closers p)
         then Some (p\<lparr>ap_closers := (ap_closers p)[c := CDrain]\<rparr>) else None
     | (CtTake, CDrain) \<Rightarrow> (case ap_queue p of [] \<Rightarrow> None | j # js \<Rightarrow> Some (p\<lparr>ap_queue := js, ap_closers := (ap_closers p)[c := CRun j]\<rparr>))
     | (CtFinish panics, CRun j) \<Rightarrow> Some (ap_safeWork panics j (p\<lparr>ap_closers := (ap_closers p)[c := CDrain]\<rparr>))
     | (CtEnd, CDrain) \<Rightarrow> if ap_queue p = [] then Some (p\<lparr>ap_closers := (ap_closers p)[c := CEnd]\<rparr>) else None
     | _ \<Rightarrow> None)"

datatype 'j ap_event = ASubmit bool 'j | ASelect nat choice | AWork nat astep | AScale sstep | AClose | ACloser nat cstep

fun ap_do :: "'j ap_event \<Rightarrow> 'j apool \<Rightarrow> 'j apool option" where
  "ap_do (ASubmit try j) p = ap_check try j p"
| "ap_do (ASelect k c) p = ap_select k c p"
| "ap_do (AWork i st) p = ap_worker i st p"
| "ap_do (AScale st) p = ap_scale st p"
| "ap_do AClose p = Some (ap_Close p)"
| "ap_do (ACloser c st) p = ap_closer c st p"

fun ap_run :: "'j ap_event list \<Rightarrow> 'j apool \<Rightarrow> 'j apool option" where
  "ap_run [] p = Some p"
| "ap_run (ev # evs) p = (case ap_do ev p of None \<Rightarrow> None | Some p' \<Rightarrow> ap_run evs p')"

fun ap_submitted :: "'j ap_event list \<Rightarrow> 'j list" where
  "ap_submitted [] = []"
| "ap_submitted (ASubmit _ j # evs) = j # ap_submitted evs"
| "ap_submitted (_ # evs) = ap_submitted evs"

subsection \<open>Where a job is\<close>

fun doing :: "'j astate \<Rightarrow> 'j list" where
  "doing (ARun _ j) = [j]"
| "doing _ = []"

fun finishing :: "'j closer \<Rightarrow> 'j list" where
  "finishing (CRun j) = [j]"
| "finishing _ = []"

definition alive :: "'j astate list \<Rightarrow> nat" where
  "alive ws = length (filter (\<lambda>w. w \<noteq> AExit) ws)"

text \<open>What a step of a worker does: it changes its own state, the queue and what has run.\<close>

lemma worker_effect:
  assumes "ap_worker i st p = Some p'"
  obtains w where "i < length (ap_workers p)" "ap_workers p ! i \<noteq> AExit" "ap_workers p' = (ap_workers p)[i := w]"
    "mset (ap_queue p') + mset (doing w) + mset (ap_ran p') = mset (ap_queue p) + mset (doing (ap_workers p ! i)) + mset (ap_ran p)"
    "ap_live p' = ap_live p - (if w = AExit then 1 else 0)" "length (ap_queue p') \<le> length (ap_queue p)"
    "ap_accepted p' = ap_accepted p" "ap_closers p' = ap_closers p" "ap_submitting p' = ap_submitting p" "ap_refused p' = ap_refused p"
    "ap_closed p' = ap_closed p" "ap_done p' = ap_done p" "ap_scaler p' = ap_scaler p" "ap_cap p' = ap_cap p" "ap_max p' = ap_max p"
proof -
  have i: "i < length (ap_workers p)" using assms by (auto simp: ap_worker_def split: if_splits)
  have "\<exists>w. ap_workers p ! i \<noteq> AExit \<and> ap_workers p' = (ap_workers p)[i := w]
      \<and> mset (ap_queue p') + mset (doing w) + mset (ap_ran p') = mset (ap_queue p) + mset (doing (ap_workers p ! i)) + mset (ap_ran p)
      \<and> ap_live p' = ap_live p - (if w = AExit then 1 else 0) \<and> length (ap_queue p') \<le> length (ap_queue p)
      \<and> ap_accepted p' = ap_accepted p \<and> ap_closers p' = ap_closers p \<and> ap_submitting p' = ap_submitting p \<and> ap_refused p' = ap_refused p
      \<and> ap_closed p' = ap_closed p \<and> ap_done p' = ap_done p \<and> ap_scaler p' = ap_scaler p \<and> ap_cap p' = ap_cap p \<and> ap_max p' = ap_max p"
    using assms i
    by (cases "ap_workers p ! i"; cases st)
      (force simp: ap_worker_def ap_set_def ap_exit_def ap_safeWork_def split: list.splits if_splits)+
  then show ?thesis using i by (elim exE conjE) (rule that)
qed

lemma alive_set:
  "i < length ws \<Longrightarrow> ws ! i \<noteq> AExit \<Longrightarrow> int (alive (ws[i := w])) = int (alive ws) - (if w = AExit then 1 else 0)"
proof (induction ws arbitrary: i)
  case (Cons a ws)
  then show ?case by (cases i) (auto simp: alive_def)
qed simp

definition ap_books :: "'j apool \<Rightarrow> bool" where
  "ap_books p \<longleftrightarrow> mset (ap_accepted p) = mset (ap_queue p) + mset (concat (map doing (ap_workers p))) + mset (concat (map finishing (ap_closers p))) + mset (ap_ran p)
    \<and> length (ap_queue p) \<le> ap_cap p \<and> ap_live p = int (alive (ap_workers p)) \<and> ap_live p \<le> ap_max p"

lemma worker_books: "ap_books p \<Longrightarrow> ap_worker i st p = Some p' \<Longrightarrow> ap_books p'"
proof -
  assume b: "ap_books p" and s: "ap_worker i st p = Some p'"
  from s show ?thesis
  proof (rule worker_effect)
    fix w
    assume e: "i < length (ap_workers p)" "ap_workers p ! i \<noteq> AExit" "ap_workers p' = (ap_workers p)[i := w]"
      "mset (ap_queue p') + mset (doing w) + mset (ap_ran p') = mset (ap_queue p) + mset (doing (ap_workers p ! i)) + mset (ap_ran p)"
      "ap_live p' = ap_live p - (if w = AExit then 1 else 0)" "length (ap_queue p') \<le> length (ap_queue p)"
      "ap_accepted p' = ap_accepted p" "ap_closers p' = ap_closers p" "ap_cap p' = ap_cap p" "ap_max p' = ap_max p"
    let ?d = "\<lambda>ws. mset (concat (map doing ws))"
    have m: "?d (ap_workers p') + mset (doing (ap_workers p ! i)) = ?d (ap_workers p) + mset (doing w)"
      unfolding e(3) by (rule mset_concat_set [OF e(1)])
    have "mset (ap_accepted p) + (mset (doing w) + mset (doing (ap_workers p ! i)))
        = (mset (ap_queue p') + ?d (ap_workers p') + mset (concat (map finishing (ap_closers p'))) + mset (ap_ran p')) + (mset (doing w) + mset (doing (ap_workers p ! i)))"
    proof -
      have "mset (ap_accepted p) + (mset (doing w) + mset (doing (ap_workers p ! i)))
          = (mset (ap_queue p) + mset (doing (ap_workers p ! i)) + mset (ap_ran p)) + (?d (ap_workers p) + mset (doing w)) + mset (concat (map finishing (ap_closers p)))"
        using b by (simp add: ap_books_def ac_simps)
      also have "\<dots> = (mset (ap_queue p') + mset (doing w) + mset (ap_ran p')) + (?d (ap_workers p') + mset (doing (ap_workers p ! i))) + mset (concat (map finishing (ap_closers p')))"
        using e(4) m by (simp add: e(8))
      finally show ?thesis by (simp add: ac_simps)
    qed
    then have "mset (ap_accepted p') = mset (ap_queue p') + ?d (ap_workers p') + mset (concat (map finishing (ap_closers p'))) + mset (ap_ran p')"
      unfolding e(7) by (rule add_right_imp_eq)
    then show ?thesis using b alive_set [OF e(1,2), of w] e by (simp add: ap_books_def split: if_splits)
  qed
qed

lemma closer_effect:
  assumes "ap_closer c st p = Some p'"
  obtains w where "c < length (ap_closers p)" "ap_closers p' = (ap_closers p)[c := w]"
    "mset (ap_queue p') + mset (finishing w) + mset (ap_ran p') = mset (ap_queue p) + mset (finishing (ap_closers p ! c)) + mset (ap_ran p)"
    "length (ap_queue p') \<le> length (ap_queue p)" "ap_accepted p' = ap_accepted p" "ap_workers p' = ap_workers p" "ap_live p' = ap_live p"
    "ap_submitting p' = ap_submitting p" "ap_refused p' = ap_refused p" "ap_closed p' = ap_closed p" "ap_scaler p' = ap_scaler p" "ap_cap p' = ap_cap p" "ap_max p' = ap_max p"
    "ap_done p' = (ap_done p \<or> ap_closers p ! c = CClaim)"
    "(ap_closers p ! c = CClaim \<and> w = CWait) \<or> (ap_closers p ! c = CWait \<and> w = CDrain \<and> ap_scaler p = ScExit \<and> list_all (\<lambda>w. w = AExit) (ap_workers p) \<and> ap_submitting p = []
        \<and> \<not> list_ex holds_lock (ap_closers p))
      \<or> (ap_closers p ! c = CDrain \<and> (\<exists>j. w = CRun j \<and> ap_queue p \<noteq> [])) \<or> ((\<exists>j. ap_closers p ! c = CRun j) \<and> w = CDrain) \<or> (ap_closers p ! c = CDrain \<and> w = CEnd \<and> ap_queue p = [])"
proof -
  have c: "c < length (ap_closers p)" using assms by (auto simp: ap_closer_def split: if_splits)
  have "(ap_closers p ! c = CClaim \<and> p' = p\<lparr>ap_done := True, ap_closers := (ap_closers p)[c := CWait]\<rparr>)
      \<or> (ap_closers p ! c = CWait \<and> ap_scaler p = ScExit \<and> list_all (\<lambda>w. w = AExit) (ap_workers p) \<and> ap_submitting p = [] \<and> \<not> list_ex holds_lock (ap_closers p)
          \<and> p' = p\<lparr>ap_closers := (ap_closers p)[c := CDrain]\<rparr>)
      \<or> (ap_closers p ! c = CDrain \<and> ap_queue p \<noteq> [] \<and> p' = p\<lparr>ap_queue := tl (ap_queue p), ap_closers := (ap_closers p)[c := CRun (hd (ap_queue p))]\<rparr>)
      \<or> (\<exists>panics j. ap_closers p ! c = CRun j \<and> p' = ap_safeWork panics j (p\<lparr>ap_closers := (ap_closers p)[c := CDrain]\<rparr>))
      \<or> (ap_closers p ! c = CDrain \<and> ap_queue p = [] \<and> p' = p\<lparr>ap_closers := (ap_closers p)[c := CEnd]\<rparr>)"
    using assms c by (cases "ap_closers p ! c"; cases st; simp add: ap_closer_def split: list.splits if_splits) auto
  then consider "ap_closers p ! c = CClaim" "p' = p\<lparr>ap_done := True, ap_closers := (ap_closers p)[c := CWait]\<rparr>"
    | "ap_closers p ! c = CWait" "ap_scaler p = ScExit" "list_all (\<lambda>w. w = AExit) (ap_workers p)" "ap_submitting p = []" "\<not> list_ex holds_lock (ap_closers p)"
        "p' = p\<lparr>ap_closers := (ap_closers p)[c := CDrain]\<rparr>"
    | "ap_closers p ! c = CDrain" "ap_queue p \<noteq> []" "p' = p\<lparr>ap_queue := tl (ap_queue p), ap_closers := (ap_closers p)[c := CRun (hd (ap_queue p))]\<rparr>"
    | panics j where "ap_closers p ! c = CRun j" "p' = ap_safeWork panics j (p\<lparr>ap_closers := (ap_closers p)[c := CDrain]\<rparr>)"
    | "ap_closers p ! c = CDrain" "ap_queue p = []" "p' = p\<lparr>ap_closers := (ap_closers p)[c := CEnd]\<rparr>"
    by blast
  then show ?thesis
  proof cases
    case 1 then show ?thesis using c by (intro that [of CWait]) simp_all
  next
    case 2 then show ?thesis using c by (intro that [of CDrain]) simp_all
  next
    case 3 then show ?thesis using c by (intro that [of "CRun (hd (ap_queue p))"]) (cases "ap_queue p"; simp)+
  next
    case 4 then show ?thesis using c by (intro that [of CDrain]) (simp_all add: ap_safeWork_def)
  next
    case 5 then show ?thesis using c by (intro that [of CEnd]) simp_all
  qed
qed

lemma closer_books: "ap_books p \<Longrightarrow> ap_closer c st p = Some p' \<Longrightarrow> ap_books p'"
proof -
  assume b: "ap_books p" and s: "ap_closer c st p = Some p'"
  from s show ?thesis
  proof (rule closer_effect)
    fix w
    assume e: "c < length (ap_closers p)" "ap_closers p' = (ap_closers p)[c := w]"
      "mset (ap_queue p') + mset (finishing w) + mset (ap_ran p') = mset (ap_queue p) + mset (finishing (ap_closers p ! c)) + mset (ap_ran p)"
      "length (ap_queue p') \<le> length (ap_queue p)" "ap_accepted p' = ap_accepted p" "ap_workers p' = ap_workers p" "ap_live p' = ap_live p"
      "ap_cap p' = ap_cap p" "ap_max p' = ap_max p"
    let ?d = "\<lambda>cs. mset (concat (map finishing cs))" and ?x = "mset (finishing w) + mset (finishing (ap_closers p ! c))"
    have m: "?d (ap_closers p') + mset (finishing (ap_closers p ! c)) = ?d (ap_closers p) + mset (finishing w)"
      unfolding e(2) by (rule mset_concat_set [OF e(1)])
    have "mset (ap_accepted p) + ?x = (mset (ap_queue p) + mset (finishing (ap_closers p ! c)) + mset (ap_ran p)) + (?d (ap_closers p) + mset (finishing w)) + mset (concat (map doing (ap_workers p)))"
      using b by (simp add: ap_books_def ac_simps)
    also have "\<dots> = (mset (ap_queue p') + mset (finishing w) + mset (ap_ran p')) + (?d (ap_closers p') + mset (finishing (ap_closers p ! c))) + mset (concat (map doing (ap_workers p')))"
      using e(3) m by (simp add: e(6))
    finally have "mset (ap_accepted p) + ?x = (mset (ap_queue p') + mset (concat (map doing (ap_workers p'))) + ?d (ap_closers p') + mset (ap_ran p')) + ?x"
      by (simp add: ac_simps)
    then have "mset (ap_accepted p') = mset (ap_queue p') + mset (concat (map doing (ap_workers p'))) + ?d (ap_closers p') + mset (ap_ran p')"
      unfolding e(5) by (rule add_right_imp_eq)
    then show ?thesis using b e by (simp add: ap_books_def)
  qed
qed

lemma grow_books: "ap_books p \<Longrightarrow> ap_books (ap_grow n p)"
  by (induction n) (auto simp: ap_grow_def grow_one_def ap_books_def alive_def)

lemma ap_select_effect:
  assumes "ap_select k c p = Some p'"
  shows "ap_submitting p \<noteq> []" "ap_closers p' = ap_closers p" "ap_books p \<Longrightarrow> ap_books p'"
    "mset (map snd (ap_submitting p')) + mset (ap_accepted p') + mset (ap_refused p') = mset (map snd (ap_submitting p)) + mset (ap_accepted p) + mset (ap_refused p)"
proof -
  let ?sub = "take k (ap_submitting p) @ drop (Suc k) (ap_submitting p)" and ?j = "snd (ap_submitting p ! k)"
  have k: "k < length (ap_submitting p)" using assms by (auto simp: ap_select_def split: if_splits)
  then show "ap_submitting p \<noteq> []" by auto
  have p': "p' = p\<lparr>ap_submitting := ?sub, ap_queue := ap_queue p @ [?j], ap_accepted := ap_accepted p @ [?j]\<rparr> \<and> length (ap_queue p) < ap_cap p
      \<or> p' = p\<lparr>ap_submitting := ?sub, ap_refused := ap_refused p @ [?j]\<rparr>"
    using assms by (auto simp: ap_select_def ap_ready_def Let_def split: if_splits prod.splits)
  then show "ap_closers p' = ap_closers p" "ap_books p \<Longrightarrow> ap_books p'" by (auto simp: ap_books_def)
  have "mset (ap_submitting p) = mset ?sub + {#ap_submitting p ! k#}" using id_take_nth_drop [OF k] by (metis add_mset_add_single mset_append mset.simps(2) union_mset_add_mset_right)
  then have "mset (map snd (ap_submitting p)) = mset (map snd ?sub) + {#?j#}" unfolding mset_map by simp
  then show "mset (map snd (ap_submitting p')) + mset (ap_accepted p') + mset (ap_refused p') = mset (map snd (ap_submitting p)) + mset (ap_accepted p) + mset (ap_refused p)"
    using p' by auto
qed

lemma ap_do_books: "ap_books p \<Longrightarrow> ap_do ev p = Some p' \<Longrightarrow> ap_books p'"
proof (cases ev)
  case (AScale st)
  assume b: "ap_books p" "ap_do ev p = Some p'"
  have x: "ap_books (p\<lparr>ap_scaler := x\<rparr>)" for x using b(1) by (simp add: ap_books_def)
  moreover have "ap_books (ap_grow 1 (p\<lparr>ap_scaler := ScWait\<rparr>))" by (intro grow_books x)
  moreover have "ap_books (ap_shrink (p\<lparr>ap_scaler := ScWait\<rparr>))" using b(1) by (simp add: ap_books_def ap_shrink_def)
  ultimately show ?thesis using b(2) AScale
    by (cases st; cases "ap_scaler p") (auto simp: ap_scale_def scale_act_def split: option.splits if_splits)
next
  case (ASubmit t j)
  assume "ap_books p" "ap_do ev p = Some p'"
  then show ?thesis using ASubmit by (auto simp: ap_check_def ap_books_def split: if_splits)
next
  case AClose
  assume "ap_books p" "ap_do ev p = Some p'"
  then show ?thesis using AClose by (auto simp: ap_Close_def ap_books_def)
qed (auto intro: worker_books closer_books ap_select_effect(3))

subsection \<open>What holds once the lock has been taken\<close>

definition past :: "'j closer list \<Rightarrow> bool" where
  "past cs \<longleftrightarrow> list_ex (\<lambda>c. holds_lock c \<or> c = CEnd) cs"

definition ap_shut :: "'j apool \<Rightarrow> bool" where
  "ap_shut p \<longleftrightarrow> (past (ap_closers p) \<longrightarrow> ap_scaler p = ScExit \<and> list_all (\<lambda>w. w = AExit) (ap_workers p) \<and> ap_submitting p = [])
    \<and> (ap_closers p \<noteq> [] \<longrightarrow> ap_closed p) \<and> length (filter holds_lock (ap_closers p)) \<le> 1
    \<and> (CEnd \<in> set (ap_closers p) \<longrightarrow> ap_queue p = [] \<and> concat (map finishing (ap_closers p)) = [])"

lemma length_filter_set:
  "i < length xs \<Longrightarrow> length (filter P (xs[i := x])) + (if P (xs ! i) then 1 else 0) = length (filter P xs) + (if P x then 1 else 0)"
proof (induction xs arbitrary: i)
  case (Cons a xs)
  then show ?case by (cases i) auto
qed simp

lemma past_CEnd: "CEnd \<in> set cs \<Longrightarrow> past cs" "c \<in> set cs \<Longrightarrow> holds_lock c \<Longrightarrow> past cs"
  by (auto simp: past_def list_ex_iff)

lemma shut_before: "\<not> past (ap_closers p') \<Longrightarrow> ap_shut p \<Longrightarrow> ap_closers p' = ap_closers p \<Longrightarrow> ap_closed p' = ap_closed p \<Longrightarrow> ap_shut p'"
  using past_CEnd(1) [of "ap_closers p'"] by (auto simp: ap_shut_def)

lemma worker_shut:
  assumes "ap_shut p" "ap_worker i st p = Some p'"
  shows "ap_shut p'"
  using assms(2)
proof (rule worker_effect)
  assume i: "i < length (ap_workers p)" "ap_workers p ! i \<noteq> AExit" and f: "ap_closers p' = ap_closers p" "ap_closed p' = ap_closed p"
  then have "\<not> list_all (\<lambda>w. w = AExit) (ap_workers p)" by (auto simp: list_all_length)
  then have "\<not> past (ap_closers p)" using assms(1) by (auto simp: ap_shut_def)
  then show ?thesis using shut_before [of p' p] assms(1) f by simp
qed

lemma finishing_lock: "\<not> list_ex holds_lock cs \<Longrightarrow> concat (map finishing cs) = []"
proof (induction cs)
  case (Cons c cs)
  then show ?case by (cases c) simp_all
qed simp

lemma closer_shut:
  assumes "ap_shut p" "ap_closer c st p = Some p'"
  shows "ap_shut p'"
  using assms(2)
proof (rule closer_effect)
  fix w
  assume e: "c < length (ap_closers p)" "ap_closers p' = (ap_closers p)[c := w]" "length (ap_queue p') \<le> length (ap_queue p)" "ap_workers p' = ap_workers p"
    "ap_submitting p' = ap_submitting p" "ap_closed p' = ap_closed p" "ap_scaler p' = ap_scaler p"
    and k: "(ap_closers p ! c = CClaim \<and> w = CWait) \<or> (ap_closers p ! c = CWait \<and> w = CDrain \<and> ap_scaler p = ScExit \<and> list_all (\<lambda>w. w = AExit) (ap_workers p) \<and> ap_submitting p = []
        \<and> \<not> list_ex holds_lock (ap_closers p))
      \<or> (ap_closers p ! c = CDrain \<and> (\<exists>j. w = CRun j \<and> ap_queue p \<noteq> [])) \<or> ((\<exists>j. ap_closers p ! c = CRun j) \<and> w = CDrain) \<or> (ap_closers p ! c = CDrain \<and> w = CEnd \<and> ap_queue p = [])"
  note n = length_filter_set [OF e(1), of holds_lock w] and x = nth_mem [OF e(1)]
  have q: "ap_queue p = [] \<Longrightarrow> ap_queue p' = []" using e(3) by simp
  have stopped: "ap_scaler p = ScExit \<and> list_all (\<lambda>w. w = AExit) (ap_workers p) \<and> ap_submitting p = []" if "past (ap_closers p')"
  proof (cases "past (ap_closers p)")
    case True
    then show ?thesis using assms(1) by (simp add: ap_shut_def)
  next
    case False
    then have "\<not> holds_lock (ap_closers p ! c)" using past_CEnd(2) [OF x] by blast
    moreover have "holds_lock w \<or> w = CEnd" using that False set_update_subset_insert [of "ap_closers p" c w] by (auto simp: e(2) past_def list_ex_iff)
    ultimately show ?thesis using k by auto
  qed
  have one: "length (filter holds_lock (ap_closers p')) \<le> 1"
  proof (cases "list_ex holds_lock (ap_closers p)")
    case False
    then have "filter holds_lock (ap_closers p) = []" by (simp add: list_ex_iff filter_empty_conv)
    then show ?thesis using n by (simp add: e(2) split: if_splits)
  next
    case True
    then show ?thesis using n k assms(1) by (auto simp: e(2) ap_shut_def)
  qed
  have ended: "ap_queue p' = [] \<and> concat (map finishing (ap_closers p')) = []" if "CEnd \<in> set (ap_closers p')"
  proof (cases "CEnd \<in> set (ap_closers p)")
    case True
    then have i: "ap_queue p = []" "concat (map finishing (ap_closers p)) = []" using assms(1) by (simp_all add: ap_shut_def)
    then have "finishing w = []" using k x by auto
    then show ?thesis using i q set_update_subset_insert [of "ap_closers p" c w] by (auto simp: e(2))
  next
    case False
    then have "w = CEnd" using that set_update_subset_insert [of "ap_closers p" c w] by (auto simp: e(2))
    then have l: "ap_closers p ! c = CDrain" "ap_queue p = []" using k by auto
    have "length (filter holds_lock (ap_closers p)) \<le> 1" using assms(1) by (simp add: ap_shut_def)
    then have "length (filter holds_lock (ap_closers p')) = 0" using n l \<open>w = CEnd\<close> unfolding e(2) by (simp del: length_0_conv)
    then have "\<not> list_ex holds_lock (ap_closers p')" unfolding length_0_conv by (simp add: list_ex_iff filter_empty_conv)
    then show ?thesis using q l finishing_lock by blast
  qed
  show ?thesis unfolding ap_shut_def e(4-7)
  proof (intro conjI)
    show "ap_closers p' \<noteq> [] \<longrightarrow> ap_closed p" using assms(1) e(1) by (auto simp: ap_shut_def)
  qed (use stopped one ended in blast)+
qed

lemma ap_do_shut: "ap_shut p \<Longrightarrow> ap_do ev p = Some p' \<Longrightarrow> ap_shut p'"
proof (cases ev)
  case (ASubmit t j)
  assume "ap_shut p" "ap_do ev p = Some p'"
  then show ?thesis using ASubmit by (auto simp: ap_check_def ap_shut_def past_def split: if_splits)
next
  case (ASelect k c)
  assume s: "ap_shut p" "ap_do ev p = Some p'"
  then have e: "ap_select k c p = Some p'" using ASelect by simp
  have "\<not> past (ap_closers p)" using s(1) ap_select_effect(1) [OF e] by (auto simp: ap_shut_def)
  moreover have "ap_closed p' = ap_closed p" using e by (auto simp: ap_select_def Let_def split: if_splits prod.splits)
  ultimately show ?thesis using shut_before [of p' p] s(1) ap_select_effect(2) [OF e] by simp
next
  case (AScale st)
  assume s: "ap_shut p" "ap_do ev p = Some p'"
  then have "ap_scaler p \<noteq> ScExit" using AScale by (cases st) (auto simp: ap_scale_def split: option.splits)
  then have "\<not> past (ap_closers p)" using s(1) by (auto simp: ap_shut_def)
  moreover have "ap_closers p' = ap_closers p \<and> ap_closed p' = ap_closed p" using s(2) AScale
    by (cases st; cases "ap_scaler p") (auto simp: ap_scale_def scale_act_def ap_grow_def grow_one_def ap_shrink_def split: option.splits if_splits)
  ultimately show ?thesis using shut_before [of p' p] s(1) by simp
next
  case AClose
  assume "ap_shut p" "ap_do ev p = Some p'"
  then show ?thesis using AClose by (cases "ap_closed p") (auto simp: ap_Close_def ap_shut_def past_def)
next
  case (AWork i st)
  assume "ap_shut p" "ap_do ev p = Some p'"
  then show ?thesis using worker_shut [of p i st p'] AWork by simp
next
  case (ACloser c st)
  assume "ap_shut p" "ap_do ev p = Some p'"
  then show ?thesis using closer_shut [of p c st p'] ACloser by simp
qed

subsection \<open>Every accepted job runs\<close>

lemma ap_do_handed:
  assumes "ap_do ev p = Some p'"
  shows "mset (map snd (ap_submitting p')) + mset (ap_accepted p') + mset (ap_refused p')
    = mset (map snd (ap_submitting p)) + mset (ap_accepted p) + mset (ap_refused p) + mset (ap_submitted [ev])"
proof (cases ev)
  case (ASelect k c)
  then show ?thesis using assms ap_select_effect(4) by simp
next
  case (AWork i st)
  then have "ap_worker i st p = Some p'" using assms by simp
  then show ?thesis unfolding AWork by (rule worker_effect) simp
next
  case (ACloser c st)
  then have "ap_closer c st p = Some p'" using assms by simp
  then show ?thesis unfolding ACloser by (rule closer_effect) simp
next
  case (AScale st)
  then show ?thesis using assms
    by (cases st; cases "ap_scaler p") (auto simp: ap_scale_def scale_act_def ap_grow_def grow_one_def ap_shrink_def split: option.splits if_splits)
qed (use assms in \<open>auto simp: ap_check_def ap_Close_def split: if_splits\<close>)

lemma ap_submitted_Cons: "ap_submitted (ev # evs) = ap_submitted [ev] @ ap_submitted evs"
  by (cases ev) simp_all

lemma ap_run_inv:
  "ap_run evs p = Some p' \<Longrightarrow> ap_books p \<Longrightarrow> ap_shut p \<Longrightarrow> ap_books p' \<and> ap_shut p'
    \<and> mset (map snd (ap_submitting p')) + mset (ap_accepted p') + mset (ap_refused p')
      = mset (map snd (ap_submitting p)) + mset (ap_accepted p) + mset (ap_refused p) + mset (ap_submitted evs)"
proof (induction evs arbitrary: p)
  case (Cons ev evs)
  obtain q where q: "ap_do ev p = Some q" "ap_run evs q = Some p'" using Cons.prems(1) by (auto split: option.splits)
  have "ap_books q" "ap_shut q" using ap_do_books ap_do_shut q(1) Cons.prems(2,3) by blast+
  then show ?case using Cons.IH [OF q(2)] ap_do_handed [OF q(1)] by (simp add: ap_submitted_Cons [of ev evs] ac_simps)
qed simp

lemma ap_New_inv:
  assumes "ap_New cpus opts = Inr p"
  shows "ap_books p" "ap_shut p" "ap_submitting p = []" "ap_accepted p = []" "ap_refused p = []"
proof -
  obtain q n where p: "p = ap_grow n q" and b: "ap_books q" and q: "ap_submitting q = []" "ap_accepted q = []" "ap_refused q = []" "ap_closers q = []"
    using assms by (auto simp: ap_New_def Let_def ap_books_def alive_def split: if_splits intro!: that)
  have "ap_submitting (ap_grow n q) = ap_submitting q \<and> ap_accepted (ap_grow n q) = ap_accepted q \<and> ap_refused (ap_grow n q) = ap_refused q \<and> ap_closers (ap_grow n q) = ap_closers q"
    by (induction n) (auto simp: ap_grow_def grow_one_def)
  then show "ap_submitting p = []" "ap_accepted p = []" "ap_refused p = []" "ap_shut p" "ap_books p"
    using q grow_books [OF b] by (simp_all add: p ap_shut_def past_def)
qed

text \<open>
  C39. Under every interleaving of callers, workers, autoscaler and calls of Close each submitted job is in exactly one
  place, the queue stays within its capacity and the count of live workers is exact and at most MaxWorkers.  Once a
  call of Close has returned every job that was ever accepted has run, and no worker is left.
\<close>

theorem adaptive_accounts:
  assumes "ap_New cpus opts = Inr p0" "ap_run evs p0 = Some p"
  shows "mset (ap_submitted evs) = mset (map snd (ap_submitting p)) + mset (ap_accepted p) + mset (ap_refused p)
    \<and> mset (ap_accepted p) = mset (ap_queue p) + mset (concat (map doing (ap_workers p))) + mset (concat (map finishing (ap_closers p))) + mset (ap_ran p)
    \<and> length (ap_queue p) \<le> ap_cap p \<and> ap_live p = int (alive (ap_workers p)) \<and> ap_live p \<le> ap_max p
    \<and> (CEnd \<in> set (ap_closers p) \<longrightarrow> mset (ap_accepted p) = mset (ap_ran p) \<and> ap_submitting p = [] \<and> ap_live p = 0)"
proof -
  note n = ap_New_inv [OF assms(1)]
  from ap_run_inv [OF assms(2) n(1,2)] n(3-5)
  have i: "ap_books p" "ap_shut p" "mset (ap_submitted evs) = mset (map snd (ap_submitting p)) + mset (ap_accepted p) + mset (ap_refused p)" by simp_all
  have "mset (ap_accepted p) = mset (ap_ran p) \<and> ap_submitting p = [] \<and> ap_live p = 0" if "CEnd \<in> set (ap_closers p)"
  proof -
    have q: "ap_queue p = []" "concat (map finishing (ap_closers p)) = []" using i(2) that by (simp_all add: ap_shut_def)
    have w: "list_all (\<lambda>w. w = AExit) (ap_workers p)" "ap_submitting p = []" using i(2) past_CEnd(1) [OF that] by (simp_all add: ap_shut_def)
    then have "concat (map doing (ap_workers p)) = []" "alive (ap_workers p) = 0" by (auto simp: list_all_iff alive_def filter_empty_conv)
    then show ?thesis using i(1) q w by (simp add: ap_books_def)
  qed
  then show ?thesis using i by (simp add: ap_books_def)
qed

theorem adaptive_accounts_witness:
  "\<exists>p0 p. ap_New 4 [ap_WithMaxWorkers 2] = Inr p0
    \<and> ap_run [ASubmit False ''a'', ASelect 0 ChQueue, AClose, ACloser 0 CtDone, AScale StDone, AWork 0 AtSeeDone, AWork 0 AtTake, AWork 0 (AtFinish True), AWork 0 AtDrained,
        ACloser 0 CtLock, ACloser 0 CtEnd] p0 = Some p
    \<and> CEnd \<in> set (ap_closers p) \<and> ap_accepted p = [''a''] \<and> mset (ap_accepted p) = mset (ap_ran p) \<and> ap_live p = 0"
proof -
  let ?evs = "[ASubmit False ''a'', ASelect 0 ChQueue, AClose, ACloser 0 CtDone, AScale StDone, AWork 0 AtSeeDone, AWork 0 AtTake, AWork 0 (AtFinish True), AWork 0 AtDrained,
        ACloser 0 CtLock, ACloser 0 CtEnd]"
  have "case ap_New 4 [ap_WithMaxWorkers 2] of Inl e \<Rightarrow> False | Inr p0 \<Rightarrow> map_option (\<lambda>p. (ap_closers p, ap_accepted p)) (ap_run ?evs p0) = Some ([CEnd], [''a''])"
    by code_simp
  then obtain p0 p where p: "ap_New 4 [ap_WithMaxWorkers 2] = Inr p0" "ap_run ?evs p0 = Some p" "ap_closers p = [CEnd]" "ap_accepted p = [''a'']"
    by (auto split: sum.splits)
  have "CEnd \<in> set (ap_closers p)" by (simp add: p(3))
  with adaptive_accounts [OF p(1,2)] have "mset (ap_accepted p) = mset (ap_ran p)" "ap_live p = 0" by blast+
  with p(1,2,4) \<open>CEnd \<in> set (ap_closers p)\<close> show ?thesis by blast
qed

text \<open>
  Two hot samples in a row while the workers are busy signal two of them, since a worker leaves the count only when
  it exits: the pool falls below \<open>MinWorkers\<close>, here to none, and a job that waits in the queue has nobody to run it.
\<close>

lemma shrinks_below_minimum:
  "case ap_New 4 [ap_WithMinWorkers 1, ap_WithMaxWorkers 2, ap_WithQueueSize 3] of Inl e \<Rightarrow> False
   | Inr p0 \<Rightarrow> map_option (\<lambda>p. (ap_min p, ap_live p, ap_queue p))
      (ap_run ([ASubmit False 1, ASelect 0 ChQueue, AScale StTick, AScale (StSample (Some 0)), AScale StLoad, AScale StAct, AWork 0 AtTake,
         ASubmit False 2, ASelect 0 ChQueue, AWork 1 AtTake]
        @ [AScale StTick, AScale (StSample (Some 1)), AScale StLoad, AScale StAct, AScale StTick, AScale (StSample (Some 1)), AScale StLoad, AScale StAct]
        @ [ASubmit False (3 :: nat), ASelect 0 ChQueue, AWork 0 (AtFinish False), AWork 1 (AtFinish False), AWork 0 AtSeeStop, AWork 1 AtSeeStop]) p0) = Some (1, 0, [3])"
  by code_simp

end
