(* ===== verification/Spec2Isabelle.thy ===== *)
theory Spec2Isabelle
  imports Prelude Strconv Money Decimal Base62 Auction Ringbuf Ringbuffer Queue_Stack Priority_Queue Topk Interval Cache Fsm
    Freqcap Load_Balance Limiter Breaker Rendezvous Gset Bitset Trie Bloom Countmin Bimap Featureflag Semaphore Idempotency Limiter_Buckets Backoff Retry Batcher Budget Bit_Tricks Kafka_Writer Logger
    Shortlink Sliding_Window Wtimer Datetime File_Writer Net_Writer Latency Hotkey Debounce Worker_Pool Shutdown Adaptive
begin

section \<open>A verification library for kit4go\<close>

text \<open>
  kit4go is a toolkit of Go packages for advertising and service back ends.  The packages are
  independent but for a few: \<open>cache\<close> is built on \<open>lru\<close>, \<open>idempotency\<close> and \<open>limiter\<close> stand alone, \<open>retry\<close>
  follows the delay rules of \<open>backoff\<close>, and the logging package \<open>log4go\<close> ties a logger, its record
  renderings, its sampling, an overflow store, a circuit breaker and the Kafka, file and network writers together.  Each package
  with logic of its own is a theory here; packages that only wrap a client, a socket, a file or a library are
  listed under the parts that are not modelled.

  \<^bold>\<open>How Go is read\<close> (\<open>Prelude\<close>, \<open>Strconv\<close>, \<open>Float64\<close>, \<open>Second_Ring\<close>, \<open>Hashing\<close>, \<open>Bit_Buffer\<close>, \<open>Heap\<close>, \<open>Bufio\<close>,
  \<open>Civil\<close>).
  \<open>Prelude\<close> reads \<open>int\<close> and \<open>int64\<close> as integers with \<open>wrap64\<close> at every operation that can overflow, and
  \<open>uint64\<close>, \<open>uint32\<close> as words; errors are values of a sum or option type and a panic is \<open>None\<close> (or an outcome
  constructor where the code recovers it).  \<open>Strconv\<close> holds what the sources use of \<open>strconv\<close>, \<open>strings\<close>, \<open>fmt\<close>
  and \<open>math/big\<close>.  \<open>Float64\<close> is binary64 rounding \<open>fl64\<close> on rationals, so that a Go expression on floats is
  the same expression with \<open>fl64\<close> around every operation; where \<open>NaN\<close> and the infinities can reach the code
  (\<open>Budget\<close>) they are constructors.  \<open>Hashing\<close> is FNV-1a and the double hashing of the probabilistic
  structures, \<open>Bit_Buffer\<close> a slice of words as a bit array, \<open>Heap\<close> the algorithms of \<open>container/heap\<close>,
  \<open>Bufio\<close> the buffered writer of the standard library and \<open>Civil\<close> the Gregorian calendar of package \<open>time\<close>.
  Clocks, random sources, map iteration orders and unstable sorts are arguments of the definitions that use
  them, so that every theorem holds for every clock, source and order.  A method under a mutex is one step;
  where a method takes several atomic steps, the steps are definitions and their interleavings are an
  inductive relation or a run over a schedule.

  \<^bold>\<open>Interfaces\<close>.  Contracts that several packages share are locales, each interpreted on the models that
  provide it; the client lemmas are proved once in the locale.
  \<^item> \<open>Buffer_Spec\<close>: \<open>container\<close> and its extensions \<open>fifo_container\<close>, \<open>lifo_container\<close> and \<open>window_container\<close>;
    interpreted for the queue (\<open>queue_c\<close>), the stack (\<open>stack_c\<close>), the overwriting ring (\<open>cb\<close>) and the blocking
    ring (\<open>rbc\<close>).
  \<^item> \<open>Map_Spec\<close>: \<open>map_adt\<close>, a lookup finds the last write; the trie (\<open>tr\<close>) and the logger's base fields (\<open>bf\<close>).
  \<^item> \<open>Set_Spec\<close>: \<open>set_adt\<close> and \<open>set_adt2\<close>; the bit set (\<open>bs\<close>) and the generic set (\<open>gs\<close>, \<open>gs2\<close>).
  \<^item> \<open>Heap\<close>: \<open>heap_container\<close>; the priority queue (\<open>pqh\<close>), the tracker of top keys (\<open>thh\<close>) and
    the timer wheel (\<open>wth\<close>).
  \<^item> \<open>Cache\<close>: \<open>store\<close>, the interface of a cache backend; the in-memory store over the model of \<open>lru\<close> (\<open>mem\<close>).
  \<^item> \<open>Second_Ring\<close>: \<open>second_ring\<close>, per-second buckets as the events of a trailing window (\<open>sr\<close>), used by the
    sliding-window limiter and the breaker.
  \<^item> \<open>Bufio\<close>: \<open>byte_sink\<close>, a device whose write takes a prefix of what it is given, with the lemmas on a buffered
    writer over it; the disk of the spill store (\<open>dk\<close>) and the file system of the file writer, open (\<open>ff\<close>) and
    closed (\<open>cf\<close>).
  \<^item> \<open>Log_Queue\<close>: \<open>overflow_store\<close>, a store that may displace old records, which every \<open>spiller\<close> is (a sublocale),
    interpreted for the store with an overwriting ring (\<open>sx\<close>); and \<open>log_consumer\<close>, what the log pipeline needs of the writer behind it: the file writer
    (\<open>fwc\<close>) and the network writer (\<open>nwc\<close>).
  \<^item> \<open>Limiter_Buckets\<close>: \<open>level_rule\<close>, one decision of a bucket under compare-and-swap; token bucket (\<open>tb\<close>) and
    leaky bucket (\<open>lk\<close>).
  \<^item> \<open>Shortlink\<close>: \<open>link_store\<close>, where short codes are kept; the in-memory store (\<open>ms\<close>).
  \<^item> \<open>Spill\<close>: \<open>spiller\<close>, a store that gives back what it took, and \<open>two_level\<close>, a fast store before a slow
    one, which is a \<open>spiller\<close> again (a sublocale); ring (\<open>rng\<close>), file (\<open>fs\<close>), chain (\<open>rf\<close>) and the store the
    writers hold (\<open>st\<close>).

  \<^bold>\<open>Values and algorithms\<close>.
  \<^item> \<open>Money\<close> (\<open>src/money\<close>): checked arithmetic returns the exact amount or the overflow error, division
    rounds as its mode says, parsing is exact and inverts rendering.
  \<^item> \<open>Decimal\<close> (\<open>src/decimal\<close>): exact arithmetic on the rational value; rendering and parsing.
  \<^item> \<open>Base62\<close> (\<open>src/base62\<close>): the codec and its inverse for every valid alphabet.
  \<^item> \<open>Shortlink\<close> (\<open>src/shortlink\<close>): random codes over a store, and the codec of sequential identifiers.
  \<^item> \<open>Auction\<close> (\<open>src/auction\<close>): second-price and multi-slot resolution.
  \<^item> \<open>Interval\<close> (\<open>src/interval\<close>): merging into the canonical separated list.
  \<^item> \<open>Bit_Tricks\<close> (\<open>src/bit\<close>): the tricks equal the operations they are named after; the carry loop is a
    \<open>partial_function\<close> proved to return.
  \<^item> \<open>Backoff\<close>, \<open>Retry\<close> (\<open>src/backoff\<close>, \<open>src/retry\<close>): delay rules and the retry loop, a \<open>partial_function\<close>
    because without a limit it may run forever; a positive limit makes it return.
  \<^item> \<open>Budget\<close> (\<open>src/budget\<close>): pacing decisions for every float64 spend.
  \<^item> \<open>Featureflag\<close>, \<open>Rendezvous\<close>, \<open>Load_Balance\<close> (\<open>src/featureflag\<close>, \<open>src/consistenthash\<close>,
    \<open>src/loadbalance\<close>): rollout, highest-random-weight hashing with minimal disruption, smooth weighted
    round robin with exact proportions.
  \<^item> \<open>Datetime\<close> (\<open>src/datetime\<close>): boundaries of days, months and weeks, day counts and ranges.
  \<^item> \<open>Latency\<close> (\<open>src/latency\<close>): the histogram answers for exactly the samples of the trailing window, each
    percentile within the range of the sample of its rank; shards answer as one histogram.
  \<^item> \<open>Shutdown\<close> (\<open>src/shutdown\<close>): the depth-first order of components, start with rollback and stop.  The search
    has one more than the number of components as its fuel, and never runs out of it.

  \<^bold>\<open>Containers\<close>.  \<open>Ringbuf\<close>, \<open>Queue_Stack\<close>, \<open>Priority_Queue\<close> (an explicit store of items, since callers keep
  pointers), \<open>Topk\<close>, \<open>Lru\<close> (list elements with identity and a key map, refined to a recency list), \<open>Cache\<close>,
  \<open>Gset\<close>, \<open>Bitset\<close>, \<open>Trie\<close>, \<open>Bimap\<close>, \<open>Bloom\<close>, \<open>Countmin\<close>, \<open>Sliding_Window\<close> (values as finite float64), each of the package of its name.  The lemmas are the
  invariant of the representation, preserved by every operation, and the refinement of the abstract list,
  set or map.

  \<^bold>\<open>Concurrent components\<close>.
  \<^item> \<open>Ringbuffer\<close> (\<open>src/ringbuffer\<close>): critical sections, condition variable and blocked threads as the
    relation \<open>rb_step\<close>; first-in first-out and no lost wake-up.
  \<^item> \<open>Fsm\<close> (\<open>src/fsm\<close>): concurrent \<open>Send\<close>s over the two mutexes commit one path of rules.
  \<^item> \<open>Freqcap\<close>, \<open>Hotkey\<close> (\<open>src/freqcap\<close>, \<open>src/hotkey\<close>): slices with their backing array, because the eviction
    aliases them.
  \<^item> \<open>Limiter\<close>, \<open>Limiter_Buckets\<close> (\<open>src/limiter\<close>): all five algorithms; fixed window, buckets and GCRA as
    interleaved atomic operations.
  \<^item> \<open>Breaker\<close> (\<open>src/breaker\<close>): calls overlap at the parts before and after the caller's function; trips
    exactly at the failure rate of the window and never wedges half-open.
  \<^item> \<open>Semaphore\<close>, \<open>Idempotency\<close>, \<open>Batcher\<close> (packages of the same names): channel and mutex operations of any
    number of callers as step relations; permits are conserved, one leader per key, nothing lost or reordered.
  \<^item> \<open>Wtimer\<close> (\<open>src/wtimer\<close>): the goroutine of the wheel, its callers and cancellations; no timer early, twice or
    after its cancellation, and no lost wake-up.
  \<^item> \<open>Debounce\<close> (\<open>src/debounce\<close>): calls, timers and goroutines; one run per call at most, after a quiet period.
  \<^item> \<open>Worker_Pool\<close>, \<open>Adaptive\<close> (\<open>src/workerpool\<close>, \<open>src/adaptive\<close>): submitters, workers, autoscaler and \<open>Close\<close>; where
    every job is, that the workers can always leave after \<open>Close\<close>, and that the final drain of the adaptive pool runs every
    accepted job.

  \<^bold>\<open>Logging\<close> (\<open>src/log4go\<close>).
  \<^item> \<open>Log_Record\<close>: typed fields (\<open>field.go\<close>), escaping and times, \<open>Record.JSON\<close>, \<open>Logfmt\<close> and \<open>String\<close>, and the
    Kafka payload; a JSON reader gets every string back and a rendered record is one line.
  \<^item> \<open>Log_Sampling\<close>: the burst sampler and the id-based strategies.
  \<^item> \<open>Logger\<close> (\<open>log.go\<close>, \<open>context.go\<close>): a root logger and its children over one channel; log calls,
    hand-overs, deliveries, reconfiguration and \<open>Close\<close> interleave in \<open>lt_run\<close>; order, bounds, counters and
    sequence numbers.
  \<^item> \<open>Spill\<close> (\<open>kafka_overflow.go\<close>): overflow counters, ring, file over a disk with a buffered writer that may
    crash or fill up at any byte, chain and recovery.
  \<^item> \<open>Kafka_Breaker\<close> (\<open>kafka_breaker.go\<close>): the state machine of the producer's breaker.
  \<^item> \<open>Kafka_Writer\<close> (\<open>kafka_writer.go\<close>): queue, daemon in both modes, fail-over, periodic drain, start and
    stop; where every record is, and what shutdown does with it.
  \<^item> \<open>Log_Queue\<close>: the pipeline that the file and the network writer share, as interleaved steps of callers and daemon.
  \<^item> \<open>File_Writer\<close> (\<open>file_writer.go\<close>), \<open>Net_Writer\<close> (\<open>net_writer.go\<close>): path patterns, rotation over the calendar and
    buffered writes; lazy dialling and reconnection; where every record is and what each file holds.

  \<^bold>\<open>Bounds and fuel\<close>.  Loops are structural recursions or functions with a measure (\<open>bw_Write\<close> and
  \<open>decode_frames\<close> consume their input, \<open>evictCandidates\<close> the candidates, \<open>ring_roll\<close> and \<open>brk_roll\<close> the seconds
  to expire).  \<open>resize_loop\<close> of \<open>Lru\<close> has the length of the list as its fuel and removes one element per round,
  so it never runs out; so does \<open>clean_top\<close> of \<open>Wtimer\<close> with the heap.  A call that nobody interrupts is a run of its own
  steps: at most eight for the fixed window (\<open>fw_steps\<close>), six for a bucket (\<open>bk_steps\<close>) and four for GCRA
  (\<open>gcra_steps\<close>), the number of atomic operations on the longest path; the interleaved runs have no bound.  The
  polling loops of \<open>Wait\<close> run on a sequence of polls and end at the poll that finds the limiter closed or the
  context done.  The breaker theorems hold for fewer than \<open>2^32\<close> transitions, the number its generation
  counter distinguishes, and sequence numbers of records are distinct for fewer than \<open>2^64\<close> steps.

  \<^bold>\<open>Not modelled\<close>.  Scaling and allocation of money, the sizing formulas of the Bloom filter and the
  count-min sketch and the packages \<open>hyperloglog\<close>, \<open>stats\<close> and \<open>rate\<close>, which rest on the
  elementary functions of \<open>math\<close>; the clients and servers (\<open>redis\<close>, \<open>kafka\<close>, \<open>mongo\<close>, \<open>postgres\<close>, \<open>grpcclient\<close>,
  \<open>httpclient\<close>, \<open>tcpclient\<close> and their like), which are input and output over the network or third-party libraries; pools
  (\<open>bytespool\<close>, \<open>objpool\<close>), an allocation detail; of \<open>log4go\<close>, the console and webhook writers, the rate alerter,
  the capture of the caller's position and the configuration files; signals and \<open>Run\<close> of \<open>shutdown\<close>; and \<open>ip\<close>, \<open>otp\<close>,
  \<open>number\<close>, \<open>str\<close>, \<open>signalbus\<close>, \<open>fanout\<close>, \<open>pipeline\<close>, \<open>multimap\<close> and the small generic helpers, which could be
  modelled the same way.
\<close>

end
